(* ===== verification/Qs_Prelude.thy ===== *)
theory Qs_Prelude
  imports Main "HOL-Library.Word" "HOL-Library.Monad_Syntax" "HOL-Library.Signed_Division"
begin

text \<open>
  Shared vocabulary of the development: the machine types of the C code, the reading of a
  fault (a dereference of NULL or of unmapped memory) as the value None of the option monad,
  the sweep of a list that every reclamation scan performs, and the few word and list facts
  the component theories use.
\<close>

unbundle bit_operations_syntax

named_theorems qs_defs \<open>definitions of single operations, unfolded by the component proofs\<close>

section \<open>Machine types\<close>

type_synonym ptr = "64 word"
type_synonym u8 = "8 word"
type_synonym u16 = "16 word"
type_synonym u32 = "32 word"
type_synonym u64 = "64 word"

text \<open>Keys and values are \<open>intptr_t\<close> in the code; they are compared but never computed with.\<close>

type_synonym skey_t = int
type_synonym sval_t = int

abbreviation NULL :: ptr where "NULL \<equiv> 0"

section \<open>Word facts\<close>

lemma unat_succ:
  fixes x :: "'a::len word"
  assumes "unat x + 1 < 2 ^ LENGTH('a)"
  shows "unat (x + 1) = unat x + 1"
  using assms by (simp add: unat_word_ariths unat_of_nat)

lemma unat_pred:
  fixes x :: "'a::len word"
  assumes "unat x = Suc n"
  shows "unat (x - 1) = n"
proof -
  have "x \<noteq> 0" using assms by auto
  then show ?thesis using assms by (simp add: unat_minus_one)
qed

lemma unat_pos_iff: "0 < x \<longleftrightarrow> 0 < unat x" for x :: "'a::len word"
  by (simp add: word_less_nat_alt)

lemma unat_of_nat_less: "n < 2 ^ LENGTH('a) \<Longrightarrow> unat (of_nat n :: 'a::len word) = n"
  by (simp add: unat_of_nat take_bit_nat_eq_self)

lemma unat_u8_less: "unat (x :: u8) < 256"
  using unsigned_less [of x] by simp

lemma unat_u16_less: "unat (x :: u16) < 65536"
  using unsigned_less [of x] by simp

lemma unat_u32_less: "unat (x :: u32) < 2 ^ 32"
  using unsigned_less [of x] by simp

lemma unat_u64_less: "unat (x :: u64) < 2 ^ 64"
  using unsigned_less [of x] by simp

lemma unat_add_of_nat:
  fixes x :: "'a::len word"
  assumes "unat x + n < 2 ^ LENGTH('a)"
  shows "unat (x + of_nat n) = unat x + n"
  using assms by (simp add: unat_word_ariths unat_of_nat take_bit_nat_eq_self)

lemma of_nat_eq_iff_less:
  assumes "m < 2 ^ LENGTH('a)" "n < 2 ^ LENGTH('a)"
  shows "(of_nat m :: 'a::len word) = of_nat n \<longleftrightarrow> m = n"
proof
  assume "(of_nat m :: 'a word) = of_nat n"
  then have "unat (of_nat m :: 'a word) = unat (of_nat n :: 'a word)" by simp
  then show "m = n" using assms by (simp add: unat_of_nat take_bit_nat_eq_self)
qed simp

lemma sint_small:
  assumes "unat (x :: u32) < 2 ^ 31"
  shows "sint x = int (unat x)"
proof -
  have "uint x < 2 ^ 31" using assms by transfer simp
  moreover have "- (2 ^ 31) \<le> uint x" by (rule order_trans [of _ 0]) simp_all
  ultimately show ?thesis by (simp add: sint_uint) (rule signed_take_bit_int_eq_self, simp_all)
qed

section \<open>Lists and the option monad\<close>

lemma length_filter_rev [simp]: "length (filter P (rev xs)) = length (filter P xs)"
  by (metis length_rev rev_filter)

lemma distinct_map_filter: "distinct (map f xs) \<Longrightarrow> distinct (map f (filter P xs))"
  by (induction xs) auto

lemma bind_SomeI: "m = Some x \<Longrightarrow> f x = r \<Longrightarrow> Option.bind m f = r"
  by simp

section \<open>Sweeping a list\<close>

text \<open>
  A scan pops the nodes of a list one after the other and keeps or reclaims each; the
  decision may depend on how many nodes were popped before (the clock is read once per
  node). \<open>sweep keep i xs\<close> gives the kept and the reclaimed nodes, in the order popped.
\<close>

fun sweep :: "(nat \<Rightarrow> 'a \<Rightarrow> bool) \<Rightarrow> nat \<Rightarrow> 'a list \<Rightarrow> 'a list \<times> 'a list" where
  "sweep keep i [] = ([], [])"
| "sweep keep i (x # xs) =
     (let (ks, fs) = sweep keep (Suc i) xs
      in if keep i x then (x # ks, fs) else (ks, x # fs))"

definition kept :: "(nat \<Rightarrow> 'a \<Rightarrow> bool) \<Rightarrow> nat \<Rightarrow> 'a list \<Rightarrow> 'a list" where
  "kept keep i xs = fst (sweep keep i xs)"

definition reclaimed :: "(nat \<Rightarrow> 'a \<Rightarrow> bool) \<Rightarrow> nat \<Rightarrow> 'a list \<Rightarrow> 'a list" where
  "reclaimed keep i xs = snd (sweep keep i xs)"

lemma kept_simps [simp]:
  "kept keep i [] = []"
  "kept keep i (x # xs) =
     (if keep i x then x # kept keep (Suc i) xs else kept keep (Suc i) xs)"
  by (simp_all add: kept_def split: prod.splits)

lemma reclaimed_simps [simp]:
  "reclaimed keep i [] = []"
  "reclaimed keep i (x # xs) =
     (if keep i x then reclaimed keep (Suc i) xs else x # reclaimed keep (Suc i) xs)"
  by (simp_all add: reclaimed_def split: prod.splits)

lemma sweep_set: "set (kept keep i xs) \<union> set (reclaimed keep i xs) = set xs"
  by (induction xs arbitrary: i) auto

lemma kept_subset: "set (kept keep i xs) \<subseteq> set xs"
  using sweep_set [of keep i xs] by blast

lemma reclaimed_subset: "set (reclaimed keep i xs) \<subseteq> set xs"
  using sweep_set [of keep i xs] by blast

lemma sweep_length: "length (kept keep i xs) + length (reclaimed keep i xs) = length xs"
  by (induction xs arbitrary: i) auto

lemma kept_length_le: "length (kept keep i xs) \<le> length xs"
  using sweep_length [of keep i xs] by arith

lemma in_kept: "x \<in> set (kept keep i xs) \<Longrightarrow> x \<in> set xs"
  using kept_subset [of keep i xs] by auto

lemma in_reclaimed: "x \<in> set (reclaimed keep i xs) \<Longrightarrow> x \<in> set xs"
  using reclaimed_subset [of keep i xs] by auto

lemma distinct_kept: "distinct xs \<Longrightarrow> distinct (kept keep i xs)"
proof (induction xs arbitrary: i)
  case (Cons x xs)
  then have "x \<notin> set (kept keep (Suc i) xs)" using kept_subset [of keep "Suc i" xs] by auto
  with Cons show ?case by simp
qed simp

lemma distinct_reclaimed: "distinct xs \<Longrightarrow> distinct (reclaimed keep i xs)"
proof (induction xs arbitrary: i)
  case (Cons x xs)
  then have "x \<notin> set (reclaimed keep (Suc i) xs)" using reclaimed_subset [of keep "Suc i" xs] by auto
  with Cons show ?case by simp
qed simp

lemma sweep_disjoint:
  "distinct xs \<Longrightarrow> set (kept keep i xs) \<inter> set (reclaimed keep i xs) = {}"
proof (induction xs arbitrary: i)
  case (Cons x xs)
  then show ?case
    using kept_subset [of keep "Suc i" xs] reclaimed_subset [of keep "Suc i" xs] by auto
qed simp

lemma sweep_const:
  "kept (\<lambda>_. p) i xs = filter p xs"
  "reclaimed (\<lambda>_. p) i xs = filter (\<lambda>x. \<not> p x) xs"
  by (induction xs arbitrary: i) auto

lemma kept_keep: "x \<in> set (kept keep i xs) \<Longrightarrow> \<exists>j. i \<le> j \<and> j < i + length xs \<and> keep j x"
proof (induction xs arbitrary: i)
  case (Cons y xs)
  show ?case
  proof (cases "x \<in> set (kept keep (Suc i) xs)")
    case True
    then obtain j where "Suc i \<le> j \<and> j < Suc i + length xs \<and> keep j x" using Cons.IH by blast
    then show ?thesis by (intro exI [of _ j]) auto
  next
    case False
    with Cons.prems have "keep i x" by (auto split: if_splits)
    then show ?thesis by (intro exI [of _ i]) auto
  qed
qed simp

lemma reclaimed_drop:
  "x \<in> set (reclaimed keep i xs) \<Longrightarrow> \<exists>j. i \<le> j \<and> j < i + length xs \<and> \<not> keep j x"
proof (induction xs arbitrary: i)
  case (Cons y xs)
  show ?case
  proof (cases "x \<in> set (reclaimed keep (Suc i) xs)")
    case True
    then obtain j where "Suc i \<le> j \<and> j < Suc i + length xs \<and> \<not> keep j x" using Cons.IH by blast
    then show ?thesis by (intro exI [of _ j]) auto
  next
    case False
    with Cons.prems have "\<not> keep i x" by (auto split: if_splits)
    then show ?thesis by (intro exI [of _ i]) auto
  qed
qed simp

lemma kept_cong:
  "(\<And>j x. x \<in> set xs \<Longrightarrow> keep j x = keep' j x) \<Longrightarrow> kept keep i xs = kept keep' i xs"
  by (induction xs arbitrary: i) auto

lemma reclaimed_cong:
  "(\<And>j x. x \<in> set xs \<Longrightarrow> keep j x = keep' j x) \<Longrightarrow> reclaimed keep i xs = reclaimed keep' i xs"
  by (induction xs arbitrary: i) auto

lemma sweep_shift:
  "kept keep (Suc i) xs = kept (\<lambda>j. keep (Suc j)) i xs"
  "reclaimed keep (Suc i) xs = reclaimed (\<lambda>j. keep (Suc j)) i xs"
  by (induction xs arbitrary: i) auto

end
