(* ===== verification/Ssalloc.thy ===== *)
theory Ssalloc
  imports Qs_Prelude
begin

text \<open>
  The allocator of src/ssalloc.c, as built for the reclamation benchmarks (GC=0, so the
  arenas and not malloc): two bump arenas per thread and, per arena, a ring of 65536 freed
  blocks indexed by 16-bit counters. The theory models allocation and release, shows that
  the ring is a FIFO queue until its counter wraps, what a wrap loses, and that no block is
  handed out twice.
\<close>

section \<open>State and operations\<close>

text \<open>The per-thread arrays, indexed by the allocator number (0: list nodes, 1: wrappers).\<close>

record ssalloc_state =
  app_mem :: "nat \<Rightarrow> u64"
  alloc_next :: "nat \<Rightarrow> u64"
  free_list :: "nat \<Rightarrow> u16 \<Rightarrow> ptr"
  free_cur :: "nat \<Rightarrow> u16"
  free_num :: "nat \<Rightarrow> u16"
  memory_reuse :: u64
  freed_nodes :: u64

definition SSALLOC_NUM_ALLOCATORS :: nat where "SSALLOC_NUM_ALLOCATORS = 2"

definition SSALLOC_SIZE_BIG :: u64 where "SSALLOC_SIZE_BIG = 1024 * 1024 * 1024"

definition SSALLOC_SIZE_SMALL :: u64 where "SSALLOC_SIZE_SMALL = 512 * 1024"

definition ssalloc_size :: "nat \<Rightarrow> u64" where
  "ssalloc_size a = (if a = 0 then SSALLOC_SIZE_SMALL else SSALLOC_SIZE_BIG)"

text \<open>\<open>ssalloc_init\<close> takes one aligned block per allocator from \<open>memalign\<close>; the base
  addresses are what \<open>memalign\<close> returned.\<close>

fun ssalloc_init_loop :: "(nat \<Rightarrow> u64) \<Rightarrow> nat \<Rightarrow> ssalloc_state \<Rightarrow> ssalloc_state option" where
  "ssalloc_init_loop memalign 0 s = Some s"
| "ssalloc_init_loop memalign (Suc n) s =
     (let i = SSALLOC_NUM_ALLOCATORS - Suc n;
          s' = s\<lparr>app_mem := (app_mem s)(i := memalign i)\<rparr>
      in if app_mem s' i = NULL then None else ssalloc_init_loop memalign n s')"

definition ssalloc_init :: "(nat \<Rightarrow> u64) \<Rightarrow> ssalloc_state \<Rightarrow> ssalloc_state option" where
  "ssalloc_init memalign s =
     map_option (\<lambda>s. s\<lparr>memory_reuse := 0, freed_nodes := 0\<rparr>)
       (ssalloc_init_loop memalign SSALLOC_NUM_ALLOCATORS s)"

definition ssalloc_set :: "u64 \<Rightarrow> ssalloc_state \<Rightarrow> ssalloc_state" where
  "ssalloc_set m s = s\<lparr>app_mem := (app_mem s)(0 := m)\<rparr>"

definition ssalloc_offset :: "u64 \<Rightarrow> ssalloc_state \<Rightarrow> ssalloc_state" where
  "ssalloc_offset sz s = s\<lparr>app_mem := (app_mem s)(0 := app_mem s 0 + sz)\<rparr>"

definition ssalloc_alloc :: "nat \<Rightarrow> u64 \<Rightarrow> ssalloc_state \<Rightarrow> ptr \<times> ssalloc_state" where
  "ssalloc_alloc a sz s =
     (if free_num s a > 2 then
        let spot = free_cur s a - free_num s a;
            ret = free_list s a spot
        in (ret, s\<lparr>free_num := (free_num s)(a := free_num s a - 1),
                   memory_reuse := memory_reuse s + 1\<rparr>)
      else if alloc_next s a + sz > ssalloc_size a then (NULL, s)
      else (app_mem s a + alloc_next s a,
            s\<lparr>alloc_next := (alloc_next s)(a := alloc_next s a + sz)\<rparr>))"

definition ssalloc :: "u64 \<Rightarrow> ssalloc_state \<Rightarrow> ptr \<times> ssalloc_state" where
  "ssalloc sz s = ssalloc_alloc 0 sz s"

text \<open>The aligned variant moves the bump pointer to the next multiple of a power of two; it
  only warns when the arena is exceeded.\<close>

definition ssalloc_aligned_alloc :: "nat \<Rightarrow> u64 \<Rightarrow> u64 \<Rightarrow> ssalloc_state \<Rightarrow> (ptr \<times> ssalloc_state) option" where
  "ssalloc_aligned_alloc a alignement sz s =
     (let ret = app_mem s a + alloc_next s a;
          m = ret AND (alignement - 1);
          offset = (if m \<noteq> 0 then alignement - m else 0);
          ret' = ret + offset;
          s' = s\<lparr>alloc_next := (alloc_next s)(a := alloc_next s a + offset + sz)\<rparr>
      in if ret' AND (alignement - 1) = 0 then Some (ret', s') else None)"

definition ssalloc_aligned :: "u64 \<Rightarrow> u64 \<Rightarrow> ssalloc_state \<Rightarrow> (ptr \<times> ssalloc_state) option" where
  "ssalloc_aligned alignment sz s = ssalloc_aligned_alloc 0 alignment sz s"

definition ssfree_alloc :: "nat \<Rightarrow> ptr \<Rightarrow> ssalloc_state \<Rightarrow> ssalloc_state" where
  "ssfree_alloc a p s =
     s\<lparr>freed_nodes := freed_nodes s + 1,
       free_num := (free_num s)(a := free_num s a + 1),
       free_list := (free_list s)(a := (free_list s a)(free_cur s a := p)),
       free_cur := (free_cur s)(a := free_cur s a + 1)\<rparr>"

definition ssfree :: "ptr \<Rightarrow> ssalloc_state \<Rightarrow> ssalloc_state" where
  "ssfree p s = ssfree_alloc 0 p s"

section \<open>The ring of freed blocks is a queue\<close>

text \<open>The blocks waiting for reuse, oldest first.\<close>

definition free_queue :: "nat \<Rightarrow> ssalloc_state \<Rightarrow> ptr list" where
  "free_queue a s =
     map (\<lambda>k. free_list s a (free_cur s a - free_num s a + of_nat k)) [0..<unat (free_num s a)]"

lemma length_free_queue [simp]: "length (free_queue a s) = unat (free_num s a)"
  by (simp add: free_queue_def)

lemma ring_index_neq:
  assumes "k < unat (n :: u16)"
  shows "c - n + of_nat k \<noteq> (c :: u16)"
proof
  assume "c - n + of_nat k = c"
  then have "of_nat k = n" by (simp add: algebra_simps)
  moreover have "unat (of_nat k :: u16) = k"
    using assms unat_u16_less [of n] by (simp add: unat_of_nat take_bit_nat_eq_self)
  ultimately show False using assms by simp
qed

lemma free_queue_ssfree:
  assumes "unat (free_num s a) < 65535"
  shows "free_queue a (ssfree_alloc a p s) = free_queue a s @ [p]"
proof -
  let ?n = "free_num s a" and ?c = "free_cur s a"
  have n: "unat (?n + 1) = Suc (unat ?n)" using assms by (simp add: unat_succ)
  have base: "?c + 1 - (?n + 1) = ?c - ?n" by simp
  have "map (\<lambda>k. ((free_list s a)(?c := p)) (?c - ?n + of_nat k)) [0..<unat ?n]
      = map (\<lambda>k. free_list s a (?c - ?n + of_nat k)) [0..<unat ?n]"
    by (rule map_cong) (auto simp: ring_index_neq)
  moreover have "((free_list s a)(?c := p)) (?c - ?n + of_nat (unat ?n)) = p"
    by simp
  ultimately show ?thesis
    unfolding free_queue_def ssfree_alloc_def by (simp add: n base)
qed

lemma free_queue_overflow:
  assumes "unat (free_num s a) = 65535"
  shows "free_queue a (ssfree_alloc a p s) = []"
proof -
  have "unat (free_num s a + 1) = 0" using assms by (simp add: unat_word_ariths)
  then show ?thesis by (simp add: free_queue_def ssfree_alloc_def)
qed

lemma free_queue_take:
  assumes "0 < free_num s a"
  shows "free_queue a s = free_list s a (free_cur s a - free_num s a) #
           free_queue a (s\<lparr>free_num := (free_num s)(a := free_num s a - 1), memory_reuse := r\<rparr>)"
proof -
  let ?n = "free_num s a" and ?c = "free_cur s a"
  obtain m where m: "unat ?n = Suc m" using assms by (metis gr0_implies_Suc unat_pos_iff)
  then have m': "unat (?n - 1) = m" by (rule unat_pred)
  have "free_queue a s = map (\<lambda>k. free_list s a (?c - ?n + of_nat k)) (0 # map Suc [0..<m])"
    by (simp only: free_queue_def m map_Suc_upt upt_conv_Cons [OF zero_less_Suc, symmetric])
  also have "\<dots> = free_list s a (?c - ?n) # map (\<lambda>k. free_list s a (?c - (?n - 1) + of_nat k)) [0..<m]"
    by (simp add: comp_def algebra_simps)
  finally show ?thesis by (simp add: free_queue_def m')
qed

lemma free_queue_ssalloc:
  assumes "free_num s a > 2" and "ssalloc_alloc a sz s = (p, s')"
  shows "free_queue a s = p # free_queue a s'"
  using assms free_queue_take [of s a "memory_reuse s + 1"]
  by (auto simp: ssalloc_alloc_def Let_def word_less_nat_alt)

section \<open>The queue interface\<close>

text \<open>
  A store of freed blocks as its clients see it: released blocks go to the back, and as
  long as more than \<open>reserve\<close> are waiting, a request takes the front one.
\<close>

fun gets :: "('s \<Rightarrow> 'a \<times> 's) \<Rightarrow> nat \<Rightarrow> 's \<Rightarrow> 'a list \<times> 's" where
  "gets g 0 s = ([], s)"
| "gets g (Suc n) s = (let (x, s1) = g s; (xs, s2) = gets g n s1 in (x # xs, s2))"

locale fifo_store =
  fixes queue :: "'s \<Rightarrow> 'a list"
    and put :: "'a \<Rightarrow> 's \<Rightarrow> 's"
    and get :: "'s \<Rightarrow> 'a \<times> 's"
    and cap :: nat
    and reserve :: nat
  assumes put_queue: "length (queue s) < cap \<Longrightarrow> queue (put x s) = queue s @ [x]"
    and get_queue: "reserve < length (queue s) \<Longrightarrow> get s = (x, s') \<Longrightarrow> queue s = x # queue s'"
begin

lemma puts_queue: "length (queue s) + length xs \<le> cap \<Longrightarrow> queue (fold put xs s) = queue s @ xs"
  by (induction xs arbitrary: s) (auto simp: put_queue)

lemma gets_queue:
  "n + reserve \<le> length (queue s) \<Longrightarrow>
     fst (gets get n s) = take n (queue s) \<and> queue (snd (gets get n s)) = drop n (queue s)"
proof (induction n arbitrary: s)
  case (Suc n)
  obtain x s' where g: "get s = (x, s')" by force
  with Suc.prems have q: "queue s = x # queue s'" using get_queue by auto
  with Suc.prems have "n + reserve \<le> length (queue s')" by auto
  from Suc.IH [OF this] show ?case by (auto simp: g q split: prod.splits)
qed simp

lemma reuse_order:
  assumes "length (queue s) + length xs \<le> cap" and "n + reserve \<le> length (queue s) + length xs"
  shows "fst (gets get n (fold put xs s)) = take n (queue s @ xs)"
  using assms by (simp add: puts_queue gets_queue)

end

interpretation ring: fifo_store "free_queue a" "ssfree_alloc a" "ssalloc_alloc a sz" 65535 2
  for a sz
proof
  fix s :: ssalloc_state and x
  assume "length (free_queue a s) < 65535"
  then show "free_queue a (ssfree_alloc a x s) = free_queue a s @ [x]"
    by (simp add: free_queue_ssfree)
next
  fix s s' :: ssalloc_state and x
  assume "2 < length (free_queue a s)" and "ssalloc_alloc a sz s = (x, s')"
  then show "free_queue a s = x # free_queue a s'"
    by (intro free_queue_ssalloc) (simp_all add: word_less_nat_alt)
qed

section \<open>Blocks are never handed out twice\<close>

text \<open>
  Allocator \<open>a\<close> serves blocks of one size. \<open>in_arena\<close>: the block is one of those the bump
  pointer has passed. \<open>arena_inv a sz s L\<close>: the blocks \<open>L\<close> in use and the waiting blocks are
  distinct blocks of the arena.
\<close>

definition in_arena :: "nat \<Rightarrow> nat \<Rightarrow> ssalloc_state \<Rightarrow> ptr \<Rightarrow> bool" where
  "in_arena a sz s p \<longleftrightarrow>
     unat (app_mem s a) \<le> unat p \<and>
     unat p + sz \<le> unat (app_mem s a) + unat (alloc_next s a) \<and>
     sz dvd (unat p - unat (app_mem s a))"

definition arena_ok :: "nat \<Rightarrow> nat \<Rightarrow> ssalloc_state \<Rightarrow> bool" where
  "arena_ok a sz s \<longleftrightarrow>
     0 < sz \<and> 0 < unat (app_mem s a) \<and>
     unat (app_mem s a) + unat (ssalloc_size a) < 2 ^ 64 \<and>
     unat (alloc_next s a) \<le> unat (ssalloc_size a) \<and>
     sz dvd unat (alloc_next s a) \<and> sz \<le> unat (ssalloc_size a)"

definition arena_inv :: "nat \<Rightarrow> nat \<Rightarrow> ssalloc_state \<Rightarrow> ptr set \<Rightarrow> bool" where
  "arena_inv a sz s L \<longleftrightarrow>
     arena_ok a sz s \<and> distinct (free_queue a s) \<and> set (free_queue a s) \<inter> L = {} \<and>
     (\<forall>p \<in> L \<union> set (free_queue a s). in_arena a sz s p)"

lemma in_arena_not_NULL: "arena_ok a sz s \<Longrightarrow> in_arena a sz s p \<Longrightarrow> p \<noteq> NULL"
  by (auto simp: arena_ok_def in_arena_def)

lemma arena_inv_frame:
  assumes "app_mem s' a = app_mem s a" "alloc_next s' a = alloc_next s a"
    "free_queue a s' = free_queue a s"
  shows "arena_inv a sz s' L = arena_inv a sz s L"
  using assms by (simp add: arena_inv_def arena_ok_def in_arena_def)

lemma free_queue_other:
  "a \<noteq> b \<Longrightarrow> free_queue b (ssfree_alloc a p s) = free_queue b s"
  "a \<noteq> b \<Longrightarrow> free_queue b (snd (ssalloc_alloc a sz s)) = free_queue b s"
  by (simp_all add: free_queue_def ssfree_alloc_def ssalloc_alloc_def Let_def)

lemma arena_inv_ssfree_other: "a \<noteq> b \<Longrightarrow> arena_inv b sz (ssfree_alloc a p s) L = arena_inv b sz s L"
  by (rule arena_inv_frame) (simp_all add: free_queue_other, simp_all add: ssfree_alloc_def)

lemma arena_inv_ssalloc_other:
  "a \<noteq> b \<Longrightarrow> arena_inv b sz (snd (ssalloc_alloc a sz' s)) L = arena_inv b sz s L"
  by (rule arena_inv_frame)
    (simp_all add: free_queue_other, simp_all add: ssalloc_alloc_def Let_def)

lemma free_queue_ssfree_cases:
  "free_queue a (ssfree_alloc a p s) = free_queue a s @ [p] \<or> free_queue a (ssfree_alloc a p s) = []"
proof (cases "unat (free_num s a) < 65535")
  case True then show ?thesis by (simp add: free_queue_ssfree)
next
  case False
  then have "unat (free_num s a) = 65535" using unat_u16_less [of "free_num s a"] by simp
  then show ?thesis by (simp add: free_queue_overflow)
qed

lemma arena_inv_ssfree:
  assumes inv: "arena_inv a sz s L" and p: "p \<in> L"
  shows "arena_inv a sz (ssfree_alloc a p s) (L - {p})"
proof -
  have fld: "app_mem (ssfree_alloc a p s) = app_mem s" "alloc_next (ssfree_alloc a p s) = alloc_next s"
    by (simp_all add: ssfree_alloc_def)
  then have ar: "in_arena a sz (ssfree_alloc a p s) = in_arena a sz s"
    "arena_ok a sz (ssfree_alloc a p s) = arena_ok a sz s"
    by (auto simp: in_arena_def arena_ok_def fun_eq_iff)
  from free_queue_ssfree_cases [of a p s] show ?thesis
    using inv p by (auto simp: arena_inv_def ar)
qed

lemma bump_block:
  assumes ok: "arena_ok a sz s" and room: "\<not> alloc_next s a + of_nat sz > ssalloc_size a"
    and s': "s' = s\<lparr>alloc_next := (alloc_next s)(a := alloc_next s a + of_nat sz)\<rparr>"
  shows "arena_ok a sz s'" "in_arena a sz s' (app_mem s a + alloc_next s a)"
    "\<And>q. in_arena a sz s q \<Longrightarrow> in_arena a sz s' q \<and> q \<noteq> app_mem s a + alloc_next s a"
proof -
  let ?b = "app_mem s a" and ?n = "alloc_next s a"
  have sizes: "unat (ssalloc_size a) \<le> 2 ^ 30"
    by (simp add: ssalloc_size_def SSALLOC_SIZE_BIG_def SSALLOC_SIZE_SMALL_def)
  have sz: "unat (of_nat sz :: u64) = sz"
    using ok sizes by (simp add: arena_ok_def unat_of_nat take_bit_nat_eq_self)
  have le: "unat ?n \<le> 2 ^ 30" "sz \<le> 2 ^ 30" using ok sizes by (auto simp: arena_ok_def)
  then have n': "unat (?n + of_nat sz) = unat ?n + sz"
    by (simp add: unat_add_of_nat)
  have room': "unat ?n + sz \<le> unat (ssalloc_size a)"
    using room by (simp add: word_less_nat_alt n' not_less)
  have bn: "unat (?b + ?n) = unat ?b + unat ?n"
    using ok by (simp add: arena_ok_def unat_word_ariths)
  show "arena_ok a sz s'" using ok room' by (simp add: arena_ok_def s' n')
  show "in_arena a sz s' (?b + ?n)" using ok room' by (simp add: in_arena_def arena_ok_def s' n' bn)
  fix q assume q: "in_arena a sz s q"
  have "0 < sz" using ok by (simp add: arena_ok_def)
  with q show "in_arena a sz s' q \<and> q \<noteq> ?b + ?n"
    by (auto simp: in_arena_def s' n' bn)
qed

lemma arena_inv_ssalloc:
  assumes inv: "arena_inv a sz s L" and al: "ssalloc_alloc a (of_nat sz) s = (p, s')"
    and p: "p \<noteq> NULL"
  shows "p \<notin> L" "in_arena a sz s' p" "arena_inv a sz s' (insert p L)"
proof -
  have "p \<notin> L \<and> in_arena a sz s' p \<and> arena_inv a sz s' (insert p L)"
  proof (cases "free_num s a > 2")
    case True
    from True al have q: "free_queue a s = p # free_queue a s'" by (rule free_queue_ssalloc)
    from True al have fld: "app_mem s' = app_mem s" "alloc_next s' = alloc_next s"
      by (auto simp: ssalloc_alloc_def Let_def)
    then have ar: "in_arena a sz s' = in_arena a sz s" "arena_ok a sz s' = arena_ok a sz s"
      by (auto simp: in_arena_def arena_ok_def fun_eq_iff)
    show ?thesis using inv q by (auto simp: arena_inv_def ar)
  next
    case False
    with al p have room: "\<not> alloc_next s a + of_nat sz > ssalloc_size a"
      and pe: "p = app_mem s a + alloc_next s a"
      and s': "s' = s\<lparr>alloc_next := (alloc_next s)(a := alloc_next s a + of_nat sz)\<rparr>"
      by (auto simp: ssalloc_alloc_def split: if_splits)
    have "free_queue a s' = free_queue a s" by (simp add: s' free_queue_def)
    with inv bump_block [OF _ room s'] show ?thesis
      by (auto simp: arena_inv_def pe)
  qed
  then show "p \<notin> L" "in_arena a sz s' p" "arena_inv a sz s' (insert p L)" by auto
qed

lemma ssalloc_NULL:
  assumes "arena_inv a sz s L" and "ssalloc_alloc a (of_nat sz) s = (NULL, s')"
  shows "s' = s" "unat (free_num s a) \<le> 2"
proof -
  have "s' = s \<and> \<not> free_num s a > 2"
  proof (cases "free_num s a > 2")
    case True
    with assms(2) have "NULL \<in> set (free_queue a s)"
      by (metis free_queue_ssalloc list.set_intros(1))
    with assms(1) show ?thesis by (auto simp: arena_inv_def dest: in_arena_not_NULL)
  next
    case False
    show ?thesis
    proof (cases "alloc_next s a + of_nat sz > ssalloc_size a")
      case True with False assms(2) show ?thesis by (simp add: ssalloc_alloc_def)
    next
      case room: False
      have "arena_ok a sz s" using assms(1) by (simp add: arena_inv_def)
      from bump_block(1,2) [OF this room refl] have "app_mem s a + alloc_next s a \<noteq> NULL"
        by (rule in_arena_not_NULL)
      with False room assms(2) show ?thesis by (simp add: ssalloc_alloc_def)
    qed
  qed
  then show "s' = s" "unat (free_num s a) \<le> 2" by (auto simp: word_less_nat_alt)
qed

section \<open>Runs of a client\<close>

text \<open>A client of allocator \<open>a\<close>: it requests blocks of one size and gives back blocks it holds.
  The third component is the set of blocks it holds.\<close>

inductive client_run :: "nat \<Rightarrow> nat \<Rightarrow> ssalloc_state \<Rightarrow> ssalloc_state \<Rightarrow> ptr set \<Rightarrow> bool"
  for a sz s0 where
  start: "client_run a sz s0 s0 {}"
| alloc: "client_run a sz s0 s L \<Longrightarrow> ssalloc_alloc a (of_nat sz) s = (p, s') \<Longrightarrow> p \<noteq> NULL \<Longrightarrow>
    client_run a sz s0 s' (insert p L)"
| full: "client_run a sz s0 s L \<Longrightarrow> ssalloc_alloc a (of_nat sz) s = (NULL, s') \<Longrightarrow> client_run a sz s0 s' L"
| free: "client_run a sz s0 s L \<Longrightarrow> p \<in> L \<Longrightarrow> client_run a sz s0 (ssfree_alloc a p s) (L - {p})"

lemma client_run_inv:
  assumes "client_run a sz s0 s L" and "arena_inv a sz s0 {}"
  shows "arena_inv a sz s L"
  using assms(1)
proof induction
  case start show ?case by (rule assms(2))
next
  case (alloc s L p s') then show ?case using arena_inv_ssalloc(3) by blast
next
  case (full s L s') then show ?case using ssalloc_NULL(1) by blast
next
  case (free s L p) then show ?case by (simp add: arena_inv_ssfree)
qed

text \<open>A fresh arena: nothing allocated, nothing freed.\<close>

definition fresh_arena :: "nat \<Rightarrow> nat \<Rightarrow> ssalloc_state \<Rightarrow> bool" where
  "fresh_arena a sz s \<longleftrightarrow> alloc_next s a = 0 \<and> free_num s a = 0 \<and> 0 < sz \<and>
     sz \<le> unat (ssalloc_size a) \<and> 0 < unat (app_mem s a) \<and>
     unat (app_mem s a) + unat (ssalloc_size a) < 2 ^ 64"

lemma fresh_arena_inv: "fresh_arena a sz s \<Longrightarrow> arena_inv a sz s {}"
  by (simp add: fresh_arena_def arena_inv_def arena_ok_def free_queue_def)


text \<open>The ring of freed blocks of src/ssalloc.c is first-in first-out: while at most 65535 blocks
  wait, the next requests get the freed blocks back in the order they were freed, the last two
  excepted.\<close>

theorem ssalloc_fifo_reuse:
  assumes "length (free_queue a s) + length ps \<le> 65535"
    and "n + 2 \<le> length (free_queue a s) + length ps"
  shows "fst (gets (ssalloc_alloc a sz) n (fold (ssfree_alloc a) ps s)) = take n (free_queue a s @ ps)"
  by (rule ring.reuse_order [OF assms])

text \<open>C39: With 65535 freed blocks waiting, one more call of \<open>ssfree_alloc\<close> of src/ssalloc.c wraps the
  16-bit counter to 0: all 65536 blocks are lost to the allocator, which continues at its bump
  pointer.\<close>

theorem ssfree_overflow_loses_all:
  assumes "length (free_queue a s) = 65535"
  shows "free_queue a (ssfree_alloc a p s) = [] \<and>
    (alloc_next s a + sz \<le> ssalloc_size a \<longrightarrow>
       fst (ssalloc_alloc a sz (ssfree_alloc a p s)) = app_mem s a + alloc_next s a)"
proof -
  have q: "free_queue a (ssfree_alloc a p s) = []" using assms by (simp add: free_queue_overflow)
  then have "free_num (ssfree_alloc a p s) a = 0" by (metis length_free_queue list.size(3) unat_eq_0)
  then show ?thesis using q by (simp add: ssalloc_alloc_def) (simp add: ssfree_alloc_def not_less [symmetric])
qed

section \<open>Witnesses\<close>

definition ex_arena0 :: ssalloc_state where
  "ex_arena0 = \<lparr>app_mem = (\<lambda>_. 4096), alloc_next = (\<lambda>_. 0), free_list = (\<lambda>_ _. 0),
     free_cur = (\<lambda>_. 0), free_num = (\<lambda>_. 0), memory_reuse = 0, freed_nodes = 0\<rparr>"

lemma ex_arena0_fresh: "fresh_arena 0 64 ex_arena0"
  by (simp add: fresh_arena_def ex_arena0_def ssalloc_size_def SSALLOC_SIZE_SMALL_def)

lemma ex_arena0_run: "client_run 0 64 ex_arena0 (snd (ssalloc_alloc 0 64 ex_arena0)) {4096}"
proof -
  have "ssalloc_alloc 0 (of_nat 64) ex_arena0 = (4096, snd (ssalloc_alloc 0 64 ex_arena0))"
    by (simp add: ssalloc_alloc_def ex_arena0_def ssalloc_size_def SSALLOC_SIZE_SMALL_def)
  from client_run.alloc [OF client_run.start this] show ?thesis by simp
qed


lemma ssalloc_fifo_reuse_witness:
  "fst (gets (ssalloc_alloc 0 64) 2 (fold (ssfree_alloc 0) [64, 128, 192, 256] ex_arena0)) = [64, 128]"
proof -
  have q: "free_queue 0 ex_arena0 = []" by (simp add: free_queue_def ex_arena0_def)
  show ?thesis using ssalloc_fifo_reuse [of 0 ex_arena0 "[64, 128, 192, 256]" 2 64] by (simp add: q)
qed

lemma ssfree_overflow_loses_all_witness:
  "free_queue 0 (ssfree_alloc 0 64 (ex_arena0\<lparr>free_num := \<lambda>_. 65535\<rparr>)) = []"
  using ssfree_overflow_loses_all [of 0 "ex_arena0\<lparr>free_num := \<lambda>_. 65535\<rparr>" 64 0] by simp

end
