(* ===== verification/Memory.thy ===== *)
theory Memory
  imports Ssalloc
begin

text \<open>
  The memory a reclamation scheme works on: the nodes of the client's list, the wrapper
  nodes (\<open>mr_node_t\<close>, include/mr.h) in which retired nodes wait, the hazard pointer array, the
  allocator and the clock. An address maps to None where no memory is mapped, so an access
  through NULL or a stray pointer is a fault (None in the option monad). All blocks of the
  arenas are mapped from the start, with arbitrary contents, as the blocks of \<open>memalign\<close> are;
  a freed block stays mapped, as in the code.
\<close>

section \<open>Nodes, wrappers, time\<close>

text \<open>The list node; \<open>n_next\<close> carries the deletion mark in its lowest bit, \<open>n_marked\<close> is the
  flag the lazy schemes set on nodes of the verification list.\<close>

record node =
  n_key :: skey_t
  n_val :: sval_t
  n_marked :: u64
  n_next :: ptr

record timeval =
  tv_sec :: int
  tv_usec :: int

record mr_node =
  actual_node :: ptr
  created :: timeval
  mr_prev :: ptr
  mr_next :: ptr

type_synonym mr_heap = "ptr \<Rightarrow> mr_node option"
type_synonym node_heap = "ptr \<Rightarrow> node option"

text \<open>The key a scheme writes into a node just before releasing it.\<close>

definition POISON :: skey_t where "POISON = 600000"

text \<open>Block sizes: \<open>sizeof(node_t)\<close> is 32, \<open>sizeof(mr_node_t)\<close> is one cache line.\<close>

definition NODE_SIZE :: nat where "NODE_SIZE = 32"

definition MR_NODE_SIZE :: nat where "MR_NODE_SIZE = 64"

section \<open>The memory record\<close>

text \<open>\<open>clock n\<close> is the answer of the n-th call of \<open>gettimeofday\<close> and \<open>tick\<close> the number of calls
  made so far.\<close>

record mem =
  nodes :: node_heap
  mrs :: mr_heap
  alloc :: ssalloc_state
  HP :: "ptr list"
  clock :: "nat \<Rightarrow> timeval"
  tick :: nat

text \<open>One order for the updates of a memory.\<close>

lemma mem_update_order [simp]:
  fixes m :: "'a mem_scheme"
  shows
  "m\<lparr>mrs := mr, nodes := no\<rparr> = m\<lparr>nodes := no, mrs := mr\<rparr>"
  "m\<lparr>alloc := al, nodes := no\<rparr> = m\<lparr>nodes := no, alloc := al\<rparr>"
  "m\<lparr>HP := hp, nodes := no\<rparr> = m\<lparr>nodes := no, HP := hp\<rparr>"
  "m\<lparr>tick := ti, nodes := no\<rparr> = m\<lparr>nodes := no, tick := ti\<rparr>"
  "m\<lparr>alloc := al, mrs := mr\<rparr> = m\<lparr>mrs := mr, alloc := al\<rparr>"
  "m\<lparr>HP := hp, mrs := mr\<rparr> = m\<lparr>mrs := mr, HP := hp\<rparr>"
  "m\<lparr>tick := ti, mrs := mr\<rparr> = m\<lparr>mrs := mr, tick := ti\<rparr>"
  "m\<lparr>HP := hp, alloc := al\<rparr> = m\<lparr>alloc := al, HP := hp\<rparr>"
  "m\<lparr>tick := ti, alloc := al\<rparr> = m\<lparr>alloc := al, tick := ti\<rparr>"
  "m\<lparr>tick := ti, HP := hp\<rparr> = m\<lparr>HP := hp, tick := ti\<rparr>"
  by simp_all

definition gettimeofday :: "'a mem_scheme \<Rightarrow> timeval \<times> 'a mem_scheme" where
  "gettimeofday m = (clock m (tick m), m\<lparr>tick := Suc (tick m)\<rparr>)"

section \<open>Age of a retired node\<close>

definition SLEEP_AMOUNT :: nat where "SLEEP_AMOUNT = 150"

definition MARGIN :: nat where "MARGIN = 50"

text \<open>
  The difference is computed in signed \<open>long\<close> arithmetic, the division truncates towards zero,
  and both parts are converted to \<open>uint64_t\<close> before they are added.
\<close>

definition elapsed_msec :: "timeval \<Rightarrow> timeval \<Rightarrow> u64" where
  "elapsed_msec now cr =
     (let msec = word_of_int ((tv_sec now - tv_sec cr) * 1000)
      in msec + word_of_int ((tv_usec now - tv_usec cr) sdiv 1000))"

definition old_enough_at :: "timeval \<Rightarrow> timeval \<Rightarrow> bool" where
  "old_enough_at now cr \<longleftrightarrow> of_nat (SLEEP_AMOUNT + MARGIN) \<le> elapsed_msec now cr"

definition is_old_enough :: "ptr \<Rightarrow> 'a mem_scheme \<Rightarrow> (bool \<times> 'a mem_scheme) option" where
  "is_old_enough n m = do {
     let (now, m1) = gettimeofday m;
     c \<leftarrow> mrs m1 n;
     Some (old_enough_at now (created c), m1)
   }"

section \<open>Releasing a retired node\<close>

text \<open>
  The three statements every scheme ends with: poison the key, give the node back to
  allocator 0 and its wrapper to allocator 1.
\<close>

definition release :: "ptr \<Rightarrow> 'a mem_scheme \<Rightarrow> 'a mem_scheme option" where
  "release cur m = do {
     c \<leftarrow> mrs m cur;
     n \<leftarrow> nodes m (actual_node c);
     Some (m\<lparr>nodes := (nodes m)(actual_node c \<mapsto> n\<lparr>n_key := POISON\<rparr>),
             alloc := ssfree_alloc 1 cur (ssfree_alloc 0 (actual_node c) (alloc m))\<rparr>)
   }"

end
