(* ===== verification/Dll.thy ===== *)
theory Dll
  imports Memory
begin

text \<open>
  The doubly linked list of src/double_llist.c, on the heap of wrappers, and its refinement
  to lists: \<open>dll h l xs\<close> says that the header \<open>l\<close> and the links in \<open>h\<close> represent the wrappers \<open>xs\<close>
  from head to tail. Headers are passed by value: each is a separate \<open>malloc\<close>ed struct or a
  local variable, never aliased.
\<close>

section \<open>The code\<close>

record double_llist =
  ll_head :: ptr
  ll_tail :: ptr
  ll_size :: u32

definition init :: double_llist where
  "init = \<lparr>ll_head = NULL, ll_tail = NULL, ll_size = 0\<rparr>"

text \<open>Stores through a pointer; a store through an unmapped pointer is a fault.\<close>

definition set_next :: "ptr \<Rightarrow> ptr \<Rightarrow> mr_heap \<Rightarrow> mr_heap option" where
  "set_next p v h = do { c \<leftarrow> h p; Some (h(p \<mapsto> c\<lparr>mr_next := v\<rparr>)) }"

definition set_prev :: "ptr \<Rightarrow> ptr \<Rightarrow> mr_heap \<Rightarrow> mr_heap option" where
  "set_prev p v h = do { c \<leftarrow> h p; Some (h(p \<mapsto> c\<lparr>mr_prev := v\<rparr>)) }"

definition add_to_head :: "double_llist \<Rightarrow> ptr \<Rightarrow> mr_heap \<Rightarrow> (double_llist \<times> mr_heap) option" where
  "add_to_head l node h = do {
     h1 \<leftarrow> set_next node (ll_head l) h;
     h2 \<leftarrow> set_prev node NULL h1;
     (l1, h3) \<leftarrow> (if ll_head l = NULL then Some (l\<lparr>ll_tail := node\<rparr>, h2)
                   else do { h' \<leftarrow> set_prev (ll_head l) node h2; Some (l, h') });
     Some (l1\<lparr>ll_head := node, ll_size := ll_size l1 + 1\<rparr>, h3)
   }"

definition remove_from_tail :: "double_llist \<Rightarrow> mr_heap \<Rightarrow> (ptr \<times> double_llist \<times> mr_heap) option" where
  "remove_from_tail l h =
     (if ll_tail l = NULL then Some (NULL, l, h)
      else do {
        let res = ll_tail l;
        c \<leftarrow> h res;
        let l1 = l\<lparr>ll_tail := mr_prev c\<rparr>;
        (l2, h1) \<leftarrow> (if ll_tail l1 \<noteq> NULL
                      then do { h' \<leftarrow> set_next (ll_tail l1) NULL h; Some (l1, h') }
                      else Some (l1\<lparr>ll_head := NULL\<rparr>, h));
        h2 \<leftarrow> set_prev res NULL h1;
        Some (res, l2\<lparr>ll_size := ll_size l2 - 1\<rparr>, h2)
      })"

definition remove_node :: "double_llist \<Rightarrow> ptr \<Rightarrow> mr_heap \<Rightarrow> (ptr \<times> double_llist \<times> mr_heap) option" where
  "remove_node l node h = do {
     c \<leftarrow> h node;
     (l1, h1) \<leftarrow> (if mr_prev c \<noteq> NULL
                   then do { h' \<leftarrow> set_next (mr_prev c) (mr_next c) h; Some (l, h') }
                   else Some (l\<lparr>ll_head := mr_next c\<rparr>, h));
     c1 \<leftarrow> h1 node;
     (l2, h2) \<leftarrow> (if mr_next c1 \<noteq> NULL
                   then do { h' \<leftarrow> set_prev (mr_next c1) (mr_prev c1) h1; Some (l1, h') }
                   else Some (l1\<lparr>ll_tail := mr_prev c1\<rparr>, h1));
     Some (node, l2\<lparr>ll_size := ll_size l2 - 1\<rparr>, h2)
   }"

section \<open>Representation\<close>

text \<open>\<open>links h p xs q\<close>: the wrappers \<open>xs\<close> are chained in both directions, \<open>p\<close> before and \<open>q\<close> after.\<close>

fun links :: "mr_heap \<Rightarrow> ptr \<Rightarrow> ptr list \<Rightarrow> ptr \<Rightarrow> bool" where
  "links h p [] q = True"
| "links h p (x # xs) q =
     (x \<noteq> NULL \<and>
      (case h x of None \<Rightarrow> False
       | Some c \<Rightarrow> mr_prev c = p \<and> mr_next c = (if xs = [] then q else hd xs)) \<and>
      links h x xs q)"

definition dll :: "mr_heap \<Rightarrow> double_llist \<Rightarrow> ptr list \<Rightarrow> bool" where
  "dll h l xs \<longleftrightarrow>
     links h NULL xs NULL \<and> distinct xs \<and>
     ll_head l = (if xs = [] then NULL else hd xs) \<and>
     ll_tail l = (if xs = [] then NULL else last xs) \<and>
     unat (ll_size l) = length xs"

text \<open>What the list operations never touch: the payload of a wrapper.\<close>

definition payload :: "mr_heap \<Rightarrow> ptr \<Rightarrow> (ptr \<times> timeval) option" where
  "payload h p = map_option (\<lambda>c. (actual_node c, created c)) (h p)"

lemma links_cong: "(\<And>x. x \<in> set xs \<Longrightarrow> h' x = h x) \<Longrightarrow> links h' p xs q = links h p xs q"
  by (induction xs arbitrary: p) (auto split: option.splits)

lemma links_upd [simp]: "x \<notin> set xs \<Longrightarrow> links (h(x := v)) p xs q = links h p xs q"
  by (rule links_cong) auto

lemma links_append:
  "links h p (xs @ ys) q \<longleftrightarrow>
     links h p xs (if ys = [] then q else hd ys) \<and> links h (if xs = [] then p else last xs) ys q"
proof (induction xs arbitrary: p)
  case Nil then show ?case by simp
next
  case (Cons x xs)
  have hd_app: "(if xs @ ys = [] then q else hd (xs @ ys)) =
      (if xs = [] then if ys = [] then q else hd ys else hd xs)" by simp
  have last_x: "(if x # xs = [] then p else last (x # xs)) = (if xs = [] then x else last xs)" by simp
  show ?case unfolding append_Cons links.simps Cons.IH hd_app last_x by blast
qed

lemma links_mapped: "links h p xs q \<Longrightarrow> x \<in> set xs \<Longrightarrow> h x \<noteq> None \<and> x \<noteq> NULL"
  by (induction xs arbitrary: p) (auto split: option.splits)

lemma links_head:
  "links h p (x # xs) q \<Longrightarrow> x \<notin> set xs \<Longrightarrow> h x = Some c \<Longrightarrow>
   links (h(x \<mapsto> c\<lparr>mr_prev := p'\<rparr>)) p' (x # xs) q"
  by auto

lemma links_last:
  "links h p (xs @ [x]) q \<Longrightarrow> x \<notin> set xs \<Longrightarrow> h x = Some c \<Longrightarrow>
   links (h(x \<mapsto> c\<lparr>mr_next := q'\<rparr>)) p (xs @ [x]) q'"
  by (auto simp: links_append)

text \<open>\<open>touches S h h'\<close>: \<open>h'\<close> differs from \<open>h\<close> only in links, and only at the wrappers \<open>S\<close>.\<close>

definition touches :: "ptr set \<Rightarrow> mr_heap \<Rightarrow> mr_heap \<Rightarrow> bool" where
  "touches S h h' \<longleftrightarrow> (\<forall>y. y \<notin> S \<longrightarrow> h' y = h y) \<and> payload h' = payload h"

lemma touches_refl [simp]: "touches S h h"
  by (simp add: touches_def)

lemma touches_trans: "touches S h h' \<Longrightarrow> touches S h' h'' \<Longrightarrow> touches S h h''"
  by (simp add: touches_def)

lemma touches_mono: "touches S h h' \<Longrightarrow> S \<subseteq> T \<Longrightarrow> touches T h h'"
  by (auto simp: touches_def)

lemma touches_comp: "touches S h h' \<Longrightarrow> touches T h' h'' \<Longrightarrow> S \<union> T \<subseteq> U \<Longrightarrow> touches U h h''"
  unfolding touches_def by (metis UnCI subsetD)

lemma touches_payload: "touches S h h' \<Longrightarrow> payload h' = payload h"
  by (simp add: touches_def)

lemma touches_mapped: "touches S h h' \<Longrightarrow> (h' x = None) = (h x = None)"
  unfolding touches_def payload_def by (drule conjunct2, drule fun_cong [of _ _ x]) (auto simp: map_option_case split: option.splits)

lemma touches_dll: "touches S h h' \<Longrightarrow> S \<inter> set xs = {} \<Longrightarrow> dll h' l xs = dll h l xs"
proof -
  assume t: "touches S h h'" and d: "S \<inter> set xs = {}"
  have "links h' NULL xs NULL = links h NULL xs NULL"
    by (rule links_cong) (use t d in \<open>auto simp: touches_def\<close>)
  then show ?thesis by (simp add: dll_def)
qed

lemma payload_upd:
  "h x = Some c \<Longrightarrow> actual_node c' = actual_node c \<Longrightarrow> created c' = created c \<Longrightarrow>
   payload (h(x \<mapsto> c')) = payload h"
  by (auto simp: payload_def fun_eq_iff)

lemma payload_Some:
  "h x = Some c \<Longrightarrow> payload h x = Some (actual_node c, created c)"
  by (simp add: payload_def)

lemma payload_SomeD: "payload h x = Some (a, t) \<Longrightarrow> \<exists>c. h x = Some c \<and> actual_node c = a \<and> created c = t"
  by (auto simp: payload_def)

lemma set_next_touches: "set_next p v h = Some h' \<Longrightarrow> touches {p} h h'"
  by (auto simp: set_next_def touches_def bind_eq_Some_conv intro!: payload_upd)

lemma set_prev_touches: "set_prev p v h = Some h' \<Longrightarrow> touches {p} h h'"
  by (auto simp: set_prev_def touches_def bind_eq_Some_conv intro!: payload_upd)

lemma dll_init [simp]: "dll h init []"
  by (simp add: dll_def init_def)

lemma dll_Nil_head: "dll h l xs \<Longrightarrow> ll_head l = NULL \<longleftrightarrow> xs = []"
  by (cases xs) (auto simp: dll_def)

lemma dll_Nil_tail: "dll h l xs \<Longrightarrow> ll_tail l = NULL \<longleftrightarrow> xs = []"
  by (cases xs rule: rev_cases) (auto simp: dll_def links_append)

lemma dll_size: "dll h l xs \<Longrightarrow> unat (ll_size l) = length xs"
  by (simp add: dll_def)

lemma dll_pos: "dll h l xs \<Longrightarrow> ll_size l > 0 \<longleftrightarrow> xs \<noteq> []"
  by (simp add: unat_pos_iff dll_size)

lemma dll_distinct: "dll h l xs \<Longrightarrow> distinct xs"
  by (simp add: dll_def)

lemma dll_mapped: "dll h l xs \<Longrightarrow> x \<in> set xs \<Longrightarrow> h x \<noteq> None \<and> x \<noteq> NULL"
  by (auto simp: dll_def dest: links_mapped)

section \<open>The operations on lists\<close>

lemma add_to_head_dll:
  assumes l: "dll h l xs" and x: "x \<noteq> NULL" "h x = Some c" "x \<notin> set xs"
    and len: "length xs + 1 < 2 ^ 32"
  obtains l' h' where "add_to_head l x h = Some (l', h')" "dll h' l' (x # xs)"
    "touches (insert x (set xs)) h h'"
proof (cases xs)
  case Nil
  let ?h = "h(x \<mapsto> c\<lparr>mr_next := NULL, mr_prev := NULL\<rparr>)"
  have "ll_head l = NULL" "ll_size l = 0" using l Nil by (auto simp: dll_def unat_eq_0)
  then have "add_to_head l x h = Some (l\<lparr>ll_tail := x, ll_head := x, ll_size := 1\<rparr>, ?h)"
    using x by (simp add: add_to_head_def set_next_def set_prev_def)
  moreover have "dll ?h (l\<lparr>ll_tail := x, ll_head := x, ll_size := 1\<rparr>) (x # xs)"
    using x Nil by (simp add: dll_def)
  moreover have "touches (insert x (set xs)) h ?h"
    using x by (auto simp: touches_def payload_def fun_eq_iff)
  ultimately show ?thesis by (rule that)
next
  case (Cons y ys)
  have hd: "ll_head l = y" and y: "y \<noteq> NULL" "x \<noteq> y" using l x Cons by (auto simp: dll_def)
  obtain d where d: "h y = Some d" using l Cons dll_mapped [of h l xs y] by auto
  let ?h = "(h(x \<mapsto> c\<lparr>mr_next := y, mr_prev := NULL\<rparr>))(y \<mapsto> d\<lparr>mr_prev := x\<rparr>)"
  let ?l = "l\<lparr>ll_head := x, ll_size := ll_size l + 1\<rparr>"
  have "add_to_head l x h = Some (?l, ?h)"
    using x y d hd by (simp add: add_to_head_def set_next_def set_prev_def)
  moreover have "dll ?h ?l (x # xs)"
    using l x y d len Cons by (auto simp: dll_def unat_succ)
  moreover have "touches (insert x (set xs)) h ?h"
    using x d Cons y by (auto simp: touches_def payload_def fun_eq_iff)
  ultimately show ?thesis by (rule that)
qed

lemma remove_from_tail_Nil:
  "dll h l [] \<Longrightarrow> remove_from_tail l h = Some (NULL, l, h)"
  by (simp add: dll_def remove_from_tail_def)

lemma remove_from_tail_dll:
  assumes l: "dll h l (xs @ [x])"
  obtains l' h' where "remove_from_tail l h = Some (x, l', h')" "dll h' l' xs"
    "touches (insert x (set xs)) h h'"
proof (cases xs rule: rev_cases)
  case Nil
  obtain c where c: "h x = Some c" "mr_prev c = NULL" "x \<noteq> NULL" "ll_tail l = x" "ll_size l = 1"
    using l Nil by (auto simp: dll_def word_unat_eq_iff split: option.splits)
  let ?h = "h(x \<mapsto> c\<lparr>mr_prev := NULL\<rparr>)"
  let ?l = "l\<lparr>ll_tail := NULL, ll_head := NULL, ll_size := 0\<rparr>"
  have "remove_from_tail l h = Some (x, ?l, ?h)"
    using c by (simp add: remove_from_tail_def set_next_def set_prev_def)
  moreover have "dll ?h ?l xs" using Nil by (simp add: dll_def)
  moreover have "touches (insert x (set xs)) h ?h"
    using c by (auto simp: touches_def payload_def fun_eq_iff)
  ultimately show ?thesis by (rule that)
next
  case (snoc ys y)
  obtain c d where c: "h x = Some c" "mr_prev c = y" "x \<noteq> NULL" and d: "h y = Some d" "y \<noteq> NULL"
    and tl: "ll_tail l = x" "y \<noteq> x" "unat (ll_size l) = Suc (length xs)"
    using l snoc by (auto simp: dll_def links_append split: option.splits)
  let ?h = "(h(y \<mapsto> d\<lparr>mr_next := NULL\<rparr>))(x \<mapsto> c\<lparr>mr_prev := NULL\<rparr>)"
  let ?l = "l\<lparr>ll_tail := y, ll_size := ll_size l - 1\<rparr>"
  have "remove_from_tail l h = Some (x, ?l, ?h)"
    using c d tl by (simp add: remove_from_tail_def set_next_def set_prev_def)
  moreover have "dll ?h ?l xs"
    using l snoc c d tl by (auto simp: dll_def links_append unat_pred hd_append split: if_splits)
  moreover have "touches (insert x (set xs)) h ?h"
    using c d snoc by (auto simp: touches_def payload_def fun_eq_iff)
  ultimately show ?thesis by (rule that)
qed

lemma links_nth:
  "links h p (xs @ x # ys) q \<Longrightarrow>
   \<exists>c. h x = Some c \<and> x \<noteq> NULL \<and> mr_prev c = (if xs = [] then p else last xs) \<and>
       mr_next c = (if ys = [] then q else hd ys)"
  by (auto simp: links_append split: option.splits)

lemma remove_node_dll:
  assumes l: "dll h l (xs @ x # ys)"
  obtains l' h' where "remove_node l x h = Some (x, l', h')" "dll h' l' (xs @ ys)"
    "touches (set (xs @ ys)) h h'" "h' x = h x"
proof -
  obtain c where c: "h x = Some c" "x \<noteq> NULL" "mr_prev c = (if xs = [] then NULL else last xs)"
      "mr_next c = (if ys = [] then NULL else hd ys)"
    using l links_nth [of h NULL xs x ys NULL] unfolding dll_def by blast
  have dist: "x \<notin> set xs" "x \<notin> set ys" "set xs \<inter> set ys = {}" "distinct xs" "distinct ys"
    using l by (auto simp: dll_def)
  have sz: "unat (ll_size l) = Suc (length (xs @ ys))" using l by (simp add: dll_def)
  have seg: "links h NULL xs x" "links h x ys NULL" using l by (auto simp: dll_def links_append)
  show ?thesis
  proof (cases xs rule: rev_cases)
    case xs: Nil
    show ?thesis
    proof (cases ys)
      case Nil
      then show ?thesis using c xs sz l
        by (intro that [of "l\<lparr>ll_head := NULL, ll_tail := NULL, ll_size := ll_size l - 1\<rparr>" h])
          (auto simp: remove_node_def dll_def unat_pred)
    next
      case ys: (Cons y zs)
      then obtain d where d: "h y = Some d" "y \<noteq> NULL" using seg by (auto split: option.splits)
      let ?h = "h(y \<mapsto> d\<lparr>mr_prev := NULL\<rparr>)"
      let ?l = "l\<lparr>ll_head := y, ll_size := ll_size l - 1\<rparr>"
      have y: "y \<notin> set zs" "x \<noteq> y" using dist ys by auto
      have "remove_node l x h = Some (x, ?l, ?h)"
        using c d xs ys by (simp add: remove_node_def set_prev_def)
      moreover have "links ?h NULL ys NULL" using links_head [of h x y zs NULL d NULL] seg ys y d by simp
      then have "dll ?h ?l (xs @ ys)" using l xs ys sz dist by (simp add: dll_def unat_pred)
      moreover have "touches (set (xs @ ys)) h ?h"
        using d ys by (auto simp: touches_def payload_def fun_eq_iff)
      ultimately show ?thesis using y by (intro that [of ?l ?h]) auto
    qed
  next
    case xs: (snoc ws w)
    then obtain e where e: "h w = Some e" "w \<noteq> NULL" using seg by (auto simp: links_append split: option.splits)
    have w: "w \<notin> set ws" "x \<noteq> w" "w \<notin> set ys" using dist xs by auto
    show ?thesis
    proof (cases ys)
      case ys: Nil
      let ?h = "h(w \<mapsto> e\<lparr>mr_next := NULL\<rparr>)"
      let ?l = "l\<lparr>ll_tail := w, ll_size := ll_size l - 1\<rparr>"
      have "remove_node l x h = Some (x, ?l, ?h)"
        using c e xs ys w by (simp add: remove_node_def set_next_def)
      moreover have "links ?h NULL xs NULL" using links_last [of h NULL ws w x e NULL] seg xs w e by simp
      then have "dll ?h ?l (xs @ ys)" using l xs ys sz dist by (simp add: dll_def unat_pred hd_append)
      moreover have "touches (set (xs @ ys)) h ?h"
        using e xs by (auto simp: touches_def payload_def fun_eq_iff)
      ultimately show ?thesis using w by (intro that [of ?l ?h]) auto
    next
      case ys: (Cons y zs)
      then obtain d where d: "h y = Some d" "y \<noteq> NULL" using seg by (auto split: option.splits)
      have y: "y \<notin> set zs" "x \<noteq> y" "y \<noteq> w" "y \<notin> set ws" using dist ys xs by auto
      let ?h1 = "h(w \<mapsto> e\<lparr>mr_next := y\<rparr>)"
      let ?h = "?h1(y \<mapsto> d\<lparr>mr_prev := w\<rparr>)"
      let ?l = "l\<lparr>ll_size := ll_size l - 1\<rparr>"
      have "remove_node l x h = Some (x, ?l, ?h)"
        using c d e xs ys w y by (simp add: remove_node_def set_next_def set_prev_def)
      moreover have "links ?h1 NULL xs y" using links_last [of h NULL ws w x e y] seg xs w e by simp
      then have "links ?h NULL xs y" using y xs by simp
      moreover have "links ?h1 x ys NULL" using seg(2) w(3) by (simp only: links_upd not_False_eq_True)
      then have "links ?h w ys NULL" using links_head [of ?h1 x y zs NULL d w] ys y d by simp
      moreover have "links ?h NULL (xs @ ys) NULL = (links ?h NULL xs y \<and> links ?h w ys NULL)"
        by (subst links_append) (simp add: xs ys)
      ultimately have "links ?h NULL (xs @ ys) NULL" by blast
      then have "dll ?h ?l (xs @ ys)" using l xs ys sz dist by (simp add: dll_def unat_pred hd_append)
      moreover have "touches (set (xs @ ys)) h ?h"
        using d e xs ys y by (auto simp: touches_def payload_def fun_eq_iff)
      ultimately show ?thesis using w y \<open>remove_node l x h = Some (x, ?l, ?h)\<close>
        by (intro that [of ?l ?h]) auto
    qed
  qed
qed

section \<open>Singly linked chains\<close>

text \<open>Some files use only \<open>mr_next\<close>, as a stack that ends in NULL.\<close>

fun chain :: "mr_heap \<Rightarrow> ptr \<Rightarrow> ptr list \<Rightarrow> bool" where
  "chain h p [] = (p = NULL)"
| "chain h p (x # xs) = (p = x \<and> x \<noteq> NULL \<and> (case h x of None \<Rightarrow> False | Some c \<Rightarrow> chain h (mr_next c) xs))"

lemma chain_cong: "(\<And>x. x \<in> set xs \<Longrightarrow> h' x = h x) \<Longrightarrow> chain h' p xs = chain h p xs"
  by (induction xs arbitrary: p) (auto split: option.splits)

lemma chain_touches: "touches S h h' \<Longrightarrow> S \<inter> set xs = {} \<Longrightarrow> chain h' p xs = chain h p xs"
  by (rule chain_cong) (auto simp: touches_def)

section \<open>Refinement of sequences of operations\<close>

text \<open>
  A client of one list: it adds mapped wrappers that are not in the list, pops the tail, or
  unlinks a member. \<open>abs_op\<close> is the specification on lists (None when the client breaks its
  side of the contract), \<open>run_op\<close> the code.
\<close>

datatype list_op = Add ptr | Pop | Unlink ptr

fun abs_op :: "ptr set \<Rightarrow> list_op \<Rightarrow> ptr list \<Rightarrow> (ptr \<times> ptr list) option" where
  "abs_op M (Add x) xs =
     (if x \<in> M \<and> x \<noteq> NULL \<and> x \<notin> set xs \<and> length xs + 1 < 2 ^ 32 then Some (x, x # xs) else None)"
| "abs_op M Pop xs = (if xs = [] then Some (NULL, []) else Some (last xs, butlast xs))"
| "abs_op M (Unlink x) xs = (if x \<in> set xs then Some (x, remove1 x xs) else None)"

fun run_op :: "list_op \<Rightarrow> double_llist \<Rightarrow> mr_heap \<Rightarrow> (ptr \<times> double_llist \<times> mr_heap) option" where
  "run_op (Add x) l h = do { (l', h') \<leftarrow> add_to_head l x h; Some (x, l', h') }"
| "run_op Pop l h = remove_from_tail l h"
| "run_op (Unlink x) l h = remove_node l x h"

fun abs_ops :: "ptr set \<Rightarrow> list_op list \<Rightarrow> ptr list \<Rightarrow> (ptr list \<times> ptr list) option" where
  "abs_ops M [] xs = Some ([], xs)"
| "abs_ops M (oper # opers) xs = do {
     (r, xs') \<leftarrow> abs_op M oper xs;
     (rs, ys) \<leftarrow> abs_ops M opers xs';
     Some (r # rs, ys) }"

fun run_ops :: "list_op list \<Rightarrow> double_llist \<Rightarrow> mr_heap \<Rightarrow> (ptr list \<times> double_llist \<times> mr_heap) option" where
  "run_ops [] l h = Some ([], l, h)"
| "run_ops (oper # opers) l h = do {
     (r, l', h') \<leftarrow> run_op oper l h;
     (rs, l'', h'') \<leftarrow> run_ops opers l' h';
     Some (r # rs, l'', h'') }"

lemma dom_payload: "payload h' = payload h \<Longrightarrow> dom h' = dom h"
  by (auto simp: payload_def fun_eq_iff map_option_case dom_def split: option.splits)

lemma run_op_refines:
  assumes l: "dll h l xs" and op: "abs_op (dom h) oper xs = Some (r, ys)"
  shows "\<exists>l' h'. run_op oper l h = Some (r, l', h') \<and> dll h' l' ys \<and> payload h' = payload h"
proof (cases oper)
  case (Add x)
  have "(if x \<in> dom h \<and> x \<noteq> NULL \<and> x \<notin> set xs \<and> length xs + 1 < 2 ^ 32 then Some (x, x # xs) else None) =
      Some (r, ys)" using op unfolding Add abs_op.simps .
  then have "x \<in> dom h \<and> x \<noteq> NULL \<and> x \<notin> set xs \<and> length xs + 1 < 2 ^ 32" "r = x" "ys = x # xs"
    by (metis option.distinct(1), metis option.distinct(1) option.inject prod.inject,
        metis option.distinct(1) option.inject prod.inject)
  then obtain c where x: "x \<noteq> NULL" "h x = Some c" "x \<notin> set xs" "length xs + 1 < 2 ^ 32"
      "r = x" "ys = x # xs" by blast
  obtain l' h' where "add_to_head l x h = Some (l', h')" "dll h' l' (x # xs)"
      "touches (insert x (set xs)) h h'"
    by (rule add_to_head_dll [OF l x(1-4)])
  then show ?thesis using x Add touches_payload by auto
next
  case Pop
  show ?thesis
  proof (cases xs rule: rev_cases)
    case Nil
    then have "r = NULL" "ys = []" using op Pop by auto
    moreover have "remove_from_tail l h = Some (NULL, l, h)"
      by (rule remove_from_tail_Nil) (use l Nil in simp)
    ultimately show ?thesis using l Nil Pop by simp
  next
    case (snoc zs z)
    then have "r = z" "ys = zs" using op Pop by auto
    moreover obtain l' h' where "remove_from_tail l h = Some (z, l', h')" "dll h' l' zs"
        "touches (insert z (set zs)) h h'"
      by (rule remove_from_tail_dll [OF l [unfolded snoc]])
    ultimately show ?thesis using Pop touches_payload by auto
  qed
next
  case (Unlink x)
  then have x: "x \<in> set xs" "r = x" "ys = remove1 x xs" using op by (auto split: if_splits)
  from x(1) obtain us vs where xs: "xs = us @ x # vs" "x \<notin> set us" by (meson split_list_first)
  obtain l' h' where "remove_node l x h = Some (x, l', h')" "dll h' l' (us @ vs)"
      "touches (set (us @ vs)) h h'" "h' x = h x"
    by (rule remove_node_dll [OF l [unfolded xs(1)]])
  then show ?thesis using x xs touches_payload Unlink by (auto simp: remove1_append)
qed

text \<open>C21: src/double_llist.c refines lists: every sequence of \<open>add_to_head\<close>, \<open>remove_from_tail\<close> and
  \<open>remove_node\<close> calls that is legal on the abstract list runs without a fault, answers what the
  abstract list answers, ends in a well-formed list with the abstract contents and never
  changes what a wrapper carries.\<close>

theorem double_llist_refines_lists:
  assumes "dll h l xs" "abs_ops (dom h) opers xs = Some (rs, ys)"
  shows "\<exists>l' h'. run_ops opers l h = Some (rs, l', h') \<and> dll h' l' ys \<and> payload h' = payload h"
  using assms
proof (induction opers arbitrary: h l xs rs)
  case Nil then show ?case by simp
next
  case (Cons oper opers)
  from Cons.prems(2) obtain r xs' rs' where one: "abs_op (dom h) oper xs = Some (r, xs')"
    and rest: "abs_ops (dom h) opers xs' = Some (rs', ys)" and rs: "rs = r # rs'"
    by (auto simp: bind_eq_Some_conv)
  from run_op_refines [OF Cons.prems(1) one] obtain l1 h1 where
    s1: "run_op oper l h = Some (r, l1, h1)" "dll h1 l1 xs'" "payload h1 = payload h" by blast
  from Cons.IH [OF s1(2) rest [folded dom_payload [OF s1(3)]]] obtain l' h' where
    "run_ops opers l1 h1 = Some (rs', l', h')" "dll h' l' ys" "payload h' = payload h1" by blast
  then show ?case using s1 rs by simp
qed

definition ex_wrappers :: mr_heap where
  "ex_wrappers p = (if p = NULL then None
     else Some \<lparr>actual_node = p, created = \<lparr>tv_sec = 0, tv_usec = 0\<rparr>, mr_prev = 0, mr_next = 0\<rparr>)"

lemma double_llist_refines_lists_witness:
  "\<exists>l' h'. run_ops [Add 64, Add 128, Add 192, Unlink 128, Pop] init ex_wrappers =
     Some ([64, 128, 192, 128, 64], l', h') \<and> dll h' l' [192] \<and> payload h' = payload ex_wrappers"
proof (rule double_llist_refines_lists [OF dll_init])
  have "dom ex_wrappers = {p. p \<noteq> NULL}" by (auto simp: ex_wrappers_def dom_def)
  then show "abs_ops (dom ex_wrappers) [Add 64, Add 128, Add 192, Unlink 128, Pop] [] =
      Some ([64, 128, 192, 128, 64], [192])" by simp
qed

end
