(* ===== verification/Hazard.thy ===== *)
theory Hazard
  imports Dll
begin

text \<open>
  What the scans of all hazard-pointer schemes share: collecting the published hazard
  pointers (stage 1), the linear search in them, the comparison function kept for qsort, and
  the loop that pops every retired node and either puts it back or releases it (stage 3).
  The loop takes the keep-or-release test as an argument, since the files differ in it only;
  the locale \<open>keep_test\<close> is the contract of such a test.
\<close>

section \<open>Hazard pointers\<close>

definition K :: nat where "K = 2"

fun ssearch :: "ptr list \<Rightarrow> ptr \<Rightarrow> bool" where
  "ssearch [] key = False"
| "ssearch (x # xs) key = (if x = key then True else ssearch xs key)"

lemma ssearch_iff [simp]: "ssearch xs key \<longleftrightarrow> key \<in> set xs"
  by (induction xs) auto

text \<open>The comparison function left for qsort: the difference of two addresses, as an int.\<close>

definition compare :: "u64 \<Rightarrow> u64 \<Rightarrow> int" where
  "compare a b = sint (ucast (a - b) :: u32)"

text \<open>Stage 1: the non-NULL entries of \<open>HP[0..H-1]\<close>, in order; reading past the array is a fault.\<close>

fun collect_hps :: "nat \<Rightarrow> nat \<Rightarrow> ptr list \<Rightarrow> ptr list \<Rightarrow> ptr list option" where
  "collect_hps 0 i hp plist = Some plist"
| "collect_hps (Suc n) i hp plist =
     (if i < length hp
      then collect_hps n (Suc i) hp (if hp ! i \<noteq> NULL then plist @ [hp ! i] else plist)
      else None)"

lemma collect_hps_Some:
  "i + n \<le> length hp \<Longrightarrow>
   collect_hps n i hp plist = Some (plist @ filter (\<lambda>p. p \<noteq> NULL) (take n (drop i hp)))"
proof (induction n arbitrary: i plist)
  case (Suc n)
  then have "take (Suc n) (drop i hp) = hp ! i # take n (drop (Suc i) hp)"
    by (simp add: take_Suc_conv_app_nth Cons_nth_drop_Suc [symmetric])
  with Suc show ?case by simp
qed simp

section \<open>The sweep\<close>

partial_function (option) sweep_loop ::
  "(ptr \<Rightarrow> 'a mem_scheme \<Rightarrow> (bool \<times> 'a mem_scheme) option) \<Rightarrow> double_llist \<Rightarrow> double_llist \<Rightarrow>
   'b::len word \<Rightarrow> 'a mem_scheme \<Rightarrow> (double_llist \<times> 'b word \<times> 'a mem_scheme) option" where
  "sweep_loop keep tmplist dst rcount m =
     (if ll_size tmplist > 0 then do {
        (cur, tmplist', h) \<leftarrow> remove_from_tail tmplist (mrs m);
        (b, m1) \<leftarrow> keep cur (m\<lparr>mrs := h\<rparr>);
        if b then do {
          (dst', h') \<leftarrow> add_to_head dst cur (mrs m1);
          sweep_loop keep tmplist' dst' (rcount + 1) (m1\<lparr>mrs := h'\<rparr>)
        } else do {
          m2 \<leftarrow> release cur m1;
          sweep_loop keep tmplist' dst rcount m2
        }
      } else Some (dst, rcount, m))"

declare sweep_loop.simps [code]

text \<open>The two tests: a hazard pointer to the node, or also a node that is too young.\<close>

definition hazard_test :: "ptr list \<Rightarrow> ptr \<Rightarrow> 'a mem_scheme \<Rightarrow> (bool \<times> 'a mem_scheme) option" where
  "hazard_test plist cur m = do {
     c \<leftarrow> mrs m cur;
     Some (ssearch plist (actual_node c), m)
   }"

definition young_or_hazard_test :: "ptr list \<Rightarrow> ptr \<Rightarrow> 'a mem_scheme \<Rightarrow> (bool \<times> 'a mem_scheme) option" where
  "young_or_hazard_test plist cur m = do {
     (old, m1) \<leftarrow> is_old_enough cur m;
     if \<not> old then Some (True, m1) else do {
       c \<leftarrow> mrs m1 cur;
       Some (ssearch plist (actual_node c), m1)
     }
   }"

section \<open>Payloads and releases\<close>

definition actual :: "mr_heap \<Rightarrow> ptr \<Rightarrow> ptr" where
  "actual h w = (case payload h w of None \<Rightarrow> NULL | Some (a, _) \<Rightarrow> a)"

definition created_at :: "mr_heap \<Rightarrow> ptr \<Rightarrow> timeval" where
  "created_at h w = (case payload h w of None \<Rightarrow> \<lparr>tv_sec = 0, tv_usec = 0\<rparr> | Some (_, t) \<Rightarrow> t)"

lemma actual_Some [simp]: "h w = Some c \<Longrightarrow> actual h w = actual_node c"
  by (simp add: actual_def payload_def)

lemma created_at_Some [simp]: "h w = Some c \<Longrightarrow> created_at h w = created c"
  by (simp add: created_at_def payload_def)

lemma touches_actual: "touches S h h' \<Longrightarrow> actual h' = actual h"
  by (simp add: actual_def fun_eq_iff touches_payload)

lemma touches_created_at: "touches S h h' \<Longrightarrow> created_at h' = created_at h"
  by (simp add: created_at_def fun_eq_iff touches_payload)

definition poison :: "ptr set \<Rightarrow> node_heap \<Rightarrow> node_heap" where
  "poison A h = (\<lambda>p. if p \<in> A then map_option (\<lambda>n. n\<lparr>n_key := POISON\<rparr>) (h p) else h p)"

lemma poison_empty [simp]: "poison {} h = h"
  by (simp add: poison_def)

lemma poison_poison: "poison A (poison B h) = poison (A \<union> B) h"
  by (auto simp: poison_def fun_eq_iff option.map_comp comp_def)

lemma poison_None [simp]: "poison A h p = None \<longleftrightarrow> h p = None"
  by (simp add: poison_def)

lemma poison_outside [simp]: "p \<notin> A \<Longrightarrow> poison A h p = h p"
  by (simp add: poison_def)

text \<open>Both blocks of each pair (wrapper, node) given back, in order.\<close>

definition free_pairs :: "(ptr \<times> ptr) list \<Rightarrow> ssalloc_state \<Rightarrow> ssalloc_state" where
  "free_pairs ps s = fold (\<lambda>(w, a) s. ssfree_alloc 1 w (ssfree_alloc 0 a s)) ps s"

lemma free_pairs_simps [simp]:
  "free_pairs [] s = s"
  "free_pairs ((w, a) # ps) s = free_pairs ps (ssfree_alloc 1 w (ssfree_alloc 0 a s))"
  by (simp_all add: free_pairs_def)

lemma free_pairs_append: "free_pairs (ps @ qs) s = free_pairs qs (free_pairs ps s)"
  by (simp add: free_pairs_def)

definition with_actual :: "mr_heap \<Rightarrow> ptr list \<Rightarrow> (ptr \<times> ptr) list" where
  "with_actual h ws = map (\<lambda>w. (w, actual h w)) ws"

lemma with_actual_simps [simp]:
  "with_actual h [] = []"
  "with_actual h (w # ws) = (w, actual h w) # with_actual h ws"
  "with_actual h (ws @ vs) = with_actual h ws @ with_actual h vs"
  by (simp_all add: with_actual_def)

lemma release_eq:
  assumes "mrs m w = Some c" "nodes m (actual_node c) \<noteq> None"
  shows "release w m = Some (m\<lparr>nodes := poison {actual_node c} (nodes m),
           alloc := free_pairs [(w, actual_node c)] (alloc m)\<rparr>)"
proof -
  obtain n where n: "nodes m (actual_node c) = Some n" using assms(2) by blast
  then have "(nodes m)(actual_node c \<mapsto> n\<lparr>n_key := POISON\<rparr>) = poison {actual_node c} (nodes m)"
    by (auto simp: poison_def fun_eq_iff)
  with assms n show ?thesis by (simp add: release_def)
qed

section \<open>The contract of a keep test, and what the sweep does under it\<close>

text \<open>The decision on the \<open>j\<close>-th wrapper popped, from the memory before the sweep.\<close>

definition keeps ::
  "((nat \<Rightarrow> timeval) \<Rightarrow> nat \<Rightarrow> ptr \<Rightarrow> timeval \<Rightarrow> bool) \<Rightarrow> nat \<Rightarrow> 'a mem_scheme \<Rightarrow> nat \<Rightarrow> ptr \<Rightarrow> bool" where
  "keeps verdict reads m j w \<longleftrightarrow>
     verdict (clock m) (tick m + reads * j) (actual (mrs m) w) (created_at (mrs m) w)"

locale keep_test =
  fixes keep :: "ptr \<Rightarrow> 'a mem_scheme \<Rightarrow> (bool \<times> 'a mem_scheme) option"
    and verdict :: "(nat \<Rightarrow> timeval) \<Rightarrow> nat \<Rightarrow> ptr \<Rightarrow> timeval \<Rightarrow> bool"
    and reads :: nat
  assumes keep_eq: "mrs m cur = Some c \<Longrightarrow>
    keep cur m = Some (verdict (clock m) (tick m) (actual_node c) (created c),
                       m\<lparr>tick := tick m + reads\<rparr>)"
begin

lemma sweep_loop_ex:
  assumes "dll (mrs m) tmp xs" "dll (mrs m) dst ys" "set xs \<inter> set ys = {}"
    "length xs + length ys < 2 ^ 32" "\<forall>w \<in> set xs. nodes m (actual (mrs m) w) \<noteq> None"
  shows "\<exists>dst' h'.
    sweep_loop keep tmp dst (rc :: 'b::len word) m = Some (dst',
       rc + of_nat (length (kept (keeps verdict reads m) 0 (rev xs))),
       m\<lparr>mrs := h',
         nodes := poison (actual (mrs m) ` set (reclaimed (keeps verdict reads m) 0 (rev xs))) (nodes m),
         alloc := free_pairs (with_actual (mrs m) (reclaimed (keeps verdict reads m) 0 (rev xs))) (alloc m),
         tick := tick m + reads * length xs\<rparr>) \<and>
    dll h' dst' (rev (kept (keeps verdict reads m) 0 (rev xs)) @ ys) \<and>
    touches (set xs \<union> set ys) (mrs m) h'"
  using assms
proof (induction xs arbitrary: m tmp dst ys rc rule: rev_induct)
  case Nil
  have "\<not> ll_size tmp > 0" using Nil dll_pos by auto
  then show ?case using Nil
    by (intro exI [of _ dst] exI [of _ "mrs m"]) (simp add: sweep_loop.simps with_actual_def)
next
  case (snoc x xs)
  let ?k = "keeps verdict reads m"
  from snoc.prems(1) obtain tmp' h where rm: "remove_from_tail tmp (mrs m) = Some (x, tmp', h)"
    and tmp': "dll h tmp' xs" and th: "touches (insert x (set xs)) (mrs m) h"
    by (rule remove_from_tail_dll)
  have pos: "ll_size tmp > 0" using snoc.prems(1) dll_pos by blast
  obtain c where c: "h x = Some c"
    using touches_mapped [OF th, of x] dll_mapped [OF snoc.prems(1), of x] by auto
  have xact: "actual_node c = actual (mrs m) x" "created c = created_at (mrs m) x"
    using c touches_actual [OF th] touches_created_at [OF th]
    by (metis actual_Some, metis created_at_Some)
  have disj: "insert x (set xs) \<inter> set ys = {}" "x \<notin> set xs" "x \<notin> set ys" "x \<noteq> NULL"
    using snoc.prems(1,3) dll_mapped [OF snoc.prems(1), of x] by (auto simp: dll_def)
  have dst: "dll h dst ys" using touches_dll [OF th disj(1)] snoc.prems(2) by simp
  let ?m0 = "m\<lparr>mrs := h\<rparr>" and ?m1 = "m\<lparr>mrs := h, tick := tick m + reads\<rparr>"
  have k0: "keep x ?m0 = Some (?k 0 x, ?m1)"
    using keep_eq [of ?m0 x c] c by (simp add: keeps_def xact)
  have ks_Suc: "?k (Suc j) w = keeps verdict reads m' j w"
    if "clock m' = clock m" "tick m' = tick m + reads" "touches S (mrs m) (mrs m')" for m' :: "'a mem_scheme" and j w S
    using that by (simp add: keeps_def touches_actual touches_created_at algebra_simps)
  show ?case
  proof (cases "?k 0 x")
    case True
    obtain dst' h' where add: "add_to_head dst x h = Some (dst', h')"
      and dst': "dll h' dst' (x # ys)" and th': "touches (insert x (set ys)) h h'"
      using dst disj c snoc.prems(4) by (elim add_to_head_dll [of h dst ys x c]) auto
    let ?m2 = "m\<lparr>mrs := h', tick := tick m + reads\<rparr>"
    have tmp'': "dll h' tmp' xs" using touches_dll [OF th'] tmp' disj by auto
    have th2: "touches (insert x (set xs) \<union> set ys) (mrs m) h'"
      by (rule touches_comp [OF th th']) auto
    have act: "actual h' = actual (mrs m)" using touches_actual [OF th2] .
    have kk: "keeps verdict reads ?m2 = (\<lambda>j. ?k (Suc j))"
      by (intro ext) (use ks_Suc [of ?m2] th2 in simp)
    have "set xs \<inter> set (x # ys) = {}" "length xs + length (x # ys) < 2 ^ 32"
      "\<forall>w \<in> set xs. nodes ?m2 (actual (mrs ?m2) w) \<noteq> None"
      using disj snoc.prems(3,4,5) by (auto simp: act)
    with tmp'' dst' have IH: "\<exists>dst'' h''. sweep_loop keep tmp' dst' (rc + 1) ?m2 = Some (dst'',
         rc + 1 + of_nat (length (kept (keeps verdict reads ?m2) 0 (rev xs))),
         ?m2\<lparr>mrs := h'', nodes := poison (actual (mrs ?m2) ` set (reclaimed (keeps verdict reads ?m2) 0 (rev xs))) (nodes ?m2),
           alloc := free_pairs (with_actual (mrs ?m2) (reclaimed (keeps verdict reads ?m2) 0 (rev xs))) (alloc ?m2),
           tick := tick ?m2 + reads * length xs\<rparr>) \<and>
        dll h'' dst'' (rev (kept (keeps verdict reads ?m2) 0 (rev xs)) @ x # ys) \<and>
        touches (set xs \<union> set (x # ys)) (mrs ?m2) h''"
      by (intro snoc.IH) simp_all
    obtain dst'' h'' where
      sw: "sweep_loop keep tmp' dst' (rc + 1) ?m2 = Some (dst'',
         rc + 1 + of_nat (length (kept (keeps verdict reads ?m2) 0 (rev xs))),
         ?m2\<lparr>mrs := h'', nodes := poison (actual (mrs ?m2) ` set (reclaimed (keeps verdict reads ?m2) 0 (rev xs))) (nodes ?m2),
           alloc := free_pairs (with_actual (mrs ?m2) (reclaimed (keeps verdict reads ?m2) 0 (rev xs))) (alloc ?m2),
           tick := tick ?m2 + reads * length xs\<rparr>)"
      and d'': "dll h'' dst'' (rev (kept (keeps verdict reads ?m2) 0 (rev xs)) @ x # ys)"
      and t'': "touches (set xs \<union> set (x # ys)) h' h''"
      using IH by auto
    have loop: "sweep_loop keep tmp dst rc m = sweep_loop keep tmp' dst' (rc + 1) ?m2"
      using pos rm k0 True add by (simp add: sweep_loop.simps [of keep tmp])
    have t: "touches (set (xs @ [x]) \<union> set ys) (mrs m) h''"
      by (rule touches_comp [OF th2 t'']) auto
    show ?thesis
      using True sw d'' t
      by (intro exI [of _ dst''] exI [of _ h'']) (simp add: loop kk sweep_shift act add.assoc with_actual_def)
  next
    case False
    have nn: "nodes ?m1 (actual_node c) \<noteq> None" using snoc.prems(5) xact by simp
    define m2 where "m2 = ?m1\<lparr>nodes := poison {actual_node c} (nodes m),
                  alloc := free_pairs [(x, actual_node c)] (alloc m)\<rparr>"
    have rel: "release x ?m1 = Some m2" using release_eq [of ?m1 x c] c nn by (simp add: m2_def)
    have m2: "mrs m2 = h" "nodes m2 = poison {actual (mrs m) x} (nodes m)" "tick m2 = tick m + reads"
      "alloc m2 = free_pairs [(x, actual (mrs m) x)] (alloc m)" "clock m2 = clock m"
      by (simp_all add: m2_def xact)
    have upd: "m2\<lparr>nodes := no, mrs := mr, alloc := al, tick := t\<rparr> = m\<lparr>nodes := no, mrs := mr, alloc := al, tick := t\<rparr>"
      for no mr al t by (simp add: m2_def)
    have act: "actual h = actual (mrs m)" using touches_actual [OF th] .
    have kk: "keeps verdict reads m2 = (\<lambda>j. ?k (Suc j))"
    proof (intro ext)
      fix j w
      have "touches (insert x (set xs)) (mrs m) (mrs m2)" using th m2(1) by simp
      from ks_Suc [OF m2(5) m2(3) this, of j w] show "keeps verdict reads m2 j w = ?k (Suc j) w" by simp
    qed
    have "dll (mrs m2) tmp' xs" "dll (mrs m2) dst ys" "set xs \<inter> set ys = {}" "length xs + length ys < 2 ^ 32"
      "\<forall>w \<in> set xs. nodes m2 (actual (mrs m2) w) \<noteq> None"
      using tmp' dst disj snoc.prems(3,4,5) by (auto simp: act m2)
    then have IH: "\<exists>dst'' h''. sweep_loop keep tmp' dst rc m2 = Some (dst'',
         rc + of_nat (length (kept (keeps verdict reads m2) 0 (rev xs))),
         m2\<lparr>mrs := h'', nodes := poison (actual (mrs m2) ` set (reclaimed (keeps verdict reads m2) 0 (rev xs))) (nodes m2),
           alloc := free_pairs (with_actual (mrs m2) (reclaimed (keeps verdict reads m2) 0 (rev xs))) (alloc m2),
           tick := tick m2 + reads * length xs\<rparr>) \<and>
        dll h'' dst'' (rev (kept (keeps verdict reads m2) 0 (rev xs)) @ ys) \<and>
        touches (set xs \<union> set ys) (mrs m2) h''"
      by (rule snoc.IH)
    obtain dst'' h'' where
      sw: "sweep_loop keep tmp' dst rc m2 = Some (dst'',
         rc + of_nat (length (kept (keeps verdict reads m2) 0 (rev xs))),
         m2\<lparr>mrs := h'', nodes := poison (actual (mrs m2) ` set (reclaimed (keeps verdict reads m2) 0 (rev xs))) (nodes m2),
           alloc := free_pairs (with_actual (mrs m2) (reclaimed (keeps verdict reads m2) 0 (rev xs))) (alloc m2),
           tick := tick m2 + reads * length xs\<rparr>)"
      and d'': "dll h'' dst'' (rev (kept (keeps verdict reads m2) 0 (rev xs)) @ ys)"
      and t'': "touches (set xs \<union> set ys) h h''"
      using IH m2(1) by auto
    have loop: "sweep_loop keep tmp dst rc m = sweep_loop keep tmp' dst rc m2"
      using pos rm k0 False rel by (simp add: sweep_loop.simps [of keep tmp])
    have t: "touches (set (xs @ [x]) \<union> set ys) (mrs m) h''"
      by (rule touches_comp [OF th t'']) auto
    show ?thesis
      using False sw d'' t
      by (intro exI [of _ dst''] exI [of _ h''])
        (simp add: loop kk sweep_shift act add.assoc with_actual_def poison_poison Un_commute m2 upd)
  qed
qed

lemma sweep_loop_correct:
  assumes "dll (mrs m) tmp xs" "dll (mrs m) dst ys" "set xs \<inter> set ys = {}"
    "length xs + length ys < 2 ^ 32" "\<forall>w \<in> set xs. nodes m (actual (mrs m) w) \<noteq> None"
    and ks: "ks = kept (keeps verdict reads m) 0 (rev xs)"
    and fs: "fs = reclaimed (keeps verdict reads m) 0 (rev xs)"
  obtains dst' h' where
    "sweep_loop keep tmp dst (rc :: 'b::len word) m = Some (dst', rc + of_nat (length ks),
       m\<lparr>mrs := h', nodes := poison (actual (mrs m) ` set fs) (nodes m),
         alloc := free_pairs (with_actual (mrs m) fs) (alloc m),
         tick := tick m + reads * length xs\<rparr>)"
    "dll h' dst' (rev ks @ ys)" "touches (set xs \<union> set ys) (mrs m) h'"
  using sweep_loop_ex [OF assms(1-5), of rc] unfolding ks fs by blast

end

interpretation hazard_keep: keep_test "hazard_test plist" "\<lambda>_ _ a _. ssearch plist a" 0 for plist
  by unfold_locales (simp add: hazard_test_def)

interpretation young_keep: keep_test "young_or_hazard_test plist"
  "\<lambda>clk t a cr. \<not> old_enough_at (clk t) cr \<or> ssearch plist a" 1 for plist
  by unfold_locales
    (simp add: young_or_hazard_test_def is_old_enough_def gettimeofday_def)

end
