(* ===== verification/Retire.thy ===== *)
theory Retire
  imports Hazard
begin

text \<open>
  The two halves every \<open>free_node_later\<close> and every scan share: wrapping a node that was just
  unlinked (allocator 1, with or without a time stamp), and the bookkeeping of wrappers: those
  in the lists are in use, those released are back in the allocator's queue.
\<close>

section \<open>Wrapping a node\<close>

text \<open>\<open>mr_node_t* wrapper_node = ssalloc_alloc(1, sizeof(mr_node_t)); wrapper_node->actual_node = q;\<close>
  The result of the allocation is not checked: with the arena exhausted the store is a fault.\<close>

definition new_wrapper :: "ptr \<Rightarrow> 'a mem_scheme \<Rightarrow> (ptr \<times> 'a mem_scheme) option" where
  "new_wrapper q m = do {
     let (w, al) = ssalloc_alloc 1 (of_nat MR_NODE_SIZE) (alloc m);
     c \<leftarrow> mrs m w;
     Some (w, m\<lparr>mrs := (mrs m)(w \<mapsto> c\<lparr>actual_node := q\<rparr>), alloc := al\<rparr>)
   }"

definition stamp :: "ptr \<Rightarrow> 'a mem_scheme \<Rightarrow> 'a mem_scheme option" where
  "stamp w m = do {
     let (now, m1) = gettimeofday m;
     c \<leftarrow> mrs m1 w;
     Some (m1\<lparr>mrs := (mrs m1)(w \<mapsto> c\<lparr>created := now\<rparr>)\<rparr>)
   }"

section \<open>Wrappers in use\<close>

text \<open>Every block allocator 1 can return is mapped, and NULL is not.\<close>

definition wrappers_mapped :: "'a mem_scheme \<Rightarrow> bool" where
  "wrappers_mapped m \<longleftrightarrow>
     mrs m NULL = None \<and>
     (\<forall>w. unat (app_mem (alloc m) 1) \<le> unat w \<and>
          unat w + MR_NODE_SIZE \<le> unat (app_mem (alloc m) 1) + unat (ssalloc_size 1) \<longrightarrow>
          mrs m w \<noteq> None)"

definition retired :: "'a mem_scheme \<Rightarrow> ptr list \<Rightarrow> bool" where
  "retired m ws \<longleftrightarrow>
     arena_inv 1 MR_NODE_SIZE (alloc m) (set ws) \<and> wrappers_mapped m \<and> distinct ws \<and>
     (\<forall>w \<in> set ws. nodes m (actual (mrs m) w) \<noteq> None)"

text \<open>The non-NULL hazard pointers.\<close>

definition hazards :: "'a mem_scheme \<Rightarrow> ptr set" where
  "hazards m = {p \<in> set (HP m). p \<noteq> NULL}"

lemma mapped_in_arena:
  assumes "arena_ok 1 MR_NODE_SIZE (alloc m)" "wrappers_mapped m" "in_arena 1 MR_NODE_SIZE (alloc m) w"
  shows "mrs m w \<noteq> None"
  using assms by (fastforce simp: arena_ok_def wrappers_mapped_def in_arena_def)

lemma ssalloc_app_mem [simp]: "app_mem (snd (ssalloc_alloc a sz s)) = app_mem s"
  by (simp add: ssalloc_alloc_def Let_def)

lemma ssfree_app_mem [simp]: "app_mem (ssfree_alloc a p s) = app_mem s"
  by (simp add: ssfree_alloc_def)

lemma free_pairs_app_mem [simp]: "app_mem (free_pairs ps s) = app_mem s"
  by (induction ps arbitrary: s) auto

lemma touches_wrappers_mapped:
  assumes "touches S (mrs m) (mrs m')" "app_mem (alloc m') = app_mem (alloc m)" "wrappers_mapped m"
  shows "wrappers_mapped m'"
  using assms touches_mapped [OF assms(1)] unfolding wrappers_mapped_def by simp

lemma free_pairs_arena:
  "arena_inv 1 sz s L \<Longrightarrow> distinct (map fst ps) \<Longrightarrow> fst ` set ps \<subseteq> L \<Longrightarrow>
   arena_inv 1 sz (free_pairs ps s) (L - fst ` set ps)"
proof (induction ps arbitrary: s L)
  case (Cons p ps)
  obtain w a where p: "p = (w, a)" by force
  let ?s = "ssfree_alloc 1 w (ssfree_alloc 0 a s)"
  have "arena_inv 1 sz (ssfree_alloc 0 a s) L" using Cons.prems by (simp add: arena_inv_ssfree_other)
  then have "arena_inv 1 sz ?s (L - {w})" using Cons.prems by (intro arena_inv_ssfree) (auto simp: p)
  moreover have "fst ` set ps \<subseteq> L - {w}" using Cons.prems by (auto simp: p)
  ultimately have "arena_inv 1 sz (free_pairs ps ?s) (L - {w} - fst ` set ps)"
    using Cons.prems by (intro Cons.IH) (auto simp: p)
  moreover have "L - {w} - fst ` set ps = L - fst ` set (p # ps)" by (auto simp: p)
  ultimately show ?case by (simp add: p)
qed simp

lemma with_actual_fst [simp]: "map fst (with_actual h ws) = ws" "fst ` set (with_actual h ws) = set ws"
  by (simp_all add: with_actual_def comp_def image_image)

text \<open>The memory after a sweep of the wrappers \<open>ws\<close> that released \<open>fs\<close>.\<close>

lemma retired_release:
  assumes r: "retired m ws" and fs: "set fs \<subseteq> set ws" "distinct fs"
    and t: "touches S (mrs m) (mrs m')"
    and al: "alloc m' = free_pairs (with_actual (mrs m) fs) (alloc m)"
    and no: "nodes m' = poison A (nodes m)"
    and ks: "set ks = set ws - set fs" "distinct ks"
  shows "retired m' ks"
proof -
  have "arena_inv 1 MR_NODE_SIZE (alloc m') (set ws - set fs)"
    using free_pairs_arena [of MR_NODE_SIZE "alloc m" "set ws" "with_actual (mrs m) fs"] r fs
    by (simp add: retired_def al)
  moreover have "wrappers_mapped m'"
    using t r by (elim touches_wrappers_mapped) (simp_all add: al retired_def)
  ultimately show ?thesis
    using r ks t by (simp add: retired_def no touches_actual)
qed

lemma new_wrapper_retired:
  assumes r: "retired m ws" and q: "nodes m q \<noteq> None"
    and w: "fst (ssalloc_alloc 1 (of_nat MR_NODE_SIZE) (alloc m)) \<noteq> NULL"
  obtains w m' where "new_wrapper q m = Some (w, m')" "w \<noteq> NULL" "w \<notin> set ws" "retired m' (w # ws)"
    "actual (mrs m') w = q" "\<forall>y. y \<noteq> w \<longrightarrow> mrs m' y = mrs m y" "mrs m' w \<noteq> None"
    "m' = m\<lparr>mrs := mrs m', alloc := alloc m'\<rparr>"
proof -
  let ?a = "ssalloc_alloc 1 (of_nat MR_NODE_SIZE) (alloc m)"
  obtain w al where a: "?a = (w, al)" by force
  have inv: "arena_inv 1 MR_NODE_SIZE (alloc m) (set ws)" using r by (simp add: retired_def)
  have nn: "w \<noteq> NULL" using assms(3) unfolding a by simp
  note new = arena_inv_ssalloc [OF inv a nn]
  have ap: "app_mem al = app_mem (alloc m)"
    using ssalloc_app_mem [of 1 "of_nat MR_NODE_SIZE" "alloc m"] unfolding a by simp
  have "wrappers_mapped (m\<lparr>alloc := al\<rparr>)" using r ap by (simp add: retired_def wrappers_mapped_def)
  moreover have "arena_ok 1 MR_NODE_SIZE al" using new(3) by (simp add: arena_inv_def)
  ultimately have "mrs m w \<noteq> None" using mapped_in_arena [of "m\<lparr>alloc := al\<rparr>" w] new(2) by simp
  then obtain c where c: "mrs m w = Some c" by blast
  define m' where "m' = m\<lparr>mrs := (mrs m)(w \<mapsto> c\<lparr>actual_node := q\<rparr>), alloc := al\<rparr>"
  have act: "actual (mrs m') v = (if v = w then q else actual (mrs m) v)" for v
    by (simp add: m'_def actual_def payload_def)
  have wm: "wrappers_mapped m'" using r nn ap by (auto simp: m'_def retired_def wrappers_mapped_def)
  have "retired m' (w # ws)"
    using r q new wm by (auto simp: retired_def act) (auto simp: m'_def)
  moreover have "new_wrapper q m = Some (w, m')"
    unfolding new_wrapper_def a using c by (simp add: m'_def)
  ultimately show ?thesis using nn new(1) act
    by (intro that [of w m']) (auto simp: m'_def)
qed

lemma new_wrapper_alloc:
  "new_wrapper q m = Some (w, m') \<Longrightarrow> alloc m' = snd (ssalloc_alloc 1 (of_nat MR_NODE_SIZE) (alloc m))"
  by (auto simp: new_wrapper_def split: prod.splits option.splits Option.bind_splits)

text \<open>There are not more wrappers than bytes in the arena.\<close>

lemma retired_length:
  assumes "retired m ws"
  shows "length ws \<le> 2 ^ 30"
proof -
  let ?b = "unat (app_mem (alloc m) 1)"
  have arena: "?b \<le> unat w \<and> unat w < ?b + 2 ^ 30" if "w \<in> set ws" for w
  proof -
    have "in_arena 1 MR_NODE_SIZE (alloc m) w" "arena_ok 1 MR_NODE_SIZE (alloc m)"
      using assms that by (auto simp: retired_def arena_inv_def)
    moreover have "unat (ssalloc_size 1) \<le> 2 ^ 30"
      by (simp add: ssalloc_size_def SSALLOC_SIZE_BIG_def SSALLOC_SIZE_SMALL_def)
    ultimately show ?thesis by (auto simp: in_arena_def arena_ok_def MR_NODE_SIZE_def)
  qed
  have "inj_on unat (set ws)" by (auto intro: inj_onI simp: word_unat_eq_iff)
  then have "length ws = card (unat ` set ws)"
    using assms by (simp add: retired_def distinct_card card_image)
  also have "\<dots> \<le> card {?b ..< ?b + 2 ^ 30}" by (rule card_mono) (use arena in auto)
  finally show ?thesis by simp
qed

lemma subset_length:
  assumes r: "retired m all" and d: "distinct ws" and sub: "set ws \<subseteq> set all"
  shows "length ws \<le> 2 ^ 30"
proof -
  have "length ws = card (set ws)" using d by (simp add: distinct_card)
  also have "\<dots> \<le> card (set all)" by (rule card_mono [OF _ sub]) simp
  also have "\<dots> \<le> length all" by (rule card_length)
  finally show ?thesis using retired_length [OF r] by simp
qed

lemma new_wrapper_room:
  assumes "retired m ws" "new_wrapper q m = Some r"
  shows "fst (ssalloc_alloc 1 (of_nat MR_NODE_SIZE) (alloc m)) \<noteq> NULL"
proof
  assume *: "fst (ssalloc_alloc 1 (of_nat MR_NODE_SIZE) (alloc m)) = NULL"
  have "mrs m NULL = None" using assms(1) by (simp add: retired_def wrappers_mapped_def)
  then have "new_wrapper q m = None"
  proof -
    obtain al where a: "ssalloc_alloc 1 (of_nat MR_NODE_SIZE) (alloc m) = (NULL, al)"
      using * by (metis prod.collapse)
    show ?thesis unfolding new_wrapper_def a using \<open>mrs m NULL = None\<close> by simp
  qed
  with assms(2) show False by simp
qed

lemma new_wrapper_exhausted:
  assumes "mrs m NULL = None" "fst (ssalloc_alloc 1 (of_nat MR_NODE_SIZE) (alloc m)) = NULL"
  shows "new_wrapper q m = None"
proof -
  obtain al where a: "ssalloc_alloc 1 (of_nat MR_NODE_SIZE) (alloc m) = (NULL, al)"
    using assms(2) by (metis prod.collapse)
  show ?thesis unfolding new_wrapper_def a using assms(1) by simp
qed

lemma stamp_retired:
  assumes r: "retired m ws" and w: "mrs m w \<noteq> None"
  obtains m' where "stamp w m = Some m'" "retired m' ws" "actual (mrs m') = actual (mrs m)"
    "created_at (mrs m') w = clock m (tick m)" "\<forall>y. y \<noteq> w \<longrightarrow> mrs m' y = mrs m y"
    "mrs m' w \<noteq> None" "m' = m\<lparr>mrs := mrs m', tick := Suc (tick m)\<rparr>"
proof -
  obtain c where c: "mrs m w = Some c" using w by blast
  define m' where "m' = m\<lparr>mrs := (mrs m)(w \<mapsto> c\<lparr>created := clock m (tick m)\<rparr>), tick := Suc (tick m)\<rparr>"
  have act: "actual (mrs m') = actual (mrs m)"
    using c by (auto simp: m'_def actual_def payload_def fun_eq_iff)
  have "retired m' ws"
    using r c by (auto simp: retired_def act wrappers_mapped_def) (auto simp: m'_def)
  then show ?thesis using c act
    by (intro that [of m']) (auto simp: stamp_def gettimeofday_def m'_def)
qed

section \<open>Pushing a new wrapper\<close>

text \<open>\<open>all\<close> are the wrappers in use, \<open>ws\<close> those in the list that gets the new one.\<close>

lemma push_plain:
  assumes r: "retired m all" and d: "dll (mrs m) l ws" and sub: "set ws \<subseteq> set all"
    and q: "nodes m q \<noteq> None" and room: "fst (ssalloc_alloc 1 (of_nat MR_NODE_SIZE) (alloc m)) \<noteq> NULL"
  obtains w m1 rl h where "new_wrapper q m = Some (w, m1)"
    "add_to_head l w (mrs m1) = Some (rl, h)" "dll h rl (w # ws)" "w \<notin> set all" "w \<noteq> NULL"
    "retired (m1\<lparr>mrs := h\<rparr>) (w # all)" "\<forall>y. y \<noteq> w \<longrightarrow> y \<notin> set ws \<longrightarrow> h y = mrs m y"
    "actual h w = q" "\<forall>v. v \<noteq> w \<longrightarrow> actual h v = actual (mrs m) v \<and> created_at h v = created_at (mrs m) v"
    "m1 = m\<lparr>mrs := mrs m1, alloc := alloc m1\<rparr>"
proof -
  from new_wrapper_retired [OF r q room] obtain w m1 where
    nw: "new_wrapper q m = Some (w, m1)" and w: "w \<noteq> NULL" "w \<notin> set all" and r1: "retired m1 (w # all)"
    and act: "actual (mrs m1) w = q" and fr: "\<forall>y. y \<noteq> w \<longrightarrow> mrs m1 y = mrs m y"
    and wm: "mrs m1 w \<noteq> None" and m1: "m1 = m\<lparr>mrs := mrs m1, alloc := alloc m1\<rparr>" by blast
  have wws: "w \<notin> set ws" using w sub by blast
  have len: "length ws + 1 < 2 ^ 32" using subset_length [OF r dll_distinct [OF d] sub] by simp
  have "links (mrs m1) NULL ws NULL = links (mrs m) NULL ws NULL"
    by (rule links_cong) (use fr wws in auto)
  then have d1: "dll (mrs m1) l ws" using d by (simp add: dll_def)
  obtain c where "mrs m1 w = Some c" using wm by blast
  with d1 obtain rl h where add: "add_to_head l w (mrs m1) = Some (rl, h)" "dll h rl (w # ws)"
    and t: "touches (insert w (set ws)) (mrs m1) h"
    using w(1) wws len by (elim add_to_head_dll [of "mrs m1" l ws w c]) auto
  have "retired (m1\<lparr>mrs := h\<rparr>) (w # all)"
    by (rule retired_release [where m = m1 and ws = "w # all" and fs = "[]" and A = "{}"
          and S = "insert w (set ws)"]) (use r1 t in \<open>auto simp: retired_def\<close>)
  moreover have "actual h = actual (mrs m1)" "created_at h = created_at (mrs m1)"
    using touches_actual [OF t] touches_created_at [OF t] by simp_all
  moreover have "v \<noteq> w \<Longrightarrow> actual (mrs m1) v = actual (mrs m) v \<and> created_at (mrs m1) v = created_at (mrs m) v" for v
    using fr by (simp add: actual_def created_at_def payload_def)
  moreover have "\<forall>y. y \<noteq> w \<longrightarrow> y \<notin> set ws \<longrightarrow> h y = mrs m y" using t fr by (simp add: touches_def)
  ultimately show ?thesis using nw add w act m1 by (intro that [of w m1 rl h]) auto
qed

lemma push_stamped:
  assumes r: "retired m all" and d: "dll (mrs m) l ws" and sub: "set ws \<subseteq> set all"
    and q: "nodes m q \<noteq> None" and room: "fst (ssalloc_alloc 1 (of_nat MR_NODE_SIZE) (alloc m)) \<noteq> NULL"
  obtains w m1 m2 rl h where "new_wrapper q m = Some (w, m1)" "stamp w m1 = Some m2"
    "add_to_head l w (mrs m2) = Some (rl, h)" "dll h rl (w # ws)" "w \<notin> set all" "w \<noteq> NULL"
    "retired (m2\<lparr>mrs := h\<rparr>) (w # all)" "\<forall>y. y \<noteq> w \<longrightarrow> y \<notin> set ws \<longrightarrow> h y = mrs m y"
    "actual h w = q" "created_at h w = clock m (tick m)"
    "\<forall>v. v \<noteq> w \<longrightarrow> actual h v = actual (mrs m) v \<and> created_at h v = created_at (mrs m) v"
    "m2 = m\<lparr>mrs := mrs m2, alloc := alloc m2, tick := Suc (tick m)\<rparr>"
proof -
  from new_wrapper_retired [OF r q room] obtain w m1 where
    nw: "new_wrapper q m = Some (w, m1)" and w: "w \<noteq> NULL" "w \<notin> set all" and r1: "retired m1 (w # all)"
    and act1: "actual (mrs m1) w = q" and fr1: "\<forall>y. y \<noteq> w \<longrightarrow> mrs m1 y = mrs m y"
    and wm1: "mrs m1 w \<noteq> None" and m1: "m1 = m\<lparr>mrs := mrs m1, alloc := alloc m1\<rparr>" by blast
  from stamp_retired [OF r1 wm1] obtain m2 where
    st: "stamp w m1 = Some m2" and r2: "retired m2 (w # all)" and act2: "actual (mrs m2) = actual (mrs m1)"
    and cr2: "created_at (mrs m2) w = clock m1 (tick m1)" and fr2: "\<forall>y. y \<noteq> w \<longrightarrow> mrs m2 y = mrs m1 y"
    and wm2: "mrs m2 w \<noteq> None" and m2: "m2 = m1\<lparr>mrs := mrs m2, tick := Suc (tick m1)\<rparr>" by blast
  have fld1: "clock m1 = clock m" "tick m1 = tick m" by (subst m1, simp)+
  have fr: "\<forall>y. y \<noteq> w \<longrightarrow> mrs m2 y = mrs m y" using fr1 fr2 by simp
  have wws: "w \<notin> set ws" using w sub by blast
  have len: "length ws + 1 < 2 ^ 32" using subset_length [OF r dll_distinct [OF d] sub] by simp
  have "links (mrs m2) NULL ws NULL = links (mrs m) NULL ws NULL"
    by (rule links_cong) (use fr wws in auto)
  then have d1: "dll (mrs m2) l ws" using d by (simp add: dll_def)
  obtain c where "mrs m2 w = Some c" using wm2 by blast
  with d1 obtain rl h where add: "add_to_head l w (mrs m2) = Some (rl, h)" "dll h rl (w # ws)"
    and t: "touches (insert w (set ws)) (mrs m2) h"
    using w(1) wws len by (elim add_to_head_dll [of "mrs m2" l ws w c]) auto
  have "retired (m2\<lparr>mrs := h\<rparr>) (w # all)"
    by (rule retired_release [where m = m2 and ws = "w # all" and fs = "[]" and A = "{}"
          and S = "insert w (set ws)"]) (use r2 t in \<open>auto simp: retired_def\<close>)
  moreover have th: "actual h = actual (mrs m2)" "created_at h = created_at (mrs m2)"
    using touches_actual [OF t] touches_created_at [OF t] by simp_all
  moreover have "v \<noteq> w \<Longrightarrow> actual (mrs m2) v = actual (mrs m) v \<and> created_at (mrs m2) v = created_at (mrs m) v" for v
    using fr by (simp add: actual_def created_at_def payload_def)
  moreover have "\<forall>y. y \<noteq> w \<longrightarrow> y \<notin> set ws \<longrightarrow> h y = mrs m y" using t fr by (simp add: touches_def)
  moreover have "m2 = m\<lparr>mrs := mrs m2, alloc := alloc m2, tick := Suc (tick m)\<rparr>"
  proof -
    obtain a b where A: "m1 = m\<lparr>mrs := a, alloc := b\<rparr>" using m1 by blast
    obtain c where C: "m2 = m1\<lparr>mrs := c, tick := Suc (tick m1)\<rparr>" using m2 by blast
    show ?thesis unfolding C A by simp
  qed
  ultimately show ?thesis using nw st add w act1 act2 cr2 fld1
    by (intro that [of w m1 m2 rl h]) auto
qed

text \<open>Distinct nodes kept because of hazard pointers are at most as many as these.\<close>

lemma hazard_bound:
  assumes d: "distinct (map f ws)" and h: "\<And>w. w \<in> set ws \<Longrightarrow> f w \<in> hazards m"
  shows "length ws \<le> length (HP m)"
proof -
  have "length ws = card (f ` set ws)"
    using d by (metis distinct_card length_map set_map)
  also have "\<dots> \<le> card (set (HP m))" by (rule card_mono) (use h in \<open>auto simp: hazards_def\<close>)
  finally show ?thesis using card_length [of "HP m"] by simp
qed

section \<open>A concrete memory\<close>

text \<open>
  Two wrappers, at 4160 (newer) and 4096, for the nodes 96 and 64, retired at times 10 s and
  5 s. The witnesses of the schemes evaluate their operations on this memory.
\<close>

definition ex_mrs :: mr_heap where
  "ex_mrs p =
     (if p = 4160 then Some \<lparr>actual_node = 96, created = \<lparr>tv_sec = 10, tv_usec = 0\<rparr>,
                             mr_prev = 0, mr_next = 4096\<rparr>
      else if p = 4096 then Some \<lparr>actual_node = 64, created = \<lparr>tv_sec = 5, tv_usec = 0\<rparr>,
                             mr_prev = 4160, mr_next = 0\<rparr>
      else if p = 0 then None
      else Some \<lparr>actual_node = 0, created = \<lparr>tv_sec = 0, tv_usec = 0\<rparr>, mr_prev = 0, mr_next = 0\<rparr>)"

definition ex_nodes :: node_heap where
  "ex_nodes p = (if p = 0 then None else Some \<lparr>n_key = 7, n_val = 1, n_marked = 0, n_next = 0\<rparr>)"

definition ex_alloc :: ssalloc_state where
  "ex_alloc = \<lparr>app_mem = (\<lambda>a. if a = 0 then 64 else 4096), alloc_next = (\<lambda>a. if a = 0 then 96 else 128),
     free_list = (\<lambda>_ _. 0), free_cur = (\<lambda>_. 0), free_num = (\<lambda>_. 0), memory_reuse = 0, freed_nodes = 0\<rparr>"

definition ex_list :: double_llist where
  "ex_list = \<lparr>ll_head = 4160, ll_tail = 4096, ll_size = 2\<rparr>"

lemma ex_dll: "dll ex_mrs ex_list [4160, 4096]"
  by (simp add: dll_def ex_mrs_def ex_list_def)

lemma ex_arena: "arena_inv 1 MR_NODE_SIZE ex_alloc {4160, 4096}"
  by (simp add: arena_inv_def arena_ok_def in_arena_def free_queue_def ex_alloc_def MR_NODE_SIZE_def
      ssalloc_size_def SSALLOC_SIZE_BIG_def)

lemma ex_actual [simp]: "actual ex_mrs 4160 = 96" "actual ex_mrs 4096 = 64"
  by (simp_all add: actual_def payload_def ex_mrs_def)

lemma ex_created_at [simp]:
  "created_at ex_mrs 4160 = \<lparr>tv_sec = 10, tv_usec = 0\<rparr>"
  "created_at ex_mrs 4096 = \<lparr>tv_sec = 5, tv_usec = 0\<rparr>"
  by (simp_all add: created_at_def payload_def ex_mrs_def)

lemma ex_retired:
  "nodes m = ex_nodes \<Longrightarrow> mrs m = ex_mrs \<Longrightarrow> alloc m = ex_alloc \<Longrightarrow> retired m [4160, 4096]"
  using ex_arena
  by (simp add: retired_def wrappers_mapped_def) (simp add: ex_mrs_def ex_nodes_def ex_alloc_def)

lemma ex_room: "fst (ssalloc_alloc 1 (of_nat MR_NODE_SIZE) ex_alloc) = 4224"
  by (simp add: ssalloc_alloc_def ex_alloc_def MR_NODE_SIZE_def ssalloc_size_def SSALLOC_SIZE_BIG_def)

lemmas ex_room' = ex_room [unfolded One_nat_def]

end
