(* ===== verification/Smr.thy ===== *)
theory Smr
  imports Retire
begin

text \<open>
  Hazard pointers with memory barriers, src/smr.c: retired nodes wait in \<open>rlist\<close>, and when
  \<open>rcount\<close> reaches R the thread scans the hazard pointers of all threads and releases what
  none of them protects. The theory models every operation of the file, shows what a scan
  keeps and releases, that the list stays below R, and when the exit loop ends.
\<close>

section \<open>Thread data\<close>

text \<open>\<open>struct smr_data\<close> of include/smr.h on top of the memory; the scratch array \<open>plist\<close> is local
  to a scan.\<close>

record smr_data = mem +
  rlist :: double_llist
  vlist :: double_llist
  rcount :: u32
  nthreads :: u32
  thread_index :: u32
  free_calls :: u8

definition smr_H :: "'a smr_data_scheme \<Rightarrow> u32" where
  "smr_H s = of_nat K * nthreads s"

definition smr_R :: "'a smr_data_scheme \<Rightarrow> u32" where
  "smr_R s = 100 + 2 * smr_H s"

section \<open>Initialisation\<close>

definition smr_init_global :: "u8 \<Rightarrow> 'a smr_data_scheme \<Rightarrow> 'a smr_data_scheme" where
  "smr_init_global n s = s\<lparr>HP := replicate (K * unat n) NULL\<rparr>"

definition smr_init_local :: "u8 \<Rightarrow> u8 \<Rightarrow> 'a smr_data_scheme \<Rightarrow> 'a smr_data_scheme" where
  "smr_init_local ti n s =
     s\<lparr>rlist := init, rcount := 0, thread_index := ucast ti, nthreads := ucast n\<rparr>"

section \<open>Scan and retirement\<close>

definition smr_scan :: "'a smr_data_scheme \<Rightarrow> 'a smr_data_scheme option" where
  "smr_scan s = do {
     plist \<leftarrow> collect_hps (unat (smr_H s)) 0 (HP s) [];
     (rl, rc, s1) \<leftarrow> sweep_loop (hazard_test plist) (rlist s) init 0 s;
     Some (s1\<lparr>rlist := rl, rcount := rc\<rparr>)
   }"

definition smr_free_node_later :: "ptr \<Rightarrow> 'a smr_data_scheme \<Rightarrow> 'a smr_data_scheme option" where
  "smr_free_node_later n s = do {
     (w, s1) \<leftarrow> new_wrapper n s;
     (rl, h) \<leftarrow> add_to_head (rlist s1) w (mrs s1);
     let s2 = s1\<lparr>mrs := h, rlist := rl, rcount := rcount s1 + 1\<rparr>;
     if rcount s2 \<ge> smr_R s2 then smr_scan s2 else Some s2
   }"

section \<open>Thread exit\<close>

text \<open>The own hazard pointers are cleared, index by index.\<close>

fun clear_own_hps :: "nat \<Rightarrow> nat \<Rightarrow> nat \<Rightarrow> ptr list \<Rightarrow> ptr list option" where
  "clear_own_hps ti i 0 hp = Some hp"
| "clear_own_hps ti i (Suc n) hp =
     (if K * ti + i < length hp then clear_own_hps ti (Suc i) n (hp[K * ti + i := NULL]) else None)"

text \<open>\<open>yield n hp\<close>: the hazard pointers after the n-th \<open>sched_yield\<close>, which lets the other threads
  run. The loop has no bound in this file.\<close>

partial_function (option) smr_exit_loop ::
  "(nat \<Rightarrow> ptr list \<Rightarrow> ptr list) \<Rightarrow> nat \<Rightarrow> 'a smr_data_scheme \<Rightarrow> 'a smr_data_scheme option" where
  "smr_exit_loop yield n s =
     (if rcount s > 0 then do {
        s1 \<leftarrow> smr_scan s;
        smr_exit_loop yield (Suc n) (s1\<lparr>HP := yield n (HP s1)\<rparr>)
      } else Some s)"

declare smr_exit_loop.simps [code]

definition smr_thread_exit ::
  "(nat \<Rightarrow> ptr list \<Rightarrow> ptr list) \<Rightarrow> 'a smr_data_scheme \<Rightarrow> 'a smr_data_scheme option" where
  "smr_thread_exit yield s = do {
     hp \<leftarrow> clear_own_hps (unat (thread_index s)) 0 K (HP s);
     smr_exit_loop yield 0 (s\<lparr>HP := hp\<rparr>)
   }"

section \<open>Invariant\<close>

text \<open>The retired wrappers \<open>ws\<close> are exactly the ones in \<open>rlist\<close>, and \<open>rcount\<close> counts them.\<close>

definition smr_inv :: "'a smr_data_scheme \<Rightarrow> ptr list \<Rightarrow> bool" where
  "smr_inv s ws \<longleftrightarrow>
     dll (mrs s) (rlist s) ws \<and> retired s ws \<and> unat (rcount s) = length ws \<and>
     unat (nthreads s) < 256 \<and> length (HP s) = K * unat (nthreads s)"

definition protected :: "'a mem_scheme \<Rightarrow> ptr \<Rightarrow> bool" where
  "protected m w \<longleftrightarrow> actual (mrs m) w \<in> hazards m"

lemma unat_smr_H: "unat (nthreads s) < 256 \<Longrightarrow> unat (smr_H s) = K * unat (nthreads s)"
  by (simp add: smr_H_def K_def unat_word_ariths)

lemma unat_smr_R: "unat (nthreads s) < 256 \<Longrightarrow> unat (smr_R s) = 100 + 2 * (K * unat (nthreads s))"
  by (simp add: smr_R_def unat_word_ariths unat_smr_H) (simp add: K_def)

lemma smr_collect:
  assumes "smr_inv s ws"
  obtains plist where "collect_hps (unat (smr_H s)) 0 (HP s) [] = Some plist" "set plist = hazards s"
  using assms collect_hps_Some [of 0 "unat (smr_H s)" "HP s" "[]"]
  by (auto simp: smr_inv_def unat_smr_H hazards_def)

text \<open>What a scan does to the abstract list: it keeps the protected wrappers, in order.\<close>

lemma smr_scan_inv:
  assumes inv: "smr_inv s ws"
  obtains s' where "smr_scan s = Some s'" "smr_inv s' (filter (protected s) ws)"
    "nodes s' = poison (actual (mrs s) ` {w \<in> set ws. \<not> protected s w}) (nodes s)"
    "alloc s' = free_pairs (with_actual (mrs s) (rev (filter (\<lambda>w. \<not> protected s w) ws))) (alloc s)"
    "HP s' = HP s" "actual (mrs s') = actual (mrs s)" "nthreads s' = nthreads s"
    "thread_index s' = thread_index s"
proof -
  obtain plist where p: "collect_hps (unat (smr_H s)) 0 (HP s) [] = Some plist"
    and hz: "set plist = hazards s" using inv by (rule smr_collect)
  let ?v = "\<lambda>(_ :: nat \<Rightarrow> timeval) (_ :: nat) a (_ :: timeval). ssearch plist a"
  have k: "keeps ?v 0 s = (\<lambda>_. protected s)"
    by (intro ext) (simp add: keeps_def protected_def hz)
  have len: "length ws < 2 ^ 32"
    using inv unat_u32_less [of "rcount s"] by (simp add: smr_inv_def)
  have pre: "dll (mrs s) (rlist s) ws" "dll (mrs s) init []" "set ws \<inter> set [] = {}"
    "length ws + length [] < 2 ^ 32" "\<forall>w \<in> set ws. nodes s (actual (mrs s) w) \<noteq> None"
    using inv len by (auto simp: smr_inv_def retired_def)
  let ?fs = "filter (\<lambda>w. \<not> protected s w) (rev ws)" and ?ks = "filter (protected s) (rev ws)"
  obtain rl h where
    sw: "sweep_loop (hazard_test plist) (rlist s) init (0 :: u32) s = Some (rl, of_nat (length ?ks),
        s\<lparr>mrs := h, nodes := poison (actual (mrs s) ` set ?fs) (nodes s),
          alloc := free_pairs (with_actual (mrs s) ?fs) (alloc s), tick := tick s\<rparr>)"
    and d: "dll h rl (rev ?ks)" and t: "touches (set ws) (mrs s) h"
    using hazard_keep.sweep_loop_correct [OF pre refl refl, of plist 0]
    unfolding k sweep_const by auto
  define s' where "s' = s\<lparr>mrs := h, nodes := poison (actual (mrs s) ` set ?fs) (nodes s),
      alloc := free_pairs (with_actual (mrs s) ?fs) (alloc s), tick := tick s,
      rlist := rl, rcount := of_nat (length ?ks)\<rparr>"
  have scan: "smr_scan s = Some s'" using p sw by (simp add: smr_scan_def s'_def)
  have ks: "rev ?ks = filter (protected s) ws" by (simp add: rev_filter [symmetric])
  have ks_len: "length (filter (protected s) ws) < 2 ^ 32" by (rule le_less_trans [OF length_filter_le len])
  have ret: "retired s' (filter (protected s) ws)"
    by (rule retired_release [where m = s and ws = ws and fs = ?fs and S = "set ws"])
      (use inv t in \<open>auto simp: smr_inv_def retired_def s'_def\<close>)
  have "smr_inv s' (filter (protected s) ws)"
    using inv d ret len ks_len ks unfolding smr_inv_def
    by (simp add: s'_def unat_of_nat_less)
  moreover have "actual (mrs s') = actual (mrs s)" using touches_actual [OF t] by (simp add: s'_def)
  ultimately show ?thesis using scan
    by (intro that [of s']) (simp_all add: s'_def rev_filter)
qed

text \<open>Retiring a node: a new wrapper at the head, and a scan when R is reached.\<close>

lemma smr_retire_inv:
  assumes inv: "smr_inv s ws" and q: "nodes s q \<noteq> None"
    and room: "fst (ssalloc_alloc 1 (of_nat MR_NODE_SIZE) (alloc s)) \<noteq> NULL"
  obtains w s2 where "w \<notin> set ws" "smr_inv s2 (w # ws)" "actual (mrs s2) w = q"
    "\<forall>v \<in> set ws. actual (mrs s2) v = actual (mrs s) v" "HP s2 = HP s" "nodes s2 = nodes s"
    "nthreads s2 = nthreads s" "thread_index s2 = thread_index s"
    "smr_free_node_later q s = (if rcount s2 \<ge> smr_R s2 then smr_scan s2 else Some s2)"
    "alloc s2 = snd (ssalloc_alloc 1 (of_nat MR_NODE_SIZE) (alloc s))"
proof -
  have r: "retired s ws" using inv by (simp add: smr_inv_def)
  have len: "length ws + 1 < 2 ^ 32" using retired_length [OF r] by simp
  from new_wrapper_retired [OF r q room] obtain w s1 where
    nw: "new_wrapper q s = Some (w, s1)" and w: "w \<noteq> NULL" "w \<notin> set ws" and r1: "retired s1 (w # ws)"
    and act: "actual (mrs s1) w = q" and fr: "\<forall>y. y \<noteq> w \<longrightarrow> mrs s1 y = mrs s y"
    and wm: "mrs s1 w \<noteq> None" and s1: "s1 = s\<lparr>mrs := mrs s1, alloc := alloc s1\<rparr>" by blast
  have fld: "rlist s1 = rlist s" "rcount s1 = rcount s" "HP s1 = HP s" "nodes s1 = nodes s"
    "nthreads s1 = nthreads s" "thread_index s1 = thread_index s" by (subst s1, simp)+
  have "links (mrs s1) NULL ws NULL = links (mrs s) NULL ws NULL"
    by (rule links_cong) (use fr w in auto)
  then have "dll (mrs s1) (rlist s1) ws" using inv by (simp add: smr_inv_def dll_def fld)
  moreover obtain c where "mrs s1 w = Some c" using wm by blast
  ultimately obtain rl h where add: "add_to_head (rlist s1) w (mrs s1) = Some (rl, h)"
    and d: "dll h rl (w # ws)" and t: "touches (insert w (set ws)) (mrs s1) h"
    using w len by (elim add_to_head_dll [of "mrs s1" "rlist s1" ws w c]) auto
  define s2 where "s2 = s1\<lparr>mrs := h, rlist := rl, rcount := rcount s1 + 1\<rparr>"
  have "retired s2 (w # ws)"
    by (rule retired_release [where m = s1 and ws = "w # ws" and fs = "[]" and A = "{}"
          and S = "insert w (set ws)"])
      (use r1 t in \<open>auto simp: s2_def retired_def\<close>)
  then have "smr_inv s2 (w # ws)"
    using inv d len by (simp add: smr_inv_def s2_def fld unat_succ)
  moreover have "actual (mrs s2) = actual (mrs s1)" using touches_actual [OF t] by (simp add: s2_def)
  moreover have "\<forall>v \<in> set ws. actual (mrs s1) v = actual (mrs s) v"
    using fr w by (auto simp: actual_def payload_def)
  moreover have "smr_free_node_later q s = (if rcount s2 \<ge> smr_R s2 then smr_scan s2 else Some s2)"
    using nw add by (simp add: smr_free_node_later_def s2_def Let_def)
  ultimately show ?thesis using w act new_wrapper_alloc [OF nw]
    by (intro that [of w s2]) (simp_all add: s2_def fld)
qed

lemma protected_cong:
  "actual (mrs s') = actual (mrs s) \<Longrightarrow> HP s' = HP s \<Longrightarrow> protected s' = protected s"
  by (simp add: protected_def hazards_def fun_eq_iff)

lemma kept_bound:
  "distinct (map (actual (mrs s)) ws) \<Longrightarrow> length (filter (protected s) ws) \<le> length (HP s)"
  by (rule hazard_bound [OF distinct_map_filter]) (assumption, simp add: protected_def)

section \<open>Properties\<close>

text \<open>C13: A scan of src/smr.c returns without a fault and releases exactly the retired nodes that
  no published hazard pointer protects: the other wrappers stay in \<open>rlist\<close> in their order, the
  released nodes are poisoned and both blocks of each are given back, oldest first.\<close>

theorem smr_scan_releases_unprotected:
  assumes "smr_inv s ws"
  shows "\<exists>s'. smr_scan s = Some s' \<and> smr_inv s' (filter (protected s) ws) \<and>
    nodes s' = poison (actual (mrs s) ` {w \<in> set ws. \<not> protected s w}) (nodes s) \<and>
    alloc s' = free_pairs (with_actual (mrs s) (rev (filter (\<lambda>w. \<not> protected s w) ws))) (alloc s) \<and>
    HP s' = HP s"
  by (rule smr_scan_inv [OF assms], rule exI, intro conjI) assumption+

text \<open>C18: Retiring distinct nodes keeps the per-thread list below R = 100 + 2H nodes: after every
  \<open>free_node_later\<close>, at most R - 1 nodes wait, whatever the other threads protect.\<close>

theorem smr_free_node_later_bound:
  assumes "smr_inv s ws" "length ws < unat (smr_R s)" "distinct (map (actual (mrs s)) ws)"
    "q \<notin> actual (mrs s) ` set ws" "nodes s q \<noteq> None"
    "fst (ssalloc_alloc 1 (of_nat MR_NODE_SIZE) (alloc s)) \<noteq> NULL"
  shows "\<exists>s' ws'. smr_free_node_later q s = Some s' \<and> smr_inv s' ws' \<and>
    length ws' < unat (smr_R s') \<and> distinct (map (actual (mrs s')) ws')"
proof -
  have n: "unat (nthreads s) < 256" using assms(1) by (simp add: smr_inv_def)
  from smr_retire_inv [OF assms(1,5,6)] obtain w s2 where w: "w \<notin> set ws"
    and inv2: "smr_inv s2 (w # ws)" and act: "actual (mrs s2) w = q"
      "\<forall>v \<in> set ws. actual (mrs s2) v = actual (mrs s) v"
    and fld: "HP s2 = HP s" "nthreads s2 = nthreads s"
    and eq: "smr_free_node_later q s = (if rcount s2 \<ge> smr_R s2 then smr_scan s2 else Some s2)"
    by metis
  have R: "smr_R s2 = smr_R s" by (simp add: smr_R_def smr_H_def fld)
  have "map (actual (mrs s2)) ws = map (actual (mrs s)) ws" using act(2) by simp
  then have "map (actual (mrs s2)) (w # ws) = q # map (actual (mrs s)) ws" using act(1) by simp
  then have dist: "distinct (map (actual (mrs s2)) (w # ws))"
    using assms(3,4) by (simp only: distinct.simps set_map) simp
  show ?thesis
  proof (cases "rcount s2 \<ge> smr_R s2")
    case False
    then have "length (w # ws) < unat (smr_R s2)" using inv2 by (simp add: smr_inv_def word_less_nat_alt not_le)
    then show ?thesis using False inv2 dist eq by auto
  next
    case True
    from smr_scan_inv [OF inv2] obtain s' where s': "smr_scan s2 = Some s'"
      "smr_inv s' (filter (protected s2) (w # ws))" "actual (mrs s') = actual (mrs s2)"
      "nthreads s' = nthreads s2" by metis
    have "length (filter (protected s2) (w # ws)) \<le> K * unat (nthreads s)"
      using kept_bound [OF dist] inv2 by (simp add: smr_inv_def fld)
    moreover have "smr_R s' = smr_R s" by (simp add: smr_R_def smr_H_def s' fld)
    ultimately have "length (filter (protected s2) (w # ws)) < unat (smr_R s')"
      using unat_smr_R [OF n] by simp
    moreover have "distinct (map (actual (mrs s')) (filter (protected s2) (w # ws)))"
      unfolding s'(3) by (rule distinct_map_filter [OF dist])
    ultimately show ?thesis using True eq s' by auto
  qed
qed

text \<open>With allocator 1 exhausted, \<open>free_node_later\<close> writes through the NULL it got: a fault.\<close>

theorem smr_free_node_later_exhausted:
  assumes "mrs s NULL = None" "fst (ssalloc_alloc 1 (of_nat MR_NODE_SIZE) (alloc s)) = NULL"
  shows "smr_free_node_later q s = None"
  using new_wrapper_exhausted [OF assms] by (simp add: smr_free_node_later_def)


section \<open>Leaving\<close>

lemma smr_inv_HP: "smr_inv s ws \<Longrightarrow> length hp = length (HP s) \<Longrightarrow> smr_inv (s\<lparr>HP := hp\<rparr>) ws"
  by (auto simp: smr_inv_def retired_def wrappers_mapped_def)

lemma smr_inv_rcount: "smr_inv s ws \<Longrightarrow> rcount s = 0 \<longleftrightarrow> ws = []"
  by (auto simp: smr_inv_def unat_eq_zero [symmetric])

lemma smr_exit_unprotected:
  assumes inv: "smr_inv s ws" and free: "\<forall>w \<in> set ws. \<not> protected s w"
    and len: "\<forall>n hp. length (yield n hp) = length hp"
  shows "\<exists>s'. smr_exit_loop yield n s = Some s' \<and> smr_inv s' []"
proof (cases "ws = []")
  case True
  then have "rcount s = 0" using smr_inv_rcount [OF inv] by simp
  then show ?thesis using inv True by (simp add: smr_exit_loop.simps)
next
  case False
  then have pos: "rcount s > 0" using smr_inv_rcount [OF inv] by (simp add: word_gt_0)
  have none: "filter (protected s) ws = []" using free by (simp add: filter_empty_conv)
  from smr_scan_inv [OF inv] obtain s1 where s1: "smr_scan s = Some s1" "smr_inv s1 []"
    unfolding none .
  let ?s2 = "s1\<lparr>HP := yield n (HP s1)\<rparr>"
  have inv2: "smr_inv ?s2 []" using s1(2) len by (simp add: smr_inv_HP)
  then have "rcount ?s2 = 0" using smr_inv_rcount [OF inv2] by simp
  then have "smr_exit_loop yield (Suc n) ?s2 = Some ?s2" by (subst smr_exit_loop.simps) simp
  then show ?thesis using pos s1(1) inv2 by (simp add: smr_exit_loop.simps [of yield n])
qed

lemma smr_exit_returns:
  assumes "smr_inv s ws" "\<forall>n hp. length (yield n hp) = length hp"
    and "\<forall>w \<in> set ws. \<forall>hp. actual (mrs s) w \<in> set (yield (n + k) hp) \<longrightarrow> actual (mrs s) w = NULL"
  shows "\<exists>s'. smr_exit_loop yield n s = Some s' \<and> smr_inv s' []"
  using assms
proof (induction k arbitrary: n s ws)
  case 0
  show ?case
  proof (cases "ws = []")
    case True
    then show ?thesis using 0 smr_exit_unprotected [of s ws yield n] by simp
  next
    case False
    then have pos: "rcount s > 0" using smr_inv_rcount [OF 0(1)] by (simp add: word_gt_0)
    from smr_scan_inv [OF 0(1)] obtain s1 where s1: "smr_scan s = Some s1"
      "smr_inv s1 (filter (protected s) ws)" "actual (mrs s1) = actual (mrs s)" by metis
    let ?s2 = "s1\<lparr>HP := yield n (HP s1)\<rparr>"
    have "smr_inv ?s2 (filter (protected s) ws)" using s1(2) 0(2) by (simp add: smr_inv_HP)
    moreover have "\<forall>w \<in> set (filter (protected s) ws). \<not> protected ?s2 w"
      using 0(3) by (auto simp: protected_def hazards_def s1(3))
    ultimately have "\<exists>s'. smr_exit_loop yield (Suc n) ?s2 = Some s' \<and> smr_inv s' []"
      using 0(2) by (intro smr_exit_unprotected)
    then show ?thesis using pos s1(1) by (simp add: smr_exit_loop.simps [of yield n])
  qed
next
  case (Suc k)
  show ?case
  proof (cases "ws = []")
    case True
    then show ?thesis using Suc.prems smr_exit_unprotected [of s ws yield n] by simp
  next
    case False
    then have pos: "rcount s > 0" using smr_inv_rcount [OF Suc.prems(1)] by (simp add: word_gt_0)
    from smr_scan_inv [OF Suc.prems(1)] obtain s1 where s1: "smr_scan s = Some s1"
      "smr_inv s1 (filter (protected s) ws)" "actual (mrs s1) = actual (mrs s)" by metis
    let ?s2 = "s1\<lparr>HP := yield n (HP s1)\<rparr>"
    have "smr_inv ?s2 (filter (protected s) ws)" using s1(2) Suc.prems(2) by (simp add: smr_inv_HP)
    then have "\<exists>s'. smr_exit_loop yield (Suc n) ?s2 = Some s' \<and> smr_inv s' []"
      by (rule Suc.IH [OF _ Suc.prems(2)]) (use Suc.prems(3) s1(3) in auto)
    then show ?thesis using pos s1(1) by (simp add: smr_exit_loop.simps [of yield n])
  qed
qed

text \<open>A wrapper whose node some hazard pointer protects throughout.\<close>

definition pinned :: "(nat \<Rightarrow> ptr list \<Rightarrow> ptr list) \<Rightarrow> 'a smr_data_scheme \<Rightarrow> ptr list \<Rightarrow> ptr \<Rightarrow> bool" where
  "pinned yield s ws w \<longleftrightarrow> smr_inv s ws \<and> w \<in> set ws \<and> protected s w \<and>
     (\<forall>n hp. length (yield n hp) = length hp \<and>
             (actual (mrs s) w \<in> set hp \<longrightarrow> actual (mrs s) w \<in> set (yield n hp)))"

lemma pinned_step:
  assumes "pinned yield s ws w"
  obtains s1 where "rcount s > 0" "smr_scan s = Some s1"
    "pinned yield (s1\<lparr>HP := yield n (HP s1)\<rparr>) (filter (protected s) ws) w"
proof -
  have inv: "smr_inv s ws" using assms by (simp add: pinned_def)
  have pos: "rcount s > 0" using smr_inv_rcount [OF inv] assms by (auto simp: word_gt_0 pinned_def)
  from smr_scan_inv [OF inv] obtain s1 where s1: "smr_scan s = Some s1"
    "smr_inv s1 (filter (protected s) ws)" "actual (mrs s1) = actual (mrs s)" "HP s1 = HP s" by metis
  have "smr_inv (s1\<lparr>HP := yield n (HP s1)\<rparr>) (filter (protected s) ws)"
    using s1(2) assms by (simp add: smr_inv_HP pinned_def)
  then have "pinned yield (s1\<lparr>HP := yield n (HP s1)\<rparr>) (filter (protected s) ws) w"
    using assms by (simp add: pinned_def protected_def hazards_def s1(3,4))
  with pos s1(1) show ?thesis by (rule that)
qed

lemma smr_exit_pinned: "smr_exit_loop yield n s = Some s' \<Longrightarrow> \<not> pinned yield s ws w"
proof (rule smr_exit_loop.raw_induct [where P = "\<lambda>yield n s s'. \<forall>ws. \<not> pinned yield s ws w", THEN spec])
  fix loop and yield n and s s' :: "'a smr_data_scheme"
  assume IH: "\<And>yield n (s :: 'a smr_data_scheme) s'. loop yield n s = Some s' \<Longrightarrow> \<forall>ws. \<not> pinned yield s ws w"
    and eq: "(if rcount s > 0 then do {
        s1 \<leftarrow> smr_scan s;
        loop yield (Suc n) (s1\<lparr>HP := yield n (HP s1)\<rparr>)
      } else Some s) = Some s'"
  show "\<forall>ws. \<not> pinned yield s ws w"
  proof (intro allI notI)
    fix ws assume "pinned yield s ws w"
    then obtain s1 where "rcount s > 0" "smr_scan s = Some s1"
      and p: "pinned yield (s1\<lparr>HP := yield n (HP s1)\<rparr>) (filter (protected s) ws) w"
      by (rule pinned_step)
    with eq have "loop yield (Suc n) (s1\<lparr>HP := yield n (HP s1)\<rparr>) = Some s'" by simp
    from IH [OF this] p show False by simp
  qed
qed

lemma clear_own_hps_Some:
  "K * ti + i + n \<le> length hp \<Longrightarrow>
   \<exists>hp'. clear_own_hps ti i n hp = Some hp' \<and> length hp' = length hp \<and>
     (\<forall>j < length hp. hp' ! j = (if K * ti + i \<le> j \<and> j < K * ti + i + n then NULL else hp ! j))"
proof (induction n arbitrary: i hp)
  case (Suc n)
  have "K * ti + Suc i + n \<le> length (hp[K * ti + i := NULL])" using Suc.prems by simp
  from Suc.IH [OF this] Suc.prems show ?case by (fastforce simp: nth_list_update)
qed auto


lemma thread_exit_cleared:
  assumes inv: "smr_inv s ws" and ti: "thread_index s < nthreads s"
  obtains hp where "clear_own_hps (unat (thread_index s)) 0 K (HP s) = Some hp"
    "length hp = length (HP s)" "smr_inv (s\<lparr>HP := hp\<rparr>) ws"
    "\<forall>j < length hp. hp ! j = (if K * unat (thread_index s) \<le> j \<and> j < K * unat (thread_index s) + K
                               then NULL else HP s ! j)"
proof -
  have "K * unat (thread_index s) + 0 + K \<le> length (HP s)"
    using inv ti by (simp add: smr_inv_def word_less_nat_alt K_def)
  from clear_own_hps_Some [OF this] obtain hp where
    "clear_own_hps (unat (thread_index s)) 0 K (HP s) = Some hp" "length hp = length (HP s)"
    "\<forall>j < length (HP s). hp ! j = (if K * unat (thread_index s) \<le> j \<and> j < K * unat (thread_index s) + K
                               then NULL else HP s ! j)" by auto
  then show ?thesis using inv by (intro that [of hp]) (simp_all add: smr_inv_HP)
qed


text \<open>Without such a round \<open>mr_thread_exit\<close> never returns: one hazard pointer of another
  thread that stays on a retired node keeps the leaving thread in its loop forever.\<close>

theorem smr_thread_exit_waits:
  assumes "smr_inv s ws" "thread_index s < nthreads s" "w \<in> set ws" "actual (mrs s) w \<noteq> NULL"
    and "j < length (HP s)" "HP s ! j = actual (mrs s) w"
    and "j < K * unat (thread_index s) \<or> K * unat (thread_index s) + K \<le> j"
    and "\<forall>n hp. length (yield n hp) = length hp \<and>
                (actual (mrs s) w \<in> set hp \<longrightarrow> actual (mrs s) w \<in> set (yield n hp))"
  shows "smr_thread_exit yield s = None"
proof -
  obtain hp where hp: "clear_own_hps (unat (thread_index s)) 0 K (HP s) = Some hp"
    "smr_inv (s\<lparr>HP := hp\<rparr>) ws" "length hp = length (HP s)"
    "\<forall>j < length hp. hp ! j = (if K * unat (thread_index s) \<le> j \<and> j < K * unat (thread_index s) + K
                               then NULL else HP s ! j)"
    using thread_exit_cleared [OF assms(1,2)] by metis
  have "hp ! j \<in> set hp" using assms(5) hp(3) by simp
  moreover have "hp ! j = actual (mrs s) w" using hp(3,4) assms(5-7) by auto
  ultimately have "actual (mrs s) w \<in> set hp" by simp
  then have "pinned yield (s\<lparr>HP := hp\<rparr>) ws w"
    using assms(3,4,8) hp(2) by (simp add: pinned_def protected_def hazards_def)
  then have "smr_exit_loop yield 0 (s\<lparr>HP := hp\<rparr>) = None"
    using smr_exit_pinned by (metis not_None_eq)
  then show ?thesis using hp(1) by (simp add: smr_thread_exit_def)
qed

section \<open>Witnesses\<close>

definition ex_smr :: smr_data where
  "ex_smr = \<lparr>nodes = ex_nodes, mrs = ex_mrs, alloc = ex_alloc, HP = [0, 0, 96, 0],
     clock = (\<lambda>_. \<lparr>tv_sec = 0, tv_usec = 0\<rparr>), tick = 0,
     rlist = ex_list, vlist = init, rcount = 2, nthreads = 2, thread_index = 0, free_calls = 0\<rparr>"

lemma ex_smr_sel [simp]:
  "nodes ex_smr = ex_nodes" "mrs ex_smr = ex_mrs" "alloc ex_smr = ex_alloc" "HP ex_smr = [0, 0, 96, 0]"
  "rlist ex_smr = ex_list" "rcount ex_smr = 2" "nthreads ex_smr = 2" "thread_index ex_smr = 0"
  by (simp_all add: ex_smr_def)

lemma ex_smr_inv: "smr_inv ex_smr [4160, 4096]"
  by (simp add: smr_inv_def ex_dll ex_retired K_def)

lemma ex_smr_protected [simp]: "protected ex_smr 4160" "\<not> protected ex_smr 4096"
  by (simp_all add: protected_def hazards_def)

definition ex_yield :: "nat \<Rightarrow> ptr list \<Rightarrow> ptr list" where
  "ex_yield n hp = (if n = 1 then replicate (length hp) NULL else hp)"

lemma smr_scan_releases_unprotected_witness:
  "\<exists>s'. smr_scan ex_smr = Some s' \<and> smr_inv s' [4160] \<and> HP s' = [0, 0, 96, 0]"
  using smr_scan_releases_unprotected [OF ex_smr_inv] by auto

lemma smr_free_node_later_bound_witness:
  "\<exists>s' ws'. smr_free_node_later 128 ex_smr = Some s' \<and> smr_inv s' ws' \<and>
    length ws' < unat (smr_R s') \<and> distinct (map (actual (mrs s')) ws')"
  by (rule smr_free_node_later_bound [OF ex_smr_inv])
    (simp_all add: unat_smr_R K_def ex_room [unfolded One_nat_def], simp add: ex_nodes_def)


lemma smr_thread_exit_waits_witness: "smr_thread_exit (\<lambda>_ hp. hp) ex_smr = None"
  by (rule smr_thread_exit_waits [OF ex_smr_inv, of 4160 2]) (simp_all add: K_def)

definition ex_full :: smr_data where
  "ex_full = ex_smr\<lparr>alloc := ex_alloc\<lparr>alloc_next := \<lambda>_. SSALLOC_SIZE_BIG\<rparr>\<rparr>"

lemma smr_free_node_later_exhausted_witness: "smr_free_node_later 128 ex_full = None"
  by (rule smr_free_node_later_exhausted)
    (simp_all add: ex_full_def ex_mrs_def ex_alloc_def ssalloc_alloc_def MR_NODE_SIZE_def
      ssalloc_size_def SSALLOC_SIZE_BIG_def)

end
