(* ===== verification/Smr_No_Membar.thy ===== *)
theory Smr_No_Membar
  imports Smr
begin

text \<open>
  Cadence, src/smr_no_membar.c: hazard pointers published without a memory barrier. A retired
  node carries the time of its retirement and is released only when it is older than one
  sleeper period plus a margin, besides being unprotected. This file uses \<open>rlist\<close> as a singly
  linked stack: only \<open>head\<close> and \<open>mr_next\<close> are maintained.
\<close>

section \<open>Initialisation\<close>

definition snm_init_global :: "u8 \<Rightarrow> 'a smr_data_scheme \<Rightarrow> 'a smr_data_scheme" where
  "snm_init_global n s = s\<lparr>HP := replicate (K * unat n) NULL\<rparr>"

definition snm_init_local :: "u8 \<Rightarrow> u8 \<Rightarrow> 'a smr_data_scheme \<Rightarrow> 'a smr_data_scheme" where
  "snm_init_local ti n s =
     s\<lparr>rlist := init, rcount := 0, thread_index := ucast ti, nthreads := ucast n\<rparr>"

section \<open>Scan and retirement\<close>

partial_function (option) snm_sweep ::
  "ptr list \<Rightarrow> ptr \<Rightarrow> ptr \<Rightarrow> u32 \<Rightarrow> 'a smr_data_scheme \<Rightarrow> (ptr \<times> u32 \<times> 'a smr_data_scheme) option" where
  "snm_sweep plist tmplist hd_r rc s =
     (if tmplist \<noteq> NULL then do {
        c \<leftarrow> mrs s tmplist;
        (unsafe, s1) \<leftarrow> young_or_hazard_test plist tmplist s;
        if unsafe then do {
          h \<leftarrow> set_next tmplist hd_r (mrs s1);
          snm_sweep plist (mr_next c) tmplist (rc + 1) (s1\<lparr>mrs := h\<rparr>)
        } else do {
          s2 \<leftarrow> release tmplist s1;
          snm_sweep plist (mr_next c) hd_r rc s2
        }
      } else Some (hd_r, rc, s))"

declare snm_sweep.simps [code]

definition snm_scan :: "'a smr_data_scheme \<Rightarrow> 'a smr_data_scheme option" where
  "snm_scan s = do {
     plist \<leftarrow> collect_hps (unat (smr_H s)) 0 (HP s) [];
     (hd_r, rc, s1) \<leftarrow> snm_sweep plist (ll_head (rlist s)) NULL 0 s;
     Some (s1\<lparr>rlist := (rlist s)\<lparr>ll_head := hd_r\<rparr>, rcount := rc\<rparr>)
   }"

definition snm_free_node_later :: "ptr \<Rightarrow> 'a smr_data_scheme \<Rightarrow> 'a smr_data_scheme option" where
  "snm_free_node_later n s = do {
     (w, s1) \<leftarrow> new_wrapper n s;
     s2 \<leftarrow> stamp w s1;
     h \<leftarrow> set_next w (ll_head (rlist s2)) (mrs s2);
     let s3 = s2\<lparr>mrs := h, rlist := (rlist s2)\<lparr>ll_head := w\<rparr>, rcount := rcount s2 + 1\<rparr>;
     if rcount s3 \<ge> smr_R s3 then snm_scan s3 else Some s3
   }"

section \<open>Thread exit\<close>

text \<open>At most \<open>MAX_EXIT_RETRIES = 100 * nthreads\<close> scans; \<open>yield\<close> is as in the theory of smr.c.\<close>

partial_function (option) snm_exit_loop ::
  "(nat \<Rightarrow> ptr list \<Rightarrow> ptr list) \<Rightarrow> u32 \<Rightarrow> 'a smr_data_scheme \<Rightarrow> 'a smr_data_scheme option" where
  "snm_exit_loop yield retries s =
     (if rcount s > 0 \<and> retries < 100 * nthreads s then do {
        s1 \<leftarrow> snm_scan s;
        snm_exit_loop yield (retries + 1) (s1\<lparr>HP := yield (unat retries) (HP s1)\<rparr>)
      } else Some s)"

declare snm_exit_loop.simps [code]

definition snm_thread_exit ::
  "(nat \<Rightarrow> ptr list \<Rightarrow> ptr list) \<Rightarrow> 'a smr_data_scheme \<Rightarrow> 'a smr_data_scheme option" where
  "snm_thread_exit yield s = do {
     hp \<leftarrow> clear_own_hps (unat (thread_index s)) 0 K (HP s);
     snm_exit_loop yield 0 (s\<lparr>HP := hp\<rparr>)
   }"

section \<open>Invariant\<close>

definition snm_inv :: "'a smr_data_scheme \<Rightarrow> ptr list \<Rightarrow> bool" where
  "snm_inv s ws \<longleftrightarrow>
     chain (mrs s) (ll_head (rlist s)) ws \<and> retired s ws \<and> unat (rcount s) = length ws \<and>
     unat (nthreads s) < 256 \<and> length (HP s) = K * unat (nthreads s)"

text \<open>The \<open>j\<close>-th wrapper of a scan is kept: too young at the time of its own clock reading, or
  protected.\<close>

definition unsafe_at :: "'a mem_scheme \<Rightarrow> nat \<Rightarrow> ptr \<Rightarrow> bool" where
  "unsafe_at m j w \<longleftrightarrow> \<not> old_enough_at (clock m (tick m + j)) (created_at (mrs m) w) \<or> protected m w"

text \<open>The node was old, or young, at some reading of the clock from now on.\<close>

definition seen_old :: "'a mem_scheme \<Rightarrow> ptr \<Rightarrow> bool" where
  "seen_old m w \<longleftrightarrow> (\<exists>t \<ge> tick m. old_enough_at (clock m t) (created_at (mrs m) w))"

definition seen_young :: "'a mem_scheme \<Rightarrow> ptr \<Rightarrow> bool" where
  "seen_young m w \<longleftrightarrow> (\<exists>t \<ge> tick m. \<not> old_enough_at (clock m t) (created_at (mrs m) w))"

lemma kept_unsafe: "w \<in> set (kept (unsafe_at m) 0 xs) \<Longrightarrow> protected m w \<or> seen_young m w"
  by (drule kept_keep) (auto simp: unsafe_at_def seen_young_def intro!: exI [of _ "tick m + _"])

lemma reclaimed_safe: "w \<in> set (reclaimed (unsafe_at m) 0 xs) \<Longrightarrow> \<not> protected m w \<and> seen_old m w"
  by (drule reclaimed_drop) (auto simp: unsafe_at_def seen_old_def intro!: exI [of _ "tick m + _"])

section \<open>The scan\<close>

lemma young_test_eq:
  "mrs m w = Some c \<Longrightarrow> set plist = hazards m \<Longrightarrow>
   young_or_hazard_test plist w m = Some (unsafe_at m 0 w, m\<lparr>tick := Suc (tick m)\<rparr>)"
  using young_keep.keep_eq [of m w c plist] by (simp add: unsafe_at_def protected_def)

lemma unsafe_at_Suc:
  "touches S (mrs m) (mrs m') \<Longrightarrow> clock m' = clock m \<Longrightarrow> tick m' = Suc (tick m) \<Longrightarrow> HP m' = HP m \<Longrightarrow>
   unsafe_at m' = (\<lambda>j. unsafe_at m (Suc j))"
  by (simp add: unsafe_at_def protected_def hazards_def fun_eq_iff touches_actual touches_created_at)

lemma snm_sweep_ex:
  assumes "chain (mrs s) p xs" "chain (mrs s) q ys" "distinct xs" "set xs \<inter> set ys = {}"
    "set plist = hazards s" "\<forall>w \<in> set xs. nodes s (actual (mrs s) w) \<noteq> None"
  shows "\<exists>q' h'.
    snm_sweep plist p q rc s = Some (q', rc + of_nat (length (kept (unsafe_at s) 0 xs)),
       s\<lparr>nodes := poison (actual (mrs s) ` set (reclaimed (unsafe_at s) 0 xs)) (nodes s), mrs := h',
         alloc := free_pairs (with_actual (mrs s) (reclaimed (unsafe_at s) 0 xs)) (alloc s),
         tick := tick s + length xs\<rparr>) \<and>
    chain h' q' (rev (kept (unsafe_at s) 0 xs) @ ys) \<and> touches (set xs) (mrs s) h'"
  using assms
proof (induction xs arbitrary: s p q ys rc)
  case Nil
  then show ?case
    by (intro exI [of _ q] exI [of _ "mrs s"]) (simp add: snm_sweep.simps)
next
  case (Cons x xs)
  obtain c where c: "mrs s x = Some c" and p: "p = x" "x \<noteq> NULL" and nx: "chain (mrs s) (mr_next c) xs"
    using Cons.prems(1) by (auto split: option.splits)
  let ?s1 = "s\<lparr>tick := Suc (tick s)\<rparr>"
  have test: "young_or_hazard_test plist x s = Some (unsafe_at s 0 x, ?s1)"
    by (rule young_test_eq [OF c Cons.prems(5)])
  show ?case
  proof (cases "unsafe_at s 0 x")
    case True
    define s2 where "s2 = s\<lparr>mrs := (mrs s)(x \<mapsto> c\<lparr>mr_next := q\<rparr>), tick := Suc (tick s)\<rparr>"
    have t: "touches {x} (mrs s) (mrs s2)"
      using set_next_touches [of x q "mrs s"] c by (simp add: set_next_def s2_def)
    have fld: "nodes s2 = nodes s" "alloc s2 = alloc s" "HP s2 = HP s" "clock s2 = clock s"
      "tick s2 = Suc (tick s)" by (simp_all add: s2_def)
    have act: "actual (mrs s2) = actual (mrs s)" by (rule touches_actual [OF t])
    have k: "unsafe_at s2 = (\<lambda>j. unsafe_at s (Suc j))" by (rule unsafe_at_Suc [OF t]) (simp_all add: fld)
    have pre: "chain (mrs s2) (mr_next c) xs" "chain (mrs s2) x (x # ys)"
      "distinct xs" "set xs \<inter> set (x # ys) = {}" "set plist = hazards s2"
      "\<forall>w \<in> set xs. nodes s2 (actual (mrs s2) w) \<noteq> None"
    proof -
      show "chain (mrs s2) (mr_next c) xs" using nx chain_touches [OF t] Cons.prems(3) by simp
      have "chain (mrs s2) q ys" using Cons.prems(2,4) chain_touches [OF t] by simp
      then show "chain (mrs s2) x (x # ys)" using p by (simp add: s2_def)
    qed (use Cons.prems act fld in \<open>auto simp: hazards_def\<close>)
    obtain q' h' where
      IH: "snm_sweep plist (mr_next c) x (rc + 1) s2 = Some (q', rc + 1 + of_nat (length (kept (unsafe_at s2) 0 xs)),
       s2\<lparr>nodes := poison (actual (mrs s2) ` set (reclaimed (unsafe_at s2) 0 xs)) (nodes s2), mrs := h',
         alloc := free_pairs (with_actual (mrs s2) (reclaimed (unsafe_at s2) 0 xs)) (alloc s2),
         tick := tick s2 + length xs\<rparr>)"
      and ch: "chain h' q' (rev (kept (unsafe_at s2) 0 xs) @ x # ys)" and t': "touches (set xs) (mrs s2) h'"
      using Cons.IH [OF pre, of "rc + 1"] by metis
    have upd: "s2\<lparr>nodes := a, mrs := b, alloc := d, tick := e\<rparr> = s\<lparr>nodes := a, mrs := b, alloc := d, tick := e\<rparr>"
      for a b d e by (simp add: s2_def)
    have "snm_sweep plist p q rc s = snm_sweep plist (mr_next c) x (rc + 1) s2"
      using p c test True by (subst snm_sweep.simps) (simp add: set_next_def s2_def)
    moreover have "touches (set (x # xs)) (mrs s) h'" by (rule touches_comp [OF t t']) auto
    moreover have "chain h' q' (rev (kept (unsafe_at s) 0 (x # xs)) @ ys)"
      using ch True by (simp add: k sweep_shift)
    ultimately show ?thesis using True
      by (intro exI [of _ q'] exI [of _ h'] conjI) (simp_all add: IH upd k sweep_shift act fld add.assoc with_actual_def)
  next
    case False
    have nn: "nodes ?s1 (actual_node c) \<noteq> None" using Cons.prems(6) c by simp
    define s2 where "s2 = ?s1\<lparr>nodes := poison {actual_node c} (nodes s),
                  alloc := free_pairs [(x, actual_node c)] (alloc s)\<rparr>"
    have rel: "release x ?s1 = Some s2" using release_eq [of ?s1 x c] c nn by (simp add: s2_def)
    have fld: "mrs s2 = mrs s" "nodes s2 = poison {actual (mrs s) x} (nodes s)" "tick s2 = Suc (tick s)"
      "alloc s2 = free_pairs [(x, actual (mrs s) x)] (alloc s)" "clock s2 = clock s" "HP s2 = HP s"
      using c by (simp_all add: s2_def)
    have k: "unsafe_at s2 = (\<lambda>j. unsafe_at s (Suc j))"
      by (rule unsafe_at_Suc [of "{}"]) (simp_all add: fld)
    have pre: "chain (mrs s2) (mr_next c) xs" "chain (mrs s2) q ys"
      "distinct xs" "set xs \<inter> set ys = {}" "set plist = hazards s2"
      "\<forall>w \<in> set xs. nodes s2 (actual (mrs s2) w) \<noteq> None"
      using Cons.prems nx by (auto simp: fld hazards_def)
    obtain q' h' where
      IH: "snm_sweep plist (mr_next c) q rc s2 = Some (q', rc + of_nat (length (kept (unsafe_at s2) 0 xs)),
       s2\<lparr>nodes := poison (actual (mrs s2) ` set (reclaimed (unsafe_at s2) 0 xs)) (nodes s2), mrs := h',
         alloc := free_pairs (with_actual (mrs s2) (reclaimed (unsafe_at s2) 0 xs)) (alloc s2),
         tick := tick s2 + length xs\<rparr>)"
      and ch: "chain h' q' (rev (kept (unsafe_at s2) 0 xs) @ ys)" and t': "touches (set xs) (mrs s2) h'"
      using Cons.IH [OF pre, of rc] by metis
    have upd: "s2\<lparr>nodes := a, mrs := b, alloc := d, tick := e\<rparr> = s\<lparr>nodes := a, mrs := b, alloc := d, tick := e\<rparr>"
      for a b d e by (simp add: s2_def)
    have "snm_sweep plist p q rc s = snm_sweep plist (mr_next c) q rc s2"
      using p c test False rel by (subst snm_sweep.simps) simp
    moreover have "touches (set (x # xs)) (mrs s) h'" using touches_mono [OF t', of "set (x # xs)"] by (auto simp: fld)
    ultimately show ?thesis using False ch
      by (intro exI [of _ q'] exI [of _ h'] conjI)
        (simp_all add: IH upd k sweep_shift fld poison_poison Un_commute)
  qed
qed


lemma unsafe_at_cong:
  "actual (mrs m') = actual (mrs m) \<Longrightarrow> created_at (mrs m') = created_at (mrs m) \<Longrightarrow> HP m' = HP m \<Longrightarrow>
   clock m' = clock m \<Longrightarrow> tick m' = tick m \<Longrightarrow> unsafe_at m' = unsafe_at m"
  by (simp add: unsafe_at_def protected_def hazards_def fun_eq_iff)

lemma snm_scan_inv:
  assumes inv: "snm_inv s ws"
  obtains s' where "snm_scan s = Some s'" "snm_inv s' (rev (kept (unsafe_at s) 0 ws))"
    "nodes s' = poison (actual (mrs s) ` set (reclaimed (unsafe_at s) 0 ws)) (nodes s)"
    "alloc s' = free_pairs (with_actual (mrs s) (reclaimed (unsafe_at s) 0 ws)) (alloc s)"
    "HP s' = HP s" "actual (mrs s') = actual (mrs s)" "created_at (mrs s') = created_at (mrs s)"
    "nthreads s' = nthreads s" "thread_index s' = thread_index s" "clock s' = clock s"
    "tick s' = tick s + length ws"
proof -
  obtain plist where p: "collect_hps (unat (smr_H s)) 0 (HP s) [] = Some plist"
    and hz: "set plist = hazards s"
    using inv collect_hps_Some [of 0 "unat (smr_H s)" "HP s" "[]"]
    by (auto simp: snm_inv_def unat_smr_H hazards_def)
  let ?ks = "kept (unsafe_at s) 0 ws" and ?fs = "reclaimed (unsafe_at s) 0 ws"
  have ret: "retired s ws" and dist: "distinct ws"
    using inv by (simp_all add: snm_inv_def retired_def)
  have pre: "chain (mrs s) (ll_head (rlist s)) ws" "chain (mrs s) NULL []" "set ws \<inter> set [] = {}"
    "\<forall>w \<in> set ws. nodes s (actual (mrs s) w) \<noteq> None"
    using inv by (auto simp: snm_inv_def retired_def)
  from snm_sweep_ex [OF pre(1,2) dist pre(3) hz pre(4), of 0] obtain q' h' where
    sw: "snm_sweep plist (ll_head (rlist s)) NULL 0 s = Some (q', of_nat (length ?ks),
       s\<lparr>nodes := poison (actual (mrs s) ` set ?fs) (nodes s), mrs := h',
         alloc := free_pairs (with_actual (mrs s) ?fs) (alloc s), tick := tick s + length ws\<rparr>)"
    and ch: "chain h' q' (rev ?ks)" and t: "touches (set ws) (mrs s) h'" by auto
  define s' where "s' = s\<lparr>nodes := poison (actual (mrs s) ` set ?fs) (nodes s), mrs := h',
         alloc := free_pairs (with_actual (mrs s) ?fs) (alloc s), tick := tick s + length ws,
         rlist := (rlist s)\<lparr>ll_head := q'\<rparr>, rcount := of_nat (length ?ks)\<rparr>"
  have scan: "snm_scan s = Some s'" using p sw by (simp add: snm_scan_def s'_def)
  have "length ?ks < 2 ^ 32"
    using kept_length_le [of "unsafe_at s" 0 ws] inv unat_u32_less [of "rcount s"]
    by (simp add: snm_inv_def)
  moreover have "retired s' (rev ?ks)"
    by (rule retired_release [OF ret reclaimed_subset distinct_reclaimed [OF dist]])
      (use t sweep_set [of "unsafe_at s" 0 ws] sweep_disjoint [OF dist, of "unsafe_at s" 0]
           distinct_kept [OF dist] in \<open>auto simp: s'_def\<close>)
  ultimately have "snm_inv s' (rev ?ks)"
    using inv ch by (simp add: snm_inv_def s'_def unat_of_nat_less)
  then show ?thesis using scan touches_actual [OF t] touches_created_at [OF t]
    by (intro that [of s']) (simp_all add: s'_def)
qed

lemma snm_retire_inv:
  assumes inv: "snm_inv s ws" and q: "nodes s q \<noteq> None"
    and room: "fst (ssalloc_alloc 1 (of_nat MR_NODE_SIZE) (alloc s)) \<noteq> NULL"
  obtains w s2 where "w \<notin> set ws" "snm_inv s2 (w # ws)" "actual (mrs s2) w = q"
    "created_at (mrs s2) w = clock s (tick s)"
    "\<forall>v \<in> set ws. actual (mrs s2) v = actual (mrs s) v \<and> created_at (mrs s2) v = created_at (mrs s) v"
    "HP s2 = HP s" "nodes s2 = nodes s" "clock s2 = clock s" "tick s2 = Suc (tick s)"
    "nthreads s2 = nthreads s" "thread_index s2 = thread_index s"
    "snm_free_node_later q s = (if rcount s2 \<ge> smr_R s2 then snm_scan s2 else Some s2)"
    "alloc s2 = snd (ssalloc_alloc 1 (of_nat MR_NODE_SIZE) (alloc s))"
proof -
  have r: "retired s ws" using inv by (simp add: snm_inv_def)
  have len: "length ws + 1 < 2 ^ 32" using retired_length [OF r] by simp
  from new_wrapper_retired [OF r q room] obtain w s1 where
    nw: "new_wrapper q s = Some (w, s1)" and w: "w \<noteq> NULL" "w \<notin> set ws" and r1: "retired s1 (w # ws)"
    and act1: "actual (mrs s1) w = q" and fr1: "\<forall>y. y \<noteq> w \<longrightarrow> mrs s1 y = mrs s y"
    and wm1: "mrs s1 w \<noteq> None" and s1: "s1 = s\<lparr>mrs := mrs s1, alloc := alloc s1\<rparr>" by blast
  from stamp_retired [OF r1 wm1] obtain s2 where
    st: "stamp w s1 = Some s2" and r2: "retired s2 (w # ws)" and act2: "actual (mrs s2) = actual (mrs s1)"
    and cr2: "created_at (mrs s2) w = clock s1 (tick s1)" and fr2: "\<forall>y. y \<noteq> w \<longrightarrow> mrs s2 y = mrs s1 y"
    and wm2: "mrs s2 w \<noteq> None" and s2: "s2 = s1\<lparr>mrs := mrs s2, tick := Suc (tick s1)\<rparr>" by blast
  have fld1: "rlist s1 = rlist s" "rcount s1 = rcount s" "HP s1 = HP s" "nodes s1 = nodes s"
    "nthreads s1 = nthreads s" "thread_index s1 = thread_index s" "clock s1 = clock s" "tick s1 = tick s"
    by (subst s1, simp)+
  have fal: "alloc s2 = alloc s1" by (subst s2, simp)
  have fld2: "rlist s2 = rlist s" "rcount s2 = rcount s" "HP s2 = HP s" "nodes s2 = nodes s"
    "nthreads s2 = nthreads s" "thread_index s2 = thread_index s" "clock s2 = clock s" "tick s2 = Suc (tick s)"
    by (subst s2, simp add: fld1)+
  obtain c where c: "mrs s2 w = Some c" using wm2 by blast
  define s3 where "s3 = s2\<lparr>mrs := (mrs s2)(w \<mapsto> c\<lparr>mr_next := ll_head (rlist s2)\<rparr>),
    rlist := (rlist s2)\<lparr>ll_head := w\<rparr>, rcount := rcount s2 + 1\<rparr>"
  have fr3: "\<forall>y \<in> set ws. mrs s3 y = mrs s y" using fr1 fr2 w by (auto simp: s3_def)
  have t: "touches {w} (mrs s2) (mrs s3)"
    using set_next_touches [of w "ll_head (rlist s2)" "mrs s2"] c by (simp add: set_next_def s3_def)
  have "chain (mrs s3) (ll_head (rlist s)) ws"
    using inv chain_cong [of ws "mrs s3" "mrs s"] fr3 by (simp add: snm_inv_def)
  then have "chain (mrs s3) (ll_head (rlist s3)) (w # ws)" using w by (simp add: s3_def fld2)
  moreover have "retired s3 (w # ws)"
    by (rule retired_release [where m = s2 and ws = "w # ws" and fs = "[]" and A = "{}" and S = "{w}"])
      (use r2 t in \<open>auto simp: s3_def retired_def\<close>)
  ultimately have "snm_inv s3 (w # ws)"
    using inv len by (simp add: snm_inv_def s3_def fld2 unat_succ)
  moreover have "actual (mrs s3) w = q" "created_at (mrs s3) w = clock s (tick s)"
    using touches_actual [OF t] touches_created_at [OF t] act1 act2 cr2 by (simp_all add: fld1)
  moreover have "\<forall>v \<in> set ws. actual (mrs s3) v = actual (mrs s) v \<and> created_at (mrs s3) v = created_at (mrs s) v"
    using fr3 by (auto simp: actual_def created_at_def payload_def)
  moreover have "snm_free_node_later q s = (if rcount s3 \<ge> smr_R s3 then snm_scan s3 else Some s3)"
    using nw st c by (simp add: snm_free_node_later_def set_next_def s3_def Let_def)
  ultimately show ?thesis using w new_wrapper_alloc [OF nw]
    by (intro that [of w s3]) (simp_all add: s3_def fld2 fal)
qed

section \<open>Leaving\<close>

lemma snm_inv_HP: "snm_inv s ws \<Longrightarrow> length hp = length (HP s) \<Longrightarrow> snm_inv (s\<lparr>HP := hp\<rparr>) ws"
  by (auto simp: snm_inv_def retired_def wrappers_mapped_def)

lemma snm_exit_total:
  assumes "snm_inv s ws" "\<forall>n hp. length (yield n hp) = length hp"
  shows "\<exists>s' ws'. snm_exit_loop yield r s = Some s' \<and> snm_inv s' ws' \<and> set ws' \<subseteq> set ws"
  using assms
proof (induction "100 * unat (nthreads s) - unat r" arbitrary: s ws r)
  case 0
  have "unat (100 * nthreads s) = 100 * unat (nthreads s)"
    using 0(2) by (simp add: snm_inv_def unat_word_ariths)
  then have "\<not> r < 100 * nthreads s" using 0(1) by (simp add: word_less_nat_alt)
  then have "snm_exit_loop yield r s = Some s" by (simp add: snm_exit_loop.simps)
  then show ?case using 0(2) by blast
next
  case (Suc k)
  have lim: "unat (100 * nthreads s) = 100 * unat (nthreads s)" "unat (nthreads s) < 256"
    using Suc.prems(1) by (simp_all add: snm_inv_def unat_word_ariths)
  show ?case
  proof (cases "rcount s > 0")
    case False
    then have "snm_exit_loop yield r s = Some s" by (simp add: snm_exit_loop.simps)
    then show ?thesis using Suc.prems(1) by blast
  next
    case True
    have lt: "r < 100 * nthreads s" using Suc.hyps(2) lim by (simp add: word_less_nat_alt)
    have r1: "unat (r + 1) = unat r + 1" using Suc.hyps(2) lim by (intro unat_succ) simp
    from snm_scan_inv [OF Suc.prems(1)] obtain s1 where s1: "snm_scan s = Some s1"
      "snm_inv s1 (rev (kept (unsafe_at s) 0 ws))" "nthreads s1 = nthreads s" by metis
    let ?s2 = "s1\<lparr>HP := yield (unat r) (HP s1)\<rparr>"
    have "snm_inv ?s2 (rev (kept (unsafe_at s) 0 ws))" using s1(2) Suc.prems(2) by (simp add: snm_inv_HP)
    moreover have "k = 100 * unat (nthreads ?s2) - unat (r + 1)" using Suc.hyps(2) r1 s1(3) by simp
    ultimately obtain s' ws' where "snm_exit_loop yield (r + 1) ?s2 = Some s'" "snm_inv s' ws'"
      "set ws' \<subseteq> set (rev (kept (unsafe_at s) 0 ws))" using Suc.hyps(1) Suc.prems(2) by metis
    moreover from this have "snm_exit_loop yield r s = Some s'"
      using True lt s1(1) by (subst snm_exit_loop.simps) simp
    ultimately show ?thesis using kept_subset [of "unsafe_at s" 0 ws] by auto
  qed
qed


section \<open>Properties\<close>

text \<open>C14: A scan of src/smr_no_membar.c returns without a fault and keeps, in reversed order, the
  wrappers that are younger than SLEEP_AMOUNT + MARGIN milliseconds at their own clock reading
  or protected; it poisons and gives back all others and no other node.\<close>

theorem snm_scan_releases_old_unprotected:
  assumes "snm_inv s ws"
  shows "\<exists>s'. snm_scan s = Some s' \<and> snm_inv s' (rev (kept (unsafe_at s) 0 ws)) \<and>
    nodes s' = poison (actual (mrs s) ` set (reclaimed (unsafe_at s) 0 ws)) (nodes s) \<and>
    alloc s' = free_pairs (with_actual (mrs s) (reclaimed (unsafe_at s) 0 ws)) (alloc s) \<and>
    HP s' = HP s"
  by (rule snm_scan_inv [OF assms], rule exI, intro conjI) assumption+

text \<open>Retiring a node in the no-membar scheme returns, stamps it with the current time and keeps
  every waiting wrapper that is too young or protected: only wrappers that were retired before
  can be missing afterwards, each of them old enough and unprotected at its clock reading.\<close>

theorem snm_free_node_later_safe:
  assumes "snm_inv s ws" "nodes s q \<noteq> None"
    and "fst (ssalloc_alloc 1 (of_nat MR_NODE_SIZE) (alloc s)) \<noteq> NULL"
  shows "\<exists>s' ws' w. snm_free_node_later q s = Some s' \<and> snm_inv s' ws' \<and>
    w \<notin> set ws \<and> actual (mrs s') w = q \<and> created_at (mrs s') w = clock s (tick s) \<and>
    set ws' \<subseteq> insert w (set ws) \<and>
    (\<forall>v \<in> insert w (set ws) - set ws'. actual (mrs s') v \<notin> hazards s \<and>
       (\<exists>t > tick s. old_enough_at (clock s t) (created_at (mrs s') v)))"
proof -
  from snm_retire_inv [OF assms(1,2,3)] obtain w s2 where w: "w \<notin> set ws"
    and inv2: "snm_inv s2 (w # ws)" and act: "actual (mrs s2) w = q" "created_at (mrs s2) w = clock s (tick s)"
    and fld: "HP s2 = HP s" "clock s2 = clock s" "tick s2 = Suc (tick s)"
    and eq: "snm_free_node_later q s = (if rcount s2 \<ge> smr_R s2 then snm_scan s2 else Some s2)"
    by metis
  show ?thesis
  proof (cases "rcount s2 \<ge> smr_R s2")
    case False
    then show ?thesis using eq inv2 w act by (intro exI [of _ s2] exI [of _ "w # ws"] exI [of _ w]) simp
  next
    case True
    let ?ks = "rev (kept (unsafe_at s2) 0 (w # ws))"
    from snm_scan_inv [OF inv2] obtain s' where s': "snm_scan s2 = Some s'" "snm_inv s' ?ks"
      "actual (mrs s') = actual (mrs s2)" "created_at (mrs s') = created_at (mrs s2)" by metis
    have "actual (mrs s') v \<notin> hazards s \<and> (\<exists>t > tick s. old_enough_at (clock s t) (created_at (mrs s') v))"
      if v: "v \<in> insert w (set ws) - set ?ks" for v
    proof -
      have "v \<in> set (reclaimed (unsafe_at s2) 0 (w # ws))"
        using v sweep_set [of "unsafe_at s2" 0 "w # ws"] by auto
      then obtain j where "\<not> unsafe_at s2 j v" using reclaimed_drop by metis
      moreover have "tick s < Suc (tick s) + j" by simp
      ultimately show ?thesis unfolding s'(3,4)
        by (auto simp: unsafe_at_def protected_def hazards_def fld intro!: exI [of _ "Suc (tick s) + j"])
    qed
    moreover have "set ?ks \<subseteq> insert w (set ws)" using kept_subset [of "unsafe_at s2" 0 "w # ws"] by simp
    ultimately show ?thesis using True eq s' w act
      by (intro exI [of _ s'] exI [of _ ?ks] exI [of _ w]) simp
  qed
qed

text \<open>\<open>mr_thread_exit\<close> of src/smr_no_membar.c always returns, after at most 100 * nthreads scans:
  what it could not release stays behind in the list.\<close>

theorem snm_thread_exit_returns:
  assumes "snm_inv s ws" "thread_index s < nthreads s" "\<forall>n hp. length (yield n hp) = length hp"
  shows "\<exists>s' ws'. snm_thread_exit yield s = Some s' \<and> snm_inv s' ws' \<and> set ws' \<subseteq> set ws"
proof -
  have "K * unat (thread_index s) + 0 + K \<le> length (HP s)"
    using assms(1,2) by (simp add: snm_inv_def word_less_nat_alt K_def)
  from clear_own_hps_Some [OF this] obtain hp where
    hp: "clear_own_hps (unat (thread_index s)) 0 K (HP s) = Some hp" "length hp = length (HP s)" by auto
  from snm_exit_total [OF snm_inv_HP [OF assms(1) hp(2)] assms(3), of 0] hp(1)
  show ?thesis by (simp add: snm_thread_exit_def)
qed

section \<open>Witnesses\<close>

definition ex_snm :: smr_data where
  "ex_snm = ex_smr\<lparr>clock := (\<lambda>_. \<lparr>tv_sec = 10, tv_usec = 199999\<rparr>)\<rparr>"

lemma ex_snm_sel [simp]:
  "nodes ex_snm = ex_nodes" "mrs ex_snm = ex_mrs" "alloc ex_snm = ex_alloc" "HP ex_snm = [0, 0, 96, 0]"
  "rlist ex_snm = ex_list" "rcount ex_snm = 2" "nthreads ex_snm = 2" "thread_index ex_snm = 0"
  "clock ex_snm = (\<lambda>_. \<lparr>tv_sec = 10, tv_usec = 199999\<rparr>)" "tick ex_snm = 0"
  by (simp_all add: ex_snm_def ex_smr_def)

lemma ex_snm_inv: "snm_inv ex_snm [4160, 4096]"
  using ex_retired [of ex_snm] by (simp add: snm_inv_def K_def) (simp add: ex_mrs_def ex_list_def)

lemma ex_snm_unsafe [simp]: "unsafe_at ex_snm j 4160" "\<not> unsafe_at ex_snm j 4096"
  by (simp_all add: unsafe_at_def protected_def hazards_def old_enough_at_def elapsed_msec_def Let_def
      SLEEP_AMOUNT_def MARGIN_def word_le_nat_alt)

lemma snm_scan_releases_old_unprotected_witness:
  "\<exists>s'. snm_scan ex_snm = Some s' \<and> snm_inv s' [4160] \<and> HP s' = [0, 0, 96, 0]"
  using snm_scan_releases_old_unprotected [OF ex_snm_inv] by auto

lemma snm_free_node_later_safe_witness:
  "\<exists>s' ws' w. snm_free_node_later 128 ex_snm = Some s' \<and> snm_inv s' ws' \<and> actual (mrs s') w = 128"
  using snm_free_node_later_safe [OF ex_snm_inv, of 128]
  by (auto simp: ex_room [unfolded One_nat_def] ex_nodes_def)

lemma snm_thread_exit_returns_witness:
  "\<exists>s' ws'. snm_thread_exit ex_yield ex_snm = Some s' \<and> snm_inv s' ws' \<and> set ws' \<subseteq> {4160, 4096}"
  using snm_thread_exit_returns [OF ex_snm_inv, of ex_yield] by (simp add: ex_yield_def)

end
