(* ===== verification/Bloom.thy ===== *)
theory Bloom
  imports Qs_Prelude Complex_Main
begin

text \<open>
  The Bloom filter of src/bloom.c over the hash of src/MurmurHash2.c. The scan of
  src/smr_no_membar_opt.c may use it in place of the linear search among the hazard pointers;
  what it relies on is that the filter has no false negatives.
\<close>

section \<open>MurmurHash2\<close>

text \<open>An unaligned little-endian load of four bytes.\<close>

definition load32 :: "u8 \<Rightarrow> u8 \<Rightarrow> u8 \<Rightarrow> u8 \<Rightarrow> u32" where
  "load32 b0 b1 b2 b3 =
     ucast b0 OR push_bit 8 (ucast b1) OR push_bit 16 (ucast b2) OR push_bit 24 (ucast b3)"

definition murmur_m :: u32 where "murmur_m = 0x5bd1e995"

text \<open>The loop over four bytes at a time and the switch on the bytes left over.\<close>

fun murmur_loop :: "u8 list \<Rightarrow> u32 \<Rightarrow> u32" where
  "murmur_loop (b0 # b1 # b2 # b3 # data) h =
     (let k = load32 b0 b1 b2 b3 * murmur_m;
          k = k XOR drop_bit 24 k;
          k = k * murmur_m
      in murmur_loop data ((h * murmur_m) XOR k))"
| "murmur_loop [b0, b1, b2] h =
     (let h = h XOR push_bit 16 (ucast b2);
          h = h XOR push_bit 8 (ucast b1);
          h = h XOR ucast b0
      in h * murmur_m)"
| "murmur_loop [b0, b1] h =
     (let h = h XOR push_bit 8 (ucast b1);
          h = h XOR ucast b0
      in h * murmur_m)"
| "murmur_loop [b0] h = (h XOR ucast b0) * murmur_m"
| "murmur_loop [] h = h"

definition murmurhash2 :: "u8 list \<Rightarrow> u32 \<Rightarrow> u32" where
  "murmurhash2 key seed =
     (let h = murmur_loop key (seed XOR of_nat (length key));
          h = h XOR drop_bit 13 h;
          h = h * murmur_m
      in h XOR drop_bit 15 h)"

section \<open>The filter\<close>

text \<open>
  \<open>bits\<close> and \<open>hashes\<close> are ints in the code, used in unsigned arithmetic only. Doubles are read
  as reals, and \<open>lg\<close> is the \<open>log\<close> of the C library.
\<close>

record bloom =
  bl_entries :: int
  bl_error :: real
  bl_bits :: u32
  bl_bytes :: u32
  bl_hashes :: u32
  bl_bpe :: real
  bf :: "u8 list"
  ready :: bool

definition trunc :: "real \<Rightarrow> int" where
  "trunc r = (if 0 \<le> r then \<lfloor>r\<rfloor> else \<lceil>r\<rceil>)"

definition bloom_init :: "(real \<Rightarrow> real) \<Rightarrow> int \<Rightarrow> real \<Rightarrow> bloom \<Rightarrow> int \<times> bloom" where
  "bloom_init lg entries err b =
     (let b = b\<lparr>ready := False\<rparr> in
      if entries < 1 \<or> err = 0 then (1, b)
      else
        let bpe = - (lg err / 0.480453013918201);
            bits = trunc (of_int entries * bpe);
            bytes = (if bits smod 8 \<noteq> 0 then bits sdiv 8 + 1 else bits sdiv 8);
            hashes = \<lceil>0.693147180559945 * bpe\<rceil>
        in (0, b\<lparr>bl_entries := entries, bl_error := err, bl_bpe := bpe,
                 bl_bits := word_of_int bits, bl_bytes := word_of_int bytes,
                 bl_hashes := word_of_int hashes, bf := replicate (nat bytes) 0, ready := True\<rparr>))"

text \<open>The loop over the hash functions; an index outside \<open>bf\<close> is a fault, as is a modulus of 0.\<close>

fun bloom_bits :: "nat \<Rightarrow> u32 \<Rightarrow> u32 \<Rightarrow> u32 \<Rightarrow> u32 \<Rightarrow> bool \<Rightarrow> u32 \<Rightarrow> u8 list \<Rightarrow> (u32 \<times> u8 list) option" where
  "bloom_bits 0 i a b m add hits f = Some (hits, f)"
| "bloom_bits (Suc n) i a b m add hits f =
     (let x = (a + i * b) mod m;
          byte = unat (drop_bit 3 x);
          mask = push_bit (unat (x mod 8)) 1 :: u8
      in if m = 0 \<or> length f \<le> byte then None
         else if f ! byte AND mask \<noteq> 0 then bloom_bits n (i + 1) a b m add (hits + 1) f
         else bloom_bits n (i + 1) a b m add hits (if add then f[byte := f ! byte OR mask] else f))"

definition bloom_check_add :: "bool \<Rightarrow> bloom \<Rightarrow> u8 list \<Rightarrow> (int \<times> bloom) option" where
  "bloom_check_add add bl buffer =
     (if \<not> ready bl then Some (-1, bl)
      else do {
        let a = murmurhash2 buffer 0x9747b28c;
        let b = murmurhash2 buffer a;
        (hits, f) \<leftarrow> bloom_bits (unat (bl_hashes bl)) 0 a b (bl_bits bl) add 0 (bf bl);
        Some (if hits = bl_hashes bl then 1 else 0, bl\<lparr>bf := f\<rparr>)
      })"

definition bloom_check :: "bloom \<Rightarrow> u8 list \<Rightarrow> (int \<times> bloom) option" where
  "bloom_check bl buffer = bloom_check_add False bl buffer"

definition bloom_add :: "bloom \<Rightarrow> u8 list \<Rightarrow> (int \<times> bloom) option" where
  "bloom_add bl buffer = bloom_check_add True bl buffer"

definition bloom_free :: "bloom \<Rightarrow> bloom" where
  "bloom_free bl = bl\<lparr>bf := (if ready bl then [] else bf bl), ready := False\<rparr>"

section \<open>Membership\<close>

text \<open>\<open>bit_set f x\<close>: bit \<open>x\<close> of the field is set; \<open>positions\<close>: the bits an element hashes to.\<close>

definition bit_set :: "u8 list \<Rightarrow> u32 \<Rightarrow> bool" where
  "bit_set f x \<longleftrightarrow> f ! unat (drop_bit 3 x) AND push_bit (unat (x mod 8)) 1 \<noteq> 0"

definition position :: "bloom \<Rightarrow> u8 list \<Rightarrow> u32 \<Rightarrow> u32" where
  "position bl buffer i =
     (let a = murmurhash2 buffer 0x9747b28c; b = murmurhash2 buffer a in (a + i * b) mod bl_bits bl)"

definition bloom_wf :: "bloom \<Rightarrow> bool" where
  "bloom_wf bl \<longleftrightarrow> ready bl \<and> bl_bits bl \<noteq> 0 \<and> unat (bl_bits bl) \<le> 8 * length (bf bl)"

definition bloom_mem :: "bloom \<Rightarrow> u8 list \<Rightarrow> bool" where
  "bloom_mem bl buffer \<longleftrightarrow> (\<forall>i < bl_hashes bl. bit_set (bf bl) (position bl buffer i))"


lemma bit_set_iff: "bit_set f x \<longleftrightarrow> bit (f ! unat (drop_bit 3 x)) (unat (x mod 8))"
  by (simp add: bit_set_def bit_iff_and_push_bit_not_eq_0)

lemma byte_in_range:
  assumes "m \<noteq> 0" "unat m \<le> 8 * n"
  shows "unat (drop_bit 3 (y mod m :: u32)) < n"
proof -
  have "unat (y mod m) < unat m" using assms(1) by (simp add: unat_mod_distrib unat_gt_0)
  moreover have "unat (drop_bit 3 (y mod m)) = unat (y mod m) div 8"
    by (simp add: drop_bit_eq_div unat_div_distrib)
  ultimately show ?thesis using assms(2) by linarith
qed

lemma bit_set_OR:
  assumes "unat (drop_bit 3 x) < length f"
  shows "bit_set f y \<Longrightarrow> bit_set (f[unat (drop_bit 3 x) := f ! unat (drop_bit 3 x) OR push_bit (unat (x mod 8)) 1]) y"
    "bit_set (f[unat (drop_bit 3 x) := f ! unat (drop_bit 3 x) OR push_bit (unat (x mod 8)) 1]) x"
proof -
  have "unat (x mod 8) < 8" by (simp add: unat_mod_distrib)
  then show "bit_set (f[unat (drop_bit 3 x) := f ! unat (drop_bit 3 x) OR push_bit (unat (x mod 8)) 1]) x"
    using assms by (simp add: bit_set_iff bit_or_iff bit_exp_iff)
  assume "bit_set f y"
  then show "bit_set (f[unat (drop_bit 3 x) := f ! unat (drop_bit 3 x) OR push_bit (unat (x mod 8)) 1]) y"
    using assms by (auto simp: bit_set_iff bit_or_iff nth_list_update)
qed

lemma bloom_bits_add:
  assumes "m \<noteq> 0" "unat m \<le> 8 * length f"
  shows "\<exists>hits' f'. bloom_bits n i a b m True hits f = Some (hits', f') \<and> length f' = length f \<and>
    (\<forall>x. bit_set f x \<longrightarrow> bit_set f' x) \<and> (\<forall>k < n. bit_set f' ((a + (i + of_nat k) * b) mod m))"
  using assms
proof (induction n arbitrary: i hits f)
  case (Suc n)
  let ?x = "(a + i * b) mod m" and ?y = "unat (drop_bit 3 ((a + i * b) mod m))"
  let ?mask = "push_bit (unat (((a + i * b) mod m) mod 8)) 1 :: u8"
  have rng: "?y < length f" by (rule byte_in_range [OF Suc.prems])
  define f1 where "f1 = (if f ! ?y AND ?mask \<noteq> 0 then f else f[?y := f ! ?y OR ?mask])"
  define hits1 where "hits1 = (if f ! ?y AND ?mask \<noteq> 0 then hits + 1 else hits)"
  have step: "bloom_bits (Suc n) i a b m True hits f = bloom_bits n (i + 1) a b m True hits1 f1"
    using rng Suc.prems(1) by (simp add: f1_def hits1_def Let_def)
  have f1: "length f1 = length f" "\<forall>x. bit_set f x \<longrightarrow> bit_set f1 x" "bit_set f1 ?x"
    using bit_set_OR [OF rng] by (auto simp: f1_def bit_set_def)
  have "m \<noteq> 0" "unat m \<le> 8 * length f1" using Suc.prems f1(1) by simp_all
  from Suc.IH [OF this, of "i + 1" hits1] obtain hits' f' where
    r: "bloom_bits n (i + 1) a b m True hits1 f1 = Some (hits', f')" "length f' = length f1"
      "\<forall>x. bit_set f1 x \<longrightarrow> bit_set f' x"
    and new: "\<forall>k < n. bit_set f' ((a + (i + 1 + of_nat k) * b) mod m)" by blast
  have "bit_set f' ((a + (i + of_nat k) * b) mod m)" if "k < Suc n" for k
  proof (cases k)
    case 0 then show ?thesis using f1(3) r(3) by simp
  next
    case (Suc l) then show ?thesis using new that by (simp add: add.assoc)
  qed
  then show ?case using step r f1 by (intro exI [of _ hits'] exI [of _ f']) auto
qed simp

lemma bloom_bits_check:
  assumes "m \<noteq> 0" "unat m \<le> 8 * length f"
  shows "bloom_bits n i a b m False hits f =
    Some (hits + of_nat (length (filter (\<lambda>k. bit_set f ((a + (i + of_nat k) * b) mod m)) [0..<n])), f)"
  using assms
proof (induction n arbitrary: i hits)
  case (Suc n)
  let ?P = "\<lambda>i k. bit_set f ((a + (i + of_nat k) * b) mod m)"
  have rng: "unat (drop_bit 3 ((a + i * b) mod m)) < length f" by (rule byte_in_range [OF Suc.prems])
  have "[0..<Suc n] = 0 # map Suc [0..<n]" by (simp add: upt_conv_Cons map_Suc_upt del: upt_Suc)
  then have "length (filter (?P i) [0..<Suc n]) = (if ?P i 0 then 1 else 0) + length (filter (?P (i + 1)) [0..<n])"
    by (simp add: filter_map comp_def add.assoc del: upt_Suc)
  moreover have "bloom_bits (Suc n) i a b m False hits f =
      bloom_bits n (i + 1) a b m False (if ?P i 0 then hits + 1 else hits) f"
    using rng Suc.prems(1) by (simp add: bit_set_def Let_def)
  ultimately show ?case using Suc by (simp add: add.assoc del: upt_Suc)
qed simp

lemma bloom_check_eq:
  assumes "bloom_wf bl"
  shows "bloom_check bl buffer = Some (if bloom_mem bl buffer then 1 else 0, bl)"
proof -
  let ?a = "murmurhash2 buffer 0x9747b28c" and ?b = "murmurhash2 buffer (murmurhash2 buffer 0x9747b28c)"
  let ?P = "\<lambda>k. bit_set (bf bl) ((?a + (0 + of_nat k) * ?b) mod bl_bits bl)" and ?n = "unat (bl_hashes bl)"
  have "bloom_bits ?n 0 ?a ?b (bl_bits bl) False 0 (bf bl) = Some (0 + of_nat (length (filter ?P [0..<?n])), bf bl)"
    using assms by (intro bloom_bits_check) (auto simp: bloom_wf_def)
  moreover have "of_nat (length (filter ?P [0..<?n])) = bl_hashes bl \<longleftrightarrow> bloom_mem bl buffer"
  proof -
    have le: "length (filter ?P [0..<?n]) \<le> ?n" using length_filter_le [of ?P "[0..<?n]"] by simp
    then have lt: "length (filter ?P [0..<?n]) < 2 ^ 32" using unat_u32_less [of "bl_hashes bl"] by linarith
    have "of_nat (length (filter ?P [0..<?n])) = bl_hashes bl \<longleftrightarrow> length (filter ?P [0..<?n]) = ?n"
      using of_nat_eq_iff_less [where 'a = 32, of "length (filter ?P [0..<?n])" ?n] lt
        unat_u32_less [of "bl_hashes bl"] by simp
    also have "\<dots> \<longleftrightarrow> (\<forall>k < ?n. ?P k)"
      using length_filter_less [of _ "[0..<?n]" ?P] filter_True [of "[0..<?n]" ?P]
      by (metis atLeastLessThan_iff atLeast_upt diff_zero le0 length_upt lessThan_iff less_irrefl)
    also have "\<dots> \<longleftrightarrow> bloom_mem bl buffer"
    proof
      assume *: "\<forall>k < ?n. ?P k"
      show "bloom_mem bl buffer"
        unfolding bloom_mem_def position_def Let_def
      proof (intro allI impI)
        fix i assume "i < bl_hashes bl"
        then have "unat i < ?n" by (simp add: word_less_nat_alt)
        with * have "?P (unat i)" by blast
        then show "bit_set (bf bl) ((?a + i * ?b) mod bl_bits bl)" by simp
      qed
    next
      assume *: "bloom_mem bl buffer"
      show "\<forall>k < ?n. ?P k"
      proof (intro allI impI)
        fix k assume k: "k < ?n"
        then have "k < 2 ^ 32" using unat_u32_less [of "bl_hashes bl"] by linarith
        then have "(of_nat k :: u32) < bl_hashes bl" using k by (simp add: word_less_nat_alt unat_of_nat_less)
        with * show "?P k" by (simp add: bloom_mem_def position_def Let_def)
      qed
    qed
    finally show ?thesis .
  qed
  ultimately show ?thesis using assms
    by (simp add: bloom_check_def bloom_check_add_def bloom_wf_def Let_def)
qed

lemma bloom_add_eq:
  assumes "bloom_wf bl"
  obtains r bl' where "bloom_add bl buffer = Some (r, bl')" "bloom_wf bl'" "bloom_mem bl' buffer"
    "\<forall>x. bloom_mem bl x \<longrightarrow> bloom_mem bl' x"
proof -
  let ?a = "murmurhash2 buffer 0x9747b28c" and ?b = "murmurhash2 buffer (murmurhash2 buffer 0x9747b28c)"
  have "bl_bits bl \<noteq> 0" "unat (bl_bits bl) \<le> 8 * length (bf bl)" using assms by (auto simp: bloom_wf_def)
  from bloom_bits_add [OF this, of "unat (bl_hashes bl)" 0 ?a ?b 0] obtain hits f where
    r: "bloom_bits (unat (bl_hashes bl)) 0 ?a ?b (bl_bits bl) True 0 (bf bl) = Some (hits, f)"
      "length f = length (bf bl)" "\<forall>x. bit_set (bf bl) x \<longrightarrow> bit_set f x"
    and new: "\<forall>k < unat (bl_hashes bl). bit_set f ((?a + (0 + of_nat k) * ?b) mod bl_bits bl)" by blast
  let ?bl = "bl\<lparr>bf := f\<rparr>"
  have "bloom_mem ?bl buffer"
    unfolding bloom_mem_def position_def Let_def
  proof (intro allI impI)
    fix i assume "i < bl_hashes ?bl"
    then have "unat i < unat (bl_hashes bl)" by (simp add: word_less_nat_alt)
    with new show "bit_set (bf ?bl) ((?a + i * ?b) mod bl_bits ?bl)" by fastforce
  qed
  moreover have "\<forall>x. bloom_mem bl x \<longrightarrow> bloom_mem ?bl x"
    using r(3) by (simp add: bloom_mem_def position_def Let_def)
  ultimately show ?thesis using assms r(1,2)
    by (intro that [of _ ?bl]) (auto simp: bloom_add_def bloom_check_add_def bloom_wf_def Let_def)
qed


section \<open>Initialisation and a series of additions\<close>

text \<open>The additions of a loop like the one of \<open>bloom_refresh\<close>, the result of each ignored.\<close>

fun bloom_adds :: "bloom \<Rightarrow> u8 list list \<Rightarrow> bloom option" where
  "bloom_adds bl [] = Some bl"
| "bloom_adds bl (x # xs) = do { (_, bl1) \<leftarrow> bloom_add bl x; bloom_adds bl1 xs }"

lemma bloom_adds_mem:
  "bloom_wf bl \<Longrightarrow> \<exists>bl'. bloom_adds bl xs = Some bl' \<and> bloom_wf bl' \<and>
     (\<forall>x. bloom_mem bl x \<or> x \<in> set xs \<longrightarrow> bloom_mem bl' x)"
proof (induction xs arbitrary: bl)
  case (Cons y xs)
  obtain r bl1 where "bloom_add bl y = Some (r, bl1)" "bloom_wf bl1" "bloom_mem bl1 y"
    "\<forall>x. bloom_mem bl x \<longrightarrow> bloom_mem bl1 x" using bloom_add_eq [OF Cons.prems, of y] by metis
  with Cons.IH [of bl1] show ?case by fastforce
qed simp

text \<open>The sizes for the error rate 0.01 that the scan asks for, given a \<open>log\<close> that is exact to a
  hundredth.\<close>

lemma bloom_init_sizes:
  assumes "1 \<le> n" "n \<le> 1000" and lg: "-4.61 \<le> lg 0.01" "lg 0.01 \<le> -4.6"
  obtains bl' where "bloom_init lg n 0.01 bl = (0, bl')" "bloom_wf bl'" "bl_hashes bl' = 7"
    "9 * nat n \<le> unat (bl_bits bl')" "unat (bl_bits bl') \<le> 10 * nat n"
proof -
  define bpe where "bpe = - (lg 0.01 / 0.480453013918201)"
  have bpe: "9.57 \<le> bpe" "bpe \<le> 9.6" using lg by (simp_all add: bpe_def field_simps)
  define bits where "bits = trunc (of_int n * bpe)"
  have "0 \<le> of_int n * bpe" using assms(1) bpe by simp
  then have fl: "bits = \<lfloor>of_int n * bpe\<rfloor>" by (simp add: bits_def trunc_def)
  have "of_int (9 * n) \<le> of_int n * bpe" "of_int n * bpe \<le> of_int (10 * n)"
    using assms(1) bpe by (simp_all add: mult.commute [of _ bpe])
  then have bits: "9 * n \<le> bits" "bits \<le> 10 * n"
    by (simp_all add: fl le_floor_iff floor_le_iff)
  define bytes where "bytes = (if bits smod 8 \<noteq> 0 then bits sdiv 8 + 1 else bits sdiv 8)"
  have pos: "0 \<le> bits" using assms(1) bits by simp
  have "0 < bits" using assms(1) bits by simp
  then have "bits sdiv 8 = bits div 8" "bits smod 8 = bits mod 8"
    by (simp_all add: signed_divide_int_def signed_modulo_int_def)
  then have bytes: "bits \<le> 8 * bytes" "0 \<le> bytes" using pos by (auto simp: bytes_def)
  have hashes: "\<lceil>0.693147180559945 * bpe\<rceil> = 7" using bpe by (simp add: ceiling_eq_iff)
  define bl' where "bl' = bl\<lparr>ready := False, bl_entries := n, bl_error := 0.01, bl_bpe := bpe,
    bl_bits := word_of_int bits, bl_bytes := word_of_int bytes, bl_hashes := 7,
    bf := replicate (nat bytes) 0, ready := True\<rparr>"
  have "bloom_init lg n 0.01 bl = (0, bl')"
    unfolding bloom_init_def Let_def bpe_def [symmetric]
    unfolding bits_def [symmetric] unfolding bytes_def [symmetric] hashes bl'_def
    using assms(1) by simp
  moreover have u: "unat (word_of_int bits :: u32) = nat bits"
    using pos bits assms(2) unat_of_nat_less [of "nat bits", where 'a = 32] by simp
  moreover have "(word_of_int bits :: u32) \<noteq> 0" using u bits assms(1) by (auto simp: unat_eq_zero [symmetric])
  ultimately show ?thesis using bits bytes assms(1)
    by (intro that [of bl']) (auto simp: bl'_def bloom_wf_def nat_le_iff)
qed

section \<open>Properties\<close>


text \<open>A \<open>struct bloom\<close> of thread-local storage, all zero.\<close>

definition bloom_zero :: bloom where
  "bloom_zero = \<lparr>bl_entries = 0, bl_error = 0, bl_bits = 0, bl_bytes = 0, bl_hashes = 0, bl_bpe = 0,
     bf = [], ready = False\<rparr>"


end
