(* ===== verification/Smr_No_Membar_Opt.thy ===== *)
theory Smr_No_Membar_Opt
  imports Smr_No_Membar Bloom
begin

text \<open>
  The variant src/smr_no_membar_opt.c of the no-membar scheme, whose compile-time constant
  IGOR_OPT_LEVEL switches three optimisations: bit 0 replaces the linear search among the
  hazard pointers by a Bloom filter, bit 1 scans every R retirements instead of whenever R
  nodes wait, bit 2 stops a scan at the first node that is too young. A scan walks \<open>rlist\<close> from
  its oldest node and unlinks in place.
\<close>

section \<open>Thread data\<close>

record opt_data = smr_data +
  filter_bl :: bloom
  nodes_scanned :: u64
  scans :: u64
  nodes_freed :: u64
  time_scanning :: u64

definition opt_init_global :: "u8 \<Rightarrow> 'a opt_data_scheme \<Rightarrow> 'a opt_data_scheme" where
  "opt_init_global n s = s\<lparr>HP := replicate (K * unat n) NULL\<rparr>"

definition opt_init_local :: "u8 \<Rightarrow> u8 \<Rightarrow> 'a opt_data_scheme \<Rightarrow> 'a opt_data_scheme" where
  "opt_init_local ti n s =
     s\<lparr>rlist := init, nodes_scanned := 0, scans := 0, nodes_freed := 0, time_scanning := 0,
       rcount := 0, thread_index := ucast ti, nthreads := ucast n, free_calls := 0\<rparr>"

section \<open>Timed searches\<close>

definition add_time :: "timeval \<Rightarrow> timeval \<Rightarrow> 'a opt_data_scheme \<Rightarrow> 'a opt_data_scheme" where
  "add_time start fin s =
     (let usec = word_of_int ((tv_sec fin - tv_sec start) * 1000000) + word_of_int (tv_usec fin - tv_usec start)
      in s\<lparr>time_scanning := time_scanning s + usec\<rparr>)"

definition opt_ssearch :: "ptr list \<Rightarrow> ptr \<Rightarrow> 'a opt_data_scheme \<Rightarrow> bool \<times> 'a opt_data_scheme" where
  "opt_ssearch plist key s =
     (let (start, s1) = gettimeofday s;
          found = ssearch plist key;
          (fin, s2) = gettimeofday s1
      in (found, add_time start fin s2))"

text \<open>The filter hashes the eight bytes of the pointer, lowest first.\<close>

definition addr_bytes :: "ptr \<Rightarrow> u8 list" where
  "addr_bytes p = map (\<lambda>i. ucast (drop_bit (8 * i) p)) [0..<8]"

definition bloom_search :: "ptr \<Rightarrow> 'a opt_data_scheme \<Rightarrow> (int \<times> 'a opt_data_scheme) option" where
  "bloom_search key s = do {
     let (start, s1) = gettimeofday s;
     (res, bl) \<leftarrow> bloom_check (filter_bl s1) (addr_bytes key);
     let (fin, s2) = gettimeofday (s1\<lparr>filter_bl := bl\<rparr>);
     Some (res, add_time start fin s2)
   }"

fun bloom_fill :: "nat \<Rightarrow> nat \<Rightarrow> ptr list \<Rightarrow> bloom \<Rightarrow> bloom option" where
  "bloom_fill 0 i hp bl = Some bl"
| "bloom_fill (Suc n) i hp bl =
     (if i < length hp then
        if hp ! i \<noteq> NULL then do {
          (_, bl1) \<leftarrow> bloom_add bl (addr_bytes (hp ! i));
          bloom_fill n (Suc i) hp bl1
        } else bloom_fill n (Suc i) hp bl
      else None)"

definition bloom_refresh :: "(real \<Rightarrow> real) \<Rightarrow> 'a opt_data_scheme \<Rightarrow> 'a opt_data_scheme option" where
  "bloom_refresh lg s = do {
     let (start, s1) = gettimeofday s;
     let (_, bl) = bloom_init lg (sint (smr_H s1)) 0.01 (filter_bl s1);
     bl' \<leftarrow> bloom_fill (unat (smr_H s1)) 0 (HP s1) bl;
     let (fin, s2) = gettimeofday (s1\<lparr>filter_bl := bl'\<rparr>);
     Some (add_time start fin s2)
   }"

section \<open>The scan\<close>

text \<open>Stage 1 without the filter; \<open>plist\<close> stays empty with it.\<close>

definition opt_stage1 :: "nat \<Rightarrow> (real \<Rightarrow> real) \<Rightarrow> 'a opt_data_scheme \<Rightarrow> (ptr list \<times> 'a opt_data_scheme) option" where
  "opt_stage1 lvl lg s =
     (if bit lvl 0 then do { s1 \<leftarrow> bloom_refresh lg s; Some ([], s1) }
      else do {
        let (start, s1) = gettimeofday s;
        plist \<leftarrow> collect_hps (unat (smr_H s1)) 0 (HP s1) [];
        let (fin, s2) = gettimeofday s1;
        Some (plist, add_time start fin s2)
      })"

definition opt_search :: "nat \<Rightarrow> ptr list \<Rightarrow> ptr \<Rightarrow> 'a opt_data_scheme \<Rightarrow> (bool \<times> 'a opt_data_scheme) option" where
  "opt_search lvl plist a s =
     (if bit lvl 0 then do { (res, s1) \<leftarrow> bloom_search a s; Some (res \<noteq> 0, s1) }
      else Some (opt_ssearch plist a s))"

definition opt_unlink :: "ptr \<Rightarrow> 'a opt_data_scheme \<Rightarrow> 'a opt_data_scheme option" where
  "opt_unlink cur s = do {
     (_, rl, h) \<leftarrow> remove_node (rlist s) cur (mrs s);
     release cur (s\<lparr>nodes_freed := nodes_freed s + 1, mrs := h, rlist := rl, rcount := rcount s - 1\<rparr>)
   }"

text \<open>The test and release of one node: with sorting, the age was tested before.\<close>

definition opt_visit :: "nat \<Rightarrow> ptr list \<Rightarrow> ptr \<Rightarrow> 'a opt_data_scheme \<Rightarrow> 'a opt_data_scheme option" where
  "opt_visit lvl plist cur s = do {
     (old, s1) \<leftarrow> (if bit lvl 2 then Some (True, s) else is_old_enough cur s);
     if old then do {
       c \<leftarrow> mrs s1 cur;
       (found, s2) \<leftarrow> opt_search lvl plist (actual_node c) s1;
       if \<not> found then opt_unlink cur s2 else Some s2
     } else Some s1
   }"

partial_function (option) opt_loop ::
  "nat \<Rightarrow> ptr list \<Rightarrow> ptr \<Rightarrow> 'a opt_data_scheme \<Rightarrow> 'a opt_data_scheme option" where
  "opt_loop lvl plist cur s =
     (if cur = NULL then Some s else do {
        (stop, s1) \<leftarrow> (if bit lvl 2 then do { (old, s1) \<leftarrow> is_old_enough cur s; Some (\<not> old, s1) }
                       else Some (False, s));
        if stop then Some s1 else do {
          s2 \<leftarrow> opt_visit lvl plist cur (s1\<lparr>nodes_scanned := nodes_scanned s1 + 1\<rparr>);
          c \<leftarrow> mrs s2 cur;
          opt_loop lvl plist (mr_prev c) s2
        }
      })"

declare opt_loop.simps [code]

definition opt_scan :: "nat \<Rightarrow> (real \<Rightarrow> real) \<Rightarrow> 'a opt_data_scheme \<Rightarrow> 'a opt_data_scheme option" where
  "opt_scan lvl lg s = do {
     (plist, s1) \<leftarrow> opt_stage1 lvl lg (s\<lparr>scans := scans s + 1\<rparr>);
     s2 \<leftarrow> opt_loop lvl plist (ll_tail (rlist s1)) s1;
     Some (if bit lvl 0 then s2\<lparr>filter_bl := bloom_free (filter_bl s2)\<rparr> else s2)
   }"

definition opt_free_node_later :: "nat \<Rightarrow> (real \<Rightarrow> real) \<Rightarrow> ptr \<Rightarrow> 'a opt_data_scheme \<Rightarrow> 'a opt_data_scheme option" where
  "opt_free_node_later lvl lg n s = do {
     (w, s1) \<leftarrow> new_wrapper n s;
     s2 \<leftarrow> stamp w s1;
     (rl, h) \<leftarrow> add_to_head (rlist s2) w (mrs s2);
     let s3 = s2\<lparr>mrs := h, rlist := rl, rcount := rcount s2 + 1\<rparr>;
     if bit lvl 1 then
       let s4 = s3\<lparr>free_calls := free_calls s3 + 1\<rparr>
       in if ucast (free_calls s4) \<ge> smr_R s4 then opt_scan lvl lg (s4\<lparr>free_calls := 0\<rparr>) else Some s4
     else if rcount s3 \<ge> smr_R s3 then opt_scan lvl lg s3 else Some s3
   }"

partial_function (option) opt_exit_loop ::
  "nat \<Rightarrow> (real \<Rightarrow> real) \<Rightarrow> (nat \<Rightarrow> ptr list \<Rightarrow> ptr list) \<Rightarrow> nat \<Rightarrow> 'a opt_data_scheme \<Rightarrow> 'a opt_data_scheme option" where
  "opt_exit_loop lvl lg yield n s =
     (if rcount s > 0 then do {
        s1 \<leftarrow> opt_scan lvl lg s;
        opt_exit_loop lvl lg yield (Suc n) (s1\<lparr>HP := yield n (HP s1)\<rparr>)
      } else Some s)"

declare opt_exit_loop.simps [code]

definition opt_thread_exit ::
  "nat \<Rightarrow> (real \<Rightarrow> real) \<Rightarrow> (nat \<Rightarrow> ptr list \<Rightarrow> ptr list) \<Rightarrow> 'a opt_data_scheme \<Rightarrow> 'a opt_data_scheme option" where
  "opt_thread_exit lvl lg yield s = do {
     hp \<leftarrow> clear_own_hps (unat (thread_index s)) 0 K (HP s);
     s1 \<leftarrow> opt_exit_loop lvl lg yield 0 (s\<lparr>HP := hp\<rparr>);
     Some (if bit lvl 0 then s1\<lparr>filter_bl := bloom_free (filter_bl s1)\<rparr> else s1)
   }"


section \<open>What a scan does\<close>

text \<open>The part of the state a visit leaves alone; the clock only advances.\<close>

definition same_env :: "'a opt_data_scheme \<Rightarrow> 'a opt_data_scheme \<Rightarrow> bool" where
  "same_env s s' \<longleftrightarrow> HP s' = HP s \<and> clock s' = clock s \<and> nthreads s' = nthreads s \<and>
     thread_index s' = thread_index s \<and> tick s \<le> tick s' \<and> filter_bl s' = filter_bl s \<and>
     actual (mrs s') = actual (mrs s) \<and> created_at (mrs s') = created_at (mrs s)"

lemma same_env_trans: "same_env s s' \<Longrightarrow> same_env s' s'' \<Longrightarrow> same_env s s''"
  by (auto simp: same_env_def)

lemma same_env_hazards: "same_env s s' \<Longrightarrow> hazards s' = hazards s"
  by (simp add: same_env_def hazards_def)

lemma same_env_protected: "same_env s s' \<Longrightarrow> protected s' = protected s"
  by (simp add: same_env_def protected_def hazards_def fun_eq_iff)

definition search_ok :: "nat \<Rightarrow> ptr list \<Rightarrow> 'a opt_data_scheme \<Rightarrow> bool" where
  "search_ok lvl plist s \<longleftrightarrow>
     (if bit lvl 0 then bloom_wf (filter_bl s) \<and> (\<forall>p \<in> hazards s. bloom_mem (filter_bl s) (addr_bytes p))
      else set plist = hazards s)"

lemma search_ok_env: "same_env s s' \<Longrightarrow> search_ok lvl plist s' = search_ok lvl plist s"
  by (simp add: search_ok_def same_env_hazards) (simp add: same_env_def)

lemma smr_inv_frame:
  fixes s s' :: "'a opt_data_scheme"
  assumes "nodes s' = nodes s" "mrs s' = mrs s" "alloc s' = alloc s" "HP s' = HP s"
    "rlist s' = rlist s" "rcount s' = rcount s" "nthreads s' = nthreads s"
  shows "smr_inv s' ws = smr_inv s ws"
  using assms by (simp add: smr_inv_def retired_def wrappers_mapped_def)

lemma smr_inv_upd [simp]:
  fixes s :: "'a opt_data_scheme"
  shows "smr_inv (s\<lparr>tick := t\<rparr>) ws = smr_inv s ws" "smr_inv (s\<lparr>time_scanning := u\<rparr>) ws = smr_inv s ws"
    "smr_inv (s\<lparr>nodes_scanned := u\<rparr>) ws = smr_inv s ws" "smr_inv (s\<lparr>scans := u\<rparr>) ws = smr_inv s ws"
    "smr_inv (s\<lparr>filter_bl := b\<rparr>) ws = smr_inv s ws" "smr_inv (s\<lparr>free_calls := v\<rparr>) ws = smr_inv s ws"
    "smr_inv (s\<lparr>tick := t, time_scanning := u\<rparr>) ws = smr_inv s ws"
  by (rule smr_inv_frame; simp)+

lemma opt_search_spec:
  assumes "search_ok lvl plist s"
  obtains found s' where "opt_search lvl plist a s = Some (found, s')" "a \<in> hazards s \<Longrightarrow> found"
    "\<not> bit lvl 0 \<Longrightarrow> found = (a \<in> hazards s)" "same_env s s'" "nodes s' = nodes s" "mrs s' = mrs s"
    "\<And>ws. smr_inv s' ws = smr_inv s ws"
proof (cases "bit lvl 0")
  case True
  then have wf: "bloom_wf (filter_bl s)" and mem: "\<forall>p \<in> hazards s. bloom_mem (filter_bl s) (addr_bytes p)"
    using assms by (auto simp: search_ok_def)
  let ?s' = "add_time (clock s (tick s)) (clock s (Suc (tick s))) (s\<lparr>tick := Suc (Suc (tick s))\<rparr>)"
  show ?thesis
    by (rule that [of "bloom_mem (filter_bl s) (addr_bytes a)" ?s'])
      (use True mem bloom_check_eq [OF wf] in \<open>auto simp: opt_search_def bloom_search_def gettimeofday_def
        add_time_def Let_def same_env_def\<close>)
next
  case False
  let ?s' = "add_time (clock s (tick s)) (clock s (Suc (tick s))) (s\<lparr>tick := Suc (Suc (tick s))\<rparr>)"
  show ?thesis
    by (rule that [of "a \<in> set plist" ?s'])
      (use False assms in \<open>auto simp: opt_search_def opt_ssearch_def gettimeofday_def search_ok_def
        add_time_def Let_def same_env_def\<close>)
qed

lemma opt_unlink_inv:
  assumes inv: "smr_inv s (xs @ x # ys)"
  obtains s' where "opt_unlink x s = Some s'" "smr_inv s' (xs @ ys)" "same_env s s'"
    "nodes s' = poison {actual (mrs s) x} (nodes s)" "mrs s' x = mrs s x"
proof -
  have d: "dll (mrs s) (rlist s) (xs @ x # ys)" and r: "retired s (xs @ x # ys)"
    and rc: "unat (rcount s) = Suc (length (xs @ ys))" using inv by (simp_all add: smr_inv_def)
  from remove_node_dll [OF d] obtain rl h where
    rm: "remove_node (rlist s) x (mrs s) = Some (x, rl, h)" and d': "dll h rl (xs @ ys)"
    and t: "touches (set (xs @ ys)) (mrs s) h" and hx: "h x = mrs s x" .
  obtain c where c: "mrs s x = Some c" using dll_mapped [OF d, of x] by auto
  let ?s1 = "s\<lparr>nodes_freed := nodes_freed s + 1, mrs := h, rlist := rl, rcount := rcount s - 1\<rparr>"
  have nn: "nodes ?s1 (actual_node c) \<noteq> None" using r c by (simp add: retired_def)
  define s' where "s' = ?s1\<lparr>nodes := poison {actual_node c} (nodes s),
     alloc := free_pairs [(x, actual_node c)] (alloc s)\<rparr>"
  have rel: "release x ?s1 = Some s'" using release_eq [of ?s1 x c] hx c nn by (simp add: s'_def)
  have "retired s' (xs @ ys)"
    by (rule retired_release [where m = s and ws = "xs @ x # ys" and fs = "[x]" and S = "set (xs @ ys)"
          and A = "{actual_node c}"])
      (use r t c in \<open>auto simp: s'_def retired_def\<close>)
  then have "smr_inv s' (xs @ ys)"
    using inv d' rc unat_pred [OF rc] by (simp add: smr_inv_def s'_def)
  moreover have "same_env s s'"
    using touches_actual [OF t] touches_created_at [OF t] by (simp add: same_env_def s'_def)
  ultimately show ?thesis using rm rel c hx
    by (intro that [of s']) (simp_all add: opt_unlink_def, simp_all add: s'_def)
qed

text \<open>One node: released only when unprotected, and old unless its age was tested before.\<close>

lemma seen_env: "same_env s s' \<Longrightarrow> seen_old s' w \<Longrightarrow> seen_old s w"
  "same_env s s' \<Longrightarrow> seen_young s' w \<Longrightarrow> seen_young s w"
  using order_trans unfolding seen_old_def seen_young_def same_env_def by metis+

lemma is_old_enough_eq:
  "mrs s x = Some c \<Longrightarrow> is_old_enough x s =
     Some (old_enough_at (clock s (tick s)) (created_at (mrs s) x), s\<lparr>tick := Suc (tick s)\<rparr>)"
  by (simp add: is_old_enough_def gettimeofday_def)

lemma opt_visit_spec:
  assumes inv: "smr_inv s (xs @ x # ys)" and ok: "search_ok lvl plist s"
  obtains s' b where "opt_visit lvl plist x s = Some s'" "same_env s s'" "mrs s' x = mrs s x"
    "smr_inv s' (xs @ (if b then x # ys else ys))"
    "nodes s' = poison (if b then {} else {actual (mrs s) x}) (nodes s)"
    "\<not> b \<longrightarrow> \<not> protected s x \<and> (bit lvl 2 \<or> seen_old s x)"
    "b \<longrightarrow> \<not> bit lvl 0 \<longrightarrow> protected s x \<or> \<not> bit lvl 2 \<and> seen_young s x"
proof -
  have d: "dll (mrs s) (rlist s) (xs @ x # ys)" using inv by (simp add: smr_inv_def)
  obtain c where c: "mrs s x = Some c" using dll_mapped [OF d, of x] by auto
  define s1 where "s1 = (if bit lvl 2 then s else s\<lparr>tick := Suc (tick s)\<rparr>)"
  define old where "old \<longleftrightarrow> bit lvl 2 \<or> old_enough_at (clock s (tick s)) (created_at (mrs s) x)"
  have s1: "same_env s s1" "mrs s1 = mrs s" "nodes s1 = nodes s" "\<And>ws. smr_inv s1 ws = smr_inv s ws"
    by (auto simp: s1_def same_env_def)
  have v: "opt_visit lvl plist x s = (if old then do {
       c \<leftarrow> mrs s1 x;
       (found, s2) \<leftarrow> opt_search lvl plist (actual_node c) s1;
       if \<not> found then opt_unlink x s2 else Some s2
     } else Some s1)"
    using c by (simp add: opt_visit_def is_old_enough_eq s1_def old_def)
  show ?thesis
  proof (cases old)
    case False
    then show ?thesis using v s1 inv
      by (intro that [of s1 True]) (auto simp: old_def seen_young_def)
  next
    case old: True
    have "search_ok lvl plist s1" using ok search_ok_env [OF s1(1)] by simp
    then obtain found s2 where s2: "opt_search lvl plist (actual_node c) s1 = Some (found, s2)"
      and f1: "actual_node c \<in> hazards s1 \<Longrightarrow> found"
      and f2: "\<not> bit lvl 0 \<Longrightarrow> found = (actual_node c \<in> hazards s1)"
      and e2: "same_env s1 s2" and n2: "nodes s2 = nodes s1" and m2: "mrs s2 = mrs s1"
      and i2: "\<And>ws. smr_inv s2 ws = smr_inv s1 ws"
      using opt_search_spec [where a = "actual_node c" and s = s1] by metis
    have p: "protected s x \<longleftrightarrow> actual_node c \<in> hazards s1"
      using c same_env_hazards [OF s1(1)] by (simp add: protected_def)
    have e: "same_env s s2" by (rule same_env_trans [OF s1(1) e2])
    show ?thesis
    proof (cases found)
      case True
      then show ?thesis using v old c s2 e n2 m2 i2 s1 inv f2
        by (intro that [of s2 True]) (auto simp: p)
    next
      case False
      have "smr_inv s2 (xs @ x # ys)" using inv i2 s1(4) by simp
      from opt_unlink_inv [OF this] obtain s' where s': "opt_unlink x s2 = Some s'" "smr_inv s' (xs @ ys)"
        "same_env s2 s'" "nodes s' = poison {actual (mrs s2) x} (nodes s2)" "mrs s' x = mrs s2 x" .
      have e': "same_env s s'" by (rule same_env_trans [OF e s'(3)])
      have "seen_old s x" if "\<not> bit lvl 2" using old that by (auto simp: old_def seen_old_def)
      then show ?thesis using v old c s2 s' e' n2 m2 s1 False f1
        by (intro that [of s' False]) (auto simp: p)
    qed
  qed
qed


lemma prev_of_last:
  assumes "smr_inv s (xs @ x # ys)"
  obtains c where "mrs s x = Some c" "mr_prev c = (if xs = [] then NULL else last xs)" "x \<noteq> NULL"
    "x \<notin> set xs" "set xs \<inter> set ys = {}"
proof -
  have "links (mrs s) NULL (xs @ x # ys) NULL" "distinct (xs @ x # ys)"
    using assms by (simp_all add: smr_inv_def dll_def)
  with links_nth [of "mrs s" NULL xs x ys NULL] that show ?thesis by auto
qed

lemma opt_loop_ex:
  assumes "smr_inv s (xs @ ys)" "search_ok lvl plist s"
  shows "\<exists>s' F. opt_loop lvl plist (if xs = [] then NULL else last xs) s = Some s' \<and> same_env s s' \<and>
    F \<subseteq> set xs \<and> smr_inv s' (filter (\<lambda>w. w \<notin> F) xs @ ys) \<and>
    nodes s' = poison (actual (mrs s) ` F) (nodes s) \<and>
    (\<forall>w \<in> F. \<not> protected s w \<and> seen_old s w) \<and>
    (\<not> bit lvl 0 \<longrightarrow> \<not> bit lvl 2 \<longrightarrow> (\<forall>w \<in> set xs - F. protected s w \<or> seen_young s w))"
  using assms
proof (induction xs arbitrary: s ys rule: rev_induct)
  case Nil
  then show ?case by (intro exI [of _ s] exI [of _ "{}"]) (simp add: opt_loop.simps same_env_def)
next
  case (snoc x xs)
  have inv: "smr_inv s (xs @ x # ys)" using snoc.prems(1) by simp
  from prev_of_last [OF inv] obtain c where c: "mrs s x = Some c"
    "mr_prev c = (if xs = [] then NULL else last xs)" "x \<noteq> NULL" "x \<notin> set xs" "set xs \<inter> set ys = {}" .
  let ?o = "old_enough_at (clock s (tick s)) (created_at (mrs s) x)"
  have so: "?o \<Longrightarrow> seen_old s x" by (auto simp: seen_old_def)
  define s1 where "s1 = (if bit lvl 2 then s\<lparr>tick := Suc (tick s)\<rparr> else s)"
  let ?s1 = "s1\<lparr>nodes_scanned := nodes_scanned s1 + 1\<rparr>"
  have e1: "same_env s s1" "same_env s ?s1" by (simp_all add: s1_def same_env_def)
  have f1: "mrs ?s1 = mrs s" "nodes ?s1 = nodes s" "nodes s1 = nodes s" by (simp_all add: s1_def)
  have i1: "smr_inv s1 ws = smr_inv s ws" "smr_inv ?s1 ws = smr_inv s ws" for ws by (simp_all add: s1_def)
  show ?case
  proof (cases "bit lvl 2 \<and> \<not> ?o")
    case True
    then have "opt_loop lvl plist x s = Some s1"
      using c by (subst opt_loop.simps) (simp add: is_old_enough_eq s1_def)
    moreover have "filter (\<lambda>w. w \<notin> {}) (xs @ [x]) @ ys = xs @ x # ys" by simp
    ultimately show ?thesis using True e1(1) f1(3) inv i1(1)
      by (intro exI [of _ s1] exI [of _ "{}"]) simp
  next
    case False
    have "smr_inv ?s1 (xs @ x # ys)" "search_ok lvl plist ?s1"
      using inv i1(2) snoc.prems(2) search_ok_env [OF e1(2)] by simp_all
    then obtain s2 b where s2: "opt_visit lvl plist x ?s1 = Some s2" "same_env ?s1 s2" "mrs s2 x = mrs ?s1 x"
      "smr_inv s2 (xs @ (if b then x # ys else ys))"
      "nodes s2 = poison (if b then {} else {actual (mrs ?s1) x}) (nodes ?s1)"
      and nb: "\<not> b \<longrightarrow> \<not> protected ?s1 x \<and> (bit lvl 2 \<or> seen_old ?s1 x)"
      and yb: "b \<longrightarrow> \<not> bit lvl 0 \<longrightarrow> protected ?s1 x \<or> \<not> bit lvl 2 \<and> seen_young ?s1 x"
      by (rule opt_visit_spec)
    have e2: "same_env s s2" by (rule same_env_trans [OF e1(2) s2(2)])
    have nb': "\<not> b \<Longrightarrow> \<not> protected s x \<and> seen_old s x"
      using nb False so seen_env(1) [OF e1(2)] same_env_protected [OF e1(2)] by auto
    have yb': "b \<Longrightarrow> \<not> bit lvl 0 \<Longrightarrow> \<not> bit lvl 2 \<Longrightarrow> protected s x \<or> seen_young s x"
      using yb seen_env(2) [OF e1(2)] same_env_protected [OF e1(2)] by auto
    have "mrs s2 x = Some c" using s2(3) c f1(1) by simp
    then have step: "opt_loop lvl plist x s = opt_loop lvl plist (mr_prev c) s2"
      using c False s2(1) by (subst opt_loop.simps) (auto simp: is_old_enough_eq s1_def)
    have ok2: "search_ok lvl plist s2" using snoc.prems(2) search_ok_env [OF e2] by simp
    from snoc.IH [OF s2(4) ok2] obtain s' F where
      s': "opt_loop lvl plist (mr_prev c) s2 = Some s'" "same_env s2 s'" "F \<subseteq> set xs"
      "smr_inv s' (filter (\<lambda>w. w \<notin> F) xs @ (if b then x # ys else ys))"
      "nodes s' = poison (actual (mrs s2) ` F) (nodes s2)"
      "\<forall>w \<in> F. \<not> protected s2 w \<and> seen_old s2 w"
      "\<not> bit lvl 0 \<longrightarrow> \<not> bit lvl 2 \<longrightarrow> (\<forall>w \<in> set xs - F. protected s2 w \<or> seen_young s2 w)"
      unfolding c(2) by metis
    have act: "actual (mrs s2) = actual (mrs s)" using e2 by (simp add: same_env_def)
    let ?F = "if b then F else insert x F"
    have xF: "x \<notin> F" using c(4) s'(3) by blast
    have fl: "filter (\<lambda>w. w \<notin> ?F) (xs @ [x]) @ ys = filter (\<lambda>w. w \<notin> F) xs @ (if b then x # ys else ys)"
      using xF c(4) by (auto intro: filter_cong)
    have no: "nodes s' = poison (actual (mrs s) ` ?F) (nodes s)"
      using s'(5) s2(5) by (simp add: f1 act poison_poison)
    have rel: "\<forall>w \<in> ?F. \<not> protected s w \<and> seen_old s w"
      using s'(6) nb' seen_env(1) [OF e2] same_env_protected [OF e2] by (auto split: if_splits)
    have kp: "\<not> bit lvl 0 \<longrightarrow> \<not> bit lvl 2 \<longrightarrow> (\<forall>w \<in> set (xs @ [x]) - ?F. protected s w \<or> seen_young s w)"
      using s'(7) yb' seen_env(2) [OF e2] same_env_protected [OF e2] by (auto split: if_splits)
    have sub: "?F \<subseteq> set (xs @ [x])" using s'(3) by auto
    have lp: "opt_loop lvl plist (if xs @ [x] = [] then NULL else last (xs @ [x])) s = Some s'"
      using step s'(1) by simp
    have fin: "smr_inv s' (filter (\<lambda>w. w \<notin> ?F) (xs @ [x]) @ ys)" unfolding fl by (rule s'(4))
    show ?thesis
      by (intro exI [of _ s'] exI [of _ ?F] conjI lp same_env_trans [OF e2 s'(2)] sub fin no rel kp)
  qed
qed

lemma bloom_fill_mem:
  "bloom_wf bl \<Longrightarrow> i + n \<le> length hp \<Longrightarrow>
   \<exists>bl'. bloom_fill n i hp bl = Some bl' \<and> bloom_wf bl' \<and> (\<forall>x. bloom_mem bl x \<longrightarrow> bloom_mem bl' x) \<and>
     (\<forall>p \<in> set (take n (drop i hp)). p \<noteq> NULL \<longrightarrow> bloom_mem bl' (addr_bytes p))"
proof (induction n arbitrary: i bl)
  case (Suc n)
  have tk: "take (Suc n) (drop i hp) = hp ! i # take n (drop (Suc i) hp)"
    using Suc.prems by (simp add: take_Suc_conv_app_nth Cons_nth_drop_Suc [symmetric])
  obtain bl1 where bl1: "bloom_wf bl1" "\<forall>x. bloom_mem bl x \<longrightarrow> bloom_mem bl1 x"
    "hp ! i \<noteq> NULL \<longrightarrow> bloom_mem bl1 (addr_bytes (hp ! i))"
    "bloom_fill (Suc n) i hp bl = bloom_fill n (Suc i) hp bl1"
  proof (cases "hp ! i = NULL")
    case True then show ?thesis using Suc.prems by (intro that [of bl]) auto
  next
    case False
    obtain r bl1 where "bloom_add bl (addr_bytes (hp ! i)) = Some (r, bl1)" "bloom_wf bl1"
      "bloom_mem bl1 (addr_bytes (hp ! i))" "\<forall>x. bloom_mem bl x \<longrightarrow> bloom_mem bl1 x"
      using bloom_add_eq [OF Suc.prems(1)] by metis
    then show ?thesis using False Suc.prems by (intro that [of bl1]) auto
  qed
  from Suc.IH [OF bl1(1), of "Suc i"] Suc.prems obtain bl' where
    "bloom_fill n (Suc i) hp bl1 = Some bl'" "bloom_wf bl'" "\<forall>x. bloom_mem bl1 x \<longrightarrow> bloom_mem bl' x"
    "\<forall>p \<in> set (take n (drop (Suc i) hp)). p \<noteq> NULL \<longrightarrow> bloom_mem bl' (addr_bytes p)" by auto
  then show ?case using bl1 tk by auto
qed simp


text \<open>A \<open>log\<close> exact to a hundredth at the one argument the code passes.\<close>

definition log_ok :: "(real \<Rightarrow> real) \<Rightarrow> bool" where
  "log_ok lg \<longleftrightarrow> -4.61 \<le> lg 0.01 \<and> lg 0.01 \<le> -4.6"

lemma opt_stage1_spec:
  assumes inv: "smr_inv s ws" and n: "0 < nthreads s" and lg: "log_ok lg"
  obtains plist s1 where "opt_stage1 lvl lg s = Some (plist, s1)" "search_ok lvl plist s1" "smr_inv s1 ws"
    "HP s1 = HP s" "clock s1 = clock s" "tick s \<le> tick s1" "mrs s1 = mrs s" "nodes s1 = nodes s"
    "rlist s1 = rlist s" "nthreads s1 = nthreads s"
proof -
  have H: "unat (smr_H s) = K * unat (nthreads s)" and len: "length (HP s) = K * unat (nthreads s)"
    and lt: "unat (nthreads s) < 256" using inv by (simp_all add: smr_inv_def unat_smr_H)
  show ?thesis
  proof (cases "bit lvl 0")
    case False
    let ?s1 = "add_time (clock s (tick s)) (clock s (Suc (tick s))) (s\<lparr>tick := Suc (Suc (tick s))\<rparr>)"
    let ?pl = "filter (\<lambda>p. p \<noteq> NULL) (HP s)"
    have col: "collect_hps (unat (smr_H s)) 0 (HP s) [] = Some ?pl"
      using collect_hps_Some [of 0 "unat (smr_H s)" "HP s" "[]"] by (simp add: H len)
    have H1: "smr_H (s\<lparr>tick := t\<rparr>) = smr_H s" for t by (simp add: smr_H_def)
    have "opt_stage1 lvl lg s = Some (?pl, ?s1)"
      using False col by (simp add: opt_stage1_def gettimeofday_def Let_def H1)
    moreover have "search_ok lvl ?pl ?s1"
      using False by (auto simp: search_ok_def hazards_def add_time_def Let_def)
    ultimately show ?thesis using inv by (intro that [of ?pl ?s1]) (simp_all add: add_time_def Let_def)
  next
    case True
    have "1 \<le> unat (nthreads s)" using n by (simp add: unat_pos_iff)
    have ent1: "sint (smr_H s) = int (2 * unat (nthreads s))"
      using lt sint_small [of "smr_H s"] by (simp add: H K_def)
    have ent: "1 \<le> sint (smr_H s)" "sint (smr_H s) \<le> 1000"
      unfolding ent1 using \<open>1 \<le> unat (nthreads s)\<close> lt by linarith+
    obtain bl where bl: "bloom_init lg (sint (smr_H s)) 0.01 (filter_bl s) = (0, bl)" "bloom_wf bl"
      using bloom_init_sizes [of "sint (smr_H s)" lg "filter_bl s"] ent lg unfolding log_ok_def by metis
    from bloom_fill_mem [OF bl(2), of 0 "unat (smr_H s)" "HP s"] obtain bl' where
      bl': "bloom_fill (unat (smr_H s)) 0 (HP s) bl = Some bl'" "bloom_wf bl'"
        "\<forall>p \<in> set (HP s). p \<noteq> NULL \<longrightarrow> bloom_mem bl' (addr_bytes p)"
      by (auto simp: H len)
    let ?s1 = "add_time (clock s (tick s)) (clock s (Suc (tick s)))
                 (s\<lparr>filter_bl := bl', tick := Suc (Suc (tick s))\<rparr>)"
    have H1: "smr_H (s\<lparr>tick := t\<rparr>) = smr_H s" for t by (simp add: smr_H_def)
    have upd: "s\<lparr>tick := Suc (tick s), filter_bl := bl', tick := Suc (Suc (tick s))\<rparr> =
      s\<lparr>filter_bl := bl', tick := Suc (Suc (tick s))\<rparr>" by simp
    have "bloom_refresh lg s = Some ?s1"
      using bl(1) bl'(1) unfolding bloom_refresh_def by (simp add: gettimeofday_def Let_def H1)
    then have "opt_stage1 lvl lg s = Some ([], ?s1)" using True by (simp add: opt_stage1_def)
    moreover have "search_ok lvl [] ?s1"
      using True bl' by (simp add: search_ok_def hazards_def add_time_def Let_def)
    moreover have "smr_inv ?s1 ws"
      using inv smr_inv_frame [of ?s1 s] by (simp add: add_time_def Let_def)
    ultimately show ?thesis by (intro that [of "[]" ?s1]) (simp_all add: add_time_def Let_def)
  qed
qed

section \<open>Properties\<close>

text \<open>C20: At every IGOR_OPT_LEVEL a scan of src/smr_no_membar_opt.c returns, although it reads links
  of wrappers it has just given back, and releases only nodes that no hazard pointer protects and
  that were old enough at a clock reading of the scan; without the Bloom filter and the early
  stop, every node it keeps is protected or was too young at such a reading.\<close>

theorem opt_scan_safe:
  assumes "smr_inv s ws" "0 < nthreads s" "log_ok lg"
  shows "\<exists>s' F. opt_scan lvl lg s = Some s' \<and> F \<subseteq> set ws \<and> smr_inv s' (filter (\<lambda>w. w \<notin> F) ws) \<and>
    nodes s' = poison (actual (mrs s) ` F) (nodes s) \<and> HP s' = HP s \<and>
    (\<forall>w \<in> F. \<not> protected s w \<and> seen_old s w) \<and>
    (\<not> bit lvl 0 \<longrightarrow> \<not> bit lvl 2 \<longrightarrow> (\<forall>w \<in> set ws - F. protected s w \<or> seen_young s w))"
proof -
  let ?s0 = "s\<lparr>scans := scans s + 1\<rparr>"
  have "smr_inv ?s0 ws" "0 < nthreads ?s0" using assms(1,2) by simp_all
  from opt_stage1_spec [OF this assms(3)] obtain plist s1 where
    s1: "opt_stage1 lvl lg ?s0 = Some (plist, s1)" "search_ok lvl plist s1" "smr_inv s1 ws"
    and s1': "HP s1 = HP ?s0" "clock s1 = clock ?s0" "tick ?s0 \<le> tick s1" "mrs s1 = mrs ?s0" "nodes s1 = nodes ?s0"
    by blast
  have s1e: "HP s1 = HP s" "clock s1 = clock s" "tick s \<le> tick s1" "mrs s1 = mrs s" "nodes s1 = nodes s"
    using s1' by simp_all
  have tl: "ll_tail (rlist s1) = (if ws = [] then NULL else last ws)"
    using s1(3) by (simp add: smr_inv_def dll_def)
  have "smr_inv s1 (ws @ [])" using s1(3) by simp
  from opt_loop_ex [OF this s1(2)] obtain s2 F where s2:
    "opt_loop lvl plist (ll_tail (rlist s1)) s1 = Some s2" "same_env s1 s2" "F \<subseteq> set ws"
    "smr_inv s2 (filter (\<lambda>w. w \<notin> F) ws)" "nodes s2 = poison (actual (mrs s1) ` F) (nodes s1)"
    "\<forall>w \<in> F. \<not> protected s1 w \<and> seen_old s1 w"
    "\<not> bit lvl 0 \<longrightarrow> \<not> bit lvl 2 \<longrightarrow> (\<forall>w \<in> set ws - F. protected s1 w \<or> seen_young s1 w)"
    unfolding tl by auto
  let ?s' = "if bit lvl 0 then s2\<lparr>filter_bl := bloom_free (filter_bl s2)\<rparr> else s2"
  have "opt_scan lvl lg s = Some ?s'" using s1(1) s2(1) by (simp add: opt_scan_def)
  moreover have "protected s1 = protected s" using s1e(1,4) by (intro ext) (simp add: protected_def hazards_def)
  moreover have "seen_old s1 w \<Longrightarrow> seen_old s w" "seen_young s1 w \<Longrightarrow> seen_young s w" for w
    using s1e(2-4) order_trans unfolding seen_old_def seen_young_def by metis+
  moreover have "HP ?s' = HP s" using s2(2) s1e(1) by (simp add: same_env_def)
  moreover have "smr_inv ?s' (filter (\<lambda>w. w \<notin> F) ws)" "nodes ?s' = poison (actual (mrs s) ` F) (nodes s)"
    using s2(4,5) s1e by simp_all
  ultimately show ?thesis using s2(3,6,7)
    by (intro exI [of _ ?s'] exI [of _ F]) auto
qed


lemma opt_push:
  assumes inv: "smr_inv s ws" and q: "nodes s q \<noteq> None"
    and room: "fst (ssalloc_alloc 1 (of_nat MR_NODE_SIZE) (alloc s)) \<noteq> NULL"
  obtains w s3 where "w \<notin> set ws" "smr_inv s3 (w # ws)" "actual (mrs s3) w = q" "nodes s3 = nodes s"
    "nthreads s3 = nthreads s" "free_calls s3 = free_calls s" "HP s3 = HP s"
    "opt_free_node_later lvl lg q s =
       (if bit lvl 1 then
          if ucast (free_calls s3 + 1) \<ge> smr_R s3 then opt_scan lvl lg (s3\<lparr>free_calls := 0\<rparr>)
          else Some (s3\<lparr>free_calls := free_calls s3 + 1\<rparr>)
        else if rcount s3 \<ge> smr_R s3 then opt_scan lvl lg s3 else Some s3)"
proof -
  have r: "retired s ws" and d: "dll (mrs s) (rlist s) ws" using inv by (simp_all add: smr_inv_def)
  have len: "length ws + 1 < 2 ^ 32" using retired_length [OF r] by simp
  from push_stamped [OF r d subset_refl q room] obtain w s1 s2 rl h where
    nw: "new_wrapper q s = Some (w, s1)" "stamp w s1 = Some s2" "add_to_head (rlist s) w (mrs s2) = Some (rl, h)"
    and dh: "dll h rl (w # ws)" and w: "w \<notin> set ws" and rh: "retired (s2\<lparr>mrs := h\<rparr>) (w # ws)"
    and act: "actual h w = q" and s2: "s2 = s\<lparr>mrs := mrs s2, alloc := alloc s2, tick := Suc (tick s)\<rparr>"
    by metis
  obtain a b where s2': "s2 = s\<lparr>mrs := a, alloc := b, tick := Suc (tick s)\<rparr>" using s2 by blast
  have fld: "rlist s2 = rlist s" "rcount s2 = rcount s" "nodes s2 = nodes s" "HP s2 = HP s"
    "nthreads s2 = nthreads s" "free_calls s2 = free_calls s"
    unfolding s2' by simp_all
  define s3 where "s3 = s2\<lparr>mrs := h, rlist := rl, rcount := rcount s2 + 1\<rparr>"
  have "retired s3 (w # ws)" using rh by (simp add: retired_def s3_def wrappers_mapped_def)
  then have "smr_inv s3 (w # ws)"
    using inv dh len by (simp add: smr_inv_def s3_def fld unat_succ)
  moreover have "smr_R (s3\<lparr>free_calls := f\<rparr>) = smr_R s3" for f by (simp add: smr_R_def smr_H_def)
  ultimately show ?thesis using nw w act
    by (intro that [of w s3]) (simp_all add: opt_free_node_later_def fld, simp_all add: s3_def fld Let_def)
qed

text \<open>With IGOR_OPT_LEVEL bit 1 and at least 39 threads no retirement ever triggers a scan: the
  counter \<open>free_calls\<close> has eight bits and R = 100 + 4 * nthreads is at least 256, so every retired
  node stays in the list.\<close>

theorem opt_per_op_never_scans:
  assumes "smr_inv s ws" "nodes s q \<noteq> None"
    and "fst (ssalloc_alloc 1 (of_nat MR_NODE_SIZE) (alloc s)) \<noteq> NULL"
    "bit lvl 1" "39 \<le> nthreads s"
  shows "\<exists>w s'. opt_free_node_later lvl lg q s = Some s' \<and> smr_inv s' (w # ws) \<and> w \<notin> set ws \<and>
    nodes s' = nodes s \<and> nthreads s' = nthreads s"
proof -
  obtain w s3 where s3a: "w \<notin> set ws" "smr_inv s3 (w # ws)" "actual (mrs s3) w = q" "nodes s3 = nodes s"
    "nthreads s3 = nthreads s" "free_calls s3 = free_calls s" "HP s3 = HP s"
    and eqn: "opt_free_node_later lvl lg q s =
       (if bit lvl 1 then
          if ucast (free_calls s3 + 1) \<ge> smr_R s3 then opt_scan lvl lg (s3\<lparr>free_calls := 0\<rparr>)
          else Some (s3\<lparr>free_calls := free_calls s3 + 1\<rparr>)
        else if rcount s3 \<ge> smr_R s3 then opt_scan lvl lg s3 else Some s3)"
    by (rule opt_push [OF assms(1,2,3)])
  note s3 = s3a(1,2,4,5) and eq = eqn [unfolded if_P [OF assms(4)]]
  have "unat (nthreads s3) < 256" "39 \<le> unat (nthreads s3)"
    using s3(2,4) assms(5) by (simp_all add: smr_inv_def word_le_nat_alt)
  then have "256 \<le> unat (smr_R s3)" by (simp add: unat_smr_R K_def)
  moreover have "unat (ucast (free_calls s3 + 1) :: u32) < 256"
    using unat_u8_less [of "free_calls s3 + 1"] by (simp add: unsigned_ucast_eq take_bit_nat_eq_self)
  ultimately have "\<not> ucast (free_calls s3 + 1) \<ge> smr_R s3" by (simp add: word_le_nat_alt)
  then show ?thesis using s3 eq by (intro exI [of _ w] exI [of _ "s3\<lparr>free_calls := free_calls s3 + 1\<rparr>"]) simp
qed

section \<open>Witnesses\<close>

definition ex_opt :: "u32 \<Rightarrow> opt_data" where
  "ex_opt n = \<lparr>nodes = ex_nodes, mrs = ex_mrs, alloc = ex_alloc,
     HP = [0, 0, 96, 0] @ replicate (2 * unat n - 4) 0,
     clock = (\<lambda>_. \<lparr>tv_sec = 10, tv_usec = 199999\<rparr>), tick = 0,
     rlist = ex_list, vlist = init, rcount = 2, nthreads = n, thread_index = 0, free_calls = 0,
     filter_bl = bloom_zero, nodes_scanned = 0, scans = 0, nodes_freed = 0, time_scanning = 0\<rparr>"

lemma ex_opt_sel [simp]:
  "nodes (ex_opt n) = ex_nodes" "mrs (ex_opt n) = ex_mrs" "alloc (ex_opt n) = ex_alloc"
  "HP (ex_opt n) = [0, 0, 96, 0] @ replicate (2 * unat n - 4) 0" "nthreads (ex_opt n) = n"
  "clock (ex_opt n) = (\<lambda>_. \<lparr>tv_sec = 10, tv_usec = 199999\<rparr>)"
  by (simp_all add: ex_opt_def)

lemma ex_opt_inv: "2 \<le> unat n \<Longrightarrow> unat n < 256 \<Longrightarrow> smr_inv (ex_opt n) [4160, 4096]"
  using ex_retired [of "ex_opt n"] ex_dll by (simp add: smr_inv_def K_def) (simp add: ex_opt_def)

lemma opt_scan_safe_witness:
  "\<exists>s' F. opt_scan 1 (\<lambda>_. -4.605) (ex_opt 2) = Some s' \<and> F \<subseteq> {4160, 4096} \<and> 4160 \<notin> F \<and>
    smr_inv s' (filter (\<lambda>w. w \<notin> F) [4160, 4096])"
proof -
  have "protected (ex_opt 2) 4160" by (simp add: protected_def hazards_def)
  moreover have "log_ok (\<lambda>_. -4.605)" by (simp add: log_ok_def)
  ultimately show ?thesis using opt_scan_safe [OF ex_opt_inv, of 2 "\<lambda>_. -4.605" 1] by fastforce
qed

lemma opt_per_op_never_scans_witness:
  "\<exists>w s'. opt_free_node_later 2 (\<lambda>_. -4.605) 128 (ex_opt 39) = Some s' \<and> smr_inv s' [w, 4160, 4096]"
  using opt_per_op_never_scans [OF ex_opt_inv, of 39 128 2 "\<lambda>_. -4.605"]
  by (auto simp: ex_room' ex_nodes_def bit_numeral_rec bit_0)

end
