(* ===== verification/Rotation.thy ===== *)
theory Rotation
  imports Retire
begin

text \<open>
  The verification list of the lazy schemes (smr_lazy.c, smr_membar_lazy.c, hybrid_lazy.c):
  nodes enter it marked; every rotation marks the target of one hazard pointer, in turn, and
  looks at the tail: a marked tail loses its mark and moves to the head, an unmarked one is
  released. The central fact is that a node protected by one hazard pointer all along is
  marked again before it reaches the tail, provided the list is longer than the array of
  hazard pointers.
\<close>

section \<open>The code\<close>

definition set_marked :: "ptr \<Rightarrow> u64 \<Rightarrow> 'a mem_scheme \<Rightarrow> 'a mem_scheme option" where
  "set_marked p v m = do {
     n \<leftarrow> nodes m p;
     Some (m\<lparr>nodes := (nodes m)(p \<mapsto> n\<lparr>n_marked := v\<rparr>)\<rparr>)
   }"

text \<open>\<open>rotation()\<close> on the list, the cursor into the hazard pointers and their number H. The flag
  of the result says whether a node was released; the caller then decreases its count.\<close>

definition rotate_vlist ::
  "double_llist \<Rightarrow> u64 \<Rightarrow> u32 \<Rightarrow> 'a mem_scheme \<Rightarrow> (double_llist \<times> u64 \<times> bool \<times> 'a mem_scheme) option" where
  "rotate_vlist vl hc H m = do {
     hp \<leftarrow> (if unat hc < length (HP m) then Some (HP m ! unat hc) else None);
     m1 \<leftarrow> (if hp \<noteq> NULL then set_marked hp 1 m else Some m);
     hc' \<leftarrow> (if H = 0 then None else Some ((hc + 1) mod ucast H));
     t \<leftarrow> mrs m1 (ll_tail vl);
     n \<leftarrow> nodes m1 (actual_node t);
     if n_marked n \<noteq> 0 then do {
       m2 \<leftarrow> set_marked (actual_node t) 0 m1;
       (w, vl1, h) \<leftarrow> remove_from_tail vl (mrs m2);
       (vl2, h') \<leftarrow> add_to_head vl1 w h;
       Some (vl2, hc', False, m2\<lparr>mrs := h'\<rparr>)
     } else do {
       (w, vl1, h) \<leftarrow> remove_from_tail vl (mrs m1);
       m2 \<leftarrow> release w (m1\<lparr>mrs := h\<rparr>);
       Some (vl1, hc', True, m2)
     }
   }"

text \<open>Filling the verification list from the tail of a list of retired nodes, as long as it has
  at most H nodes and the age test (absent in one scheme) holds.\<close>

partial_function (option) fill_vlist ::
  "(ptr \<Rightarrow> 'a mem_scheme \<Rightarrow> (bool \<times> 'a mem_scheme) option) \<Rightarrow> u32 \<Rightarrow> double_llist \<Rightarrow> double_llist \<Rightarrow>
   'a mem_scheme \<Rightarrow> (double_llist \<times> double_llist \<times> 'a mem_scheme) option" where
  "fill_vlist test H rl vl m =
     (if ll_size vl \<le> H \<and> ll_tail rl \<noteq> NULL then do {
        (ok, m1) \<leftarrow> test (ll_tail rl) m;
        if ok then do {
          (w, rl', h) \<leftarrow> remove_from_tail rl (mrs m1);
          c \<leftarrow> h w;
          m2 \<leftarrow> set_marked (actual_node c) 1 (m1\<lparr>mrs := h\<rparr>);
          (vl', h') \<leftarrow> add_to_head vl w (mrs m2);
          fill_vlist test H rl' vl' (m2\<lparr>mrs := h'\<rparr>)
        } else Some (rl, vl, m1)
      } else Some (rl, vl, m))"

declare fill_vlist.simps [code]

section \<open>Marks\<close>

definition marked :: "'a mem_scheme \<Rightarrow> ptr \<Rightarrow> bool" where
  "marked m p \<longleftrightarrow> (case nodes m p of None \<Rightarrow> False | Some n \<Rightarrow> n_marked n \<noteq> 0)"

definition key_at :: "'a mem_scheme \<Rightarrow> ptr \<Rightarrow> skey_t option" where
  "key_at m p = map_option n_key (nodes m p)"

lemma key_at_None: "key_at m p = None \<longleftrightarrow> nodes m p = None"
  by (simp add: key_at_def)

lemma set_marked_spec:
  assumes "nodes m p \<noteq> None"
  obtains no where "set_marked p v m = Some (m\<lparr>nodes := no\<rparr>)"
    "\<forall>x. marked (m\<lparr>nodes := no\<rparr>) x = (if x = p then v \<noteq> 0 else marked m x)"
    "\<forall>x. key_at (m\<lparr>nodes := no\<rparr>) x = key_at m x"
proof -
  obtain n where n: "nodes m p = Some n" using assms by blast
  show ?thesis
    by (rule that [of "(nodes m)(p \<mapsto> n\<lparr>n_marked := v\<rparr>)"])
      (auto simp: n set_marked_def marked_def key_at_def)
qed

lemma retired_nodes:
  assumes "retired m ws" "\<forall>x. key_at (m\<lparr>nodes := no\<rparr>) x = key_at m x"
  shows "retired (m\<lparr>nodes := no\<rparr>) ws"
proof -
  have "no x = None \<longleftrightarrow> nodes m x = None" for x
    using assms(2) [rule_format, of x] key_at_None [of "m\<lparr>nodes := no\<rparr>" x] key_at_None [of m x] by simp
  then show ?thesis using assms(1) by (simp add: retired_def wrappers_mapped_def)
qed

lemma poison_marked [simp]:
  "marked (m\<lparr>nodes := poison A (nodes m), mrs := h, alloc := al\<rparr>) x = marked m x"
  by (simp add: marked_def poison_def split: option.splits)

section \<open>One rotation\<close>

lemma mod_succ:
  assumes "unat (hc :: u64) < unat (H :: u32)"
  shows "unat ((hc + 1) mod ucast H) = (unat hc + 1) mod unat H"
proof -
  have "unat (ucast H :: u64) = unat H"
    using unat_u32_less [of H] by (simp add: unsigned_ucast_eq take_bit_nat_eq_self)
  moreover have "unat (hc + 1) = unat hc + 1"
    using assms unat_u32_less [of H] by (intro unat_succ) simp
  ultimately show ?thesis by (simp only: unat_mod_distrib)
qed

lemma rotate_spec:
  assumes d: "dll (mrs m) vl (us @ [t])" and r: "retired m (xs @ us @ [t])"
    and hz: "\<forall>p \<in> hazards m. nodes m p \<noteq> None"
    and hc: "unat hc < unat H" and H: "length (HP m) = unat H"
  defines "hp \<equiv> HP m ! unat hc" and "a \<equiv> actual (mrs m) t"
  obtains vl' hc' freed m' where "rotate_vlist vl hc H m = Some (vl', hc', freed, m')"
    "unat hc' = (unat hc + 1) mod unat H"
    "dll (mrs m') vl' (if freed then us else t # us)"
    "retired m' (xs @ (if freed then us else t # us))"
    "touches (set (us @ [t])) (mrs m) (mrs m')"
    "m' = m\<lparr>nodes := nodes m', mrs := mrs m', alloc := alloc m'\<rparr>"
    "freed \<longleftrightarrow> \<not> (marked m a \<or> hp = a \<and> hp \<noteq> NULL)"
    "\<forall>x. marked m' x \<longleftrightarrow> (marked m x \<or> x = hp \<and> hp \<noteq> NULL) \<and> \<not> (x = a \<and> \<not> freed)"
    "\<forall>x. x \<noteq> a \<or> \<not> freed \<longrightarrow> key_at m' x = key_at m x"
    "\<forall>x. nodes m' x = None \<longleftrightarrow> nodes m x = None"
proof -
  have hp_mapped: "hp \<noteq> NULL \<Longrightarrow> nodes m hp \<noteq> None"
    using hz hc H by (auto simp: hazards_def hp_def)
  obtain no where m1: "(if hp \<noteq> NULL then set_marked hp 1 m else Some m) = Some (m\<lparr>nodes := no\<rparr>)"
    and mk1: "\<forall>x. marked (m\<lparr>nodes := no\<rparr>) x \<longleftrightarrow> marked m x \<or> x = hp \<and> hp \<noteq> NULL"
    and ky1: "\<forall>x. key_at (m\<lparr>nodes := no\<rparr>) x = key_at m x"
  proof (cases "hp = NULL")
    case True then show ?thesis by (intro that [of "nodes m"]) auto
  next
    case False
    from set_marked_spec [OF hp_mapped [OF False], of 1] obtain no where
      "set_marked hp 1 m = Some (m\<lparr>nodes := no\<rparr>)"
      "\<forall>x. marked (m\<lparr>nodes := no\<rparr>) x = (if x = hp then 1 \<noteq> (0 :: u64) else marked m x)"
      "\<forall>x. key_at (m\<lparr>nodes := no\<rparr>) x = key_at m x" .
    with False show ?thesis by (intro that [of no]) auto
  qed
  let ?m1 = "m\<lparr>nodes := no\<rparr>"
  have r1: "retired ?m1 (xs @ us @ [t])" by (rule retired_nodes [OF r ky1])
  have tl: "ll_tail vl = t" using d by (simp add: dll_def)
  obtain c where c: "mrs m t = Some c" using dll_mapped [OF d, of t] by auto
  have a: "actual_node c = a" using c by (simp add: a_def)
  have nn_a: "nodes ?m1 a \<noteq> None" using r1 by (simp add: retired_def a_def)
  then obtain n where n: "no a = Some n" by auto
  have mn: "n_marked n \<noteq> 0 \<longleftrightarrow> marked ?m1 a" using n by (simp add: marked_def)
  from remove_from_tail_dll [OF d] obtain vl1 h where
    rm: "remove_from_tail vl (mrs m) = Some (t, vl1, h)" and d1: "dll h vl1 us"
    and t1: "touches (insert t (set us)) (mrs m) h" .
  have H0: "H \<noteq> 0" using hc by auto
  define hc' where "hc' = (hc + 1) mod (ucast H :: u64)"
  have hc': "unat hc' = (unat hc + 1) mod unat H" unfolding hc'_def by (rule mod_succ [OF hc])
  have lt: "unat hc < length (HP m)" using hc H by simp
  note m1' = m1 [unfolded hp_def]
  show ?thesis
  proof (cases "marked ?m1 a")
    case True
    from set_marked_spec [OF nn_a, of 0] obtain no2 where
      m2: "set_marked a 0 ?m1 = Some (?m1\<lparr>nodes := no2\<rparr>)"
      and mk2: "\<forall>x. marked (?m1\<lparr>nodes := no2\<rparr>) x = (if x = a then 0 \<noteq> (0 :: u64) else marked ?m1 x)"
      and ky2: "\<forall>x. key_at (?m1\<lparr>nodes := no2\<rparr>) x = key_at ?m1 x"
      .
    obtain c' where c': "h t = Some c'" using c touches_mapped [OF t1, of t] by auto
    have "t \<noteq> NULL" "t \<notin> set us" using d dll_mapped [OF d, of t] by (auto simp: dll_def)
    moreover have "length us + 1 < 2 ^ 32" using subset_length [OF r dll_distinct [OF d1]] by (simp add: subset_insertI2)
    ultimately obtain vl2 h' where add: "add_to_head vl1 t h = Some (vl2, h')" "dll h' vl2 (t # us)"
      and t2: "touches (insert t (set us)) h h'" using add_to_head_dll [OF d1, of t c'] c' by metis
    let ?m2 = "m\<lparr>nodes := no2, mrs := h'\<rparr>"
    have t3: "touches (set (us @ [t])) (mrs m) h'" using touches_trans [OF t1 t2] by simp
    have res: "rotate_vlist vl hc H m = Some (vl2, hc', False, ?m2)"
      using lt m1' H0 tl c n True mn m2 rm add(1) a
      by (simp add: rotate_vlist_def hc'_def)
    have ky: "key_at ?m2 x = key_at m x" for x
      using ky1 [rule_format, of x] ky2 [rule_format, of x] by (simp add: key_at_def)
    have mk: "marked ?m2 x \<longleftrightarrow> marked ?m1 x \<and> x \<noteq> a" for x
      using mk2 [rule_format, of x] by (simp add: marked_def)
    have nn: "no2 x = None \<longleftrightarrow> nodes m x = None" for x
      using ky [of x] key_at_None [of ?m2 x] key_at_None [of m x] by simp
    have "retired ?m2 (xs @ t # us)"
      using r t3 touches_actual [OF t3] nn touches_wrappers_mapped [of _ m ?m2]
      by (auto simp: retired_def)
    then show ?thesis using res hc' add(2) t3 mk mk1 ky nn True
      by (intro that [of vl2 hc' False ?m2]) auto
  next
    case False
    obtain c' where c': "h t = Some c'" using c touches_mapped [OF t1, of t] by auto
    have a': "actual_node c' = a" using c' touches_actual [OF t1] a_def by (metis actual_Some)
    let ?m1' = "m\<lparr>nodes := no, mrs := h\<rparr>"
    have nn1: "no x = None \<longleftrightarrow> nodes m x = None" for x
      using ky1 [rule_format, of x] key_at_None [of ?m1 x] key_at_None [of m x] by simp
    let ?m2 = "m\<lparr>nodes := poison {a} no, mrs := h, alloc := free_pairs [(t, a)] (alloc m)\<rparr>"
    have rel: "release t ?m1' = Some ?m2"
      using release_eq [of ?m1' t c'] c' n by (simp add: a')
    have res: "rotate_vlist vl hc H m = Some (vl1, hc', True, ?m2)"
      using lt m1' H0 tl c n False mn rm rel a
      by (simp add: rotate_vlist_def hc'_def)
    have mk: "marked ?m2 x \<longleftrightarrow> marked ?m1 x" for x
      by (simp add: marked_def poison_def split: option.splits)
    have ky: "x \<noteq> a \<Longrightarrow> key_at ?m2 x = key_at m x" for x
      using ky1 [rule_format, of x] by (simp add: key_at_def)
    have t3: "touches (set (us @ [t])) (mrs m) h" using t1 by simp
    have "retired ?m2 (xs @ us)"
      by (rule retired_release [where m = "?m1" and ws = "xs @ us @ [t]" and fs = "[t]" and A = "{a}"
            and S = "set (us @ [t])"])
        (use r1 t3 in \<open>auto simp: retired_def a_def\<close>)
    then show ?thesis using res hc' d1 t3 mk mk1 ky nn1 False
      by (intro that [of vl1 hc' True ?m2]) auto
  qed
qed


section \<open>Protected nodes stay\<close>

text \<open>The node \<open>X\<close> that hazard pointer \<open>j\<close> protects: wherever it is in the list, either it is marked
  or the cursor \<open>c\<close> reaches \<open>j\<close> before the nodes behind it are used up.\<close>

definition mark_guard :: "'a mem_scheme \<Rightarrow> nat \<Rightarrow> nat \<Rightarrow> ptr list \<Rightarrow> ptr \<Rightarrow> nat \<Rightarrow> bool" where
  "mark_guard m c H vs X j \<longleftrightarrow>
     (\<forall>us v zs. vs = us @ v # zs \<longrightarrow> actual (mrs m) v = X \<longrightarrow>
        marked m X \<or> (j + H - c) mod H \<le> length zs)"

lemma mark_guardI:
  "(\<And>us v zs. vs = us @ v # zs \<Longrightarrow> actual (mrs m) v = X \<Longrightarrow> marked m X \<or> (j + H - c) mod H \<le> length zs) \<Longrightarrow>
   mark_guard m c H vs X j"
  by (simp add: mark_guard_def)

lemma mark_guardD:
  "mark_guard m c H vs X j \<Longrightarrow> vs = us @ v # zs \<Longrightarrow> actual (mrs m) v = X \<Longrightarrow>
   marked m X \<or> (j + H - c) mod H \<le> length zs"
  by (simp add: mark_guard_def)

lemma mark_guard_cong:
  "\<forall>v \<in> set vs. actual (mrs m') v = actual (mrs m) v \<Longrightarrow> (marked m X \<longrightarrow> marked m' X) \<Longrightarrow>
   mark_guard m c H vs X j \<Longrightarrow> mark_guard m' c H vs X j"
  unfolding mark_guard_def by fastforce

lemma dist_step:
  fixes c j H :: nat
  assumes "c < H" "j < H" "j \<noteq> c"
  shows "(j + H - c) mod H = Suc ((j + H - (c + 1) mod H) mod H)"
proof (cases "c < j")
  case True
  then have c1: "(c + 1) mod H = c + 1" and e: "j + H - c = (j - c) + H" "j + H - (c + 1) = (j - c - 1) + H"
    using assms by auto
  have "(j + H - c) mod H = j - c" "(j + H - (c + 1)) mod H = j - c - 1"
    unfolding e mod_add_self2 using assms by simp_all
  then show ?thesis unfolding c1 using True by simp
next
  case False
  then have lt: "j < c" using assms by simp
  show ?thesis
  proof (cases "c + 1 = H")
    case True
    have "j + H - c = j + 1" using True by simp
    then show ?thesis using True assms lt by simp
  next
    case False
    then have "(c + 1) mod H = c + 1" "c + 1 < H" using assms by auto
    moreover have "j + H - c < H" "j + H - (c + 1) < H" using lt assms by auto
    ultimately show ?thesis using lt assms by simp
  qed
qed

lemma rotate_guard:
  assumes hp: "j < H" "c < H" "H \<le> length us" and X: "X \<noteq> NULL" "j = c \<Longrightarrow> hp = X"
    and dist: "distinct (map (actual (mrs m)) (us @ [t]))" and act: "actual (mrs m') = actual (mrs m)"
    and g: "mark_guard m c H (us @ [t]) X j"
    and fr: "freed \<longleftrightarrow> \<not> (marked m (actual (mrs m) t) \<or> hp = actual (mrs m) t \<and> hp \<noteq> NULL)"
    and mk: "marked m' X \<longleftrightarrow> (marked m X \<or> X = hp \<and> hp \<noteq> NULL) \<and> \<not> (X = actual (mrs m) t \<and> \<not> freed)"
  shows "mark_guard m' ((c + 1) mod H) H (if freed then us else t # us) X j \<and>
    (freed \<longrightarrow> actual (mrs m) t \<noteq> X)"
proof -
  have keep: "marked m' X \<or> (j + H - (c + 1) mod H) mod H \<le> length zs"
    if vs: "us = us1 @ v # zs" and v: "actual (mrs m) v = X" for us1 v zs
  proof -
    have "us @ [t] = us1 @ v # (zs @ [t])" using vs by simp
    from mark_guardD [OF g this v] have old: "marked m X \<or> (j + H - c) mod H \<le> Suc (length zs)" by simp
    have nt: "X \<noteq> actual (mrs m) t" using dist vs v by auto
    show ?thesis
    proof (cases "marked m X \<or> j = c")
      case True then show ?thesis using mk nt X by auto
    next
      case False
      then have "Suc ((j + H - (c + 1) mod H) mod H) \<le> Suc (length zs)"
        using old dist_step [OF hp(2,1)] by simp
      then show ?thesis by simp
    qed
  qed
  have nX: "actual (mrs m) t \<noteq> X" if freed
  proof
    assume t: "actual (mrs m) t = X"
    from mark_guardD [OF g _ t, of us "[]"] have "marked m X \<or> (j + H - c) mod H = 0" by simp
    moreover have "j \<noteq> c \<Longrightarrow> (j + H - c) mod H \<noteq> 0" using dist_step [OF hp(2,1)] by simp
    ultimately show False using fr that t X by auto
  qed
  show ?thesis
  proof (cases freed)
    case True
    have "mark_guard m' ((c + 1) mod H) H us X j"
      by (rule mark_guardI) (use keep act in simp)
    then show ?thesis using nX True by simp
  next
    case False
    have "mark_guard m' ((c + 1) mod H) H (t # us) X j"
    proof (rule mark_guardI)
      fix us1 v zs assume vs: "t # us = us1 @ v # zs" and v: "actual (mrs m') v = X"
      show "marked m' X \<or> (j + H - (c + 1) mod H) mod H \<le> length zs"
      proof (cases us1)
        case Nil
        then have "zs = us" using vs by simp
        moreover have "(j + H - (c + 1) mod H) mod H < H" using hp by simp
        ultimately show ?thesis using hp(3) by simp
      next
        case (Cons a us2)
        then show ?thesis using keep [of us2 v zs] vs v by (simp add: act)
      qed
    qed
    then show ?thesis using False by simp
  qed
qed


section \<open>Filling the verification list\<close>

text \<open>What a test may do: read the clock, nothing else.\<close>

locale clock_test =
  fixes test :: "ptr \<Rightarrow> 'a mem_scheme \<Rightarrow> (bool \<times> 'a mem_scheme) option"
  assumes test_eq: "mrs m w \<noteq> None \<Longrightarrow> \<exists>ok k. test w m = Some (ok, m\<lparr>tick := tick m + k\<rparr>)"
begin

lemma fill_ex:
  assumes "dll (mrs m) rl ws" "dll (mrs m) vl vs" "retired m (ws @ vs @ xs)"
  shows "\<exists>us ps rl' vl' no h k. ws = us @ ps \<and>
    fill_vlist test H rl vl m = Some (rl', vl', m\<lparr>nodes := no, mrs := h, tick := tick m + k\<rparr>) \<and>
    dll h rl' us \<and> dll h vl' (ps @ vs) \<and> retired (m\<lparr>nodes := no, mrs := h\<rparr>) (ws @ vs @ xs) \<and>
    touches (set ws \<union> set vs) (mrs m) h \<and>
    (\<forall>x. marked (m\<lparr>nodes := no\<rparr>) x \<longleftrightarrow> marked m x \<or> x \<in> actual (mrs m) ` set ps) \<and>
    (\<forall>x. key_at (m\<lparr>nodes := no\<rparr>) x = key_at m x) \<and>
    (length vs \<le> Suc (unat H) \<longrightarrow> length (ps @ vs) \<le> Suc (unat H))"
  using assms
proof (induction ws arbitrary: m rl vl vs rule: rev_induct)
  case Nil
  have "ll_tail rl = NULL" using Nil(1) by (simp add: dll_def)
  then have "fill_vlist test H rl vl m = Some (rl, vl, m)" by (simp add: fill_vlist.simps)
  moreover have "m\<lparr>nodes := nodes m, mrs := mrs m, tick := tick m + 0\<rparr> = m"
    "m\<lparr>nodes := nodes m, mrs := mrs m\<rparr> = m" "m\<lparr>nodes := nodes m\<rparr> = m" by simp_all
  ultimately show ?case using Nil
    by (intro exI [of _ "[]"] exI [of _ rl] exI [of _ vl] exI [of _ "nodes m"] exI [of _ "mrs m"] exI [of _ 0])
      simp
next
  case (snoc t ws)
  have tl: "ll_tail rl = t" and tn: "t \<noteq> NULL"
    using snoc.prems(1) dll_mapped [OF snoc.prems(1), of t] by (simp_all add: dll_def)
  have tm: "mrs m t \<noteq> None" using dll_mapped [OF snoc.prems(1), of t] by simp
  from test_eq [OF this] obtain ok k where test: "test t m = Some (ok, m\<lparr>tick := tick m + k\<rparr>)" by blast
  let ?m1 = "m\<lparr>tick := tick m + k\<rparr>"
  have stop: "\<exists>us ps rl' vl' no h k. ws @ [t] = us @ ps \<and>
    fill_vlist test H rl vl m = Some (rl', vl', m\<lparr>nodes := no, mrs := h, tick := tick m + k\<rparr>) \<and>
    dll h rl' us \<and> dll h vl' (ps @ vs) \<and> retired (m\<lparr>nodes := no, mrs := h\<rparr>) ((ws @ [t]) @ vs @ xs) \<and>
    touches (set (ws @ [t]) \<union> set vs) (mrs m) h \<and>
    (\<forall>x. marked (m\<lparr>nodes := no\<rparr>) x \<longleftrightarrow> marked m x \<or> x \<in> actual (mrs m) ` set ps) \<and>
    (\<forall>x. key_at (m\<lparr>nodes := no\<rparr>) x = key_at m x) \<and>
    (length vs \<le> Suc (unat H) \<longrightarrow> length (ps @ vs) \<le> Suc (unat H))"
    if "fill_vlist test H rl vl m = Some (rl, vl, m\<lparr>tick := tick m + k'\<rparr>)" for k'
    using snoc.prems that
    by (intro exI [of _ "ws @ [t]"] exI [of _ "[]"] exI [of _ rl] exI [of _ vl] exI [of _ "nodes m"]
        exI [of _ "mrs m"] exI [of _ k']) simp
  consider (full) "\<not> ll_size vl \<le> H" | (young) "ll_size vl \<le> H" "\<not> ok" | (old) "ll_size vl \<le> H" ok by blast
  then show ?case
  proof cases
    case full
    then show ?thesis using stop [of 0] by (simp add: fill_vlist.simps)
  next
    case young
    then show ?thesis using stop [of k] tl tn test by (simp add: fill_vlist.simps)
  next
    case old
    from remove_from_tail_dll [OF snoc.prems(1)] obtain rl1 h where
      rm: "remove_from_tail rl (mrs m) = Some (t, rl1, h)" and d1: "dll h rl1 ws"
      and t1: "touches (insert t (set ws)) (mrs m) h" .
    obtain c where c: "h t = Some c" using tm touches_mapped [OF t1, of t] by auto
    have ca: "actual_node c = actual (mrs m) t" using c touches_actual [OF t1] by (metis actual_Some)
    have dist: "distinct (ws @ [t] @ vs @ xs)" using snoc.prems(3) by (simp add: retired_def)
    have "nodes ?m1 (actual_node c) \<noteq> None" using snoc.prems(3) by (simp add: retired_def ca)
    then have "nodes (?m1\<lparr>mrs := h\<rparr>) (actual_node c) \<noteq> None" by simp
    from set_marked_spec [OF this, of 1] obtain no where
      sm: "set_marked (actual_node c) 1 (?m1\<lparr>mrs := h\<rparr>) = Some (?m1\<lparr>mrs := h, nodes := no\<rparr>)"
      and mk: "\<forall>x. marked (?m1\<lparr>mrs := h, nodes := no\<rparr>) x = (if x = actual_node c then (1 :: u64) \<noteq> 0 else marked (?m1\<lparr>mrs := h\<rparr>) x)"
      and ky: "\<forall>x. key_at (?m1\<lparr>mrs := h, nodes := no\<rparr>) x = key_at (?m1\<lparr>mrs := h\<rparr>) x" .
    have mk': "marked (m\<lparr>nodes := no\<rparr>) x \<longleftrightarrow> marked m x \<or> x = actual (mrs m) t" for x
      using mk [rule_format, of x] by (auto simp: marked_def ca)
    have ky': "key_at (m\<lparr>nodes := no\<rparr>) x = key_at m x" for x
      using ky [rule_format, of x] by (simp add: key_at_def)
    have dv: "dll h vl vs" using touches_dll [OF t1] snoc.prems(2) dist by auto
    have "set vs \<subseteq> set ((ws @ [t]) @ vs @ xs)" by auto
    then have "length vs + 1 < 2 ^ 32"
      using subset_length [OF snoc.prems(3) dll_distinct [OF snoc.prems(2)]] by simp
    then obtain vl1 h' where add: "add_to_head vl t h = Some (vl1, h')" and dv1: "dll h' vl1 (t # vs)"
      and t2: "touches (insert t (set vs)) h h'"
      using add_to_head_dll [OF dv tn c] dist by auto
    define m2 where "m2 = m\<lparr>nodes := no, mrs := h', tick := tick m + k\<rparr>"
    have t3: "touches (set (ws @ [t]) \<union> set vs) (mrs m) h'" by (rule touches_comp [OF t1 t2]) auto
    have act: "actual h' = actual (mrs m)" by (rule touches_actual [OF t3])
    have dr: "dll h' rl1 ws" using touches_dll [OF t2] d1 dist by auto
    have nn: "no x = None \<longleftrightarrow> nodes m x = None" for x
      using ky' [of x] key_at_None [of "m\<lparr>nodes := no\<rparr>" x] key_at_None [of m x] by simp
    have r2: "retired m2 (ws @ (t # vs) @ xs)"
      using snoc.prems(3) t3 nn touches_wrappers_mapped [of "set (ws @ [t]) \<union> set vs" m m2]
      by (auto simp: retired_def m2_def act insert_commute)
    have step: "fill_vlist test H rl vl m = fill_vlist test H rl1 vl1 m2"
      using old tl tn test rm c sm add by (subst fill_vlist.simps) (simp add: m2_def)
    have fld: "mrs m2 = h'" "tick m2 = tick m + k" by (simp_all add: m2_def)
    have upd: "m2\<lparr>nodes := a, mrs := b, tick := d\<rparr> = m\<lparr>nodes := a, mrs := b, tick := d\<rparr>" for a b d
      by (simp add: m2_def)
    have "dll (mrs m2) rl1 ws" "dll (mrs m2) vl1 (t # vs)" using dr dv1 by (simp_all add: fld)
    from snoc.IH [OF this r2] obtain us ps rl' vl' no' h'' k' where
      IH: "ws = us @ ps" "fill_vlist test H rl1 vl1 m2 = Some (rl', vl', m2\<lparr>nodes := no', mrs := h'', tick := tick m2 + k'\<rparr>)"
        "dll h'' rl' us" "dll h'' vl' (ps @ t # vs)" "retired (m2\<lparr>nodes := no', mrs := h''\<rparr>) (ws @ (t # vs) @ xs)"
        "touches (set ws \<union> set (t # vs)) (mrs m2) h''"
        "\<forall>x. marked (m2\<lparr>nodes := no'\<rparr>) x \<longleftrightarrow> marked m2 x \<or> x \<in> actual (mrs m2) ` set ps"
        "\<forall>x. key_at (m2\<lparr>nodes := no'\<rparr>) x = key_at m2 x"
        "length (t # vs) \<le> Suc (unat H) \<longrightarrow> length (ps @ t # vs) \<le> Suc (unat H)"
      by (elim exE conjE) (rule that)
    have "length vs \<le> unat H" using old(1) snoc.prems(2) by (simp add: word_le_nat_alt dll_def)
    then have len: "length ((ps @ [t]) @ vs) \<le> Suc (unat H)" using IH(9) by simp
    have t4: "touches (set (ws @ [t]) \<union> set vs) (mrs m) h''"
      by (rule touches_comp [OF t3 IH(6) [unfolded fld]]) auto
    have mk4: "marked (m\<lparr>nodes := no'\<rparr>) x \<longleftrightarrow> marked m x \<or> x \<in> actual (mrs m) ` set (ps @ [t])" for x
      using IH(7) [rule_format, of x] mk' [of x] by (auto simp: marked_def fld act m2_def)
    have ky4: "key_at (m\<lparr>nodes := no'\<rparr>) x = key_at m x" for x
      using IH(8) [rule_format, of x] ky' [of x] by (simp add: key_at_def m2_def)
    have r4: "retired (m\<lparr>nodes := no', mrs := h''\<rparr>) ((ws @ [t]) @ vs @ xs)"
      using IH(5) by (simp add: retired_def wrappers_mapped_def m2_def)
    show ?thesis
      unfolding step using IH(1-4) t4 mk4 ky4 r4 len upd
      by (intro exI [of _ us] exI [of _ "ps @ [t]"] exI [of _ rl'] exI [of _ vl'] exI [of _ no']
          exI [of _ h''] exI [of _ "k + k'"]) (simp add: fld add.assoc)
  qed
qed

end

text \<open>Nodes enter marked, so the guard holds on the longer list.\<close>

lemma fill_guard:
  assumes g: "mark_guard m c H vs X j" and act: "actual (mrs m') = actual (mrs m)"
    and mk: "\<forall>x. marked m' x \<longleftrightarrow> marked m x \<or> x \<in> actual (mrs m) ` set ps"
  shows "mark_guard m' c H (ps @ vs) X j"
proof (rule mark_guardI)
  fix us1 v zs assume vs: "ps @ vs = us1 @ v # zs" and v: "actual (mrs m') v = X"
  show "marked m' X \<or> (j + H - c) mod H \<le> length zs"
  proof (cases "v \<in> set ps")
    case True then show ?thesis using v mk by (auto simp: act)
  next
    case False
    then obtain us2 where "vs = us2 @ v # zs"
      using vs by (auto simp: append_eq_append_conv2 append_eq_Cons_conv Cons_eq_append_conv)
    then show ?thesis using mark_guardD [OF g] v mk by (auto simp: act)
  qed
qed

interpretation age: clock_test is_old_enough
  by unfold_locales (auto simp: is_old_enough_def gettimeofday_def intro!: exI [of _ "Suc 0"])

text \<open>The test of the scheme that has no ages.\<close>

definition no_test :: "ptr \<Rightarrow> 'a mem_scheme \<Rightarrow> (bool \<times> 'a mem_scheme) option" where
  "no_test w m = Some (True, m)"

interpretation ageless: clock_test no_test
  by unfold_locales (auto simp: no_test_def intro!: exI [of _ 0])

end
