(* ===== verification/Smr_Lazy.thy ===== *)
theory Smr_Lazy
  imports Rotation Smr_No_Membar
begin

text \<open>
  The lazy no-membar scheme, src/smr_lazy.c: retired nodes that have become old enough move from
  \<open>rlist\<close> to the verification list \<open>vlist\<close>, and every retirement does at most one rotation there,
  instead of a scan. Scans happen at thread exit only.
\<close>

section \<open>Thread data\<close>

record lazy_data = smr_data +
  HP_cur :: u64

definition lz_init_global :: "u8 \<Rightarrow> 'a lazy_data_scheme \<Rightarrow> 'a lazy_data_scheme" where
  "lz_init_global n s = s\<lparr>HP := replicate (K * unat n) NULL\<rparr>"

definition lz_init_local :: "u8 \<Rightarrow> u8 \<Rightarrow> 'a lazy_data_scheme \<Rightarrow> 'a lazy_data_scheme" where
  "lz_init_local ti n s =
     s\<lparr>rlist := init, vlist := init, rcount := 0, thread_index := ucast ti, nthreads := ucast n, HP_cur := 0\<rparr>"

section \<open>Retirement\<close>

definition lz_rotation :: "'a lazy_data_scheme \<Rightarrow> 'a lazy_data_scheme option" where
  "lz_rotation s = do {
     (vl, hc, freed, s1) \<leftarrow> rotate_vlist (vlist s) (HP_cur s) (smr_H s) s;
     Some (s1\<lparr>vlist := vl, HP_cur := hc, rcount := (if freed then rcount s1 - 1 else rcount s1)\<rparr>)
   }"

definition lz_push :: "ptr \<Rightarrow> 'a lazy_data_scheme \<Rightarrow> 'a lazy_data_scheme option" where
  "lz_push q s = do {
     (w, s1) \<leftarrow> new_wrapper q s;
     s2 \<leftarrow> stamp w s1;
     (rl, h) \<leftarrow> add_to_head (rlist s2) w (mrs s2);
     Some (s2\<lparr>mrs := h, rlist := rl, rcount := rcount s2 + 1\<rparr>)
   }"

text \<open>The oldest node of \<open>rlist\<close> goes to the head of \<open>vlist\<close>, marked while that is short.\<close>

definition lz_promote :: "'a lazy_data_scheme \<Rightarrow> 'a lazy_data_scheme option" where
  "lz_promote s = do {
     (w, rl, h) \<leftarrow> remove_from_tail (rlist s) (mrs s);
     (vl, h') \<leftarrow> add_to_head (vlist s) w h;
     let s1 = s\<lparr>mrs := h', rlist := rl, vlist := vl\<rparr>;
     if ll_size (vlist s1) \<le> smr_H s1 then do {
       c \<leftarrow> mrs s1 (ll_head (vlist s1));
       set_marked (actual_node c) 1 s1
     } else Some s1
   }"

definition lz_fill :: "'a lazy_data_scheme \<Rightarrow> 'a lazy_data_scheme option" where
  "lz_fill s = do {
     (rl, vl, s1) \<leftarrow> fill_vlist is_old_enough (smr_H s) (rlist s) (vlist s) s;
     Some (s1\<lparr>rlist := rl, vlist := vl\<rparr>)
   }"

definition lz_free_node_later :: "ptr \<Rightarrow> 'a lazy_data_scheme \<Rightarrow> 'a lazy_data_scheme option" where
  "lz_free_node_later n s = do {
     s1 \<leftarrow> lz_push n s;
     (old, s2) \<leftarrow> is_old_enough (ll_tail (rlist s1)) s1;
     s3 \<leftarrow> (if old then lz_promote s2 else Some s2);
     if ll_size (vlist s3) > smr_H s3 then lz_rotation s3 else lz_fill s3
   }"

section \<open>Scan and exit\<close>

text \<open>The scan sweeps \<open>rlist\<close> with one test and then \<open>vlist\<close> with the other, adding up the count.\<close>

definition two_sweeps ::
  "(ptr \<Rightarrow> 'a lazy_data_scheme \<Rightarrow> (bool \<times> 'a lazy_data_scheme) option) \<Rightarrow>
   (ptr \<Rightarrow> 'a lazy_data_scheme \<Rightarrow> (bool \<times> 'a lazy_data_scheme) option) \<Rightarrow>
   'a lazy_data_scheme \<Rightarrow> 'a lazy_data_scheme option" where
  "two_sweeps keep_r keep_v s = do {
     (rl, rc, s1) \<leftarrow> sweep_loop keep_r (rlist s) init 0 s;
     (vl, rc', s2) \<leftarrow> sweep_loop keep_v (vlist s) init rc (s1\<lparr>rlist := rl\<rparr>);
     Some (s2\<lparr>vlist := vl, rcount := rc'\<rparr>)
   }"

definition lz_scan :: "'a lazy_data_scheme \<Rightarrow> 'a lazy_data_scheme option" where
  "lz_scan s = do {
     plist \<leftarrow> collect_hps (unat (smr_H s)) 0 (HP s) [];
     two_sweeps (young_or_hazard_test plist) (hazard_test plist) s
   }"

text \<open>Everything in \<open>vlist\<close> moves back to \<open>rlist\<close>.\<close>

partial_function (option) lz_merge :: "'a lazy_data_scheme \<Rightarrow> 'a lazy_data_scheme option" where
  "lz_merge s =
     (if ll_size (vlist s) > 0 then do {
        (w, vl, h) \<leftarrow> remove_from_tail (vlist s) (mrs s);
        (rl, h') \<leftarrow> add_to_head (rlist s) w h;
        lz_merge (s\<lparr>mrs := h', rlist := rl, vlist := vl\<rparr>)
      } else Some s)"

declare lz_merge.simps [code]

partial_function (option) lz_exit_loop ::
  "(nat \<Rightarrow> ptr list \<Rightarrow> ptr list) \<Rightarrow> nat \<Rightarrow> 'a lazy_data_scheme \<Rightarrow> 'a lazy_data_scheme option" where
  "lz_exit_loop yield n s =
     (if rcount s > 0 then do {
        s1 \<leftarrow> lz_scan s;
        lz_exit_loop yield (Suc n) (s1\<lparr>HP := yield n (HP s1)\<rparr>)
      } else Some s)"

declare lz_exit_loop.simps [code]

definition lz_thread_exit ::
  "(nat \<Rightarrow> ptr list \<Rightarrow> ptr list) \<Rightarrow> 'a lazy_data_scheme \<Rightarrow> 'a lazy_data_scheme option" where
  "lz_thread_exit yield s = do {
     s1 \<leftarrow> lz_merge s;
     hp \<leftarrow> clear_own_hps (unat (thread_index s1)) 0 K (HP s1);
     lz_exit_loop yield 0 (s1\<lparr>HP := hp\<rparr>)
   }"

section \<open>Invariant\<close>

text \<open>\<open>ws\<close> and \<open>vs\<close> are the wrappers in \<open>rlist\<close> and \<open>vlist\<close>; no node is retired twice.\<close>

definition lz_inv :: "'a lazy_data_scheme \<Rightarrow> ptr list \<Rightarrow> ptr list \<Rightarrow> bool" where
  "lz_inv s ws vs \<longleftrightarrow>
     dll (mrs s) (rlist s) ws \<and> dll (mrs s) (vlist s) vs \<and> retired s (ws @ vs) \<and>
     distinct (map (actual (mrs s)) (ws @ vs)) \<and>
     unat (rcount s) = length ws + length vs \<and> 0 < nthreads s \<and> unat (nthreads s) < 256 \<and>
     length (HP s) = K * unat (nthreads s) \<and> unat (HP_cur s) < K * unat (nthreads s) \<and>
     (\<forall>p \<in> hazards s. nodes s p \<noteq> None)"

definition waiting :: "'a mem_scheme \<Rightarrow> ptr list \<Rightarrow> ptr set" where
  "waiting m ws = actual (mrs m) ` set ws"

definition protects :: "'a lazy_data_scheme \<Rightarrow> ptr list \<Rightarrow> ptr \<Rightarrow> nat \<Rightarrow> bool" where
  "protects s vs X j \<longleftrightarrow>
     X \<noteq> NULL \<and> j < length (HP s) \<and> HP s ! j = X \<and>
     mark_guard s (unat (HP_cur s)) (length (HP s)) vs X j"

text \<open>What every part of a retirement preserves.\<close>

definition lz_ok ::
  "'a lazy_data_scheme \<Rightarrow> ptr list \<Rightarrow> ptr list \<Rightarrow> 'a lazy_data_scheme \<Rightarrow> ptr list \<Rightarrow> ptr list \<Rightarrow> bool" where
  "lz_ok s ws vs s' ws' vs' \<longleftrightarrow>
     lz_inv s' ws' vs' \<and> HP s' = HP s \<and> nthreads s' = nthreads s \<and> thread_index s' = thread_index s \<and>
     waiting s' (ws' @ vs') \<subseteq> waiting s (ws @ vs) \<and>
     (\<forall>X j. protects s vs X j \<longrightarrow> protects s' vs' X j \<and> key_at s' X = key_at s X \<and>
        (X \<in> waiting s (ws @ vs) \<longrightarrow> X \<in> waiting s' (ws' @ vs')))"

lemma lz_ok_trans: "lz_ok s ws vs s1 ws1 vs1 \<Longrightarrow> lz_ok s1 ws1 vs1 s2 ws2 vs2 \<Longrightarrow> lz_ok s ws vs s2 ws2 vs2"
  unfolding lz_ok_def by (intro conjI; (elim conjE)?) (auto 0 3)

lemma lz_H: "lz_inv s ws vs \<Longrightarrow> unat (smr_H s) = length (HP s)"
  by (simp add: lz_inv_def unat_smr_H)

lemma lz_size: "lz_inv s ws vs \<Longrightarrow> ll_size (vlist s) > smr_H s \<longleftrightarrow> length vs > length (HP s)"
  using lz_H [of s ws vs] by (simp add: word_less_nat_alt lz_inv_def dll_def)


lemma lz_inv_frame:
  fixes s s' :: "'a lazy_data_scheme"
  assumes "nodes s' = nodes s" "mrs s' = mrs s" "alloc s' = alloc s" "HP s' = HP s" "rlist s' = rlist s"
    "vlist s' = vlist s" "rcount s' = rcount s" "nthreads s' = nthreads s" "HP_cur s' = HP_cur s"
  shows "lz_inv s' ws vs = lz_inv s ws vs"
  using assms by (simp add: lz_inv_def retired_def wrappers_mapped_def hazards_def)

lemma protects_frame:
  fixes s s' :: "'a lazy_data_scheme"
  assumes "HP s' = HP s" "HP_cur s' = HP_cur s" "actual (mrs s') = actual (mrs s)"
    "marked s X \<longrightarrow> marked s' X" "protects s vs X j"
  shows "protects s' vs X j"
  using assms mark_guard_cong [of vs s' s X] by (simp add: protects_def)

lemma lz_ok_tick: "lz_inv s ws vs \<Longrightarrow> lz_ok s ws vs (s\<lparr>tick := k\<rparr>) ws vs"
  using lz_inv_frame [of "s\<lparr>tick := k\<rparr>" s ws vs]
  by (simp add: lz_ok_def waiting_def protects_def mark_guard_def marked_def key_at_def)

lemma lz_length: "lz_inv s ws vs \<Longrightarrow> length vs + 1 < 2 ^ 32 \<and> length ws + 1 < 2 ^ 32"
  using subset_length [of s "ws @ vs" vs] subset_length [of s "ws @ vs" ws] by (simp add: lz_inv_def dll_def)

lemma waiting_append [simp]: "waiting m (xs @ ys) = waiting m xs \<union> waiting m ys"
  by (auto simp: waiting_def)

lemma waiting_simps [simp]: "waiting m [] = {}" "waiting m (x # xs) = insert (actual (mrs m) x) (waiting m xs)"
  by (simp_all add: waiting_def)

lemma waiting_cong: "actual (mrs m') = actual (mrs m) \<Longrightarrow> waiting m' xs = waiting m xs"
  by (simp add: waiting_def)

lemma lz_push_ok:
  assumes inv: "lz_inv s ws vs" and q: "nodes s q \<noteq> None" "q \<notin> waiting s (ws @ vs)"
    and room: "fst (ssalloc_alloc 1 (of_nat MR_NODE_SIZE) (alloc s)) \<noteq> NULL"
  obtains s' w where "lz_push q s = Some s'" "lz_inv s' (w # ws) vs" "actual (mrs s') w = q" "HP s' = HP s"
    "nthreads s' = nthreads s" "thread_index s' = thread_index s"
    "waiting s' ((w # ws) @ vs) = insert q (waiting s (ws @ vs))"
    "\<forall>X j. protects s vs X j \<longrightarrow> protects s' vs X j" "\<forall>X. key_at s' X = key_at s X"
proof -
  have r: "retired s (ws @ vs)" and d: "dll (mrs s) (rlist s) ws" "dll (mrs s) (vlist s) vs"
    and dist: "distinct (map (actual (mrs s)) (ws @ vs))"
    using inv by (simp_all add: lz_inv_def)
  have sub: "set ws \<subseteq> set (ws @ vs)" by simp
  from push_stamped [OF r d(1) sub q(1) room] obtain w s1 s2 rl h where
    nw: "new_wrapper q s = Some (w, s1)" "stamp w s1 = Some s2" "add_to_head (rlist s) w (mrs s2) = Some (rl, h)"
    and dh: "dll h rl (w # ws)" and w: "w \<notin> set (ws @ vs)" and rh: "retired (s2\<lparr>mrs := h\<rparr>) (w # ws @ vs)"
    and fr: "\<forall>y. y \<noteq> w \<longrightarrow> y \<notin> set ws \<longrightarrow> h y = mrs s y" and act: "actual h w = q"
    and act': "\<forall>v. v \<noteq> w \<longrightarrow> actual h v = actual (mrs s) v \<and> created_at h v = created_at (mrs s) v"
    and s2: "s2 = s\<lparr>mrs := mrs s2, alloc := alloc s2, tick := Suc (tick s)\<rparr>" by metis
  obtain a b where s2': "s2 = s\<lparr>mrs := a, alloc := b, tick := Suc (tick s)\<rparr>" using s2 by blast
  have fld: "rlist s2 = rlist s" "vlist s2 = vlist s" "rcount s2 = rcount s" "nodes s2 = nodes s" "HP s2 = HP s"
    "nthreads s2 = nthreads s" "thread_index s2 = thread_index s" "HP_cur s2 = HP_cur s"
    unfolding s2' by simp_all
  define s3 where "s3 = s2\<lparr>mrs := h, rlist := rl, rcount := rcount s2 + 1\<rparr>"
  have fld3: "rlist s3 = rl" "vlist s3 = vlist s" "rcount s3 = rcount s + 1" "nodes s3 = nodes s" "HP s3 = HP s"
    "nthreads s3 = nthreads s" "thread_index s3 = thread_index s" "HP_cur s3 = HP_cur s" "mrs s3 = h"
    by (simp_all add: s3_def fld)
  have dv: "dll h (vlist s) vs"
  proof -
    have "set ws \<inter> set vs = {}" using r by (simp add: retired_def)
    then have "links h NULL vs NULL = links (mrs s) NULL vs NULL"
      by (intro links_cong) (use fr w in auto)
    then show ?thesis using d(2) by (simp add: dll_def)
  qed
  have am: "map (actual h) (ws @ vs) = map (actual (mrs s)) (ws @ vs)" using act' w by auto
  have wt: "waiting s3 (ws @ vs) = waiting s (ws @ vs)"
    unfolding waiting_def fld3 by (rule image_cong) (use act' w in auto)
  have "retired s3 (w # ws @ vs)" using rh by (simp add: retired_def s3_def wrappers_mapped_def)
  moreover have "distinct (map (actual (mrs s3)) (w # ws @ vs))"
    using dist q(2) am act unfolding fld3 waiting_def
    by (simp only: list.map distinct.simps set_map [symmetric]) simp
  moreover have "unat (rcount s3) = length (w # ws) + length vs"
  proof -
    have "length (ws @ vs) \<le> 2 ^ 30" by (rule retired_length [OF r])
    then show ?thesis using inv by (simp add: fld3 lz_inv_def unat_succ)
  qed
  ultimately have inv3: "lz_inv s3 (w # ws) vs"
    using inv dh dv by (simp add: lz_inv_def fld3 hazards_def)
  have "\<forall>v \<in> set vs. actual (mrs s3) v = actual (mrs s) v" unfolding fld3 using act' w by auto
  then have pr: "protects s vs X j \<longrightarrow> protects s3 vs X j" for X j
    using mark_guard_cong [of vs s3 s X "unat (HP_cur s)" "length (HP s)" j]
    by (simp add: protects_def) (simp add: fld3 marked_def)
  show ?thesis
    using nw inv3 act wt pr
    by (intro that [of s3 w]) (auto simp: lz_push_def fld fld3 waiting_def key_at_def, simp add: s3_def fld)
qed


lemma lz_rotation_ok:
  assumes inv: "lz_inv s ws vs" and big: "length (HP s) < length vs"
  obtains s' vs' where "lz_rotation s = Some s'" "lz_ok s ws vs s' ws vs'" "length vs' \<le> length vs"
    "length vs \<le> Suc (length vs')"
proof -
  obtain us t where vs: "vs = us @ [t]" using big by (cases vs rule: rev_cases) auto
  have H: "unat (smr_H s) = length (HP s)" by (rule lz_H [OF inv])
  have d: "dll (mrs s) (vlist s) (us @ [t])" and r: "retired s (ws @ us @ [t])"
    and hz: "\<forall>p \<in> hazards s. nodes s p \<noteq> None" and hc: "unat (HP_cur s) < unat (smr_H s)"
    using inv H by (simp_all add: lz_inv_def vs)
  let ?hp = "HP s ! unat (HP_cur s)" and ?a = "actual (mrs s) t"
  obtain vl' hc' freed m' where
    rot: "rotate_vlist (vlist s) (HP_cur s) (smr_H s) s = Some (vl', hc', freed, m')"
    and hc': "unat hc' = (unat (HP_cur s) + 1) mod unat (smr_H s)"
    and d': "dll (mrs m') vl' (if freed then us else t # us)"
    and r': "retired m' (ws @ (if freed then us else t # us))"
    and t: "touches (set (us @ [t])) (mrs s) (mrs m')"
    and m': "m' = s\<lparr>nodes := nodes m', mrs := mrs m', alloc := alloc m'\<rparr>"
    and fr: "freed \<longleftrightarrow> \<not> (marked s ?a \<or> ?hp = ?a \<and> ?hp \<noteq> NULL)"
    and mk: "\<forall>x. marked m' x \<longleftrightarrow> (marked s x \<or> x = ?hp \<and> ?hp \<noteq> NULL) \<and> \<not> (x = ?a \<and> \<not> freed)"
    and ky: "\<forall>x. x \<noteq> ?a \<or> \<not> freed \<longrightarrow> key_at m' x = key_at s x"
    and nn: "\<forall>x. nodes m' x = None \<longleftrightarrow> nodes s x = None"
    by (rule rotate_spec [OF d r hz hc H [symmetric]])
  obtain a b c where m'': "m' = s\<lparr>nodes := a, mrs := b, alloc := c\<rparr>" using m' by blast
  have fld: "HP m' = HP s" "rlist m' = rlist s" "rcount m' = rcount s" "nthreads m' = nthreads s"
    "thread_index m' = thread_index s" unfolding m'' by simp_all
  let ?vs' = "if freed then us else t # us"
  define s' where "s' = m'\<lparr>vlist := vl', HP_cur := hc', rcount := (if freed then rcount m' - 1 else rcount m')\<rparr>"
  have fs: "HP s' = HP s" "rlist s' = rlist s" "nthreads s' = nthreads s" "thread_index s' = thread_index s"
    "mrs s' = mrs m'" "nodes s' = nodes m'" "alloc s' = alloc m'" "vlist s' = vl'" "HP_cur s' = hc'"
    "rcount s' = (if freed then rcount s - 1 else rcount s)"
    by (simp_all add: s'_def fld)
  have act: "actual (mrs s') = actual (mrs s)" unfolding fs by (rule touches_actual [OF t])
  have dr: "dll (mrs m') (rlist s) ws"
    using touches_dll [OF t] inv r by (auto simp: lz_inv_def retired_def)
  have pos: "0 < length (HP s)" using hc H by linarith
  have rc: "unat (rcount s) = length ws + Suc (length us)" using inv by (simp add: lz_inv_def vs)
  have "retired s' (ws @ ?vs')" using r' by (simp add: retired_def wrappers_mapped_def fs)
  moreover have "distinct (map (actual (mrs s')) (ws @ ?vs'))"
    using inv unfolding act by (auto simp: lz_inv_def vs)
  moreover have "unat (rcount s') = length ws + length ?vs'"
    using rc unat_pred [of "rcount s" "length ws + length us"] by (simp add: fs)
  moreover have "unat hc' < K * unat (nthreads s)"
    using mod_less_divisor [OF pos] inv unfolding hc' H by (simp add: lz_inv_def)
  ultimately have inv': "lz_inv s' ws ?vs'"
    using inv d' dr nn by (simp add: lz_inv_def fs hazards_def)
  have mks: "marked s' x = marked m' x" "key_at s' x = key_at m' x" for x by (simp_all add: marked_def key_at_def fs)
  have g: "protects s' ?vs' X j \<and> key_at s' X = key_at s X \<and> (X \<in> waiting s (ws @ vs) \<longrightarrow> X \<in> waiting s' (ws @ ?vs'))"
    if p: "protects s vs X j" for X j
  proof -
    have X: "X \<noteq> NULL" "j < length (HP s)" "HP s ! j = X" and
      gd: "mark_guard s (unat (HP_cur s)) (length (HP s)) (us @ [t]) X j" using p by (simp_all add: protects_def vs)
    have "mark_guard s' ((unat (HP_cur s) + 1) mod length (HP s)) (length (HP s)) ?vs' X j \<and> (freed \<longrightarrow> ?a \<noteq> X)"
    proof (rule rotate_guard [OF X(2) _ _ X(1) _ _ act gd fr])
      show "unat (HP_cur s) < length (HP s)" using hc H by simp
      show "length (HP s) \<le> length us" using big by (simp add: vs)
      show "distinct (map (actual (mrs s)) (us @ [t]))" using inv by (simp add: lz_inv_def vs)
      show "j = unat (HP_cur s) \<Longrightarrow> ?hp = X" using X(3) by simp
      show "marked s' X \<longleftrightarrow> (marked s X \<or> X = ?hp \<and> ?hp \<noteq> NULL) \<and> \<not> (X = ?a \<and> \<not> freed)"
        unfolding mks using mk by blast
    qed
    moreover have "freed \<longrightarrow> ?a \<noteq> X \<Longrightarrow> key_at s' X = key_at s X" using ky unfolding mks by auto
    moreover have "freed \<longrightarrow> ?a \<noteq> X \<Longrightarrow> X \<in> waiting s (ws @ vs) \<Longrightarrow> X \<in> waiting s' (ws @ ?vs')"
      using waiting_cong [OF act] by (auto simp: vs)
    ultimately show ?thesis using X hc' by (simp add: protects_def fs H)
  qed
  have "waiting s' (ws @ ?vs') \<subseteq> waiting s (ws @ vs)" using waiting_cong [OF act] by (auto simp: vs)
  then have "lz_ok s ws vs s' ws ?vs'" using inv' g fs by (simp add: lz_ok_def)
  then show ?thesis using rot
    by (intro that [of s' ?vs']) (auto simp: lz_rotation_def s'_def vs)
qed


lemma lz_promote_ok:
  assumes inv: "lz_inv s (us @ [t]) vs"
  obtains s' where "lz_promote s = Some s'" "lz_ok s (us @ [t]) vs s' us (t # vs)"
proof -
  have d: "dll (mrs s) (rlist s) (us @ [t])" "dll (mrs s) (vlist s) vs" and r: "retired s ((us @ [t]) @ vs)"
    using inv by (simp_all add: lz_inv_def)
  have dist: "distinct (us @ [t] @ vs)" using r by (simp add: retired_def)
  from remove_from_tail_dll [OF d(1)] obtain rl h where
    rm: "remove_from_tail (rlist s) (mrs s) = Some (t, rl, h)" and d1: "dll h rl us"
    and t1: "touches (insert t (set us)) (mrs s) h" .
  obtain c where c: "h t = Some c" and tn: "t \<noteq> NULL"
    using dll_mapped [OF d(1), of t] touches_mapped [OF t1, of t] by auto
  have dv: "dll h (vlist s) vs" using touches_dll [OF t1] d(2) dist by auto
  have "length vs + 1 < 2 ^ 32" using lz_length [OF inv] by simp
  then obtain vl h' where add: "add_to_head (vlist s) t h = Some (vl, h')" and dv1: "dll h' vl (t # vs)"
    and t2: "touches (insert t (set vs)) h h'" using add_to_head_dll [OF dv tn c] dist by auto
  have t3: "touches (insert t (set us \<union> set vs)) (mrs s) h'" by (rule touches_comp [OF t1 t2]) auto
  have act: "actual h' = actual (mrs s)" by (rule touches_actual [OF t3])
  have dr: "dll h' rl us" using touches_dll [OF t2] d1 dist by auto
  define s1 where "s1 = s\<lparr>mrs := h', rlist := rl, vlist := vl\<rparr>"
  have H: "smr_H s1 = smr_H s" by (simp add: smr_H_def s1_def)
  have hd: "ll_head vl = t" using dv1 by (simp add: dll_def)
  have small: "ll_size vl \<le> smr_H s \<longleftrightarrow> length (t # vs) \<le> length (HP s)"
    using dll_size [OF dv1] lz_H [OF inv] by (simp add: word_le_nat_alt)
  obtain c' where c': "h' t = Some c'" and ca: "actual_node c' = actual (mrs s) t"
    using c touches_mapped [OF t2, of t] act by (metis actual_Some not_None_eq)
  have nn_t: "nodes s1 (actual (mrs s) t) \<noteq> None" using r by (simp add: retired_def s1_def)
  obtain s' where s': "lz_promote s = Some s'" "s' = s1\<lparr>nodes := nodes s'\<rparr>"
    and mk: "\<forall>x. marked s' x \<longleftrightarrow> marked s x \<or> x = actual (mrs s) t \<and> length (t # vs) \<le> length (HP s)"
    and ky: "\<forall>x. key_at s' x = key_at s x"
  proof (cases "length (t # vs) \<le> length (HP s)")
    case True
    from set_marked_spec [OF nn_t, of 1] obtain no where
      sm: "set_marked (actual (mrs s) t) 1 s1 = Some (s1\<lparr>nodes := no\<rparr>)"
      and mk: "\<forall>x. marked (s1\<lparr>nodes := no\<rparr>) x = (if x = actual (mrs s) t then (1 :: u64) \<noteq> 0 else marked s1 x)"
      and ky: "\<forall>x. key_at (s1\<lparr>nodes := no\<rparr>) x = key_at s1 x" .
    have "marked s1 = marked s" "key_at s1 = key_at s" by (simp_all add: fun_eq_iff marked_def key_at_def s1_def)
    moreover have "lz_promote s = Some (s1\<lparr>nodes := no\<rparr>)"
      using rm add sm True small H hd c' ca by (simp add: lz_promote_def s1_def Let_def)
    ultimately show ?thesis using True mk ky by (intro that [of "s1\<lparr>nodes := no\<rparr>"]) auto
  next
    case False
    have "lz_promote s = Some s1" using rm add False small H by (simp add: lz_promote_def s1_def Let_def)
    moreover have "marked s1 = marked s" "key_at s1 = key_at s" by (simp_all add: fun_eq_iff marked_def key_at_def s1_def)
    ultimately show ?thesis using False by (intro that [of s1]) auto
  qed
  obtain no where "s' = s1\<lparr>nodes := no\<rparr>" using s'(2) by blast
  then have s'': "s' = s\<lparr>nodes := no, mrs := h', rlist := rl, vlist := vl\<rparr>"
    by (cases s) (simp add: s1_def)
  have nn: "nodes s' x = None \<longleftrightarrow> nodes s x = None" for x
    using ky key_at_None [of s' x] key_at_None [of s x] by simp
  have wm: "wrappers_mapped s'"
    using touches_wrappers_mapped [of "insert t (set us \<union> set vs)" s s'] t3 r by (simp add: retired_def s'')
  have "retired s' (us @ t # vs)"
    using r nn wm by (simp add: retired_def) (simp add: s'' act insert_commute)
  then have inv': "lz_inv s' us (t # vs)"
    using inv dr dv1 nn by (simp add: lz_inv_def hazards_def) (auto simp: s'' act)
  have pr: "protects s' (t # vs) X j" if p: "protects s vs X j" for X j
  proof -
    have X: "j < length (HP s)" and g: "mark_guard s (unat (HP_cur s)) (length (HP s)) vs X j"
      using p by (simp_all add: protects_def)
    have "mark_guard s' (unat (HP_cur s)) (length (HP s)) (t # vs) X j"
    proof (rule mark_guardI)
      fix us1 v zs assume vs: "t # vs = us1 @ v # zs" and v: "actual (mrs s') v = X"
      show "marked s' X \<or> (j + length (HP s) - unat (HP_cur s)) mod length (HP s) \<le> length zs"
      proof (cases us1)
        case Nil
        then have e: "zs = vs" "v = t" using vs by simp_all
        have "(j + length (HP s) - unat (HP_cur s)) mod length (HP s) < length (HP s)"
          using X by (intro mod_less_divisor) linarith
        then show ?thesis using e v mk by (cases "length (t # vs) \<le> length (HP s)") (auto simp: s'' act)
      next
        case (Cons a us2)
        then have "vs = us2 @ v # zs" using vs by simp
        then show ?thesis using mark_guardD [OF g] v mk by (auto simp: s'' act)
      qed
    qed
    then show ?thesis using p by (simp add: protects_def s'')
  qed
  have "waiting s' = waiting s" by (simp add: fun_eq_iff waiting_def s'' act)
  then have "lz_ok s (us @ [t]) vs s' us (t # vs)"
    using inv' pr ky by (simp add: lz_ok_def) (auto simp: s'')
  then show ?thesis using s'(1) by (rule that [rotated])
qed

lemma fill_ok:
  assumes test: "clock_test (test :: ptr \<Rightarrow> 'a lazy_data_scheme \<Rightarrow> _)" and inv: "lz_inv s ws vs"
  obtains rl' vl' s1 us ps where "fill_vlist test (smr_H s) (rlist s) (vlist s) s = Some (rl', vl', s1)"
    "ws = us @ ps" "lz_ok s ws vs (s1\<lparr>rlist := rl', vlist := vl'\<rparr>) us (ps @ vs)"
    "length vs \<le> Suc (length (HP s)) \<longrightarrow> length (ps @ vs) \<le> Suc (length (HP s))"
proof -
  have d: "dll (mrs s) (rlist s) ws" "dll (mrs s) (vlist s) vs" and r: "retired s (ws @ vs @ [])"
    using inv by (simp_all add: lz_inv_def)
  from clock_test.fill_ex [OF test d r, of "smr_H s"] obtain us ps rl' vl' no h k where
    ws: "ws = us @ ps" and
    fl: "fill_vlist test (smr_H s) (rlist s) (vlist s) s = Some (rl', vl', s\<lparr>nodes := no, mrs := h, tick := tick s + k\<rparr>)"
    and dr: "dll h rl' us" and dv: "dll h vl' (ps @ vs)" and rt: "retired (s\<lparr>nodes := no, mrs := h\<rparr>) (ws @ vs @ [])"
    and t: "touches (set ws \<union> set vs) (mrs s) h"
    and mk: "\<forall>x. marked (s\<lparr>nodes := no\<rparr>) x \<longleftrightarrow> marked s x \<or> x \<in> actual (mrs s) ` set ps"
    and ky: "\<forall>x. key_at (s\<lparr>nodes := no\<rparr>) x = key_at s x"
    and len: "length vs \<le> Suc (unat (smr_H s)) \<longrightarrow> length (ps @ vs) \<le> Suc (unat (smr_H s))"
    by (elim exE conjE) (rule that)
  define s' where "s' = s\<lparr>nodes := no, mrs := h, tick := tick s + k, rlist := rl', vlist := vl'\<rparr>"
  have fs: "mrs s' = h" "HP s' = HP s" "nthreads s' = nthreads s" "thread_index s' = thread_index s"
    "HP_cur s' = HP_cur s" "rcount s' = rcount s" "nodes s' = no" "rlist s' = rl'" "vlist s' = vl'"
    by (simp_all add: s'_def)
  have act: "actual h = actual (mrs s)" by (rule touches_actual [OF t])
  have ky': "key_at s' x = key_at s x" for x using ky by (simp add: key_at_def s'_def)
  have mk': "marked s' x \<longleftrightarrow> marked s x \<or> x \<in> actual (mrs s) ` set ps" for x
    using mk by (simp add: marked_def s'_def)
  have nn: "nodes s' x = None \<longleftrightarrow> nodes s x = None" for x
    using ky' [of x] key_at_None [of s' x] key_at_None [of s x] by simp
  have "retired s' (us @ ps @ vs)" using rt by (simp add: retired_def wrappers_mapped_def s'_def ws)
  then have inv': "lz_inv s' us (ps @ vs)"
    using inv dr dv nn by (simp add: lz_inv_def hazards_def fs) (auto simp: act ws)
  have pr: "protects s' (ps @ vs) X j" if p: "protects s vs X j" for X j
  proof -
    have g: "mark_guard s (unat (HP_cur s)) (length (HP s)) vs X j" using p by (simp add: protects_def)
    have "mark_guard s' (unat (HP_cur s)) (length (HP s)) (ps @ vs) X j"
      by (rule fill_guard [OF g]) (use mk' in \<open>simp_all add: fs act\<close>)
    then show ?thesis using p by (simp add: protects_def fs)
  qed
  have "waiting s' = waiting s" by (simp add: fun_eq_iff waiting_def fs act)
  then have "lz_ok s ws vs s' us (ps @ vs)"
    using inv' pr ky' by (simp add: lz_ok_def fs) (auto simp: ws)
  then show ?thesis using fl ws len lz_H [OF inv]
    by (intro that [of rl' vl' _ us ps]) (simp_all add: s'_def)
qed


section \<open>A whole retirement\<close>

definition retire_ok ::
  "'a lazy_data_scheme \<Rightarrow> ptr list \<Rightarrow> ptr list \<Rightarrow> ptr \<Rightarrow> 'a lazy_data_scheme \<Rightarrow> ptr list \<Rightarrow> ptr list \<Rightarrow> bool" where
  "retire_ok s ws vs q s' ws' vs' \<longleftrightarrow>
     lz_inv s' ws' vs' \<and> HP s' = HP s \<and> nthreads s' = nthreads s \<and> thread_index s' = thread_index s \<and>
     waiting s' (ws' @ vs') \<subseteq> insert q (waiting s (ws @ vs)) \<and>
     (\<forall>X j. protects s vs X j \<longrightarrow> protects s' vs' X j \<and> key_at s' X = key_at s X \<and>
        (X \<in> insert q (waiting s (ws @ vs)) \<longrightarrow> X \<in> waiting s' (ws' @ vs')))"

lemma push_then_ok:
  assumes "HP s1 = HP s" "nthreads s1 = nthreads s" "thread_index s1 = thread_index s"
    "waiting s1 ((w # ws) @ vs) = insert q (waiting s (ws @ vs))"
    "\<forall>X j. protects s vs X j \<longrightarrow> protects s1 vs X j" "\<forall>X. key_at s1 X = key_at s X"
    and "lz_ok s1 (w # ws) vs s' ws' vs'"
  shows "retire_ok s ws vs q s' ws' vs'"
proof -
  note ok = assms(7) [unfolded lz_ok_def assms(1-4)]
  have g: "protects s' vs' X j \<and> key_at s' X = key_at s X \<and>
      (X \<in> insert q (waiting s (ws @ vs)) \<longrightarrow> X \<in> waiting s' (ws' @ vs'))" if "protects s vs X j" for X j
  proof -
    have "protects s1 vs X j" using assms(5) that by blast
    with ok assms(6) show ?thesis by simp
  qed
  show ?thesis unfolding retire_ok_def by (intro conjI) (use ok g in blast)+
qed

lemma is_old_enough_tick:
  assumes "mrs s x \<noteq> None"
  obtains b where "is_old_enough x s = Some (b, s\<lparr>tick := Suc (tick s)\<rparr>)"
  using assms by (auto simp: is_old_enough_def gettimeofday_def)

lemma lz_retire_ok:
  assumes inv: "lz_inv s ws vs" and q: "nodes s q \<noteq> None" "q \<notin> waiting s (ws @ vs)"
    and room: "fst (ssalloc_alloc 1 (of_nat MR_NODE_SIZE) (alloc s)) \<noteq> NULL"
  obtains s' ws' vs' where "lz_free_node_later q s = Some s'" "retire_ok s ws vs q s' ws' vs'"
    "length vs' \<le> max (Suc (length vs)) (Suc (length (HP s)))"
proof -
  obtain s1 w where push: "lz_push q s = Some s1" and inv1: "lz_inv s1 (w # ws) vs"
    and act1: "actual (mrs s1) w = q" and f1: "HP s1 = HP s" "nthreads s1 = nthreads s" "thread_index s1 = thread_index s"
      "waiting s1 ((w # ws) @ vs) = insert q (waiting s (ws @ vs))"
      "\<forall>X j. protects s vs X j \<longrightarrow> protects s1 vs X j" "\<forall>X. key_at s1 X = key_at s X"
    by (rule lz_push_ok [OF inv q room])
  obtain us t where wst: "w # ws = us @ [t]" by (cases "w # ws" rule: rev_cases) auto
  have tl: "ll_tail (rlist s1) = t" and tm: "mrs s1 t \<noteq> None"
    using inv1 dll_mapped [of "mrs s1" "rlist s1" "us @ [t]" t] unfolding lz_inv_def wst by (simp_all add: dll_def)
  obtain old where o: "is_old_enough t s1 = Some (old, s1\<lparr>tick := Suc (tick s1)\<rparr>)"
    by (rule is_old_enough_tick [OF tm])
  let ?s2 = "s1\<lparr>tick := Suc (tick s1)\<rparr>"
  have ok2: "lz_ok s1 (w # ws) vs ?s2 (w # ws) vs" by (rule lz_ok_tick [OF inv1])
  then have inv2: "lz_inv ?s2 (us @ [t]) vs" by (simp add: lz_ok_def wst)
  obtain s3 ws3 vs3 where s3: "(if old then lz_promote ?s2 else Some ?s2) = Some s3"
    and ok3: "lz_ok s1 (w # ws) vs s3 ws3 vs3" and len3: "length vs3 \<le> Suc (length vs)"
  proof (cases old)
    case False then show ?thesis using ok2 by (intro that [of ?s2 "w # ws" vs]) auto
  next
    case True
    obtain s3 where "lz_promote ?s2 = Some s3" "lz_ok ?s2 (us @ [t]) vs s3 us (t # vs)"
      by (rule lz_promote_ok [OF inv2])
    then show ?thesis using True lz_ok_trans [OF ok2 [unfolded wst]] wst
      by (intro that [of s3 us "t # vs"]) auto
  qed
  have inv3: "lz_inv s3 ws3 vs3" and hp3: "HP s3 = HP s" using ok3 f1 by (simp_all add: lz_ok_def)
  have run: "lz_free_node_later q s = (if ll_size (vlist s3) > smr_H s3 then lz_rotation s3 else lz_fill s3)"
    using push tl o s3 by (simp add: lz_free_node_later_def)
  show ?thesis
  proof (cases "ll_size (vlist s3) > smr_H s3")
    case True
    then have "length (HP s3) < length vs3" using lz_size [OF inv3] by simp
    from lz_rotation_ok [OF inv3 this] obtain s' vs' where s': "lz_rotation s3 = Some s'"
      "lz_ok s3 ws3 vs3 s' ws3 vs'" "length vs' \<le> length vs3" .
    have "lz_ok s1 (w # ws) vs s' ws3 vs'" by (rule lz_ok_trans [OF ok3 s'(2)])
    from push_then_ok [OF f1 this] show ?thesis using run True s' len3
      by (intro that [of s' ws3 vs']) auto
  next
    case False
    then have small: "length vs3 \<le> Suc (length (HP s3))" using lz_size [OF inv3] by simp
    obtain rl vl s4 us ps where
      s4: "fill_vlist is_old_enough (smr_H s3) (rlist s3) (vlist s3) s3 = Some (rl, vl, s4)" "ws3 = us @ ps"
      "lz_ok s3 ws3 vs3 (s4\<lparr>rlist := rl, vlist := vl\<rparr>) us (ps @ vs3)"
      "length vs3 \<le> Suc (length (HP s3)) \<longrightarrow> length (ps @ vs3) \<le> Suc (length (HP s3))"
      by (rule fill_ok [OF age.clock_test_axioms inv3])
    have "lz_ok s1 (w # ws) vs (s4\<lparr>rlist := rl, vlist := vl\<rparr>) us (ps @ vs3)" by (rule lz_ok_trans [OF ok3 s4(3)])
    from push_then_ok [OF f1 this] show ?thesis using run False s4(1,4) small hp3
      by (intro that [of "s4\<lparr>rlist := rl, vlist := vl\<rparr>" us "ps @ vs3"]) (auto simp: lz_fill_def)
  qed
qed


section \<open>Runs\<close>

text \<open>The wrappers reached from the head of a list, and the nodes waiting in both lists.\<close>

fun walk :: "mr_heap \<Rightarrow> nat \<Rightarrow> ptr \<Rightarrow> ptr list" where
  "walk h 0 p = []"
| "walk h (Suc n) p = (case h p of None \<Rightarrow> [] | Some c \<Rightarrow> p # walk h n (mr_next c))"

lemma walk_links: "links h p xs q \<Longrightarrow> walk h (length xs) (if xs = [] then r else hd xs) = xs"
  by (induction xs arbitrary: p r) (auto split: option.splits)

lemma walk_dll: "dll h l xs \<Longrightarrow> walk h (unat (ll_size l)) (ll_head l) = xs"
  using walk_links [of h NULL xs NULL NULL] by (simp add: dll_def)

definition in_lists :: "'a lazy_data_scheme \<Rightarrow> ptr set" where
  "in_lists s = waiting s (walk (mrs s) (unat (ll_size (rlist s))) (ll_head (rlist s)) @
                           walk (mrs s) (unat (ll_size (vlist s))) (ll_head (vlist s)))"

lemma in_lists_inv: "lz_inv s ws vs \<Longrightarrow> in_lists s = waiting s (ws @ vs)"
  using walk_dll [of "mrs s" "rlist s" ws] walk_dll [of "mrs s" "vlist s" vs]
  by (simp add: in_lists_def lz_inv_def)

text \<open>
  The thread retires nodes, none twice; in between the other threads publish and clear hazard
  pointers and write to nodes, setting marks among others (their rotations do), while hazard
  pointer \<open>j\<close> stays on \<open>X\<close> and nobody writes the key of \<open>X\<close>.
\<close>

definition env_ok :: "ptr \<Rightarrow> nat \<Rightarrow> 'a lazy_data_scheme \<Rightarrow> ptr list \<Rightarrow> node_heap \<Rightarrow> bool" where
  "env_ok X j s hp no \<longleftrightarrow>
     length hp = length (HP s) \<and> hp ! j = X \<and> (\<forall>p \<in> set hp. p \<noteq> NULL \<longrightarrow> nodes s p \<noteq> None) \<and>
     (\<forall>p. no p = None \<longleftrightarrow> nodes s p = None) \<and> (\<forall>p. marked s p \<longrightarrow> marked (s\<lparr>nodes := no\<rparr>) p) \<and>
     key_at (s\<lparr>nodes := no\<rparr>) X = key_at s X"

inductive lazy_run ::
  "(ptr \<Rightarrow> 'a lazy_data_scheme \<Rightarrow> 'a lazy_data_scheme option) \<Rightarrow> ptr \<Rightarrow> nat \<Rightarrow>
   'a lazy_data_scheme \<Rightarrow> 'a lazy_data_scheme \<Rightarrow> bool" for retire X j where
  start: "lazy_run retire X j s s"
| retire: "lazy_run retire X j s s1 \<Longrightarrow> nodes s1 q \<noteq> None \<Longrightarrow> q \<notin> in_lists s1 \<Longrightarrow>
    retire q s1 = Some s2 \<Longrightarrow> lazy_run retire X j s s2"
| env: "lazy_run retire X j s s1 \<Longrightarrow> env_ok X j s1 hp no \<Longrightarrow>
    lazy_run retire X j s (s1\<lparr>HP := hp, nodes := no\<rparr>)"

locale lazy_scheme =
  fixes retire :: "ptr \<Rightarrow> 'a lazy_data_scheme \<Rightarrow> 'a lazy_data_scheme option"
  assumes retire_law: "lz_inv s ws vs \<Longrightarrow> nodes s q \<noteq> None \<Longrightarrow> q \<notin> waiting s (ws @ vs) \<Longrightarrow>
    retire q s = Some s' \<Longrightarrow> \<exists>ws' vs'. retire_ok s ws vs q s' ws' vs'"
begin

lemma run_protects:
  assumes "lazy_run retire X j s s'"
  shows "lz_inv s ws vs \<Longrightarrow> protects s vs X j \<Longrightarrow>
    \<exists>ws' vs'. lz_inv s' ws' vs' \<and> protects s' vs' X j \<and> key_at s' X = key_at s X \<and>
      (X \<in> waiting s (ws @ vs) \<longrightarrow> X \<in> waiting s' (ws' @ vs'))"
  using assms
proof (induction rule: lazy_run.induct)
  case start
  then show ?case by blast
next
  case (retire s s1 q s2)
  then obtain ws1 vs1 where i1: "lz_inv s1 ws1 vs1" "protects s1 vs1 X j" "key_at s1 X = key_at s X"
    "X \<in> waiting s (ws @ vs) \<longrightarrow> X \<in> waiting s1 (ws1 @ vs1)" by blast
  have "q \<notin> waiting s1 (ws1 @ vs1)" using retire.hyps(3) in_lists_inv [OF i1(1)] by simp
  from retire_law [OF i1(1) retire.hyps(2) this retire.hyps(4)] obtain ws2 vs2 where
    "retire_ok s1 ws1 vs1 q s2 ws2 vs2" by blast
  then show ?case using i1(2-4) unfolding retire_ok_def
    by (intro exI [of _ ws2] exI [of _ vs2]) (auto simp del: waiting_append)
next
  case (env s s1 hp no)
  then obtain ws1 vs1 where i1: "lz_inv s1 ws1 vs1" "protects s1 vs1 X j" "key_at s1 X = key_at s X"
    "X \<in> waiting s (ws @ vs) \<longrightarrow> X \<in> waiting s1 (ws1 @ vs1)" by blast
  let ?s2 = "s1\<lparr>HP := hp, nodes := no\<rparr>"
  have e: "length hp = length (HP s1)" "hp ! j = X" "\<forall>p \<in> set hp. p \<noteq> NULL \<longrightarrow> nodes s1 p \<noteq> None"
    "\<forall>p. no p = None \<longleftrightarrow> nodes s1 p = None" "\<forall>p. marked s1 p \<longrightarrow> marked (s1\<lparr>nodes := no\<rparr>) p"
    "key_at (s1\<lparr>nodes := no\<rparr>) X = key_at s1 X" using env.hyps(2) by (auto simp: env_ok_def)
  have "lz_inv ?s2 ws1 vs1"
    using i1(1) e(1,3,4) by (simp add: lz_inv_def retired_def wrappers_mapped_def hazards_def)
  moreover have "protects ?s2 vs1 X j"
    using i1(2) e(1,2,5) mark_guard_cong [of vs1 ?s2 s1 X]
    by (simp add: protects_def marked_def)
  moreover have "key_at ?s2 X = key_at s X" using e(6) i1(3) by (simp add: key_at_def)
  moreover have "waiting ?s2 = waiting s1" by (simp add: fun_eq_iff waiting_def)
  ultimately show ?case using i1(4) by (intro exI [of _ ws1] exI [of _ vs1]) simp
qed

lemma never_frees_protected:
  assumes inv: "lz_inv s ws vs" and X: "X \<noteq> NULL" "j < length (HP s)" "HP s ! j = X" "X \<notin> in_lists s"
    and runs: "lazy_run retire X j s s1" "lazy_run retire X j s1 s2"
  shows "key_at s2 X = key_at s X \<and> (X \<in> in_lists s1 \<longrightarrow> X \<in> in_lists s2)"
proof -
  have "X \<notin> actual (mrs s) ` set vs" using X(4) in_lists_inv [OF inv] by (auto simp: waiting_def)
  then have "mark_guard s (unat (HP_cur s)) (length (HP s)) vs X j" by (intro mark_guardI) auto
  then have "protects s vs X j" using X by (simp add: protects_def)
  from run_protects [OF runs(1) inv this] obtain ws1 vs1 where
    s1: "lz_inv s1 ws1 vs1" "protects s1 vs1 X j" "key_at s1 X = key_at s X" by blast
  from run_protects [OF runs(2) s1(1,2)] obtain ws2 vs2 where
    "lz_inv s2 ws2 vs2" "key_at s2 X = key_at s1 X"
    "X \<in> waiting s1 (ws1 @ vs1) \<longrightarrow> X \<in> waiting s2 (ws2 @ vs2)" by blast
  then show ?thesis using s1 in_lists_inv [of s1 ws1 vs1] in_lists_inv [of s2 ws2 vs2] by simp
qed

end

lemma push_room:
  assumes "lz_inv s ws vs" "lz_push q s = Some s'"
  shows "fst (ssalloc_alloc 1 (of_nat MR_NODE_SIZE) (alloc s)) \<noteq> NULL"
proof
  assume *: "fst (ssalloc_alloc 1 (of_nat MR_NODE_SIZE) (alloc s)) = NULL"
  have "mrs s NULL = None" using assms(1) by (simp add: lz_inv_def retired_def wrappers_mapped_def)
  from new_wrapper_exhausted [OF this *] have "new_wrapper q s = None" .
  then have "lz_push q s = None" by (simp add: lz_push_def)
  with assms(2) show False by simp
qed

interpretation lz: lazy_scheme lz_free_node_later
proof
  fix s s' :: "'a lazy_data_scheme" and ws vs q
  assume inv: "lz_inv s ws vs" and q: "nodes s q \<noteq> None" "q \<notin> waiting s (ws @ vs)"
    and run: "lz_free_node_later q s = Some s'"
  obtain s1 where "lz_push q s = Some s1"
    using run by (cases "lz_push q s") (auto simp: lz_free_node_later_def)
  from push_room [OF inv this] have room: "fst (ssalloc_alloc 1 (of_nat MR_NODE_SIZE) (alloc s)) \<noteq> NULL" .
  obtain s2 ws' vs' where "lz_free_node_later q s = Some s2" "retire_ok s ws vs q s2 ws' vs'"
    by (rule lz_retire_ok [OF inv q room])
  then show "\<exists>ws' vs'. retire_ok s ws vs q s' ws' vs'" using run by auto
qed

section \<open>A scan of both lists\<close>

lemma two_sweeps_inv:
  assumes inv: "lz_inv s ws vs" and kr: "keep_test keep_r verdict reads" and hz: "set plist = hazards s"
    and ks: "ks = rev (kept (keeps verdict reads s) 0 (rev ws))"
    and fs: "fs = reclaimed (keeps verdict reads s) 0 (rev ws)"
  obtains s' where "two_sweeps keep_r (hazard_test plist) s = Some s'"
    "lz_inv s' ks (filter (protected s) vs)" "HP s' = HP s" "nthreads s' = nthreads s"
    "nodes s' = poison (actual (mrs s) ` (set fs \<union> {v \<in> set vs. \<not> protected s v})) (nodes s)"
    "alloc s' = free_pairs (with_actual (mrs s) (fs @ rev (filter (\<lambda>v. \<not> protected s v) vs))) (alloc s)"
    "actual (mrs s') = actual (mrs s)" "thread_index s' = thread_index s"
proof -
  have d: "dll (mrs s) (rlist s) ws" "dll (mrs s) (vlist s) vs" and r: "retired s (ws @ vs)"
    using inv by (simp_all add: lz_inv_def)
  have dist: "distinct (ws @ vs)" and mapped: "\<forall>w \<in> set ws \<union> set vs. nodes s (actual (mrs s) w) \<noteq> None"
    using r by (auto simp: retired_def)
  let ?fv = "rev (filter (\<lambda>v. \<not> protected s v) vs)"
  have pre: "dll (mrs s) init []" "set ws \<inter> set [] = {}" "length ws + length ([] :: ptr list) < 2 ^ 32"
    "\<forall>w \<in> set ws. nodes s (actual (mrs s) w) \<noteq> None"
    using lz_length [OF inv] mapped by auto
  obtain rl h where sw1: "sweep_loop keep_r (rlist s) init (0 :: u32) s = Some (rl, of_nat (length ks),
       s\<lparr>mrs := h, nodes := poison (actual (mrs s) ` set fs) (nodes s),
         alloc := free_pairs (with_actual (mrs s) fs) (alloc s), tick := tick s + reads * length ws\<rparr>)"
    and d1: "dll h rl ks" and t1: "touches (set ws) (mrs s) h"
    using keep_test.sweep_loop_correct [OF kr d(1) pre(1,2,3,4) refl refl, of 0] unfolding ks fs by auto
  define s1 where "s1 = s\<lparr>nodes := poison (actual (mrs s) ` set fs) (nodes s), mrs := h,
         alloc := free_pairs (with_actual (mrs s) fs) (alloc s), tick := tick s + reads * length ws, rlist := rl\<rparr>"
  have f1: "mrs s1 = h" "HP s1 = HP s" "vlist s1 = vlist s" "tick s1 = tick s + reads * length ws"
    "nodes s1 = poison (actual (mrs s) ` set fs) (nodes s)" "alloc s1 = free_pairs (with_actual (mrs s) fs) (alloc s)"
    by (simp_all add: s1_def)
  have act1: "actual h = actual (mrs s)" by (rule touches_actual [OF t1])
  have k: "keeps (\<lambda>_ _ a _. ssearch plist a) 0 s1 = (\<lambda>_. protected s)"
    by (intro ext) (simp add: keeps_def protected_def hz f1 act1)
  have fws: "set fs \<subseteq> set ws" "distinct fs" "set ks = set ws - set fs" "distinct ks"
    using reclaimed_subset [of "keeps verdict reads s" 0 "rev ws"] distinct_reclaimed [of "rev ws"]
      sweep_set [of "keeps verdict reads s" 0 "rev ws"] sweep_disjoint [of "rev ws" "keeps verdict reads s" 0]
      distinct_kept [of "rev ws"] dist by (auto simp: ks fs)
  have pre2: "dll (mrs s1) (vlist s) vs" "dll (mrs s1) init []" "set vs \<inter> set [] = {}"
    "length vs + length ([] :: ptr list) < 2 ^ 32" "\<forall>w \<in> set vs. nodes s1 (actual (mrs s1) w) \<noteq> None"
    using touches_dll [OF t1, of vs] d(2) dist lz_length [OF inv] mapped by (auto simp: f1 act1)
  obtain vl h' where sw2: "sweep_loop (hazard_test plist) (vlist s) init (of_nat (length ks) :: u32) s1 =
      Some (vl, of_nat (length ks) + of_nat (length (filter (protected s) (rev vs))),
       s1\<lparr>mrs := h', nodes := poison (actual (mrs s1) ` set ?fv) (nodes s1),
         alloc := free_pairs (with_actual (mrs s1) ?fv) (alloc s1), tick := tick s1\<rparr>)"
    and d2: "dll h' vl (rev (filter (protected s) (rev vs)))" and t2: "touches (set vs) (mrs s1) h'"
    using hazard_keep.sweep_loop_correct [OF pre2 refl refl, of plist "of_nat (length ks)"]
    unfolding k sweep_const by (auto simp: rev_filter)
  define s2 where "s2 = s1\<lparr>mrs := h', nodes := poison (actual (mrs s1) ` set ?fv) (nodes s1),
         alloc := free_pairs (with_actual (mrs s1) ?fv) (alloc s1), tick := tick s1,
         vlist := vl, rcount := of_nat (length ks) + of_nat (length (filter (protected s) (rev vs)))\<rparr>"
  let ?vs = "filter (protected s) vs"
  have f2: "mrs s2 = h'" "HP s2 = HP s" "vlist s2 = vl" "rlist s2 = rl" "nthreads s2 = nthreads s"
    "thread_index s2 = thread_index s" "HP_cur s2 = HP_cur s" "rcount s2 = of_nat (length ks + length ?vs)"
    by (simp_all add: s2_def s1_def)
  have t: "touches (set ws \<union> set vs) (mrs s) h'" by (rule touches_comp [OF t1 t2 [unfolded f1]]) auto
  have act: "actual h' = actual (mrs s)" by (rule touches_actual [OF t])
  have no: "nodes s2 = poison (actual (mrs s) ` (set fs \<union> set ?fv)) (nodes s)"
    by (simp add: s2_def f1 act1 poison_poison image_Un Un_commute)
  have al: "alloc s2 = free_pairs (with_actual (mrs s) (fs @ ?fv)) (alloc s)"
    by (simp add: s2_def f1 act1 with_actual_def free_pairs_append [symmetric])
  have "set vs \<inter> set ks = {}" using fws dist by auto
  then have d1': "dll h' rl ks" using touches_dll [OF t2, of ks] d1 by (simp add: f1)
  have d2': "dll h' vl ?vs" using d2 by (simp add: rev_filter)
  have "retired s2 (ks @ ?vs)"
    by (rule retired_release [OF r _ _ _ al no]) (use fws dist t in \<open>auto simp: f2\<close>)
  moreover have "distinct (map (actual h') (ks @ ?vs))"
  proof -
    have "distinct (map (actual (mrs s)) (ws @ vs))" using inv by (simp add: lz_inv_def)
    then have "inj_on (actual (mrs s)) (set (ws @ vs))" by (simp only: distinct_map)
    then have "inj_on (actual (mrs s)) (set (ks @ ?vs))" by (rule inj_on_subset) (use fws in auto)
    then show ?thesis unfolding act distinct_map using fws dist by auto
  qed
  moreover have "unat (rcount s2) = length ks + length ?vs"
  proof -
    have "length ks \<le> length ws" using kept_length_le [of "keeps verdict reads s" 0 "rev ws"] by (simp add: ks)
    moreover have "length ?vs \<le> length vs" by (rule length_filter_le)
    moreover have "length (ws @ vs) \<le> 2 ^ 30" by (rule retired_length [OF r])
    ultimately have "length ks + length ?vs \<le> 2 ^ 30" unfolding length_append by linarith
    then show ?thesis unfolding f2 by (intro unat_of_nat_less) simp
  qed
  ultimately have "lz_inv s2 ks ?vs"
    using inv d1' d2' no by (simp add: lz_inv_def f2 hazards_def)
  moreover have "two_sweeps keep_r (hazard_test plist) s = Some s2"
    using sw1 sw2 by (simp add: two_sweeps_def s1_def [symmetric] s2_def)
  ultimately show ?thesis using no al act
    by (intro that [of s2]) (simp_all add: f2)
qed

lemma lz_collect:
  assumes "lz_inv s ws vs"
  obtains plist where "collect_hps (unat (smr_H s)) 0 (HP s) [] = Some plist" "set plist = hazards s"
  using collect_hps_Some [of 0 "unat (smr_H s)" "HP s" "[]"] lz_H [OF assms]
  by (auto simp: hazards_def)

section \<open>Properties\<close>

text \<open>A scan of src/smr_lazy.c returns; it keeps in \<open>rlist\<close> what is too young or protected and in
  \<open>vlist\<close> what is protected, and releases everything else.\<close>

theorem lz_scan_releases:
  assumes "lz_inv s ws vs"
  shows "\<exists>s'. lz_scan s = Some s' \<and>
    lz_inv s' (rev (kept (unsafe_at s) 0 (rev ws))) (filter (protected s) vs) \<and>
    nodes s' = poison (actual (mrs s) `
      (set (reclaimed (unsafe_at s) 0 (rev ws)) \<union> {v \<in> set vs. \<not> protected s v})) (nodes s)"
proof -
  obtain plist where p: "collect_hps (unat (smr_H s)) 0 (HP s) [] = Some plist" "set plist = hazards s"
    by (rule lz_collect [OF assms])
  have k: "keeps (\<lambda>clk t a cr. \<not> old_enough_at (clk t) cr \<or> ssearch plist a) 1 s = unsafe_at s"
    by (intro ext) (simp add: keeps_def unsafe_at_def protected_def p(2))
  obtain s' where "two_sweeps (young_or_hazard_test plist) (hazard_test plist) s = Some s'"
    "lz_inv s' (rev (kept (unsafe_at s) 0 (rev ws))) (filter (protected s) vs)"
    "HP s' = HP s" "nthreads s' = nthreads s"
    "nodes s' = poison (actual (mrs s) ` (set (reclaimed (unsafe_at s) 0 (rev ws)) \<union> {v \<in> set vs. \<not> protected s v})) (nodes s)"
    "alloc s' = free_pairs (with_actual (mrs s) (reclaimed (unsafe_at s) 0 (rev ws) @ rev (filter (\<lambda>v. \<not> protected s v) vs))) (alloc s)"
    "actual (mrs s') = actual (mrs s)" "thread_index s' = thread_index s"
    by (rule two_sweeps_inv [OF assms young_keep.keep_test_axioms [of plist] p(2) refl refl, unfolded k])
  then show ?thesis using p(1) by (simp add: lz_scan_def)
qed

text \<open>C17: In the lazy scheme of src/smr_lazy.c, a node on which one hazard pointer stays from before
  its retirement is never released by any sequence of retirements, whatever the other hazard
  pointers do in between: its key is not poisoned, and once in the lists it stays in them.\<close>

theorem lz_never_frees_protected:
  assumes "lz_inv s ws vs" "X \<noteq> NULL" "j < length (HP s)" "HP s ! j = X" "X \<notin> in_lists s"
    and "lazy_run lz_free_node_later X j s s1" "lazy_run lz_free_node_later X j s1 s2"
  shows "key_at s2 X = key_at s X \<and> (X \<in> in_lists s1 \<longrightarrow> X \<in> in_lists s2)"
  by (rule lz.never_frees_protected [OF assms])

text \<open>Every retirement of src/smr_lazy.c returns while wrappers are available, keeps the lists
  consistent with \<open>rcount\<close> and lets \<open>vlist\<close> grow by at most one node beyond H + 1.\<close>

theorem lz_free_node_later_returns:
  assumes "lz_inv s ws vs" "nodes s q \<noteq> None" "q \<notin> in_lists s"
    and "fst (ssalloc_alloc 1 (of_nat MR_NODE_SIZE) (alloc s)) \<noteq> NULL"
  shows "\<exists>s' ws' vs'. lz_free_node_later q s = Some s' \<and> lz_inv s' ws' vs' \<and>
    in_lists s' \<subseteq> insert q (in_lists s) \<and> length vs' \<le> Suc (max (length vs) (length (HP s)))"
proof -
  have "q \<notin> waiting s (ws @ vs)" using assms(3) in_lists_inv [OF assms(1)] by simp
  from lz_retire_ok [OF assms(1,2) this assms(4)] obtain s' ws' vs' where
    s': "lz_free_node_later q s = Some s'" "retire_ok s ws vs q s' ws' vs'"
    "length vs' \<le> max (Suc (length vs)) (Suc (length (HP s)))" .
  moreover have "lz_inv s' ws' vs'" using s'(2) by (simp add: retire_ok_def)
  ultimately show ?thesis using in_lists_inv [OF assms(1)] in_lists_inv [of s' ws' vs']
    by (intro exI [of _ s'] exI [of _ ws'] exI [of _ vs']) (simp add: retire_ok_def max_Suc_Suc)
qed


section \<open>A scan undoes the protection\<close>

text \<open>A sequence of retirements.\<close>

fun retire_all ::
  "(ptr \<Rightarrow> 'a lazy_data_scheme \<Rightarrow> 'a lazy_data_scheme option) \<Rightarrow> ptr list \<Rightarrow>
   'a lazy_data_scheme \<Rightarrow> 'a lazy_data_scheme option" where
  "retire_all retire [] s = Some s"
| "retire_all retire (q # qs) s = do { s1 \<leftarrow> retire q s; retire_all retire qs s1 }"

text \<open>A thread with empty lists, among two; the other thread's hazard pointer is on node 96, and every
  look at the clock takes 50 ms.\<close>

definition gap_mem :: mem where
  "gap_mem = \<lparr>nodes = ex_nodes,
     mrs = (\<lambda>p. if p = 0 then None
                else Some \<lparr>actual_node = 0, created = \<lparr>tv_sec = 0, tv_usec = 0\<rparr>, mr_prev = 0, mr_next = 0\<rparr>),
     alloc = ex_alloc\<lparr>alloc_next := (\<lambda>_. 0)\<rparr>, HP = [0, 0, 96, 0],
     clock = (\<lambda>t. \<lparr>tv_sec = int t div 20, tv_usec = (int t mod 20) * 50000\<rparr>), tick = 0\<rparr>"

definition gap_lz :: lazy_data where
  "gap_lz = mem.extend gap_mem \<lparr>rlist = init, vlist = init, rcount = 0, nthreads = 2, thread_index = 0,
     free_calls = 0, HP_cur = 0\<rparr>"

lemma gap_lz_inv: "lz_inv gap_lz [] []"
proof -
  have "arena_inv 1 MR_NODE_SIZE (ex_alloc\<lparr>alloc_next := (\<lambda>_. 0)\<rparr>) {}"
    by (simp add: arena_inv_def arena_ok_def in_arena_def free_queue_def ex_alloc_def MR_NODE_SIZE_def
        ssalloc_size_def SSALLOC_SIZE_BIG_def)
  then show ?thesis
    by (simp add: lz_inv_def dll_def init_def retired_def wrappers_mapped_def gap_lz_def gap_mem_def
        mem.defs K_def hazards_def) (simp add: ex_nodes_def ex_alloc_def)
qed

text \<open>The guarantee of src/smr_lazy.c does not survive a scan, which the client runs when an allocation
  fails: from empty lists, the hazard pointer of another thread being on node 96 throughout, six
  retirements, a scan (which keeps 96) and four more retirements release it. The scan shortens
  \<open>vlist\<close> without marking what it keeps, so 96 reaches the tail unmarked.\<close>

theorem lz_scan_drops_guard:
  "lz_inv gap_lz [] [] \<and> HP gap_lz ! 2 = 96 \<and>
   (case retire_all lz_free_node_later [96, 160, 192, 224, 256, 288] gap_lz of None \<Rightarrow> False | Some s1 \<Rightarrow>
      key_at s1 96 = Some 7 \<and>
      (case lz_scan s1 of None \<Rightarrow> False | Some s2 \<Rightarrow>
         key_at s2 96 = Some 7 \<and> 96 \<in> in_lists s2 \<and>
         (case retire_all lz_free_node_later [320, 352, 384, 416] s2 of None \<Rightarrow> False | Some s3 \<Rightarrow>
            HP s3 ! 2 = 96 \<and> key_at s3 96 = Some POISON)))"
  (is "_ \<and> _ \<and> ?run")
proof -
  have "?run" by code_simp
  then show ?thesis using gap_lz_inv by (simp add: gap_lz_def gap_mem_def mem.defs)
qed

section \<open>Witnesses\<close>

definition ex_lz :: lazy_data where
  "ex_lz = \<lparr>nodes = ex_nodes, mrs = ex_mrs, alloc = ex_alloc, HP = [0, 0, 128, 0],
     clock = (\<lambda>_. \<lparr>tv_sec = 10, tv_usec = 199999\<rparr>), tick = 0,
     rlist = ex_list, vlist = init, rcount = 2, nthreads = 2, thread_index = 0, free_calls = 0, HP_cur = 0\<rparr>"

lemma ex_lz_sel [simp]:
  "nodes ex_lz = ex_nodes" "mrs ex_lz = ex_mrs" "alloc ex_lz = ex_alloc" "HP ex_lz = [0, 0, 128, 0]"
  "clock ex_lz = (\<lambda>_. \<lparr>tv_sec = 10, tv_usec = 199999\<rparr>)" "tick ex_lz = 0"
  "rlist ex_lz = ex_list" "vlist ex_lz = init" "rcount ex_lz = 2" "nthreads ex_lz = 2" "HP_cur ex_lz = 0"
  by (simp_all add: ex_lz_def)

lemma ex_lz_inv: "lz_inv ex_lz [4160, 4096] []"
  using ex_retired [of ex_lz] ex_dll by (simp add: lz_inv_def K_def hazards_def) (simp add: ex_nodes_def)

lemma ex_lz_in_lists: "in_lists ex_lz = {96, 64}"
  using in_lists_inv [OF ex_lz_inv] by simp

lemma lz_scan_releases_witness:
  "\<exists>s'. lz_scan ex_lz = Some s' \<and> lz_inv s' [4160] []"
proof -
  have "unsafe_at ex_lz j 4160" "\<not> unsafe_at ex_lz j 4096" for j
    by (simp_all add: unsafe_at_def protected_def hazards_def old_enough_at_def elapsed_msec_def Let_def
        SLEEP_AMOUNT_def MARGIN_def word_le_nat_alt)
  then show ?thesis using lz_scan_releases [OF ex_lz_inv] by auto
qed

lemma lz_never_frees_protected_witness:
  "\<exists>s1. lz_free_node_later 128 ex_lz = Some s1 \<and> key_at s1 128 = Some 7 \<and> 128 \<in> in_lists s1"
proof -
  have q: "nodes ex_lz 128 \<noteq> None" "128 \<notin> waiting ex_lz ([4160, 4096] @ [])"
    by (simp_all add: ex_nodes_def)
  have room: "fst (ssalloc_alloc 1 (of_nat MR_NODE_SIZE) (alloc ex_lz)) \<noteq> NULL" by (simp add: ex_room')
  obtain s1 ws vs where s1: "lz_free_node_later 128 ex_lz = Some s1"
    "retire_ok ex_lz [4160, 4096] [] 128 s1 ws vs"
    "length vs \<le> max (Suc (length ([] :: ptr list))) (Suc (length (HP ex_lz)))"
    by (rule lz_retire_ok [OF ex_lz_inv q room])
  have run: "lazy_run lz_free_node_later 128 2 ex_lz s1"
    by (rule lazy_run.retire [where ?s1.0 = ex_lz and q = 128])
      (use q(1) s1(1) in \<open>simp_all add: ex_lz_in_lists lazy_run.start\<close>)
  have "key_at s1 128 = key_at ex_lz 128"
    using lz_never_frees_protected [OF ex_lz_inv, of 128 2 s1 s1] run
    by (simp add: ex_lz_in_lists lazy_run.start)
  moreover have "128 \<in> waiting s1 (ws @ vs)"
    using s1(2) unfolding retire_ok_def protects_def
    by (auto simp: mark_guard_def dest!: spec [of _ 128] spec [of _ 2])
  moreover have "lz_inv s1 ws vs" using s1(2) by (simp add: retire_ok_def)
  ultimately show ?thesis using s1(1) in_lists_inv [of s1 ws vs]
    by (simp add: key_at_def ex_nodes_def)
qed

lemma lz_free_node_later_returns_witness:
  "\<exists>s' ws' vs'. lz_free_node_later 160 ex_lz = Some s' \<and> lz_inv s' ws' vs' \<and>
     in_lists s' \<subseteq> insert 160 (in_lists ex_lz) \<and> length vs' \<le> Suc (max (length ([] :: ptr list)) (length (HP ex_lz)))"
  by (rule lz_free_node_later_returns [OF ex_lz_inv])
    (simp_all add: ex_room' ex_lz_in_lists, simp add: ex_nodes_def)

end
