(* ===== verification/Smr_Membar_Lazy.thy ===== *)
theory Smr_Membar_Lazy
  imports Smr_Lazy
begin

text \<open>
  The lazy scheme for readers with memory barriers, src/smr_membar_lazy.c: nodes need no age, so
  every retirement fills \<open>vlist\<close> up to H + 1 nodes and then does one rotation.
\<close>

section \<open>Thread data and operations\<close>

record membar_lazy_data = lazy_data +
  reclaimed_count :: u64

definition ml_init_global :: "u8 \<Rightarrow> 'a membar_lazy_data_scheme \<Rightarrow> 'a membar_lazy_data_scheme" where
  "ml_init_global n s = s\<lparr>HP := replicate (K * unat n) NULL\<rparr>"

definition ml_init_local :: "u8 \<Rightarrow> u8 \<Rightarrow> 'a membar_lazy_data_scheme \<Rightarrow> 'a membar_lazy_data_scheme" where
  "ml_init_local ti n s =
     s\<lparr>rlist := init, vlist := init, rcount := 0, thread_index := ucast ti, nthreads := ucast n,
       HP_cur := 0, reclaimed_count := 0\<rparr>"

text \<open>The text of \<open>rotation\<close> is that of src/smr_lazy.c.\<close>

definition ml_rotation :: "'a lazy_data_scheme \<Rightarrow> 'a lazy_data_scheme option" where
  "ml_rotation s = do {
     (vl, hc, freed, s1) \<leftarrow> rotate_vlist (vlist s) (HP_cur s) (smr_H s) s;
     Some (s1\<lparr>vlist := vl, HP_cur := hc, rcount := (if freed then rcount s1 - 1 else rcount s1)\<rparr>)
   }"

definition ml_push :: "ptr \<Rightarrow> 'a lazy_data_scheme \<Rightarrow> 'a lazy_data_scheme option" where
  "ml_push q s = do {
     (w, s1) \<leftarrow> new_wrapper q s;
     (rl, h) \<leftarrow> add_to_head (rlist s1) w (mrs s1);
     Some (s1\<lparr>mrs := h, rlist := rl, rcount := rcount s1 + 1\<rparr>)
   }"

definition ml_free_node_later :: "ptr \<Rightarrow> 'a lazy_data_scheme \<Rightarrow> 'a lazy_data_scheme option" where
  "ml_free_node_later n s = do {
     s1 \<leftarrow> ml_push n s;
     (rl, vl, s2) \<leftarrow> fill_vlist no_test (smr_H s1) (rlist s1) (vlist s1) s1;
     let s3 = s2\<lparr>rlist := rl, vlist := vl\<rparr>;
     if ll_size (vlist s3) > smr_H s3 then ml_rotation s3 else Some s3
   }"

definition ml_scan :: "'a lazy_data_scheme \<Rightarrow> 'a lazy_data_scheme option" where
  "ml_scan s = do {
     plist \<leftarrow> collect_hps (unat (smr_H s)) 0 (HP s) [];
     two_sweeps (hazard_test plist) (hazard_test plist) s
   }"

partial_function (option) ml_exit_loop ::
  "(nat \<Rightarrow> ptr list \<Rightarrow> ptr list) \<Rightarrow> nat \<Rightarrow> 'a lazy_data_scheme \<Rightarrow> 'a lazy_data_scheme option" where
  "ml_exit_loop yield n s =
     (if rcount s > 0 then do {
        s1 \<leftarrow> ml_scan s;
        ml_exit_loop yield (Suc n) (s1\<lparr>HP := yield n (HP s1)\<rparr>)
      } else Some s)"

declare ml_exit_loop.simps [code]

definition ml_thread_exit ::
  "(nat \<Rightarrow> ptr list \<Rightarrow> ptr list) \<Rightarrow> 'a lazy_data_scheme \<Rightarrow> 'a lazy_data_scheme option" where
  "ml_thread_exit yield s = do {
     hp \<leftarrow> clear_own_hps (unat (thread_index s)) 0 K (HP s);
     ml_exit_loop yield 0 (s\<lparr>HP := hp\<rparr>)
   }"

section \<open>Retirement\<close>

lemma ml_rotation_eq: "ml_rotation = lz_rotation"
  by (simp add: fun_eq_iff ml_rotation_def lz_rotation_def)

lemma ml_push_ok:
  assumes inv: "lz_inv s ws vs" and q: "nodes s q \<noteq> None" "q \<notin> waiting s (ws @ vs)"
    and room: "fst (ssalloc_alloc 1 (of_nat MR_NODE_SIZE) (alloc s)) \<noteq> NULL"
  obtains s' w where "ml_push q s = Some s'" "lz_inv s' (w # ws) vs" "actual (mrs s') w = q" "HP s' = HP s"
    "nthreads s' = nthreads s" "thread_index s' = thread_index s"
    "waiting s' ((w # ws) @ vs) = insert q (waiting s (ws @ vs))"
    "\<forall>X j. protects s vs X j \<longrightarrow> protects s' vs X j" "\<forall>X. key_at s' X = key_at s X"
proof -
  have r: "retired s (ws @ vs)" and d: "dll (mrs s) (rlist s) ws" "dll (mrs s) (vlist s) vs"
    and dist: "distinct (map (actual (mrs s)) (ws @ vs))"
    using inv by (simp_all add: lz_inv_def)
  have sub: "set ws \<subseteq> set (ws @ vs)" by simp
  obtain w s1 rl h where
    nw: "new_wrapper q s = Some (w, s1)" "add_to_head (rlist s) w (mrs s1) = Some (rl, h)"
    and dh: "dll h rl (w # ws)" and w: "w \<notin> set (ws @ vs)" "w \<noteq> NULL"
    and rh: "retired (s1\<lparr>mrs := h\<rparr>) (w # ws @ vs)"
    and fr: "\<forall>y. y \<noteq> w \<longrightarrow> y \<notin> set ws \<longrightarrow> h y = mrs s y" and act: "actual h w = q"
    and act': "\<forall>v. v \<noteq> w \<longrightarrow> actual h v = actual (mrs s) v \<and> created_at h v = created_at (mrs s) v"
    and s1: "s1 = s\<lparr>mrs := mrs s1, alloc := alloc s1\<rparr>" by (rule push_plain [OF r d(1) sub q(1) room])
  obtain a b where s1': "s1 = s\<lparr>mrs := a, alloc := b\<rparr>" using s1 by blast
  have fld: "rlist s1 = rlist s" "vlist s1 = vlist s" "rcount s1 = rcount s" "nodes s1 = nodes s" "HP s1 = HP s"
    "nthreads s1 = nthreads s" "thread_index s1 = thread_index s" "HP_cur s1 = HP_cur s"
    unfolding s1' by simp_all
  define s3 where "s3 = s1\<lparr>mrs := h, rlist := rl, rcount := rcount s1 + 1\<rparr>"
  have fld3: "rlist s3 = rl" "vlist s3 = vlist s" "rcount s3 = rcount s + 1" "nodes s3 = nodes s" "HP s3 = HP s"
    "nthreads s3 = nthreads s" "thread_index s3 = thread_index s" "HP_cur s3 = HP_cur s" "mrs s3 = h"
    by (simp_all add: s3_def fld)
  have dv: "dll h (vlist s) vs"
  proof -
    have "set ws \<inter> set vs = {}" using r by (simp add: retired_def)
    then have "links h NULL vs NULL = links (mrs s) NULL vs NULL"
      by (intro links_cong) (use fr w in auto)
    then show ?thesis using d(2) by (simp add: dll_def)
  qed
  have am: "map (actual h) (ws @ vs) = map (actual (mrs s)) (ws @ vs)" using act' w by auto
  have wt: "waiting s3 (ws @ vs) = waiting s (ws @ vs)"
    unfolding waiting_def fld3 by (rule image_cong) (use act' w in auto)
  have "retired s3 (w # ws @ vs)" using rh by (simp add: retired_def s3_def wrappers_mapped_def)
  moreover have "distinct (map (actual (mrs s3)) (w # ws @ vs))"
    using dist q(2) am act unfolding fld3 waiting_def
    by (simp only: list.map distinct.simps set_map [symmetric]) simp
  moreover have "unat (rcount s3) = length (w # ws) + length vs"
  proof -
    have "length (ws @ vs) \<le> 2 ^ 30" by (rule retired_length [OF r])
    then show ?thesis using inv by (simp add: fld3 lz_inv_def unat_succ)
  qed
  ultimately have inv3: "lz_inv s3 (w # ws) vs"
    using inv dh dv by (simp add: lz_inv_def fld3 hazards_def)
  have "\<forall>v \<in> set vs. actual (mrs s3) v = actual (mrs s) v" unfolding fld3 using act' w by auto
  then have pr: "protects s vs X j \<longrightarrow> protects s3 vs X j" for X j
    using mark_guard_cong [of vs s3 s X "unat (HP_cur s)" "length (HP s)" j]
    by (simp add: protects_def) (simp add: fld3 marked_def)
  show ?thesis
    using nw inv3 act wt pr
    by (intro that [of s3 w]) (auto simp: ml_push_def fld fld3 waiting_def key_at_def, simp add: s3_def fld)
qed

lemma ml_retire_ok:
  assumes inv: "lz_inv s ws vs" and q: "nodes s q \<noteq> None" "q \<notin> waiting s (ws @ vs)"
    and room: "fst (ssalloc_alloc 1 (of_nat MR_NODE_SIZE) (alloc s)) \<noteq> NULL"
  obtains s' ws' vs' where "ml_free_node_later q s = Some s'" "retire_ok s ws vs q s' ws' vs'"
    "length vs \<le> Suc (length (HP s)) \<longrightarrow> length vs' \<le> Suc (length (HP s))"
proof -
  obtain s1 w where push: "ml_push q s = Some s1" and inv1: "lz_inv s1 (w # ws) vs"
    and act1: "actual (mrs s1) w = q" and f1: "HP s1 = HP s" "nthreads s1 = nthreads s" "thread_index s1 = thread_index s"
      "waiting s1 ((w # ws) @ vs) = insert q (waiting s (ws @ vs))"
      "\<forall>X j. protects s vs X j \<longrightarrow> protects s1 vs X j" "\<forall>X. key_at s1 X = key_at s X"
    by (rule ml_push_ok [OF inv q room])
  obtain rl vl s2 us ps where
    s2: "fill_vlist no_test (smr_H s1) (rlist s1) (vlist s1) s1 = Some (rl, vl, s2)" "w # ws = us @ ps"
      "lz_ok s1 (w # ws) vs (s2\<lparr>rlist := rl, vlist := vl\<rparr>) us (ps @ vs)"
      "length vs \<le> Suc (length (HP s1)) \<longrightarrow> length (ps @ vs) \<le> Suc (length (HP s1))"
    by (rule fill_ok [OF ageless.clock_test_axioms inv1])
  let ?s3 = "s2\<lparr>rlist := rl, vlist := vl\<rparr>"
  have inv3: "lz_inv ?s3 us (ps @ vs)" using s2(3) by (simp add: lz_ok_def)
  have hp3: "HP ?s3 = HP s" using s2(3) f1(1) unfolding lz_ok_def by simp
  have run: "ml_free_node_later q s = (if ll_size (vlist ?s3) > smr_H ?s3 then lz_rotation ?s3 else Some ?s3)"
    using push s2(1) by (simp add: ml_free_node_later_def ml_rotation_eq Let_def)
  show ?thesis
  proof (cases "ll_size (vlist ?s3) > smr_H ?s3")
    case True
    then have "length (HP ?s3) < length (ps @ vs)" using lz_size [OF inv3] by simp
    from lz_rotation_ok [OF inv3 this] obtain s' vs' where s': "lz_rotation ?s3 = Some s'"
      "lz_ok ?s3 us (ps @ vs) s' us vs'" "length vs' \<le> length (ps @ vs)" .
    have "lz_ok s1 (w # ws) vs s' us vs'" by (rule lz_ok_trans [OF s2(3) s'(2)])
    from push_then_ok [OF f1 this] show ?thesis
      using run True s' s2(4) f1(1) by (intro that [of s' us vs']) auto
  next
    case False
    from push_then_ok [OF f1 s2(3)] show ?thesis
      using run False s2(4) f1(1) by (intro that [of ?s3 us "ps @ vs"]) auto
  qed
qed

interpretation ml: lazy_scheme ml_free_node_later
proof
  fix s s' :: "'a lazy_data_scheme" and ws vs q
  assume inv: "lz_inv s ws vs" and q: "nodes s q \<noteq> None" "q \<notin> waiting s (ws @ vs)"
    and run: "ml_free_node_later q s = Some s'"
  have room: "fst (ssalloc_alloc 1 (of_nat MR_NODE_SIZE) (alloc s)) \<noteq> NULL"
  proof
    assume *: "fst (ssalloc_alloc 1 (of_nat MR_NODE_SIZE) (alloc s)) = NULL"
    have "mrs s NULL = None" using inv by (simp add: lz_inv_def retired_def wrappers_mapped_def)
    from new_wrapper_exhausted [OF this *] have "new_wrapper q s = None" .
    then have "ml_free_node_later q s = None" by (simp add: ml_free_node_later_def ml_push_def)
    with run show False by simp
  qed
  obtain s2 ws' vs' where "ml_free_node_later q s = Some s2" "retire_ok s ws vs q s2 ws' vs'"
    "length vs \<le> Suc (length (HP s)) \<longrightarrow> length vs' \<le> Suc (length (HP s))"
    by (rule ml_retire_ok [OF inv q room])
  then show "\<exists>ws' vs'. retire_ok s ws vs q s' ws' vs'" using run by auto
qed

section \<open>Properties\<close>

text \<open>In src/smr_membar_lazy.c, too, a node on which one hazard pointer stays from before its
  retirement is never released by the rotations, although they look at one hazard pointer at a
  time and never at the whole array.\<close>

theorem ml_never_frees_protected:
  assumes "lz_inv s ws vs" "X \<noteq> NULL" "j < length (HP s)" "HP s ! j = X" "X \<notin> in_lists s"
    and "lazy_run ml_free_node_later X j s s1" "lazy_run ml_free_node_later X j s1 s2"
  shows "key_at s2 X = key_at s X \<and> (X \<in> in_lists s1 \<longrightarrow> X \<in> in_lists s2)"
  by (rule ml.never_frees_protected [OF assms])

text \<open>The verification list of src/smr_membar_lazy.c never exceeds H + 1 nodes, and every
  retirement returns while wrappers are available, releasing no node but a waiting one.\<close>

theorem ml_vlist_bound:
  assumes "lz_inv s ws vs" "length vs \<le> Suc (length (HP s))" "nodes s q \<noteq> None" "q \<notin> in_lists s"
    and "fst (ssalloc_alloc 1 (of_nat MR_NODE_SIZE) (alloc s)) \<noteq> NULL"
  shows "\<exists>s' ws' vs'. ml_free_node_later q s = Some s' \<and> lz_inv s' ws' vs' \<and>
    length vs' \<le> Suc (length (HP s')) \<and> in_lists s' \<subseteq> insert q (in_lists s)"
proof -
  have "q \<notin> waiting s (ws @ vs)" using assms(4) in_lists_inv [OF assms(1)] by simp
  from ml_retire_ok [OF assms(1,3) this assms(5)] obtain s' ws' vs' where
    s': "ml_free_node_later q s = Some s'" "retire_ok s ws vs q s' ws' vs'"
    "length vs \<le> Suc (length (HP s)) \<longrightarrow> length vs' \<le> Suc (length (HP s))" .
  moreover have "lz_inv s' ws' vs'" using s'(2) by (simp add: retire_ok_def)
  ultimately show ?thesis using assms(2) in_lists_inv [OF assms(1)] in_lists_inv [of s' ws' vs']
    by (intro exI [of _ s'] exI [of _ ws'] exI [of _ vs']) (simp add: retire_ok_def)
qed

section \<open>A scan undoes the protection\<close>

definition gap_ml :: membar_lazy_data where
  "gap_ml = lazy_data.extend gap_lz \<lparr>reclaimed_count = 0\<rparr>"

lemma gap_ml_inv: "lz_inv gap_ml [] []"
proof -
  have "arena_inv 1 MR_NODE_SIZE (ex_alloc\<lparr>alloc_next := (\<lambda>_. 0)\<rparr>) {}"
    by (simp add: arena_inv_def arena_ok_def in_arena_def free_queue_def ex_alloc_def MR_NODE_SIZE_def
        ssalloc_size_def SSALLOC_SIZE_BIG_def)
  then show ?thesis
    by (simp add: lz_inv_def dll_def init_def retired_def wrappers_mapped_def gap_ml_def gap_lz_def gap_mem_def
        lazy_data.defs mem.defs K_def hazards_def) (simp add: ex_nodes_def ex_alloc_def)
qed

text \<open>The guarantee of src/smr_membar_lazy.c does not survive a scan either: from empty lists, the
  hazard pointer of another thread being on node 96 throughout, five retirements, a scan and
  four more retirements release it.\<close>

theorem ml_scan_drops_guard:
  "lz_inv gap_ml [] [] \<and> HP gap_ml ! 2 = 96 \<and>
   (case retire_all ml_free_node_later [96, 160, 192, 224, 256] gap_ml of None \<Rightarrow> False | Some s1 \<Rightarrow>
      key_at s1 96 = Some 7 \<and>
      (case ml_scan s1 of None \<Rightarrow> False | Some s2 \<Rightarrow>
         key_at s2 96 = Some 7 \<and> 96 \<in> in_lists s2 \<and>
         (case retire_all ml_free_node_later [288, 320, 352, 384] s2 of None \<Rightarrow> False | Some s3 \<Rightarrow>
            HP s3 ! 2 = 96 \<and> key_at s3 96 = Some POISON)))"
  (is "_ \<and> _ \<and> ?run")
proof -
  have "?run" by code_simp
  then show ?thesis using gap_ml_inv by (simp add: gap_ml_def gap_lz_def gap_mem_def lazy_data.defs mem.defs)
qed

section \<open>Witnesses\<close>

lemma ml_never_frees_protected_witness:
  "\<exists>s1. ml_free_node_later 128 ex_lz = Some s1 \<and> key_at s1 128 = Some 7"
proof -
  have q: "nodes ex_lz 128 \<noteq> None" "128 \<notin> waiting ex_lz ([4160, 4096] @ [])"
    by (simp_all add: ex_nodes_def)
  have room: "fst (ssalloc_alloc 1 (of_nat MR_NODE_SIZE) (alloc ex_lz)) \<noteq> NULL" by (simp add: ex_room')
  obtain s1 ws vs where s1: "ml_free_node_later 128 ex_lz = Some s1"
    "retire_ok ex_lz [4160, 4096] [] 128 s1 ws vs"
    "length ([] :: ptr list) \<le> Suc (length (HP ex_lz)) \<longrightarrow> length vs \<le> Suc (length (HP ex_lz))"
    by (rule ml_retire_ok [OF ex_lz_inv q room])
  have run: "lazy_run ml_free_node_later 128 2 ex_lz s1"
    by (rule lazy_run.retire [where ?s1.0 = ex_lz and q = 128])
      (use q(1) s1(1) in \<open>simp_all add: ex_lz_in_lists lazy_run.start\<close>)
  have "key_at s1 128 = key_at ex_lz 128"
    using ml_never_frees_protected [OF ex_lz_inv, of 128 2 s1 s1] run
    by (simp add: ex_lz_in_lists lazy_run.start)
  then show ?thesis using s1(1) by (simp add: key_at_def ex_nodes_def)
qed

lemma ml_vlist_bound_witness:
  "\<exists>s' ws' vs'. ml_free_node_later 160 ex_lz = Some s' \<and> lz_inv s' ws' vs' \<and>
    length vs' \<le> Suc (length (HP s')) \<and> in_lists s' \<subseteq> insert 160 (in_lists ex_lz)"
  by (rule ml_vlist_bound [OF ex_lz_inv])
    (simp_all add: ex_room' ex_lz_in_lists, simp add: ex_nodes_def)

end
