(* ===== verification/Qsbr.thy ===== *)
theory Qsbr
  imports Retire
begin

text \<open>
  Quiescent-state-based reclamation, src/qsbr.c: three epochs, a limbo list per thread and epoch,
  and a global epoch that advances when every other active thread has reached it. The theory
  follows the operations of one thread; the interleaving of threads is studied in
  \<open>Epoch_Protocol\<close>. The wrappers come from the thread's own allocator.
\<close>

section \<open>State\<close>

definition N_EPOCHS :: nat where "N_EPOCHS = 3"

text \<open>\<open>struct qsbr_data\<close>, shared, one per thread; \<open>struct qsbr_aux_data\<close> and the globals are in the
  state. \<open>qg_lock\<close>: another thread holds the update lock.\<close>

record qsbr_data =
  limbo_list :: "ptr list"
  entries_since_update :: int
  epoch :: int
  in_critical :: int
  q_rcount :: int

record qsbr_state = mem +
  qg_lock :: bool
  global_epoch :: int
  qd :: "qsbr_data list"
  qad_index :: u64
  qad_nthreads :: u64

definition me :: "'a qsbr_state_scheme \<Rightarrow> nat" where
  "me s = unat (qad_index s)"

definition upd_me :: "(qsbr_data \<Rightarrow> qsbr_data) \<Rightarrow> 'a qsbr_state_scheme \<Rightarrow> 'a qsbr_state_scheme" where
  "upd_me f s = s\<lparr>qd := (qd s)[me s := f (qd s ! me s)]\<rparr>"

section \<open>Initialisation\<close>

definition q_init_local :: "u8 \<Rightarrow> u8 \<Rightarrow> 'a qsbr_state_scheme \<Rightarrow> 'a qsbr_state_scheme" where
  "q_init_local ti n s = s\<lparr>qad_index := ucast ti, qad_nthreads := ucast n\<rparr>"

definition q_init_global :: "u8 \<Rightarrow> 'a qsbr_state_scheme \<Rightarrow> 'a qsbr_state_scheme" where
  "q_init_global n s =
     s\<lparr>qd := replicate (unat n) \<lparr>limbo_list = replicate N_EPOCHS NULL, entries_since_update = 0,
                                   epoch = 0, in_critical = 1, q_rcount = 0\<rparr>,
       global_epoch := 1, qg_lock := False\<rparr>"

definition q_reinitialize :: "'a qsbr_state_scheme \<Rightarrow> 'a qsbr_state_scheme" where
  "q_reinitialize s =
     s\<lparr>qd := map (\<lambda>i. if i < unat (qad_nthreads s)
                        then (qd s ! i)\<lparr>epoch := 0, in_critical := 1, q_rcount := 0\<rparr> else qd s ! i)
                 [0..<length (qd s)],
       global_epoch := 1, qg_lock := False\<rparr>"

section \<open>Advancing the epoch\<close>

text \<open>The loop over the threads: does one of them hold back the epoch?\<close>

fun all_advanced :: "nat \<Rightarrow> nat \<Rightarrow> nat \<Rightarrow> int \<Rightarrow> qsbr_data list \<Rightarrow> bool option" where
  "all_advanced 0 i m e ds = Some True"
| "all_advanced (Suc n) i m e ds =
     (if i < length ds then
        if in_critical (ds ! i) = 1 \<and> epoch (ds ! i) \<noteq> e \<and> i \<noteq> m then Some False
        else all_advanced n (Suc i) m e ds
      else None)"

definition update_epoch :: "'a qsbr_state_scheme \<Rightarrow> (bool \<times> 'a qsbr_state_scheme) option" where
  "update_epoch s =
     (if qg_lock s then Some (False, s)
      else do {
        let curr = global_epoch s;
        ok \<leftarrow> all_advanced (unat (qad_nthreads s)) 0 (me s) curr (qd s);
        Some (ok, if ok then s\<lparr>global_epoch := (curr + 1) mod int N_EPOCHS\<rparr> else s)
      })"

section \<open>Callbacks and quiescent states\<close>

partial_function (option) callbacks_loop :: "ptr \<Rightarrow> u64 \<Rightarrow> 'a mem_scheme \<Rightarrow> (u64 \<times> 'a mem_scheme) option" where
  "callbacks_loop p num m =
     (if p \<noteq> NULL then do {
        c \<leftarrow> mrs m p;
        m1 \<leftarrow> release p m;
        callbacks_loop (mr_next c) (num + 1) m1
      } else Some (num, m))"

declare callbacks_loop.simps [code]

definition process_callbacks :: "nat \<Rightarrow> 'a qsbr_state_scheme \<Rightarrow> 'a qsbr_state_scheme option" where
  "process_callbacks e s = do {
     (num, s1) \<leftarrow> callbacks_loop (limbo_list (qd s ! me s) ! e) 0 s;
     Some (upd_me (\<lambda>t. t\<lparr>limbo_list := (limbo_list t)[e := NULL], q_rcount := q_rcount t - uint num\<rparr>) s1)
   }"

text \<open>Catching up with the global epoch: its old limbo list is processed.\<close>

definition enter_epoch :: "'a qsbr_state_scheme \<Rightarrow> 'a qsbr_state_scheme option" where
  "enter_epoch s =
     (let e = global_epoch s in
      if epoch (qd s ! me s) \<noteq> e then do {
        s1 \<leftarrow> process_callbacks (nat e) s;
        Some (upd_me (\<lambda>t. t\<lparr>epoch := e\<rparr>) s1)
      } else Some s)"

text \<open>A blocking quiescent state retries after a \<open>sched_yield\<close>, in which the other threads run:
  \<open>env n\<close> is their effect the n-th time.\<close>

partial_function (option) quiescent_state ::
  "(nat \<Rightarrow> 'a qsbr_state_scheme \<Rightarrow> 'a qsbr_state_scheme) \<Rightarrow> bool \<Rightarrow> nat \<Rightarrow>
   'a qsbr_state_scheme \<Rightarrow> 'a qsbr_state_scheme option" where
  "quiescent_state env blocking n s =
     (if me s \<ge> length (qd s) then None
      else if epoch (qd s ! me s) \<noteq> global_epoch s then enter_epoch s
      else do {
        let orig = in_critical (qd s ! me s);
        (res, s1) \<leftarrow> update_epoch (upd_me (\<lambda>t. t\<lparr>in_critical := 0\<rparr>) s);
        let s2 = upd_me (\<lambda>t. t\<lparr>in_critical := orig\<rparr>) s1;
        if res then enter_epoch s2
        else if blocking then quiescent_state env blocking (Suc n) (env n s2)
        else Some s2
      })"

declare quiescent_state.simps [code]

section \<open>Retirement and exit\<close>

text \<open>Without a free wrapper the thread announces blocking quiescent states until one appears.\<close>

partial_function (option) alloc_wrapper ::
  "(nat \<Rightarrow> 'a qsbr_state_scheme \<Rightarrow> 'a qsbr_state_scheme) \<Rightarrow> 'a qsbr_state_scheme \<Rightarrow>
   (ptr \<times> 'a qsbr_state_scheme) option" where
  "alloc_wrapper env s =
     (let (w, al) = ssalloc_alloc 1 (of_nat MR_NODE_SIZE) (alloc s);
          s1 = s\<lparr>alloc := al\<rparr>
      in if w = NULL then do {
           s2 \<leftarrow> quiescent_state env True 0 s1;
           alloc_wrapper env s2
         } else Some (w, s1))"

declare alloc_wrapper.simps [code]

definition q_free_node_later ::
  "(nat \<Rightarrow> 'a qsbr_state_scheme \<Rightarrow> 'a qsbr_state_scheme) \<Rightarrow> ptr \<Rightarrow>
   'a qsbr_state_scheme \<Rightarrow> 'a qsbr_state_scheme option" where
  "q_free_node_later env q s = do {
     (w, s1) \<leftarrow> alloc_wrapper env s;
     c \<leftarrow> mrs s1 w;
     let t = qd s1 ! me s1;
     let e = nat (epoch t);
     let s2 = s1\<lparr>mrs := (mrs s1)(w \<mapsto> c\<lparr>actual_node := q, mr_next := limbo_list t ! e\<rparr>)\<rparr>;
     Some (upd_me (\<lambda>t. t\<lparr>limbo_list := (limbo_list t)[e := w], q_rcount := q_rcount t + 1\<rparr>) s2)
   }"

partial_function (option) q_exit_loop ::
  "(nat \<Rightarrow> 'a qsbr_state_scheme \<Rightarrow> 'a qsbr_state_scheme) \<Rightarrow> u64 \<Rightarrow>
   'a qsbr_state_scheme \<Rightarrow> 'a qsbr_state_scheme option" where
  "q_exit_loop env retries s =
     (if q_rcount (qd s ! me s) > 0 \<and> retries < 100 * qad_nthreads s then do {
        s1 \<leftarrow> quiescent_state (\<lambda>_. id) False 0 s;
        q_exit_loop env (retries + 1) (env (unat retries) s1)
      } else Some s)"

declare q_exit_loop.simps [code]

definition q_thread_exit ::
  "(nat \<Rightarrow> 'a qsbr_state_scheme \<Rightarrow> 'a qsbr_state_scheme) \<Rightarrow> 'a qsbr_state_scheme \<Rightarrow> 'a qsbr_state_scheme option" where
  "q_thread_exit env s =
     (if me s < length (qd s) then q_exit_loop env 0 (upd_me (\<lambda>t. t\<lparr>in_critical := 0\<rparr>) s) else None)"


section \<open>Invariant of a thread\<close>

text \<open>\<open>ls\<close>: the wrappers in the three limbo lists of the thread.\<close>

definition q_inv :: "'a qsbr_state_scheme \<Rightarrow> ptr list list \<Rightarrow> bool" where
  "q_inv s ls \<longleftrightarrow>
     me s < length (qd s) \<and> length (qd s) = unat (qad_nthreads s) \<and> unat (qad_nthreads s) < 256 \<and>
     length ls = 3 \<and> length (limbo_list (qd s ! me s)) = 3 \<and>
     (\<forall>e < 3. chain (mrs s) (limbo_list (qd s ! me s) ! e) (ls ! e)) \<and>
     q_rcount (qd s ! me s) = int (length (concat ls)) \<and>
     0 \<le> epoch (qd s ! me s) \<and> epoch (qd s ! me s) < 3 \<and>
     0 \<le> global_epoch s \<and> global_epoch s < 3 \<and> retired s (concat ls)"

text \<open>The wrappers \<open>ws\<close> and their nodes were released, and no other memory touched.\<close>

definition released :: "'a mem_scheme \<Rightarrow> 'a mem_scheme \<Rightarrow> ptr list \<Rightarrow> bool" where
  "released m m' ws \<longleftrightarrow> mrs m' = mrs m \<and> HP m' = HP m \<and>
     nodes m' = poison (actual (mrs m) ` set ws) (nodes m) \<and>
     alloc m' = free_pairs (with_actual (mrs m) ws) (alloc m)"

lemma upd_me_sel [simp]:
  "nodes (upd_me f s) = nodes s" "mrs (upd_me f s) = mrs s" "alloc (upd_me f s) = alloc s" "HP (upd_me f s) = HP s"
  "qg_lock (upd_me f s) = qg_lock s" "global_epoch (upd_me f s) = global_epoch s"
  "qad_index (upd_me f s) = qad_index s" "qad_nthreads (upd_me f s) = qad_nthreads s" "me (upd_me f s) = me s"
  "length (qd (upd_me f s)) = length (qd s)"
  by (simp_all add: upd_me_def me_def)

lemma upd_me_me [simp]: "me s < length (qd s) \<Longrightarrow> qd (upd_me f s) ! me s = f (qd s ! me s)"
  by (simp add: upd_me_def)

lemma upd_me_other [simp]: "i \<noteq> me s \<Longrightarrow> qd (upd_me f s) ! i = qd s ! i"
  by (simp add: upd_me_def)

lemma upd_me_upd_me: "me s < length (qd s) \<Longrightarrow> upd_me f (upd_me g s) = upd_me (\<lambda>t. f (g t)) s"
  by (simp add: upd_me_def me_def)

lemma upd_me_id: "f (qd s ! me s) = qd s ! me s \<Longrightarrow> upd_me f s = s"
  by (simp add: upd_me_def)

lemma list_update_3:
  "length xs = 3 \<Longrightarrow> xs = [xs ! 0, xs ! 1, xs ! 2]"
  by (cases xs; cases "tl xs"; cases "tl (tl xs)") auto

lemma concat_update:
  assumes "length ls = 3" "e < 3" "distinct (concat ls)"
  shows "set (concat (ls[e := []])) = set (concat ls) - set (ls ! e)" "distinct (concat (ls[e := []]))"
    "set (ls ! e) \<subseteq> set (concat ls)" "distinct (ls ! e)"
    "length (concat ls) = length (concat (ls[e := []])) + length (ls ! e)"
proof -
  obtain a b c where ls: "ls = [a, b, c]" using list_update_3 [OF assms(1)] by blast
  have "e = 0 \<or> e = 1 \<or> e = 2" using assms(2) by auto
  then show "set (concat (ls[e := []])) = set (concat ls) - set (ls ! e)" "distinct (concat (ls[e := []]))"
    "set (ls ! e) \<subseteq> set (concat ls)" "distinct (ls ! e)"
    "length (concat ls) = length (concat (ls[e := []])) + length (ls ! e)"
    using assms(3) by (auto simp: ls)
qed

lemma callbacks_loop_spec:
  assumes "chain (mrs m) p ws" "\<forall>w \<in> set ws. nodes m (actual (mrs m) w) \<noteq> None"
  shows "callbacks_loop p num m = Some (num + of_nat (length ws),
    m\<lparr>nodes := poison (actual (mrs m) ` set ws) (nodes m), alloc := free_pairs (with_actual (mrs m) ws) (alloc m)\<rparr>)"
  using assms
proof (induction ws arbitrary: p num m)
  case Nil
  then show ?case by (simp add: callbacks_loop.simps)
next
  case (Cons w ws)
  obtain c where c: "mrs m w = Some c" and p: "p = w" "w \<noteq> NULL" and nx: "chain (mrs m) (mr_next c) ws"
    using Cons.prems(1) by (auto split: option.splits)
  have "nodes m (actual_node c) \<noteq> None" using Cons.prems(2) c by simp
  from release_eq [OF c this] have rel: "release w m = Some (m\<lparr>nodes := poison {actual_node c} (nodes m),
     alloc := free_pairs [(w, actual_node c)] (alloc m)\<rparr>)" .
  let ?m1 = "m\<lparr>nodes := poison {actual_node c} (nodes m), alloc := free_pairs [(w, actual_node c)] (alloc m)\<rparr>"
  have "chain (mrs ?m1) (mr_next c) ws" "\<forall>w \<in> set ws. nodes ?m1 (actual (mrs ?m1) w) \<noteq> None"
    using nx Cons.prems(2) by simp_all
  from Cons.IH [OF this, of "num + 1"] show ?case
    using p c rel by (subst callbacks_loop.simps) (simp add: poison_poison add.assoc)
qed

lemma process_callbacks_inv:
  assumes inv: "q_inv s ls" and e: "e < 3"
  obtains s' where "process_callbacks e s = Some s'" "q_inv s' (ls[e := []])" "released s s' (ls ! e)"
    "qg_lock s' = qg_lock s" "global_epoch s' = global_epoch s" "qad_nthreads s' = qad_nthreads s"
    "qad_index s' = qad_index s" "epoch (qd s' ! me s) = epoch (qd s ! me s)"
    "in_critical (qd s' ! me s) = in_critical (qd s ! me s)"
    "length (qd s') = length (qd s)" "\<forall>i. i \<noteq> me s \<longrightarrow> qd s' ! i = qd s ! i"
proof -
  let ?t = "qd s ! me s" and ?ws = "ls ! e"
  have lim: "length (limbo_list ?t) = 3" "length ls = 3" and ch: "\<forall>e < 3. chain (mrs s) (limbo_list ?t ! e) (ls ! e)"
    and r: "retired s (concat ls)" and me: "me s < length (qd s)" using inv by (simp_all add: q_inv_def)
  have dist: "distinct (concat ls)" using r by (simp add: retired_def)
  note cu = concat_update [OF lim(2) e dist]
  have mapped: "\<forall>w \<in> set ?ws. nodes s (actual (mrs s) w) \<noteq> None" using r cu(3) by (auto simp: retired_def)
  let ?s1 = "s\<lparr>nodes := poison (actual (mrs s) ` set ?ws) (nodes s), alloc := free_pairs (with_actual (mrs s) ?ws) (alloc s)\<rparr>"
  have "chain (mrs s) (limbo_list ?t ! e) ?ws" using ch e by blast
  from callbacks_loop_spec [OF this mapped, of 0]
  have lp: "callbacks_loop (limbo_list ?t ! e) 0 s = Some (of_nat (length ?ws), ?s1)" by simp
  let ?f = "\<lambda>t. t\<lparr>limbo_list := (limbo_list t)[e := NULL], q_rcount := q_rcount t - uint (of_nat (length ?ws) :: u64)\<rparr>"
  let ?s' = "upd_me ?f ?s1"
  have m1: "me ?s1 = me s" "qd ?s1 = qd s" by (simp_all add: me_def)
  have pc: "process_callbacks e s = Some ?s'" using lp by (simp add: process_callbacks_def)
  have "length (concat ls) \<le> 2 ^ 30" by (rule retired_length [OF r])
  then have "uint (of_nat (length ?ws) :: u64) = int (length ?ws)"
    using cu(5) by (simp add: uint_nat unat_of_nat_less)
  then have rc: "q_rcount (?f ?t) = int (length (concat (ls[e := []])))"
    using inv cu(5) by (simp add: q_inv_def)
  have me1: "me ?s1 < length (qd ?s1)" using me m1 by simp
  have t': "qd ?s' ! me s = ?f ?t" using upd_me_me [OF me1, of ?f] unfolding m1 .
  have ch': "chain (mrs s) ((limbo_list ?t)[e := NULL] ! i) (ls[e := []] ! i)" if "i < 3" for i
    using ch that lim e by (cases "i = e") simp_all
  have ret: "retired ?s' (concat (ls[e := []]))"
    by (rule retired_release [OF r cu(3,4), where S = "{}" and A = "actual (mrs s) ` set ?ws"])
      (use cu(1,2) in auto)
  have "q_inv ?s' (ls[e := []])"
    using inv rc ch' ret lim unfolding q_inv_def by (simp add: t' m1)
  moreover have "released s ?s' ?ws" by (simp add: released_def)
  moreover have "\<forall>i. i \<noteq> me s \<longrightarrow> qd ?s' ! i = qd s ! i" using m1 upd_me_other [of _ ?s1 ?f] by simp
  ultimately show ?thesis using pc t' m1 by (intro that [of ?s']) simp_all
qed


lemma all_advanced_iff:
  "i + n \<le> length ds \<Longrightarrow> all_advanced n i m e ds =
   Some (\<forall>k. i \<le> k \<longrightarrow> k < i + n \<longrightarrow> k \<noteq> m \<longrightarrow> in_critical (ds ! k) = 1 \<longrightarrow> epoch (ds ! k) = e)"
proof (induction n arbitrary: i)
  case (Suc n)
  have split: "(\<forall>k. i \<le> k \<longrightarrow> k < i + Suc n \<longrightarrow> P k) \<longleftrightarrow> P i \<and> (\<forall>k. Suc i \<le> k \<longrightarrow> k < Suc i + n \<longrightarrow> P k)" for P
    by (metis Suc_leD Suc_leI add_Suc_right add_Suc_shift leI le_add1 le_antisym le_imp_less_Suc less_Suc_eq_le)
  have "Suc i + n \<le> length ds" using Suc.prems by simp
  from Suc.IH [OF this] Suc.prems show ?case by (subst split) auto
qed simp

definition others_at :: "'a qsbr_state_scheme \<Rightarrow> int \<Rightarrow> bool" where
  "others_at s e \<longleftrightarrow>
     (\<forall>k < length (qd s). k \<noteq> me s \<longrightarrow> in_critical (qd s ! k) = 1 \<longrightarrow> epoch (qd s ! k) = e)"

lemma update_epoch_eq:
  assumes "length (qd s) = unat (qad_nthreads s)"
  shows "update_epoch s = Some (\<not> qg_lock s \<and> others_at s (global_epoch s),
    if \<not> qg_lock s \<and> others_at s (global_epoch s) then s\<lparr>global_epoch := (global_epoch s + 1) mod 3\<rparr> else s)"
  using all_advanced_iff [of 0 "unat (qad_nthreads s)" "qd s" "me s" "global_epoch s"] assms
  by (cases "others_at s (global_epoch s)") (auto simp: update_epoch_def others_at_def N_EPOCHS_def Let_def)

lemma others_at_upd_me [simp]: "others_at (upd_me f s) e = others_at s e"
  by (simp add: others_at_def)

text \<open>The effect of a quiescent state: \<open>adv\<close>, the thread moves on to epoch \<open>g\<close>.\<close>

lemma enter_epoch_spec:
  assumes inv: "q_inv s ls" and ne: "epoch (qd s ! me s) \<noteq> global_epoch s"
  obtains s' where "enter_epoch s = Some s'" "q_inv s' (ls[nat (global_epoch s) := []])"
    "released s s' (ls ! nat (global_epoch s))" "epoch (qd s' ! me s) = global_epoch s"
    "global_epoch s' = global_epoch s" "qg_lock s' = qg_lock s" "me s' = me s" "qad_nthreads s' = qad_nthreads s"
    "in_critical (qd s' ! me s) = in_critical (qd s ! me s)"
    "length (qd s') = length (qd s)" "\<forall>i. i \<noteq> me s \<longrightarrow> qd s' ! i = qd s ! i"
proof -
  have e: "nat (global_epoch s) < 3" "0 \<le> global_epoch s" "global_epoch s < 3" using inv by (auto simp: q_inv_def)
  from process_callbacks_inv [OF inv e(1)] obtain s1 where
    pc: "process_callbacks (nat (global_epoch s)) s = Some s1" and inv1: "q_inv s1 (ls[nat (global_epoch s) := []])"
    and rel: "released s s1 (ls ! nat (global_epoch s))"
    and f1: "qg_lock s1 = qg_lock s" "global_epoch s1 = global_epoch s" "qad_nthreads s1 = qad_nthreads s"
      "qad_index s1 = qad_index s" "in_critical (qd s1 ! me s) = in_critical (qd s ! me s)"
      "length (qd s1) = length (qd s)" "\<forall>i. i \<noteq> me s \<longrightarrow> qd s1 ! i = qd s ! i" by metis
  have m1: "me s1 = me s" using f1 by (simp add: me_def)
  let ?s' = "upd_me (\<lambda>t. t\<lparr>epoch := global_epoch s\<rparr>) s1"
  have me1: "me s1 < length (qd s1)" using inv1 by (simp add: q_inv_def)
  have t': "qd ?s' ! me s = (qd s1 ! me s)\<lparr>epoch := global_epoch s\<rparr>" using upd_me_me [OF me1] unfolding m1 .
  have "enter_epoch s = Some ?s'" using ne pc by (simp add: enter_epoch_def Let_def)
  moreover have "q_inv ?s' (ls[nat (global_epoch s) := []])"
    using inv1 e t' unfolding q_inv_def by (simp add: m1 retired_def wrappers_mapped_def)
  moreover have "released s ?s' (ls ! nat (global_epoch s))" using rel by (simp add: released_def)
  ultimately show ?thesis using f1 t' m1 upd_me_other [of _ s1] by (intro that [of ?s']) simp_all
qed

definition can_advance :: "'a qsbr_state_scheme \<Rightarrow> bool" where
  "can_advance s \<longleftrightarrow> \<not> qg_lock s \<and> others_at s (global_epoch s)"

lemma q_inv_epoch: "q_inv s ls \<Longrightarrow> 0 \<le> g \<Longrightarrow> g < 3 \<Longrightarrow> q_inv (s\<lparr>global_epoch := g\<rparr>) ls"
  by (simp add: q_inv_def me_def retired_def wrappers_mapped_def)

lemma quiescent_state_cases:
  assumes inv: "q_inv s ls"
  shows "quiescent_state env blocking n s =
    (if epoch (qd s ! me s) \<noteq> global_epoch s then enter_epoch s
     else if can_advance s then enter_epoch (s\<lparr>global_epoch := (global_epoch s + 1) mod 3\<rparr>)
     else if blocking then quiescent_state env blocking (Suc n) (env n s) else Some s)"
proof -
  have me: "me s < length (qd s)" and len: "length (qd s) = unat (qad_nthreads s)" using inv by (simp_all add: q_inv_def)
  let ?s1 = "upd_me (\<lambda>t. t\<lparr>in_critical := 0\<rparr>) s" and ?g = "(global_epoch s + 1) mod 3"
  let ?rst = "\<lambda>t. t\<lparr>in_critical := in_critical (qd s ! me s)\<rparr>"
  have u: "update_epoch ?s1 = Some (can_advance s, if can_advance s then ?s1\<lparr>global_epoch := ?g\<rparr> else ?s1)"
    using update_epoch_eq [of ?s1] len by (simp add: can_advance_def)
  have bk: "upd_me ?rst ?s1 = s" using me by (simp add: upd_me_upd_me upd_me_id)
  have "upd_me ?rst (?s1\<lparr>global_epoch := ?g\<rparr>) = s\<lparr>global_epoch := ?g\<rparr>"
  proof -
    have "upd_me ?rst (?s1\<lparr>global_epoch := ?g\<rparr>) = (upd_me ?rst ?s1)\<lparr>global_epoch := ?g\<rparr>"
      by (simp add: upd_me_def me_def)
    then show ?thesis by (simp add: bk)
  qed
  then show ?thesis using me u bk by (subst quiescent_state.simps) (simp add: Let_def)
qed

text \<open>The epoch a thread enters by its quiescent state, if any.\<close>

definition next_epoch :: "'a qsbr_state_scheme \<Rightarrow> int option" where
  "next_epoch s =
     (if epoch (qd s ! me s) \<noteq> global_epoch s then Some (global_epoch s)
      else if can_advance s then Some ((global_epoch s + 1) mod 3) else None)"

lemma quiescent_state_spec:
  assumes inv: "q_inv s ls" and nx: "next_epoch s = Some g"
  obtains s' where "quiescent_state env blocking n s = Some s'" "q_inv s' (ls[nat g := []])"
    "released s s' (ls ! nat g)" "epoch (qd s' ! me s) = g" "global_epoch s' = g" "qg_lock s' = qg_lock s" "me s' = me s"
    "qad_nthreads s' = qad_nthreads s" "in_critical (qd s' ! me s) = in_critical (qd s ! me s)"
    "length (qd s') = length (qd s)" "\<forall>i. i \<noteq> me s \<longrightarrow> qd s' ! i = qd s ! i"
proof (cases "epoch (qd s ! me s) \<noteq> global_epoch s")
  case True
  then have g: "g = global_epoch s" using nx by (simp add: next_epoch_def)
  from enter_epoch_spec [OF inv True] show ?thesis
    using that True unfolding g quiescent_state_cases [OF inv] by auto
next
  case False
  then have g: "g = (global_epoch s + 1) mod 3" and adv: "can_advance s"
    using nx by (auto simp: next_epoch_def split: if_splits)
  let ?s1 = "s\<lparr>global_epoch := g\<rparr>"
  have inv1: "q_inv ?s1 ls" by (rule q_inv_epoch [OF inv]) (simp_all add: g)
  have m1: "me ?s1 = me s" by (simp add: me_def)
  have "0 \<le> global_epoch s" "global_epoch s < 3" using inv by (simp_all add: q_inv_def)
  then have "epoch (qd ?s1 ! me ?s1) \<noteq> global_epoch ?s1" using False unfolding m1 [unfolded me_def] me_def
    by (simp add: g) presburger
  from enter_epoch_spec [OF inv1 this] obtain s' where s': "enter_epoch ?s1 = Some s'"
    "q_inv s' (ls[nat g := []])" "released ?s1 s' (ls ! nat g)" "epoch (qd s' ! me s) = g" "global_epoch s' = g"
    "qg_lock s' = qg_lock s" "me s' = me s" "qad_nthreads s' = qad_nthreads s"
    "in_critical (qd s' ! me s) = in_critical (qd s ! me s)" "length (qd s') = length (qd s)"
    "\<forall>i. i \<noteq> me s \<longrightarrow> qd s' ! i = qd s ! i"
    unfolding m1 by auto
  moreover have "quiescent_state env blocking n s = Some s'"
    using s'(1) adv False by (simp add: quiescent_state_cases [OF inv] g)
  moreover have "released s s' (ls ! nat g)" using s'(3) by (simp add: released_def)
  ultimately show ?thesis by (intro that [of s']) simp_all
qed


section \<open>Leaving\<close>

definition others_idle :: "'a qsbr_state_scheme \<Rightarrow> bool" where
  "others_idle s \<longleftrightarrow> \<not> qg_lock s \<and> (\<forall>k < length (qd s). k \<noteq> me s \<longrightarrow> in_critical (qd s ! k) \<noteq> 1)"

lemma others_idle_next:
  "others_idle s \<Longrightarrow> next_epoch s =
     Some (if epoch (qd s ! me s) \<noteq> global_epoch s then global_epoch s else (global_epoch s + 1) mod 3)"
  by (auto simp: next_epoch_def can_advance_def others_idle_def others_at_def)

lemma q_inv_count: "q_inv s ls \<Longrightarrow> q_rcount (qd s ! me s) > 0 \<longleftrightarrow> ls \<noteq> [[], [], []]"
proof -
  assume inv: "q_inv s ls"
  obtain a b c where ls: "ls = [a, b, c]" using list_update_3 [of ls] inv by (auto simp: q_inv_def)
  have "q_rcount (qd s ! me s) > 0 \<longleftrightarrow> concat ls \<noteq> []" using inv by (simp add: q_inv_def)
  also have "\<dots> \<longleftrightarrow> ls \<noteq> [[], [], []]" by (auto simp: ls)
  finally show ?thesis .
qed

lemma less_3: "i < 3 \<Longrightarrow> i = 0 \<or> i = 1 \<or> i = (2 :: nat)"
  by auto

lemma int_less_3: "0 \<le> g \<Longrightarrow> g < 3 \<Longrightarrow> g = 0 \<or> g = 1 \<or> g = (2 :: int)"
  by auto

text \<open>Distances between epochs.\<close>

lemma mod3_lt: "nat (x mod 3) < 3"
  by simp

lemma mod3_two: "0 \<le> g \<Longrightarrow> g < 3 \<Longrightarrow> i < 3 \<Longrightarrow> int i \<noteq> g \<Longrightarrow> nat ((int i - g - 1) mod 3) < 2"
  by (auto dest!: less_3 int_less_3)

lemma mod3_step:
  "0 \<le> g \<Longrightarrow> g < 3 \<Longrightarrow> i < 3 \<Longrightarrow> int i \<noteq> (g + 1) mod 3 \<Longrightarrow> nat ((int i - g - 1) mod 3) < Suc k \<Longrightarrow>
   nat ((int i - (g + 1) mod 3 - 1) mod 3) < k"
  by (auto dest!: less_3 int_less_3)

lemma q_exit_drains:
  assumes "q_inv s ls" "others_idle s" "epoch (qd s ! me s) = global_epoch s"
    "\<forall>i < 3. ls ! i \<noteq> [] \<longrightarrow> nat ((int i - global_epoch s - 1) mod 3) < k"
    "unat r + k \<le> 100 * unat (qad_nthreads s)"
  shows "\<exists>s'. q_exit_loop (\<lambda>_. id) r s = Some s' \<and> q_inv s' [[], [], []]"
  using assms
proof (induction k arbitrary: s ls r)
  case 0
  obtain a b c where "ls = [a, b, c]" using list_update_3 [of ls] 0(1) by (auto simp: q_inv_def)
  moreover have "ls ! 0 = []" "ls ! 1 = []" "ls ! 2 = []" using 0(4) by auto
  ultimately have "ls = [[], [], []]" by simp
  then show ?case using 0(1) q_inv_count [OF 0(1)] by (simp add: q_exit_loop.simps)
next
  case (Suc k)
  show ?case
  proof (cases "ls = [[], [], []]")
    case True
    then show ?thesis using Suc.prems(1) q_inv_count [OF Suc.prems(1)] by (simp add: q_exit_loop.simps)
  next
    case False
    let ?g = "(global_epoch s + 1) mod 3"
    have nx: "next_epoch s = Some ?g" using others_idle_next [OF Suc.prems(2)] Suc.prems(3) by simp
    obtain s1 where s1: "quiescent_state (\<lambda>_. id) False 0 s = Some s1" "q_inv s1 (ls[nat ?g := []])"
      "released s s1 (ls ! nat ?g)" "epoch (qd s1 ! me s) = ?g" "global_epoch s1 = ?g" "qg_lock s1 = qg_lock s" "me s1 = me s"
      "qad_nthreads s1 = qad_nthreads s" "in_critical (qd s1 ! me s) = in_critical (qd s ! me s)"
      "length (qd s1) = length (qd s)" "\<forall>i. i \<noteq> me s \<longrightarrow> qd s1 ! i = qd s ! i"
      by (rule quiescent_state_spec [OF Suc.prems(1) nx])
    have idle: "others_idle s1" using Suc.prems(2) s1 by (simp add: others_idle_def)
    have ge: "0 \<le> global_epoch s" "global_epoch s < 3" "length ls = 3" using Suc.prems(1) by (simp_all add: q_inv_def)
    have n256: "unat (qad_nthreads s) < 256" using Suc.prems(1) by (simp add: q_inv_def)
    have dist: "nat ((int i - ?g - 1) mod 3) < k" if i: "i < 3" "ls[nat ?g := []] ! i \<noteq> []" for i
    proof -
      have "i \<noteq> nat ?g" using i ge by (metis nth_list_update_eq)
      moreover from this have "ls ! i \<noteq> []" using i by simp
      ultimately have "int i \<noteq> ?g" "nat ((int i - global_epoch s - 1) mod 3) < Suc k"
        using Suc.prems(4) i(1) by (auto simp: nat_eq_iff)
      then show ?thesis by (intro mod3_step ge i(1))
    qed
    have r1: "unat (r + 1) = unat r + 1"
      using Suc.prems(5) n256 by (intro unat_succ) simp
    have "\<exists>s'. q_exit_loop (\<lambda>_. id) (r + 1) s1 = Some s' \<and> q_inv s' [[], [], []]"
      by (rule Suc.IH [OF s1(2) idle]) (use s1 dist r1 Suc.prems(5) in auto)
    moreover have "unat (100 * qad_nthreads s) = 100 * unat (qad_nthreads s)"
      using n256 by (simp add: unat_word_ariths)
    then have "r < 100 * qad_nthreads s" using Suc.prems(5) by (simp add: word_less_nat_alt)
    moreover have "q_rcount (qd s ! me s) > 0" using q_inv_count [OF Suc.prems(1)] False by simp
    ultimately show ?thesis using s1(1) by (subst q_exit_loop.simps) simp
  qed
qed

section \<open>Properties\<close>

text \<open>C15: A non-blocking quiescent state of src/qsbr.c releases exactly the limbo list of the epoch the
  thread enters, oldest wrappers last, and enters one exactly if it is behind the global epoch or
  can advance it (lock free, every other active thread in the current epoch); else it changes nothing.\<close>

theorem quiescent_state_releases:
  assumes "q_inv s ls"
  shows "\<exists>s'. quiescent_state env False n s = Some s' \<and>
    (case next_epoch s of None \<Rightarrow> s' = s
     | Some g \<Rightarrow> q_inv s' (ls[nat g := []]) \<and> released s s' (ls ! nat g) \<and>
                 epoch (qd s' ! me s) = g \<and> global_epoch s' = g)"
proof (cases "next_epoch s")
  case None
  then show ?thesis using quiescent_state_cases [OF assms, of env False n]
    by (auto simp: next_epoch_def split: if_splits)
next
  case (Some g)
  from quiescent_state_spec [OF assms Some, of env False n] show ?thesis by (auto simp: Some)
qed


text \<open>When the other threads are inactive, \<open>mr_thread_exit\<close> of src/qsbr.c returns with all three
  limbo lists released.\<close>

theorem q_thread_exit_drains:
  assumes "q_inv s ls" "others_idle s"
  shows "\<exists>s'. q_thread_exit (\<lambda>_. id) s = Some s' \<and> q_inv s' [[], [], []]"
proof -
  let ?s0 = "upd_me (\<lambda>t. t\<lparr>in_critical := 0\<rparr>) s"
  have me: "me s < length (qd s)" "length (qd s) = unat (qad_nthreads s)" using assms(1) by (simp_all add: q_inv_def)
  have inv0: "q_inv ?s0 ls" using assms(1) by (simp add: q_inv_def retired_def wrappers_mapped_def)
  have idle0: "others_idle ?s0" using assms(2) by (simp add: others_idle_def)
  have ge: "0 \<le> global_epoch s" "global_epoch s < 3" "length ls = 3" using assms(1) by (simp_all add: q_inv_def)
  have n256: "unat (qad_nthreads s) < 256" using assms(1) by (simp add: q_inv_def)
  have "\<exists>s'. q_exit_loop (\<lambda>_. id) 0 ?s0 = Some s' \<and> q_inv s' [[], [], []]"
  proof (cases "epoch (qd ?s0 ! me ?s0) = global_epoch ?s0")
    case True
    show ?thesis by (intro q_exit_drains [OF inv0 idle0 True, where k = 3]) (use me mod3_lt in auto)
  next
    case False
    let ?g = "global_epoch s"
    show ?thesis
    proof (cases "ls = [[], [], []]")
      case True
      then show ?thesis using inv0 q_inv_count [OF inv0] by (simp add: q_exit_loop.simps)
    next
      case ne: False
      have nx: "next_epoch ?s0 = Some ?g" using others_idle_next [OF idle0] False by simp
      obtain s1 where s1: "quiescent_state (\<lambda>_. id) False 0 ?s0 = Some s1" "q_inv s1 (ls[nat ?g := []])"
        "released ?s0 s1 (ls ! nat ?g)" "epoch (qd s1 ! me ?s0) = ?g" "global_epoch s1 = ?g" "qg_lock s1 = qg_lock ?s0"
        "me s1 = me ?s0" "qad_nthreads s1 = qad_nthreads ?s0" "in_critical (qd s1 ! me ?s0) = in_critical (qd ?s0 ! me ?s0)"
        "length (qd s1) = length (qd ?s0)" "\<forall>i. i \<noteq> me ?s0 \<longrightarrow> qd s1 ! i = qd ?s0 ! i"
        by (rule quiescent_state_spec [OF inv0 nx])
      have idle: "others_idle s1" using idle0 s1 by (simp add: others_idle_def)
      have dist: "nat ((int i - global_epoch s1 - 1) mod 3) < 2" if i: "i < 3" "ls[nat ?g := []] ! i \<noteq> []" for i
      proof -
        have "i \<noteq> nat ?g" using i ge by (metis nth_list_update_eq)
        then have "int i \<noteq> ?g" by auto
        then show ?thesis unfolding s1(5) by (intro mod3_two ge i(1))
      qed
      have "\<exists>s'. q_exit_loop (\<lambda>_. id) 1 s1 = Some s' \<and> q_inv s' [[], [], []]"
        by (rule q_exit_drains [OF s1(2) idle, where k = 2]) (use s1 dist me in auto)
      moreover have "unat (100 * qad_nthreads s) = 100 * unat (qad_nthreads s)"
        using n256 by (simp add: unat_word_ariths)
      then have "0 < 100 * qad_nthreads s" using me by (simp add: word_less_nat_alt)
      moreover have "q_rcount (qd ?s0 ! me ?s0) > 0" using q_inv_count [OF inv0] ne by simp
      ultimately show ?thesis using s1(1) by (subst q_exit_loop.simps) simp
    qed
  qed
  then show ?thesis using me by (simp add: q_thread_exit_def)
qed


lemma q_retire_inv:
  assumes "q_inv s ls" "nodes s q \<noteq> None"
    and "fst (ssalloc_alloc 1 (of_nat MR_NODE_SIZE) (alloc s)) \<noteq> NULL"
  obtains w s' where "q_free_node_later env q s = Some s'" "w \<notin> set (concat ls)"
    "q_inv s' (ls[nat (epoch (qd s ! me s)) := w # ls ! nat (epoch (qd s ! me s))])"
    "set (concat (ls[nat (epoch (qd s ! me s)) := w # ls ! nat (epoch (qd s ! me s))])) = insert w (set (concat ls))"
    "actual (mrs s') w = q" "\<forall>v \<in> set (concat ls). actual (mrs s') v = actual (mrs s) v"
    "nodes s' = nodes s" "global_epoch s' = global_epoch s" "HP s' = HP s"
    "alloc s' = snd (ssalloc_alloc 1 (of_nat MR_NODE_SIZE) (alloc s))"
proof -
  let ?t = "qd s ! me s" and ?e = "nat (epoch (qd s ! me s))"
  have r: "retired s (concat ls)" and me: "me s < length (qd s)" and e: "?e < 3"
    and lim: "length (limbo_list ?t) = 3" "length ls = 3" and ch: "\<forall>e < 3. chain (mrs s) (limbo_list ?t ! e) (ls ! e)"
    using assms(1) by (auto simp: q_inv_def)
  obtain w al where a: "ssalloc_alloc 1 (of_nat MR_NODE_SIZE) (alloc s) = (w, al)" by force
  have nn: "w \<noteq> NULL" using assms(3) unfolding a by simp
  obtain m' where nw: "new_wrapper q s = Some (w, m')" and w: "w \<notin> set (concat ls)"
    and r1: "retired m' (w # concat ls)" and act: "actual (mrs m') w = q"
    and fr: "\<forall>y. y \<noteq> w \<longrightarrow> mrs m' y = mrs s y"
  proof -
    from new_wrapper_retired [OF r assms(2,3)] obtain w' m' where
      *: "new_wrapper q s = Some (w', m')" "w' \<notin> set (concat ls)" "retired m' (w' # concat ls)"
      "actual (mrs m') w' = q" "\<forall>y. y \<noteq> w' \<longrightarrow> mrs m' y = mrs s y" by metis
    moreover have "w' = w" using *(1) unfolding new_wrapper_def a by (cases "mrs s w") auto
    ultimately show ?thesis using that by blast
  qed
  obtain c where c: "mrs s w = Some c" and m': "m' = s\<lparr>mrs := (mrs s)(w \<mapsto> c\<lparr>actual_node := q\<rparr>), alloc := al\<rparr>"
    using nw unfolding new_wrapper_def a by (cases "mrs s w") auto
  have al: "alloc_wrapper env s = Some (w, s\<lparr>alloc := al\<rparr>)"
    using nn by (subst alloc_wrapper.simps, unfold a) simp
  let ?h = "(mrs s)(w \<mapsto> c\<lparr>actual_node := q, mr_next := limbo_list ?t ! ?e\<rparr>)"
  let ?s2 = "s\<lparr>mrs := ?h, alloc := al\<rparr>"
  let ?f = "\<lambda>t. t\<lparr>limbo_list := (limbo_list t)[?e := w], q_rcount := q_rcount t + 1\<rparr>"
  let ?s' = "upd_me ?f ?s2"
  have m1: "me ?s2 = me s" "qd ?s2 = qd s" by (simp_all add: me_def)
  have "q_free_node_later env q s = Some ?s'"
    using al c by (simp add: q_free_node_later_def Let_def me_def)
  moreover have t: "touches {w} (mrs m') ?h" using c by (auto simp: touches_def m' payload_def fun_eq_iff)
  have acth: "actual ?h = actual (mrs m')" by (rule touches_actual [OF t])
  have t': "qd ?s' ! me s = ?f ?t" using upd_me_me [of ?s2 ?f] me unfolding m1 by simp
  have "chain ?h ((limbo_list ?t)[?e := w] ! i) (ls[?e := w # ls ! ?e] ! i)" if "i < 3" for i
  proof -
    have "w \<notin> set (ls ! i)" using w that lim by (auto simp: set_concat)
    then have "chain ?h p (ls ! i) = chain (mrs s) p (ls ! i)" for p by (intro chain_cong) auto
    then have "chain ?h (limbo_list ?t ! i) (ls ! i)" using ch that by blast
    then show ?thesis using that lim e nn by (cases "i = ?e") simp_all
  qed
  moreover have "set (concat (ls[?e := w # ls ! ?e])) = insert w (set (concat ls))"
    "distinct (concat (ls[?e := w # ls ! ?e]))"
    "length (concat (ls[?e := w # ls ! ?e])) = Suc (length (concat ls))"
  proof -
    obtain x y z where ls: "ls = [x, y, z]" using list_update_3 [OF lim(2)] by blast
    have "distinct (concat ls)" using r by (simp add: retired_def)
    then show "set (concat (ls[?e := w # ls ! ?e])) = insert w (set (concat ls))"
      "distinct (concat (ls[?e := w # ls ! ?e]))"
      "length (concat (ls[?e := w # ls ! ?e])) = Suc (length (concat ls))"
      using less_3 [OF e] w by (auto simp: ls)
  qed
  note cc = this
  have "retired ?s' (concat (ls[?e := w # ls ! ?e]))"
    by (rule retired_release [OF r1, where fs = "[]" and A = "{}" and S = "{w}"])
      (use cc w t in \<open>auto simp: m'\<close>)
  ultimately have inv': "q_inv ?s' (ls[?e := w # ls ! ?e])"
    using assms(1) cc(3) unfolding q_inv_def by (simp add: t' m1)
  moreover have "actual (mrs ?s') w = q" using act acth by simp
  moreover have "\<forall>v \<in> set (concat ls). actual (mrs ?s') v = actual (mrs s) v"
    using fr w acth by (auto simp: actual_def payload_def fun_eq_iff)
  ultimately show ?thesis using w cc(1) \<open>q_free_node_later env q s = Some ?s'\<close>
    by (intro that [of ?s' w]) (simp_all add: a [unfolded One_nat_def])
qed

text \<open>\<open>free_node_later\<close> of src/qsbr.c puts the node at the head of the limbo list of the thread's own
  epoch, without releasing anything, whenever a wrapper is available.\<close>

theorem q_free_node_later_limbo:
  assumes "q_inv s ls" "nodes s q \<noteq> None"
    and "fst (ssalloc_alloc 1 (of_nat MR_NODE_SIZE) (alloc s)) \<noteq> NULL"
  shows "\<exists>w s'. q_free_node_later env q s = Some s' \<and> w \<notin> set (concat ls) \<and>
    q_inv s' (ls[nat (epoch (qd s ! me s)) := w # ls ! nat (epoch (qd s ! me s))]) \<and>
    actual (mrs s') w = q \<and> nodes s' = nodes s \<and> global_epoch s' = global_epoch s"
  by (rule q_retire_inv [OF assms], rule exI, rule exI) (intro conjI, assumption+)

section \<open>Witnesses\<close>

definition ex_q :: "int \<Rightarrow> int \<Rightarrow> qsbr_state" where
  "ex_q c1 e1 = \<lparr>nodes = ex_nodes, mrs = ex_mrs, alloc = ex_alloc, HP = [],
     clock = (\<lambda>_. \<lparr>tv_sec = 0, tv_usec = 0\<rparr>), tick = 0, qg_lock = False, global_epoch = 1,
     qd = [\<lparr>limbo_list = [0, 0, 4160], entries_since_update = 0, epoch = 1, in_critical = 1, q_rcount = 2\<rparr>,
           \<lparr>limbo_list = [0, 0, 0], entries_since_update = 0, epoch = e1, in_critical = c1, q_rcount = 0\<rparr>],
     qad_index = 0, qad_nthreads = 2\<rparr>"

lemma ex_q_sel [simp]:
  "nodes (ex_q c e) = ex_nodes" "mrs (ex_q c e) = ex_mrs" "alloc (ex_q c e) = ex_alloc"
  "qg_lock (ex_q c e) = False" "global_epoch (ex_q c e) = 1" "qad_index (ex_q c e) = 0" "qad_nthreads (ex_q c e) = 2"
  "me (ex_q c e) = 0" "length (qd (ex_q c e)) = 2"
  by (simp_all add: ex_q_def me_def)

lemma ex_q_qd [simp]:
  "qd (ex_q c e) ! 0 = \<lparr>limbo_list = [0, 0, 4160], entries_since_update = 0, epoch = 1, in_critical = 1, q_rcount = 2\<rparr>"
  "qd (ex_q c e) ! Suc 0 = \<lparr>limbo_list = [0, 0, 0], entries_since_update = 0, epoch = e, in_critical = c, q_rcount = 0\<rparr>"
  by (simp_all add: ex_q_def)

lemma ex_q_inv: "q_inv (ex_q c e) [[], [], [4160, 4096]]"
proof -
  have "chain ex_mrs ([0, 0, 4160] ! i) ([[], [], [4160, 4096]] ! i)" if "i < 3" for i
    using less_3 [OF that] by (auto simp: ex_mrs_def)
  then show ?thesis using ex_retired [of "ex_q c e"] by (simp add: q_inv_def)
qed

lemma quiescent_state_releases_witness:
  "\<exists>s'. quiescent_state (\<lambda>_. id) False 0 (ex_q 1 1) = Some s' \<and> q_inv s' [[], [], []]"
proof -
  have "next_epoch (ex_q 1 1) = Some 2"
    by (auto simp: next_epoch_def can_advance_def others_at_def less_Suc_eq numeral_2_eq_2)
  then show ?thesis using quiescent_state_releases [OF ex_q_inv, of "\<lambda>_. id" 0 1 1] by auto
qed


lemma q_thread_exit_drains_witness:
  "\<exists>s'. q_thread_exit (\<lambda>_. id) (ex_q 0 1) = Some s' \<and> q_inv s' [[], [], []]"
  by (rule q_thread_exit_drains [OF ex_q_inv]) (auto simp: others_idle_def less_Suc_eq numeral_2_eq_2)

lemma q_free_node_later_limbo_witness:
  "\<exists>w s'. q_free_node_later (\<lambda>_. id) 128 (ex_q 1 1) = Some s' \<and> q_inv s' [[], [w], [4160, 4096]]"
  using q_free_node_later_limbo [OF ex_q_inv [of 1 1], of 128 "\<lambda>_. id"]
  by (auto simp: ex_room' ex_nodes_def)

end
