(* ===== verification/Locks.thy ===== *)
theory Locks
  imports Qs_Prelude
begin

text \<open>
  The locks a build selects with \<open>LOCK\<close>: test-and-set and ticket locks of src/include/lock_if.h
  (without RETRY_STATS), and the CLH queue lock of src/src/clh.c. Each atomic access of the code is
  one function on the lock's memory; an inductive relation lets the threads take them in any
  order. Two locales state what a lock promises: mutual exclusion, and service in the order of
  arrival, as a simulation by a queue of threads.
\<close>

section \<open>The contracts\<close>

locale mutex_lock =
  fixes start :: "'s \<Rightarrow> bool"
    and step :: "'s \<Rightarrow> 's \<Rightarrow> bool"
    and inside :: "'s \<Rightarrow> nat \<Rightarrow> bool"
    and inv :: "'s \<Rightarrow> bool"
  assumes inv_start: "start s \<Longrightarrow> inv s"
    and inv_step: "inv s \<Longrightarrow> step s t \<Longrightarrow> inv t"
    and inv_inside: "inv s \<Longrightarrow> inside s i \<Longrightarrow> inside s j \<Longrightarrow> i = j"
begin

lemma inv_steps: "step\<^sup>*\<^sup>* s t \<Longrightarrow> inv s \<Longrightarrow> inv t"
  by (induction rule: rtranclp_induct) (auto intro: inv_step)

lemma mutual_exclusion: "start s \<Longrightarrow> step\<^sup>*\<^sup>* s t \<Longrightarrow> inside t i \<Longrightarrow> inside t j \<Longrightarrow> i = j"
  using inv_inside inv_start inv_steps by blast

end

text \<open>The abstract lock: a queue of threads. A thread joins at the end, the first one leaves. A step
  of the code may also do nothing to the queue.\<close>

inductive fifo_step :: "nat list \<Rightarrow> nat list \<Rightarrow> bool" where
  fifo_join: "i \<notin> set q \<Longrightarrow> fifo_step q (q @ [i])"
| fifo_leave: "fifo_step (i # q) q"
| fifo_stay: "fifo_step q q"

text \<open>A thread keeps its predecessors until they leave: nobody overtakes.\<close>

lemma fifo_step_order:
  assumes "fifo_step q q'" "q = us @ i # vs" "j \<in> set vs" "distinct q"
  shows "i \<notin> set q' \<or> (\<exists>us' vs'. q' = us' @ i # vs' \<and> j \<in> set vs')"
  using assms
proof cases
  case (fifo_join k)
  then have "q' = us @ i # (vs @ [k])" "j \<in> set (vs @ [k])" using assms by simp_all
  then show ?thesis by blast
next
  case (fifo_leave k)
  show ?thesis
  proof (cases us)
    case Nil
    then show ?thesis using fifo_leave assms by auto
  next
    case (Cons a us')
    then show ?thesis using fifo_leave assms by auto
  qed
next
  case fifo_stay
  then show ?thesis using assms by auto
qed

locale fifo_lock =
  fixes start :: "'s \<Rightarrow> bool"
    and step :: "'s \<Rightarrow> 's \<Rightarrow> bool"
    and inside :: "'s \<Rightarrow> nat \<Rightarrow> bool"
    and queue :: "'s \<Rightarrow> nat list \<Rightarrow> bool"
  assumes queue_start: "start s \<Longrightarrow> queue s []"
    and queue_step: "queue s q \<Longrightarrow> step s t \<Longrightarrow> \<exists>q'. fifo_step q q' \<and> queue t q'"
    and queue_inside: "queue s q \<Longrightarrow> inside s i \<Longrightarrow> \<exists>q'. q = i # q'"
begin

lemma queue_steps:
  assumes "step\<^sup>*\<^sup>* s t" "queue s q"
  shows "\<exists>q'. fifo_step\<^sup>*\<^sup>* q q' \<and> queue t q'"
  using assms
proof (induction rule: rtranclp_induct)
  case (step t u)
  then obtain q1 q2 where "fifo_step\<^sup>*\<^sup>* q q1" "fifo_step q1 q2" "queue u q2" using queue_step by blast
  then show ?case by (meson rtranclp.rtrancl_into_rtrancl)
qed blast

lemma refines_fifo: "start s \<Longrightarrow> step\<^sup>*\<^sup>* s t \<Longrightarrow> \<exists>q. fifo_step\<^sup>*\<^sup>* [] q \<and> queue t q"
  using queue_start queue_steps by blast

end

sublocale fifo_lock \<subseteq> mutex_lock start step inside "\<lambda>s. \<exists>q. queue s q"
proof unfold_locales
  show "\<exists>q. queue s q" if "start s" for s using queue_start [OF that] by blast
  show "\<exists>q. queue t q" if "\<exists>q. queue s q" "step s t" for s t using queue_step that by blast
  show "i = j" if "\<exists>q. queue s q" "inside s i" "inside s j" for s i j using queue_inside that by blast
qed

section \<open>Atomic operations\<close>

text \<open>\<open>CAS_U8\<close>, \<open>CAS_U32\<close>, \<open>CAS_U64\<close>: the previous value and the new memory.\<close>

definition cas :: "'v \<Rightarrow> 'v \<Rightarrow> 'v \<Rightarrow> 'v \<times> 'v" where
  "cas old new l = (l, if l = old then new else l)"

section \<open>Test-and-set lock\<close>

definition TAS_FREE :: u32 where "TAS_FREE = 0"

definition TAS_LCKD :: u32 where "TAS_LCKD = 1"

definition tas_init :: u32 where "tas_init = TAS_FREE"

text \<open>One round of the loop of \<open>tas_lock\<close>: does it go on spinning?\<close>

definition tas_lock_round :: "u32 \<Rightarrow> bool \<times> u32" where
  "tas_lock_round l = (let (r, l') = cas TAS_FREE TAS_LCKD l in (r = TAS_LCKD, l'))"

definition tas_trylock :: "u32 \<Rightarrow> bool \<times> u32" where
  "tas_trylock l = (let (r, l') = cas TAS_FREE TAS_LCKD l in (r = TAS_FREE, l'))"

definition tas_unlock :: "u32 \<Rightarrow> u32" where
  "tas_unlock l = TAS_FREE"

datatype tas_pc = Tas_out | Tas_spin | Tas_in

record tas_sys =
  tas_word :: u32
  tas_pcs :: "nat \<Rightarrow> tas_pc"

definition tas_start :: "tas_sys \<Rightarrow> bool" where
  "tas_start s \<longleftrightarrow> tas_word s = tas_init \<and> (\<forall>i. tas_pcs s i = Tas_out)"

definition tas_inside :: "tas_sys \<Rightarrow> nat \<Rightarrow> bool" where
  "tas_inside s i \<longleftrightarrow> tas_pcs s i = Tas_in"

inductive tas_step :: "tas_sys \<Rightarrow> tas_sys \<Rightarrow> bool" where
  tas_call_lock: "tas_pcs s i = Tas_out \<Longrightarrow> tas_step s (s\<lparr>tas_pcs := (tas_pcs s)(i := Tas_spin)\<rparr>)"
| tas_round: "tas_pcs s i = Tas_spin \<Longrightarrow> tas_lock_round (tas_word s) = (spin, l) \<Longrightarrow>
    tas_step s (s\<lparr>tas_word := l, tas_pcs := (tas_pcs s)(i := if spin then Tas_spin else Tas_in)\<rparr>)"
| tas_try: "tas_pcs s i = Tas_out \<Longrightarrow> tas_trylock (tas_word s) = (ok, l) \<Longrightarrow>
    tas_step s (s\<lparr>tas_word := l, tas_pcs := (tas_pcs s)(i := if ok then Tas_in else Tas_out)\<rparr>)"
| tas_free: "tas_pcs s i = Tas_in \<Longrightarrow>
    tas_step s (s\<lparr>tas_word := tas_unlock (tas_word s), tas_pcs := (tas_pcs s)(i := Tas_out)\<rparr>)"

inductive_cases tas_stepE: "tas_step s t"

text \<open>The word tells whether some thread is inside, and there is at most one.\<close>

definition tas_inv :: "tas_sys \<Rightarrow> bool" where
  "tas_inv s \<longleftrightarrow>
     tas_word s = TAS_FREE \<and> (\<forall>i. tas_pcs s i \<noteq> Tas_in) \<or>
     tas_word s = TAS_LCKD \<and> (\<exists>h. \<forall>i. tas_pcs s i = Tas_in \<longleftrightarrow> i = h)"

lemma tas_rounds:
  "tas_lock_round TAS_FREE = (False, TAS_LCKD)" "tas_lock_round TAS_LCKD = (True, TAS_LCKD)"
  "tas_trylock TAS_FREE = (True, TAS_LCKD)" "tas_trylock TAS_LCKD = (False, TAS_LCKD)"
  "tas_unlock l = TAS_FREE" "TAS_LCKD \<noteq> TAS_FREE" "TAS_FREE \<noteq> TAS_LCKD"
  by (simp_all add: tas_lock_round_def tas_trylock_def tas_unlock_def cas_def TAS_FREE_def TAS_LCKD_def)

lemma tas_inv_held: "tas_word s = TAS_LCKD \<Longrightarrow> (\<And>i. tas_pcs s i = Tas_in \<longleftrightarrow> i = h) \<Longrightarrow> tas_inv s"
  unfolding tas_inv_def by blast

lemma tas_inv_step:
  assumes inv: "tas_inv s" and st: "tas_step s t"
  shows "tas_inv t"
proof (cases "tas_word s = TAS_FREE")
  case True
  then have "\<forall>i. tas_pcs s i \<noteq> Tas_in" using inv by (simp add: tas_inv_def tas_rounds)
  with st True show ?thesis
    by (cases rule: tas_stepE) (auto simp: tas_inv_def tas_rounds split: if_splits)
next
  case False
  then obtain h where l: "tas_word s = TAS_LCKD" and h: "\<And>i. tas_pcs s i = Tas_in \<longleftrightarrow> i = h"
    using inv by (auto simp: tas_inv_def)
  have held: "tas_inv t" if "tas_word t = TAS_LCKD" "tas_pcs t = (tas_pcs s)(i := p)" "tas_pcs s i \<noteq> Tas_in" "p \<noteq> Tas_in"
    for i p
    using that h by (intro tas_inv_held [where h = h]) (auto simp: fun_upd_apply)
  from st show ?thesis
  proof cases
    case (tas_call_lock i)
    then show ?thesis using l by (intro held [of i Tas_spin]) simp_all
  next
    case (tas_round i spin l')
    then show ?thesis using l by (intro held [of i Tas_spin]) (simp_all add: tas_rounds)
  next
    case (tas_try i ok l')
    then show ?thesis using l by (intro held [of i Tas_out]) (simp_all add: tas_rounds)
  next
    case (tas_free i)
    then show ?thesis using h by (auto simp: tas_inv_def tas_rounds)
  qed
qed

interpretation tas: mutex_lock tas_start tas_step tas_inside tas_inv
proof unfold_locales
  show "tas_inv s" if "tas_start s" for s using that by (simp add: tas_start_def tas_inv_def tas_init_def)
  show "tas_inv t" if "tas_inv s" "tas_step s t" for s t by (rule tas_inv_step [OF that])
  show "i = j" if "tas_inv s" "tas_inside s i" "tas_inside s j" for s i j
    using that by (auto simp: tas_inside_def tas_inv_def)
qed

section \<open>Ticket lock\<close>

record ticket_st =
  ticket :: u32
  curr :: u32

definition ticket_init :: ticket_st where
  "ticket_init = \<lparr>ticket = 0, curr = 0\<rparr>"

text \<open>\<open>ticket_lock\<close>: \<open>FAI_U32\<close> takes a ticket, then the loop compares it with \<open>curr\<close>.\<close>

definition ticket_take :: "ticket_st \<Rightarrow> u32 \<times> ticket_st" where
  "ticket_take l = (ticket l, l\<lparr>ticket := ticket l + 1\<rparr>)"

definition ticket_spins :: "u32 \<Rightarrow> ticket_st \<Rightarrow> bool" where
  "ticket_spins t l \<longleftrightarrow> t \<noteq> curr l"

text \<open>\<open>ticket_trylock\<close>: the copy \<open>tc\<close> was loaded before; the CAS compares both words.\<close>

definition ticket_trylock :: "ticket_st \<Rightarrow> ticket_st \<Rightarrow> bool \<times> ticket_st" where
  "ticket_trylock tc l =
     (if curr tc = ticket tc then
        let (r, l') = cas tc (tc\<lparr>ticket := ticket tc + 1\<rparr>) l in (r = tc, l')
      else (False, l))"

text \<open>\<open>ticket_unlock\<close>: \<open>curr++\<close>, the value \<open>c\<close> was loaded before.\<close>

definition ticket_unlock :: "u32 \<Rightarrow> ticket_st \<Rightarrow> ticket_st" where
  "ticket_unlock c l = l\<lparr>curr := c + 1\<rparr>"

datatype ticket_pc = Tk_out | Tk_wait u32 | Tk_copy ticket_st | Tk_in | Tk_leave u32

record ticket_sys =
  tk_lock :: ticket_st
  tk_pcs :: "nat \<Rightarrow> ticket_pc"

definition ticket_start :: "ticket_sys \<Rightarrow> bool" where
  "ticket_start s \<longleftrightarrow> tk_lock s = ticket_init \<and> (\<forall>i. tk_pcs s i = Tk_out)"

definition ticket_inside :: "ticket_sys \<Rightarrow> nat \<Rightarrow> bool" where
  "ticket_inside s i \<longleftrightarrow> tk_pcs s i = Tk_in \<or> (\<exists>c. tk_pcs s i = Tk_leave c)"

text \<open>The steps of \<open>n\<close> threads.\<close>

inductive ticket_step :: "nat \<Rightarrow> ticket_sys \<Rightarrow> ticket_sys \<Rightarrow> bool" for n :: nat where
  ticket_takes: "i < n \<Longrightarrow> tk_pcs s i = Tk_out \<Longrightarrow> ticket_take (tk_lock s) = (t, l) \<Longrightarrow>
    ticket_step n s (s\<lparr>tk_lock := l, tk_pcs := (tk_pcs s)(i := Tk_wait t)\<rparr>)"
| ticket_waits: "i < n \<Longrightarrow> tk_pcs s i = Tk_wait t \<Longrightarrow> ticket_spins t (tk_lock s) \<Longrightarrow> ticket_step n s s"
| ticket_enters: "i < n \<Longrightarrow> tk_pcs s i = Tk_wait t \<Longrightarrow> \<not> ticket_spins t (tk_lock s) \<Longrightarrow>
    ticket_step n s (s\<lparr>tk_pcs := (tk_pcs s)(i := Tk_in)\<rparr>)"
| ticket_copies: "i < n \<Longrightarrow> tk_pcs s i = Tk_out \<Longrightarrow>
    ticket_step n s (s\<lparr>tk_pcs := (tk_pcs s)(i := Tk_copy (tk_lock s))\<rparr>)"
| ticket_tries: "i < n \<Longrightarrow> tk_pcs s i = Tk_copy tc \<Longrightarrow> ticket_trylock tc (tk_lock s) = (ok, l) \<Longrightarrow>
    ticket_step n s (s\<lparr>tk_lock := l, tk_pcs := (tk_pcs s)(i := if ok then Tk_in else Tk_out)\<rparr>)"
| ticket_reads: "i < n \<Longrightarrow> tk_pcs s i = Tk_in \<Longrightarrow>
    ticket_step n s (s\<lparr>tk_pcs := (tk_pcs s)(i := Tk_leave (curr (tk_lock s)))\<rparr>)"
| ticket_leaves: "i < n \<Longrightarrow> tk_pcs s i = Tk_leave c \<Longrightarrow>
    ticket_step n s (s\<lparr>tk_lock := ticket_unlock c (tk_lock s), tk_pcs := (tk_pcs s)(i := Tk_out)\<rparr>)"

inductive_cases ticket_stepE: "ticket_step n s t"

text \<open>The queue of a ticket lock: the k-th thread waits for the ticket \<open>curr + k\<close>.\<close>

fun ticket_place :: "u32 \<Rightarrow> nat \<Rightarrow> ticket_pc \<Rightarrow> bool" where
  "ticket_place c k (Tk_wait t) \<longleftrightarrow> t = c + of_nat k"
| "ticket_place c k Tk_in \<longleftrightarrow> k = 0"
| "ticket_place c k (Tk_leave c') \<longleftrightarrow> k = 0 \<and> c' = c"
| "ticket_place c k _ \<longleftrightarrow> False"

fun ticket_active :: "ticket_pc \<Rightarrow> bool" where
  "ticket_active Tk_out \<longleftrightarrow> False"
| "ticket_active (Tk_copy _) \<longleftrightarrow> False"
| "ticket_active _ \<longleftrightarrow> True"

definition ticket_queue :: "nat \<Rightarrow> ticket_sys \<Rightarrow> nat list \<Rightarrow> bool" where
  "ticket_queue n s q \<longleftrightarrow>
     distinct q \<and> set q \<subseteq> {..<n} \<and> ticket (tk_lock s) = curr (tk_lock s) + of_nat (length q) \<and>
     (\<forall>i. ticket_active (tk_pcs s i) \<longrightarrow> i \<in> set q) \<and>
     (\<forall>k < length q. ticket_place (curr (tk_lock s)) k (tk_pcs s (q ! k)))"

lemma ticket_queue_length:
  assumes "ticket_queue n s q" "n < 2 ^ 32"
  shows "length q \<le> n" "k \<le> length q \<Longrightarrow> of_nat k = (0 :: u32) \<longleftrightarrow> k = 0"
proof -
  have "card (set q) \<le> card {..<n}" using assms(1) by (intro card_mono) (auto simp: ticket_queue_def)
  then show len: "length q \<le> n" using assms(1) by (simp add: ticket_queue_def distinct_card)
  assume "k \<le> length q"
  then have "unat (of_nat k :: u32) = k" using len assms(2) by (simp add: unat_of_nat_less)
  then show "of_nat k = (0 :: u32) \<longleftrightarrow> k = 0" by (metis unat_eq_zero)
qed

lemma ticket_queue_member:
  assumes "ticket_queue n s q" "i \<in> set q"
  obtains k where "k < length q" "q ! k = i" "ticket_place (curr (tk_lock s)) k (tk_pcs s i)"
  using assms by (metis in_set_conv_nth ticket_queue_def)

lemma ticket_queue_active: "ticket_queue n s q \<Longrightarrow> i \<in> set q \<longleftrightarrow> ticket_active (tk_pcs s i)"
proof
  assume q: "ticket_queue n s q" and "i \<in> set q"
  then obtain k where "ticket_place (curr (tk_lock s)) k (tk_pcs s i)" by (rule ticket_queue_member)
  then show "ticket_active (tk_pcs s i)" by (cases "tk_pcs s i") simp_all
qed (auto simp: ticket_queue_def)

lemma ticket_queue_head:
  assumes q: "ticket_queue n s q" and i: "ticket_inside s i"
  shows "\<exists>q'. q = i # q'"
proof -
  have "i \<in> set q" using i ticket_queue_active [OF q, of i] by (auto simp: ticket_inside_def)
  with q obtain k where k: "k < length q" "q ! k = i" "ticket_place (curr (tk_lock s)) k (tk_pcs s i)"
    by (rule ticket_queue_member)
  have "k = 0" using i k(3) by (auto simp: ticket_inside_def)
  then show ?thesis using k by (cases q) auto
qed

lemma ticket_queue_upd:
  assumes q: "ticket_queue n s q" and k: "k < length q"
    and t: "tk_lock t = tk_lock s" "tk_pcs t = (tk_pcs s)(q ! k := p)"
    and p: "ticket_place (curr (tk_lock s)) k p"
  shows "ticket_queue n t q"
proof -
  have "ticket_place (curr (tk_lock t)) m (tk_pcs t (q ! m))" if "m < length q" for m
    using q k t p that by (cases "m = k") (simp_all add: ticket_queue_def nth_eq_iff_index_eq)
  moreover have "i \<in> set q" if "ticket_active (tk_pcs t i)" for i
    using q t k that by (cases "i = q ! k") (simp_all add: ticket_queue_def)
  ultimately show ?thesis using q t by (simp add: ticket_queue_def)
qed

lemma ticket_queue_idle:
  assumes q: "ticket_queue n s q" and i: "\<not> ticket_active (tk_pcs s i)"
    and t: "tk_lock t = tk_lock s" "tk_pcs t = (tk_pcs s)(i := p)" and p: "\<not> ticket_active p"
  shows "ticket_queue n t q"
proof -
  have "i \<notin> set q" using ticket_queue_active [OF q, of i] i by simp
  then have "tk_pcs t (q ! k) = tk_pcs s (q ! k)" if "k < length q" for k
    using that t nth_mem by fastforce
  moreover have "j \<in> set q" if "ticket_active (tk_pcs t j)" for j
    using q t p that by (cases "j = i") (simp_all add: ticket_queue_def)
  ultimately show ?thesis using q t by (simp add: ticket_queue_def)
qed

lemma ticket_queue_join:
  assumes q: "ticket_queue n s q" and i: "i < n" "\<not> ticket_active (tk_pcs s i)"
    and t: "tk_lock t = (tk_lock s)\<lparr>ticket := ticket (tk_lock s) + 1\<rparr>" "tk_pcs t = (tk_pcs s)(i := p)"
    and p: "ticket_place (curr (tk_lock s)) (length q) p"
  shows "fifo_step q (q @ [i]) \<and> ticket_queue n t (q @ [i])"
proof -
  have iq: "i \<notin> set q" using ticket_queue_active [OF q, of i] i by simp
  have "ticket_place (curr (tk_lock t)) m (tk_pcs t ((q @ [i]) ! m))" if "m < length (q @ [i])" for m
  proof (cases "m = length q")
    case True
    then show ?thesis using t p by simp
  next
    case False
    then have m: "m < length q" using that by simp
    then have "q ! m \<noteq> i" using iq nth_mem by fastforce
    then show ?thesis using q t m by (simp add: ticket_queue_def nth_append)
  qed
  moreover have "j \<in> set (q @ [i])" if "ticket_active (tk_pcs t j)" for j
    using q t that by (cases "j = i") (simp_all add: ticket_queue_def)
  ultimately show ?thesis using q t i iq by (auto simp: ticket_queue_def intro: fifo_join)
qed

lemma ticket_queue_leave:
  assumes q: "ticket_queue n s (i # q)"
    and t: "tk_lock t = (tk_lock s)\<lparr>curr := curr (tk_lock s) + 1\<rparr>" "tk_pcs t = (tk_pcs s)(i := Tk_out)"
    and i: "ticket_inside s i"
  shows "ticket_queue n t q"
proof -
  have iq: "i \<notin> set q" using q by (simp add: ticket_queue_def)
  have "ticket_place (curr (tk_lock t)) m (tk_pcs t (q ! m))" if m: "m < length q" for m
  proof -
    have ne: "q ! m \<noteq> i" using iq m nth_mem by fastforce
    have "Suc m < length (i # q)" using m by simp
    then have "ticket_place (curr (tk_lock s)) (Suc m) (tk_pcs s ((i # q) ! Suc m))" using q unfolding ticket_queue_def by blast
    then have "ticket_place (curr (tk_lock s) + 1) m (tk_pcs s (q ! m))"
      by (cases "tk_pcs s (q ! m)") (simp_all add: algebra_simps)
    then show ?thesis using ne t by simp
  qed
  moreover have "j \<in> set q" if "ticket_active (tk_pcs t j)" for j
    using q t that by (cases "j = i") (auto simp: ticket_queue_def)
  ultimately show ?thesis using q t by (auto simp: ticket_queue_def algebra_simps)
qed

lemma ticket_queue_step:
  assumes n: "n < 2 ^ 32" and q: "ticket_queue n s q" and st: "ticket_step n s t"
  shows "\<exists>q'. fifo_step q q' \<and> ticket_queue n t q'"
  using st
proof cases
  case (ticket_takes i tk l)
  then have "ticket_place (curr (tk_lock s)) (length q) (Tk_wait tk)"
    using q by (simp add: ticket_queue_def ticket_take_def)
  with ticket_takes ticket_queue_join [OF q, of i t "Tk_wait tk"] show ?thesis by (auto simp: ticket_take_def)
next
  case (ticket_waits i tk)
  then show ?thesis using q fifo_stay by blast
next
  case (ticket_enters i tk)
  then have "i \<in> set q" using ticket_queue_active [OF q, of i] by simp
  then obtain k where k: "k < length q" "q ! k = i" "ticket_place (curr (tk_lock s)) k (tk_pcs s i)"
    by (rule ticket_queue_member [OF q])
  have "k = 0" using k ticket_enters ticket_queue_length(2) [OF q n, of k] by (simp add: ticket_spins_def)
  then have "ticket_queue n t q" using k ticket_enters by (intro ticket_queue_upd [OF q k(1), where p = Tk_in]) auto
  then show ?thesis using fifo_stay by blast
next
  case (ticket_copies i)
  then have "ticket_queue n t q" by (intro ticket_queue_idle [OF q, of i _ "Tk_copy (tk_lock s)"]) simp_all
  then show ?thesis using fifo_stay by blast
next
  case (ticket_tries i tc ok l)
  show ?thesis
  proof (cases ok)
    case True
    then have l: "tc = tk_lock s" "curr tc = ticket tc" "l = tc\<lparr>ticket := ticket tc + 1\<rparr>"
      using ticket_tries by (auto simp: ticket_trylock_def cas_def split: if_splits)
    then have "length q = 0" using q ticket_queue_length(2) [OF q n, of "length q"] by (simp add: ticket_queue_def)
    then show ?thesis using ticket_queue_join [OF q, of i t Tk_in] ticket_tries True l by auto
  next
    case False
    then have "l = tk_lock s" using ticket_tries by (auto simp: ticket_trylock_def cas_def split: if_splits)
    then have "ticket_queue n t q" using ticket_tries False by (intro ticket_queue_idle [OF q, of i _ Tk_out]) simp_all
    then show ?thesis using fifo_stay by blast
  qed
next
  case (ticket_reads i)
  then obtain q' where q': "q = i # q'" using ticket_queue_head [OF q, of i] by (auto simp: ticket_inside_def)
  have "ticket_queue n t q" by (rule ticket_queue_upd [OF q, of 0 _ "Tk_leave (curr (tk_lock s))"])
    (use ticket_reads q' in simp_all)
  then show ?thesis using fifo_stay by blast
next
  case (ticket_leaves i c)
  then have ins: "ticket_inside s i" by (simp add: ticket_inside_def)
  obtain q' where q': "q = i # q'" using ticket_queue_head [OF q ins] by blast
  have "ticket_place (curr (tk_lock s)) 0 (tk_pcs s i)" using q q' by (auto simp: ticket_queue_def)
  then have "c = curr (tk_lock s)" using ticket_leaves by simp
  then have "ticket_queue n t q'"
    using ticket_leaves by (intro ticket_queue_leave [OF q [unfolded q'] _ _ ins]) (simp_all add: ticket_unlock_def)
  then show ?thesis using q' fifo_leave by blast
qed

interpretation ticket: fifo_lock ticket_start "ticket_step (unat m)" ticket_inside "ticket_queue (unat m)"
  for m :: u32
proof unfold_locales
  show "ticket_queue (unat m) s []" if "ticket_start s" for s
    using that by (simp add: ticket_start_def ticket_queue_def ticket_init_def)
  show "\<exists>q'. fifo_step q q' \<and> ticket_queue (unat m) t q'"
    if "ticket_queue (unat m) s q" "ticket_step (unat m) s t" for s q t
    by (rule ticket_queue_step [OF unat_u32_less that])
  show "\<exists>q'. q = i # q'" if "ticket_queue (unat m) s q" "ticket_inside s i" for s q i
    by (rule ticket_queue_head [OF that])
qed

text \<open>Somebody can always get on: with threads waiting and nobody inside, the first one is let in.\<close>

lemma ticket_queue_progress:
  assumes q: "ticket_queue n s q" and w: "i \<in> set q" and none: "\<not> ticket_inside s (hd q)"
  shows "\<exists>t. tk_pcs s (hd q) = Tk_wait t \<and> \<not> ticket_spins t (tk_lock s)"
proof -
  have ne: "q \<noteq> []" using w by auto
  then have "ticket_place (curr (tk_lock s)) 0 (tk_pcs s (hd q))" using q by (simp add: ticket_queue_def hd_conv_nth)
  then show ?thesis
    using none by (cases "tk_pcs s (hd q)") (auto simp: ticket_inside_def ticket_spins_def)
qed

section \<open>CLH queue lock\<close>

text \<open>\<open>clh_locked\<close> is the memory of the queue nodes (one byte each), \<open>clh_tail\<close> the lock; the
  thread-local \<open>clh_local_p\<close> holds \<open>my_qnode\<close> and \<open>my_pred\<close>. \<open>Clh_swap\<close> is a thread between the store
  and the exchange of \<open>clh_acquire\<close>, \<open>Clh_spin pred\<close> one in its loop.\<close>

datatype clh_pc = Clh_out | Clh_swap | Clh_spin ptr | Clh_in

record clh_sys =
  clh_locked :: "ptr \<rightharpoonup> u8"
  clh_tail :: ptr
  my_qnode :: "nat \<Rightarrow> ptr"
  my_pred :: "nat \<Rightarrow> ptr"
  clh_pcs :: "nat \<Rightarrow> clh_pc"

definition set_locked :: "ptr \<Rightarrow> u8 \<Rightarrow> clh_sys \<Rightarrow> clh_sys option" where
  "set_locked p v s =
     (case clh_locked s p of None \<Rightarrow> None | Some _ \<Rightarrow> Some (s\<lparr>clh_locked := (clh_locked s)(p \<mapsto> v)\<rparr>))"

text \<open>\<open>init_alloc_clh\<close> and \<open>init_clh_thread\<close>: \<open>memalign\<close> gives the node \<open>p\<close>.\<close>

definition init_alloc_clh :: "ptr \<Rightarrow> clh_sys \<Rightarrow> clh_sys" where
  "init_alloc_clh p s = s\<lparr>clh_locked := (clh_locked s)(p \<mapsto> 0), clh_tail := p\<rparr>"

definition init_clh_thread :: "nat \<Rightarrow> ptr \<Rightarrow> clh_sys \<Rightarrow> clh_sys" where
  "init_clh_thread i p s =
     s\<lparr>clh_locked := (clh_locked s)(p \<mapsto> 0), my_qnode := (my_qnode s)(i := p), my_pred := (my_pred s)(i := NULL)\<rparr>"

definition clh_acquire_lock :: "nat \<Rightarrow> clh_sys \<Rightarrow> clh_sys option" where
  "clh_acquire_lock i s = do {
     s1 \<leftarrow> set_locked (my_qnode s i) 1 s;
     Some (s1\<lparr>clh_pcs := (clh_pcs s1)(i := Clh_swap)\<rparr>)
   }"

definition clh_acquire_swap :: "nat \<Rightarrow> clh_sys \<Rightarrow> clh_sys" where
  "clh_acquire_swap i s =
     (let pred = clh_tail s; s1 = s\<lparr>clh_tail := my_qnode s i\<rparr>
      in if pred = NULL then s1\<lparr>my_pred := (my_pred s1)(i := NULL), clh_pcs := (clh_pcs s1)(i := Clh_in)\<rparr>
         else s1\<lparr>clh_pcs := (clh_pcs s1)(i := Clh_spin pred)\<rparr>)"

definition clh_acquire_round :: "nat \<Rightarrow> ptr \<Rightarrow> clh_sys \<Rightarrow> clh_sys option" where
  "clh_acquire_round i pred s = do {
     v \<leftarrow> clh_locked s pred;
     Some (if v \<noteq> 0 then s
           else s\<lparr>my_pred := (my_pred s)(i := pred), clh_pcs := (clh_pcs s)(i := Clh_in)\<rparr>)
   }"

definition clh_release :: "nat \<Rightarrow> clh_sys \<Rightarrow> clh_sys option" where
  "clh_release i s = do {
     s1 \<leftarrow> set_locked (my_qnode s i) 0 s;
     Some (s1\<lparr>my_qnode := (my_qnode s1)(i := my_pred s1 i), clh_pcs := (clh_pcs s1)(i := Clh_out)\<rparr>)
   }"

inductive clh_step :: "nat \<Rightarrow> clh_sys \<Rightarrow> clh_sys \<Rightarrow> bool" for n :: nat where
  clh_locks: "i < n \<Longrightarrow> clh_pcs s i = Clh_out \<Longrightarrow> clh_acquire_lock i s = Some t \<Longrightarrow> clh_step n s t"
| clh_swaps: "i < n \<Longrightarrow> clh_pcs s i = Clh_swap \<Longrightarrow> clh_step n s (clh_acquire_swap i s)"
| clh_spins: "i < n \<Longrightarrow> clh_pcs s i = Clh_spin p \<Longrightarrow> clh_acquire_round i p s = Some t \<Longrightarrow> clh_step n s t"
| clh_frees: "i < n \<Longrightarrow> clh_pcs s i = Clh_in \<Longrightarrow> clh_release i s = Some t \<Longrightarrow> clh_step n s t"

text \<open>The lock and \<open>n\<close> threads after their initialisation, with nodes \<open>p\<close> and \<open>ps\<close>.\<close>

definition clh_init :: "ptr \<Rightarrow> ptr list \<Rightarrow> clh_sys" where
  "clh_init p ps =
     fold (\<lambda>i. init_clh_thread i (ps ! i)) [0..<length ps]
       (init_alloc_clh p \<lparr>clh_locked = Map.empty, clh_tail = NULL, my_qnode = (\<lambda>_. NULL),
          my_pred = (\<lambda>_. NULL), clh_pcs = (\<lambda>_. Clh_out)\<rparr>)"

definition clh_start :: "nat \<Rightarrow> clh_sys \<Rightarrow> bool" where
  "clh_start n s \<longleftrightarrow> (\<exists>p ps. length ps = n \<and> distinct (p # ps) \<and> NULL \<notin> set (p # ps) \<and> s = clh_init p ps)"

definition clh_inside :: "clh_sys \<Rightarrow> nat \<Rightarrow> bool" where
  "clh_inside s i \<longleftrightarrow> clh_pcs s i = Clh_in"

text \<open>The queue: each thread's predecessor is the node of the thread before it; \<open>free\<close> is the node
  before the first thread, whose flag is down.\<close>

fun clh_chain :: "clh_sys \<Rightarrow> ptr \<Rightarrow> nat list \<Rightarrow> bool" where
  "clh_chain s pred [] \<longleftrightarrow> clh_tail s = pred"
| "clh_chain s pred (i # q) \<longleftrightarrow> clh_pcs s i = Clh_spin pred \<and> clh_chain s (my_qnode s i) q"

fun clh_line :: "clh_sys \<Rightarrow> ptr \<Rightarrow> nat list \<Rightarrow> bool" where
  "clh_line s free [] \<longleftrightarrow> clh_tail s = free"
| "clh_line s free (i # q) \<longleftrightarrow>
     (clh_pcs s i = Clh_spin free \<or> clh_pcs s i = Clh_in \<and> my_pred s i = free) \<and> clh_chain s (my_qnode s i) q"

definition clh_queue :: "nat \<Rightarrow> clh_sys \<Rightarrow> nat list \<Rightarrow> bool" where
  "clh_queue n s q \<longleftrightarrow>
     distinct q \<and> set q \<subseteq> {..<n} \<and> inj_on (my_qnode s) {..<n} \<and>
     (\<forall>i < n. my_qnode s i \<noteq> NULL \<and> clh_locked s (my_qnode s i) \<noteq> None) \<and>
     (\<forall>i. i \<in> set q \<longleftrightarrow> clh_pcs s i = Clh_in \<or> (\<exists>p. clh_pcs s i = Clh_spin p)) \<and>
     (\<forall>i < n. clh_pcs s i \<noteq> Clh_out \<longrightarrow> clh_locked s (my_qnode s i) = Some 1) \<and>
     (\<exists>free. free \<noteq> NULL \<and> free \<notin> my_qnode s ` {..<n} \<and> clh_locked s free = Some 0 \<and> clh_line s free q)"

lemma clh_chain_cong:
  assumes "clh_tail t = clh_tail s"
    "\<And>i. i \<in> set q \<Longrightarrow> clh_pcs t i = clh_pcs s i \<and> my_qnode t i = my_qnode s i"
  shows "clh_chain t p q = clh_chain s p q"
  using assms(2) by (induction q arbitrary: p) (simp_all add: assms(1))

lemma clh_line_cong:
  assumes "clh_tail t = clh_tail s"
    "\<And>i. i \<in> set q \<Longrightarrow> clh_pcs t i = clh_pcs s i \<and> my_qnode t i = my_qnode s i \<and> my_pred t i = my_pred s i"
  shows "clh_line t p q = clh_line s p q"
proof (cases q)
  case (Cons i q')
  then have "clh_chain t (my_qnode s i) q' = clh_chain s (my_qnode s i) q'" using assms by (intro clh_chain_cong) auto
  then show ?thesis using assms(2) Cons by simp
qed (simp add: assms(1))

lemma clh_chain_line: "clh_chain s p q \<Longrightarrow> clh_line s p q"
  by (cases q) simp_all

lemma clh_chain_append:
  "clh_chain s p q \<Longrightarrow> i \<notin> set q \<Longrightarrow> clh_tail t = my_qnode t i \<Longrightarrow> clh_pcs t i = Clh_spin (clh_tail s) \<Longrightarrow>
   (\<And>j. j \<in> set q \<Longrightarrow> clh_pcs t j = clh_pcs s j \<and> my_qnode t j = my_qnode s j) \<Longrightarrow> clh_chain t p (q @ [i])"
  by (induction q arbitrary: p) simp_all

lemma clh_line_append:
  assumes "clh_line s p q" "i \<notin> set q" "clh_tail t = my_qnode t i" "clh_pcs t i = Clh_spin (clh_tail s)"
    "\<And>j. j \<in> set q \<Longrightarrow> clh_pcs t j = clh_pcs s j \<and> my_qnode t j = my_qnode s j \<and> my_pred t j = my_pred s j"
  shows "clh_line t p (q @ [i])"
proof (cases q)
  case (Cons j q')
  then have "clh_chain t (my_qnode s j) (q' @ [i])" using assms by (intro clh_chain_append [of s]) auto
  then show ?thesis using assms Cons by auto
qed (use assms in simp)

lemma clh_chain_tail: "clh_chain s p q \<Longrightarrow> clh_tail s \<in> insert p (my_qnode s ` set q)"
proof (induction q arbitrary: p)
  case (Cons i q)
  then have "clh_tail s \<in> insert (my_qnode s i) (my_qnode s ` set q)" by simp
  then show ?case by auto
qed simp

lemma clh_line_tail: "clh_line s p q \<Longrightarrow> clh_tail s \<in> insert p (my_qnode s ` set q)"
  using clh_chain_tail by (cases q) fastforce+

text \<open>Only the first thread can find the flag of its predecessor down.\<close>

lemma clh_chain_behind:
  "clh_chain s p q \<Longrightarrow> j \<in> set q \<Longrightarrow> clh_pcs s j = Clh_spin r \<Longrightarrow> r = p \<or> (\<exists>i \<in> set q. r = my_qnode s i)"
proof (induction q arbitrary: p)
  case (Cons i q)
  show ?case
  proof (cases "j = i")
    case True
    then show ?thesis using Cons.prems by simp
  next
    case False
    then have "r = my_qnode s i \<or> (\<exists>k \<in> set q. r = my_qnode s k)" using Cons.prems by (intro Cons.IH) auto
    then show ?thesis by auto
  qed
qed simp

lemma clh_queueE:
  assumes "clh_queue n s q"
  obtains free where "distinct q" "set q \<subseteq> {..<n}" "inj_on (my_qnode s) {..<n}"
    "\<And>i. i < n \<Longrightarrow> my_qnode s i \<noteq> NULL \<and> clh_locked s (my_qnode s i) \<noteq> None"
    "\<And>i. i \<in> set q \<longleftrightarrow> clh_pcs s i = Clh_in \<or> (\<exists>p. clh_pcs s i = Clh_spin p)"
    "\<And>i. i < n \<Longrightarrow> clh_pcs s i \<noteq> Clh_out \<Longrightarrow> clh_locked s (my_qnode s i) = Some 1"
    "free \<noteq> NULL" "free \<notin> my_qnode s ` {..<n}" "clh_locked s free = Some 0" "clh_line s free q"
  using assms unfolding clh_queue_def by blast

lemma clh_queue_head:
  assumes "clh_queue n s q" "clh_inside s i"
  shows "\<exists>q'. q = i # q'"
proof -
  from assms(1) obtain free where q: "clh_line s free q" "i \<in> set q"
    by (rule clh_queueE) (use assms(2) in \<open>auto simp: clh_inside_def\<close>)
  have no: "clh_chain s p r \<Longrightarrow> i \<notin> set r" for p r
    using assms(2) by (induction r arbitrary: p) (auto simp: clh_inside_def)
  then show ?thesis using q by (cases q) auto
qed

lemma clh_queue_spin:
  assumes q: "clh_queue n s q" and i: "i < n" "clh_pcs s i = Clh_spin p" "clh_locked s p = Some 0"
  shows "\<exists>q'. q = i # q'"
  using q
proof (rule clh_queueE)
  fix free
  assume a: "set q \<subseteq> {..<n}" "\<And>i. i \<in> set q \<longleftrightarrow> clh_pcs s i = Clh_in \<or> (\<exists>p. clh_pcs s i = Clh_spin p)"
    "\<And>i. i < n \<Longrightarrow> clh_pcs s i \<noteq> Clh_out \<Longrightarrow> clh_locked s (my_qnode s i) = Some 1" "clh_line s free q"
  have iq: "i \<in> set q" using a(2) i(2) by blast
  then obtain j q' where j: "q = j # q'" by (cases q) auto
  have "i = j"
  proof (rule ccontr)
    assume ne: "i \<noteq> j"
    then have "clh_chain s (my_qnode s j) q'" "i \<in> set q'" using a(4) iq j by auto
    from clh_chain_behind [OF this i(2)] obtain k where k: "k \<in> set q" "p = my_qnode s k" using j by auto
    then have "k < n" "clh_pcs s k \<noteq> Clh_out" using a(1) a(2) [of k] by auto
    then have "clh_locked s p = Some 1" using a(3) k(2) by simp
    then show False using i(3) by simp
  qed
  then show ?thesis using j by blast
qed

lemma clh_queueI:
  assumes "distinct q" "set q \<subseteq> {..<n}" "inj_on (my_qnode s) {..<n}"
    "\<And>i. i < n \<Longrightarrow> my_qnode s i \<noteq> NULL \<and> clh_locked s (my_qnode s i) \<noteq> None"
    "\<And>i. i \<in> set q \<longleftrightarrow> clh_pcs s i = Clh_in \<or> (\<exists>p. clh_pcs s i = Clh_spin p)"
    "\<And>i. i < n \<Longrightarrow> clh_pcs s i \<noteq> Clh_out \<Longrightarrow> clh_locked s (my_qnode s i) = Some 1"
    "free \<noteq> NULL" "free \<notin> my_qnode s ` {..<n}" "clh_locked s free = Some 0" "clh_line s free q"
  shows "clh_queue n s q"
  using assms unfolding clh_queue_def by blast

lemma clh_lock_step:
  assumes q: "clh_queue n s q" and i: "i < n" "clh_pcs s i = Clh_out"
  shows "\<exists>t. clh_acquire_lock i s = Some t \<and> clh_queue n t q"
  using q
proof (rule clh_queueE)
  fix free
  assume a: "distinct q" "set q \<subseteq> {..<n}" "inj_on (my_qnode s) {..<n}"
    "\<And>i. i < n \<Longrightarrow> my_qnode s i \<noteq> NULL \<and> clh_locked s (my_qnode s i) \<noteq> None"
    "\<And>i. i \<in> set q \<longleftrightarrow> clh_pcs s i = Clh_in \<or> (\<exists>p. clh_pcs s i = Clh_spin p)"
    "\<And>i. i < n \<Longrightarrow> clh_pcs s i \<noteq> Clh_out \<Longrightarrow> clh_locked s (my_qnode s i) = Some 1"
    "free \<noteq> NULL" "free \<notin> my_qnode s ` {..<n}" "clh_locked s free = Some 0" "clh_line s free q"
  let ?t = "s\<lparr>clh_locked := (clh_locked s)(my_qnode s i \<mapsto> 1), clh_pcs := (clh_pcs s)(i := Clh_swap)\<rparr>"
  obtain v where v: "clh_locked s (my_qnode s i) = Some v" using a(4) i(1) by blast
  have iq: "i \<notin> set q" using a(5) [of i] i(2) by simp
  have inj: "my_qnode s j = my_qnode s i \<longleftrightarrow> j = i" if "j < n" for j using a(3) i(1) that by (auto simp: inj_on_def)
  have fr: "my_qnode s i \<noteq> free" using a(8) i(1) by auto
  have "clh_line ?t free q = clh_line s free q" by (rule clh_line_cong) (use iq in auto)
  then have "clh_queue n ?t q"
    using a inj i fr by (intro clh_queueI [where free = free]) (auto simp: fun_upd_apply)
  moreover have "clh_acquire_lock i s = Some ?t" using v by (simp add: clh_acquire_lock_def set_locked_def)
  ultimately show ?thesis by blast
qed

lemma clh_swap_step:
  assumes q: "clh_queue n s q" and i: "i < n" "clh_pcs s i = Clh_swap"
  shows "fifo_step q (q @ [i]) \<and> clh_queue n (clh_acquire_swap i s) (q @ [i])"
  using q
proof (rule clh_queueE)
  fix free
  assume a: "distinct q" "set q \<subseteq> {..<n}" "inj_on (my_qnode s) {..<n}"
    "\<And>i. i < n \<Longrightarrow> my_qnode s i \<noteq> NULL \<and> clh_locked s (my_qnode s i) \<noteq> None"
    "\<And>i. i \<in> set q \<longleftrightarrow> clh_pcs s i = Clh_in \<or> (\<exists>p. clh_pcs s i = Clh_spin p)"
    "\<And>i. i < n \<Longrightarrow> clh_pcs s i \<noteq> Clh_out \<Longrightarrow> clh_locked s (my_qnode s i) = Some 1"
    "free \<noteq> NULL" "free \<notin> my_qnode s ` {..<n}" "clh_locked s free = Some 0" "clh_line s free q"
  let ?t = "s\<lparr>clh_tail := my_qnode s i, clh_pcs := (clh_pcs s)(i := Clh_spin (clh_tail s))\<rparr>"
  have iq: "i \<notin> set q" using a(5) [of i] i(2) by simp
  have "clh_tail s \<noteq> NULL" using clh_line_tail [OF a(10)] a(2,4,7) by auto
  then have t: "clh_acquire_swap i s = ?t" by (simp add: clh_acquire_swap_def Let_def)
  have line: "clh_line ?t free (q @ [i])" by (rule clh_line_append [OF a(10) iq]) (use iq in auto)
  have lk: "clh_locked ?t (my_qnode ?t j) = Some 1" if "j < n" "clh_pcs ?t j \<noteq> Clh_out" for j
    using a(6) [OF that(1)] that(2) i by (cases "j = i") auto
  have "clh_queue n ?t (q @ [i])"
    by (rule clh_queueI [where free = free, OF _ _ _ _ _ lk _ _ _ line]) (use a(1-5,7-9) iq i in auto)
  then show ?thesis using t fifo_join [OF iq] by simp
qed

lemma clh_round_step:
  assumes q: "clh_queue n s q" and i: "i < n" "clh_pcs s i = Clh_spin p"
  shows "\<exists>t. clh_acquire_round i p s = Some t \<and> clh_queue n t q"
  using q
proof (rule clh_queueE)
  fix free
  assume a: "distinct q" "set q \<subseteq> {..<n}" "inj_on (my_qnode s) {..<n}"
    "\<And>i. i < n \<Longrightarrow> my_qnode s i \<noteq> NULL \<and> clh_locked s (my_qnode s i) \<noteq> None"
    "\<And>i. i \<in> set q \<longleftrightarrow> clh_pcs s i = Clh_in \<or> (\<exists>p. clh_pcs s i = Clh_spin p)"
    "\<And>i. i < n \<Longrightarrow> clh_pcs s i \<noteq> Clh_out \<Longrightarrow> clh_locked s (my_qnode s i) = Some 1"
    "free \<noteq> NULL" "free \<notin> my_qnode s ` {..<n}" "clh_locked s free = Some 0" "clh_line s free q"
  have iq: "i \<in> set q" using a(5) i(2) by blast
  have "p = free \<or> (\<exists>k \<in> set q. p = my_qnode s k)"
  proof (cases q)
    case (Cons j q')
    show ?thesis
    proof (cases "i = j")
      case True
      then show ?thesis using a(10) i(2) Cons by simp
    next
      case False
      then have "clh_chain s (my_qnode s j) q'" "i \<in> set q'" using a(10) iq Cons by auto
      from clh_chain_behind [OF this i(2)] show ?thesis using Cons by auto
    qed
  qed (use iq in simp)
  then obtain v where v: "clh_locked s p = Some v" using a(2,4,9) by blast
  show ?thesis
  proof (cases "v = 0")
    case True
    then obtain q' where q': "q = i # q'" using clh_queue_spin [OF q i] v by blast
    let ?t = "s\<lparr>my_pred := (my_pred s)(i := p), clh_pcs := (clh_pcs s)(i := Clh_in)\<rparr>"
    have "p = free" using a(10) i(2) q' by simp
    moreover have "i \<notin> set q'" using a(1) q' by simp
    then have "clh_chain ?t (my_qnode s i) q' = clh_chain s (my_qnode s i) q'" by (intro clh_chain_cong) auto
    ultimately have line: "clh_line ?t free q" using a(10) q' by simp
    have lk: "clh_locked ?t (my_qnode ?t j) = Some 1" if "j < n" "clh_pcs ?t j \<noteq> Clh_out" for j
      using a(6) [OF that(1)] that(2) i by (cases "j = i") auto
    have "clh_queue n ?t q"
      by (rule clh_queueI [where free = free, OF _ _ _ _ _ lk _ _ _ line]) (use a(1-5,7-9) iq i in auto)
    then show ?thesis using v True by (simp add: clh_acquire_round_def)
  qed (use q v in \<open>simp add: clh_acquire_round_def\<close>)
qed

lemma clh_release_step:
  assumes q: "clh_queue n s q" and i: "i < n" "clh_pcs s i = Clh_in"
  shows "\<exists>t. clh_release i s = Some t \<and> fifo_step q (tl q) \<and> clh_queue n t (tl q)"
  using q
proof (rule clh_queueE)
  fix free
  assume a: "distinct q" "set q \<subseteq> {..<n}" "inj_on (my_qnode s) {..<n}"
    "\<And>i. i < n \<Longrightarrow> my_qnode s i \<noteq> NULL \<and> clh_locked s (my_qnode s i) \<noteq> None"
    "\<And>i. i \<in> set q \<longleftrightarrow> clh_pcs s i = Clh_in \<or> (\<exists>p. clh_pcs s i = Clh_spin p)"
    "\<And>i. i < n \<Longrightarrow> clh_pcs s i \<noteq> Clh_out \<Longrightarrow> clh_locked s (my_qnode s i) = Some 1"
    "free \<noteq> NULL" "free \<notin> my_qnode s ` {..<n}" "clh_locked s free = Some 0" "clh_line s free q"
  obtain q' where q': "q = i # q'" using clh_queue_head [OF q, of i] i(2) by (auto simp: clh_inside_def)
  have pred: "my_pred s i = free" and ch: "clh_chain s (my_qnode s i) q'" using a(10) q' i(2) by auto
  let ?t = "s\<lparr>clh_locked := (clh_locked s)(my_qnode s i \<mapsto> 0), my_qnode := (my_qnode s)(i := free),
     clh_pcs := (clh_pcs s)(i := Clh_out)\<rparr>"
  have iq: "i \<notin> set q'" using a(1) q' by simp
  have inj: "my_qnode s j = my_qnode s i \<longleftrightarrow> j = i" if "j < n" for j using a(3) i(1) that by (auto simp: inj_on_def)
  have fr: "my_qnode s j \<noteq> free" if "j < n" for j using a(8) that by auto
  have nn: "my_qnode s i \<noteq> NULL" "clh_locked s (my_qnode s i) \<noteq> None" using a(4) i(1) by auto
  have "clh_line ?t (my_qnode s i) q' = clh_line s (my_qnode s i) q'" by (rule clh_line_cong) (use iq in auto)
  then have line: "clh_line ?t (my_qnode s i) q'" using clh_chain_line [OF ch] by simp
  have inj': "inj_on (my_qnode ?t) {..<n}" using a(3) fr by (auto simp: inj_on_def)
  have mem: "j \<in> set q' \<longleftrightarrow> clh_pcs ?t j = Clh_in \<or> (\<exists>p. clh_pcs ?t j = Clh_spin p)" for j
    using a(5) [of j] iq q' by (cases "j = i") auto
  have "clh_queue n ?t q'"
  proof (rule clh_queueI [where free = "my_qnode s i", OF _ _ inj' _ mem _ nn(1) _ _ line])
    show "distinct q'" "set q' \<subseteq> {..<n}" using a(1,2) q' by auto
    show "my_qnode ?t j \<noteq> NULL \<and> clh_locked ?t (my_qnode ?t j) \<noteq> None" if "j < n" for j
      using a(4) [OF that] a(7,9) by (cases "j = i") auto
    show "clh_locked ?t (my_qnode ?t j) = Some 1" if "j < n" "clh_pcs ?t j \<noteq> Clh_out" for j
      using a(6) [OF that(1)] that(2) inj [OF that(1)] by (cases "j = i") auto
    have ne: "my_qnode ?t j \<noteq> my_qnode s i" if "j \<in> {..<n}" for j
      using inj [of j] fr [OF i(1)] that by (cases "j = i") auto
    show "my_qnode s i \<notin> my_qnode ?t ` {..<n}"
    proof
      assume "my_qnode s i \<in> my_qnode ?t ` {..<n}"
      then obtain j where "j \<in> {..<n}" "my_qnode s i = my_qnode ?t j" by (rule imageE)
      then show False using ne [of j] by metis
    qed
  qed simp
  moreover obtain v where "clh_locked s (my_qnode s i) = Some v" using nn(2) by blast
  then have "clh_release i s = Some ?t" using pred by (simp add: clh_release_def set_locked_def)
  ultimately show ?thesis using q' fifo_leave by auto
qed

lemma clh_queue_step:
  assumes q: "clh_queue n s q" and st: "clh_step n s t"
  shows "\<exists>q'. fifo_step q q' \<and> clh_queue n t q'"
  using st
proof cases
  case (clh_locks i)
  then show ?thesis using clh_lock_step [OF q] fifo_stay by fastforce
next
  case (clh_swaps i)
  then show ?thesis using clh_swap_step [OF q] by blast
next
  case (clh_spins i p)
  then show ?thesis using clh_round_step [OF q] fifo_stay by fastforce
next
  case (clh_frees i)
  then show ?thesis using clh_release_step [OF q] by fastforce
qed

lemma init_clh_threads:
  fixes z :: clh_sys
  assumes "m \<le> length ps" "distinct ps"
  defines "s \<equiv> fold (\<lambda>i. init_clh_thread i (ps ! i)) [0..<m] z"
  shows "clh_tail s = clh_tail z" "clh_pcs s = clh_pcs z"
    "\<And>i. i < m \<Longrightarrow> my_qnode s i = ps ! i" "\<And>p. p \<in> set (take m ps) \<Longrightarrow> clh_locked s p = Some 0"
    "\<And>p. p \<notin> set (take m ps) \<Longrightarrow> clh_locked s p = clh_locked z p"
  unfolding s_def using assms(1)
  by (induction m) (auto simp: init_clh_thread_def take_Suc_conv_app_nth less_Suc_eq)

lemma clh_queue_start:
  assumes "clh_start n s"
  shows "clh_queue n s []"
proof -
  obtain p ps where n: "length ps = n" and d: "distinct (p # ps)" "NULL \<notin> set (p # ps)" and s: "s = clh_init p ps"
    using assms by (auto simp: clh_start_def)
  define s0 where "s0 = init_alloc_clh p \<lparr>clh_locked = Map.empty, clh_tail = NULL, my_qnode = (\<lambda>_. NULL),
    my_pred = (\<lambda>_. NULL), clh_pcs = (\<lambda>_. Clh_out)\<rparr>"
  have s': "s = fold (\<lambda>i. init_clh_thread i (ps ! i)) [0..<n] s0" using s n by (simp add: clh_init_def s0_def)
  have "n \<le> length ps" "distinct ps" using n d by auto
  note i = init_clh_threads [OF this, where z = s0, folded s']
  have tl: "take n ps = ps" using n by simp
  have s0: "clh_tail s0 = p" "clh_pcs s0 = (\<lambda>_. Clh_out)" "clh_locked s0 p = Some 0"
    by (simp_all add: s0_def init_alloc_clh_def)
  have nth: "ps ! k \<in> set ps" if "k < n" for k using that n by simp
  show ?thesis
  proof (rule clh_queueI [where free = p])
    show "inj_on (my_qnode s) {..<n}" using i(3) d n by (auto simp: inj_on_def nth_eq_iff_index_eq)
    show "my_qnode s k \<noteq> NULL \<and> clh_locked s (my_qnode s k) \<noteq> None" if "k < n" for k
      using i(3) [OF that] i(4) [of "ps ! k"] tl nth [OF that] d by auto
    show "p \<notin> my_qnode s ` {..<n}" using i(3) nth d by auto
    show "clh_locked s p = Some 0" using i(5) [of p] tl d s0 by simp
  qed (use i(1,2) s0 d in auto)
qed

interpretation clh: fifo_lock "clh_start n" "clh_step n" clh_inside "clh_queue n" for n
proof unfold_locales
  show "clh_queue n s []" if "clh_start n s" for s by (rule clh_queue_start [OF that])
  show "\<exists>q'. fifo_step q q' \<and> clh_queue n t q'" if "clh_queue n s q" "clh_step n s t" for s q t
    by (rule clh_queue_step [OF that])
  show "\<exists>q'. q = i # q'" if "clh_queue n s q" "clh_inside s i" for s q i by (rule clh_queue_head [OF that])
qed

section \<open>Properties\<close>

text \<open>The test-and-set lock of lock_if.h excludes: whatever way the threads interleave their calls
  of tas_lock, tas_trylock and tas_unlock, no two of them are between a successful acquisition and
  the unlock.\<close>

theorem tas_lock_excludes:
  assumes "tas_start s" "tas_step\<^sup>*\<^sup>* s t" "tas_pcs t i = Tas_in" "tas_pcs t j = Tas_in"
  shows "i = j"
  using tas.mutual_exclusion [OF assms(1,2)] assms(3,4) unfolding tas_inside_def by blast

definition ex_tas :: "tas_sys" where
  "ex_tas = \<lparr>tas_word = tas_init, tas_pcs = (\<lambda>_. Tas_out)\<rparr>"

lemma tas_lock_excludes_witness:
  "\<exists>t. tas_step\<^sup>*\<^sup>* ex_tas t \<and> tas_pcs t 3 = Tas_in \<and> (\<forall>j. tas_pcs t j = Tas_in \<longrightarrow> 3 = j)"
proof -
  let ?t = "ex_tas\<lparr>tas_word := TAS_LCKD, tas_pcs := (tas_pcs ex_tas)(3 := Tas_in)\<rparr>"
  have "tas_step ex_tas ?t"
    using tas_try [of ex_tas 3 True TAS_LCKD] by (simp add: ex_tas_def tas_init_def tas_rounds)
  then have st: "tas_step\<^sup>*\<^sup>* ex_tas ?t" by blast
  have start: "tas_start ex_tas" by (simp add: ex_tas_def tas_start_def)
  have h: "tas_pcs ?t 3 = Tas_in" by simp
  show ?thesis using tas_lock_excludes [OF start st h] st h by blast
qed


text \<open>Two threads take tickets and the first one goes in.\<close>

definition ex_ticket :: ticket_sys where
  "ex_ticket = \<lparr>tk_lock = ticket_init, tk_pcs = (\<lambda>_. Tk_out)\<rparr>"

definition ex_ticket1 :: ticket_sys where
  "ex_ticket1 = \<lparr>tk_lock = \<lparr>ticket = 2, curr = 0\<rparr>, tk_pcs = (\<lambda>_. Tk_out)(1 := Tk_wait 0, 0 := Tk_wait 1, 1 := Tk_in)\<rparr>"

lemma ex_ticket_steps: "(ticket_step 2)\<^sup>*\<^sup>* ex_ticket ex_ticket1"
proof -
  let ?a = "\<lparr>tk_lock = \<lparr>ticket = 1, curr = 0\<rparr>, tk_pcs = (\<lambda>_. Tk_out)(1 := Tk_wait 0)\<rparr>"
  let ?b = "\<lparr>tk_lock = \<lparr>ticket = 2, curr = 0\<rparr>, tk_pcs = (\<lambda>_. Tk_out)(1 := Tk_wait 0, 0 := Tk_wait 1)\<rparr>"
  have "ticket_step 2 ex_ticket ?a"
    using ticket_takes [of 1 2 ex_ticket 0 "\<lparr>ticket = 1, curr = 0\<rparr>"] by (simp add: ex_ticket_def ticket_init_def ticket_take_def)
  moreover have "ticket_step 2 ?a ?b"
    using ticket_takes [of 0 2 ?a 1 "\<lparr>ticket = 2, curr = 0\<rparr>"] by (simp add: ticket_take_def)
  moreover have "ticket_step 2 ?b ex_ticket1"
    using ticket_enters [of 1 2 ?b 0] by (simp add: ticket_spins_def ex_ticket1_def del: fun_upd_upd)
  ultimately show ?thesis by (rule rtranclp.rtrancl_into_rtrancl [OF rtranclp.rtrancl_into_rtrancl [OF r_into_rtranclp]])
qed


text \<open>The ticket lock is never stuck: when some thread has a ticket and nobody is inside, there is
  a waiting thread whose next comparison of its ticket with curr lets it in, even if a failed or
  successful ticket_trylock came in between.\<close>

theorem ticket_lock_progress:
  fixes m :: u32
  assumes "ticket_start s" "(ticket_step (unat m))\<^sup>*\<^sup>* s t" "tk_pcs t i = Tk_wait tk" "\<forall>j. \<not> ticket_inside t j"
  shows "\<exists>j tk'. tk_pcs t j = Tk_wait tk' \<and> \<not> ticket_spins tk' (tk_lock t)"
proof -
  obtain q where q: "ticket_queue (unat m) t q" using ticket.refines_fifo [OF assms(1,2)] by blast
  have "i \<in> set q" using ticket_queue_active [OF q, of i] assms(3) by simp
  with ticket_queue_progress [OF q this] assms(4) show ?thesis by blast
qed

lemma ticket_lock_progress_witness:
  "\<exists>j tk'. tk_pcs (ex_ticket\<lparr>tk_lock := \<lparr>ticket = 1, curr = 0\<rparr>, tk_pcs := (\<lambda>_. Tk_out)(1 := Tk_wait 0)\<rparr>) j = Tk_wait tk' \<and>
     \<not> ticket_spins tk' \<lparr>ticket = 1, curr = 0\<rparr>"
proof -
  let ?a = "ex_ticket\<lparr>tk_lock := \<lparr>ticket = 1, curr = 0\<rparr>, tk_pcs := (\<lambda>_. Tk_out)(1 := Tk_wait 0)\<rparr>"
  have "ticket_step 2 ex_ticket ?a"
    using ticket_takes [of 1 2 ex_ticket 0 "\<lparr>ticket = 1, curr = 0\<rparr>"] by (simp add: ex_ticket_def ticket_init_def ticket_take_def)
  then have "(ticket_step (unat (2 :: u32)))\<^sup>*\<^sup>* ex_ticket ?a" by auto
  moreover have "ticket_start ex_ticket" by (simp add: ticket_start_def ex_ticket_def)
  ultimately show ?thesis using ticket_lock_progress [of ex_ticket 2 ?a 1 0] by (auto simp: ticket_inside_def)
qed


definition ex_clh :: clh_sys where
  "ex_clh = clh_init 64 [128, 192]"

lemma ex_clh_start: "clh_start 2 ex_clh"
  unfolding clh_start_def ex_clh_def by (intro exI [of _ 64] exI [of _ "[128, 192]"]) simp


text \<open>The macro \<open>LOCK\<close> of a CLH build on the lock \<open>l\<close>, for a thread that finds it free; None, it would
  spin. \<open>UNLOCK\<close> is \<open>clh_release\<close>: the lock it is given is not looked at.\<close>

definition clh_LOCK :: "nat \<Rightarrow> ptr \<Rightarrow> clh_sys \<Rightarrow> (ptr \<times> clh_sys) option" where
  "clh_LOCK i l s = do {
     s1 \<leftarrow> clh_acquire_lock i (s\<lparr>clh_tail := l\<rparr>);
     let s2 = clh_acquire_swap i s1;
     s3 \<leftarrow> (case clh_pcs s2 i of Clh_spin p \<Rightarrow> clh_acquire_round i p s2 | _ \<Rightarrow> Some s2);
     if clh_pcs s3 i = Clh_in then Some (clh_tail s3, s3) else None
   }"

text \<open>C31: The CLH build cannot hold two locks at once: a thread has a single queue node for all
  locks (clh_local_p), so a thread that takes lock a, then lock b, and unlocks one of them has
  lowered the flag of both; another thread then takes a, which the first one has not unlocked. The
  hand-over-hand and the lazy lists that make clh builds take their locks in this way.\<close>

theorem clh_nested_locks_break:
  "\<exists>s1 s2 s3 s4 a b a' b'.
     clh_LOCK 0 a0 s = Some (a, s1) \<and> clh_LOCK 0 b0 s1 = Some (b, s2) \<and>
     clh_release 0 s2 = Some s3 \<and> clh_LOCK 1 a s3 = Some (a', s4)"
  if "s = init_alloc_clh b0 (clh_init a0 [c0, c1])" "distinct [a0, b0, c0, c1, NULL]"
  using that
  by (simp add: clh_LOCK_def clh_acquire_lock_def clh_acquire_swap_def clh_acquire_round_def clh_release_def
      set_locked_def clh_init_def init_alloc_clh_def init_clh_thread_def upt_rec Let_def) auto

lemma clh_nested_locks_break_witness:
  "\<exists>s1 s2 s3 s4 a b a' b'.
     clh_LOCK 0 64 (init_alloc_clh 256 ex_clh) = Some (a, s1) \<and> clh_LOCK 0 256 s1 = Some (b, s2) \<and>
     clh_release 0 s2 = Some s3 \<and> clh_LOCK 1 a s3 = Some (a', s4)"
  by (rule clh_nested_locks_break [where ?c0.0 = 128 and ?c1.0 = 192]) (simp_all add: ex_clh_def)

end
