(* ===== verification/Epoch_Protocol.thy ===== *)
theory Epoch_Protocol
  imports Qsbr Locks
begin

text \<open>
  The threads of quiescent-state-based reclamation, src/qsbr.c, interleaved one shared access at a
  time. A thread is somewhere in \<open>quiescent_state\<close> and \<open>update_epoch\<close> (\<open>q_pc\<close>, with the local
  variables of the two functions) or between its calls, where it works on the data structure; the
  update lock is the test-and-set lock of \<open>Locks\<close>. The theory shows when the protocol is safe, and
  that the code is not safe in general: \<open>quiescent_state\<close> lowers \<open>in_critical\<close> while it runs
  \<open>update_epoch\<close>, and another thread's update does not wait for it then.
\<close>

section \<open>Threads\<close>

text \<open>The points of \<open>quiescent_state\<close> and of the \<open>update_epoch\<close> it calls, in the order of the code.
  \<open>Run\<close>: outside.\<close>

datatype q_pc =
    Run | Retry | Test | Lower | Trylock | Load | Scan | Scan_epoch | Write | Unlock
  | Restore | Reread | Retest | Process | Enter

text \<open>A thread: its \<open>qsbr_data\<close>; the arguments and local variables of the two functions; and the
  client's side, the nodes it has references to, those it may still get one to (all that have been
  in the data structure since its last quiescent state), and those it has unlinked and not yet
  passed to \<open>free_node_later\<close>.\<close>

record q_thread =
  t_epoch :: int
  t_critical :: int
  t_limbo :: "ptr list list"
  t_pc :: q_pc
  v_blocking :: bool
  v_epoch :: int
  v_orig :: int
  v_res :: bool
  v_curr :: int
  v_i :: nat
  held :: "ptr list"
  seen :: "ptr list"
  cut :: "ptr list"

text \<open>The shared state: \<open>qsbr_globals\<close>, the threads, the nodes of the data structure and the free ones.\<close>

record q_sys =
  g_epoch :: int
  g_lock :: u32
  threads :: "q_thread list"
  linked :: "ptr list"
  unused :: "ptr list"

definition on_thread :: "nat \<Rightarrow> (q_thread \<Rightarrow> q_thread) \<Rightarrow> q_sys \<Rightarrow> q_sys" where
  "on_thread i f s = s\<lparr>threads := (threads s)[i := f (threads s ! i)]\<rparr>"

definition goto :: "q_pc \<Rightarrow> q_thread \<Rightarrow> q_thread" where
  "goto p t = t\<lparr>t_pc := p\<rparr>"

text \<open>The client is back from \<open>quiescent_state\<close>, without references; what is in the data structure now
  is in its reach, unless it has left for good.\<close>

definition resume :: "nat \<Rightarrow> q_sys \<Rightarrow> q_sys" where
  "resume i s = on_thread i (\<lambda>t. t\<lparr>t_pc := Run, held := [], seen := if t_critical t = 1 then linked s else []\<rparr>) s"

section \<open>The steps of the code\<close>

text \<open>One step of thread \<open>i\<close> inside \<open>quiescent_state\<close>.\<close>

definition code_step :: "nat \<Rightarrow> q_sys \<Rightarrow> q_sys option" where
  "code_step i s =
     (let t = threads s ! i; n = length (threads s) in
      case t_pc t of
        Run \<Rightarrow> None
      | Retry \<Rightarrow> Some (on_thread i (\<lambda>t. goto Test (t\<lparr>v_epoch := g_epoch s\<rparr>)) s)
      | Test \<Rightarrow> Some (if t_epoch t \<noteq> v_epoch t then on_thread i (goto Process) s
                  else on_thread i (\<lambda>t. goto Lower (t\<lparr>v_orig := t_critical t\<rparr>)) s)
      | Lower \<Rightarrow> Some (on_thread i (\<lambda>t. goto Trylock (t\<lparr>t_critical := 0\<rparr>)) s)
      | Trylock \<Rightarrow>
          (let (ok, l) = tas_trylock (g_lock s)
           in Some (on_thread i (if ok then goto Load else (\<lambda>t. goto Restore (t\<lparr>v_res := False\<rparr>))) (s\<lparr>g_lock := l\<rparr>)))
      | Load \<Rightarrow> Some (on_thread i (\<lambda>t. goto Scan (t\<lparr>v_curr := g_epoch s, v_i := 0\<rparr>)) s)
      | Scan \<Rightarrow>
          Some (if v_i t \<ge> n then on_thread i (goto Write) s
                else if t_critical (threads s ! v_i t) = 1 then on_thread i (goto Scan_epoch) s
                else on_thread i (\<lambda>t. t\<lparr>v_i := v_i t + 1\<rparr>) s)
      | Scan_epoch \<Rightarrow>
          Some (if t_epoch (threads s ! v_i t) \<noteq> v_curr t \<and> v_i t \<noteq> i
                then on_thread i (\<lambda>t. goto Unlock (t\<lparr>v_res := False\<rparr>)) s
                else on_thread i (\<lambda>t. goto Scan (t\<lparr>v_i := v_i t + 1\<rparr>)) s)
      | Write \<Rightarrow>
          Some (on_thread i (\<lambda>t. goto Unlock (t\<lparr>v_res := True\<rparr>)) (s\<lparr>g_epoch := (v_curr t + 1) mod int N_EPOCHS\<rparr>))
      | Unlock \<Rightarrow> Some (on_thread i (goto Restore) (s\<lparr>g_lock := tas_unlock (g_lock s)\<rparr>))
      | Restore \<Rightarrow>
          (let s1 = on_thread i (\<lambda>t. t\<lparr>t_critical := v_orig t\<rparr>) s
           in Some (if v_res t then on_thread i (goto Reread) s1
                    else if v_blocking t then on_thread i (goto Retry) s1
                    else resume i s1))
      | Reread \<Rightarrow> Some (on_thread i (\<lambda>t. goto Retest (t\<lparr>v_epoch := g_epoch s\<rparr>)) s)
      | Retest \<Rightarrow> Some (if t_epoch t \<noteq> v_epoch t then on_thread i (goto Process) s else resume i s)
      | Process \<Rightarrow>
          (case t_limbo t ! nat (v_epoch t) of
             [] \<Rightarrow> Some (on_thread i (goto Enter) s)
           | p # ps \<Rightarrow> Some (on_thread i (\<lambda>t. t\<lparr>t_limbo := (t_limbo t)[nat (v_epoch t) := ps]\<rparr>)
                               (s\<lparr>unused := p # unused s\<rparr>)))
      | Enter \<Rightarrow> Some (resume i (on_thread i (\<lambda>t. t\<lparr>t_epoch := v_epoch t\<rparr>) s)))"

section \<open>The steps of the client\<close>

text \<open>What a thread does between its quiescent states: take a reference to a node in its reach; unlink
  a node from the data structure; pass a node it has unlinked to \<open>free_node_later\<close>, which puts it
  into the limbo list of the thread's epoch; link a node that the allocator returned; call
  \<open>quiescent_state\<close>, holding nothing; leave (\<open>mr_thread_exit\<close>), after which it only calls
  \<open>quiescent_state\<close>.\<close>

datatype q_action = Code | Acquire ptr | Cut ptr | Retire ptr | Link ptr | Quiesce bool | Exit

definition running :: "q_thread \<Rightarrow> bool" where
  "running t \<longleftrightarrow> t_pc t = Run \<and> t_critical t = 1"

definition q_act :: "nat \<Rightarrow> q_action \<Rightarrow> q_sys \<Rightarrow> q_sys option" where
  "q_act i a s =
     (if i \<ge> length (threads s) then None else let t = threads s ! i in
      case a of
        Code \<Rightarrow> code_step i s
      | Acquire p \<Rightarrow> if running t \<and> p \<in> set (seen t) then Some (on_thread i (\<lambda>t. t\<lparr>held := p # held t\<rparr>) s) else None
      | Cut p \<Rightarrow> if running t \<and> p \<in> set (linked s)
                 then Some (on_thread i (\<lambda>t. t\<lparr>cut := p # cut t\<rparr>) (s\<lparr>linked := removeAll p (linked s)\<rparr>)) else None
      | Retire p \<Rightarrow> if running t \<and> p \<in> set (cut t)
                 then Some (on_thread i (\<lambda>t. t\<lparr>cut := removeAll p (cut t),
                              t_limbo := (t_limbo t)[nat (t_epoch t) := p # t_limbo t ! nat (t_epoch t)]\<rparr>) s) else None
      | Link p \<Rightarrow> if running t \<and> p \<in> set (unused s)
                 then Some (s\<lparr>unused := removeAll p (unused s), linked := p # linked s,
                              threads := map (\<lambda>t. if running t then t\<lparr>seen := p # seen t\<rparr> else t) (threads s)\<rparr>) else None
      | Quiesce b \<Rightarrow> if t_pc t = Run
                 then Some (on_thread i (\<lambda>t. t\<lparr>t_pc := Retry, v_blocking := b, held := [], seen := []\<rparr>) s) else None
      | Exit \<Rightarrow> if running t then Some (on_thread i (\<lambda>t. t\<lparr>t_critical := 0, held := [], seen := []\<rparr>) s) else None)"

text \<open>After \<open>mr_init_global\<close>: the global epoch is 1, and all threads are in epoch 0.\<close>

definition q_start :: "nat \<Rightarrow> ptr list \<Rightarrow> ptr list \<Rightarrow> q_sys" where
  "q_start n ls us =
     \<lparr>g_epoch = 1, g_lock = tas_init,
      threads = replicate n \<lparr>t_epoch = 0, t_critical = 1, t_limbo = replicate N_EPOCHS [], t_pc = Run,
        v_blocking = False, v_epoch = 0, v_orig = 0, v_res = False, v_curr = 0, v_i = 0,
        held = [], seen = ls, cut = []\<rparr>,
      linked = ls, unused = us\<rparr>"

fun q_run :: "(nat \<times> q_action) list \<Rightarrow> q_sys \<Rightarrow> q_sys option" where
  "q_run [] s = Some s"
| "q_run ((i, a) # as) s = do { s1 \<leftarrow> q_act i a s; q_run as s1 }"

section \<open>The race\<close>

text \<open>Thread 0 lowers \<open>in_critical\<close>; thread 1 advances the epoch once, and is about to do so again when
  thread 0 fails to get the update lock and goes back to work, two epochs behind.\<close>

definition code_steps :: "nat \<Rightarrow> nat \<Rightarrow> (nat \<times> q_action) list" where
  "code_steps i k = replicate k (i, Code)"

definition window_race :: "ptr \<Rightarrow> (nat \<times> q_action) list" where
  "window_race p =
     (0, Quiesce False) # code_steps 0 4 @ (1, Quiesce False) # code_steps 1 4 @
     (0, Quiesce False) # code_steps 0 3 @
     (1, Quiesce False) # code_steps 1 15 @ (1, Quiesce False) # code_steps 1 8 @
     code_steps 0 2 @ code_steps 1 7 @
     [(1, Acquire p), (0, Cut p), (0, Retire p)] @
     (0, Quiesce False) # code_steps 0 4 @ (0, Quiesce False) # code_steps 0 15"


section \<open>Invariant\<close>

text \<open>The proof counts epochs without the wrap-around: \<open>A\<close> is the global epoch, \<open>a\<close> the epoch of each
  thread, \<open>E\<close> the one it has read into \<open>epoch\<close>, \<open>r p\<close> the epoch of the thread that retired p when
  it did. \<open>loc\<close> says where each node is.\<close>

datatype place = Linked | Unused | Cut_by nat | Limbo nat nat

definition window :: "q_thread \<Rightarrow> bool" where
  "window t \<longleftrightarrow> t_pc t \<in> {Trylock, Load, Scan, Scan_epoch, Write, Unlock, Restore}"

definition holder :: "q_thread \<Rightarrow> bool" where
  "holder t \<longleftrightarrow> t_pc t \<in> {Load, Scan, Scan_epoch, Write, Unlock}"

definition advanced :: "q_thread \<Rightarrow> bool" where
  "advanced t \<longleftrightarrow> t_pc t \<in> {Reread, Retest, Process, Enter} \<or> t_pc t \<in> {Unlock, Restore} \<and> v_res t"

text \<open>Whether the thread has to be waited for, looking through the window.\<close>

definition active :: "q_thread \<Rightarrow> bool" where
  "active t \<longleftrightarrow> (if window t then v_orig t else t_critical t) = 1"

definition thread_ok :: "nat \<Rightarrow> q_thread \<Rightarrow> nat \<Rightarrow> nat \<Rightarrow> bool" where
  "thread_ok A t a E \<longleftrightarrow>
     t_epoch t = int (a mod 3) \<and> a \<le> A \<and> length (t_limbo t) = 3 \<and>
     (active t \<longrightarrow> A \<le> a + (if advanced t then 2 else 1)) \<and>
     (active t \<longrightarrow> advanced t \<longrightarrow> a < A) \<and>
     (t_pc t \<in> {Test, Retest, Process, Enter} \<longrightarrow> v_epoch t = int (E mod 3) \<and> a \<le> E \<and> E \<le> A) \<and>
     (t_pc t \<in> {Process, Enter} \<longrightarrow> E mod 3 \<noteq> a mod 3) \<and>
     (active t \<longrightarrow> t_pc t \<in> {Retest, Process, Enter} \<longrightarrow> E = A) \<and>
     (t_pc t \<in> {Scan, Scan_epoch, Write} \<longrightarrow> v_curr t = int (A mod 3)) \<and>
     (t_pc t = Lower \<longrightarrow> v_orig t = t_critical t) \<and>
     (t_pc t \<noteq> Run \<or> t_critical t \<noteq> 1 \<longrightarrow> seen t = []) \<and> set (held t) \<subseteq> set (seen t)"

definition scan_ok :: "nat \<Rightarrow> (nat \<Rightarrow> nat) \<Rightarrow> q_thread list \<Rightarrow> nat \<Rightarrow> bool" where
  "scan_ok A a ts i \<longleftrightarrow>
     (t_pc (ts ! i) \<in> {Scan, Scan_epoch, Write} \<longrightarrow>
      (\<forall>k < length ts. k \<noteq> i \<longrightarrow> t_pc (ts ! i) = Write \<or> k < v_i (ts ! i) \<longrightarrow> active (ts ! k) \<longrightarrow> a k = A))"

definition lock_ok :: "q_sys \<Rightarrow> bool" where
  "lock_ok s \<longleftrightarrow>
     (\<forall>i < length (threads s). holder (threads s ! i) \<longrightarrow>
        g_lock s \<noteq> TAS_FREE \<and> (\<forall>j < length (threads s). holder (threads s ! j) \<longrightarrow> i = j))"

definition seen_ok :: "(ptr \<Rightarrow> nat) \<Rightarrow> (ptr \<Rightarrow> place option) \<Rightarrow> nat \<Rightarrow> ptr list \<Rightarrow> bool" where
  "seen_ok r loc a ps \<longleftrightarrow>
     (\<forall>p \<in> set ps. loc p \<noteq> Some Unused \<and> (\<forall>i k. loc p = Some (Limbo i k) \<longrightarrow> a \<le> r p + 1))"

definition owns_ok :: "(ptr \<Rightarrow> nat) \<Rightarrow> (ptr \<Rightarrow> place option) \<Rightarrow> nat \<Rightarrow> q_thread \<Rightarrow> nat \<Rightarrow> bool" where
  "owns_ok r loc i t a \<longleftrightarrow>
     (\<forall>p. p \<in> set (cut t) \<longleftrightarrow> loc p = Some (Cut_by i)) \<and>
     (\<forall>k < 3. distinct (t_limbo t ! k) \<and> (\<forall>p. p \<in> set (t_limbo t ! k) \<longleftrightarrow> loc p = Some (Limbo i k)) \<and>
        (\<forall>p \<in> set (t_limbo t ! k). r p mod 3 = k \<and> r p \<le> a)) \<and>
     seen_ok r loc a (seen t)"

definition epoch_inv :: "q_sys \<Rightarrow> nat \<Rightarrow> (nat \<Rightarrow> nat) \<Rightarrow> (nat \<Rightarrow> nat) \<Rightarrow> (ptr \<Rightarrow> nat) \<Rightarrow> (ptr \<Rightarrow> place option) \<Rightarrow> bool" where
  "epoch_inv s A a E r loc \<longleftrightarrow>
     g_epoch s = int (A mod 3) \<and> lock_ok s \<and>
     (\<forall>p. p \<in> set (linked s) \<longleftrightarrow> loc p = Some Linked) \<and> (\<forall>p. p \<in> set (unused s) \<longleftrightarrow> loc p = Some Unused) \<and>
     distinct (unused s) \<and>
     (\<forall>i < length (threads s). thread_ok A (threads s ! i) (a i) (E i) \<and> scan_ok A a (threads s) i \<and>
        owns_ok r loc i (threads s ! i) (a i))"

text \<open>Steps that change only thread \<open>i\<close>.\<close>

lemma epoch_inv_thread:
  assumes inv: "epoch_inv s A a E r loc" and i: "i < length (threads s)"
    and s': "threads s' = (threads s)[i := t']" "g_epoch s' = g_epoch s" "linked s' = linked s" "unused s' = unused s"
    and lock: "lock_ok s'"
    and ok: "thread_ok A t' ai Ei"
    and mono: "a i \<le> ai" "active t' \<Longrightarrow> active (threads s ! i)"
    and scan: "scan_ok A (a(i := ai)) ((threads s)[i := t']) i"
    and mem: "cut t' = cut (threads s ! i)" "t_limbo t' = t_limbo (threads s ! i)" "seen_ok r loc ai (seen t')"
  shows "epoch_inv s' A (a(i := ai)) (E(i := Ei)) r loc"
proof -
  have one: "thread_ok A (threads s' ! j) ((a(i := ai)) j) ((E(i := Ei)) j) \<and> scan_ok A (a(i := ai)) (threads s') j \<and>
      owns_ok r loc j (threads s' ! j) ((a(i := ai)) j)" if j: "j < length (threads s')" for j
  proof (cases "j = i")
    case True
    have "owns_ok r loc i (threads s ! i) (a i)" using inv i by (simp add: epoch_inv_def)
    then have "owns_ok r loc i t' ai" using mem mono(1) by (fastforce simp: owns_ok_def)
    then show ?thesis using True ok scan s'(1) i by simp
  next
    case False
    have o: "thread_ok A (threads s ! j) (a j) (E j)" "scan_ok A a (threads s) j" "owns_ok r loc j (threads s ! j) (a j)"
      using inv j s'(1) by (simp_all add: epoch_inv_def)
    have "a i = A \<Longrightarrow> ai = A" using mono(1) ok by (simp add: thread_ok_def)
    then have "scan_ok A (a(i := ai)) (threads s') j"
      using o(2) s'(1) False mono(2) i unfolding scan_ok_def by (auto simp: nth_list_update)
    then show ?thesis using o False s'(1) by simp
  qed
  then show ?thesis using inv s' lock by (simp add: epoch_inv_def)
qed

lemma on_thread_sel [simp]:
  "threads (on_thread i f s) = (threads s)[i := f (threads s ! i)]" "g_epoch (on_thread i f s) = g_epoch s"
  "g_lock (on_thread i f s) = g_lock s" "linked (on_thread i f s) = linked s" "unused (on_thread i f s) = unused s"
  by (simp_all add: on_thread_def)

lemma resume_sel [simp]:
  "threads (resume i s) = (threads s)[i := (threads s ! i)\<lparr>t_pc := Run, held := [],
     seen := if t_critical (threads s ! i) = 1 then linked s else []\<rparr>]"
  "g_epoch (resume i s) = g_epoch s" "g_lock (resume i s) = g_lock s" "linked (resume i s) = linked s"
  "unused (resume i s) = unused s"
  by (simp_all add: resume_def)

lemma lock_ok_same:
  assumes "lock_ok s" "i < length (threads s)" "threads s' = (threads s)[i := t']" "g_lock s' = g_lock s"
    "holder t' \<Longrightarrow> holder (threads s ! i)"
  shows "lock_ok s'"
  using assms unfolding lock_ok_def by (auto simp: nth_list_update)

lemma scan_ok_other:
  assumes "t_pc t' \<notin> {Scan, Scan_epoch, Write}" "i < length ts"
  shows "scan_ok A a (ts[i := t']) i"
  using assms by (simp add: scan_ok_def)

lemma epoch_invD:
  assumes "epoch_inv s A a E r loc" "i < length (threads s)"
  shows "g_epoch s = int (A mod 3)" "lock_ok s" "thread_ok A (threads s ! i) (a i) (E i)"
    "scan_ok A a (threads s) i" "owns_ok r loc i (threads s ! i) (a i)"
    "\<And>p. p \<in> set (linked s) \<longleftrightarrow> loc p = Some Linked" "\<And>p. p \<in> set (unused s) \<longleftrightarrow> loc p = Some Unused"
  using assms by (simp_all add: epoch_inv_def)

lemma seen_ok_simps [simp]:
  "seen_ok r loc a []"
  "(\<And>p. p \<in> set ps \<longleftrightarrow> loc p = Some Linked) \<Longrightarrow> seen_ok r loc a ps"
  by (simp_all add: seen_ok_def)

lemmas thread_defs = thread_ok_def active_def window_def advanced_def

text \<open>A step that leaves the lock and the epoch of the thread alone.\<close>

lemma epoch_inv_move_lock:
  assumes inv: "epoch_inv s A a E r loc" and i: "i < length (threads s)"
    and t': "t' = f (threads s ! i)"
    and lock: "lock_ok (on_thread i f (s\<lparr>g_lock := l\<rparr>))"
    and ok: "thread_ok A t' (a i) Ei"
    and act: "active t' \<Longrightarrow> active (threads s ! i)"
    and scan: "scan_ok A a ((threads s)[i := t']) i"
    and mem: "cut t' = cut (threads s ! i)" "t_limbo t' = t_limbo (threads s ! i)"
      "seen t' = [] \<or> seen t' = seen (threads s ! i) \<or> seen t' = linked s"
  shows "\<exists>E'. epoch_inv (on_thread i f (s\<lparr>g_lock := l\<rparr>)) A a E' r loc"
proof -
  note d = epoch_invD [OF inv i]
  let ?s = "on_thread i f (s\<lparr>g_lock := l\<rparr>)"
  have th: "threads ?s = (threads s)[i := t']" using t' by simp
  have "seen_ok r loc (a i) (seen (threads s ! i))" using d(5) by (simp add: owns_ok_def)
  then have "seen_ok r loc (a i) (seen t')" using mem(3) d(6) seen_ok_simps by metis
  then have "epoch_inv ?s A (a(i := a i)) (E(i := Ei)) r loc"
    using scan by (intro epoch_inv_thread [OF inv i th _ _ _ lock ok _ act _ mem(1,2)]) simp_all
  then show ?thesis by auto
qed

lemma epoch_inv_move:
  assumes inv: "epoch_inv s A a E r loc" and i: "i < length (threads s)"
    and t': "t' = f (threads s ! i)"
    and ok: "thread_ok A t' (a i) Ei"
    and act: "active t' \<Longrightarrow> active (threads s ! i)" "holder t' \<Longrightarrow> holder (threads s ! i)"
    and scan: "scan_ok A a ((threads s)[i := t']) i"
    and mem: "cut t' = cut (threads s ! i)" "t_limbo t' = t_limbo (threads s ! i)"
      "seen t' = [] \<or> seen t' = seen (threads s ! i) \<or> seen t' = linked s"
  shows "\<exists>E'. epoch_inv (on_thread i f s) A a E' r loc"
proof -
  have lk: "lock_ok (on_thread i f s)"
    by (rule lock_ok_same [OF epoch_invD(2) [OF inv i] i _ _ act(2)]) (use t' in simp_all)
  have "\<exists>E'. epoch_inv (on_thread i f (s\<lparr>g_lock := g_lock s\<rparr>)) A a E' r loc"
    by (rule epoch_inv_move_lock [where f = f, OF inv i t' _ ok act(1) scan mem(1,2)]) (use lk mem in simp_all)
  then show ?thesis by simp
qed

lemma resume_eq:
  "resume i s = on_thread i (\<lambda>t. t\<lparr>t_pc := Run, held := [], seen := if t_critical t = 1 then linked s else []\<rparr>) s"
  by (simp add: resume_def)

lemma on_thread_on_thread:
  "i < length (threads s) \<Longrightarrow> on_thread i f (on_thread i g s) = on_thread i (\<lambda>t. f (g t)) s"
  by (simp add: on_thread_def)

lemma code_step_start:
  assumes inv: "epoch_inv s A a E r loc" and i: "i < length (threads s)"
    and pc: "t_pc (threads s ! i) \<in> {Retry, Test, Lower}" and st: "code_step i s = Some s'"
  shows "\<exists>E'. epoch_inv s' A a E' r loc"
proof -
  note d = epoch_invD [OF inv i]
  define t where "t = threads s ! i"
  note ok = d(3) [folded t_def]
  from pc consider "t_pc t = Retry" | "t_pc t = Test" | "t_pc t = Lower" unfolding t_def by blast
  then show ?thesis
  proof cases
    case 1
    then have s': "s' = on_thread i (\<lambda>t. goto Test (t\<lparr>v_epoch := g_epoch s\<rparr>)) s"
      using st by (simp add: code_step_def Let_def t_def)
    have th: "thread_ok A (goto Test (t\<lparr>v_epoch := g_epoch s\<rparr>)) (a i) A"
      using 1 d(1) ok by (auto simp: thread_defs goto_def)
    show ?thesis unfolding s'
      by (rule epoch_inv_move [OF inv i _ th]) (use 1 in \<open>simp_all add: thread_defs holder_def goto_def scan_ok_other i t_def\<close>)
  next
    case 2
    show ?thesis
    proof (cases "t_epoch t = v_epoch t")
      case True
      then have s': "s' = on_thread i (\<lambda>t. goto Lower (t\<lparr>v_orig := t_critical t\<rparr>)) s"
        using st 2 by (simp add: code_step_def Let_def t_def)
      have th: "thread_ok A (goto Lower (t\<lparr>v_orig := t_critical t\<rparr>)) (a i) 0"
        using 2 ok by (auto simp: thread_defs goto_def)
      show ?thesis unfolding s'
        by (rule epoch_inv_move [OF inv i _ th]) (use 2 in \<open>simp_all add: thread_defs holder_def goto_def scan_ok_other i t_def\<close>)
    next
      case False
      then have s': "s' = on_thread i (goto Process) s" using st 2 by (simp add: code_step_def Let_def t_def)
      have ne: "E i mod 3 \<noteq> a i mod 3" using False 2 ok by (simp add: thread_ok_def)
      have "active t \<Longrightarrow> E i = A \<and> a i < A"
      proof -
        assume "active t"
        then have "A \<le> a i + 1" "a i \<le> E i" "E i \<le> A" using 2 ok by (simp_all add: thread_ok_def advanced_def)
        moreover have "E i \<noteq> a i" using ne by auto
        ultimately show "E i = A \<and> a i < A" by simp
      qed
      moreover have "active (goto Process t) = active t" using 2 by (simp add: active_def window_def goto_def)
      ultimately have th: "thread_ok A (goto Process t) (a i) (E i)"
        using 2 ok ne by (auto simp: thread_ok_def advanced_def goto_def)
      show ?thesis unfolding s'
        by (rule epoch_inv_move [OF inv i _ th]) (use 2 in \<open>simp_all add: thread_defs holder_def goto_def scan_ok_other i t_def\<close>)
    qed
  next
    case 3
    then have s': "s' = on_thread i (\<lambda>t. goto Trylock (t\<lparr>t_critical := 0\<rparr>)) s"
      using st by (simp add: code_step_def Let_def t_def)
    have th: "thread_ok A (goto Trylock (t\<lparr>t_critical := 0\<rparr>)) (a i) 0" using 3 ok by (auto simp: thread_defs goto_def)
    show ?thesis unfolding s'
      by (rule epoch_inv_move [OF inv i _ th]) (use 3 ok in \<open>simp_all add: thread_defs holder_def goto_def scan_ok_other i t_def\<close>)
  qed
qed

lemma lock_ok_acquired:
  assumes "lock_ok s" "i < length (threads s)" "g_lock s = TAS_FREE" "threads s' = (threads s)[i := t']" "g_lock s' = TAS_LCKD"
  shows "lock_ok s'"
  using assms tas_rounds(6) unfolding lock_ok_def by (auto simp: nth_list_update)

lemma lock_ok_released:
  assumes "lock_ok s" "i < length (threads s)" "holder (threads s ! i)" "threads s' = (threads s)[i := t']" "\<not> holder t'"
  shows "lock_ok s'"
  using assms unfolding lock_ok_def by (auto simp: nth_list_update)

lemma code_step_update:
  assumes inv: "epoch_inv s A a E r loc" and i: "i < length (threads s)"
    and pc: "t_pc (threads s ! i) \<in> {Trylock, Load, Unlock}" and st: "code_step i s = Some s'"
  shows "\<exists>E'. epoch_inv s' A a E' r loc"
proof -
  note d = epoch_invD [OF inv i]
  define t where "t = threads s ! i"
  note ok = d(3) [folded t_def]
  from pc consider "t_pc t = Trylock" | "t_pc t = Load" | "t_pc t = Unlock" unfolding t_def by blast
  then show ?thesis
  proof cases
    case 1
    show ?thesis
    proof (cases "g_lock s = TAS_FREE")
      case True
      then have s': "s' = on_thread i (goto Load) (s\<lparr>g_lock := TAS_LCKD\<rparr>)"
        using st 1 by (simp add: code_step_def Let_def t_def tas_rounds)
      have th: "thread_ok A (goto Load t) (a i) 0" using 1 ok by (auto simp: thread_defs goto_def)
      have "lock_ok s'" by (rule lock_ok_acquired [OF d(2) i True]) (simp_all add: s')
      then show ?thesis unfolding s'
        by (intro epoch_inv_move_lock [OF inv i _ _ th]) (use 1 in \<open>simp_all add: thread_defs goto_def scan_ok_other i t_def\<close>)
    next
      case False
      then have s': "s' = on_thread i (\<lambda>t. goto Restore (t\<lparr>v_res := False\<rparr>)) s"
        using st 1 by (simp add: code_step_def Let_def t_def tas_trylock_def cas_def)
      have th: "thread_ok A (goto Restore (t\<lparr>v_res := False\<rparr>)) (a i) 0" using 1 ok by (auto simp: thread_defs goto_def)
      show ?thesis unfolding s'
        by (rule epoch_inv_move [OF inv i _ th]) (use 1 in \<open>simp_all add: thread_defs holder_def goto_def scan_ok_other i t_def\<close>)
    qed
  next
    case 2
    then have s': "s' = on_thread i (\<lambda>t. goto Scan (t\<lparr>v_curr := g_epoch s, v_i := 0\<rparr>)) s"
      using st by (simp add: code_step_def Let_def t_def)
    have th: "thread_ok A (goto Scan (t\<lparr>v_curr := g_epoch s, v_i := 0\<rparr>)) (a i) 0"
      using 2 ok d(1) by (auto simp: thread_defs goto_def)
    have "scan_ok A a ((threads s)[i := goto Scan (t\<lparr>v_curr := g_epoch s, v_i := 0\<rparr>)]) i"
      using i by (simp add: scan_ok_def goto_def)
    then show ?thesis unfolding s'
      by (intro epoch_inv_move [OF inv i _ th]) (use 2 in \<open>simp_all add: thread_defs holder_def goto_def t_def\<close>)
  next
    case 3
    then have s': "s' = on_thread i (goto Restore) (s\<lparr>g_lock := tas_unlock (g_lock s)\<rparr>)"
      using st by (simp add: code_step_def Let_def t_def)
    have th: "thread_ok A (goto Restore t) (a i) 0" using 3 ok by (auto simp: thread_defs goto_def)
    have "lock_ok s'" by (rule lock_ok_released [OF d(2) i, where t' = "goto Restore t"]) (use 3 in \<open>simp_all add: s' holder_def goto_def t_def\<close>)
    then show ?thesis unfolding s'
      by (intro epoch_inv_move_lock [OF inv i _ _ th]) (use 3 in \<open>simp_all add: thread_defs goto_def scan_ok_other i t_def\<close>)
  qed
qed

text \<open>The side condition of safety: no \<open>update_epoch\<close> reads the \<open>in_critical\<close> of another thread while
  that thread has it lowered.\<close>

definition calm :: "nat \<Rightarrow> q_action \<Rightarrow> q_sys \<Rightarrow> bool" where
  "calm i a s \<longleftrightarrow>
     (let t = threads s ! i in
      a = Code \<and> t_pc t = Scan \<and> v_i t < length (threads s) \<and> v_i t \<noteq> i \<longrightarrow> \<not> window (threads s ! v_i t))"

lemma mod3_close:
  fixes m n :: nat
  assumes "m mod 3 = n mod 3" "m \<le> n" "n \<le> m + 2"
  shows "m = n"
  using assms by presburger

lemma code_step_scan:
  assumes inv: "epoch_inv s A a E r loc" and i: "i < length (threads s)"
    and pc: "t_pc (threads s ! i) \<in> {Scan, Scan_epoch}" and st: "code_step i s = Some s'"
    and calm: "calm i Code s"
  shows "\<exists>E'. epoch_inv s' A a E' r loc"
proof -
  note d = epoch_invD [OF inv i]
  define t where "t = threads s ! i"
  note ok = d(3) [folded t_def]
  let ?k = "v_i t"
  have scanned: "a k = A" if "k < length (threads s)" "k \<noteq> i" "k < ?k" "active (threads s ! k)" for k
    using d(4) pc that by (auto simp: scan_ok_def t_def)
  have next_ok: "scan_ok A a ((threads s)[i := t']) i"
    if pc': "t_pc t' \<in> {Scan, Scan_epoch}" and k: "v_i t' \<le> ?k + 1"
      and new: "?k < v_i t' \<Longrightarrow> ?k \<noteq> i \<Longrightarrow> ?k < length (threads s) \<Longrightarrow> active (threads s ! ?k) \<Longrightarrow> a ?k = A" for t'
    unfolding scan_ok_def
  proof (intro impI allI)
    fix m assume m: "m < length ((threads s)[i := t'])" "m \<noteq> i"
      "t_pc ((threads s)[i := t'] ! i) = Write \<or> m < v_i ((threads s)[i := t'] ! i)" "active ((threads s)[i := t'] ! m)"
    then have "m < v_i t'" "m < length (threads s)" "active (threads s ! m)" using i pc' by auto
    then show "a m = A" using scanned [of m] new m(2) k by (cases "m = ?k") auto
  qed
  from pc consider "t_pc t = Scan" | "t_pc t = Scan_epoch" unfolding t_def by blast
  then show ?thesis
  proof cases
    case 1
    consider "?k \<ge> length (threads s)" | "?k < length (threads s)" "t_critical (threads s ! ?k) = 1"
      | "?k < length (threads s)" "t_critical (threads s ! ?k) \<noteq> 1" by linarith
    then show ?thesis
    proof cases
      case a: 1
      then have s': "s' = on_thread i (goto Write) s" using st 1 by (simp add: code_step_def Let_def t_def)
      have th: "thread_ok A (goto Write t) (a i) 0" using 1 ok by (auto simp: thread_defs goto_def)
      have "scan_ok A a ((threads s)[i := goto Write t]) i"
        using scanned a i by (auto simp: scan_ok_def)
      then show ?thesis unfolding s'
        by (intro epoch_inv_move [OF inv i _ th]) (use 1 in \<open>simp_all add: thread_defs holder_def goto_def t_def\<close>)
    next
      case b: 2
      then have s': "s' = on_thread i (goto Scan_epoch) s" using st 1 by (simp add: code_step_def Let_def t_def)
      have th: "thread_ok A (goto Scan_epoch t) (a i) 0" using 1 ok by (auto simp: thread_defs goto_def)
      have "scan_ok A a ((threads s)[i := goto Scan_epoch t]) i" by (rule next_ok) (simp_all add: goto_def)
      then show ?thesis unfolding s'
        by (intro epoch_inv_move [OF inv i _ th]) (use 1 in \<open>simp_all add: thread_defs holder_def goto_def t_def\<close>)
    next
      case c: 3
      then have s': "s' = on_thread i (\<lambda>t. t\<lparr>v_i := v_i t + 1\<rparr>) s" using st 1 by (simp add: code_step_def Let_def t_def)
      have th: "thread_ok A (t\<lparr>v_i := ?k + 1\<rparr>) (a i) 0" using 1 ok by (auto simp: thread_defs)
      have "\<not> active (threads s ! ?k)" if "?k \<noteq> i"
        using calm 1 c that by (simp add: calm_def Let_def active_def t_def)
      then have "scan_ok A a ((threads s)[i := t\<lparr>v_i := ?k + 1\<rparr>]) i" using 1 by (intro next_ok) auto
      then show ?thesis unfolding s'
        by (intro epoch_inv_move [OF inv i _ th]) (use 1 in \<open>simp_all add: thread_defs holder_def t_def\<close>)
    qed
  next
    case 2
    show ?thesis
    proof (cases "t_epoch (threads s ! ?k) \<noteq> v_curr t \<and> ?k \<noteq> i")
      case True
      then have s': "s' = on_thread i (\<lambda>t. goto Unlock (t\<lparr>v_res := False\<rparr>)) s" using st 2 by (simp add: code_step_def Let_def t_def)
      have th: "thread_ok A (goto Unlock (t\<lparr>v_res := False\<rparr>)) (a i) 0" using 2 ok by (auto simp: thread_defs goto_def)
      show ?thesis unfolding s'
        by (rule epoch_inv_move [OF inv i _ th]) (use 2 in \<open>simp_all add: thread_defs holder_def goto_def scan_ok_other i t_def\<close>)
    next
      case False
      then have s': "s' = on_thread i (\<lambda>t. goto Scan (t\<lparr>v_i := v_i t + 1\<rparr>)) s"
        using st 2 by (simp add: code_step_def Let_def t_def if_not_P [OF False, unfolded t_def])
      have th: "thread_ok A (goto Scan (t\<lparr>v_i := ?k + 1\<rparr>)) (a i) 0" using 2 ok by (auto simp: thread_defs goto_def)
      have "a ?k = A" if "?k \<noteq> i" "?k < length (threads s)" "active (threads s ! ?k)"
      proof -
        have o: "thread_ok A (threads s ! ?k) (a ?k) (E ?k)" by (rule epoch_invD(3) [OF inv that(2)])
        then have "int (a ?k mod 3) = int (A mod 3)" using False that(1) 2 ok by (simp add: thread_ok_def)
        moreover have "a ?k \<le> A" "A \<le> a ?k + 2" using o that(3) by (auto simp: thread_ok_def split: if_splits)
        ultimately show ?thesis using mod3_close [of "a ?k" A] by simp
      qed
      then have "scan_ok A a ((threads s)[i := goto Scan (t\<lparr>v_i := ?k + 1\<rparr>)]) i" by (intro next_ok) (auto simp: goto_def)
      then show ?thesis unfolding s'
        by (intro epoch_inv_move [OF inv i _ th]) (use 2 in \<open>simp_all add: thread_defs holder_def goto_def t_def\<close>)
    qed
  qed
qed

lemma code_step_finish:
  assumes inv: "epoch_inv s A a E r loc" and i: "i < length (threads s)"
    and pc: "t_pc (threads s ! i) \<in> {Restore, Reread, Retest}" and st: "code_step i s = Some s'"
  shows "\<exists>E'. epoch_inv s' A a E' r loc"
proof -
  note d = epoch_invD [OF inv i]
  define t where "t = threads s ! i"
  note ok = d(3) [folded t_def]
  let ?res = "\<lambda>t. t\<lparr>t_pc := Run, held := [], seen := if t_critical t = 1 then linked s else []\<rparr>"
  from pc consider "t_pc t = Restore" | "t_pc t = Reread" | "t_pc t = Retest" unfolding t_def by blast
  then show ?thesis
  proof cases
    case 1
    consider "v_res t" | "\<not> v_res t" "v_blocking t" | "\<not> v_res t" "\<not> v_blocking t" by blast
    then show ?thesis
    proof cases
      case a: 1
      have s': "s' = on_thread i (\<lambda>t. goto Reread (t\<lparr>t_critical := v_orig t\<rparr>)) s"
        using st 1 a i by (auto simp: code_step_def Let_def t_def on_thread_def)
      have th: "thread_ok A (goto Reread (t\<lparr>t_critical := v_orig t\<rparr>)) (a i) 0"
        using 1 a ok by (auto simp: thread_defs goto_def)
      show ?thesis unfolding s'
        by (rule epoch_inv_move [OF inv i _ th]) (use 1 in \<open>simp_all add: thread_defs holder_def goto_def scan_ok_other i t_def\<close>)
    next
      case b: 2
      have s': "s' = on_thread i (\<lambda>t. goto Retry (t\<lparr>t_critical := v_orig t\<rparr>)) s"
        using st 1 b i by (auto simp: code_step_def Let_def t_def on_thread_def)
      have th: "thread_ok A (goto Retry (t\<lparr>t_critical := v_orig t\<rparr>)) (a i) 0"
        using 1 b ok by (auto simp: thread_defs goto_def)
      show ?thesis unfolding s'
        by (rule epoch_inv_move [OF inv i _ th]) (use 1 in \<open>simp_all add: thread_defs holder_def goto_def scan_ok_other i t_def\<close>)
    next
      case c: 3
      have s': "s' = on_thread i (\<lambda>t. ?res (t\<lparr>t_critical := v_orig t\<rparr>)) s"
        using st 1 c i by (auto simp: code_step_def Let_def t_def on_thread_def resume_def)
      have th: "thread_ok A (?res (t\<lparr>t_critical := v_orig t\<rparr>)) (a i) 0"
        using 1 c ok by (auto simp: thread_defs)
      show ?thesis unfolding s'
        by (rule epoch_inv_move [OF inv i _ th]) (use 1 in \<open>simp_all add: thread_defs holder_def goto_def scan_ok_other i t_def\<close>)
    qed
  next
    case 2
    then have s': "s' = on_thread i (\<lambda>t. goto Retest (t\<lparr>v_epoch := g_epoch s\<rparr>)) s"
      using st by (simp add: code_step_def Let_def t_def)
    have th: "thread_ok A (goto Retest (t\<lparr>v_epoch := g_epoch s\<rparr>)) (a i) A"
      using 2 d(1) ok by (auto simp: thread_defs goto_def)
    show ?thesis unfolding s'
      by (rule epoch_inv_move [OF inv i _ th]) (use 2 in \<open>simp_all add: thread_defs holder_def goto_def scan_ok_other i t_def\<close>)
  next
    case 3
    show ?thesis
    proof (cases "t_epoch t = v_epoch t")
      case True
      then have s': "s' = on_thread i ?res s" using st 3 by (simp add: code_step_def Let_def t_def resume_eq)
      have "t_critical t \<noteq> 1"
      proof
        assume "t_critical t = 1"
        then have "active t" using 3 by (simp add: active_def window_def)
        then have le: "A \<le> a i + 2" "a i < A" "E i = A" and "t_epoch t = int (a i mod 3)" "v_epoch t = int (E i mod 3)"
          using 3 ok by (simp_all add: thread_ok_def advanced_def)
        then have "a i mod 3 = A mod 3" using True by simp
        then show False using mod3_close [of "a i" A] le by simp
      qed
      then have th: "thread_ok A (?res t) (a i) 0" using 3 ok by (auto simp: thread_defs)
      show ?thesis unfolding s'
        by (rule epoch_inv_move [OF inv i _ th]) (use 3 in \<open>simp_all add: thread_defs holder_def goto_def scan_ok_other i t_def\<close>)
    next
      case False
      then have s': "s' = on_thread i (goto Process) s" using st 3 by (simp add: code_step_def Let_def t_def)
      have "E i mod 3 \<noteq> a i mod 3" using False 3 ok by (simp add: thread_ok_def)
      then have th: "thread_ok A (goto Process t) (a i) (E i)" using 3 ok by (auto simp: thread_defs goto_def)
      show ?thesis unfolding s'
        by (rule epoch_inv_move [OF inv i _ th]) (use 3 in \<open>simp_all add: thread_defs holder_def goto_def scan_ok_other i t_def\<close>)
    qed
  qed
qed

lemma thread_ok_advance:
  assumes "thread_ok A t a E" "active t \<Longrightarrow> a = A" "t_pc t \<notin> {Scan, Scan_epoch, Write}"
  shows "thread_ok (Suc A) t a E"
proof (cases "active t")
  case True
  then have "a = A" by (rule assms(2))
  with True assms(1,3) show ?thesis by (cases "t_pc t") (auto simp: thread_ok_def advanced_def)
next
  case False
  with assms(1,3) show ?thesis by (cases "t_pc t") (auto simp: thread_ok_def)
qed

lemma code_step_write:
  assumes inv: "epoch_inv s A a E r loc" and i: "i < length (threads s)"
    and pc: "t_pc (threads s ! i) = Write" and st: "code_step i s = Some s'"
  shows "epoch_inv s' (A + 1) a E r loc"
proof -
  note d = epoch_invD [OF inv i]
  define t where "t = threads s ! i"
  note ok = d(3) [folded t_def]
  have curr: "v_curr t = int (A mod 3)" using ok pc by (simp add: thread_ok_def t_def)
  have mod: "(int (A mod 3) + 1) mod 3 = int (Suc A mod 3)" by (simp add: zmod_int mod_simps add.commute)
  then have s': "s' = on_thread i (\<lambda>t. goto Unlock (t\<lparr>v_res := True\<rparr>)) (s\<lparr>g_epoch := int (Suc A mod 3)\<rparr>)"
    using st pc curr by (simp add: code_step_def Let_def t_def N_EPOCHS_def)
  have th: "threads s' = (threads s)[i := goto Unlock (t\<lparr>v_res := True\<rparr>)]" by (simp add: s' t_def)
  have lock: "lock_ok s'" by (rule lock_ok_same [OF d(2) i th]) (use pc in \<open>simp_all add: s' holder_def\<close>)
  have hi: "holder (threads s ! i)" using pc by (simp add: holder_def)
  have one: "thread_ok (A + 1) (threads s' ! k) (a k) (E k) \<and> scan_ok (A + 1) a (threads s') k \<and>
      owns_ok r loc k (threads s' ! k) (a k)" if k: "k < length (threads s')" for k
  proof (cases "k = i")
    case True
    have "thread_ok (A + 1) (goto Unlock (t\<lparr>v_res := True\<rparr>)) (a i) (E i)"
      using ok pc by (auto simp: thread_defs goto_def t_def)
    moreover have "owns_ok r loc i (goto Unlock (t\<lparr>v_res := True\<rparr>)) (a i)"
      using d(5) by (simp add: owns_ok_def goto_def t_def)
    moreover have "scan_ok (A + 1) a (threads s') i" unfolding th by (rule scan_ok_other) (use i in \<open>simp_all add: goto_def\<close>)
    ultimately show ?thesis using True th i by simp
  next
    case False
    have kl: "k < length (threads s)" using k th by simp
    have o: "thread_ok A (threads s ! k) (a k) (E k)" "owns_ok r loc k (threads s ! k) (a k)"
      using epoch_invD(3,5) [OF inv kl] by simp_all
    have act: "active (threads s ! k) \<Longrightarrow> a k = A" using d(4) pc kl False by (simp add: scan_ok_def)
    have "\<not> holder (threads s ! k)" using d(2) hi i kl False unfolding lock_ok_def by blast
    then have nh: "t_pc (threads s ! k) \<notin> {Scan, Scan_epoch, Write}" by (auto simp: holder_def)
    have "thread_ok (A + 1) (threads s ! k) (a k) (E k)" using thread_ok_advance [OF o(1) act nh] by simp
    moreover have "scan_ok (A + 1) a (threads s') k" using nh False th by (simp add: scan_ok_def)
    ultimately show ?thesis using o False th by simp
  qed
  have "linked s' = linked s" "unused s' = unused s" "g_epoch s' = int ((A + 1) mod 3)" by (simp_all add: s')
  then show ?thesis using inv lock one unfolding epoch_inv_def by simp
qed

lemma code_step_enter:
  assumes inv: "epoch_inv s A a E r loc" and i: "i < length (threads s)"
    and pc: "t_pc (threads s ! i) = Enter" and st: "code_step i s = Some s'"
  shows "\<exists>a' E'. epoch_inv s' A a' E' r loc"
proof -
  note d = epoch_invD [OF inv i]
  define t where "t = threads s ! i"
  note ok = d(3) [folded t_def]
  let ?t = "t\<lparr>t_epoch := v_epoch t, t_pc := Run, held := [], seen := if t_critical t = 1 then linked s else []\<rparr>"
  have s': "s' = s\<lparr>threads := (threads s)[i := ?t]\<rparr>"
    using st pc i by (auto simp: code_step_def Let_def t_def on_thread_def resume_def)
  have e: "v_epoch t = int (E i mod 3)" "a i \<le> E i" "E i \<le> A" "active t \<Longrightarrow> E i = A"
    using ok pc by (auto simp: thread_ok_def t_def)
  have "active ?t \<Longrightarrow> active t" using pc by (simp add: active_def window_def t_def)
  moreover have "thread_ok A ?t (E i) (E i)"
    using ok pc e by (auto simp: thread_defs t_def)
  moreover have "lock_ok s'" by (rule lock_ok_same [OF d(2) i, where t' = ?t]) (simp_all add: s' holder_def)
  ultimately have "epoch_inv s' A (a(i := E i)) (E(i := E i)) r loc"
    using e(2) d(6) i by (intro epoch_inv_thread [OF inv i, where t' = ?t]) (simp_all add: s' t_def scan_ok_other)
  then show ?thesis by blast
qed

lemma owns_okD:
  assumes "owns_ok r loc i t a" "k < 3"
  shows "distinct (t_limbo t ! k)" "p \<in> set (t_limbo t ! k) \<longleftrightarrow> loc p = Some (Limbo i k)"
    "p \<in> set (t_limbo t ! k) \<Longrightarrow> r p mod 3 = k \<and> r p \<le> a"
  using assms by (simp_all add: owns_ok_def)

text \<open>A node that a thread frees is in nobody's reach.\<close>

lemma process_unseen:
  assumes inv: "epoch_inv s A a E r loc" and i: "i < length (threads s)"
    and pc: "t_pc (threads s ! i) = Process" and p: "p \<in> set (t_limbo (threads s ! i) ! (E i mod 3))"
    and j: "j < length (threads s)"
  shows "p \<notin> set (seen (threads s ! j))"
proof
  assume sn: "p \<in> set (seen (threads s ! j))"
  note d = epoch_invD [OF inv i] and dj = epoch_invD [OF inv j]
  have r: "r p mod 3 = E i mod 3" "r p \<le> a i" "loc p = Some (Limbo i (E i mod 3))"
    using owns_okD(2,3) [OF d(5), of "E i mod 3" p] p by simp_all
  have e: "a i \<le> E i" "E i \<le> A" "E i mod 3 \<noteq> a i mod 3" using d(3) pc by (simp_all add: thread_ok_def)
  have "seen (threads s ! j) \<noteq> []" using sn by auto
  then have run: "t_pc (threads s ! j) = Run" "t_critical (threads s ! j) = 1"
    using dj(3) unfolding thread_ok_def by blast+
  then have "active (threads s ! j)" "\<not> advanced (threads s ! j)" by (simp_all add: active_def window_def advanced_def)
  then have "A \<le> a j + 1" using dj(3) by (simp add: thread_ok_def)
  moreover have "a j \<le> r p + 1" using dj(5) sn r(3) unfolding owns_ok_def seen_ok_def by blast
  ultimately have "r p = E i" using mod3_close [of "r p" "E i"] r(1,2) e(1,2) by simp
  then show False using r(2) e by simp
qed

lemma code_step_process:
  assumes inv: "epoch_inv s A a E r loc" and i: "i < length (threads s)"
    and pc: "t_pc (threads s ! i) = Process" and st: "code_step i s = Some s'"
  shows "\<exists>E' loc'. epoch_inv s' A a E' r loc'"
proof -
  note d = epoch_invD [OF inv i]
  define t where "t = threads s ! i"
  note ok = d(3) [folded t_def]
  let ?e = "E i mod 3"
  have ve: "nat (v_epoch t) = ?e" using ok pc by (simp add: thread_ok_def t_def)
  have lim: "length (t_limbo t) = 3" "?e < 3" using ok by (simp_all add: thread_ok_def)
  show ?thesis
  proof (cases "t_limbo t ! ?e")
    case Nil
    then have s': "s' = on_thread i (goto Enter) s" using st pc ve by (simp add: code_step_def Let_def t_def)
    have th: "thread_ok A (goto Enter t) (a i) (E i)" using ok pc by (auto simp: thread_defs goto_def t_def)
    have "\<exists>E'. epoch_inv s' A a E' r loc" unfolding s'
      by (rule epoch_inv_move [OF inv i _ th]) (use pc in \<open>simp_all add: thread_defs holder_def goto_def scan_ok_other i t_def\<close>)
    then show ?thesis by blast
  next
    case (Cons p ps)
    let ?t = "t\<lparr>t_limbo := (t_limbo t)[?e := ps]\<rparr>" and ?loc = "loc(p \<mapsto> Unused)"
    have s': "s' = s\<lparr>unused := p # unused s, threads := (threads s)[i := ?t]\<rparr>"
      using st pc ve Cons by (simp add: code_step_def Let_def t_def on_thread_def)
    have pl: "loc p = Some (Limbo i ?e)" "distinct (p # ps)"
      using owns_okD(1) [OF d(5) lim(2)] owns_okD(2) [OF d(5) lim(2), of p] Cons by (simp_all add: t_def)
    have unseen: "p \<notin> set (seen (threads s ! k))" if "k < length (threads s)" for k
      by (rule process_unseen [OF inv i pc _ that]) (use Cons in \<open>simp add: t_def\<close>)
    have seen: "seen_ok r ?loc (a k) (seen (threads s ! k))" if "k < length (threads s)" for k
      using epoch_invD(5) [OF inv that] unseen [OF that] by (auto simp: owns_ok_def seen_ok_def)
    have "lock_ok s'" by (rule lock_ok_same [OF d(2) i, of s' ?t]) (simp_all add: s' holder_def t_def)
    moreover have "thread_ok A (threads s' ! k) (a k) (E k)" if "k < length (threads s)" for k
      using epoch_invD(3) [OF inv that] i pc s' by (cases "k = i") (auto simp: thread_defs t_def)
    moreover have "scan_ok A a (threads s') k" if "k < length (threads s)" for k
    proof -
      have "active (threads s' ! m) = active (threads s ! m)" "t_pc (threads s' ! m) = t_pc (threads s ! m)"
        "v_i (threads s' ! m) = v_i (threads s ! m)" for m
        using i s' by (cases "m = i"; simp add: active_def window_def t_def)+
      then show ?thesis using epoch_invD(4) [OF inv that] s' by (simp add: scan_ok_def)
    qed
    moreover have "owns_ok r ?loc k (threads s' ! k) (a k)" if k: "k < length (threads s)" for k
    proof (cases "k = i")
      case False
      then show ?thesis using epoch_invD(5) [OF inv k] seen [OF k] pl(1) s' by (auto simp: owns_ok_def)
    next
      case True
      have "distinct (X ! m) \<and> (\<forall>q. q \<in> set (X ! m) \<longleftrightarrow> ?loc q = Some (Limbo i m)) \<and>
        (\<forall>q \<in> set (X ! m). r q mod 3 = m \<and> r q \<le> a i)"
        if "m < 3" "X = (t_limbo t)[?e := ps]" for m X
      proof -
        have o: "distinct (t_limbo t ! m)" "\<And>q. q \<in> set (t_limbo t ! m) \<longleftrightarrow> loc q = Some (Limbo i m)"
          "\<And>q. q \<in> set (t_limbo t ! m) \<Longrightarrow> r q mod 3 = m \<and> r q \<le> a i"
          using owns_okD [OF d(5) that(1)] by (simp_all add: t_def)
        show ?thesis
        proof (cases "m = ?e")
          case True
          have "q \<in> set ps \<longleftrightarrow> ?loc q = Some (Limbo i m)" for q
            using o(2) [of q] pl Cons True by auto
          then show ?thesis using True o Cons lim that(2) by auto
        next
          case False
          then show ?thesis using o pl that(2) by auto
        qed
      qed
      then show ?thesis using True d(5) seen [OF i] pl(1) s' i by (auto simp: owns_ok_def t_def)
    qed
    moreover have "(\<forall>q. q \<in> set (linked s') \<longleftrightarrow> ?loc q = Some Linked)"
      "(\<forall>q. q \<in> set (unused s') \<longleftrightarrow> ?loc q = Some Unused)" "distinct (unused s')"
      using inv pl(1) s' by (auto simp: epoch_inv_def)
    ultimately have "epoch_inv s' A a E r ?loc" using d(1) s' by (simp add: epoch_inv_def)
    then show ?thesis by blast
  qed
qed

text \<open>The steps of the client leave the control of all threads alone.\<close>

definition control :: "q_thread \<Rightarrow> q_thread" where
  "control t = t\<lparr>t_limbo := [], held := [], seen := [], cut := []\<rparr>"

lemma control_eqD:
  assumes "control t = control u"
  shows "t_epoch t = t_epoch u" "t_critical t = t_critical u" "t_pc t = t_pc u" "v_blocking t = v_blocking u"
    "v_epoch t = v_epoch u" "v_orig t = v_orig u" "v_res t = v_res u" "v_curr t = v_curr u" "v_i t = v_i u"
  using assms by (cases t; cases u; simp add: control_def)+

lemma epoch_inv_memory:
  assumes inv: "epoch_inv s A a E r loc"
    and s': "length (threads s') = length (threads s)" "g_epoch s' = g_epoch s" "g_lock s' = g_lock s"
    and ctl: "\<And>k. k < length (threads s) \<Longrightarrow> control (threads s' ! k) = control (threads s ! k)"
    and lim: "\<And>k. k < length (threads s) \<Longrightarrow> length (t_limbo (threads s' ! k)) = 3"
    and seen: "\<And>k. k < length (threads s) \<Longrightarrow> \<not> running (threads s ! k) \<Longrightarrow> seen (threads s' ! k) = []"
      "\<And>k. k < length (threads s) \<Longrightarrow> set (held (threads s' ! k)) \<subseteq> set (seen (threads s' ! k))"
    and own: "\<And>k. k < length (threads s) \<Longrightarrow> owns_ok r' loc' k (threads s' ! k) (a k)"
    and mem: "\<And>p. p \<in> set (linked s') \<longleftrightarrow> loc' p = Some Linked" "\<And>p. p \<in> set (unused s') \<longleftrightarrow> loc' p = Some Unused"
      "distinct (unused s')"
  shows "epoch_inv s' A a E r' loc'"
proof -
  note c = control_eqD [OF ctl]
  have fl: "active (threads s' ! k) = active (threads s ! k)" "holder (threads s' ! k) = holder (threads s ! k)"
    "advanced (threads s' ! k) = advanced (threads s ! k)" if "k < length (threads s)" for k
    using c [OF that] by (simp_all add: active_def window_def holder_def advanced_def)
  have "lock_ok s'" using inv s' fl by (simp add: epoch_inv_def lock_ok_def)
  moreover have "thread_ok A (threads s' ! k) (a k) (E k)" if k: "k < length (threads s)" for k
  proof -
    have "t_pc (threads s' ! k) \<noteq> Run \<or> t_critical (threads s' ! k) \<noteq> 1 \<longrightarrow> seen (threads s' ! k) = []"
      using seen(1) [OF k] c [OF k] by (auto simp: running_def)
    then show ?thesis using epoch_invD(3) [OF inv k] lim [OF k] seen(2) [OF k]
      unfolding thread_ok_def fl [OF k] c [OF k] by blast
  qed
  moreover have "scan_ok A a (threads s') k" if "k < length (threads s)" for k
    using epoch_invD(4) [OF inv that] c [OF that] fl s' by (simp add: scan_ok_def)
  ultimately show ?thesis using inv s' own mem by (simp add: epoch_inv_def)
qed

lemma thread_okD:
  assumes "thread_ok A t a E"
  shows "length (t_limbo t) = 3" "set (held t) \<subseteq> set (seen t)" "\<not> running t \<Longrightarrow> seen t = []" "a \<le> A"
  using assms unfolding thread_ok_def running_def by blast+

lemma running_lag:
  assumes "thread_ok A t a E" "running t"
  shows "A \<le> a + 1"
  using assms by (simp add: thread_ok_def running_def active_def window_def advanced_def)

lemma act_Cut:
  assumes inv: "epoch_inv s A a E r loc" and i: "i < length (threads s)"
    and st: "q_act i (Cut p) s = Some s'"
  shows "\<exists>loc'. epoch_inv s' A a E r loc'"
proof -
  have run: "running (threads s ! i)" and p: "loc p = Some Linked"
    and s': "s' = on_thread i (\<lambda>t. t\<lparr>cut := p # cut t\<rparr>) (s\<lparr>linked := removeAll p (linked s)\<rparr>)"
    using st i epoch_invD(6) [OF inv i] by (auto simp: q_act_def Let_def split: if_splits)
  have th: "threads s' ! k = (if k = i then (threads s ! i)\<lparr>cut := p # cut (threads s ! i)\<rparr> else threads s ! k)"
    if "k < length (threads s)" for k using that by (simp add: s')
  have "epoch_inv s' A a E r (loc(p \<mapsto> Cut_by i))"
  proof (rule epoch_inv_memory [OF inv])
    fix k assume k: "k < length (threads s)"
    note d = epoch_invD [OF inv k]
    show "control (threads s' ! k) = control (threads s ! k)" using th [OF k] by (simp add: control_def)
    show "length (t_limbo (threads s' ! k)) = 3" "set (held (threads s' ! k)) \<subseteq> set (seen (threads s' ! k))"
      using thread_okD(1,2) [OF d(3)] th [OF k] by auto
    show "\<not> running (threads s ! k) \<Longrightarrow> seen (threads s' ! k) = []"
      using thread_okD(3) [OF d(3)] th [OF k] by auto
    show "owns_ok r (loc(p \<mapsto> Cut_by i)) k (threads s' ! k) (a k)"
      using d(5) p th [OF k] by (auto simp: owns_ok_def seen_ok_def)
  next
    show "q \<in> set (linked s') \<longleftrightarrow> (loc(p \<mapsto> Cut_by i)) q = Some Linked"
      "q \<in> set (unused s') \<longleftrightarrow> (loc(p \<mapsto> Cut_by i)) q = Some Unused" for q
      using epoch_invD(6,7) [OF inv i] p by (auto simp: s')
  qed (use inv in \<open>simp_all add: s' epoch_inv_def\<close>)
  then show ?thesis by blast
qed

lemma act_Link:
  assumes inv: "epoch_inv s A a E r loc" and i: "i < length (threads s)"
    and st: "q_act i (Link p) s = Some s'"
  shows "\<exists>loc'. epoch_inv s' A a E r loc'"
proof -
  have p: "loc p = Some Unused"
    and s': "s' = s\<lparr>unused := removeAll p (unused s), linked := p # linked s,
       threads := map (\<lambda>t. if running t then t\<lparr>seen := p # seen t\<rparr> else t) (threads s)\<rparr>"
    using st i epoch_invD(7) [OF inv i] by (auto simp: q_act_def Let_def split: if_splits)
  have th: "threads s' ! k = (if running (threads s ! k) then (threads s ! k)\<lparr>seen := p # seen (threads s ! k)\<rparr> else threads s ! k)"
    if "k < length (threads s)" for k using that by (simp add: s')
  have "epoch_inv s' A a E r (loc(p \<mapsto> Linked))"
  proof (rule epoch_inv_memory [OF inv])
    fix k assume k: "k < length (threads s)"
    note d = epoch_invD [OF inv k]
    show "control (threads s' ! k) = control (threads s ! k)" using th [OF k] by (simp add: control_def)
    show "length (t_limbo (threads s' ! k)) = 3" "set (held (threads s' ! k)) \<subseteq> set (seen (threads s' ! k))"
      using thread_okD(1,2) [OF d(3)] th [OF k] by auto
    show "\<not> running (threads s ! k) \<Longrightarrow> seen (threads s' ! k) = []"
      using thread_okD(3) [OF d(3)] th [OF k] by auto
    show "owns_ok r (loc(p \<mapsto> Linked)) k (threads s' ! k) (a k)"
      using d(5) p th [OF k] by (auto simp: owns_ok_def seen_ok_def)
  next
    show "q \<in> set (linked s') \<longleftrightarrow> (loc(p \<mapsto> Linked)) q = Some Linked"
      "q \<in> set (unused s') \<longleftrightarrow> (loc(p \<mapsto> Linked)) q = Some Unused" for q
      using epoch_invD(6,7) [OF inv i] p by (auto simp: s')
  qed (use inv in \<open>simp_all add: s' epoch_inv_def distinct_removeAll\<close>)
  then show ?thesis by blast
qed

lemma act_Retire:
  assumes inv: "epoch_inv s A a E r loc" and i: "i < length (threads s)"
    and st: "q_act i (Retire p) s = Some s'"
  shows "\<exists>r' loc'. epoch_inv s' A a E r' loc'"
proof -
  note di = epoch_invD [OF inv i]
  define t where "t = threads s ! i"
  let ?e = "a i mod 3"
  let ?t = "t\<lparr>cut := removeAll p (cut t), t_limbo := (t_limbo t)[?e := p # t_limbo t ! ?e]\<rparr>"
  let ?r = "r(p := a i)" and ?loc = "loc(p \<mapsto> Limbo i ?e)"
  have ep: "nat (t_epoch t) = ?e" and lim: "length (t_limbo t) = 3" using di(3) by (simp_all add: thread_ok_def t_def)
  have run: "running t" and p: "loc p = Some (Cut_by i)" and s': "s' = s\<lparr>threads := (threads s)[i := ?t]\<rparr>"
    using st i di(5) ep by (auto simp: q_act_def Let_def t_def owns_ok_def on_thread_def split: if_splits)
  have lag: "A \<le> a i + 1" using running_lag [OF di(3)] run by (simp add: t_def)
  have th: "threads s' ! k = (if k = i then ?t else threads s ! k)" if "k < length (threads s)" for k
    using that by (simp add: s')
  have seen: "seen_ok ?r ?loc (a k) (seen (threads s ! k))" if k: "k < length (threads s)" for k
  proof -
    have "a k \<le> A" using epoch_invD(3) [OF inv k] by (simp add: thread_ok_def)
    then show ?thesis using epoch_invD(5) [OF inv k] lag by (auto simp: owns_ok_def seen_ok_def)
  qed
  have "epoch_inv s' A a E ?r ?loc"
  proof (rule epoch_inv_memory [OF inv])
    fix k assume k: "k < length (threads s)"
    note d = epoch_invD [OF inv k]
    show "control (threads s' ! k) = control (threads s ! k)" using th [OF k] by (simp add: control_def t_def)
    show "length (t_limbo (threads s' ! k)) = 3" "set (held (threads s' ! k)) \<subseteq> set (seen (threads s' ! k))"
      using thread_okD(1,2) [OF d(3)] th [OF k] by (auto simp: t_def)
    show "\<not> running (threads s ! k) \<Longrightarrow> seen (threads s' ! k) = []"
      using thread_okD(3) [OF d(3)] th [OF k] by (auto simp: t_def)
    show "owns_ok ?r ?loc k (threads s' ! k) (a k)"
    proof (cases "k = i")
      case False
      have "?r q = r q" if "q \<in> set (t_limbo (threads s ! k) ! m)" "m < 3" for q m
        using owns_okD(2) [OF d(5) that(2), of q] that(1) p by auto
      then show ?thesis using d(5) seen [OF k] p False th [OF k] by (auto simp: owns_ok_def)
    next
      case True
      have "distinct (t_limbo ?t ! m) \<and> (\<forall>q. q \<in> set (t_limbo ?t ! m) \<longleftrightarrow> ?loc q = Some (Limbo i m)) \<and>
          (\<forall>q \<in> set (t_limbo ?t ! m). ?r q mod 3 = m \<and> ?r q \<le> a i)" if m: "m < 3" for m
      proof -
        have o: "distinct (t_limbo t ! m)" "\<And>q. q \<in> set (t_limbo t ! m) \<longleftrightarrow> loc q = Some (Limbo i m)"
          "\<And>q. q \<in> set (t_limbo t ! m) \<Longrightarrow> r q mod 3 = m \<and> r q \<le> a i"
          using owns_okD [OF di(5) m] by (simp_all add: t_def)
        show ?thesis using o p lim by (cases "m = ?e") auto
      qed
      moreover have "q \<in> set (cut ?t) \<longleftrightarrow> ?loc q = Some (Cut_by i)" for q
        using di(5) p by (auto simp: owns_ok_def t_def)
      ultimately show ?thesis using True seen [OF i] th [OF i] by (simp add: owns_ok_def t_def)
    qed
  next
    show "q \<in> set (linked s') \<longleftrightarrow> ?loc q = Some Linked" "q \<in> set (unused s') \<longleftrightarrow> ?loc q = Some Unused" for q
      using di(6,7) p by (auto simp: s')
  qed (use inv in \<open>simp_all add: s' epoch_inv_def\<close>)
  then show ?thesis by blast
qed

lemma act_local:
  assumes inv: "epoch_inv s A a E r loc" and i: "i < length (threads s)"
    and a: "a' \<in> {Acquire p, Quiesce b, Exit}" and st: "q_act i a' s = Some s'"
  shows "\<exists>E'. epoch_inv s' A a E' r loc"
proof -
  note d = epoch_invD [OF inv i]
  define t where "t = threads s ! i"
  note ok = d(3) [folded t_def]
  from a consider "a' = Acquire p" | "a' = Quiesce b" | "a' = Exit" by blast
  then show ?thesis
  proof cases
    case 1
    then have s': "s' = on_thread i (\<lambda>t. t\<lparr>held := p # held t\<rparr>) s" and t: "running t" "p \<in> set (seen t)"
      using st i by (auto simp: q_act_def Let_def t_def split: if_splits)
    have th: "thread_ok A (t\<lparr>held := p # held t\<rparr>) (a i) 0"
      using t ok by (auto simp: thread_defs running_def)
    show ?thesis unfolding s'
      by (rule epoch_inv_move [OF inv i _ th])
        (use t in \<open>simp_all add: thread_defs holder_def running_def scan_ok_other i t_def\<close>)
  next
    case 2
    then have s': "s' = on_thread i (\<lambda>t. t\<lparr>t_pc := Retry, v_blocking := b, held := [], seen := []\<rparr>) s" and t: "t_pc t = Run"
      using st i by (auto simp: q_act_def Let_def t_def split: if_splits)
    have th: "thread_ok A (t\<lparr>t_pc := Retry, v_blocking := b, held := [], seen := []\<rparr>) (a i) 0"
      using t ok by (auto simp: thread_defs)
    show ?thesis unfolding s'
      by (rule epoch_inv_move [OF inv i _ th]) (use t in \<open>simp_all add: thread_defs holder_def scan_ok_other i t_def\<close>)
  next
    case 3
    then have s': "s' = on_thread i (\<lambda>t. t\<lparr>t_critical := 0, held := [], seen := []\<rparr>) s" and t: "running t"
      using st i by (auto simp: q_act_def Let_def t_def split: if_splits)
    have th: "thread_ok A (t\<lparr>t_critical := 0, held := [], seen := []\<rparr>) (a i) 0"
      using t ok by (auto simp: thread_defs running_def)
    show ?thesis unfolding s'
      by (rule epoch_inv_move [OF inv i _ th])
        (use t in \<open>simp_all add: thread_defs holder_def running_def scan_ok_other i t_def\<close>)
  qed
qed

lemma code_step_inv:
  assumes inv: "epoch_inv s A a E r loc" and i: "i < length (threads s)"
    and st: "code_step i s = Some s'" and calm: "calm i Code s"
  shows "\<exists>A a E r loc. epoch_inv s' A a E r loc"
proof (cases "t_pc (threads s ! i)")
  case Run
  then show ?thesis using st by (simp add: code_step_def Let_def)
next
  case Write
  then show ?thesis using code_step_write [OF inv i _ st] by blast
next
  case Process
  then show ?thesis using code_step_process [OF inv i _ st] by blast
next
  case Enter
  then show ?thesis using code_step_enter [OF inv i _ st] by blast
next
  case Scan
  then show ?thesis using code_step_scan [OF inv i _ st calm] by blast
next
  case Scan_epoch
  then show ?thesis using code_step_scan [OF inv i _ st calm] by blast
qed (use code_step_start [OF inv i _ st] code_step_update [OF inv i _ st] code_step_finish [OF inv i _ st] in blast)+

lemma q_act_inv:
  assumes inv: "epoch_inv s A a E r loc" and st: "q_act i act s = Some s'" and calm: "calm i act s"
  shows "\<exists>A a E r loc. epoch_inv s' A a E r loc"
proof -
  have i: "i < length (threads s)" using st by (simp add: q_act_def split: if_splits)
  show ?thesis
  proof (cases act)
    case Code
    then show ?thesis using code_step_inv [OF inv i] st calm i by (simp add: q_act_def Let_def)
  next
    case (Cut p)
    then show ?thesis using act_Cut [OF inv i] st by blast
  next
    case (Retire p)
    then show ?thesis using act_Retire [OF inv i] st by blast
  next
    case (Link p)
    then show ?thesis using act_Link [OF inv i] st by blast
  next
    case (Acquire p)
    then have "act \<in> {Acquire p, Quiesce True, Exit}" by simp
    then show ?thesis using act_local [OF inv i _ st] by blast
  next
    case (Quiesce b)
    then have "act \<in> {Acquire 0, Quiesce b, Exit}" by simp
    then show ?thesis using act_local [OF inv i _ st] by blast
  next
    case Exit
    then have "act \<in> {Acquire 0, Quiesce True, Exit}" by simp
    then show ?thesis using act_local [OF inv i _ st] by blast
  qed
qed

lemma epoch_inv_start:
  assumes "distinct us" "set ls \<inter> set us = {}"
  shows "\<exists>A a E r loc. epoch_inv (q_start n ls us) A a E r loc"
proof -
  let ?s = "q_start n ls us"
  define loc where "loc p = (if p \<in> set ls then Some Linked else if p \<in> set us then Some Unused else None)" for p
  have t: "threads ?s ! i = threads (q_start 1 ls us) ! 0" if "i < length (threads ?s)" for i
    using that by (simp add: q_start_def)
  have run: "t_pc (threads ?s ! i) = Run" if "i < length (threads ?s)" for i using that by (simp add: q_start_def)
  have "thread_ok 1 (threads ?s ! i) 0 0 \<and> scan_ok 1 (\<lambda>_. 0) (threads ?s) i \<and> owns_ok (\<lambda>_. 0) loc i (threads ?s ! i) 0"
    if i: "i < length (threads ?s)" for i
  proof (intro conjI)
    show "thread_ok 1 (threads ?s ! i) 0 0" unfolding t [OF i]
      by (simp add: q_start_def N_EPOCHS_def thread_defs)
    show "scan_ok 1 (\<lambda>_. 0) (threads ?s) i" using run [OF i] by (simp add: scan_ok_def)
    have "k < 3 \<Longrightarrow> replicate 3 [] ! k = ([] :: ptr list)" for k by (rule nth_replicate)
    then show "owns_ok (\<lambda>_. 0) loc i (threads ?s ! i) 0" unfolding t [OF i]
      using assms(2) by (simp add: q_start_def N_EPOCHS_def owns_ok_def seen_ok_def loc_def)
  qed
  moreover have "lock_ok ?s" using run by (simp add: lock_ok_def holder_def)
  moreover have "linked ?s = ls" "unused ?s = us" "g_epoch ?s = 1" by (simp_all add: q_start_def)
  ultimately have "epoch_inv ?s 1 (\<lambda>_. 0) (\<lambda>_. 0) (\<lambda>_. 0) loc"
    using assms unfolding epoch_inv_def by (auto simp: loc_def)
  then show ?thesis by blast
qed

section \<open>Reachable states\<close>

text \<open>The states the threads can reach in calm executions, with any number of threads.\<close>

inductive calm_reach :: "q_sys \<Rightarrow> bool" where
  calm_start: "distinct us \<Longrightarrow> set ls \<inter> set us = {} \<Longrightarrow> calm_reach (q_start n ls us)"
| calm_step: "calm_reach s \<Longrightarrow> q_act i a s = Some s' \<Longrightarrow> calm i a s \<Longrightarrow> calm_reach s'"

lemma calm_reach_inv: "calm_reach s \<Longrightarrow> \<exists>A a E r loc. epoch_inv s A a E r loc"
proof (induction rule: calm_reach.induct)
  case (calm_start us ls n)
  then show ?case by (rule epoch_inv_start)
next
  case (calm_step s i a s')
  then show ?case using q_act_inv by blast
qed

fun calm_run :: "(nat \<times> q_action) list \<Rightarrow> q_sys \<Rightarrow> q_sys option" where
  "calm_run [] s = Some s"
| "calm_run ((i, a) # as) s =
     (if calm i a s then do { s1 \<leftarrow> q_act i a s; calm_run as s1 } else None)"

lemma calm_run_reach: "calm_run as s = Some t \<Longrightarrow> calm_reach s \<Longrightarrow> calm_reach t"
  by (induction as s rule: calm_run.induct)
    (auto split: if_splits option.splits simp: bind_eq_Some_conv intro: calm_step)


text \<open>A calm execution: thread 1 is reading the node that thread 0 has unlinked and retired, and thread
  0 has since gone through two quiescent states in vain.\<close>

definition calm_example :: "(nat \<times> q_action) list" where
  "calm_example =
     (0, Quiesce False) # code_steps 0 4 @ (1, Quiesce False) # code_steps 1 4 @
     [(1, Acquire 64), (0, Cut 64), (0, Retire 64)] @
     (0, Quiesce False) # code_steps 0 16 @ (0, Quiesce False) # code_steps 0 10"


end
