(* ===== verification/Epoch_Solo.thy ===== *)
theory Epoch_Solo
  imports Epoch_Protocol
begin

text \<open>
  The step-by-step model of \<open>Epoch_Protocol\<close> and the functions of \<open>Qsbr\<close> are two readings of the
  same code: when no other thread interferes, the steps of a thread from the entry of
  \<open>quiescent_state\<close> to its return do exactly what \<open>Qsbr.quiescent_state\<close> computes.
\<close>

inductive solo :: "nat \<Rightarrow> q_sys \<Rightarrow> q_sys \<Rightarrow> bool" for i :: nat where
  solo_refl: "solo i q q"
| solo_step: "code_step i q = Some q1 \<Longrightarrow> solo i q1 q2 \<Longrightarrow> solo i q q2"

lemma solo_trans: "solo i q q1 \<Longrightarrow> solo i q1 q2 \<Longrightarrow> solo i q q2"
  by (induction rule: solo.induct) (auto intro: solo_step)

lemma solo_one: "code_step i q = Some q1 \<Longrightarrow> solo i q q1"
  by (blast intro: solo_step solo_refl)

text \<open>Every intermediate state is \<open>q\<close> with another thread \<open>i\<close>, lock, global epoch and free list.\<close>

definition put :: "nat \<Rightarrow> q_thread \<Rightarrow> q_sys \<Rightarrow> q_sys" where
  "put i t q = q\<lparr>threads := (threads q)[i := t]\<rparr>"

lemma put_simps [simp]:
  "threads (put i t q) = (threads q)[i := t]" "g_epoch (put i t q) = g_epoch q" "g_lock (put i t q) = g_lock q"
  "linked (put i t q) = linked q" "unused (put i t q) = unused q"
  "put i t (put i u q) = put i t q"
  "i < length (threads q) \<Longrightarrow> on_thread i f (put i t q) = put i (f t) q"
  "(put i t q)\<lparr>g_lock := l\<rparr> = put i t (q\<lparr>g_lock := l\<rparr>)" "(put i t q)\<lparr>g_epoch := e\<rparr> = put i t (q\<lparr>g_epoch := e\<rparr>)"
  "(put i t q)\<lparr>unused := us\<rparr> = put i t (q\<lparr>unused := us\<rparr>)"
  by (simp_all add: put_def on_thread_def)

lemma resume_put [simp]:
  "i < length (threads q) \<Longrightarrow>
   resume i (put i t q) = put i (t\<lparr>t_pc := Run, held := [], seen := if t_critical t = 1 then linked q else []\<rparr>) q"
  by (simp add: resume_eq)

lemma put_self: "i < length (threads q) \<Longrightarrow> put i (threads q ! i) q = q"
  by (simp add: put_def)

text \<open>The loop over the threads in \<open>update_epoch\<close>; the thread itself has lowered its flag.\<close>

definition others_ready :: "nat \<Rightarrow> q_sys \<Rightarrow> int \<Rightarrow> nat \<Rightarrow> bool" where
  "others_ready i q c k \<longleftrightarrow>
     (\<forall>j < length (threads q). k \<le> j \<longrightarrow> j \<noteq> i \<longrightarrow> t_critical (threads q ! j) = 1 \<longrightarrow> t_epoch (threads q ! j) = c)"

lemma solo_scan:
  assumes "i < length (threads q)" "t_pc t = Scan" "t_critical t = 0" "v_i t \<le> length (threads q)"
  shows "\<exists>k. solo i (put i t q)
    (put i (if others_ready i q (v_curr t) (v_i t) then t\<lparr>v_i := k, t_pc := Write\<rparr>
            else t\<lparr>v_i := k, v_res := False, t_pc := Unlock\<rparr>) q)"
  using assms
proof (induction "length (threads q) - v_i t" arbitrary: t)
  case 0
  then have "others_ready i q (v_curr t) (v_i t)" by (simp add: others_ready_def)
  moreover have "code_step i (put i t q) = Some (put i (t\<lparr>v_i := v_i t, t_pc := Write\<rparr>) q)"
    using 0 by (simp add: code_step_def Let_def goto_def)
  ultimately show ?case by (intro exI [of _ "v_i t"]) (simp add: solo_one)
next
  case (Suc d)
  let ?k = "v_i t" and ?u = "threads q ! v_i t"
  have k: "?k < length (threads q)" using Suc.hyps(2) by simp
  have split: "others_ready i q c ?k \<longleftrightarrow>
      (?k \<noteq> i \<longrightarrow> t_critical ?u = 1 \<longrightarrow> t_epoch ?u = c) \<and> others_ready i q c (Suc ?k)" for c
    using k by (auto simp: others_ready_def Suc_le_eq le_less)
  have next': "\<exists>k. solo i (put i (t\<lparr>v_i := Suc ?k\<rparr>) q)
      (put i (if others_ready i q (v_curr t) (Suc ?k) then t\<lparr>v_i := k, t_pc := Write\<rparr>
              else t\<lparr>v_i := k, v_res := False, t_pc := Unlock\<rparr>) q)"
    using Suc.hyps(1) [of "t\<lparr>v_i := Suc ?k\<rparr>"] Suc.hyps(2) Suc.prems k
    by (cases "others_ready i q (v_curr t) (Suc ?k)") simp_all
  then obtain m where nk: "solo i (put i (t\<lparr>v_i := Suc ?k\<rparr>) q)
      (put i (if others_ready i q (v_curr t) (Suc ?k) then t\<lparr>v_i := m, t_pc := Write\<rparr>
              else t\<lparr>v_i := m, v_res := False, t_pc := Unlock\<rparr>) q)" by blast
  have other: "threads (put i t q) ! ?k = (if ?k = i then t else ?u)" using k by simp
  show ?case
  proof (cases "?k \<noteq> i \<and> t_critical ?u = 1")
    case False
    then have "t_critical (threads (put i t q) ! ?k) \<noteq> 1" using Suc.prems(3) unfolding other by auto
    then have st: "code_step i (put i t q) = Some (put i (t\<lparr>v_i := Suc ?k\<rparr>) q)"
      using Suc.prems k by (simp add: code_step_def Let_def)
    have "others_ready i q (v_curr t) ?k = others_ready i q (v_curr t) (Suc ?k)" using split False by blast
    then show ?thesis by (intro exI [of _ m] solo_step [OF st]) (use nk in simp)
  next
    case True
    then have s1: "code_step i (put i t q) = Some (put i (t\<lparr>t_pc := Scan_epoch\<rparr>) q)"
      using Suc.prems k by (simp add: code_step_def Let_def goto_def)
    show ?thesis
    proof (cases "t_epoch ?u = v_curr t")
      case eq: True
      have same: "t\<lparr>v_i := Suc ?k, t_pc := Scan\<rparr> = t\<lparr>v_i := Suc ?k\<rparr>" using Suc.prems(2) by (cases t) simp
      have s2: "code_step i (put i (t\<lparr>t_pc := Scan_epoch\<rparr>) q) = Some (put i (t\<lparr>v_i := Suc ?k\<rparr>) q)"
        using Suc.prems k True eq by (simp add: code_step_def Let_def goto_def same)
      have "others_ready i q (v_curr t) ?k = others_ready i q (v_curr t) (Suc ?k)" using split eq by blast
      then show ?thesis by (intro exI [of _ m] solo_step [OF s1] solo_step [OF s2]) (use nk in simp)
    next
      case ne: False
      have s3: "code_step i (put i (t\<lparr>t_pc := Scan_epoch\<rparr>) q) = Some (put i (t\<lparr>v_i := ?k, v_res := False, t_pc := Unlock\<rparr>) q)"
        using Suc.prems k True ne by (simp add: code_step_def Let_def goto_def)
      have "\<not> others_ready i q (v_curr t) ?k" using split ne True by blast
      then show ?thesis using solo_step [OF s1 solo_one [OF s3]] by (intro exI [of _ ?k]) simp
    qed
  qed
qed

text \<open>The loop of \<open>process_callbacks\<close>, and entering the epoch.\<close>

definition entered :: "q_sys \<Rightarrow> q_thread \<Rightarrow> int \<Rightarrow> q_thread" where
  "entered q t g = t\<lparr>t_limbo := (t_limbo t)[nat g := []], t_epoch := g, v_epoch := g, t_pc := Run, held := [],
     seen := if t_critical t = 1 then linked q else []\<rparr>"

lemma solo_process:
  assumes "i < length (threads q)" "t_pc t = Process" "nat (v_epoch t) < length (t_limbo t)"
  shows "solo i (put i t q) (put i (entered q t (v_epoch t)) (q\<lparr>unused := rev (t_limbo t ! nat (v_epoch t)) @ unused q\<rparr>))"
  using assms
proof (induction "t_limbo t ! nat (v_epoch t)" arbitrary: t q)
  case Nil
  have "code_step i (put i t q) = Some (put i (t\<lparr>t_pc := Enter\<rparr>) q)"
    using Nil by (simp add: code_step_def Let_def goto_def Nil(1) [symmetric])
  moreover have "code_step i (put i (t\<lparr>t_pc := Enter\<rparr>) q) = Some (put i (entered q t (v_epoch t)) q)"
    using Nil(2,4) Nil(1) [symmetric] list_update_id [of "t_limbo t" "nat (v_epoch t)"]
    by (simp add: code_step_def Let_def entered_def)
  ultimately have "solo i (put i t q) (put i (entered q t (v_epoch t)) q)"
    by (rule solo_step [OF _ solo_one])
  then show ?case using Nil(1) [symmetric] by simp
next
  case (Cons p ps)
  let ?e = "nat (v_epoch t)" and ?q = "q\<lparr>unused := p # unused q\<rparr>"
  let ?t = "t\<lparr>t_limbo := (t_limbo t)[?e := ps]\<rparr>"
  have st: "code_step i (put i t q) = Some (put i ?t ?q)"
    using Cons.prems by (simp add: code_step_def Let_def Cons.hyps(2) [symmetric])
  have "solo i (put i ?t ?q) (put i (entered ?q ?t (v_epoch ?t)) (?q\<lparr>unused := rev (t_limbo ?t ! nat (v_epoch ?t)) @ unused ?q\<rparr>))"
    by (rule Cons.hyps(1)) (use Cons.prems in simp_all)
  then have "solo i (put i ?t ?q) (put i (entered q t (v_epoch t)) (q\<lparr>unused := rev (p # ps) @ unused q\<rparr>))"
    using Cons.prems by (cases "t_critical t = 1") (simp_all add: entered_def)
  then show ?case using st Cons.hyps(2) by (auto intro: solo_step)
qed

section \<open>The quiescent state of a thread running alone\<close>

text \<open>The same situation in the two models; \<open>ls\<close> are the wrappers in the thread's limbo lists.\<close>

definition same_view :: "'a qsbr_state_scheme \<Rightarrow> ptr list list \<Rightarrow> q_sys \<Rightarrow> bool" where
  "same_view s ls q \<longleftrightarrow>
     g_epoch q = global_epoch s \<and> (qg_lock s \<longleftrightarrow> g_lock q \<noteq> TAS_FREE) \<and> length (threads q) = length (qd s) \<and>
     (\<forall>k < length (qd s). t_epoch (threads q ! k) = epoch (qd s ! k) \<and>
        t_critical (threads q ! k) = in_critical (qd s ! k)) \<and>
     t_limbo (threads q ! me s) = map (map (actual (mrs s))) ls"

text \<open>Leaving the entry test with an old epoch.\<close>

lemma solo_old_epoch:
  assumes i: "i < length (threads q)" and t: "t = threads q ! i" "t_pc t = Retry"
    and ne: "t_epoch t \<noteq> g_epoch q" and lim: "nat (g_epoch q) < length (t_limbo t)"
  shows "solo i q (put i (entered q t (g_epoch q)) (q\<lparr>unused := rev (t_limbo t ! nat (g_epoch q)) @ unused q\<rparr>))"
proof -
  let ?t = "t\<lparr>v_epoch := g_epoch q, t_pc := Process\<rparr>"
  have "code_step i q = Some (put i (t\<lparr>v_epoch := g_epoch q, t_pc := Test\<rparr>) q)"
    using t by (simp add: code_step_def Let_def goto_def put_def on_thread_def)
  moreover have "code_step i (put i (t\<lparr>v_epoch := g_epoch q, t_pc := Test\<rparr>) q) = Some (put i ?t q)"
    using i ne by (simp add: code_step_def Let_def goto_def)
  ultimately have "solo i q (put i ?t q)" by (rule solo_step [OF _ solo_one])
  moreover have "solo i (put i ?t q) (put i (entered q ?t (v_epoch ?t)) (q\<lparr>unused := rev (t_limbo ?t ! nat (v_epoch ?t)) @ unused q\<rparr>))"
    by (rule solo_process) (use i lim in simp_all)
  moreover have "entered q ?t (v_epoch ?t) = entered q t (g_epoch q)"
    by (cases t; cases "t_critical t = 1") (simp_all add: entered_def)
  ultimately show ?thesis using solo_trans by simp
qed

text \<open>The way to the update lock.\<close>

lemma solo_to_lock:
  assumes i: "i < length (threads q)" and t: "t = threads q ! i" "t_pc t = Retry" and eq: "t_epoch t = g_epoch q"
  shows "solo i q (put i (t\<lparr>v_epoch := g_epoch q, v_orig := t_critical t, t_critical := 0, t_pc := Trylock\<rparr>) q)"
proof -
  have "code_step i q = Some (put i (t\<lparr>v_epoch := g_epoch q, t_pc := Test\<rparr>) q)"
    using t by (simp add: code_step_def Let_def goto_def put_def on_thread_def)
  moreover have "code_step i (put i (t\<lparr>v_epoch := g_epoch q, t_pc := Test\<rparr>) q)
      = Some (put i (t\<lparr>v_epoch := g_epoch q, v_orig := t_critical t, t_pc := Lower\<rparr>) q)"
    using i eq by (cases t) (simp add: code_step_def Let_def goto_def)
  moreover have "code_step i (put i (t\<lparr>v_epoch := g_epoch q, v_orig := t_critical t, t_pc := Lower\<rparr>) q)
      = Some (put i (t\<lparr>v_epoch := g_epoch q, v_orig := t_critical t, t_critical := 0, t_pc := Trylock\<rparr>) q)"
    using i by (cases t) (simp add: code_step_def Let_def goto_def)
  ultimately show ?thesis by (blast intro: solo_step solo_refl)
qed

text \<open>Coming back with a failed update, or with a successful one.\<close>

lemma solo_restore_failed:
  assumes "i < length (threads q)" "t_pc u = Restore" "\<not> v_res u" "\<not> v_blocking u"
  shows "\<exists>t'. solo i (put i u q) (put i t' q) \<and> t_pc t' = Run \<and> t_critical t' = v_orig u \<and> t_epoch t' = t_epoch u \<and>
    t_limbo t' = t_limbo u"
proof -
  let ?t = "u\<lparr>t_critical := v_orig u, t_pc := Run, held := [], seen := if v_orig u = 1 then linked q else []\<rparr>"
  have "code_step i (put i u q) = Some (put i ?t q)"
    using assms by (cases "v_orig u = 1") (simp_all add: code_step_def Let_def)
  then show ?thesis by (intro exI [of _ ?t]) (simp add: solo_one)
qed

lemma solo_restore_done:
  assumes "i < length (threads q)" "t_pc u = Restore" "v_res u" "t_epoch u \<noteq> g_epoch q" "nat (g_epoch q) < length (t_limbo u)"
  shows "\<exists>t'. solo i (put i u q) (put i t' (q\<lparr>unused := rev (t_limbo u ! nat (g_epoch q)) @ unused q\<rparr>)) \<and> t_pc t' = Run \<and>
    t_critical t' = v_orig u \<and> t_epoch t' = g_epoch q \<and> t_limbo t' = (t_limbo u)[nat (g_epoch q) := []]"
proof -
  let ?t1 = "u\<lparr>t_critical := v_orig u, t_pc := Reread\<rparr>"
  let ?t2 = "u\<lparr>t_critical := v_orig u, v_epoch := g_epoch q, t_pc := Retest\<rparr>"
  let ?t3 = "u\<lparr>t_critical := v_orig u, v_epoch := g_epoch q, t_pc := Process\<rparr>"
  have "code_step i (put i u q) = Some (put i ?t1 q)" using assms by (simp add: code_step_def Let_def goto_def)
  moreover have "code_step i (put i ?t1 q) = Some (put i ?t2 q)"
    using assms by (cases u) (simp add: code_step_def Let_def goto_def)
  moreover have "code_step i (put i ?t2 q) = Some (put i ?t3 q)" using assms by (simp add: code_step_def Let_def goto_def)
  ultimately have "solo i (put i u q) (put i ?t3 q)" by (blast intro: solo_step solo_refl)
  moreover have "solo i (put i ?t3 q) (put i (entered q ?t3 (v_epoch ?t3)) (q\<lparr>unused := rev (t_limbo ?t3 ! nat (v_epoch ?t3)) @ unused q\<rparr>))"
    by (rule solo_process) (use assms in simp_all)
  ultimately show ?thesis
    by (intro exI [of _ "entered q ?t3 (g_epoch q)"]) (auto simp: entered_def intro: solo_trans)
qed

lemma solo_same_epoch:
  assumes i: "i < length (threads q)" and t: "t = threads q ! i" "t_pc t = Retry" "\<not> v_blocking t"
    and eq: "t_epoch t = g_epoch q" and lim: "length (t_limbo t) = 3"
  defines "g \<equiv> (g_epoch q + 1) mod 3"
  shows "\<exists>t'. t_pc t' = Run \<and> t_critical t' = t_critical t \<and>
    (if g_lock q = TAS_FREE \<and> others_ready i q (g_epoch q) 0 then
       t_epoch t' = g \<and> t_limbo t' = (t_limbo t)[nat g := []] \<and>
       solo i q (put i t' (q\<lparr>g_epoch := g, unused := rev (t_limbo t ! nat g) @ unused q\<rparr>))
     else t_epoch t' = t_epoch t \<and> t_limbo t' = t_limbo t \<and> solo i q (put i t' q))"
proof -
  let ?t = "t\<lparr>v_epoch := g_epoch q, v_orig := t_critical t, t_critical := 0\<rparr>"
  have tl: "solo i q (put i (?t\<lparr>t_pc := Trylock\<rparr>) q)" by (rule solo_to_lock [OF i t(1,2) eq])
  show ?thesis
  proof (cases "g_lock q = TAS_FREE")
    case False
    let ?u = "?t\<lparr>t_pc := Restore, v_res := False\<rparr>"
    have "code_step i (put i (?t\<lparr>t_pc := Trylock\<rparr>) q) = Some (put i ?u q)"
      using i False by (cases t) (simp add: code_step_def Let_def goto_def tas_trylock_def cas_def)
    then have "solo i q (put i ?u q)" using tl solo_trans solo_one by blast
    moreover obtain t' where "solo i (put i ?u q) (put i t' q)" "t_pc t' = Run" "t_critical t' = v_orig ?u"
      "t_epoch t' = t_epoch ?u" "t_limbo t' = t_limbo ?u"
      using solo_restore_failed [OF i, of ?u] t(3) by auto
    ultimately show ?thesis using False solo_trans by (intro exI [of _ t']) auto
  next
    case True
    let ?q = "q\<lparr>g_lock := TAS_LCKD\<rparr>" and ?s = "?t\<lparr>v_curr := g_epoch q, v_i := 0, t_pc := Scan\<rparr>"
    have unlock: "q\<lparr>g_lock := TAS_FREE\<rparr> = q" using True by simp
    have "code_step i (put i (?t\<lparr>t_pc := Trylock\<rparr>) q) = Some (put i (?t\<lparr>t_pc := Load\<rparr>) ?q)"
      using i True by (simp add: code_step_def Let_def goto_def tas_rounds)
    moreover have "code_step i (put i (?t\<lparr>t_pc := Load\<rparr>) ?q) = Some (put i ?s ?q)"
      using i by (cases t) (simp add: code_step_def Let_def goto_def)
    ultimately have s: "solo i q (put i ?s ?q)" using tl solo_trans by (blast intro: solo_step solo_refl)
    have rd: "others_ready i ?q c 0 = others_ready i q c 0" for c by (simp add: others_ready_def)
    obtain k where k: "solo i (put i ?s ?q) (put i (if others_ready i q (g_epoch q) 0 then ?s\<lparr>v_i := k, t_pc := Write\<rparr>
        else ?s\<lparr>v_i := k, v_res := False, t_pc := Unlock\<rparr>) ?q)"
      using solo_scan [of i ?q ?s] i rd by auto
    show ?thesis
    proof (cases "others_ready i q (g_epoch q) 0")
      case False
      let ?u = "?s\<lparr>v_i := k, v_res := False, t_pc := Restore\<rparr>"
      have st: "code_step i (put i (?s\<lparr>v_i := k, v_res := False, t_pc := Unlock\<rparr>) ?q) = Some (put i ?u q)"
        using i unlock by (simp add: code_step_def Let_def goto_def tas_rounds)
      have "solo i q (put i ?u q)" by (rule solo_trans [OF s solo_trans [OF k [unfolded if_not_P [OF False]] solo_one [OF st]]])
      moreover obtain t' where "solo i (put i ?u q) (put i t' q)" "t_pc t' = Run" "t_critical t' = v_orig ?u"
        "t_epoch t' = t_epoch ?u" "t_limbo t' = t_limbo ?u"
        using solo_restore_failed [OF i, of ?u] t(3) by auto
      ultimately show ?thesis using False solo_trans by (intro exI [of _ t']) auto
    next
      case ready: True
      let ?w = "?s\<lparr>v_i := k, t_pc := Write\<rparr>" and ?g = "q\<lparr>g_epoch := g\<rparr>"
      let ?u = "?s\<lparr>v_i := k, v_res := True, t_pc := Restore\<rparr>"
      have "code_step i (put i ?w ?q) = Some (put i (?s\<lparr>v_i := k, v_res := True, t_pc := Unlock\<rparr>) (?g\<lparr>g_lock := TAS_LCKD\<rparr>))"
        using i by (cases t) (simp add: code_step_def Let_def goto_def N_EPOCHS_def g_def)
      moreover have "code_step i (put i (?s\<lparr>v_i := k, v_res := True, t_pc := Unlock\<rparr>) (?g\<lparr>g_lock := TAS_LCKD\<rparr>)) = Some (put i ?u ?g)"
        using i True by (simp add: code_step_def Let_def goto_def tas_rounds)
      ultimately have w: "solo i (put i ?w ?q) (put i ?u ?g)" by (blast intro: solo_step solo_refl)
      have "solo i q (put i ?u ?g)" by (rule solo_trans [OF s solo_trans [OF k [unfolded if_P [OF ready]] w]])
      moreover have "g_epoch q \<noteq> g" unfolding g_def by presburger
      then obtain t' where "solo i (put i ?u ?g) (put i t' (?g\<lparr>unused := rev (t_limbo ?u ! nat (g_epoch ?g)) @ unused ?g\<rparr>))"
        "t_pc t' = Run" "t_critical t' = v_orig ?u" "t_epoch t' = g_epoch ?g" "t_limbo t' = (t_limbo ?u)[nat (g_epoch ?g) := []]"
        using solo_restore_done [of i ?g ?u] i eq lim mod3_lt [of "g_epoch q + 1"] by (auto simp: g_def)
      ultimately show ?thesis using ready True solo_trans by (intro exI [of _ t']) auto
    qed
  qed
qed

section \<open>Equivalence\<close>

lemma same_view_can_advance:
  assumes v: "same_view s ls q" and inv: "q_inv s ls"
  shows "can_advance s \<longleftrightarrow> g_lock q = TAS_FREE \<and> others_ready (me s) q (g_epoch q) 0"
  using v by (auto simp: same_view_def can_advance_def others_at_def others_ready_def)

lemma same_view_entered:
  assumes v: "same_view s ls q" and inv: "q_inv s ls" and g: "0 \<le> g" "g < 3"
    and s': "released s s' (ls ! nat g)" "epoch (qd s' ! me s) = g" "global_epoch s' = g" "qg_lock s' = qg_lock s" "me s' = me s"
      "in_critical (qd s' ! me s) = in_critical (qd s ! me s)" "length (qd s') = length (qd s)"
      "\<forall>i. i \<noteq> me s \<longrightarrow> qd s' ! i = qd s ! i"
    and t': "t_epoch t' = g" "t_critical t' = t_critical (threads q ! me s)"
      "t_limbo t' = (t_limbo (threads q ! me s))[nat g := []]"
    and q': "g_epoch q' = g" "g_lock q' = g_lock q" "threads q' = threads q"
  shows "same_view s' (ls[nat g := []]) (put (me s) t' q')"
proof -
  have me: "me s < length (threads q)" "me s < length (qd s)" using v inv by (simp_all add: same_view_def q_inv_def)
  have mrs: "mrs s' = mrs s" using s'(1) by (simp add: released_def)
  have "length ls = 3" using inv by (simp add: q_inv_def)
  then have lim: "t_limbo t' = map (map (actual (mrs s'))) (ls[nat g := []])"
    using t'(3) v mrs by (simp add: same_view_def map_update)
  have "t_epoch (threads (put (me s) t' q') ! k) = epoch (qd s' ! k) \<and>
      t_critical (threads (put (me s) t' q') ! k) = in_critical (qd s' ! k)" if k: "k < length (qd s')" for k
    using v me s' t' q' k by (cases "k = me s") (simp_all add: same_view_def)
  then show ?thesis using v me lim s' q' by (simp add: same_view_def)
qed


definition ex_view :: q_sys where
  "ex_view = (q_start 2 [] [])\<lparr>threads := map (\<lambda>k. (threads (q_start 2 [] []) ! k)\<lparr>t_epoch := 1, t_pc := Retry,
     t_limbo := if k = 0 then map (map (actual ex_mrs)) [[], [], [4160, 4096]] else [[], [], []]\<rparr>) [0, 1]\<rparr>"

lemma ex_view: "same_view (ex_q 1 1) [[], [], [4160, 4096]] ex_view"
proof -
  have "t_epoch (threads ex_view ! k) = epoch (qd (ex_q 1 1) ! k) \<and>
      t_critical (threads ex_view ! k) = in_critical (qd (ex_q 1 1) ! k)" if "k < 2" for k
    using that unfolding less_2_cases_iff by (auto simp: ex_view_def q_start_def)
  then show ?thesis by (simp add: same_view_def ex_view_def q_start_def tas_init_def)
qed


end
