(* ===== verification/Hazard_Protocol.thy ===== *)
theory Hazard_Protocol
  imports Hazard
begin

text \<open>
  Hazard pointers between threads, on the memory of an x86 machine: the stores of a thread to its
  hazard pointers wait in a store buffer before the other threads see them. src/smr.c and
  src/smr_membar_lazy.c have the client drain the buffer with a barrier before it relies on a
  hazard pointer; the other schemes (Cadence: smr_no_membar.c, smr_no_membar_opt.c, smr_lazy.c and
  the hybrids) do without, count on the sleeper threads of sleeper_threads.c to drain every buffer
  within SLEEP_AMOUNT milliseconds, and free only nodes that were retired SLEEP_AMOUNT + MARGIN
  milliseconds ago. The theory interleaves publication, validation, retirement and the accesses of
  a scan, and shows when no protected node is freed.
\<close>

section \<open>Threads and memory\<close>

text \<open>What the client has done with a hazard pointer: stored a node in it, passed the barrier, found the
  node still linked (the rereading of \<open>left_node->next\<close> in \<open>list_search\<close>).\<close>

datatype hz_slot = Hz_free | Published ptr | Fenced ptr | Protected ptr

text \<open>A store in the buffer: hazard pointer, value, time. A retired node comes with the time stamp of
  its wrapper. A scan has collected the hazard pointers below \<open>k\<close>, or sweeps its list.\<close>

datatype hz_pc = Hz_idle | Hz_collect nat | Hz_sweep

record hz_thread =
  buffer :: "(nat \<times> ptr \<times> nat) list"
  detached :: "ptr list"
  waiting :: "(ptr \<times> nat) list"
  todo :: "(ptr \<times> nat) list"
  plist :: "ptr list"
  started :: nat
  hz_pc :: hz_pc

record hz_sys =
  now :: nat
  hps :: "ptr list"
  slots :: "hz_slot list"
  hz_threads :: "hz_thread list"
  in_list :: "ptr list"
  freed :: "ptr list"

text \<open>The scheme: does the client have a barrier, does the scan look at the age, and the time within
  which a buffer is drained.\<close>

record hz_conf =
  fences :: bool
  ages :: bool
  drain :: nat

text \<open>Thread \<open>h div K\<close> owns hazard pointer \<open>h\<close>.\<close>

definition upd_thread :: "nat \<Rightarrow> (hz_thread \<Rightarrow> hz_thread) \<Rightarrow> hz_sys \<Rightarrow> hz_sys" where
  "upd_thread i f s = s\<lparr>hz_threads := (hz_threads s)[i := f (hz_threads s ! i)]\<rparr>"

definition flush :: "nat \<Rightarrow> hz_sys \<Rightarrow> hz_sys" where
  "flush i s =
     (case buffer (hz_threads s ! i) of
        [] \<Rightarrow> s
      | (h, p, t) # b \<Rightarrow> upd_thread i (\<lambda>t. t\<lparr>buffer := b\<rparr>) (s\<lparr>hps := (hps s)[h := p]\<rparr>))"

definition flush_all :: "nat \<Rightarrow> hz_sys \<Rightarrow> hz_sys" where
  "flush_all i s = (flush i ^^ length (buffer (hz_threads s ! i))) s"

text \<open>A thread sees its own buffered stores.\<close>

definition pending :: "nat \<Rightarrow> hz_thread \<Rightarrow> (nat \<times> ptr \<times> nat) list" where
  "pending h t = filter (\<lambda>e. fst e = h) (buffer t)"

definition read_hp :: "nat \<Rightarrow> nat \<Rightarrow> hz_sys \<Rightarrow> ptr" where
  "read_hp i h s =
     (let ps = pending h (hz_threads s ! i) in if ps = [] then hps s ! h else fst (snd (last ps)))"

section \<open>Steps\<close>

datatype hz_action =
    Publish nat ptr | Fence nat | Validate nat | Flush | Detach ptr | Stamp ptr | Insert ptr
  | Start_scan | Scan_step | Tick

text \<open>The next access of a scan: stage 1 reads one hazard pointer, stage 3 decides about one node.\<close>

definition scan_step :: "hz_conf \<Rightarrow> nat \<Rightarrow> hz_sys \<Rightarrow> hz_sys option" where
  "scan_step c i s =
     (let t = hz_threads s ! i in
      case hz_pc t of
        Hz_idle \<Rightarrow> None
      | Hz_collect k \<Rightarrow>
          (if k < length (hps s) then
             let p = read_hp i k s
             in Some (upd_thread i (\<lambda>t. t\<lparr>plist := (if p \<noteq> NULL then plist t @ [p] else plist t), hz_pc := Hz_collect (k + 1)\<rparr>) s)
           else Some (upd_thread i (\<lambda>t. t\<lparr>hz_pc := Hz_sweep\<rparr>) s))
      | Hz_sweep \<Rightarrow>
          (case todo t of
             [] \<Rightarrow> Some (upd_thread i (\<lambda>t. t\<lparr>hz_pc := Hz_idle\<rparr>) s)
           | (p, cr) # ps \<Rightarrow>
               (if (ages c \<and> now s < cr + (SLEEP_AMOUNT + MARGIN)) \<or> ssearch (plist t) p
                then Some (upd_thread i (\<lambda>t. t\<lparr>todo := ps, waiting := (p, cr) # waiting t\<rparr>) s)
                else Some (upd_thread i (\<lambda>t. t\<lparr>todo := ps\<rparr>) (s\<lparr>freed := p # freed s\<rparr>)))))"

text \<open>The client's barrier makes its earlier stores visible, the CAS that detaches a node and the
  barrier at the start of a scan do so too. Time passes only as long as no store stays in a buffer
  longer than \<open>drain\<close>.\<close>

definition hz_act :: "hz_conf \<Rightarrow> nat \<Rightarrow> hz_action \<Rightarrow> hz_sys \<Rightarrow> hz_sys option" where
  "hz_act c i a s =
     (if i \<ge> length (hz_threads s) then None else let t = hz_threads s ! i in
      case a of
        Publish h p \<Rightarrow>
          if h < length (slots s) \<and> h div K = i \<and> p \<noteq> NULL
          then Some (upd_thread i (\<lambda>t. t\<lparr>buffer := buffer t @ [(h, p, now s)]\<rparr>) (s\<lparr>slots := (slots s)[h := Published p]\<rparr>))
          else None
      | Fence h \<Rightarrow>
          if h < length (slots s) \<and> h div K = i
          then (case slots s ! h of
                  Published p \<Rightarrow> Some ((flush_all i s)\<lparr>slots := (slots s)[h := Fenced p]\<rparr>) | _ \<Rightarrow> None)
          else None
      | Validate h \<Rightarrow>
          if h < length (slots s) \<and> h div K = i
          then (case slots s ! h of
                  Published p \<Rightarrow> if fences c then None
                     else Some (s\<lparr>slots := (slots s)[h := if p \<in> set (in_list s) then Protected p else Hz_free]\<rparr>)
                | Fenced p \<Rightarrow> Some (s\<lparr>slots := (slots s)[h := if p \<in> set (in_list s) then Protected p else Hz_free]\<rparr>)
                | _ \<Rightarrow> None)
          else None
      | Flush \<Rightarrow> Some (flush i s)
      | Detach p \<Rightarrow>
          if p \<in> set (in_list s)
          then Some (upd_thread i (\<lambda>t. t\<lparr>detached := p # detached t\<rparr>) ((flush_all i s)\<lparr>in_list := removeAll p (in_list s)\<rparr>))
          else None
      | Stamp p \<Rightarrow>
          if p \<in> set (detached t) \<and> hz_pc t = Hz_idle
          then Some (upd_thread i (\<lambda>t. t\<lparr>detached := removeAll p (detached t), waiting := (p, now s) # waiting t\<rparr>) s)
          else None
      | Insert p \<Rightarrow>
          if p \<in> set (freed s) then Some (s\<lparr>freed := removeAll p (freed s), in_list := p # in_list s\<rparr>) else None
      | Start_scan \<Rightarrow>
          if hz_pc t = Hz_idle
          then Some (upd_thread i (\<lambda>t. t\<lparr>todo := waiting t, waiting := [], plist := [], started := now s, hz_pc := Hz_collect 0\<rparr>)
                       (flush_all i s))
          else None
      | Scan_step \<Rightarrow> scan_step c i s
      | Tick \<Rightarrow>
          if \<forall>t \<in> set (hz_threads s). \<forall>e \<in> set (buffer t). now s < snd (snd e) + drain c
          then Some (s\<lparr>now := now s + 1\<rparr>) else None)"

definition hz_start :: "nat \<Rightarrow> ptr list \<Rightarrow> ptr list \<Rightarrow> hz_sys" where
  "hz_start n ls us =
     \<lparr>now = 0, hps = replicate (K * n) NULL, slots = replicate (K * n) Hz_free,
      hz_threads = replicate n \<lparr>buffer = [], detached = [], waiting = [], todo = [], plist = [], started = 0, hz_pc = Hz_idle\<rparr>,
      in_list = ls, freed = us\<rparr>"

fun hz_run :: "hz_conf \<Rightarrow> (nat \<times> hz_action) list \<Rightarrow> hz_sys \<Rightarrow> hz_sys option" where
  "hz_run c [] s = Some s"
| "hz_run c ((i, a) # as) s = do { s1 \<leftarrow> hz_act c i a s; hz_run c as s1 }"

section \<open>A slow scan\<close>

text \<open>Thread 0 publishes node 64 and validates it; the store stays in its buffer. Thread 1 unlinks and
  retires the node and starts a scan, collects the hazard pointers, and is delayed.\<close>

definition slow_scan :: "(nat \<times> hz_action) list" where
  "slow_scan =
     [(0, Publish 0 64), (0, Validate 0), (1, Detach 64), (1, Stamp 64), (1, Start_scan)] @
     replicate 5 (1, Scan_step) @ replicate 150 (0, Tick) @ [(0, Flush)] @ replicate 50 (0, Tick) @ [(1, Scan_step)]"


section \<open>Invariant\<close>

datatype hz_place = In_list | Freed | Detached_by nat | Retired_by nat

definition memory_ok :: "hz_sys \<Rightarrow> (ptr \<Rightarrow> hz_place option) \<Rightarrow> bool" where
  "memory_ok s loc \<longleftrightarrow>
     (\<forall>p. p \<in> set (in_list s) \<longleftrightarrow> loc p = Some In_list) \<and> (\<forall>p. p \<in> set (freed s) \<longleftrightarrow> loc p = Some Freed) \<and>
     (\<forall>i < length (hz_threads s). let t = hz_threads s ! i in
        (\<forall>p. p \<in> set (detached t) \<longleftrightarrow> loc p = Some (Detached_by i)) \<and>
        (\<forall>p. p \<in> fst ` set (waiting t @ todo t) \<longleftrightarrow> loc p = Some (Retired_by i)) \<and>
        distinct (map fst (waiting t @ todo t)))"

definition buffers_ok :: "hz_conf \<Rightarrow> hz_sys \<Rightarrow> bool" where
  "buffers_ok c s \<longleftrightarrow>
     (\<forall>i < length (hz_threads s). \<forall>e \<in> set (buffer (hz_threads s ! i)).
        fst e div K = i \<and> fst e < length (hps s) \<and> snd (snd e) \<le> now s \<and> now s \<le> snd (snd e) + drain c)"

text \<open>The owner's view of a hazard pointer is the node of its slot; past the barrier it is everybody's.\<close>

fun slot_good :: "hz_conf \<Rightarrow> ptr \<Rightarrow> bool \<Rightarrow> hz_slot \<Rightarrow> bool" where
  "slot_good c q e Hz_free \<longleftrightarrow> True"
| "slot_good c q e (Published p) \<longleftrightarrow> p \<noteq> NULL \<and> q = p"
| "slot_good c q e (Fenced p) \<longleftrightarrow> p \<noteq> NULL \<and> q = p \<and> e"
| "slot_good c q e (Protected p) \<longleftrightarrow> p \<noteq> NULL \<and> q = p \<and> (fences c \<longrightarrow> e)"

definition slot_ok :: "hz_conf \<Rightarrow> hz_sys \<Rightarrow> nat \<Rightarrow> bool" where
  "slot_ok c s h \<longleftrightarrow>
     slot_good c (read_hp (h div K) h s) (pending h (hz_threads s ! (h div K)) = []) (slots s ! h)"

lemma slot_good_empty: "slot_good c q e v \<Longrightarrow> (e \<Longrightarrow> e') \<Longrightarrow> slot_good c q e' v"
  by (cases v) simp_all

lemma read_hp_slots [simp]: "read_hp i h (s\<lparr>slots := xs\<rparr>) = read_hp i h s"
  by (simp add: read_hp_def Let_def)

definition slots_ok :: "hz_conf \<Rightarrow> hz_sys \<Rightarrow> bool" where
  "slots_ok c s \<longleftrightarrow> length (slots s) = K * length (hz_threads s) \<and> length (hps s) = K * length (hz_threads s) \<and>
     (\<forall>h < length (slots s). slot_ok c s h)"

text \<open>A protected node is not free, and its store was issued before it was retired.\<close>

definition protected_ok :: "hz_sys \<Rightarrow> (ptr \<Rightarrow> hz_place option) \<Rightarrow> bool" where
  "protected_ok s loc \<longleftrightarrow>
     (\<forall>h < length (slots s). \<forall>p. slots s ! h = Protected p \<longrightarrow> loc p \<noteq> Some Freed \<and>
        (\<forall>j < length (hz_threads s). \<forall>cr. (p, cr) \<in> set (waiting (hz_threads s ! j)) \<union> set (todo (hz_threads s ! j)) \<longrightarrow>
           (\<forall>e \<in> set (pending h (hz_threads s ! (h div K))). snd (snd e) \<le> cr)))"

fun collected :: "hz_sys \<Rightarrow> hz_pc \<Rightarrow> nat" where
  "collected s Hz_idle = 0"
| "collected s (Hz_collect k) = k"
| "collected s Hz_sweep = length (slots s)"

text \<open>A scan has found the protected nodes of its list among the hazard pointers it has read, unless the
  store was still in a buffer.\<close>

definition scans_ok :: "hz_conf \<Rightarrow> hz_sys \<Rightarrow> bool" where
  "scans_ok c s \<longleftrightarrow>
     (\<forall>j < length (hz_threads s). let t = hz_threads s ! j in
        (hz_pc t = Hz_idle \<longrightarrow> todo t = []) \<and> (hz_pc t \<noteq> Hz_idle \<longrightarrow> started t \<le> now s) \<and>
        (\<forall>h < length (slots s). \<forall>p cr. h < collected s (hz_pc t) \<longrightarrow> (p, cr) \<in> set (todo t) \<longrightarrow> slots s ! h = Protected p \<longrightarrow>
           p \<in> set (plist t) \<or> \<not> fences c \<and> started t \<le> cr + drain c))"

definition hz_inv :: "hz_conf \<Rightarrow> hz_sys \<Rightarrow> (ptr \<Rightarrow> hz_place option) \<Rightarrow> bool" where
  "hz_inv c s loc \<longleftrightarrow> memory_ok s loc \<and> buffers_ok c s \<and> slots_ok c s \<and> protected_ok s loc \<and> scans_ok c s"

lemma hz_invD:
  assumes "hz_inv c s loc"
  shows "memory_ok s loc" "buffers_ok c s" "slots_ok c s" "protected_ok s loc" "scans_ok c s"
  using assms by (simp_all add: hz_inv_def)

lemma protected_okD:
  assumes "protected_ok s loc" "h < length (slots s)" "slots s ! h = Protected p"
  shows "loc p \<noteq> Some Freed"
    "j < length (hz_threads s) \<Longrightarrow> (p, cr) \<in> set (waiting (hz_threads s ! j)) \<union> set (todo (hz_threads s ! j)) \<Longrightarrow>
     e \<in> set (pending h (hz_threads s ! (h div K))) \<Longrightarrow> snd (snd e) \<le> cr"
  using assms unfolding protected_ok_def by blast+

lemma protected_okI:
  assumes "\<And>h p. h < length (slots s) \<Longrightarrow> slots s ! h = Protected p \<Longrightarrow> loc p \<noteq> Some Freed"
    "\<And>h p j cr e. h < length (slots s) \<Longrightarrow> slots s ! h = Protected p \<Longrightarrow> j < length (hz_threads s) \<Longrightarrow>
       (p, cr) \<in> set (waiting (hz_threads s ! j)) \<union> set (todo (hz_threads s ! j)) \<Longrightarrow>
       e \<in> set (pending h (hz_threads s ! (h div K))) \<Longrightarrow> snd (snd e) \<le> cr"
  shows "protected_ok s loc"
  using assms unfolding protected_ok_def by blast

lemma scans_okD:
  assumes "scans_ok c s" "j < length (hz_threads s)"
  shows "hz_pc (hz_threads s ! j) = Hz_idle \<Longrightarrow> todo (hz_threads s ! j) = []"
    "hz_pc (hz_threads s ! j) \<noteq> Hz_idle \<Longrightarrow> started (hz_threads s ! j) \<le> now s"
    "h < length (slots s) \<Longrightarrow> h < collected s (hz_pc (hz_threads s ! j)) \<Longrightarrow> (p, cr) \<in> set (todo (hz_threads s ! j)) \<Longrightarrow>
     slots s ! h = Protected p \<Longrightarrow>
     p \<in> set (plist (hz_threads s ! j)) \<or> \<not> fences c \<and> started (hz_threads s ! j) \<le> cr + drain c"
  using assms unfolding scans_ok_def Let_def by blast+

lemma scans_okI:
  assumes "\<And>j. j < length (hz_threads s) \<Longrightarrow> hz_pc (hz_threads s ! j) = Hz_idle \<Longrightarrow> todo (hz_threads s ! j) = []"
    "\<And>j. j < length (hz_threads s) \<Longrightarrow> hz_pc (hz_threads s ! j) \<noteq> Hz_idle \<Longrightarrow> started (hz_threads s ! j) \<le> now s"
    "\<And>j h p cr. j < length (hz_threads s) \<Longrightarrow> h < length (slots s) \<Longrightarrow> h < collected s (hz_pc (hz_threads s ! j)) \<Longrightarrow>
     (p, cr) \<in> set (todo (hz_threads s ! j)) \<Longrightarrow> slots s ! h = Protected p \<Longrightarrow>
     p \<in> set (plist (hz_threads s ! j)) \<or> \<not> fences c \<and> started (hz_threads s ! j) \<le> cr + drain c"
  shows "scans_ok c s"
  using assms unfolding scans_ok_def Let_def by blast

lemma memory_okD:
  assumes "memory_ok s loc"
  shows "p \<in> set (in_list s) \<longleftrightarrow> loc p = Some In_list" "p \<in> set (freed s) \<longleftrightarrow> loc p = Some Freed"
    "i < length (hz_threads s) \<Longrightarrow> p \<in> set (detached (hz_threads s ! i)) \<longleftrightarrow> loc p = Some (Detached_by i)"
    "i < length (hz_threads s) \<Longrightarrow>
       p \<in> fst ` set (waiting (hz_threads s ! i) @ todo (hz_threads s ! i)) \<longleftrightarrow> loc p = Some (Retired_by i)"
    "i < length (hz_threads s) \<Longrightarrow> distinct (map fst (waiting (hz_threads s ! i) @ todo (hz_threads s ! i)))"
  using assms unfolding memory_ok_def Let_def by blast+

lemma memory_okI:
  assumes "\<And>p. p \<in> set (in_list s) \<longleftrightarrow> loc p = Some In_list" "\<And>p. p \<in> set (freed s) \<longleftrightarrow> loc p = Some Freed"
    "\<And>i p. i < length (hz_threads s) \<Longrightarrow> p \<in> set (detached (hz_threads s ! i)) \<longleftrightarrow> loc p = Some (Detached_by i)"
    "\<And>i p. i < length (hz_threads s) \<Longrightarrow>
       p \<in> fst ` set (waiting (hz_threads s ! i) @ todo (hz_threads s ! i)) \<longleftrightarrow> loc p = Some (Retired_by i)"
    "\<And>i. i < length (hz_threads s) \<Longrightarrow> distinct (map fst (waiting (hz_threads s ! i) @ todo (hz_threads s ! i)))"
  shows "memory_ok s loc"
  using assms unfolding memory_ok_def Let_def by blast

section \<open>Draining a buffer\<close>

lemma upd_thread_sel [simp]:
  "hz_threads (upd_thread i f s) = (hz_threads s)[i := f (hz_threads s ! i)]" "now (upd_thread i f s) = now s"
  "hps (upd_thread i f s) = hps s" "slots (upd_thread i f s) = slots s" "in_list (upd_thread i f s) = in_list s"
  "freed (upd_thread i f s) = freed s"
  by (simp_all add: upd_thread_def)

lemma flush_sel [simp]:
  "now (flush i s) = now s" "slots (flush i s) = slots s" "in_list (flush i s) = in_list s" "freed (flush i s) = freed s"
  "length (hps (flush i s)) = length (hps s)" "length (hz_threads (flush i s)) = length (hz_threads s)"
  by (simp_all add: flush_def split: list.splits)

lemma flush_thread:
  assumes "j < length (hz_threads s)"
  shows "hz_threads (flush i s) ! j =
    (if j = i then (hz_threads s ! i)\<lparr>buffer := tl (buffer (hz_threads s ! i))\<rparr> else hz_threads s ! j)"
  using assms by (auto simp: flush_def split: list.splits)

lemma flush_thread_sel:
  assumes "j < length (hz_threads s)"
  shows "detached (hz_threads (flush i s) ! j) = detached (hz_threads s ! j)"
    "waiting (hz_threads (flush i s) ! j) = waiting (hz_threads s ! j)" "todo (hz_threads (flush i s) ! j) = todo (hz_threads s ! j)"
    "plist (hz_threads (flush i s) ! j) = plist (hz_threads s ! j)" "started (hz_threads (flush i s) ! j) = started (hz_threads s ! j)"
    "hz_pc (hz_threads (flush i s) ! j) = hz_pc (hz_threads s ! j)"
    "set (buffer (hz_threads (flush i s) ! j)) \<subseteq> set (buffer (hz_threads s ! j))"
    "set (pending h (hz_threads (flush i s) ! j)) \<subseteq> set (pending h (hz_threads s ! j))"
proof -
  have tl: "set (tl xs) \<subseteq> set xs" for xs :: "'x list" by (cases xs) auto
  show "set (buffer (hz_threads (flush i s) ! j)) \<subseteq> set (buffer (hz_threads s ! j))"
    "set (pending h (hz_threads (flush i s) ! j)) \<subseteq> set (pending h (hz_threads s ! j))"
    using assms by (auto simp: flush_thread pending_def dest: tl [THEN subsetD])
qed (use assms in \<open>simp_all add: flush_thread\<close>)

text \<open>Nobody's own view of a hazard pointer changes.\<close>

lemma flush_view:
  assumes b: "buffers_ok c s" and h: "h < length (hps s)" "h div K < length (hz_threads s)" and i: "i < length (hz_threads s)"
  shows "read_hp (h div K) h (flush i s) = read_hp (h div K) h s"
proof (cases "buffer (hz_threads s ! i)")
  case Nil
  then show ?thesis by (simp add: flush_def)
next
  case (Cons e es)
  obtain g p t where e: "e = (g, p, t)" by (cases e)
  have own: "g div K = i" "g < length (hps s)" using b i Cons e by (auto simp: buffers_ok_def)
  have s': "flush i s = upd_thread i (\<lambda>t. t\<lparr>buffer := es\<rparr>) (s\<lparr>hps := (hps s)[g := p]\<rparr>)"
    using Cons e by (simp add: flush_def)
  show ?thesis
  proof (cases "h div K = i")
    case False
    then have "g \<noteq> h" using own by blast
    then show ?thesis using False by (simp add: s' read_hp_def Let_def)
  next
    case True
    have pe: "pending h (hz_threads s ! i) = (if g = h then [e] else []) @ filter (\<lambda>e. fst e = h) es"
      using Cons e by (simp add: pending_def)
    have pe': "pending h (hz_threads (flush i s) ! i) = filter (\<lambda>e. fst e = h) es"
      using i by (simp add: s' pending_def)
    show ?thesis
      using True pe pe' own(2) e by (cases "filter (\<lambda>e. fst e = h) es = []"; cases "g = h") (simp_all add: read_hp_def Let_def s')
  qed
qed

lemma slot_owner:
  assumes "slots_ok c s" "h < length (slots s)"
  shows "h < length (hps s)" "h div K < length (hz_threads s)"
  using assms by (simp_all add: slots_ok_def K_def less_mult_imp_div_less mult.commute)

lemma flush_inv:
  assumes inv: "hz_inv c s loc" and i: "i < length (hz_threads s)"
  shows "hz_inv c (flush i s) loc"
proof -
  note d = hz_invD [OF inv] and f = flush_thread_sel
  have "memory_ok (flush i s) loc" using d(1) by (simp add: memory_ok_def Let_def f)
  moreover have "buffers_ok c (flush i s)" using d(2) f(7) unfolding buffers_ok_def by simp blast
  moreover have "slots_ok c (flush i s)"
  proof -
    have "slot_ok c (flush i s) h" if h: "h < length (slots s)" for h
    proof -
      note o = slot_owner [OF d(3) h]
      have "pending h (hz_threads s ! (h div K)) = [] \<Longrightarrow> pending h (hz_threads (flush i s) ! (h div K)) = []"
        using f(8) [OF o(2), of h i] by simp
      moreover have "slot_ok c s h" using d(3) h by (simp add: slots_ok_def)
      ultimately show ?thesis using flush_view [OF d(2) o i] by (auto simp: slot_ok_def elim: slot_good_empty)
    qed
    then show ?thesis using d(3) by (simp add: slots_ok_def)
  qed
  moreover have "protected_ok (flush i s) loc"
    unfolding protected_ok_def
  proof (intro allI impI conjI ballI)
    fix h p assume h: "h < length (slots (flush i s))" and p: "slots (flush i s) ! h = Protected p"
    then show "loc p \<noteq> Some Freed" using d(4) by (simp add: protected_ok_def)
    fix j cr e assume j: "j < length (hz_threads (flush i s))"
      and w: "(p, cr) \<in> set (waiting (hz_threads (flush i s) ! j)) \<union> set (todo (hz_threads (flush i s) ! j))"
      and e: "e \<in> set (pending h (hz_threads (flush i s) ! (h div K)))"
    have "h < length (slots s)" using h by simp
    then have "e \<in> set (pending h (hz_threads s ! (h div K)))" using e f(8) [OF slot_owner(2) [OF d(3)]] by blast
    then show "snd (snd e) \<le> cr" using protected_okD(2) [OF d(4), of h p j cr e] h p j w by (simp add: f)
  qed
  moreover have "scans_ok c (flush i s)"
  proof -
    have "collected (flush i s) p = collected s p" for p by (cases p) simp_all
    then show ?thesis using d(5) by (simp add: scans_ok_def Let_def f)
  qed
  ultimately show ?thesis by (simp add: hz_inv_def)
qed

lemma flush_all_inv:
  assumes inv: "hz_inv c s loc" and i: "i < length (hz_threads s)"
  shows "hz_inv c (flush_all i s) loc" "now (flush_all i s) = now s" "slots (flush_all i s) = slots s"
    "in_list (flush_all i s) = in_list s" "freed (flush_all i s) = freed s" "length (hps (flush_all i s)) = length (hps s)"
    "hz_threads (flush_all i s) = (hz_threads s)[i := (hz_threads s ! i)\<lparr>buffer := []\<rparr>]"
proof -
  have fl: "hz_inv c ((flush i ^^ k) s) loc \<and> now ((flush i ^^ k) s) = now s \<and> slots ((flush i ^^ k) s) = slots s \<and>
      in_list ((flush i ^^ k) s) = in_list s \<and> freed ((flush i ^^ k) s) = freed s \<and> length (hps ((flush i ^^ k) s)) = length (hps s) \<and>
      hz_threads ((flush i ^^ k) s) = (hz_threads s)[i := (hz_threads s ! i)\<lparr>buffer := drop k (buffer (hz_threads s ! i))\<rparr>]" for k
  proof (induction k)
    case 0
    then show ?case using inv by simp
  next
    case (Suc k)
    let ?s = "(flush i ^^ k) s"
    have th: "hz_threads ?s = (hz_threads s)[i := (hz_threads s ! i)\<lparr>buffer := drop k (buffer (hz_threads s ! i))\<rparr>]"
      and inv': "hz_inv c ?s loc" and len: "i < length (hz_threads ?s)" using Suc i by simp_all
    have "hz_threads (flush i ?s) ! j = ((hz_threads s)[i := (hz_threads s ! i)\<lparr>buffer := drop (Suc k) (buffer (hz_threads s ! i))\<rparr>]) ! j"
      if "j < length (hz_threads s)" for j
      using flush_thread [of j ?s i] that i by (simp add: th tl_drop drop_Suc)
    then have "hz_threads (flush i ?s) = (hz_threads s)[i := (hz_threads s ! i)\<lparr>buffer := drop (Suc k) (buffer (hz_threads s ! i))\<rparr>]"
      using th by (intro nth_equalityI) simp_all
    then show ?case using Suc flush_inv [OF inv' len] by simp
  qed
  show "hz_inv c (flush_all i s) loc" "now (flush_all i s) = now s" "slots (flush_all i s) = slots s"
    "in_list (flush_all i s) = in_list s" "freed (flush_all i s) = freed s" "length (hps (flush_all i s)) = length (hps s)"
    "hz_threads (flush_all i s) = (hz_threads s)[i := (hz_threads s ! i)\<lparr>buffer := []\<rparr>]"
    using fl [of "length (buffer (hz_threads s ! i))"] by (simp_all add: flush_all_def)
qed

section \<open>The client's steps\<close>

text \<open>Steps that leave the buffers, the hazard pointers and the slots alone.\<close>

lemma slots_ok_cong:
  assumes "slots_ok c s" "hps s' = hps s" "slots s' = slots s" "length (hz_threads s') = length (hz_threads s)"
    "\<And>j. j < length (hz_threads s) \<Longrightarrow> buffer (hz_threads s' ! j) = buffer (hz_threads s ! j)"
  shows "slots_ok c s'"
proof -
  have "slot_ok c s' h = slot_ok c s h" if h: "h < length (slots s)" for h
  proof -
    have "pending h (hz_threads s' ! (h div K)) = pending h (hz_threads s ! (h div K))"
      using slot_owner(2) [OF assms(1) h] assms(5) by (simp add: pending_def)
    moreover from this have "read_hp (h div K) h s' = read_hp (h div K) h s" using assms(2) by (simp add: read_hp_def Let_def)
    ultimately show ?thesis using assms(3) by (simp add: slot_ok_def)
  qed
  then show ?thesis using assms(1-4) by (simp add: slots_ok_def)
qed

lemma buffers_ok_cong:
  assumes "buffers_ok c s" "length (hps s') = length (hps s)" "now s' = now s" "length (hz_threads s') = length (hz_threads s)"
    "\<And>j. j < length (hz_threads s) \<Longrightarrow> buffer (hz_threads s' ! j) = buffer (hz_threads s ! j)"
  shows "buffers_ok c s'"
  using assms by (simp add: buffers_ok_def)

lemma collected_same: "slots s' = slots s \<Longrightarrow> collected s' = collected s"
  by (rule ext, rename_tac p, case_tac p) simp_all

lemma pending_publish:
  "pending g (t\<lparr>buffer := buffer t @ [(h, p, n)]\<rparr>) = (if g = h then pending h t @ [(h, p, n)] else pending g t)"
  by (simp add: pending_def)

lemma act_publish:
  assumes inv: "hz_inv c s loc" and i: "i < length (hz_threads s)" and st: "hz_act c i (Publish h p) s = Some s'"
  shows "hz_inv c s' loc"
proof -
  note d = hz_invD [OF inv]
  have h: "h < length (slots s)" "h div K = i" "p \<noteq> NULL"
    and s': "s' = upd_thread i (\<lambda>t. t\<lparr>buffer := buffer t @ [(h, p, now s)]\<rparr>) (s\<lparr>slots := (slots s)[h := Published p]\<rparr>)"
    using st i by (auto simp: hz_act_def Let_def split: if_splits)
  let ?t = "(hz_threads s ! i)\<lparr>buffer := buffer (hz_threads s ! i) @ [(h, p, now s)]\<rparr>"
  have th: "hz_threads s' ! j = (if j = i then ?t else hz_threads s ! j)" if "j < length (hz_threads s)" for j
    using that by (simp add: s')
  have sel: "detached (hz_threads s' ! j) = detached (hz_threads s ! j)" "waiting (hz_threads s' ! j) = waiting (hz_threads s ! j)"
    "todo (hz_threads s' ! j) = todo (hz_threads s ! j)" "plist (hz_threads s' ! j) = plist (hz_threads s ! j)"
    "started (hz_threads s' ! j) = started (hz_threads s ! j)" "hz_pc (hz_threads s' ! j) = hz_pc (hz_threads s ! j)"
    "\<And>g. pending g (hz_threads s' ! j) = (if j = i \<and> g = h then pending h (hz_threads s ! i) @ [(h, p, now s)] else pending g (hz_threads s ! j))"
    if "j < length (hz_threads s)" for j
    using th [OF that] by (simp_all add: pending_publish)
  have len: "length (hz_threads s') = length (hz_threads s)" "hps s' = hps s" "now s' = now s" "in_list s' = in_list s"
    "freed s' = freed s" "length (slots s') = length (slots s)" "slots s' ! g = (if g = h then Published p else slots s ! g)"
    if "g < length (slots s)" for g using that by (simp_all add: s')
  note len' = len(1-6) [OF h(1)]
  have hl: "h < length (hps s)" using slot_owner(1) [OF d(3) h(1)] .
  have "memory_ok s' loc" using d(1) by (simp add: memory_ok_def len' sel Let_def)
  moreover have "buffers_ok c s'" using d(2) h hl th by (auto simp: buffers_ok_def len')
  moreover have "slots_ok c s'"
  proof -
    have "slot_ok c s' g" if g: "g < length (slots s)" for g
    proof (cases "g = h")
      case True
      then show ?thesis using len(7) [OF g] sel(7) [of i h] h i by (simp add: slot_ok_def read_hp_def Let_def)
    next
      case False
      have pe: "pending g (hz_threads s' ! (g div K)) = pending g (hz_threads s ! (g div K))"
        using sel(7) [OF slot_owner(2) [OF d(3) g]] False by simp
      then have "read_hp (g div K) g s' = read_hp (g div K) g s" using len' by (simp add: read_hp_def Let_def)
      then show ?thesis using d(3) g pe False len(7) [OF g] by (simp add: slots_ok_def slot_ok_def)
    qed
    then show ?thesis using d(3) by (simp add: slots_ok_def len')
  qed
  moreover have "protected_ok s' loc"
  proof (rule protected_okI)
    fix g q assume g: "g < length (slots s')" "slots s' ! g = Protected q"
    then have o: "g < length (slots s)" "g \<noteq> h" "slots s ! g = Protected q" using len' len(7) [of g] by (auto split: if_splits)
    show "loc q \<noteq> Some Freed" by (rule protected_okD(1) [OF d(4) o(1,3)])
    fix j cr e assume "j < length (hz_threads s')" "(q, cr) \<in> set (waiting (hz_threads s' ! j)) \<union> set (todo (hz_threads s' ! j))"
      "e \<in> set (pending g (hz_threads s' ! (g div K)))"
    then show "snd (snd e) \<le> cr"
      using protected_okD(2) [OF d(4) o(1,3)] sel o len' slot_owner(2) [OF d(3) o(1)] by auto
  qed
  moreover have "scans_ok c s'"
  proof (rule scans_okI)
    fix j assume j: "j < length (hz_threads s')"
    then have j': "j < length (hz_threads s)" using len' by simp
    note so = scans_okD [OF d(5) j']
    show "hz_pc (hz_threads s' ! j) = Hz_idle \<Longrightarrow> todo (hz_threads s' ! j) = []"
      "hz_pc (hz_threads s' ! j) \<noteq> Hz_idle \<Longrightarrow> started (hz_threads s' ! j) \<le> now s'"
      using so(1,2) sel [OF j'] len' by simp_all
    fix g q cr assume g: "g < length (slots s')" "g < collected s' (hz_pc (hz_threads s' ! j))"
      "(q, cr) \<in> set (todo (hz_threads s' ! j))" "slots s' ! g = Protected q"
    have "collected s' pc = collected s pc" for pc using len' by (cases pc) simp_all
    then show "q \<in> set (plist (hz_threads s' ! j)) \<or> \<not> fences c \<and> started (hz_threads s' ! j) \<le> cr + drain c"
      using so(3) [of g q cr] g sel [OF j'] len' len(7) [of g] by (auto split: if_splits)
  qed
  ultimately show ?thesis by (simp add: hz_inv_def)
qed

lemma slot_update:
  assumes inv: "hz_inv c s loc" and h: "h < length (slots s)"
    and ok: "slot_ok c (s\<lparr>slots := (slots s)[h := v]\<rparr>) h"
    and new: "\<And>p. v = Protected p \<Longrightarrow> loc p = Some In_list"
  shows "hz_inv c (s\<lparr>slots := (slots s)[h := v]\<rparr>) loc"
proof -
  note d = hz_invD [OF inv]
  let ?s = "s\<lparr>slots := (slots s)[h := v]\<rparr>"
  have col: "collected ?s = collected s" by (rule ext, rename_tac p, case_tac p) simp_all
  have unretired: "(p, cr) \<notin> set (waiting (hz_threads s ! j)) \<union> set (todo (hz_threads s ! j))"
    if "v = Protected p" "j < length (hz_threads s)" for p cr j
    using memory_okD(4) [OF d(1) that(2), of p] new [OF that(1)] by force
  have "memory_ok ?s loc" "buffers_ok c ?s" using d by (simp_all add: memory_ok_def buffers_ok_def)
  moreover have "slot_ok c ?s g" if "g < length (slots s)" for g
  proof (cases "g = h")
    case False
    then show ?thesis using d(3) that by (simp add: slots_ok_def slot_ok_def)
  qed (use ok in simp)
  then have "slots_ok c ?s" using d(3) by (simp add: slots_ok_def)
  moreover have "protected_ok ?s loc"
  proof (rule protected_okI)
    fix g p assume g: "g < length (slots ?s)" "slots ?s ! g = Protected p"
    show "loc p \<noteq> Some Freed"
      using g protected_okD(1) [OF d(4), of g p] new [of p] by (cases "g = h") auto
    fix j cr e assume j: "j < length (hz_threads ?s)" "(p, cr) \<in> set (waiting (hz_threads ?s ! j)) \<union> set (todo (hz_threads ?s ! j))"
      "e \<in> set (pending g (hz_threads ?s ! (g div K)))"
    show "snd (snd e) \<le> cr"
      using g j protected_okD(2) [OF d(4), of g p j cr e] unretired [of p j cr] by (cases "g = h") auto
  qed
  moreover have "scans_ok c ?s"
  proof (rule scans_okI)
    fix j g p cr assume j: "j < length (hz_threads ?s)" "g < length (slots ?s)" "g < collected ?s (hz_pc (hz_threads ?s ! j))"
      "(p, cr) \<in> set (todo (hz_threads ?s ! j))" "slots ?s ! g = Protected p"
    show "p \<in> set (plist (hz_threads ?s ! j)) \<or> \<not> fences c \<and> started (hz_threads ?s ! j) \<le> cr + drain c"
      using j scans_okD(3) [OF d(5), of j g p cr] unretired [of p j cr] col by (cases "g = h") auto
  qed (use scans_okD(1,2) [OF d(5)] in simp_all)
  ultimately show ?thesis by (simp add: hz_inv_def)
qed

lemma act_fence:
  assumes inv: "hz_inv c s loc" and i: "i < length (hz_threads s)" and st: "hz_act c i (Fence h) s = Some s'"
  shows "hz_inv c s' loc"
proof -
  obtain p where h: "h < length (slots s)" "h div K = i" "slots s ! h = Published p"
    and s': "s' = (flush_all i s)\<lparr>slots := (slots s)[h := Fenced p]\<rparr>"
    using st i by (auto simp: hz_act_def Let_def split: if_splits hz_slot.splits)
  note f = flush_all_inv [OF inv i]
  have "slot_ok c (flush_all i s) h" using hz_invD(3) [OF f(1)] h f(3) by (simp add: slots_ok_def)
  moreover have "pending h (hz_threads (flush_all i s) ! i) = []" using f(7) i by (simp add: pending_def)
  ultimately have "slot_ok c ((flush_all i s)\<lparr>slots := (slots (flush_all i s))[h := Fenced p]\<rparr>) h"
    using h f(3) by (simp add: slot_ok_def)
  with slot_update [OF f(1), of h "Fenced p"] show ?thesis using h(1) f(3) s' by simp
qed

lemma act_validate:
  assumes inv: "hz_inv c s loc" and i: "i < length (hz_threads s)" and st: "hz_act c i (Validate h) s = Some s'"
  shows "hz_inv c s' loc"
proof -
  obtain p where h: "h < length (slots s)" "slots s ! h = Published p \<and> \<not> fences c \<or> slots s ! h = Fenced p"
    and s': "s' = s\<lparr>slots := (slots s)[h := if p \<in> set (in_list s) then Protected p else Hz_free]\<rparr>"
    using st i by (auto simp: hz_act_def Let_def split: if_splits hz_slot.splits)
  have "slot_ok c s h" using hz_invD(3) [OF inv] h(1) by (simp add: slots_ok_def)
  then have "slot_ok c s' h" using h by (auto simp: s' slot_ok_def)
  then show ?thesis unfolding s'
    by (rule slot_update [OF inv h(1)]) (use memory_okD(1) [OF hz_invD(1) [OF inv]] in \<open>auto split: if_splits\<close>)
qed

text \<open>Steps of thread \<open>i\<close> on its lists.\<close>

lemma act_detach:
  assumes inv: "hz_inv c s loc" and i: "i < length (hz_threads s)" and st: "hz_act c i (Detach p) s = Some s'"
  shows "\<exists>loc'. hz_inv c s' loc'"
proof -
  let ?u = "flush_all i s"
  note f = flush_all_inv [OF inv i] and d = hz_invD [OF flush_all_inv(1) [OF inv i]]
  have p: "p \<in> set (in_list s)"
    and s': "s' = upd_thread i (\<lambda>t. t\<lparr>detached := p # detached t\<rparr>) (?u\<lparr>in_list := removeAll p (in_list s)\<rparr>)"
    using st i by (auto simp: hz_act_def Let_def split: if_splits)
  have lp: "loc p = Some In_list" using memory_okD(1) [OF d(1), of p] p f(4) by simp
  have iu: "i < length (hz_threads ?u)" using i f(7) by simp
  let ?t = "(hz_threads ?u ! i)\<lparr>detached := p # detached (hz_threads ?u ! i)\<rparr>"
  have th: "hz_threads s' ! j = (if j = i then ?t else hz_threads ?u ! j)" if "j < length (hz_threads ?u)" for j
    using that by (simp add: s')
  have sel: "waiting (hz_threads s' ! j) = waiting (hz_threads ?u ! j)" "todo (hz_threads s' ! j) = todo (hz_threads ?u ! j)"
    "plist (hz_threads s' ! j) = plist (hz_threads ?u ! j)" "started (hz_threads s' ! j) = started (hz_threads ?u ! j)"
    "hz_pc (hz_threads s' ! j) = hz_pc (hz_threads ?u ! j)" "buffer (hz_threads s' ! j) = buffer (hz_threads ?u ! j)"
    "pending g (hz_threads s' ! j) = pending g (hz_threads ?u ! j)"
    "detached (hz_threads s' ! j) = (if j = i then p # detached (hz_threads ?u ! i) else detached (hz_threads ?u ! j))"
    if "j < length (hz_threads ?u)" for j g
    using th [OF that] by (simp_all add: pending_def)
  have eq: "now s' = now ?u" "hps s' = hps ?u" "slots s' = slots ?u" "freed s' = freed ?u" "in_list s' = removeAll p (in_list ?u)"
    "length (hz_threads s') = length (hz_threads ?u)"
    using f(4) by (simp_all add: s')
  let ?loc = "loc(p \<mapsto> Detached_by i)"
  have "memory_ok s' ?loc"
  proof (rule memory_okI)
    show "q \<in> set (in_list s') \<longleftrightarrow> ?loc q = Some In_list" "q \<in> set (freed s') \<longleftrightarrow> ?loc q = Some Freed" for q
      using memory_okD(1,2) [OF d(1), of q] lp by (auto simp: eq)
    fix j assume j: "j < length (hz_threads s')"
    then have ju: "j < length (hz_threads ?u)" using eq by simp
    show "q \<in> set (detached (hz_threads s' ! j)) \<longleftrightarrow> ?loc q = Some (Detached_by j)" for q
      using memory_okD(3) [OF d(1) ju, of q] memory_okD(3) [OF d(1) iu, of q] lp sel(8) [OF ju] by auto
    show "q \<in> fst ` set (waiting (hz_threads s' ! j) @ todo (hz_threads s' ! j)) \<longleftrightarrow> ?loc q = Some (Retired_by j)" for q
      using memory_okD(4) [OF d(1) ju, of q] lp by (simp add: sel [OF ju])
    show "distinct (map fst (waiting (hz_threads s' ! j) @ todo (hz_threads s' ! j)))"
      using memory_okD(5) [OF d(1) ju] by (simp add: sel [OF ju])
  qed
  moreover have "buffers_ok c s'" by (rule buffers_ok_cong [OF d(2)]) (simp_all add: eq sel)
  moreover have "slots_ok c s'" by (rule slots_ok_cong [OF d(3)]) (simp_all add: eq sel)
  moreover have "protected_ok s' ?loc"
  proof (rule protected_okI)
    fix h q assume h: "h < length (slots s')" "slots s' ! h = Protected q"
    then have hu: "h < length (slots ?u)" "slots ?u ! h = Protected q" by (simp_all add: eq)
    show "?loc q \<noteq> Some Freed" using protected_okD(1) [OF d(4) hu] by simp
    fix j cr e assume "j < length (hz_threads s')" "(q, cr) \<in> set (waiting (hz_threads s' ! j)) \<union> set (todo (hz_threads s' ! j))"
      "e \<in> set (pending h (hz_threads s' ! (h div K)))"
    then show "snd (snd e) \<le> cr"
      using protected_okD(2) [OF d(4) hu, of j cr e] slot_owner(2) [OF d(3) hu(1)] by (simp add: eq sel)
  qed
  moreover have "scans_ok c s'"
    using d(5) collected_same [OF eq(3)] by (simp add: scans_ok_def Let_def eq sel)
  ultimately show ?thesis unfolding hz_inv_def by blast
qed

lemma act_stamp:
  assumes inv: "hz_inv c s loc" and i: "i < length (hz_threads s)" and st: "hz_act c i (Stamp p) s = Some s'"
  shows "\<exists>loc'. hz_inv c s' loc'"
proof -
  note d = hz_invD [OF inv]
  let ?u = "hz_threads s ! i"
  have p: "p \<in> set (detached ?u)" and pc: "hz_pc ?u = Hz_idle"
    and s': "s' = upd_thread i (\<lambda>t. t\<lparr>detached := removeAll p (detached t), waiting := (p, now s) # waiting t\<rparr>) s"
    using st i by (auto simp: hz_act_def Let_def split: if_splits)
  have lp: "loc p = Some (Detached_by i)" using memory_okD(3) [OF d(1) i] p by simp
  have idle: "todo ?u = []" by (rule scans_okD(1) [OF d(5) i pc])
  have th: "hz_threads s' ! j = (if j = i then ?u\<lparr>detached := removeAll p (detached ?u), waiting := (p, now s) # waiting ?u\<rparr> else hz_threads s ! j)"
    if "j < length (hz_threads s)" for j using that by (simp add: s')
  have sel: "todo (hz_threads s' ! j) = todo (hz_threads s ! j)"
    "plist (hz_threads s' ! j) = plist (hz_threads s ! j)" "started (hz_threads s' ! j) = started (hz_threads s ! j)"
    "hz_pc (hz_threads s' ! j) = hz_pc (hz_threads s ! j)" "buffer (hz_threads s' ! j) = buffer (hz_threads s ! j)"
    "pending g (hz_threads s' ! j) = pending g (hz_threads s ! j)"
    "detached (hz_threads s' ! j) = (if j = i then removeAll p (detached ?u) else detached (hz_threads s ! j))"
    "waiting (hz_threads s' ! j) = (if j = i then (p, now s) # waiting ?u else waiting (hz_threads s ! j))"
    if "j < length (hz_threads s)" for j g
    using th [OF that] by (simp_all add: pending_def)
  have eq: "now s' = now s" "hps s' = hps s" "slots s' = slots s" "freed s' = freed s" "in_list s' = in_list s"
    "length (hz_threads s') = length (hz_threads s)"
    by (simp_all add: s')
  let ?loc = "loc(p \<mapsto> Retired_by i)"
  have "memory_ok s' ?loc"
  proof (rule memory_okI)
    show "q \<in> set (in_list s') \<longleftrightarrow> ?loc q = Some In_list" "q \<in> set (freed s') \<longleftrightarrow> ?loc q = Some Freed" for q
      using memory_okD(1,2) [OF d(1), of q] lp by (auto simp: eq)
    fix j assume "j < length (hz_threads s')"
    then have j: "j < length (hz_threads s)" using eq by simp
    show "q \<in> set (detached (hz_threads s' ! j)) \<longleftrightarrow> ?loc q = Some (Detached_by j)" for q
      using memory_okD(3) [OF d(1) j, of q] memory_okD(3) [OF d(1) i, of q] lp sel(7) [OF j] by auto
    show "q \<in> fst ` set (waiting (hz_threads s' ! j) @ todo (hz_threads s' ! j)) \<longleftrightarrow> ?loc q = Some (Retired_by j)" for q
      using memory_okD(4) [OF d(1) j, of q] memory_okD(4) [OF d(1) i, of q] lp sel(1,8) [OF j] by auto
    show "distinct (map fst (waiting (hz_threads s' ! j) @ todo (hz_threads s' ! j)))"
      using memory_okD(5) [OF d(1) j] memory_okD(4) [OF d(1) i, of p] lp idle sel(1,8) [OF j] by (cases "j = i") auto
  qed
  moreover have "buffers_ok c s'" by (rule buffers_ok_cong [OF d(2)]) (simp_all add: eq sel)
  moreover have "slots_ok c s'" by (rule slots_ok_cong [OF d(3)]) (simp_all add: eq sel)
  moreover have "protected_ok s' ?loc"
  proof (rule protected_okI)
    fix h q assume h: "h < length (slots s')" "slots s' ! h = Protected q"
    then have hu: "h < length (slots s)" "slots s ! h = Protected q" by (simp_all add: eq)
    show "?loc q \<noteq> Some Freed" using protected_okD(1) [OF d(4) hu] by simp
    fix j cr e assume j: "j < length (hz_threads s')" and w: "(q, cr) \<in> set (waiting (hz_threads s' ! j)) \<union> set (todo (hz_threads s' ! j))"
      and e: "e \<in> set (pending h (hz_threads s' ! (h div K)))"
    have o: "h div K < length (hz_threads s)" by (rule slot_owner(2) [OF d(3) hu(1)])
    have e': "e \<in> set (pending h (hz_threads s ! (h div K)))" using e o by (simp add: sel)
    then have "snd (snd e) \<le> now s" using d(2) o by (auto simp: buffers_ok_def pending_def)
    then show "snd (snd e) \<le> cr"
      using protected_okD(2) [OF d(4) hu, of j cr e] w j e' by (auto simp: eq sel split: if_splits)
  qed
  moreover have "scans_ok c s'"
    using d(5) collected_same [OF eq(3)] by (simp add: scans_ok_def Let_def eq sel)
  ultimately show ?thesis unfolding hz_inv_def by blast
qed

lemma act_insert:
  assumes inv: "hz_inv c s loc" and i: "i < length (hz_threads s)" and st: "hz_act c i (Insert p) s = Some s'"
  shows "\<exists>loc'. hz_inv c s' loc'"
proof -
  note d = hz_invD [OF inv]
  have p: "p \<in> set (freed s)" and s': "s' = s\<lparr>freed := removeAll p (freed s), in_list := p # in_list s\<rparr>"
    using st i by (auto simp: hz_act_def Let_def split: if_splits)
  have lp: "loc p = Some Freed" using memory_okD(2) [OF d(1)] p by simp
  let ?loc = "loc(p \<mapsto> In_list)"
  have "memory_ok s' ?loc"
  proof (rule memory_okI)
    show "q \<in> set (in_list s') \<longleftrightarrow> ?loc q = Some In_list" "q \<in> set (freed s') \<longleftrightarrow> ?loc q = Some Freed" for q
      using memory_okD(1,2) [OF d(1), of q] lp by (auto simp: s')
    fix j assume "j < length (hz_threads s')"
    then have j: "j < length (hz_threads s)" by (simp add: s')
    show "q \<in> set (detached (hz_threads s' ! j)) \<longleftrightarrow> ?loc q = Some (Detached_by j)" for q
      using memory_okD(3) [OF d(1) j, of q] lp by (auto simp: s')
    show "q \<in> fst ` set (waiting (hz_threads s' ! j) @ todo (hz_threads s' ! j)) \<longleftrightarrow> ?loc q = Some (Retired_by j)" for q
      using memory_okD(4) [OF d(1) j, of q] lp by (simp add: s')
    show "distinct (map fst (waiting (hz_threads s' ! j) @ todo (hz_threads s' ! j)))"
      using memory_okD(5) [OF d(1) j] by (simp add: s')
  qed
  moreover have "buffers_ok c s'" by (rule buffers_ok_cong [OF d(2)]) (simp_all add: s')
  moreover have "slots_ok c s'" by (rule slots_ok_cong [OF d(3)]) (simp_all add: s')
  moreover have "protected_ok s' ?loc" using d(4) by (auto simp: s' protected_ok_def)
  moreover have "scans_ok c s'" using d(5) collected_same [of s' s] by (simp add: scans_ok_def Let_def s')
  ultimately show ?thesis unfolding hz_inv_def by blast
qed

section \<open>The scan's steps\<close>

text \<open>The scanning thread moves its wrappers between its two lists.\<close>

lemma scan_update:
  assumes inv: "hz_inv c s loc" and i: "i < length (hz_threads s)"
    and t': "t' = f (hz_threads s ! i)" "buffer t' = buffer (hz_threads s ! i)" "detached t' = detached (hz_threads s ! i)"
      "set (waiting t') \<union> set (todo t') = set (waiting (hz_threads s ! i)) \<union> set (todo (hz_threads s ! i))"
      "distinct (map fst (waiting t' @ todo t'))"
    and idle: "hz_pc t' = Hz_idle \<Longrightarrow> todo t' = []" "hz_pc t' \<noteq> Hz_idle \<Longrightarrow> started t' \<le> now s"
    and scan: "\<And>h p cr. h < length (slots s) \<Longrightarrow> h < collected s (hz_pc t') \<Longrightarrow> (p, cr) \<in> set (todo t') \<Longrightarrow>
      slots s ! h = Protected p \<Longrightarrow> p \<in> set (plist t') \<or> \<not> fences c \<and> started t' \<le> cr + drain c"
  shows "hz_inv c (upd_thread i f s) loc"
proof -
  note d = hz_invD [OF inv]
  let ?s = "upd_thread i f s"
  have th: "hz_threads ?s ! j = (if j = i then t' else hz_threads s ! j)" if "j < length (hz_threads s)" for j
    using that t'(1) by simp
  have buf: "buffer (hz_threads ?s ! j) = buffer (hz_threads s ! j)" if "j < length (hz_threads s)" for j
    using th [OF that] t'(2) by (cases "j = i") simp_all
  have lists: "set (waiting (hz_threads ?s ! j)) \<union> set (todo (hz_threads ?s ! j)) = set (waiting (hz_threads s ! j)) \<union> set (todo (hz_threads s ! j))"
    if "j < length (hz_threads s)" for j using th [OF that] t'(4) by (cases "j = i") simp_all
  have "memory_ok ?s loc"
  proof (rule memory_okI)
    fix j assume "j < length (hz_threads ?s)"
    then have j: "j < length (hz_threads s)" by simp
    show "q \<in> set (detached (hz_threads ?s ! j)) \<longleftrightarrow> loc q = Some (Detached_by j)" for q
      using memory_okD(3) [OF d(1) j, of q] th [OF j] t'(3) by (cases "j = i") simp_all
    have "fst ` set (waiting (hz_threads ?s ! j) @ todo (hz_threads ?s ! j)) = fst ` set (waiting (hz_threads s ! j) @ todo (hz_threads s ! j))"
      unfolding set_append lists [OF j] ..
    then show "q \<in> fst ` set (waiting (hz_threads ?s ! j) @ todo (hz_threads ?s ! j)) \<longleftrightarrow> loc q = Some (Retired_by j)" for q
      using memory_okD(4) [OF d(1) j, of q] by simp
    show "distinct (map fst (waiting (hz_threads ?s ! j) @ todo (hz_threads ?s ! j)))"
      using memory_okD(5) [OF d(1) j] th [OF j] t'(5) by (cases "j = i") simp_all
  qed (use memory_okD(1,2) [OF d(1)] in simp_all)
  moreover have "buffers_ok c ?s" by (rule buffers_ok_cong [OF d(2)]) (use buf in simp_all)
  moreover have "slots_ok c ?s" by (rule slots_ok_cong [OF d(3)]) (use buf in simp_all)
  moreover have "protected_ok ?s loc"
  proof (rule protected_okI)
    fix h p assume h: "h < length (slots ?s)" "slots ?s ! h = Protected p"
    show "loc p \<noteq> Some Freed" using protected_okD(1) [OF d(4)] h by simp
    fix j cr e assume j: "j < length (hz_threads ?s)" "(p, cr) \<in> set (waiting (hz_threads ?s ! j)) \<union> set (todo (hz_threads ?s ! j))"
      and e: "e \<in> set (pending h (hz_threads ?s ! (h div K)))"
    have hl: "h < length (slots s)" "slots s ! h = Protected p" and jl: "j < length (hz_threads s)" using h j by simp_all
    have "e \<in> set (pending h (hz_threads s ! (h div K)))"
      using e buf [OF slot_owner(2) [OF d(3) hl(1)]] by (simp add: pending_def)
    moreover have "(p, cr) \<in> set (waiting (hz_threads s ! j)) \<union> set (todo (hz_threads s ! j))"
      using j(2) lists [OF jl] by blast
    ultimately show "snd (snd e) \<le> cr" using protected_okD(2) [OF d(4) hl jl] by blast
  qed
  moreover have "scans_ok c ?s"
  proof (rule scans_okI)
    fix j assume "j < length (hz_threads ?s)"
    then have j: "j < length (hz_threads s)" by simp
    have col: "collected ?s = collected s" by (rule collected_same) simp
    show "hz_pc (hz_threads ?s ! j) = Hz_idle \<Longrightarrow> todo (hz_threads ?s ! j) = []"
      using scans_okD(1) [OF d(5) j] idle(1) th [OF j] by (auto split: if_splits)
    show "hz_pc (hz_threads ?s ! j) \<noteq> Hz_idle \<Longrightarrow> started (hz_threads ?s ! j) \<le> now ?s"
      using scans_okD(2) [OF d(5) j] idle(2) th [OF j] by (auto split: if_splits)
    fix h p cr assume "h < length (slots ?s)" "h < collected ?s (hz_pc (hz_threads ?s ! j))" "(p, cr) \<in> set (todo (hz_threads ?s ! j))"
      "slots ?s ! h = Protected p"
    then show "p \<in> set (plist (hz_threads ?s ! j)) \<or> \<not> fences c \<and> started (hz_threads ?s ! j) \<le> cr + drain c"
      using scans_okD(3) [OF d(5) j, of h p cr] scan [of h p cr] th [OF j] unfolding col by (cases "j = i") simp_all
  qed
  ultimately show ?thesis by (simp add: hz_inv_def)
qed

lemma act_start:
  assumes inv: "hz_inv c s loc" and i: "i < length (hz_threads s)" and st: "hz_act c i Start_scan s = Some s'"
  shows "hz_inv c s' loc"
proof -
  note f = flush_all_inv [OF inv i]
  let ?u = "flush_all i s" and ?f = "\<lambda>t. t\<lparr>todo := waiting t, waiting := [], plist := [], started := now s, hz_pc := Hz_collect 0\<rparr>"
  have pc: "hz_pc (hz_threads s ! i) = Hz_idle" and s': "s' = upd_thread i ?f ?u"
    using st i by (auto simp: hz_act_def Let_def split: if_splits)
  have iu: "i < length (hz_threads ?u)" "hz_pc (hz_threads ?u ! i) = Hz_idle" using i pc f(7) by simp_all
  have "todo (hz_threads ?u ! i) = []" using scans_okD(1) [OF hz_invD(5) [OF f(1)] iu] .
  moreover have "distinct (map fst (waiting (hz_threads ?u ! i) @ todo (hz_threads ?u ! i)))"
    by (rule memory_okD(5) [OF hz_invD(1) [OF f(1)] iu(1)])
  ultimately show ?thesis unfolding s' using f(2)
    by (intro scan_update [OF f(1) iu(1) refl]) simp_all
qed

text \<open>Reading a hazard pointer: a protected node of the list is found there, or its store is pending.\<close>

lemma collect_finds:
  assumes inv: "hz_inv c s loc" and i: "i < length (hz_threads s)" and pc: "hz_pc (hz_threads s ! i) = Hz_collect h"
    and h: "h < length (slots s)" and w: "(p, cr) \<in> set (todo (hz_threads s ! i))" and p: "slots s ! h = Protected p"
  shows "read_hp i h s = p \<and> p \<noteq> NULL \<or> \<not> fences c \<and> started (hz_threads s ! i) \<le> cr + drain c"
proof -
  note d = hz_invD [OF inv]
  let ?ps = "pending h (hz_threads s ! (h div K))"
  have o: "h div K < length (hz_threads s)" by (rule slot_owner(2) [OF d(3) h])
  have ok: "p \<noteq> NULL" "read_hp (h div K) h s = p" "fences c \<Longrightarrow> ?ps = []"
    using d(3) h p by (auto simp: slots_ok_def slot_ok_def)
  show ?thesis
  proof (cases "h div K = i")
    case True
    then show ?thesis using ok by simp
  next
    case False
    have none: "pending h (hz_threads s ! i) = []" using d(2) i False by (auto simp: buffers_ok_def pending_def filter_empty_conv)
    show ?thesis
    proof (cases "?ps = []")
      case True
      then show ?thesis using ok none by (simp add: read_hp_def)
    next
      case ps: False
      then have e: "last ?ps \<in> set ?ps" by simp
      then have "snd (snd (last ?ps)) \<le> cr" using protected_okD(2) [OF d(4) h p i] w by blast
      moreover have "now s \<le> snd (snd (last ?ps)) + drain c" using e d(2) o by (auto simp: buffers_ok_def pending_def)
      moreover have "started (hz_threads s ! i) \<le> now s" using scans_okD(2) [OF d(5) i] pc by simp
      ultimately show ?thesis using ps ok(3) by auto
    qed
  qed
qed

definition scan_safe :: "hz_conf \<Rightarrow> nat \<Rightarrow> hz_sys \<Rightarrow> nat \<Rightarrow> bool" where
  "scan_safe c d s i \<longleftrightarrow>
     fences c \<or> ages c \<and> drain c + d \<le> SLEEP_AMOUNT + MARGIN \<and>
       (hz_pc (hz_threads s ! i) \<noteq> Hz_idle \<longrightarrow> now s < started (hz_threads s ! i) + d)"

lemma scan_step_free:
  assumes inv: "hz_inv c s loc" and i: "i < length (hz_threads s)" and pc: "hz_pc (hz_threads s ! i) = Hz_sweep"
    and w: "todo (hz_threads s ! i) = (p, cr) # ps" and safe: "scan_safe c d s i"
    and old: "\<not> (ages c \<and> now s < cr + (SLEEP_AMOUNT + MARGIN))" "\<not> ssearch (plist (hz_threads s ! i)) p"
  shows "hz_inv c (upd_thread i (\<lambda>t. t\<lparr>todo := ps\<rparr>) (s\<lparr>freed := p # freed s\<rparr>)) (loc(p \<mapsto> Freed))"
proof -
  note dd = hz_invD [OF inv]
  let ?u = "hz_threads s ! i" and ?loc = "loc(p \<mapsto> Freed)"
  let ?s = "upd_thread i (\<lambda>t. t\<lparr>todo := ps\<rparr>) (s\<lparr>freed := p # freed s\<rparr>)"
  have unprotected: "slots s ! h \<noteq> Protected p" if h: "h < length (slots s)" for h
  proof
    assume "slots s ! h = Protected p"
    then have "p \<in> set (plist ?u) \<or> \<not> fences c \<and> started ?u \<le> cr + drain c"
      using scans_okD(3) [OF dd(5) i, of h p cr] pc w h by simp
    then show False using old safe pc by (auto simp: ssearch_iff scan_safe_def)
  qed
  have lp: "loc p = Some (Retired_by i)" using memory_okD(4) [OF dd(1) i, of p] w by simp
  have dist: "distinct (map fst (waiting ?u @ (p, cr) # ps))" using memory_okD(5) [OF dd(1) i] w by simp
  have th: "hz_threads ?s ! j = (if j = i then ?u\<lparr>todo := ps\<rparr> else hz_threads s ! j)" if "j < length (hz_threads s)" for j
    using that by simp
  have sel: "detached (hz_threads ?s ! j) = detached (hz_threads s ! j)" "waiting (hz_threads ?s ! j) = waiting (hz_threads s ! j)"
    "plist (hz_threads ?s ! j) = plist (hz_threads s ! j)" "started (hz_threads ?s ! j) = started (hz_threads s ! j)"
    "hz_pc (hz_threads ?s ! j) = hz_pc (hz_threads s ! j)" "buffer (hz_threads ?s ! j) = buffer (hz_threads s ! j)"
    "pending g (hz_threads ?s ! j) = pending g (hz_threads s ! j)"
    "todo (hz_threads ?s ! j) = (if j = i then ps else todo (hz_threads s ! j))"
    if "j < length (hz_threads s)" for j g
    using th [OF that] by (simp_all add: pending_def del: upd_thread_sel)
  have sub: "set (todo (hz_threads ?s ! j)) \<subseteq> set (todo (hz_threads s ! j))" if "j < length (hz_threads s)" for j
    using sel(8) [OF that] w by auto
  have "memory_ok ?s ?loc"
  proof (rule memory_okI)
    show "q \<in> set (in_list ?s) \<longleftrightarrow> ?loc q = Some In_list" "q \<in> set (freed ?s) \<longleftrightarrow> ?loc q = Some Freed" for q
      using memory_okD(1,2) [OF dd(1), of q] lp by auto
    fix j assume "j < length (hz_threads ?s)"
    then have j: "j < length (hz_threads s)" by simp
    show "q \<in> set (detached (hz_threads ?s ! j)) \<longleftrightarrow> ?loc q = Some (Detached_by j)" for q
      using memory_okD(3) [OF dd(1) j, of q] lp by (simp add: sel [OF j] del: upd_thread_sel)
    show "q \<in> fst ` set (waiting (hz_threads ?s ! j) @ todo (hz_threads ?s ! j)) \<longleftrightarrow> ?loc q = Some (Retired_by j)" for q
      unfolding sel(2,8) [OF j] using memory_okD(4) [OF dd(1) j, of q] lp dist w by (cases "j = i") force+
    show "distinct (map fst (waiting (hz_threads ?s ! j) @ todo (hz_threads ?s ! j)))"
      unfolding sel(2,8) [OF j] using memory_okD(5) [OF dd(1) j] dist by (cases "j = i") simp_all
  qed
  moreover have "buffers_ok c ?s" by (rule buffers_ok_cong [OF dd(2)]) (simp_all add: sel(6) del: upd_thread_sel(1), simp)
  moreover have "slots_ok c ?s" by (rule slots_ok_cong [OF dd(3)]) (simp_all add: sel(6) del: upd_thread_sel(1), simp)
  moreover have "protected_ok ?s ?loc"
  proof (rule protected_okI)
    fix h q assume "h < length (slots ?s)" "slots ?s ! h = Protected q"
    then have h: "h < length (slots s)" "slots s ! h = Protected q" by simp_all
    show "?loc q \<noteq> Some Freed" using protected_okD(1) [OF dd(4) h] unprotected [OF h(1)] h(2) by auto
    fix j cr' e assume j: "j < length (hz_threads ?s)" "(q, cr') \<in> set (waiting (hz_threads ?s ! j)) \<union> set (todo (hz_threads ?s ! j))"
      and e: "e \<in> set (pending h (hz_threads ?s ! (h div K)))"
    have jl: "j < length (hz_threads s)" using j(1) by simp
    have "(q, cr') \<in> set (waiting (hz_threads s ! j)) \<union> set (todo (hz_threads s ! j))"
      using j(2) subsetD [OF sub [OF jl]] unfolding sel(2) [OF jl] Un_iff by fast
    moreover have "e \<in> set (pending h (hz_threads s ! (h div K)))" using e sel(7) [OF slot_owner(2) [OF dd(3) h(1)]] by simp
    ultimately show "snd (snd e) \<le> cr'" using protected_okD(2) [OF dd(4) h jl] by blast
  qed
  moreover have "scans_ok c ?s"
  proof (rule scans_okI)
    fix j assume "j < length (hz_threads ?s)"
    then have j: "j < length (hz_threads s)" by simp
    have col: "collected ?s = collected s" by (rule collected_same) simp
    note so = scans_okD [OF dd(5) j]
    show "hz_pc (hz_threads ?s ! j) = Hz_idle \<Longrightarrow> todo (hz_threads ?s ! j) = []"
      using so(1) pc unfolding sel(5,8) [OF j] by (auto split: if_splits)
    show "hz_pc (hz_threads ?s ! j) \<noteq> Hz_idle \<Longrightarrow> started (hz_threads ?s ! j) \<le> now ?s"
      using so(2) unfolding sel(4,5) [OF j] by simp
    fix h q cr' assume "h < length (slots ?s)" "h < collected ?s (hz_pc (hz_threads ?s ! j))" "(q, cr') \<in> set (todo (hz_threads ?s ! j))"
      "slots ?s ! h = Protected q"
    then show "q \<in> set (plist (hz_threads ?s ! j)) \<or> \<not> fences c \<and> started (hz_threads ?s ! j) \<le> cr' + drain c"
      using so(3) [of h q cr'] sub [OF j] unfolding col sel(3,4,5) [OF j] by auto
  qed
  ultimately show ?thesis by (simp add: hz_inv_def)
qed

lemma scan_step_inv:
  assumes inv: "hz_inv c s loc" and i: "i < length (hz_threads s)" and safe: "scan_safe c d s i"
    and st: "scan_step c i s = Some s'"
  shows "\<exists>loc'. hz_inv c s' loc'"
proof -
  note dd = hz_invD [OF inv]
  let ?u = "hz_threads s ! i"
  have len: "length (hps s) = length (slots s)" using dd(3) by (simp add: slots_ok_def)
  have dist: "distinct (map fst (waiting ?u @ todo ?u))" by (rule memory_okD(5) [OF dd(1) i])
  note so = scans_okD [OF dd(5) i]
  show ?thesis
  proof (cases "hz_pc ?u")
    case Hz_idle
    then show ?thesis using st by (simp add: scan_step_def Let_def)
  next
    case (Hz_collect k)
    show ?thesis
    proof (cases "k < length (hps s)")
      case False
      then have s': "s' = upd_thread i (\<lambda>t. t\<lparr>hz_pc := Hz_sweep\<rparr>) s" using st Hz_collect by (simp add: scan_step_def Let_def)
      have "hz_inv c s' loc" unfolding s'
        by (rule scan_update [OF inv i refl]) (use so dist Hz_collect False len in simp_all)
      then show ?thesis by blast
    next
      case True
      let ?p = "read_hp i k s"
      let ?f = "\<lambda>t. t\<lparr>plist := (if ?p \<noteq> NULL then plist t @ [?p] else plist t), hz_pc := Hz_collect (k + 1)\<rparr>"
      have s': "s' = upd_thread i ?f s" using st Hz_collect True by (simp add: scan_step_def Let_def)
      have "hz_inv c s' loc" unfolding s'
      proof (rule scan_update [OF inv i refl])
        fix h p cr assume h: "h < length (slots s)" "h < collected s (hz_pc (?f ?u))" "(p, cr) \<in> set (todo (?f ?u))" "slots s ! h = Protected p"
        have todo: "(p, cr) \<in> set (todo ?u)" using h(3) by simp
        show "p \<in> set (plist (?f ?u)) \<or> \<not> fences c \<and> started (?f ?u) \<le> cr + drain c"
        proof (cases "h = k")
          case eq: True
          from collect_finds [OF inv i Hz_collect] h(1,4) todo eq show ?thesis by auto
        next
          case False
          then have "h < collected s (hz_pc ?u)" using h(2) Hz_collect by simp
          from so(3) [OF h(1) this todo h(4)] show ?thesis by auto
        qed
      qed (use so dist Hz_collect in simp_all)
      then show ?thesis by blast
    qed
  next
    case Hz_sweep
    show ?thesis
    proof (cases "todo ?u")
      case Nil
      then have s': "s' = upd_thread i (\<lambda>t. t\<lparr>hz_pc := Hz_idle\<rparr>) s" using st Hz_sweep by (simp add: scan_step_def Let_def)
      have "hz_inv c s' loc" unfolding s'
        by (rule scan_update [OF inv i refl]) (use Nil dist in simp_all)
      then show ?thesis by blast
    next
      case (Cons w ps)
      obtain p cr where w: "w = (p, cr)" by (cases w)
      note td = Cons [unfolded w]
      show ?thesis
      proof (cases "(ages c \<and> now s < cr + (SLEEP_AMOUNT + MARGIN)) \<or> ssearch (plist ?u) p")
        case True
        let ?f = "\<lambda>t. t\<lparr>todo := ps, waiting := (p, cr) # waiting t\<rparr>"
        have s': "s' = upd_thread i ?f s" using st Hz_sweep td True by (auto simp: scan_step_def Let_def split: if_splits)
        have "hz_inv c s' loc" unfolding s'
        proof (rule scan_update [OF inv i refl])
          fix h q cr' assume "h < length (slots s)" "h < collected s (hz_pc (?f ?u))" "(q, cr') \<in> set (todo (?f ?u))" "slots s ! h = Protected q"
          then show "q \<in> set (plist (?f ?u)) \<or> \<not> fences c \<and> started (?f ?u) \<le> cr' + drain c"
            using so(3) [of h q cr'] td by simp
        qed (use so td dist Hz_sweep in auto)
        then show ?thesis by blast
      next
        case False
        have s': "s' = upd_thread i (\<lambda>t. t\<lparr>todo := ps\<rparr>) (s\<lparr>freed := p # freed s\<rparr>)"
          using st Hz_sweep td False by (auto simp: scan_step_def Let_def split: if_splits)
        have "hz_inv c s' (loc(p \<mapsto> Freed))" unfolding s'
          by (rule scan_step_free [OF inv i Hz_sweep td safe]) (use False in blast)+
        then show ?thesis by blast
      qed
    qed
  qed
qed

lemma act_tick:
  assumes inv: "hz_inv c s loc" and i: "i < length (hz_threads s)" and st: "hz_act c i Tick s = Some s'"
  shows "hz_inv c s' loc"
proof -
  note d = hz_invD [OF inv]
  have late: "\<forall>t \<in> set (hz_threads s). \<forall>e \<in> set (buffer t). now s < snd (snd e) + drain c" and s': "s' = s\<lparr>now := now s + 1\<rparr>"
    using st i by (auto simp: hz_act_def Let_def split: if_splits)
  have "memory_ok s' loc" "protected_ok s' loc" using d by (simp_all add: s' memory_ok_def protected_ok_def)
  moreover have "buffers_ok c s'"
    unfolding buffers_ok_def
  proof (intro allI impI ballI)
    fix j e assume "j < length (hz_threads s')" "e \<in> set (buffer (hz_threads s' ! j))"
    then have j: "j < length (hz_threads s)" and e: "e \<in> set (buffer (hz_threads s ! j))" by (simp_all add: s')
    then have "now s < snd (snd e) + drain c" using late nth_mem by blast
    moreover have "fst e div K = j \<and> fst e < length (hps s) \<and> snd (snd e) \<le> now s" using d(2) j e by (simp add: buffers_ok_def)
    ultimately show "fst e div K = j \<and> fst e < length (hps s') \<and> snd (snd e) \<le> now s' \<and> now s' \<le> snd (snd e) + drain c"
      by (simp add: s')
  qed
  moreover have "slots_ok c s'" by (rule slots_ok_cong [OF d(3)]) (simp_all add: s')
  moreover have "scans_ok c s'" using d(5) collected_same [of s' s] by (fastforce simp: scans_ok_def Let_def s')
  ultimately show ?thesis by (simp add: hz_inv_def)
qed

lemma hz_act_inv:
  assumes inv: "hz_inv c s loc" and st: "hz_act c i a s = Some s'" and safe: "scan_safe c d s i"
  shows "\<exists>loc'. hz_inv c s' loc'"
proof -
  have i: "i < length (hz_threads s)" using st by (simp add: hz_act_def split: if_splits)
  show ?thesis
  proof (cases a)
    case (Publish h p)
    then show ?thesis using act_publish [OF inv i] st by blast
  next
    case (Fence h)
    then show ?thesis using act_fence [OF inv i] st by blast
  next
    case (Validate h)
    then show ?thesis using act_validate [OF inv i] st by blast
  next
    case Flush
    then have "s' = flush i s" using st i by (simp add: hz_act_def Let_def)
    then show ?thesis using flush_inv [OF inv i] by blast
  next
    case (Detach p)
    then show ?thesis using act_detach [OF inv i] st by blast
  next
    case (Stamp p)
    then show ?thesis using act_stamp [OF inv i] st by blast
  next
    case (Insert p)
    then show ?thesis using act_insert [OF inv i] st by blast
  next
    case Start_scan
    then show ?thesis using act_start [OF inv i] st by blast
  next
    case Scan_step
    then show ?thesis using scan_step_inv [OF inv i safe] st i by (simp add: hz_act_def Let_def)
  next
    case Tick
    then show ?thesis using act_tick [OF inv i] st by blast
  qed
qed

section \<open>Safety\<close>

text \<open>\<open>Some d\<close>: every scan is over within less than \<open>d\<close> milliseconds; None: no bound.\<close>

definition brisk :: "nat option \<Rightarrow> hz_action \<Rightarrow> hz_sys \<Rightarrow> bool" where
  "brisk b a s \<longleftrightarrow>
     (case b of None \<Rightarrow> True
      | Some d \<Rightarrow> a = Tick \<longrightarrow> (\<forall>t \<in> set (hz_threads s). hz_pc t \<noteq> Hz_idle \<longrightarrow> now s + 1 < started t + d))"

inductive hz_reach :: "hz_conf \<Rightarrow> nat option \<Rightarrow> hz_sys \<Rightarrow> bool" for c b where
  reach_start: "set ls \<inter> set us = {} \<Longrightarrow> hz_reach c b (hz_start n ls us)"
| reach_step: "hz_reach c b s \<Longrightarrow> hz_act c i a s = Some s' \<Longrightarrow> brisk b a s \<Longrightarrow> hz_reach c b s'"

lemma hz_inv_start:
  assumes "set ls \<inter> set us = {}"
  shows "\<exists>loc. hz_inv c (hz_start n ls us) loc"
proof -
  let ?s = "hz_start n ls us"
  define loc where "loc p = (if p \<in> set ls then Some In_list else if p \<in> set us then Some Freed else None)" for p
  have t: "hz_threads ?s ! i = \<lparr>buffer = [], detached = [], waiting = [], todo = [], plist = [], started = 0, hz_pc = Hz_idle\<rparr>"
    if "i < length (hz_threads ?s)" for i using that by (simp add: hz_start_def)
  have sl: "slots ?s ! h = Hz_free" if "h < length (slots ?s)" for h using that by (simp add: hz_start_def)
  have "memory_ok ?s loc"
    by (rule memory_okI) (use t assms in \<open>auto simp: loc_def hz_start_def\<close>)
  moreover have "buffers_ok c ?s" using t by (simp add: buffers_ok_def)
  moreover have "slots_ok c ?s" using sl by (simp add: slots_ok_def slot_ok_def) (simp add: hz_start_def)
  moreover have "protected_ok ?s loc" using sl by (simp add: protected_ok_def)
  moreover have "scans_ok c ?s" using t by (simp add: scans_ok_def Let_def)
  ultimately show ?thesis unfolding hz_inv_def by blast
qed

text \<open>The time a scan has been running.\<close>

definition in_time :: "nat option \<Rightarrow> hz_sys \<Rightarrow> bool" where
  "in_time b s \<longleftrightarrow>
     (\<forall>d. b = Some d \<longrightarrow> (\<forall>i < length (hz_threads s). hz_pc (hz_threads s ! i) \<noteq> Hz_idle \<longrightarrow>
        now s < started (hz_threads s ! i) + d))"

lemma scan_step_times:
  assumes "scan_step c i s = Some s'" "i < length (hz_threads s)" "j < length (hz_threads s)"
  shows "now s' = now s" "length (hz_threads s') = length (hz_threads s)" "started (hz_threads s' ! j) = started (hz_threads s ! j)"
    "hz_pc (hz_threads s' ! j) \<noteq> Hz_idle \<Longrightarrow> hz_pc (hz_threads s ! j) \<noteq> Hz_idle"
proof -
  have "now s' = now s \<and> length (hz_threads s') = length (hz_threads s) \<and>
      started (hz_threads s' ! j) = started (hz_threads s ! j) \<and>
      (hz_pc (hz_threads s' ! j) \<noteq> Hz_idle \<longrightarrow> hz_pc (hz_threads s ! j) \<noteq> Hz_idle)"
    using assms
    by (cases "j = i") (auto simp: scan_step_def Let_def nth_list_update split: hz_pc.splits if_splits list.splits prod.splits)
  then show "now s' = now s" "length (hz_threads s') = length (hz_threads s)" "started (hz_threads s' ! j) = started (hz_threads s ! j)"
    "hz_pc (hz_threads s' ! j) \<noteq> Hz_idle \<Longrightarrow> hz_pc (hz_threads s ! j) \<noteq> Hz_idle"
    by blast+
qed

lemma flush_all_times:
  assumes "i < length (hz_threads s)" "j < length (hz_threads s)" "hz_inv c s loc"
  shows "started (hz_threads (flush_all i s) ! j) = started (hz_threads s ! j)"
    "hz_pc (hz_threads (flush_all i s) ! j) = hz_pc (hz_threads s ! j)"
  using flush_all_inv(7) [OF assms(3,1)] assms(1,2) by (cases "j = i"; simp)+

lemma in_time_step:
  assumes t: "in_time b s" and st: "hz_act c i a s = Some s'" and br: "brisk b a s" and pos: "b \<noteq> Some 0" and inv: "hz_inv c s loc"
  shows "in_time b s'"
  unfolding in_time_def
proof (intro allI impI)
  fix d j assume b: "b = Some d" and j: "j < length (hz_threads s')" and pc: "hz_pc (hz_threads s' ! j) \<noteq> Hz_idle"
  have i: "i < length (hz_threads s)" using st by (simp add: hz_act_def split: if_splits)
  have old: "now s < started (hz_threads s ! k) + d" if "k < length (hz_threads s)" "hz_pc (hz_threads s ! k) \<noteq> Hz_idle" for k
    using t b that by (simp add: in_time_def)
  note fl = flush_all_inv(2,7) [OF inv i]
  show "now s' < started (hz_threads s' ! j) + d"
  proof (cases a)
    case (Publish h p)
    then have "s' = upd_thread i (\<lambda>t. t\<lparr>buffer := buffer t @ [(h, p, now s)]\<rparr>) (s\<lparr>slots := (slots s)[h := Published p]\<rparr>)"
      using st i by (auto simp: hz_act_def Let_def split: if_splits)
    then show ?thesis using old j pc i by (cases "j = i") simp_all
  next
    case (Fence h)
    then obtain p where "s' = (flush_all i s)\<lparr>slots := (slots s)[h := Fenced p]\<rparr>"
      using st i by (auto simp: hz_act_def Let_def split: if_splits hz_slot.splits)
    then show ?thesis using old j pc i fl by (cases "j = i") simp_all
  next
    case (Validate h)
    then obtain v where "s' = s\<lparr>slots := (slots s)[h := v]\<rparr>"
      using st i by (auto simp: hz_act_def Let_def split: if_splits hz_slot.splits)
    then show ?thesis using old j pc by simp
  next
    case Flush
    then have "s' = flush i s" using st i by (simp add: hz_act_def Let_def)
    then show ?thesis using old j pc by (simp add: flush_thread_sel)
  next
    case (Detach p)
    then have "s' = upd_thread i (\<lambda>t. t\<lparr>detached := p # detached t\<rparr>) ((flush_all i s)\<lparr>in_list := removeAll p (in_list s)\<rparr>)"
      using st i by (auto simp: hz_act_def Let_def split: if_splits)
    then show ?thesis using old j pc i fl by (cases "j = i") simp_all
  next
    case (Stamp p)
    then have "s' = upd_thread i (\<lambda>t. t\<lparr>detached := removeAll p (detached t), waiting := (p, now s) # waiting t\<rparr>) s"
      using st i by (auto simp: hz_act_def Let_def split: if_splits)
    then show ?thesis using old j pc i by (cases "j = i") simp_all
  next
    case (Insert p)
    then have "s' = s\<lparr>freed := removeAll p (freed s), in_list := p # in_list s\<rparr>"
      using st i by (auto simp: hz_act_def Let_def split: if_splits)
    then show ?thesis using old j pc by simp
  next
    case Start_scan
    then have "s' = upd_thread i (\<lambda>t. t\<lparr>todo := waiting t, waiting := [], plist := [], started := now s, hz_pc := Hz_collect 0\<rparr>) (flush_all i s)"
      using st i by (auto simp: hz_act_def Let_def split: if_splits)
    then show ?thesis using old j pc i fl b pos by (cases "j = i") auto
  next
    case Scan_step
    then have sc: "scan_step c i s = Some s'" using st i by (simp add: hz_act_def Let_def)
    have jl: "j < length (hz_threads s)" using scan_step_times(2) [OF sc i i] j by simp
    show ?thesis using scan_step_times [OF sc i jl] old [OF jl] pc by simp
  next
    case Tick
    then have "s' = s\<lparr>now := now s + 1\<rparr>" using st i by (auto simp: hz_act_def Let_def split: if_splits)
    then show ?thesis using br b j pc Tick by (simp add: brisk_def)
  qed
qed

lemma hz_reach_inv:
  assumes "hz_reach c b s"
    and "fences c \<or> (\<exists>d. b = Some d \<and> 0 < d \<and> ages c \<and> drain c + d \<le> SLEEP_AMOUNT + MARGIN)"
  shows "(\<exists>loc. hz_inv c s loc) \<and> (b \<noteq> Some 0 \<longrightarrow> in_time b s)"
  using assms(1)
proof (induction rule: hz_reach.induct)
  case (reach_start ls us n)
  have "hz_pc (hz_threads (hz_start n ls us) ! i) = Hz_idle" if "i < length (hz_threads (hz_start n ls us))" for i
    using that by (simp add: hz_start_def)
  then show ?case using hz_inv_start [OF reach_start] by (simp add: in_time_def)
next
  case (reach_step s i a s')
  obtain loc where inv: "hz_inv c s loc" and t: "b \<noteq> Some 0 \<longrightarrow> in_time b s" using reach_step.IH by blast
  have i: "i < length (hz_threads s)" using reach_step.hyps(2) by (simp add: hz_act_def split: if_splits)
  have "\<exists>d. scan_safe c d s i"
  proof (cases "fences c")
    case False
    then obtain d where d: "b = Some d" "0 < d" "ages c" "drain c + d \<le> SLEEP_AMOUNT + MARGIN" using assms(2) by blast
    then have "scan_safe c d s i" using t i by (simp add: scan_safe_def in_time_def)
    then show ?thesis by blast
  qed (simp add: scan_safe_def)
  then obtain d where "scan_safe c d s i" by blast
  from hz_act_inv [OF inv reach_step.hyps(2) this] in_time_step [OF _ reach_step.hyps(2,3) _ inv] t show ?case by blast
qed

lemma hz_reach_safe:
  assumes "hz_reach c b s" "fences c \<or> (\<exists>d. b = Some d \<and> 0 < d \<and> ages c \<and> drain c + d \<le> SLEEP_AMOUNT + MARGIN)"
    and "h < length (slots s)" "slots s ! h = Protected p"
  shows "p \<notin> set (freed s)"
proof -
  obtain loc where "hz_inv c s loc" using hz_reach_inv [OF assms(1,2)] by blast
  note d = hz_invD [OF this]
  show ?thesis using protected_okD(1) [OF d(4) assms(3,4)] memory_okD(2) [OF d(1), of p] by simp
qed

text \<open>C4: Hazard pointers with barriers are safe: when the client passes a barrier between the store of
  a hazard pointer and its check that the node is still linked (smr.c, smr_membar_lazy.c), no node
  that a thread has validated under one of its hazard pointers is ever freed, in whatever order the
  threads' stores, store buffers, retirements and scans interleave, however slow a scan is, and
  whether or not the scan looks at the age of the nodes.\<close>

theorem hazard_protocol_safe:
  assumes "hz_reach c None s" "fences c" "h < length (slots s)" "slots s ! h = Protected p"
  shows "p \<notin> set (freed s)"
  by (rule hz_reach_safe [OF assms(1) _ assms(3,4)]) (simp add: assms(2))


text \<open>Executions in which thread 1 scans while thread 0 protects the node it has retired.\<close>

fun brisk_run :: "hz_conf \<Rightarrow> nat option \<Rightarrow> (nat \<times> hz_action) list \<Rightarrow> hz_sys \<Rightarrow> hz_sys option" where
  "brisk_run c b [] s = Some s"
| "brisk_run c b ((i, a) # as) s =
     (if brisk b a s then do { s1 \<leftarrow> hz_act c i a s; brisk_run c b as s1 } else None)"

lemma brisk_run_reach: "brisk_run c b as s = Some t \<Longrightarrow> hz_reach c b s \<Longrightarrow> hz_reach c b t"
  by (induction c b as s rule: brisk_run.induct)
    (auto split: if_splits option.splits simp: bind_eq_Some_conv intro: reach_step)

definition barrier_example :: "(nat \<times> hz_action) list" where
  "barrier_example =
     [(0, Publish 0 64), (0, Fence 0), (0, Validate 0), (1, Detach 64), (1, Stamp 64), (1, Start_scan)] @
     replicate 6 (1, Scan_step)"

definition cadence_example :: "(nat \<times> hz_action) list" where
  "cadence_example =
     [(0, Publish 0 64), (0, Validate 0), (1, Detach 64), (1, Stamp 64)] @ replicate 150 (0, Tick) @ [(0, Flush)] @
     replicate 40 (0, Tick) @ [(1, Start_scan)] @ replicate 5 (1, Scan_step) @ replicate 20 (0, Tick) @
     [(1, Scan_step)]"

lemma run_example:
  assumes "case brisk_run c b as (hz_start 2 [64] []) of None \<Rightarrow> False
    | Some s \<Rightarrow> slots s ! 0 = Protected 64 \<and> length (slots s) = 4 \<and> hz_pc (hz_threads s ! 1) = Hz_sweep \<and>
        map fst (waiting (hz_threads s ! 1)) = [64]"
  obtains s where "hz_reach c b s" "slots s ! 0 = Protected 64" "0 < length (slots s)"
    "hz_pc (hz_threads s ! 1) = Hz_sweep" "map fst (waiting (hz_threads s ! 1)) = [64]"
proof -
  obtain s where s: "brisk_run c b as (hz_start 2 [64] []) = Some s" "slots s ! 0 = Protected 64" "length (slots s) = 4"
    "hz_pc (hz_threads s ! 1) = Hz_sweep" "map fst (waiting (hz_threads s ! 1)) = [64]"
    using assms by (auto split: option.splits)
  have "hz_reach c b s" by (rule brisk_run_reach [OF s(1)]) (simp add: reach_start)
  then show ?thesis using s by (intro that [of s]) simp_all
qed

lemma hazard_protocol_safe_witness:
  "\<exists>s. hz_reach \<lparr>fences = True, ages = False, drain = 1\<rparr> None s \<and> map fst (waiting (hz_threads s ! 1)) = [64] \<and>
     hz_pc (hz_threads s ! 1) = Hz_sweep \<and> slots s ! 0 = Protected 64 \<and> 64 \<notin> set (freed s)"
proof -
  let ?c = "\<lparr>fences = True, ages = False, drain = 1\<rparr>"
  have "case brisk_run ?c None barrier_example (hz_start 2 [64] []) of None \<Rightarrow> False
    | Some s \<Rightarrow> slots s ! 0 = Protected 64 \<and> length (slots s) = 4 \<and> hz_pc (hz_threads s ! 1) = Hz_sweep \<and>
        map fst (waiting (hz_threads s ! 1)) = [64]"
    by code_simp
  then obtain s where s: "hz_reach ?c None s" "slots s ! 0 = Protected 64" "0 < length (slots s)"
    "hz_pc (hz_threads s ! 1) = Hz_sweep" "map fst (waiting (hz_threads s ! 1)) = [64]" by (rule run_example)
  have "64 \<notin> set (freed s)" by (rule hazard_protocol_safe [OF s(1) _ s(3,2)]) simp
  then show ?thesis using s(1,2,4,5) by (intro exI [of _ s] conjI)
qed


end
