(* ===== verification/Limbo.thy ===== *)
theory Limbo
  imports Smr_No_Membar
begin

text \<open>
  The limbo lists of the hybrid schemes: several doubly linked lists side by side, swept one
  after the other by a scan, emptied one at a time by a quiescent state. Shared by
  \<open>Hybrid\<close> and \<open>Hybrid_Lazy\<close>.
\<close>

section \<open>The code\<close>

text \<open>The outer loop of a scan, over the epochs, with the running count of kept nodes.\<close>

fun limbo_sweeps ::
  "(ptr \<Rightarrow> 'a mem_scheme \<Rightarrow> (bool \<times> 'a mem_scheme) option) \<Rightarrow> nat \<Rightarrow> nat \<Rightarrow> 'b::len word \<Rightarrow>
   double_llist list \<Rightarrow> 'a mem_scheme \<Rightarrow> (double_llist list \<times> 'b word \<times> 'a mem_scheme) option" where
  "limbo_sweeps keep 0 j rc Ls m = Some (Ls, rc, m)"
| "limbo_sweeps keep (Suc n) j rc Ls m = do {
     (rl, rc', m1) \<leftarrow> sweep_loop keep (Ls ! j) init rc m;
     limbo_sweeps keep n (Suc j) rc' (Ls[j := rl]) m1
   }"

text \<open>The loop of \<open>process_callbacks\<close> on a doubly linked list.\<close>

partial_function (option) dll_callbacks ::
  "double_llist \<Rightarrow> u64 \<Rightarrow> 'a mem_scheme \<Rightarrow> (double_llist \<times> u64 \<times> 'a mem_scheme) option" where
  "dll_callbacks l num m =
     (if ll_head l \<noteq> NULL then do {
        (n, l', h) \<leftarrow> remove_from_tail l (mrs m);
        m1 \<leftarrow> release n (m\<lparr>mrs := h\<rparr>);
        dll_callbacks l' (num + 1) m1
      } else Some (l, num, m))"

declare dll_callbacks.simps [code]

section \<open>Lists side by side\<close>

definition dlls :: "mr_heap \<Rightarrow> double_llist list \<Rightarrow> ptr list list \<Rightarrow> bool" where
  "dlls h Ls ls \<longleftrightarrow> length Ls = length ls \<and> (\<forall>i < length ls. dll h (Ls ! i) (ls ! i))"

lemma dllsD: "dlls h Ls ls \<Longrightarrow> i < length ls \<Longrightarrow> dll h (Ls ! i) (ls ! i)"
  by (simp add: dlls_def)

lemma concat_upd_set:
  "j < length ls \<Longrightarrow> set (concat (ls[j := xs])) = set (concat (ls[j := []])) \<union> set xs"
  by (induction ls arbitrary: j) (auto split: nat.splits)

lemma concat_sub: "j < length ls \<Longrightarrow> set (ls ! j) \<subseteq> set (concat ls)"
  by (auto simp: set_concat intro: nth_mem)

lemma concat_del_set:
  "distinct (concat ls) \<Longrightarrow> j < length ls \<Longrightarrow> set (concat (ls[j := []])) = set (concat ls) - set (ls ! j)"
proof (induction ls arbitrary: j)
  case (Cons a ls)
  show ?case
  proof (cases j)
    case 0
    then show ?thesis using Cons.prems by auto
  next
    case (Suc i)
    then have i: "i < length ls" and d: "distinct (concat ls)" "set a \<inter> set (concat ls) = {}"
      using Cons.prems by auto
    have "set (ls ! i) \<subseteq> set (concat ls)" by (rule concat_sub [OF i])
    then show ?thesis using Cons.IH [OF d(1) i] d(2) unfolding Suc by (simp add: Un_Diff) blast
  qed
qed simp

lemma concat_upd_distinct:
  "distinct (concat ls) \<Longrightarrow> j < length ls \<Longrightarrow> distinct xs \<Longrightarrow> set xs \<inter> (set (concat ls) - set (ls ! j)) = {} \<Longrightarrow>
   distinct (concat (ls[j := xs]))"
proof (induction ls arbitrary: j)
  case (Cons a ls)
  have d: "distinct a" "distinct (concat ls)" "set a \<inter> set (concat ls) = {}" using Cons.prems(1) by auto
  show ?case
  proof (cases j)
    case 0
    have "set (concat (a # ls)) - set a = set (concat ls)" using d(3) by auto
    then have "set xs \<inter> set (concat ls) = {}" using Cons.prems(4) 0 by simp
    then show ?thesis using d Cons.prems(3) 0 by simp
  next
    case (Suc i)
    have i: "i < length ls" using Cons.prems(2) Suc by simp
    have sub: "set (ls ! i) \<subseteq> set (concat ls)" by (rule concat_sub [OF i])
    have all: "set xs \<inter> (set a \<union> set (concat ls) - set (ls ! i)) = {}" using Cons.prems(4) Suc by simp
    have part: "X \<inter> (A \<union> C - B) = {} \<Longrightarrow> A \<inter> C = {} \<Longrightarrow> B \<subseteq> C \<Longrightarrow> X \<inter> (C - B) = {} \<and> A \<inter> X = {}"
      for X A B C :: "'a set" by blast
    from part [OF all d(3) sub]
    have disj: "set xs \<inter> (set (concat ls) - set (ls ! i)) = {}" "set a \<inter> set xs = {}" by simp_all
    note ih = Cons.IH [OF d(2) i Cons.prems(3) disj(1)]
    have "set (concat (ls[i := xs])) = (set (concat ls) - set (ls ! i)) \<union> set xs"
      using concat_upd_set [OF i, of xs] concat_del_set [OF d(2) i] by (simp only:)
    then have "set a \<inter> set (concat (ls[i := xs])) = {}" using d(3) disj(2) by blast
    then show ?thesis using Suc d(1) ih by simp
  qed
qed simp

lemma concat_length: "j < length ls \<Longrightarrow> length (concat (ls[j := xs])) + length (ls ! j) = length (concat ls) + length xs"
proof (induction ls arbitrary: j)
  case (Cons a ls)
  then show ?case by (cases j) auto
qed simp

lemma concat_disjoint:
  "distinct (concat ls) \<Longrightarrow> i < length ls \<Longrightarrow> j < length ls \<Longrightarrow> i \<noteq> j \<Longrightarrow> set (ls ! j) \<inter> set (ls ! i) = {}"
proof -
  assume d: "distinct (concat ls)" and i: "i < length ls" and j: "j < length ls" and ne: "i \<noteq> j"
  have "ls[j := []] ! i = ls ! i" "i < length (ls[j := []])" using i ne by simp_all
  then have "set (ls ! i) \<subseteq> set (concat (ls[j := []]))" using concat_sub by metis
  then show ?thesis using concat_del_set [OF d j] by auto
qed

lemma concat_upd_sub:
  assumes "distinct (concat ls)" "j < length ls" "set xs \<subseteq> set (ls ! j)" "distinct xs"
  shows "set (concat (ls[j := xs])) = set (concat ls) - (set (ls ! j) - set xs)"
    "distinct (concat (ls[j := xs]))"
proof -
  show "set (concat (ls[j := xs])) = set (concat ls) - (set (ls ! j) - set xs)"
    using concat_upd_set [OF assms(2), of xs] concat_del_set [OF assms(1,2)] concat_sub [OF assms(2)] assms(3)
    by blast
  show "distinct (concat (ls[j := xs]))"
    by (rule concat_upd_distinct [OF assms(1,2,4)]) (use assms(3) in blast)
qed

lemma dlls_upd:
  assumes d: "dlls h Ls ls" and dist: "distinct (concat ls)" and j: "j < length ls"
    and t: "touches (set (ls ! j)) h h'" and l: "dll h' l xs"
  shows "dlls h' (Ls[j := l]) (ls[j := xs])"
proof -
  have "dll h' (Ls ! i) (ls ! i)" if i: "i < length ls" "i \<noteq> j" for i
  proof -
    have "set (ls ! j) \<inter> set (ls ! i) = {}"
      by (rule concat_disjoint [OF dist i(1) j i(2)])
    then show ?thesis using touches_dll [OF t] dllsD [OF d i(1)] by simp
  qed
  then show ?thesis using d l j by (auto simp: dlls_def nth_list_update)
qed

section \<open>What a scan changes\<close>

text \<open>\<open>later m m'\<close>: memory, allocator and clock moved on, the payloads stayed.\<close>

definition later :: "'a mem_scheme \<Rightarrow> 'a mem_scheme \<Rightarrow> bool" where
  "later m m' \<longleftrightarrow> payload (mrs m') = payload (mrs m) \<and>
     (\<exists>no mr al t. tick m \<le> t \<and> m' = m\<lparr>nodes := no, mrs := mr, alloc := al, tick := t\<rparr>)"

lemma laterI:
  "touches S (mrs m) mr \<Longrightarrow> later m (m\<lparr>nodes := no, mrs := mr, alloc := al, tick := tick m + k\<rparr>)"
  unfolding later_def
  by (intro conjI exI [of _ no] exI [of _ mr] exI [of _ al] exI [of _ "tick m + k"]) (simp_all add: touches_payload)

lemma later_refl: "later m m"
  using laterI [where S = "{}" and m = m and mr = "mrs m" and no = "nodes m" and al = "alloc m" and k = 0] by simp

lemma later_trans:
  assumes "later m m1" "later m1 m2"
  shows "later m m2"
proof -
  obtain a b c t where m1: "m1 = m\<lparr>nodes := a, mrs := b, alloc := c, tick := t\<rparr>" "tick m \<le> t"
    using assms(1) unfolding later_def by blast
  obtain a' b' c' t' where m2: "m2 = m1\<lparr>nodes := a', mrs := b', alloc := c', tick := t'\<rparr>" "tick m1 \<le> t'"
    using assms(2) unfolding later_def by blast
  have "m2 = m\<lparr>nodes := a', mrs := b', alloc := c', tick := t'\<rparr>" unfolding m2(1) m1(1) by simp
  moreover have "tick m \<le> t'" using m1 m2(2) by simp
  moreover have "payload (mrs m2) = payload (mrs m)" using assms by (simp add: later_def)
  ultimately show ?thesis unfolding later_def by blast
qed

lemma later_frame:
  assumes "later m m'"
  shows "actual (mrs m') = actual (mrs m)" "created_at (mrs m') = created_at (mrs m)" "HP m' = HP m"
    "clock m' = clock m" "tick m \<le> tick m'" "protected m' = protected m" "hazards m' = hazards m"
    "seen_old m' w \<Longrightarrow> seen_old m w" "seen_young m' w \<Longrightarrow> seen_young m w"
proof -
  obtain no mr al t where m': "m' = m\<lparr>nodes := no, mrs := mr, alloc := al, tick := t\<rparr>" "tick m \<le> t"
    and p: "payload (mrs m') = payload (mrs m)" using assms unfolding later_def by blast
  show act: "actual (mrs m') = actual (mrs m)" and cr: "created_at (mrs m') = created_at (mrs m)"
    by (simp_all add: fun_eq_iff actual_def created_at_def p)
  show f: "HP m' = HP m" "clock m' = clock m" "tick m \<le> tick m'" using m' by simp_all
  show h: "hazards m' = hazards m" by (simp add: hazards_def f)
  show "protected m' = protected m" by (simp add: fun_eq_iff protected_def act h)
  show "seen_old m' w \<Longrightarrow> seen_old m w" "seen_young m' w \<Longrightarrow> seen_young m w"
    unfolding seen_old_def seen_young_def cr f(2) using f(3) le_trans by blast+
qed

text \<open>One list swept: \<open>xs\<close> is what is left of it.\<close>

definition swept1 :: "'a mem_scheme \<Rightarrow> ptr list \<Rightarrow> ptr list \<Rightarrow> bool" where
  "swept1 m ws xs \<longleftrightarrow> set xs \<subseteq> set ws \<and>
     (\<forall>w \<in> set xs. protected m w \<or> seen_young m w) \<and>
     (\<forall>w \<in> set ws - set xs. \<not> protected m w \<and> seen_old m w)"

lemma swept1_later: "later m m' \<Longrightarrow> swept1 m' ws xs \<Longrightarrow> swept1 m ws xs"
  unfolding swept1_def using later_frame(6,8,9) [of m m'] by (metis (no_types, lifting))

lemma sweep_one:
  assumes r: "retired m (concat ls @ zs)" and d: "dlls (mrs m) Ls ls" and j: "j < length ls"
    and hz: "set plist = hazards m"
  obtains l' xs m1 where "sweep_loop (young_or_hazard_test plist) (Ls ! j) init (rc :: 'b::len word) m =
      Some (l', rc + of_nat (length xs), m1)"
    "retired m1 (concat (ls[j := xs]) @ zs)" "dlls (mrs m1) (Ls[j := l']) (ls[j := xs])"
    "swept1 m (ls ! j) xs" "later m m1" "distinct xs" "touches (set (ls ! j)) (mrs m) (mrs m1)"
    "nodes m1 = poison (actual (mrs m) ` (set (ls ! j) - set xs)) (nodes m)"
proof -
  let ?ws = "ls ! j" and ?v = "\<lambda>clk t a cr. \<not> old_enough_at (clk t) cr \<or> ssearch plist a"
  have k: "keeps ?v 1 m = unsafe_at m"
    by (intro ext) (simp add: keeps_def unsafe_at_def protected_def hz)
  let ?ks = "kept (unsafe_at m) 0 (rev ?ws)" and ?fs = "reclaimed (unsafe_at m) 0 (rev ?ws)"
  have dc: "distinct (concat ls)" using r by (simp add: retired_def)
  have sub: "set ?ws \<subseteq> set (concat ls)" by (rule concat_sub [OF j])
  have dj: "dll (mrs m) (Ls ! j) ?ws" by (rule dllsD [OF d j])
  have dist: "distinct ?ws" by (rule dll_distinct [OF dj])
  have len: "length ?ws + length ([] :: ptr list) < 2 ^ 32" using subset_length [OF r dist, OF order.trans [OF sub]] by simp
  have mapped: "\<forall>w \<in> set ?ws. nodes m (actual (mrs m) w) \<noteq> None" using r sub by (auto simp: retired_def)
  obtain l' h where
    sw: "sweep_loop (young_or_hazard_test plist) (Ls ! j) init rc m = Some (l', rc + of_nat (length ?ks),
       m\<lparr>mrs := h, nodes := poison (actual (mrs m) ` set ?fs) (nodes m),
         alloc := free_pairs (with_actual (mrs m) ?fs) (alloc m), tick := tick m + 1 * length ?ws\<rparr>)"
    and dl: "dll h l' (rev ?ks @ [])" and t: "touches (set ?ws \<union> set []) (mrs m) h"
    by (rule young_keep.sweep_loop_correct [OF dj dll_init _ len mapped refl refl, of plist rc, unfolded k]) simp
  let ?m1 = "m\<lparr>mrs := h, nodes := poison (actual (mrs m) ` set ?fs) (nodes m),
         alloc := free_pairs (with_actual (mrs m) ?fs) (alloc m), tick := tick m + 1 * length ?ws\<rparr>"
  have fs: "set ?ks \<union> set ?fs = set ?ws" "set ?ks \<inter> set ?fs = {}" "distinct ?ks" "distinct ?fs"
    using sweep_set [of "unsafe_at m" 0 "rev ?ws"] sweep_disjoint [of "rev ?ws" "unsafe_at m" 0]
      distinct_kept [of "rev ?ws" "unsafe_at m" 0] distinct_reclaimed [of "rev ?ws" "unsafe_at m" 0] dist
    by simp_all
  have diff: "set ?ws - set (rev ?ks) = set ?fs" using fs(1,2) by auto
  have up: "set (concat (ls[j := rev ?ks])) = set (concat ls) - set ?fs" "distinct (concat (ls[j := rev ?ks]))"
    using concat_upd_sub [OF dc j, of "rev ?ks"] fs unfolding diff by auto
  have dz: "set (concat ls) \<inter> set zs = {}" "distinct zs" using r by (simp_all add: retired_def)
  have "set ?fs \<subseteq> set (concat ls)" using fs(1) sub by blast
  then have up2: "set (concat (ls[j := rev ?ks]) @ zs) = set (concat ls @ zs) - set ?fs"
    "distinct (concat (ls[j := rev ?ks]) @ zs)"
    using up dz unfolding set_append distinct_append by blast+
  have "retired ?m1 (concat (ls[j := rev ?ks]) @ zs)"
    by (rule retired_release [OF r _ fs(4) _ _ _ up2]) (use \<open>set ?fs \<subseteq> set (concat ls)\<close> t in auto)
  moreover have "dlls (mrs ?m1) (Ls[j := l']) (ls[j := rev ?ks])"
    using dlls_upd [OF d dc j, of h l' "rev ?ks"] t dl by simp
  moreover have "swept1 m ?ws (rev ?ks)"
    unfolding swept1_def diff set_rev
    using fs(1) kept_unsafe [of _ m "rev ?ws"] reclaimed_safe [of _ m "rev ?ws"] by blast
  moreover have "later m ?m1" using laterI [where m = m and mr = h and k = "length ?ws"] t by simp
  moreover have "nodes ?m1 = poison (actual (mrs m) ` (set ?ws - set (rev ?ks))) (nodes m)"
    unfolding diff by simp
  moreover have "touches (set ?ws) (mrs m) (mrs ?m1)" using t by simp
  moreover have "length (rev ?ks) = length ?ks" by simp
  ultimately show ?thesis using sw fs(3) by (intro that [of l' "rev ?ks" ?m1]) simp_all
qed

text \<open>The scan of the lists from the \<open>j\<close>-th on.\<close>

lemma limbo_sweeps_ex:
  assumes "retired m (concat ls @ zs)" "dlls (mrs m) Ls ls" "j + n = length ls" "set plist = hazards m"
  shows "\<exists>Ls' ls' m'. limbo_sweeps (young_or_hazard_test plist) n j (rc :: 'b::len word) Ls m =
      Some (Ls', rc + of_nat (length (concat (drop j ls'))), m') \<and>
    retired m' (concat ls' @ zs) \<and> touches (set (concat ls)) (mrs m) (mrs m') \<and> dlls (mrs m') Ls' ls' \<and> length ls' = length ls \<and>
    (\<forall>i < length ls. if i < j then ls' ! i = ls ! i else swept1 m (ls ! i) (ls' ! i)) \<and>
    set (concat ls') \<subseteq> set (concat ls) \<and>
    nodes m' = poison (actual (mrs m) ` (set (concat ls) - set (concat ls'))) (nodes m) \<and> later m m'"
  using assms
proof (induction n arbitrary: j rc Ls ls m)
  case 0
  then show ?case
    by (intro exI [of _ Ls] exI [of _ ls] exI [of _ m]) (simp add: later_refl)
next
  case (Suc n)
  have j: "j < length ls" using Suc.prems(3) by simp
  obtain l' xs m1 where one: "sweep_loop (young_or_hazard_test plist) (Ls ! j) init rc m =
      Some (l', rc + of_nat (length xs), m1)"
    and r1: "retired m1 (concat (ls[j := xs]) @ zs)" and t1: "touches (set (ls ! j)) (mrs m) (mrs m1)" and d1: "dlls (mrs m1) (Ls[j := l']) (ls[j := xs])"
    and s1: "swept1 m (ls ! j) xs" and l1: "later m m1" and dx: "distinct xs"
    and n1: "nodes m1 = poison (actual (mrs m) ` (set (ls ! j) - set xs)) (nodes m)"
    by (rule sweep_one [OF Suc.prems(1,2) j Suc.prems(4)])
  have jn: "Suc j + n = length (ls[j := xs])" "set plist = hazards m1"
    using Suc.prems(3,4) later_frame(7) [OF l1] by simp_all
  from Suc.IH [OF r1 d1 jn, of "rc + of_nat (length xs)"] obtain Ls' ls' m' where
    rest: "limbo_sweeps (young_or_hazard_test plist) n (Suc j) (rc + of_nat (length xs)) (Ls[j := l']) m1 =
      Some (Ls', rc + of_nat (length xs) + of_nat (length (concat (drop (Suc j) ls'))), m')"
    and r2: "retired m' (concat ls' @ zs)" and t2: "touches (set (concat (ls[j := xs]))) (mrs m1) (mrs m')"
    and d2: "dlls (mrs m') Ls' ls'" and len: "length ls' = length ls"
    and sw: "\<forall>i < length ls. if i < Suc j then ls' ! i = ls[j := xs] ! i else swept1 m1 (ls[j := xs] ! i) (ls' ! i)"
    and sub2: "set (concat ls') \<subseteq> set (concat (ls[j := xs]))"
    and n2: "nodes m' = poison (actual (mrs m1) ` (set (concat (ls[j := xs])) - set (concat ls'))) (nodes m1)"
    and l2: "later m1 m'" unfolding length_list_update by blast
  have dc: "distinct (concat ls)" using Suc.prems(1) by (simp add: retired_def)
  have sx: "set xs \<subseteq> set (ls ! j)" using s1 by (simp add: swept1_def)
  have up: "set (concat (ls[j := xs])) = set (concat ls) - (set (ls ! j) - set xs)"
    by (rule concat_upd_sub(1) [OF dc j sx dx])
  have xj: "ls' ! j = xs" using sw j by auto
  have "drop j ls' = xs # drop (Suc j) ls'" using j len xj by (metis Cons_nth_drop_Suc)
  then have cnt: "rc + of_nat (length xs) + of_nat (length (concat (drop (Suc j) ls'))) =
      rc + of_nat (length (concat (drop j ls')))" by (simp add: add.assoc)
  have set_eq: "set (concat ls) - set (concat ls') =
      (set (concat (ls[j := xs])) - set (concat ls')) \<union> (set (ls ! j) - set xs)"
    using up sub2 concat_sub [OF j] by blast
  have "nodes m' = poison (actual (mrs m) ` (set (concat ls) - set (concat ls'))) (nodes m)"
    unfolding n2 n1 later_frame(1) [OF l1] poison_poison set_eq image_Un ..
  moreover have "if i < j then ls' ! i = ls ! i else swept1 m (ls ! i) (ls' ! i)" if i: "i < length ls" for i
  proof -
    consider "i < j" | "i = j" | "j < i" by linarith
    then show ?thesis
    proof cases
      case 1 then show ?thesis using sw i by auto
    next
      case 2 then show ?thesis using s1 xj by simp
    next
      case 3
      have "if i < Suc j then ls' ! i = ls[j := xs] ! i else swept1 m1 (ls[j := xs] ! i) (ls' ! i)"
        using sw i by blast
      then show ?thesis using 3 swept1_later [OF l1] by simp
    qed
  qed
  moreover have "set (concat ls') \<subseteq> set (concat ls)" using sub2 up by blast
  moreover have "later m m'" by (rule later_trans [OF l1 l2])
  moreover have "touches (set (concat ls)) (mrs m) (mrs m')"
    by (rule touches_comp [OF t1 t2]) (use up concat_sub [OF j] in blast)
  ultimately show ?case using one rest r2 d2 len unfolding cnt
    by (intro exI [of _ Ls'] exI [of _ ls'] exI [of _ m']) simp
qed

text \<open>Emptying a list releases everything in it, oldest first.\<close>

lemma dll_callbacks_ex:
  assumes "dll (mrs m) l ws" "\<forall>w \<in> set ws. nodes m (actual (mrs m) w) \<noteq> None"
  shows "\<exists>l' h. dll_callbacks l num m = Some (l', num + of_nat (length ws),
      m\<lparr>nodes := poison (actual (mrs m) ` set ws) (nodes m), mrs := h,
        alloc := free_pairs (with_actual (mrs m) (rev ws)) (alloc m)\<rparr>) \<and>
    dll h l' [] \<and> touches (set ws) (mrs m) h"
  using assms
proof (induction ws arbitrary: l num m rule: rev_induct)
  case Nil
  then have "ll_head l = NULL" using dll_Nil_head by blast
  then show ?case using Nil
    by (intro exI [of _ l] exI [of _ "mrs m"]) (simp add: dll_callbacks.simps with_actual_def)
next
  case (snoc w ws)
  obtain l1 h1 where rm: "remove_from_tail l (mrs m) = Some (w, l1, h1)" and d1: "dll h1 l1 ws"
    and t1: "touches (insert w (set ws)) (mrs m) h1" by (rule remove_from_tail_dll [OF snoc.prems(1)])
  have hd: "ll_head l \<noteq> NULL" using snoc.prems(1) dll_Nil_head by blast
  obtain c where c: "h1 w = Some c"
    using touches_mapped [OF t1, of w] dll_mapped [OF snoc.prems(1), of w] by auto
  have act1: "actual h1 = actual (mrs m)" by (rule touches_actual [OF t1])
  then have cw: "actual_node c = actual (mrs m) w" using c by (metis actual_Some)
  let ?m1 = "m\<lparr>mrs := h1\<rparr>"
  have nn: "nodes ?m1 (actual_node c) \<noteq> None" using snoc.prems(2) cw by simp
  define m2 where "m2 = ?m1\<lparr>nodes := poison {actual_node c} (nodes m), alloc := free_pairs [(w, actual_node c)] (alloc m)\<rparr>"
  have rel: "release w ?m1 = Some m2" using release_eq [of ?m1 w c] c nn by (simp add: m2_def)
  have m2: "mrs m2 = h1" "nodes m2 = poison {actual (mrs m) w} (nodes m)"
    "alloc m2 = free_pairs [(w, actual (mrs m) w)] (alloc m)" by (simp_all add: m2_def cw)
  have "dll (mrs m2) l1 ws" "\<forall>w \<in> set ws. nodes m2 (actual (mrs m2) w) \<noteq> None"
    using d1 snoc.prems(2) by (simp_all add: m2 act1)
  from snoc.IH [OF this, of "num + 1"] obtain l' h where
    ih: "dll_callbacks l1 (num + 1) m2 = Some (l', num + 1 + of_nat (length ws),
      m2\<lparr>nodes := poison (actual (mrs m2) ` set ws) (nodes m2), mrs := h,
        alloc := free_pairs (with_actual (mrs m2) (rev ws)) (alloc m2)\<rparr>)"
    "dll h l' []" "touches (set ws) h1 h" unfolding m2(1) by blast
  have "touches (set (ws @ [w])) (mrs m) h" by (rule touches_comp [OF t1 ih(3)]) auto
  moreover have "m2\<lparr>nodes := no, mrs := h, alloc := al\<rparr> = m\<lparr>nodes := no, mrs := h, alloc := al\<rparr>" for no al
    by (simp add: m2_def)
  moreover have "dll_callbacks l num m = dll_callbacks l1 (num + 1) m2"
    using hd rm rel by (subst dll_callbacks.simps) simp
  ultimately show ?case using ih(1,2)
    by (intro exI [of _ l'] exI [of _ h])
      (simp add: m2 act1 poison_poison with_actual_def add.assoc Un_commute)
qed

text \<open>The wrappers \<open>ws\<close> and their nodes were released; payloads and hazard pointers stayed.\<close>

definition freed :: "'a mem_scheme \<Rightarrow> 'a mem_scheme \<Rightarrow> ptr list \<Rightarrow> bool" where
  "freed m m' ws \<longleftrightarrow> payload (mrs m') = payload (mrs m) \<and> HP m' = HP m \<and>
     nodes m' = poison (actual (mrs m) ` set ws) (nodes m) \<and>
     alloc m' = free_pairs (with_actual (mrs m) ws) (alloc m)"

end
