(* ===== verification/Hybrid.thy ===== *)
theory Hybrid
  imports Limbo
begin

text \<open>
  QSense, src/qsbr_smr_hybrid.c: quiescent states as long as every thread takes part, hazard
  pointers without barriers (with ages) once memory runs out, and back. One thread's view of
  every operation of the file: the fast path (epochs, limbo lists), the fallback path (scan)
  and the switching between the two (\<open>allocate_fail\<close>, \<open>manage_hybrid_state\<close>, the presence vector).
\<close>

section \<open>State\<close>

definition H_EPOCHS :: nat where "H_EPOCHS = 3"

definition SWITCH_THRESHOLD :: int where "SWITCH_THRESHOLD = 10"

text \<open>\<open>struct shared_thread_data\<close>, one per thread.\<close>

record shared_thread_data =
  sh_epoch :: u8
  sh_in_critical :: u8
  sh_present :: u8
  process_callbacks_count :: u64
  scan_count :: u64
  allocate_fail_count :: u64

text \<open>The globals and \<open>struct local_thread_data\<close>. \<open>h_lock\<close>: another thread holds the update lock.
  \<open>h_vlist\<close> is used by the lazy variant only; \<open>nthreads_g\<close> is the global \<open>nthreads_\<close>.\<close>

record hybrid_state = mem +
  fallback :: u8
  present_vect :: "u8 list"
  h_lock :: bool
  h_epoch :: u8
  shtd :: "shared_thread_data list"
  nthreads_g :: u8
  limbo :: "double_llist list"
  h_vlist :: double_llist
  h_rcount :: u64
  h_nthreads :: u8
  h_index :: u8
  last_flag :: u8

definition h_me :: "'a hybrid_state_scheme \<Rightarrow> nat" where
  "h_me s = unat (h_index s)"

definition upd_sh :: "(shared_thread_data \<Rightarrow> shared_thread_data) \<Rightarrow> 'a hybrid_state_scheme \<Rightarrow> 'a hybrid_state_scheme" where
  "upd_sh f s = s\<lparr>shtd := (shtd s)[h_me s := f (shtd s ! h_me s)]\<rparr>"

definition h_H :: "'a hybrid_state_scheme \<Rightarrow> nat" where
  "h_H s = K * unat (h_nthreads s)"

definition h_R :: "'a hybrid_state_scheme \<Rightarrow> nat" where
  "h_R s = 100 + 2 * h_H s"

section \<open>Initialisation\<close>

definition h_init_local :: "u8 \<Rightarrow> u8 \<Rightarrow> 'a hybrid_state_scheme \<Rightarrow> 'a hybrid_state_scheme" where
  "h_init_local ti n s =
     s\<lparr>h_index := ti, h_nthreads := n, h_rcount := 0, last_flag := 0, limbo := replicate H_EPOCHS init\<rparr>"

text \<open>The fields that \<open>malloc\<close> leaves uninitialised are given by \<open>junk\<close>.\<close>

definition h_init_global :: "shared_thread_data \<Rightarrow> u8 \<Rightarrow> 'a hybrid_state_scheme \<Rightarrow> 'a hybrid_state_scheme" where
  "h_init_global junk n s =
     s\<lparr>nthreads_g := n, h_epoch := 1, h_lock := False,
       shtd := replicate (unat n) (junk\<lparr>sh_epoch := 0, sh_in_critical := 1, process_callbacks_count := 0, scan_count := 0\<rparr>),
       HP := replicate (K * unat n) NULL, present_vect := replicate (unat n) 1, fallback := 0\<rparr>"

definition h_reinitialize :: "'a hybrid_state_scheme \<Rightarrow> 'a hybrid_state_scheme" where
  "h_reinitialize s =
     s\<lparr>h_epoch := 1,
       shtd := map (\<lambda>i. if i < unat (h_nthreads s) then (shtd s ! i)\<lparr>sh_epoch := 0\<rparr> else shtd s ! i) [0..<length (shtd s)]\<rparr>"

section \<open>Epochs\<close>

fun h_all_advanced :: "nat \<Rightarrow> nat \<Rightarrow> nat \<Rightarrow> u8 \<Rightarrow> shared_thread_data list \<Rightarrow> bool option" where
  "h_all_advanced 0 i m e ds = Some True"
| "h_all_advanced (Suc n) i m e ds =
     (if i < length ds then
        if sh_in_critical (ds ! i) = 1 \<and> sh_epoch (ds ! i) \<noteq> e \<and> i \<noteq> m then Some False
        else h_all_advanced n (Suc i) m e ds
      else None)"

definition h_update_epoch :: "'a hybrid_state_scheme \<Rightarrow> (bool \<times> 'a hybrid_state_scheme) option" where
  "h_update_epoch s =
     (if h_lock s then Some (False, s)
      else do {
        let curr = h_epoch s;
        ok \<leftarrow> h_all_advanced (unat (h_nthreads s)) 0 (h_me s) curr (shtd s);
        Some (ok, if ok then s\<lparr>h_epoch := of_nat ((unat curr + 1) mod H_EPOCHS)\<rparr> else s)
      })"

text \<open>An epoch beyond the array of limbo lists is a fault.\<close>

definition h_process_callbacks :: "nat \<Rightarrow> 'a hybrid_state_scheme \<Rightarrow> 'a hybrid_state_scheme option" where
  "h_process_callbacks e s =
     (if e < length (limbo s) then do {
        (l, num, s1) \<leftarrow> dll_callbacks (limbo s ! e) 0 s;
        let s2 = upd_sh (\<lambda>t. t\<lparr>process_callbacks_count := process_callbacks_count t + num\<rparr>) s1;
        Some (s2\<lparr>limbo := (limbo s)[e := l], h_rcount := h_rcount s2 - num\<rparr>)
      } else None)"

definition h_enter_epoch :: "'a hybrid_state_scheme \<Rightarrow> 'a hybrid_state_scheme option" where
  "h_enter_epoch s =
     (let e = h_epoch s in
      if sh_epoch (shtd s ! h_me s) \<noteq> e then do {
        s1 \<leftarrow> h_process_callbacks (unat e) s;
        Some (upd_sh (\<lambda>t. t\<lparr>sh_epoch := e\<rparr>) s1)
      } else Some s)"

partial_function (option) h_quiescent_state ::
  "(nat \<Rightarrow> 'a hybrid_state_scheme \<Rightarrow> 'a hybrid_state_scheme) \<Rightarrow> bool \<Rightarrow> nat \<Rightarrow>
   'a hybrid_state_scheme \<Rightarrow> 'a hybrid_state_scheme option" where
  "h_quiescent_state env blocking n s =
     (if h_me s \<ge> length (shtd s) then None
      else if sh_epoch (shtd s ! h_me s) \<noteq> h_epoch s then h_enter_epoch s
      else do {
        let orig = sh_in_critical (shtd s ! h_me s);
        (res, s1) \<leftarrow> h_update_epoch (upd_sh (\<lambda>t. t\<lparr>sh_in_critical := 0\<rparr>) s);
        let s2 = upd_sh (\<lambda>t. t\<lparr>sh_in_critical := orig\<rparr>) s1;
        if res then h_enter_epoch s2
        else if blocking then h_quiescent_state env blocking (Suc n) (env n s2)
        else Some s2
      })"

declare h_quiescent_state.simps [code]

text \<open>\<open>for (i = 0; i < n; i++) quiescent_state(FUZZY);\<close>\<close>

fun h_quiesce :: "nat \<Rightarrow> 'a hybrid_state_scheme \<Rightarrow> 'a hybrid_state_scheme option" where
  "h_quiesce 0 s = Some s"
| "h_quiesce (Suc n) s = do { s1 \<leftarrow> h_quiescent_state (\<lambda>_. id) False 0 s; h_quiesce n s1 }"

section \<open>Scan and retirement\<close>

definition h_scan :: "'a hybrid_state_scheme \<Rightarrow> 'a hybrid_state_scheme option" where
  "h_scan s =
     (if h_me s \<ge> length (shtd s) then None
      else do {
        let s0 = upd_sh (\<lambda>t. t\<lparr>scan_count := scan_count t + 1\<rparr>) s;
        plist \<leftarrow> collect_hps (h_H s0) 0 (HP s0) [];
        (Ls, rc, s1) \<leftarrow> limbo_sweeps (young_or_hazard_test plist) H_EPOCHS 0 0 (limbo s0) s0;
        Some (s1\<lparr>limbo := Ls, h_rcount := rc\<rparr>)
      })"

text \<open>Pushing the node on the limbo list of the thread's own epoch.\<close>

definition h_push :: "ptr \<Rightarrow> 'a hybrid_state_scheme \<Rightarrow> 'a hybrid_state_scheme option" where
  "h_push q s = do {
     (w, s1) \<leftarrow> new_wrapper q s;
     s2 \<leftarrow> stamp w s1;
     let e = unat (sh_epoch (shtd s2 ! h_me s2));
     if h_me s2 < length (shtd s2) \<and> e < length (limbo s2) then do {
       (l, h) \<leftarrow> add_to_head (limbo s2 ! e) w (mrs s2);
       Some (s2\<lparr>mrs := h, limbo := (limbo s2)[e := l], h_rcount := h_rcount s2 + 1\<rparr>)
     } else None
   }"

definition h_free_node_later :: "ptr \<Rightarrow> 'a hybrid_state_scheme \<Rightarrow> 'a hybrid_state_scheme option" where
  "h_free_node_later q s = do {
     s1 \<leftarrow> h_push q s;
     if fallback s1 = 1 \<and> h_rcount s1 \<ge> of_nat (h_R s1) then h_scan s1 else Some s1
   }"

section \<open>Switching\<close>

fun h_present_loop :: "nat \<Rightarrow> nat \<Rightarrow> u8 list \<Rightarrow> bool option" where
  "h_present_loop 0 i v = Some True"
| "h_present_loop (Suc n) i v =
     (if i < length v then if v ! i = 0 then Some False else h_present_loop n (Suc i) v else None)"

definition all_threads_present :: "'a hybrid_state_scheme \<Rightarrow> bool option" where
  "all_threads_present s = h_present_loop (unat (h_nthreads s)) 0 (present_vect s)"

text \<open>Run by one sleeper thread in every period.\<close>

fun h_reset_loop :: "nat \<Rightarrow> nat \<Rightarrow> u8 list \<Rightarrow> u8 list option" where
  "h_reset_loop 0 i v = Some v"
| "h_reset_loop (Suc n) i v = (if i < length v then h_reset_loop n (Suc i) (v[i := 0]) else None)"

definition reset_presence :: "'a hybrid_state_scheme \<Rightarrow> 'a hybrid_state_scheme option" where
  "reset_presence s = do { v \<leftarrow> h_reset_loop (unat (nthreads_g s)) 0 (present_vect s); Some (s\<lparr>present_vect := v\<rparr>) }"

text \<open>\<open>scan\<close> is a parameter: src/hybrid_lazy.c has the same text with another scan.\<close>

definition h_allocate_fail ::
  "('a hybrid_state_scheme \<Rightarrow> 'a hybrid_state_scheme option) \<Rightarrow> int \<Rightarrow>
   'a hybrid_state_scheme \<Rightarrow> 'a hybrid_state_scheme option" where
  "h_allocate_fail scan trials s0 =
     (if h_me s0 \<ge> length (shtd s0) then None
      else let s = upd_sh (\<lambda>t. t\<lparr>allocate_fail_count := allocate_fail_count t + 1\<rparr>) s0;
          flag = fallback s
      in if last_flag s = 1 \<and> flag = 0 then do {
           s1 \<leftarrow> h_quiesce 100 s;
           Some (s1\<lparr>last_flag := 0\<rparr>)
         } else if flag = 1 then do {
           s1 \<leftarrow> scan s;
           Some (s1\<lparr>last_flag := 1\<rparr>)
         } else if flag = 0 \<and> trials \<ge> SWITCH_THRESHOLD then
           scan (s\<lparr>fallback := 1, last_flag := 1\<rparr>)
         else do {
           s1 \<leftarrow> h_quiesce 1 s;
           Some (s1\<lparr>last_flag := 0\<rparr>)
         })"

definition h_manage_hybrid_state :: "'a hybrid_state_scheme \<Rightarrow> 'a hybrid_state_scheme option" where
  "h_manage_hybrid_state s0 =
     (if h_me s0 \<ge> length (present_vect s0) then None
      else let s = s0\<lparr>present_vect := (present_vect s0)[h_me s0 := 1]\<rparr>;
               flag = fallback s
      in if last_flag s = 1 \<and> flag = 0 then do {
           s1 \<leftarrow> h_quiesce 100 s;
           Some (s1\<lparr>last_flag := 0\<rparr>)
         } else if flag = 0 then do {
           s1 \<leftarrow> h_quiesce 1 s;
           Some (s1\<lparr>last_flag := 0\<rparr>)
         } else if flag = 1 then do {
           present \<leftarrow> all_threads_present s;
           s1 \<leftarrow> (if present then h_quiesce 10 (s\<lparr>fallback := 0, last_flag := 0\<rparr>) else Some s);
           Some (s1\<lparr>last_flag := 1\<rparr>)
         } else Some s)"

section \<open>Thread exit\<close>

text \<open>\<open>yield\<close>: the hazard pointers after each \<open>sched_yield\<close>.\<close>

partial_function (option) h_exit_loop ::
  "('a hybrid_state_scheme \<Rightarrow> 'a hybrid_state_scheme option) \<Rightarrow> (nat \<Rightarrow> ptr list \<Rightarrow> ptr list) \<Rightarrow> nat \<Rightarrow>
   'a hybrid_state_scheme \<Rightarrow> 'a hybrid_state_scheme option" where
  "h_exit_loop scan yield retries s =
     (if h_rcount s > 0 \<and> retries < 100 * unat (h_nthreads s) then do {
        s1 \<leftarrow> scan s;
        h_exit_loop scan yield (retries + 1) (s1\<lparr>HP := yield retries (HP s1)\<rparr>)
      } else Some s)"

declare h_exit_loop.simps [code]

definition h_thread_exit ::
  "(nat \<Rightarrow> ptr list \<Rightarrow> ptr list) \<Rightarrow> 'a hybrid_state_scheme \<Rightarrow> 'a hybrid_state_scheme option" where
  "h_thread_exit yield s = do {
     hp \<leftarrow> clear_own_hps (h_me s) 0 K (HP s);
     h_exit_loop h_scan yield 0 (s\<lparr>HP := hp\<rparr>)
   }"

section \<open>Invariant\<close>

text \<open>\<open>ls\<close>: the wrappers in the three limbo lists, newest first; \<open>zs\<close>: other wrappers in use (in the
  verification list of the lazy variant, none here).\<close>

definition h_shape :: "'a hybrid_state_scheme \<Rightarrow> bool" where
  "h_shape s \<longleftrightarrow>
     h_me s < length (shtd s) \<and> length (shtd s) = unat (h_nthreads s) \<and> nthreads_g s = h_nthreads s \<and>
     length (present_vect s) = unat (h_nthreads s) \<and> length (HP s) = K * unat (h_nthreads s) \<and>
     unat (sh_epoch (shtd s ! h_me s)) < 3 \<and> unat (h_epoch s) < 3"

definition h_inv :: "'a hybrid_state_scheme \<Rightarrow> ptr list list \<Rightarrow> ptr list \<Rightarrow> bool" where
  "h_inv s ls zs \<longleftrightarrow> h_shape s \<and> length ls = 3 \<and> dlls (mrs s) (limbo s) ls \<and>
     unat (h_rcount s) = length (concat ls @ zs) \<and> retired s (concat ls @ zs)"

text \<open>What no operation but the switching ones changes; all but the scan of the lazy variant leave
  \<open>h_vlist\<close> alone, too.\<close>

definition h_like :: "'a hybrid_state_scheme \<Rightarrow> 'a hybrid_state_scheme \<Rightarrow> bool" where
  "h_like s s' \<longleftrightarrow> fallback s' = fallback s \<and> last_flag s' = last_flag s \<and> present_vect s' = present_vect s \<and>
     h_lock s' = h_lock s \<and> nthreads_g s' = nthreads_g s \<and> h_nthreads s' = h_nthreads s \<and> h_index s' = h_index s \<and>
     HP s' = HP s \<and> hybrid_state.more s' = hybrid_state.more s \<and> clock s' = clock s \<and>
     length (shtd s') = length (shtd s) \<and> (\<forall>i. i \<noteq> h_me s \<longrightarrow> shtd s' ! i = shtd s ! i) \<and>
     sh_in_critical (shtd s' ! h_me s) = sh_in_critical (shtd s ! h_me s)"

definition h_same :: "'a hybrid_state_scheme \<Rightarrow> 'a hybrid_state_scheme \<Rightarrow> bool" where
  "h_same s s' \<longleftrightarrow> h_like s s' \<and> h_vlist s' = h_vlist s"

lemma h_same_like: "h_same s s' \<Longrightarrow> h_like s s'"
  by (simp add: h_same_def)

lemma h_same_refl [simp]: "h_same s s"
  by (simp add: h_same_def h_like_def)

lemma h_like_refl [simp]: "h_like s s"
  by (simp add: h_like_def)

lemma h_like_me: "h_like s s' \<Longrightarrow> h_me s' = h_me s"
  by (simp add: h_like_def h_me_def)

lemma h_like_trans: "h_like s s1 \<Longrightarrow> h_like s1 s2 \<Longrightarrow> h_like s s2"
  by (simp add: h_like_def h_me_def)

lemma h_same_me: "h_same s s' \<Longrightarrow> h_me s' = h_me s"
  by (simp add: h_same_def h_like_def h_me_def)

lemma h_same_trans: "h_same s s1 \<Longrightarrow> h_same s1 s2 \<Longrightarrow> h_same s s2"
  by (simp add: h_same_def h_like_def h_me_def)

lemma upd_sh_sel [simp]:
  "nodes (upd_sh f s) = nodes s" "mrs (upd_sh f s) = mrs s" "alloc (upd_sh f s) = alloc s" "HP (upd_sh f s) = HP s"
  "clock (upd_sh f s) = clock s" "tick (upd_sh f s) = tick s" "fallback (upd_sh f s) = fallback s"
  "present_vect (upd_sh f s) = present_vect s" "h_lock (upd_sh f s) = h_lock s" "h_epoch (upd_sh f s) = h_epoch s"
  "nthreads_g (upd_sh f s) = nthreads_g s" "limbo (upd_sh f s) = limbo s" "h_vlist (upd_sh f s) = h_vlist s"
  "h_rcount (upd_sh f s) = h_rcount s" "h_nthreads (upd_sh f s) = h_nthreads s" "h_index (upd_sh f s) = h_index s"
  "last_flag (upd_sh f s) = last_flag s" "h_me (upd_sh f s) = h_me s" "length (shtd (upd_sh f s)) = length (shtd s)"
  "hybrid_state.more (upd_sh f s) = hybrid_state.more s"
  by (simp_all add: upd_sh_def h_me_def)

lemma upd_sh_me [simp]: "h_me s < length (shtd s) \<Longrightarrow> shtd (upd_sh f s) ! h_me s = f (shtd s ! h_me s)"
  by (simp add: upd_sh_def)

lemma upd_sh_other [simp]: "i \<noteq> h_me s \<Longrightarrow> shtd (upd_sh f s) ! i = shtd s ! i"
  by (simp add: upd_sh_def)

lemma upd_sh_upd_sh: "h_me s < length (shtd s) \<Longrightarrow> upd_sh f (upd_sh g s) = upd_sh (\<lambda>t. f (g t)) s"
  by (simp add: upd_sh_def h_me_def)

lemma upd_sh_id: "f (shtd s ! h_me s) = shtd s ! h_me s \<Longrightarrow> upd_sh f s = s"
  by (simp add: upd_sh_def)

lemma upd_sh_same:
  "h_me s < length (shtd s) \<Longrightarrow> sh_in_critical (f (shtd s ! h_me s)) = sh_in_critical (shtd s ! h_me s) \<Longrightarrow>
   h_same s (upd_sh f s)"
  by (simp add: h_same_def h_like_def)

lemma upd_sh_inv:
  "h_inv s ls zs \<Longrightarrow> unat (sh_epoch (f (shtd s ! h_me s))) < 3 \<Longrightarrow> h_inv (upd_sh f s) ls zs"
  by (simp add: h_inv_def h_shape_def retired_def wrappers_mapped_def)

lemma h_inv_me: "h_inv s ls zs \<Longrightarrow> h_me s < length (shtd s)"
  by (simp add: h_inv_def h_shape_def)

text \<open>Flags and the presence vector are independent of the lists.\<close>

lemma h_inv_flags [simp]:
  "h_inv (s\<lparr>fallback := f\<rparr>) ls zs = h_inv s ls zs" "h_inv (s\<lparr>last_flag := f\<rparr>) ls zs = h_inv s ls zs"
  "h_inv (s\<lparr>present_vect := (present_vect s)[i := v]\<rparr>) ls zs = h_inv s ls zs"
  by (simp_all add: h_inv_def h_shape_def h_me_def retired_def wrappers_mapped_def)

lemma h_inv_epoch: "h_inv s ls zs \<Longrightarrow> unat g < 3 \<Longrightarrow> h_inv (s\<lparr>h_epoch := g\<rparr>) ls zs"
  by (simp add: h_inv_def h_shape_def h_me_def retired_def wrappers_mapped_def)

section \<open>The scan\<close>

lemma h_collect:
  assumes "h_inv s ls zs"
  obtains plist where "collect_hps (h_H s) 0 (HP s) [] = Some plist" "set plist = hazards s"
  using assms collect_hps_Some [of 0 "h_H s" "HP s" "[]"]
  by (auto simp: h_inv_def h_shape_def h_H_def hazards_def)

lemma swept1_upd_sh [simp]: "swept1 (upd_sh f s) = swept1 s"
  by (simp add: fun_eq_iff swept1_def protected_def hazards_def seen_old_def seen_young_def)

lemma later_hybrid:
  assumes "later s s'"
  shows "h_same s (s'\<lparr>limbo := Ls, h_rcount := rc\<rparr>)" "shtd s' = shtd s" "h_epoch s' = h_epoch s"
proof -
  obtain no mr al t where "s' = s\<lparr>nodes := no, mrs := mr, alloc := al, tick := t\<rparr>"
    using assms unfolding later_def by blast
  then show "h_same s (s'\<lparr>limbo := Ls, h_rcount := rc\<rparr>)" "shtd s' = shtd s" "h_epoch s' = h_epoch s"
    by (simp_all add: h_same_def h_like_def)
qed

lemma h_same_shape:
  "h_same s s' \<Longrightarrow> h_shape s \<Longrightarrow> unat (sh_epoch (shtd s' ! h_me s)) < 3 \<Longrightarrow> unat (h_epoch s') < 3 \<Longrightarrow> h_shape s'"
  using h_same_me [of s s'] by (simp add: h_shape_def h_same_def h_like_def)

lemma h_scan_inv:
  assumes inv: "h_inv s ls []"
  obtains s' ls' where "h_scan s = Some s'" "h_inv s' ls' []" "h_same s s'" "\<forall>i < 3. swept1 s (ls ! i) (ls' ! i)"
    "nodes s' = poison (actual (mrs s) ` (set (concat ls) - set (concat ls'))) (nodes s)"
    "actual (mrs s') = actual (mrs s)" "set (concat ls') \<subseteq> set (concat ls)" "h_epoch s' = h_epoch s"
    "sh_epoch (shtd s' ! h_me s) = sh_epoch (shtd s ! h_me s)" "created_at (mrs s') = created_at (mrs s)"
proof -
  let ?s0 = "upd_sh (\<lambda>t. t\<lparr>scan_count := scan_count t + 1\<rparr>) s"
  have me: "h_me s < length (shtd s)" and sh: "h_shape s" and l3: "length ls = 3"
    and r: "retired s (concat ls)" and d: "dlls (mrs s) (limbo s) ls"
    using inv by (simp_all add: h_inv_def h_shape_def)
  obtain plist where p: "collect_hps (h_H s) 0 (HP s) [] = Some plist" "set plist = hazards s"
    using inv by (rule h_collect)
  have r0: "retired ?s0 (concat ls @ [])" using r by (simp add: retired_def wrappers_mapped_def)
  have pre: "dlls (mrs ?s0) (limbo s) ls" "0 + (3 :: nat) = length ls" "set plist = hazards ?s0"
    using d l3 p(2) by (simp_all add: hazards_def)
  obtain Ls' ls' s1 where
    sw: "limbo_sweeps (young_or_hazard_test plist) 3 0 (0 :: u64) (limbo s) ?s0 =
      Some (Ls', 0 + of_nat (length (concat (drop 0 ls'))), s1)"
    and r1: "retired s1 (concat ls')" and d1: "dlls (mrs s1) Ls' ls'" and l1: "length ls' = length ls"
    and s1: "\<forall>i < length ls. if i < 0 then ls' ! i = ls ! i else swept1 ?s0 (ls ! i) (ls' ! i)"
    and sub: "set (concat ls') \<subseteq> set (concat ls)"
    and n1: "nodes s1 = poison (actual (mrs ?s0) ` (set (concat ls) - set (concat ls'))) (nodes ?s0)"
    and lt: "later ?s0 s1"
    using limbo_sweeps_ex [OF r0 pre, of 0] unfolding append_Nil2 by blast
  let ?s' = "s1\<lparr>limbo := Ls', h_rcount := of_nat (length (concat ls'))\<rparr>"
  note lh = later_hybrid [OF lt]
  have scan: "h_scan s = Some ?s'"
    using me p(1) sw by (simp add: h_scan_def h_H_def H_EPOCHS_def)
  have same: "h_same s ?s'"
    by (rule h_same_trans [OF upd_sh_same lh(1)]) (use me in simp_all)
  have ep: "sh_epoch (shtd ?s' ! h_me s) = sh_epoch (shtd s ! h_me s)" using lh(2) me by simp
  have ge: "h_epoch ?s' = h_epoch s" using lh(3) by simp
  have "h_shape ?s'" by (rule h_same_shape [OF same sh]) (use sh ep ge in \<open>simp_all add: h_shape_def\<close>)
  moreover have "retired ?s' (concat ls')" using r1 by (simp add: retired_def wrappers_mapped_def)
  moreover have "length (concat ls') < 2 ^ LENGTH(64)" using retired_length [OF r1] by simp
  ultimately have "h_inv ?s' ls' []"
    using l1 l3 d1 by (simp add: h_inv_def unat_of_nat_less)
  moreover have "\<forall>i < 3. swept1 s (ls ! i) (ls' ! i)" using s1 l3 by simp
  moreover have "nodes ?s' = poison (actual (mrs s) ` (set (concat ls) - set (concat ls'))) (nodes s)"
    using n1 by simp
  moreover have "actual (mrs ?s') = actual (mrs s)" "created_at (mrs ?s') = created_at (mrs s)"
    using later_frame(1,2) [OF lt] by simp_all
  ultimately show ?thesis using scan same ep ge sub by (intro that [of ?s' ls'])
qed

section \<open>Quiescent states\<close>

lemma freed_retired:
  assumes r: "retired m (concat ls @ zs)" and f: "freed m m' (rev (ls ! e))" and e: "e < length ls"
    and t: "touches S (mrs m) (mrs m')"
  shows "retired m' (concat (ls[e := []]) @ zs)"
proof -
  have d: "distinct (concat ls)" "set (concat ls) \<inter> set zs = {}" "distinct zs" using r by (simp_all add: retired_def)
  have sub: "set (rev (ls ! e)) \<subseteq> set (concat ls @ zs)" using concat_sub [OF e] by auto
  have "distinct (ls ! e)" using d(1) e by (metis distinct_concat_iff nth_mem)
  then have dr: "distinct (rev (ls ! e))" by simp
  have al: "alloc m' = free_pairs (with_actual (mrs m) (rev (ls ! e))) (alloc m)"
    and no: "nodes m' = poison (actual (mrs m) ` set (rev (ls ! e))) (nodes m)"
    using f by (simp_all add: freed_def)
  have "set (concat (ls[e := []])) = set (concat ls) - set (rev (ls ! e))" "distinct (concat (ls[e := []]))"
    using concat_upd_sub [OF d(1) e, of "[]"] by simp_all
  then have "set (concat (ls[e := []]) @ zs) = set (concat ls @ zs) - set (rev (ls ! e))"
    "distinct (concat (ls[e := []]) @ zs)"
    using d(2,3) concat_sub [OF e] unfolding set_append distinct_append set_rev by blast+
  then show ?thesis by (rule retired_release [OF r sub dr t al no])
qed

lemma h_process_callbacks_inv:
  assumes inv: "h_inv s ls zs" and e: "e < 3"
  obtains s' where "h_process_callbacks e s = Some s'" "h_inv s' (ls[e := []]) zs" "h_same s s'"
    "freed s s' (rev (ls ! e))" "h_epoch s' = h_epoch s" "sh_epoch (shtd s' ! h_me s) = sh_epoch (shtd s ! h_me s)"
    "touches (set (concat ls)) (mrs s) (mrs s')"
proof -
  have me: "h_me s < length (shtd s)" and sh: "h_shape s" and l3: "length ls = 3"
    and r: "retired s (concat ls @ zs)" and d: "dlls (mrs s) (limbo s) ls"
    and rc: "unat (h_rcount s) = length (concat ls @ zs)"
    using inv by (simp_all add: h_inv_def h_shape_def)
  have el: "e < length ls" using e l3 by simp
  have de: "dll (mrs s) (limbo s ! e) (ls ! e)" by (rule dllsD [OF d el])
  have dc: "distinct (concat ls)" using r by (simp add: retired_def)
  have mapped: "\<forall>w \<in> set (ls ! e). nodes s (actual (mrs s) w) \<noteq> None"
    using r concat_sub [OF el] by (auto simp: retired_def)
  obtain l' h where
    cb: "dll_callbacks (limbo s ! e) 0 s = Some (l', 0 + of_nat (length (ls ! e)),
      s\<lparr>nodes := poison (actual (mrs s) ` set (ls ! e)) (nodes s), mrs := h,
        alloc := free_pairs (with_actual (mrs s) (rev (ls ! e))) (alloc s)\<rparr>)"
    and l': "dll h l' []" and t: "touches (set (ls ! e)) (mrs s) h"
    using dll_callbacks_ex [OF de mapped, of 0] by blast
  define s1 where "s1 = s\<lparr>nodes := poison (actual (mrs s) ` set (ls ! e)) (nodes s), mrs := h,
        alloc := free_pairs (with_actual (mrs s) (rev (ls ! e))) (alloc s)\<rparr>"
  have f1: "mrs s1 = h" "shtd s1 = shtd s" "h_me s1 = h_me s" "limbo s1 = limbo s" "h_rcount s1 = h_rcount s"
    "h_epoch s1 = h_epoch s" by (simp_all add: s1_def h_me_def)
  let ?num = "of_nat (length (ls ! e)) :: u64"
  let ?s2 = "upd_sh (\<lambda>t. t\<lparr>process_callbacks_count := process_callbacks_count t + ?num\<rparr>) s1"
  let ?s' = "?s2\<lparr>limbo := (limbo s)[e := l'], h_rcount := h_rcount ?s2 - ?num\<rparr>"
  have run: "h_process_callbacks e s = Some ?s'"
    using cb d el unfolding h_process_callbacks_def s1_def by (simp add: dlls_def Let_def)
  have fr: "freed s ?s' (rev (ls ! e))"
    unfolding freed_def by (simp add: f1 touches_payload [OF t]) (simp add: s1_def)
  have ret: "retired ?s' (concat (ls[e := []]) @ zs)" by (rule freed_retired [OF r fr el, of "set (ls ! e)"]) (simp add: f1 t)
  have dl: "dlls h ((limbo s)[e := l']) (ls[e := []])" by (rule dlls_upd [OF d dc el t l'])
  have cl: "length (concat (ls[e := []]) @ zs) + length (ls ! e) = length (concat ls @ zs)"
    using concat_length [OF el, of "[]"] by simp
  have "unat ?num = length (ls ! e)" using cl retired_length [OF r] by (simp add: unat_of_nat_less)
  then have cnt: "unat (h_rcount s - ?num) = length (concat (ls[e := []]) @ zs)"
    using cl rc by (simp add: unat_sub word_le_nat_alt)
  have same: "h_same s ?s'"
    using me f1 by (simp add: h_same_def h_like_def h_me_def) (simp add: s1_def upd_sh_def h_me_def nth_list_update)
  have ep: "sh_epoch (shtd ?s' ! h_me s) = sh_epoch (shtd s ! h_me s)"
    using me f1 upd_sh_me [of s1] by simp
  have "h_shape ?s'" by (rule h_same_shape [OF same sh]) (use sh ep f1 in \<open>simp_all add: h_shape_def\<close>)
  then have "h_inv ?s' (ls[e := []]) zs" using ret dl cnt l3 f1 by (simp add: h_inv_def)
  moreover have "touches (set (concat ls)) (mrs s) (mrs ?s')"
    using touches_mono [OF t concat_sub [OF el]] by (simp add: f1)
  ultimately show ?thesis using run same fr ep f1 by (intro that [of ?s']) simp_all
qed

lemma h_all_advanced_iff:
  "i + n \<le> length ds \<Longrightarrow> h_all_advanced n i m e ds =
   Some (\<forall>k. i \<le> k \<longrightarrow> k < i + n \<longrightarrow> k \<noteq> m \<longrightarrow> sh_in_critical (ds ! k) = 1 \<longrightarrow> sh_epoch (ds ! k) = e)"
proof (induction n arbitrary: i)
  case (Suc n)
  have split: "(\<forall>k. i \<le> k \<longrightarrow> k < i + Suc n \<longrightarrow> P k) \<longleftrightarrow> P i \<and> (\<forall>k. Suc i \<le> k \<longrightarrow> k < Suc i + n \<longrightarrow> P k)" for P
    by (metis Suc_leD Suc_leI add_Suc_right add_Suc_shift leI le_add1 le_antisym le_imp_less_Suc less_Suc_eq_le)
  have "Suc i + n \<le> length ds" using Suc.prems by simp
  from Suc.IH [OF this] Suc.prems show ?case by (subst split) auto
qed simp

text \<open>The lock is free and every other active thread has reached the current epoch.\<close>

definition h_can_advance :: "'a hybrid_state_scheme \<Rightarrow> bool" where
  "h_can_advance s \<longleftrightarrow> \<not> h_lock s \<and>
     (\<forall>k < length (shtd s). k \<noteq> h_me s \<longrightarrow> sh_in_critical (shtd s ! k) = 1 \<longrightarrow> sh_epoch (shtd s ! k) = h_epoch s)"

definition epoch_succ :: "u8 \<Rightarrow> u8" where
  "epoch_succ e = of_nat ((unat e + 1) mod 3)"

lemma epoch_succ_less: "unat (epoch_succ e) < 3"
  by (simp add: epoch_succ_def unat_of_nat take_bit_nat_def)

lemma epoch_succ_neq: "unat e < 3 \<Longrightarrow> epoch_succ e \<noteq> e"
proof
  assume e: "unat e < 3" "epoch_succ e = e"
  have "unat (epoch_succ e) = (unat e + 1) mod 3" by (simp add: epoch_succ_def unat_of_nat take_bit_nat_def)
  with e show False by simp presburger
qed

lemma h_update_epoch_eq:
  assumes "length (shtd s) = unat (h_nthreads s)"
  shows "h_update_epoch s = Some (h_can_advance s, if h_can_advance s then s\<lparr>h_epoch := epoch_succ (h_epoch s)\<rparr> else s)"
  using h_all_advanced_iff [of 0 "unat (h_nthreads s)" "shtd s" "h_me s" "h_epoch s"] assms
  by (cases "h_can_advance s") (auto simp: h_update_epoch_def h_can_advance_def H_EPOCHS_def epoch_succ_def Let_def)

lemma h_can_advance_upd_sh [simp]: "h_can_advance (upd_sh f s) = h_can_advance s"
  by (simp add: h_can_advance_def)

lemma h_quiescent_cases:
  assumes "h_me s < length (shtd s)" "length (shtd s) = unat (h_nthreads s)"
  shows "h_quiescent_state env blocking n s =
    (if sh_epoch (shtd s ! h_me s) \<noteq> h_epoch s then h_enter_epoch s
     else if h_can_advance s then h_enter_epoch (s\<lparr>h_epoch := epoch_succ (h_epoch s)\<rparr>)
     else if blocking then h_quiescent_state env blocking (Suc n) (env n s) else Some s)"
proof -
  let ?s1 = "upd_sh (\<lambda>t. t\<lparr>sh_in_critical := 0\<rparr>) s" and ?g = "epoch_succ (h_epoch s)"
  let ?rst = "\<lambda>t. t\<lparr>sh_in_critical := sh_in_critical (shtd s ! h_me s)\<rparr>"
  have u: "h_update_epoch ?s1 = Some (h_can_advance s, if h_can_advance s then ?s1\<lparr>h_epoch := ?g\<rparr> else ?s1)"
    using h_update_epoch_eq [of ?s1] assms(2) by simp
  have bk: "upd_sh ?rst ?s1 = s" using assms(1) by (simp add: upd_sh_upd_sh upd_sh_id)
  have "upd_sh ?rst (?s1\<lparr>h_epoch := ?g\<rparr>) = (upd_sh ?rst ?s1)\<lparr>h_epoch := ?g\<rparr>"
    by (simp add: upd_sh_def h_me_def)
  then have "upd_sh ?rst (?s1\<lparr>h_epoch := ?g\<rparr>) = s\<lparr>h_epoch := ?g\<rparr>" by (simp add: bk)
  then show ?thesis using assms(1) u bk by (subst h_quiescent_state.simps) (simp add: Let_def)
qed

text \<open>The epoch a thread enters by its quiescent state, if any.\<close>

definition h_next_epoch :: "'a hybrid_state_scheme \<Rightarrow> u8 option" where
  "h_next_epoch s =
     (if sh_epoch (shtd s ! h_me s) \<noteq> h_epoch s then Some (h_epoch s)
      else if h_can_advance s then Some (epoch_succ (h_epoch s)) else None)"

lemma h_enter_epoch_spec:
  assumes inv: "h_inv s ls zs" and ne: "sh_epoch (shtd s ! h_me s) \<noteq> h_epoch s"
  obtains s' where "h_enter_epoch s = Some s'" "h_inv s' (ls[unat (h_epoch s) := []]) zs" "h_same s s'"
    "freed s s' (rev (ls ! unat (h_epoch s)))" "h_epoch s' = h_epoch s" "sh_epoch (shtd s' ! h_me s) = h_epoch s"
    "touches (set (concat ls)) (mrs s) (mrs s')"
proof -
  have e: "unat (h_epoch s) < 3" using inv by (simp add: h_inv_def h_shape_def)
  obtain s1 where s1: "h_process_callbacks (unat (h_epoch s)) s = Some s1" "h_inv s1 (ls[unat (h_epoch s) := []]) zs"
    "h_same s s1" "freed s s1 (rev (ls ! unat (h_epoch s)))" "h_epoch s1 = h_epoch s"
    "sh_epoch (shtd s1 ! h_me s) = sh_epoch (shtd s ! h_me s)" "touches (set (concat ls)) (mrs s) (mrs s1)"
    by (rule h_process_callbacks_inv [OF inv e])
  have m1: "h_me s1 = h_me s" by (rule h_same_me [OF s1(3)])
  have me1: "h_me s1 < length (shtd s1)" using s1(2) by (rule h_inv_me)
  let ?s' = "upd_sh (\<lambda>t. t\<lparr>sh_epoch := h_epoch s\<rparr>) s1"
  have "h_enter_epoch s = Some ?s'" using ne s1(1) by (simp add: h_enter_epoch_def Let_def)
  moreover have "h_inv ?s' (ls[unat (h_epoch s) := []]) zs" by (rule upd_sh_inv [OF s1(2)]) (use e in simp)
  moreover have "h_same s ?s'" by (rule h_same_trans [OF s1(3)]) (rule upd_sh_same [OF me1], simp)
  moreover have "freed s ?s' (rev (ls ! unat (h_epoch s)))" using s1(4) by (simp add: freed_def)
  moreover have "sh_epoch (shtd ?s' ! h_me s) = h_epoch s" using upd_sh_me [OF me1] unfolding m1 by simp
  moreover have "touches (set (concat ls)) (mrs s) (mrs ?s')" using s1(7) by simp
  ultimately show ?thesis using s1(5) by (intro that [of ?s']) simp_all
qed

lemma h_quiescent_spec:
  assumes inv: "h_inv s ls zs" and nx: "h_next_epoch s = Some g"
  obtains s' where "h_quiescent_state env blocking n s = Some s'" "h_inv s' (ls[unat g := []]) zs" "h_same s s'"
    "freed s s' (rev (ls ! unat g))" "h_epoch s' = g" "sh_epoch (shtd s' ! h_me s) = g"
    "touches (set (concat ls)) (mrs s) (mrs s')"
proof (cases "sh_epoch (shtd s ! h_me s) \<noteq> h_epoch s")
  case True
  then have g: "g = h_epoch s" using nx by (simp add: h_next_epoch_def)
  have me: "h_me s < length (shtd s)" "length (shtd s) = unat (h_nthreads s)" using inv by (simp_all add: h_inv_def h_shape_def)
  show ?thesis using h_enter_epoch_spec [OF inv True] that True unfolding g h_quiescent_cases [OF me] by auto
next
  case False
  then have g: "g = epoch_succ (h_epoch s)" and adv: "h_can_advance s"
    using nx by (auto simp: h_next_epoch_def split: if_splits)
  have me: "h_me s < length (shtd s)" "length (shtd s) = unat (h_nthreads s)" and e: "unat (h_epoch s) < 3"
    using inv by (simp_all add: h_inv_def h_shape_def)
  let ?s1 = "s\<lparr>h_epoch := g\<rparr>"
  have m1: "h_me ?s1 = h_me s" "shtd ?s1 = shtd s" "h_epoch ?s1 = g" by (simp_all add: h_me_def)
  have inv1: "h_inv ?s1 ls zs" by (rule h_inv_epoch [OF inv]) (simp add: g epoch_succ_less)
  have ne: "sh_epoch (shtd ?s1 ! h_me ?s1) \<noteq> h_epoch ?s1"
    unfolding m1 using False epoch_succ_neq [OF e] g by auto
  obtain s' where s': "h_enter_epoch ?s1 = Some s'" "h_inv s' (ls[unat g := []]) zs" "h_same ?s1 s'"
    "freed ?s1 s' (rev (ls ! unat g))" "h_epoch s' = g" "sh_epoch (shtd s' ! h_me s) = g"
    "touches (set (concat ls)) (mrs ?s1) (mrs s')"
    using h_enter_epoch_spec [OF inv1 ne] unfolding m1 by blast
  have "h_quiescent_state env blocking n s = Some s'"
    using s'(1) adv False by (simp add: h_quiescent_cases [OF me] g)
  moreover have "h_same s s'" using s'(3) by (simp add: h_same_def h_like_def m1)
  moreover have "freed s s' (rev (ls ! unat g))" using s'(4) by (simp add: freed_def)
  moreover have "touches (set (concat ls)) (mrs s) (mrs s')" using s'(7) by simp
  ultimately show ?thesis using s' by (intro that [of s'])
qed

lemma h_quiet_ok:
  assumes inv: "h_inv s ls zs"
  shows "\<exists>s' ls'. h_quiescent_state env False n s = Some s' \<and> h_inv s' ls' zs \<and> h_same s s' \<and>
    (\<forall>i < 3. ls' ! i = ls ! i \<or> ls' ! i = []) \<and> touches (set (concat ls)) (mrs s) (mrs s')"
proof (cases "h_next_epoch s")
  case None
  have me: "h_me s < length (shtd s)" "length (shtd s) = unat (h_nthreads s)" using inv by (simp_all add: h_inv_def h_shape_def)
  have "h_quiescent_state env False n s = Some s"
    using None h_quiescent_cases [OF me, of env False n] by (auto simp: h_next_epoch_def split: if_splits)
  then show ?thesis using inv by (intro exI [of _ s] exI [of _ ls]) simp
next
  case (Some g)
  obtain s' where s': "h_quiescent_state env False n s = Some s'" "h_inv s' (ls[unat g := []]) zs" "h_same s s'"
    "freed s s' (rev (ls ! unat g))" "h_epoch s' = g" "sh_epoch (shtd s' ! h_me s) = g"
    "touches (set (concat ls)) (mrs s) (mrs s')"
    by (rule h_quiescent_spec [OF inv Some])
  have "ls[unat g := []] ! i = ls ! i \<or> ls[unat g := []] ! i = []" if "i < 3" for i
    using that inv by (cases "i = unat g") (simp_all add: h_inv_def)
  then show ?thesis using s' by blast
qed

section \<open>Switching\<close>

lemma h_present_loop_eq:
  "i + n \<le> length v \<Longrightarrow> h_present_loop n i v = Some (\<forall>k. i \<le> k \<longrightarrow> k < i + n \<longrightarrow> v ! k \<noteq> 0)"
proof (induction n arbitrary: i)
  case (Suc n)
  have "Suc i + n \<le> length v" using Suc.prems by simp
  from Suc.IH [OF this] Suc.prems show ?case
    by (cases "v ! i = 0") (auto, metis Suc_leI le_neq_implies_less)
qed simp

lemma all_threads_present_eq:
  "length (present_vect s) = unat (h_nthreads s) \<Longrightarrow>
   all_threads_present s = Some (\<forall>k < unat (h_nthreads s). present_vect s ! k \<noteq> 0)"
  using h_present_loop_eq [of 0 "unat (h_nthreads s)" "present_vect s"] by (simp add: all_threads_present_def)

lemma h_reset_loop_eq:
  "i + n \<le> length v \<Longrightarrow> h_reset_loop n i v = Some (take i v @ replicate n 0 @ drop (i + n) v)"
proof (induction n arbitrary: i v)
  case (Suc n)
  have "Suc i + n \<le> length (v[i := 0])" using Suc.prems by simp
  moreover have "take (Suc i) (v[i := 0]) = take i v @ [0]"
    using Suc.prems by (simp add: take_Suc_conv_app_nth)
  ultimately show ?case using Suc.IH [of "Suc i" "v[i := 0]"] Suc.prems by simp
qed simp

text \<open>
  The contract under which a scheme switches modes: scans and quiescent states return, keep
  the scheme's invariant and leave flags and presence alone, and the invariant does not depend
  on these.
\<close>

locale switching =
  fixes inv :: "'a hybrid_state_scheme \<Rightarrow> bool"
    and scan :: "'a hybrid_state_scheme \<Rightarrow> 'a hybrid_state_scheme option"
  assumes scan_ok: "inv s \<Longrightarrow> \<exists>s'. scan s = Some s' \<and> inv s' \<and> h_like s s'"
    and quiet_ok: "inv s \<Longrightarrow> \<exists>s'. h_quiescent_state (\<lambda>_. id) False 0 s = Some s' \<and> inv s' \<and> h_like s s'"
    and shape: "inv s \<Longrightarrow> h_shape s"
    and flags: "inv s \<Longrightarrow> inv (s\<lparr>fallback := f\<rparr>)" "inv s \<Longrightarrow> inv (s\<lparr>last_flag := f\<rparr>)"
      "inv s \<Longrightarrow> inv (s\<lparr>present_vect := (present_vect s)[i := b]\<rparr>)"
    and counted: "inv s \<Longrightarrow> inv (upd_sh (\<lambda>t. t\<lparr>allocate_fail_count := c t\<rparr>) s)"
    and hps: "inv s \<Longrightarrow> length hp = length (HP s) \<Longrightarrow> inv (s\<lparr>HP := hp\<rparr>)"
begin

lemma quiesce_ok: "inv s \<Longrightarrow> \<exists>s'. h_quiesce n s = Some s' \<and> inv s' \<and> h_like s s'"
proof (induction n arbitrary: s)
  case (Suc n)
  obtain s1 where s1: "h_quiescent_state (\<lambda>_. id) False 0 s = Some s1" "inv s1" "h_like s s1"
    using quiet_ok [OF Suc.prems] by blast
  obtain s2 where "h_quiesce n s1 = Some s2" "inv s2" "h_like s1 s2" using Suc.IH [OF s1(2)] by blast
  then show ?case using s1 h_like_trans [OF s1(3)] by auto
qed simp

lemma allocate_fail_ok:
  assumes i: "inv s"
  shows "\<exists>s'. h_allocate_fail scan trials s = Some s' \<and> inv s' \<and>
    fallback s' = (if fallback s = 0 \<and> last_flag s \<noteq> 1 \<and> trials \<ge> 10 then 1 else fallback s) \<and>
    last_flag s' = (if fallback s = 1 \<or> fallback s = 0 \<and> last_flag s \<noteq> 1 \<and> trials \<ge> 10 then 1 else 0)"
proof -
  let ?s = "upd_sh (\<lambda>t. t\<lparr>allocate_fail_count := allocate_fail_count t + 1\<rparr>) s"
  have me: "h_me s < length (shtd s)" using shape [OF i] by (simp add: h_shape_def)
  have i0: "inv ?s" by (rule counted [OF i])
  consider (q) "last_flag s = 1" "fallback s = 0" | (f) "fallback s = 1"
    | (sw) "fallback s = 0" "last_flag s \<noteq> 1" "trials \<ge> 10"
    | (n) "\<not> (last_flag s = 1 \<and> fallback s = 0)" "fallback s \<noteq> 1" "\<not> (fallback s = 0 \<and> trials \<ge> 10)" by blast
  then show ?thesis
  proof cases
    case q
    obtain s1 where "h_quiesce 100 ?s = Some s1" "inv s1" "h_like ?s s1" using quiesce_ok [OF i0] by blast
    then show ?thesis using q me flags by (auto simp: h_allocate_fail_def h_like_def)
  next
    case f
    obtain s1 where "scan ?s = Some s1" "inv s1" "h_like ?s s1" using scan_ok [OF i0] by blast
    then show ?thesis using f me flags by (auto simp: h_allocate_fail_def h_like_def)
  next
    case sw
    have "inv (?s\<lparr>fallback := 1, last_flag := 1\<rparr>)" by (intro flags i0)
    from scan_ok [OF this] obtain s1 where "scan (?s\<lparr>fallback := 1, last_flag := 1\<rparr>) = Some s1" "inv s1"
      "h_like (?s\<lparr>fallback := 1, last_flag := 1\<rparr>) s1" by blast
    then show ?thesis using sw me by (auto simp: h_allocate_fail_def h_like_def SWITCH_THRESHOLD_def)
  next
    case n
    obtain s1 where "h_quiesce 1 ?s = Some s1" "inv s1" "h_like ?s s1" using quiesce_ok [OF i0] by blast
    then have "h_allocate_fail scan trials s = Some (s1\<lparr>last_flag := 0\<rparr>)" "inv (s1\<lparr>last_flag := 0\<rparr>)"
      "fallback s1 = fallback s"
      using n me flags by (auto simp: h_allocate_fail_def h_like_def SWITCH_THRESHOLD_def Let_def)
    then show ?thesis using n by auto
  qed
qed

text \<open>Presence as \<open>manage_hybrid_state\<close> sees it, its own bit set.\<close>

lemma manage_ok:
  assumes i: "inv s" and f: "fallback s = 0 \<or> fallback s = 1"
  shows "\<exists>s'. h_manage_hybrid_state s = Some s' \<and> inv s' \<and> present_vect s' = (present_vect s)[h_me s := 1] \<and>
    fallback s' = (if \<forall>k < unat (h_nthreads s). k \<noteq> h_me s \<longrightarrow> present_vect s ! k \<noteq> 0 then 0 else fallback s) \<and>
    last_flag s' = fallback s"
proof -
  let ?s = "s\<lparr>present_vect := (present_vect s)[h_me s := 1]\<rparr>"
  have len: "h_me s < unat (h_nthreads s)" "length (present_vect s) = unat (h_nthreads s)"
    using shape [OF i] by (simp_all add: h_shape_def)
  have i0: "inv ?s" by (rule flags [OF i])
  have h0: "h_me ?s = h_me s" by (simp add: h_me_def)
  have "all_threads_present ?s = Some (\<forall>k < unat (h_nthreads s). (present_vect s)[h_me s := 1] ! k \<noteq> 0)"
    using all_threads_present_eq [of ?s] len by simp
  moreover have "(\<forall>k < unat (h_nthreads s). (present_vect s)[h_me s := 1] ! k \<noteq> 0) \<longleftrightarrow>
      (\<forall>k < unat (h_nthreads s). k \<noteq> h_me s \<longrightarrow> present_vect s ! k \<noteq> 0)" (is "_ \<longleftrightarrow> ?all")
    using len by (auto simp: nth_list_update)
  ultimately have pres: "all_threads_present ?s = Some ?all" by simp
  show ?thesis
  proof (cases "fallback s = 0")
    case True
    define n where "n = (if last_flag s = 1 then 100 else 1 :: nat)"
    obtain s1 where s1: "h_quiesce n ?s = Some s1" "inv s1" "h_like ?s s1" using quiesce_ok [OF i0] by blast
    have "h_manage_hybrid_state s = Some (s1\<lparr>last_flag := 0\<rparr>)"
      using True len s1(1) by (simp add: h_manage_hybrid_state_def n_def Let_def del: h_quiesce.simps One_nat_def split: if_splits)
    then show ?thesis using True s1 flags(2) [OF s1(2), of 0] by (auto simp: h_like_def)
  next
    case False
    then have f1: "fallback s = 1" using f by simp
    show ?thesis
    proof (cases ?all)
      case True
      have "inv (?s\<lparr>fallback := 0, last_flag := 0\<rparr>)" by (intro flags i0)
      from quiesce_ok [OF this] obtain s1 where s1: "h_quiesce 10 (?s\<lparr>fallback := 0, last_flag := 0\<rparr>) = Some s1"
        "inv s1" "h_like (?s\<lparr>fallback := 0, last_flag := 0\<rparr>) s1" by blast
      then have "h_manage_hybrid_state s = Some (s1\<lparr>last_flag := 1\<rparr>)"
        using f1 len pres True by (simp add: h_manage_hybrid_state_def Let_def)
      then show ?thesis using True f1 s1 flags(2) [OF s1(2), of 1] by (auto simp: h_like_def)
    next
      case no: False
      then have "all_threads_present ?s = Some False" unfolding pres by (simp only: option.inject)
      then have "h_manage_hybrid_state s = Some (?s\<lparr>last_flag := 1\<rparr>)"
        using f1 len by (simp add: h_manage_hybrid_state_def Let_def)
      then show ?thesis using no f1 flags(2) [OF i0, of 1] by auto
    qed
  qed
qed

text \<open>The exit loop ends after at most \<open>100 * nthreads\<close> scans, or with nothing left.\<close>

lemma exit_loop_ok:
  assumes "inv s" "\<forall>n hp. length (yield n hp) = length hp"
  shows "\<exists>s'. h_exit_loop scan yield n s = Some s' \<and> inv s' \<and> h_nthreads s' = h_nthreads s"
  using assms
proof (induction "100 * unat (h_nthreads s) - n" arbitrary: n s)
  case 0
  then show ?case by (auto simp: h_exit_loop.simps [of scan yield n s])
next
  case (Suc k)
  show ?case
  proof (cases "h_rcount s > 0")
    case False
    then show ?thesis using Suc.prems by (simp add: h_exit_loop.simps [of scan yield n s])
  next
    case True
    obtain s1 where s1: "scan s = Some s1" "inv s1" "h_like s s1" using scan_ok [OF Suc.prems(1)] by blast
    let ?s2 = "s1\<lparr>HP := yield n (HP s1)\<rparr>"
    have i2: "inv ?s2" by (rule hps [OF s1(2)]) (use Suc.prems(2) in simp)
    have n2: "h_nthreads ?s2 = h_nthreads s" using s1(3) by (simp add: h_like_def)
    have k: "k = 100 * unat (h_nthreads ?s2) - (n + 1)" using Suc.hyps(2) n2 by simp
    from Suc.hyps(1) [OF k i2 Suc.prems(2)] obtain s' where
      "h_exit_loop scan yield (n + 1) ?s2 = Some s'" "inv s'" "h_nthreads s' = h_nthreads s" unfolding n2 by blast
    moreover have "n < 100 * unat (h_nthreads s)" using Suc.hyps(2) by simp
    ultimately show ?thesis using True s1(1) by (subst h_exit_loop.simps) simp
  qed
qed

end

section \<open>Retirement\<close>

lemma dll_cong: "(\<And>x. x \<in> set xs \<Longrightarrow> h' x = h x) \<Longrightarrow> dll h' l xs = dll h l xs"
  using links_cong [of xs h' h NULL NULL] by (simp add: dll_def)

lemma dlls_replace:
  assumes "dlls h Ls ls" "j < length ls" "dll h' l xs"
    and "\<And>i y. i < length ls \<Longrightarrow> i \<noteq> j \<Longrightarrow> y \<in> set (ls ! i) \<Longrightarrow> h' y = h y"
  shows "dlls h' (Ls[j := l]) (ls[j := xs])"
  using assms dll_cong [of "ls ! i" h' h "Ls ! i" for i] by (auto simp: dlls_def nth_list_update)

lemma h_push_inv:
  assumes inv: "h_inv s ls zs" and q: "nodes s q \<noteq> None"
    and room: "fst (ssalloc_alloc 1 (of_nat MR_NODE_SIZE) (alloc s)) \<noteq> NULL"
    and e: "e = unat (sh_epoch (shtd s ! h_me s))"
  obtains w s' where "h_push q s = Some s'" "w \<notin> set (concat ls @ zs)" "h_inv s' (ls[e := w # ls ! e]) zs" "h_same s s'"
    "nodes s' = nodes s" "actual (mrs s') w = q" "created_at (mrs s') w = clock s (tick s)" "shtd s' = shtd s"
    "\<forall>v. v \<noteq> w \<longrightarrow> actual (mrs s') v = actual (mrs s) v \<and> created_at (mrs s') v = created_at (mrs s) v"
    "h_epoch s' = h_epoch s" "tick s' = Suc (tick s)"
    "\<forall>y. y \<noteq> w \<longrightarrow> y \<notin> set (concat ls) \<longrightarrow> mrs s' y = mrs s y"
proof -
  have sh: "h_shape s" and l3: "length ls = 3" and r: "retired s (concat ls @ zs)" and d: "dlls (mrs s) (limbo s) ls"
    and rc: "unat (h_rcount s) = length (concat ls @ zs)" and me: "h_me s < length (shtd s)" and e3: "e < length ls"
    using inv e by (simp_all add: h_inv_def h_shape_def)
  have dc: "distinct (concat ls)" and dz: "set (concat ls) \<inter> set zs = {}" "distinct zs"
    using r by (simp_all add: retired_def)
  have sub: "set (ls ! e) \<subseteq> set (concat ls @ zs)" using concat_sub [OF e3] by auto
  obtain w m1 m2 l h where nw: "new_wrapper q s = Some (w, m1)" and st: "stamp w m1 = Some m2"
    and add: "add_to_head (limbo s ! e) w (mrs m2) = Some (l, h)" and dl: "dll h l (w # ls ! e)"
    and w: "w \<notin> set (concat ls @ zs)" and r2: "retired (m2\<lparr>mrs := h\<rparr>) (w # concat ls @ zs)"
    and fr: "\<forall>y. y \<noteq> w \<longrightarrow> y \<notin> set (ls ! e) \<longrightarrow> h y = mrs s y"
    and act: "actual h w = q" "created_at h w = clock s (tick s)"
    "\<forall>v. v \<noteq> w \<longrightarrow> actual h v = actual (mrs s) v \<and> created_at h v = created_at (mrs s) v"
    and m2: "m2 = s\<lparr>mrs := mrs m2, alloc := alloc m2, tick := Suc (tick s)\<rparr>"
    using push_stamped [OF r dllsD [OF d e3] sub q room] by metis
  obtain a b where m2': "m2 = s\<lparr>mrs := a, alloc := b, tick := Suc (tick s)\<rparr>" using m2 by blast
  have f2: "shtd m2 = shtd s" "h_me m2 = h_me s" "limbo m2 = limbo s" "h_rcount m2 = h_rcount s"
    by (simp_all add: m2' h_me_def)
  let ?s' = "m2\<lparr>mrs := h, limbo := (limbo s)[e := l], h_rcount := h_rcount s + 1\<rparr>"
  have run: "h_push q s = Some ?s'"
    using nw st add me e3 d unfolding h_push_def by (simp add: f2 e [symmetric] dlls_def Let_def)
  have same: "h_same s ?s'" unfolding m2' by (simp add: h_same_def h_like_def)
  have ds: "dlls h ((limbo s)[e := l]) (ls[e := w # ls ! e])"
  proof (rule dlls_replace [OF d e3 dl])
    fix i y assume "i < length ls" "i \<noteq> e" "y \<in> set (ls ! i)"
    then have "y \<notin> set (ls ! e)" "y \<noteq> w"
      using concat_disjoint [OF dc, of i e] e3 w concat_sub [of i ls] by auto
    then show "h y = mrs s y" using fr by blast
  qed
  have sets: "set (concat (ls[e := w # ls ! e])) = insert w (set (concat ls))"
    using concat_upd_set [OF e3, of "w # ls ! e"] concat_del_set [OF dc e3] concat_sub [OF e3] by auto
  have dist: "distinct (concat (ls[e := w # ls ! e]))"
    by (rule concat_upd_distinct [OF dc e3])
      (use w concat_sub [OF e3] dll_distinct [OF dllsD [OF d e3]] in auto)
  have len: "length (concat (ls[e := w # ls ! e])) = Suc (length (concat ls))"
    using concat_length [OF e3, of "w # ls ! e"] by simp
  have "retired ?s' (concat (ls[e := w # ls ! e]) @ zs)"
    using r2 sets dist dz w by (simp add: retired_def wrappers_mapped_def)
  moreover have "unat (h_rcount s + 1) = Suc (length (concat ls @ zs))"
    using rc retired_length [OF r] by (simp add: unat_succ)
  moreover have "h_shape ?s'"
    by (rule h_same_shape [OF same sh]) (use sh in \<open>simp_all add: m2' h_shape_def\<close>)
  ultimately have "h_inv ?s' (ls[e := w # ls ! e]) zs" using ds len l3 by (simp add: h_inv_def)
  moreover have "\<forall>y. y \<noteq> w \<longrightarrow> y \<notin> set (concat ls) \<longrightarrow> mrs ?s' y = mrs s y"
    using fr concat_sub [OF e3] by auto
  ultimately show ?thesis using run w same act by (intro that [of ?s' w]) (simp_all add: m2')
qed

lemma h_inv_hps: "h_inv s ls zs \<Longrightarrow> length hp = length (HP s) \<Longrightarrow> h_inv (s\<lparr>HP := hp\<rparr>) ls zs"
  by (simp add: h_inv_def h_shape_def h_me_def retired_def wrappers_mapped_def)

interpretation hy: switching "\<lambda>s. \<exists>ls. h_inv s ls []" h_scan
proof
  fix s :: "'a hybrid_state_scheme"
  assume "\<exists>ls. h_inv s ls []"
  then obtain ls where inv: "h_inv s ls []" ..
  show "\<exists>s'. h_scan s = Some s' \<and> (\<exists>ls. h_inv s' ls []) \<and> h_like s s'"
    using h_scan_inv [OF inv] h_same_like by metis
  show "\<exists>s'. h_quiescent_state (\<lambda>_. id) False 0 s = Some s' \<and> (\<exists>ls. h_inv s' ls []) \<and> h_like s s'"
    using h_quiet_ok [OF inv] h_same_like by metis
  show "h_shape s" using inv by (simp add: h_inv_def)
  fix f :: u8 show "\<exists>ls. h_inv (s\<lparr>fallback := f\<rparr>) ls []" using inv by auto
next
  fix s :: "'a hybrid_state_scheme" and f :: u8
  assume "\<exists>ls. h_inv s ls []"
  then show "\<exists>ls. h_inv (s\<lparr>last_flag := f\<rparr>) ls []" by simp
next
  fix s :: "'a hybrid_state_scheme" and i and b :: u8
  assume "\<exists>ls. h_inv s ls []"
  then show "\<exists>ls. h_inv (s\<lparr>present_vect := (present_vect s)[i := b]\<rparr>) ls []" by simp
next
  fix s :: "'a hybrid_state_scheme" and c
  assume "\<exists>ls. h_inv s ls []"
  then obtain ls where "h_inv s ls []" ..
  then have "h_inv (upd_sh (\<lambda>t. t\<lparr>allocate_fail_count := c t\<rparr>) s) ls []"
    by (rule upd_sh_inv) (use \<open>h_inv s ls []\<close> in \<open>simp add: h_inv_def h_shape_def\<close>)
  then show "\<exists>ls. h_inv (upd_sh (\<lambda>t. t\<lparr>allocate_fail_count := c t\<rparr>) s) ls []" ..
next
  fix s :: "'a hybrid_state_scheme" and hp :: "ptr list"
  assume "\<exists>ls. h_inv s ls []" "length hp = length (HP s)"
  then show "\<exists>ls. h_inv (s\<lparr>HP := hp\<rparr>) ls []" using h_inv_hps by blast
qed

section \<open>Properties\<close>

text \<open>C35: A scan of src/qsbr_smr_hybrid.c returns without a fault; from each limbo list it releases only
  nodes no published hazard pointer protects and that were old enough when looked at, keeps
  every other one in its list, and leaves \<open>rcount\<close> equal to the number of nodes left.\<close>

theorem hybrid_scan_safe:
  assumes "h_inv s ls []"
  shows "\<exists>s' ls'. h_scan s = Some s' \<and> h_inv s' ls' [] \<and>
    (\<forall>i < 3. set (ls' ! i) \<subseteq> set (ls ! i) \<and>
       (\<forall>w \<in> set (ls' ! i). protected s w \<or> seen_young s w) \<and>
       (\<forall>w \<in> set (ls ! i) - set (ls' ! i). \<not> protected s w \<and> seen_old s w)) \<and>
    nodes s' = poison (actual (mrs s) ` (set (concat ls) - set (concat ls'))) (nodes s)"
proof -
  obtain s' ls' where "h_scan s = Some s'" "h_inv s' ls' []" "h_same s s'" "\<forall>i < 3. swept1 s (ls ! i) (ls' ! i)"
    "nodes s' = poison (actual (mrs s) ` (set (concat ls) - set (concat ls'))) (nodes s)"
    by (rule h_scan_inv [OF assms])
  then show ?thesis by (intro exI [of _ s'] exI [of _ ls']) (simp add: swept1_def)
qed

text \<open>A quiescent state of src/qsbr_smr_hybrid.c releases exactly the limbo list of the epoch the
  thread enters, whatever hazard pointers say; it enters one exactly if it is behind the global
  epoch or can advance it, and changes nothing else otherwise.\<close>

theorem hybrid_quiescent_releases:
  assumes "h_inv s ls []"
  shows "\<exists>s'. h_quiescent_state env False n s = Some s' \<and>
    (case h_next_epoch s of None \<Rightarrow> s' = s
     | Some g \<Rightarrow> h_inv s' (ls[unat g := []]) [] \<and> freed s s' (rev (ls ! unat g)) \<and>
                 sh_epoch (shtd s' ! h_me s) = g \<and> h_epoch s' = g)"
proof (cases "h_next_epoch s")
  case None
  have me: "h_me s < length (shtd s)" "length (shtd s) = unat (h_nthreads s)"
    using assms by (simp_all add: h_inv_def h_shape_def)
  have "h_quiescent_state env False n s = Some s"
    using None h_quiescent_cases [OF me, of env False n] by (auto simp: h_next_epoch_def split: if_splits)
  then show ?thesis by (simp add: None)
next
  case (Some g)
  from h_quiescent_spec [OF assms Some, of env False n] show ?thesis by (auto simp: Some)
qed

lemma unat_h_R: "unat (of_nat (h_R s) :: u64) = h_R s"
proof (rule unat_of_nat_less)
  show "h_R s < 2 ^ LENGTH(64)" using unat_u8_less [of "h_nthreads s"] by (simp add: h_R_def h_H_def K_def)
qed

text \<open>Retiring a node in the hybrid scheme returns while wrappers are available. In the QSBR mode it
  releases nothing; in the fallback mode, afterwards either fewer than R nodes wait or every
  waiting node is protected or was too young during the scan, and only unprotected nodes were
  released.\<close>

theorem hybrid_free_node_later_bound:
  assumes "h_inv s ls []" "nodes s q \<noteq> None"
    and "fst (ssalloc_alloc 1 (of_nat MR_NODE_SIZE) (alloc s)) \<noteq> NULL"
  shows "\<exists>s' ls' F. h_free_node_later q s = Some s' \<and> h_inv s' ls' [] \<and>
    nodes s' = poison (actual (mrs s') ` F) (nodes s) \<and> (\<forall>w \<in> F. \<not> protected s' w) \<and>
    (fallback s \<noteq> 1 \<longrightarrow> F = {}) \<and>
    (fallback s = 1 \<longrightarrow> length (concat ls') < h_R s' \<or> (\<forall>w \<in> set (concat ls').
       protected s' w \<or> (\<exists>t > tick s. \<not> old_enough_at (clock s t) (created_at (mrs s') w))))"
proof -
  obtain w s1 where p: "h_push q s = Some s1"
    "h_inv s1 (ls[unat (sh_epoch (shtd s ! h_me s)) := w # ls ! unat (sh_epoch (shtd s ! h_me s))]) []"
    "h_same s s1" "nodes s1 = nodes s" "tick s1 = Suc (tick s)"
    by (rule h_push_inv [OF assms refl])
  let ?ls1 = "ls[unat (sh_epoch (shtd s ! h_me s)) := w # ls ! unat (sh_epoch (shtd s ! h_me s))]"
  have fl: "fallback s1 = fallback s" "clock s1 = clock s" using p(3) by (simp_all add: h_same_def h_like_def)
  show ?thesis
  proof (cases "fallback s1 = 1 \<and> h_rcount s1 \<ge> of_nat (h_R s1)")
    case False
    then have "h_free_node_later q s = Some s1" using p(1) by (auto simp: h_free_node_later_def)
    moreover have "fallback s = 1 \<longrightarrow> length (concat ?ls1) < h_R s1"
    proof
      assume "fallback s = 1"
      then have "h_rcount s1 < of_nat (h_R s1)" using False fl by (simp add: not_le)
      moreover have "unat (h_rcount s1) = length (concat ?ls1)" using p(2) unfolding h_inv_def append_Nil2 by blast
      ultimately show "length (concat ?ls1) < h_R s1" by (simp add: word_less_nat_alt unat_h_R)
    qed
    ultimately show ?thesis using p by (intro exI [of _ s1] exI [of _ ?ls1] exI [of _ "{}"]) simp
  next
    case True
    obtain s' ls' where s': "h_scan s1 = Some s'" "h_inv s' ls' []" "h_same s1 s'"
      "\<forall>i < 3. swept1 s1 (?ls1 ! i) (ls' ! i)"
      "nodes s' = poison (actual (mrs s1) ` (set (concat ?ls1) - set (concat ls'))) (nodes s1)"
      "actual (mrs s') = actual (mrs s1)" "created_at (mrs s') = created_at (mrs s1)"
      by (rule h_scan_inv [OF p(2)])
    have pr: "protected s' = protected s1" using s'(3,6) by (intro protected_cong) (simp_all add: h_same_def h_like_def)
    let ?F = "set (concat ?ls1) - set (concat ls')"
    have l3: "length ?ls1 = 3" "length ls' = 3" using p(2) s'(2) by (simp_all add: h_inv_def)
    have F: "\<not> protected s' v" if "v \<in> ?F" for v
    proof -
      from that obtain i where i: "i < 3" "v \<in> set (?ls1 ! i)" using l3 by (fastforce simp: in_set_conv_nth)
      moreover have "v \<notin> set (ls' ! i)" using that concat_sub [of i ls'] i(1) l3 by auto
      ultimately show ?thesis using s'(4) unfolding swept1_def pr by blast
    qed
    have Kp: "protected s' v \<or> (\<exists>t > tick s. \<not> old_enough_at (clock s t) (created_at (mrs s') v))"
      if "v \<in> set (concat ls')" for v
    proof -
      from that obtain i where "i < 3" "v \<in> set (ls' ! i)" using l3 by (fastforce simp: in_set_conv_nth)
      then have "protected s1 v \<or> seen_young s1 v" using s'(4) unfolding swept1_def by blast
      then show ?thesis unfolding pr s'(7) seen_young_def fl(2) p(5) by (auto simp: Suc_le_eq)
    qed
    have "h_free_node_later q s = Some s'" using p(1) True s'(1) by (simp add: h_free_node_later_def)
    moreover have "nodes s' = poison (actual (mrs s') ` ?F) (nodes s)" unfolding s'(5,6) p(4) ..
    moreover have "fallback s = 1" using True fl by simp
    ultimately show ?thesis using s'(2) F Kp by (intro exI [of _ s'] exI [of _ ls'] exI [of _ ?F]) simp
  qed
qed

text \<open>\<open>manage_hybrid_state\<close> of src/qsbr_smr_hybrid.c always returns, sets the thread's own presence
  bit and leaves the fallback mode exactly if every other thread has set its bit; it never
  enters it. Its \<open>last_flag\<close> afterwards is the mode it found, so that the call after the switch
  back runs the hundred quiescent states again.\<close>

theorem hybrid_manage_switches:
  assumes "h_inv s ls []" "fallback s = 0 \<or> fallback s = 1"
  shows "\<exists>s' ls'. h_manage_hybrid_state s = Some s' \<and> h_inv s' ls' [] \<and>
    present_vect s' = (present_vect s)[h_me s := 1] \<and>
    fallback s' = (if \<forall>k < unat (h_nthreads s). k \<noteq> h_me s \<longrightarrow> present_vect s ! k \<noteq> 0 then 0 else fallback s) \<and>
    last_flag s' = fallback s"
proof -
  have *: "\<exists>ls. h_inv s ls []" using assms(1) ..
  from hy.manage_ok [OF * assms(2)] show ?thesis by blast
qed

lemma reset_presence_spec:
  assumes "h_inv s ls zs"
  shows "reset_presence s = Some (s\<lparr>present_vect := replicate (unat (h_nthreads s)) 0\<rparr>)"
    "h_inv (s\<lparr>present_vect := replicate (unat (h_nthreads s)) 0\<rparr>) ls zs"
proof -
  have len: "length (present_vect s) = unat (h_nthreads s)" "nthreads_g s = h_nthreads s" "h_me s < unat (h_nthreads s)"
    using assms by (simp_all add: h_inv_def h_shape_def)
  show "reset_presence s = Some (s\<lparr>present_vect := replicate (unat (h_nthreads s)) 0\<rparr>)"
    using h_reset_loop_eq [of 0 "unat (h_nthreads s)" "present_vect s"] len by (simp add: reset_presence_def)
  show "h_inv (s\<lparr>present_vect := replicate (unat (h_nthreads s)) 0\<rparr>) ls zs"
    using assms len by (simp add: h_inv_def h_shape_def h_me_def retired_def wrappers_mapped_def)
qed

lemma manage_absent:
  assumes "h_inv s ls []" "fallback s = 1" "k < unat (h_nthreads s)" "k \<noteq> h_me s" "present_vect s ! k = 0"
  shows "\<exists>s'. h_manage_hybrid_state s = Some s' \<and> fallback s' = 1"
proof -
  have "\<exists>ls. h_inv s ls []" using assms(1) ..
  from hy.manage_ok [OF this] assms(2) obtain s' where s': "h_manage_hybrid_state s = Some s'"
    "fallback s' = (if \<forall>k < unat (h_nthreads s). k \<noteq> h_me s \<longrightarrow> present_vect s ! k \<noteq> 0 then 0 else fallback s)"
    by auto
  have "\<not> (\<forall>k < unat (h_nthreads s). k \<noteq> h_me s \<longrightarrow> present_vect s ! k \<noteq> 0)" using assms(3-5) by blast
  then have "fallback s' = 1" unfolding s'(2) using assms(2) by (simp only: if_False)
  then show ?thesis using s'(1) by blast
qed

text \<open>After the sleeper thread's \<open>reset_presence\<close>, a thread that is not alone cannot leave the
  fallback mode by itself: \<open>manage_hybrid_state\<close> returns with the flag still set.\<close>

theorem hybrid_reset_presence_holds:
  assumes "h_inv s ls []" "fallback s = 1" "unat (h_nthreads s) > 1"
  shows "\<exists>s1 s'. reset_presence s = Some s1 \<and> h_manage_hybrid_state s1 = Some s' \<and> fallback s' = 1"
proof -
  let ?s1 = "s\<lparr>present_vect := replicate (unat (h_nthreads s)) 0\<rparr>"
  obtain k where k: "k < unat (h_nthreads s)" "k \<noteq> h_me s"
    using assms(3) by (cases "h_me s = 0") (metis One_nat_def zero_neq_one, metis gr0I less_trans zero_less_one)
  have "h_me ?s1 = h_me s" by (simp add: h_me_def)
  then have "\<exists>s'. h_manage_hybrid_state ?s1 = Some s' \<and> fallback s' = 1"
    using manage_absent [OF reset_presence_spec(2) [OF assms(1)], of k] assms(2) k by simp
  then show ?thesis using reset_presence_spec(1) [OF assms(1)] by blast
qed

text \<open>\<open>allocate_fail\<close> of src/qsbr_smr_hybrid.c returns in every mode. It turns the fallback mode on
  exactly when called in the QSBR mode with at least ten failed trials by a thread that knows
  of that mode; it never turns it off; and afterwards \<open>last_flag\<close> is the mode.\<close>

theorem hybrid_allocate_fail_switches:
  assumes "h_inv s ls []" "fallback s = 0 \<or> fallback s = 1"
  shows "\<exists>s' ls'. h_allocate_fail h_scan trials s = Some s' \<and> h_inv s' ls' [] \<and>
    fallback s' = (if fallback s = 0 \<and> last_flag s \<noteq> 1 \<and> trials \<ge> 10 then 1 else fallback s) \<and>
    last_flag s' = fallback s'"
proof -
  have *: "\<exists>ls. h_inv s ls []" using assms(1) ..
  from hy.allocate_fail_ok [OF *, of trials] show ?thesis using assms(2) by fastforce
qed

text \<open>\<open>mr_thread_exit\<close> of src/qsbr_smr_hybrid.c always returns, after at most 100 * nthreads scans,
  with its hazard pointers cleared and its lists consistent.\<close>

theorem hybrid_thread_exit_returns:
  assumes "h_inv s ls []" "\<forall>n hp. length (yield n hp) = length hp"
  shows "\<exists>s' ls'. h_thread_exit yield s = Some s' \<and> h_inv s' ls' []"
proof -
  have me: "h_me s < unat (h_nthreads s)" "length (HP s) = K * unat (h_nthreads s)"
    using assms(1) by (simp_all add: h_inv_def h_shape_def)
  have le: "K * h_me s + 1 < length (HP s)" using me by (simp add: K_def)
  let ?hp = "(HP s)[K * h_me s := NULL, K * h_me s + 1 := NULL]"
  have cl: "clear_own_hps (h_me s) 0 K (HP s) = Some ?hp"
    using le by (simp add: K_def numeral_2_eq_2)
  have "\<exists>ls. h_inv (s\<lparr>HP := ?hp\<rparr>) ls []" using h_inv_hps [OF assms(1), of ?hp] by auto
  from hy.exit_loop_ok [OF this assms(2), of 0] show ?thesis using cl by (auto simp: h_thread_exit_def)
qed

section \<open>Witnesses\<close>

definition ex_h :: "u8 \<Rightarrow> hybrid_state" where
  "ex_h f = \<lparr>nodes = ex_nodes, mrs = ex_mrs, alloc = ex_alloc, HP = [0, 0, 96, 0],
     clock = (\<lambda>_. \<lparr>tv_sec = 10, tv_usec = 100000\<rparr>), tick = 0, fallback = f, present_vect = [1, 1], h_lock = False,
     h_epoch = 1,
     shtd = replicate 2 \<lparr>sh_epoch = 1, sh_in_critical = 1, sh_present = 0, process_callbacks_count = 0,
                         scan_count = 0, allocate_fail_count = 0\<rparr>,
     nthreads_g = 2, limbo = [init, init, ex_list], h_vlist = init, h_rcount = 2, h_nthreads = 2,
     h_index = 0, last_flag = f\<rparr>"

lemma ex_h_sel [simp]:
  "nodes (ex_h f) = ex_nodes" "mrs (ex_h f) = ex_mrs" "alloc (ex_h f) = ex_alloc" "HP (ex_h f) = [0, 0, 96, 0]"
  "fallback (ex_h f) = f" "last_flag (ex_h f) = f" "present_vect (ex_h f) = [1, 1]" "h_me (ex_h f) = 0"
  "h_nthreads (ex_h f) = 2" "h_lock (ex_h f) = False" "h_epoch (ex_h f) = 1" "length (shtd (ex_h f)) = 2"
  "sh_epoch (shtd (ex_h f) ! 0) = 1" "sh_epoch (shtd (ex_h f) ! Suc 0) = 1"
  by (simp_all add: ex_h_def h_me_def)

lemma ex_h_inv: "h_inv (ex_h f) [[], [], [4160, 4096]] []"
proof -
  have "dlls ex_mrs [init, init, ex_list] [[], [], [4160, 4096]]"
    using ex_dll by (auto simp: dlls_def less_Suc_eq)
  then show ?thesis using ex_retired [of "ex_h f"] by (simp add: h_inv_def h_shape_def) (simp add: ex_h_def K_def)
qed

lemma hybrid_scan_safe_witness:
  "\<exists>s' ls'. h_scan (ex_h 1) = Some s' \<and> h_inv s' ls' [] \<and> 4160 \<in> set (ls' ! 2)"
proof -
  from hybrid_scan_safe [OF ex_h_inv [of 1]] obtain s' ls' where
    s': "h_scan (ex_h 1) = Some s'" "h_inv s' ls' []"
    and i: "\<forall>i < 3. set (ls' ! i) \<subseteq> set ([[], [], [4160, 4096]] ! i) \<and>
       (\<forall>w \<in> set (ls' ! i). protected (ex_h 1) w \<or> seen_young (ex_h 1) w) \<and>
       (\<forall>w \<in> set ([[], [], [4160, 4096]] ! i) - set (ls' ! i). \<not> protected (ex_h 1) w \<and> seen_old (ex_h 1) w)" by blast
  have "protected (ex_h 1) 4160" by (simp add: protected_def hazards_def)
  then have "4160 \<in> set (ls' ! 2)" using i [rule_format, of 2] by auto
  then show ?thesis using s' by blast
qed

lemma hybrid_quiescent_releases_witness:
  "\<exists>s'. h_quiescent_state (\<lambda>_. id) False 0 (ex_h 0) = Some s' \<and> h_inv s' [[], [], []] [] \<and> h_epoch s' = 2"
proof -
  have "h_can_advance (ex_h 0)" by (auto simp: h_can_advance_def less_Suc_eq numeral_2_eq_2)
  then have "h_next_epoch (ex_h 0) = Some 2" by (simp add: h_next_epoch_def epoch_succ_def)
  then show ?thesis using hybrid_quiescent_releases [OF ex_h_inv [of 0], of "\<lambda>_. id" 0] by auto
qed

lemma hybrid_free_node_later_bound_witness:
  "\<exists>s'. h_free_node_later 128 (ex_h 0) = Some s' \<and> nodes s' = ex_nodes"
proof -
  have "nodes (ex_h 0) 128 \<noteq> None" "fst (ssalloc_alloc 1 (of_nat MR_NODE_SIZE) (alloc (ex_h 0))) \<noteq> NULL"
    by (simp_all add: ex_nodes_def ex_room')
  from hybrid_free_node_later_bound [OF ex_h_inv this] show ?thesis by auto
qed

lemma hybrid_manage_switches_witness:
  "\<exists>s'. h_manage_hybrid_state (ex_h 1) = Some s' \<and> fallback s' = 0 \<and> last_flag s' = 1"
proof -
  have "\<forall>k < unat (h_nthreads (ex_h 1)). k \<noteq> h_me (ex_h 1) \<longrightarrow> present_vect (ex_h 1) ! k \<noteq> 0"
    by (auto simp: nth_Cons split: nat.splits)
  then show ?thesis using hybrid_manage_switches [OF ex_h_inv [of 1]] by auto
qed

lemma hybrid_reset_presence_holds_witness:
  "\<exists>s1 s'. reset_presence (ex_h 1) = Some s1 \<and> h_manage_hybrid_state s1 = Some s' \<and> fallback s' = 1"
  by (rule hybrid_reset_presence_holds [OF ex_h_inv]) simp_all

lemma hybrid_allocate_fail_switches_witness:
  "\<exists>s'. h_allocate_fail h_scan 10 (ex_h 0) = Some s' \<and> fallback s' = 1 \<and> last_flag s' = 1"
  using hybrid_allocate_fail_switches [OF ex_h_inv [of 0], of 10] by auto

lemma hybrid_thread_exit_returns_witness:
  "\<exists>s' ls'. h_thread_exit (\<lambda>_ hp. hp) (ex_h 1) = Some s' \<and> h_inv s' ls' []"
  by (rule hybrid_thread_exit_returns [OF ex_h_inv]) simp

end
