(* ===== verification/Hybrid_Lazy.thy ===== *)
theory Hybrid_Lazy
  imports Hybrid Smr_Lazy "HOL-Library.Multiset"
begin

text \<open>
  QSense with a verification list, src/hybrid_lazy.c: the epochs, the switching and the exit
  loop of src/qsbr_smr_hybrid.c (theory \<open>Hybrid\<close>) with the rotations of the lazy schemes
  (theory \<open>Rotation\<close>) in the fallback mode.
\<close>

section \<open>State and operations\<close>

record hybrid_lazy = hybrid_state +
  hl_cur :: u64

definition hl_init_local :: "u8 \<Rightarrow> u8 \<Rightarrow> 'a hybrid_lazy_scheme \<Rightarrow> 'a hybrid_lazy_scheme" where
  "hl_init_local ti n s =
     s\<lparr>h_index := ti, h_nthreads := n, h_rcount := 0, last_flag := 0, limbo := replicate H_EPOCHS init,
       h_vlist := init, hl_cur := 0\<rparr>"

definition hl_init_global :: "shared_thread_data \<Rightarrow> u8 \<Rightarrow> 'a hybrid_lazy_scheme \<Rightarrow> 'a hybrid_lazy_scheme" where
  "hl_init_global junk n s =
     s\<lparr>nthreads_g := n, h_epoch := 1, h_lock := False,
       shtd := replicate (unat n) (junk\<lparr>sh_epoch := 0, sh_in_critical := 1, process_callbacks_count := 0, scan_count := 0\<rparr>),
       HP := replicate (K * unat n) NULL, present_vect := replicate (unat n) 1, fallback := 0\<rparr>"

definition hl_reinitialize :: "'a hybrid_lazy_scheme \<Rightarrow> 'a hybrid_lazy_scheme" where
  "hl_reinitialize s = s"

text \<open>The loop of \<open>update_lists\<close> over the epochs.\<close>

fun hl_fill :: "nat \<Rightarrow> nat \<Rightarrow> 'a hybrid_lazy_scheme \<Rightarrow> 'a hybrid_lazy_scheme option" where
  "hl_fill 0 j s = Some s"
| "hl_fill (Suc n) j s =
     (if j < length (limbo s) then do {
        (l, vl, s1) \<leftarrow> fill_vlist is_old_enough (of_nat (h_H s)) (limbo s ! j) (h_vlist s) s;
        hl_fill n (Suc j) (s1\<lparr>limbo := (limbo s)[j := l], h_vlist := vl\<rparr>)
      } else None)"

definition hl_rotation :: "'a hybrid_lazy_scheme \<Rightarrow> 'a hybrid_lazy_scheme option" where
  "hl_rotation s = do {
     (vl, hc, freed, s1) \<leftarrow> rotate_vlist (h_vlist s) (hl_cur s) (of_nat (h_H s)) s;
     Some (s1\<lparr>h_vlist := vl, hl_cur := hc, h_rcount := (if freed then h_rcount s1 - 1 else h_rcount s1)\<rparr>)
   }"

definition hl_update_lists :: "'a hybrid_lazy_scheme \<Rightarrow> 'a hybrid_lazy_scheme option" where
  "hl_update_lists s = do {
     s1 \<leftarrow> hl_fill H_EPOCHS 0 s;
     if ll_size (h_vlist s1) > of_nat (h_H s1) then hl_rotation s1 else Some s1
   }"

definition hl_free_node_later :: "ptr \<Rightarrow> 'a hybrid_lazy_scheme \<Rightarrow> 'a hybrid_lazy_scheme option" where
  "hl_free_node_later q s = do {
     s1 \<leftarrow> h_push q s;
     if fallback s1 = 1 then hl_update_lists s1 else Some s1
   }"

text \<open>The scan sweeps the limbo lists, with ages, and then \<open>vlist\<close>, without.\<close>

definition hl_scan :: "'a hybrid_lazy_scheme \<Rightarrow> 'a hybrid_lazy_scheme option" where
  "hl_scan s =
     (if h_me s \<ge> length (shtd s) then None
      else do {
        let s0 = upd_sh (\<lambda>t. t\<lparr>scan_count := scan_count t + 1\<rparr>) s;
        plist \<leftarrow> collect_hps (h_H s0) 0 (HP s0) [];
        (Ls, rc, s1) \<leftarrow> limbo_sweeps (young_or_hazard_test plist) H_EPOCHS 0 0 (limbo s0) s0;
        (vl, rc', s2) \<leftarrow> sweep_loop (hazard_test plist) (h_vlist s1) init rc (s1\<lparr>limbo := Ls\<rparr>);
        Some (s2\<lparr>h_vlist := vl, h_rcount := rc'\<rparr>)
      })"

text \<open>At exit everything in \<open>vlist\<close> moves to the first limbo list.\<close>

partial_function (option) hl_merge :: "'a hybrid_lazy_scheme \<Rightarrow> 'a hybrid_lazy_scheme option" where
  "hl_merge s =
     (if ll_size (h_vlist s) > 0 then do {
        (w, vl, h) \<leftarrow> remove_from_tail (h_vlist s) (mrs s);
        (l, h') \<leftarrow> add_to_head (limbo s ! 0) w h;
        hl_merge (s\<lparr>mrs := h', limbo := (limbo s)[0 := l], h_vlist := vl\<rparr>)
      } else Some s)"

declare hl_merge.simps [code]

definition hl_thread_exit ::
  "(nat \<Rightarrow> ptr list \<Rightarrow> ptr list) \<Rightarrow> 'a hybrid_lazy_scheme \<Rightarrow> 'a hybrid_lazy_scheme option" where
  "hl_thread_exit yield s = do {
     s1 \<leftarrow> hl_merge s;
     hp \<leftarrow> clear_own_hps (h_me s1) 0 K (HP s1);
     h_exit_loop hl_scan yield 0 (s1\<lparr>HP := hp\<rparr>)
   }"

definition hl_allocate_fail :: "int \<Rightarrow> 'a hybrid_lazy_scheme \<Rightarrow> 'a hybrid_lazy_scheme option" where
  "hl_allocate_fail = h_allocate_fail hl_scan"

definition hl_manage_hybrid_state :: "'a hybrid_lazy_scheme \<Rightarrow> 'a hybrid_lazy_scheme option" where
  "hl_manage_hybrid_state = h_manage_hybrid_state"

section \<open>Invariant\<close>

text \<open>Lists compared as multisets: an element moved from one list to another changes nothing.\<close>

lemma mset_concat_upd: "j < length ls \<Longrightarrow> mset (concat (ls[j := xs])) = mset (concat (ls[j := []])) + mset xs"
  by (induction ls arbitrary: j) (auto split: nat.splits)

lemma mset_concat_nth: "j < length ls \<Longrightarrow> mset (concat ls) = mset (concat (ls[j := []])) + mset (ls ! j)"
  using mset_concat_upd [of j ls "ls ! j"] by simp

lemma retired_mset:
  assumes "mset xs = mset ys" "retired m xs"
  shows "retired m ys"
  using assms mset_eq_setD [OF assms(1)] mset_eq_imp_distinct_iff [OF assms(1)] by (simp add: retired_def)

lemma distinct_map_mset: "mset xs = mset ys \<Longrightarrow> distinct (map f xs) = distinct (map f ys)"
  by (rule mset_eq_imp_distinct_iff) simp

lemma waiting_mset: "mset xs = mset ys \<Longrightarrow> waiting m xs = waiting m ys"
  using mset_eq_setD [of xs ys] by (simp add: waiting_def)

definition hl_inv :: "'a hybrid_lazy_scheme \<Rightarrow> ptr list list \<Rightarrow> ptr list \<Rightarrow> bool" where
  "hl_inv s ls vs \<longleftrightarrow> h_inv s ls vs \<and> dll (mrs s) (h_vlist s) vs \<and> unat (hl_cur s) < h_H s \<and>
     distinct (map (actual (mrs s)) (concat ls @ vs))"

definition hz_mapped :: "'a mem_scheme \<Rightarrow> bool" where
  "hz_mapped m \<longleftrightarrow> (\<forall>p \<in> hazards m. nodes m p \<noteq> None)"

text \<open>Hazard pointer \<open>j\<close> protects \<open>X\<close>.\<close>

definition hl_protects :: "'a hybrid_lazy_scheme \<Rightarrow> ptr list \<Rightarrow> ptr \<Rightarrow> nat \<Rightarrow> bool" where
  "hl_protects s vs X j \<longleftrightarrow> X \<noteq> NULL \<and> j < length (HP s) \<and> HP s ! j = X \<and>
     mark_guard s (unat (hl_cur s)) (length (HP s)) vs X j"

text \<open>What the parts of a retirement keep.\<close>

definition hl_ok ::
  "'a hybrid_lazy_scheme \<Rightarrow> ptr list list \<Rightarrow> ptr list \<Rightarrow> 'a hybrid_lazy_scheme \<Rightarrow> ptr list list \<Rightarrow> ptr list \<Rightarrow> bool" where
  "hl_ok s ls vs s' ls' vs' \<longleftrightarrow>
     hl_inv s' ls' vs' \<and> HP s' = HP s \<and> h_nthreads s' = h_nthreads s \<and> fallback s' = fallback s \<and>
     (hz_mapped s \<longrightarrow> hz_mapped s') \<and> waiting s' (concat ls' @ vs') \<subseteq> waiting s (concat ls @ vs) \<and>
     (\<forall>X j. hl_protects s vs X j \<longrightarrow> hl_protects s' vs' X j \<and> key_at s' X = key_at s X \<and>
        (X \<in> waiting s (concat ls @ vs) \<longrightarrow> X \<in> waiting s' (concat ls' @ vs')))"

lemma hl_ok_refl: "hl_inv s ls vs \<Longrightarrow> hl_ok s ls vs s ls vs"
  by (simp add: hl_ok_def)

lemma hl_okD:
  assumes "hl_ok s ls vs s' ls' vs'" "hl_protects s vs X j"
  shows "hl_protects s' vs' X j" "key_at s' X = key_at s X"
    "X \<in> waiting s (concat ls @ vs) \<Longrightarrow> X \<in> waiting s' (concat ls' @ vs')"
  using assms by (simp_all only: hl_ok_def)

lemma hl_ok_trans:
  assumes a: "hl_ok s ls vs s1 ls1 vs1" and b: "hl_ok s1 ls1 vs1 s2 ls2 vs2"
  shows "hl_ok s ls vs s2 ls2 vs2"
proof -
  have "hl_protects s2 vs2 X j \<and> key_at s2 X = key_at s X \<and>
        (X \<in> waiting s (concat ls @ vs) \<longrightarrow> X \<in> waiting s2 (concat ls2 @ vs2))" if "hl_protects s vs X j" for X j
    using hl_okD [OF a that] hl_okD [OF b hl_okD(1) [OF a that]] by simp
  moreover have "waiting s2 (concat ls2 @ vs2) \<subseteq> waiting s (concat ls @ vs)"
    using a b unfolding hl_ok_def by (elim conjE) (rule order.trans)
  ultimately show ?thesis using a b unfolding hl_ok_def by (simp del: waiting_append)
qed

lemma hl_HP: "hl_inv s ls vs \<Longrightarrow> length (HP s) = h_H s"
  by (simp add: hl_inv_def h_inv_def h_shape_def h_H_def)

lemma unat_hl_H: "unat (of_nat (h_H s) :: u32) = h_H s"
proof (rule unat_of_nat_less)
  show "h_H s < 2 ^ LENGTH(32)" using unat_u8_less [of "h_nthreads s"] by (simp add: h_H_def K_def)
qed

lemma hl_size: "hl_inv s ls vs \<Longrightarrow> ll_size (h_vlist s) > of_nat (h_H s) \<longleftrightarrow> length vs > h_H s"
  by (simp add: word_less_nat_alt unat_hl_H hl_inv_def dll_def)

section \<open>Filling\<close>

lemma hl_fill_one:
  assumes inv: "hl_inv s ls vs" and j: "j < length ls"
  obtains l vl s1 us ps where "fill_vlist is_old_enough (of_nat (h_H s)) (limbo s ! j) (h_vlist s) s = Some (l, vl, s1)"
    "ls ! j = us @ ps"
    "hl_ok s ls vs (s1\<lparr>limbo := (limbo s)[j := l], h_vlist := vl\<rparr>) (ls[j := us]) (ps @ vs)"
    "length vs \<le> Suc (h_H s) \<longrightarrow> length (ps @ vs) \<le> Suc (h_H s)"
proof -
  let ?rest = "concat (ls[j := []])"
  have h: "h_inv s ls vs" and dv: "dll (mrs s) (h_vlist s) vs" and r: "retired s (concat ls @ vs)"
    and d: "dlls (mrs s) (limbo s) ls" and di: "distinct (map (actual (mrs s)) (concat ls @ vs))"
    and l3: "length ls = 3" and sh: "h_shape s"
    using inv by (simp_all add: hl_inv_def h_inv_def)
  have ms: "mset (concat ls @ vs) = mset (ls ! j @ vs @ ?rest)" using mset_concat_nth [OF j] by simp
  have r': "retired s (ls ! j @ vs @ ?rest)" by (rule retired_mset [OF ms r])
  obtain us ps l vl no h' k where
    ws: "ls ! j = us @ ps" and
    fl: "fill_vlist is_old_enough (of_nat (h_H s) :: u32) (limbo s ! j) (h_vlist s) s =
      Some (l, vl, s\<lparr>nodes := no, mrs := h', tick := tick s + k\<rparr>)"
    and dl: "dll h' l us" and dvl: "dll h' vl (ps @ vs)"
    and rt: "retired (s\<lparr>nodes := no, mrs := h'\<rparr>) (ls ! j @ vs @ ?rest)"
    and t: "touches (set (ls ! j) \<union> set vs) (mrs s) h'"
    and mk: "\<forall>x. marked (s\<lparr>nodes := no\<rparr>) x \<longleftrightarrow> marked s x \<or> x \<in> actual (mrs s) ` set ps"
    and ky: "\<forall>x. key_at (s\<lparr>nodes := no\<rparr>) x = key_at s x"
    and len: "length vs \<le> Suc (unat (of_nat (h_H s) :: u32)) \<longrightarrow> length (ps @ vs) \<le> Suc (unat (of_nat (h_H s) :: u32))"
    using age.fill_ex [OF dllsD [OF d j] dv r', of "of_nat (h_H s)"] by (elim exE conjE) (rule that)
  let ?s1 = "s\<lparr>nodes := no, mrs := h', tick := tick s + k\<rparr>"
  define s' where "s' = ?s1\<lparr>limbo := (limbo s)[j := l], h_vlist := vl\<rparr>"
  have fs: "mrs s' = h'" "HP s' = HP s" "nodes s' = no" "limbo s' = (limbo s)[j := l]" "h_vlist s' = vl"
    "hl_cur s' = hl_cur s" "h_rcount s' = h_rcount s" "h_nthreads s' = h_nthreads s" "fallback s' = fallback s"
    "h_H s' = h_H s"
    by (simp_all add: s'_def h_H_def)
  have act: "actual h' = actual (mrs s)" by (rule touches_actual [OF t])
  have ky': "key_at s' x = key_at s x" for x using ky by (simp add: key_at_def s'_def)
  have mk': "\<forall>x. marked s' x \<longleftrightarrow> marked s x \<or> x \<in> actual (mrs s) ` set ps"
    using mk by (simp add: marked_def s'_def)
  have nn: "nodes s' x = None \<longleftrightarrow> nodes s x = None" for x
    using ky' [of x] key_at_None [of s' x] key_at_None [of s x] by simp
  have ms': "mset (concat ls @ vs) = mset (concat (ls[j := us]) @ ps @ vs)"
    using mset_concat_nth [OF j] mset_concat_upd [OF j, of us] by (simp add: ws)
  have "retired (s\<lparr>nodes := no, mrs := h'\<rparr>) (concat (ls[j := us]) @ ps @ vs)"
    by (rule retired_mset [OF _ rt]) (use ms ms' in simp)
  then have ret: "retired s' (concat (ls[j := us]) @ ps @ vs)" by (simp add: retired_def wrappers_mapped_def s'_def)
  have dls: "dlls h' ((limbo s)[j := l]) (ls[j := us])"
  proof (rule dlls_replace [OF d j dl])
    fix i y assume i: "i < length ls" "i \<noteq> j" "y \<in> set (ls ! i)"
    have "distinct (concat ls)" "set (concat ls) \<inter> set vs = {}" using r by (simp_all add: retired_def)
    then have "y \<notin> set (ls ! j) \<union> set vs"
      using concat_disjoint [of ls i j] concat_sub [OF i(1)] i j by blast
    then show "h' y = mrs s y" using t by (simp add: touches_def)
  qed
  have cnt: "unat (h_rcount s) = length (concat (ls[j := us]) @ ps @ vs)"
    using h mset_eq_length [OF ms'] by (simp add: h_inv_def)
  have "h_shape s'" using sh by (simp add: h_shape_def s'_def h_me_def)
  then have "h_inv s' (ls[j := us]) (ps @ vs)" using ret dls cnt l3 by (simp add: h_inv_def fs)
  moreover have "distinct (map (actual (mrs s')) (concat (ls[j := us]) @ ps @ vs))"
    using iffD1 [OF distinct_map_mset [OF ms'] di] unfolding fs act .
  moreover have "unat (hl_cur s') < h_H s'" using inv by (simp add: hl_inv_def fs)
  ultimately have inv': "hl_inv s' (ls[j := us]) (ps @ vs)" using dvl by (simp add: hl_inv_def fs)
  have pr: "hl_protects s' (ps @ vs) X i" if p: "hl_protects s vs X i" for X i
  proof -
    have g: "mark_guard s (unat (hl_cur s)) (length (HP s)) vs X i" using p by (simp add: hl_protects_def)
    have "mark_guard s' (unat (hl_cur s)) (length (HP s)) (ps @ vs) X i"
      by (rule fill_guard [OF g]) (use mk' in \<open>simp_all add: fs act\<close>)
    then show ?thesis using p by (simp add: hl_protects_def fs)
  qed
  have "waiting s' (concat (ls[j := us]) @ ps @ vs) = waiting s (concat ls @ vs)"
    using waiting_mset [OF ms', of s] waiting_cong [of s' s] by (simp only: fs act)
  then have "hl_ok s ls vs s' (ls[j := us]) (ps @ vs)"
    using inv' pr ky' nn by (simp add: hl_ok_def hz_mapped_def hazards_def fs)
  then show ?thesis using fl ws len unfolding s'_def unat_hl_H by (intro that [of l vl ?s1 us ps])
qed

lemma hl_fill_ok:
  assumes "hl_inv s ls vs" "j + n = 3" "length vs \<le> Suc (h_H s)"
  shows "\<exists>s' ls' vs'. hl_fill n j s = Some s' \<and> hl_ok s ls vs s' ls' vs' \<and> length vs' \<le> Suc (h_H s')"
  using assms
proof (induction n arbitrary: j s ls vs)
  case 0
  then show ?case using hl_ok_refl by (intro exI [of _ s] exI [of _ ls] exI [of _ vs]) simp
next
  case (Suc n)
  have l3: "length ls = 3" "length (limbo s) = 3" using Suc.prems(1) by (simp_all add: hl_inv_def h_inv_def dlls_def)
  then have j: "j < length ls" using Suc.prems(2) by simp
  obtain l vl s1 us ps where
    f: "fill_vlist is_old_enough (of_nat (h_H s)) (limbo s ! j) (h_vlist s) s = Some (l, vl, s1)" "ls ! j = us @ ps"
    and ok: "hl_ok s ls vs (s1\<lparr>limbo := (limbo s)[j := l], h_vlist := vl\<rparr>) (ls[j := us]) (ps @ vs)"
    and len: "length vs \<le> Suc (h_H s) \<longrightarrow> length (ps @ vs) \<le> Suc (h_H s)"
    by (rule hl_fill_one [OF Suc.prems(1) j])
  let ?s1 = "s1\<lparr>limbo := (limbo s)[j := l], h_vlist := vl\<rparr>"
  have "hl_inv ?s1 (ls[j := us]) (ps @ vs)" "h_nthreads ?s1 = h_nthreads s" using ok by (simp_all add: hl_ok_def)
  moreover have "Suc j + n = 3" using Suc.prems(2) by simp
  ultimately obtain s' ls' vs' where "hl_fill n (Suc j) ?s1 = Some s'" "hl_ok ?s1 (ls[j := us]) (ps @ vs) s' ls' vs'"
    "length vs' \<le> Suc (h_H s')"
    using Suc.IH [of ?s1 "ls[j := us]" "ps @ vs" "Suc j"] len Suc.prems(3) by (auto simp: h_H_def)
  then show ?case using f j l3 hl_ok_trans [OF ok]
    by (intro exI [of _ s'] exI [of _ ls'] exI [of _ vs']) auto
qed

section \<open>One rotation, one update\<close>

lemma hl_rotation_ok:
  assumes inv: "hl_inv s ls vs" and big: "h_H s < length vs" and hz: "hz_mapped s"
  obtains s' vs' where "hl_rotation s = Some s'" "hl_ok s ls vs s' ls vs'" "length vs' \<le> length vs"
proof -
  obtain us t where vs: "vs = us @ [t]" using big by (cases vs rule: rev_cases) auto
  let ?H = "of_nat (h_H s) :: u32"
  have H: "unat ?H = length (HP s)" using hl_HP [OF inv] unat_hl_H by metis
  have h: "h_inv s ls vs" and d: "dll (mrs s) (h_vlist s) (us @ [t])" and r: "retired s (concat ls @ us @ [t])"
    and hz': "\<forall>p \<in> hazards s. nodes s p \<noteq> None" and hc: "unat (hl_cur s) < unat ?H" and sh: "h_shape s"
    and ds: "dlls (mrs s) (limbo s) ls" and l3: "length ls = 3" and rc: "unat (h_rcount s) = length (concat ls) + Suc (length us)"
    and di: "distinct (map (actual (mrs s)) (concat ls @ us @ [t]))"
    using inv H hz hl_HP [OF inv] by (simp_all add: hl_inv_def h_inv_def hz_mapped_def vs)
  let ?hp = "HP s ! unat (hl_cur s)" and ?a = "actual (mrs s) t"
  obtain vl' hc' freed m' where
    rot: "rotate_vlist (h_vlist s) (hl_cur s) ?H s = Some (vl', hc', freed, m')"
    and hc': "unat hc' = (unat (hl_cur s) + 1) mod unat ?H"
    and d': "dll (mrs m') vl' (if freed then us else t # us)"
    and r': "retired m' (concat ls @ (if freed then us else t # us))"
    and t: "touches (set (us @ [t])) (mrs s) (mrs m')"
    and m': "m' = s\<lparr>nodes := nodes m', mrs := mrs m', alloc := alloc m'\<rparr>"
    and fr: "freed \<longleftrightarrow> \<not> (marked s ?a \<or> ?hp = ?a \<and> ?hp \<noteq> NULL)"
    and mk: "\<forall>x. marked m' x \<longleftrightarrow> (marked s x \<or> x = ?hp \<and> ?hp \<noteq> NULL) \<and> \<not> (x = ?a \<and> \<not> freed)"
    and ky: "\<forall>x. x \<noteq> ?a \<or> \<not> freed \<longrightarrow> key_at m' x = key_at s x"
    and nn: "\<forall>x. nodes m' x = None \<longleftrightarrow> nodes s x = None"
    by (rule rotate_spec [OF d r hz' hc H [symmetric]])
  obtain a b c where m'': "m' = s\<lparr>nodes := a, mrs := b, alloc := c\<rparr>" using m' by blast
  have fld: "HP m' = HP s" "limbo m' = limbo s" "h_rcount m' = h_rcount s" "h_nthreads m' = h_nthreads s"
    "fallback m' = fallback s" unfolding m'' by simp_all
  let ?vs' = "if freed then us else t # us"
  define s' where "s' = m'\<lparr>h_vlist := vl', hl_cur := hc', h_rcount := (if freed then h_rcount m' - 1 else h_rcount m')\<rparr>"
  have fs: "HP s' = HP s" "limbo s' = limbo s" "h_nthreads s' = h_nthreads s" "fallback s' = fallback s"
    "mrs s' = mrs m'" "nodes s' = nodes m'" "alloc s' = alloc m'" "h_vlist s' = vl'" "hl_cur s' = hc'"
    "h_rcount s' = (if freed then h_rcount s - 1 else h_rcount s)" "h_H s' = h_H s"
    by (simp_all add: s'_def fld h_H_def)
  have act: "actual (mrs s') = actual (mrs s)" unfolding fs by (rule touches_actual [OF t])
  have pos: "0 < length (HP s)" using hc H by linarith
  have dr: "dlls (mrs m') (limbo s) ls"
  proof -
    have "dll (mrs m') (limbo s ! i) (ls ! i)" if i: "i < length ls" for i
    proof -
      have "set (us @ [t]) \<inter> set (ls ! i) = {}" using concat_sub [OF i] r by (auto simp: retired_def)
      then show ?thesis using touches_dll [OF t] dllsD [OF ds i] by simp
    qed
    then show ?thesis using ds by (simp add: dlls_def)
  qed
  have "retired s' (concat ls @ ?vs')" using r' by (simp add: retired_def wrappers_mapped_def fs)
  moreover have "unat (h_rcount s') = length (concat ls @ ?vs')"
    using rc unat_pred [of "h_rcount s" "length (concat ls) + length us"] by (simp add: fs)
  moreover have "h_shape s'" using sh by (simp add: h_shape_def s'_def m'' h_me_def)
  ultimately have "h_inv s' ls ?vs'" using dr l3 by (simp add: h_inv_def fs)
  moreover have "distinct (map (actual (mrs s')) (concat ls @ ?vs'))" using di unfolding act by auto
  moreover have "unat hc' < h_H s" using mod_less_divisor [OF pos] hl_HP [OF inv] unfolding hc' H by simp
  ultimately have inv': "hl_inv s' ls ?vs'" using d' by (simp add: hl_inv_def fs)
  have mks: "marked s' x = marked m' x" "key_at s' x = key_at m' x" for x by (simp_all add: marked_def key_at_def fs)
  have g: "hl_protects s' ?vs' X j \<and> key_at s' X = key_at s X \<and>
      (X \<in> waiting s (concat ls @ vs) \<longrightarrow> X \<in> waiting s' (concat ls @ ?vs'))" if p: "hl_protects s vs X j" for X j
  proof -
    have X: "X \<noteq> NULL" "j < length (HP s)" "HP s ! j = X" and
      gd: "mark_guard s (unat (hl_cur s)) (length (HP s)) (us @ [t]) X j" using p by (simp_all add: hl_protects_def vs)
    have "mark_guard s' ((unat (hl_cur s) + 1) mod length (HP s)) (length (HP s)) ?vs' X j \<and> (freed \<longrightarrow> ?a \<noteq> X)"
    proof (rule rotate_guard [OF X(2) _ _ X(1) _ _ act gd fr])
      show "unat (hl_cur s) < length (HP s)" using hc H by simp
      show "length (HP s) \<le> length us" using big hl_HP [OF inv] by (simp add: vs)
      show "distinct (map (actual (mrs s)) (us @ [t]))" using di by simp
      show "j = unat (hl_cur s) \<Longrightarrow> ?hp = X" using X(3) by simp
      show "marked s' X \<longleftrightarrow> (marked s X \<or> X = ?hp \<and> ?hp \<noteq> NULL) \<and> \<not> (X = ?a \<and> \<not> freed)"
        unfolding mks using mk by blast
    qed
    moreover have "freed \<longrightarrow> ?a \<noteq> X \<Longrightarrow> key_at s' X = key_at s X" using ky unfolding mks by auto
    moreover have "freed \<longrightarrow> ?a \<noteq> X \<Longrightarrow> X \<in> waiting s (concat ls @ vs) \<Longrightarrow> X \<in> waiting s' (concat ls @ ?vs')"
      using waiting_cong [OF act] by (auto simp: vs)
    ultimately show ?thesis using X hc' by (simp add: hl_protects_def fs H)
  qed
  have "waiting s' (concat ls @ ?vs') \<subseteq> waiting s (concat ls @ vs)" using waiting_cong [OF act] by (auto simp: vs)
  moreover have "hz_mapped s'" using hz nn by (simp add: hz_mapped_def hazards_def fs)
  ultimately have "hl_ok s ls vs s' ls ?vs'" using inv' g fs by (simp add: hl_ok_def del: waiting_append)
  then show ?thesis using rot by (intro that [of s' ?vs']) (auto simp: hl_rotation_def s'_def vs)
qed

lemma hl_update_lists_ok:
  assumes inv: "hl_inv s ls vs" and hz: "hz_mapped s" and len: "length vs \<le> Suc (h_H s)"
  obtains s' ls' vs' where "hl_update_lists s = Some s'" "hl_ok s ls vs s' ls' vs'" "length vs' \<le> Suc (h_H s')"
proof -
  obtain s1 ls1 vs1 where s1: "hl_fill 3 0 s = Some s1" "hl_ok s ls vs s1 ls1 vs1" "length vs1 \<le> Suc (h_H s1)"
    using hl_fill_ok [OF inv, of 0 3] len by auto
  have inv1: "hl_inv s1 ls1 vs1" and hz1: "hz_mapped s1" using s1(2) hz by (simp_all add: hl_ok_def)
  show ?thesis
  proof (cases "ll_size (h_vlist s1) > of_nat (h_H s1)")
    case False
    then show ?thesis using s1 by (intro that [of s1 ls1 vs1]) (simp_all add: hl_update_lists_def H_EPOCHS_def)
  next
    case True
    then have "h_H s1 < length vs1" using hl_size [OF inv1] by simp
    then obtain s' vs' where s': "hl_rotation s1 = Some s'" "hl_ok s1 ls1 vs1 s' ls1 vs'" "length vs' \<le> length vs1"
      by (rule hl_rotation_ok [OF inv1 _ hz1])
    have "h_H s' = h_H s1" using s'(2) by (simp add: hl_ok_def h_H_def)
    then show ?thesis using s1 s' True hl_ok_trans [OF s1(2) s'(2)]
      by (intro that [of s' ls1 vs']) (simp_all add: hl_update_lists_def H_EPOCHS_def)
  qed
qed

section \<open>A retirement\<close>

lemma h_same_cur: "h_same s s' \<Longrightarrow> hl_cur s' = hl_cur s"
  by (cases s; cases s') (simp add: h_same_def h_like_def)

lemma hl_push_ok:
  assumes inv: "hl_inv s ls vs" and q: "nodes s q \<noteq> None" "q \<notin> waiting s (concat ls @ vs)"
    and room: "fst (ssalloc_alloc 1 (of_nat MR_NODE_SIZE) (alloc s)) \<noteq> NULL"
  obtains s1 ls1 where "h_push q s = Some s1" "hl_inv s1 ls1 vs" "HP s1 = HP s" "h_nthreads s1 = h_nthreads s"
    "fallback s1 = fallback s" "nodes s1 = nodes s" "waiting s1 (concat ls1 @ vs) = insert q (waiting s (concat ls @ vs))"
    "\<forall>X j. hl_protects s vs X j \<longrightarrow> hl_protects s1 vs X j"
proof -
  let ?e = "unat (sh_epoch (shtd s ! h_me s))"
  let ?ls = "\<lambda>w. ls[?e := w # ls ! ?e]"
  have h: "h_inv s ls vs" and dv: "dll (mrs s) (h_vlist s) vs" and di: "distinct (map (actual (mrs s)) (concat ls @ vs))"
    and cur: "unat (hl_cur s) < h_H s" using inv by (simp_all add: hl_inv_def)
  have e: "?e < length ls" and r: "retired s (concat ls @ vs)" using h by (simp_all add: h_inv_def h_shape_def)
  obtain w s1 where p: "h_push q s = Some s1" "w \<notin> set (concat ls @ vs)" "h_inv s1 (?ls w) vs" "h_same s s1"
    "nodes s1 = nodes s" "actual (mrs s1) w = q" "created_at (mrs s1) w = clock s (tick s)" "shtd s1 = shtd s"
    "\<forall>v. v \<noteq> w \<longrightarrow> actual (mrs s1) v = actual (mrs s) v \<and> created_at (mrs s1) v = created_at (mrs s) v"
    "h_epoch s1 = h_epoch s" "tick s1 = Suc (tick s)"
    "\<forall>y. y \<noteq> w \<longrightarrow> y \<notin> set (concat ls) \<longrightarrow> mrs s1 y = mrs s y"
    by (rule h_push_inv [OF h q(1) room refl])
  have f: "HP s1 = HP s" "h_nthreads s1 = h_nthreads s" "fallback s1 = fallback s" "h_vlist s1 = h_vlist s"
    "hl_cur s1 = hl_cur s" "h_H s1 = h_H s"
    using p(4) h_same_cur [OF p(4)] by (simp_all add: h_same_def h_like_def h_H_def)
  have dv1: "dll (mrs s1) (h_vlist s1) vs"
  proof -
    have "set (concat ls) \<inter> set vs = {}" using r by (simp add: retired_def)
    then have "y \<notin> set (concat ls)" "y \<noteq> w" if "y \<in> set vs" for y using that p(2) unfolding set_append by blast+
    then have "mrs s1 y = mrs s y" if "y \<in> set vs" for y using that p(12) by (metis (no_types))
    then show ?thesis using dll_cong [of vs "mrs s1" "mrs s"] dv by (simp add: f)
  qed
  have ms: "mset (concat (?ls w) @ vs) = mset (w # concat ls @ vs)"
    using mset_concat_upd [OF e, of "w # ls ! ?e"] mset_concat_nth [OF e] by simp
  have old: "map (actual (mrs s1)) (concat ls @ vs) = map (actual (mrs s)) (concat ls @ vs)"
    using p(2,9) by (intro map_cong) auto
  have wt: "waiting s1 (concat ls @ vs) = waiting s (concat ls @ vs)"
    unfolding waiting_def set_map [symmetric] old ..
  have "distinct (map (actual (mrs s1)) (w # concat ls @ vs))"
    using di q(2) unfolding list.map old p(6) distinct.simps waiting_def set_map [symmetric] by blast
  then have "distinct (map (actual (mrs s1)) (concat (?ls w) @ vs))" using distinct_map_mset [OF ms] by blast
  then have inv1: "hl_inv s1 (?ls w) vs" using p(3) dv1 cur by (simp add: hl_inv_def f)
  have "waiting s1 (concat (?ls w) @ vs) = waiting s1 (w # concat ls @ vs)" by (rule waiting_mset [OF ms])
  also have "\<dots> = insert q (waiting s (concat ls @ vs))" unfolding waiting_simps p(6) wt ..
  finally have wts: "waiting s1 (concat (?ls w) @ vs) = insert q (waiting s (concat ls @ vs))" .
  have pr: "hl_protects s1 vs X j" if "hl_protects s vs X j" for X j
  proof -
    have "\<forall>v \<in> set vs. actual (mrs s1) v = actual (mrs s) v" using p(2,9) by auto
    moreover have "marked s X \<longrightarrow> marked s1 X" using p(5) by (simp add: marked_def)
    ultimately show ?thesis using that mark_guard_cong [of vs s1 s X] by (simp add: hl_protects_def f)
  qed
  show ?thesis using p(1,5) inv1 f wts pr by (intro that [of s1 "?ls w"]) blast+
qed

lemma hl_retire_ok:
  assumes inv: "hl_inv s ls vs" and hz: "hz_mapped s" and len: "length vs \<le> Suc (h_H s)"
    and q: "nodes s q \<noteq> None" "q \<notin> waiting s (concat ls @ vs)"
    and room: "fst (ssalloc_alloc 1 (of_nat MR_NODE_SIZE) (alloc s)) \<noteq> NULL"
  obtains s' ls' vs' where "hl_free_node_later q s = Some s'" "hl_inv s' ls' vs'" "hz_mapped s'"
    "length vs' \<le> Suc (h_H s')" "HP s' = HP s" "h_nthreads s' = h_nthreads s" "fallback s' = fallback s"
    "waiting s' (concat ls' @ vs') \<subseteq> insert q (waiting s (concat ls @ vs))"
    "\<forall>X j. hl_protects s vs X j \<longrightarrow> hl_protects s' vs' X j \<and> key_at s' X = key_at s X \<and>
        (X \<in> insert q (waiting s (concat ls @ vs)) \<longrightarrow> X \<in> waiting s' (concat ls' @ vs'))"
proof -
  obtain s1 ls1 where p: "h_push q s = Some s1" "hl_inv s1 ls1 vs" "HP s1 = HP s" "h_nthreads s1 = h_nthreads s"
    "fallback s1 = fallback s" "nodes s1 = nodes s" "waiting s1 (concat ls1 @ vs) = insert q (waiting s (concat ls @ vs))"
    "\<forall>X j. hl_protects s vs X j \<longrightarrow> hl_protects s1 vs X j"
    by (rule hl_push_ok [OF inv q room])
  have hz1: "hz_mapped s1" and len1: "length vs \<le> Suc (h_H s1)"
    using hz len p(3,4,6) by (simp_all add: hz_mapped_def hazards_def h_H_def)
  have k1: "key_at s1 X = key_at s X" for X using p(6) by (simp add: key_at_def)
  show ?thesis
  proof (cases "fallback s1 = 1")
    case False
    then have "hl_free_node_later q s = Some s1" using p(1) by (simp add: hl_free_node_later_def)
    then show ?thesis using p hz1 len1 k1 by (intro that [of s1 ls1 vs]) blast+
  next
    case True
    obtain s' ls' vs' where u: "hl_update_lists s1 = Some s'" "hl_ok s1 ls1 vs s' ls' vs'" "length vs' \<le> Suc (h_H s')"
      by (rule hl_update_lists_ok [OF p(2) hz1 len1])
    note ok = u(2) [unfolded hl_ok_def p(3,4,5,7)]
    have "hl_free_node_later q s = Some s'" using p(1) True u(1) by (simp add: hl_free_node_later_def)
    moreover have "hl_protects s' vs' X j \<and> key_at s' X = key_at s X \<and>
        (X \<in> insert q (waiting s (concat ls @ vs)) \<longrightarrow> X \<in> waiting s' (concat ls' @ vs'))"
      if "hl_protects s vs X j" for X j
    proof -
      have "hl_protects s1 vs X j" using p(8) that by blast
      from hl_okD [OF u(2) this] show ?thesis unfolding p(7) k1 by blast
    qed
    ultimately show ?thesis using ok u(3) hz1 by (intro that [of s' ls' vs']) blast+
  qed
qed

section \<open>The scan\<close>

lemma vlist_sweep:
  assumes d: "dll (mrs (m :: 'a mem_scheme)) vl vs" and r: "retired m (us @ vs)" and hz: "set plist = hazards m"
  obtains vl' h where "sweep_loop (hazard_test plist) vl init rc m =
      Some (vl', (rc :: 'b::len word) + of_nat (length (filter (protected m) vs)),
       m\<lparr>mrs := h, nodes := poison (actual (mrs m) ` {v \<in> set vs. \<not> protected m v}) (nodes m),
         alloc := free_pairs (with_actual (mrs m) (rev (filter (\<lambda>v. \<not> protected m v) vs))) (alloc m)\<rparr>)"
    "dll h vl' (filter (protected m) vs)" "touches (set vs) (mrs m) h"
    "\<And>m' :: 'a mem_scheme. alloc m' = free_pairs (with_actual (mrs m) (rev (filter (\<lambda>v. \<not> protected m v) vs))) (alloc m) \<Longrightarrow>
       nodes m' = poison (actual (mrs m) ` {v \<in> set vs. \<not> protected m v}) (nodes m) \<Longrightarrow> mrs m' = h \<Longrightarrow>
       retired m' (us @ filter (protected m) vs)"
proof -
  let ?fv = "rev (filter (\<lambda>v. \<not> protected m v) vs)"
  have k: "keeps (\<lambda>_ _ a _. ssearch plist a) 0 m = (\<lambda>_. protected m)"
    by (intro ext) (simp add: keeps_def protected_def hz)
  have pre: "dll (mrs m) init []" "set vs \<inter> set [] = {}" "length vs + length ([] :: ptr list) < 2 ^ 32"
    "\<forall>w \<in> set vs. nodes m (actual (mrs m) w) \<noteq> None"
    using subset_length [OF r dll_distinct [OF d]] r by (auto simp: retired_def)
  obtain vl' h where sw: "sweep_loop (hazard_test plist) vl init rc m =
      Some (vl', rc + of_nat (length (filter (protected m) (rev vs))),
       m\<lparr>mrs := h, nodes := poison (actual (mrs m) ` set ?fv) (nodes m),
         alloc := free_pairs (with_actual (mrs m) ?fv) (alloc m), tick := tick m\<rparr>)"
    and d2: "dll h vl' (rev (filter (protected m) (rev vs)))" and t: "touches (set vs) (mrs m) h"
    using hazard_keep.sweep_loop_correct [OF d pre refl refl, of plist rc]
    unfolding k sweep_const by (auto simp: rev_filter)
  have st: "set ?fv = {v \<in> set vs. \<not> protected m v}" by auto
  have "retired m' (us @ filter (protected m) vs)"
    if "alloc m' = free_pairs (with_actual (mrs m) ?fv) (alloc m)"
      "nodes m' = poison (actual (mrs m) ` {v \<in> set vs. \<not> protected m v}) (nodes m)" "mrs m' = h" for m' :: "'a mem_scheme"
    by (rule retired_release [OF r _ _ _ that(1) that(2) [folded st]])
      (use r t that(3) in \<open>auto simp: retired_def\<close>)
  then show ?thesis using sw d2 t unfolding st
    by (intro that [of vl' h]) (simp_all add: rev_filter [symmetric])
qed

lemma distinct_map_sub: "distinct (map f xs) \<Longrightarrow> set ys \<subseteq> set xs \<Longrightarrow> distinct ys \<Longrightarrow> distinct (map f ys)"
  by (simp add: distinct_map) (metis inj_on_subset)

lemma hl_scan_inv:
  assumes inv: "hl_inv s ls vs"
  obtains s' ls' where "hl_scan s = Some s'" "hl_inv s' ls' (filter (protected s) vs)" "h_like s s'"
    "\<forall>i < 3. swept1 s (ls ! i) (ls' ! i)"
    "nodes s' = poison (actual (mrs s) ` (set (concat ls) - set (concat ls') \<union> {v \<in> set vs. \<not> protected s v})) (nodes s)"
proof -
  let ?s0 = "upd_sh (\<lambda>t. t\<lparr>scan_count := scan_count t + 1\<rparr>) s" and ?vs = "filter (protected s) vs"
  have h: "h_inv s ls vs" and dv: "dll (mrs s) (h_vlist s) vs" and cur: "unat (hl_cur s) < h_H s"
    and di: "distinct (map (actual (mrs s)) (concat ls @ vs))" using inv by (simp_all add: hl_inv_def)
  have me: "h_me s < length (shtd s)" and sh: "h_shape s" and l3: "length ls = 3"
    and r: "retired s (concat ls @ vs)" and d: "dlls (mrs s) (limbo s) ls"
    using h by (simp_all add: h_inv_def h_shape_def)
  obtain plist where p: "collect_hps (h_H s) 0 (HP s) [] = Some plist" "set plist = hazards s"
    using h by (rule h_collect)
  have r0: "retired ?s0 (concat ls @ vs)" using r by (simp add: retired_def wrappers_mapped_def)
  have pre: "dlls (mrs ?s0) (limbo s) ls" "0 + (3 :: nat) = length ls" "set plist = hazards ?s0"
    using d l3 p(2) by (simp_all add: hazards_def)
  obtain Ls' ls' s1 where
    sw: "limbo_sweeps (young_or_hazard_test plist) 3 0 (0 :: u64) (limbo s) ?s0 =
      Some (Ls', 0 + of_nat (length (concat (drop 0 ls'))), s1)"
    and r1: "retired s1 (concat ls' @ vs)" and t1: "touches (set (concat ls)) (mrs ?s0) (mrs s1)"
    and d1: "dlls (mrs s1) Ls' ls'" and l1: "length ls' = length ls"
    and s1: "\<forall>i < length ls. if i < 0 then ls' ! i = ls ! i else swept1 ?s0 (ls ! i) (ls' ! i)"
    and sub: "set (concat ls') \<subseteq> set (concat ls)"
    and n1: "nodes s1 = poison (actual (mrs ?s0) ` (set (concat ls) - set (concat ls'))) (nodes ?s0)"
    and lt: "later ?s0 s1"
    using limbo_sweeps_ex [OF r0 pre, of 0] by blast
  obtain no mr al k where s1': "s1 = ?s0\<lparr>nodes := no, mrs := mr, alloc := al, tick := k\<rparr>"
    using lt unfolding later_def by blast
  let ?m = "s1\<lparr>limbo := Ls'\<rparr>"
  have act1: "actual (mrs s1) = actual (mrs s)" using later_frame(1) [OF lt] by simp
  have pr1: "protected ?m = protected s"
    using later_frame(6) [OF lt] by (simp add: fun_eq_iff protected_def hazards_def)
  have disj: "set (concat ls) \<inter> set vs = {}" using r by (simp add: retired_def)
  have dv1: "dll (mrs ?m) (h_vlist s) vs" using touches_dll [OF t1 disj] dv by simp
  have r1': "retired ?m (concat ls' @ vs)" using r1 by (simp add: retired_def wrappers_mapped_def)
  have hz1: "set plist = hazards ?m" using p(2) later_frame(7) [OF lt] by (simp add: hazards_def)
  obtain vl' h' where
    sv: "sweep_loop (hazard_test plist) (h_vlist s) init (of_nat (length (concat ls')) :: u64) ?m =
      Some (vl', of_nat (length (concat ls')) + of_nat (length ?vs),
       ?m\<lparr>mrs := h', nodes := poison (actual (mrs ?m) ` {v \<in> set vs. \<not> protected s v}) (nodes ?m),
         alloc := free_pairs (with_actual (mrs ?m) (rev (filter (\<lambda>v. \<not> protected s v) vs))) (alloc ?m)\<rparr>)"
    and dvl: "dll h' vl' ?vs" and t2: "touches (set vs) (mrs ?m) h'"
    and ret: "\<And>m' :: 'a hybrid_lazy_scheme.
       alloc m' = free_pairs (with_actual (mrs ?m) (rev (filter (\<lambda>v. \<not> protected s v) vs))) (alloc ?m) \<Longrightarrow>
       nodes m' = poison (actual (mrs ?m) ` {v \<in> set vs. \<not> protected s v}) (nodes ?m) \<Longrightarrow> mrs m' = h' \<Longrightarrow>
       retired m' (concat ls' @ ?vs)"
    using vlist_sweep [OF dv1 r1' hz1, unfolded pr1] by blast
  define s' where "s' = ?m\<lparr>mrs := h', nodes := poison (actual (mrs ?m) ` {v \<in> set vs. \<not> protected s v}) (nodes ?m),
         alloc := free_pairs (with_actual (mrs ?m) (rev (filter (\<lambda>v. \<not> protected s v) vs))) (alloc ?m),
         h_vlist := vl', h_rcount := of_nat (length (concat ls')) + of_nat (length ?vs)\<rparr>"
  have fs: "mrs s' = h'" "limbo s' = Ls'" "h_vlist s' = vl'" "h_rcount s' = of_nat (length (concat ls' @ ?vs))"
    "shtd s' = shtd ?s0" "h_epoch s' = h_epoch s" "hl_cur s' = hl_cur s" "h_H s' = h_H s" "h_me s' = h_me s"
    by (simp_all add: s'_def s1' h_H_def h_me_def upd_sh_def)
  have run: "hl_scan s = Some s'"
    using me p(1) sw sv by (simp add: hl_scan_def h_H_def H_EPOCHS_def s1' s'_def)
  have like: "h_like s s'"
    using upd_sh_same [OF me, of "\<lambda>t. t\<lparr>scan_count := scan_count t + 1\<rparr>"]
    by (simp add: h_same_def h_like_def fs) (simp add: s'_def s1' upd_sh_def)
  have rt: "retired s' (concat ls' @ ?vs)" by (rule ret) (simp_all add: s'_def)
  have dl': "dlls h' Ls' ls'"
  proof -
    have "dll h' (Ls' ! i) (ls' ! i)" if i: "i < length ls'" for i
    proof -
      have "set vs \<inter> set (ls' ! i) = {}" using concat_sub [OF i] sub disj by blast
      then show ?thesis using touches_dll [OF t2] dllsD [OF d1 i] by simp
    qed
    then show ?thesis using d1 by (simp add: dlls_def)
  qed
  have "length (concat ls' @ ?vs) < 2 ^ LENGTH(64)" using retired_length [OF rt] by simp
  then have "unat (h_rcount s') = length (concat ls' @ ?vs)" unfolding fs by (rule unat_of_nat_less)
  moreover have "h_shape s'"
    using sh like me by (simp add: h_shape_def fs) (simp add: h_like_def h_me_def)
  ultimately have "h_inv s' ls' ?vs" using rt dl' l1 l3 by (simp add: h_inv_def fs)
  moreover have "distinct (map (actual (mrs s')) (concat ls' @ ?vs))"
  proof -
    have "actual h' = actual (mrs s)" using touches_actual [OF t2] act1 by simp
    then show ?thesis using distinct_map_sub [OF di, of "concat ls' @ ?vs"] rt sub by (auto simp: fs retired_def)
  qed
  ultimately have "hl_inv s' ls' ?vs" using dvl cur by (simp add: hl_inv_def fs)
  moreover have "nodes s' = poison (actual (mrs s) ` (set (concat ls) - set (concat ls') \<union> {v \<in> set vs. \<not> protected s v})) (nodes s)"
    using n1 by (simp add: s'_def act1 poison_poison image_Un Un_commute)
  moreover have "\<forall>i < 3. swept1 s (ls ! i) (ls' ! i)" using s1 l3 by simp
  ultimately show ?thesis using run like by (intro that [of s' ls'])
qed

lemma hl_quiet_ok:
  assumes inv: "hl_inv s ls vs"
  shows "\<exists>s' ls'. h_quiescent_state env False n s = Some s' \<and> hl_inv s' ls' vs \<and> h_same s s'"
proof -
  have h: "h_inv s ls vs" using inv by (simp add: hl_inv_def)
  from h_quiet_ok [OF h, of env n] obtain s' ls' where s': "h_quiescent_state env False n s = Some s'"
    "h_inv s' ls' vs" "h_same s s'" "\<forall>i < 3. ls' ! i = ls ! i \<or> ls' ! i = []"
    and t: "touches (set (concat ls)) (mrs s) (mrs s')" by blast
  have l3: "length ls = 3" "length ls' = 3" and r: "retired s (concat ls @ vs)" "retired s' (concat ls' @ vs)"
    using h s'(2) by (simp_all add: h_inv_def)
  have "set (concat ls') \<subseteq> set (concat ls)"
  proof
    fix x assume "x \<in> set (concat ls')"
    then obtain i where i: "i < 3" "x \<in> set (ls' ! i)" using l3 by (fastforce simp: in_set_conv_nth)
    then have "ls' ! i = ls ! i" using s'(4) by (metis empty_iff list.set(1))
    then show "x \<in> set (concat ls)" using i concat_sub [of i ls] l3 by auto
  qed
  then have "distinct (map (actual (mrs s')) (concat ls' @ vs))"
    using distinct_map_sub [of "actual (mrs s)" "concat ls @ vs" "concat ls' @ vs"] inv r(2) touches_actual [OF t]
    by (auto simp: hl_inv_def retired_def)
  moreover have "dll (mrs s') (h_vlist s') vs"
    using touches_dll [OF t, of vs "h_vlist s"] inv r(1) s'(3) by (auto simp: hl_inv_def retired_def h_same_def)
  moreover have "unat (hl_cur s') < h_H s'"
    using inv s'(3) h_same_cur [OF s'(3)] by (simp add: hl_inv_def h_H_def h_same_def h_like_def)
  ultimately show ?thesis using s' by (auto simp: hl_inv_def)
qed

lemma hl_inv_frame:
  "hl_inv s ls vs \<Longrightarrow> h_inv s' ls vs \<Longrightarrow> mrs s' = mrs s \<Longrightarrow> h_vlist s' = h_vlist s \<Longrightarrow> hl_cur s' = hl_cur s \<Longrightarrow>
   h_nthreads s' = h_nthreads s \<Longrightarrow> hl_inv s' ls vs"
  by (simp add: hl_inv_def h_H_def)

interpretation hyl: switching "\<lambda>s. \<exists>ls vs. hl_inv s ls vs" hl_scan
proof
  fix s :: "'a hybrid_lazy_scheme"
  assume "\<exists>ls vs. hl_inv s ls vs"
  then obtain ls vs where inv: "hl_inv s ls vs" by blast
  then have h: "h_inv s ls vs" by (simp add: hl_inv_def)
  show "\<exists>s'. hl_scan s = Some s' \<and> (\<exists>ls vs. hl_inv s' ls vs) \<and> h_like s s'"
    using hl_scan_inv [OF inv] by metis
  show "\<exists>s'. h_quiescent_state (\<lambda>_. id) False 0 s = Some s' \<and> (\<exists>ls vs. hl_inv s' ls vs) \<and> h_like s s'"
    using hl_quiet_ok [OF inv] h_same_like by metis
  show "h_shape s" using h by (simp add: h_inv_def)
  show "\<exists>ls vs. hl_inv (s\<lparr>fallback := f\<rparr>) ls vs" for f
    using hl_inv_frame [OF inv, of "s\<lparr>fallback := f\<rparr>"] h by auto
  show "\<exists>ls vs. hl_inv (s\<lparr>last_flag := f\<rparr>) ls vs" for f
    using hl_inv_frame [OF inv, of "s\<lparr>last_flag := f\<rparr>"] h by auto
  show "\<exists>ls vs. hl_inv (s\<lparr>present_vect := (present_vect s)[i := b]\<rparr>) ls vs" for i b
    using hl_inv_frame [OF inv, of "s\<lparr>present_vect := (present_vect s)[i := b]\<rparr>"] h by auto
  let ?u = "\<lambda>c. upd_sh (\<lambda>t. t\<lparr>allocate_fail_count := c t\<rparr>) s"
  show "\<exists>ls vs. hl_inv (?u c) ls vs" for c
    using hl_inv_frame [OF inv upd_sh_inv [OF h, of "\<lambda>t. t\<lparr>allocate_fail_count := c t\<rparr>"]] h
    by (auto simp: h_inv_def h_shape_def upd_sh_def)
  show "length hp = length (HP s) \<Longrightarrow> \<exists>ls vs. hl_inv (s\<lparr>HP := hp\<rparr>) ls vs" for hp
    using hl_inv_frame [OF inv h_inv_hps [OF h, of hp]] by auto
qed

section \<open>Exit\<close>

lemma hl_merge_ok:
  "hl_inv s ls vs \<Longrightarrow> \<exists>s' ls'. hl_merge s = Some s' \<and> hl_inv s' ls' [] \<and> HP s' = HP s \<and> h_like s s'"
proof (induction vs arbitrary: s ls rule: rev_induct)
  case Nil
  then have "ll_size (h_vlist s) = 0" by (simp add: hl_inv_def dll_def unat_eq_zero)
  then show ?case using Nil by (intro exI [of _ s] exI [of _ ls]) (simp add: hl_merge.simps)
next
  case (snoc t us)
  have h: "h_inv s ls (us @ [t])" and dv: "dll (mrs s) (h_vlist s) (us @ [t])"
    and di: "distinct (map (actual (mrs s)) (concat ls @ us @ [t]))"
    using snoc.prems by (simp_all add: hl_inv_def)
  have r: "retired s (concat ls @ us @ [t])" and d: "dlls (mrs s) (limbo s) ls" and l3: "length ls = 3" and sh: "h_shape s"
    and rc: "unat (h_rcount s) = length (concat ls @ us @ [t])"
    using h by (simp_all add: h_inv_def)
  have j: "0 < length ls" using l3 by simp
  have disj: "set (concat ls) \<inter> set (us @ [t]) = {}" "t \<notin> set us" and dc: "distinct (concat ls)"
    using r by (simp_all add: retired_def)
  obtain vl1 h1 where rm: "remove_from_tail (h_vlist s) (mrs s) = Some (t, vl1, h1)" and d1: "dll h1 vl1 us"
    and t1: "touches (insert t (set us)) (mrs s) h1" by (rule remove_from_tail_dll [OF dv])
  have s0: "set (ls ! 0) \<subseteq> set (concat ls)" by (rule concat_sub [OF j])
  have t0: "t \<noteq> NULL" "mrs s t \<noteq> None" using dll_mapped [OF dv, of t] dv by (auto simp: dll_def)
  then obtain c where c: "h1 t = Some c" using touches_mapped [OF t1, of t] by auto
  have "insert t (set us) \<inter> set (ls ! 0) = {}" using s0 disj(1) unfolding set_append by auto
  then have d0: "dll h1 (limbo s ! 0) (ls ! 0)"
    using touches_dll [OF t1] dllsD [OF d j] by simp
  have "length (ls ! 0) + 1 < 2 ^ 32"
    using subset_length [OF r dll_distinct [OF d0]] s0 by (simp add: subset_insertI2 le_supI1)
  moreover have "t \<notin> set (ls ! 0)" using s0 disj by auto
  ultimately obtain l h2 where add: "add_to_head (limbo s ! 0) t h1 = Some (l, h2)" and dl: "dll h2 l (t # ls ! 0)"
    and t2: "touches (insert t (set (ls ! 0))) h1 h2"
    using add_to_head_dll [OF d0 t0(1) c] by auto
  let ?ls = "ls[0 := t # ls ! 0]"
  define s1 where "s1 = s\<lparr>mrs := h2, limbo := (limbo s)[0 := l], h_vlist := vl1\<rparr>"
  have t3: "touches (insert t (set us \<union> set (ls ! 0))) (mrs s) h2" by (rule touches_comp [OF t1 t2]) auto
  have act: "actual h2 = actual (mrs s)" by (rule touches_actual [OF t3])
  have ms: "mset (concat ls @ us @ [t]) = mset (concat ?ls @ us)"
    using mset_concat_upd [OF j, of "t # ls ! 0"] mset_concat_nth [OF j] by simp
  have "dlls h2 ((limbo s)[0 := l]) ?ls"
  proof (rule dlls_replace [OF d j dl])
    fix i y assume i: "i < length ls" "i \<noteq> 0" "y \<in> set (ls ! i)"
    then have "y \<notin> insert t (set us \<union> set (ls ! 0))"
      using concat_disjoint [OF dc i(1) j i(2)] concat_sub [OF i(1)] disj by auto
    then show "h2 y = mrs s y" using t3 by (simp add: touches_def)
  qed
  moreover have "retired s1 (concat ?ls @ us)"
    by (rule retired_mset [OF ms])
      (use r t3 touches_wrappers_mapped [of "insert t (set us \<union> set (ls ! 0))" s s1] in
        \<open>simp add: retired_def s1_def act\<close>)
  moreover have "unat (h_rcount s1) = length (concat ?ls @ us)"
    using rc mset_eq_length [OF ms] by (simp add: s1_def)
  moreover have "h_shape s1" using sh by (simp add: h_shape_def s1_def h_me_def)
  ultimately have "h_inv s1 ?ls us" using l3 by (simp add: h_inv_def s1_def)
  moreover have "distinct (map (actual h2) (concat ?ls @ us))"
    using iffD1 [OF distinct_map_mset [OF ms] di] unfolding act .
  moreover have "insert t (set (ls ! 0)) \<inter> set us = {}" using s0 disj unfolding set_append by auto
  then have "dll h2 vl1 us" using touches_dll [OF t2] d1 by simp
  ultimately have "hl_inv s1 ?ls us" using snoc.prems by (simp add: hl_inv_def s1_def h_H_def)
  from snoc.IH [OF this] obtain s' ls' where "hl_merge s1 = Some s'" "hl_inv s' ls' []" "HP s' = HP s1" "h_like s1 s'"
    by blast
  moreover have "hl_merge s = hl_merge s1"
  proof -
    have "ll_size (h_vlist s) \<noteq> 0" using dv by (auto simp: dll_def)
    then have "0 < ll_size (h_vlist s)" by (simp add: word_neq_0_conv)
    then show ?thesis using rm add by (subst hl_merge.simps) (simp add: s1_def)
  qed
  moreover have "h_like s s1" by (simp add: h_like_def s1_def)
  ultimately show ?case using h_like_trans [of s s1 s'] by (intro exI [of _ s'] exI [of _ ls']) (simp add: s1_def)
qed

section \<open>Properties\<close>

text \<open>C38: In the fallback mode of src/hybrid_lazy.c a retirement returns while wrappers are available, keeps
  the lists consistent with \<open>rcount\<close> and \<open>vlist\<close> at most H + 1 long; and a node that one hazard
  pointer protects since before it entered \<open>vlist\<close> is not released, stays in the lists and
  stays protected.\<close>

theorem hl_free_node_later_safe:
  assumes "hl_inv s ls vs" "hz_mapped s" "length vs \<le> Suc (h_H s)"
    and "nodes s q \<noteq> None" "q \<notin> waiting s (concat ls @ vs)"
    and "fst (ssalloc_alloc 1 (of_nat MR_NODE_SIZE) (alloc s)) \<noteq> NULL"
  shows "\<exists>s' ls' vs'. hl_free_node_later q s = Some s' \<and> hl_inv s' ls' vs' \<and> length vs' \<le> Suc (h_H s') \<and>
    HP s' = HP s \<and> waiting s' (concat ls' @ vs') \<subseteq> insert q (waiting s (concat ls @ vs)) \<and>
    (\<forall>X j. hl_protects s vs X j \<longrightarrow> hl_protects s' vs' X j \<and> key_at s' X = key_at s X \<and>
        (X \<in> insert q (waiting s (concat ls @ vs)) \<longrightarrow> X \<in> waiting s' (concat ls' @ vs')))"
  by (rule hl_retire_ok [OF assms]) blast

text \<open>A scan of src/hybrid_lazy.c returns; it releases exactly the nodes of \<open>vlist\<close> that no hazard
  pointer protects and, of the limbo lists, only unprotected ones that were old enough; what it
  keeps in the limbo lists is protected or was too young.\<close>

theorem hl_scan_releases:
  assumes "hl_inv s ls vs"
  shows "\<exists>s' ls'. hl_scan s = Some s' \<and> hl_inv s' ls' (filter (protected s) vs) \<and>
    (\<forall>i < 3. set (ls' ! i) \<subseteq> set (ls ! i) \<and>
       (\<forall>w \<in> set (ls' ! i). protected s w \<or> seen_young s w) \<and>
       (\<forall>w \<in> set (ls ! i) - set (ls' ! i). \<not> protected s w \<and> seen_old s w)) \<and>
    nodes s' = poison (actual (mrs s) ` (set (concat ls) - set (concat ls') \<union> {v \<in> set vs. \<not> protected s v})) (nodes s)"
proof -
  obtain s' ls' where "hl_scan s = Some s'" "hl_inv s' ls' (filter (protected s) vs)" "h_like s s'"
    "\<forall>i < 3. swept1 s (ls ! i) (ls' ! i)"
    "nodes s' = poison (actual (mrs s) ` (set (concat ls) - set (concat ls') \<union> {v \<in> set vs. \<not> protected s v})) (nodes s)"
    by (rule hl_scan_inv [OF assms])
  then show ?thesis by (intro exI [of _ s'] exI [of _ ls']) (simp add: swept1_def)
qed

text \<open>\<open>allocate_fail\<close> and \<open>manage_hybrid_state\<close> of src/hybrid_lazy.c return, keep the lists
  consistent and switch modes as in src/qsbr_smr_hybrid.c: ten failed trials turn the fallback
  mode on, every other thread's presence turns it off.\<close>

theorem hl_switching:
  assumes "hl_inv s ls vs" "fallback s = 0 \<or> fallback s = 1"
  shows "(\<exists>s' ls' vs'. hl_allocate_fail trials s = Some s' \<and> hl_inv s' ls' vs' \<and>
      fallback s' = (if fallback s = 0 \<and> last_flag s \<noteq> 1 \<and> trials \<ge> 10 then 1 else fallback s)) \<and>
    (\<exists>s' ls' vs'. hl_manage_hybrid_state s = Some s' \<and> hl_inv s' ls' vs' \<and>
      fallback s' = (if \<forall>k < unat (h_nthreads s). k \<noteq> h_me s \<longrightarrow> present_vect s ! k \<noteq> 0 then 0 else fallback s))"
proof -
  have i: "\<exists>ls vs. hl_inv s ls vs" using assms(1) by blast
  from hyl.allocate_fail_ok [OF i, of trials] hyl.manage_ok [OF i assms(2)] show ?thesis
    unfolding hl_allocate_fail_def hl_manage_hybrid_state_def by blast
qed

text \<open>\<open>mr_thread_exit\<close> of src/hybrid_lazy.c always returns: it empties \<open>vlist\<close> into a limbo list and
  scans at most 100 * nthreads times.\<close>

theorem hl_thread_exit_returns:
  assumes "hl_inv s ls vs" "\<forall>n hp. length (yield n hp) = length hp"
  shows "\<exists>s' ls' vs'. hl_thread_exit yield s = Some s' \<and> hl_inv s' ls' vs'"
proof -
  obtain s1 ls1 where s1: "hl_merge s = Some s1" "hl_inv s1 ls1 []" using hl_merge_ok [OF assms(1)] by blast
  have me: "h_me s1 < unat (h_nthreads s1)" "length (HP s1) = K * unat (h_nthreads s1)"
    using s1(2) by (simp_all add: hl_inv_def h_inv_def h_shape_def)
  have le: "K * h_me s1 + 1 < length (HP s1)" using me by (simp add: K_def)
  let ?hp = "(HP s1)[K * h_me s1 := NULL, K * h_me s1 + 1 := NULL]"
  have cl: "clear_own_hps (h_me s1) 0 K (HP s1) = Some ?hp"
    using le by (simp add: K_def numeral_2_eq_2)
  have h1: "h_inv s1 ls1 []" using s1(2) by (simp add: hl_inv_def)
  have "h_inv (s1\<lparr>HP := ?hp\<rparr>) ls1 []" by (rule h_inv_hps [OF h1]) simp
  then have "hl_inv (s1\<lparr>HP := ?hp\<rparr>) ls1 []" by (rule hl_inv_frame [OF s1(2)]) simp_all
  then have "\<exists>ls vs. hl_inv (s1\<lparr>HP := ?hp\<rparr>) ls vs" by blast
  from hyl.exit_loop_ok [OF this assms(2), of 0] show ?thesis using s1(1) cl by (auto simp: hl_thread_exit_def)
qed

section \<open>A scan undoes the protection\<close>

definition hl_retire_all :: "ptr list \<Rightarrow> 'a hybrid_lazy_scheme \<Rightarrow> 'a hybrid_lazy_scheme option" where
  "hl_retire_all qs s = fold (\<lambda>q r. r \<bind> hl_free_node_later q) qs (Some s)"

definition gap_hl :: hybrid_lazy where
  "gap_hl = mem.extend gap_mem \<lparr>fallback = 1, present_vect = [1, 1], h_lock = False, h_epoch = 1,
     shtd = replicate 2 \<lparr>sh_epoch = 1, sh_in_critical = 1, sh_present = 0, process_callbacks_count = 0,
                         scan_count = 0, allocate_fail_count = 0\<rparr>,
     nthreads_g = 2, limbo = [init, init, init], h_vlist = init, h_rcount = 0, h_nthreads = 2,
     h_index = 0, last_flag = 1, hl_cur = 0\<rparr>"

lemma gap_hl_inv: "hl_inv gap_hl [[], [], []] []"
proof -
  have "arena_inv 1 MR_NODE_SIZE (ex_alloc\<lparr>alloc_next := (\<lambda>_. 0)\<rparr>) {}"
    by (simp add: arena_inv_def arena_ok_def in_arena_def free_queue_def ex_alloc_def MR_NODE_SIZE_def
        ssalloc_size_def SSALLOC_SIZE_BIG_def)
  moreover have "dlls h [init, init, init] [[], [], []]" for h
    by (auto simp: dlls_def dll_def init_def less_Suc_eq)
  ultimately show ?thesis
    by (simp add: hl_inv_def h_inv_def h_shape_def h_me_def h_H_def dll_def init_def retired_def wrappers_mapped_def
        gap_hl_def gap_mem_def mem.defs K_def) (simp add: ex_nodes_def ex_alloc_def)
qed

text \<open>The guarantee of src/hybrid_lazy.c does not survive a failed allocation in the fallback mode: from
  empty lists, the hazard pointer of another thread being on node 96 throughout, six
  retirements, one \<open>allocate_fail\<close> (whose scan keeps 96) and four more retirements release it.\<close>

theorem hl_allocate_fail_drops_guard:
  "hl_inv gap_hl [[], [], []] [] \<and> HP gap_hl ! 2 = 96 \<and> fallback gap_hl = 1 \<and>
   (case hl_retire_all [96, 160, 192, 224, 256, 288] gap_hl of None \<Rightarrow> False | Some s1 \<Rightarrow>
      key_at s1 96 = Some 7 \<and>
      (case hl_allocate_fail 1 s1 of None \<Rightarrow> False | Some s2 \<Rightarrow>
         key_at s2 96 = Some 7 \<and>
         (case hl_retire_all [320, 352, 384, 416] s2 of None \<Rightarrow> False | Some s3 \<Rightarrow>
            HP s3 ! 2 = 96 \<and> key_at s3 96 = Some POISON)))"
  (is "_ \<and> _ \<and> _ \<and> ?run")
proof -
  have "?run" by code_simp
  then show ?thesis using gap_hl_inv by (simp add: gap_hl_def gap_mem_def mem.defs)
qed

section \<open>Witnesses\<close>

definition ex_hl :: "u8 \<Rightarrow> hybrid_lazy" where
  "ex_hl f = hybrid_state.extend (ex_h f) \<lparr>hl_cur = 0\<rparr>"

lemma ex_hl_sel [simp]:
  "nodes (ex_hl f) = ex_nodes" "mrs (ex_hl f) = ex_mrs" "alloc (ex_hl f) = ex_alloc" "HP (ex_hl f) = [0, 0, 96, 0]"
  "fallback (ex_hl f) = f" "last_flag (ex_hl f) = f" "present_vect (ex_hl f) = [1, 1]" "h_me (ex_hl f) = 0"
  "h_nthreads (ex_hl f) = 2"
  by (simp_all add: ex_hl_def ex_h_def h_me_def hybrid_state.defs)

lemma ex_hl_inv: "hl_inv (ex_hl f) [[], [], [4160, 4096]] []"
proof -
  have "dlls ex_mrs [init, init, ex_list] [[], [], [4160, 4096]]"
    using ex_dll by (auto simp: dlls_def less_Suc_eq)
  then show ?thesis using ex_retired [of "ex_hl f"]
    by (simp add: hl_inv_def h_inv_def h_shape_def h_H_def)
      (simp add: ex_hl_def ex_h_def hybrid_state.defs K_def)
qed

lemma ex_hl_hz: "hz_mapped (ex_hl f)"
  by (simp add: hz_mapped_def hazards_def ex_nodes_def)

lemma hl_free_node_later_safe_witness:
  "\<exists>s' ls' vs'. hl_free_node_later 128 (ex_hl 1) = Some s' \<and> hl_inv s' ls' vs' \<and> key_at s' 96 = Some 7 \<and>
     96 \<in> waiting s' (concat ls' @ vs')"
proof -
  have "hl_protects (ex_hl 1) [] 96 2" by (simp add: hl_protects_def mark_guard_def)
  moreover have "nodes (ex_hl 1) 128 \<noteq> None" "128 \<notin> waiting (ex_hl 1) (concat [[], [], [4160, 4096]] @ [])"
    "fst (ssalloc_alloc 1 (of_nat MR_NODE_SIZE) (alloc (ex_hl 1))) \<noteq> NULL"
    by (simp_all add: ex_nodes_def ex_room')
  moreover have "key_at (ex_hl 1) 96 = Some 7" "96 \<in> waiting (ex_hl 1) (concat [[], [], [4160, 4096]] @ [])"
    by (simp_all add: key_at_def ex_nodes_def)
  ultimately show ?thesis
    using hl_free_node_later_safe [OF ex_hl_inv [of 1] ex_hl_hz, of 128] by (metis insertI2 le0 list.size(3))
qed

lemma hl_scan_releases_witness:
  "\<exists>s' ls'. hl_scan (ex_hl 1) = Some s' \<and> hl_inv s' ls' [] \<and> 4160 \<in> set (ls' ! 2)"
proof -
  from hl_scan_releases [OF ex_hl_inv [of 1]] obtain s' ls' where
    s': "hl_scan (ex_hl 1) = Some s'" "hl_inv s' ls' (filter (protected (ex_hl 1)) [])"
    and i: "\<forall>i < 3. set (ls' ! i) \<subseteq> set ([[], [], [4160, 4096]] ! i) \<and>
       (\<forall>w \<in> set (ls' ! i). protected (ex_hl 1) w \<or> seen_young (ex_hl 1) w) \<and>
       (\<forall>w \<in> set ([[], [], [4160, 4096]] ! i) - set (ls' ! i). \<not> protected (ex_hl 1) w \<and> seen_old (ex_hl 1) w)" by blast
  have "protected (ex_hl 1) 4160" by (simp add: protected_def hazards_def)
  then have "4160 \<in> set (ls' ! 2)" using i [rule_format, of 2] by auto
  then show ?thesis using s' by auto
qed

lemma hl_switching_witness:
  "(\<exists>s'. hl_allocate_fail 10 (ex_hl 0) = Some s' \<and> fallback s' = 1) \<and>
   (\<exists>s'. hl_manage_hybrid_state (ex_hl 0) = Some s' \<and> fallback s' = 0)"
  using hl_switching [OF ex_hl_inv [of 0], of 10] by auto

lemma hl_thread_exit_returns_witness:
  "\<exists>s' ls' vs'. hl_thread_exit (\<lambda>_ hp. hp) (ex_hl 1) = Some s' \<and> hl_inv s' ls' vs'"
  by (rule hl_thread_exit_returns [OF ex_hl_inv]) simp

end
