(* ===== verification/Sleepers.thy ===== *)
theory Sleepers
  imports Memory Hybrid
begin

text \<open>
  The sleeper threads, src/sleeper_threads.c: one thread per core that wakes up every SLEEP_AMOUNT
  milliseconds, which makes the core switch contexts and drain its store buffer; the one on core 0
  also runs the maintenance function of the scheme. What the drains are for is the subject of
  \<open>Hazard_Protocol\<close>. \<open>the_cores\<close> maps logical to physical cores; \<open>nanosleep\<close> and the other threads
  are the argument \<open>env\<close>.
\<close>

section \<open>State\<close>

record sleeper_thread_data =
  target_core :: u32
  sleep_millis :: u32

record timespec =
  ts_sec :: u32
  ts_nsec :: u32

text \<open>The argument of \<open>nanosleep\<close> in \<open>wakeup\<close>.\<close>

definition wakeup_timeout :: "sleeper_thread_data \<Rightarrow> timespec" where
  "wakeup_timeout d = \<lparr>ts_sec = sleep_millis d div 1000, ts_nsec = (sleep_millis d mod 1000) * 1000000\<rparr>"

section \<open>The loop\<close>

text \<open>\<open>stop k\<close>: \<open>wakeup_stop\<close> when the loop tests it for the k-th time; \<open>env k\<close>: what happens in
  the k-th \<open>nanosleep\<close>.\<close>

partial_function (option) wakeup_loop ::
  "(nat \<Rightarrow> bool) \<Rightarrow> (nat \<Rightarrow> 's \<Rightarrow> 's) \<Rightarrow> ('s \<Rightarrow> 's option) \<Rightarrow> u32 \<Rightarrow> nat \<Rightarrow> 's \<Rightarrow> 's option" where
  "wakeup_loop stop env maintenance core k s =
     (if stop k then Some s else do {
        s1 \<leftarrow> (if core = 0 then maintenance s else Some s);
        wakeup_loop stop env maintenance core (Suc k) (env k s1)
      })"

declare wakeup_loop.simps [code]

definition wakeup ::
  "(nat \<Rightarrow> bool) \<Rightarrow> (nat \<Rightarrow> 's \<Rightarrow> 's) \<Rightarrow> ('s \<Rightarrow> 's option) \<Rightarrow> sleeper_thread_data \<Rightarrow> 's \<Rightarrow> 's option" where
  "wakeup stop env maintenance d s = wakeup_loop stop env maintenance (target_core d) 0 s"

section \<open>Creation\<close>

text \<open>\<open>worker_threads < num_cores\<close> compares an int with a size_t.\<close>

definition num_sleeper_threads :: "int \<Rightarrow> u64 \<Rightarrow> int" where
  "num_sleeper_threads worker_threads num_cores =
     (if word_of_int worker_threads < num_cores then worker_threads else sint (ucast num_cores :: 32 word))"

definition init_sleeper_threads :: "int \<Rightarrow> u64 \<Rightarrow> sleeper_thread_data list" where
  "init_sleeper_threads worker_threads num_cores =
     map (\<lambda>t. \<lparr>target_core = of_nat t, sleep_millis = of_nat SLEEP_AMOUNT\<rparr>)
       [0..<nat (num_sleeper_threads worker_threads num_cores)]"

section \<open>Lemmas\<close>

lemma wakeup_loop_rounds:
  assumes "\<And>j. k \<le> j \<Longrightarrow> j < k + n \<Longrightarrow> \<not> stop j" "stop (k + n)"
    and "\<And>s. P s \<Longrightarrow> \<exists>s'. maintenance s = Some s' \<and> Q s'" "\<And>j s. Q s \<Longrightarrow> P (env j s)" "P s"
  shows "\<exists>s'. wakeup_loop stop env maintenance 0 k s = Some s' \<and> P s'"
  using assms(1,2,5)
proof (induction n arbitrary: k s)
  case 0
  then show ?case by (simp add: wakeup_loop.simps)
next
  case (Suc n)
  have nk: "\<not> stop k" using Suc.prems(1) [of k] by simp
  obtain s1 where s1: "maintenance s = Some s1" "Q s1" using assms(3) [OF Suc.prems(3)] by blast
  have "\<exists>s'. wakeup_loop stop env maintenance 0 (Suc k) (env k s1) = Some s' \<and> P s'"
    by (rule Suc.IH) (use Suc.prems assms(4) [OF s1(2)] in simp_all)
  then show ?case using nk s1(1) by (subst wakeup_loop.simps) simp
qed

lemma u32_sint: "unat c < 2 ^ 31 \<Longrightarrow> sint (ucast (c::u64) :: u32) = int (unat c)"
proof -
  assume a: "unat c < 2 ^ 31"
  then have b: "int (unat c) < 2 ^ 31" using of_nat_less_iff [of "unat c" "2 ^ 31", where 'a = int] by simp
  have u: "uint c = int (unat c)" by simp
  have e: "uint (ucast c :: u32) = uint c" proof -
    have "unat (ucast c :: u32) = unat c" using a by (simp add: unsigned_ucast_eq take_bit_nat_eq_self)
    then show ?thesis by (metis uint_nat)
  qed
  have lo: "- (2 ^ 31) \<le> uint c" by (rule order_trans [OF _ uint_ge_0]) simp
  have hi: "uint c < 2 ^ 31" by (subst u) (rule b)
  have "sint (ucast c :: u32) = signed_take_bit 31 (uint c)"
    unfolding sint_uint e by simp
  also have "\<dots> = uint c" by (rule signed_take_bit_int_eq_self [OF lo hi])
  finally show ?thesis unfolding u .
qed
lemma num_sleepers:
  assumes "0 \<le> w" "w < 2 ^ 31" "unat c < 2 ^ 31"
  shows "num_sleeper_threads w c = min w (int (unat c))"
proof -
  have "uint (word_of_int w :: u64) = w" using assms(1,2) by (simp add: uint_word_of_int)
  then have "word_of_int w < c \<longleftrightarrow> w < int (unat c)" by (simp add: word_less_def)
  then show ?thesis using u32_sint [OF assms(3)] by (simp add: num_sleeper_threads_def min_def)
qed

lemma init_sleepers_cores:
  assumes "0 \<le> w" "w < 2 ^ 31" "unat c < 2 ^ 31"
  shows "map (unat \<circ> target_core) (init_sleeper_threads w c) = [0..<min (nat w) (unat c)]"
proof -
  have n: "nat (num_sleeper_threads w c) = min (nat w) (unat c)"
    unfolding num_sleepers [OF assms] using assms(1) by (simp add: min_def nat_le_iff)
  have "unat (of_nat t :: u32) = t" if "t < min (nat w) (unat c)" for t
    using that assms(3) by (simp add: unsigned_of_nat take_bit_nat_eq_self)
  then show ?thesis unfolding init_sleeper_threads_def n by (intro nth_equalityI) simp_all
qed

text \<open>\<open>init_sleeper_threads\<close> starts, for any numbers of workers and cores below 2^31, exactly one
  sleeper on each of the logical cores 0 ... min(workers, cores) - 1, so every worker that is pinned to
  the core of its number shares it with a sleeper; and each sleeper's period is SLEEP_AMOUNT.\<close>

theorem sleepers_cover_workers:
  assumes "0 \<le> workers" "workers < 2 ^ 31" "unat cores < 2 ^ 31" "k < min (nat workers) (unat cores)"
  shows "(\<exists>!j. j < length (init_sleeper_threads workers cores) \<and>
    unat (target_core (init_sleeper_threads workers cores ! j)) = k) \<and>
    (\<forall>d \<in> set (init_sleeper_threads workers cores). unat (sleep_millis d) = SLEEP_AMOUNT)"
proof (rule conjI)
  let ?l = "init_sleeper_threads workers cores"
  let ?n = "min (nat workers) (unat cores)"
  have m: "map (unat \<circ> target_core) ?l = [0..<?n]" by (rule init_sleepers_cores [OF assms(1-3)])
  have len: "length ?l = ?n" using arg_cong [OF m, of length] by simp
  have core: "unat (target_core (?l ! j)) = j" if "j < ?n" for j
    using arg_cong [OF m, of "\<lambda>x. x ! j"] that len by simp
  show "\<exists>!j. j < length ?l \<and> unat (target_core (?l ! j)) = k"
    unfolding len by (rule ex1I [of _ k]) (use core assms(4) in auto)
  show "\<forall>d \<in> set ?l. unat (sleep_millis d) = SLEEP_AMOUNT"
    by (simp add: init_sleeper_threads_def SLEEP_AMOUNT_def)
qed

lemma sleepers_cover_workers_witness:
  "\<exists>!j. j < length (init_sleeper_threads 4 8) \<and> unat (target_core (init_sleeper_threads 4 8 ! j)) = 3"
  by (rule sleepers_cover_workers [THEN conjunct1]) simp_all

text \<open>C37: \<open>wakeup\<close> splits every period into a timeout from which seconds and nanoseconds give the period
  back, with no wrap-around, and whose nanoseconds are in the range that \<open>nanosleep\<close> accepts.\<close>

theorem wakeup_timeout_roundtrip:
  "unat (ts_sec (wakeup_timeout d)) * 1000 + unat (ts_nsec (wakeup_timeout d)) div 1000000 = unat (sleep_millis d) \<and>
   unat (ts_nsec (wakeup_timeout d)) < 10 ^ 9 \<and> 1000000 dvd unat (ts_nsec (wakeup_timeout d))"
proof -
  let ?m = "unat (sleep_millis d)"
  have m: "unat (sleep_millis d mod 1000) = ?m mod 1000" by (simp add: unat_mod)
  have "unat (ts_nsec (wakeup_timeout d)) = (?m mod 1000) * 1000000"
    by (simp add: wakeup_timeout_def unat_mult_lem [THEN iffD1] m)
  moreover have "unat (ts_sec (wakeup_timeout d)) = ?m div 1000"
    by (simp add: wakeup_timeout_def unat_div)
  ultimately show ?thesis by simp
qed

section \<open>The sleeper of the hybrid schemes\<close>

text \<open>What the other threads may do while the sleeper sleeps: anything that keeps the invariant, the
  caller's identity and the fallback mode, and leaves the presence bit of the absent thread k down.\<close>

definition absent_env :: "(nat \<Rightarrow> hybrid_state \<Rightarrow> hybrid_state) \<Rightarrow> nat \<Rightarrow> bool" where
  "absent_env env k \<longleftrightarrow> (\<forall>j s. (\<exists>ls. h_inv s ls []) \<longrightarrow>
     (\<exists>ls. h_inv (env j s) ls []) \<and> h_nthreads (env j s) = h_nthreads s \<and> h_me (env j s) = h_me s \<and>
     fallback (env j s) = fallback s \<and> (present_vect s ! k = 0 \<longrightarrow> present_vect (env j s) ! k = 0))"

definition fallback_with :: "nat \<Rightarrow> u8 \<Rightarrow> hybrid_state \<Rightarrow> bool" where
  "fallback_with me n s \<longleftrightarrow> (\<exists>ls. h_inv s ls []) \<and> h_nthreads s = n \<and> h_me s = me \<and> fallback s = 1"

lemma fallback_with_env:
  "absent_env env k \<Longrightarrow> fallback_with me n s \<Longrightarrow> present_vect s ! k = 0 \<Longrightarrow>
   fallback_with me n (env j s) \<and> present_vect (env j s) ! k = 0"
proof -
  assume a: "absent_env env k" and f: "fallback_with me n s" and z: "present_vect s ! k = 0"
  have "\<exists>ls. h_inv s ls []" using f unfolding fallback_with_def by (rule conjunct1)
  from a [unfolded absent_env_def, rule_format, OF this, of j] f z
  show ?thesis unfolding fallback_with_def by simp
qed

lemma fallback_with_reset:
  assumes "fallback_with me n s" "k < unat n"
  shows "\<exists>s'. reset_presence s = Some s' \<and> fallback_with me n s' \<and> present_vect s' ! k = 0"
proof -
  obtain ls where ls: "h_inv s ls []" using assms(1) unfolding fallback_with_def by blast
  let ?s = "s\<lparr>present_vect := replicate (unat (h_nthreads s)) 0\<rparr>"
  have "h_me ?s = h_me s" by (simp add: h_me_def)
  then have "fallback_with me n ?s"
    using assms(1) reset_presence_spec(2) [OF ls] by (auto simp: fallback_with_def)
  moreover have "present_vect ?s ! k = 0" using assms by (simp add: fallback_with_def)
  ultimately show ?thesis using reset_presence_spec(1) [OF ls] by blast
qed



text \<open>The sleepers of the other cores run no maintenance.\<close>

lemma wakeup_other_cores:
  assumes "target_core d \<noteq> 0" "\<forall>j < n. \<not> stop j" "stop n"
  shows "wakeup stop env maintenance d s = Some (fold env [0..<n] s)"
proof -
  have "wakeup_loop stop env maintenance (target_core d) (n - i) t = Some (fold env [n - i..<n] t)" if "i \<le> n" for i t
    using that
  proof (induction i arbitrary: t)
    case (Suc i)
    have "\<not> stop (n - Suc i)" and e: "Suc (n - Suc i) = n - i"
      using assms(2) Suc.prems by simp_all
    moreover have "[n - Suc i..<n] = (n - Suc i) # [n - i..<n]"
      using Suc.prems unfolding e [symmetric] by (simp add: upt_conv_Cons)
    ultimately show ?case using Suc assms(1) by (subst wakeup_loop.simps) simp
  qed (subst wakeup_loop.simps, use assms(3) in simp)
  from this [of n s] show ?thesis by (simp add: wakeup_def)
qed

end
