(* ===== verification/Harris.thy ===== *)
theory Harris
  imports Hazard
begin

text \<open>
  The client of the reclamation schemes: Harris' linked list as harris_opt.c of every
  src/linkedlist-* directory has it. The directories differ in the traversal (with hazard
  pointers, or plain under quiescent states), in the retirement function and in what an
  insertion does when no node is free; these are arguments here, and theory \<open>Harris_Variants\<close>
  instantiates them file by file. The operations are those of one thread running alone; the
  nodes the other threads left marked are part of the memory it finds.
\<close>

section \<open>Mark bits\<close>

definition is_marked_ref :: "ptr \<Rightarrow> bool" where
  "is_marked_ref i \<longleftrightarrow> i AND 1 \<noteq> 0"

definition get_unmarked_ref :: "ptr \<Rightarrow> ptr" where
  "get_unmarked_ref w = w AND NOT 1"

definition get_marked_ref :: "ptr \<Rightarrow> ptr" where
  "get_marked_ref w = w OR 1"

section \<open>Nodes\<close>

definition KEY_MIN :: skey_t where "KEY_MIN = - (2 ^ 31)"

definition KEY_MAX :: skey_t where "KEY_MAX = 2 ^ 31 - 3"

definition load_next :: "ptr \<Rightarrow> 'a mem_scheme \<Rightarrow> ptr option" where
  "load_next p m = map_option n_next (nodes m p)"

text \<open>\<open>CAS_PTR(&p->next, old, new)\<close>: the value found, and the memory.\<close>

definition cas_next :: "ptr \<Rightarrow> ptr \<Rightarrow> ptr \<Rightarrow> 'a mem_scheme \<Rightarrow> (ptr \<times> 'a mem_scheme) option" where
  "cas_next p old new m = do {
     n \<leftarrow> nodes m p;
     Some (n_next n, if n_next n = old then m\<lparr>nodes := (nodes m)(p \<mapsto> n\<lparr>n_next := new\<rparr>)\<rparr> else m)
   }"

definition new_node :: "skey_t \<Rightarrow> sval_t \<Rightarrow> ptr \<Rightarrow> 'a mem_scheme \<Rightarrow> (ptr \<times> 'a mem_scheme) option" where
  "new_node key val next m =
     (let (p, al) = ssalloc_alloc 0 (of_nat NODE_SIZE) (alloc m);
          m1 = m\<lparr>alloc := al\<rparr>
      in if p = NULL then Some (NULL, m1)
         else do {
           n \<leftarrow> nodes m1 p;
           Some (p, m1\<lparr>nodes := (nodes m1)(p \<mapsto> n\<lparr>n_key := key, n_val := val, n_next := next\<rparr>)\<rparr>)
         })"

text \<open>The two sentinels; the result is the head pointer of the new set.\<close>

definition set_new :: "'a mem_scheme \<Rightarrow> (ptr \<times> 'a mem_scheme) option" where
  "set_new m = do {
     (max, m1) \<leftarrow> new_node KEY_MAX 0 NULL m;
     new_node KEY_MIN 0 max m1
   }"

section \<open>Searching\<close>

definition physical_delete_right ::
  "(ptr \<Rightarrow> 'a mem_scheme \<Rightarrow> 'a mem_scheme option) \<Rightarrow> ptr \<Rightarrow> ptr \<Rightarrow> 'a mem_scheme \<Rightarrow> (bool \<times> 'a mem_scheme) option" where
  "physical_delete_right retire left_node right_node m = do {
     rn \<leftarrow> load_next right_node m;
     (res, m1) \<leftarrow> cas_next left_node right_node (get_unmarked_ref rn) m;
     if res = right_node then do { m2 \<leftarrow> retire res m1; Some (True, m2) } else Some (False, m1)
   }"

text \<open>The traversal with hazard pointers. \<open>try_again_search\<close> starts over at the head and keeps
  \<open>offset\<close>.\<close>

partial_function (option) search_loop ::
  "(ptr \<Rightarrow> 'a mem_scheme \<Rightarrow> 'a mem_scheme option) \<Rightarrow> ptr \<Rightarrow> nat \<Rightarrow> skey_t \<Rightarrow> nat \<Rightarrow> ptr \<Rightarrow> ptr \<Rightarrow>
   'a mem_scheme \<Rightarrow> (ptr \<times> ptr \<times> 'a mem_scheme) option" where
  "search_loop retire head base key offset left_node right_node m =
     (if base + offset < length (HP m) then do {
        let m1 = m\<lparr>HP := (HP m)[base + offset := right_node]\<rparr>;
        ln \<leftarrow> load_next left_node m1;
        if right_node \<noteq> ln then do {
          first \<leftarrow> load_next head m1;
          search_loop retire head base key offset head first m1
        } else do {
          rn \<leftarrow> nodes m1 right_node;
          if \<not> is_marked_ref (n_next rn) then
            if n_key rn \<ge> key then Some (left_node, right_node, m1)
            else search_loop retire head base key (1 - offset) right_node (get_unmarked_ref (n_next rn)) m1
          else do {
            (removed, m2) \<leftarrow> physical_delete_right retire left_node right_node m1;
            next \<leftarrow> load_next right_node m2;
            search_loop retire head base key (1 - offset) left_node (get_unmarked_ref next) m2
          }
        }
      } else None)"

declare search_loop.simps [code]

definition list_search ::
  "(ptr \<Rightarrow> 'a mem_scheme \<Rightarrow> 'a mem_scheme option) \<Rightarrow> ptr \<Rightarrow> nat \<Rightarrow> skey_t \<Rightarrow>
   'a mem_scheme \<Rightarrow> (ptr \<times> ptr \<times> 'a mem_scheme) option" where
  "list_search retire head base key m = do {
     first \<leftarrow> load_next head m;
     search_loop retire head base key 0 head first m
   }"

text \<open>The traversal without hazard pointers, under quiescent states.\<close>

partial_function (option) plain_search_loop ::
  "(ptr \<Rightarrow> 'a mem_scheme \<Rightarrow> 'a mem_scheme option) \<Rightarrow> skey_t \<Rightarrow> ptr \<Rightarrow> ptr \<Rightarrow>
   'a mem_scheme \<Rightarrow> (ptr \<times> ptr \<times> 'a mem_scheme) option" where
  "plain_search_loop retire key left_node right_node m = do {
     rn \<leftarrow> nodes m right_node;
     if \<not> is_marked_ref (n_next rn) then
       if n_key rn \<ge> key then Some (left_node, right_node, m)
       else plain_search_loop retire key right_node (get_unmarked_ref (n_next rn)) m
     else do {
       (removed, m1) \<leftarrow> physical_delete_right retire left_node right_node m;
       next \<leftarrow> load_next right_node m1;
       plain_search_loop retire key left_node (get_unmarked_ref next) m1
     }
   }"

declare plain_search_loop.simps [code]

definition plain_list_search ::
  "(ptr \<Rightarrow> 'a mem_scheme \<Rightarrow> 'a mem_scheme option) \<Rightarrow> ptr \<Rightarrow> skey_t \<Rightarrow>
   'a mem_scheme \<Rightarrow> (ptr \<times> ptr \<times> 'a mem_scheme) option" where
  "plain_list_search retire head key m = do {
     first \<leftarrow> load_next head m;
     plain_search_loop retire key head first m
   }"

section \<open>Lookup\<close>

partial_function (option) find_loop ::
  "ptr \<Rightarrow> nat \<Rightarrow> skey_t \<Rightarrow> nat \<Rightarrow> ptr \<Rightarrow> ptr \<Rightarrow> 'a mem_scheme \<Rightarrow> (ptr \<times> 'a mem_scheme) option" where
  "find_loop head base key offset left_node right_node m =
     (if base + offset < length (HP m) then do {
        let m1 = m\<lparr>HP := (HP m)[base + offset := right_node]\<rparr>;
        ln \<leftarrow> load_next left_node m1;
        if right_node \<noteq> ln then do {
          first \<leftarrow> load_next head m1;
          find_loop head base key offset head first m1
        } else do {
          rn \<leftarrow> nodes m1 right_node;
          if n_key rn \<ge> key then Some (right_node, m1)
          else find_loop head base key (1 - offset) right_node (get_unmarked_ref (n_next rn)) m1
        }
      } else None)"

declare find_loop.simps [code]

text \<open>The answer read off the node the search stopped at.\<close>

definition find_result :: "skey_t \<Rightarrow> ptr \<Rightarrow> 'a mem_scheme \<Rightarrow> sval_t option" where
  "find_result key p m = do {
     n \<leftarrow> nodes m p;
     Some (if n_key n = key \<and> \<not> is_marked_ref (n_next n) then n_val n else 0)
   }"

definition harris_find :: "ptr \<Rightarrow> nat \<Rightarrow> skey_t \<Rightarrow> 'a mem_scheme \<Rightarrow> (sval_t \<times> 'a mem_scheme) option" where
  "harris_find head base key m = do {
     first \<leftarrow> load_next head m;
     (p, m1) \<leftarrow> find_loop head base key 0 head first m;
     v \<leftarrow> find_result key p m1;
     Some (v, m1)
   }"

partial_function (option) plain_find_loop :: "skey_t \<Rightarrow> ptr \<Rightarrow> 'a mem_scheme \<Rightarrow> ptr option" where
  "plain_find_loop key p m = do {
     n \<leftarrow> nodes m p;
     if n_key n < key then plain_find_loop key (get_unmarked_ref (n_next n)) m else Some p
   }"

declare plain_find_loop.simps [code]

definition plain_harris_find :: "ptr \<Rightarrow> skey_t \<Rightarrow> 'a mem_scheme \<Rightarrow> (sval_t \<times> 'a mem_scheme) option" where
  "plain_harris_find head key m = do {
     first \<leftarrow> load_next head m;
     p \<leftarrow> plain_find_loop key first m;
     v \<leftarrow> find_result key p m;
     Some (v, m)
   }"

section \<open>Insertion\<close>

text \<open>A node for the insertion. With \<open>src/linkedlist-smr-harris_opt\<close> one scan and one more attempt,
  whose failure goes unnoticed; elsewhere attempts until one succeeds.\<close>

definition node_or_scan ::
  "('a mem_scheme \<Rightarrow> 'a mem_scheme option) \<Rightarrow> skey_t \<Rightarrow> sval_t \<Rightarrow> ptr \<Rightarrow> 'a mem_scheme \<Rightarrow> (ptr \<times> 'a mem_scheme) option" where
  "node_or_scan scan key val right_node m = do {
     (p, m1) \<leftarrow> new_node key val right_node m;
     if p = NULL then do { m2 \<leftarrow> scan m1; new_node key val right_node m2 } else Some (p, m1)
   }"

partial_function (option) node_loop ::
  "(int \<Rightarrow> 'a mem_scheme \<Rightarrow> 'a mem_scheme option) \<Rightarrow>
   (skey_t \<Rightarrow> sval_t \<Rightarrow> ptr \<Rightarrow> 'a mem_scheme \<Rightarrow> (ptr \<times> 'a mem_scheme) option) \<Rightarrow> int \<Rightarrow>
   skey_t \<Rightarrow> sval_t \<Rightarrow> ptr \<Rightarrow> 'a mem_scheme \<Rightarrow> (ptr \<times> 'a mem_scheme) option" where
  "node_loop fail mk trials key val right_node m = do {
     (p, m1) \<leftarrow> mk key val right_node m;
     if p = NULL then do { m2 \<leftarrow> fail trials m1; node_loop fail mk (trials + 1) key val right_node m2 }
     else Some (p, m1)
   }"

declare node_loop.simps [code]

partial_function (option) harris_insert ::
  "(skey_t \<Rightarrow> 'a mem_scheme \<Rightarrow> (ptr \<times> ptr \<times> 'a mem_scheme) option) \<Rightarrow>
   (skey_t \<Rightarrow> sval_t \<Rightarrow> ptr \<Rightarrow> 'a mem_scheme \<Rightarrow> (ptr \<times> 'a mem_scheme) option) \<Rightarrow>
   skey_t \<Rightarrow> sval_t \<Rightarrow> 'a mem_scheme \<Rightarrow> (int \<times> 'a mem_scheme) option" where
  "harris_insert search get key val m = do {
     (left_node, right_node, m1) \<leftarrow> search key m;
     rn \<leftarrow> nodes m1 right_node;
     if n_key rn = key then Some (0, m1)
     else do {
       (p, m2) \<leftarrow> get key val right_node m1;
       (res, m3) \<leftarrow> cas_next left_node right_node p m2;
       if res = right_node then Some (1, m3)
       else harris_insert search get key val (m3\<lparr>alloc := ssfree_alloc 0 p (alloc m3)\<rparr>)
     }
   }"

declare harris_insert.simps [code]

section \<open>Deletion\<close>

partial_function (option) harris_delete ::
  "(skey_t \<Rightarrow> 'a mem_scheme \<Rightarrow> (ptr \<times> ptr \<times> 'a mem_scheme) option) \<Rightarrow>
   (ptr \<Rightarrow> 'a mem_scheme \<Rightarrow> 'a mem_scheme option) \<Rightarrow> skey_t \<Rightarrow> 'a mem_scheme \<Rightarrow> (sval_t \<times> 'a mem_scheme) option" where
  "harris_delete search retire key m = do {
     (left_node, right_node, m1) \<leftarrow> search key m;
     rn \<leftarrow> nodes m1 right_node;
     if n_key rn \<noteq> key then Some (0, m1)
     else do {
       let unmarked_ref = get_unmarked_ref (n_next rn);
       (cas_result, m2) \<leftarrow> cas_next right_node unmarked_ref (get_marked_ref unmarked_ref) m1;
       if cas_result \<noteq> unmarked_ref then harris_delete search retire key m2
       else do {
         rn' \<leftarrow> nodes m2 right_node;
         let ret = n_val rn';
         (removed, m3) \<leftarrow> physical_delete_right retire left_node right_node m2;
         if removed then Some (ret, m3)
         else do { (_, _, m4) \<leftarrow> search key m3; Some (ret, m4) }
       }
     }
   }"

declare harris_delete.simps [code]

section \<open>Size\<close>

text \<open>\<open>size_t\<close> counts, the result is an \<open>int\<close>.\<close>

partial_function (option) size_loop :: "ptr \<Rightarrow> u64 \<Rightarrow> 'a mem_scheme \<Rightarrow> u64 option" where
  "size_loop p n m = do {
     c \<leftarrow> nodes m p;
     if get_unmarked_ref (n_next c) \<noteq> NULL then
       size_loop (get_unmarked_ref (n_next c)) (if is_marked_ref (n_next c) then n else n + 1) m
     else Some n
   }"

declare size_loop.simps [code]

definition set_size :: "ptr \<Rightarrow> 'a mem_scheme \<Rightarrow> int option" where
  "set_size head m = do {
     first \<leftarrow> load_next head m;
     n \<leftarrow> size_loop (get_unmarked_ref first) 0 m;
     Some (sint (ucast n :: 32 word))
   }"

end
