(* ===== verification/Harris_List.thy ===== *)
theory Harris_List
  imports Harris Rotation
begin

text \<open>
  What Harris' list computes, for one thread running alone on a list that may contain nodes
  marked by others, over any reclamation scheme that keeps the contract \<open>reclaimer\<close>: the list is
  a sorted chain of nodes, and its operations are those of a finite map from keys to values.
\<close>

section \<open>Mark bits\<close>

lemma bit_one_word: "bit (1 :: 'a::len word) n \<longleftrightarrow> n = 0"
  by (cases n) (simp_all add: bit_0 bit_Suc)

lemma bit_unmarked: "bit (get_unmarked_ref w) n \<longleftrightarrow> bit w n \<and> n \<noteq> 0"
  by (auto simp: get_unmarked_ref_def bit_and_iff bit_not_iff bit_one_word dest: bit_imp_le_length)

lemma bit_marked: "bit (get_marked_ref w) n \<longleftrightarrow> bit w n \<or> n = 0"
  by (auto simp: get_marked_ref_def bit_or_iff bit_one_word)

lemma is_marked_ref_bit: "is_marked_ref w \<longleftrightarrow> bit w 0"
proof -
  have "w AND 1 = (if bit w 0 then 1 else 0)"
    by (rule bit_word_eqI) (auto simp: bit_and_iff bit_one_word intro!: gr0I)
  then show ?thesis by (simp add: is_marked_ref_def)
qed

lemma get_marked_ref_unmarked [simp]: "get_unmarked_ref (get_marked_ref w) = get_unmarked_ref w"
  by (rule bit_word_eqI) (auto simp: bit_unmarked bit_marked)

lemma get_unmarked_ref_idem [simp]: "get_unmarked_ref (get_unmarked_ref w) = get_unmarked_ref w"
  by (rule bit_word_eqI) (auto simp: bit_unmarked)

lemma unmarked_iff: "\<not> is_marked_ref w \<longleftrightarrow> get_unmarked_ref w = w"
proof
  assume "\<not> is_marked_ref w"
  then show "get_unmarked_ref w = w"
    by (intro bit_word_eqI) (metis bit_unmarked is_marked_ref_bit)
next
  assume "get_unmarked_ref w = w"
  then show "\<not> is_marked_ref w" by (metis bit_unmarked is_marked_ref_bit)
qed

lemma is_marked_unmarked [simp]: "\<not> is_marked_ref (get_unmarked_ref w)"
  by (simp add: unmarked_iff)

lemma is_marked_marked [simp]: "is_marked_ref (get_marked_ref w)"
  by (simp add: is_marked_ref_bit bit_marked)

lemma unmarked_NULL [simp]: "get_unmarked_ref NULL = NULL" "\<not> is_marked_ref NULL"
  by (simp_all add: get_unmarked_ref_def is_marked_ref_def)

section \<open>The list in memory\<close>

definition val_at :: "'a mem_scheme \<Rightarrow> ptr \<Rightarrow> sval_t option" where
  "val_at m p = map_option n_val (nodes m p)"

definition dead :: "'a mem_scheme \<Rightarrow> ptr \<Rightarrow> bool" where
  "dead m p \<longleftrightarrow> (case load_next p m of None \<Rightarrow> False | Some x \<Rightarrow> is_marked_ref x)"

definition linked :: "'a mem_scheme \<Rightarrow> ptr \<Rightarrow> ptr \<Rightarrow> bool" where
  "linked m p q \<longleftrightarrow> (case load_next p m of None \<Rightarrow> False | Some x \<Rightarrow> get_unmarked_ref x = q)"

text \<open>\<open>ks\<close>: the nodes after the sentinel \<open>head\<close>, the other sentinel last. Keys of live and marked
  nodes alike are strictly sorted.\<close>

definition key_less :: "'a mem_scheme \<Rightarrow> ptr \<Rightarrow> ptr \<Rightarrow> bool" where
  "key_less m p q \<longleftrightarrow> the (key_at m p) < the (key_at m q)"

definition list_ok :: "'a mem_scheme \<Rightarrow> ptr \<Rightarrow> ptr list \<Rightarrow> bool" where
  "list_ok m head ps \<longleftrightarrow>
     ps \<noteq> [] \<and> distinct (head # ps) \<and> NULL \<notin> set (head # ps) \<and> successively (linked m) (head # ps) \<and>
     load_next (last ps) m = Some NULL \<and> \<not> dead m head \<and> sorted_wrt (key_less m) ps \<and>
     key_at m (last ps) = Some KEY_MAX \<and> (\<forall>p \<in> set (head # ps). load_next p m \<noteq> None)"

text \<open>The map the list stands for: keys and values of the live nodes between the sentinels.\<close>

definition contents :: "'a mem_scheme \<Rightarrow> ptr list \<Rightarrow> skey_t \<rightharpoonup> sval_t" where
  "contents m ps = map_of (map (\<lambda>p. (the (key_at m p), the (val_at m p))) (filter (\<lambda>p. \<not> dead m p) (butlast ps)))"

lemma nodes_iff: "nodes m p = None \<longleftrightarrow> load_next p m = None" "nodes m p = None \<longleftrightarrow> key_at m p = None"
  "nodes m p = None \<longleftrightarrow> val_at m p = None"
  by (simp_all add: load_next_def key_at_def val_at_def)

lemma contents_eqI:
  assumes "filter (\<lambda>p. \<not> dead m' p) (butlast ps') = filter (\<lambda>p. \<not> dead m p) (butlast ps)"
    and "\<And>p. p \<in> set (butlast ps) \<Longrightarrow> key_at m' p = key_at m p \<and> val_at m' p = val_at m p"
  shows "contents m' ps' = contents m ps"
proof -
  have "map (\<lambda>p. (the (key_at m' p), the (val_at m' p))) (filter (\<lambda>p. \<not> dead m p) (butlast ps)) =
      map (\<lambda>p. (the (key_at m p), the (val_at m p))) (filter (\<lambda>p. \<not> dead m p) (butlast ps))"
    by (rule map_cong [OF refl]) (use assms(2) in \<open>simp only: set_filter mem_Collect_eq\<close>)
  then show ?thesis by (simp only: contents_def assms(1))
qed

text \<open>Only keys, values and next pointers of the list's nodes count.\<close>

definition same_nodes :: "'a mem_scheme \<Rightarrow> 'b mem_scheme \<Rightarrow> ptr set \<Rightarrow> bool" where
  "same_nodes m m' S \<longleftrightarrow>
     (\<forall>p \<in> S. load_next p m' = load_next p m \<and> key_at m' p = key_at m p \<and> val_at m' p = val_at m p)"

lemma same_nodes_dead: "same_nodes m m' S \<Longrightarrow> p \<in> S \<Longrightarrow> dead m' p = dead m p \<and> linked m' p = linked m p"
  by (simp add: same_nodes_def dead_def linked_def fun_eq_iff)

lemma list_ok_cong:
  assumes s: "same_nodes m m' (set (head # ps))" and ok: "list_ok m head ps"
  shows "list_ok m' head ps" "contents m' ps = contents m ps"
proof -
  have ne: "ps \<noteq> []" using ok by (simp add: list_ok_def)
  note d = same_nodes_dead [OF s]
  have k: "key_at m' p = key_at m p" "val_at m' p = val_at m p" "load_next p m' = load_next p m" if "p \<in> set ps" for p
    using s that by (simp_all add: same_nodes_def)
  have "successively (linked m') (head # ps)"
    using ok successively_cong [of "head # ps" "linked m'" "linked m" "head # ps"] d by (simp add: list_ok_def)
  moreover have "sorted_wrt (key_less m') ps"
    using ok k by (auto simp: list_ok_def key_less_def elim!: sorted_wrt_mono_rel [rotated])
  moreover have "\<forall>p \<in> set (head # ps). load_next p m' \<noteq> None"
    using s ok by (simp only: same_nodes_def list_ok_def) simp
  moreover have "load_next (last ps) m' = Some NULL" "key_at m' (last ps) = Some KEY_MAX"
    using ok k ne by (simp_all add: list_ok_def)
  ultimately show "list_ok m' head ps" using ok d by (simp add: list_ok_def)
  have sub: "p \<in> set (butlast ps) \<Longrightarrow> p \<in> set ps" for p by (rule in_set_butlastD)
  have "filter (\<lambda>p. \<not> dead m' p) (butlast ps) = filter (\<lambda>p. \<not> dead m p) (butlast ps)"
    by (rule filter_cong) (use d sub in auto)
  then show "contents m' ps = contents m ps" by (rule contents_eqI) (simp add: sub k)
qed

section \<open>Changes of one next pointer\<close>

text \<open>\<open>m'\<close> is \<open>m\<close> with \<open>x\<close> in the next field of \<open>l\<close>.\<close>

definition relinked :: "'a mem_scheme \<Rightarrow> 'a mem_scheme \<Rightarrow> ptr \<Rightarrow> ptr \<Rightarrow> ptr set \<Rightarrow> bool" where
  "relinked m m' l x S \<longleftrightarrow> load_next l m' = Some x \<and>
     (\<forall>p \<in> S. key_at m' p = key_at m p \<and> val_at m' p = val_at m p \<and> (p \<noteq> l \<longrightarrow> load_next p m' = load_next p m))"

lemma relinked_other:
  assumes "relinked m m' l x S" "p \<in> S" "p \<noteq> l"
  shows "dead m' p = dead m p" "linked m' p = linked m p"
  using assms by (simp_all add: relinked_def dead_def linked_def fun_eq_iff)

lemma relinked_self:
  assumes "relinked m m' l x S"
  shows "dead m' l = is_marked_ref x" "linked m' l q = (get_unmarked_ref x = q)"
  using assms by (simp_all add: relinked_def dead_def linked_def)

lemma cas_next_relinked:
  assumes "load_next l m = Some old"
  obtains m' where "cas_next l old new m = Some (old, m')" "\<forall>S. relinked m m' l new S"
    "m' = m\<lparr>nodes := nodes m'\<rparr>" "\<forall>p. nodes m' p = None \<longleftrightarrow> nodes m p = None"
proof -
  obtain n where n: "nodes m l = Some n" "n_next n = old" using assms by (auto simp: load_next_def)
  show ?thesis
    by (rule that [of "m\<lparr>nodes := (nodes m)(l \<mapsto> n\<lparr>n_next := new\<rparr>)\<rparr>"])
      (auto simp: n cas_next_def relinked_def load_next_def key_at_def val_at_def)
qed

lemma linked_cong:
  assumes "\<forall>q \<in> set xs. linked m' q = linked m q"
  shows "successively (linked m') xs = successively (linked m) xs"
  by (rule successively_cong) (use assms in auto)

lemma successively_last:
  assumes s: "successively (linked m) (head # done)" and d: "distinct (head # done)"
    and r: "relinked m m' (last (head # done)) x (set (head # done))"
  shows "successively (linked m') (head # done)"
proof -
  obtain A l where A: "head # done = A @ [l]" using append_butlast_last_id [of "head # done"] by (metis list.discI)
  have "linked m' p = linked m p" if "p \<in> set A" for p
    using relinked_other(2) [OF r, of p] that d unfolding A by auto
  then have "successively (linked m') A = successively (linked m) A" "A \<noteq> [] \<Longrightarrow> linked m' (last A) = linked m (last A)"
    using successively_cong [of A "linked m'" "linked m" A] by auto
  then show ?thesis using s unfolding A successively_append_iff by (cases "A = []") simp_all
qed

lemma key_less_cong:
  "\<forall>p \<in> set ps. key_at m' p = key_at m p \<Longrightarrow> sorted_wrt (key_less m) ps \<Longrightarrow> sorted_wrt (key_less m') ps"
  by (induction ps) (auto simp: key_less_def)

lemma last_done: "last (head # done) \<in> set (head # done)"
  by (rule last_in_set) simp

text \<open>A dead node is unlinked.\<close>

lemma list_ok_unlink:
  assumes ok: "list_ok m head (done @ p # rest)" and p: "dead m p" and live: "\<not> dead m (last (head # done))"
    and x: "load_next p m = Some x"
    and r: "relinked m m' (last (head # done)) (get_unmarked_ref x) (set (head # done @ p # rest))"
  shows "list_ok m' head (done @ rest)" "contents m' (done @ rest) = contents m (done @ p # rest)" "rest \<noteq> []"
    "get_unmarked_ref x = hd rest"
proof -
  define l where "l = last (head # done)"
  note r = r [folded l_def] and live = live [folded l_def]
  show ne: "rest \<noteq> []" using ok p by (auto simp: list_ok_def dead_def)
  have sc: "successively (linked m) ((head # done) @ [p] @ rest)" and d: "distinct (head # done @ p # rest)"
    using ok by (simp_all add: list_ok_def)
  then have s1: "successively (linked m) (head # done)" "successively (linked m) rest" "linked m p (hd rest)"
    using ne by (simp_all only: successively_append_iff successively_Cons last.simps append_Cons append_Nil) auto
  show hd: "get_unmarked_ref x = hd rest" using s1(3) x by (simp add: linked_def)
  have l_in: "l \<in> set (head # done)" unfolding l_def by (rule last_done)
  have l_out: "l \<notin> set (p # rest)" using d l_in by auto
  have r': "relinked m m' l (get_unmarked_ref x) (set (head # done))" using r by (simp add: relinked_def)
  have keys: "\<forall>q \<in> set (head # done @ p # rest). key_at m' q = key_at m q \<and> val_at m' q = val_at m q"
    using r unfolding relinked_def by blast
  have nx: "load_next q m' = load_next q m" "dead m' q = dead m q" "linked m' q = linked m q"
    if "q \<in> set (head # done @ p # rest)" "q \<noteq> l" for q
    using r that relinked_other [OF r that] unfolding relinked_def by blast+
  have dl: "\<not> dead m' l" unfolding relinked_self(1) [OF r] by simp
  have "successively (linked m') (head # done)"
    by (rule successively_last [OF s1(1) _ r' [unfolded l_def]]) (use d in simp)
  moreover have "linked m' q = linked m q" if "q \<in> set rest" for q
    by (rule nx(3)) (use that l_out in auto)
  then have "successively (linked m') rest"
    using s1(2) linked_cong [of rest m' m] by simp
  moreover have "linked m' l (hd rest)" unfolding relinked_self(2) [OF r] hd [symmetric] by simp
  ultimately have "successively (linked m') ((head # done) @ rest)" unfolding successively_append_iff l_def by blast
  moreover have "sorted_wrt (key_less m') (done @ rest)"
  proof (rule key_less_cong)
    show "\<forall>q \<in> set (done @ rest). key_at m' q = key_at m q" using keys by simp
    show "sorted_wrt (key_less m) (done @ rest)" using ok by (simp add: list_ok_def sorted_wrt_append)
  qed
  moreover have "load_next (last rest) m' = Some NULL" "key_at m' (last rest) = Some KEY_MAX"
  proof -
    have lr: "last rest \<in> set (head # done @ p # rest)" "last rest \<noteq> l"
      using last_in_set [OF ne] l_out by auto
    have "load_next (last rest) m = Some NULL" "key_at m (last rest) = Some KEY_MAX"
      using ok ne by (simp_all add: list_ok_def)
    then show "load_next (last rest) m' = Some NULL" "key_at m' (last rest) = Some KEY_MAX"
      using nx(1) [OF lr] bspec [OF keys lr(1)] by simp_all
  qed
  moreover have "load_next q m' \<noteq> None" if "q \<in> set (head # done @ rest)" for q
  proof (cases "q = l")
    case True then show ?thesis using r by (simp add: relinked_def)
  next
    case False
    have "load_next q m \<noteq> None" using ok that by (auto simp: list_ok_def)
    then show ?thesis using nx(1) [OF _ False] that by auto
  qed
  moreover have "\<not> dead m' head"
    using nx(2) [of head] dl ok by (cases "head = l") (auto simp: list_ok_def)
  ultimately show "list_ok m' head (done @ rest)" using ok ne by (simp add: list_ok_def)
  have dead_eq: "dead m' q = dead m q" if "q \<in> set (head # done @ p # rest)" for q
    using nx(2) [OF that] dl live by blast
  have bl: "butlast (done @ p # rest) = done @ p # butlast rest" "butlast (done @ rest) = done @ butlast rest"
    using ne by (simp_all add: butlast_append)
  have in_r: "q \<in> set (butlast rest) \<Longrightarrow> q \<in> set rest" for q by (rule in_set_butlastD)
  have "filter (\<lambda>q. \<not> dead m' q) (done @ butlast rest) = filter (\<lambda>q. \<not> dead m q) (done @ butlast rest)"
    by (rule filter_cong) (use dead_eq in_r in auto)
  also have "\<dots> = filter (\<lambda>q. \<not> dead m q) (done @ p # butlast rest)" using p by simp
  finally have f: "filter (\<lambda>q. \<not> dead m' q) (done @ butlast rest) = filter (\<lambda>q. \<not> dead m q) (done @ p # butlast rest)" .
  show "contents m' (done @ rest) = contents m (done @ p # rest)"
    by (rule contents_eqI) (use f keys in_r in \<open>auto simp: bl\<close>)
qed

text \<open>Distinct keys make the map pointwise.\<close>

lemma list_ok_keys:
  assumes "list_ok m head ps"
  shows "\<forall>p \<in> set ps. \<exists>k v x. key_at m p = Some k \<and> val_at m p = Some v \<and> load_next p m = Some x"
    "inj_on (\<lambda>p. the (key_at m p)) (set ps)"
proof -
  show "\<forall>p \<in> set ps. \<exists>k v x. key_at m p = Some k \<and> val_at m p = Some v \<and> load_next p m = Some x"
  proof
    fix p assume "p \<in> set ps"
    then have "nodes m p \<noteq> None" using assms nodes_iff(1) [of m p] by (simp add: list_ok_def)
    then show "\<exists>k v x. key_at m p = Some k \<and> val_at m p = Some v \<and> load_next p m = Some x"
      by (auto simp: key_at_def val_at_def load_next_def)
  qed
  have "sorted_wrt (\<lambda>p q. the (key_at m p) < the (key_at m q)) ps"
    using assms by (simp add: list_ok_def key_less_def [abs_def])
  then have "sorted_wrt (<) (map (\<lambda>p. the (key_at m p)) ps)" by (simp only: sorted_wrt_map)
  then have "distinct (map (\<lambda>p. the (key_at m p)) ps)" by (simp only: strict_sorted_iff)
  then show "inj_on (\<lambda>p. the (key_at m p)) (set ps)" by (simp only: distinct_map)
qed

lemma contents_Some:
  assumes ok: "list_ok m head ps"
  shows "contents m ps k = Some v \<longleftrightarrow>
    (\<exists>p \<in> set (butlast ps). \<not> dead m p \<and> key_at m p = Some k \<and> val_at m p = Some v)"
proof -
  let ?f = "\<lambda>p. (the (key_at m p), the (val_at m p))" and ?xs = "filter (\<lambda>p. \<not> dead m p) (butlast ps)"
  have sub: "set ?xs \<subseteq> set ps" by (auto dest: in_set_butlastD)
  have "inj_on (\<lambda>p. the (key_at m p)) (set ?xs)" by (rule inj_on_subset [OF list_ok_keys(2) [OF ok] sub])
  moreover have "distinct ?xs" using ok by (simp add: list_ok_def distinct_butlast)
  ultimately have "distinct (map fst (map ?f ?xs))" by (simp add: distinct_map comp_def)
  then have "contents m ps k = Some v \<longleftrightarrow> (k, v) \<in> set (map ?f ?xs)"
    unfolding contents_def by (rule map_of_eq_Some_iff)
  also have "\<dots> \<longleftrightarrow> (\<exists>p \<in> set (butlast ps). \<not> dead m p \<and> ?f p = (k, v))" by auto
  also have "\<dots> \<longleftrightarrow> (\<exists>p \<in> set (butlast ps). \<not> dead m p \<and> key_at m p = Some k \<and> val_at m p = Some v)"
  proof (rule bex_cong [OF refl])
    fix p assume "p \<in> set (butlast ps)"
    then obtain k' v' where "key_at m p = Some k'" "val_at m p = Some v'"
      using list_ok_keys(1) [OF ok] in_set_butlastD by fast
    then show "\<not> dead m p \<and> ?f p = (k, v) \<longleftrightarrow> \<not> dead m p \<and> key_at m p = Some k \<and> val_at m p = Some v" by simp
  qed
  finally show ?thesis .
qed

lemma map_eqI:
  assumes "\<And>k v. f k = Some v \<longleftrightarrow> g k = Some v"
  shows "f = g"
proof
  fix x show "f x = g x" using assms [of x] by (metis not_Some_eq)
qed

text \<open>A fresh node is linked in.\<close>

lemma list_ok_insert:
  assumes ok: "list_ok m head (done @ r # post)" and live: "\<not> dead m (last (head # done))"
    and p: "p \<notin> set (head # done @ r # post)" "p \<noteq> NULL" "get_unmarked_ref p = p" "load_next p m = Some r"
      "key_at m p = Some k" "val_at m p = Some v"
    and k: "\<forall>q \<in> set done. the (key_at m q) < k" "k < the (key_at m r)"
    and rl: "relinked m m' (last (head # done)) p (set (p # head # done @ r # post))"
  shows "list_ok m' head (done @ p # r # post)" "contents m' (done @ p # r # post) = (contents m (done @ r # post))(k \<mapsto> v)"
proof -
  define l where "l = last (head # done)"
  note rl = rl [folded l_def] and live = live [folded l_def]
  have sc: "successively (linked m) ((head # done) @ (r # post))" and d: "distinct (head # done @ r # post)"
    using ok by (simp_all add: list_ok_def)
  have s1: "successively (linked m) (head # done)" "successively (linked m) (r # post)" "linked m l r"
    using sc [unfolded successively_append_iff] unfolding l_def by (simp_all only: list.sel list.simps simp_thms)
  have r_un: "get_unmarked_ref r = r" using s1(3) by (auto simp: linked_def split: option.splits)
  have l_in: "l \<in> set (head # done)" unfolding l_def by (rule last_done)
  have l_out: "l \<notin> set (r # post)" "l \<noteq> p" using d l_in p(1) by auto
  have keys: "\<forall>q \<in> set (p # head # done @ r # post). key_at m' q = key_at m q \<and> val_at m' q = val_at m q"
    using rl unfolding relinked_def by blast
  have nx: "load_next q m' = load_next q m" "dead m' q = dead m q" "linked m' q = linked m q"
    if "q \<in> set (p # head # done @ r # post)" "q \<noteq> l" for q
    using rl that relinked_other [OF rl that] unfolding relinked_def by blast+
  have dl: "\<not> dead m' l" unfolding relinked_self(1) [OF rl] using p(3) unmarked_iff by blast
  have dp: "\<not> dead m p" using p(4) r_un unmarked_iff by (simp add: dead_def)
  have rl': "relinked m m' l p (set (head # done))" using rl by (simp add: relinked_def)
  have "successively (linked m') (head # done)"
    by (rule successively_last [OF s1(1) _ rl' [unfolded l_def]]) (use d in simp)
  moreover have "linked m' q = linked m q" if "q \<in> set (r # post)" for q
    by (rule nx(3)) (use that l_out in auto)
  then have "successively (linked m') (r # post)"
    using s1(2) linked_cong [of "r # post" m' m] by blast
  moreover have "linked m' l p" unfolding relinked_self(2) [OF rl] by (rule p(3))
  moreover have "linked m' p r"
    using nx(3) [of p] l_out(2) p(4) r_un by (simp add: linked_def)
  ultimately have sl: "successively (linked m') ((head # done) @ p # r # post)"
    using s1 unfolding successively_append_iff l_def by (simp only: successively_Cons list.sel) blast
  have kp: "the (key_at m p) = k" using p(5) by simp
  have srt: "sorted_wrt (key_less m) done" "sorted_wrt (key_less m) (r # post)" "\<forall>x \<in> set done. \<forall>y \<in> set (r # post). key_less m x y"
    using ok by (auto simp: list_ok_def sorted_wrt_append)
  have pr: "\<forall>y \<in> set (r # post). k < the (key_at m y)"
    using srt(2) k(2) by (auto simp: key_less_def)
  have "sorted_wrt (key_less m) (done @ p # r # post)"
    using srt k(1) pr by (simp add: sorted_wrt_append key_less_def kp)
  then have srt': "sorted_wrt (key_less m') (done @ p # r # post)"
    by (rule key_less_cong [rotated]) (use keys in simp)
  have lst: "load_next (last (r # post)) m' = Some NULL" "key_at m' (last (r # post)) = Some KEY_MAX"
  proof -
    have lr: "last (r # post) \<in> set (p # head # done @ r # post)" "last (r # post) \<noteq> l"
      using last_in_set [of "r # post"] l_out by auto
    have "load_next (last (r # post)) m = Some NULL" "key_at m (last (r # post)) = Some KEY_MAX"
      using ok by (simp_all add: list_ok_def)
    then show "load_next (last (r # post)) m' = Some NULL" "key_at m' (last (r # post)) = Some KEY_MAX"
      using nx(1) [OF lr] bspec [OF keys lr(1)] by simp_all
  qed
  have mp: "load_next q m' \<noteq> None" if "q \<in> set (p # head # done @ r # post)" for q
  proof (cases "q = l")
    case True then show ?thesis using rl by (simp add: relinked_def)
  next
    case False
    have "load_next q m \<noteq> None" using ok that p(4) by (auto simp: list_ok_def)
    then show ?thesis using nx(1) [OF that False] by simp
  qed
  have "\<not> dead m' head"
    using nx(2) [of head] dl ok by (cases "head = l") (auto simp: list_ok_def)
  then show ok': "list_ok m' head (done @ p # r # post)"
    using ok sl srt' lst mp p(1,2) by (auto simp: list_ok_def)
  have de: "dead m' q = dead m q" if "q \<in> set (p # head # done @ r # post)" for q
    using nx(2) [OF that] dl live by blast
  show "contents m' (done @ p # r # post) = (contents m (done @ r # post))(k \<mapsto> v)"
  proof (rule map_eqI)
    fix k1 v1
    let ?B = "set (butlast (done @ r # post))"
    have B: "set (butlast (done @ p # r # post)) = insert p ?B" by (auto simp: butlast_append)
    have sub: "?B \<subseteq> set (done @ r # post)" by (auto dest: in_set_butlastD)
    have "contents m' (done @ p # r # post) k1 = Some v1 \<longleftrightarrow>
        (\<exists>q \<in> insert p ?B. \<not> dead m' q \<and> key_at m' q = Some k1 \<and> val_at m' q = Some v1)"
      unfolding contents_Some [OF ok'] B ..
    also have "\<dots> \<longleftrightarrow> (\<exists>q \<in> insert p ?B. \<not> dead m q \<and> key_at m q = Some k1 \<and> val_at m q = Some v1)"
      by (rule bex_cong [OF refl]) (use de keys sub in auto)
    also have "\<dots> \<longleftrightarrow> (k1 = k \<and> v1 = v) \<or> contents m (done @ r # post) k1 = Some v1"
      unfolding contents_Some [OF ok] using dp p(5,6) by auto
    also have "\<dots> \<longleftrightarrow> ((contents m (done @ r # post))(k \<mapsto> v)) k1 = Some v1"
    proof -
      have "contents m (done @ r # post) k \<noteq> Some v1"
      proof
        assume "contents m (done @ r # post) k = Some v1"
        then obtain q where "q \<in> set (done @ r # post)" "key_at m q = Some k"
          using sub unfolding contents_Some [OF ok] by blast
        then show False using k(1) pr by auto
      qed
      then show ?thesis by auto
    qed
    finally show "contents m' (done @ p # r # post) k1 = Some v1 \<longleftrightarrow>
        ((contents m (done @ r # post))(k \<mapsto> v)) k1 = Some v1" .
  qed
qed


text \<open>A live node is marked.\<close>

lemma list_ok_mark:
  assumes ok: "list_ok m head ps" and r: "r \<in> set (butlast ps)" and y: "load_next r m = Some y" "get_unmarked_ref y = y"
    and rl: "relinked m m' r (get_marked_ref y) (set (head # ps))"
  shows "list_ok m' head ps" "contents m' ps = (contents m ps)(the (key_at m r) := None)" "dead m' r"
proof -
  have ne: "ps \<noteq> []" and d: "distinct (head # ps)" using ok by (simp_all add: list_ok_def)
  have rin: "r \<in> set ps" using r by (rule in_set_butlastD)
  have rlast: "r \<noteq> last ps"
  proof
    assume "r = last ps"
    then have "distinct (butlast ps @ [r])" "r \<in> set (butlast ps)" using d ne r by simp_all
    then show False by simp
  qed
  have rh: "r \<noteq> head" using rin d by auto
  have keys: "\<forall>q \<in> set (head # ps). key_at m' q = key_at m q \<and> val_at m' q = val_at m q"
    using rl unfolding relinked_def by blast
  have nx: "load_next q m' = load_next q m" "dead m' q = dead m q"
    if "q \<in> set (head # ps)" "q \<noteq> r" for q
    using rl that relinked_other [OF rl that] unfolding relinked_def by blast+
  have lk: "linked m' q = linked m q" if "q \<in> set (head # ps)" for q
  proof (cases "q = r")
    case True
    then show ?thesis using relinked_self(2) [OF rl] y by (simp add: fun_eq_iff linked_def)
  next
    case False
    then show ?thesis by (rule relinked_other(2) [OF rl that])
  qed
  have dr: "dead m' r" using relinked_self(1) [OF rl] by simp
  then show "dead m' r" .
  have "successively (linked m') (head # ps)"
    using ok linked_cong [of "head # ps" m' m] lk by (simp add: list_ok_def)
  moreover have "sorted_wrt (key_less m') ps"
    using key_less_cong [of ps m' m] ok keys by (simp add: list_ok_def)
  moreover have "load_next (last ps) m' = Some NULL" "key_at m' (last ps) = Some KEY_MAX"
    using ok nx(1) [of "last ps"] keys ne rlast by (simp_all add: list_ok_def)
  moreover have "load_next q m' \<noteq> None" if "q \<in> set (head # ps)" for q
  proof (cases "q = r")
    case True then show ?thesis using rl by (simp add: relinked_def)
  next
    case False
    have "load_next q m \<noteq> None" using ok that by (auto simp: list_ok_def)
    then show ?thesis using nx(1) [OF that False] by simp
  qed
  moreover have "\<not> dead m' head" using nx(2) [of head] rh ok by (simp add: list_ok_def)
  ultimately show ok': "list_ok m' head ps" using ok by (simp add: list_ok_def)
  obtain k where k: "key_at m r = Some k" using list_ok_keys(1) [OF ok] rin by blast
  have sub: "set (butlast ps) \<subseteq> set ps" by (auto dest: in_set_butlastD)
  have inj: "q = r" if "q \<in> set ps" "key_at m q = Some k" for q
    using inj_onD [OF list_ok_keys(2) [OF ok], of q r] that rin k by simp
  show "contents m' ps = (contents m ps)(the (key_at m r) := None)"
  proof (rule map_eqI)
    fix k1 v1
    have "contents m' ps k1 = Some v1 \<longleftrightarrow>
        (\<exists>q \<in> set (butlast ps). \<not> dead m' q \<and> key_at m' q = Some k1 \<and> val_at m' q = Some v1)"
      by (rule contents_Some [OF ok'])
    also have "\<dots> \<longleftrightarrow> (\<exists>q \<in> set (butlast ps). q \<noteq> r \<and> \<not> dead m q \<and> key_at m q = Some k1 \<and> val_at m q = Some v1)"
      by (rule bex_cong [OF refl]) (use keys nx(2) dr sub in auto)
    also have "\<dots> \<longleftrightarrow> k1 \<noteq> k \<and> contents m ps k1 = Some v1"
    proof -
      have "q \<noteq> r \<and> key_at m q = Some k1 \<longleftrightarrow> k1 \<noteq> k \<and> key_at m q = Some k1" if "q \<in> set (butlast ps)" for q
        using inj [of q] k that sub by auto
      then show ?thesis unfolding contents_Some [OF ok] by blast
    qed
    also have "\<dots> \<longleftrightarrow> ((contents m ps)(the (key_at m r) := None)) k1 = Some v1" by (simp add: k)
    finally show "contents m' ps k1 = Some v1 \<longleftrightarrow> ((contents m ps)(the (key_at m r) := None)) k1 = Some v1" .
  qed
qed

end
