(* ===== verification/Harris_Set.thy ===== *)
theory Harris_Set
  imports Harris_List Retire
begin

text \<open>
  Harris' list over a reclamation scheme: the contract a scheme has to keep (locale \<open>reclaimer\<close>)
  and, from it, what the operations of the list do to the map the list stands for.
\<close>

section \<open>The contract\<close>

text \<open>From \<open>s\<close> to \<open>s'\<close> the scheme released some of the nodes \<open>W\<close>, keeping \<open>W'\<close>: nothing but their keys
  was overwritten, and allocator 0 got back what it released.\<close>

definition gone :: "'a mem_scheme \<Rightarrow> 'a mem_scheme \<Rightarrow> ptr set \<Rightarrow> ptr set \<Rightarrow> bool" where
  "gone s s' W W' \<longleftrightarrow> W' \<subseteq> W \<and> HP s' = HP s \<and> (\<forall>p. load_next p s' = load_next p s) \<and>
     (\<forall>p. p \<notin> W \<longrightarrow> key_at s' p = key_at s p \<and> val_at s' p = val_at s p) \<and>
     (\<forall>L. L \<inter> W = {} \<longrightarrow> arena_inv 0 NODE_SIZE (alloc s) (L \<union> W) \<longrightarrow> arena_inv 0 NODE_SIZE (alloc s') (L \<union> W')) \<and>
     app_mem (alloc s') = app_mem (alloc s) \<and> alloc_next (alloc s') 0 = alloc_next (alloc s) 0"

text \<open>Every block allocator 0 can return is mapped; its arena starts at an even address.\<close>

definition nodes_mapped :: "'a mem_scheme \<Rightarrow> bool" where
  "nodes_mapped m \<longleftrightarrow> even (unat (app_mem (alloc m) 0)) \<and>
     (\<forall>p. unat (app_mem (alloc m) 0) \<le> unat p \<and>
          unat p + NODE_SIZE \<le> unat (app_mem (alloc m) 0) + unat (ssalloc_size 0) \<longrightarrow> nodes m p \<noteq> None)"

text \<open>What the list and the scheme share: the nodes of the list, those waiting, and the allocator.\<close>

definition client :: "'a mem_scheme \<Rightarrow> ptr \<Rightarrow> ptr list \<Rightarrow> ptr set \<Rightarrow> bool" where
  "client m head ps W \<longleftrightarrow> list_ok m head ps \<and> set (head # ps) \<inter> W = {} \<and>
     arena_inv 0 NODE_SIZE (alloc m) (set (head # ps) \<union> W) \<and> nodes_mapped m"

text \<open>Where a search ends: between \<open>dn\<close> and \<open>r\<close>, the contents as before.\<close>

definition positioned ::
  "'a mem_scheme \<Rightarrow> 'a mem_scheme \<Rightarrow> ptr \<Rightarrow> skey_t \<Rightarrow> ptr list \<Rightarrow> ptr list \<Rightarrow> ptr \<Rightarrow> ptr list \<Rightarrow> ptr set \<Rightarrow> bool" where
  "positioned s s' head key ps dn r post W' \<longleftrightarrow>
     client s' head (dn @ r # post) W' \<and> contents s' (dn @ r # post) = contents s ps \<and>
     \<not> dead s' (last (head # dn)) \<and> \<not> dead s' r \<and> (\<forall>q \<in> set dn. the (key_at s' q) < key) \<and>
     key \<le> the (key_at s' r) \<and> alloc_next (alloc s') 0 = alloc_next (alloc s) 0"

lemma client_HP [simp]: "client (s\<lparr>HP := hp\<rparr>) = client s"
  by (simp add: fun_eq_iff client_def list_ok_def nodes_mapped_def linked_def [abs_def] dead_def key_less_def [abs_def]
      key_at_def load_next_def)

lemma dead_HP [simp]: "dead (s\<lparr>HP := hp\<rparr>) = dead s" "key_at (s\<lparr>HP := hp\<rparr>) = key_at s"
  "load_next p (s\<lparr>HP := hp\<rparr>) = load_next p s" "contents (s\<lparr>HP := hp\<rparr>) = contents s" "val_at (s\<lparr>HP := hp\<rparr>) = val_at s"
  by (simp_all add: fun_eq_iff dead_def key_at_def load_next_def contents_def val_at_def)

lemma positioned_HP [simp]: "positioned (s\<lparr>HP := hp\<rparr>) = positioned s"
  by (simp add: fun_eq_iff positioned_def)

text \<open>The node after a live one, and a node of the list.\<close>

lemma client_next:
  assumes c: "client s head (done @ p # rest) W" and live: "\<not> dead s (last (head # done))"
  shows "load_next (last (head # done)) s = Some p"
proof -
  have "successively (linked s) ((head # done) @ (p # rest))" using c by (simp add: client_def list_ok_def)
  then have "linked s (last (head # done)) p" unfolding successively_append_iff by simp
  then obtain y where "load_next (last (head # done)) s = Some y" "get_unmarked_ref y = p"
    by (auto simp: linked_def split: option.splits)
  then show ?thesis using live unmarked_iff [of y] by (simp add: dead_def)
qed

lemma client_node:
  assumes c: "client s head (done @ p # rest) W"
  obtains n where "nodes s p = Some n" "key_at s p = Some (n_key n)" "val_at s p = Some (n_val n)"
    "load_next p s = Some (n_next n)" "dead s p = is_marked_ref (n_next n)"
    "rest \<noteq> [] \<longrightarrow> get_unmarked_ref (n_next n) = hd rest" "rest = [] \<longrightarrow> n_key n = KEY_MAX \<and> n_next n = NULL" "p \<notin> W"
proof -
  have ok: "list_ok s head (done @ p # rest)" using c by (simp add: client_def)
  then have "nodes s p \<noteq> None" using nodes_iff(1) [of s p] by (simp add: list_ok_def)
  then obtain n where n: "nodes s p = Some n" by blast
  have "successively (linked s) ((head # done) @ [p] @ rest)" using ok by (simp add: list_ok_def)
  then have "successively (linked s) (p # rest)" unfolding successively_append_iff [of _ "head # done"] by simp
  then have "rest \<noteq> [] \<longrightarrow> get_unmarked_ref (n_next n) = hd rest"
    by (auto simp: successively_Cons linked_def load_next_def n)
  moreover have "rest = [] \<longrightarrow> n_key n = KEY_MAX \<and> n_next n = NULL"
    using ok n by (auto simp: list_ok_def load_next_def key_at_def)
  moreover have "p \<notin> W" using c by (auto simp: client_def)
  ultimately show ?thesis using n by (intro that [of n]) (simp_all add: load_next_def key_at_def val_at_def dead_def)
qed

text \<open>The number of retirements a traversal may have to make: the dead nodes in the list.\<close>

abbreviation deads :: "'a mem_scheme \<Rightarrow> ptr list \<Rightarrow> nat" where
  "deads s ps \<equiv> length (filter (dead s) ps)"

locale reclaimer =
  fixes retire :: "ptr \<Rightarrow> 'a mem_scheme \<Rightarrow> 'a mem_scheme option"
    and inv :: "'a mem_scheme \<Rightarrow> ptr set \<Rightarrow> nat \<Rightarrow> bool"
  assumes retire_law: "inv s W (Suc n) \<Longrightarrow> nodes s q \<noteq> None \<Longrightarrow> q \<notin> W \<Longrightarrow>
      \<exists>s' W'. retire q s = Some s' \<and> inv s' W' n \<and> gone s s' (insert q W) W'"
    and nodes_law: "inv s W n \<Longrightarrow> \<forall>p. no p = None \<longleftrightarrow> nodes s p = None \<Longrightarrow> inv (s\<lparr>nodes := no\<rparr>) W n"
    and hp_law: "inv s W n \<Longrightarrow> i < length (HP s) \<Longrightarrow> nodes s p \<noteq> None \<Longrightarrow> inv (s\<lparr>HP := (HP s)[i := p]\<rparr>) W n"
    and alloc_law: "inv s W n \<Longrightarrow>
      inv (s\<lparr>alloc := snd (ssalloc_alloc 0 (of_nat NODE_SIZE) (alloc s))\<rparr>) W n"
begin

text \<open>Unlinking a dead node and retiring it.\<close>

lemma unlink_step:
  assumes c: "client s head (done @ p # rest) W" and p: "dead s p" and live: "\<not> dead s (last (head # done))"
    and i: "inv s W (Suc n)"
  obtains s' W' x where "physical_delete_right retire (last (head # done)) p s = Some (True, s')" "inv s' W' n"
    "client s' head (done @ rest) W'" "contents s' (done @ rest) = contents s (done @ p # rest)" "HP s' = HP s"
    "load_next p s' = Some x" "get_unmarked_ref x = hd rest" "rest \<noteq> []" "alloc_next (alloc s') 0 = alloc_next (alloc s) 0"
    "\<forall>q \<in> set (head # done @ rest). key_at s' q = key_at s q \<and> dead s' q = dead s q"
proof -
  define l where "l = last (head # done)"
  let ?all = "set (head # done @ p # rest)"
  have ok: "list_ok s head (done @ p # rest)" and dj: "?all \<inter> W = {}" and nm: "nodes_mapped s"
    and ar: "arena_inv 0 NODE_SIZE (alloc s) (?all \<union> W)" using c by (simp_all add: client_def)
  obtain x where x: "load_next p s = Some x" using p by (auto simp: dead_def split: option.splits)
  have lin: "l \<in> set (head # done)" unfolding l_def by (rule last_done)
  then have lall: "l \<in> ?all" by auto
  have d: "distinct (head # done @ p # rest)" using ok by (simp add: list_ok_def)
  have lp: "load_next l s = Some p"
  proof -
    have "successively (linked s) ((head # done) @ (p # rest))" using ok by (simp add: list_ok_def)
    then have "linked s l p" unfolding successively_append_iff l_def by simp
    then obtain y where "load_next l s = Some y" "get_unmarked_ref y = p" by (auto simp: linked_def split: option.splits)
    then show ?thesis using live unmarked_iff [of y] unfolding l_def [symmetric] by (simp add: dead_def)
  qed
  obtain s1 where cas: "cas_next l p (get_unmarked_ref x) s = Some (p, s1)"
    and rls: "\<forall>S. relinked s s1 l (get_unmarked_ref x) S" and s1: "s1 = s\<lparr>nodes := nodes s1\<rparr>"
    and dom: "\<forall>q. nodes s1 q = None \<longleftrightarrow> nodes s q = None" by (rule cas_next_relinked [OF lp])
  note rl = rls [rule_format]
  obtain no where s1': "s1 = s\<lparr>nodes := no\<rparr>" using s1 by blast
  have f1: "alloc s1 = alloc s" "HP s1 = HP s" by (simp_all add: s1')
  note un = list_ok_unlink [OF ok p live x rl [unfolded l_def]]
  have i1: "inv s1 W (Suc n)" unfolding s1' by (rule nodes_law [OF i]) (use dom in \<open>simp add: s1'\<close>)
  have pW: "p \<notin> W" "nodes s1 p \<noteq> None"
    using dj dom nodes_iff(1) [of s p] x by auto
  obtain s' W' where ret: "retire p s1 = Some s'" "inv s' W' n" and g: "gone s1 s' (insert p W) W'"
    using retire_law [OF i1 pW(2,1)] by blast
  have sub: "W' \<subseteq> insert p W" and g': "HP s' = HP s1" "\<forall>q. load_next q s' = load_next q s1"
    "\<forall>q. q \<notin> insert p W \<longrightarrow> key_at s' q = key_at s1 q \<and> val_at s' q = val_at s1 q"
    "app_mem (alloc s') = app_mem (alloc s1)" "alloc_next (alloc s') 0 = alloc_next (alloc s1) 0"
    and ga: "\<And>L. L \<inter> insert p W = {} \<Longrightarrow> arena_inv 0 NODE_SIZE (alloc s1) (L \<union> insert p W) \<Longrightarrow>
      arena_inv 0 NODE_SIZE (alloc s') (L \<union> W')"
    using g unfolding gone_def by blast+
  let ?own = "set (head # done @ rest)"
  have own: "?own \<inter> insert p W = {}" "?own \<union> insert p W = ?all \<union> W" using dj d by auto
  have sn: "same_nodes s1 s' ?own" using g' own unfolding same_nodes_def by blast
  note ok' = list_ok_cong [OF sn un(1)]
  have "arena_inv 0 NODE_SIZE (alloc s') (?own \<union> W')"
    by (rule ga [OF own(1)]) (unfold own(2), use ar f1 in simp)
  moreover have "?own \<inter> W' = {}" using own(1) sub by blast
  moreover have "nodes s' q = None \<longleftrightarrow> nodes s q = None" for q
    using nodes_iff(1) [of s' q] nodes_iff(1) [of s1 q] g'(2) dom by simp
  then have "nodes_mapped s'" using nm g'(4) f1 unfolding nodes_mapped_def by simp
  ultimately have cl: "client s' head (done @ rest) W'" using ok'(1) by (simp add: client_def)
  have "key_at s' q = key_at s q \<and> dead s' q = dead s q" if q: "q \<in> ?own" for q
  proof -
    have "key_at s' q = key_at s1 q" "dead s' q = dead s1 q"
      using sn q same_nodes_dead [OF sn q] unfolding same_nodes_def by blast+
    moreover have "key_at s1 q = key_at s q" using rl [of ?own] q unfolding relinked_def by blast
    moreover have "dead s1 q = dead s q"
    proof (cases "q = l")
      case True
      then show ?thesis using relinked_self(1) [OF rl] live unfolding l_def by simp
    next
      case False
      then show ?thesis using relinked_other(1) [OF rl q] by simp
    qed
    ultimately show ?thesis by simp
  qed
  moreover have "physical_delete_right retire l p s = Some (True, s')"
    using x cas ret by (simp add: physical_delete_right_def)
  moreover have "load_next p s' = Some x"
  proof -
    have "p \<noteq> l" using lin d by auto
    then have "load_next p s1 = load_next p s" using rl [of "{p}"] by (simp add: relinked_def)
    then show ?thesis using g'(2) x by simp
  qed
  ultimately show ?thesis using ret(2) cl ok'(2) un(2-4) g' f1
    by (intro that [of s' W' x]) (simp_all add: l_def)
qed

text \<open>The traversal with hazard pointers.\<close>

lemma search_loop_ok:
  assumes "client s head (done @ ps) W" "inv s W n" "ps \<noteq> []" "\<not> dead s (last (head # done))"
    and "\<forall>q \<in> set done. the (key_at s q) < key" "deads s ps \<le> n"
    and "base + 1 < length (HP s)" "offset \<le> 1" "key \<le> KEY_MAX"
  shows "\<exists>s' W' dn r post n'. search_loop retire head base key offset (last (head # done)) (hd ps) s =
      Some (last (head # dn), r, s') \<and> positioned s s' head key (done @ ps) dn r post W' \<and> inv s' W' n' \<and>
    n + deads s' (dn @ r # post) = n' + deads s (done @ ps) \<and> n' \<le> n \<and> length (HP s') = length (HP s)"
  using assms
proof (induction ps arbitrary: s W n "done" offset)
  case Nil then show ?case by simp
next
  case (Cons p rest)
  let ?l = "last (head # done)"
  let ?s1 = "s\<lparr>HP := (HP s)[base + offset := p]\<rparr>"
  have c: "client s head (done @ p # rest) W" and live: "\<not> dead s ?l" using Cons.prems(1,4) by simp_all
  have c1: "client ?s1 head (done @ p # rest) W" using c by simp
  obtain nd where nd: "nodes s p = Some nd" "key_at s p = Some (n_key nd)" "val_at s p = Some (n_val nd)"
    "load_next p s = Some (n_next nd)" "dead s p = is_marked_ref (n_next nd)"
    "rest \<noteq> [] \<longrightarrow> get_unmarked_ref (n_next nd) = hd rest" "rest = [] \<longrightarrow> n_key nd = KEY_MAX \<and> n_next nd = NULL" "p \<notin> W"
    by (rule client_node [OF c])
  have lt: "base + offset < length (HP s)" using Cons.prems(7,8) by simp
  have i1: "inv ?s1 W n" by (rule hp_law [OF Cons.prems(2) lt]) (simp add: nd)
  have lp: "load_next ?l ?s1 = Some p" using client_next [OF c live] by simp
  show ?case
  proof (cases "dead s p")
    case False
    show ?thesis
    proof (cases "n_key nd \<ge> key")
      case True
      have "search_loop retire head base key offset ?l p s = Some (?l, p, ?s1)"
        using lt lp nd False True by (subst search_loop.simps) (simp add: Let_def)
      moreover have "positioned s ?s1 head key (done @ p # rest) done p rest W"
        using c live False True nd Cons.prems(5) by (simp add: positioned_def)
      ultimately show ?thesis using i1 by (intro exI [of _ ?s1] exI [of _ W] exI [of _ "done"] exI [of _ p] exI [of _ rest] exI [of _ n]) simp
    next
      case small: False
      then have ne: "rest \<noteq> []" using nd(7) Cons.prems(9) by auto
      have "search_loop retire head base key offset ?l p s = search_loop retire head base key (1 - offset) p (hd rest) ?s1"
        using lt lp nd False small ne by (subst search_loop.simps) (simp add: Let_def)
      moreover have "\<exists>s' W' dn r post n'. search_loop retire head base key (1 - offset) (last (head # done @ [p])) (hd rest) ?s1 =
          Some (last (head # dn), r, s') \<and> positioned ?s1 s' head key ((done @ [p]) @ rest) dn r post W' \<and> inv s' W' n' \<and>
          n + deads s' (dn @ r # post) = n' + deads ?s1 ((done @ [p]) @ rest) \<and> n' \<le> n \<and> length (HP s') = length (HP ?s1)"
        by (rule Cons.IH) (use c i1 ne False small nd Cons.prems in \<open>auto\<close>)
      ultimately show ?thesis using False by simp
    qed
  next
    case True
    then obtain k where k: "n = Suc k" using Cons.prems(6) by (cases n) auto
    obtain s' W' x where d: "physical_delete_right retire ?l p ?s1 = Some (True, s')" "inv s' W' k"
      "client s' head (done @ rest) W'" "contents s' (done @ rest) = contents ?s1 (done @ p # rest)" "HP s' = HP ?s1"
      "load_next p s' = Some x" "get_unmarked_ref x = hd rest" "rest \<noteq> []" "alloc_next (alloc s') 0 = alloc_next (alloc ?s1) 0"
      "\<forall>q \<in> set (head # done @ rest). key_at s' q = key_at ?s1 q \<and> dead s' q = dead ?s1 q"
      by (rule unlink_step [OF c1 _ _ i1 [unfolded k]]) (use True live in simp_all)
    have dd: "dead s' q = dead s q" "key_at s' q = key_at s q" if "q \<in> set (head # done @ rest)" for q
      using d(10) that by auto
    have fl: "filter (dead s') rest = filter (dead s) rest" "filter (dead s') done = filter (dead s) done"
      by (rule filter_cong, use dd in auto)+
    have run: "search_loop retire head base key offset ?l p s = search_loop retire head base key (1 - offset) ?l (hd rest) s'"
      using lt lp nd True d(1,6,7) by (subst search_loop.simps) (simp add: Let_def)
    have "\<exists>s2 W2 dn r post n'. search_loop retire head base key (1 - offset) ?l (hd rest) s' =
        Some (last (head # dn), r, s2) \<and> positioned s' s2 head key (done @ rest) dn r post W2 \<and> inv s2 W2 n' \<and>
        k + deads s2 (dn @ r # post) = n' + deads s' (done @ rest) \<and> n' \<le> k \<and> length (HP s2) = length (HP s')"
    proof (rule Cons.IH [OF d(3,2,8)])
      have "?l \<in> set (head # done)" by (rule last_done)
      then have "?l \<in> set (head # done @ rest)" by auto
      then show "\<not> dead s' ?l" using dd(1) live by blast
      show "\<forall>q \<in> set done. the (key_at s' q) < key" using Cons.prems(5) dd(2) by simp
      show "length (filter (dead s') rest) \<le> k" unfolding fl using Cons.prems(6) True k by simp
      show "base + 1 < length (HP s')" using Cons.prems(7) d(5) by simp
    qed (use Cons.prems(9) in simp_all)
    then obtain s2 W2 dn r post n' where s2:
      "search_loop retire head base key (1 - offset) ?l (hd rest) s' = Some (last (head # dn), r, s2)"
      "positioned s' s2 head key (done @ rest) dn r post W2" "inv s2 W2 n'"
      "k + deads s2 (dn @ r # post) = n' + deads s' (done @ rest)" "n' \<le> k" "length (HP s2) = length (HP s')" by blast
    have "positioned s s2 head key (done @ p # rest) dn r post W2"
      using s2(2) d(4,9) by (simp add: positioned_def)
    then show ?thesis using run s2 d(5) True k fl
      by (intro exI [of _ s2] exI [of _ W2] exI [of _ dn] exI [of _ r] exI [of _ post] exI [of _ n']) simp
  qed
qed


lemma list_search_ok:
  assumes c: "client s head ps W" and i: "inv s W n" and m: "deads s ps \<le> n"
    and b: "base + 1 < length (HP s)" and k: "key \<le> KEY_MAX"
  shows "\<exists>s' W' dn r post n'. list_search retire head base key s = Some (last (head # dn), r, s') \<and>
    positioned s s' head key ps dn r post W' \<and> inv s' W' n' \<and>
    n + deads s' (dn @ r # post) = n' + deads s ps \<and> n' \<le> n"
proof -
  obtain p rest where ps: "ps = p # rest" using c by (cases ps) (auto simp: client_def list_ok_def)
  have live: "\<not> dead s head" using c by (simp add: client_def list_ok_def)
  have "load_next head s = Some p" using client_next [of s head "[]" p rest W] c live by (simp add: ps)
  then have "list_search retire head base key s = search_loop retire head base key 0 (last (head # [])) (hd ps) s"
    by (simp add: list_search_def ps)
  moreover have "\<exists>s' W' dn r post n'. search_loop retire head base key 0 (last (head # [])) (hd ps) s =
      Some (last (head # dn), r, s') \<and> positioned s s' head key ([] @ ps) dn r post W' \<and> inv s' W' n' \<and>
      n + deads s' (dn @ r # post) = n' + deads s ([] @ ps) \<and> n' \<le> n \<and> length (HP s') = length (HP s)"
    by (rule search_loop_ok) (use c i m b k live ps in simp_all)
  ultimately show ?thesis by (simp only: append_Nil) blast
qed

text \<open>The traversal without hazard pointers.\<close>

lemma plain_search_loop_ok:
  assumes "client s head (done @ ps) W" "inv s W n" "ps \<noteq> []" "\<not> dead s (last (head # done))"
    and "\<forall>q \<in> set done. the (key_at s q) < key" "deads s ps \<le> n" "key \<le> KEY_MAX"
  shows "\<exists>s' W' dn r post n'. plain_search_loop retire key (last (head # done)) (hd ps) s =
      Some (last (head # dn), r, s') \<and> positioned s s' head key (done @ ps) dn r post W' \<and> inv s' W' n' \<and>
    n + deads s' (dn @ r # post) = n' + deads s (done @ ps) \<and> n' \<le> n"
  using assms
proof (induction ps arbitrary: s W n "done")
  case Nil then show ?case by simp
next
  case (Cons p rest)
  let ?l = "last (head # done)"
  have c: "client s head (done @ p # rest) W" and live: "\<not> dead s ?l" and i: "inv s W n"
    using Cons.prems(1,2,4) by simp_all
  obtain nd where nd: "nodes s p = Some nd" "key_at s p = Some (n_key nd)" "val_at s p = Some (n_val nd)"
    "load_next p s = Some (n_next nd)" "dead s p = is_marked_ref (n_next nd)"
    "rest \<noteq> [] \<longrightarrow> get_unmarked_ref (n_next nd) = hd rest" "rest = [] \<longrightarrow> n_key nd = KEY_MAX \<and> n_next nd = NULL" "p \<notin> W"
    by (rule client_node [OF c])
  show ?case
  proof (cases "dead s p")
    case False
    show ?thesis
    proof (cases "n_key nd \<ge> key")
      case True
      have "plain_search_loop retire key ?l p s = Some (?l, p, s)"
        using nd False True by (subst plain_search_loop.simps) simp
      moreover have "positioned s s head key (done @ p # rest) done p rest W"
        using c live False True nd Cons.prems(5) by (simp add: positioned_def)
      ultimately show ?thesis using i by (intro exI [of _ s] exI [of _ W] exI [of _ "done"] exI [of _ p] exI [of _ rest] exI [of _ n]) simp
    next
      case small: False
      then have ne: "rest \<noteq> []" using nd(7) Cons.prems(7) by auto
      have "plain_search_loop retire key ?l p s = plain_search_loop retire key p (hd rest) s"
        using nd False small ne by (subst plain_search_loop.simps) simp
      moreover have "\<exists>s' W' dn r post n'. plain_search_loop retire key (last (head # done @ [p])) (hd rest) s =
          Some (last (head # dn), r, s') \<and> positioned s s' head key ((done @ [p]) @ rest) dn r post W' \<and> inv s' W' n' \<and>
          n + deads s' (dn @ r # post) = n' + deads s ((done @ [p]) @ rest) \<and> n' \<le> n"
        by (rule Cons.IH) (use c i ne False small nd Cons.prems in \<open>auto\<close>)
      ultimately show ?thesis using False by simp
    qed
  next
    case True
    then obtain k where k: "n = Suc k" using Cons.prems(6) by (cases n) auto
    obtain s' W' x where d: "physical_delete_right retire ?l p s = Some (True, s')" "inv s' W' k"
      "client s' head (done @ rest) W'" "contents s' (done @ rest) = contents s (done @ p # rest)" "HP s' = HP s"
      "load_next p s' = Some x" "get_unmarked_ref x = hd rest" "rest \<noteq> []" "alloc_next (alloc s') 0 = alloc_next (alloc s) 0"
      "\<forall>q \<in> set (head # done @ rest). key_at s' q = key_at s q \<and> dead s' q = dead s q"
      by (rule unlink_step [OF c True live i [unfolded k]])
    have fl: "filter (dead s') rest = filter (dead s) rest" "filter (dead s') done = filter (dead s) done"
      by (rule filter_cong, use d(10) in auto)+
    have run: "plain_search_loop retire key ?l p s = plain_search_loop retire key ?l (hd rest) s'"
      using nd True d(1,6,7) by (subst plain_search_loop.simps) simp
    have "\<exists>s2 W2 dn r post n'. plain_search_loop retire key ?l (hd rest) s' =
        Some (last (head # dn), r, s2) \<and> positioned s' s2 head key (done @ rest) dn r post W2 \<and> inv s2 W2 n' \<and>
        k + deads s2 (dn @ r # post) = n' + deads s' (done @ rest) \<and> n' \<le> k"
    proof (rule Cons.IH [OF d(3,2,8)])
      have "?l \<in> set (head # done)" by (rule last_done)
      then have "?l \<in> set (head # done @ rest)" by auto
      then show "\<not> dead s' ?l" using d(10) live by blast
      show "\<forall>q \<in> set done. the (key_at s' q) < key" using Cons.prems(5) d(10) by simp
      show "length (filter (dead s') rest) \<le> k" unfolding fl using Cons.prems(6) True k by simp
    qed (use Cons.prems(7) in simp_all)
    then obtain s2 W2 dn r post n' where s2:
      "plain_search_loop retire key ?l (hd rest) s' = Some (last (head # dn), r, s2)"
      "positioned s' s2 head key (done @ rest) dn r post W2" "inv s2 W2 n'"
      "k + deads s2 (dn @ r # post) = n' + deads s' (done @ rest)" "n' \<le> k" by blast
    have "positioned s s2 head key (done @ p # rest) dn r post W2"
      using s2(2) d(4,9) by (simp add: positioned_def)
    then show ?thesis using run s2 True k fl
      by (intro exI [of _ s2] exI [of _ W2] exI [of _ dn] exI [of _ r] exI [of _ post] exI [of _ n']) simp
  qed
qed

lemma plain_list_search_ok:
  assumes c: "client s head ps W" and i: "inv s W n" and m: "deads s ps \<le> n" and k: "key \<le> KEY_MAX"
  shows "\<exists>s' W' dn r post n'. plain_list_search retire head key s = Some (last (head # dn), r, s') \<and>
    positioned s s' head key ps dn r post W' \<and> inv s' W' n' \<and>
    n + deads s' (dn @ r # post) = n' + deads s ps \<and> n' \<le> n"
proof -
  obtain p rest where ps: "ps = p # rest" using c by (cases ps) (auto simp: client_def list_ok_def)
  have live: "\<not> dead s head" using c by (simp add: client_def list_ok_def)
  have "load_next head s = Some p" using client_next [of s head "[]" p rest W] c live by (simp add: ps)
  then have "plain_list_search retire head key s = plain_search_loop retire key (last (head # [])) (hd ps) s"
    by (simp add: plain_list_search_def ps)
  moreover have "\<exists>s' W' dn r post n'. plain_search_loop retire key (last (head # [])) (hd ps) s =
      Some (last (head # dn), r, s') \<and> positioned s s' head key ([] @ ps) dn r post W' \<and> inv s' W' n' \<and>
      n + deads s' (dn @ r # post) = n' + deads s ([] @ ps) \<and> n' \<le> n"
    by (rule plain_search_loop_ok) (use c i m k live ps in simp_all)
  ultimately show ?thesis by simp
qed

end

end
