(* ===== verification/Harris_Map.thy ===== *)
theory Harris_Map
  imports Harris_Set
begin

text \<open>
  The operations of Harris' list as operations of a finite map: lookup, insertion and deletion
  over any search and reclamation scheme that keep the contract \<open>list_client\<close>, and the size.
\<close>

section \<open>Lookup\<close>

text \<open>A position found by a search decides the key.\<close>

lemma contents_at:
  assumes ok: "list_ok m head (dn @ r # post)" and lo: "\<forall>q \<in> set dn. the (key_at m q) < key"
    and hi: "key \<le> the (key_at m r)" and k: "key < KEY_MAX"
  shows "contents m (dn @ r # post) key = (if key_at m r = Some key \<and> \<not> dead m r then val_at m r else None)"
proof -
  let ?ps = "dn @ r # post"
  have srt: "sorted_wrt (key_less m) (r # post)" using ok by (simp add: list_ok_def sorted_wrt_append)
  have post: "the (key_at m q) > key" if "q \<in> set post" for q
    using srt hi that by (force simp: key_less_def)
  obtain kr vr where kr: "key_at m r = Some kr" "val_at m r = Some vr"
    using list_ok_keys(1) [OF ok] by fastforce
  have r_in: "r \<in> set (butlast ?ps)" if "kr = key"
  proof -
    have "post \<noteq> []" using ok kr that k by (auto simp: list_ok_def)
    then show ?thesis by (simp add: butlast_append)
  qed
  have only: "q = r" if "q \<in> set (butlast ?ps)" "key_at m q = Some key" for q
    using that lo post [of q] in_set_butlastD [of q ?ps] by auto
  show ?thesis
  proof (cases "key_at m r = Some key \<and> \<not> dead m r")
    case True
    then have "contents m ?ps key = Some vr"
      unfolding contents_Some [OF ok] using kr r_in by (intro bexI [of _ r]) auto
    then show ?thesis using True kr by simp
  next
    case False
    have "contents m ?ps key \<noteq> Some v" for v
      unfolding contents_Some [OF ok] using False only by blast
    then show ?thesis using False by (metis not_Some_eq)
  qed
qed

text \<open>The answer of a lookup: the value, 0 if there is none.\<close>

definition answer :: "sval_t option \<Rightarrow> sval_t" where
  "answer v = (case v of None \<Rightarrow> 0 | Some x \<Rightarrow> x)"

lemma find_result_ok:
  assumes ok: "list_ok m head (dn @ r # post)" and lo: "\<forall>q \<in> set dn. the (key_at m q) < key"
    and hi: "key \<le> the (key_at m r)" and k: "key < KEY_MAX"
  shows "find_result key r m = Some (answer (contents m (dn @ r # post) key))"
proof -
  obtain n where "nodes m r = Some n"
    using list_ok_keys(1) [OF ok] by (fastforce simp: key_at_def)
  then show ?thesis
    unfolding contents_at [OF assms]
    by (auto simp: find_result_def answer_def key_at_def val_at_def dead_def load_next_def)
qed

text \<open>The lookup with hazard pointers, on a list without dead nodes before the key.\<close>

lemma find_loop_ok:
  assumes "client s head (done @ ps) W" "ps \<noteq> []" "\<not> dead s (last (head # done))"
    and "\<forall>q \<in> set done. the (key_at s q) < key" "\<forall>q \<in> set ps. the (key_at s q) < key \<longrightarrow> \<not> dead s q"
    and "base + 1 < length (HP s)" "offset \<le> 1" "key \<le> KEY_MAX"
  shows "\<exists>hp dn r post. find_loop head base key offset (last (head # done)) (hd ps) s = Some (r, s\<lparr>HP := hp\<rparr>) \<and>
    done @ ps = dn @ r # post \<and> (\<forall>q \<in> set dn. the (key_at s q) < key) \<and> key \<le> the (key_at s r) \<and>
    length hp = length (HP s)"
  using assms
proof (induction ps arbitrary: s "done" offset)
  case Nil then show ?case by simp
next
  case (Cons p rest)
  let ?l = "last (head # done)"
  let ?s1 = "s\<lparr>HP := (HP s)[base + offset := p]\<rparr>"
  have c: "client s head (done @ p # rest) W" and live: "\<not> dead s ?l" using Cons.prems(1,3) by simp_all
  obtain nd where nd: "nodes s p = Some nd" "key_at s p = Some (n_key nd)" "val_at s p = Some (n_val nd)"
    "load_next p s = Some (n_next nd)" "dead s p = is_marked_ref (n_next nd)"
    "rest \<noteq> [] \<longrightarrow> get_unmarked_ref (n_next nd) = hd rest" "rest = [] \<longrightarrow> n_key nd = KEY_MAX \<and> n_next nd = NULL" "p \<notin> W"
    by (rule client_node [OF c])
  have lt: "base + offset < length (HP s)" using Cons.prems(6,7) by simp
  have lp: "load_next ?l ?s1 = Some p" using client_next [OF c live] by simp
  show ?case
  proof (cases "n_key nd \<ge> key")
    case True
    have "find_loop head base key offset ?l p s = Some (p, ?s1)"
      using lt lp nd True by (subst find_loop.simps) (simp add: Let_def)
    then show ?thesis using True nd Cons.prems(4)
      by (intro exI [of _ "(HP s)[base + offset := p]"] exI [of _ "done"] exI [of _ p] exI [of _ rest]) simp
  next
    case small: False
    then have ne: "rest \<noteq> []" using nd(7) Cons.prems(8) by auto
    have dp: "\<not> dead s p" using Cons.prems(5) small nd(2) by simp
    have run: "find_loop head base key offset ?l p s = find_loop head base key (1 - offset) p (hd rest) ?s1"
      using lt lp nd small ne by (subst find_loop.simps) (simp add: Let_def)
    have "\<exists>hp dn r post. find_loop head base key (1 - offset) (last (head # done @ [p])) (hd rest) ?s1 = Some (r, ?s1\<lparr>HP := hp\<rparr>) \<and>
        (done @ [p]) @ rest = dn @ r # post \<and> (\<forall>q \<in> set dn. the (key_at ?s1 q) < key) \<and> key \<le> the (key_at ?s1 r) \<and>
        length hp = length (HP ?s1)"
      by (rule Cons.IH) (use c ne dp small nd Cons.prems in \<open>auto\<close>)
    then show ?thesis using run by simp
  qed
qed

lemma harris_find_ok:
  assumes c: "client s head ps W" and d: "\<forall>q \<in> set ps. the (key_at s q) < key \<longrightarrow> \<not> dead s q"
    and b: "base + 1 < length (HP s)" and k: "key < KEY_MAX"
  obtains hp where "harris_find head base key s = Some (answer (contents s ps key), s\<lparr>HP := hp\<rparr>)"
    "length hp = length (HP s)"
proof -
  obtain p rest where ps: "ps = p # rest" using c by (cases ps) (auto simp: client_def list_ok_def)
  have live: "\<not> dead s head" using c by (simp add: client_def list_ok_def)
  have first: "load_next head s = Some (hd ps)" using client_next [of s head "[]" p rest W] c live by (simp add: ps)
  have "\<exists>hp dn r post. find_loop head base key 0 (last (head # [])) (hd ps) s = Some (r, s\<lparr>HP := hp\<rparr>) \<and>
      [] @ ps = dn @ r # post \<and> (\<forall>q \<in> set dn. the (key_at s q) < key) \<and> key \<le> the (key_at s r) \<and>
      length hp = length (HP s)"
    by (rule find_loop_ok) (use c d b k live ps in simp_all)
  then obtain hp dn r post where f: "find_loop head base key 0 head (hd ps) s = Some (r, s\<lparr>HP := hp\<rparr>)"
    "ps = dn @ r # post" "\<forall>q \<in> set dn. the (key_at s q) < key" "key \<le> the (key_at s r)" "length hp = length (HP s)"
    by auto
  have "list_ok s head (dn @ r # post)" using c f(2) by (simp add: client_def)
  then have "find_result key r s = Some (answer (contents s ps key))"
    unfolding f(2) using f(3,4) k by (rule find_result_ok)
  then have "find_result key r (s\<lparr>HP := hp\<rparr>) = Some (answer (contents s ps key))" by (simp add: find_result_def)
  then show ?thesis using first f(1,5) by (intro that [of hp]) (simp_all add: harris_find_def)
qed

text \<open>Without hazard pointers the lookup walks over dead nodes.\<close>

lemma plain_find_loop_ok:
  assumes "client s head (done @ ps) W" "ps \<noteq> []" "\<forall>q \<in> set done. the (key_at s q) < key" "key \<le> KEY_MAX"
  shows "\<exists>dn r post. plain_find_loop key (hd ps) s = Some r \<and> done @ ps = dn @ r # post \<and>
    (\<forall>q \<in> set dn. the (key_at s q) < key) \<and> key \<le> the (key_at s r)"
  using assms
proof (induction ps arbitrary: "done")
  case Nil then show ?case by simp
next
  case (Cons p rest)
  have c: "client s head (done @ p # rest) W" using Cons.prems(1) by simp
  obtain nd where nd: "nodes s p = Some nd" "key_at s p = Some (n_key nd)" "val_at s p = Some (n_val nd)"
    "load_next p s = Some (n_next nd)" "dead s p = is_marked_ref (n_next nd)"
    "rest \<noteq> [] \<longrightarrow> get_unmarked_ref (n_next nd) = hd rest" "rest = [] \<longrightarrow> n_key nd = KEY_MAX \<and> n_next nd = NULL" "p \<notin> W"
    by (rule client_node [OF c])
  show ?case
  proof (cases "n_key nd < key")
    case False
    then have "plain_find_loop key p s = Some p" using nd by (subst plain_find_loop.simps) simp
    then show ?thesis using False nd Cons.prems(3) by (intro exI [of _ "done"] exI [of _ p] exI [of _ rest]) simp
  next
    case True
    then have ne: "rest \<noteq> []" using nd(7) Cons.prems(4) by auto
    have run: "plain_find_loop key p s = plain_find_loop key (hd rest) s"
      using nd True ne by (subst plain_find_loop.simps) simp
    have "\<exists>dn r post. plain_find_loop key (hd rest) s = Some r \<and> (done @ [p]) @ rest = dn @ r # post \<and>
        (\<forall>q \<in> set dn. the (key_at s q) < key) \<and> key \<le> the (key_at s r)"
      by (rule Cons.IH) (use c ne True nd Cons.prems in \<open>auto\<close>)
    then show ?thesis using run by simp
  qed
qed

lemma plain_harris_find_ok:
  assumes c: "client s head ps W" and k: "key < KEY_MAX"
  shows "plain_harris_find head key s = Some (answer (contents s ps key), s)"
proof -
  obtain p rest where ps: "ps = p # rest" using c by (cases ps) (auto simp: client_def list_ok_def)
  have live: "\<not> dead s head" using c by (simp add: client_def list_ok_def)
  have first: "load_next head s = Some (hd ps)" using client_next [of s head "[]" p rest W] c live by (simp add: ps)
  have "\<exists>dn r post. plain_find_loop key (hd ps) s = Some r \<and> [] @ ps = dn @ r # post \<and>
      (\<forall>q \<in> set dn. the (key_at s q) < key) \<and> key \<le> the (key_at s r)"
    by (rule plain_find_loop_ok) (use c k ps in simp_all)
  then obtain dn r post where f: "plain_find_loop key (hd ps) s = Some r"
    "ps = dn @ r # post" "\<forall>q \<in> set dn. the (key_at s q) < key" "key \<le> the (key_at s r)" by auto
  have "list_ok s head (dn @ r # post)" using c f(2) by (simp add: client_def)
  then have "find_result key r s = Some (answer (contents s ps key))"
    unfolding f(2) using f(3,4) k by (rule find_result_ok)
  then show ?thesis using first f(1) by (simp add: plain_harris_find_def)
qed

section \<open>Room in an arena\<close>

definition room :: "nat \<Rightarrow> nat \<Rightarrow> nat \<Rightarrow> ssalloc_state \<Rightarrow> bool" where
  "room a sz n s \<longleftrightarrow> unat (alloc_next s a) + n * sz \<le> unat (ssalloc_size a)"

lemma room_alloc:
  assumes inv: "arena_inv a sz s L" and r: "room a sz (Suc n) s"
  shows "fst (ssalloc_alloc a (of_nat sz) s) \<noteq> NULL" "room a sz n (snd (ssalloc_alloc a (of_nat sz) s))"
proof -
  have sizes: "unat (ssalloc_size a) \<le> 2 ^ 30"
    by (simp add: ssalloc_size_def SSALLOC_SIZE_BIG_def SSALLOC_SIZE_SMALL_def)
  have le: "unat (alloc_next s a) + sz + n * sz \<le> unat (ssalloc_size a)" using r by (simp add: room_def)
  then have sum: "unat (alloc_next s a + of_nat sz) = unat (alloc_next s a) + sz"
    using sizes by (intro unat_add_of_nat) simp
  then have fits: "\<not> alloc_next s a + of_nat sz > ssalloc_size a" using le by (simp add: word_less_nat_alt)
  show "fst (ssalloc_alloc a (of_nat sz) s) \<noteq> NULL"
  proof
    assume "fst (ssalloc_alloc a (of_nat sz) s) = NULL"
    then obtain s' where al: "ssalloc_alloc a (of_nat sz) s = (NULL, s')" by (metis prod.collapse)
    have "\<not> free_num s a > 2" using ssalloc_NULL(2) [OF inv al] by (simp add: word_less_nat_alt)
    then have "app_mem s a + alloc_next s a = NULL" using al fits by (simp add: ssalloc_alloc_def)
    moreover have ok: "arena_ok a sz s" using inv by (simp add: arena_inv_def)
    ultimately show False
      using in_arena_not_NULL [OF bump_block(1,2) [OF ok fits refl]] by simp
  qed
  show "room a sz n (snd (ssalloc_alloc a (of_nat sz) s))"
    using le fits sum by (simp add: room_def ssalloc_alloc_def Let_def)
qed

lemma room_mono: "room a sz (Suc n) s \<Longrightarrow> room a sz n s"
  by (simp add: room_def)

lemma alloc_next_other [simp]:
  "a \<noteq> b \<Longrightarrow> alloc_next (snd (ssalloc_alloc a sz s)) b = alloc_next s b"
  "alloc_next (ssfree_alloc a p s) = alloc_next s"
  by (simp_all add: ssalloc_alloc_def ssfree_alloc_def Let_def)

section \<open>A new node\<close>

lemma even_unmarked: "even (unat p) \<Longrightarrow> get_unmarked_ref p = p"
proof -
  assume "even (unat p)"
  then have "\<not> bit (unat p) 0" by (simp add: bit_0)
  then have "\<not> is_marked_ref p" by (simp add: is_marked_ref_bit bit_unsigned_iff)
  then show ?thesis by (simp add: unmarked_iff)
qed

lemma new_node_ok:
  assumes ar: "arena_inv 0 NODE_SIZE (alloc s) L" and m: "nodes_mapped s" and r: "room 0 NODE_SIZE (Suc n) (alloc s)"
  obtains p no where "new_node k v x s = Some (p, s\<lparr>nodes := no, alloc := snd (ssalloc_alloc 0 (of_nat NODE_SIZE) (alloc s))\<rparr>)"
    "p \<notin> L" "p \<noteq> NULL" "get_unmarked_ref p = p"
    "no p = Some (the (nodes s p)\<lparr>n_key := k, n_val := v, n_next := x\<rparr>)" "\<forall>q. q \<noteq> p \<longrightarrow> no q = nodes s q"
    "nodes s p \<noteq> None" "arena_inv 0 NODE_SIZE (snd (ssalloc_alloc 0 (of_nat NODE_SIZE) (alloc s))) (insert p L)"
proof -
  obtain p al where a: "ssalloc_alloc 0 (of_nat NODE_SIZE) (alloc s) = (p, al)" by force
  have p: "p \<noteq> NULL" using room_alloc(1) [OF ar r] by (simp add: a)
  note new = arena_inv_ssalloc [OF ar a p]
  have am: "app_mem al = app_mem (alloc s)" using ssalloc_app_mem [of 0 "of_nat NODE_SIZE" "alloc s"] by (simp add: a)
  have ok: "arena_ok 0 NODE_SIZE al" using new(3) by (simp add: arena_inv_def)
  have "nodes s p \<noteq> None"
    using m new(2) ok by (auto simp: nodes_mapped_def in_arena_def arena_ok_def am)
  moreover have "even (unat p)"
  proof -
    have "32 dvd (unat p - unat (app_mem al 0))" "unat (app_mem al 0) \<le> unat p" "even (unat (app_mem al 0))"
      using m new(2) by (simp_all add: nodes_mapped_def in_arena_def am NODE_SIZE_def)
    then show ?thesis by presburger
  qed
  ultimately show ?thesis using a p new even_unmarked [of p]
    by (intro that [of p "(nodes s)(p \<mapsto> the (nodes s p)\<lparr>n_key := k, n_val := v, n_next := x\<rparr>)"])
      (auto simp: new_node_def)
qed

section \<open>Insertion and deletion\<close>

text \<open>The addresses in the list are unmarked.\<close>

lemma unmarked_ref_list:
  assumes ok: "list_ok s head ps" and r: "r \<in> set ps"
  shows "\<not> is_marked_ref r"
proof -
  obtain A B where ps: "ps = A @ r # B" using r by (auto simp: in_set_conv_decomp)
  have "successively (linked s) ((head # A) @ (r # B))" using ok by (simp add: list_ok_def ps)
  then have "linked s (last (head # A)) r" unfolding successively_append_iff by simp
  then show ?thesis by (auto simp: linked_def split: option.splits)
qed

locale list_client = reclaimer retire inv
  for retire :: "ptr \<Rightarrow> 'a mem_scheme \<Rightarrow> 'a mem_scheme option" and inv :: "'a mem_scheme \<Rightarrow> ptr set \<Rightarrow> nat \<Rightarrow> bool" +
  fixes search :: "skey_t \<Rightarrow> 'a mem_scheme \<Rightarrow> (ptr \<times> ptr \<times> 'a mem_scheme) option"
    and head :: ptr
    and get :: "skey_t \<Rightarrow> sval_t \<Rightarrow> ptr \<Rightarrow> 'a mem_scheme \<Rightarrow> (ptr \<times> 'a mem_scheme) option"
  assumes search_law: "client s head ps W \<Longrightarrow> inv s W n \<Longrightarrow> deads s ps \<le> n \<Longrightarrow> key \<le> KEY_MAX \<Longrightarrow>
      \<exists>s' W' dn r post n'. search key s = Some (last (head # dn), r, s') \<and>
        positioned s s' head key ps dn r post W' \<and> inv s' W' n' \<and>
        n + deads s' (dn @ r # post) = n' + deads s ps \<and> n' \<le> n"
    and get_law: "new_node key val r s = Some (p, s') \<Longrightarrow> p \<noteq> NULL \<Longrightarrow> get key val r s = Some (p, s')"
begin

text \<open>A new node goes in between \<open>dn\<close> and \<open>r\<close>.\<close>

lemma link_new_node:
  assumes c: "client s head (dn @ r # post) W" and i: "inv s W n" and live: "\<not> dead s (last (head # dn))"
    and lo: "\<forall>q \<in> set dn. the (key_at s q) < key" and hi: "key < the (key_at s r)" and rm: "room 0 NODE_SIZE (Suc j) (alloc s)"
  obtains p s2 s3 where "new_node key val r s = Some (p, s2)" "p \<noteq> NULL"
    "cas_next (last (head # dn)) r p s2 = Some (r, s3)" "inv s3 W n" "client s3 head (dn @ p # r # post) W"
    "contents s3 (dn @ p # r # post) = (contents s (dn @ r # post))(key \<mapsto> val)"
    "deads s3 (dn @ p # r # post) = deads s (dn @ r # post)" "room 0 NODE_SIZE j (alloc s3)"
proof -
  define l where "l = last (head # dn)"
  let ?ps = "dn @ r # post" and ?al = "snd (ssalloc_alloc 0 (of_nat NODE_SIZE) (alloc s))"
  have ok: "list_ok s head ?ps" and dj: "set (head # ?ps) \<inter> W = {}" and nm: "nodes_mapped s"
    and ar: "arena_inv 0 NODE_SIZE (alloc s) (set (head # ?ps) \<union> W)" using c by (simp_all add: client_def)
  obtain p no where nn: "new_node key val r s = Some (p, s\<lparr>nodes := no, alloc := ?al\<rparr>)"
    and p: "p \<notin> set (head # ?ps) \<union> W" "p \<noteq> NULL" "get_unmarked_ref p = p"
    and no: "no p = Some (the (nodes s p)\<lparr>n_key := key, n_val := val, n_next := r\<rparr>)" "\<forall>q. q \<noteq> p \<longrightarrow> no q = nodes s q"
    and pm: "nodes s p \<noteq> None" and ar2: "arena_inv 0 NODE_SIZE ?al (insert p (set (head # ?ps) \<union> W))"
    by (rule new_node_ok [OF ar nm rm])
  let ?s2 = "s\<lparr>nodes := no, alloc := ?al\<rparr>"
  have same: "same_nodes s ?s2 (set (head # ?ps))"
    using p(1) no(2) by (auto simp: same_nodes_def load_next_def key_at_def val_at_def)
  note ok2 = list_ok_cong [OF same ok]
  have lin: "l \<in> set (head # ?ps)" unfolding l_def using last_done [of head dn] by auto
  have live2: "\<not> dead ?s2 l" using same_nodes_dead [OF same lin] live by (simp add: l_def)
  have "load_next l ?s2 = Some r"
    using client_next [OF c live] bspec [OF same [unfolded same_nodes_def] lin] by (simp only: l_def)
  then obtain s3 where cas: "cas_next l r p ?s2 = Some (r, s3)" and rls: "\<forall>S. relinked ?s2 s3 l p S"
    and s3: "s3 = ?s2\<lparr>nodes := nodes s3\<rparr>" and dom: "\<forall>q. nodes s3 q = None \<longleftrightarrow> nodes ?s2 q = None"
    by (rule cas_next_relinked)
  have kp: "load_next p ?s2 = Some r" "key_at ?s2 p = Some key" "val_at ?s2 p = Some val"
    using no(1) by (simp_all add: load_next_def key_at_def val_at_def)
  have k2: "\<forall>q \<in> set dn. the (key_at ?s2 q) < key" "key < the (key_at ?s2 r)"
    using same lo hi by (simp_all add: same_nodes_def)
  have pn: "p \<notin> set (head # ?ps)" using p(1) by blast
  note ins = list_ok_insert [OF ok2(1) live2 [unfolded l_def] pn p(2,3) kp k2 rls [rule_format, unfolded l_def]]
  obtain n3 where "s3 = ?s2\<lparr>nodes := n3\<rparr>" using s3 by blast
  then have n3: "s3 = s\<lparr>nodes := n3, alloc := ?al\<rparr>" by simp
  have dom3: "\<forall>q. n3 q = None \<longleftrightarrow> nodes s q = None"
  proof
    fix q
    show "n3 q = None \<longleftrightarrow> nodes s q = None"
      using dom [rule_format, of q] no pm by (cases "q = p") (auto simp: n3)
  qed
  have "inv (s\<lparr>nodes := n3\<rparr>) W n" by (rule nodes_law [OF i dom3])
  then have i3: "inv s3 W n" using alloc_law [of "s\<lparr>nodes := n3\<rparr>" W n] by (simp add: n3)
  have "nodes_mapped s3" using nm dom3 by (simp add: nodes_mapped_def n3)
  moreover have "arena_inv 0 NODE_SIZE (alloc s3) (set (head # dn @ p # r # post) \<union> W)"
    using ar2 by (simp add: n3 insert_commute Un_commute)
  ultimately have "client s3 head (dn @ p # r # post) W"
    using ins(1) dj p(1) by (simp add: client_def)
  moreover have "dead s3 q = dead s q" if q: "q \<in> set (head # ?ps)" for q
  proof (cases "q = l")
    case True
    have "\<not> dead s3 l" using relinked_self(1) [OF rls [rule_format]] p(3) unmarked_iff [of p] by blast
    then show ?thesis using live True by (simp add: l_def)
  next
    case False
    then show ?thesis
      using relinked_other(1) [OF rls [rule_format, of "{q}"], of q] same_nodes_dead [OF same q] by simp
  qed
  then have "filter (dead s3) dn = filter (dead s) dn" "filter (dead s3) (r # post) = filter (dead s) (r # post)"
    by (intro filter_cong refl, auto)+
  moreover have "\<not> dead s3 p"
  proof -
    have "p \<noteq> l" using lin pn by auto
    moreover have "\<not> dead ?s2 p" using kp(1) unmarked_ref_list [OF ok, of r] by (simp add: dead_def)
    ultimately show ?thesis using relinked_other(1) [OF rls [rule_format, of "{p}"], of p] by simp
  qed
  moreover have "room 0 NODE_SIZE j (alloc s3)" using room_alloc(2) [OF ar rm] by (simp add: n3)
  ultimately show ?thesis using nn p(2) cas i3 ins(2) ok2(2)
    by (intro that [of p ?s2 s3]) (simp_all add: l_def)
qed

lemma insert_ok:
  assumes c: "client s head ps W" and i: "inv s W n" and d: "deads s ps \<le> n"
    and k: "key < KEY_MAX" and rm: "room 0 NODE_SIZE (Suc j) (alloc s)"
  shows "\<exists>s' ps' W' n'. harris_insert search get key val s = Some (if contents s ps key = None then 1 else 0, s') \<and>
    client s' head ps' W' \<and> inv s' W' n' \<and> n + deads s' ps' \<le> n' + deads s ps \<and> deads s' ps' \<le> deads s ps \<and>
    room 0 NODE_SIZE j (alloc s') \<and> contents s' ps' = (if contents s ps key = None then (contents s ps)(key \<mapsto> val) else contents s ps)"
proof -
  from search_law [OF c i d, of key] k obtain s1 W1 dn r post n1 where
    se: "search key s = Some (last (head # dn), r, s1)" and ps: "positioned s s1 head key ps dn r post W1"
    and i1: "inv s1 W1 n1" "n + deads s1 (dn @ r # post) = n1 + deads s ps" "n1 \<le> n"
    by (metis less_imp_le)
  have c1: "client s1 head (dn @ r # post) W1" and cn: "contents s1 (dn @ r # post) = contents s ps"
    and live: "\<not> dead s1 (last (head # dn))" "\<not> dead s1 r" and lo: "\<forall>q \<in> set dn. the (key_at s1 q) < key"
    and hi: "key \<le> the (key_at s1 r)" and rm1: "room 0 NODE_SIZE (Suc j) (alloc s1)"
    using ps rm by (simp_all add: positioned_def room_def)
  obtain nd where nd: "nodes s1 r = Some nd" "key_at s1 r = Some (n_key nd)" "val_at s1 r = Some (n_val nd)"
    by (rule client_node [OF c1])
  have "contents s1 (dn @ r # post) key = (if key_at s1 r = Some key \<and> \<not> dead s1 r then val_at s1 r else None)"
    by (rule contents_at [of _ head, OF _ lo hi k]) (use c1 in \<open>simp add: client_def\<close>)
  then have at: "contents s ps key = (if n_key nd = key then Some (n_val nd) else None)"
    using live(2) nd by (simp add: cn)
  show ?thesis
  proof (cases "n_key nd = key")
    case True
    have "harris_insert search get key val s = Some (0, s1)"
      using se nd True by (subst harris_insert.simps) simp
    then show ?thesis using at True c1 i1 cn room_mono [OF rm1]
      by (intro exI [of _ s1] exI [of _ "dn @ r # post"] exI [of _ W1] exI [of _ n1]) simp
  next
    case False
    have hi': "key < the (key_at s1 r)" using hi False nd(2) by simp
    obtain p s2 s3 where nn: "new_node key val r s1 = Some (p, s2)" "p \<noteq> NULL"
      "cas_next (last (head # dn)) r p s2 = Some (r, s3)" "inv s3 W1 n1" "client s3 head (dn @ p # r # post) W1"
      "contents s3 (dn @ p # r # post) = (contents s1 (dn @ r # post))(key \<mapsto> val)"
      "deads s3 (dn @ p # r # post) = deads s1 (dn @ r # post)" "room 0 NODE_SIZE j (alloc s3)"
      by (rule link_new_node [OF c1 i1(1) live(1) lo hi' rm1])
    have "harris_insert search get key val s = Some (1, s3)"
      using se nd(1) False get_law [OF nn(1,2)] nn(3) by (subst harris_insert.simps) simp
    then show ?thesis using at False nn(4-6,8) i1(2,3) cn nn(7)
      by (intro exI [of _ s3] exI [of _ "dn @ p # r # post"] exI [of _ W1] exI [of _ n1]) simp
  qed
qed

text \<open>A live node is marked and unlinked.\<close>

lemma mark_node:
  assumes c: "client s head (dn @ r # post) W" and i: "inv s W n" and live: "\<not> dead s (last (head # dn))" "\<not> dead s r"
    and r: "nodes s r = Some nd" and post: "post \<noteq> []"
  obtains s2 where "cas_next r (n_next nd) (get_marked_ref (n_next nd)) s = Some (n_next nd, s2)"
    "inv s2 W n" "client s2 head (dn @ r # post) W" "dead s2 r" "\<not> dead s2 (last (head # dn))"
    "contents s2 (dn @ r # post) = (contents s (dn @ r # post))(n_key nd := None)"
    "val_at s2 r = Some (n_val nd)" "get_unmarked_ref (n_next nd) = n_next nd"
    "deads s2 (dn @ r # post) = Suc (deads s (dn @ r # post))" "alloc s2 = alloc s"
proof -
  let ?ps = "dn @ r # post" and ?y = "n_next nd"
  have ok: "list_ok s head ?ps" using c by (simp add: client_def)
  have y: "load_next r s = Some ?y" "key_at s r = Some (n_key nd)" "val_at s r = Some (n_val nd)"
    using r by (simp_all add: load_next_def key_at_def val_at_def)
  have un: "get_unmarked_ref ?y = ?y" using live(2) y(1) by (simp add: dead_def unmarked_iff)
  obtain s2 where cas: "cas_next r ?y (get_marked_ref ?y) s = Some (?y, s2)"
    and rls: "\<forall>S. relinked s s2 r (get_marked_ref ?y) S" and s2: "s2 = s\<lparr>nodes := nodes s2\<rparr>"
    and dom: "\<forall>q. nodes s2 q = None \<longleftrightarrow> nodes s q = None" by (rule cas_next_relinked [OF y(1)])
  note rl = rls [rule_format]
  have "r \<in> set (butlast ?ps)" using post by (simp add: butlast_append)
  note mk = list_ok_mark [OF ok this y(1) un rl]
  obtain no where no: "s2 = s\<lparr>nodes := no\<rparr>" using s2 by blast
  have i2: "inv s2 W n" unfolding no by (rule nodes_law [OF i]) (use dom in \<open>simp add: no\<close>)
  have c2: "client s2 head ?ps W" using c mk(1) dom by (simp add: client_def nodes_mapped_def no)
  have "last (head # dn) \<noteq> r"
    using last_done [of head dn] ok by (auto simp: list_ok_def)
  then have "\<not> dead s2 (last (head # dn))" using relinked_other(1) [OF rl, of "last (head # dn)"] live(1) by blast
  moreover have "val_at s2 r = Some (n_val nd)" using rl [of "{r}"] y(3) by (simp add: relinked_def)
  moreover have "deads s2 ?ps = Suc (deads s ?ps)"
  proof -
    have "dead s2 q = dead s q" if "q \<noteq> r" for q
      using relinked_other(1) [OF rl [of "{q}"], of q] that by simp
    moreover have "r \<notin> set dn" "r \<notin> set post" using ok by (auto simp: list_ok_def)
    ultimately have "filter (dead s2) dn = filter (dead s) dn" "filter (dead s2) post = filter (dead s) post"
      by (intro filter_cong refl, metis)+
    then show ?thesis using mk(3) live(2) by simp
  qed
  ultimately show ?thesis using cas i2 c2 mk(2,3) y(2) un by (intro that [of s2]) (simp_all add: no)
qed

lemma delete_ok:
  assumes c: "client s head ps W" and i: "inv s W n" and d: "deads s ps < n" and k: "key < KEY_MAX"
  shows "\<exists>s' ps' W' n'. harris_delete search retire key s = Some (answer (contents s ps key), s') \<and>
    client s' head ps' W' \<and> inv s' W' n' \<and> n + deads s' ps' \<le> Suc n' + deads s ps \<and> deads s' ps' \<le> deads s ps \<and>
    alloc_next (alloc s') 0 = alloc_next (alloc s) 0 \<and> contents s' ps' = (contents s ps)(key := None)"
proof -
  from search_law [OF c i _, of key] k d obtain s1 W1 dn r post n1 where
    se: "search key s = Some (last (head # dn), r, s1)" and ps: "positioned s s1 head key ps dn r post W1"
    and i1: "inv s1 W1 n1" "n + deads s1 (dn @ r # post) = n1 + deads s ps" "n1 \<le> n"
    by (metis less_imp_le)
  have c1: "client s1 head (dn @ r # post) W1" and cn: "contents s1 (dn @ r # post) = contents s ps"
    and live: "\<not> dead s1 (last (head # dn))" "\<not> dead s1 r" and lo: "\<forall>q \<in> set dn. the (key_at s1 q) < key"
    and hi: "key \<le> the (key_at s1 r)" and an: "alloc_next (alloc s1) 0 = alloc_next (alloc s) 0"
    using ps by (simp_all add: positioned_def)
  obtain nd where nd: "nodes s1 r = Some nd" "key_at s1 r = Some (n_key nd)" "val_at s1 r = Some (n_val nd)"
    "post = [] \<longrightarrow> n_key nd = KEY_MAX \<and> n_next nd = NULL" by (rule client_node [OF c1])
  have "contents s1 (dn @ r # post) key = (if key_at s1 r = Some key \<and> \<not> dead s1 r then val_at s1 r else None)"
    by (rule contents_at [of _ head, OF _ lo hi k]) (use c1 in \<open>simp add: client_def\<close>)
  then have at: "contents s ps key = (if n_key nd = key then Some (n_val nd) else None)"
    using live(2) nd by (simp add: cn)
  show ?thesis
  proof (cases "n_key nd = key")
    case False
    have "harris_delete search retire key s = Some (0, s1)"
      using se nd False by (subst harris_delete.simps) simp
    moreover have "(contents s ps)(key := None) = contents s ps" using at False by (simp add: fun_upd_idem)
    ultimately show ?thesis using at False c1 i1 cn an
      by (intro exI [of _ s1] exI [of _ "dn @ r # post"] exI [of _ W1] exI [of _ n1]) (simp add: answer_def)
  next
    case True
    then have post: "post \<noteq> []" using nd(4) k by auto
    obtain m1 where m1: "n1 = Suc m1" using i1(2) d by (cases n1) auto
    obtain s2 where s2: "cas_next r (n_next nd) (get_marked_ref (n_next nd)) s1 = Some (n_next nd, s2)"
      "inv s2 W1 n1" "client s2 head (dn @ r # post) W1" "dead s2 r" "\<not> dead s2 (last (head # dn))"
      "contents s2 (dn @ r # post) = (contents s1 (dn @ r # post))(n_key nd := None)"
      "val_at s2 r = Some (n_val nd)" "get_unmarked_ref (n_next nd) = n_next nd"
      "deads s2 (dn @ r # post) = Suc (deads s1 (dn @ r # post))" "alloc s2 = alloc s1"
      by (rule mark_node [OF c1 i1(1) live nd(1) post])
    obtain s3 W3 x where s3: "physical_delete_right retire (last (head # dn)) r s2 = Some (True, s3)" "inv s3 W3 m1"
      "client s3 head (dn @ post) W3" "contents s3 (dn @ post) = contents s2 (dn @ r # post)" "HP s3 = HP s2"
      "load_next r s3 = Some x" "get_unmarked_ref x = hd post" "post \<noteq> []" "alloc_next (alloc s3) 0 = alloc_next (alloc s2) 0"
      "\<forall>q \<in> set (head # dn @ post). key_at s3 q = key_at s2 q \<and> dead s3 q = dead s2 q"
      by (rule unlink_step [OF s2(3,4,5) s2(2) [unfolded m1]])
    obtain rn where rn: "nodes s2 r = Some rn" "n_val rn = n_val nd" using s2(7) by (auto simp: val_at_def)
    have "harris_delete search retire key s = Some (n_val nd, s3)"
      using se nd(1) True s2(1,8) rn s3(1) by (subst harris_delete.simps) (simp add: Let_def)
    moreover have "filter (dead s3) dn = filter (dead s2) dn" "filter (dead s3) post = filter (dead s2) post"
      by (rule filter_cong, use s3(10) in auto)+
    then have "Suc (deads s3 (dn @ post)) = deads s2 (dn @ r # post)" using s2(4) by simp
    then have "deads s3 (dn @ post) = deads s1 (dn @ r # post)" unfolding s2(9) by simp
    ultimately show ?thesis using at True s3(2-4,9) s2(6,10) cn i1(2,3) m1 an
      by (intro exI [of _ s3] exI [of _ "dn @ post"] exI [of _ W3] exI [of _ m1]) (simp add: answer_def)
  qed
qed

end

section \<open>Size\<close>

lemma size_loop_ok:
  assumes "list_ok s head (done @ ps)" "ps \<noteq> []"
  shows "size_loop (hd ps) n s = Some (n + of_nat (length (filter (\<lambda>p. \<not> dead s p) (butlast ps))))"
  using assms
proof (induction ps arbitrary: n "done")
  case Nil then show ?case by simp
next
  case (Cons p rest)
  have ok: "list_ok s head (done @ p # rest)" using Cons.prems(1) by simp
  have "nodes s p \<noteq> None" using ok nodes_iff(1) [of s p] by (simp add: list_ok_def)
  then obtain nd where nd: "nodes s p = Some nd" by blast
  show ?case
  proof (cases "rest = []")
    case True
    then have "n_next nd = NULL" using ok nd by (simp add: list_ok_def load_next_def)
    then show ?thesis using nd True by (simp add: size_loop.simps)
  next
    case False
    have "successively (linked s) ((head # done) @ [p] @ rest)" using ok by (simp add: list_ok_def)
    then have "successively (linked s) (p # rest)" unfolding successively_append_iff [of _ "head # done"] by simp
    then have next_p: "get_unmarked_ref (n_next nd) = hd rest"
      using False nd by (auto simp: successively_Cons linked_def load_next_def)
    moreover have "hd rest \<noteq> NULL" using ok False by (auto simp: list_ok_def dest: hd_in_set)
    ultimately have run: "size_loop p n s = size_loop (hd rest) (if dead s p then n else n + 1) s"
      using nd by (subst size_loop.simps) (simp add: dead_def load_next_def)
    have "size_loop (hd rest) n' s = Some (n' + of_nat (length (filter (\<lambda>p. \<not> dead s p) (butlast rest))))" for n'
      by (rule Cons.IH [of "done @ [p]"]) (use ok False in simp_all)
    then show ?thesis using run False by simp
  qed
qed

lemma card_contents:
  assumes ok: "list_ok s head ps"
  shows "card (dom (contents s ps)) = length (filter (\<lambda>p. \<not> dead s p) (butlast ps))"
proof -
  let ?xs = "filter (\<lambda>p. \<not> dead s p) (butlast ps)"
  have sub: "set ?xs \<subseteq> set ps" by (auto dest: in_set_butlastD)
  have "dom (contents s ps) = (\<lambda>p. the (key_at s p)) ` set ?xs"
    by (simp add: contents_def dom_map_of_conv_image_fst image_image)
  moreover have "card ((\<lambda>p. the (key_at s p)) ` set ?xs) = card (set ?xs)"
    by (rule card_image) (rule inj_on_subset [OF list_ok_keys(2) [OF ok] sub])
  moreover have "distinct ?xs" using ok by (simp add: list_ok_def distinct_butlast)
  ultimately show ?thesis by (simp only: distinct_card)
qed

lemma client_length:
  assumes "client s head ps W"
  shows "length ps \<le> 2 ^ 30"
proof -
  let ?b = "unat (app_mem (alloc s) 0)"
  have arena: "?b \<le> unat p \<and> unat p < ?b + 2 ^ 30" if "p \<in> set ps" for p
  proof -
    have "in_arena 0 NODE_SIZE (alloc s) p" "arena_ok 0 NODE_SIZE (alloc s)"
      using assms that by (auto simp: client_def arena_inv_def)
    moreover have "unat (ssalloc_size 0) \<le> 2 ^ 30"
      by (simp add: ssalloc_size_def SSALLOC_SIZE_SMALL_def)
    ultimately show ?thesis by (auto simp: in_arena_def arena_ok_def NODE_SIZE_def)
  qed
  have "inj_on unat (set ps)" by (auto intro: inj_onI simp: word_unat_eq_iff)
  then have "length ps = card (unat ` set ps)"
    using assms by (simp add: client_def list_ok_def distinct_card card_image)
  also have "\<dots> \<le> card {?b ..< ?b + 2 ^ 30}" by (rule card_mono) (use arena in auto)
  finally show ?thesis by simp
qed

lemma set_size_ok:
  assumes c: "client s head ps W"
  shows "set_size head s = Some (int (card (dom (contents s ps))))"
proof -
  have ok: "list_ok s head ps" using c by (simp add: client_def)
  obtain p rest where ps: "ps = p # rest" using ok by (cases ps) (auto simp: list_ok_def)
  have live: "\<not> dead s head" using ok by (simp add: list_ok_def)
  have first: "load_next head s = Some (hd ps)" using client_next [of s head "[]" p rest W] c live by (simp add: ps)
  have lk: "linked s head (hd ps)" using ok by (simp add: list_ok_def ps)
  then have un: "get_unmarked_ref (hd ps) = hd ps" using first by (simp add: linked_def)
  let ?n = "length (filter (\<lambda>p. \<not> dead s p) (butlast ps))"
  have "?n \<le> length ps" by (rule order_trans [OF length_filter_le]) simp
  then have n: "?n \<le> 2 ^ 30" using client_length [OF c] by simp
  have "size_loop (hd ps) 0 s = Some (0 + of_nat ?n)"
    by (rule size_loop_ok [of s head "[]"]) (use ok ps in simp_all)
  then have "set_size head s = Some (sint (ucast (of_nat ?n :: u64) :: 32 word))"
    using first un by (simp add: set_size_def)
  moreover have "(ucast (of_nat ?n :: u64) :: 32 word) = of_nat ?n"
  proof -
    have "unat (ucast (of_nat ?n :: u64) :: 32 word) = unat (of_nat ?n :: 32 word)"
      using n by (simp add: unsigned_ucast_eq unat_of_nat take_bit_nat_eq_self)
    then show ?thesis by (simp only: word_unat_eq_iff)
  qed
  moreover have "sint (of_nat ?n :: 32 word) = int ?n"
  proof -
    have u: "unat (of_nat ?n :: 32 word) = ?n" using n by (intro unat_of_nat_less) simp
    then have "unat (of_nat ?n :: 32 word) < 2 ^ 31" using n by simp
    from sint_small [OF this] show ?thesis unfolding u .
  qed
  ultimately show ?thesis by (simp only: card_contents [OF ok])
qed

section \<open>A new set\<close>

lemma set_new_ok:
  assumes ar: "arena_inv 0 NODE_SIZE (alloc s) W" and nm: "nodes_mapped s" and rm: "room 0 NODE_SIZE (Suc (Suc j)) (alloc s)"
  obtains head max no al where "set_new s = Some (head, s\<lparr>nodes := no, alloc := al\<rparr>)"
    "client (s\<lparr>nodes := no, alloc := al\<rparr>) head [max] W" "contents (s\<lparr>nodes := no, alloc := al\<rparr>) [max] = Map.empty"
    "deads (s\<lparr>nodes := no, alloc := al\<rparr>) [max] = 0" "room 0 NODE_SIZE j al"
    "\<forall>p. no p = None \<longleftrightarrow> nodes s p = None" "al = snd (ssalloc_alloc 0 (of_nat NODE_SIZE) (snd (ssalloc_alloc 0 (of_nat NODE_SIZE) (alloc s))))"
proof -
  let ?a1 = "snd (ssalloc_alloc 0 (of_nat NODE_SIZE) (alloc s))"
  let ?a2 = "snd (ssalloc_alloc 0 (of_nat NODE_SIZE) ?a1)"
  obtain p no where n1: "new_node KEY_MAX 0 NULL s = Some (p, s\<lparr>nodes := no, alloc := ?a1\<rparr>)"
    and p: "p \<notin> W" "p \<noteq> NULL" "get_unmarked_ref p = p"
    and no: "no p = Some (the (nodes s p)\<lparr>n_key := KEY_MAX, n_val := 0, n_next := NULL\<rparr>)" "\<forall>q. q \<noteq> p \<longrightarrow> no q = nodes s q"
    "nodes s p \<noteq> None" and ar1: "arena_inv 0 NODE_SIZE ?a1 (insert p W)"
    by (rule new_node_ok [OF ar nm rm])
  let ?s1 = "s\<lparr>nodes := no, alloc := ?a1\<rparr>"
  have dom1: "no q = None \<longleftrightarrow> nodes s q = None" for q using no by (cases "q = p") auto
  have nm1: "nodes_mapped ?s1" using nm dom1 by (simp add: nodes_mapped_def)
  have rm1: "room 0 NODE_SIZE (Suc j) ?a1" by (rule room_alloc(2) [OF ar rm])
  have ar1': "arena_inv 0 NODE_SIZE (alloc ?s1) (insert p W)" using ar1 by simp
  have rm1': "room 0 NODE_SIZE (Suc j) (alloc ?s1)" using rm1 by simp
  obtain h no2 where n2: "new_node KEY_MIN 0 p ?s1 =
      Some (h, ?s1\<lparr>nodes := no2, alloc := snd (ssalloc_alloc 0 (of_nat NODE_SIZE) (alloc ?s1))\<rparr>)"
    and h: "h \<notin> insert p W" "h \<noteq> NULL" "get_unmarked_ref h = h"
    and no2: "no2 h = Some (the (nodes ?s1 h)\<lparr>n_key := KEY_MIN, n_val := 0, n_next := p\<rparr>)"
      "\<forall>q. q \<noteq> h \<longrightarrow> no2 q = nodes ?s1 q" "nodes ?s1 h \<noteq> None"
    and ar2: "arena_inv 0 NODE_SIZE (snd (ssalloc_alloc 0 (of_nat NODE_SIZE) (alloc ?s1))) (insert h (insert p W))"
    by (rule new_node_ok [OF ar1' nm1 rm1'])
  let ?s2 = "s\<lparr>nodes := no2, alloc := ?a2\<rparr>"
  have hp: "h \<noteq> p" using h(1) by blast
  have dom2: "no2 q = None \<longleftrightarrow> nodes s q = None" for q using no2 dom1 [of q] by (cases "q = h") auto
  have fld: "nodes ?s2 p = Some (the (nodes s p)\<lparr>n_key := KEY_MAX, n_val := 0, n_next := NULL\<rparr>)"
    "nodes ?s2 h = Some (the (no h)\<lparr>n_key := KEY_MIN, n_val := 0, n_next := p\<rparr>)"
    using no no2 hp by auto
  have "list_ok ?s2 h [p]"
    using fld p h hp unmarked_iff [of p]
    by (simp add: list_ok_def linked_def dead_def load_next_def key_at_def)
  moreover have "nodes_mapped ?s2" using nm dom2 by (simp add: nodes_mapped_def)
  moreover have "arena_inv 0 NODE_SIZE ?a2 (insert h (insert p W))" using ar2 by simp
  ultimately have c: "client ?s2 h [p] W" using p(1) h(1) by (simp add: client_def)
  have "set_new s = Some (h, ?s2)" using n1 n2 by (simp add: set_new_def)
  moreover have "room 0 NODE_SIZE j ?a2" by (rule room_alloc(2) [OF ar1 rm1])
  moreover have "deads ?s2 [p] = 0" using fld(1) by (simp add: dead_def load_next_def)
  ultimately show ?thesis using c dom2
    by (intro that [of h ?a2 no2 p]) (simp_all add: contents_def)
qed
context reclaimer
begin

lemma set_new_waits:
  assumes ar: "arena_inv 0 NODE_SIZE (alloc s) W" and nm: "nodes_mapped s" and rm: "room 0 NODE_SIZE (Suc (Suc j)) (alloc s)"
    and i: "inv s W n"
  obtains head max s1 where "set_new s = Some (head, s1)" "client s1 head [max] W" "contents s1 [max] = Map.empty"
    "deads s1 [max] = 0" "room 0 NODE_SIZE j (alloc s1)" "inv s1 W n"
proof -
  obtain head max no al where n: "set_new s = Some (head, s\<lparr>nodes := no, alloc := al\<rparr>)"
    "client (s\<lparr>nodes := no, alloc := al\<rparr>) head [max] W" "contents (s\<lparr>nodes := no, alloc := al\<rparr>) [max] = Map.empty"
    "deads (s\<lparr>nodes := no, alloc := al\<rparr>) [max] = 0" "room 0 NODE_SIZE j al"
    "\<forall>p. no p = None \<longleftrightarrow> nodes s p = None"
    "al = snd (ssalloc_alloc 0 (of_nat NODE_SIZE) (snd (ssalloc_alloc 0 (of_nat NODE_SIZE) (alloc s))))"
    by (rule set_new_ok [OF ar nm rm])
  have "inv (s\<lparr>nodes := no\<rparr>) W n" by (rule nodes_law [OF i n(6)])
  from alloc_law [OF alloc_law [OF this]] have "inv (s\<lparr>nodes := no, alloc := al\<rparr>) W n" by (simp add: n(7))
  then show ?thesis using n(1-5) by (intro that [of head "s\<lparr>nodes := no, alloc := al\<rparr>" max]) simp_all
qed

end

section \<open>Runs of operations\<close>

text \<open>The operations of intset.c, and what they do to the map.\<close>

datatype set_op = Set_Contains skey_t | Set_Add skey_t sval_t | Set_Remove skey_t

fun op_key :: "set_op \<Rightarrow> skey_t" where
  "op_key (Set_Contains k) = k"
| "op_key (Set_Add k v) = k"
| "op_key (Set_Remove k) = k"

fun set_step ::
  "(skey_t \<Rightarrow> 's \<Rightarrow> (sval_t \<times> 's) option) \<Rightarrow> (skey_t \<Rightarrow> sval_t \<Rightarrow> 's \<Rightarrow> (int \<times> 's) option) \<Rightarrow>
   (skey_t \<Rightarrow> 's \<Rightarrow> (sval_t \<times> 's) option) \<Rightarrow> set_op \<Rightarrow> 's \<Rightarrow> (int \<times> 's) option" where
  "set_step contains add remove (Set_Contains k) s = contains k s"
| "set_step contains add remove (Set_Add k v) s = add k v s"
| "set_step contains add remove (Set_Remove k) s = remove k s"

fun set_run ::
  "(set_op \<Rightarrow> 's \<Rightarrow> (int \<times> 's) option) \<Rightarrow> set_op list \<Rightarrow> 's \<Rightarrow> (int list \<times> 's) option" where
  "set_run step [] s = Some ([], s)"
| "set_run step (x # xs) s = do { (r, s1) \<leftarrow> step x s; (rs, s2) \<leftarrow> set_run step xs s1; Some (r # rs, s2) }"

fun map_step :: "set_op \<Rightarrow> (skey_t \<rightharpoonup> sval_t) \<Rightarrow> int \<times> (skey_t \<rightharpoonup> sval_t)" where
  "map_step (Set_Contains k) M = (answer (M k), M)"
| "map_step (Set_Add k v) M = (if M k = None then (1, M(k \<mapsto> v)) else (0, M))"
| "map_step (Set_Remove k) M = (answer (M k), M(k := None))"

fun map_run :: "set_op list \<Rightarrow> (skey_t \<rightharpoonup> sval_t) \<Rightarrow> int list \<times> (skey_t \<rightharpoonup> sval_t)" where
  "map_run [] M = ([], M)"
| "map_run (x # xs) M = (let (r, M1) = map_step x M; (rs, M2) = map_run xs M1 in (r # rs, M2))"

locale set_client = list_client retire inv search head get
  for retire :: "ptr \<Rightarrow> 'a mem_scheme \<Rightarrow> 'a mem_scheme option" and inv :: "'a mem_scheme \<Rightarrow> ptr set \<Rightarrow> nat \<Rightarrow> bool"
    and search :: "skey_t \<Rightarrow> 'a mem_scheme \<Rightarrow> (ptr \<times> ptr \<times> 'a mem_scheme) option" and head :: ptr
    and get :: "skey_t \<Rightarrow> sval_t \<Rightarrow> ptr \<Rightarrow> 'a mem_scheme \<Rightarrow> (ptr \<times> 'a mem_scheme) option" +
  fixes lookup :: "skey_t \<Rightarrow> 'a mem_scheme \<Rightarrow> (sval_t \<times> 'a mem_scheme) option"
  assumes lookup_law: "client s head ps W \<Longrightarrow> inv s W n \<Longrightarrow> deads s ps = 0 \<Longrightarrow> key < KEY_MAX \<Longrightarrow>
      \<exists>s'. lookup key s = Some (answer (contents s ps key), s') \<and> client s' head ps W \<and> inv s' W n \<and>
        contents s' ps = contents s ps \<and> deads s' ps = deads s ps \<and> alloc s' = alloc s"
begin

abbreviation step :: "set_op \<Rightarrow> 'a mem_scheme \<Rightarrow> (int \<times> 'a mem_scheme) option" where
  "step \<equiv> set_step lookup (harris_insert search get) (harris_delete search retire)"

lemma step_ok:
  assumes c: "client s head ps W" and i: "inv s W (Suc n)" and d: "deads s ps = 0" and k: "op_key x < KEY_MAX"
    and rm: "room 0 NODE_SIZE (Suc j) (alloc s)"
  shows "\<exists>s' ps' W'. step x s = Some (fst (map_step x (contents s ps)), s') \<and> client s' head ps' W' \<and>
    (\<exists>n' \<ge> n. inv s' W' n') \<and> deads s' ps' = 0 \<and> room 0 NODE_SIZE j (alloc s') \<and>
    contents s' ps' = snd (map_step x (contents s ps))"
proof (cases x)
  case (Set_Contains key)
  then have key: "key < KEY_MAX" using k by simp
  from lookup_law [OF c i d key] obtain s' where
    "lookup key s = Some (answer (contents s ps key), s')" "client s' head ps W" "inv s' W (Suc n)"
    "contents s' ps = contents s ps" "deads s' ps = deads s ps" "alloc s' = alloc s" by blast
  then show ?thesis using Set_Contains d room_mono [OF rm]
    by (intro exI [of _ s'] exI [of _ ps] exI [of _ W]) (auto intro: exI [of _ "Suc n"])
next
  case (Set_Add key val)
  then have key: "key < KEY_MAX" using k by simp
  have "deads s ps \<le> Suc n" using d by simp
  from insert_ok [OF c i this key rm, of val] obtain s' ps' W' n' where s':
    "harris_insert search get key val s = Some (if contents s ps key = None then 1 else 0, s')"
    "client s' head ps' W'" "inv s' W' n'" "Suc n + deads s' ps' \<le> n' + deads s ps" "deads s' ps' \<le> deads s ps"
    "room 0 NODE_SIZE j (alloc s')"
    "contents s' ps' = (if contents s ps key = None then (contents s ps)(key \<mapsto> val) else contents s ps)" by blast
  have "\<exists>n' \<ge> n. inv s' W' n'" using s'(3,4) d by (intro exI [of _ n']) simp
  then show ?thesis using Set_Add d s'(1,2,5-7)
    by (intro exI [of _ s'] exI [of _ ps'] exI [of _ W']) auto
next
  case (Set_Remove key)
  then have key: "key < KEY_MAX" using k by simp
  have "deads s ps < Suc n" using d by simp
  from delete_ok [OF c i this key] obtain s' ps' W' n' where s':
    "harris_delete search retire key s = Some (answer (contents s ps key), s')" "client s' head ps' W'" "inv s' W' n'"
    "Suc n + deads s' ps' \<le> Suc n' + deads s ps" "deads s' ps' \<le> deads s ps"
    "alloc_next (alloc s') 0 = alloc_next (alloc s) 0" "contents s' ps' = (contents s ps)(key := None)" by blast
  have "\<exists>n' \<ge> n. inv s' W' n'" using s'(3,4) d by (intro exI [of _ n']) simp
  moreover have "room 0 NODE_SIZE j (alloc s')" using room_mono [OF rm] s'(6) by (simp add: room_def)
  ultimately show ?thesis using Set_Remove d s'(1,2,5,7)
    by (intro exI [of _ s'] exI [of _ ps'] exI [of _ W']) auto
qed

lemma run_ok:
  assumes "client s head ps W" "inv s W n" "deads s ps = 0" "\<forall>x \<in> set xs. op_key x < KEY_MAX"
    and "length xs \<le> n" "room 0 NODE_SIZE j (alloc s)" "length xs \<le> j"
  shows "\<exists>s' ps' W'. set_run step xs s = Some (fst (map_run xs (contents s ps)), s') \<and> client s' head ps' W' \<and>
    contents s' ps' = snd (map_run xs (contents s ps))"
  using assms
proof (induction xs arbitrary: s ps W n j)
  case Nil then show ?case by auto
next
  case (Cons x xs)
  obtain m l where n: "n = Suc m" "j = Suc l" using Cons.prems(5,7) by (cases n; cases j) auto
  have i: "inv s W (Suc m)" and rm: "room 0 NODE_SIZE (Suc l) (alloc s)" and k: "op_key x < KEY_MAX"
    using Cons.prems(2,4,6) by (simp_all add: n)
  from step_ok [OF Cons.prems(1) i Cons.prems(3) k rm] obtain s1 ps1 W1 n1 where s1:
    "step x s = Some (fst (map_step x (contents s ps)), s1)" "client s1 head ps1 W1" "inv s1 W1 n1" "m \<le> n1"
    "deads s1 ps1 = 0" "room 0 NODE_SIZE l (alloc s1)" "contents s1 ps1 = snd (map_step x (contents s ps))" by blast
  have "\<exists>s' ps' W'. set_run step xs s1 = Some (fst (map_run xs (contents s1 ps1)), s') \<and> client s' head ps' W' \<and>
      contents s' ps' = snd (map_run xs (contents s1 ps1))"
    by (rule Cons.IH [of s1 ps1 W1 n1 l]) (use s1 Cons.prems n in simp_all)
  then obtain s' ps' W' where "set_run step xs s1 = Some (fst (map_run xs (contents s1 ps1)), s')"
    "client s' head ps' W'" "contents s' ps' = snd (map_run xs (contents s1 ps1))" by blast
  then show ?case using s1
    by (intro exI [of _ s'] exI [of _ ps'] exI [of _ W']) (simp add: Let_def split: prod.splits)
qed

end

text \<open>A scheme whose list is a client at every head.\<close>

locale set_scheme = reclaimer retire inv
  for retire :: "ptr \<Rightarrow> 'a mem_scheme \<Rightarrow> 'a mem_scheme option" and inv :: "'a mem_scheme \<Rightarrow> ptr set \<Rightarrow> nat \<Rightarrow> bool" +
  fixes search :: "ptr \<Rightarrow> skey_t \<Rightarrow> 'a mem_scheme \<Rightarrow> (ptr \<times> ptr \<times> 'a mem_scheme) option"
    and get :: "skey_t \<Rightarrow> sval_t \<Rightarrow> ptr \<Rightarrow> 'a mem_scheme \<Rightarrow> (ptr \<times> 'a mem_scheme) option"
    and lookup :: "ptr \<Rightarrow> skey_t \<Rightarrow> 'a mem_scheme \<Rightarrow> (sval_t \<times> 'a mem_scheme) option"
  assumes client_law: "set_client retire inv (search head) head get (lookup head)"
begin

lemma start_run:
  assumes "arena_inv 0 NODE_SIZE (alloc s) {}" "nodes_mapped s" "room 0 NODE_SIZE (Suc (Suc (length xs))) (alloc s)"
    and "inv s {} (length xs)" "\<forall>x \<in> set xs. op_key x < KEY_MAX"
  shows "\<exists>head s1 s'. set_new s = Some (head, s1) \<and>
    set_run (set_step (lookup head) (harris_insert (search head) get) (harris_delete (search head) retire)) xs s1 =
      Some (fst (map_run xs Map.empty), s') \<and>
    set_size head s' = Some (int (card (dom (snd (map_run xs Map.empty)))))"
proof -
  obtain head max s1 where s1: "set_new s = Some (head, s1)" "client s1 head [max] {}" "contents s1 [max] = Map.empty"
    "deads s1 [max] = 0" "room 0 NODE_SIZE (length xs) (alloc s1)" "inv s1 {} (length xs)"
    by (rule set_new_waits [OF assms(1-4)])
  from set_client.run_ok [OF client_law s1(2,6,4) assms(5) order_refl s1(5) order_refl] obtain s' ps' W' where
    "set_run (set_step (lookup head) (harris_insert (search head) get) (harris_delete (search head) retire)) xs s1 =
      Some (fst (map_run xs Map.empty), s')"
    "client s' head ps' W'" "contents s' ps' = snd (map_run xs Map.empty)"
    unfolding s1(3) by blast
  then show ?thesis using s1(1) set_size_ok by metis
qed

end

end
