(* ===== verification/Harris_Stuck.thy ===== *)
theory Harris_Stuck
  imports Harris_Map
begin

text \<open>
  What the lookup with hazard pointers does when it meets a node that is marked but still linked:
  it compares the marked pointer in \<open>left_node->next\<close> with the unmarked one it holds, starts over
  at the head and so never gets past the node.
\<close>

section \<open>A lookup that meets a dead node\<close>

text \<open>The pairs \<open>left_node\<close>, \<open>right_node\<close> a lookup of \<open>key\<close> goes through when the live nodes \<open>A\<close> and then the dead node
  \<open>p\<close> come before the key.\<close>

definition stuck :: "ptr \<Rightarrow> ptr list \<Rightarrow> ptr \<Rightarrow> ptr list \<Rightarrow> skey_t \<Rightarrow> ptr \<Rightarrow> ptr \<Rightarrow> 'a mem_scheme \<Rightarrow> bool" where
  "stuck head A p B key l r m \<longleftrightarrow> (\<exists>W. client m head (A @ p # B) W) \<and> dead m p \<and> (\<forall>q \<in> set A. \<not> dead m q) \<and>
     (\<forall>q \<in> set (A @ [p]). the (key_at m q) < key) \<and>
     ((\<exists>C D. A @ [p] = C @ r # D \<and> l = last (head # C)) \<or> (l = p \<and> r = hd B))"

lemma stuck_start:
  assumes "stuck head A p B key l r m"
  obtains first where "load_next head m = Some first" "stuck head A p B key head first m"
proof -
  obtain W where c: "client m head (A @ p # B) W" using assms by (auto simp: stuck_def)
  obtain f T where f: "A @ [p] = f # T" by (cases "A @ [p]") auto
  then have ps: "A @ p # B = f # (T @ B)" by (metis append.assoc append_Cons append_Nil)
  have "\<not> dead m head" using c by (simp add: client_def list_ok_def)
  then have "load_next head m = Some f"
    using client_next [of m head "[]" f "T @ B" W] c [unfolded ps] by simp
  moreover have "stuck head A p B key head f m"
    using assms f unfolding stuck_def by (metis append_Nil last_ConsL)
  ultimately show ?thesis by (rule that)
qed

lemma stuck_step:
  assumes st: "stuck head A p B key l r m"
  shows "\<exists>ln. load_next l m = Some ln \<and> (r = ln \<longrightarrow> (\<exists>n. nodes m r = Some n \<and> n_key n < key \<and>
    stuck head A p B key r (get_unmarked_ref (n_next n)) m))"
proof -
  obtain W where c: "client m head (A @ p # B) W" and d: "dead m p" and live: "\<forall>q \<in> set A. \<not> dead m q"
    and k: "\<forall>q \<in> set (A @ [p]). the (key_at m q) < key"
    using st by (auto simp: stuck_def)
  have ok: "list_ok m head (A @ p # B)" using c by (simp add: client_def)
  obtain np where np: "nodes m p = Some np" "dead m p = is_marked_ref (n_next np)" "load_next p m = Some (n_next np)"
    "B \<noteq> [] \<longrightarrow> get_unmarked_ref (n_next np) = hd B" "B = [] \<longrightarrow> n_next np = NULL"
    by (rule client_node [OF c]) blast
  have B: "B \<noteq> []" using np d by auto
  have st': "stuck head A p B key l' r' m"
    if "(\<exists>C D. A @ [p] = C @ r' # D \<and> l' = last (head # C)) \<or> (l' = p \<and> r' = hd B)" for l' r'
    using that c d live k unfolding stuck_def by blast
  from st consider C D where "A @ [p] = C @ r # D" "l = last (head # C)" | "l = p" "r = hd B"
    unfolding stuck_def by blast
  then show ?thesis
  proof cases
    case 1
    have ps: "A @ p # B = C @ r # (D @ B)" using 1(1) by (metis append.assoc append_Cons append_Nil)
    have c': "client m head (C @ r # (D @ B)) W" using c by (simp only: ps)
    have CA: "set C \<subseteq> set A"
    proof -
      have "C @ butlast (r # D) = A" using arg_cong [OF 1(1), of butlast] by (simp add: butlast_append)
      then show ?thesis by auto
    qed
    have "last (head # C) = head \<or> last (head # C) \<in> set C" by (cases "C = []") auto
    then have "\<not> dead m (last (head # C))" using CA live ok by (auto simp: list_ok_def)
    then have ln: "load_next l m = Some r" unfolding 1(2) by (rule client_next [OF c'])
    obtain n where n: "nodes m r = Some n" "key_at m r = Some (n_key n)"
      "D @ B \<noteq> [] \<longrightarrow> get_unmarked_ref (n_next n) = hd (D @ B)" by (rule client_node [OF c'])
    have "r \<in> set (A @ [p])" unfolding 1(1) by simp
    then have "n_key n < key" using k n(2) by fastforce
    moreover have "stuck head A p B key r (get_unmarked_ref (n_next n)) m"
    proof (cases D)
      case Nil
      then have "r = p" using 1(1) by simp
      then show ?thesis using n(3) Nil B by (intro st') simp
    next
      case (Cons x xs)
      then have "A @ [p] = (C @ [r]) @ x # xs" "get_unmarked_ref (n_next n) = x" using 1(1) n(3) by simp_all
      then show ?thesis by (intro st' disjI1 exI [of _ "C @ [r]"] exI [of _ xs]) simp
    qed
    ultimately show ?thesis using ln n(1) by simp
  next
    case 2
    have "hd B \<in> set (A @ p # B)" using B by simp
    then have "\<not> is_marked_ref (hd B)" by (rule unmarked_ref_list [OF ok])
    then have "r \<noteq> n_next np" using np(2) d 2(2) by auto
    then show ?thesis using np(3) 2(1) by simp
  qed
qed

lemma stuck_HP [simp]: "stuck head A p B key l r (m\<lparr>HP := hp\<rparr>) = stuck head A p B key l r m"
  by (simp add: stuck_def)

lemma find_loop_stuck:
  "find_loop head base key offset l r m = Some res \<Longrightarrow> \<not> stuck head A p B key l r m"
proof (rule find_loop.raw_induct [where P = "\<lambda>head base key offset l r m res. \<not> stuck head A p B key l r m"])
  fix loop and head :: ptr and base and key and offset and l r and m :: "'a mem_scheme" and res
  assume IH: "\<And>head base key offset l r (m :: 'a mem_scheme) res. loop head base key offset l r m = Some res \<Longrightarrow>
      \<not> stuck head A p B key l r m"
    and eq: "(if base + offset < length (HP m) then do {
        let m1 = m\<lparr>HP := (HP m)[base + offset := r]\<rparr>;
        ln \<leftarrow> load_next l m1;
        if r \<noteq> ln then do {
          first \<leftarrow> load_next head m1;
          loop head base key offset head first m1
        } else do {
          rn \<leftarrow> nodes m1 r;
          if n_key rn \<ge> key then Some (r, m1)
          else loop head base key (1 - offset) r (get_unmarked_ref (n_next rn)) m1
        }
      } else None) = Some res"
  let ?m1 = "m\<lparr>HP := (HP m)[base + offset := r]\<rparr>"
  show "\<not> stuck head A p B key l r m"
  proof
    assume "stuck head A p B key l r m"
    then have st: "stuck head A p B key l r ?m1" by simp
    from stuck_step [OF st] obtain ln where ln: "load_next l ?m1 = Some ln"
      "r = ln \<longrightarrow> (\<exists>n. nodes ?m1 r = Some n \<and> n_key n < key \<and> stuck head A p B key r (get_unmarked_ref (n_next n)) ?m1)" by blast
    have lt: "base + offset < length (HP m)" using eq by (simp split: if_splits)
    show False
    proof (cases "r = ln")
      case True
      then obtain n where n: "nodes ?m1 r = Some n" "n_key n < key" "stuck head A p B key r (get_unmarked_ref (n_next n)) ?m1"
        using ln(2) by blast
      then have "loop head base key (1 - offset) r (get_unmarked_ref (n_next n)) ?m1 = Some res"
        using eq lt ln(1) True by (simp add: Let_def)
      from IH [OF this] n(3) show False by simp
    next
      case False
      obtain first where f: "load_next head ?m1 = Some first" "stuck head A p B key head first ?m1"
        by (rule stuck_start [OF st])
      then have "loop head base key offset head first ?m1 = Some res"
        using eq lt ln(1) False by (simp add: Let_def)
      from IH [OF this] f(2) show False by simp
    qed
  qed
qed

lemma harris_find_stuck:
  assumes c: "client m head (A @ p # B) W" and d: "dead m p" and live: "\<forall>q \<in> set A. \<not> dead m q"
    and k: "\<forall>q \<in> set (A @ [p]). the (key_at m q) < key"
  shows "harris_find head base key m = None"
proof -
  obtain f T where f: "A @ [p] = f # T" by (cases "A @ [p]") auto
  then have "A @ [p] = [] @ f # T \<and> head = last (head # [])" by simp
  then have "stuck head A p B key head f m" using c d live k unfolding stuck_def by blast
  then obtain first where "load_next head m = Some first" "stuck head A p B key head first m" by (rule stuck_start)
  moreover from this(2) have "find_loop head base key 0 head first m = None"
    using find_loop_stuck [of head base key 0 head first m] by (metis not_Some_eq)
  ultimately show ?thesis by (simp add: harris_find_def)
qed
section \<open>What a search protects\<close>

text \<open>On a clean list both nodes a search returns are covered by the thread's two hazard pointers; \<open>head\<close> is never
  retired and needs none.\<close>

lemma search_loop_protects:
  assumes "client s head (done @ ps) W" "ps \<noteq> []" "\<not> dead s (last (head # done))"
    and "\<forall>q \<in> set ps. \<not> dead s q" "base + 1 < length (HP s)" "offset \<le> 1" "key \<le> KEY_MAX"
    and "done \<noteq> [] \<longrightarrow> HP s ! (base + (1 - offset)) = last done"
  shows "\<exists>hp dn r. search_loop retire head base key offset (last (head # done)) (hd ps) s =
      Some (last (head # dn), r, s\<lparr>HP := hp\<rparr>) \<and> length hp = length (HP s) \<and>
    r \<in> {hp ! base, hp ! (base + 1)} \<and> (dn \<noteq> [] \<longrightarrow> last dn \<in> {hp ! base, hp ! (base + 1)})"
  using assms
proof (induction ps arbitrary: s "done" offset)
  case Nil then show ?case by simp
next
  case (Cons p rest)
  let ?l = "last (head # done)" and ?hp = "(HP s)[base + offset := p]"
  let ?s1 = "s\<lparr>HP := ?hp\<rparr>"
  have c: "client s head (done @ p # rest) W" and live: "\<not> dead s ?l" "\<not> dead s p" using Cons.prems(1,3,4) by simp_all
  obtain nd where nd: "nodes s p = Some nd" "key_at s p = Some (n_key nd)" "val_at s p = Some (n_val nd)"
    "load_next p s = Some (n_next nd)" "dead s p = is_marked_ref (n_next nd)"
    "rest \<noteq> [] \<longrightarrow> get_unmarked_ref (n_next nd) = hd rest" "rest = [] \<longrightarrow> n_key nd = KEY_MAX \<and> n_next nd = NULL" "p \<notin> W"
    by (rule client_node [OF c])
  have lt: "base + offset < length (HP s)" using Cons.prems(5,6) by simp
  have lp: "load_next ?l ?s1 = Some p" using client_next [OF c live(1)] by simp
  have off: "offset = 0 \<or> offset = 1" using Cons.prems(6) by auto
  have slots: "?hp ! (base + offset) = p" "done \<noteq> [] \<longrightarrow> ?hp ! (base + (1 - offset)) = last done"
    using lt off Cons.prems(8) by auto
  show ?case
  proof (cases "n_key nd \<ge> key")
    case True
    have "search_loop retire head base key offset ?l p s = Some (?l, p, ?s1)"
      using lt lp nd live(2) True by (subst search_loop.simps) (simp add: Let_def)
    then show ?thesis using slots off by (intro exI [of _ ?hp] exI [of _ "done"] exI [of _ p]) auto
  next
    case small: False
    then have ne: "rest \<noteq> []" using nd(7) Cons.prems(7) by auto
    have run: "search_loop retire head base key offset ?l p s = search_loop retire head base key (1 - offset) p (hd rest) ?s1"
      using lt lp nd live(2) small ne by (subst search_loop.simps) (simp add: Let_def)
    have s0: "base + (1 - (1 - offset)) = base + offset" using off by auto
    have "\<exists>hp dn r. search_loop retire head base key (1 - offset) (last (head # done @ [p])) (hd rest) ?s1 =
          Some (last (head # dn), r, ?s1\<lparr>HP := hp\<rparr>) \<and> length hp = length (HP ?s1) \<and>
        r \<in> {hp ! base, hp ! (base + 1)} \<and> (dn \<noteq> [] \<longrightarrow> last dn \<in> {hp ! base, hp ! (base + 1)})"
      by (rule Cons.IH) (use c ne small nd Cons.prems s0 slots(1) in \<open>auto\<close>)
    then show ?thesis using run by simp
  qed
qed

lemma list_search_protects:
  assumes c: "client s head ps W" and d: "deads s ps = 0" and b: "base + 1 < length (HP s)" and k: "key \<le> KEY_MAX"
  obtains hp l r where "list_search retire head base key s = Some (l, r, s\<lparr>HP := hp\<rparr>)" "length hp = length (HP s)"
    "r \<in> {hp ! base, hp ! (base + 1)}" "l \<noteq> head \<longrightarrow> l \<in> {hp ! base, hp ! (base + 1)}"
proof -
  obtain p rest where ps: "ps = p # rest" using c by (cases ps) (auto simp: client_def list_ok_def)
  have live: "\<not> dead s head" using c by (simp add: client_def list_ok_def)
  have clean: "\<forall>q \<in> set ps. \<not> dead s q" using d by (simp add: filter_empty_conv)
  have first: "load_next head s = Some (hd ps)" using client_next [of s head "[]" p rest W] c live by (simp add: ps)
  have "\<exists>hp dn r. search_loop retire head base key 0 (last (head # [])) (hd ps) s =
      Some (last (head # dn), r, s\<lparr>HP := hp\<rparr>) \<and> length hp = length (HP s) \<and>
    r \<in> {hp ! base, hp ! (base + 1)} \<and> (dn \<noteq> [] \<longrightarrow> last dn \<in> {hp ! base, hp ! (base + 1)})"
    by (rule search_loop_protects [where W = W]) (use c b k clean live ps in simp_all)
  then obtain hp dn r where h: "search_loop retire head base key 0 head (hd ps) s = Some (last (head # dn), r, s\<lparr>HP := hp\<rparr>)"
    "length hp = length (HP s)" "r \<in> {hp ! base, hp ! (base + 1)}"
    "dn \<noteq> [] \<longrightarrow> last dn \<in> {hp ! base, hp ! (base + 1)}" by (simp only: last.simps simp_thms if_True) blast
  have "last (head # dn) \<noteq> head \<longrightarrow> last (head # dn) \<in> {hp ! base, hp ! (base + 1)}" using h(4) by (cases "dn = []") simp_all
  then show ?thesis using first h(1-3) by (intro that [of "last (head # dn)" r hp]) (simp_all add: list_search_def)
qed

end
