(* ===== verification/Harris_Variants.thy ===== *)
theory Harris_Variants
  imports Harris Smr Smr_No_Membar_Opt Smr_Membar_Lazy Hybrid_Lazy Qsbr
begin

text \<open>
  Harris' list on each reclamation scheme: the instances of theory \<open>Harris\<close> that the
  src/src/linkedlist-* directories are. They agree up to the traversal (hazard pointers or not), the
  retirement function, what happens when no node is free, and the layout of a new node.
\<close>

text \<open>The lazy scheme initialises the mark of a new node.\<close>

definition new_node_marked :: "skey_t \<Rightarrow> sval_t \<Rightarrow> ptr \<Rightarrow> 'a mem_scheme \<Rightarrow> (ptr \<times> 'a mem_scheme) option" where
  "new_node_marked key val next m =
     (let (p, al) = ssalloc_alloc 0 (of_nat NODE_SIZE) (alloc m);
          m1 = m\<lparr>alloc := al\<rparr>
      in if p = NULL then Some (NULL, m1)
         else do {
           n \<leftarrow> nodes m1 p;
           Some (p, m1\<lparr>nodes := (nodes m1)(p \<mapsto> n\<lparr>n_key := key, n_val := val, n_marked := 0, n_next := next\<rparr>)\<rparr>)
         })"

section \<open>Hazard pointers with barriers: src/src/linkedlist-smr-harris_opt\<close>

definition smr_search :: "ptr \<Rightarrow> skey_t \<Rightarrow> 'a smr_data_scheme \<Rightarrow> (ptr \<times> ptr \<times> 'a smr_data_scheme) option" where
  "smr_search head key m = list_search smr_free_node_later head (K * unat (thread_index m)) key m"

definition smr_find :: "ptr \<Rightarrow> skey_t \<Rightarrow> 'a smr_data_scheme \<Rightarrow> (sval_t \<times> 'a smr_data_scheme) option" where
  "smr_find head key m = harris_find head (K * unat (thread_index m)) key m"

definition smr_insert :: "ptr \<Rightarrow> skey_t \<Rightarrow> sval_t \<Rightarrow> 'a smr_data_scheme \<Rightarrow> (int \<times> 'a smr_data_scheme) option" where
  "smr_insert head = harris_insert (smr_search head) (node_or_scan smr_scan)"

definition smr_delete :: "ptr \<Rightarrow> skey_t \<Rightarrow> 'a smr_data_scheme \<Rightarrow> (sval_t \<times> 'a smr_data_scheme) option" where
  "smr_delete head = harris_delete (smr_search head) smr_free_node_later"

section \<open>Cadence: src/src/linkedlist-smr-no-membar-harris_opt\<close>

definition snm_search :: "ptr \<Rightarrow> skey_t \<Rightarrow> 'a smr_data_scheme \<Rightarrow> (ptr \<times> ptr \<times> 'a smr_data_scheme) option" where
  "snm_search head key m = list_search snm_free_node_later head (K * unat (thread_index m)) key m"

definition snm_find :: "ptr \<Rightarrow> skey_t \<Rightarrow> 'a smr_data_scheme \<Rightarrow> (sval_t \<times> 'a smr_data_scheme) option" where
  "snm_find head key m = harris_find head (K * unat (thread_index m)) key m"

definition snm_insert :: "ptr \<Rightarrow> skey_t \<Rightarrow> sval_t \<Rightarrow> 'a smr_data_scheme \<Rightarrow> (int \<times> 'a smr_data_scheme) option" where
  "snm_insert head = harris_insert (snm_search head) (node_loop (\<lambda>_. snm_scan) new_node 0)"

definition snm_delete :: "ptr \<Rightarrow> skey_t \<Rightarrow> 'a smr_data_scheme \<Rightarrow> (sval_t \<times> 'a smr_data_scheme) option" where
  "snm_delete head = harris_delete (snm_search head) snm_free_node_later"

section \<open>Optimised Cadence: src/src/linkedlist-smr-no-membar-igor_opt\<close>

definition optl_search :: "nat \<Rightarrow> (real \<Rightarrow> real) \<Rightarrow> ptr \<Rightarrow> skey_t \<Rightarrow> 'a opt_data_scheme \<Rightarrow> (ptr \<times> ptr \<times> 'a opt_data_scheme) option" where
  "optl_search lvl lg head key m = list_search (opt_free_node_later lvl lg) head (K * unat (thread_index m)) key m"

definition optl_find :: "ptr \<Rightarrow> skey_t \<Rightarrow> 'a opt_data_scheme \<Rightarrow> (sval_t \<times> 'a opt_data_scheme) option" where
  "optl_find head key m = harris_find head (K * unat (thread_index m)) key m"

definition optl_insert :: "nat \<Rightarrow> (real \<Rightarrow> real) \<Rightarrow> ptr \<Rightarrow> skey_t \<Rightarrow> sval_t \<Rightarrow> 'a opt_data_scheme \<Rightarrow> (int \<times> 'a opt_data_scheme) option" where
  "optl_insert lvl lg head = harris_insert (optl_search lvl lg head) (node_loop (\<lambda>_. opt_scan lvl lg) new_node 0)"

definition optl_delete :: "nat \<Rightarrow> (real \<Rightarrow> real) \<Rightarrow> ptr \<Rightarrow> skey_t \<Rightarrow> 'a opt_data_scheme \<Rightarrow> (sval_t \<times> 'a opt_data_scheme) option" where
  "optl_delete lvl lg head = harris_delete (optl_search lvl lg head) (opt_free_node_later lvl lg)"

section \<open>Lazy Cadence: src/src/linkedlist-smr-lazy\<close>

definition lz_search :: "ptr \<Rightarrow> skey_t \<Rightarrow> 'a lazy_data_scheme \<Rightarrow> (ptr \<times> ptr \<times> 'a lazy_data_scheme) option" where
  "lz_search head key m = list_search lz_free_node_later head (K * unat (thread_index m)) key m"

definition lz_find :: "ptr \<Rightarrow> skey_t \<Rightarrow> 'a lazy_data_scheme \<Rightarrow> (sval_t \<times> 'a lazy_data_scheme) option" where
  "lz_find head key m = harris_find head (K * unat (thread_index m)) key m"

definition lz_insert :: "ptr \<Rightarrow> skey_t \<Rightarrow> sval_t \<Rightarrow> 'a lazy_data_scheme \<Rightarrow> (int \<times> 'a lazy_data_scheme) option" where
  "lz_insert head = harris_insert (lz_search head) (node_loop (\<lambda>_. lz_scan) new_node_marked 0)"

definition lz_delete :: "ptr \<Rightarrow> skey_t \<Rightarrow> 'a lazy_data_scheme \<Rightarrow> (sval_t \<times> 'a lazy_data_scheme) option" where
  "lz_delete head = harris_delete (lz_search head) lz_free_node_later"

section \<open>Lazy hazard pointers with barriers: src/src/linkedlist-smr-membar-lazy\<close>

definition ml_search :: "ptr \<Rightarrow> skey_t \<Rightarrow> 'a lazy_data_scheme \<Rightarrow> (ptr \<times> ptr \<times> 'a lazy_data_scheme) option" where
  "ml_search head key m = list_search ml_free_node_later head (K * unat (thread_index m)) key m"

definition ml_find :: "ptr \<Rightarrow> skey_t \<Rightarrow> 'a lazy_data_scheme \<Rightarrow> (sval_t \<times> 'a lazy_data_scheme) option" where
  "ml_find head key m = harris_find head (K * unat (thread_index m)) key m"

definition ml_insert :: "ptr \<Rightarrow> skey_t \<Rightarrow> sval_t \<Rightarrow> 'a lazy_data_scheme \<Rightarrow> (int \<times> 'a lazy_data_scheme) option" where
  "ml_insert head = harris_insert (ml_search head) (node_loop (\<lambda>_. ml_scan) new_node 0)"

definition ml_delete :: "ptr \<Rightarrow> skey_t \<Rightarrow> 'a lazy_data_scheme \<Rightarrow> (sval_t \<times> 'a lazy_data_scheme) option" where
  "ml_delete head = harris_delete (ml_search head) ml_free_node_later"

section \<open>QSense: src/src/linkedlist-qsbr-smr-hybrid\<close>

definition hy_search :: "ptr \<Rightarrow> skey_t \<Rightarrow> 'a hybrid_state_scheme \<Rightarrow> (ptr \<times> ptr \<times> 'a hybrid_state_scheme) option" where
  "hy_search head key m = list_search h_free_node_later head (K * h_me m) key m"

definition hy_find :: "ptr \<Rightarrow> skey_t \<Rightarrow> 'a hybrid_state_scheme \<Rightarrow> (sval_t \<times> 'a hybrid_state_scheme) option" where
  "hy_find head key m = harris_find head (K * h_me m) key m"

definition hy_insert :: "ptr \<Rightarrow> skey_t \<Rightarrow> sval_t \<Rightarrow> 'a hybrid_state_scheme \<Rightarrow> (int \<times> 'a hybrid_state_scheme) option" where
  "hy_insert head = harris_insert (hy_search head) (node_loop (h_allocate_fail h_scan) new_node 0)"

definition hy_delete :: "ptr \<Rightarrow> skey_t \<Rightarrow> 'a hybrid_state_scheme \<Rightarrow> (sval_t \<times> 'a hybrid_state_scheme) option" where
  "hy_delete head = harris_delete (hy_search head) h_free_node_later"

section \<open>QSense with a verification list: src/src/linkedlist-hybrid-lazy\<close>

definition hyl_search :: "ptr \<Rightarrow> skey_t \<Rightarrow> 'a hybrid_lazy_scheme \<Rightarrow> (ptr \<times> ptr \<times> 'a hybrid_lazy_scheme) option" where
  "hyl_search head key m = list_search hl_free_node_later head (K * h_me m) key m"

definition hyl_find :: "ptr \<Rightarrow> skey_t \<Rightarrow> 'a hybrid_lazy_scheme \<Rightarrow> (sval_t \<times> 'a hybrid_lazy_scheme) option" where
  "hyl_find head key m = harris_find head (K * h_me m) key m"

definition hyl_insert :: "ptr \<Rightarrow> skey_t \<Rightarrow> sval_t \<Rightarrow> 'a hybrid_lazy_scheme \<Rightarrow> (int \<times> 'a hybrid_lazy_scheme) option" where
  "hyl_insert head = harris_insert (hyl_search head) (node_loop (hl_allocate_fail) new_node 0)"

definition hyl_delete :: "ptr \<Rightarrow> skey_t \<Rightarrow> 'a hybrid_lazy_scheme \<Rightarrow> (sval_t \<times> 'a hybrid_lazy_scheme) option" where
  "hyl_delete head = harris_delete (hyl_search head) hl_free_node_later"

section \<open>Quiescent states: src/src/linkedlist-qsbr-harris_opt\<close>

text \<open>\<open>env\<close>: what the other threads do while this one waits for memory.\<close>

definition q_search ::
  "(nat \<Rightarrow> 'a qsbr_state_scheme \<Rightarrow> 'a qsbr_state_scheme) \<Rightarrow> ptr \<Rightarrow> skey_t \<Rightarrow>
   'a qsbr_state_scheme \<Rightarrow> (ptr \<times> ptr \<times> 'a qsbr_state_scheme) option" where
  "q_search env head = plain_list_search (q_free_node_later env) head"

definition q_find :: "ptr \<Rightarrow> skey_t \<Rightarrow> 'a qsbr_state_scheme \<Rightarrow> (sval_t \<times> 'a qsbr_state_scheme) option" where
  "q_find = plain_harris_find"

definition q_insert ::
  "(nat \<Rightarrow> 'a qsbr_state_scheme \<Rightarrow> 'a qsbr_state_scheme) \<Rightarrow> ptr \<Rightarrow> skey_t \<Rightarrow> sval_t \<Rightarrow>
   'a qsbr_state_scheme \<Rightarrow> (int \<times> 'a qsbr_state_scheme) option" where
  "q_insert env head =
     harris_insert (q_search env head) (node_loop (\<lambda>_. quiescent_state env True 0) new_node 0)"

definition q_delete ::
  "(nat \<Rightarrow> 'a qsbr_state_scheme \<Rightarrow> 'a qsbr_state_scheme) \<Rightarrow> ptr \<Rightarrow> skey_t \<Rightarrow>
   'a qsbr_state_scheme \<Rightarrow> (sval_t \<times> 'a qsbr_state_scheme) option" where
  "q_delete env head = harris_delete (q_search env head) (q_free_node_later env)"

end
