(* ===== verification/Harris_Schemes.thy ===== *)
theory Harris_Schemes
  imports Harris_Stuck Harris_Variants
begin

text \<open>
  The reclamation schemes keep the contract of the list: hazard pointers with barriers, Cadence and
  quiescent states are interpreted as \<open>reclaimer\<close> and their lists as \<open>list_client\<close>, so that the
  operations of the three directories are those of a finite map.
\<close>

section \<open>What a release leaves\<close>

lemma free_pairs_arena0:
  "arena_inv 0 sz s L \<Longrightarrow> distinct (map snd ps) \<Longrightarrow> snd ` set ps \<subseteq> L \<Longrightarrow>
   arena_inv 0 sz (free_pairs ps s) (L - snd ` set ps)"
proof (induction ps arbitrary: s L)
  case (Cons p ps)
  obtain w a where p: "p = (w, a)" by force
  let ?s = "ssfree_alloc 1 w (ssfree_alloc 0 a s)"
  have "arena_inv 0 sz (ssfree_alloc 0 a s) (L - {a})" using Cons.prems by (intro arena_inv_ssfree) (auto simp: p)
  then have "arena_inv 0 sz ?s (L - {a})" by (simp add: arena_inv_ssfree_other)
  moreover have "snd ` set ps \<subseteq> L - {a}" using Cons.prems by (auto simp: p)
  ultimately have "arena_inv 0 sz (free_pairs ps ?s) (L - {a} - snd ` set ps)"
    using Cons.prems by (intro Cons.IH) (auto simp: p)
  moreover have "L - {a} - snd ` set ps = L - snd ` set (p # ps)" by (auto simp: p)
  ultimately show ?case by (simp add: p)
qed simp

lemma free_pairs_next [simp]: "alloc_next (free_pairs ps s) = alloc_next s"
  by (induction ps arbitrary: s) auto

lemma gone_refl: "gone s s W W"
  by (simp add: gone_def)

lemma gone_trans:
  assumes a: "gone s s1 W W1" and b: "gone s1 s2 W1 W2"
  shows "gone s s2 W W2"
proof -
  have sub: "W1 \<subseteq> W" "W2 \<subseteq> W1" using a b by (simp_all add: gone_def)
  have "key_at s2 p = key_at s p \<and> val_at s2 p = val_at s p" if "p \<notin> W" for p
    using a b sub that by (metis gone_def subsetD)
  moreover have "arena_inv 0 NODE_SIZE (alloc s2) (L \<union> W2)"
    if "L \<inter> W = {}" "arena_inv 0 NODE_SIZE (alloc s) (L \<union> W)" for L
  proof -
    have "arena_inv 0 NODE_SIZE (alloc s1) (L \<union> W1)" using a that unfolding gone_def by blast
    moreover have "L \<inter> W1 = {}" using that(1) sub by blast
    ultimately show ?thesis using b unfolding gone_def by blast
  qed
  ultimately show ?thesis using a b sub by (simp add: gone_def)
qed

lemma gone_push:
  assumes "nodes s' = nodes s" "HP s' = HP s" "alloc s' = snd (ssalloc_alloc 1 sz (alloc s))"
  shows "gone s s' W W"
  using assms by (simp add: gone_def load_next_def key_at_def val_at_def arena_inv_ssalloc_other)

lemma gone_release:
  assumes no: "nodes s' = poison (actual h ` set fs) (nodes s)" and hp: "HP s' = HP s"
    and al: "alloc s' = free_pairs (with_actual h fs) (alloc s)" and d: "distinct (map (actual h) fs)"
    and sub: "actual h ` set fs \<subseteq> W"
  shows "gone s s' W (W - actual h ` set fs)"
proof -
  have "load_next p s' = load_next p s" "val_at s' p = val_at s p" for p
    by (simp_all add: load_next_def val_at_def no poison_def option.map_comp comp_def)
  moreover have "key_at s' p = key_at s p" if "p \<notin> W" for p
    using that sub by (auto simp: key_at_def no poison_def)
  moreover have "arena_inv 0 NODE_SIZE (alloc s') (L \<union> (W - actual h ` set fs))"
    if L: "L \<inter> W = {}" and ar: "arena_inv 0 NODE_SIZE (alloc s) (L \<union> W)" for L
  proof -
    have snd: "map snd (with_actual h fs) = map (actual h) fs" "snd ` set (with_actual h fs) = actual h ` set fs"
      by (simp_all add: with_actual_def comp_def image_image)
    have "arena_inv 0 NODE_SIZE (alloc s') (L \<union> W - actual h ` set fs)"
      using free_pairs_arena0 [OF ar, of "with_actual h fs"] d sub unfolding snd al by blast
    moreover have "L \<union> W - actual h ` set fs = L \<union> (W - actual h ` set fs)" using L sub by blast
    ultimately show ?thesis by simp
  qed
  ultimately show ?thesis using hp al by (simp add: gone_def)
qed

section \<open>Hazard pointers with barriers\<close>

text \<open>The nodes \<open>W\<close> wait in \<open>rlist\<close>, and allocator 1 has room for \<open>n\<close> more wrappers.\<close>

definition smr_waits :: "'a smr_data_scheme \<Rightarrow> ptr set \<Rightarrow> nat \<Rightarrow> bool" where
  "smr_waits s W n \<longleftrightarrow> thread_index s < nthreads s \<and> (\<exists>ws. smr_inv s ws \<and> W = actual (mrs s) ` set ws \<and>
     distinct (map (actual (mrs s)) ws) \<and> room 1 MR_NODE_SIZE n (alloc s))"

lemma retired_arena: "retired s ws \<Longrightarrow> arena_inv 1 MR_NODE_SIZE (alloc s) (set ws)"
  by (simp add: retired_def)

lemma scan_gone:
  assumes d: "distinct (map (actual h) ws)" and u: "set ks \<union> set fs = set ws" "set ks \<inter> set fs = {}" "distinct fs"
    and no: "nodes s' = poison (actual h ` set fs) (nodes s)" and hp: "HP s' = HP s"
    and al: "alloc s' = free_pairs (with_actual h fs) (alloc s)"
  shows "gone s s' (actual h ` set ws) (actual h ` set ks)"
proof -
  have inj: "inj_on (actual h) (set ws)" using d by (simp add: distinct_map)
  have fs: "set fs \<subseteq> set ws" using u(1) by blast
  have "distinct (map (actual h) fs)"
    unfolding distinct_map using u(3) inj_on_subset [OF inj fs] by blast
  then have "gone s s' (actual h ` set ws) (actual h ` set ws - actual h ` set fs)"
    using image_mono [OF fs] by (rule gone_release [OF no hp al])
  moreover have "actual h ` set ws - actual h ` set fs = actual h ` set ks"
  proof -
    have "set ks = set ws - set fs" using u(1,2) by blast
    then show ?thesis using inj_on_image_set_diff [OF inj _ fs, of "set ws"] by simp
  qed
  ultimately show ?thesis by simp
qed

lemma smr_retire_law:
  assumes wt: "smr_waits s W (Suc n)" and q: "nodes s q \<noteq> None" "q \<notin> W"
  shows "\<exists>s' W'. smr_free_node_later q s = Some s' \<and> smr_waits s' W' n \<and> gone s s' (insert q W) W'"
proof -
  obtain ws where inv: "smr_inv s ws" and W: "W = actual (mrs s) ` set ws"
    and d: "distinct (map (actual (mrs s)) ws)" and rm: "room 1 MR_NODE_SIZE (Suc n) (alloc s)"
    and ti: "thread_index s < nthreads s" using wt by (auto simp: smr_waits_def)
  note ar = retired_arena [of s ws]
  have "retired s ws" using inv by (simp add: smr_inv_def)
  note al = room_alloc [OF ar [OF this] rm]
  obtain w s2 where w: "w \<notin> set ws" "smr_inv s2 (w # ws)" "actual (mrs s2) w = q"
    "\<forall>v \<in> set ws. actual (mrs s2) v = actual (mrs s) v" "HP s2 = HP s" "nodes s2 = nodes s"
    "nthreads s2 = nthreads s" "thread_index s2 = thread_index s"
    "smr_free_node_later q s = (if rcount s2 \<ge> smr_R s2 then smr_scan s2 else Some s2)"
    "alloc s2 = snd (ssalloc_alloc 1 (of_nat MR_NODE_SIZE) (alloc s))"
    by (rule smr_retire_inv [OF inv q(1) al(1)])
  let ?W2 = "insert q W"
  have W2: "actual (mrs s2) ` set (w # ws) = ?W2" using w(3,4) W by auto
  have mp: "map (actual (mrs s2)) (w # ws) = q # map (actual (mrs s)) ws" using w(3,4) by simp
  have d2: "distinct (map (actual (mrs s2)) (w # ws))" unfolding mp using d q(2) W by simp
  have rm2: "room 1 MR_NODE_SIZE n (alloc s2)" unfolding w(10) by (rule al(2))
  have ti2: "thread_index s2 < nthreads s2" unfolding w(7,8) by (rule ti)
  have wt2: "smr_waits s2 ?W2 n" unfolding smr_waits_def using ti2 w(2) W2 d2 rm2 by blast
  have g2: "gone s s2 ?W2 ?W2" by (rule gone_push [OF w(6,5,10)])
  show ?thesis
  proof (cases "rcount s2 \<ge> smr_R s2")
    case False
    then show ?thesis using w(9) wt2 g2 by (intro exI [of _ s2] exI [of _ ?W2]) simp
  next
    case True
    let ?h = "mrs s2" and ?ks = "filter (protected s2) (w # ws)" and ?fs = "rev (filter (\<lambda>w. \<not> protected s2 w) (w # ws))"
    obtain s' where s': "smr_scan s2 = Some s'" "smr_inv s' ?ks"
      "nodes s' = poison (actual ?h ` {v \<in> set (w # ws). \<not> protected s2 v}) (nodes s2)"
      "alloc s' = free_pairs (with_actual ?h ?fs) (alloc s2)" "HP s' = HP s2" "actual (mrs s') = actual ?h"
      "nthreads s' = nthreads s2" "thread_index s' = thread_index s2"
      by (rule smr_scan_inv [OF w(2)])
    have fs: "set ?fs = {v \<in> set (w # ws). \<not> protected s2 v}" by auto
    have "gone s2 s' (actual ?h ` set (w # ws)) (actual ?h ` set ?ks)"
    proof (rule scan_gone [OF d2 _ _ _ _ s'(5,4)])
      show "distinct ?fs" using w(2) by (simp add: smr_inv_def retired_def)
      show "nodes s' = poison (actual ?h ` set ?fs) (nodes s2)" by (simp only: s'(3) fs)
    qed auto
    then have "gone s2 s' ?W2 (actual (mrs s') ` set ?ks)" by (simp only: W2 s'(6))
    then have g: "gone s s' ?W2 (actual (mrs s') ` set ?ks)" by (rule gone_trans [OF g2])
    have "room 1 MR_NODE_SIZE n (alloc s')" using rm2 by (simp add: s'(4) room_def)
    moreover have "distinct (map (actual (mrs s')) ?ks)" unfolding s'(6) by (rule distinct_map_filter [OF d2])
    ultimately have "smr_waits s' (actual (mrs s') ` set ?ks) n"
      unfolding smr_waits_def s'(7,8) using ti2 s'(2) by blast
    then show ?thesis using g w(9) True s'(1) by (intro exI [of _ s'] exI) simp
  qed
qed

lemma retired_alloc0:
  assumes r: "retired m ws" and m: "mrs m' = mrs m" "\<forall>p. nodes m' p = None \<longleftrightarrow> nodes m p = None"
    and al: "alloc m' = alloc m \<or> alloc m' = snd (ssalloc_alloc 0 (of_nat NODE_SIZE) (alloc m))"
  shows "retired m' ws"
proof -
  have ar: "arena_inv 1 MR_NODE_SIZE (alloc m) (set ws)" using r by (simp add: retired_def)
  have "(0 :: nat) \<noteq> 1" by simp
  note other = arena_inv_ssalloc_other [OF this, of MR_NODE_SIZE _ "alloc m" "set ws"]
  have "arena_inv 1 MR_NODE_SIZE (alloc m') (set ws)" using al ar other by (elim disjE) (simp_all only:)
  moreover have "app_mem (alloc m') = app_mem (alloc m)" using al by auto
  ultimately show ?thesis using r m by (simp add: retired_def wrappers_mapped_def)
qed

text \<open>What the list does between two retirements leaves the waiting nodes alone.\<close>

lemma smr_waits_frame:
  assumes "smr_waits s W n" "rlist s' = rlist s" "rcount s' = rcount s" "nthreads s' = nthreads s" "thread_index s' = thread_index s" "mrs s' = mrs s"
    "length (HP s') = length (HP s)" "\<forall>p. nodes s' p = None \<longleftrightarrow> nodes s p = None"
    "alloc s' = alloc s \<or> alloc s' = snd (ssalloc_alloc 0 (of_nat NODE_SIZE) (alloc s))"
  shows "smr_waits s' W n"
proof -
  obtain ws where inv: "smr_inv s ws" "W = actual (mrs s) ` set ws" "distinct (map (actual (mrs s)) ws)"
    "room 1 MR_NODE_SIZE n (alloc s)" "thread_index s < nthreads s" using assms(1) by (auto simp: smr_waits_def)
  have "retired s' ws"
    by (rule retired_alloc0 [OF _ assms(6,8,9)]) (use inv(1) in \<open>simp add: smr_inv_def\<close>)
  then have "smr_inv s' ws" using inv(1) assms(2-7) by (simp add: smr_inv_def)
  moreover have "room 1 MR_NODE_SIZE n (alloc s')" using assms(9) inv(4) by (auto simp: room_def)
  ultimately show ?thesis using inv(2,3,5) by (simp only: smr_waits_def assms(4-6)) blast
qed

interpretation smrs: reclaimer smr_free_node_later smr_waits
proof
  show "smr_waits s W (Suc n) \<Longrightarrow> nodes s q \<noteq> None \<Longrightarrow> q \<notin> W \<Longrightarrow>
      \<exists>s' W'. smr_free_node_later q s = Some s' \<and> smr_waits s' W' n \<and> gone s s' (insert q W) W'"
    for s :: "'a smr_data_scheme" and W n q by (rule smr_retire_law)
qed (rule smr_waits_frame, assumption, simp_all)+


lemma node_or_scan_get: "new_node key val r s = Some (p, s') \<Longrightarrow> p \<noteq> NULL \<Longrightarrow> node_or_scan scan key val r s = Some (p, s')"
  by (simp add: node_or_scan_def)

lemma node_loop_get: "new_node key val r s = Some (p, s') \<Longrightarrow> p \<noteq> NULL \<Longrightarrow> node_loop fail new_node t key val r s = Some (p, s')"
  by (subst node_loop.simps) simp

lemma smr_slots:
  assumes "smr_waits s W n"
  shows "K * unat (thread_index s) + 1 < length (HP s)"
  using assms by (auto simp: smr_waits_def smr_inv_def K_def word_less_nat_alt)

lemma smr_lookup_law:
  assumes c: "client s head ps W" and i: "smr_waits s W n" and d: "deads s ps = 0" and k: "key < KEY_MAX"
  shows "\<exists>s'. smr_find head key s = Some (answer (contents s ps key), s') \<and> client s' head ps W \<and> smr_waits s' W n \<and>
    contents s' ps = contents s ps \<and> deads s' ps = deads s ps \<and> alloc s' = alloc s"
proof -
  have "\<forall>q \<in> set ps. the (key_at s q) < key \<longrightarrow> \<not> dead s q" using d by (simp add: filter_empty_conv)
  from harris_find_ok [OF c this smr_slots [OF i] k] obtain hp where hp:
    "smr_find head key s = Some (answer (contents s ps key), s\<lparr>HP := hp\<rparr>)" "length hp = length (HP s)"
    by (auto simp: smr_find_def)
  have "smr_waits (s\<lparr>HP := hp\<rparr>) W n" by (rule smr_waits_frame [OF i]) (simp_all add: hp(2))
  then show ?thesis using hp(1) c by (intro exI [of _ "s\<lparr>HP := hp\<rparr>"]) simp
qed

interpretation smrl: set_client smr_free_node_later smr_waits "smr_search head" head "node_or_scan smr_scan" "smr_find head"
  for head
proof
  show "client s head ps W \<Longrightarrow> smr_waits s W n \<Longrightarrow> deads s ps \<le> n \<Longrightarrow> key \<le> KEY_MAX \<Longrightarrow>
      \<exists>s' W' dn r post n'. smr_search head key s = Some (last (head # dn), r, s') \<and>
        positioned s s' head key ps dn r post W' \<and> smr_waits s' W' n' \<and>
        n + deads s' (dn @ r # post) = n' + deads s ps \<and> n' \<le> n" for s :: "'a smr_data_scheme" and ps W n key
    unfolding smr_search_def by (rule smrs.list_search_ok) (assumption | rule smr_slots)+
qed (rule node_or_scan_get smr_lookup_law, assumption+)+

interpretation smrc: set_scheme smr_free_node_later smr_waits smr_search
  "node_or_scan smr_scan" smr_find 
  by (intro set_scheme.intro set_scheme_axioms.intro smrs.reclaimer_axioms smrl.set_client_axioms)

text \<open>The memory a program starts with: nothing allocated, all blocks mapped.\<close>

definition fresh_memory :: "'a mem_scheme \<Rightarrow> bool" where
  "fresh_memory s \<longleftrightarrow> fresh_arena 0 NODE_SIZE (alloc s) \<and> fresh_arena 1 MR_NODE_SIZE (alloc s) \<and>
     nodes_mapped s \<and> wrappers_mapped s"

lemma fresh_retired: "fresh_memory s \<Longrightarrow> retired s []"
  by (simp add: fresh_memory_def retired_def fresh_arena_inv)

lemma fresh_nodes:
  assumes "fresh_memory s" "n + 2 \<le> 16384"
  shows "arena_inv 0 NODE_SIZE (alloc s) {}" "nodes_mapped s" "room 0 NODE_SIZE (Suc (Suc n)) (alloc s)"
    "room 1 MR_NODE_SIZE n (alloc s)"
  using assms
  by (simp_all add: fresh_memory_def fresh_arena_inv)
    (simp_all add: room_def fresh_arena_def NODE_SIZE_def MR_NODE_SIZE_def ssalloc_size_def SSALLOC_SIZE_SMALL_def
      SSALLOC_SIZE_BIG_def)

lemma smr_start:
  assumes f: "fresh_memory s" and t: "ti < nt" and n: "n + 2 \<le> 16384"
  shows "smr_waits (smr_init_local ti nt (smr_init_global nt s)) {} n"
proof -
  have u: "unat (ucast x :: u32) = unat x" for x :: u8
    using unat_u8_less [of x] by (simp add: unsigned_ucast_eq take_bit_nat_eq_self)
  have "retired (smr_init_local ti nt (smr_init_global nt s)) []"
    using fresh_retired [OF f] by (simp add: retired_def wrappers_mapped_def smr_init_local_def smr_init_global_def)
  then have "smr_inv (smr_init_local ti nt (smr_init_global nt s)) []"
    using unat_u8_less [of nt] by (simp add: smr_inv_def smr_init_local_def smr_init_global_def u)
  moreover have "(ucast ti :: u32) < ucast nt" using t by (simp add: word_less_nat_alt u)
  moreover have "room 1 MR_NODE_SIZE n (alloc s)" by (rule fresh_nodes(4) [OF f n])
  ultimately show ?thesis
    by (intro smr_waits_def [THEN iffD2] conjI exI [of _ "[]"])
      (simp_all add: smr_init_local_def smr_init_global_def)
qed

section \<open>Cadence\<close>

definition snm_waits :: "'a smr_data_scheme \<Rightarrow> ptr set \<Rightarrow> nat \<Rightarrow> bool" where
  "snm_waits s W n \<longleftrightarrow> thread_index s < nthreads s \<and> (\<exists>ws. snm_inv s ws \<and> W = actual (mrs s) ` set ws \<and>
     distinct (map (actual (mrs s)) ws) \<and> room 1 MR_NODE_SIZE n (alloc s))"

lemma snm_retire_law:
  assumes wt: "snm_waits s W (Suc n)" and q: "nodes s q \<noteq> None" "q \<notin> W"
  shows "\<exists>s' W'. snm_free_node_later q s = Some s' \<and> snm_waits s' W' n \<and> gone s s' (insert q W) W'"
proof -
  obtain ws where inv: "snm_inv s ws" and W: "W = actual (mrs s) ` set ws"
    and d: "distinct (map (actual (mrs s)) ws)" and rm: "room 1 MR_NODE_SIZE (Suc n) (alloc s)"
    and ti: "thread_index s < nthreads s" using wt by (auto simp: snm_waits_def)
  have "retired s ws" using inv by (simp add: snm_inv_def)
  note al = room_alloc [OF retired_arena [OF this] rm]
  obtain w s2 where w: "w \<notin> set ws" "snm_inv s2 (w # ws)" "actual (mrs s2) w = q"
    "created_at (mrs s2) w = clock s (tick s)"
    "\<forall>v \<in> set ws. actual (mrs s2) v = actual (mrs s) v \<and> created_at (mrs s2) v = created_at (mrs s) v"
    "HP s2 = HP s" "nodes s2 = nodes s" "clock s2 = clock s" "tick s2 = Suc (tick s)"
    "nthreads s2 = nthreads s" "thread_index s2 = thread_index s"
    "snm_free_node_later q s = (if rcount s2 \<ge> smr_R s2 then snm_scan s2 else Some s2)"
    "alloc s2 = snd (ssalloc_alloc 1 (of_nat MR_NODE_SIZE) (alloc s))"
    by (rule snm_retire_inv [OF inv q(1) al(1)])
  let ?W2 = "insert q W"
  have W2: "actual (mrs s2) ` set (w # ws) = ?W2" using w(3,5) W by auto
  have mp: "map (actual (mrs s2)) (w # ws) = q # map (actual (mrs s)) ws" using w(3,5) by simp
  have d2: "distinct (map (actual (mrs s2)) (w # ws))" unfolding mp using d q(2) W by simp
  have rm2: "room 1 MR_NODE_SIZE n (alloc s2)" unfolding w(13) by (rule al(2))
  have ti2: "thread_index s2 < nthreads s2" unfolding w(10,11) by (rule ti)
  have wt2: "snm_waits s2 ?W2 n" unfolding snm_waits_def using ti2 w(2) W2 d2 rm2 by blast
  have g2: "gone s s2 ?W2 ?W2" by (rule gone_push [OF w(7,6,13)])
  show ?thesis
  proof (cases "rcount s2 \<ge> smr_R s2")
    case False
    then show ?thesis using w(12) wt2 g2 by (intro exI [of _ s2] exI [of _ ?W2]) simp
  next
    case True
    let ?h = "mrs s2" and ?ks = "rev (kept (unsafe_at s2) 0 (w # ws))" and ?fs = "reclaimed (unsafe_at s2) 0 (w # ws)"
    obtain s' where s': "snm_scan s2 = Some s'" "snm_inv s' ?ks" "nodes s' = poison (actual ?h ` set ?fs) (nodes s2)"
      "alloc s' = free_pairs (with_actual ?h ?fs) (alloc s2)" "HP s' = HP s2" "actual (mrs s') = actual ?h"
      "created_at (mrs s') = created_at ?h" "nthreads s' = nthreads s2" "thread_index s' = thread_index s2"
      "clock s' = clock s2" "tick s' = tick s2 + length (w # ws)"
      by (rule snm_scan_inv [OF w(2)])
    have ds: "distinct (w # ws)" using w(2) by (simp add: snm_inv_def retired_def)
    have "gone s2 s' (actual ?h ` set (w # ws)) (actual ?h ` set ?ks)"
    proof (rule scan_gone [OF d2 _ _ _ s'(3,5,4)])
      show "set ?ks \<union> set ?fs = set (w # ws)" using sweep_set [of "unsafe_at s2" 0 "w # ws"] by (simp only: set_rev)
      show "set ?ks \<inter> set ?fs = {}" using sweep_disjoint [OF ds, of "unsafe_at s2" 0] by (simp only: set_rev)
    qed (rule distinct_reclaimed [OF ds])
    then have "gone s2 s' ?W2 (actual (mrs s') ` set ?ks)" by (simp only: W2 s'(6))
    then have g: "gone s s' ?W2 (actual (mrs s') ` set ?ks)" by (rule gone_trans [OF g2])
    have "room 1 MR_NODE_SIZE n (alloc s')" using rm2 by (simp only: s'(4) room_def free_pairs_next)
    moreover have "distinct (map (actual (mrs s')) ?ks)"
    proof -
      have "inj_on (actual ?h) (set (w # ws))" using d2 by (simp only: distinct_map)
      then have "inj_on (actual ?h) (set ?ks)"
        by (rule inj_on_subset) (use kept_subset [of "unsafe_at s2" 0 "w # ws"] in \<open>simp only: set_rev\<close>)
      then show ?thesis unfolding s'(6) using distinct_kept [OF ds] by (simp only: distinct_map distinct_rev simp_thms)
    qed
    ultimately have "snm_waits s' (actual (mrs s') ` set ?ks) n"
      unfolding snm_waits_def s'(8,9) using ti2 s'(2) by blast
    then show ?thesis using g w(12) True s'(1) by (intro exI [of _ s'] exI) simp
  qed
qed

lemma snm_waits_frame:
  assumes "snm_waits s W n" "rlist s' = rlist s" "rcount s' = rcount s" "nthreads s' = nthreads s"
    "thread_index s' = thread_index s" "mrs s' = mrs s"
    "length (HP s') = length (HP s)" "\<forall>p. nodes s' p = None \<longleftrightarrow> nodes s p = None"
    "alloc s' = alloc s \<or> alloc s' = snd (ssalloc_alloc 0 (of_nat NODE_SIZE) (alloc s))"
  shows "snm_waits s' W n"
proof -
  obtain ws where inv: "snm_inv s ws" "W = actual (mrs s) ` set ws" "distinct (map (actual (mrs s)) ws)"
    "room 1 MR_NODE_SIZE n (alloc s)" "thread_index s < nthreads s" using assms(1) by (auto simp: snm_waits_def)
  have "retired s' ws"
    by (rule retired_alloc0 [OF _ assms(6,8,9)]) (use inv(1) in \<open>simp add: snm_inv_def\<close>)
  then have "snm_inv s' ws" using inv(1) assms(2-7) by (simp add: snm_inv_def)
  moreover have "room 1 MR_NODE_SIZE n (alloc s')" using assms(9) inv(4) by (auto simp: room_def)
  ultimately show ?thesis using inv(2,3,5) by (simp only: snm_waits_def assms(4-6)) blast
qed

interpretation snms: reclaimer snm_free_node_later snm_waits
proof
  show "snm_waits s W (Suc n) \<Longrightarrow> nodes s q \<noteq> None \<Longrightarrow> q \<notin> W \<Longrightarrow>
      \<exists>s' W'. snm_free_node_later q s = Some s' \<and> snm_waits s' W' n \<and> gone s s' (insert q W) W'"
    for s :: "'a smr_data_scheme" and W n q by (rule snm_retire_law)
qed (rule snm_waits_frame, assumption, simp_all)+

lemma snm_slots:
  assumes "snm_waits s W n"
  shows "K * unat (thread_index s) + 1 < length (HP s)"
  using assms by (auto simp: snm_waits_def snm_inv_def K_def word_less_nat_alt)

lemma snm_lookup_law:
  assumes c: "client s head ps W" and i: "snm_waits s W n" and d: "deads s ps = 0" and k: "key < KEY_MAX"
  shows "\<exists>s'. snm_find head key s = Some (answer (contents s ps key), s') \<and> client s' head ps W \<and> snm_waits s' W n \<and>
    contents s' ps = contents s ps \<and> deads s' ps = deads s ps \<and> alloc s' = alloc s"
proof -
  have "\<forall>q \<in> set ps. the (key_at s q) < key \<longrightarrow> \<not> dead s q" using d by (simp add: filter_empty_conv)
  from harris_find_ok [OF c this snm_slots [OF i] k] obtain hp where hp:
    "snm_find head key s = Some (answer (contents s ps key), s\<lparr>HP := hp\<rparr>)" "length hp = length (HP s)"
    by (auto simp: snm_find_def)
  have "snm_waits (s\<lparr>HP := hp\<rparr>) W n" by (rule snm_waits_frame [OF i]) (simp_all add: hp(2))
  then show ?thesis using hp(1) c by (intro exI [of _ "s\<lparr>HP := hp\<rparr>"]) simp
qed

interpretation snml: set_client snm_free_node_later snm_waits "snm_search head" head
  "node_loop (\<lambda>_. snm_scan) new_node 0" "snm_find head" for head
proof
  show "client s head ps W \<Longrightarrow> snm_waits s W n \<Longrightarrow> deads s ps \<le> n \<Longrightarrow> key \<le> KEY_MAX \<Longrightarrow>
      \<exists>s' W' dn r post n'. snm_search head key s = Some (last (head # dn), r, s') \<and>
        positioned s s' head key ps dn r post W' \<and> snm_waits s' W' n' \<and>
        n + deads s' (dn @ r # post) = n' + deads s ps \<and> n' \<le> n" for s :: "'a smr_data_scheme" and ps W n key
    unfolding snm_search_def by (rule snms.list_search_ok) (assumption | rule snm_slots)+
qed (rule node_loop_get snm_lookup_law, assumption+)+

interpretation snmc: set_scheme snm_free_node_later snm_waits snm_search
  "node_loop (\<lambda>_. snm_scan) new_node 0" snm_find 
  by (intro set_scheme.intro set_scheme_axioms.intro snms.reclaimer_axioms snml.set_client_axioms)

lemma snm_start:
  assumes f: "fresh_memory s" and t: "ti < nt" and n: "n + 2 \<le> 16384"
  shows "snm_waits (snm_init_local ti nt (snm_init_global nt s)) {} n"
proof -
  have "smr_waits (snm_init_local ti nt (snm_init_global nt s)) {} n"
    using smr_start [OF assms]
    by (simp add: smr_init_local_def smr_init_global_def snm_init_local_def snm_init_global_def)
  then obtain "smr_inv (snm_init_local ti nt (snm_init_global nt s)) []"
    by (auto simp: smr_waits_def)
  then have "snm_inv (snm_init_local ti nt (snm_init_global nt s)) []"
    by (simp add: smr_inv_def snm_inv_def dll_def)
  then show ?thesis using \<open>smr_waits _ {} n\<close>
    by (auto simp: smr_waits_def snm_waits_def intro!: exI [of _ "[]"])
qed

section \<open>Quiescent states\<close>

definition q_waits :: "'a qsbr_state_scheme \<Rightarrow> ptr set \<Rightarrow> nat \<Rightarrow> bool" where
  "q_waits s W n \<longleftrightarrow> (\<exists>ls. q_inv s ls \<and> W = actual (mrs s) ` set (concat ls) \<and> room 1 MR_NODE_SIZE n (alloc s))"

lemma q_retire_law:
  assumes wt: "q_waits s W (Suc n)" and q: "nodes s q \<noteq> None"
  shows "\<exists>s' W'. q_free_node_later env q s = Some s' \<and> q_waits s' W' n \<and> gone s s' (insert q W) W'"
proof -
  obtain ls where inv: "q_inv s ls" and W: "W = actual (mrs s) ` set (concat ls)"
    and rm: "room 1 MR_NODE_SIZE (Suc n) (alloc s)" using wt by (auto simp: q_waits_def)
  have "retired s (concat ls)" using inv by (simp add: q_inv_def)
  note al = room_alloc [OF retired_arena [OF this] rm]
  let ?e = "nat (epoch (qd s ! me s))"
  obtain w s' where w: "q_free_node_later env q s = Some s'" "w \<notin> set (concat ls)" "q_inv s' (ls[?e := w # ls ! ?e])"
    "set (concat (ls[?e := w # ls ! ?e])) = insert w (set (concat ls))"
    "actual (mrs s') w = q" "\<forall>v \<in> set (concat ls). actual (mrs s') v = actual (mrs s) v"
    "nodes s' = nodes s" "global_epoch s' = global_epoch s" "HP s' = HP s"
    "alloc s' = snd (ssalloc_alloc 1 (of_nat MR_NODE_SIZE) (alloc s))"
    by (rule q_retire_inv [OF inv q al(1)])
  have "actual (mrs s') ` set (concat (ls[?e := w # ls ! ?e])) = insert q W"
    unfolding w(4) image_insert w(5) W using w(6) by (metis image_cong)
  moreover have "room 1 MR_NODE_SIZE n (alloc s')" unfolding w(10) by (rule al(2))
  ultimately have "q_waits s' (insert q W) n" unfolding q_waits_def using w(3) by metis
  moreover have "gone s s' (insert q W) (insert q W)" by (rule gone_push [OF w(7,9,10)])
  ultimately show ?thesis using w(1) by blast
qed

lemma q_waits_frame:
  assumes "q_waits s W n" "qd s' = qd s" "qad_index s' = qad_index s" "qad_nthreads s' = qad_nthreads s"
    "global_epoch s' = global_epoch s" "mrs s' = mrs s" "\<forall>p. nodes s' p = None \<longleftrightarrow> nodes s p = None"
    "alloc s' = alloc s \<or> alloc s' = snd (ssalloc_alloc 0 (of_nat NODE_SIZE) (alloc s))"
  shows "q_waits s' W n"
proof -
  obtain ls where inv: "q_inv s ls" "W = actual (mrs s) ` set (concat ls)" "room 1 MR_NODE_SIZE n (alloc s)"
    using assms(1) by (auto simp: q_waits_def)
  have "retired s' (concat ls)"
    by (rule retired_alloc0 [OF _ assms(6,7,8)]) (use inv(1) in \<open>simp add: q_inv_def\<close>)
  then have "q_inv s' ls" using inv(1) assms(2-6) by (simp add: q_inv_def me_def)
  moreover have "room 1 MR_NODE_SIZE n (alloc s')" using assms(8) inv(3) by (auto simp: room_def)
  ultimately show ?thesis using inv(2) unfolding q_waits_def assms(6) by blast
qed

interpretation qs: reclaimer "q_free_node_later env" q_waits for env
proof
  show "q_waits s W (Suc n) \<Longrightarrow> nodes s q \<noteq> None \<Longrightarrow> q \<notin> W \<Longrightarrow>
      \<exists>s' W'. q_free_node_later env q s = Some s' \<and> q_waits s' W' n \<and> gone s s' (insert q W) W'"
    for s :: "'a qsbr_state_scheme" and W n q by (rule q_retire_law)
qed (rule q_waits_frame, assumption, simp_all)+

lemma q_lookup_law:
  assumes "client s head ps W" "q_waits s W n" "deads s ps = 0" "key < KEY_MAX"
  shows "\<exists>s'. q_find head key s = Some (answer (contents s ps key), s') \<and> client s' head ps W \<and> q_waits s' W n \<and>
    contents s' ps = contents s ps \<and> deads s' ps = deads s ps \<and> alloc s' = alloc s"
  using plain_harris_find_ok [OF assms(1,4)] assms(1,2) by (simp add: q_find_def)

interpretation ql: set_client "q_free_node_later env" q_waits "q_search env head" head
  "node_loop (\<lambda>_. quiescent_state env True 0) new_node 0" "q_find head" for env head
proof
  show "client s head ps W \<Longrightarrow> q_waits s W n \<Longrightarrow> deads s ps \<le> n \<Longrightarrow> key \<le> KEY_MAX \<Longrightarrow>
      \<exists>s' W' dn r post n'. q_search env head key s = Some (last (head # dn), r, s') \<and>
        positioned s s' head key ps dn r post W' \<and> q_waits s' W' n' \<and>
        n + deads s' (dn @ r # post) = n' + deads s ps \<and> n' \<le> n" for s :: "'a qsbr_state_scheme" and ps W n key
    unfolding q_search_def by (rule qs.plain_list_search_ok)
qed (rule node_loop_get q_lookup_law, assumption+)+

interpretation qc: set_scheme "q_free_node_later env" q_waits "q_search env"
  "node_loop (\<lambda>_. quiescent_state env True 0) new_node 0" q_find for env
  by (intro set_scheme.intro set_scheme_axioms.intro qs.reclaimer_axioms ql.set_client_axioms)

lemma q_start:
  assumes f: "fresh_memory s" and t: "ti < nt" and n: "n + 2 \<le> 16384"
  shows "q_waits (q_init_local ti nt (q_init_global nt s)) {} n"
proof -
  let ?s0 = "q_init_local ti nt (q_init_global nt s)"
  have u: "unat (ucast x :: u64) = unat x" for x :: u8
    using unat_u8_less [of x] by (simp add: unsigned_ucast_eq take_bit_nat_eq_self)
  have me: "me ?s0 = unat ti" "qad_nthreads ?s0 = ucast nt" by (simp_all add: me_def q_init_local_def u)
  have lt: "unat ti < unat nt" using t by (simp add: word_less_nat_alt)
  have qd: "qd ?s0 = replicate (unat nt) \<lparr>limbo_list = replicate N_EPOCHS NULL, entries_since_update = 0,
      epoch = 0, in_critical = 1, q_rcount = 0\<rparr>" by (simp add: q_init_local_def q_init_global_def)
  have "retired ?s0 []"
    using fresh_retired [OF f] by (simp add: retired_def wrappers_mapped_def q_init_local_def q_init_global_def)
  then have "q_inv ?s0 [[], [], []]"
    using unat_u8_less [of nt] lt unfolding q_inv_def me qd
    by (auto simp: u N_EPOCHS_def q_init_local_def q_init_global_def nth_Cons' numeral_3_eq_3 less_Suc_eq)
  moreover have "room 1 MR_NODE_SIZE n (alloc ?s0)"
    using fresh_nodes(4) [OF f n] by (simp add: q_init_local_def q_init_global_def)
  ultimately show ?thesis unfolding q_waits_def by (intro exI [of _ "[[], [], []]"]) simp
qed

section \<open>Properties\<close>


text \<open>The same for the list of src/src/linkedlist-smr-no-membar-harris_opt over Cadence, whatever the clock
  answers: young nodes only wait longer.\<close>

theorem snm_set_refines_map:
  assumes "fresh_memory s" "ti < nt" "\<forall>x \<in> set xs. op_key x < KEY_MAX" "length xs + 2 \<le> 16384"
  shows "\<exists>head s1 s'. set_new (snm_init_local ti nt (snm_init_global nt s)) = Some (head, s1) \<and>
    set_run (set_step (snm_find head) (snm_insert head) (snm_delete head)) xs s1 =
      Some (fst (map_run xs Map.empty), s') \<and>
    set_size head s' = Some (int (card (dom (snd (map_run xs Map.empty)))))"
proof -
  let ?s0 = "snm_init_local ti nt (snm_init_global nt s)"
  have "alloc ?s0 = alloc s" "nodes_mapped ?s0 = nodes_mapped s"
    by (simp_all add: snm_init_local_def snm_init_global_def nodes_mapped_def)
  note fr = fresh_nodes(1-3) [OF assms(1,4), folded this]
  show ?thesis unfolding snm_insert_def snm_delete_def
    by (rule snmc.start_run [OF fr snm_start [OF assms(1,2,4)] assms(3)])
qed

text \<open>The same for the list of src/src/linkedlist-qsbr-harris_opt over quiescent states, whatever the other
  threads would do while this one waits for memory.\<close>

theorem q_set_refines_map:
  assumes "fresh_memory s" "ti < nt" "\<forall>x \<in> set xs. op_key x < KEY_MAX" "length xs + 2 \<le> 16384"
  shows "\<exists>head s1 s'. set_new (q_init_local ti nt (q_init_global nt s)) = Some (head, s1) \<and>
    set_run (set_step (q_find head) (q_insert env head) (q_delete env head)) xs s1 =
      Some (fst (map_run xs Map.empty), s') \<and>
    set_size head s' = Some (int (card (dom (snd (map_run xs Map.empty)))))"
proof -
  let ?s0 = "q_init_local ti nt (q_init_global nt s)"
  have "alloc ?s0 = alloc s" "nodes_mapped ?s0 = nodes_mapped s"
    by (simp_all add: q_init_local_def q_init_global_def nodes_mapped_def)
  note fr = fresh_nodes(1-3) [OF assms(1,4), folded this]
  show ?thesis unfolding q_insert_def q_delete_def
    by (rule qc.start_run [OF fr q_start [OF assms(1,2,4)] assms(3)])
qed

text \<open>set_add on the list with hazard pointers that another thread left with dead nodes in it: the
  traversal unlinks and retires those it meets, so with wrappers for all of them and a free node
  harris_insert returns 1 and adds the key, or 0 if the key is there, and the map changes in nothing
  else.\<close>

theorem smr_insert_with_dead_nodes:
  assumes "client s head ps W" "smr_waits s W n" "deads s ps \<le> n" "key < KEY_MAX" "room 0 NODE_SIZE 1 (alloc s)"
  shows "\<exists>s' ps' W' n'. smr_insert head key val s = Some (if contents s ps key = None then 1 else 0, s') \<and>
    client s' head ps' W' \<and> smr_waits s' W' n' \<and> n + deads s' ps' \<le> n' + deads s ps \<and>
    contents s' ps' = (if contents s ps key = None then (contents s ps)(key \<mapsto> val) else contents s ps)"
  using smrl.insert_ok [OF assms(1-4) assms(5) [unfolded One_nat_def], of val] unfolding smr_insert_def by blast

text \<open>set_remove there: harris_delete marks the node, unlinks it itself and retires it; it returns the value
  and the map loses the key, or 0 when the key is not there.\<close>

theorem smr_delete_with_dead_nodes:
  assumes "client s head ps W" "smr_waits s W n" "deads s ps < n" "key < KEY_MAX"
  shows "\<exists>s' ps' W' n'. smr_delete head key s = Some (answer (contents s ps key), s') \<and>
    client s' head ps' W' \<and> smr_waits s' W' n' \<and> contents s' ps' = (contents s ps)(key := None)"
  using smrl.delete_ok [OF assms] unfolding smr_delete_def by blast


text \<open>On a list without dead nodes the two nodes list_search returns are in the thread's two hazard
  pointers (\<open>left_node\<close> unless it is the head), so no scan of src/smr.c can release them before the CAS that
  follows.\<close>

theorem smr_search_protects:
  assumes "client s head ps W" "smr_waits s W n" "deads s ps = 0" "key \<le> KEY_MAX"
  shows "\<exists>hp l r. smr_search head key s = Some (l, r, s\<lparr>HP := hp\<rparr>) \<and> length hp = length (HP s) \<and>
    (\<exists>i < K. r = hp ! (K * unat (thread_index s) + i)) \<and>
    (l = head \<or> (\<exists>i < K. l = hp ! (K * unat (thread_index s) + i)))"
proof -
  let ?b = "K * unat (thread_index s)"
  obtain hp l r where h: "list_search smr_free_node_later head ?b key s = Some (l, r, s\<lparr>HP := hp\<rparr>)"
    "length hp = length (HP s)" "r \<in> {hp ! ?b, hp ! (?b + 1)}" "l \<noteq> head \<longrightarrow> l \<in> {hp ! ?b, hp ! (?b + 1)}"
    by (rule list_search_protects [OF assms(1,3) smr_slots [OF assms(2)] assms(4)])
  have slot: "\<exists>i < K. q = hp ! (?b + i)" if "q \<in> {hp ! ?b, hp ! (?b + 1)}" for q
    using that by (elim insertE emptyE) (rule exI [of _ 0], simp add: K_def, rule exI [of _ 1], simp add: K_def)
  have "l = head \<or> (\<exists>i < K. l = hp ! (?b + i))" using h(4) slot [of l] by blast
  then show ?thesis unfolding smr_search_def
    by (intro exI [of _ hp] exI [of _ l] exI [of _ r] conjI h(1,2) slot [OF h(3)])
qed

section \<open>Witnesses\<close>

definition ex_fresh :: smr_data where
  "ex_fresh = ex_smr\<lparr>alloc := ex_alloc\<lparr>alloc_next := \<lambda>_. 0\<rparr>\<rparr>"

lemma ex_fresh_memory: "fresh_memory ex_fresh"
  by (simp add: fresh_memory_def fresh_arena_def nodes_mapped_def wrappers_mapped_def ex_fresh_def ex_alloc_def
      NODE_SIZE_def MR_NODE_SIZE_def ssalloc_size_def SSALLOC_SIZE_SMALL_def SSALLOC_SIZE_BIG_def ex_nodes_def)
    (simp add: ex_mrs_def)

definition ex_ops :: "set_op list" where
  "ex_ops = [Set_Add 5 50, Set_Add 5 60, Set_Add 7 70, Set_Remove 5, Set_Contains 7]"


lemma snm_set_refines_map_witness:
  "\<exists>head s1 s'. set_new (snm_init_local 0 2 (snm_init_global 2 ex_fresh)) = Some (head, s1) \<and>
    set_run (set_step (snm_find head) (snm_insert head) (snm_delete head)) ex_ops s1 = Some ([1, 0, 1, 50, 70], s') \<and>
    set_size head s' = Some 1"
  using snm_set_refines_map [OF ex_fresh_memory, of 0 2 ex_ops]
  by (simp add: ex_ops_def KEY_MAX_def answer_def)

definition ex_fresh_q :: qsbr_state where
  "ex_fresh_q = (ex_q 0 0)\<lparr>alloc := ex_alloc\<lparr>alloc_next := \<lambda>_. 0\<rparr>\<rparr>"

lemma ex_fresh_q_memory: "fresh_memory ex_fresh_q"
  by (simp add: fresh_memory_def fresh_arena_def nodes_mapped_def wrappers_mapped_def ex_fresh_q_def ex_alloc_def
      NODE_SIZE_def MR_NODE_SIZE_def ssalloc_size_def SSALLOC_SIZE_SMALL_def SSALLOC_SIZE_BIG_def ex_nodes_def)
    (simp add: ex_mrs_def)

lemma q_set_refines_map_witness:
  "\<exists>head s1 s'. set_new (q_init_local 0 2 (q_init_global 2 ex_fresh_q)) = Some (head, s1) \<and>
    set_run (set_step (q_find head) (q_insert (\<lambda>_ s. s) head) (q_delete (\<lambda>_ s. s) head)) ex_ops s1 = Some ([1, 0, 1, 50, 70], s') \<and>
    set_size head s' = Some 1"
  using q_set_refines_map [OF ex_fresh_q_memory, of 0 2 ex_ops]
  by (simp add: ex_ops_def KEY_MAX_def answer_def)

text \<open>The list 96 (head), 128 (key 5), 160 (key 7, marked), 64 (tail).\<close>

definition ex_set :: smr_data where
  "ex_set = ex_smr\<lparr>alloc := ex_alloc\<lparr>alloc_next := \<lambda>a. if a = 0 then 128 else 0\<rparr>, rlist := init, rcount := 0,
     nodes := ex_nodes(64 \<mapsto> \<lparr>n_key = KEY_MAX, n_val = 0, n_marked = 0, n_next = 0\<rparr>,
       96 \<mapsto> \<lparr>n_key = KEY_MIN, n_val = 0, n_marked = 0, n_next = 128\<rparr>,
       128 \<mapsto> \<lparr>n_key = 5, n_val = 50, n_marked = 0, n_next = 160\<rparr>,
       160 \<mapsto> \<lparr>n_key = 7, n_val = 70, n_marked = 0, n_next = 65\<rparr>)\<rparr>"

lemma ex_set_marks [simp]: "is_marked_ref 65" "\<not> is_marked_ref 128" "\<not> is_marked_ref 160" "get_unmarked_ref 65 = 64"
  "get_unmarked_ref 128 = 128" "get_unmarked_ref 160 = 160"
  by (simp_all add: is_marked_ref_def get_unmarked_ref_def)

lemma ex_set_client: "client ex_set 96 [128, 160, 64] {}"
  by (simp add: client_def list_ok_def linked_def dead_def load_next_def key_at_def key_less_def nodes_mapped_def
      arena_inv_def arena_ok_def in_arena_def free_queue_def ex_set_def ex_alloc_def NODE_SIZE_def
      ssalloc_size_def SSALLOC_SIZE_SMALL_def KEY_MAX_def KEY_MIN_def)
    (simp add: ex_nodes_def)

lemma ex_set_waits: "smr_waits ex_set {} 3"
proof -
  have "arena_inv 1 MR_NODE_SIZE (alloc ex_set) {}"
    by (rule fresh_arena_inv)
      (auto simp: fresh_arena_def ex_set_def ex_alloc_def MR_NODE_SIZE_def ssalloc_size_def SSALLOC_SIZE_BIG_def)
  moreover have "wrappers_mapped ex_set" by (auto simp: wrappers_mapped_def ex_set_def ex_mrs_def ex_alloc_def)
  ultimately have "retired ex_set []" by (simp add: retired_def)
  then have "smr_inv ex_set []" by (simp add: smr_inv_def) (simp add: ex_set_def K_def)
  then show ?thesis
    by (intro smr_waits_def [THEN iffD2] conjI exI [of _ "[]"])
      (simp_all add: ex_set_def room_def ex_alloc_def MR_NODE_SIZE_def ssalloc_size_def SSALLOC_SIZE_BIG_def)
qed

lemma ex_set_dead: "\<not> dead ex_set 128" "dead ex_set 160" "\<not> dead ex_set 64"
  by (simp_all add: dead_def load_next_def) (simp_all add: ex_set_def)

lemma ex_set_contents: "contents ex_set [128, 160, 64] = [5 \<mapsto> 50]"
  by (simp add: contents_def ex_set_dead key_at_def val_at_def) (simp add: ex_set_def)

lemma smr_insert_with_dead_nodes_witness:
  "\<exists>s' ps'. smr_insert 96 9 90 ex_set = Some (1, s') \<and> contents s' ps' = [5 \<mapsto> 50, 9 \<mapsto> 90]"
proof -
  have "room 0 NODE_SIZE 1 (alloc ex_set)" "deads ex_set [128, 160, 64] \<le> 3" "(9 :: skey_t) < KEY_MAX"
    by (simp_all add: ex_set_dead KEY_MAX_def)
      (simp add: room_def ex_set_def ex_alloc_def NODE_SIZE_def ssalloc_size_def SSALLOC_SIZE_SMALL_def)
  from smr_insert_with_dead_nodes [OF ex_set_client ex_set_waits this(2,3,1), of 90] show ?thesis
    unfolding ex_set_contents by (auto intro: exI)
qed

lemma smr_delete_with_dead_nodes_witness:
  "\<exists>s' ps'. smr_delete 96 5 ex_set = Some (50, s') \<and> contents s' ps' = Map.empty"
proof -
  have "deads ex_set [128, 160, 64] < 3" "(5 :: skey_t) < KEY_MAX" by (simp_all add: ex_set_dead KEY_MAX_def)
  from smr_delete_with_dead_nodes [OF ex_set_client ex_set_waits this] show ?thesis
    unfolding ex_set_contents by (auto simp: answer_def)
qed


text \<open>The list with 128 live and 160 not marked.\<close>

definition ex_clean :: smr_data where
  "ex_clean = ex_set\<lparr>nodes := (nodes ex_set)(160 \<mapsto> \<lparr>n_key = 7, n_val = 70, n_marked = 0, n_next = 64\<rparr>)\<rparr>"

lemma ex_clean_sel: "smr_waits ex_clean {} 3" "client ex_clean 96 [128, 160, 64] {}" "deads ex_clean [128, 160, 64] = 0"
proof -
  show "smr_waits ex_clean {} 3"
    by (rule smr_waits_frame [OF ex_set_waits]) (simp_all add: ex_clean_def, simp add: ex_set_def)
  have m: "\<not> is_marked_ref 64" "get_unmarked_ref 64 = 64" by (simp_all add: is_marked_ref_def get_unmarked_ref_def)
  show "client ex_clean 96 [128, 160, 64] {}"
    by (simp add: client_def list_ok_def linked_def dead_def load_next_def key_at_def key_less_def nodes_mapped_def
        arena_inv_def arena_ok_def in_arena_def free_queue_def ex_clean_def ex_set_def ex_alloc_def NODE_SIZE_def
        ssalloc_size_def SSALLOC_SIZE_SMALL_def KEY_MAX_def KEY_MIN_def m)
      (simp add: ex_nodes_def)
  show "deads ex_clean [128, 160, 64] = 0"
    by (simp add: dead_def load_next_def) (simp add: ex_clean_def ex_set_def m)
qed

lemma smr_search_protects_witness:
  "\<exists>hp l r. smr_search 96 9 ex_clean = Some (l, r, ex_clean\<lparr>HP := hp\<rparr>) \<and> (l = 96 \<or> l \<in> {hp ! 0, hp ! 1})"
proof -
  have t: "thread_index ex_clean = 0" by (simp add: ex_clean_def ex_set_def)
  have k: "i < K \<Longrightarrow> i = 0 \<or> i = 1" for i by (auto simp: K_def)
  have "(9 :: skey_t) \<le> KEY_MAX" by (simp add: KEY_MAX_def)
  from smr_search_protects [OF ex_clean_sel(2,1,3) this] show ?thesis
    unfolding t by (elim exE conjE) (intro exI conjI, assumption, use k in fastforce)
qed

section \<open>Gaps of the list with hazard pointers\<close>

text \<open>After list_search has unlinked a dead node, the hazard pointer of \<open>left_node\<close> is gone: \<open>offset\<close> was
  toggled for the dead node, too, so the next store overwrote the other slot. In the example the search for 9
  returns \<open>left_node\<close> = 128, to which no hazard pointer of any thread points, and the CAS of harris_insert
  writes to it.\<close>

theorem smr_search_drops_left:
  "\<exists>s'. smr_search 96 9 ex_set = Some (128, 64, s') \<and> HP ex_set ! 0 = NULL \<and> 128 \<notin> hazards s' \<and> 128 \<noteq> NULL"
proof -
  let ?r = "smr_search 96 9 ex_set"
  have "(case ?r of None \<Rightarrow> False | Some (l, r, s') \<Rightarrow> l = 128 \<and> r = 64 \<and> HP s' = [64, 160, 96, 0])" by code_simp
  moreover have "HP ex_set ! 0 = NULL" by (simp add: ex_set_def)
  ultimately show ?thesis by (auto simp: hazards_def split: option.splits prod.splits)
qed

text \<open>Allocator 0 used up.\<close>

definition ex_out :: smr_data where
  "ex_out = ex_clean\<lparr>alloc := ex_alloc\<lparr>alloc_next := \<lambda>a. if a = 0 then SSALLOC_SIZE_SMALL else 0\<rparr>\<rparr>"

text \<open>With no free node, harris_insert of src/src/linkedlist-smr-harris_opt scans once, does not look at
  the result of the second new_node and links NULL: it returns 1, the nodes 160 and 64 behind \<open>left_node\<close> 128 are
  cut off, set_size falls from 2 to 0, and the next lookup of 7 dereferences NULL.\<close>

theorem smr_insert_links_NULL:
  "\<exists>s'. smr_insert 96 6 60 ex_out = Some (1, s') \<and> load_next 128 ex_out = Some 160 \<and> load_next 128 s' = Some NULL \<and>
    set_size 96 ex_out = Some 2 \<and> set_size 96 s' = Some 0 \<and>
    smr_find 96 7 s' = None"
proof -
  have "(case smr_insert 96 6 60 ex_out of None \<Rightarrow> False
      | Some (x, s') \<Rightarrow> x = 1 \<and> load_next 128 s' = Some NULL \<and> set_size 96 s' = Some 0 \<and> smr_find 96 7 s' = None)"
    by code_simp
  moreover have "load_next 128 ex_out = Some 160 \<and> set_size 96 ex_out = Some 2" by code_simp
  ultimately show ?thesis by (auto split: option.splits prod.splits)
qed

end
