(* ===== verification/Harris_Linear.thy ===== *)
theory Harris_Linear
  imports Harris_Concurrent
begin

text \<open>
  The invariant of the concurrent list and its simulation by the atomic map. An operation that finds
  its key and changes the map takes place at its successful CAS; one that does not, at some moment of
  its execution: when the search compared \<open>left_node->next\<close> with \<open>right_node\<close>, when it read the next
  pointer of \<open>right_node\<close>, or when another thread marked it.
\<close>

section \<open>Invariant\<close>

text \<open>Where a node is.\<close>

datatype l_place = In_chain | Is_unused | Is_retired | Private nat | Unlinked nat

definition published :: "(ptr \<Rightarrow> l_place option) \<Rightarrow> ptr \<Rightarrow> bool" where
  "published loc p \<longleftrightarrow> loc p = Some In_chain \<or> loc p = Some Is_retired \<or> (\<exists>i. loc p = Some (Unlinked i))"

definition mem_ok :: "list_sys \<Rightarrow> ptr list \<Rightarrow> (ptr \<Rightarrow> l_place option) \<Rightarrow> bool" where
  "mem_ok s ps loc \<longleftrightarrow>
     list_ok s (l_head s) ps \<and> key_at s (l_head s) = Some KEY_MIN \<and>
     (\<forall>p. p \<in> set (l_head s # ps) \<longleftrightarrow> loc p = Some In_chain) \<and>
     (\<forall>p. p \<in> set (l_unused s) \<longleftrightarrow> loc p = Some Is_unused) \<and>
     (\<forall>p. p \<in> set (l_retired s) \<longleftrightarrow> loc p = Some Is_retired) \<and> distinct (l_retired s) \<and>
     (\<forall>p. loc p \<noteq> None \<longrightarrow> p \<noteq> NULL \<and> get_unmarked_ref p = p \<and> nodes s p \<noteq> None) \<and>
     (\<forall>p. loc p \<noteq> Some In_chain \<longrightarrow> published loc p \<longrightarrow> dead s p)"

definition op_ok :: "l_thread \<Rightarrow> bool" where
  "op_ok t \<longleftrightarrow>
     (l_pc t \<noteq> Idle \<longrightarrow> KEY_MIN < op_key (l_op t) \<and> op_key (l_op t) < KEY_MAX) \<and>
     (l_done t \<longrightarrow> (\<exists>k. l_op t = Set_Remove k)) \<and>
     (l_site t \<longrightarrow> l_done t) \<and>
     (l_pc t \<in> {Get_node, Link} \<longrightarrow> \<not> l_done t \<and> (\<exists>k v. l_op t = Set_Add k v)) \<and>
     (l_pc t \<in> {Get_next, Mark} \<longrightarrow> \<not> l_done t \<and> (\<exists>k. l_op t = Set_Remove k)) \<and>
     (l_pc t = Value \<longrightarrow> l_done t)"

definition refs_ok :: "'a mem_scheme \<Rightarrow> (ptr \<Rightarrow> l_place option) \<Rightarrow> l_thread \<Rightarrow> bool" where
  "refs_ok s loc t \<longleftrightarrow>
     (l_pc t \<notin> {Idle, At_head, Response} \<longrightarrow>
        published loc (l_left t) \<and> (\<exists>k. key_at s (l_left t) = Some k \<and> k < op_key (l_op t)) \<and>
        (if l_pc t = Check then get_unmarked_ref (l_right t) = l_right t else published loc (l_right t)))"

text \<open>At some moment since its call the key of the operation was not in the map.\<close>

definition absent :: "l_thread \<Rightarrow> a_status \<Rightarrow> bool" where
  "absent t st \<longleftrightarrow> l_done t \<or> (\<exists>S N. st = Pending (l_op t) S \<and> N \<in> S \<and> N (op_key (l_op t)) = None)"

definition pc_ok :: "nat \<Rightarrow> 'a mem_scheme \<Rightarrow> (ptr \<Rightarrow> l_place option) \<Rightarrow> l_thread \<Rightarrow> a_status \<Rightarrow> bool" where
  "pc_ok i s loc t st \<longleftrightarrow>
     (let key = op_key (l_op t); r = l_right t in
      case l_pc t of
        Read \<Rightarrow> \<exists>k. key_at s r = Some k \<and> (k < key \<or> k = key \<and> \<not> dead s r \<or> absent t st)
      | New_next \<Rightarrow> dead s r
      | Unlink \<Rightarrow> dead s r \<and> load_next r s \<noteq> None \<and> l_new t = get_unmarked_ref (the (load_next r s))
      | Hand_over \<Rightarrow> loc r = Some (Unlinked i)
      | Get_node \<Rightarrow> \<exists>k. key_at s r = Some k \<and> key < k
      | Link \<Rightarrow> (\<exists>k. key_at s r = Some k \<and> key < k) \<and> loc (l_new t) = Some (Private i) \<and> load_next (l_new t) s = Some r \<and>
          (\<exists>v. l_op t = Set_Add key v \<and> key_at s (l_new t) = Some key \<and> val_at s (l_new t) = Some v)
      | Get_next \<Rightarrow> key_at s r = Some key
      | Mark \<Rightarrow> key_at s r = Some key \<and> get_unmarked_ref (l_new t) = l_new t
      | Value \<Rightarrow> dead s r
      | _ \<Rightarrow> True)"

definition status_ok :: "'a mem_scheme \<Rightarrow> (skey_t \<rightharpoonup> sval_t) \<Rightarrow> l_thread \<Rightarrow> a_status \<Rightarrow> bool" where
  "status_ok s M t st \<longleftrightarrow>
     (case l_pc t of
        Idle \<Rightarrow> st = A_idle
      | Response \<Rightarrow> st = Effected (l_op t) (l_ret t) \<or>
          (\<exists>S N. st = Pending (l_op t) S \<and> M \<in> S \<and> N \<in> S \<and> map_step (l_op t) N = (l_ret t, N))
      | Value \<Rightarrow> \<exists>v. val_at s (l_right t) = Some v \<and> st = Effected (l_op t) v
      | _ \<Rightarrow> if l_done t then st = Effected (l_op t) (l_ret t) else \<exists>S. st = Pending (l_op t) S \<and> M \<in> S)"

definition thread_inv ::
  "nat \<Rightarrow> 'a mem_scheme \<Rightarrow> (ptr \<Rightarrow> l_place option) \<Rightarrow> (skey_t \<rightharpoonup> sval_t) \<Rightarrow> l_thread \<Rightarrow> a_status \<Rightarrow> bool" where
  "thread_inv i s loc M t st \<longleftrightarrow> op_ok t \<and> refs_ok s loc t \<and> pc_ok i s loc t st \<and> status_ok s M t st"

definition list_inv :: "list_sys \<Rightarrow> (ptr \<Rightarrow> l_place option) \<Rightarrow> ptr list \<Rightarrow> (nat \<Rightarrow> a_status) \<Rightarrow> bool" where
  "list_inv s loc ps st \<longleftrightarrow>
     mem_ok s ps loc \<and>
     (\<forall>i < length (l_threads s). thread_inv i s loc (contents s ps) (l_threads s ! i) (st i)) \<and>
     (\<forall>i \<ge> length (l_threads s). st i = A_idle)"

section \<open>What the steps of the other threads leave alone\<close>

text \<open>Held nodes stay published, keep key and value, and once marked also the next pointer; whoever marks
  one takes its key out of the map.\<close>

definition settled ::
  "'a mem_scheme \<Rightarrow> (ptr \<Rightarrow> l_place option) \<Rightarrow> 'a mem_scheme \<Rightarrow> (ptr \<Rightarrow> l_place option) \<Rightarrow> (skey_t \<rightharpoonup> sval_t) \<Rightarrow> ptr \<Rightarrow> bool" where
  "settled s loc s' loc' M' p \<longleftrightarrow>
     (published loc p \<longrightarrow> published loc' p \<and> key_at s' p = key_at s p \<and> val_at s' p = val_at s p \<and>
        (dead s p \<longrightarrow> load_next p s' = load_next p s) \<and>
        (\<not> dead s p \<longrightarrow> dead s' p \<longrightarrow> (\<forall>k. key_at s p = Some k \<longrightarrow> M' k = None)))"

definition owned ::
  "nat \<Rightarrow> 'a mem_scheme \<Rightarrow> (ptr \<Rightarrow> l_place option) \<Rightarrow> 'a mem_scheme \<Rightarrow> (ptr \<Rightarrow> l_place option) \<Rightarrow> bool" where
  "owned i s loc s' loc' \<longleftrightarrow>
     (\<forall>p. loc p = Some (Private i) \<longrightarrow> loc' p = loc p \<and> nodes s' p = nodes s p) \<and>
     (\<forall>p. loc p = Some (Unlinked i) \<longrightarrow> loc' p = loc p)"

lemma dead_load: "dead s p \<longleftrightarrow> (\<exists>x. load_next p s = Some x \<and> is_marked_ref x)"
  by (simp add: dead_def split: option.splits)

lemma at_nodes: "nodes s' p = nodes s p \<Longrightarrow> load_next p s' = load_next p s \<and> key_at s' p = key_at s p \<and> val_at s' p = val_at s p"
  by (simp add: load_next_def key_at_def val_at_def)

lemma thread_inv_env:
  assumes t: "thread_inv j s loc M t st" and s: "\<forall>p \<in> holds t. settled s loc s' loc' M' p" and o: "owned j s loc s' loc'"
  shows "thread_inv j s' loc' M' t (see M' st)"
proof -
  have left: "l_pc t \<notin> {Idle, At_head, Response} \<Longrightarrow> settled s loc s' loc' M' (l_left t)"
    and right: "l_pc t \<notin> {Idle, At_head, Response, Check} \<Longrightarrow> settled s loc s' loc' M' (l_right t)"
    using s by (auto simp: holds_def split: if_splits)
  have pub: "l_pc t \<notin> {Idle, At_head, Response, Check} \<Longrightarrow> published loc (l_right t)"
    using t by (auto simp: thread_inv_def refs_ok_def)
  note r = right [unfolded settled_def, rule_format, OF _ pub]
  have "refs_ok s' loc' t"
    using t left right by (fastforce simp: thread_inv_def refs_ok_def settled_def)
  moreover have "status_ok s' M' t (see M' st)"
    using t r by (cases "l_pc t") (auto simp: thread_inv_def status_ok_def)
  moreover have "pc_ok j s' loc' t (see M' st)"
  proof (cases "l_pc t")
    case Read
    then obtain k where k: "key_at s (l_right t) = Some k" "k < op_key (l_op t) \<or> k = op_key (l_op t) \<and> \<not> dead s (l_right t) \<or> absent t st"
      using t by (auto simp: thread_inv_def pc_ok_def Let_def)
    have st: "l_done t \<or> (\<exists>S. st = Pending (l_op t) S \<and> M \<in> S)"
      using t Read by (auto simp: thread_inv_def status_ok_def split: if_splits)
    have "absent t st \<Longrightarrow> absent t (see M' st)" by (auto simp: absent_def)
    moreover have "k = op_key (l_op t) \<Longrightarrow> \<not> dead s (l_right t) \<Longrightarrow> dead s' (l_right t) \<Longrightarrow> absent t (see M' st)"
      using r Read k(1) st by (auto simp: absent_def)
    ultimately show ?thesis using r Read k by (auto simp: pc_ok_def Let_def)
  next
    case Link
    then have "loc (l_new t) = Some (Private j)" using t by (simp add: thread_inv_def pc_ok_def Let_def)
    then have n: "loc' (l_new t) = loc (l_new t)" "nodes s' (l_new t) = nodes s (l_new t)" using o by (simp_all add: owned_def)
    show ?thesis using t r Link at_nodes [OF n(2)] n(1) by (simp add: thread_inv_def pc_ok_def Let_def)
  next
    case Hand_over
    then show ?thesis using t o by (simp add: thread_inv_def pc_ok_def Let_def owned_def)
  qed (use t r in \<open>simp_all add: thread_inv_def pc_ok_def Let_def dead_def\<close>)
  ultimately show ?thesis using t by (simp add: thread_inv_def)
qed

lemma see_same: "status_ok s M t st \<Longrightarrow> see M st = st"
  by (cases "l_pc t") (auto simp: status_ok_def insert_absorb split: if_splits)

section \<open>The chain\<close>

lemma chain_split:
  assumes ok: "list_ok m head ps" and l: "l \<in> set (head # ps)" "load_next l m = Some r" "get_unmarked_ref r = r" "r \<noteq> NULL"
  shows "\<exists>done post. ps = done @ r # post \<and> last (head # done) = l"
proof -
  obtain A B where AB: "head # ps = A @ l # B" using split_list [OF l(1)] by blast
  have ne: "ps \<noteq> []" "load_next (last ps) m = Some NULL" using ok by (simp_all add: list_ok_def)
  have "B \<noteq> []"
  proof
    assume "B = []"
    then have "last (head # ps) = l" using AB by simp
    then show False using ne l by simp
  qed
  then obtain q post where B: "B = q # post" by (cases B) auto
  have "successively (linked m) (A @ l # q # post)" using ok AB B by (simp add: list_ok_def)
  then have "linked m l q" by (simp add: successively_append_iff)
  then have q: "q = r" using l(2,3) by (simp add: linked_def)
  show ?thesis
  proof (cases A)
    case Nil
    then show ?thesis using AB B q by (intro exI [of _ "[]"] exI [of _ post]) simp
  next
    case (Cons a A')
    then show ?thesis using AB B q by (intro exI [of _ "A' @ [l]"] exI [of _ post]) simp
  qed
qed

lemma chain_below:
  assumes ok: "list_ok m head (done @ r # post)" and l: "key_at m (last (head # done)) = Some kl" "kl < k"
  shows "\<forall>q \<in> set done. the (key_at m q) < k"
proof (cases "done" rule: rev_cases)
  case (snoc A x)
  then have "key_at m x = Some kl" using l by simp
  moreover have "\<forall>q \<in> set A. key_less m q x" using ok snoc by (simp add: list_ok_def sorted_wrt_append)
  ultimately show ?thesis using snoc l(2) by (auto simp: key_less_def)
qed simp

lemma contents_gap:
  assumes ok: "list_ok m head (done @ r # post)" and b: "\<forall>q \<in> set done. the (key_at m q) < k" "k < the (key_at m r)"
  shows "contents m (done @ r # post) k = None"
proof (rule ccontr)
  assume "contents m (done @ r # post) k \<noteq> None"
  then obtain q where q: "q \<in> set (butlast (done @ r # post))" "key_at m q = Some k"
    using contents_Some [OF ok] by blast
  have "q \<in> set (done @ r # post)" using q(1) by (rule in_set_butlastD)
  moreover have "\<forall>x \<in> set post. key_less m r x" using ok by (simp add: list_ok_def sorted_wrt_append)
  ultimately show False using q(2) b by (auto simp: key_less_def)
qed

lemma contents_live:
  assumes ok: "list_ok m head ps" and r: "r \<in> set ps" "\<not> dead m r" "key_at m r = Some k" "val_at m r = Some v" "k < KEY_MAX"
  shows "contents m ps k = Some v" "r \<in> set (butlast ps)"
proof -
  have "ps \<noteq> []" "key_at m (last ps) = Some KEY_MAX" using ok by (simp_all add: list_ok_def)
  then have "r \<noteq> last ps" "ps = butlast ps @ [last ps]" using r(3,5) by auto
  then show b: "r \<in> set (butlast ps)" using r(1) by (metis Un_iff empty_iff insert_iff list.set(1) list.set(2) set_append)
  then show "contents m ps k = Some v" using contents_Some [OF ok] r by blast
qed

lemma contents_dead:
  assumes ok: "list_ok m head ps" and r: "r \<in> set ps" "dead m r" "key_at m r = Some k"
  shows "contents m ps k = None"
proof (rule ccontr)
  assume "contents m ps k \<noteq> None"
  then obtain q where q: "q \<in> set (butlast ps)" "\<not> dead m q" "key_at m q = Some k"
    using contents_Some [OF ok] by blast
  have "q \<in> set ps" using q(1) by (rule in_set_butlastD)
  then have "q = r" using inj_onD [OF list_ok_keys(2) [OF ok], of q r] q(3) r by simp
  then show False using q(2) r(2) by simp
qed

section \<open>Consequences of the invariant\<close>

lemma mem_okD:
  assumes "mem_ok s ps loc"
  shows "list_ok s (l_head s) ps" "key_at s (l_head s) = Some KEY_MIN"
    "p \<in> set (l_head s # ps) \<longleftrightarrow> loc p = Some In_chain" "p \<in> set (l_unused s) \<longleftrightarrow> loc p = Some Is_unused"
    "p \<in> set (l_retired s) \<longleftrightarrow> loc p = Some Is_retired" "distinct (l_retired s)"
    "loc p \<noteq> None \<Longrightarrow> p \<noteq> NULL" "loc p \<noteq> None \<Longrightarrow> get_unmarked_ref p = p" "loc p \<noteq> None \<Longrightarrow> \<exists>n. nodes s p = Some n"
    "published loc p \<Longrightarrow> \<not> dead s p \<Longrightarrow> loc p = Some In_chain"
  using assms unfolding mem_ok_def by blast+

lemma published_loc: "published loc p \<Longrightarrow> loc p \<noteq> None"
  by (auto simp: published_def)

text \<open>A validated pair is adjacent in the chain.\<close>

lemma adjacent:
  assumes m: "mem_ok s ps loc" and l: "published loc l" "load_next l s = Some r" "get_unmarked_ref r = r"
    and k: "key_at s l = Some kl" "kl < k" "k < KEY_MAX"
  shows "\<exists>done post. ps = done @ r # post \<and> last (l_head s # done) = l \<and> (\<forall>q \<in> set done. the (key_at s q) < k)"
    "\<not> dead s l" "loc r = Some In_chain" "loc l = Some In_chain"
proof -
  note ok = mem_okD(1) [OF m]
  show nd: "\<not> dead s l" using l(2,3) by (simp add: dead_load unmarked_iff)
  show lc: "loc l = Some In_chain" by (rule mem_okD(10) [OF m l(1) nd])
  then have lin: "l \<in> set (l_head s # ps)" using mem_okD(3) [OF m] by blast
  have "r \<noteq> NULL"
  proof
    assume r: "r = NULL"
    have ne: "ps \<noteq> []" "key_at s (last ps) = Some KEY_MAX" using ok by (simp_all add: list_ok_def)
    then have "l \<noteq> last (l_head s # ps)" using k by auto
    then obtain A q B where "l_head s # ps = A @ l # q # B"
      using split_list [OF lin] by (metis last_snoc neq_Nil_conv)
    then have "linked s l q" "q \<in> set (l_head s # ps)" "NULL \<notin> set (l_head s # ps)"
      using ok by (auto simp: list_ok_def successively_append_iff)
    then show False using l(2) r by (auto simp: linked_def)
  qed
  from chain_split [OF ok lin l(2,3) this] obtain A B where AB: "ps = A @ r # B" "last (l_head s # A) = l" by blast
  have "\<forall>q \<in> set A. the (key_at s q) < k" by (rule chain_below [OF ok [unfolded AB(1)]]) (use AB(2) k in simp_all)
  then show "\<exists>done post. ps = done @ r # post \<and> last (l_head s # done) = l \<and> (\<forall>q \<in> set done. the (key_at s q) < k)"
    using AB by blast
  show "loc r = Some In_chain" using mem_okD(3) [OF m, of r] AB(1) by simp
qed


section \<open>Frames\<close>

lemma list_invD:
  assumes "list_inv s loc ps st"
  shows "mem_ok s ps loc" "i < length (l_threads s) \<Longrightarrow> thread_inv i s loc (contents s ps) (l_threads s ! i) (st i)"
    "length (l_threads s) \<le> i \<Longrightarrow> st i = A_idle"
  using assms by (simp_all add: list_inv_def)

lemma thread_invD:
  assumes "thread_inv i s loc M t st"
  shows "op_ok t" "refs_ok s loc t" "pc_ok i s loc t st" "status_ok s M t st"
  using assms by (simp_all add: thread_inv_def)

text \<open>A step of thread i that changes the memory.\<close>

lemma list_inv_step:
  assumes inv: "list_inv s loc ps st" and i: "i < length (l_threads s)"
    and th: "l_threads s' = (l_threads s)[i := t']" and m: "mem_ok s' ps' loc'"
    and others: "\<And>j. j < length (l_threads s) \<Longrightarrow> j \<noteq> i \<Longrightarrow>
      (\<forall>p \<in> holds (l_threads s ! j). settled s loc s' loc' (contents s' ps') p) \<and> owned j s loc s' loc'"
    and me: "thread_inv i s' loc' (contents s' ps') t' sti"
  shows "list_inv s' loc' ps' ((see (contents s' ps') \<circ> st)(i := sti))"
proof -
  have "thread_inv j s' loc' (contents s' ps') (l_threads s' ! j) (((see (contents s' ps') \<circ> st)(i := sti)) j)"
    if j: "j < length (l_threads s')" for j
  proof (cases "j = i")
    case True then show ?thesis using me th i by simp
  next
    case False
    have j': "j < length (l_threads s)" using j th by simp
    have "thread_inv j s' loc' (contents s' ps') (l_threads s ! j) (see (contents s' ps') (st j))"
      by (rule thread_inv_env [OF list_invD(2) [OF inv j']]) (use others [OF j' False] in blast)+
    then show ?thesis using False th by simp
  qed
  moreover have "((see (contents s' ps') \<circ> st)(i := sti)) j = A_idle" if "length (l_threads s') \<le> j" for j
    using list_invD(3) [OF inv, of j] that i th by simp
  ultimately show ?thesis using m by (simp add: list_inv_def)
qed

lemma see_others:
  assumes inv: "list_inv s loc ps st"
  shows "(see (contents s ps) \<circ> st)(i := sti) = st(i := sti)"
proof (rule ext)
  fix j
  have "see (contents s ps) (st j) = st j"
  proof (cases "j < length (l_threads s)")
    case True
    then show ?thesis using see_same [OF thread_invD(4) [OF list_invD(2) [OF inv True]]] by simp
  next
    case False then show ?thesis using list_invD(3) [OF inv, of j] by simp
  qed
  then show "((see (contents s ps) \<circ> st)(i := sti)) j = (st(i := sti)) j" by simp
qed

lemma list_inv_step_same:
  assumes inv: "list_inv s loc ps st" and i: "i < length (l_threads s)"
    and th: "l_threads s' = (l_threads s)[i := t']" and m: "mem_ok s' ps' loc'"
    and M: "contents s' ps' = contents s ps"
    and others: "\<And>j. j < length (l_threads s) \<Longrightarrow> j \<noteq> i \<Longrightarrow>
      (\<forall>p \<in> holds (l_threads s ! j). settled s loc s' loc' (contents s' ps') p) \<and> owned j s loc s' loc'"
    and me: "thread_inv i s' loc' (contents s' ps') t' sti"
  shows "list_inv s' loc' ps' (st(i := sti))"
  using list_inv_step [OF inv i th m others me] unfolding M see_others [OF inv] by blast

text \<open>Only the nodes count.\<close>

lemma nodes_same:
  assumes "nodes s' = nodes s"
  shows "load_next p s' = load_next p s" "key_at s' p = key_at s p" "val_at s' p = val_at s p" "dead s' p = dead s p"
    "contents s' ps = contents s ps" "list_ok s' h ps = list_ok s h ps"
proof -
  show a: "load_next p s' = load_next p s" "key_at s' p = key_at s p" "val_at s' p = val_at s p" for p
    using assms by (simp_all add: load_next_def key_at_def val_at_def)
  then show "dead s' p = dead s p" by (simp add: dead_def)
  have k: "key_less s' = key_less s" "linked s' = linked s" "dead s' = dead s"
    using a by (simp_all add: key_less_def linked_def dead_def fun_eq_iff)
  show "contents s' ps = contents s ps" "list_ok s' h ps = list_ok s h ps"
    unfolding contents_def list_ok_def a k by (rule refl)+
qed

lemma thread_inv_nodes:
  assumes "nodes s' = nodes s"
  shows "thread_inv i s' loc M t st = thread_inv i s loc M t st"
  using nodes_same(1-4) [OF assms] by (simp add: thread_inv_def refs_ok_def pc_ok_def status_ok_def cong: l_pc.case_cong)

lemma upd_l_sel [simp]:
  "nodes (upd_l i f s) = nodes s" "l_head (upd_l i f s) = l_head s" "l_unused (upd_l i f s) = l_unused s"
  "l_retired (upd_l i f s) = l_retired s" "l_threads (upd_l i f s) = (l_threads s)[i := f (l_threads s ! i)]"
  by (simp_all add: upd_l_def)

lemma mem_ok_upd_l [simp]: "mem_ok (upd_l i f s) ps loc = mem_ok s ps loc"
proof -
  have n: "nodes (upd_l i f s) = nodes s" by simp
  show ?thesis unfolding mem_ok_def nodes_same [OF n] by simp
qed

lemma settled_nodes: "nodes s' = nodes s \<Longrightarrow> settled s loc s' loc M' p"
  using nodes_same(1-4) [of s' s] by (simp add: settled_def)

text \<open>A step that only changes thread i.\<close>

lemma list_inv_local:
  assumes inv: "list_inv s loc ps st" and i: "i < length (l_threads s)"
    and me: "thread_inv i s loc (contents s ps) (f (l_threads s ! i)) sti"
  shows "list_inv (upd_l i f s) loc ps (st(i := sti))" "contents (upd_l i f s) ps = contents s ps"
proof -
  have n: "nodes (upd_l i f s) = nodes s" by simp
  show c: "contents (upd_l i f s) ps = contents s ps" by (rule nodes_same(5) [OF n])
  show "list_inv (upd_l i f s) loc ps (st(i := sti))"
  proof (rule list_inv_step_same [OF inv i _ _ c])
    show "mem_ok (upd_l i f s) ps loc" using list_invD(1) [OF inv] by simp
    show "thread_inv i (upd_l i f s) loc (contents (upd_l i f s) ps) (f (l_threads s ! i)) sti"
      unfolding c thread_inv_nodes [OF n] by (rule me)
    show "(\<forall>p \<in> holds (l_threads s ! j). settled s loc (upd_l i f s) loc (contents (upd_l i f s) ps) p) \<and>
        owned j s loc (upd_l i f s) loc" for j
      using settled_nodes [OF n] by (simp add: owned_def)
  qed simp
qed


section \<open>Steps of the code that leave the memory alone\<close>

lemmas thread_defs = thread_inv_def op_ok_def refs_ok_def pc_ok_def status_ok_def Let_def

lemma published_reads:
  assumes "mem_ok s ps loc" "loc p \<noteq> None"
  obtains x k v n where "load_next p s = Some x" "key_at s p = Some k" "val_at s p = Some v" "nodes s p = Some n"
    "n_next n = x" "n_key n = k" "n_val n = v"
  using mem_okD(9) [OF assms] that by (auto simp: load_next_def key_at_def val_at_def)

lemma step_at_head:
  assumes m: "mem_ok s ps loc" and t: "thread_inv i s loc (contents s ps) t st" and pc: "l_pc t = At_head"
  shows "\<exists>first. load_next (l_head s) s = Some first \<and>
    thread_inv i s loc (contents s ps) (t\<lparr>l_left := l_head s, l_right := first, l_pc := Check\<rparr>) st"
proof -
  have h: "loc (l_head s) = Some In_chain" using mem_okD(3) [OF m, of "l_head s"] by simp
  have "loc (l_head s) \<noteq> None" using h by simp
  then obtain first where f: "load_next (l_head s) s = Some first" by (rule published_reads [OF m]) blast
  have "\<not> dead s (l_head s)" using mem_okD(1) [OF m] by (simp add: list_ok_def)
  then have "get_unmarked_ref first = first" using f by (simp add: dead_load unmarked_iff)
  then have "thread_inv i s loc (contents s ps) (t\<lparr>l_left := l_head s, l_right := first, l_pc := Check\<rparr>) st"
    using t pc h mem_okD(2) [OF m] by (auto simp: thread_defs published_def)
  then show ?thesis using f by blast
qed

lemma step_check:
  assumes m: "mem_ok s ps loc" and t: "thread_inv i s loc (contents s ps) t st" and pc: "l_pc t = Check"
  shows "\<exists>ln. load_next (l_left t) s = Some ln \<and>
    thread_inv i s loc (contents s ps) (to (if l_right t \<noteq> ln then At_head else Read) t) st"
proof -
  let ?key = "op_key (l_op t)"
  obtain kl where l: "published loc (l_left t)" "key_at s (l_left t) = Some kl" "kl < ?key" "?key < KEY_MAX"
      "get_unmarked_ref (l_right t) = l_right t"
    using t pc by (auto simp: thread_defs)
  obtain ln where ln: "load_next (l_left t) s = Some ln" by (rule published_reads [OF m published_loc [OF l(1)]]) blast
  show ?thesis
  proof (cases "l_right t = ln")
    case False
    then show ?thesis using t pc ln by (auto simp: thread_defs)
  next
    case True
    have lr: "load_next (l_left t) s = Some (l_right t)" using ln True by simp
    note a = adjacent [OF m l(1) lr l(5,2,3,4)]
    obtain A B where AB: "ps = A @ l_right t # B" "\<forall>q \<in> set A. the (key_at s q) < ?key" using a(1) by blast
    have "loc (l_right t) \<noteq> None" using a(3) by simp
    then obtain k where k: "key_at s (l_right t) = Some k" by (rule published_reads [OF m]) blast
    have st: "l_done t \<or> (\<exists>S. st = Pending (l_op t) S \<and> contents s ps \<in> S)"
      using t pc by (auto simp: thread_defs split: if_splits)
    have gap: "k > ?key \<Longrightarrow> contents s ps ?key = None"
      using contents_gap [of s "l_head s" A "l_right t" B ?key] mem_okD(1) [OF m] AB k by simp
    have "k = ?key \<Longrightarrow> dead s (l_right t) \<Longrightarrow> contents s ps ?key = None"
      using contents_dead [OF mem_okD(1) [OF m], of "l_right t" ?key] AB(1) k by simp
    then have "k < ?key \<or> k = ?key \<and> \<not> dead s (l_right t) \<or> absent t st"
      using gap st unfolding absent_def by (cases k ?key rule: linorder_cases) auto
    then have "thread_inv i s loc (contents s ps) (to Read t) st"
      using t pc k a(3) by (auto simp: thread_defs published_def absent_def)
    then show ?thesis using ln True by simp
  qed
qed

lemma step_advance:
  assumes m: "mem_ok s ps loc" and t: "thread_inv i s loc (contents s ps) t st" and pc: "l_pc t = Advance"
  shows "\<exists>x. load_next (l_right t) s = Some x \<and>
    thread_inv i s loc (contents s ps) (t\<lparr>l_right := get_unmarked_ref x, l_pc := Check\<rparr>) st"
proof -
  have "published loc (l_right t)" using t pc by (simp add: thread_defs)
  then obtain x where "load_next (l_right t) s = Some x" by (rule published_reads [OF m published_loc]) blast
  then show ?thesis using t pc by (auto simp: thread_defs)
qed

lemma step_new_next:
  assumes m: "mem_ok s ps loc" and t: "thread_inv i s loc (contents s ps) t st" and pc: "l_pc t = New_next"
  shows "\<exists>x. load_next (l_right t) s = Some x \<and>
    thread_inv i s loc (contents s ps) (t\<lparr>l_new := get_unmarked_ref x, l_pc := Unlink\<rparr>) st"
proof -
  have "published loc (l_right t)" using t pc by (simp add: thread_defs)
  then obtain x where "load_next (l_right t) s = Some x" by (rule published_reads [OF m published_loc]) blast
  then show ?thesis using t pc by (auto simp: thread_defs)
qed

lemma step_get_next:
  assumes m: "mem_ok s ps loc" and t: "thread_inv i s loc (contents s ps) t st" and pc: "l_pc t = Get_next"
  shows "\<exists>x. load_next (l_right t) s = Some x \<and>
    thread_inv i s loc (contents s ps) (t\<lparr>l_new := get_unmarked_ref x, l_pc := Mark\<rparr>) st"
proof -
  have "published loc (l_right t)" using t pc by (simp add: thread_defs)
  then obtain x where "load_next (l_right t) s = Some x" by (rule published_reads [OF m published_loc]) blast
  then show ?thesis using t pc by (auto simp: thread_defs)
qed

lemma step_value:
  assumes m: "mem_ok s ps loc" and t: "thread_inv i s loc (contents s ps) t st" and pc: "l_pc t = Value"
  shows "\<exists>n. nodes s (l_right t) = Some n \<and>
    thread_inv i s loc (contents s ps) (t\<lparr>l_ret := n_val n, l_site := True, l_pc := New_next\<rparr>) st"
proof -
  have "published loc (l_right t)" using t pc by (simp add: thread_defs)
  then obtain n where n: "nodes s (l_right t) = Some n" by (rule published_reads [OF m published_loc]) blast
  then have "val_at s (l_right t) = Some (n_val n)" by (simp add: val_at_def)
  then show ?thesis using t pc n by (auto simp: thread_defs)
qed

lemma chain_value:
  assumes m: "mem_ok s ps loc" and r: "published loc r" "\<not> dead s r" "key_at s r = Some k" "KEY_MIN < k" "k < KEY_MAX"
  shows "\<exists>v. val_at s r = Some v \<and> contents s ps k = Some v"
proof -
  have c: "loc r = Some In_chain" by (rule mem_okD(10) [OF m r(1,2)])
  then have "r \<in> set (l_head s # ps)" using mem_okD(3) [OF m] by blast
  moreover have "r \<noteq> l_head s" using mem_okD(2) [OF m] r(3,4) by auto
  ultimately have "r \<in> set ps" by simp
  moreover obtain v where "val_at s r = Some v" by (rule published_reads [OF m published_loc [OF r(1)]]) blast
  ultimately show ?thesis using contents_live(1) [OF mem_okD(1) [OF m]] r by blast
qed

lemma thread_respond:
  assumes "thread_inv i s loc M t st" "l_pc t \<noteq> Idle" "st = Pending (l_op t) S" "M \<in> S" "N \<in> S" "map_step (l_op t) N = (r, N)"
  shows "thread_inv i s loc M (t\<lparr>l_ret := r, l_pc := Response\<rparr>) st"
  using assms(1,2) unfolding thread_defs
  by (simp del: map_step.simps) (use assms(3-6) in blast)

text \<open>Reading \<open>right_node\<close>. This is where failing operations get their results.\<close>

lemma step_read:
  assumes m: "mem_ok s ps loc" and t: "thread_inv i s loc (contents s ps) t st" and pc: "l_pc t = Read"
  shows "\<exists>n. nodes s (l_right t) = Some n \<and> thread_inv i s loc (contents s ps) (after_read n t (l_op t)) st"
proof -
  let ?key = "op_key (l_op t)" and ?M = "contents s ps"
  have r: "published loc (l_right t)" and key: "KEY_MIN < ?key" "?key < KEY_MAX" using t pc by (simp_all add: thread_defs)
  obtain n where n: "nodes s (l_right t) = Some n" by (rule published_reads [OF m published_loc [OF r]]) blast
  have k: "key_at s (l_right t) = Some (n_key n)" "load_next (l_right t) s = Some (n_next n)" "val_at s (l_right t) = Some (n_val n)"
    using n by (simp_all add: key_at_def load_next_def val_at_def)
  have d: "dead s (l_right t) \<longleftrightarrow> is_marked_ref (n_next n)" using k(2) by (simp add: dead_load)
  have st: "if l_done t then st = Effected (l_op t) (l_ret t) else \<exists>S. st = Pending (l_op t) S \<and> ?M \<in> S"
    using t pc by (simp add: thread_defs)
  have ab: "n_key n < ?key \<or> n_key n = ?key \<and> \<not> dead s (l_right t) \<or> absent t st"
    using t pc k by (simp add: thread_defs)
  have live: "?M ?key = Some (n_val n)" if "n_key n = ?key" "\<not> dead s (l_right t)"
    using chain_value [OF m r that(2)] k that(1) key by simp
  have op: "l_done t \<Longrightarrow> \<exists>k. l_op t = Set_Remove k" using t by (simp add: thread_defs)
  have "thread_inv i s loc ?M (after_read n t (l_op t)) st"
  proof (cases "l_op t")
    case (Set_Contains key')
    then have nd: "\<not> l_done t" using op by auto
    then obtain S where S: "st = Pending (l_op t) S" "?M \<in> S" using st by auto
    show ?thesis
    proof (cases "n_key n < key'")
      case True
      then show ?thesis using t pc Set_Contains k r by (auto simp: thread_defs)
    next
      case False
      have "\<exists>N. N \<in> S \<and> map_step (l_op t) N = (if n_key n = key' \<and> \<not> is_marked_ref (n_next n) then n_val n else 0, N)"
      proof (cases "n_key n = key' \<and> \<not> is_marked_ref (n_next n)")
        case True
        then show ?thesis using live d S Set_Contains by (intro exI [of _ ?M]) (simp add: answer_def)
      next
        case nf: False
        then have "absent t st" using ab d False Set_Contains by auto
        then show ?thesis using S nd nf Set_Contains unfolding absent_def by (auto simp: answer_def)
      qed
      then obtain N where "N \<in> S"
        "map_step (l_op t) N = (if n_key n = key' \<and> \<not> is_marked_ref (n_next n) then n_val n else 0, N)" by blast
      from thread_respond [OF t _ S this] show ?thesis using pc Set_Contains False by simp
    qed
  next
    case (Set_Add key' v)
    then have nd: "\<not> l_done t" using op by auto
    then obtain S where S: "st = Pending (l_op t) S" "?M \<in> S" using st by auto
    show ?thesis
    proof (cases "is_marked_ref (n_next n)")
      case True
      then show ?thesis using t pc Set_Add d nd by (auto simp: thread_defs)
    next
      case nm: False
      show ?thesis
      proof (cases "n_key n" key' rule: linorder_cases)
        case less
        then show ?thesis using t pc Set_Add k r nm nd by (auto simp: thread_defs)
      next
        case equal
        then have "map_step (l_op t) ?M = (0, ?M)" using live d nm Set_Add by simp
        from thread_respond [OF t _ S S(2) this] show ?thesis using pc Set_Add nm equal nd by simp
      next
        case greater
        then show ?thesis using t pc Set_Add k nm nd by (auto simp: thread_defs)
      qed
    qed
  next
    case (Set_Remove key')
    show ?thesis
    proof (cases "is_marked_ref (n_next n)")
      case True
      then show ?thesis using t pc Set_Remove d by (auto simp: thread_defs)
    next
      case nm: False
      show ?thesis
      proof (cases "n_key n < key'")
        case True
        then show ?thesis using t pc Set_Remove k r nm by (auto simp: thread_defs)
      next
        case ge: False
        show ?thesis
        proof (cases "l_done t")
          case True
          then show ?thesis using t pc Set_Remove nm ge st by (auto simp: thread_defs)
        next
          case nd: False
          then obtain S where S: "st = Pending (l_op t) S" "?M \<in> S" using st by auto
          show ?thesis
          proof (cases "n_key n = key'")
            case True
            then show ?thesis using t pc Set_Remove nm nd k by (auto simp: thread_defs)
          next
            case ne: False
            then have "absent t st" using ab ge Set_Remove by auto
            then obtain N where "N \<in> S" "N key' = None" using S nd Set_Remove unfolding absent_def by auto
            then have "N \<in> S" "map_step (l_op t) N = (0, N)" using Set_Remove by (simp_all add: answer_def fun_upd_idem)
            from thread_respond [OF t _ S this] show ?thesis using pc Set_Remove nm ge nd ne by simp
          qed
        qed
      qed
    qed
  qed
  then show ?thesis using n by blast
qed


section \<open>Compare-and-swap\<close>

definition wrote :: "list_sys \<Rightarrow> list_sys \<Rightarrow> ptr \<Rightarrow> ptr \<Rightarrow> bool" where
  "wrote s s1 l x \<longleftrightarrow>
     relinked s s1 l x UNIV \<and> s1 = s\<lparr>nodes := nodes s1\<rparr> \<and> (\<forall>p. p \<noteq> l \<longrightarrow> nodes s1 p = nodes s p) \<and> nodes s1 l \<noteq> None"

lemma cas_next_done:
  assumes "load_next l s = Some old"
  obtains s1 where "cas_next l old new s = Some (old, s1)" "wrote s s1 l new"
proof -
  obtain n where n: "nodes s l = Some n" "n_next n = old" using assms by (auto simp: load_next_def)
  show ?thesis
    by (rule that [of "s\<lparr>nodes := (nodes s)(l \<mapsto> n\<lparr>n_next := new\<rparr>)\<rparr>"])
      (auto simp: n cas_next_def wrote_def relinked_def load_next_def key_at_def val_at_def)
qed

lemma cas_next_failed: "load_next l s = Some x \<Longrightarrow> x \<noteq> old \<Longrightarrow> cas_next l old new s = Some (x, s)"
  by (auto simp: load_next_def cas_next_def)

lemma wrote_sel:
  assumes "wrote s s1 l x"
  shows "l_head s1 = l_head s" "l_threads s1 = l_threads s" "l_unused s1 = l_unused s" "l_retired s1 = l_retired s"
    "relinked s s1 l x S" "key_at s1 p = key_at s p" "val_at s1 p = val_at s p" "p \<noteq> l \<Longrightarrow> nodes s1 p = nodes s p"
    "p \<noteq> l \<Longrightarrow> load_next p s1 = load_next p s" "load_next l s1 = Some x" "p \<noteq> l \<Longrightarrow> dead s1 p = dead s p"
    "dead s1 l = is_marked_ref x" "nodes s p \<noteq> None \<Longrightarrow> nodes s1 p \<noteq> None"
proof -
  have s1: "s1 = s\<lparr>nodes := nodes s1\<rparr>" using assms by (simp add: wrote_def)
  show "l_head s1 = l_head s" "l_threads s1 = l_threads s" "l_unused s1 = l_unused s" "l_retired s1 = l_retired s"
    by (subst s1, simp)+
  show r: "relinked s s1 l x S" for S using assms by (simp add: wrote_def relinked_def)
  show "key_at s1 p = key_at s p" "val_at s1 p = val_at s p" "p \<noteq> l \<Longrightarrow> load_next p s1 = load_next p s" "load_next l s1 = Some x"
    using r [of UNIV] by (simp_all add: relinked_def)
  show "p \<noteq> l \<Longrightarrow> nodes s1 p = nodes s p" using assms by (simp add: wrote_def)
  show "p \<noteq> l \<Longrightarrow> dead s1 p = dead s p" by (rule relinked_other(1) [OF r [of UNIV]]) simp
  show "dead s1 l = is_marked_ref x" by (rule relinked_self(1) [OF r])
  show "nodes s p \<noteq> None \<Longrightarrow> nodes s1 p \<noteq> None" using assms by (cases "p = l") (auto simp: wrote_def)
qed

lemma settled_wrote:
  assumes w: "wrote s s1 l x" and nd: "\<not> dead s l" and pub: "published loc p \<Longrightarrow> published loc' p"
    and marks: "\<And>k. is_marked_ref x \<Longrightarrow> key_at s l = Some k \<Longrightarrow> M' k = None"
  shows "settled s loc s1 loc' M' p"
proof (cases "p = l")
  case True
  then show ?thesis using wrote_sel(6,7,12) [OF w] nd pub marks by (auto simp: settled_def)
next
  case False
  then show ?thesis using wrote_sel(6,7,9,11) [OF w] pub by (simp add: settled_def)
qed

text \<open>The memory of a state whose threads and free lists have changed too.\<close>

lemma mem_okI:
  assumes "list_ok s (l_head s) ps" "key_at s (l_head s) = Some KEY_MIN"
    "\<And>p. p \<in> set (l_head s # ps) \<longleftrightarrow> loc p = Some In_chain" "\<And>p. p \<in> set (l_unused s) \<longleftrightarrow> loc p = Some Is_unused"
    "\<And>p. p \<in> set (l_retired s) \<longleftrightarrow> loc p = Some Is_retired" "distinct (l_retired s)"
    "\<And>p. loc p \<noteq> None \<Longrightarrow> p \<noteq> NULL \<and> get_unmarked_ref p = p \<and> nodes s p \<noteq> None"
    "\<And>p. loc p \<noteq> Some In_chain \<Longrightarrow> published loc p \<Longrightarrow> dead s p"
  shows "mem_ok s ps loc"
  unfolding mem_ok_def using assms by blast

lemma mem_ok_loc:
  assumes "mem_ok s ps loc" "loc p \<noteq> None"
  shows "p \<noteq> NULL \<and> get_unmarked_ref p = p \<and> nodes s p \<noteq> None"
  using assms unfolding mem_ok_def by blast

lemma mem_ok_dead: "mem_ok s ps loc \<Longrightarrow> published loc p \<Longrightarrow> loc p \<noteq> Some In_chain \<Longrightarrow> dead s p"
  unfolding mem_ok_def by blast

lemma mem_ok_wrote:
  assumes m: "mem_ok s ps loc" and w: "wrote s s1 l x" and l: "loc l = Some In_chain" and ok: "list_ok s1 (l_head s) ps'"
    and loc': "\<And>p. p \<in> set (l_head s # ps') \<longleftrightarrow> loc' p = Some In_chain" "loc' l = Some In_chain"
    "\<And>p. loc' p = Some Is_unused \<longleftrightarrow> loc p = Some Is_unused" "\<And>p. loc' p = Some Is_retired \<longleftrightarrow> loc p = Some Is_retired"
    "\<And>p. loc' p \<noteq> None \<longleftrightarrow> loc p \<noteq> None"
    and dd: "\<And>p. published loc' p \<Longrightarrow> loc' p \<noteq> Some In_chain \<Longrightarrow> dead s p"
  shows "mem_ok s1 ps' loc'"
proof (rule mem_okI)
  note w' = wrote_sel [OF w]
  show "list_ok s1 (l_head s1) ps'" "key_at s1 (l_head s1) = Some KEY_MIN" using ok mem_okD(2) [OF m] by (simp_all add: w')
  show "p \<in> set (l_head s1 # ps') \<longleftrightarrow> loc' p = Some In_chain" for p unfolding w'(1) by (rule loc'(1))
  show "p \<in> set (l_unused s1) \<longleftrightarrow> loc' p = Some Is_unused" for p unfolding w'(3) loc'(3) by (rule mem_okD(4) [OF m])
  show "p \<in> set (l_retired s1) \<longleftrightarrow> loc' p = Some Is_retired" for p unfolding w'(4) loc'(4) by (rule mem_okD(5) [OF m])
  show "distinct (l_retired s1)" unfolding w'(4) by (rule mem_okD(6) [OF m])
  show "p \<noteq> NULL \<and> get_unmarked_ref p = p \<and> nodes s1 p \<noteq> None" if "loc' p \<noteq> None" for p
    using mem_ok_loc [OF m] that w'(13) unfolding loc'(5) by blast
  show "dead s1 p" if p: "loc' p \<noteq> Some In_chain" "published loc' p" for p
  proof -
    have "p \<noteq> l" using p(1) loc'(2) by auto
    then show ?thesis using dd [OF p(2,1)] w'(11) by simp
  qed
qed


section \<open>Simulation\<close>

definition simulated :: "list_sys \<Rightarrow> ptr list \<Rightarrow> (nat \<Rightarrow> a_status) \<Rightarrow> (nat \<times> l_event) list \<Rightarrow> list_sys \<Rightarrow> bool" where
  "simulated s ps st ev s' \<longleftrightarrow>
     (\<exists>loc' ps' st'. list_inv s' loc' ps' st' \<and>
        (\<forall>tr. atomic_exec tr (contents s ps) st \<longrightarrow> atomic_exec (tr @ ev) (contents s' ps') st'))"

lemma simulated_local:
  assumes inv: "list_inv s loc ps st" and i: "i < length (l_threads s)"
    and me: "thread_inv i s loc (contents s ps) (f (l_threads s ! i)) (st i)"
  shows "simulated s ps st [] (upd_l i f s)"
proof -
  note l = list_inv_local [where f = f, OF inv i me]
  then have "list_inv (upd_l i f s) loc ps st" by simp
  then show ?thesis unfolding simulated_def append_Nil2 l(2) [symmetric] by blast
qed

lemma simulatedI:
  assumes "list_inv s' loc' ps' (st(i := st i))" "contents s' ps' = contents s ps"
  shows "simulated s ps st [] s'"
proof -
  have "list_inv s' loc' ps' st" using assms(1) by simp
  then show ?thesis unfolding simulated_def append_Nil2 assms(2) [symmetric] by blast
qed

lemma contents_upd_l [simp]: "contents (upd_l i f s) ps = contents s ps"
  by (rule nodes_same(5)) simp

lemma at_upd_l [simp]:
  "load_next p (upd_l i f s) = load_next p s" "key_at (upd_l i f s) p = key_at s p" "val_at (upd_l i f s) p = val_at s p"
  "dead (upd_l i f s) p = dead s p"
  by (rule nodes_same, simp)+

lemma thread_inv_upd_l [simp]: "thread_inv j (upd_l i f s) loc M t st = thread_inv j s loc M t st"
  by (rule thread_inv_nodes) simp

lemma settled_upd_l [simp]: "settled s loc (upd_l i f s1) loc' M p = settled s loc s1 loc' M p"
proof -
  have n: "nodes (upd_l i f s1) = nodes s1" by simp
  show ?thesis unfolding settled_def nodes_same [OF n] ..
qed

lemma owned_upd_l [simp]: "owned j s loc (upd_l i f s1) loc' = owned j s loc s1 loc'"
  by (simp add: owned_def)

lemma owned_wrote:
  assumes w: "wrote s s1 l x" and l: "loc l = Some In_chain"
    and "\<And>p. loc p = Some (Private j) \<Longrightarrow> loc' p = loc p" "\<And>p. loc p = Some (Unlinked j) \<Longrightarrow> loc' p = loc p"
  shows "owned j s loc (upd_l i f s1) loc'"
proof -
  have "nodes s1 p = nodes s p" if "loc p = Some (Private j)" for p
    by (rule wrote_sel(8) [OF w]) (use that l in auto)
  then show ?thesis using assms(3,4) by (simp add: owned_def)
qed

text \<open>A node is linked in: the insertion takes place.\<close>

lemma link_simulated:
  assumes inv: "list_inv s loc ps st" and i: "i < length (l_threads s)" and pc: "l_pc (l_threads s ! i) = Link"
    and cas: "load_next (l_left (l_threads s ! i)) s = Some (l_right (l_threads s ! i))"
    and w: "wrote s s1 (l_left (l_threads s ! i)) (l_new (l_threads s ! i))"
  shows "simulated s ps st [] (upd_l i (\<lambda>t. t\<lparr>l_ret := 1, l_pc := Response\<rparr>) s1)"
proof -
  define t where "t = l_threads s ! i"
  define l r p where "l = l_left t" and "r = l_right t" and "p = l_new t"
  note pc = pc [folded t_def] and cas = cas [folded t_def, folded l_def r_def] and w = w [folded t_def, folded l_def p_def]
  note m = list_invD(1) [OF inv] and ti = list_invD(2) [OF inv i, folded t_def]
  obtain key v kr kl where op: "l_op t = Set_Add key v" and key: "KEY_MIN < key" "key < KEY_MAX" and nd: "\<not> l_done t"
    and pr: "loc p = Some (Private i)" "load_next p s = Some r" "key_at s p = Some key" "val_at s p = Some v"
    and kr: "key_at s r = Some kr" "key < kr" and pl: "published loc l" "published loc r" "key_at s l = Some kl" "kl < key"
    using ti pc by (auto simp: thread_defs l_def r_def p_def)
  obtain S where S: "st i = Pending (l_op t) S" "contents s ps \<in> S" using ti pc nd by (auto simp: thread_defs)
  have ur: "get_unmarked_ref r = r" by (rule mem_okD(8) [OF m published_loc [OF pl(2)]])
  note a = adjacent [OF m pl(1) cas ur pl(3,4) key(2)]
  obtain A B where AB: "ps = A @ r # B" "last (l_head s # A) = l" "\<forall>q \<in> set A. the (key_at s q) < key" using a(1) by blast
  have pn: "p \<notin> set (l_head s # A @ r # B)" using mem_okD(3) [OF m, of p] pr(1) unfolding AB(1) by auto
  have "loc p \<noteq> None" using pr(1) by simp
  note pp = mem_ok_loc [OF m this]
  have pne: "p \<noteq> l" using a(4) pr(1) by auto
  have gap: "contents s ps key = None"
    using contents_gap [of s "l_head s" A r B key] mem_okD(1) [OF m] AB kr by simp
  have ins: "list_ok s1 (l_head s) (A @ p # r # B)" "contents s1 (A @ p # r # B) = (contents s ps)(key \<mapsto> v)"
  proof -
    have lv: "\<not> dead s (last (l_head s # A))" using a(2) unfolding AB(2) .
    have rl: "relinked s s1 (last (l_head s # A)) p (set (p # l_head s # A @ r # B))"
      unfolding AB(2) by (rule wrote_sel(5) [OF w])
    have kr': "key < the (key_at s r)" using kr by simp
    note ins = list_ok_insert [OF mem_okD(1) [OF m, unfolded AB(1)] lv pn _ _ pr(2-4) AB(3) kr' rl]
    show "list_ok s1 (l_head s) (A @ p # r # B)" "contents s1 (A @ p # r # B) = (contents s ps)(key \<mapsto> v)"
      using ins pp unfolding AB(1) by blast+
  qed
  define loc' where "loc' = loc(p := Some In_chain)"
  have m1: "mem_ok s1 (A @ p # r # B) loc'"
  proof (rule mem_ok_wrote [OF m w a(4) ins(1)])
    show "q \<in> set (l_head s # A @ p # r # B) \<longleftrightarrow> loc' q = Some In_chain" for q
      using mem_okD(3) [OF m, of q] unfolding AB(1) by (auto simp: loc'_def)
    show "dead s q" if "published loc' q" "loc' q \<noteq> Some In_chain" for q
      using mem_ok_dead [OF m, of q] that by (auto simp: loc'_def published_def split: if_splits)
  qed (use a(4) pr(1) in \<open>auto simp: loc'_def\<close>)
  let ?f = "\<lambda>t :: l_thread. t\<lparr>l_ret := 1, l_pc := Response\<rparr>"
  let ?s = "upd_l i ?f s1" and ?M = "(contents s ps)(key \<mapsto> v)"
  have "list_inv ?s loc' (A @ p # r # B) ((see (contents ?s (A @ p # r # B)) \<circ> st)(i := Effected (l_op t) 1))"
  proof (rule list_inv_step [OF inv i])
    show "l_threads ?s = (l_threads s)[i := ?f t]" using wrote_sel(2) [OF w] by (simp add: t_def)
    show "mem_ok ?s (A @ p # r # B) loc'" using m1 by simp
    show "(\<forall>q \<in> holds (l_threads s ! j). settled s loc ?s loc' (contents ?s (A @ p # r # B)) q) \<and> owned j s loc ?s loc'"
      if "j \<noteq> i" for j
    proof
      have "settled s loc s1 loc' (contents s1 (A @ p # r # B)) q" for q
        by (rule settled_wrote [OF w a(2)]) (use pp pr(1) in \<open>auto simp: published_def loc'_def unmarked_iff [symmetric]\<close>)
      then show "\<forall>q \<in> holds (l_threads s ! j). settled s loc ?s loc' (contents ?s (A @ p # r # B)) q" by simp
      show "owned j s loc ?s loc'"
        using that pr(1) by (intro owned_wrote [where loc = loc, OF w a(4)]) (auto simp: loc'_def)
    qed
    show "thread_inv i ?s loc' (contents ?s (A @ p # r # B)) (?f t) (Effected (l_op t) 1)"
      using ti pc op nd by (auto simp: thread_defs)
  qed
  moreover have "contents ?s (A @ p # r # B) = ?M" using ins(2) by simp
  moreover have "map_step (l_op t) (contents s ps) = (1, ?M)" using op gap by simp
  then have "atomic_exec tr (contents s ps) st \<Longrightarrow> atomic_exec tr ?M ((see ?M \<circ> st)(i := Effected (l_op t) 1))" for tr
    using atomic_effect [where st = st and i = i, OF _ S(1)] by blast
  ultimately show ?thesis unfolding simulated_def by (metis append_Nil2)
qed

text \<open>A node is marked: the deletion takes place, and so do the lookups that wait to read this node.\<close>

lemma mark_simulated:
  assumes inv: "list_inv s loc ps st" and i: "i < length (l_threads s)" and pc: "l_pc (l_threads s ! i) = Mark"
    and cas: "load_next (l_right (l_threads s ! i)) s = Some (l_new (l_threads s ! i))"
    and w: "wrote s s1 (l_right (l_threads s ! i)) (get_marked_ref (l_new (l_threads s ! i)))"
  shows "simulated s ps st [] (upd_l i (\<lambda>t. t\<lparr>l_done := True, l_pc := Value\<rparr>) s1)"
proof -
  define t where "t = l_threads s ! i"
  define r y where "r = l_right t" and "y = l_new t"
  note pc = pc [folded t_def] and cas = cas [folded t_def, folded r_def y_def] and w = w [folded t_def, folded r_def y_def]
  note m = list_invD(1) [OF inv] and ti = list_invD(2) [OF inv i, folded t_def]
  obtain key where op: "l_op t = Set_Remove key" and key: "KEY_MIN < key" "key < KEY_MAX" and nd: "\<not> l_done t"
    and r: "published loc r" "key_at s r = Some key" and y: "get_unmarked_ref y = y"
    using ti pc by (auto simp: thread_defs r_def y_def)
  obtain S where S: "st i = Pending (l_op t) S" "contents s ps \<in> S" using ti pc nd by (auto simp: thread_defs)
  have alive: "\<not> dead s r" using cas y by (simp add: dead_load unmarked_iff)
  have rc: "loc r = Some In_chain" by (rule mem_okD(10) [OF m r(1) alive])
  obtain v where v: "val_at s r = Some v" "contents s ps key = Some v"
    using chain_value [OF m r(1) alive r(2) key] by blast
  have "r \<noteq> l_head s" using mem_okD(2) [OF m] r(2) key(1) by auto
  then have rin: "r \<in> set ps" using mem_okD(3) [OF m, of r] rc by simp
  have mk: "list_ok s1 (l_head s) ps" "contents s1 ps = (contents s ps)(key := None)" "dead s1 r"
    using list_ok_mark [OF mem_okD(1) [OF m] contents_live(2) [OF mem_okD(1) [OF m] rin alive r(2) v(1) key(2)] cas y
      wrote_sel(5) [OF w]] r(2) by simp_all
  have m1: "mem_ok s1 ps loc"
    by (rule mem_ok_wrote [OF m w rc mk(1) mem_okD(3) [OF m] rc]) (use mem_ok_dead [OF m] in auto)
  let ?f = "\<lambda>t :: l_thread. t\<lparr>l_done := True, l_pc := Value\<rparr>"
  let ?s = "upd_l i ?f s1" and ?M = "(contents s ps)(key := None)"
  have "list_inv ?s loc ps ((see (contents ?s ps) \<circ> st)(i := Effected (l_op t) v))"
  proof (rule list_inv_step [OF inv i])
    show "l_threads ?s = (l_threads s)[i := ?f t]" using wrote_sel(2) [OF w] by (simp add: t_def)
    show "mem_ok ?s ps loc" using m1 by simp
    show "(\<forall>q \<in> holds (l_threads s ! j). settled s loc ?s loc (contents ?s ps) q) \<and> owned j s loc ?s loc"
      if "j \<noteq> i" for j
    proof
      have "settled s loc s1 loc (contents s1 ps) q" for q
        by (rule settled_wrote [OF w alive]) (use mk(2) r(2) in auto)
      then show "\<forall>q \<in> holds (l_threads s ! j). settled s loc ?s loc (contents ?s ps) q" by simp
      show "owned j s loc ?s loc" by (rule owned_wrote [where loc = loc, OF w rc]) simp_all
    qed
    have lpub: "key_at s1 p = key_at s p" "val_at s1 p = val_at s p" for p by (rule wrote_sel(6,7) [OF w])+
    show "thread_inv i ?s loc (contents ?s ps) (?f t) (Effected (l_op t) v)"
      using ti pc op nd lpub v(1) mk(3) by (auto simp: thread_defs r_def)
  qed
  moreover have "contents ?s ps = ?M" using mk(2) by simp
  moreover have "map_step (l_op t) (contents s ps) = (v, ?M)" using op v(2) by (simp add: answer_def)
  then have "atomic_exec tr (contents s ps) st \<Longrightarrow> atomic_exec tr ?M ((see ?M \<circ> st)(i := Effected (l_op t) v))" for tr
    using atomic_effect [where st = st and i = i, OF _ S(1)] by blast
  ultimately show ?thesis unfolding simulated_def by (metis append_Nil2)
qed


text \<open>A marked node is unlinked.\<close>

lemma unlink_simulated:
  assumes inv: "list_inv s loc ps st" and i: "i < length (l_threads s)" and pc: "l_pc (l_threads s ! i) = Unlink"
    and cas: "load_next (l_left (l_threads s ! i)) s = Some (l_right (l_threads s ! i))"
    and w: "wrote s s1 (l_left (l_threads s ! i)) (l_new (l_threads s ! i))"
  shows "simulated s ps st [] (upd_l i (to Hand_over) s1)"
proof -
  define t where "t = l_threads s ! i"
  define l r where "l = l_left t" and "r = l_right t"
  note pc = pc [folded t_def] and cas = cas [folded t_def, folded l_def r_def] and w = w [folded t_def, folded l_def]
  note m = list_invD(1) [OF inv] and ti = list_invD(2) [OF inv i, folded t_def]
  obtain kl x where key: "op_key (l_op t) < KEY_MAX" and r: "dead s r" "load_next r s = Some x" "l_new t = get_unmarked_ref x"
    and pl: "published loc l" "published loc r" "key_at s l = Some kl" "kl < op_key (l_op t)"
    using ti pc by (auto simp: thread_defs l_def r_def)
  have ur: "get_unmarked_ref r = r" by (rule mem_okD(8) [OF m published_loc [OF pl(2)]])
  note a = adjacent [OF m pl(1) cas ur pl(3,4) key]
  obtain A B where AB: "ps = A @ r # B" "last (l_head s # A) = l" using a(1) by blast
  have "l \<noteq> r" using a(2) r(1) by auto
  have lv: "\<not> dead s (last (l_head s # A))" using a(2) unfolding AB(2) .
  have rl: "relinked s s1 (last (l_head s # A)) (get_unmarked_ref x) (set (l_head s # A @ r # B))"
    unfolding AB(2) r(3) [symmetric] by (rule wrote_sel(5) [OF w])
  note un = list_ok_unlink(1,2) [OF mem_okD(1) [OF m, unfolded AB(1)] r(1) lv r(2) rl]
  have nr: "distinct (l_head s # A @ r # B)" using mem_okD(1) [OF m] unfolding AB(1) by (simp add: list_ok_def)
  define loc' where "loc' = loc(r := Some (Unlinked i))"
  have m1: "mem_ok s1 (A @ B) loc'"
  proof (rule mem_ok_wrote [OF m w a(4) un(1)])
    show "q \<in> set (l_head s # A @ B) \<longleftrightarrow> loc' q = Some In_chain" for q
      using mem_okD(3) [OF m, of q] nr unfolding AB(1) by (auto simp: loc'_def)
    show "dead s q" if "published loc' q" "loc' q \<noteq> Some In_chain" for q
      using mem_ok_dead [OF m, of q] that r(1) by (auto simp: loc'_def published_def split: if_splits)
  qed (use a(3,4) \<open>l \<noteq> r\<close> in \<open>auto simp: loc'_def\<close>)
  let ?s = "upd_l i (to Hand_over) s1"
  have M: "contents ?s (A @ B) = contents s ps" using un(2) unfolding AB(1) by simp
  have un_x: "\<not> is_marked_ref (l_new t)" unfolding r(3) by simp
  have "list_inv ?s loc' (A @ B) (st(i := st i))"
  proof (rule list_inv_step_same [OF inv i _ _ M])
    show "l_threads ?s = (l_threads s)[i := to Hand_over t]" using wrote_sel(2) [OF w] by (simp add: t_def)
    show "mem_ok ?s (A @ B) loc'" using m1 by simp
    show "(\<forall>q \<in> holds (l_threads s ! j). settled s loc ?s loc' (contents ?s (A @ B)) q) \<and> owned j s loc ?s loc'"
      if "j \<noteq> i" for j
    proof
      have "settled s loc s1 loc' (contents s1 (A @ B)) q" for q
        by (rule settled_wrote [OF w a(2)]) (use un_x in \<open>auto simp: published_def loc'_def\<close>)
      then show "\<forall>q \<in> holds (l_threads s ! j). settled s loc ?s loc' (contents ?s (A @ B)) q" by simp
      show "owned j s loc ?s loc'"
        using a(3) by (intro owned_wrote [where loc = loc, OF w a(4)]) (auto simp: loc'_def)
    qed
    have lpub: "key_at s1 p = key_at s p" "val_at s1 p = val_at s p" for p by (rule wrote_sel(6,7) [OF w])+
    have "published loc' l" "published loc' r" using pl by (auto simp: loc'_def published_def)
    then show "thread_inv i ?s loc' (contents ?s (A @ B)) (to Hand_over t) (st i)"
      unfolding M using ti pc lpub by (auto simp: thread_defs l_def r_def loc'_def split: if_splits)
  qed
  from simulatedI [OF this M] show ?thesis .
qed

text \<open>The node is handed to \<open>free_node_later\<close>.\<close>

lemma hand_over_simulated:
  assumes inv: "list_inv s loc ps st" and i: "i < length (l_threads s)" and pc: "l_pc (l_threads s ! i) = Hand_over"
  shows "simulated s ps st []
    (upd_l i (\<lambda>t. t\<lparr>l_site := False, l_pc := (if l_site t then Response else Advance)\<rparr>)
       (s\<lparr>l_retired := l_right (l_threads s ! i) # l_retired s\<rparr>))"
proof -
  define t where "t = l_threads s ! i"
  define r where "r = l_right t"
  note pc = pc [folded t_def]
  note m = list_invD(1) [OF inv] and ti = list_invD(2) [OF inv i, folded t_def]
  have r: "loc r = Some (Unlinked i)" using ti pc by (auto simp: thread_defs r_def)
  define loc' where "loc' = loc(r := Some Is_retired)"
  let ?s1 = "s\<lparr>l_retired := r # l_retired s\<rparr>"
  let ?f = "\<lambda>t. t\<lparr>l_site := False, l_pc := (if l_site t then Response else Advance)\<rparr>"
  let ?s = "upd_l i ?f ?s1"
  have n1: "nodes ?s1 = nodes s" by simp
  note n = nodes_same [OF n1]
  have m1: "mem_ok ?s1 ps loc'"
  proof (rule mem_okI)
    show "list_ok ?s1 (l_head ?s1) ps" "key_at ?s1 (l_head ?s1) = Some KEY_MIN" unfolding n using mem_okD(1,2) [OF m] by simp_all
    show "q \<in> set (l_head ?s1 # ps) \<longleftrightarrow> loc' q = Some In_chain" for q
      using mem_okD(3) [OF m, of q] r by (auto simp: loc'_def)
    show "q \<in> set (l_unused ?s1) \<longleftrightarrow> loc' q = Some Is_unused" for q
      using mem_okD(4) [OF m, of q] r by (auto simp: loc'_def)
    show "q \<in> set (l_retired ?s1) \<longleftrightarrow> loc' q = Some Is_retired" for q
      using mem_okD(5) [OF m, of q] by (auto simp: loc'_def)
    show "distinct (l_retired ?s1)" using mem_okD(5) [OF m, of r] mem_okD(6) [OF m] r by simp
    show "q \<noteq> NULL \<and> get_unmarked_ref q = q \<and> nodes ?s1 q \<noteq> None" if "loc' q \<noteq> None" for q
      using mem_ok_loc [OF m, of q] that r by (auto simp: loc'_def split: if_splits)
    show "dead ?s1 q" if "loc' q \<noteq> Some In_chain" "published loc' q" for q
      unfolding n using mem_ok_dead [OF m, of q] that r by (auto simp: loc'_def published_def split: if_splits)
  qed
  have M: "contents ?s ps = contents s ps" unfolding contents_upd_l by (rule n(5))
  have ns: "nodes ?s = nodes s" by simp
  have "list_inv ?s loc' ps (st(i := st i))"
  proof (rule list_inv_step_same [OF inv i _ _ M])
    show "l_threads ?s = (l_threads s)[i := ?f t]" by (simp add: t_def)
    show "mem_ok ?s ps loc'" using m1 by simp
    show "(\<forall>q \<in> holds (l_threads s ! j). settled s loc ?s loc' (contents ?s ps) q) \<and> owned j s loc ?s loc'"
      if "j \<noteq> i" for j
      using that r n unfolding settled_upd_l owned_upd_l
      by (auto simp: settled_def owned_def published_def loc'_def)
    have "published loc (l_left t)" "published loc' (l_left t)" "published loc' r"
      using ti pc by (auto simp: thread_defs published_def loc'_def)
    then show "thread_inv i ?s loc' (contents ?s ps) (?f t) (st i)"
      unfolding M thread_inv_nodes [OF ns] using ti pc by (auto simp: thread_defs r_def split: if_splits)
  qed
  from simulatedI [OF this M] show ?thesis unfolding r_def t_def .
qed

text \<open>A node goes from the thread to the allocator.\<close>

lemma link_failed_simulated:
  assumes inv: "list_inv s loc ps st" and i: "i < length (l_threads s)" and pc: "l_pc (l_threads s ! i) = Link"
  shows "simulated s ps st [] (upd_l i (to At_head) (s\<lparr>l_unused := l_new (l_threads s ! i) # l_unused s\<rparr>))"
proof -
  define t where "t = l_threads s ! i"
  define p where "p = l_new t"
  note pc = pc [folded t_def]
  note m = list_invD(1) [OF inv] and ti = list_invD(2) [OF inv i, folded t_def]
  have p: "loc p = Some (Private i)" using ti pc by (auto simp: thread_defs p_def)
  define loc' where "loc' = loc(p := Some Is_unused)"
  let ?s1 = "s\<lparr>l_unused := p # l_unused s\<rparr>"
  let ?s = "upd_l i (to At_head) ?s1"
  have n1: "nodes ?s1 = nodes s" by simp
  note n = nodes_same [OF n1]
  have m1: "mem_ok ?s1 ps loc'"
  proof (rule mem_okI)
    show "list_ok ?s1 (l_head ?s1) ps" "key_at ?s1 (l_head ?s1) = Some KEY_MIN" unfolding n using mem_okD(1,2) [OF m] by simp_all
    show "q \<in> set (l_head ?s1 # ps) \<longleftrightarrow> loc' q = Some In_chain" for q
      using mem_okD(3) [OF m, of q] p by (auto simp: loc'_def)
    show "q \<in> set (l_unused ?s1) \<longleftrightarrow> loc' q = Some Is_unused" for q
      using mem_okD(4) [OF m, of q] by (auto simp: loc'_def)
    show "q \<in> set (l_retired ?s1) \<longleftrightarrow> loc' q = Some Is_retired" for q
      using mem_okD(5) [OF m, of q] p by (auto simp: loc'_def)
    show "distinct (l_retired ?s1)" using mem_okD(6) [OF m] by simp
    show "q \<noteq> NULL \<and> get_unmarked_ref q = q \<and> nodes ?s1 q \<noteq> None" if "loc' q \<noteq> None" for q
      using mem_ok_loc [OF m, of q] that p by (auto simp: loc'_def split: if_splits)
    show "dead ?s1 q" if "loc' q \<noteq> Some In_chain" "published loc' q" for q
      unfolding n using mem_ok_dead [OF m, of q] that by (auto simp: loc'_def published_def split: if_splits)
  qed
  have M: "contents ?s ps = contents s ps" unfolding contents_upd_l by (rule n(5))
  have ns: "nodes ?s = nodes s" by simp
  have "list_inv ?s loc' ps (st(i := st i))"
  proof (rule list_inv_step_same [OF inv i _ _ M])
    show "l_threads ?s = (l_threads s)[i := to At_head t]" by (simp add: t_def)
    show "mem_ok ?s ps loc'" using m1 by simp
    show "(\<forall>q \<in> holds (l_threads s ! j). settled s loc ?s loc' (contents ?s ps) q) \<and> owned j s loc ?s loc'"
      if "j \<noteq> i" for j
      using that p n unfolding settled_upd_l owned_upd_l
      by (auto simp: settled_def owned_def published_def loc'_def)
    show "thread_inv i ?s loc' (contents ?s ps) (to At_head t) (st i)"
      unfolding M thread_inv_nodes [OF ns] using ti pc by (auto simp: thread_defs)
  qed
  from simulatedI [OF this M] show ?thesis unfolding p_def t_def .
qed

text \<open>A free node is given to the thread, which fills it in.\<close>

lemma list_ok_same:
  assumes "list_ok s h ps" "\<And>q. q \<in> set (h # ps) \<Longrightarrow> nodes s' q = nodes s q"
  shows "list_ok s' h ps" "contents s' ps = contents s ps"
proof -
  have "same_nodes s s' (set (h # ps))" unfolding same_nodes_def using at_nodes [OF assms(2)] by blast
  from list_ok_cong [OF this assms(1)] show "list_ok s' h ps" "contents s' ps = contents s ps" .
qed

lemma settled_other:
  assumes "nodes s' p = nodes s p" "published loc p \<Longrightarrow> published loc' p"
  shows "settled s loc s' loc' M p"
  using at_nodes [OF assms(1)] assms(2) by (simp add: settled_def dead_def)

lemma give_simulated:
  assumes inv: "list_inv s loc ps st" and i: "i < length (l_threads s)" and pc: "l_pc (l_threads s ! i) = Get_node"
    and op: "l_op (l_threads s ! i) = Set_Add k v" and p: "p \<in> set (l_unused s)"
    and s1: "put_node p k v (l_right (l_threads s ! i)) s = Some s1"
  shows "simulated s ps st [] (upd_l i (\<lambda>t. t\<lparr>l_new := p, l_pc := Link\<rparr>) s1)"
proof -
  define t where "t = l_threads s ! i"
  note pc = pc [folded t_def] and op = op [folded t_def] and s1 = s1 [folded t_def]
  note m = list_invD(1) [OF inv] and ti = list_invD(2) [OF inv i, folded t_def]
  obtain n where n: "nodes s p = Some n"
    "s1 = s\<lparr>nodes := (nodes s)(p \<mapsto> n\<lparr>n_key := k, n_val := v, n_next := l_right t\<rparr>), l_unused := removeAll p (l_unused s)\<rparr>"
    using s1 by (auto simp: put_node_def bind_eq_Some_conv)
  have lp: "loc p = Some Is_unused" using mem_okD(4) [OF m, of p] p by simp
  have same: "nodes s1 q = nodes s q" if "q \<noteq> p" for q using that by (simp add: n(2))
  have sel: "l_head s1 = l_head s" "l_threads s1 = l_threads s" "l_unused s1 = removeAll p (l_unused s)" "l_retired s1 = l_retired s"
    by (simp_all add: n(2))
  define loc' where "loc' = loc(p := Some (Private i))"
  have np: "q \<noteq> p" if "q \<in> set (l_head s # ps)" for q using mem_okD(3) [OF m, of q] that lp by auto
  note ok = list_ok_same [OF mem_okD(1) [OF m] same [OF np]]
  have m1: "mem_ok s1 ps loc'"
  proof (rule mem_okI)
    show "list_ok s1 (l_head s1) ps" using ok(1) by (simp add: sel)
    show "key_at s1 (l_head s1) = Some KEY_MIN" using at_nodes [OF same [OF np [of "l_head s"]]] mem_okD(2) [OF m] by (simp add: sel)
    show "q \<in> set (l_head s1 # ps) \<longleftrightarrow> loc' q = Some In_chain" for q
      using mem_okD(3) [OF m, of q] lp by (auto simp: loc'_def sel)
    show "q \<in> set (l_unused s1) \<longleftrightarrow> loc' q = Some Is_unused" for q
      using mem_okD(4) [OF m, of q] by (auto simp: loc'_def sel)
    show "q \<in> set (l_retired s1) \<longleftrightarrow> loc' q = Some Is_retired" for q
      using mem_okD(5) [OF m, of q] lp by (auto simp: loc'_def sel)
    show "distinct (l_retired s1)" using mem_okD(6) [OF m] by (simp add: sel)
    show "q \<noteq> NULL \<and> get_unmarked_ref q = q \<and> nodes s1 q \<noteq> None" if "loc' q \<noteq> None" for q
      using mem_ok_loc [OF m, of q] that lp by (cases "q = p") (auto simp: loc'_def n(2))
    show "dead s1 q" if "loc' q \<noteq> Some In_chain" "published loc' q" for q
    proof -
      have "q \<noteq> p" using that(2) by (auto simp: loc'_def published_def)
      then show ?thesis using mem_ok_dead [OF m, of q] that at_nodes [OF same, of q]
        by (simp add: loc'_def published_def dead_def)
    qed
  qed
  let ?f = "\<lambda>t :: l_thread. t\<lparr>l_new := p, l_pc := Link\<rparr>"
  let ?s = "upd_l i ?f s1"
  have M: "contents ?s ps = contents s ps" unfolding contents_upd_l by (rule ok(2))
  have "list_inv ?s loc' ps (st(i := st i))"
  proof (rule list_inv_step_same [OF inv i _ _ M])
    show "l_threads ?s = (l_threads s)[i := ?f t]" by (simp add: t_def sel)
    show "mem_ok ?s ps loc'" using m1 by simp
    have pub: "published loc q \<Longrightarrow> q \<noteq> p \<and> published loc' q" for q using lp by (auto simp: published_def loc'_def)
    have set: "settled s loc s1 loc' M q" for q M
    proof (cases "q = p")
      case True then show ?thesis using lp by (simp add: settled_def published_def)
    next
      case False then show ?thesis using settled_other [OF same [OF False]] pub by blast
    qed
    show "(\<forall>q \<in> holds (l_threads s ! j). settled s loc ?s loc' (contents ?s ps) q) \<and> owned j s loc ?s loc'"
      if "j \<noteq> i" for j
      using set lp same by (auto simp: owned_def loc'_def)
    have at: "published loc q \<Longrightarrow> key_at s1 q = key_at s q" for q using at_nodes [OF same] pub by blast
    have np: "load_next p s1 = Some (l_right t)" "key_at s1 p = Some k" "val_at s1 p = Some v"
      by (simp_all add: n(2) load_next_def key_at_def val_at_def)
    show "thread_inv i ?s loc' (contents ?s ps) (?f t) (st i)"
      unfolding M thread_inv_upd_l using ti pc op np at pub by (auto simp: thread_defs loc'_def)
  qed
  from simulatedI [OF this M] show ?thesis .
qed


text \<open>A retired node is reused.\<close>

lemma recycle_simulated:
  assumes inv: "list_inv s loc ps st" and i: "i < length (l_threads s)" and p: "p \<in> set (l_retired s)"
    and held: "\<forall>t \<in> set (l_threads s). p \<notin> holds t" and n: "nodes s p = Some n"
  shows "simulated s ps st []
    (s\<lparr>nodes := (nodes s)(p \<mapsto> n\<lparr>n_key := POISON\<rparr>), l_unused := p # l_unused s, l_retired := removeAll p (l_retired s)\<rparr>)"
    (is "simulated s ps st [] ?s")
proof -
  note m = list_invD(1) [OF inv] and ti = list_invD(2) [OF inv i]
  have lp: "loc p = Some Is_retired" using mem_okD(5) [OF m, of p] p by simp
  have same: "nodes ?s q = nodes s q" if "q \<noteq> p" for q using that by simp
  define loc' where "loc' = loc(p := Some Is_unused)"
  have np: "q \<noteq> p" if "q \<in> set (l_head s # ps)" for q using mem_okD(3) [OF m, of q] that lp by auto
  note ok = list_ok_same [OF mem_okD(1) [OF m] same [OF np]]
  have m1: "mem_ok ?s ps loc'"
  proof (rule mem_okI)
    show "list_ok ?s (l_head ?s) ps" using ok(1) by simp
    show "key_at ?s (l_head ?s) = Some KEY_MIN" using at_nodes [OF same [OF np [of "l_head s"]]] mem_okD(2) [OF m] by simp
    show "q \<in> set (l_head ?s # ps) \<longleftrightarrow> loc' q = Some In_chain" for q
      using mem_okD(3) [OF m, of q] lp by (auto simp: loc'_def)
    show "q \<in> set (l_unused ?s) \<longleftrightarrow> loc' q = Some Is_unused" for q
      using mem_okD(4) [OF m, of q] by (auto simp: loc'_def)
    show "q \<in> set (l_retired ?s) \<longleftrightarrow> loc' q = Some Is_retired" for q
      using mem_okD(5) [OF m, of q] lp by (auto simp: loc'_def)
    show "distinct (l_retired ?s)" using mem_okD(6) [OF m] by (simp add: distinct_removeAll)
    show "q \<noteq> NULL \<and> get_unmarked_ref q = q \<and> nodes ?s q \<noteq> None" if "loc' q \<noteq> None" for q
      using mem_ok_loc [OF m, of q] that lp by (cases "q = p") (auto simp: loc'_def)
    show "dead ?s q" if "loc' q \<noteq> Some In_chain" "published loc' q" for q
    proof -
      have "q \<noteq> p" using that(2) by (auto simp: loc'_def published_def)
      then show ?thesis using mem_ok_dead [OF m, of q] that at_nodes [OF same, of q]
        by (simp add: loc'_def published_def dead_def)
    qed
  qed
  have M: "contents ?s ps = contents s ps" by (rule ok(2))
  have env: "(\<forall>q \<in> holds (l_threads s ! j). settled s loc ?s loc' (contents ?s ps) q) \<and> owned j s loc ?s loc'"
    if j: "j < length (l_threads s)" for j
  proof
    show "owned j s loc ?s loc'" using lp by (auto simp: owned_def loc'_def)
    show "\<forall>q \<in> holds (l_threads s ! j). settled s loc ?s loc' (contents ?s ps) q"
    proof
      fix q assume "q \<in> holds (l_threads s ! j)"
      then have "q \<noteq> p" using held j nth_mem by blast
      then show "settled s loc ?s loc' (contents ?s ps) q"
        by (intro settled_other) (auto simp: published_def loc'_def)
    qed
  qed
  have "thread_inv i ?s loc' (contents ?s ps) (l_threads s ! i) (see (contents ?s ps) (st i))"
    by (rule thread_inv_env [OF ti]) (use env [OF i] in blast)+
  then have me: "thread_inv i ?s loc' (contents ?s ps) (l_threads s ! i) (st i)"
    unfolding M see_same [OF thread_invD(4) [OF ti]] .
  have "list_inv ?s loc' ps (st(i := st i))"
    by (rule list_inv_step_same [OF inv i _ m1 M env me]) simp_all
  from simulatedI [OF this M] show ?thesis .
qed

text \<open>Calls and returns.\<close>

lemma invoke_simulated:
  assumes inv: "list_inv s loc ps st" and i: "i < length (l_threads s)" and pc: "l_pc (l_threads s ! i) = Idle"
    and x: "KEY_MIN < op_key x" "op_key x < KEY_MAX"
  shows "simulated s ps st [(i, Called x)]
    (upd_l i (\<lambda>t. t\<lparr>l_op := x, l_pc := At_head, l_done := False, l_site := False\<rparr>) s)" (is "simulated s ps st _ (upd_l i ?f s)")
proof -
  note ti = list_invD(2) [OF inv i]
  have st: "st i = A_idle" using ti pc by (simp add: thread_defs)
  have "thread_inv i s loc (contents s ps) (?f (l_threads s ! i)) (Pending x {contents s ps})"
    using ti x by (simp add: thread_defs)
  from list_inv_local [where f = ?f, OF inv i this]
  have "list_inv (upd_l i ?f s) loc ps (st(i := Pending x {contents s ps}))" "contents (upd_l i ?f s) ps = contents s ps" .
  moreover have "atomic_exec tr (contents s ps) st \<Longrightarrow>
      atomic_exec (tr @ [(i, Called x)]) (contents s ps) (st(i := Pending x {contents s ps}))" for tr
    by (rule atomic_call [where st = st and i = i, OF _ st])
  ultimately show ?thesis unfolding simulated_def by metis
qed

lemma return_simulated:
  assumes inv: "list_inv s loc ps st" and i: "i < length (l_threads s)" and pc: "l_pc (l_threads s ! i) = Response"
  shows "simulated s ps st [(i, Returned (l_ret (l_threads s ! i)))] (upd_l i (to Idle) s)"
proof -
  note ti = list_invD(2) [OF inv i]
  define t where "t = l_threads s ! i"
  have st: "st i = Effected (l_op t) (l_ret t) \<or>
      (\<exists>S N. st i = Pending (l_op t) S \<and> N \<in> S \<and> map_step (l_op t) N = (l_ret t, N))"
    using ti pc by (auto simp: thread_defs t_def)
  have "op_ok (l_threads s ! i)" by (rule thread_invD(1) [OF ti])
  then have "thread_inv i s loc (contents s ps) (to Idle (l_threads s ! i)) A_idle"
    by (simp add: thread_defs)
  from list_inv_local [where f = "to Idle", OF inv i this]
  have "list_inv (upd_l i (to Idle) s) loc ps (st(i := A_idle))" "contents (upd_l i (to Idle) s) ps = contents s ps" .
  moreover have "atomic_exec tr (contents s ps) st \<Longrightarrow>
      atomic_exec (tr @ [(i, Returned (l_ret t))]) (contents s ps) (st(i := A_idle))" for tr
    using st atomic_return [where st = st and i = i] atomic_unchanged [where st = st and i = i] by blast
  ultimately show ?thesis unfolding simulated_def t_def by metis
qed

section \<open>Every step\<close>

text \<open>The steps of the code do not fault, and are simulated.\<close>

lemma list_step_simulated:
  assumes inv: "list_inv s loc ps st" and i: "i < length (l_threads s)"
    and pc: "l_pc (l_threads s ! i) \<notin> {Idle, Get_node, Response}"
  shows "\<exists>s'. list_step i s = Some s' \<and> simulated s ps st [] s'"
proof -
  define t where "t = l_threads s ! i"
  note m = list_invD(1) [OF inv] and ti = list_invD(2) [OF inv i, folded t_def]
  note loc = simulated_local [OF inv i, folded t_def]
  have ld: "\<exists>x. load_next p s = Some x" if "published loc p" for p
    using published_reads [OF m published_loc [OF that]] by blast
  have left: "published loc (l_left t)" if "l_pc t \<notin> {Idle, At_head, Response}"
    using ti that by (simp add: thread_defs)
  have right: "published loc (l_right t)" if "l_pc t \<notin> {Idle, At_head, Check, Response}"
    using ti that by (simp add: thread_defs)
  show ?thesis
  proof (cases "l_pc t")
    case At_head
    then show ?thesis using step_at_head [OF m ti At_head] loc by (fastforce simp: list_step_def t_def [symmetric])
  next
    case Check
    from step_check [OF m ti Check] obtain ln where ln: "load_next (l_left t) s = Some ln"
      "thread_inv i s loc (contents s ps) (to (if l_right t \<noteq> ln then At_head else Read) t) (st i)" by blast
    have "list_step i s = Some (upd_l i (to (if l_right t \<noteq> ln then At_head else Read)) s)"
      using Check ln(1) by (simp add: list_step_def t_def [symmetric])
    then show ?thesis using loc [where f = "to (if l_right t \<noteq> ln then At_head else Read)", OF ln(2)] by blast
  next
    case Read
    then show ?thesis using step_read [OF m ti Read] loc by (fastforce simp: list_step_def t_def [symmetric])
  next
    case Advance
    then show ?thesis using step_advance [OF m ti Advance] loc by (fastforce simp: list_step_def t_def [symmetric])
  next
    case New_next
    then show ?thesis using step_new_next [OF m ti New_next] loc by (fastforce simp: list_step_def t_def [symmetric])
  next
    case Get_next
    then show ?thesis using step_get_next [OF m ti Get_next] loc by (fastforce simp: list_step_def t_def [symmetric])
  next
    case Value
    then show ?thesis using step_value [OF m ti Value] loc by (fastforce simp: list_step_def t_def [symmetric])
  next
    case Hand_over
    then show ?thesis using hand_over_simulated [OF inv i] by (simp add: list_step_def t_def)
  next
    case Unlink
    obtain x where x: "load_next (l_left t) s = Some x" using ld left Unlink by fastforce
    show ?thesis
    proof (cases "x = l_right t")
      case True
      obtain s1 where s1: "cas_next (l_left t) (l_right t) (l_new t) s = Some (l_right t, s1)" "wrote s s1 (l_left t) (l_new t)"
        using cas_next_done [OF x [unfolded True]] by blast
      have "list_step i s = Some (upd_l i (to Hand_over) s1)"
        using Unlink s1(1) by (simp add: list_step_def t_def [symmetric])
      then show ?thesis using unlink_simulated [OF inv i, folded t_def, OF Unlink x [unfolded True] s1(2)] by blast
    next
      case False
      let ?f = "if l_site t then (\<lambda>t. t\<lparr>l_site := False, l_pc := At_head\<rparr>) else to Advance"
      have c: "cas_next (l_left t) (l_right t) (l_new t) s = Some (x, s)" by (rule cas_next_failed [OF x False])
      have "list_step i s = Some (upd_l i ?f s)"
        using Unlink c False by (simp add: list_step_def t_def [symmetric])
      moreover have "thread_inv i s loc (contents s ps) (?f t) (st i)"
        using ti Unlink by (auto simp: thread_defs)
      ultimately show ?thesis using loc [where f = ?f] by blast
    qed
  next
    case Link
    obtain x where x: "load_next (l_left t) s = Some x" using ld left Link by fastforce
    show ?thesis
    proof (cases "x = l_right t")
      case True
      obtain s1 where s1: "cas_next (l_left t) (l_right t) (l_new t) s = Some (l_right t, s1)" "wrote s s1 (l_left t) (l_new t)"
        using cas_next_done [OF x [unfolded True]] by blast
      have "list_step i s = Some (upd_l i (\<lambda>t. t\<lparr>l_ret := 1, l_pc := Response\<rparr>) s1)"
        using Link s1(1) by (simp add: list_step_def t_def [symmetric])
      then show ?thesis using link_simulated [OF inv i, folded t_def, OF Link x [unfolded True] s1(2)] by blast
    next
      case False
      have c: "cas_next (l_left t) (l_right t) (l_new t) s = Some (x, s)" by (rule cas_next_failed [OF x False])
      have "list_step i s = Some (upd_l i (to At_head) (s\<lparr>l_unused := l_new t # l_unused s\<rparr>))"
        using Link c False by (simp add: list_step_def t_def [symmetric])
      then show ?thesis using link_failed_simulated [OF inv i, folded t_def, OF Link] by blast
    qed
  next
    case Mark
    obtain x where x: "load_next (l_right t) s = Some x" using ld right Mark by fastforce
    show ?thesis
    proof (cases "x = l_new t")
      case True
      obtain s1 where s1: "cas_next (l_right t) (l_new t) (get_marked_ref (l_new t)) s = Some (l_new t, s1)"
        "wrote s s1 (l_right t) (get_marked_ref (l_new t))"
        using cas_next_done [OF x [unfolded True]] by blast
      have "list_step i s = Some (upd_l i (\<lambda>t. t\<lparr>l_done := True, l_pc := Value\<rparr>) s1)"
        using Mark s1(1) by (simp add: list_step_def t_def [symmetric])
      then show ?thesis using mark_simulated [OF inv i, folded t_def, OF Mark x [unfolded True] s1(2)] by blast
    next
      case False
      have c: "cas_next (l_right t) (l_new t) (get_marked_ref (l_new t)) s = Some (x, s)" by (rule cas_next_failed [OF x False])
      have "list_step i s = Some (upd_l i (to At_head) s)"
        using Mark c False by (simp add: list_step_def t_def [symmetric])
      moreover have "thread_inv i s loc (contents s ps) (to At_head t) (st i)"
        using ti Mark by (auto simp: thread_defs)
      ultimately show ?thesis using loc [where f = "to At_head"] by blast
    qed
  qed (use pc in \<open>simp_all add: t_def\<close>)
qed

lemma list_act_simulated:
  assumes inv: "list_inv s loc ps st" and act: "list_act i a s = Some s'"
  shows "simulated s ps st (event_of i a s) s'"
proof -
  have i: "i < length (l_threads s)" using act by (simp add: list_act_def split: if_splits)
  show ?thesis
  proof (cases a)
    case (Invoke x)
    then show ?thesis using act i invoke_simulated [OF inv i, of x] by (auto simp: list_act_def split: if_splits)
  next
    case Step
    have st: "list_step i s = Some s'" using act i Step by (simp add: list_act_def)
    then have "l_pc (l_threads s ! i) \<notin> {Idle, Get_node, Response}" by (auto simp: list_step_def Let_def)
    from list_step_simulated [OF inv i this] show ?thesis using st Step by auto
  next
    case (Give p)
    obtain k v where op: "l_op (l_threads s ! i) = Set_Add k v"
      using act i Give by (cases "l_op (l_threads s ! i)") (simp_all add: list_act_def)
    then obtain s1 where "l_pc (l_threads s ! i) = Get_node" "p \<in> set (l_unused s)"
      "put_node p k v (l_right (l_threads s ! i)) s = Some s1" "s' = upd_l i (\<lambda>t. t\<lparr>l_new := p, l_pc := Link\<rparr>) s1"
      using act i Give by (auto simp: list_act_def Let_def split: if_splits)
    then show ?thesis using give_simulated [OF inv i _ op] Give by simp
  next
    case Return
    then show ?thesis using act i return_simulated [OF inv i] by (auto simp: list_act_def split: if_splits)
  next
    case (Recycle p)
    then obtain n where "p \<in> set (l_retired s)" "\<forall>t \<in> set (l_threads s). p \<notin> holds t" "nodes s p = Some n"
      "s' = s\<lparr>nodes := (nodes s)(p \<mapsto> n\<lparr>n_key := POISON\<rparr>), l_unused := p # l_unused s, l_retired := removeAll p (l_retired s)\<rparr>"
      using act i by (auto simp: list_act_def bind_eq_Some_conv split: if_splits)
    then show ?thesis using recycle_simulated [OF inv i] Recycle by simp
  qed
qed

section \<open>The start\<close>

text \<open>The blocks of the arena: mapped, aligned, distinct.\<close>

definition blocks_ok :: "mem \<Rightarrow> ptr \<Rightarrow> ptr \<Rightarrow> ptr list \<Rightarrow> bool" where
  "blocks_ok m head tail us \<longleftrightarrow>
     distinct (head # tail # us) \<and>
     (\<forall>p \<in> set (head # tail # us). p \<noteq> NULL \<and> get_unmarked_ref p = p \<and> nodes m p \<noteq> None)"

lemma list_start_sel:
  "nodes (list_start n m head tail us) = sentinels (nodes m) head tail" "l_head (list_start n m head tail us) = head"
  "l_threads (list_start n m head tail us) = replicate n idle_thread" "l_unused (list_start n m head tail us) = us"
  "l_retired (list_start n m head tail us) = []"
  by (simp_all add: list_start_def mem.extend_def)

lemma list_start_inv:
  assumes b: "blocks_ok m head tail us"
  shows "\<exists>loc. list_inv (list_start n m head tail us) loc [tail] (\<lambda>_. A_idle)"
    "contents (list_start n m head tail us) [tail] = Map.empty"
proof -
  let ?s = "list_start n m head tail us"
  have ht: "head \<noteq> tail" "head \<notin> set us" "tail \<notin> set us" using b by (simp_all add: blocks_ok_def)
  have at: "load_next head ?s = Some tail" "load_next tail ?s = Some NULL" "key_at ?s head = Some KEY_MIN"
    "key_at ?s tail = Some KEY_MAX"
    using ht by (simp_all add: load_next_def key_at_def list_start_sel sentinels_def)
  have un: "get_unmarked_ref tail = tail" using b by (simp add: blocks_ok_def)
  then have ok: "list_ok ?s head [tail]"
    using b at ht unmarked_iff [of tail] by (auto simp: list_ok_def linked_def dead_def blocks_ok_def)
  define loc where "loc p = (if p = head \<or> p = tail then Some In_chain else if p \<in> set us then Some Is_unused else None)" for p
  have "mem_ok ?s [tail] loc"
  proof (rule mem_okI)
    show "p \<noteq> NULL \<and> get_unmarked_ref p = p \<and> nodes ?s p \<noteq> None" if "loc p \<noteq> None" for p
      using b that by (auto simp: loc_def blocks_ok_def list_start_sel sentinels_def split: if_splits)
  qed (use ok at ht in \<open>auto simp: loc_def list_start_sel published_def split: if_splits\<close>)
  moreover have "thread_inv i ?s loc M idle_thread A_idle" for i M
    by (simp add: thread_defs idle_thread_def)
  ultimately show "\<exists>loc. list_inv ?s loc [tail] (\<lambda>_. A_idle)"
    by (auto simp: list_inv_def list_start_sel)
  show "contents ?s [tail] = Map.empty" by (simp add: contents_def)
qed

lemma list_exec_inv:
  assumes "list_exec (list_start n m head tail us) tr s" "blocks_ok m head tail us"
  shows "\<exists>loc ps st. list_inv s loc ps st \<and> atomic_exec tr (contents s ps) st"
  using assms
proof (induction rule: list_exec.induct)
  case exec_start
  show ?case using list_start_inv [OF exec_start, of n] atomic_start by metis
next
  case (exec_step tr s i a s')
  then obtain loc ps st where inv: "list_inv s loc ps st" and ex: "atomic_exec tr (contents s ps) st" by blast
  from list_act_simulated [OF inv exec_step.hyps(2)] ex show ?case unfolding simulated_def by blast
qed


section \<open>Properties\<close>




section \<open>Witnesses\<close>

text \<open>Thread 1 has validated the node of key 5 when thread 2 deletes it: the lookup returns 0, although the
  key was there when it was called. The node is reused in the end.\<close>

definition ex_list_mem :: mem where
  "ex_list_mem = \<lparr>nodes = ex_nodes, mrs = ex_mrs, alloc = ex_alloc, HP = [], clock = (\<lambda>_. \<lparr>tv_sec = 0, tv_usec = 0\<rparr>), tick = 0\<rparr>"

lemma ex_blocks: "blocks_ok ex_list_mem 64 128 [192]"
  by (simp add: blocks_ok_def ex_list_mem_def ex_nodes_def get_unmarked_ref_def)

definition race_schedule :: "(nat \<times> l_action) list" where
  "race_schedule =
     (0, Invoke (Set_Add 5 50)) # replicate 3 (0, Step) @ [(0, Give 192), (0, Step), (0, Return)] @
     (1, Invoke (Set_Contains 5)) # replicate 2 (1, Step) @
     (2, Invoke (Set_Remove 5)) # replicate 5 (2, Step) @ [(1, Step), (1, Return)] @
     replicate 4 (2, Step) @ [(2, Return), (0, Recycle 192)]"


text \<open>Thread 2 is about to hand the node over while thread 1 still holds it.\<close>

lemma hand_over_state:
  obtains tr s where "list_exec (list_start 3 ex_list_mem 64 128 [192]) tr s" "length (l_threads s) = 3"
    "l_pc (l_threads s ! 2) = Hand_over" "l_right (l_threads s ! 2) = 192" "192 \<in> holds (l_threads s ! 1)"
proof -
  have "case list_run (take 16 race_schedule @ replicate 3 (2, Step)) (list_start 3 ex_list_mem 64 128 [192]) of None \<Rightarrow> False
    | Some (tr, s) \<Rightarrow> length (l_threads s) = 3 \<and> l_pc (l_threads s ! 2) = Hand_over \<and>
        l_right (l_threads s ! 2) = 192 \<and> 192 \<in> holds (l_threads s ! 1)"
    by code_simp
  then obtain tr s where "list_run (take 16 race_schedule @ replicate 3 (2, Step)) (list_start 3 ex_list_mem 64 128 [192]) = Some (tr, s)"
    "length (l_threads s) = 3" "l_pc (l_threads s ! 2) = Hand_over" "l_right (l_threads s ! 2) = 192"
    "192 \<in> holds (l_threads s ! 1)"
    by (auto split: option.splits)
  from that [OF list_run_exec [OF this(1) exec_start, unfolded append_Nil] this(2-5)] show ?thesis .
qed



end
