(* ===== verification/Htlock.thy ===== *)
theory Htlock
  imports Locks
begin

text \<open>
  The hierarchical ticket lock, src/htlock.c: a ticket lock per socket whose tickets are handed out
  in batches, and a global ticket lock between the sockets and the callers of \<open>htlock_trylock\<close>. The
  local counters are C ints; the model keeps them as integers and a step that would go below the
  smallest int is left out (it takes 2^31 attempts to get a local ticket while the leader of the
  socket waits). The numa variants of the allocation are not modelled.
\<close>

section \<open>The lock\<close>

definition NB_TICKETS_LOCAL :: int where "NB_TICKETS_LOCAL = 128"

record ht_lock =
  ht_nxt :: u32
  ht_cur :: u32
  loc_nxt :: "nat \<Rightarrow> int"
  loc_cur :: "nat \<Rightarrow> int"

definition init_htlock :: ht_lock where
  "init_htlock = \<lparr>ht_nxt = 0, ht_cur = 0, loc_nxt = (\<lambda>_. 0), loc_cur = (\<lambda>_. NB_TICKETS_LOCAL)\<rparr>"

definition is_free_hticket :: "ht_lock \<Rightarrow> bool" where
  "is_free_hticket l \<longleftrightarrow> ht_cur l = ht_nxt l"

section \<open>Accesses\<close>

text \<open>The points of \<open>htlock_lock\<close>, with the tickets it holds, of \<open>htlock_release\<close>, with \<open>local_cur\<close>, of
  \<open>htlock_trylock\<close> and of \<open>htlock_release_try\<close>.\<close>

datatype ht_pc =
    Ht_out | Ht_wait int | Ht_lead | Ht_share | Ht_take | Ht_global u32 | Ht_in
  | Ht_rel int | Ht_next int | Ht_last | Ht_inc | Ht_inc_by u32 | Ht_copy u32 | Ht_try_in

text \<open>\<open>htlock_lock\<close>: \<open>DAF_U32\<close> on the local counter, and what the ticket means.\<close>

definition ht_dec :: "nat \<Rightarrow> ht_lock \<Rightarrow> int \<times> ht_lock" where
  "ht_dec n l = (loc_nxt l n - 1, l\<lparr>loc_nxt := (loc_nxt l)(n := loc_nxt l n - 1)\<rparr>)"

definition ht_ticket :: "int \<Rightarrow> ht_pc" where
  "ht_ticket t = (if t < - 1 then Ht_out else if t \<ge> 0 then Ht_wait t else Ht_lead)"

text \<open>The leader of the socket gives tickets to its neighbours and takes a global one.\<close>

definition ht_share :: "nat \<Rightarrow> ht_lock \<Rightarrow> ht_lock" where
  "ht_share n l = l\<lparr>loc_nxt := (loc_nxt l)(n := NB_TICKETS_LOCAL)\<rparr>"

definition ht_take :: "ht_lock \<Rightarrow> u32 \<times> ht_lock" where
  "ht_take l = (ht_nxt l, l\<lparr>ht_nxt := ht_nxt l + 1\<rparr>)"

text \<open>\<open>htlock_release\<close>: the CAS on the local counter, and the two branches.\<close>

definition ht_release_cas :: "nat \<Rightarrow> int \<Rightarrow> ht_lock \<Rightarrow> ht_pc \<times> ht_lock" where
  "ht_release_cas n local_cur l =
     (let (local_nxt, x) = cas local_cur 0 (loc_nxt l n)
      in (if local_cur = 0 \<or> local_cur = local_nxt then Ht_last else Ht_next local_cur,
          l\<lparr>loc_nxt := (loc_nxt l)(n := x)\<rparr>))"

definition ht_release_global :: "nat \<Rightarrow> ht_lock \<Rightarrow> ht_lock" where
  "ht_release_global n l = l\<lparr>loc_cur := (loc_cur l)(n := NB_TICKETS_LOCAL)\<rparr>"

definition ht_release_local :: "nat \<Rightarrow> int \<Rightarrow> ht_lock \<Rightarrow> ht_lock" where
  "ht_release_local n local_cur l = l\<lparr>loc_cur := (loc_cur l)(n := local_cur - 1)\<rparr>"

text \<open>\<open>htlock_trylock\<close>, with the \<open>global_nxt\<close> it has read; the CAS is on both global counters.\<close>

definition htlock_trylock :: "u32 \<Rightarrow> ht_lock \<Rightarrow> bool \<times> ht_lock" where
  "htlock_trylock g l =
     (let (r, x) = cas (g, g) (g + 1, g) (ht_nxt l, ht_cur l)
      in (r = (g, g), l\<lparr>ht_nxt := fst x, ht_cur := snd x\<rparr>))"

text \<open>\<open>cur++\<close>, the value was read before.\<close>

definition ht_inc :: "u32 \<Rightarrow> ht_lock \<Rightarrow> ht_lock" where
  "ht_inc g l = l\<lparr>ht_cur := g + 1\<rparr>"

section \<open>Threads\<close>

record ht_sys =
  ht_mem :: ht_lock
  ht_pcs :: "nat \<Rightarrow> ht_pc"

definition ht_start :: "ht_sys \<Rightarrow> bool" where
  "ht_start s \<longleftrightarrow> ht_mem s = init_htlock \<and> (\<forall>i. ht_pcs s i = Ht_out)"

definition ht_goto :: "nat \<Rightarrow> ht_pc \<Rightarrow> ht_lock \<Rightarrow> ht_sys \<Rightarrow> ht_sys" where
  "ht_goto i p l s = \<lparr>ht_mem = l, ht_pcs = (ht_pcs s)(i := p)\<rparr>"

text \<open>\<open>my_node\<close> of thread i is \<open>nd i\<close>. A lock taken by \<open>htlock_lock\<close> is released by \<open>htlock_release\<close>, one
  taken by \<open>htlock_trylock\<close> by \<open>htlock_release_try\<close>.\<close>

inductive ht_step :: "nat \<Rightarrow> (nat \<Rightarrow> nat) \<Rightarrow> ht_sys \<Rightarrow> ht_sys \<Rightarrow> bool" for N :: nat and nd :: "nat \<Rightarrow> nat" where
  ht_asks: "i < N \<Longrightarrow> ht_pcs s i = Ht_out \<Longrightarrow> - (2 ^ 31) < loc_nxt (ht_mem s) (nd i) \<Longrightarrow>
    ht_dec (nd i) (ht_mem s) = (t, l) \<Longrightarrow> ht_step N nd s (ht_goto i (ht_ticket t) l s)"
| ht_waits: "ht_step N nd s s"
| ht_enters: "i < N \<Longrightarrow> ht_pcs s i = Ht_wait t \<Longrightarrow> loc_cur (ht_mem s) (nd i) = t \<Longrightarrow>
    ht_step N nd s (ht_goto i Ht_in (ht_mem s) s)"
| ht_leads: "i < N \<Longrightarrow> ht_pcs s i = Ht_lead \<Longrightarrow> loc_cur (ht_mem s) (nd i) = NB_TICKETS_LOCAL \<Longrightarrow>
    ht_step N nd s (ht_goto i Ht_share (ht_mem s) s)"
| ht_shares: "i < N \<Longrightarrow> ht_pcs s i = Ht_share \<Longrightarrow> ht_step N nd s (ht_goto i Ht_take (ht_share (nd i) (ht_mem s)) s)"
| ht_takes: "i < N \<Longrightarrow> ht_pcs s i = Ht_take \<Longrightarrow> ht_take (ht_mem s) = (g, l) \<Longrightarrow> ht_step N nd s (ht_goto i (Ht_global g) l s)"
| ht_arrives: "i < N \<Longrightarrow> ht_pcs s i = Ht_global g \<Longrightarrow> ht_cur (ht_mem s) = g \<Longrightarrow>
    ht_step N nd s (ht_goto i Ht_in (ht_mem s) s)"
| ht_reads: "i < N \<Longrightarrow> ht_pcs s i = Ht_in \<Longrightarrow>
    ht_step N nd s (ht_goto i (Ht_rel (loc_cur (ht_mem s) (nd i))) (ht_mem s) s)"
| ht_releases: "i < N \<Longrightarrow> ht_pcs s i = Ht_rel c \<Longrightarrow> ht_release_cas (nd i) c (ht_mem s) = (p, l) \<Longrightarrow>
    ht_step N nd s (ht_goto i p l s)"
| ht_hands_on: "i < N \<Longrightarrow> ht_pcs s i = Ht_next c \<Longrightarrow>
    ht_step N nd s (ht_goto i Ht_out (ht_release_local (nd i) c (ht_mem s)) s)"
| ht_resets: "i < N \<Longrightarrow> ht_pcs s i = Ht_last \<Longrightarrow>
    ht_step N nd s (ht_goto i Ht_inc (ht_release_global (nd i) (ht_mem s)) s)"
| ht_increments: "i < N \<Longrightarrow> ht_pcs s i = Ht_inc \<or> ht_pcs s i = Ht_try_in \<Longrightarrow>
    ht_step N nd s (ht_goto i (Ht_inc_by (ht_cur (ht_mem s))) (ht_mem s) s)"
| ht_leaves: "i < N \<Longrightarrow> ht_pcs s i = Ht_inc_by g \<Longrightarrow> ht_step N nd s (ht_goto i Ht_out (ht_inc g (ht_mem s)) s)"
| ht_copies: "i < N \<Longrightarrow> ht_pcs s i = Ht_out \<Longrightarrow>
    ht_step N nd s (ht_goto i (Ht_copy (ht_nxt (ht_mem s))) (ht_mem s) s)"
| ht_tries: "i < N \<Longrightarrow> ht_pcs s i = Ht_copy g \<Longrightarrow> htlock_trylock g (ht_mem s) = (ok, l) \<Longrightarrow>
    ht_step N nd s (ht_goto i (if ok then Ht_try_in else Ht_out) l s)"

definition ht_inside :: "ht_sys \<Rightarrow> nat \<Rightarrow> bool" where
  "ht_inside s i \<longleftrightarrow> ht_pcs s i \<in> {Ht_in, Ht_try_in} \<or> (\<exists>c. ht_pcs s i = Ht_rel c \<or> ht_pcs s i = Ht_next c) \<or>
     ht_pcs s i \<in> {Ht_last, Ht_inc} \<or> (\<exists>g. ht_pcs s i = Ht_inc_by g)"

section \<open>The two release functions\<close>

text \<open>\<open>TRYLOCK\<close> and \<open>UNLOCK\<close> of lock_if.h, one thread on socket 0.\<close>

definition ht_TRYLOCK :: "ht_lock \<Rightarrow> bool \<times> ht_lock" where
  "ht_TRYLOCK l = htlock_trylock (ht_nxt l) l"

definition ht_UNLOCK :: "ht_lock \<Rightarrow> ht_lock" where
  "ht_UNLOCK l =
     (case ht_release_cas 0 (loc_cur l 0) l of
        (Ht_next c, l1) \<Rightarrow> ht_release_local 0 c l1
      | (_, l1) \<Rightarrow> ht_inc (ht_cur l1) (ht_release_global 0 l1))"



section \<open>Invariant of a socket\<close>

text \<open>The thread that holds the session of a socket: from the moment the leader has given out tickets,
  through the threads that pass the lock on, until the last of them gives it up. \<open>T\<close>: the threads of
  the socket, \<open>nx\<close>, \<open>cu\<close> its counters.\<close>

definition ht_session :: "ht_pc \<Rightarrow> bool" where
  "ht_session p \<longleftrightarrow> p \<in> {Ht_take, Ht_in} \<or> (\<exists>g. p = Ht_global g) \<or> (\<exists>c. p = Ht_rel c \<or> p = Ht_next c)"

definition ht_leader :: "ht_pc \<Rightarrow> bool" where
  "ht_leader p \<longleftrightarrow> p = Ht_lead \<or> p = Ht_share"

definition leader_ok :: "nat set \<Rightarrow> int \<Rightarrow> (nat \<Rightarrow> ht_pc) \<Rightarrow> bool" where
  "leader_ok T nx pcs \<longleftrightarrow>
     (nx < 0 \<longleftrightarrow> (\<exists>j \<in> T. ht_leader (pcs j))) \<and>
     (\<forall>j \<in> T. \<forall>k \<in> T. ht_leader (pcs j) \<longrightarrow> ht_leader (pcs k) \<longrightarrow> j = k)"

text \<open>The tickets between the counters are with one thread each.\<close>

definition tickets_ok :: "nat set \<Rightarrow> int \<Rightarrow> int \<Rightarrow> (nat \<Rightarrow> ht_pc) \<Rightarrow> nat \<Rightarrow> bool" where
  "tickets_ok T nx cu pcs j \<longleftrightarrow>
     (\<forall>t. max 0 nx \<le> t \<and> t < cu \<longleftrightarrow> (\<exists>k \<in> T - {j}. pcs k = Ht_wait t)) \<and>
     (\<forall>k \<in> T. \<forall>k' \<in> T. \<forall>t. pcs k = Ht_wait t \<longrightarrow> pcs k' = Ht_wait t \<longrightarrow> k = k')"

definition session_ok :: "nat set \<Rightarrow> int \<Rightarrow> int \<Rightarrow> (nat \<Rightarrow> ht_pc) \<Rightarrow> nat \<Rightarrow> bool" where
  "session_ok T nx cu pcs j \<longleftrightarrow>
     j \<in> T \<and> (ht_session (pcs j) \<or> pcs j = Ht_wait cu) \<and> (\<forall>k \<in> T. ht_session (pcs k) \<longrightarrow> k = j) \<and>
     0 \<le> cu \<and> cu \<le> 128 \<and> nx \<le> cu \<and> (pcs j = Ht_take \<or> (\<exists>g. pcs j = Ht_global g) \<longrightarrow> cu = 128) \<and>
     (\<forall>c. pcs j = Ht_rel c \<longrightarrow> c = cu) \<and> (\<forall>c. pcs j = Ht_next c \<longrightarrow> c = cu \<and> 0 < c \<and> nx < c) \<and>
     tickets_ok T nx cu pcs j"

definition vacant_ok :: "nat set \<Rightarrow> int \<Rightarrow> int \<Rightarrow> (nat \<Rightarrow> ht_pc) \<Rightarrow> bool" where
  "vacant_ok T nx cu pcs \<longleftrightarrow>
     nx \<le> 0 \<and> (\<forall>j \<in> T. \<not> ht_session (pcs j) \<and> (\<forall>t. pcs j \<noteq> Ht_wait t)) \<and> (cu = 128 \<or> (\<exists>j \<in> T. pcs j = Ht_last))"

definition socket_ok :: "nat set \<Rightarrow> int \<Rightarrow> int \<Rightarrow> (nat \<Rightarrow> ht_pc) \<Rightarrow> nat option \<Rightarrow> bool" where
  "socket_ok T nx cu pcs so \<longleftrightarrow>
     leader_ok T nx pcs \<and> (\<forall>j \<in> T. pcs j = Ht_share \<longrightarrow> so = None \<and> cu = 128) \<and>
     (case so of None \<Rightarrow> vacant_ok T nx cu pcs | Some j \<Rightarrow> session_ok T nx cu pcs j)"

lemma socket_ok_cong:
  assumes "\<forall>j \<in> T. pcs' j = pcs j"
  shows "socket_ok T nx cu pcs' so = socket_ok T nx cu pcs so"
proof -
  have "leader_ok T nx pcs' = leader_ok T nx pcs" using assms by (simp add: leader_ok_def)
  moreover have "vacant_ok T nx cu pcs' = vacant_ok T nx cu pcs" using assms by (simp add: vacant_ok_def)
  moreover have "session_ok T nx cu pcs' j = session_ok T nx cu pcs j" for j
  proof (cases "j \<in> T")
    case True
    have "(\<exists>k \<in> T - {j}. pcs' k = Ht_wait t) = (\<exists>k \<in> T - {j}. pcs k = Ht_wait t)" for t using assms by auto
    moreover have "pcs' j = pcs j" using assms True by simp
    ultimately show ?thesis using assms by (simp add: session_ok_def tickets_ok_def)
  qed (simp add: session_ok_def)
  ultimately show ?thesis using assms by (simp add: socket_ok_def split: option.splits)
qed

section \<open>Invariant of the lock\<close>

text \<open>Who has a global ticket; \<open>w\<close>: has the local ticket that is being served.\<close>

definition ht_global_pc :: "bool \<Rightarrow> ht_pc \<Rightarrow> bool" where
  "ht_global_pc w p \<longleftrightarrow> w \<or> (\<exists>g. p = Ht_global g \<or> p = Ht_inc_by g) \<or> (\<exists>c. p = Ht_rel c \<or> p = Ht_next c) \<or>
     p \<in> {Ht_in, Ht_last, Ht_inc, Ht_try_in}"

fun ht_place :: "u32 \<Rightarrow> nat \<Rightarrow> ht_pc \<Rightarrow> bool" where
  "ht_place c k (Ht_global g) \<longleftrightarrow> g = c + of_nat k"
| "ht_place c k (Ht_inc_by g) \<longleftrightarrow> k = 0 \<and> g = c"
| "ht_place c k _ \<longleftrightarrow> k = 0"

definition served :: "(nat \<Rightarrow> nat) \<Rightarrow> ht_sys \<Rightarrow> nat \<Rightarrow> bool" where
  "served nd s i \<longleftrightarrow> ht_pcs s i = Ht_wait (loc_cur (ht_mem s) (nd i))"

definition global_ok :: "nat \<Rightarrow> (nat \<Rightarrow> nat) \<Rightarrow> ht_sys \<Rightarrow> nat list \<Rightarrow> bool" where
  "global_ok N nd s q \<longleftrightarrow>
     distinct q \<and> set q \<subseteq> {..<N} \<and> ht_nxt (ht_mem s) = ht_cur (ht_mem s) + of_nat (length q) \<and>
     (\<forall>i. i \<in> set q \<longleftrightarrow> ht_global_pc (served nd s i) (ht_pcs s i)) \<and>
     (\<forall>k < length q. ht_place (ht_cur (ht_mem s)) k (ht_pcs s (q ! k)))"

definition members :: "nat \<Rightarrow> (nat \<Rightarrow> nat) \<Rightarrow> nat \<Rightarrow> nat set" where
  "members N nd n = {j. j < N \<and> nd j = n}"

definition ht_inv :: "nat \<Rightarrow> (nat \<Rightarrow> nat) \<Rightarrow> ht_sys \<Rightarrow> nat list \<Rightarrow> (nat \<Rightarrow> nat option) \<Rightarrow> bool" where
  "ht_inv N nd s q sess \<longleftrightarrow>
     global_ok N nd s q \<and>
     (\<forall>n. socket_ok (members N nd n) (loc_nxt (ht_mem s) n) (loc_cur (ht_mem s) n) (ht_pcs s) (sess n)) \<and>
     (\<forall>i \<ge> N. ht_pcs s i = Ht_out)"

lemma ht_invD:
  assumes "ht_inv N nd s q sess"
  shows "global_ok N nd s q"
    "socket_ok (members N nd n) (loc_nxt (ht_mem s) n) (loc_cur (ht_mem s) n) (ht_pcs s) (sess n)"
    "N \<le> i \<Longrightarrow> ht_pcs s i = Ht_out"
  using assms by (simp_all add: ht_inv_def)

text \<open>A step of thread i changes its own socket and its own point.\<close>

lemma ht_inv_step:
  assumes inv: "ht_inv N nd s q sess" and i: "i < N"
    and frame: "\<And>n. n \<noteq> nd i \<Longrightarrow> loc_nxt l n = loc_nxt (ht_mem s) n \<and> loc_cur l n = loc_cur (ht_mem s) n"
    and g: "global_ok N nd (ht_goto i p l s) q'"
    and own: "socket_ok (members N nd (nd i)) (loc_nxt l (nd i)) (loc_cur l (nd i)) ((ht_pcs s)(i := p)) so"
  shows "ht_inv N nd (ht_goto i p l s) q' (sess(nd i := so))"
proof -
  have "socket_ok (members N nd n) (loc_nxt l n) (loc_cur l n) ((ht_pcs s)(i := p)) ((sess(nd i := so)) n)" for n
  proof (cases "n = nd i")
    case True then show ?thesis using own by simp
  next
    case False
    have "socket_ok (members N nd n) (loc_nxt l n) (loc_cur l n) (ht_pcs s) (sess n)"
      using ht_invD(2) [OF inv, of n] frame [OF False] by simp
    moreover have "\<forall>j \<in> (members N nd n). ((ht_pcs s)(i := p)) j = ht_pcs s j" using False by (auto simp: members_def)
    moreover have "(sess(nd i := so)) n = sess n" using False by simp
    ultimately show ?thesis
      using socket_ok_cong [of "members N nd n" "(ht_pcs s)(i := p)" "ht_pcs s"] by (simp only:)
  qed
  then show ?thesis using g ht_invD(3) [OF inv] i by (simp add: ht_inv_def ht_goto_def)
qed

text \<open>The queue of global tickets.\<close>

lemma global_length:
  assumes "global_ok N nd s q" "N < 2 ^ 32"
  shows "length q \<le> N" "k \<le> length q \<Longrightarrow> of_nat k = (0 :: u32) \<longleftrightarrow> k = 0"
proof -
  have "card (set q) \<le> card {..<N}" using assms(1) by (intro card_mono) (auto simp: global_ok_def)
  then show len: "length q \<le> N" using assms(1) by (simp add: global_ok_def distinct_card)
  assume "k \<le> length q"
  then have "unat (of_nat k :: u32) = k" using len assms(2) by (simp add: unat_of_nat_less)
  then show "of_nat k = (0 :: u32) \<longleftrightarrow> k = 0" by (metis unat_eq_zero)
qed

lemma global_member:
  assumes "global_ok N nd s q" "ht_global_pc (served nd s i) (ht_pcs s i)"
  obtains k where "k < length q" "q ! k = i" "ht_place (ht_cur (ht_mem s)) k (ht_pcs s i)"
proof -
  have "i \<in> set q" using assms by (simp add: global_ok_def)
  then obtain k where "k < length q" "q ! k = i" by (auto simp: in_set_conv_nth)
  then show ?thesis using assms(1) that by (auto simp: global_ok_def)
qed

text \<open>Only the first of the queue is past the global lock.\<close>

lemma global_first:
  assumes g: "global_ok N nd s q" and i: "ht_global_pc (served nd s i) (ht_pcs s i)" "\<And>g. ht_pcs s i \<noteq> Ht_global g"
  shows "\<exists>q'. q = i # q'"
proof -
  obtain k where k: "k < length q" "q ! k = i" "ht_place (ht_cur (ht_mem s)) k (ht_pcs s i)" by (rule global_member [OF g i(1)])
  have "k = 0"
  proof (cases "ht_pcs s i")
    case (Ht_global g) then show ?thesis using i(2) by blast
  qed (use k(3) in simp_all)
  then show ?thesis using k by (cases q) auto
qed

text \<open>Changes of the queue, given what the step does to the counters and to \<open>served\<close>.\<close>

lemma global_same:
  assumes g: "global_ok N nd s q" and m: "ht_nxt l = ht_nxt (ht_mem s)" "ht_cur l = ht_cur (ht_mem s)"
    and sv: "\<And>j. j \<noteq> i \<Longrightarrow> served nd (ht_goto i p l s) j = served nd s j"
    and p: "ht_global_pc (served nd (ht_goto i p l s) i) p = ht_global_pc (served nd s i) (ht_pcs s i)"
    and pl: "\<And>k. k < length q \<Longrightarrow> q ! k = i \<Longrightarrow> ht_place (ht_cur (ht_mem s)) k p"
  shows "global_ok N nd (ht_goto i p l s) q"
proof -
  have "j \<in> set q \<longleftrightarrow> ht_global_pc (served nd (ht_goto i p l s) j) (((ht_pcs s)(i := p)) j)" for j
    using g sv p by (cases "j = i") (simp_all add: global_ok_def)
  moreover have "ht_place (ht_cur (ht_mem s)) k (((ht_pcs s)(i := p)) (q ! k))" if "k < length q" for k
    using g pl that by (cases "q ! k = i") (simp_all add: global_ok_def)
  ultimately show ?thesis using g m by (simp add: global_ok_def ht_goto_def)
qed

lemma global_join:
  assumes g: "global_ok N nd s q" and i: "i < N" "\<not> ht_global_pc (served nd s i) (ht_pcs s i)"
    and m: "ht_nxt l = ht_nxt (ht_mem s) + 1" "ht_cur l = ht_cur (ht_mem s)" "loc_cur l = loc_cur (ht_mem s)"
    and p: "ht_global_pc False p" "ht_place (ht_cur (ht_mem s)) (length q) p"
  shows "global_ok N nd (ht_goto i p l s) (q @ [i])"
proof -
  have iq: "i \<notin> set q" using g i(2) by (simp add: global_ok_def)
  have "ht_global_pc w p" for w using p(1) by (auto simp: ht_global_pc_def)
  then have "j \<in> set (q @ [i]) \<longleftrightarrow> ht_global_pc (served nd (ht_goto i p l s) j) (((ht_pcs s)(i := p)) j)" for j
    using g m(3) by (cases "j = i") (simp_all add: global_ok_def served_def ht_goto_def)
  moreover have "ht_place (ht_cur (ht_mem s)) k (((ht_pcs s)(i := p)) ((q @ [i]) ! k))" if "k < length (q @ [i])" for k
  proof (cases "k = length q")
    case True then show ?thesis using p(2) by simp
  next
    case False
    then have k: "k < length q" using that by simp
    then have "q ! k \<noteq> i" using iq nth_mem by fastforce
    then show ?thesis using g k by (simp add: global_ok_def nth_append)
  qed
  ultimately show ?thesis using g m i iq by (simp add: global_ok_def ht_goto_def)
qed

lemma global_leave:
  assumes g: "global_ok N nd s (i # q)"
    and m: "ht_nxt l = ht_nxt (ht_mem s)" "ht_cur l = ht_cur (ht_mem s) + 1" "loc_cur l = loc_cur (ht_mem s)"
  shows "global_ok N nd (ht_goto i Ht_out l s) q"
proof -
  have iq: "i \<notin> set q" using g by (simp add: global_ok_def)
  have "j \<in> set q \<longleftrightarrow> ht_global_pc (served nd (ht_goto i Ht_out l s) j) (((ht_pcs s)(i := Ht_out)) j)" for j
  proof (cases "j = i")
    case True then show ?thesis using iq by (simp add: ht_global_pc_def served_def ht_goto_def)
  next
    case False
    have "j \<in> set (i # q) \<longleftrightarrow> ht_global_pc (served nd s j) (ht_pcs s j)" using g unfolding global_ok_def by blast
    then show ?thesis using False m(3) by (simp add: served_def ht_goto_def)
  qed
  moreover have "ht_place (ht_cur (ht_mem s) + 1) k (((ht_pcs s)(i := Ht_out)) (q ! k))" if k: "k < length q" for k
  proof -
    have ne: "q ! k \<noteq> i" using iq k nth_mem by fastforce
    have "Suc k < length (i # q)" using k by simp
    then have "ht_place (ht_cur (ht_mem s)) (Suc k) (ht_pcs s ((i # q) ! Suc k))" using g unfolding global_ok_def by blast
    then have "ht_place (ht_cur (ht_mem s) + 1) k (ht_pcs s (q ! k))"
      by (cases "ht_pcs s (q ! k)") (simp_all add: algebra_simps)
    then show ?thesis using ne by simp
  qed
  ultimately show ?thesis using g m by (simp add: global_ok_def ht_goto_def algebra_simps)
qed

text \<open>The first of the queue passes its place on to k.\<close>

lemma global_pass:
  assumes g: "global_ok N nd s (i # q)" and k: "k < N" "k \<noteq> i" "\<not> ht_global_pc (served nd s k) (ht_pcs s k)"
    and m: "ht_nxt l = ht_nxt (ht_mem s)" "ht_cur l = ht_cur (ht_mem s)"
    and sv: "\<And>j. j \<noteq> i \<Longrightarrow> served nd (ht_goto i Ht_out l s) j \<longleftrightarrow> served nd s j \<or> j = k"
    and p: "\<And>c. ht_place c 0 (ht_pcs s k)"
  shows "global_ok N nd (ht_goto i Ht_out l s) (k # q)"
proof -
  have iq: "i \<notin> set q" and kq: "k \<notin> set q" using g k by (auto simp: global_ok_def)
  have "j \<in> set (k # q) \<longleftrightarrow> ht_global_pc (served nd (ht_goto i Ht_out l s) j) (((ht_pcs s)(i := Ht_out)) j)" for j
  proof (cases "j = i")
    case True then show ?thesis using iq k(2) by (simp add: ht_global_pc_def served_def ht_goto_def)
  next
    case False
    have "j \<in> set (i # q) \<longleftrightarrow> ht_global_pc (served nd s j) (ht_pcs s j)" using g unfolding global_ok_def by blast
    then show ?thesis using False sv [OF False] by (auto simp: ht_global_pc_def)
  qed
  moreover have "ht_place (ht_cur (ht_mem s)) m (((ht_pcs s)(i := Ht_out)) ((k # q) ! m))" if m: "m < length (k # q)" for m
  proof (cases m)
    case 0 then show ?thesis using p k(2) by simp
  next
    case (Suc m')
    then have ne: "q ! m' \<noteq> i" using iq m nth_mem by fastforce
    have "m < length (i # q)" using m by simp
    then have "ht_place (ht_cur (ht_mem s)) m (ht_pcs s ((i # q) ! m))" using g unfolding global_ok_def by blast
    then show ?thesis using ne Suc by simp
  qed
  ultimately show ?thesis using g m k kq by (simp add: global_ok_def ht_goto_def)
qed

section \<open>Steps of a socket\<close>

lemmas socket_defs = socket_ok_def leader_ok_def vacant_ok_def session_ok_def tickets_ok_def ht_session_def ht_leader_def

text \<open>A step between two points that the socket does not distinguish.\<close>

definition socket_class :: "ht_pc \<Rightarrow> nat" where
  "socket_class p = (case p of Ht_out \<Rightarrow> 0 | Ht_inc \<Rightarrow> 0 | Ht_inc_by _ \<Rightarrow> 0 | Ht_copy _ \<Rightarrow> 0 | Ht_try_in \<Rightarrow> 0 | _ \<Rightarrow> 1)"

lemma socket_neutral:
  assumes s: "socket_ok T nx cu pcs so" and p: "socket_class (pcs i) = 0" "socket_class p = 0"
  shows "socket_ok T nx cu (pcs(i := p)) so"
proof -
  have n: "\<not> ht_session q" "\<not> ht_leader q" "q \<noteq> Ht_wait t" "q \<noteq> Ht_share" "q \<noteq> Ht_last" "q \<noteq> Ht_take" "q \<noteq> Ht_global g"
    "q \<noteq> Ht_rel c" "q \<noteq> Ht_next c"
    if "socket_class q = 0" for q t g c
    using that by (cases q; simp add: socket_class_def ht_session_def ht_leader_def)+
  have *: "ht_session ((pcs(i := p)) j) = ht_session (pcs j)" "ht_leader ((pcs(i := p)) j) = ht_leader (pcs j)"
    "((pcs(i := p)) j = Ht_wait t) = (pcs j = Ht_wait t)" "((pcs(i := p)) j = Ht_share) = (pcs j = Ht_share)"
    "((pcs(i := p)) j = Ht_last) = (pcs j = Ht_last)" "((pcs(i := p)) j = Ht_take) = (pcs j = Ht_take)"
    "((pcs(i := p)) j = Ht_global g) = (pcs j = Ht_global g)" "((pcs(i := p)) j = Ht_rel c) = (pcs j = Ht_rel c)"
    "((pcs(i := p)) j = Ht_next c) = (pcs j = Ht_next c)" for j t g c
    using n [OF p(1)] n [OF p(2)] by (cases "j = i"; simp)+
  show ?thesis using s unfolding socket_ok_def leader_ok_def vacant_ok_def session_ok_def tickets_ok_def * .
qed

lemma socket_okD:
  assumes "socket_ok T nx cu pcs so"
  shows "leader_ok T nx pcs" "j \<in> T \<Longrightarrow> pcs j = Ht_share \<Longrightarrow> so = None \<and> cu = 128"
    "so = None \<Longrightarrow> vacant_ok T nx cu pcs" "so = Some i \<Longrightarrow> session_ok T nx cu pcs i"
  using assms unfolding socket_ok_def by (blast, blast, simp_all)

lemma socket_okI:
  assumes "leader_ok T nx pcs" "\<And>j. j \<in> T \<Longrightarrow> pcs j = Ht_share \<Longrightarrow> so = None \<and> cu = 128"
    "so = None \<Longrightarrow> vacant_ok T nx cu pcs" "\<And>i. so = Some i \<Longrightarrow> session_ok T nx cu pcs i"
  shows "socket_ok T nx cu pcs so"
  unfolding socket_ok_def
proof (intro conjI)
  show "\<forall>j \<in> T. pcs j = Ht_share \<longrightarrow> so = None \<and> cu = 128" using assms(2) by blast
  show "case so of None \<Rightarrow> vacant_ok T nx cu pcs | Some j \<Rightarrow> session_ok T nx cu pcs j"
    using assms(3,4) by (cases so) simp_all
qed (rule assms(1))

lemma session_okD:
  assumes "session_ok T nx cu pcs j"
  shows "j \<in> T" "ht_session (pcs j) \<or> pcs j = Ht_wait cu" "k \<in> T \<Longrightarrow> ht_session (pcs k) \<Longrightarrow> k = j"
    "0 \<le> cu" "cu \<le> 128" "nx \<le> cu" "pcs j = Ht_take \<Longrightarrow> cu = 128" "pcs j = Ht_global g \<Longrightarrow> cu = 128"
    "pcs j = Ht_rel c \<Longrightarrow> c = cu" "pcs j = Ht_next c \<Longrightarrow> c = cu \<and> 0 < c \<and> nx < c" "tickets_ok T nx cu pcs j"
  using assms unfolding session_ok_def by blast+

lemma session_okI:
  assumes "j \<in> T" "ht_session (pcs j) \<or> pcs j = Ht_wait cu" "\<And>k. k \<in> T \<Longrightarrow> ht_session (pcs k) \<Longrightarrow> k = j"
    "0 \<le> cu" "cu \<le> 128" "nx \<le> cu" "pcs j = Ht_take \<Longrightarrow> cu = 128" "\<And>g. pcs j = Ht_global g \<Longrightarrow> cu = 128"
    "\<And>c. pcs j = Ht_rel c \<Longrightarrow> c = cu" "\<And>c. pcs j = Ht_next c \<Longrightarrow> c = cu \<and> 0 < c \<and> nx < c" "tickets_ok T nx cu pcs j"
  shows "session_ok T nx cu pcs j"
  using assms unfolding session_ok_def by blast

lemma tickets_okD:
  assumes "tickets_ok T nx cu pcs j"
  shows "max 0 nx \<le> t \<Longrightarrow> t < cu \<Longrightarrow> \<exists>k. k \<in> T \<and> k \<noteq> j \<and> pcs k = Ht_wait t"
    "k \<in> T \<Longrightarrow> k \<noteq> j \<Longrightarrow> pcs k = Ht_wait t \<Longrightarrow> max 0 nx \<le> t \<and> t < cu"
    "k \<in> T \<Longrightarrow> k' \<in> T \<Longrightarrow> pcs k = Ht_wait t \<Longrightarrow> pcs k' = Ht_wait t \<Longrightarrow> k = k'"
  using assms unfolding tickets_ok_def by blast+

lemma tickets_okI:
  assumes "\<And>t. max 0 nx \<le> t \<Longrightarrow> t < cu \<Longrightarrow> \<exists>k. k \<in> T \<and> k \<noteq> j \<and> pcs k = Ht_wait t"
    "\<And>k t. k \<in> T \<Longrightarrow> k \<noteq> j \<Longrightarrow> pcs k = Ht_wait t \<Longrightarrow> max 0 nx \<le> t \<and> t < cu"
    "\<And>k k' t. k \<in> T \<Longrightarrow> k' \<in> T \<Longrightarrow> pcs k = Ht_wait t \<Longrightarrow> pcs k' = Ht_wait t \<Longrightarrow> k = k'"
  shows "tickets_ok T nx cu pcs j"
  using assms unfolding tickets_ok_def by blast

lemma vacant_okD:
  assumes "vacant_ok T nx cu pcs"
  shows "nx \<le> 0" "j \<in> T \<Longrightarrow> \<not> ht_session (pcs j)" "j \<in> T \<Longrightarrow> pcs j \<noteq> Ht_wait t" "cu = 128 \<or> (\<exists>j \<in> T. pcs j = Ht_last)"
  using assms by (simp_all add: vacant_ok_def)

lemma ht_pc_kinds [simp]:
  "ht_session Ht_take" "ht_session Ht_in" "ht_session (Ht_global g)" "ht_session (Ht_rel c)" "ht_session (Ht_next c)"
  "\<not> ht_session Ht_out" "\<not> ht_session (Ht_wait t)" "\<not> ht_session Ht_lead" "\<not> ht_session Ht_share" "\<not> ht_session Ht_last"
  "\<not> ht_session Ht_inc" "\<not> ht_session (Ht_inc_by g)" "\<not> ht_session (Ht_copy g)" "\<not> ht_session Ht_try_in"
  "ht_leader Ht_lead" "ht_leader Ht_share" "\<not> ht_leader Ht_out" "\<not> ht_leader (Ht_wait t)" "\<not> ht_leader Ht_take"
  "\<not> ht_leader Ht_in" "\<not> ht_leader (Ht_global g)" "\<not> ht_leader (Ht_rel c)" "\<not> ht_leader (Ht_next c)" "\<not> ht_leader Ht_last"
  "\<not> ht_leader Ht_inc" "\<not> ht_leader (Ht_inc_by g)" "\<not> ht_leader (Ht_copy g)" "\<not> ht_leader Ht_try_in"
  by (simp_all add: ht_session_def ht_leader_def)

lemma leader_upd:
  assumes "leader_ok T nx pcs" "ht_leader (pcs i) = ht_leader p" "nx' < 0 \<longleftrightarrow> nx < 0"
  shows "leader_ok T nx' (pcs(i := p))"
proof -
  have "ht_leader ((pcs(i := p)) j) = ht_leader (pcs j)" for j using assms(2) by simp
  then show ?thesis using assms(1,3) by (simp add: leader_ok_def del: fun_upd_apply)
qed

lemma tickets_upd:
  assumes t: "tickets_ok T nx cu pcs j" and i: "i = j \<or> (\<forall>t. pcs i \<noteq> Ht_wait t)" and p: "\<And>t. p \<noteq> Ht_wait t"
    and nx: "max 0 nx' = max 0 nx"
  shows "tickets_ok T nx' cu (pcs(i := p)) j"
proof (rule tickets_okI)
  fix t assume "max 0 nx' \<le> t" "t < cu"
  then obtain k where "k \<in> T" "k \<noteq> j" "pcs k = Ht_wait t" using tickets_okD(1) [OF t] nx by metis
  then show "\<exists>k. k \<in> T \<and> k \<noteq> j \<and> (pcs(i := p)) k = Ht_wait t" using i by (intro exI [of _ k]) auto
next
  fix k t assume "k \<in> T" "k \<noteq> j" "(pcs(i := p)) k = Ht_wait t"
  then show "max 0 nx' \<le> t \<and> t < cu" using tickets_okD(2) [OF t, of k t] p nx by (cases "k = i") simp_all
next
  fix k k' t assume "k \<in> T" "k' \<in> T" "(pcs(i := p)) k = Ht_wait t" "(pcs(i := p)) k' = Ht_wait t"
  then show "k = k'" using tickets_okD(3) [OF t, of k k' t] p by (cases "k = i"; cases "k' = i") simp_all
qed

lemma vacant_upd:
  assumes v: "vacant_ok T nx cu pcs" and p: "\<not> ht_session p" "\<And>t. p \<noteq> Ht_wait t" "pcs i \<noteq> Ht_last" and nx: "nx' \<le> 0"
  shows "vacant_ok T nx' cu (pcs(i := p))"
  unfolding vacant_ok_def
proof (intro conjI ballI)
  show "nx' \<le> 0" by (rule nx)
  fix j assume j: "j \<in> T"
  show "\<not> ht_session ((pcs(i := p)) j)" using vacant_okD(2) [OF v j] p by (cases "j = i") simp_all
  show "\<forall>t. (pcs(i := p)) j \<noteq> Ht_wait t" using vacant_okD(3) [OF v j] p by (cases "j = i") simp_all
next
  show "cu = 128 \<or> (\<exists>j \<in> T. (pcs(i := p)) j = Ht_last)"
  proof (cases "cu = 128")
    case False
    then obtain j where "j \<in> T" "pcs j = Ht_last" using vacant_okD(4) [OF v] by blast
    then have "(pcs(i := p)) j = Ht_last" using p(3) by (cases "j = i") simp_all
    then show ?thesis using \<open>j \<in> T\<close> by blast
  qed simp
qed

lemma session_less:
  assumes s: "session_ok T nx cu pcs j" and nx: "nx' \<le> nx" and t: "tickets_ok T nx' cu pcs j"
  shows "session_ok T nx' cu pcs j"
proof (rule session_okI)
  note d = session_okD [OF s]
  show "c = cu \<and> 0 < c \<and> nx' < c" if "pcs j = Ht_next c" for c using d(10) [OF that] nx by simp
  show "nx' \<le> cu" using d(6) nx by simp
qed (use session_okD [OF s] in blast | rule t)+

lemma session_upd:
  assumes s: "session_ok T nx cu pcs j" and i: "i \<noteq> j" "\<not> ht_session p" and nx: "nx' \<le> nx"
    and t: "tickets_ok T nx' cu (pcs(i := p)) j"
  shows "session_ok T nx' cu (pcs(i := p)) j"
proof (rule session_okI)
  note d = session_okD [OF s]
  have e: "(pcs(i := p)) j = pcs j" using i by simp
  show "j \<in> T" "0 \<le> cu" "cu \<le> 128" by (rule d)+
  show "nx' \<le> cu" using d(6) nx by simp
  show "ht_session ((pcs(i := p)) j) \<or> (pcs(i := p)) j = Ht_wait cu" unfolding e by (rule d)
  show "k = j" if "k \<in> T" "ht_session ((pcs(i := p)) k)" for k
    using d(3) [of k] that i by (cases "k = i") simp_all
  show "cu = 128" if "(pcs(i := p)) j = Ht_take" using d(7) that unfolding e .
  show "cu = 128" if "(pcs(i := p)) j = Ht_global g" for g using d(8) that unfolding e .
  show "c = cu" if "(pcs(i := p)) j = Ht_rel c" for c using d(9) that unfolding e .
  show "c = cu \<and> 0 < c \<and> nx' < c" if "(pcs(i := p)) j = Ht_next c" for c using d(10) [OF that [unfolded e]] nx by simp
qed (rule t)

text \<open>\<open>DAF_U32\<close>: a leader, a local ticket, or neither.\<close>

lemma socket_ask:
  assumes s: "socket_ok T nx cu pcs so" and i: "i \<in> T" "pcs i = Ht_out"
  shows "socket_ok T (nx - 1) cu (pcs(i := ht_ticket (nx - 1))) so"
proof -
  note l = socket_okD(1) [OF s]
  have no: "nx \<ge> 0 \<Longrightarrow> j \<in> T \<Longrightarrow> \<not> ht_leader (pcs j)" for j using l by (force simp: leader_ok_def)
  consider "nx < 0" | "nx = 0" | "nx > 0" by linarith
  then show ?thesis
  proof cases
    case 1
    then have "ht_ticket (nx - 1) = pcs i" using i by (simp add: ht_ticket_def)
    then have e: "pcs(i := ht_ticket (nx - 1)) = pcs" by simp
    have ses: "session_ok T (nx - 1) cu pcs j" if "so = Some j" for j
    proof -
      note d = session_okD [OF socket_okD(4) [OF s that]]
      have "tickets_ok T (nx - 1) cu pcs j" using d(11) 1 by (simp add: tickets_ok_def)
      then show ?thesis using session_less [OF socket_okD(4) [OF s that]] by simp
    qed
    have "leader_ok T (nx - 1) pcs" using l 1 by (simp add: leader_ok_def)
    moreover have "so = None \<Longrightarrow> vacant_ok T (nx - 1) cu pcs" using socket_okD(3) [OF s] by (simp add: vacant_ok_def)
    ultimately show ?thesis unfolding e using socket_okD(2) [OF s] ses by (intro socket_okI)
  next
    case 2
    then have t: "ht_ticket (nx - 1) = Ht_lead" by (simp add: ht_ticket_def)
    show ?thesis unfolding t
    proof (rule socket_okI)
      show "leader_ok T (nx - 1) (pcs(i := Ht_lead))" using no i 2 by (auto simp: leader_ok_def)
      show "so = None \<and> cu = 128" if "j \<in> T" "(pcs(i := Ht_lead)) j = Ht_share" for j
        using socket_okD(2) [OF s that(1)] that(2) by (simp split: if_splits)
      show "vacant_ok T (nx - 1) cu (pcs(i := Ht_lead))" if "so = None"
        by (rule vacant_upd [OF socket_okD(3) [OF s that]]) (use i 2 in simp_all)
      fix j assume "so = Some j"
      note d = session_okD [OF socket_okD(4) [OF s this]]
      have ij: "i \<noteq> j" using d(2) i by auto
      have "tickets_ok T (nx - 1) cu (pcs(i := Ht_lead)) j"
        by (rule tickets_upd [OF d(11)]) (use i 2 in simp_all)
      then show "session_ok T (nx - 1) cu (pcs(i := Ht_lead)) j"
        by (intro session_upd [OF socket_okD(4) [OF s \<open>so = Some j\<close>] ij]) simp_all
    qed
  next
    case 3
    then have t: "ht_ticket (nx - 1) = Ht_wait (nx - 1)" by (simp add: ht_ticket_def)
    have so: "so \<noteq> None" using vacant_okD(1) [OF socket_okD(3) [OF s]] 3 by auto
    show ?thesis unfolding t
    proof (rule socket_okI)
      show "leader_ok T (nx - 1) (pcs(i := Ht_wait (nx - 1)))" by (rule leader_upd [OF l]) (use i 3 in simp_all)
      show "so = None \<and> cu = 128" if "j \<in> T" "(pcs(i := Ht_wait (nx - 1))) j = Ht_share" for j
        using socket_okD(2) [OF s that(1)] that(2) by (simp split: if_splits)
      show "vacant_ok T (nx - 1) cu (pcs(i := Ht_wait (nx - 1)))" if "so = None" using so that by blast
      fix j assume "so = Some j"
      note d = session_okD [OF socket_okD(4) [OF s this]]
      have ij: "i \<noteq> j" using d(2) i by auto
      have fresh: "pcs k \<noteq> Ht_wait (nx - 1)" if "k \<in> T" for k
      proof
        assume w: "pcs k = Ht_wait (nx - 1)"
        show False
        proof (cases "k = j")
          case True then show False using d(2,6) w by simp
        next
          case False then show False using tickets_okD(2) [OF d(11) that False w] by simp
        qed
      qed
      have "tickets_ok T (nx - 1) cu (pcs(i := Ht_wait (nx - 1))) j"
      proof (rule tickets_okI)
        fix t assume a: "max 0 (nx - 1) \<le> t" "t < cu"
        show "\<exists>k. k \<in> T \<and> k \<noteq> j \<and> (pcs(i := Ht_wait (nx - 1))) k = Ht_wait t"
        proof (cases "t = nx - 1")
          case True then show ?thesis using i ij by (intro exI [of _ i]) simp
        next
          case False
          then have "max 0 nx \<le> t" using a(1) 3 by simp
          then obtain k where "k \<in> T" "k \<noteq> j" "pcs k = Ht_wait t" using tickets_okD(1) [OF d(11) _ a(2)] by blast
          then show ?thesis using i by (intro exI [of _ k]) auto
        qed
      next
        fix k t assume "k \<in> T" "k \<noteq> j" "(pcs(i := Ht_wait (nx - 1))) k = Ht_wait t"
        then show "max 0 (nx - 1) \<le> t \<and> t < cu"
          using tickets_okD(2) [OF d(11), of k t] d(6) 3 by (cases "k = i") auto
      next
        fix k k' t
        assume "k \<in> T" "k' \<in> T" "(pcs(i := Ht_wait (nx - 1))) k = Ht_wait t" "(pcs(i := Ht_wait (nx - 1))) k' = Ht_wait t"
        then show "k = k'"
          using fresh tickets_okD(3) [OF d(11), of k k' t] by (cases "k = i"; cases "k' = i") auto
      qed
      then show "session_ok T (nx - 1) cu (pcs(i := Ht_wait (nx - 1))) j"
        by (intro session_upd [OF socket_okD(4) [OF s \<open>so = Some j\<close>] ij]) simp_all
    qed
  qed
qed

text \<open>The leader shares its tickets; with fewer than 130 threads on the socket no one is left in it then.\<close>

lemma leader_finds_vacant:
  assumes s: "socket_ok T nx 128 pcs so" and i: "i \<in> T" "pcs i = Ht_lead" and T: "finite T" "card T < 130"
  shows "so = None"
proof (rule ccontr)
  assume "so \<noteq> None"
  then obtain j where j: "so = Some j" by auto
  note d = session_okD [OF socket_okD(4) [OF s j]]
  have nx: "nx < 0" using socket_okD(1) [OF s] i by (force simp: leader_ok_def)
  have "\<exists>k. k \<in> T \<and> k \<noteq> j \<and> pcs k = Ht_wait t" if "t \<in> {0..<128}" for t
    using tickets_okD(1) [OF d(11), of t] nx that by simp
  then obtain f where f: "\<And>t. t \<in> {0..<128} \<Longrightarrow> f t \<in> T \<and> f t \<noteq> j \<and> pcs (f t) = Ht_wait t" by metis
  have inj: "inj_on f {0..<128}"
  proof (rule inj_onI)
    fix x y assume "x \<in> {0..<128}" "y \<in> {0..<128}" "f x = f y"
    note xy = this
    have "pcs (f x) = Ht_wait x" using f [OF xy(1)] by blast
    moreover have "pcs (f x) = Ht_wait y" unfolding xy(3) using f [OF xy(2)] by blast
    ultimately show "x = y" by simp
  qed
  have ij: "i \<noteq> j" using d(2) i by auto
  define F where "F = f ` {0..<128}"
  have "card F = 128" unfolding F_def using card_image [OF inj] by simp
  moreover have "finite F" unfolding F_def by simp
  moreover have "i \<notin> F"
  proof
    assume "i \<in> F"
    then obtain t where "t \<in> {0..<128}" "i = f t" unfolding F_def by blast
    then have "pcs i = Ht_wait t" using f by blast
    then show False using i(2) by simp
  qed
  moreover have "j \<notin> F" unfolding F_def using f by blast
  ultimately have "card (insert i (insert j F)) = 130" using ij by simp
  moreover have "insert i (insert j F) \<subseteq> T" unfolding F_def using f i(1) d(1) by blast
  ultimately show False using card_mono [OF T(1), of "insert i (insert j F)"] T(2) by simp
qed

lemma socket_lead:
  assumes s: "socket_ok T nx 128 pcs so" and i: "i \<in> T" "pcs i = Ht_lead" and T: "finite T" "card T < 130"
  shows "socket_ok T nx 128 (pcs(i := Ht_share)) so"
proof -
  have n: "so = None" by (rule leader_finds_vacant [OF s i T])
  note v = vacant_okD [OF socket_okD(3) [OF s n]]
  show ?thesis
  proof (rule socket_okI)
    show "leader_ok T nx (pcs(i := Ht_share))" by (rule leader_upd [OF socket_okD(1) [OF s]]) (use i in simp_all)
    show "vacant_ok T nx 128 (pcs(i := Ht_share))" using v i by (simp add: vacant_ok_def)
  qed (use n in simp_all)
qed

lemma socket_share:
  assumes s: "socket_ok T nx cu pcs so" and i: "i \<in> T" "pcs i = Ht_share"
  shows "socket_ok T 128 cu (pcs(i := Ht_take)) (Some i)"
proof -
  have n: "so = None" and cu: "cu = 128" using socket_okD(2) [OF s i] by simp_all
  note v = vacant_okD [OF socket_okD(3) [OF s n]]
  have nl: "j \<in> T \<Longrightarrow> j \<noteq> i \<Longrightarrow> \<not> ht_leader (pcs j)" for j
    using socket_okD(1) [OF s] i by (force simp: leader_ok_def)
  have tk: "tickets_ok T 128 cu (pcs(i := Ht_take)) i"
    by (rule tickets_okI) (use v(3) cu in \<open>auto split: if_splits\<close>)
  show ?thesis
  proof (rule socket_okI)
    show "leader_ok T 128 (pcs(i := Ht_take))" using nl by (auto simp: leader_ok_def)
    show "Some i = None \<and> cu = 128" if "j \<in> T" "(pcs(i := Ht_take)) j = Ht_share" for j
      using nl [OF that(1)] that(2) by (cases "j = i") auto
    show "session_ok T 128 cu (pcs(i := Ht_take)) k" if "Some i = Some k" for k
    proof -
      have un: "k' = i" if "k' \<in> T" "ht_session ((pcs(i := Ht_take)) k')" for k'
      proof (rule ccontr)
        assume "k' \<noteq> i"
        then show False using that(2) v(2) [OF that(1)] by simp
      qed
      have "session_ok T 128 cu (pcs(i := Ht_take)) i"
      proof (rule session_okI)
        show "k' = i" if "k' \<in> T" "ht_session ((pcs(i := Ht_take)) k')" for k' by (rule un [OF that])
      qed (use tk i(1) cu in simp_all)
      then show ?thesis using that by simp
    qed
  qed simp
qed

text \<open>The session of a thread that has one.\<close>

lemma session_of:
  assumes s: "socket_ok T nx cu pcs so" and i: "i \<in> T" and p: "ht_session (pcs i) \<or> pcs i = Ht_wait cu"
  shows "so = Some i" "session_ok T nx cu pcs i"
proof -
  have "so \<noteq> None" using vacant_okD(2,3) [OF socket_okD(3) [OF s] i] p by auto
  then obtain j where j: "so = Some j" by auto
  note d = session_okD [OF socket_okD(4) [OF s j]]
  have "i = j"
  proof (cases "ht_session (pcs i)")
    case True then show ?thesis using d(3) i by blast
  next
    case False
    then have "pcs i = Ht_wait cu" using p by simp
    then show ?thesis using tickets_okD(2) [OF d(11) i] by blast
  qed
  then show "so = Some i" "session_ok T nx cu pcs i" using j socket_okD(4) [OF s j] by simp_all
qed

lemma socket_session_move:
  assumes s: "socket_ok T nx cu pcs so" and i: "i \<in> T" and p: "ht_session (pcs i) \<or> pcs i = Ht_wait cu"
    and p': "ht_session p'" "p' = Ht_take \<Longrightarrow> cu = 128" "\<And>g. p' = Ht_global g \<Longrightarrow> cu = 128" "\<And>c. p' = Ht_rel c \<Longrightarrow> c = cu"
      "\<And>c. p' = Ht_next c \<Longrightarrow> c = cu \<and> 0 < c \<and> nx < c"
  shows "socket_ok T nx cu (pcs(i := p')) so"
proof -
  note ses = session_of [OF s i p]
  note d = session_okD [OF ses(2)]
  have nw: "p' \<noteq> Ht_wait t" "\<not> ht_leader p'" "p' \<noteq> Ht_share" for t using p'(1) by (auto simp: ht_session_def ht_leader_def)
  have ol: "\<not> ht_leader (pcs i)" using p by (auto simp: ht_session_def ht_leader_def)
  have tk: "tickets_ok T nx cu (pcs(i := p')) i" by (rule tickets_upd [OF d(11)]) (use nw(1) in simp_all)
  show ?thesis unfolding ses(1)
  proof (rule socket_okI)
    show "leader_ok T nx (pcs(i := p'))" by (rule leader_upd [OF socket_okD(1) [OF s]]) (use ol nw(2) in simp_all)
    show "Some i = None \<and> cu = 128" if "j \<in> T" "(pcs(i := p')) j = Ht_share" for j
      using socket_okD(2) [OF s that(1)] that(2) nw(3) ses(1) by (cases "j = i") auto
    show "session_ok T nx cu (pcs(i := p')) k" if "Some i = Some k" for k
    proof -
      have un: "k' = i" if "k' \<in> T" "ht_session ((pcs(i := p')) k')" for k'
      proof (rule ccontr)
        assume "k' \<noteq> i"
        then show False using that(2) d(3) [OF that(1)] by simp
      qed
      have "session_ok T nx cu (pcs(i := p')) i"
      proof (rule session_okI)
        show "k' = i" if "k' \<in> T" "ht_session ((pcs(i := p')) k')" for k' by (rule un [OF that])
        show "cu = 128" if "(pcs(i := p')) i = Ht_take" using p'(2) that by simp
        show "cu = 128" if "(pcs(i := p')) i = Ht_global g" for g using p'(3) that by simp
        show "c = cu" if "(pcs(i := p')) i = Ht_rel c" for c using p'(4) that by simp
        show "c = cu \<and> 0 < c \<and> nx < c" if "(pcs(i := p')) i = Ht_next c" for c using p'(5) that by simp
        show "ht_session ((pcs(i := p')) i) \<or> (pcs(i := p')) i = Ht_wait cu" using p'(1) by simp
      qed (rule i d(4-6) tk)+
      then show ?thesis using that by simp
    qed
  qed simp
qed

text \<open>Giving up the session.\<close>

lemma socket_last:
  assumes s: "socket_ok T nx cu pcs so" and i: "i \<in> T" "pcs i = Ht_rel cu" and c: "cu = 0 \<or> nx = cu"
  shows "socket_ok T (if nx = cu then 0 else nx) cu (pcs(i := Ht_last)) None"
proof -
  have p: "ht_session (pcs i)" using i by simp
  note ses = session_of [OF s i(1) disjI1 [OF p]]
  note d = session_okD [OF ses(2)]
  have none: "pcs k \<noteq> Ht_wait t" if "k \<in> T" for k t
  proof
    assume w: "pcs k = Ht_wait t"
    then have "k \<noteq> i" using i by auto
    then have "max 0 nx \<le> t \<and> t < cu" using tickets_okD(2) [OF d(11) that _ w] by blast
    then show False using c d(4,6) by auto
  qed
  show ?thesis
  proof (rule socket_okI)
    show "leader_ok T (if nx = cu then 0 else nx) (pcs(i := Ht_last))"
      by (rule leader_upd [OF socket_okD(1) [OF s]]) (use i d(4) in simp_all)
    show "(None :: nat option) = None \<and> cu = 128" if "j \<in> T" "(pcs(i := Ht_last)) j = Ht_share" for j
      using socket_okD(2) [OF s that(1)] that(2) ses(1) by (cases "j = i") auto
    show "vacant_ok T (if nx = cu then 0 else nx) cu (pcs(i := Ht_last))"
      unfolding vacant_ok_def
    proof (intro conjI ballI)
      show "(if nx = cu then 0 else nx) \<le> 0" using c d(6) by auto
      fix j assume j: "j \<in> T"
      show "\<not> ht_session ((pcs(i := Ht_last)) j)" using d(3) [OF j] by (cases "j = i") auto
      show "\<forall>t. (pcs(i := Ht_last)) j \<noteq> Ht_wait t" using none [OF j] by (cases "j = i") simp_all
    next
      show "cu = 128 \<or> (\<exists>j \<in> T. (pcs(i := Ht_last)) j = Ht_last)" using i(1) by (intro disjI2 bexI [of _ i]) simp_all
    qed
  qed simp
qed

text \<open>Resetting the counter, by the thread that has given up the session.\<close>

lemma socket_reset:
  assumes s: "socket_ok T nx cu pcs so" and i: "i \<in> T" "pcs i = Ht_last" and c: "so \<noteq> None \<Longrightarrow> cu = 128"
  shows "socket_ok T nx 128 (pcs(i := Ht_inc)) so"
proof (rule socket_okI)
  show "leader_ok T nx (pcs(i := Ht_inc))" by (rule leader_upd [OF socket_okD(1) [OF s]]) (use i in simp_all)
  show "so = None \<and> (128 :: int) = 128" if "j \<in> T" "(pcs(i := Ht_inc)) j = Ht_share" for j
    using socket_okD(2) [OF s that(1)] that(2) by (cases "j = i") auto
  show "vacant_ok T nx 128 (pcs(i := Ht_inc))" if "so = None"
    using vacant_okD [OF socket_okD(3) [OF s that]] by (simp add: vacant_ok_def)
  fix j assume j: "so = Some j"
  note d = session_okD [OF socket_okD(4) [OF s j]]
  have cu: "cu = 128" using c j by simp
  have ij: "i \<noteq> j" using d(2) i by auto
  have "tickets_ok T nx 128 (pcs(i := Ht_inc)) j" by (rule tickets_upd [OF d(11) [unfolded cu]]) (use i in simp_all)
  then show "session_ok T nx 128 (pcs(i := Ht_inc)) j"
    by (intro session_upd [OF socket_okD(4) [OF s j, unfolded cu] ij]) simp_all
qed

text \<open>Handing the session on to the thread with the next ticket.\<close>

lemma socket_hand_on:
  assumes s: "socket_ok T nx cu pcs so" and i: "i \<in> T" "pcs i = Ht_next cu"
  obtains k where "k \<in> T" "k \<noteq> i" "pcs k = Ht_wait (cu - 1)" "\<forall>j \<in> T. pcs j = Ht_wait (cu - 1) \<longrightarrow> j = k"
    "\<forall>j \<in> T. pcs j \<noteq> Ht_wait cu" "socket_ok T nx (cu - 1) (pcs(i := Ht_out)) (Some k)"
proof -
  have p: "ht_session (pcs i)" using i by simp
  note ses = session_of [OF s i(1) disjI1 [OF p]]
  note d = session_okD [OF ses(2)] and tk = tickets_okD [OF session_okD(11) [OF ses(2)]]
  have cu: "0 < cu" "nx < cu" "cu \<le> 128" using d(10) [OF i(2)] d(5) by simp_all
  obtain k where k: "k \<in> T" "k \<noteq> i" "pcs k = Ht_wait (cu - 1)" using tk(1) [of "cu - 1"] cu by auto
  have nocu: "pcs j \<noteq> Ht_wait cu" if "j \<in> T" for j
  proof
    assume w: "pcs j = Ht_wait cu"
    then have "j \<noteq> i" using i by auto
    then show False using tk(2) [OF that _ w] by simp
  qed
  have tk': "tickets_ok T nx (cu - 1) (pcs(i := Ht_out)) k"
  proof (rule tickets_okI)
    fix t assume a: "max 0 nx \<le> t" "t < cu - 1"
    then obtain j where "j \<in> T" "j \<noteq> i" "pcs j = Ht_wait t" using tk(1) [of t] by auto
    then show "\<exists>j. j \<in> T \<and> j \<noteq> k \<and> (pcs(i := Ht_out)) j = Ht_wait t" using k(3) a by (intro exI [of _ j]) auto
  next
    fix j t assume j: "j \<in> T" "j \<noteq> k" "(pcs(i := Ht_out)) j = Ht_wait t"
    then have ji: "j \<noteq> i" "pcs j = Ht_wait t" by (auto split: if_splits)
    have "t \<noteq> cu - 1" using tk(3) [OF j(1) k(1) ji(2)] k(3) j(2) by auto
    then show "max 0 nx \<le> t \<and> t < cu - 1" using tk(2) [OF j(1) ji] by auto
  next
    fix j j' t assume "j \<in> T" "j' \<in> T" "(pcs(i := Ht_out)) j = Ht_wait t" "(pcs(i := Ht_out)) j' = Ht_wait t"
    then show "j = j'" using tk(3) [of j j' t] by (auto split: if_splits)
  qed
  have "socket_ok T nx (cu - 1) (pcs(i := Ht_out)) (Some k)"
  proof (rule socket_okI)
    show "leader_ok T nx (pcs(i := Ht_out))" by (rule leader_upd [OF socket_okD(1) [OF s]]) (use i in simp_all)
    show "Some k = None \<and> cu - 1 = 128" if "j \<in> T" "(pcs(i := Ht_out)) j = Ht_share" for j
      using socket_okD(2) [OF s that(1)] that(2) ses(1) by (cases "j = i") auto
    show "session_ok T nx (cu - 1) (pcs(i := Ht_out)) k'" if "Some k = Some k'" for k'
    proof -
      have un: "j = k" if "j \<in> T" "ht_session ((pcs(i := Ht_out)) j)" for j
      proof (cases "j = i")
        case True then show ?thesis using that(2) by simp
      next
        case False then show ?thesis using that(2) d(3) [OF that(1)] by simp
      qed
      have "session_ok T nx (cu - 1) (pcs(i := Ht_out)) k"
      proof (rule session_okI)
        show "j = k" if "j \<in> T" "ht_session ((pcs(i := Ht_out)) j)" for j by (rule un [OF that])
      qed (use k cu tk' in simp_all)
      then show ?thesis using that by simp
    qed
  qed simp
  then show ?thesis using k tk(3) nocu by (intro that [of k]) blast+
qed

section \<open>Steps of the lock\<close>

text \<open>\<open>served\<close> after a step of thread i.\<close>

lemma ht_goto_sel [simp]: "ht_pcs (ht_goto i p l s) = (ht_pcs s)(i := p)" "ht_mem (ht_goto i p l s) = l"
  by (simp_all add: ht_goto_def)

lemma served_goto:
  "served nd (ht_goto i p l s) j \<longleftrightarrow> (if j = i then p else ht_pcs s j) = Ht_wait (loc_cur l (nd j))"
  by (simp add: served_def)

lemma served_keep: "j \<noteq> i \<Longrightarrow> loc_cur l (nd j) = loc_cur (ht_mem s) (nd j) \<Longrightarrow> served nd (ht_goto i p l s) j = served nd s j"
  by (simp add: served_def)

lemma global_pc_simps [simp]:
  "ht_global_pc w (Ht_global g)" "ht_global_pc w (Ht_inc_by g)" "ht_global_pc w (Ht_rel c)" "ht_global_pc w (Ht_next c)"
  "ht_global_pc w Ht_in" "ht_global_pc w Ht_last" "ht_global_pc w Ht_inc" "ht_global_pc w Ht_try_in"
  "ht_global_pc w Ht_out = w" "ht_global_pc w Ht_lead = w" "ht_global_pc w Ht_share = w" "ht_global_pc w Ht_take = w"
  "ht_global_pc w (Ht_copy g) = w" "ht_global_pc w (Ht_wait t) = w"
  by (simp_all add: ht_global_pc_def)

lemma served_pc [simp]: "(\<And>t. ht_pcs s i \<noteq> Ht_wait t) \<Longrightarrow> \<not> served nd s i"
  by (simp add: served_def)

text \<open>A thread past the global lock is the only one.\<close>

lemma first_unique:
  assumes g: "global_ok N nd s (i # q)" and j: "ht_global_pc (served nd s j) (ht_pcs s j)" "\<And>g. ht_pcs s j \<noteq> Ht_global g"
  shows "j = i"
  using global_first [OF g j] by auto

lemma member_of: "i < N \<Longrightarrow> i \<in> members N nd (nd i)"
  by (simp add: members_def)

text \<open>Steps that change only the point of thread i, with the queue unchanged.\<close>

lemma global_move:
  assumes g: "global_ok N nd s q" and p: "ht_global_pc (served nd (ht_goto i p (ht_mem s) s) i) p =
      ht_global_pc (served nd s i) (ht_pcs s i)"
    and pl: "\<And>k. k < length q \<Longrightarrow> q ! k = i \<Longrightarrow> ht_place (ht_cur (ht_mem s)) k p"
  shows "global_ok N nd (ht_goto i p (ht_mem s) s) q"
  by (rule global_same [OF g _ _ served_keep p pl]) simp_all

lemma first_place:
  assumes g: "global_ok N nd s (i # q)" and k: "k < length (i # q)" "(i # q) ! k = i"
  shows "k = 0"
proof -
  have "distinct (i # q)" using g by (simp add: global_ok_def)
  then show ?thesis using k nth_eq_iff_index_eq [of "i # q" k 0] by simp
qed

lemma global_keep:
  assumes g: "global_ok N nd s q" and i: "ht_global_pc (served nd s i) (ht_pcs s i)" "\<And>g. ht_pcs s i \<noteq> Ht_global g"
    and p: "ht_global_pc False p" "ht_place (ht_cur (ht_mem s)) 0 p"
    and m: "ht_nxt l = ht_nxt (ht_mem s)" "ht_cur l = ht_cur (ht_mem s)"
      "\<And>j. j \<noteq> i \<Longrightarrow> served nd (ht_goto i p l s) j = served nd s j"
  shows "global_ok N nd (ht_goto i p l s) q"
proof (rule global_same [OF g m])
  obtain q' where q': "q = i # q'" using global_first [OF g i] by blast
  show "ht_global_pc (served nd (ht_goto i p l s) i) p = ht_global_pc (served nd s i) (ht_pcs s i)"
    using i(1) p(1) by (auto simp: ht_global_pc_def)
  show "ht_place (ht_cur (ht_mem s)) k p" if "k < length q" "q ! k = i" for k
    using first_place [OF g [unfolded q']] that p(2) unfolding q' by blast
qed

lemma global_idle:
  assumes g: "global_ok N nd s q" and i: "\<not> ht_global_pc (served nd s i) (ht_pcs s i)"
    and m: "ht_nxt l = ht_nxt (ht_mem s)" "ht_cur l = ht_cur (ht_mem s)"
      "\<And>j. j \<noteq> i \<Longrightarrow> served nd (ht_goto i p l s) j = served nd s j"
    and p: "\<not> ht_global_pc (served nd (ht_goto i p l s) i) p"
  shows "global_ok N nd (ht_goto i p l s) q"
proof (rule global_same [OF g m])
  have "i \<notin> set q" using g i by (simp add: global_ok_def)
  then show "ht_place (ht_cur (ht_mem s)) k p" if "k < length q" "q ! k = i" for k using that nth_mem by fastforce
next
  show "ht_global_pc (served nd (ht_goto i p l s) i) p = ht_global_pc (served nd s i) (ht_pcs s i)" using i p by blast
qed


lemma inv_asks:
  assumes inv: "ht_inv N nd s q sess" and i: "i < N" "ht_pcs s i = Ht_out" and st: "ht_dec (nd i) (ht_mem s) = (t, l)"
  shows "\<exists>q' sess'. ht_inv N nd (ht_goto i (ht_ticket t) l s) q' sess'"
proof -
  note so = ht_invD(2) [OF inv]
  have l: "t = loc_nxt (ht_mem s) (nd i) - 1" "loc_nxt l = (loc_nxt (ht_mem s))(nd i := t)" "loc_cur l = loc_cur (ht_mem s)"
    "ht_nxt l = ht_nxt (ht_mem s)" "ht_cur l = ht_cur (ht_mem s)"
    using st by (auto simp: ht_dec_def)
  have new: "socket_ok (members N nd (nd i)) (loc_nxt l (nd i)) (loc_cur l (nd i)) ((ht_pcs s)(i := ht_ticket t)) (sess (nd i))"
    using socket_ask [OF so member_of [OF i(1)] i(2)] by (simp add: l)
  have ns: "ht_ticket t \<noteq> Ht_wait (loc_cur l (nd i))"
  proof
    assume e: "ht_ticket t = Ht_wait (loc_cur l (nd i))"
    then have t: "t = loc_cur l (nd i)" "0 \<le> t" by (auto simp: ht_ticket_def split: if_splits)
    then have "sess (nd i) \<noteq> None" using vacant_okD(1) [OF socket_okD(3) [OF so [of "nd i"]]] l(1) by auto
    then obtain j where "sess (nd i) = Some j" by auto
    from session_okD(6) [OF socket_okD(4) [OF so this]] show False using t l by simp
  qed
  have "global_ok N nd (ht_goto i (ht_ticket t) l s) q"
  proof (rule global_idle [OF ht_invD(1) [OF inv]])
    show "\<not> ht_global_pc (served nd s i) (ht_pcs s i)" using i(2) by simp
    show "\<not> ht_global_pc (served nd (ht_goto i (ht_ticket t) l s) i) (ht_ticket t)"
      using ns by (simp add: served_goto ht_ticket_def split: if_splits)
  qed (simp_all add: l served_keep)
  then have "ht_inv N nd (ht_goto i (ht_ticket t) l s) q (sess(nd i := sess (nd i)))"
    by (rule ht_inv_step [OF inv i(1), rotated]) (use new l in simp_all)
  then show ?thesis by blast
qed

text \<open>Steps of the thread that has the session of its socket and is first in the queue.\<close>

lemma inv_session:
  assumes inv: "ht_inv N nd s q sess" and i: "i < N"
    and p: "served nd s i \<or> ht_pcs s i = Ht_in \<or> (\<exists>g. ht_pcs s i = Ht_global g \<and> ht_cur (ht_mem s) = g)"
    and p': "p' = Ht_in \<or> p' = Ht_rel (loc_cur (ht_mem s) (nd i))" and N: "N < 2 ^ 32"
  shows "\<exists>q' sess'. ht_inv N nd (ht_goto i p' (ht_mem s) s) q' sess'"
proof -
  note g = ht_invD(1) [OF inv]
  have gp: "ht_global_pc (served nd s i) (ht_pcs s i)" using p by (auto simp: ht_global_pc_def)
  have pl: "k = 0" if "k < length q" "q ! k = i" for k
  proof -
    have "ht_place (ht_cur (ht_mem s)) k (ht_pcs s i)" using g that unfolding global_ok_def by blast
    then show ?thesis using p global_length(2) [OF g N, of k] that(1) by (auto simp: served_def)
  qed
  have "global_ok N nd (ht_goto i p' (ht_mem s) s) q"
    by (rule global_move [OF g]) (use gp p' pl in auto)
  then have "ht_inv N nd (ht_goto i p' (ht_mem s) s) q (sess(nd i := sess (nd i)))"
  proof (rule ht_inv_step [OF inv i, rotated])
    have "ht_session (ht_pcs s i) \<or> ht_pcs s i = Ht_wait (loc_cur (ht_mem s) (nd i))" using p by (auto simp: served_def)
    then show "socket_ok (members N nd (nd i)) (loc_nxt (ht_mem s) (nd i)) (loc_cur (ht_mem s) (nd i)) ((ht_pcs s)(i := p')) (sess (nd i))"
      by (rule socket_session_move [OF ht_invD(2) [OF inv] member_of [OF i]]) (use p' in auto)
  qed simp
  then show ?thesis by blast
qed

lemma inv_leads:
  assumes inv: "ht_inv N nd s q sess" and i: "i < N" "ht_pcs s i = Ht_lead" "loc_cur (ht_mem s) (nd i) = NB_TICKETS_LOCAL"
    and T: "card (members N nd (nd i)) < 130"
  shows "\<exists>q' sess'. ht_inv N nd (ht_goto i Ht_share (ht_mem s) s) q' sess'"
proof -
  have fin: "finite (members N nd (nd i))" by (simp add: members_def)
  have cu: "loc_cur (ht_mem s) (nd i) = 128" using i(3) by (simp add: NB_TICKETS_LOCAL_def)
  have "global_ok N nd (ht_goto i Ht_share (ht_mem s) s) q"
    by (rule global_idle [OF ht_invD(1) [OF inv]]) (use i(2) in \<open>simp_all add: served_keep\<close>)
  then have "ht_inv N nd (ht_goto i Ht_share (ht_mem s) s) q (sess(nd i := sess (nd i)))"
  proof (rule ht_inv_step [OF inv i(1), rotated])
    show "socket_ok (members N nd (nd i)) (loc_nxt (ht_mem s) (nd i)) (loc_cur (ht_mem s) (nd i)) ((ht_pcs s)(i := Ht_share)) (sess (nd i))"
      unfolding cu
      by (rule socket_lead [OF ht_invD(2) [OF inv, of "nd i", unfolded cu] member_of [OF i(1)] i(2) fin T])
  qed simp
  then show ?thesis by blast
qed

lemma inv_shares:
  assumes inv: "ht_inv N nd s q sess" and i: "i < N" "ht_pcs s i = Ht_share"
  shows "\<exists>q' sess'. ht_inv N nd (ht_goto i Ht_take (ht_share (nd i) (ht_mem s)) s) q' sess'"
proof -
  have "global_ok N nd (ht_goto i Ht_take (ht_share (nd i) (ht_mem s)) s) q"
    by (rule global_idle [OF ht_invD(1) [OF inv]]) (use i(2) in \<open>simp_all add: served_keep ht_share_def\<close>)
  then have "ht_inv N nd (ht_goto i Ht_take (ht_share (nd i) (ht_mem s)) s) q (sess(nd i := Some i))"
    by (rule ht_inv_step [OF inv i(1), rotated])
      (use socket_share [OF ht_invD(2) [OF inv] member_of [OF i(1)] i(2)] in \<open>simp_all add: ht_share_def NB_TICKETS_LOCAL_def\<close>)
  then show ?thesis by blast
qed

lemma inv_takes:
  assumes inv: "ht_inv N nd s q sess" and i: "i < N" "ht_pcs s i = Ht_take" and st: "ht_take (ht_mem s) = (g, l)"
  shows "\<exists>q' sess'. ht_inv N nd (ht_goto i (Ht_global g) l s) q' sess'"
proof -
  note gl = ht_invD(1) [OF inv]
  have l: "g = ht_nxt (ht_mem s)" "ht_nxt l = ht_nxt (ht_mem s) + 1" "ht_cur l = ht_cur (ht_mem s)"
    "loc_nxt l = loc_nxt (ht_mem s)" "loc_cur l = loc_cur (ht_mem s)"
    using st by (auto simp: ht_take_def)
  have "global_ok N nd (ht_goto i (Ht_global g) l s) (q @ [i])"
    by (rule global_join [OF gl i(1)]) (use i(2) l gl in \<open>simp_all add: global_ok_def\<close>)
  then have "ht_inv N nd (ht_goto i (Ht_global g) l s) (q @ [i]) (sess(nd i := sess (nd i)))"
  proof (rule ht_inv_step [OF inv i(1), rotated])
    have p: "ht_session (ht_pcs s i)" using i(2) by simp
    note so = ht_invD(2) [OF inv, of "nd i"]
    have cu: "loc_cur (ht_mem s) (nd i) = 128"
      using session_okD(7) [OF session_of(2) [OF so member_of [OF i(1)] disjI1 [OF p]] i(2)] .
    show "socket_ok (members N nd (nd i)) (loc_nxt l (nd i)) (loc_cur l (nd i)) ((ht_pcs s)(i := Ht_global g)) (sess (nd i))"
      unfolding l(4,5) by (rule socket_session_move [OF so member_of [OF i(1)] disjI1 [OF p]]) (use cu in simp_all)
  qed (simp add: l)
  then show ?thesis by blast
qed

lemma inv_releases:
  assumes inv: "ht_inv N nd s q sess" and i: "i < N" "ht_pcs s i = Ht_rel c" and st: "ht_release_cas (nd i) c (ht_mem s) = (p, l)"
  shows "\<exists>q' sess'. ht_inv N nd (ht_goto i p l s) q' sess'"
proof -
  let ?n = "loc_nxt (ht_mem s) (nd i)" and ?T = "members N nd (nd i)"
  note so = ht_invD(2) [OF inv, of "nd i"]
  have ses: "ht_session (ht_pcs s i)" using i(2) by simp
  note d = session_okD [OF session_of(2) [OF so member_of [OF i(1)] disjI1 [OF ses]]]
  have c: "c = loc_cur (ht_mem s) (nd i)" by (rule d(9) [OF i(2)])
  have l: "p = (if c = 0 \<or> c = ?n then Ht_last else Ht_next c)" "loc_cur l = loc_cur (ht_mem s)"
    "loc_nxt l = (loc_nxt (ht_mem s))(nd i := if ?n = c then 0 else ?n)" "ht_nxt l = ht_nxt (ht_mem s)" "ht_cur l = ht_cur (ht_mem s)"
    using st by (auto simp: ht_release_cas_def cas_def Let_def split: if_splits)
  have "global_ok N nd (ht_goto i p l s) q"
    by (rule global_keep [OF ht_invD(1) [OF inv]]) (use i(2) in \<open>simp_all add: l served_keep\<close>)
  moreover have "\<exists>so'. socket_ok ?T (loc_nxt l (nd i)) (loc_cur l (nd i)) ((ht_pcs s)(i := p)) so'"
  proof (cases "c = 0 \<or> c = ?n")
    case True
    have "socket_ok ?T (if ?n = c then 0 else ?n) c ((ht_pcs s)(i := Ht_last)) None"
      unfolding c by (rule socket_last [OF so member_of [OF i(1)]]) (use i(2) c True in auto)
    then show ?thesis using True l c by (intro exI [of _ None]) simp
  next
    case False
    have "socket_ok ?T ?n c ((ht_pcs s)(i := Ht_next c)) (sess (nd i))"
      unfolding c by (rule socket_session_move [OF so member_of [OF i(1)] disjI1 [OF ses]]) (use d(4,6) c False in auto)
    then show ?thesis using False l c by (intro exI [of _ "sess (nd i)"]) auto
  qed
  then obtain so' where "socket_ok ?T (loc_nxt l (nd i)) (loc_cur l (nd i)) ((ht_pcs s)(i := p)) so'" by blast
  ultimately have "ht_inv N nd (ht_goto i p l s) q (sess(nd i := so'))"
    by (intro ht_inv_step [OF inv i(1)]) (simp_all add: l)
  then show ?thesis by blast
qed

lemma inv_hands_on:
  assumes inv: "ht_inv N nd s q sess" and i: "i < N" "ht_pcs s i = Ht_next c"
  shows "\<exists>q' sess'. ht_inv N nd (ht_goto i Ht_out (ht_release_local (nd i) c (ht_mem s)) s) q' sess'"
proof -
  let ?l = "ht_release_local (nd i) c (ht_mem s)" and ?T = "members N nd (nd i)"
  note so = ht_invD(2) [OF inv, of "nd i"] and g = ht_invD(1) [OF inv]
  have ses: "ht_session (ht_pcs s i)" using i(2) by simp
  have c: "c = loc_cur (ht_mem s) (nd i)"
    using session_okD(10) [OF session_of(2) [OF so member_of [OF i(1)] disjI1 [OF ses]] i(2)] by simp
  obtain k where k: "k \<in> ?T" "k \<noteq> i" "ht_pcs s k = Ht_wait (c - 1)" "\<forall>j \<in> ?T. ht_pcs s j = Ht_wait (c - 1) \<longrightarrow> j = k"
    "\<forall>j \<in> ?T. ht_pcs s j \<noteq> Ht_wait c" and
    new: "socket_ok ?T (loc_nxt (ht_mem s) (nd i)) (c - 1) ((ht_pcs s)(i := Ht_out)) (Some k)"
    using socket_hand_on [OF so member_of [OF i(1)]] i(2) unfolding c by blast
  have kN: "k < N" "nd k = nd i" using k(1) by (simp_all add: members_def)
  obtain q' where q': "q = i # q'" using global_first [OF g, of i] i(2) by auto
  have out: "\<And>j. N \<le> j \<Longrightarrow> ht_pcs s j = Ht_out" by (rule ht_invD(3) [OF inv])
  have sv: "served nd (ht_goto i Ht_out ?l s) j \<longleftrightarrow> served nd s j \<or> j = k" if ji: "j \<noteq> i" for j
  proof (cases "j < N \<and> nd j = nd i")
    case True
    then have "j \<in> ?T" by (simp add: members_def)
    then have "ht_pcs s j \<noteq> Ht_wait c" "ht_pcs s j = Ht_wait (c - 1) \<longrightarrow> j = k" using k(4,5) by blast+
    then show ?thesis using True ji k(3) c by (auto simp: served_def ht_release_local_def)
  next
    case False
    then have jk: "j \<noteq> k" using kN by auto
    show ?thesis
    proof (cases "nd j = nd i")
      case True
      then have "ht_pcs s j = Ht_out" using False out by simp
      then show ?thesis using ji jk by (simp add: served_def)
    next
      case nn: False
      then have "loc_cur ?l (nd j) = loc_cur (ht_mem s) (nd j)" by (simp add: ht_release_local_def)
      then show ?thesis using served_keep [OF ji] jk by simp
    qed
  qed
  have nk: "\<not> ht_global_pc (served nd s k) (ht_pcs s k)" using k(3) kN(2) c by (simp add: served_def)
  have "global_ok N nd (ht_goto i Ht_out ?l s) (k # q')"
    by (rule global_pass [OF g [unfolded q'] kN(1) k(2) nk _ _ sv]) (simp_all add: ht_release_local_def k(3))
  then have "ht_inv N nd (ht_goto i Ht_out ?l s) (k # q') (sess(nd i := Some k))"
    by (rule ht_inv_step [OF inv i(1), rotated]) (use new in \<open>simp_all add: ht_release_local_def\<close>)
  then show ?thesis by blast
qed

lemma inv_resets:
  assumes inv: "ht_inv N nd s q sess" and i: "i < N" "ht_pcs s i = Ht_last"
  shows "\<exists>q' sess'. ht_inv N nd (ht_goto i Ht_inc (ht_release_global (nd i) (ht_mem s)) s) q' sess'"
proof -
  let ?l = "ht_release_global (nd i) (ht_mem s)" and ?cu = "loc_cur (ht_mem s) (nd i)"
  note so = ht_invD(2) [OF inv, of "nd i"] and g = ht_invD(1) [OF inv]
  obtain q' where q': "q = i # q'" using global_first [OF g, of i] i(2) by auto
  have cu: "?cu = 128" if so': "sess (nd i) \<noteq> None"
  proof -
    obtain j where j: "sess (nd i) = Some j" using so' by auto
    note d = session_okD [OF socket_okD(4) [OF so j]]
    have ji: "j \<noteq> i" using d(2) i(2) by auto
    have nj: "nd j = nd i" using d(1) by (simp add: members_def)
    have "ht_pcs s j = Ht_take \<or> (\<exists>g. ht_pcs s j = Ht_global g)"
    proof (rule ccontr)
      assume n: "\<not> ?thesis"
      then have "ht_global_pc (served nd s j) (ht_pcs s j)"
        using d(2) nj by (auto simp: ht_session_def served_def ht_global_pc_def)
      then have "j = i" using first_unique [OF g [unfolded q']] n by blast
      then show False using ji by blast
    qed
    then show ?thesis using d(7,8) by blast
  qed
  have sv: "served nd (ht_goto i Ht_inc ?l s) j = served nd s j" if ji: "j \<noteq> i" for j
  proof (cases "nd j = nd i \<and> ?cu \<noteq> 128")
    case False
    then have "loc_cur ?l (nd j) = loc_cur (ht_mem s) (nd j)" by (auto simp: ht_release_global_def NB_TICKETS_LOCAL_def)
    then show ?thesis by (rule served_keep [OF ji])
  next
    case True
    then have n: "sess (nd i) = None" using cu by blast
    have "ht_pcs s j \<noteq> Ht_wait t" for t
    proof (cases "j < N")
      case True then show ?thesis
        using vacant_okD(3) [OF socket_okD(3) [OF so n], of j t] \<open>nd j = nd i \<and> _\<close> by (simp add: members_def)
    qed (use ht_invD(3) [OF inv] in simp)
    then show ?thesis using ji by (simp add: served_def)
  qed
  have "global_ok N nd (ht_goto i Ht_inc ?l s) q"
    by (rule global_keep [OF g]) (use i(2) sv in \<open>simp_all add: ht_release_global_def\<close>)
  then have "ht_inv N nd (ht_goto i Ht_inc ?l s) q (sess(nd i := sess (nd i)))"
    by (rule ht_inv_step [OF inv i(1), rotated])
      (use socket_reset [OF so member_of [OF i(1)] i(2) cu] in \<open>simp_all add: ht_release_global_def NB_TICKETS_LOCAL_def\<close>)
  then show ?thesis by blast
qed

text \<open>Steps that the sockets do not see.\<close>

lemma inv_neutral:
  assumes inv: "ht_inv N nd s q sess" and i: "i < N"
    and p: "socket_class (ht_pcs s i) = 0" "socket_class p = 0"
    and m: "loc_nxt l = loc_nxt (ht_mem s)" "loc_cur l = loc_cur (ht_mem s)" and g: "global_ok N nd (ht_goto i p l s) q'"
  shows "\<exists>q' sess'. ht_inv N nd (ht_goto i p l s) q' sess'"
proof -
  have "ht_inv N nd (ht_goto i p l s) q' (sess(nd i := sess (nd i)))"
    by (rule ht_inv_step [OF inv i _ g]) (use socket_neutral [OF ht_invD(2) [OF inv] p] m in simp_all)
  then show ?thesis by blast
qed

lemma inv_increments:
  assumes inv: "ht_inv N nd s q sess" and i: "i < N" "ht_pcs s i = Ht_inc \<or> ht_pcs s i = Ht_try_in"
  shows "\<exists>q' sess'. ht_inv N nd (ht_goto i (Ht_inc_by (ht_cur (ht_mem s))) (ht_mem s) s) q' sess'"
proof (rule inv_neutral [OF inv i(1)])
  show "global_ok N nd (ht_goto i (Ht_inc_by (ht_cur (ht_mem s))) (ht_mem s) s) q"
    by (rule global_keep [OF ht_invD(1) [OF inv]]) (use i(2) in \<open>auto simp: served_keep\<close>)
qed (use i(2) in \<open>auto simp: socket_class_def\<close>)

lemma inv_leaves:
  assumes inv: "ht_inv N nd s q sess" and i: "i < N" "ht_pcs s i = Ht_inc_by c"
  shows "\<exists>q' sess'. ht_inv N nd (ht_goto i Ht_out (ht_inc c (ht_mem s)) s) q' sess'"
proof -
  note g = ht_invD(1) [OF inv]
  obtain q' where q': "q = i # q'" using global_first [OF g, of i] i(2) by auto
  have "ht_place (ht_cur (ht_mem s)) 0 (ht_pcs s (q ! 0))" using g q' unfolding global_ok_def by blast
  then have c: "c = ht_cur (ht_mem s)" using i(2) q' by simp
  have "global_ok N nd (ht_goto i Ht_out (ht_inc c (ht_mem s)) s) q'"
    by (rule global_leave [OF g [unfolded q']]) (simp_all add: ht_inc_def c)
  then show ?thesis by (rule inv_neutral [OF inv i(1), rotated 4]) (use i(2) in \<open>simp_all add: socket_class_def ht_inc_def\<close>)
qed

lemma inv_tries:
  assumes inv: "ht_inv N nd s q sess" and i: "i < N" "ht_pcs s i = Ht_copy c" and N: "N < 2 ^ 32"
    and st: "htlock_trylock c (ht_mem s) = (ok, l)"
  shows "\<exists>q' sess'. ht_inv N nd (ht_goto i (if ok then Ht_try_in else Ht_out) l s) q' sess'"
proof (rule inv_neutral [OF inv i(1)])
  note g = ht_invD(1) [OF inv]
  show "socket_class (ht_pcs s i) = 0" "socket_class (if ok then Ht_try_in else Ht_out) = 0"
    using i(2) by (simp_all add: socket_class_def)
  have same: "loc_nxt l = loc_nxt (ht_mem s)" "loc_cur l = loc_cur (ht_mem s)" "ht_cur l = ht_cur (ht_mem s)"
    "ht_nxt l = (if ok then ht_nxt (ht_mem s) + 1 else ht_nxt (ht_mem s))"
    "ok \<longleftrightarrow> ht_nxt (ht_mem s) = c \<and> ht_cur (ht_mem s) = c"
    using st by (auto simp: htlock_trylock_def cas_def Let_def split: if_splits)
  show "loc_nxt l = loc_nxt (ht_mem s)" "loc_cur l = loc_cur (ht_mem s)" by (rule same)+
  have nk: "\<not> ht_global_pc (served nd s i) (ht_pcs s i)" using i(2) by simp
  show "global_ok N nd (ht_goto i (if ok then Ht_try_in else Ht_out) l s) (if ok then q @ [i] else q)"
  proof (cases ok)
    case True
    have "ht_nxt (ht_mem s) = ht_cur (ht_mem s) + of_nat (length q)" using g unfolding global_ok_def by blast
    then have "of_nat (length q) = (0 :: u32)" using True same(5) by (metis add_cancel_right_right)
    then have "length q = 0" using global_length(2) [OF g N, of "length q"] by simp
    then have "global_ok N nd (ht_goto i Ht_try_in l s) (q @ [i])"
      by (intro global_join [OF g i(1) nk]) (use True same in simp_all)
    then show ?thesis using True by simp
  next
    case False
    have "global_ok N nd (ht_goto i Ht_out l s) q"
      by (rule global_idle [OF g nk]) (use False same in \<open>simp_all add: served_keep\<close>)
    then show ?thesis using False by simp
  qed
qed

lemma inv_copies:
  assumes inv: "ht_inv N nd s q sess" and i: "i < N" "ht_pcs s i = Ht_out"
  shows "\<exists>q' sess'. ht_inv N nd (ht_goto i (Ht_copy c) (ht_mem s) s) q' sess'"
proof (rule inv_neutral [OF inv i(1)])
  show "global_ok N nd (ht_goto i (Ht_copy c) (ht_mem s) s) q"
    by (rule global_idle [OF ht_invD(1) [OF inv]]) (use i(2) in \<open>simp_all add: served_keep\<close>)
qed (use i(2) in \<open>simp_all add: socket_class_def\<close>)

lemma ht_step_inv:
  assumes N: "N < 2 ^ 32" "\<And>n. card (members N nd n) < 130"
    and inv: "ht_inv N nd s q sess" and st: "ht_step N nd s s'"
  shows "\<exists>q' sess'. ht_inv N nd s' q' sess'"
  using st
proof cases
  case (ht_enters i t)
  have "served nd s i" using ht_enters(3,4) by (simp add: served_def)
  then show ?thesis unfolding ht_enters(1) by (intro inv_session [OF inv ht_enters(2) _ _ N(1)]) simp_all
next
  case (ht_arrives i c)
  then show ?thesis unfolding ht_arrives(1) by (intro inv_session [OF inv ht_arrives(2) _ _ N(1)]) simp_all
next
  case (ht_reads i)
  then show ?thesis unfolding ht_reads(1) by (intro inv_session [OF inv ht_reads(2) _ _ N(1)]) simp_all
qed (use inv N in \<open>blast intro: inv_asks inv_leads inv_shares inv_takes inv_releases inv_hands_on inv_resets
  inv_increments inv_leaves inv_tries inv_copies\<close>)+

section \<open>Mutual exclusion\<close>

text \<open>The 2^32 tickets of the global lock and the 128 local tickets, with the leader, are enough for the threads.\<close>

definition ht_fits :: "nat \<Rightarrow> (nat \<Rightarrow> nat) \<Rightarrow> bool" where
  "ht_fits N nd \<longleftrightarrow> N < 2 ^ 32 \<and> (\<forall>n. card (members N nd n) < 130)"

lemma ht_start_inv:
  assumes "ht_start s"
  shows "ht_inv N nd s [] (\<lambda>_. None)"
  using assms
  by (simp add: ht_start_def ht_inv_def global_ok_def init_htlock_def served_def socket_ok_def leader_ok_def vacant_ok_def
      NB_TICKETS_LOCAL_def)

lemma ht_inside_first:
  assumes "global_ok N nd s q" "ht_inside s i"
  shows "\<exists>q'. q = i # q'"
  by (rule global_first [OF assms(1)]) (use assms(2) in \<open>auto simp: ht_inside_def ht_global_pc_def\<close>)

interpretation ht: mutex_lock "\<lambda>s. ht_fits N nd \<and> ht_start s" "ht_step N nd" ht_inside
  "\<lambda>s. ht_fits N nd \<and> (\<exists>q sess. ht_inv N nd s q sess)" for N nd
proof unfold_locales
  show "ht_fits N nd \<and> (\<exists>q sess. ht_inv N nd s q sess)" if "ht_fits N nd \<and> ht_start s" for s
    using that ht_start_inv by blast
  show "ht_fits N nd \<and> (\<exists>q sess. ht_inv N nd t q sess)"
    if inv: "ht_fits N nd \<and> (\<exists>q sess. ht_inv N nd s q sess)" and st: "ht_step N nd s t" for s t
  proof -
    obtain q sess where "ht_fits N nd" "ht_inv N nd s q sess" using inv by auto
    then show ?thesis using ht_step_inv [OF _ _ _ st] by (simp add: ht_fits_def)
  qed
  show "i = j" if inv: "ht_fits N nd \<and> (\<exists>q sess. ht_inv N nd s q sess)" and ij: "ht_inside s i" "ht_inside s j" for s i j
  proof -
    obtain q sess where "ht_inv N nd s q sess" using inv by auto
    then show ?thesis using ht_inside_first [OF ht_invD(1)] ij by blast
  qed
qed

text \<open>C25: The hierarchical ticket lock excludes. Any number of threads below 2^32, on any number of
  sockets, at most 129 of them on one, call \<open>htlock_lock\<close> and \<open>htlock_release\<close>, or \<open>htlock_trylock\<close> and
  \<open>htlock_release_try\<close>, one shared access at a time in any order: no two of them hold the lock.\<close>

theorem htlock_excludes:
  assumes "N < 2 ^ 32" "\<forall>n. card {j. j < N \<and> nd j = n} < 130" "ht_start s" "(ht_step N nd)\<^sup>*\<^sup>* s t"
    "ht_inside t i" "ht_inside t j"
  shows "i = j"
  using ht.mutual_exclusion [OF _ assms(4-6)] assms(1-3) by (simp add: ht_fits_def members_def)

definition ex_ht :: ht_sys where
  "ex_ht = \<lparr>ht_mem = init_htlock, ht_pcs = (\<lambda>_. Ht_out)\<rparr>"

text \<open>Threads 0 and 1 share a socket: 1 leads and takes the lock, 0 has the next local ticket.\<close>

definition ex_two :: "u32 \<Rightarrow> int \<Rightarrow> ht_pc \<Rightarrow> ht_pc \<Rightarrow> ht_sys" where
  "ex_two g n p w = \<lparr>ht_mem = init_htlock\<lparr>ht_nxt := g, loc_nxt := (\<lambda>_. 0)(0 := n)\<rparr>, ht_pcs = (\<lambda>_. Ht_out)(1 := p, 0 := w)\<rparr>"

lemma ex_two_sel [simp]:
  "ht_nxt (ht_mem (ex_two g n p w)) = g" "ht_cur (ht_mem (ex_two g n p w)) = 0" "loc_nxt (ht_mem (ex_two g n p w)) 0 = n"
  "loc_cur (ht_mem (ex_two g n p w)) 0 = NB_TICKETS_LOCAL" "ht_pcs (ex_two g n p w) (Suc 0) = p" "ht_pcs (ex_two g n p w) 0 = w"
  by (simp_all add: ex_two_def init_htlock_def)

lemma ex_two_goto:
  "ht_goto (Suc 0) p' (ht_mem (ex_two g' n' p0 w0)) (ex_two g n p w) = ex_two g' n' p' w"
  "ht_goto 0 w' (ht_mem (ex_two g' n' p0 w0)) (ex_two g n p w) = ex_two g' n' p w'"
  by (simp_all add: ht_goto_def ex_two_def fun_upd_twist)

lemma ex_ht_run: "(ht_step 2 (\<lambda>_. 0))\<^sup>*\<^sup>* ex_ht (ex_two 1 127 Ht_in (Ht_wait 127))"
proof -
  let ?f = "\<lambda>_ :: nat. 0 :: nat" and ?o = Ht_out
  let ?m = "\<lambda>g n. ht_mem (ex_two g n ?o ?o)"
  have e: "ex_ht = ex_two 0 0 ?o ?o" by (simp add: ex_ht_def ex_two_def init_htlock_def fun_eq_iff)
  have "ht_step 2 ?f (ex_two 0 0 ?o ?o) (ht_goto (Suc 0) (ht_ticket (-1)) (?m 0 (-1)) (ex_two 0 0 ?o ?o))"
    by (rule ht_asks) (simp_all, simp add: ht_dec_def ex_two_def)
  moreover have "ht_step 2 ?f (ex_two 0 (-1) Ht_lead ?o) (ht_goto (Suc 0) Ht_share (ht_mem (ex_two 0 (-1) Ht_lead ?o)) (ex_two 0 (-1) Ht_lead ?o))"
    by (rule ht_leads) simp_all
  moreover have "ht_step 2 ?f (ex_two 0 (-1) Ht_share ?o)
      (ht_goto (Suc 0) Ht_take (ht_share 0 (ht_mem (ex_two 0 (-1) Ht_share ?o))) (ex_two 0 (-1) Ht_share ?o))"
    by (rule ht_shares) simp_all
  moreover have "ht_share 0 (ht_mem (ex_two 0 (-1) Ht_share ?o)) = ?m 0 128"
    by (simp add: ht_share_def ex_two_def NB_TICKETS_LOCAL_def)
  moreover have "ht_step 2 ?f (ex_two 0 128 Ht_take ?o) (ht_goto (Suc 0) (Ht_global 0) (?m 1 128) (ex_two 0 128 Ht_take ?o))"
    by (rule ht_takes) (simp_all, simp add: ht_take_def ex_two_def)
  moreover have "ht_step 2 ?f (ex_two 1 128 (Ht_global 0) ?o)
      (ht_goto (Suc 0) Ht_in (ht_mem (ex_two 1 128 (Ht_global 0) ?o)) (ex_two 1 128 (Ht_global 0) ?o))"
    by (rule ht_arrives) simp_all
  moreover have "ht_step 2 ?f (ex_two 1 128 Ht_in ?o) (ht_goto 0 (ht_ticket 127) (?m 1 127) (ex_two 1 128 Ht_in ?o))"
    by (rule ht_asks) (simp_all, simp add: ht_dec_def ex_two_def)
  moreover have "ht_ticket (-1) = Ht_lead" "ht_ticket 127 = Ht_wait 127" by (simp_all add: ht_ticket_def)
  ultimately show ?thesis
    unfolding e ex_two_goto by (simp add: ex_two_goto)
qed

lemma htlock_excludes_witness:
  "{j. ht_inside (ex_two 1 127 Ht_in (Ht_wait 127)) j} = {1} \<and> (ht_step 2 (\<lambda>_. 0))\<^sup>*\<^sup>* ex_ht (ex_two 1 127 Ht_in (Ht_wait 127))"
proof -
  have start: "ht_start ex_ht" by (simp add: ex_ht_def ht_start_def)
  have c: "\<forall>n :: nat. card {j :: nat. j < 2 \<and> 0 = n} < 130"
  proof
    fix n :: nat
    show "card {j :: nat. j < 2 \<and> 0 = n} < 130" by (cases n) simp_all
  qed
  have h: "ht_inside (ex_two 1 127 Ht_in (Ht_wait 127)) 1" by (simp add: ht_inside_def ex_two_def)
  have "1 = j" if "ht_inside (ex_two 1 127 Ht_in (Ht_wait 127)) j" for j
    by (rule htlock_excludes [OF _ c start ex_ht_run h that]) simp
  then show ?thesis using h ex_ht_run by blast
qed

end
