(* ===== verification/Map_Object.thy ===== *)
theory Map_Object
  imports Harris_Concurrent
begin

text \<open>
  Objects that threads use as a map, their executions, and what it takes to show that such an object is
  linearizable: an invariant that relates its states to the states of the atomic map, and that is
  kept by calls, by steps and by returns. Each concurrent set is an instance.
\<close>

section \<open>Executions\<close>

text \<open>An object: thread i calls an operation, makes a step, for which the allocator may give it a node, or
  returns from the operation.\<close>

datatype o_action = O_call set_op | O_step ptr | O_return

fun is_remove :: "set_op \<Rightarrow> bool" where
  "is_remove (Set_Remove k) = True"
| "is_remove x = False"

inductive object_exec ::
  "(nat \<Rightarrow> set_op \<Rightarrow> 's \<Rightarrow> 's option) \<Rightarrow> (nat \<Rightarrow> ptr \<Rightarrow> 's \<Rightarrow> 's option) \<Rightarrow> (nat \<Rightarrow> 's \<Rightarrow> (int \<times> 's) option) \<Rightarrow>
     's \<Rightarrow> (nat \<times> l_event) list \<Rightarrow> 's \<Rightarrow> bool" for call step ret s0 where
  object_start: "object_exec call step ret s0 [] s0"
| object_call: "object_exec call step ret s0 tr s \<Longrightarrow> call i x s = Some s' \<Longrightarrow>
    object_exec call step ret s0 (tr @ [(i, Called x)]) s'"
| object_step: "object_exec call step ret s0 tr s \<Longrightarrow> step i p s = Some s' \<Longrightarrow> object_exec call step ret s0 tr s'"
| object_return: "object_exec call step ret s0 tr s \<Longrightarrow> ret i s = Some (r, s') \<Longrightarrow>
    object_exec call step ret s0 (tr @ [(i, Returned r)]) s'"

text \<open>The same for a given schedule.\<close>

fun object_run ::
  "(nat \<Rightarrow> set_op \<Rightarrow> 's \<Rightarrow> 's option) \<Rightarrow> (nat \<Rightarrow> ptr \<Rightarrow> 's \<Rightarrow> 's option) \<Rightarrow> (nat \<Rightarrow> 's \<Rightarrow> (int \<times> 's) option) \<Rightarrow>
     (nat \<times> o_action) list \<Rightarrow> 's \<Rightarrow> ((nat \<times> l_event) list \<times> 's) option" where
  "object_run call step ret [] s = Some ([], s)"
| "object_run call step ret ((i, a) # as) s = do {
     (ev, s1) \<leftarrow> (case a of
         O_call x \<Rightarrow> map_option (\<lambda>s'. ([(i, Called x)], s')) (call i x s)
       | O_step p \<Rightarrow> map_option (\<lambda>s'. ([], s')) (step i p s)
       | O_return \<Rightarrow> map_option (\<lambda>(r, s'). ([(i, Returned r)], s')) (ret i s));
     (tr, s2) \<leftarrow> object_run call step ret as s1;
     Some (ev @ tr, s2)
   }"

lemma object_run_exec:
  "object_run call step ret as s = Some (tr, s') \<Longrightarrow> object_exec call step ret s0 tr0 s \<Longrightarrow>
     object_exec call step ret s0 (tr0 @ tr) s'"
proof (induction as arbitrary: s tr tr0)
  case (Cons x as)
  obtain i a where x: "x = (i, a)" by (cases x)
  obtain ev s1 tr1 where ev: "(case a of O_call x \<Rightarrow> map_option (\<lambda>s'. ([(i, Called x)], s')) (call i x s)
       | O_step p \<Rightarrow> map_option (\<lambda>s'. ([], s')) (step i p s)
       | O_return \<Rightarrow> map_option (\<lambda>(r, s'). ([(i, Returned r)], s')) (ret i s)) = Some (ev, s1)"
    "object_run call step ret as s1 = Some (tr1, s')" "tr = ev @ tr1"
    using Cons.prems(1) by (auto simp: x bind_eq_Some_conv)
  have "object_exec call step ret s0 (tr0 @ ev) s1"
  proof (cases a)
    case (O_call x)
    then show ?thesis using ev(1) object_call [OF Cons.prems(2)] by auto
  next
    case (O_step p)
    then show ?thesis using ev(1) object_step [OF Cons.prems(2)] by auto
  next
    case O_return
    then show ?thesis using ev(1) object_return [OF Cons.prems(2)] by auto
  qed
  from Cons.IH [OF ev(2) this] show ?case by (simp add: ev(3))
qed simp

text \<open>A thread that takes no part in a run keeps its state.\<close>

lemma object_run_others:
  assumes call: "\<And>i x s s'. i \<noteq> j \<Longrightarrow> call i x s = Some s' \<Longrightarrow> th s' = th s"
    and step: "\<And>i p s s'. i \<noteq> j \<Longrightarrow> step i p s = Some s' \<Longrightarrow> th s' = th s"
    and ret: "\<And>i s r s'. i \<noteq> j \<Longrightarrow> ret i s = Some (r, s') \<Longrightarrow> th s' = th s"
  shows "object_run call step ret as s = Some (tr, s') \<Longrightarrow> j \<notin> fst ` set as \<Longrightarrow> th s' = th s"
proof (induction as arbitrary: s tr)
  case (Cons x as)
  obtain i a where x: "x = (i, a)" by (cases x)
  then have j: "i \<noteq> j" using Cons.prems(2) by auto
  obtain ev s1 tr1 where ev: "(case a of O_call x \<Rightarrow> map_option (\<lambda>s'. ([(i, Called x)], s')) (call i x s)
       | O_step p \<Rightarrow> map_option (\<lambda>s'. ([], s')) (step i p s)
       | O_return \<Rightarrow> map_option (\<lambda>(r, s'). ([(i, Returned r)], s')) (ret i s)) = Some (ev, s1)"
    "object_run call step ret as s1 = Some (tr1, s')"
    using Cons.prems(1) by (auto simp: x bind_eq_Some_conv)
  have "th s1 = th s" using ev(1) call [OF j] step [OF j] ret [OF j] by (cases a) auto
  then show ?case using Cons.IH [OF ev(2)] Cons.prems(2) by simp
qed simp

section \<open>What an operation knows\<close>

text \<open>An operation that is under way has seen the present map; one whose result is settled either has
  taken place or has its result from a map it has seen.\<close>

definition under_way :: "set_op \<Rightarrow> (skey_t \<rightharpoonup> sval_t) \<Rightarrow> a_status \<Rightarrow> bool" where
  "under_way x M st \<longleftrightarrow> (\<exists>S. st = Pending x S \<and> M \<in> S)"

definition answered :: "set_op \<Rightarrow> int \<Rightarrow> (skey_t \<rightharpoonup> sval_t) \<Rightarrow> a_status \<Rightarrow> bool" where
  "answered x r M st \<longleftrightarrow> st = Effected x r \<or> (\<exists>S N. st = Pending x S \<and> M \<in> S \<and> N \<in> S \<and> map_step x N = (r, N))"

definition saw :: "((skey_t \<rightharpoonup> sval_t) \<Rightarrow> bool) \<Rightarrow> a_status \<Rightarrow> bool" where
  "saw P st \<longleftrightarrow> (\<exists>x S N. st = Pending x S \<and> N \<in> S \<and> P N)"

lemma under_way_see [simp]: "under_way x M' (see M' st) \<longleftrightarrow> (\<exists>S. st = Pending x S)"
  by (cases st) (auto simp: under_way_def)

lemma under_way_Pending: "under_way x M st \<Longrightarrow> \<exists>S. st = Pending x S"
  by (auto simp: under_way_def)

lemma answered_see: "answered x r M st \<Longrightarrow> answered x r M' (see M' st)"
  by (auto simp: answered_def)

lemma saw_see: "saw P st \<Longrightarrow> saw P (see M' st)"
  by (auto simp: saw_def)

lemma saw_now: "under_way x M st \<Longrightarrow> P M \<Longrightarrow> saw P st"
  by (auto simp: saw_def under_way_def)

lemma saw_new: "\<exists>S. st = Pending x S \<Longrightarrow> P M' \<Longrightarrow> saw P (see M' st)"
  by (auto simp: saw_def)

lemma saw_answered: "under_way x M st \<Longrightarrow> saw P st \<Longrightarrow> (\<And>N. P N \<Longrightarrow> map_step x N = (r, N)) \<Longrightarrow> answered x r M st"
  by (auto simp: saw_def under_way_def answered_def)

lemma see_idle [simp]: "see M st = A_idle \<longleftrightarrow> st = A_idle"
  by (cases st) auto

lemma see_under_way: "under_way x M st \<Longrightarrow> see M st = st"
  by (auto simp: under_way_def)

lemma see_answered: "answered x r M st \<Longrightarrow> see M st = st"
  by (auto simp: answered_def)

section \<open>Simulation by the atomic map\<close>

locale map_object =
  fixes call :: "nat \<Rightarrow> set_op \<Rightarrow> 's \<Rightarrow> 's option"
    and step :: "nat \<Rightarrow> ptr \<Rightarrow> 's \<Rightarrow> 's option"
    and ret :: "nat \<Rightarrow> 's \<Rightarrow> (int \<times> 's) option"
    and inv :: "'s \<Rightarrow> (skey_t \<rightharpoonup> sval_t) \<Rightarrow> (nat \<Rightarrow> a_status) \<Rightarrow> bool"
  assumes call_law: "inv s M st \<Longrightarrow> call i x s = Some s' \<Longrightarrow> st i = A_idle \<and> inv s' M (st(i := Pending x {M}))"
    and step_law: "inv s M st \<Longrightarrow> step i p s = Some s' \<Longrightarrow> inv s' M st \<or>
      (\<exists>x S r M'. st i = Pending x S \<and> map_step x M = (r, M') \<and> inv s' M' ((see M' \<circ> st)(i := Effected x r)))"
    and return_law: "inv s M st \<Longrightarrow> ret i s = Some (r, s') \<Longrightarrow> (\<exists>x. answered x r M (st i)) \<and> inv s' M (st(i := A_idle))"
begin

lemma linearizable:
  assumes "object_exec call step ret s0 tr s" "inv s0 Map.empty (\<lambda>_. A_idle)"
  shows "\<exists>M st. inv s M st \<and> atomic_exec tr M st"
  using assms
proof (induction rule: object_exec.induct)
  case object_start
  then show ?case using atomic_start by blast
next
  case (object_call tr s i x s')
  then obtain M st where "inv s M st" "atomic_exec tr M st" by blast
  then show ?case using call_law [OF _ object_call.hyps(2)] atomic_call by blast
next
  case (object_step tr s i p s')
  then obtain M st where "inv s M st" "atomic_exec tr M st" by blast
  then show ?case using step_law [OF _ object_step.hyps(2)] atomic_effect by blast
next
  case (object_return tr s i r s')
  then obtain M st where inv: "inv s M st" and ex: "atomic_exec tr M st" by blast
  note r = return_law [OF inv object_return.hyps(2)]
  then obtain x where x: "answered x r M (st i)" by blast
  show ?case
  proof (cases "st i = Effected x r")
    case True
    then show ?thesis using r atomic_return [OF ex] by blast
  next
    case False
    then obtain S N where "st i = Pending x S" "N \<in> S" "map_step x N = (r, N)" using x by (auto simp: answered_def)
    then show ?thesis using r atomic_unchanged [OF ex] by blast
  qed
qed

lemma reachable_inv:
  assumes "object_exec call step ret s0 tr s" "inv s0 Map.empty (\<lambda>_. A_idle)"
  shows "\<exists>M st. inv s M st"
  using linearizable [OF assms] by blast

end

text \<open>The same thread by thread: an invariant of the shared state, one of each thread, and what a step
  of one thread leaves alone for the others.\<close>

locale thread_object =
  fixes call :: "nat \<Rightarrow> set_op \<Rightarrow> 's \<Rightarrow> 's option"
    and step :: "nat \<Rightarrow> ptr \<Rightarrow> 's \<Rightarrow> 's option"
    and ret :: "nat \<Rightarrow> 's \<Rightarrow> (int \<times> 's) option"
    and shared :: "'s \<Rightarrow> (skey_t \<rightharpoonup> sval_t) \<Rightarrow> bool"
    and own :: "nat \<Rightarrow> 's \<Rightarrow> (skey_t \<rightharpoonup> sval_t) \<Rightarrow> a_status \<Rightarrow> bool"
    and rely :: "nat \<Rightarrow> 's \<Rightarrow> 's \<Rightarrow> (skey_t \<rightharpoonup> sval_t) \<Rightarrow> bool"
  assumes rely_law: "shared s M \<Longrightarrow> shared s' M' \<Longrightarrow> own j s M st \<Longrightarrow> rely j s s' M' \<Longrightarrow> own j s' M' (see M' st)"
    and own_see: "own j s M st \<Longrightarrow> see M st = st"
    and call_own: "shared s M \<Longrightarrow> own i s M st \<Longrightarrow> call i x s = Some s' \<Longrightarrow>
      st = A_idle \<and> shared s' M \<and> own i s' M (Pending x {M}) \<and> (\<forall>j. j \<noteq> i \<longrightarrow> rely j s s' M)"
    and step_own: "shared s M \<Longrightarrow> own i s M st \<Longrightarrow> step i p s = Some s' \<Longrightarrow>
      \<exists>M' st'. shared s' M' \<and> own i s' M' st' \<and> (\<forall>j. j \<noteq> i \<longrightarrow> rely j s s' M') \<and>
        (M' = M \<and> st' = st \<or> (\<exists>x S r. st = Pending x S \<and> map_step x M = (r, M') \<and> st' = Effected x r))"
    and return_own: "shared s M \<Longrightarrow> own i s M st \<Longrightarrow> ret i s = Some (r, s') \<Longrightarrow>
      (\<exists>x. answered x r M st) \<and> shared s' M \<and> own i s' M A_idle \<and> (\<forall>j. j \<noteq> i \<longrightarrow> rely j s s' M)"
begin

definition all_inv :: "'s \<Rightarrow> (skey_t \<rightharpoonup> sval_t) \<Rightarrow> (nat \<Rightarrow> a_status) \<Rightarrow> bool" where
  "all_inv s M st \<longleftrightarrow> shared s M \<and> (\<forall>i. own i s M (st i))"

lemma all_inv_update:
  assumes inv: "all_inv s M st" and sh: "shared s' M'" and i: "own i s' M' sti" and r: "\<forall>j. j \<noteq> i \<longrightarrow> rely j s s' M'"
  shows "all_inv s' M' ((see M' \<circ> st)(i := sti))"
proof -
  have "own j s' M' (((see M' \<circ> st)(i := sti)) j)" for j
    using inv i r rely_law [OF _ sh, of s M j "st j"] by (cases "j = i") (simp_all add: all_inv_def)
  then show ?thesis using sh by (simp add: all_inv_def)
qed

lemma all_inv_same:
  assumes inv: "all_inv s M st" and sh: "shared s' M" and i: "own i s' M sti" and r: "\<forall>j. j \<noteq> i \<longrightarrow> rely j s s' M"
  shows "all_inv s' M (st(i := sti))"
proof -
  have "see M (st j) = st j" for j using inv own_see [of j s M "st j"] by (simp add: all_inv_def)
  then have "see M \<circ> st = st" by (simp add: fun_eq_iff)
  then show ?thesis using all_inv_update [OF assms] by simp
qed

end

sublocale thread_object \<subseteq> map_object call step ret all_inv
proof unfold_locales
  fix s M st i x s' assume inv: "all_inv s M st" and c: "call i x s = Some s'"
  have "shared s M" "own i s M (st i)" using inv by (simp_all add: all_inv_def)
  from call_own [OF this c] show "st i = A_idle \<and> all_inv s' M (st(i := Pending x {M}))"
    using all_inv_same [OF inv] by blast
next
  fix s M st i p s' assume inv: "all_inv s M st" and c: "step i p s = Some s'"
  have "shared s M" "own i s M (st i)" using inv by (simp_all add: all_inv_def)
  from step_own [OF this c] obtain M' st' where s': "shared s' M'" "own i s' M' st'" "\<forall>j. j \<noteq> i \<longrightarrow> rely j s s' M'"
    and m: "M' = M \<and> st' = st i \<or> (\<exists>x S r. st i = Pending x S \<and> map_step x M = (r, M') \<and> st' = Effected x r)" by blast
  from m show "all_inv s' M st \<or>
      (\<exists>x S r M'. st i = Pending x S \<and> map_step x M = (r, M') \<and> all_inv s' M' ((see M' \<circ> st)(i := Effected x r)))"
  proof (elim disjE)
    assume "M' = M \<and> st' = st i"
    then have "all_inv s' M (st(i := st i))" using s' by (intro all_inv_same [OF inv]) simp_all
    then show ?thesis by simp
  next
    assume "\<exists>x S r. st i = Pending x S \<and> map_step x M = (r, M') \<and> st' = Effected x r"
    then show ?thesis using all_inv_update [OF inv s'] by blast
  qed
next
  fix s M st i r s' assume inv: "all_inv s M st" and c: "ret i s = Some (r, s')"
  have "shared s M" "own i s M (st i)" using inv by (simp_all add: all_inv_def)
  from return_own [OF this c] show "(\<exists>x. answered x r M (st i)) \<and> all_inv s' M (st(i := A_idle))"
    using all_inv_same [OF inv] by blast
qed

end
