(* ===== verification/Lock_Nodes.thy ===== *)
theory Lock_Nodes
  imports Map_Object
begin

text \<open>
  The nodes of the lists that lock nodes (linkedlist-lock.h, linkedlist-lock.c of linkedlist-lazy and
  linkedlist-coupling): key, value, next pointer, mark and lock, and the facts about paths of next
  pointers that the proofs on both lists use. A lock is held by a thread or free; that the locks of
  lock_if.h do this is shown in theory Locks. Memory given back is not reused while an operation may
  hold a reference to it (the promise of ssmem; without GC nothing is reused).
\<close>

section \<open>Nodes\<close>

record node_l =
  nl_key :: skey_t
  nl_val :: sval_t
  nl_next :: ptr
  nl_marked :: bool

type_synonym heap_l = "ptr \<rightharpoonup> node_l"

definition new_node_l :: "skey_t \<Rightarrow> sval_t \<Rightarrow> ptr \<Rightarrow> node_l" where
  "new_node_l key val next = \<lparr>nl_key = key, nl_val = val, nl_next = next, nl_marked = False\<rparr>"

text \<open>\<open>set_new_l\<close>, with the addresses of the two nodes.\<close>

definition set_new_l :: "ptr \<Rightarrow> ptr \<Rightarrow> heap_l" where
  "set_new_l mn mx = [mx \<mapsto> new_node_l KEY_MAX 0 NULL, mn \<mapsto> new_node_l KEY_MIN 0 mx]"

text \<open>The lock fields, by the address of their node: who holds the lock. \<open>LOCK\<close>: one attempt.\<close>

type_synonym locks_l = "ptr \<Rightarrow> nat option"

definition lock_n :: "nat \<Rightarrow> 'p \<Rightarrow> ('p \<Rightarrow> nat option) \<Rightarrow> bool \<times> ('p \<Rightarrow> nat option)" where
  "lock_n i p l = (if l p = None then (True, l(p := Some i)) else (False, l))"

definition unlock_n :: "'p \<Rightarrow> ('p \<Rightarrow> nat option) \<Rightarrow> 'p \<Rightarrow> nat option" where
  "unlock_n p l = l(p := None)"

section \<open>Paths\<close>

definition next_l :: "heap_l \<Rightarrow> ptr \<Rightarrow> ptr option" where
  "next_l h p = map_option nl_next (h p)"

definition reach :: "(ptr \<Rightarrow> ptr option) \<Rightarrow> ptr \<Rightarrow> ptr \<Rightarrow> bool" where
  "reach nx = (\<lambda>p q. nx p = Some q)\<^sup>*\<^sup>*"

lemma reach_refl [simp]: "reach nx p p"
  by (simp add: reach_def)

lemma reach_step: "nx p = Some q \<Longrightarrow> reach nx q z \<Longrightarrow> reach nx p z"
  unfolding reach_def by (rule converse_rtranclp_into_rtranclp)

lemma reach_end: "reach nx p q \<Longrightarrow> nx q = Some z \<Longrightarrow> reach nx p z"
  unfolding reach_def by (rule rtranclp.rtrancl_into_rtrancl)

lemma reach_trans: "reach nx p q \<Longrightarrow> reach nx q z \<Longrightarrow> reach nx p z"
  unfolding reach_def by (rule rtranclp_trans)

lemma reach_cases:
  assumes "reach nx p z" "p \<noteq> z"
  obtains q where "nx p = Some q" "reach nx q z"
proof -
  from assms(1) [unfolded reach_def] assms(2) obtain q where "nx p = Some q" "(\<lambda>p q. nx p = Some q)\<^sup>*\<^sup>* q z"
    by (cases rule: converse_rtranclpE) auto
  then show ?thesis by (intro that [of q]) (simp_all add: reach_def)
qed

lemma reach_linear: "reach nx a b \<Longrightarrow> reach nx a c \<Longrightarrow> reach nx b c \<or> reach nx c b"
  unfolding reach_def
proof (induction rule: rtranclp_induct)
  case (step y z)
  from step.IH [OF step.prems] show ?case
  proof
    assume r: "(\<lambda>p q. nx p = Some q)\<^sup>*\<^sup>* y c"
    then show ?thesis
    proof (cases rule: converse_rtranclpE)
      case base then show ?thesis using step.hyps(2) by (intro disjI2 r_into_rtranclp) simp
    next
      case (step y') then show ?thesis using \<open>nx y = Some z\<close> by simp
    qed
  next
    assume "(\<lambda>p q. nx p = Some q)\<^sup>*\<^sup>* c y"
    then show ?thesis using step.hyps(2) by (meson rtranclp.rtrancl_into_rtrancl)
  qed
qed simp

text \<open>Taking out c, and putting in a new node between c and its predecessor p.\<close>

lemma reach_skip:
  assumes "reach nx a z" "nx p = Some c" "z \<noteq> c"
  shows "reach (nx(p := nx c)) a z"
  using assms(1)
  unfolding reach_def
proof (induction rule: converse_rtranclp_induct)
  case (step a b)
  show ?case
  proof (cases "a = p")
    case False then show ?thesis using step by (intro converse_rtranclp_into_rtranclp [of _ a b]) simp_all
  next
    case True
    then have b: "b = c" using step.hyps(1) assms(2) by simp
    from step.IH have "reach (nx(p := nx c)) c z" by (simp add: b reach_def)
    then obtain d where d: "(nx(p := nx c)) c = Some d" "reach (nx(p := nx c)) d z"
      using assms(3) by (metis reach_cases)
    have "(nx(p := nx c)) a = Some d" using d(1) True by (cases "c = p") simp_all
    then show ?thesis using d(2) unfolding reach_def by (rule converse_rtranclp_into_rtranclp)
  qed
qed simp

lemma reach_insert:
  assumes "reach nx a z" "nx p = Some c" "nx q = None"
  shows "reach (nx(q := Some c, p := Some q)) a z"
  using assms(1)
  unfolding reach_def
proof (induction rule: converse_rtranclp_induct)
  case (step a b)
  have pq: "p \<noteq> q" using assms(2,3) by auto
  show ?case
  proof (cases "a = p")
    case False
    then have "(nx(q := Some c, p := Some q)) a = Some b" using step.hyps(1) assms(3) by auto
    then show ?thesis using step.IH by (rule converse_rtranclp_into_rtranclp)
  next
    case True
    then have b: "b = c" using step.hyps(1) assms(2) by simp
    have "(nx(q := Some c, p := Some q)) q = Some c" "(nx(q := Some c, p := Some q)) a = Some q" using True pq by simp_all
    then show ?thesis using step.IH unfolding b by (meson converse_rtranclp_into_rtranclp)
  qed
qed simp

text \<open>And the other way.\<close>

lemma reach_skip_conv:
  assumes "reach (nx(p := nx c)) a z" "nx p = Some c"
  shows "reach nx a z"
  using assms(1)
  unfolding reach_def
proof (induction rule: converse_rtranclp_induct)
  case (step a b)
  show ?case
  proof (cases "a = p")
    case False then show ?thesis using step by (intro converse_rtranclp_into_rtranclp [of _ a b]) simp_all
  next
    case True
    then have "nx c = Some b" using step.hyps(1) by simp
    then show ?thesis using True assms(2) step.IH by (meson converse_rtranclp_into_rtranclp)
  qed
qed simp

lemma reach_insert_conv:
  assumes "reach (nx(q := Some c, p := Some q)) a z" "nx p = Some c" "nx q = None" "\<And>d. nx d \<noteq> Some q"
  shows "z = q \<or> reach nx a z \<or> a = q \<and> reach nx c z"
  using assms(1)
  unfolding reach_def
proof (induction rule: converse_rtranclp_induct)
  case (step a b)
  have pq: "p \<noteq> q" using assms(2,3) by auto
  have IH: "z = q \<or> reach nx b z \<or> b = q \<and> reach nx c z" using step.IH by (simp add: reach_def)
  have goal: "z = q \<or> reach nx a z \<or> a = q \<and> reach nx c z"
  proof -
  consider "a = p" "b = q" | "a = q" "b = c" | "a \<noteq> p" "a \<noteq> q" "nx a = Some b"
    using step.hyps(1) by (auto split: if_splits)
  then show ?thesis
  proof cases
    case 1
    have "reach nx q z \<Longrightarrow> z = q" using assms(3) by (metis option.simps(3) reach_cases)
    then show ?thesis using IH 1 reach_step [of nx p c z, OF assms(2)] by blast
  next
    case 2
    then show ?thesis using IH assms(2-4) by (metis option.simps(3) reach_cases)
  next
    case 3
    then show ?thesis using IH assms(4) reach_step [of nx a b z] by metis
  qed
  qed
  then show ?case by (simp add: reach_def)
qed simp

section \<open>The list\<close>

definition key_l :: "heap_l \<Rightarrow> ptr \<Rightarrow> skey_t option" where
  "key_l h p = map_option nl_key (h p)"

text \<open>Head and tail, increasing keys along every path, and the map of the list: the nodes that are
  reachable and not marked.\<close>

definition live :: "heap_l \<Rightarrow> ptr \<Rightarrow> ptr \<Rightarrow> bool" where
  "live h head p \<longleftrightarrow> reach (next_l h) head p \<and> (\<exists>n. h p = Some n \<and> \<not> nl_marked n)"

definition chain_ok :: "heap_l \<Rightarrow> ptr \<Rightarrow> bool" where
  "chain_ok h head \<longleftrightarrow>
     key_l h head = Some KEY_MIN \<and>
     (\<forall>p n. h p = Some n \<longrightarrow> p \<noteq> NULL \<and> KEY_MIN \<le> nl_key n \<and> nl_key n \<le> KEY_MAX \<and> (p \<noteq> head \<longrightarrow> KEY_MIN < nl_key n) \<and>
        (if nl_key n < KEY_MAX then \<exists>m. h (nl_next n) = Some m \<and> nl_key n < nl_key m else nl_next n = NULL))"

definition map_ok :: "heap_l \<Rightarrow> ptr \<Rightarrow> (skey_t \<rightharpoonup> sval_t) \<Rightarrow> bool" where
  "map_ok h head M \<longleftrightarrow>
     (\<forall>k v. M k = Some v \<longleftrightarrow> KEY_MIN < k \<and> k < KEY_MAX \<and> (\<exists>p n. live h head p \<and> h p = Some n \<and> nl_key n = k \<and> nl_val n = v))"

lemma chain_okD:
  assumes "chain_ok h head"
  shows "\<exists>n. h head = Some n \<and> nl_key n = KEY_MIN" "h p = Some n \<Longrightarrow> p \<noteq> NULL" "h p = Some n \<Longrightarrow> KEY_MIN \<le> nl_key n \<and> nl_key n \<le> KEY_MAX"
    "h p = Some n \<Longrightarrow> p \<noteq> head \<Longrightarrow> KEY_MIN < nl_key n"
    "h p = Some n \<Longrightarrow> nl_key n < KEY_MAX \<Longrightarrow> \<exists>m. h (nl_next n) = Some m \<and> nl_key n < nl_key m"
    "h p = Some n \<Longrightarrow> \<not> nl_key n < KEY_MAX \<Longrightarrow> nl_next n = NULL" "h NULL = None"
  using assms by (auto simp: chain_ok_def key_l_def intro: ccontr)

lemma reach_keys:
  assumes c: "chain_ok h head" and r: "reach (next_l h) p q" and p: "h p = Some n" and q: "h q = Some m"
  shows "p = q \<or> nl_key n < nl_key m"
  using r p
  unfolding reach_def
proof (induction arbitrary: n rule: converse_rtranclp_induct)
  case (step a b)
  have b: "b = nl_next n" using step.hyps(1) step.prems by (simp add: next_l_def)
  show ?case
  proof (cases "nl_key n < KEY_MAX")
    case True
    then obtain n' where n': "h b = Some n'" "nl_key n < nl_key n'" using chain_okD(5) [OF c step.prems] b by blast
    from step.IH [OF n'(1)] n' q show ?thesis by auto
  next
    case False
    then have "b = NULL" using chain_okD(6) [OF c step.prems] b by simp
    moreover have "reach (next_l h) b q" using step.hyps(2) by (simp add: reach_def)
    moreover have "next_l h NULL = None" using chain_okD(7) [OF c] by (simp add: next_l_def)
    ultimately have "q = NULL" by (metis option.simps(3) reach_cases)
    then show ?thesis using chain_okD(7) [OF c] q by simp
  qed
qed simp

lemma live_unique:
  assumes c: "chain_ok h head" and p: "live h head p" "h p = Some n" and q: "live h head q" "h q = Some m" and k: "nl_key n = nl_key m"
  shows "p = q"
proof -
  have "reach (next_l h) p q \<or> reach (next_l h) q p" using p(1) q(1) reach_linear unfolding live_def by blast
  then show ?thesis
  proof
    assume "reach (next_l h) p q"
    from reach_keys [OF c this p(2) q(2)] show ?thesis using k by simp
  next
    assume "reach (next_l h) q p"
    from reach_keys [OF c this q(2) p(2)] show ?thesis using k by simp
  qed
qed

text \<open>What two neighbours say about the map.\<close>

lemma map_ok_gap:
  assumes c: "chain_ok h head" and M: "map_ok h head M" and p: "reach (next_l h) head p" "h p = Some n" and q: "h (nl_next n) = Some m"
    and k: "nl_key n < k" "k < nl_key m"
  shows "M k = None"
proof (rule ccontr)
  assume "M k \<noteq> None"
  then obtain v where "M k = Some v" by auto
  then obtain z nz where z: "live h head z" "h z = Some nz" "nl_key nz = k" using M by (auto simp: map_ok_def)
  have nx: "next_l h p = Some (nl_next n)" using p(2) by (simp add: next_l_def)
  have "reach (next_l h) p z \<or> reach (next_l h) z p" using p(1) z(1) reach_linear unfolding live_def by blast
  then show False
  proof
    assume r: "reach (next_l h) p z"
    have "p \<noteq> z" using p(2) z(2,3) k(1) by auto
    then have "reach (next_l h) (nl_next n) z" using r nx by (metis option.inject reach_cases)
    from reach_keys [OF c this q z(2)] show False using q z(2,3) k by auto
  next
    assume r: "reach (next_l h) z p"
    from reach_keys [OF c r z(2) p(2)] show False using p(2) z(2,3) k by auto
  qed
qed

lemma map_ok_live:
  assumes "map_ok h head M" "live h head p" "h p = Some n" "nl_key n = k" "KEY_MIN < k" "k < KEY_MAX"
  shows "M k = Some (nl_val n)"
  using assms unfolding map_ok_def by blast



section \<open>Changes of the list\<close>

lemma next_l_simps [simp]:
  "next_l (h(p \<mapsto> n)) = (next_l h)(p := Some (nl_next n))" "next_l (h(p := None)) = (next_l h)(p := None)"
  by (auto simp: next_l_def fun_eq_iff)

lemma next_l_None: "h p = None \<Longrightarrow> next_l h p = None"
  by (simp add: next_l_def)

lemma next_l_Some: "h p = Some n \<Longrightarrow> next_l h p = Some (nl_next n)"
  by (simp add: next_l_def)

lemma insert_chain:
  assumes c: "chain_ok h head" and p: "h p = Some n" and m: "h (nl_next n) = Some m" and q: "h q = None" "q \<noteq> NULL"
    and k: "nl_key n < k" "k < nl_key m"
  shows "chain_ok (h(q \<mapsto> new_node_l k v (nl_next n), p \<mapsto> n\<lparr>nl_next := q\<rparr>)) head"
proof -
  let ?h = "h(q \<mapsto> new_node_l k v (nl_next n), p \<mapsto> n\<lparr>nl_next := q\<rparr>)"
  have pq: "p \<noteq> q" using p q by auto
  have hq: "head \<noteq> q" using chain_okD(1) [OF c] q by auto
  have "KEY_MIN \<le> nl_key n" "nl_key m \<le> KEY_MAX" using chain_okD(3) [OF c] p m by blast+
  then have b: "KEY_MIN < k" "k < KEY_MAX" using k by simp_all
  have keep: "\<exists>a'. ?h a = Some a' \<and> nl_key a' = nl_key x" if "h a = Some x" for a x
    using that p q by (auto simp: pq)
  show ?thesis
    unfolding chain_ok_def
  proof (intro conjI allI impI)
    show "key_l ?h head = Some KEY_MIN" using chain_okD(1) [OF c] p hq by (auto simp: key_l_def)
    fix a x assume a: "?h a = Some x"
    consider "a = p" "x = n\<lparr>nl_next := q\<rparr>" | "a = q" "a \<noteq> p" "x = new_node_l k v (nl_next n)" | "a \<noteq> p" "a \<noteq> q" "h a = Some x"
      using a by (auto split: if_splits)
    then have "a \<noteq> NULL \<and> KEY_MIN \<le> nl_key x \<and> nl_key x \<le> KEY_MAX \<and> (a \<noteq> head \<longrightarrow> KEY_MIN < nl_key x) \<and>
      (if nl_key x < KEY_MAX then \<exists>y. ?h (nl_next x) = Some y \<and> nl_key x < nl_key y else nl_next x = NULL)"
    proof cases
      case 1
      have "?h q = Some (new_node_l k v (nl_next n))" using pq by simp
      then show ?thesis using 1 chain_okD(2-4) [OF c p] b k by (simp add: new_node_l_def)
    next
      case 2
      obtain y where "?h (nl_next n) = Some y" "nl_key y = nl_key m" using keep [OF m] by blast
      then show ?thesis using 2 q b k by (simp add: new_node_l_def)
    next
      case 3
      have "\<exists>y. ?h (nl_next x) = Some y \<and> nl_key x < nl_key y" if "nl_key x < KEY_MAX"
        using chain_okD(5) [OF c 3(3) that] keep by metis
      then show ?thesis using chain_okD(2-4,6) [OF c 3(3)] by simp
    qed
    then show "a \<noteq> NULL" "KEY_MIN \<le> nl_key x" "nl_key x \<le> KEY_MAX" "a \<noteq> head \<Longrightarrow> KEY_MIN < nl_key x"
      "if nl_key x < KEY_MAX then \<exists>y. ?h (nl_next x) = Some y \<and> nl_key x < nl_key y else nl_next x = NULL"
      by blast+
  qed
qed

lemma insert_reach:
  assumes "h p = Some n" "h q = None" "p \<noteq> q" "reach (next_l h) a z"
  shows "reach (next_l (h(q \<mapsto> new_node_l k v (nl_next n), p \<mapsto> n\<lparr>nl_next := q\<rparr>))) a z"
  using reach_insert [OF assms(4) next_l_Some [of h p n, OF assms(1)], of q] assms(2)
  by (simp add: next_l_None new_node_l_def)


lemma chain_next:
  assumes "chain_ok h head" "next_l h d = Some q"
  shows "q = NULL \<or> h q \<noteq> None"
proof -
  obtain n where n: "h d = Some n" "q = nl_next n" using assms(2) by (auto simp: next_l_def)
  then show ?thesis using chain_okD(5,6) [OF assms(1) n(1)] by (cases "nl_key n < KEY_MAX") auto
qed

lemma reach_mapped:
  assumes "chain_ok h head" "reach (next_l h) head z"
  shows "z = NULL \<or> h z \<noteq> None"
  using assms(2) unfolding reach_def
proof (cases rule: rtranclp.cases)
  case rtrancl_refl
  then show ?thesis using chain_okD(1) [OF assms(1)] by auto
next
  case (rtrancl_into_rtrancl b)
  then show ?thesis using chain_next [OF assms(1)] by blast
qed

lemma insert_live:
  assumes c: "chain_ok h head" and p: "h p = Some n" "reach (next_l h) head p" and q: "h q = None" "q \<noteq> NULL"
  shows "live (h(q \<mapsto> new_node_l k v (nl_next n), p \<mapsto> n\<lparr>nl_next := q\<rparr>)) head z \<longleftrightarrow> z = q \<or> live h head z"
proof -
  let ?h = "h(q \<mapsto> new_node_l k v (nl_next n), p \<mapsto> n\<lparr>nl_next := q\<rparr>)"
  have pq: "p \<noteq> q" and hq: "head \<noteq> q" using p q chain_okD(1) [OF c] by auto
  have nx: "next_l ?h = (next_l h)(q := Some (nl_next n), p := Some q)" by (simp add: new_node_l_def)
  note np = next_l_Some [of h p n, OF p(1)] and nq = next_l_None [of h q, OF q(1)]
  have "reach (next_l ?h) head p" by (rule insert_reach [OF p(1) q(1) pq p(2)])
  then have rq: "reach (next_l ?h) head q" by (rule reach_end) (simp add: nx)
  have "reach (next_l ?h) head z \<longleftrightarrow> z = q \<or> reach (next_l h) head z"
  proof
    assume "reach (next_l ?h) head z"
    then show "z = q \<or> reach (next_l h) head z"
      using reach_insert_conv [of "next_l h" q "nl_next n" p head z] np nq hq chain_next [OF c] q nx by metis
  next
    assume "z = q \<or> reach (next_l h) head z"
    then show "reach (next_l ?h) head z" using rq insert_reach [OF p(1) q(1) pq] by blast
  qed
  moreover have "(\<exists>m. ?h z = Some m \<and> \<not> nl_marked m) \<longleftrightarrow> z = q \<or> (\<exists>m. h z = Some m \<and> \<not> nl_marked m)"
    using p q pq by (auto simp: new_node_l_def)
  ultimately show ?thesis unfolding live_def using q(1) by auto
qed

lemma insert_map:
  assumes c: "chain_ok h head" and M: "map_ok h head M" and p: "h p = Some n" "reach (next_l h) head p"
    and m: "h (nl_next n) = Some m" and q: "h q = None" "q \<noteq> NULL" and k: "nl_key n < k" "k < nl_key m"
  shows "map_ok (h(q \<mapsto> new_node_l k v (nl_next n), p \<mapsto> n\<lparr>nl_next := q\<rparr>)) head (M(k \<mapsto> v))"
proof -
  let ?h = "h(q \<mapsto> new_node_l k v (nl_next n), p \<mapsto> n\<lparr>nl_next := q\<rparr>)"
  have pq: "p \<noteq> q" using p q by auto
  have none: "M k = None" by (rule map_ok_gap [OF c M p(2,1) m k])
  have "KEY_MIN \<le> nl_key n" "nl_key m \<le> KEY_MAX" using chain_okD(3) [OF c] p m by blast+
  then have b: "KEY_MIN < k" "k < KEY_MAX" using k by simp_all
  note live = insert_live [OF c p q, of k v]
  have old: "(\<exists>n'. ?h z = Some n' \<and> nl_key n' = k' \<and> nl_val n' = v') \<longleftrightarrow> (\<exists>n'. h z = Some n' \<and> nl_key n' = k' \<and> nl_val n' = v')"
    if "z \<noteq> q" for z k' v'
    using that p by auto
  show ?thesis
    unfolding map_ok_def
  proof (intro allI)
    fix k' v'
    have "(\<exists>z n'. live ?h head z \<and> ?h z = Some n' \<and> nl_key n' = k' \<and> nl_val n' = v') \<longleftrightarrow>
      k' = k \<and> v' = v \<or> (\<exists>z n'. live h head z \<and> h z = Some n' \<and> nl_key n' = k' \<and> nl_val n' = v')"
    proof
      assume "\<exists>z n'. live ?h head z \<and> ?h z = Some n' \<and> nl_key n' = k' \<and> nl_val n' = v'"
      then obtain z n' where z: "live ?h head z" "?h z = Some n'" "nl_key n' = k'" "nl_val n' = v'" by blast
      show "k' = k \<and> v' = v \<or> (\<exists>z n'. live h head z \<and> h z = Some n' \<and> nl_key n' = k' \<and> nl_val n' = v')"
      proof (cases "z = q")
        case True then show ?thesis using z pq by (auto simp: new_node_l_def)
      next
        case False then show ?thesis using z live old [OF False] by blast
      qed
    next
      assume "k' = k \<and> v' = v \<or> (\<exists>z n'. live h head z \<and> h z = Some n' \<and> nl_key n' = k' \<and> nl_val n' = v')"
      then show "\<exists>z n'. live ?h head z \<and> ?h z = Some n' \<and> nl_key n' = k' \<and> nl_val n' = v'"
      proof
        assume "k' = k \<and> v' = v"
        then show ?thesis using live pq by (intro exI [of _ q] exI [of _ "new_node_l k v (nl_next n)"]) (simp add: new_node_l_def)
      next
        assume "\<exists>z n'. live h head z \<and> h z = Some n' \<and> nl_key n' = k' \<and> nl_val n' = v'"
        then obtain z where z: "live h head z" "\<exists>n'. h z = Some n' \<and> nl_key n' = k' \<and> nl_val n' = v'" by blast
        then have "z \<noteq> q" using q by auto
        then show ?thesis using z live old by blast
      qed
    qed
    moreover have "M k' = Some v' \<longleftrightarrow> KEY_MIN < k' \<and> k' < KEY_MAX \<and>
        (\<exists>z n'. live h head z \<and> h z = Some n' \<and> nl_key n' = k' \<and> nl_val n' = v')"
      using M unfolding map_ok_def by blast
    ultimately show "(M(k \<mapsto> v)) k' = Some v' \<longleftrightarrow> KEY_MIN < k' \<and> k' < KEY_MAX \<and>
        (\<exists>z n'. live ?h head z \<and> ?h z = Some n' \<and> nl_key n' = k' \<and> nl_val n' = v')"
      using none b by (cases "k' = k") (simp, blast, simp)
  qed
qed

text \<open>Changes that leave the keys and next pointers as they are.\<close>

lemma chain_ok_same:
  assumes c: "chain_ok h head" and s: "\<And>a. map_option (\<lambda>x. (nl_key x, nl_next x)) (h' a) = map_option (\<lambda>x. (nl_key x, nl_next x)) (h a)"
  shows "chain_ok h' head"
proof -
  have old: "\<exists>y. h a = Some y \<and> nl_key y = nl_key x \<and> nl_next y = nl_next x" if "h' a = Some x" for a x
    using s [of a] that by (cases "h a") auto
  have new: "\<exists>y. h' a = Some y \<and> nl_key y = nl_key x" if "h a = Some x" for a x
    using s [of a] that by (cases "h' a") auto
  show ?thesis
    unfolding chain_ok_def
  proof (intro conjI allI impI)
    show "key_l h' head = Some KEY_MIN" using chain_okD(1) [OF c] new by (fastforce simp: key_l_def)
    fix a x assume "h' a = Some x"
    then obtain y where y: "h a = Some y" "nl_key y = nl_key x" "nl_next y = nl_next x" using old by blast
    show "a \<noteq> NULL" "KEY_MIN \<le> nl_key x" "nl_key x \<le> KEY_MAX" "a \<noteq> head \<Longrightarrow> KEY_MIN < nl_key x"
      using chain_okD(2-4) [OF c y(1)] y(2) by simp_all
    show "if nl_key x < KEY_MAX then \<exists>m. h' (nl_next x) = Some m \<and> nl_key x < nl_key m else nl_next x = NULL"
      using chain_okD(5,6) [OF c y(1)] new y(2,3) by (auto split: if_splits) metis
  qed
qed

text \<open>A node is marked.\<close>

lemma mark_list:
  assumes c: "chain_ok h head" and M: "map_ok h head M" and p: "live h head p" "h p = Some n" and k: "nl_key n = k"
  shows "chain_ok (h(p \<mapsto> n\<lparr>nl_marked := True\<rparr>)) head" "map_ok (h(p \<mapsto> n\<lparr>nl_marked := True\<rparr>)) head (M(k := None))"
proof -
  let ?h = "h(p \<mapsto> n\<lparr>nl_marked := True\<rparr>)"
  have nx: "next_l ?h = next_l h" using p(2) by (auto simp: next_l_def fun_eq_iff)
  show "chain_ok ?h head" by (rule chain_ok_same [OF c]) (use p(2) in simp)
  have live: "live ?h head z \<longleftrightarrow> live h head z \<and> z \<noteq> p" for z
    unfolding live_def nx by auto
  show "map_ok ?h head (M(k := None))"
    unfolding map_ok_def
  proof (intro allI)
    fix k' v'
    have "(\<exists>z n'. live ?h head z \<and> ?h z = Some n' \<and> nl_key n' = k' \<and> nl_val n' = v') \<longleftrightarrow>
      k' \<noteq> k \<and> (\<exists>z n'. live h head z \<and> h z = Some n' \<and> nl_key n' = k' \<and> nl_val n' = v')"
      unfolding live using live_unique [OF c _ _ p] k p(2) by fastforce
    then show "(M(k := None)) k' = Some v' \<longleftrightarrow> KEY_MIN < k' \<and> k' < KEY_MAX \<and>
        (\<exists>z n'. live ?h head z \<and> ?h z = Some n' \<and> nl_key n' = k' \<and> nl_val n' = v')"
      using M unfolding map_ok_def by auto
  qed
qed


text \<open>A marked node, or one that is taken out of the map by this, is unlinked.\<close>

lemma skip_chain:
  assumes c: "chain_ok h head" and p: "h p = Some n" and d: "h (nl_next n) = Some m" "nl_key m < KEY_MAX"
  shows "chain_ok (h(p \<mapsto> n\<lparr>nl_next := nl_next m\<rparr>)) head"
proof -
  let ?h = "h(p \<mapsto> n\<lparr>nl_next := nl_next m\<rparr>)"
  have key: "\<exists>y. ?h a = Some y \<and> nl_key y = nl_key x" if "h a = Some x" for a x using that p by auto
  have nm: "nl_key n < nl_key m"
    using chain_okD(5) [OF c p] chain_okD(6) [OF c p] chain_okD(7) [OF c] d(1) by (cases "nl_key n < KEY_MAX") auto
  obtain m' where m': "h (nl_next m) = Some m'" "nl_key m < nl_key m'" using chain_okD(5) [OF c d] by blast
  show ?thesis
    unfolding chain_ok_def
  proof (intro conjI allI impI)
    show "key_l ?h head = Some KEY_MIN" using chain_okD(1) [OF c] key by (fastforce simp: key_l_def)
    fix a x assume a: "?h a = Some x"
    obtain y where y: "h a = Some y" "nl_key y = nl_key x" using a p by (auto split: if_splits)
    show "a \<noteq> NULL" "KEY_MIN \<le> nl_key x" "nl_key x \<le> KEY_MAX" "a \<noteq> head \<Longrightarrow> KEY_MIN < nl_key x"
      using chain_okD(2-4) [OF c y(1)] y(2) by simp_all
    show "if nl_key x < KEY_MAX then \<exists>m. ?h (nl_next x) = Some m \<and> nl_key x < nl_key m else nl_next x = NULL"
    proof (cases "a = p")
      case True
      then have x: "x = n\<lparr>nl_next := nl_next m\<rparr>" using a by simp
      obtain z where "?h (nl_next m) = Some z" "nl_key z = nl_key m'" using key [OF m'(1)] by blast
      then show ?thesis using x nm d(2) m' by auto
    next
      case False
      then have x: "h a = Some x" using a by simp
      show ?thesis
      proof (cases "nl_key x < KEY_MAX")
        case True
        then obtain z where "h (nl_next x) = Some z" "nl_key x < nl_key z" using chain_okD(5) [OF c x] by blast
        then show ?thesis using key True by (metis (no_types))
      qed (use chain_okD(6) [OF c x] in simp)
    qed
  qed
qed

lemma skip_reach:
  assumes "h p = Some n" "h (nl_next n) = Some m"
  shows "reach (next_l h) a z \<Longrightarrow> z \<noteq> nl_next n \<Longrightarrow> reach (next_l (h(p \<mapsto> n\<lparr>nl_next := nl_next m\<rparr>))) a z"
    "reach (next_l (h(p \<mapsto> n\<lparr>nl_next := nl_next m\<rparr>))) a z \<Longrightarrow> reach (next_l h) a z"
  using reach_skip [of "next_l h" a z p "nl_next n"] reach_skip_conv [of "next_l h" p "nl_next n" a z] assms
  by (simp_all add: next_l_Some)

lemma skip_map:
  assumes c: "chain_ok h head" and M: "map_ok h head M" and p: "h p = Some n" and d: "h (nl_next n) = Some m" "nl_marked m"
  shows "map_ok (h(p \<mapsto> n\<lparr>nl_next := nl_next m\<rparr>)) head M"
proof -
  let ?h = "h(p \<mapsto> n\<lparr>nl_next := nl_next m\<rparr>)"
  have live: "live ?h head z \<longleftrightarrow> live h head z" for z
  proof -
    have m: "(\<exists>x. ?h z = Some x \<and> \<not> nl_marked x) \<longleftrightarrow> (\<exists>x. h z = Some x \<and> \<not> nl_marked x)" using p by auto
    show ?thesis
    proof (cases "z = nl_next n")
      case True then show ?thesis using d m by (simp add: live_def)
    next
      case False then show ?thesis using skip_reach [OF p d(1)] m unfolding live_def by blast
    qed
  qed
  have "(\<exists>n'. ?h z = Some n' \<and> nl_key n' = k \<and> nl_val n' = v) \<longleftrightarrow> (\<exists>n'. h z = Some n' \<and> nl_key n' = k \<and> nl_val n' = v)" for z k v
    using p by auto
  then show ?thesis using M unfolding map_ok_def live by blast
qed


text \<open>A node that is not marked is unlinked and so taken out of the map.\<close>

lemma remove_unreachable:
  assumes c: "chain_ok h head" and p: "h p = Some n" "reach (next_l h) head p" and d: "h (nl_next n) = Some m" "nl_key m < KEY_MAX"
  shows "\<not> reach (next_l (h(p \<mapsto> n\<lparr>nl_next := nl_next m\<rparr>))) head (nl_next n)"
proof
  let ?h = "h(p \<mapsto> n\<lparr>nl_next := nl_next m\<rparr>)" and ?c = "nl_next n"
  assume r: "reach (next_l ?h) head ?c"
  note c' = skip_chain [OF c p(1) d]
  have nm: "nl_key n < nl_key m"
    using chain_okD(5) [OF c p(1)] chain_okD(6) [OF c p(1)] chain_okD(7) [OF c] d(1) by (cases "nl_key n < KEY_MAX") auto
  obtain m' where m': "h (nl_next m) = Some m'" "nl_key m < nl_key m'" using chain_okD(5) [OF c d] by blast
  have pc: "p \<noteq> ?c" using nm p(1) d(1) by auto
  have hp: "?h p = Some (n\<lparr>nl_next := nl_next m\<rparr>)" and hc: "?h ?c = Some m" using pc d(1) by simp_all
  have "reach (next_l ?h) head p" using skip_reach(1) [of h p n m head p] p d pc by simp
  then have "reach (next_l ?h) p ?c \<or> reach (next_l ?h) ?c p" using r reach_linear by blast
  then show False
  proof
    assume "reach (next_l ?h) p ?c"
    then obtain b where b: "next_l ?h p = Some b" "reach (next_l ?h) b ?c" using pc reach_cases by metis
    have "b = nl_next m" using b(1) next_l_Some [of ?h p, OF hp] by simp
    moreover obtain y where "?h (nl_next m) = Some y" "nl_key y = nl_key m'" using m'(1) p(1) by (cases "nl_next m = p") auto
    ultimately show False using reach_keys [OF c' b(2) _ hc] m'(2) hc by fastforce
  next
    assume "reach (next_l ?h) ?c p"
    from reach_keys [OF c' this hc hp] show False using nm pc by auto
  qed
qed

lemma remove_live:
  assumes c: "chain_ok h head" and p: "h p = Some n" "reach (next_l h) head p" and d: "h (nl_next n) = Some m" "nl_key m < KEY_MAX"
  shows "live (h(p \<mapsto> n\<lparr>nl_next := nl_next m\<rparr>)) head z \<longleftrightarrow> live h head z \<and> z \<noteq> nl_next n"
proof -
  let ?h = "h(p \<mapsto> n\<lparr>nl_next := nl_next m\<rparr>)"
  have m: "(\<exists>x. ?h z = Some x \<and> \<not> nl_marked x) \<longleftrightarrow> (\<exists>x. h z = Some x \<and> \<not> nl_marked x)" using p(1) by auto
  have "reach (next_l ?h) head z \<longleftrightarrow> reach (next_l h) head z \<and> z \<noteq> nl_next n"
    using remove_unreachable [OF c p d] skip_reach [of h p n m head z] p(1) d(1) by blast
  then show ?thesis using m unfolding live_def by blast
qed

lemma remove_map:
  assumes c: "chain_ok h head" and M: "map_ok h head M" and p: "h p = Some n" "reach (next_l h) head p"
    and d: "h (nl_next n) = Some m" "nl_key m < KEY_MAX" "\<not> nl_marked m" and k: "nl_key m = k"
  shows "map_ok (h(p \<mapsto> n\<lparr>nl_next := nl_next m\<rparr>)) head (M(k := None))"
  unfolding map_ok_def
proof (intro allI)
  let ?h = "h(p \<mapsto> n\<lparr>nl_next := nl_next m\<rparr>)"
  fix k' v'
  have at: "(\<exists>n'. ?h z = Some n' \<and> nl_key n' = k' \<and> nl_val n' = v') \<longleftrightarrow> (\<exists>n'. h z = Some n' \<and> nl_key n' = k' \<and> nl_val n' = v')" for z
    using p(1) by auto
  have "live h head (nl_next n)" using reach_end [OF p(2) next_l_Some [of h p n, OF p(1)]] d by (simp add: live_def)
  then have uniq: "live h head z \<Longrightarrow> h z = Some x \<Longrightarrow> nl_key x = k \<Longrightarrow> z = nl_next n" for z x
    using live_unique [OF c _ _ _ d(1)] k by simp
  note rl = remove_live [OF c p d(1,2)]
  have "(\<exists>z n'. live ?h head z \<and> ?h z = Some n' \<and> nl_key n' = k' \<and> nl_val n' = v') \<longleftrightarrow>
      k' \<noteq> k \<and> (\<exists>z n'. live h head z \<and> h z = Some n' \<and> nl_key n' = k' \<and> nl_val n' = v')"
  proof
    assume "\<exists>z n'. live ?h head z \<and> ?h z = Some n' \<and> nl_key n' = k' \<and> nl_val n' = v'"
    then obtain z where z: "live ?h head z" "\<exists>n'. ?h z = Some n' \<and> nl_key n' = k' \<and> nl_val n' = v'" by blast
    have z': "\<exists>n'. h z = Some n' \<and> nl_key n' = k' \<and> nl_val n' = v'" using z(2) at by simp
    have l: "live h head z" "z \<noteq> nl_next n" using z(1) rl by simp_all
    have "k' \<noteq> k" using z' uniq [OF l(1)] l(2) by blast
    then show "k' \<noteq> k \<and> (\<exists>z n'. live h head z \<and> h z = Some n' \<and> nl_key n' = k' \<and> nl_val n' = v')" using z' l(1) by blast
  next
    assume a: "k' \<noteq> k \<and> (\<exists>z n'. live h head z \<and> h z = Some n' \<and> nl_key n' = k' \<and> nl_val n' = v')"
    then obtain z where z: "live h head z" "\<exists>n'. h z = Some n' \<and> nl_key n' = k' \<and> nl_val n' = v'" by blast
    have "z \<noteq> nl_next n" using z(2) a d(1) k by auto
    then have "live ?h head z" using z(1) rl by simp
    moreover have "\<exists>n'. ?h z = Some n' \<and> nl_key n' = k' \<and> nl_val n' = v'" using z(2) at by simp
    ultimately show "\<exists>z n'. live ?h head z \<and> ?h z = Some n' \<and> nl_key n' = k' \<and> nl_val n' = v'" by blast
  qed
  then show "(M(k := None)) k' = Some v' \<longleftrightarrow> KEY_MIN < k' \<and> k' < KEY_MAX \<and>
      (\<exists>z n'. live ?h head z \<and> ?h z = Some n' \<and> nl_key n' = k' \<and> nl_val n' = v')"
    using M unfolding map_ok_def by (cases "k' = k") auto
qed

text \<open>A node that is not reachable and to which no mapped node points is freed.\<close>

lemma reach_without:
  assumes "\<not> reach nx a v"
  shows "reach (nx(v := None)) a z \<longleftrightarrow> reach nx a z"
proof
  assume "reach (nx(v := None)) a z"
  then show "reach nx a z"
    unfolding reach_def by (rule rtranclp_mono [THEN predicate2D, rotated]) (auto split: if_splits)
next
  assume "reach nx a z"
  then show "reach (nx(v := None)) a z"
    using assms unfolding reach_def
  proof (induction rule: converse_rtranclp_induct)
    case (step a b)
    have "a \<noteq> v" using step.prems by auto
    then have "(nx(v := None)) a = Some b" using step.hyps(1) by simp
    moreover have "\<not> (\<lambda>p q. nx p = Some q)\<^sup>*\<^sup>* b v" using step.hyps(1) step.prems by (meson converse_rtranclp_into_rtranclp)
    ultimately show ?case using step.IH by (meson converse_rtranclp_into_rtranclp)
  qed simp
qed

lemma free_chain:
  assumes c: "chain_ok h head" and v: "\<not> reach (next_l h) head v" and ptr: "\<And>a. a \<noteq> v \<Longrightarrow> next_l h a \<noteq> Some v"
  shows "chain_ok (h(v := None)) head"
proof -
  have hv: "v \<noteq> head" using v by auto
  have keep: "nl_next n \<noteq> v" if "h a = Some n" "a \<noteq> v" for a n
    using ptr [OF that(2)] next_l_Some [of h a n, OF that(1)] by simp
  show ?thesis
    unfolding chain_ok_def
  proof (intro conjI allI impI)
    show "key_l (h(v := None)) head = Some KEY_MIN" using chain_okD(1) [OF c] hv by (auto simp: key_l_def)
    fix a n assume "(h(v := None)) a = Some n"
    then have a: "a \<noteq> v" "h a = Some n" by (auto split: if_splits)
    show "a \<noteq> NULL" "KEY_MIN \<le> nl_key n" "nl_key n \<le> KEY_MAX" "a \<noteq> head \<Longrightarrow> KEY_MIN < nl_key n"
      using chain_okD(2-4) [OF c a(2)] by simp_all
    show "if nl_key n < KEY_MAX then \<exists>m. (h(v := None)) (nl_next n) = Some m \<and> nl_key n < nl_key m else nl_next n = NULL"
      using chain_okD(5,6) [OF c a(2)] keep [OF a(2,1)] by simp
  qed
qed

lemma free_map:
  assumes M: "map_ok h head M" and v: "\<not> reach (next_l h) head v"
  shows "map_ok (h(v := None)) head M"
proof -
  have "live (h(v := None)) head z \<and> (h(v := None)) z = Some n \<longleftrightarrow> live h head z \<and> h z = Some n" for z n
    using v reach_without [OF v, of z] by (cases "z = v") (simp_all add: live_def)
  then show ?thesis using M unfolding map_ok_def by metis
qed

text \<open>\<open>set_new_l\<close>.\<close>

lemma set_new_chain:
  assumes "mn \<noteq> mx" "mn \<noteq> NULL" "mx \<noteq> NULL"
  shows "chain_ok (set_new_l mn mx) mn" "map_ok (set_new_l mn mx) mn Map.empty"
    "set_new_l mn mx p = Some n \<Longrightarrow> reach (next_l (set_new_l mn mx)) mn p"
proof -
  show "chain_ok (set_new_l mn mx) mn"
    using assms by (auto simp: chain_ok_def key_l_def set_new_l_def new_node_l_def KEY_MIN_def KEY_MAX_def)
  show "map_ok (set_new_l mn mx) mn Map.empty"
    using assms by (auto simp: map_ok_def set_new_l_def new_node_l_def split: if_splits)
  assume p: "set_new_l mn mx p = Some n"
  have "next_l (set_new_l mn mx) mn = Some mx" using assms by (simp add: set_new_l_def next_l_def new_node_l_def)
  then have "reach (next_l (set_new_l mn mx)) mn mx" by (rule reach_step) simp
  then show "reach (next_l (set_new_l mn mx)) mn p" using p by (auto simp: set_new_l_def split: if_splits)
qed

section \<open>Size and disposal\<close>

text \<open>\<open>set_size_l\<close> and \<open>set_delete_l\<close>, for when the threads have ended. The size is an \<open>int\<close>.\<close>

partial_function (option) size_loop_l :: "heap_l \<Rightarrow> 32 word \<Rightarrow> ptr \<Rightarrow> 32 word option" where
  "size_loop_l h sz p = do {
     n \<leftarrow> h p;
     if nl_next n = NULL then Some sz else size_loop_l h (sz + 1) (nl_next n) }"

definition set_size_l :: "heap_l \<Rightarrow> ptr \<Rightarrow> int option" where
  "set_size_l h head = do {
     n \<leftarrow> h head;
     sz \<leftarrow> size_loop_l h 0 (nl_next n);
     Some (sint sz) }"

partial_function (option) set_delete_l :: "heap_l \<Rightarrow> ptr \<Rightarrow> heap_l option" where
  "set_delete_l h p =
     (if p = NULL then Some h
      else do {
        n \<leftarrow> h p;
        set_delete_l (h(p := None)) (nl_next n) })"

declare size_loop_l.simps [code] set_delete_l.simps [code]

definition interior :: "heap_l \<Rightarrow> ptr \<Rightarrow> ptr set" where
  "interior h p = {q. reach (next_l h) p q \<and> (\<exists>n. h q = Some n \<and> nl_key n < KEY_MAX)}"

lemma reach_iff: "next_l h p = Some q \<Longrightarrow> reach (next_l h) p z \<longleftrightarrow> z = p \<or> reach (next_l h) q z"
  by (metis option.inject reach_cases reach_refl reach_step)

lemma reach_NULL: "chain_ok h head \<Longrightarrow> reach (next_l h) NULL z \<longleftrightarrow> z = NULL"
  by (metis chain_okD(7) next_l_None option.simps(3) reach_cases reach_refl)

lemma interior_step:
  assumes c: "chain_ok h head" and p: "h p = Some x"
  shows "nl_key x < KEY_MAX \<Longrightarrow> interior h p = insert p (interior h (nl_next x)) \<and> p \<notin> interior h (nl_next x)"
    "\<not> nl_key x < KEY_MAX \<Longrightarrow> interior h p = {}"
proof -
  note nx = reach_iff [of h p "nl_next x", OF next_l_Some [of h p x, OF p]]
  show "interior h p = insert p (interior h (nl_next x)) \<and> p \<notin> interior h (nl_next x)" if k: "nl_key x < KEY_MAX"
  proof
    show "interior h p = insert p (interior h (nl_next x))" using nx p k by (auto simp: interior_def)
    obtain m where m: "h (nl_next x) = Some m" "nl_key x < nl_key m" using chain_okD(5) [OF c p k] by blast
    have "\<not> reach (next_l h) (nl_next x) p" using reach_keys [OF c _ m(1) p] m p by fastforce
    then show "p \<notin> interior h (nl_next x)" by (simp add: interior_def)
  qed
  show "interior h p = {}" if k: "\<not> nl_key x < KEY_MAX"
    using nx chain_okD(6) [OF c p k] reach_NULL [OF c] chain_okD(7) [OF c] p k by (auto simp: interior_def)
qed

lemma size_loop_counts:
  assumes c: "chain_ok h head"
  shows "h p = Some x \<Longrightarrow> finite (interior h p) \<and> size_loop_l h sz p = Some (sz + of_nat (card (interior h p)))"
proof (induction "nat (KEY_MAX - nl_key x)" arbitrary: sz p x rule: less_induct)
  case less
  show ?case
  proof (cases "nl_key x < KEY_MAX")
    case True
    obtain m where m: "h (nl_next x) = Some m" "nl_key x < nl_key m" using chain_okD(5) [OF c less.prems True] by blast
    have "nat (KEY_MAX - nl_key m) < nat (KEY_MAX - nl_key x)" using m(2) True by simp
    note IH = less.hyps [OF this m(1)]
    have "nl_next x \<noteq> NULL" using m(1) chain_okD(7) [OF c] by auto
    then have "size_loop_l h sz p = size_loop_l h (sz + 1) (nl_next x)" using less.prems by (subst size_loop_l.simps) simp
    then show ?thesis using IH [of "sz + 1"] interior_step(1) [OF c less.prems True] by (simp add: add.assoc)
  next
    case False
    have "size_loop_l h sz p = Some sz" using less.prems chain_okD(6) [OF c less.prems False] by (subst size_loop_l.simps) simp
    then show ?thesis using interior_step(2) [OF c less.prems False] by simp
  qed
qed

lemma interior_dom:
  assumes c: "chain_ok h head" and M: "map_ok h head M" and um: "\<And>p n. h p = Some n \<Longrightarrow> \<not> nl_marked n" and hd: "h head = Some x"
  shows "bij_betw (\<lambda>p. nl_key (the (h p))) (interior h (nl_next x)) (dom M)"
  unfolding bij_betw_def
proof
  have k: "nl_key x = KEY_MIN" using chain_okD(1) [OF c] hd by simp
  then have i: "interior h head = insert head (interior h (nl_next x))" "head \<notin> interior h (nl_next x)"
    using interior_step(1) [OF c hd] by (simp_all add: KEY_MIN_def KEY_MAX_def)
  have live: "p \<in> interior h (nl_next x) \<longleftrightarrow> p \<noteq> head \<and> live h head p \<and> nl_key (the (h p)) < KEY_MAX" for p
  proof -
    have "p \<in> interior h (nl_next x) \<longleftrightarrow> p \<noteq> head \<and> p \<in> interior h head" using i by auto
    then show ?thesis using um [of p] by (auto simp: interior_def live_def)
  qed
  show "inj_on (\<lambda>p. nl_key (the (h p))) (interior h (nl_next x))"
  proof (rule inj_onI)
    fix p q assume "p \<in> interior h (nl_next x)" "q \<in> interior h (nl_next x)" and e: "nl_key (the (h p)) = nl_key (the (h q))"
    then have l: "live h head p" "live h head q" using live by simp_all
    then obtain n m where n: "h p = Some n" and m: "h q = Some m" by (auto simp: live_def)
    show "p = q" by (rule live_unique [OF c l(1) n l(2) m]) (use e n m in simp)
  qed
  show "(\<lambda>p. nl_key (the (h p))) ` interior h (nl_next x) = dom M"
  proof (intro equalityI subsetI)
    fix a assume "a \<in> (\<lambda>p. nl_key (the (h p))) ` interior h (nl_next x)"
    then obtain p where p: "p \<in> interior h (nl_next x)" "a = nl_key (the (h p))" by blast
    then have l: "live h head p" "p \<noteq> head" "a < KEY_MAX" using live by simp_all
    then obtain n where n: "h p = Some n" by (auto simp: live_def)
    then have "KEY_MIN < a" using chain_okD(4) [OF c n l(2)] p(2) by simp
    then show "a \<in> dom M" using map_ok_live [OF M l(1) n _ _ l(3)] p(2) n by auto
  next
    fix a assume "a \<in> dom M"
    then obtain p n where p: "live h head p" "h p = Some n" "nl_key n = a" "KEY_MIN < a" "a < KEY_MAX"
      using M unfolding map_ok_def by blast
    then have "p \<noteq> head" using hd k by auto
    then show "a \<in> (\<lambda>p. nl_key (the (h p))) ` interior h (nl_next x)" using p live [of p] by force
  qed
qed

lemma set_size_counts:
  assumes c: "chain_ok h head" and M: "map_ok h head M" and um: "\<And>p n. h p = Some n \<Longrightarrow> \<not> nl_marked n"
  shows "set_size_l h head = Some (sint (of_nat (card (dom M)) :: 32 word))"
proof -
  obtain x where x: "h head = Some x" "nl_key x = KEY_MIN" using chain_okD(1) [OF c] by blast
  have "nl_key x < KEY_MAX" using x(2) by (simp add: KEY_MIN_def KEY_MAX_def)
  then obtain m where m: "h (nl_next x) = Some m" using chain_okD(5) [OF c x(1)] by blast
  have "card (interior h (nl_next x)) = card (dom M)" by (rule bij_betw_same_card [OF interior_dom [OF c M um x(1)]])
  then show ?thesis using size_loop_counts [OF c m] x(1) by (simp add: set_size_l_def)
qed

lemma set_delete_ok:
  assumes c: "chain_ok h head"
  shows "h p = Some x \<or> p = NULL \<Longrightarrow> (\<And>q. reach (next_l h) p q \<Longrightarrow> h' q = h q) \<Longrightarrow>
    set_delete_l h' p = Some (\<lambda>q. if reach (next_l h) p q then None else h' q)"
proof (induction "if p = NULL then 0 else Suc (nat (KEY_MAX - nl_key x))" arbitrary: h' p x rule: less_induct)
  case less
  show ?case
  proof (cases "p = NULL")
    case True
    have "h' NULL = None" using less.prems(2) [of NULL] True chain_okD(7) [OF c] by simp
    then have "(\<lambda>q. if reach (next_l h) p q then None else h' q) = h'" using reach_NULL [OF c] True by (auto simp: fun_eq_iff)
    then show ?thesis using True by (subst set_delete_l.simps) simp
  next
    case False
    then have x: "h p = Some x" using less.prems(1) by simp
    have nx: "reach (next_l h) p q \<longleftrightarrow> q = p \<or> reach (next_l h) (nl_next x) q" for q
      by (rule reach_iff [OF next_l_Some [of h p x, OF x]])
    have "\<exists>y. (h (nl_next x) = Some y \<or> nl_next x = NULL) \<and>
        (if nl_next x = NULL then 0 else Suc (nat (KEY_MAX - nl_key y))) < Suc (nat (KEY_MAX - nl_key x)) \<and> \<not> reach (next_l h) (nl_next x) p"
    proof (cases "nl_key x < KEY_MAX")
      case True
      obtain m where m: "h (nl_next x) = Some m" "nl_key x < nl_key m" using chain_okD(5) [OF c x True] by blast
      have "\<not> reach (next_l h) (nl_next x) p" using reach_keys [OF c _ m(1) x] m x by fastforce
      then show ?thesis using m True by (intro exI [of _ m]) auto
    next
      case k: False
      then show ?thesis using chain_okD(6) [OF c x k] reach_NULL [OF c] False by auto
    qed
    then obtain y where y: "h (nl_next x) = Some y \<or> nl_next x = NULL"
      "(if nl_next x = NULL then 0 else Suc (nat (KEY_MAX - nl_key y))) < Suc (nat (KEY_MAX - nl_key x))"
      "\<not> reach (next_l h) (nl_next x) p" by blast
    have "set_delete_l (h'(p := None)) (nl_next x) =
        Some (\<lambda>q. if reach (next_l h) (nl_next x) q then None else (h'(p := None)) q)"
    proof (rule less.hyps [OF _ y(1)])
      show "(h'(p := None)) q = h q" if "reach (next_l h) (nl_next x) q" for q
        using less.prems(2) [of q] that nx y(3) by auto
    qed (use y(2) False in simp)
    moreover have "h' p = Some x" using less.prems(2) [of p] x by simp
    ultimately show ?thesis using False nx by (subst set_delete_l.simps) (auto simp: fun_eq_iff)
  qed
qed

lemma set_delete_frees:
  assumes c: "chain_ok h head"
  shows "set_delete_l h head = Some (\<lambda>q. if reach (next_l h) head q then None else h q)"
proof -
  obtain x where "h head = Some x" using chain_okD(1) [OF c] by blast
  then show ?thesis using set_delete_ok [OF c, of head x h] by simp
qed

section \<open>Waiting for locks\<close>

text \<open>Thread i has taken or released locks of its own.\<close>

definition locks_by :: "nat \<Rightarrow> locks_l \<Rightarrow> locks_l \<Rightarrow> bool" where
  "locks_by i l l' \<longleftrightarrow> (\<forall>p. l' p = l p \<or> l p \<in> {None, Some i} \<and> l' p \<in> {None, Some i})"

lemma locks_by_other: "locks_by i l l' \<Longrightarrow> j \<noteq> i \<Longrightarrow> l' p = Some j \<longleftrightarrow> l p = Some j"
  unfolding locks_by_def by (metis insertE option.inject option.simps(3) singletonD)

text \<open>Threads that take locks in the order of a rank do not wait for each other in a circle.\<close>

lemma ordered_waits:
  fixes rank :: "'p \<Rightarrow> nat"
  assumes "\<And>i p. waits i p \<Longrightarrow> \<exists>j. has j p" "\<And>j p q. has j p \<Longrightarrow> waits j q \<Longrightarrow> rank q < rank p" "waits i p"
  shows "\<exists>j q. has j q \<and> (\<nexists>q'. waits j q')"
  using assms(3)
proof (induction "rank p" arbitrary: i p rule: less_induct)
  case less
  obtain j where j: "has j p" using assms(1) [OF less.prems] by blast
  show ?case
  proof (cases "\<exists>q. waits j q")
    case True
    then obtain q where "waits j q" by blast
    then show ?thesis using less.hyps assms(2) [OF j] by blast
  qed (use j in blast)
qed

end
