(* ===== verification/Lazy_List.thy ===== *)
theory Lazy_List
  imports Lock_Nodes
begin

text \<open>
  The lazy list, src/linkedlist-lazy/lazy.c: \<open>parse_find\<close> without locks, \<open>parse_insert\<close> with a lock on
  one node, \<open>parse_delete\<close> with locks on two; any number of threads, one shared access at a time
  (\<open>LL_GLOBAL_LOCK\<close> not defined). The list is linearizable, has no faults and no deadlock.
\<close>

section \<open>Threads\<close>

text \<open>The points: \<open>Z_find\<close> is the loop of \<open>parse_find\<close>; \<open>Z_start\<close>, \<open>Z_parse\<close> the search of the other two;
  \<open>Z_ro\<close> the test under \<open>LAZY_RO_FAIL\<close>; \<open>Z_val_pred\<close> to \<open>Z_val_next\<close> the three reads of
  \<open>parse_validate\<close>; \<open>Z_get\<close> to \<open>Z_unlink\<close> the removal.\<close>

datatype z_pc =
    Z_idle | Z_find | Z_start | Z_parse | Z_ro | Z_lock_pred | Z_lock_curr | Z_val_pred | Z_val_curr | Z_val_next
  | Z_insert | Z_get | Z_mark | Z_unlink | Z_unlock_curr | Z_unlock_pred | Z_done

text \<open>\<open>z_res\<close> is \<open>result\<close> (or \<open>res\<close>); \<open>z_end\<close> is \<open>done\<close> of \<open>parse_delete\<close>, and \<open>result \<ge> 0\<close> of \<open>parse_insert\<close>.\<close>

record z_thread =
  z_op :: set_op
  z_pc :: z_pc
  z_pred :: ptr
  z_curr :: ptr
  z_nxt :: ptr
  z_res :: int
  z_end :: bool

record z_sys =
  z_heap :: heap_l
  z_locks :: locks_l
  z_head :: ptr
  z_threads :: "nat \<Rightarrow> z_thread"

definition upd_z :: "nat \<Rightarrow> (z_thread \<Rightarrow> z_thread) \<Rightarrow> z_sys \<Rightarrow> z_sys" where
  "upd_z i f s = s\<lparr>z_threads := (z_threads s)(i := f (z_threads s i))\<rparr>"

abbreviation z_goto :: "z_pc \<Rightarrow> z_thread \<Rightarrow> z_thread" where
  "z_goto p t \<equiv> t\<lparr>z_pc := p\<rparr>"

abbreviation z_return :: "int \<Rightarrow> z_thread \<Rightarrow> z_thread" where
  "z_return r t \<equiv> t\<lparr>z_res := r, z_pc := Z_done\<rparr>"

section \<open>Steps\<close>

text \<open>After the locks have been taken: where the operation goes when the validation has failed, and when
  it has succeeded, \<open>k\<close> being \<open>curr->key\<close>.\<close>

definition z_unlock :: "z_thread \<Rightarrow> z_thread" where
  "z_unlock t = z_goto (if is_remove (z_op t) then Z_unlock_curr else Z_unlock_pred) t"

fun z_validated :: "skey_t \<Rightarrow> z_thread \<Rightarrow> set_op \<Rightarrow> z_thread" where
  "z_validated k t (Set_Add key v) = (if k \<noteq> key then z_goto Z_insert t else z_unlock (t\<lparr>z_res := 0, z_end := True\<rparr>))"
| "z_validated k t (Set_Remove key) = (if key = k then z_goto Z_get t else z_unlock (t\<lparr>z_res := 0, z_end := True\<rparr>))"
| "z_validated k t (Set_Contains key) = t"

text \<open>The read-only test.\<close>

fun z_read_only :: "node_l \<Rightarrow> z_thread \<Rightarrow> set_op \<Rightarrow> z_thread" where
  "z_read_only n t (Set_Add key v) =
     (if nl_key n = key then if nl_marked n then z_goto Z_start t else z_return 0 t else z_goto Z_lock_pred t)"
| "z_read_only n t (Set_Remove key) =
     (if nl_key n \<noteq> key then if nl_marked n then z_goto Z_start t else z_return 0 t else z_goto Z_lock_pred t)"
| "z_read_only n t (Set_Contains key) = t"

text \<open>One access of thread i; \<open>ro\<close> is \<open>LAZY_RO_FAIL\<close>, \<open>p\<close> what the allocator gives if asked.\<close>

definition z_step :: "bool \<Rightarrow> nat \<Rightarrow> ptr \<Rightarrow> z_sys \<Rightarrow> z_sys option" where
  "z_step ro i p s =
     (let t = z_threads s i; h = z_heap s; key = op_key (z_op t) in
      case z_pc t of
        Z_idle \<Rightarrow> None
      | Z_find \<Rightarrow> do {
          n \<leftarrow> h (z_curr t);
          Some (upd_z i (if nl_key n < key then (\<lambda>t. t\<lparr>z_curr := nl_next n\<rparr>)
                         else z_return (if nl_key n = key \<and> \<not> nl_marked n then nl_val n else 0)) s) }
      | Z_start \<Rightarrow> do {
          n \<leftarrow> h (z_head s);
          Some (upd_z i (\<lambda>t. t\<lparr>z_pred := z_head s, z_curr := nl_next n, z_pc := Z_parse\<rparr>) s) }
      | Z_parse \<Rightarrow> do {
          n \<leftarrow> h (z_curr t);
          Some (upd_z i (if nl_key n < key then (\<lambda>t. t\<lparr>z_pred := z_curr t, z_curr := nl_next n\<rparr>)
                         else z_goto (if ro then Z_ro else Z_lock_pred)) s) }
      | Z_ro \<Rightarrow> do {
          n \<leftarrow> h (z_curr t);
          Some (upd_z i (\<lambda>t. z_read_only n t (z_op t)) s) }
      | Z_lock_pred \<Rightarrow> do {
          _ \<leftarrow> h (z_pred t);
          let (ok, l) = lock_n i (z_pred t) (z_locks s);
          Some (if ok then upd_z i (z_goto (if is_remove (z_op t) then Z_lock_curr else Z_val_pred)) (s\<lparr>z_locks := l\<rparr>) else s) }
      | Z_lock_curr \<Rightarrow> do {
          _ \<leftarrow> h (z_curr t);
          let (ok, l) = lock_n i (z_curr t) (z_locks s);
          Some (if ok then upd_z i (z_goto Z_val_pred) (s\<lparr>z_locks := l\<rparr>) else s) }
      | Z_val_pred \<Rightarrow> do {
          n \<leftarrow> h (z_pred t);
          Some (upd_z i (if nl_marked n then z_unlock else z_goto Z_val_curr) s) }
      | Z_val_curr \<Rightarrow> do {
          n \<leftarrow> h (z_curr t);
          Some (upd_z i (if nl_marked n then z_unlock else z_goto Z_val_next) s) }
      | Z_val_next \<Rightarrow> do {
          n \<leftarrow> h (z_pred t);
          c \<leftarrow> h (z_curr t);
          Some (upd_z i (if nl_next n \<noteq> z_curr t then z_unlock else (\<lambda>t. z_validated (nl_key c) t (z_op t))) s) }
      | Z_insert \<Rightarrow>
          (case z_op t of
             Set_Add key val \<Rightarrow>
               if p = NULL \<or> h p \<noteq> None then None
               else do {
                 n \<leftarrow> h (z_pred t);
                 Some (upd_z i (\<lambda>t. t\<lparr>z_res := 1, z_end := True, z_pc := Z_unlock_pred\<rparr>)
                   (s\<lparr>z_heap := h(p \<mapsto> new_node_l key val (z_curr t), z_pred t \<mapsto> n\<lparr>nl_next := p\<rparr>),
                      z_locks := (z_locks s)(p := None)\<rparr>)) }
           | _ \<Rightarrow> None)
      | Z_get \<Rightarrow> do {
          n \<leftarrow> h (z_curr t);
          Some (upd_z i (\<lambda>t. t\<lparr>z_res := nl_val n, z_nxt := nl_next n, z_pc := Z_mark\<rparr>) s) }
      | Z_mark \<Rightarrow> do {
          n \<leftarrow> h (z_curr t);
          Some (upd_z i (z_goto Z_unlink) (s\<lparr>z_heap := h(z_curr t \<mapsto> n\<lparr>nl_marked := True\<rparr>)\<rparr>)) }
      | Z_unlink \<Rightarrow> do {
          n \<leftarrow> h (z_pred t);
          Some (upd_z i (\<lambda>t. t\<lparr>z_end := True, z_pc := Z_unlock_curr\<rparr>) (s\<lparr>z_heap := h(z_pred t \<mapsto> n\<lparr>nl_next := z_nxt t\<rparr>)\<rparr>)) }
      | Z_unlock_curr \<Rightarrow> do {
          _ \<leftarrow> h (z_curr t);
          Some (upd_z i (z_goto Z_unlock_pred) (s\<lparr>z_locks := unlock_n (z_curr t) (z_locks s)\<rparr>)) }
      | Z_unlock_pred \<Rightarrow> do {
          _ \<leftarrow> h (z_pred t);
          Some (upd_z i (z_goto (if z_end t then Z_done else Z_start)) (s\<lparr>z_locks := unlock_n (z_pred t) (z_locks s)\<rparr>)) }
      | Z_done \<Rightarrow> None)"

definition z_call :: "nat \<Rightarrow> set_op \<Rightarrow> z_sys \<Rightarrow> z_sys option" where
  "z_call i x s =
     (if z_pc (z_threads s i) = Z_idle \<and> KEY_MIN < op_key x \<and> op_key x < KEY_MAX
      then Some (upd_z i (\<lambda>t. t\<lparr>z_op := x, z_curr := z_head s, z_pred := z_head s, z_res := 0, z_end := False,
                    z_pc := (case x of Set_Contains _ \<Rightarrow> Z_find | _ \<Rightarrow> Z_start)\<rparr>) s)
      else None)"

definition z_ret :: "nat \<Rightarrow> z_sys \<Rightarrow> (int \<times> z_sys) option" where
  "z_ret i s =
     (if z_pc (z_threads s i) = Z_done then Some (z_res (z_threads s i), upd_z i (z_goto Z_idle) s) else None)"

definition z_idle :: z_thread where
  "z_idle = \<lparr>z_op = Set_Contains 0, z_pc = Z_idle, z_pred = NULL, z_curr = NULL, z_nxt = NULL, z_res = 0, z_end = False\<rparr>"

definition z_init :: "ptr \<Rightarrow> ptr \<Rightarrow> z_sys" where
  "z_init mn mx = \<lparr>z_heap = set_new_l mn mx, z_locks = (\<lambda>_. None), z_head = mn, z_threads = (\<lambda>_. z_idle)\<rparr>"

section \<open>Invariant\<close>

definition z_shared :: "z_sys \<Rightarrow> (skey_t \<rightharpoonup> sval_t) \<Rightarrow> bool" where
  "z_shared s M \<longleftrightarrow>
     chain_ok (z_heap s) (z_head s) \<and> map_ok (z_heap s) (z_head s) M \<and>
     (\<forall>p n. z_heap s p = Some n \<longrightarrow> \<not> nl_marked n \<longrightarrow> reach (next_l (z_heap s)) (z_head s) p) \<and>
     (\<forall>p. z_heap s p = None \<longrightarrow> z_locks s p = None)"

text \<open>The locks that a thread holds.\<close>

definition z_holds :: "z_thread \<Rightarrow> ptr set" where
  "z_holds t = (case z_pc t of
       Z_lock_curr \<Rightarrow> {z_pred t} | Z_insert \<Rightarrow> {z_pred t} | Z_unlock_pred \<Rightarrow> {z_pred t}
     | Z_val_pred \<Rightarrow> if is_remove (z_op t) then {z_pred t, z_curr t} else {z_pred t}
     | Z_val_curr \<Rightarrow> if is_remove (z_op t) then {z_pred t, z_curr t} else {z_pred t}
     | Z_val_next \<Rightarrow> if is_remove (z_op t) then {z_pred t, z_curr t} else {z_pred t}
     | Z_get \<Rightarrow> {z_pred t, z_curr t} | Z_mark \<Rightarrow> {z_pred t, z_curr t} | Z_unlink \<Rightarrow> {z_pred t, z_curr t}
     | Z_unlock_curr \<Rightarrow> {z_pred t, z_curr t} | _ \<Rightarrow> {})"

text \<open>A search that has reached c: the key has been absent since the call, or its node lies ahead.\<close>

definition ahead :: "heap_l \<Rightarrow> skey_t \<Rightarrow> a_status \<Rightarrow> ptr \<Rightarrow> bool" where
  "ahead h k st c \<longleftrightarrow> saw (\<lambda>N. N k = None) st \<or>
     (\<exists>z n. reach (next_l h) c z \<and> h z = Some n \<and> \<not> nl_marked n \<and> nl_key n = k)"

text \<open>The fields of the two nodes, for what a thread knows of them.\<close>

definition marked_l :: "heap_l \<Rightarrow> ptr \<Rightarrow> bool" where
  "marked_l h p \<longleftrightarrow> (\<exists>n. h p = Some n \<and> nl_marked n)"

definition z_knows :: "heap_l \<Rightarrow> (skey_t \<rightharpoonup> sval_t) \<Rightarrow> z_thread \<Rightarrow> a_status \<Rightarrow> bool" where
  "z_knows h M t st \<longleftrightarrow>
     (let x = z_op t; k = op_key x; pr = z_pred t; c = z_curr t in
      case z_pc t of
        Z_idle \<Rightarrow> st = A_idle
      | Z_find \<Rightarrow> under_way x M st \<and> ahead h k st c
      | Z_start \<Rightarrow> under_way x M st
      | Z_parse \<Rightarrow> under_way x M st \<and> ahead h k st c
      | Z_ro \<Rightarrow> under_way x M st \<and> ahead h k st c
      | Z_lock_pred \<Rightarrow> under_way x M st
      | Z_lock_curr \<Rightarrow> under_way x M st
      | Z_val_pred \<Rightarrow> under_way x M st
      | Z_val_curr \<Rightarrow> under_way x M st \<and> \<not> marked_l h pr
      | Z_val_next \<Rightarrow> under_way x M st \<and> \<not> marked_l h pr \<and>
          (if is_remove x then \<not> marked_l h c else key_l h c = Some k \<longrightarrow> saw (\<lambda>N. N k \<noteq> None) st)
      | Z_insert \<Rightarrow> under_way x M st \<and> \<not> marked_l h pr \<and> next_l h pr = Some c \<and> key_l h c \<noteq> Some k
      | Z_get \<Rightarrow> under_way x M st \<and> \<not> marked_l h pr \<and> next_l h pr = Some c \<and> key_l h c = Some k \<and> \<not> marked_l h c
      | Z_mark \<Rightarrow> under_way x M st \<and> \<not> marked_l h pr \<and> next_l h pr = Some c \<and> key_l h c = Some k \<and> \<not> marked_l h c \<and>
          next_l h c = Some (z_nxt t) \<and> map_option nl_val (h c) = Some (z_res t)
      | Z_unlink \<Rightarrow> answered x (z_res t) M st \<and> \<not> marked_l h pr \<and> next_l h pr = Some c \<and> key_l h c = Some k \<and> marked_l h c \<and>
          next_l h c = Some (z_nxt t)
      | Z_unlock_curr \<Rightarrow> if z_end t then answered x (z_res t) M st else under_way x M st
      | Z_unlock_pred \<Rightarrow> if z_end t then answered x (z_res t) M st else under_way x M st
      | Z_done \<Rightarrow> answered x (z_res t) M st)"

text \<open>The references and the kind of the operation.\<close>

definition z_refs :: "heap_l \<Rightarrow> z_thread \<Rightarrow> bool" where
  "z_refs h t \<longleftrightarrow>
     (z_pc t \<noteq> Z_idle \<longrightarrow> KEY_MIN < op_key (z_op t) \<and> op_key (z_op t) < KEY_MAX) \<and>
     (z_pc t \<notin> {Z_idle, Z_start, Z_done} \<longrightarrow> h (z_curr t) \<noteq> None) \<and>
     (z_pc t \<notin> {Z_idle, Z_find, Z_start, Z_done} \<longrightarrow>
        (\<exists>n. h (z_pred t) = Some n \<and> nl_key n < op_key (z_op t)) \<and> (\<forall>k. z_op t \<noteq> Set_Contains k)) \<and>
     (z_pc t \<notin> {Z_idle, Z_find, Z_start, Z_parse, Z_done} \<longrightarrow> (\<exists>n. h (z_curr t) = Some n \<and> op_key (z_op t) \<le> nl_key n)) \<and>
     (z_pc t = Z_find \<longleftrightarrow> z_pc t \<notin> {Z_idle, Z_done} \<and> (\<exists>k. z_op t = Set_Contains k)) \<and>
     (z_pc t = Z_insert \<longrightarrow> \<not> is_remove (z_op t)) \<and>
     (z_pc t \<in> {Z_lock_curr, Z_get, Z_mark, Z_unlink, Z_unlock_curr} \<longrightarrow> is_remove (z_op t)) \<and>
     (z_end t \<longrightarrow> z_pc t \<in> {Z_idle, Z_unlock_curr, Z_unlock_pred, Z_done})"

definition z_own :: "nat \<Rightarrow> z_sys \<Rightarrow> (skey_t \<rightharpoonup> sval_t) \<Rightarrow> a_status \<Rightarrow> bool" where
  "z_own i s M st \<longleftrightarrow>
     z_refs (z_heap s) (z_threads s i) \<and> z_knows (z_heap s) M (z_threads s i) st \<and>
     (\<forall>p. z_locks s p = Some i \<longleftrightarrow> p \<in> z_holds (z_threads s i))"

text \<open>What a step of another thread leaves alone for thread j.\<close>

definition z_rely :: "nat \<Rightarrow> z_sys \<Rightarrow> z_sys \<Rightarrow> (skey_t \<rightharpoonup> sval_t) \<Rightarrow> bool" where
  "z_rely j s s' M' \<longleftrightarrow>
     z_threads s' j = z_threads s j \<and> (\<forall>p. z_locks s' p = Some j \<longleftrightarrow> z_locks s p = Some j) \<and>
     (\<forall>p n. z_heap s p = Some n \<longrightarrow>
        (\<exists>n'. z_heap s' p = Some n' \<and> nl_key n' = nl_key n \<and> nl_val n' = nl_val n \<and>
           (nl_marked n \<or> z_locks s p = Some j \<longrightarrow> n' = n) \<and>
           (nl_marked n' \<longrightarrow> \<not> nl_marked n \<longrightarrow> M' (nl_key n) = None))) \<and>
     (\<forall>p z n'. reach (next_l (z_heap s)) p z \<longrightarrow> z_heap s' z = Some n' \<longrightarrow> \<not> nl_marked n' \<longrightarrow> reach (next_l (z_heap s')) p z)"


section \<open>Steps of other threads\<close>

lemma z_relyD:
  assumes "z_rely j s s' M'"
  shows "z_threads s' j = z_threads s j" "z_locks s' p = Some j \<longleftrightarrow> z_locks s p = Some j"
    "z_heap s p = Some n \<Longrightarrow> \<exists>n'. z_heap s' p = Some n' \<and> nl_key n' = nl_key n \<and> nl_val n' = nl_val n \<and>
       (nl_marked n \<or> z_locks s p = Some j \<longrightarrow> n' = n) \<and> (nl_marked n' \<longrightarrow> \<not> nl_marked n \<longrightarrow> M' (nl_key n) = None)"
    "reach (next_l (z_heap s)) p z \<Longrightarrow> z_heap s' z = Some n' \<Longrightarrow> \<not> nl_marked n' \<Longrightarrow> reach (next_l (z_heap s')) p z"
  using assms by (auto simp: z_rely_def)

lemma ahead_see:
  assumes a: "ahead (z_heap s) k st c" and r: "z_rely j s s' M'" and st: "\<exists>S. st = Pending x S"
  shows "ahead (z_heap s') k (see M' st) c"
proof (cases "saw (\<lambda>N. N k = None) st")
  case True then show ?thesis using saw_see by (auto simp: ahead_def)
next
  case False
  then obtain z n where z: "reach (next_l (z_heap s)) c z" "z_heap s z = Some n" "\<not> nl_marked n" "nl_key n = k"
    using a by (auto simp: ahead_def)
  from z_relyD(3) [OF r z(2)] obtain n' where n': "z_heap s' z = Some n'" "nl_key n' = nl_key n"
    "nl_marked n' \<longrightarrow> \<not> nl_marked n \<longrightarrow> M' (nl_key n) = None" by blast
  show ?thesis
  proof (cases "nl_marked n'")
    case True
    then have "M' k = None" using n' z(3,4) by simp
    then show ?thesis using saw_new [OF st] by (auto simp: ahead_def)
  next
    case False
    then show ?thesis using z_relyD(4) [OF r z(1) n'(1)] n' z(4) by (auto simp: ahead_def)
  qed
qed

lemma z_refs_rely:
  assumes "z_refs (z_heap s) t" "z_rely j s s' M'"
  shows "z_refs (z_heap s') t"
proof -
  have c: "\<exists>n'. z_heap s' p = Some n' \<and> nl_key n' = nl_key n" if "z_heap s p = Some n" for p n
    using z_relyD(3) [OF assms(2) that] by blast
  have "z_heap s p \<noteq> None \<Longrightarrow> z_heap s' p \<noteq> None" for p using c by fastforce
  moreover have "\<exists>n. z_heap s p = Some n \<and> nl_key n < k \<Longrightarrow> \<exists>n. z_heap s' p = Some n \<and> nl_key n < k" for p k using c by fastforce
  moreover have "\<exists>n. z_heap s p = Some n \<and> k \<le> nl_key n \<Longrightarrow> \<exists>n. z_heap s' p = Some n \<and> k \<le> nl_key n" for p k using c by fastforce
  ultimately show ?thesis using assms(1) unfolding z_refs_def by blast
qed

text \<open>A node whose lock the thread holds, and one that is marked.\<close>

lemma z_rely_node:
  assumes "z_rely j s s' M'" "z_heap s p = Some n" "z_locks s p = Some j \<or> nl_marked n"
  shows "z_heap s' p = Some n"
  using z_relyD(3) [OF assms(1,2)] assms(3) by auto

lemma z_knows_rely:
  assumes k: "z_knows (z_heap s) M t st" and r: "z_rely j s s' M'" and refs: "z_refs (z_heap s) t"
    and l: "\<forall>p \<in> z_holds t. z_locks s p = Some j"
  shows "z_knows (z_heap s') M' t (see M' st)"
proof -
  let ?h = "z_heap s" and ?h' = "z_heap s'" and ?p = "z_pred t" and ?c = "z_curr t" and ?k = "op_key (z_op t)"
  have way: "under_way (z_op t) M st \<Longrightarrow> under_way (z_op t) M' (see M' st)" using under_way_Pending by simp
  have ans: "answered (z_op t) (z_res t) M st \<Longrightarrow> answered (z_op t) (z_res t) M' (see M' st)" by (rule answered_see)
  have look: "under_way (z_op t) M st \<Longrightarrow> ahead ?h ?k st ?c \<Longrightarrow> ahead ?h' ?k (see M' st) ?c"
    using ahead_see [OF _ r under_way_Pending] by blast
  have held: "?h' p = ?h p" if "p \<in> z_holds t" "?h p \<noteq> None" for p
    using z_rely_node [OF r _ disjI1] l that by force
  have mp: "z_pc t \<notin> {Z_idle, Z_find, Z_start, Z_done} \<Longrightarrow> ?h ?p \<noteq> None"
    and mc: "z_pc t \<notin> {Z_idle, Z_start, Z_done} \<Longrightarrow> ?h ?c \<noteq> None"
    using refs unfolding z_refs_def by (blast, blast)
  have same: "marked_l ?h' p = marked_l ?h p" "next_l ?h' p = next_l ?h p" if "?h' p = ?h p" for p
    using that by (simp_all add: marked_l_def next_l_def)
  have key: "key_l ?h' ?c = key_l ?h ?c" if "?h ?c \<noteq> None"
    using z_relyD(3) [OF r, of ?c] that by (force simp: key_l_def)
  show ?thesis
  proof (cases "z_pc t")
    case Z_val_next
    have p: "?h' ?p = ?h ?p" by (rule held) (use mp Z_val_next in \<open>simp_all add: z_holds_def\<close>)
    have c: "is_remove (z_op t) \<Longrightarrow> ?h' ?c = ?h ?c" by (rule held) (use mc Z_val_next in \<open>simp_all add: z_holds_def\<close>)
    show ?thesis
      using k Z_val_next same [OF p] same [OF c] key mc way saw_see [of "\<lambda>N. N ?k \<noteq> None" st M']
      by (cases "is_remove (z_op t)") (simp_all add: z_knows_def Let_def)
  next
    case Z_insert
    have p: "?h' ?p = ?h ?p" by (rule held) (use mp Z_insert in \<open>simp_all add: z_holds_def\<close>)
    show ?thesis using k Z_insert same [OF p] key mc way by (simp add: z_knows_def Let_def)
  next
    case Z_val_curr
    have p: "?h' ?p = ?h ?p" by (rule held) (use mp Z_val_curr in \<open>simp_all add: z_holds_def\<close>)
    show ?thesis using k Z_val_curr same [OF p] way by (simp add: z_knows_def Let_def)
  next
    case Z_get
    have p: "?h' ?p = ?h ?p" "?h' ?c = ?h ?c" by (rule held; use mp mc Z_get in \<open>simp add: z_holds_def\<close>)+
    show ?thesis using k Z_get same [OF p(1)] same [OF p(2)] key mc way by (simp add: z_knows_def Let_def)
  next
    case Z_mark
    have p: "?h' ?p = ?h ?p" "?h' ?c = ?h ?c" by (rule held; use mp mc Z_mark in \<open>simp add: z_holds_def\<close>)+
    show ?thesis using k Z_mark same [OF p(1)] same [OF p(2)] p key mc way by (simp add: z_knows_def Let_def)
  next
    case Z_unlink
    have p: "?h' ?p = ?h ?p" "?h' ?c = ?h ?c" by (rule held; use mp mc Z_unlink in \<open>simp add: z_holds_def\<close>)+
    show ?thesis using k Z_unlink same [OF p(1)] same [OF p(2)] p key mc ans by (simp add: z_knows_def Let_def)
  qed (use k way look ans in \<open>simp_all add: z_knows_def Let_def split: if_splits\<close>)
qed

lemma z_own_rely:
  assumes "z_own j s M st" "z_rely j s s' M'"
  shows "z_own j s' M' (see M' st)"
proof -
  have r: "z_refs (z_heap s) (z_threads s j)" and k: "z_knows (z_heap s) M (z_threads s j) st"
    and l: "\<forall>p. z_locks s p = Some j \<longleftrightarrow> p \<in> z_holds (z_threads s j)"
    using assms(1) by (simp_all add: z_own_def)
  have "z_knows (z_heap s') M' (z_threads s j) (see M' st)" by (rule z_knows_rely [OF k assms(2) r]) (use l in simp)
  moreover have "z_refs (z_heap s') (z_threads s j)" by (rule z_refs_rely [OF r assms(2)])
  ultimately show ?thesis using z_relyD(1,2) [OF assms(2)] l by (simp add: z_own_def)
qed

lemma z_own_see:
  assumes "z_own j s M st"
  shows "see M st = st"
proof -
  have k: "z_knows (z_heap s) M (z_threads s j) st" using assms by (simp add: z_own_def)
  show ?thesis
    by (cases "z_pc (z_threads s j)")
      (use k see_under_way see_answered in \<open>auto simp: z_knows_def Let_def split: if_splits\<close>)
qed


section \<open>Steps of a thread\<close>

definition z_good :: "nat \<Rightarrow> z_sys \<Rightarrow> (skey_t \<rightharpoonup> sval_t) \<Rightarrow> a_status \<Rightarrow> z_sys \<Rightarrow> bool" where
  "z_good i s M st s' \<longleftrightarrow>
     (\<exists>M' st'. z_shared s' M' \<and> z_own i s' M' st' \<and> (\<forall>j. j \<noteq> i \<longrightarrow> z_rely j s s' M') \<and>
        (M' = M \<and> st' = st \<or> (\<exists>x S r. st = Pending x S \<and> map_step x M = (r, M') \<and> st' = Effected x r)))"

lemma upd_z_sel [simp]:
  "z_heap (upd_z i f s) = z_heap s" "z_locks (upd_z i f s) = z_locks s" "z_head (upd_z i f s) = z_head s"
  "z_threads (upd_z i f s) j = (if j = i then f (z_threads s i) else z_threads s j)"
  by (simp_all add: upd_z_def)

lemma z_ownD:
  assumes "z_own i s M st"
  shows "z_refs (z_heap s) (z_threads s i)" "z_knows (z_heap s) M (z_threads s i) st"
    "z_locks s p = Some i \<longleftrightarrow> p \<in> z_holds (z_threads s i)"
  using assms by (simp_all add: z_own_def)

lemma z_refsD:
  assumes "z_refs h t"
  shows "z_pc t \<noteq> Z_idle \<Longrightarrow> KEY_MIN < op_key (z_op t)" "z_pc t \<noteq> Z_idle \<Longrightarrow> op_key (z_op t) < KEY_MAX"
    "z_pc t \<notin> {Z_idle, Z_start, Z_done} \<Longrightarrow> \<exists>n. h (z_curr t) = Some n"
    "z_pc t \<notin> {Z_idle, Z_find, Z_start, Z_done} \<Longrightarrow> \<exists>n. h (z_pred t) = Some n \<and> nl_key n < op_key (z_op t)"
    "z_pc t \<notin> {Z_idle, Z_find, Z_done} \<Longrightarrow> z_op t \<noteq> Set_Contains k"
    "z_pc t \<notin> {Z_idle, Z_find, Z_start, Z_parse, Z_done} \<Longrightarrow> \<exists>n. h (z_curr t) = Some n \<and> op_key (z_op t) \<le> nl_key n"
    "z_pc t = Z_insert \<Longrightarrow> \<not> is_remove (z_op t)"
    "z_pc t \<in> {Z_lock_curr, Z_get, Z_mark, Z_unlink, Z_unlock_curr} \<Longrightarrow> is_remove (z_op t)"
    "z_pc t \<notin> {Z_idle, Z_unlock_curr, Z_unlock_pred, Z_done} \<Longrightarrow> \<not> z_end t"
  using assms unfolding z_refs_def by blast+

lemma z_sharedD:
  assumes "z_shared s M"
  shows "chain_ok (z_heap s) (z_head s)" "map_ok (z_heap s) (z_head s) M"
    "z_heap s p = Some n \<Longrightarrow> \<not> nl_marked n \<Longrightarrow> reach (next_l (z_heap s)) (z_head s) p"
    "z_heap s p = None \<Longrightarrow> z_locks s p = None"
  using assms by (simp_all add: z_shared_def)

text \<open>Steps that leave the nodes alone; \<open>l\<close> is what they make of the locks.\<close>

lemma z_good_locks:
  assumes e: "s' = upd_z i f (s\<lparr>z_locks := l'\<rparr>)" and sh: "z_shared s M" and l: "locks_by i (z_locks s) l'" "\<forall>p. l' p = Some i \<longleftrightarrow> p \<in> z_holds (f (z_threads s i))"
    and m: "\<forall>p. z_heap s p = None \<longrightarrow> l' p = None"
    and t: "z_refs (z_heap s) (f (z_threads s i))" "z_knows (z_heap s) M (f (z_threads s i)) st"
  shows "z_good i s M st s'"
proof -
  let ?s = "upd_z i f (s\<lparr>z_locks := l'\<rparr>)"
  have "z_shared ?s M" using sh m by (simp add: z_shared_def)
  moreover have "z_own i ?s M st" using t l(2) by (simp add: z_own_def)
  moreover have "z_rely j s ?s M" if "j \<noteq> i" for j
  proof -
    have "l' p = Some j \<longleftrightarrow> z_locks s p = Some j" for p by (rule locks_by_other [OF l(1) that])
    then show ?thesis using that by (auto simp: z_rely_def)
  qed
  ultimately show ?thesis unfolding z_good_def e by blast
qed

lemma z_good_local:
  assumes e: "s' = upd_z i f s" and sh: "z_shared s M" and own: "z_own i s M st" and h: "z_holds (f (z_threads s i)) = z_holds (z_threads s i)"
    and t: "z_refs (z_heap s) (f (z_threads s i))" "z_knows (z_heap s) M (f (z_threads s i)) st"
  shows "z_good i s M st s'"
  unfolding e using z_good_locks [OF _ sh, of "upd_z i f s" i f "z_locks s" st] z_ownD(3) [OF own] z_sharedD(4) [OF sh] h t by (simp add: locks_by_def)

text \<open>A search starts, advances and ends.\<close>

lemma ahead_start:
  assumes sh: "z_shared s M" and w: "under_way x M st" and k: "KEY_MIN < k" "k < KEY_MAX" and n: "z_heap s (z_head s) = Some n"
  shows "ahead (z_heap s) k st (nl_next n)" "ahead (z_heap s) k st (z_head s)"
proof -
  have "ahead (z_heap s) k st (nl_next n) \<and> ahead (z_heap s) k st (z_head s)"
  proof (cases "M k")
    case None then show ?thesis using saw_now [OF w] by (auto simp: ahead_def)
  next
    case (Some v)
    then obtain z m where z: "live (z_heap s) (z_head s) z" "z_heap s z = Some m" "nl_key m = k"
      using z_sharedD(2) [OF sh] unfolding map_ok_def by blast
    have "z \<noteq> z_head s" using chain_okD(1) [OF z_sharedD(1) [OF sh]] z(2,3) k(1) by auto
    moreover have r: "reach (next_l (z_heap s)) (z_head s) z" "\<not> nl_marked m" using z(1,2) by (auto simp: live_def)
    ultimately have "reach (next_l (z_heap s)) (nl_next n) z"
      using next_l_Some [of "z_heap s" "z_head s" n, OF n] by (metis option.inject reach_cases)
    then show ?thesis using z r unfolding ahead_def by blast
  qed
  then show "ahead (z_heap s) k st (nl_next n)" "ahead (z_heap s) k st (z_head s)" by simp_all
qed

lemma ahead_next:
  assumes "ahead h k st c" "h c = Some n" "nl_key n \<noteq> k"
  shows "ahead h k st (nl_next n)"
proof (cases "saw (\<lambda>N. N k = None) st")
  case False
  then obtain z m where z: "reach (next_l h) c z" "h z = Some m" "\<not> nl_marked m" "nl_key m = k"
    using assms(1) by (auto simp: ahead_def)
  then have "c \<noteq> z" using assms(2,3) by auto
  then have "reach (next_l h) (nl_next n) z"
    using z(1) next_l_Some [of h c n, OF assms(2)] by (metis option.inject reach_cases)
  then show ?thesis using z by (auto simp: ahead_def)
qed (simp add: ahead_def)

lemma ahead_end:
  assumes c: "chain_ok h head" and a: "ahead h k st c" and n: "h c = Some n" "k \<le> nl_key n" "nl_key n \<noteq> k \<or> nl_marked n"
  shows "saw (\<lambda>N. N k = None) st"
proof (rule ccontr)
  assume "\<not> ?thesis"
  then obtain z m where z: "reach (next_l h) c z" "h z = Some m" "\<not> nl_marked m" "nl_key m = k"
    using a by (auto simp: ahead_def)
  from reach_keys [OF c z(1) n(1) z(2)] show False using n z by auto
qed

lemma unmarked_live:
  assumes "z_shared s M" "z_heap s p = Some n" "\<not> nl_marked n"
  shows "live (z_heap s) (z_head s) p"
  using assms z_sharedD(3) [OF assms(1,2)] by (simp add: live_def)

lemma next_mapped:
  assumes c: "chain_ok h head" and n: "h p = Some n" "nl_key n < k" "k < KEY_MAX"
  shows "\<exists>m. h (nl_next n) = Some m"
  using chain_okD(5) [OF c n(1)] n by fastforce


lemma z_find_step:
  assumes sh: "z_shared s M" and own: "z_own i s M st" and pc: "z_pc (z_threads s i) = Z_find" and st: "z_step ro i p s = Some s'"
  shows "z_good i s M st s'"
proof -
  define t where "t = z_threads s i"
  let ?k = "op_key (z_op t)"
  note o = z_ownD(1,2) [OF own, folded t_def]
  have pc': "z_pc t = Z_find" using pc by (simp add: t_def)
  obtain k where op: "z_op t = Set_Contains k" using o(1) pc' unfolding z_refs_def by blast
  have range: "KEY_MIN < k" "k < KEY_MAX" using o(1) pc' op by (simp_all add: z_refs_def)
  have w: "under_way (z_op t) M st" and a: "ahead (z_heap s) k st (z_curr t)"
    using o(2) pc' op by (simp_all add: z_knows_def Let_def)
  obtain n where n: "z_heap s (z_curr t) = Some n"
    "s' = upd_z i (if nl_key n < k then (\<lambda>t. t\<lparr>z_curr := nl_next n\<rparr>)
       else z_return (if nl_key n = k \<and> \<not> nl_marked n then nl_val n else 0)) s"
    using st pc' op by (auto simp: z_step_def Let_def t_def [symmetric] bind_eq_Some_conv)
  show ?thesis
  proof (cases "nl_key n < k")
    case True
    obtain m where m: "z_heap s (nl_next n) = Some m" using next_mapped [OF z_sharedD(1) [OF sh] n(1) True range(2)] by blast
    have "ahead (z_heap s) k st (nl_next n)" using ahead_next [OF a n(1)] True by simp
    moreover have e: "s' = upd_z i (\<lambda>t. t\<lparr>z_curr := nl_next n\<rparr>) s" using n(2) True by simp
    ultimately show ?thesis
      by (intro z_good_local [OF e sh own])
        (use o pc' op m w in \<open>simp_all add: t_def [symmetric] z_holds_def z_refs_def z_knows_def Let_def\<close>)
  next
    case False
    let ?r = "if nl_key n = k \<and> \<not> nl_marked n then nl_val n else 0"
    have "answered (z_op t) ?r M st"
    proof (cases "nl_key n = k \<and> \<not> nl_marked n")
      case True
      then have "M k = Some (nl_val n)" using map_ok_live [OF z_sharedD(2) [OF sh] unmarked_live [OF sh n(1)] n(1)] range by simp
      then have "map_step (z_op t) M = (?r, M)" using op True by (simp add: answer_def)
      then show ?thesis using saw_answered [OF w saw_now [OF w, of "\<lambda>N. N = M"]] by blast
    next
      case nf: False
      then have "saw (\<lambda>N. N k = None) st" using ahead_end [OF z_sharedD(1) [OF sh] a n(1)] False by auto
      then show ?thesis by (rule saw_answered [OF w]) (use nf op in \<open>auto simp: answer_def\<close>)
    qed
    moreover have e: "s' = upd_z i (z_return ?r) s" using n(2) False by simp
    ultimately show ?thesis
      by (intro z_good_local [OF e sh own])
        (use o pc' op in \<open>simp_all add: t_def [symmetric] z_holds_def z_refs_def z_knows_def Let_def\<close>)
  qed
qed


lemma z_start_step:
  assumes sh: "z_shared s M" and own: "z_own i s M st" and pc: "z_pc (z_threads s i) = Z_start" and st: "z_step ro i p s = Some s'"
  shows "z_good i s M st s'"
proof -
  define t where "t = z_threads s i"
  let ?k = "op_key (z_op t)"
  note o = z_ownD(1,2) [OF own, folded t_def]
  have pc': "z_pc t = Z_start" using pc by (simp add: t_def)
  note d = z_refsD [OF o(1), unfolded pc', simplified]
  have range: "KEY_MIN < ?k" "?k < KEY_MAX" and op: "\<And>k. z_op t \<noteq> Set_Contains k" and z: "\<not> z_end t"
    using d by blast+
  have w: "under_way (z_op t) M st" using o(2) pc' by (simp add: z_knows_def)
  obtain n where n: "z_heap s (z_head s) = Some n"
    and e: "s' = upd_z i (\<lambda>t. t\<lparr>z_pred := z_head s, z_curr := nl_next n, z_pc := Z_parse\<rparr>) s"
    using st pc' by (auto simp: z_step_def Let_def t_def [symmetric] bind_eq_Some_conv)
  have kn: "nl_key n = KEY_MIN" using chain_okD(1) [OF z_sharedD(1) [OF sh]] n by simp
  then have "nl_key n < ?k" using range by simp
  then obtain m where m: "z_heap s (nl_next n) = Some m"
    using next_mapped [OF z_sharedD(1) [OF sh] n _ range(2)] by blast
  show ?thesis
    by (rule z_good_local [OF e sh own])
      (use o pc' op m w n kn range z ahead_start(1) [OF sh w range n] in
        \<open>simp_all add: t_def [symmetric] z_holds_def z_refs_def z_knows_def Let_def\<close>)
qed

lemma z_parse_step:
  assumes sh: "z_shared s M" and own: "z_own i s M st" and pc: "z_pc (z_threads s i) = Z_parse" and st: "z_step ro i p s = Some s'"
  shows "z_good i s M st s'"
proof -
  define t where "t = z_threads s i"
  let ?k = "op_key (z_op t)"
  note o = z_ownD(1,2) [OF own, folded t_def]
  have pc': "z_pc t = Z_parse" using pc by (simp add: t_def)
  note d = z_refsD [OF o(1), unfolded pc', simplified]
  have range: "KEY_MIN < ?k" "?k < KEY_MAX" and op: "\<And>k. z_op t \<noteq> Set_Contains k" and z: "\<not> z_end t"
    using d by blast+
  have w: "under_way (z_op t) M st" and a: "ahead (z_heap s) ?k st (z_curr t)" using o(2) pc' by (simp_all add: z_knows_def Let_def)
  obtain n where n: "z_heap s (z_curr t) = Some n"
    "s' = upd_z i (if nl_key n < ?k then (\<lambda>t. t\<lparr>z_pred := z_curr t, z_curr := nl_next n\<rparr>)
                         else z_goto (if ro then Z_ro else Z_lock_pred)) s"
    using st pc' by (auto simp: z_step_def Let_def t_def [symmetric] bind_eq_Some_conv)
  show ?thesis
  proof (cases "nl_key n < ?k")
    case True
    then have e: "s' = upd_z i (\<lambda>t. t\<lparr>z_pred := z_curr t, z_curr := nl_next n\<rparr>) s" using n(2) by simp
    obtain m where m: "z_heap s (nl_next n) = Some m"
      using next_mapped [OF z_sharedD(1) [OF sh] n(1) True range(2)] by blast
    have "ahead (z_heap s) ?k st (nl_next n)" using ahead_next [OF a n(1)] True by simp
    then show ?thesis
      by (intro z_good_local [OF e sh own])
        (use o pc' op m w n(1) z True in \<open>simp_all add: t_def [symmetric] z_holds_def z_refs_def z_knows_def Let_def\<close>)
  next
    case False
    then have e: "s' = upd_z i (z_goto (if ro then Z_ro else Z_lock_pred)) s" using n(2) by simp
    show ?thesis
      by (rule z_good_local [OF e sh own])
        (use o pc' op a w n(1) z False in \<open>simp_all add: t_def [symmetric] z_holds_def z_refs_def z_knows_def Let_def\<close>)
  qed
qed


lemma z_ro_step:
  assumes sh: "z_shared s M" and own: "z_own i s M st" and pc: "z_pc (z_threads s i) = Z_ro" and st: "z_step ro i p s = Some s'"
  shows "z_good i s M st s'"
proof -
  define t where "t = z_threads s i"
  let ?k = "op_key (z_op t)"
  note o = z_ownD(1,2) [OF own, folded t_def]
  have pc': "z_pc t = Z_ro" using pc by (simp add: t_def)
  note d = z_refsD [OF o(1), unfolded pc', simplified]
  have range: "KEY_MIN < ?k" "?k < KEY_MAX" using d by blast+
  have w: "under_way (z_op t) M st" and a: "ahead (z_heap s) ?k st (z_curr t)" using o(2) pc' by (simp_all add: z_knows_def Let_def)
  obtain n where n: "z_heap s (z_curr t) = Some n" and e: "s' = upd_z i (\<lambda>t. z_read_only n t (z_op t)) s"
    using st pc' by (auto simp: z_step_def Let_def t_def [symmetric] bind_eq_Some_conv)
  have ge: "?k \<le> nl_key n" using d(6) n by auto
  have M: "nl_key n = ?k \<Longrightarrow> \<not> nl_marked n \<Longrightarrow> M ?k = Some (nl_val n)"
    using map_ok_live [OF z_sharedD(2) [OF sh] unmarked_live [OF sh n] n] range by simp
  have seen: "nl_key n \<noteq> ?k \<Longrightarrow> saw (\<lambda>N. N ?k = None) st" using ahead_end [OF z_sharedD(1) [OF sh] a n ge] by blast
  note facts = t_def [symmetric] z_holds_def z_refs_def z_knows_def Let_def
  show ?thesis
  proof (cases "z_op t")
    case (Set_Contains k) then show ?thesis using d(5) by blast
  next
    case (Set_Add k v)
    have "answered (z_op t) 0 M st" if "nl_key n = k" "\<not> nl_marked n"
      using M that Set_Add by (intro saw_answered [OF w saw_now [OF w, of "\<lambda>N. N = M"]]) simp_all
    then show ?thesis
      by (intro z_good_local [OF e sh own]) (use o pc' w n d Set_Add in \<open>simp_all add: facts\<close>)
  next
    case (Set_Remove k)
    have "answered (z_op t) 0 M st" if "nl_key n \<noteq> k"
      using seen that Set_Remove by (intro saw_answered [OF w, of "\<lambda>N. N k = None"]) (auto simp: answer_def)
    then show ?thesis
      by (intro z_good_local [OF e sh own]) (use o pc' w n d Set_Remove in \<open>simp_all add: facts\<close>)
  qed
qed

lemma z_lock_pred_step:
  assumes sh: "z_shared s M" and own: "z_own i s M st" and pc: "z_pc (z_threads s i) = Z_lock_pred" and st: "z_step ro i p s = Some s'"
  shows "z_good i s M st s'"
proof -
  define t where "t = z_threads s i"
  note o = z_ownD(1,2) [OF own, folded t_def] and l = z_ownD(3) [OF own, folded t_def]
  have pc': "z_pc t = Z_lock_pred" using pc by (simp add: t_def)
  note d = z_refsD [OF o(1), unfolded pc', simplified]
  have w: "under_way (z_op t) M st" using o(2) pc' by (simp add: z_knows_def)
  show ?thesis
  proof (cases "z_locks s (z_pred t)")
    case (Some j)
    then have "s' = upd_z i (\<lambda>t. t) s"
      using st pc' by (auto simp: z_step_def Let_def t_def [symmetric] bind_eq_Some_conv lock_n_def upd_z_def)
    then show ?thesis by (rule z_good_local [OF _ sh own]) (use o in \<open>simp_all add: t_def\<close>)
  next
    case None
    let ?f = "z_goto (if is_remove (z_op t) then Z_lock_curr else Z_val_pred)" and ?l = "(z_locks s)(z_pred t := Some i)"
    have e: "s' = upd_z i ?f (s\<lparr>z_locks := ?l\<rparr>)"
      using st pc' None by (auto simp: z_step_def Let_def t_def [symmetric] bind_eq_Some_conv lock_n_def)
    have f: "\<forall>p. z_locks s p \<noteq> Some i" using l pc' by (simp add: z_holds_def)
    show ?thesis
    proof (rule z_good_locks [OF e sh])
      show "locks_by i (z_locks s) ?l" using None by (simp add: locks_by_def)
      show "\<forall>p. ?l p = Some i \<longleftrightarrow> p \<in> z_holds (?f (z_threads s i))" using f by (simp add: t_def [symmetric] z_holds_def)
      show "\<forall>p. z_heap s p = None \<longrightarrow> ?l p = None" using d(4) z_sharedD(4) [OF sh] by auto
    qed (use o pc' w d in \<open>auto simp: t_def [symmetric] z_refs_def z_knows_def Let_def\<close>)
  qed
qed


lemma z_lock_curr_step:
  assumes sh: "z_shared s M" and own: "z_own i s M st" and pc: "z_pc (z_threads s i) = Z_lock_curr" and st: "z_step ro i p s = Some s'"
  shows "z_good i s M st s'"
proof -
  define t where "t = z_threads s i"
  note o = z_ownD(1,2) [OF own, folded t_def] and l = z_ownD(3) [OF own, folded t_def]
  have pc': "z_pc t = Z_lock_curr" using pc by (simp add: t_def)
  note d = z_refsD [OF o(1), unfolded pc', simplified]
  have w: "under_way (z_op t) M st" using o(2) pc' by (simp add: z_knows_def)
  show ?thesis
  proof (cases "z_locks s (z_curr t)")
    case (Some j)
    then have "s' = upd_z i (\<lambda>t. t) s"
      using st pc' by (auto simp: z_step_def Let_def t_def [symmetric] bind_eq_Some_conv lock_n_def upd_z_def)
    then show ?thesis by (rule z_good_local [OF _ sh own]) (use o in \<open>simp_all add: t_def\<close>)
  next
    case None
    let ?f = "z_goto Z_val_pred" and ?l = "(z_locks s)(z_curr t := Some i)"
    have e: "s' = upd_z i ?f (s\<lparr>z_locks := ?l\<rparr>)"
      using st pc' None by (auto simp: z_step_def Let_def t_def [symmetric] bind_eq_Some_conv lock_n_def)
    show ?thesis
    proof (rule z_good_locks [OF e sh])
      show "locks_by i (z_locks s) ?l" using None by (simp add: locks_by_def)
      show "\<forall>p. ?l p = Some i \<longleftrightarrow> p \<in> z_holds (?f (z_threads s i))"
        using l pc' d by (auto simp: t_def [symmetric] z_holds_def)
      show "\<forall>p. z_heap s p = None \<longrightarrow> ?l p = None" using d(6) z_sharedD(4) [OF sh] by auto
    qed (use o pc' w d in \<open>auto simp: t_def [symmetric] z_refs_def z_knows_def Let_def\<close>)
  qed
qed

text \<open>The reads of \<open>parse_validate\<close>.\<close>

lemma z_val_step:
  assumes sh: "z_shared s M" and own: "z_own i s M st" and pc: "z_pc (z_threads s i) \<in> {Z_val_pred, Z_val_curr}"
    and st: "z_step ro i p s = Some s'"
  shows "z_good i s M st s'"
proof -
  define t where "t = z_threads s i"
  let ?k = "op_key (z_op t)"
  note o = z_ownD(1,2) [OF own, folded t_def]
  have pc': "z_pc t \<in> {Z_val_pred, Z_val_curr}" using pc by (simp add: t_def)
  note d = z_refsD [OF o(1)]
  note facts = t_def [symmetric] z_holds_def z_refs_def z_knows_def Let_def
  have range: "KEY_MIN < ?k" "?k < KEY_MAX" using d(1,2) pc' by auto
  have w: "under_way (z_op t) M st" using o(2) pc' by (auto simp: z_knows_def Let_def)
  show ?thesis
  proof (cases "z_pc t = Z_val_pred")
    case True
    obtain n where n: "z_heap s (z_pred t) = Some n" and e: "s' = upd_z i (if nl_marked n then z_unlock else z_goto Z_val_curr) s"
      using st True by (auto simp: z_step_def Let_def t_def [symmetric] bind_eq_Some_conv)
    show ?thesis
      by (rule z_good_local [OF e sh own])
        (use True o w n d in \<open>auto simp: facts z_unlock_def marked_l_def\<close>)
  next
    case False
    then have v: "z_pc t = Z_val_curr" using pc' by simp
    obtain n where n: "z_heap s (z_curr t) = Some n" and e: "s' = upd_z i (if nl_marked n then z_unlock else z_goto Z_val_next) s"
      using st v by (auto simp: z_step_def Let_def t_def [symmetric] bind_eq_Some_conv)
    have "saw (\<lambda>N. N ?k \<noteq> None) st" if "\<not> nl_marked n" "nl_key n = ?k"
      using saw_now [OF w, of "\<lambda>N. N ?k \<noteq> None"] map_ok_live [OF z_sharedD(2) [OF sh] unmarked_live [OF sh n that(1)] n that(2) range] by simp
    then show ?thesis
      by (intro z_good_local [OF e sh own])
        (use v o w n d in \<open>auto simp: facts z_unlock_def marked_l_def key_l_def\<close>)
  qed
qed

lemma z_val_next_step:
  assumes sh: "z_shared s M" and own: "z_own i s M st" and pc: "z_pc (z_threads s i) = Z_val_next" and st: "z_step ro i p s = Some s'"
  shows "z_good i s M st s'"
proof -
  define t where "t = z_threads s i"
  let ?k = "op_key (z_op t)"
  note o = z_ownD(1,2) [OF own, folded t_def]
  have pc': "z_pc t = Z_val_next" using pc by (simp add: t_def)
  note d = z_refsD [OF o(1), unfolded pc', simplified]
  note facts = t_def [symmetric] z_holds_def z_refs_def z_knows_def Let_def z_unlock_def
  have range: "KEY_MIN < ?k" "?k < KEY_MAX" using d by blast+
  have w: "under_way (z_op t) M st" and um: "\<not> marked_l (z_heap s) (z_pred t)"
    and c: "if is_remove (z_op t) then \<not> marked_l (z_heap s) (z_curr t) else key_l (z_heap s) (z_curr t) = Some ?k \<longrightarrow> saw (\<lambda>N. N ?k \<noteq> None) st"
    using o(2) unfolding z_knows_def Let_def pc' z_pc.case by blast+
  obtain n m where n: "z_heap s (z_pred t) = Some n" and m: "z_heap s (z_curr t) = Some m"
    and e: "s' = upd_z i (if nl_next n \<noteq> z_curr t then z_unlock else (\<lambda>t. z_validated (nl_key m) t (z_op t))) s"
    using st pc' by (auto simp: z_step_def Let_def t_def [symmetric] bind_eq_Some_conv)
  have keys: "nl_key n < ?k" "?k \<le> nl_key m" using d(4,6) n m by auto
  have nx: "nl_next n = z_curr t \<Longrightarrow> next_l (z_heap s) (z_pred t) = Some (z_curr t)" using next_l_Some [of "z_heap s", OF n] by simp
  have km: "key_l (z_heap s) (z_curr t) = Some (nl_key m)" using m by (simp add: key_l_def)
  show ?thesis
  proof (cases "nl_next n = z_curr t")
    case False
    then have e': "s' = upd_z i z_unlock s" using e by simp
    show ?thesis by (rule z_good_local [OF e' sh own]) (use o pc' w d n m in \<open>auto simp: facts\<close>)
  next
    case True
    then have e': "s' = upd_z i (\<lambda>t. z_validated (nl_key m) t (z_op t)) s" using e by simp
    show ?thesis
    proof (cases "z_op t")
      case (Set_Contains k) then show ?thesis using d(5) by blast
    next
      case (Set_Add k v)
      have "answered (z_op t) 0 M st" if "nl_key m = k"
        using c Set_Add that km by (intro saw_answered [OF w, of "\<lambda>N. N k \<noteq> None"]) auto
      then show ?thesis
        by (intro z_good_local [OF e' sh own]) (use o pc' w n m d um nx km keys Set_Add True in \<open>auto simp: facts\<close>)
    next
      case (Set_Remove k)
      have "answered (z_op t) 0 M st" if "nl_key m \<noteq> k"
      proof -
        have "reach (next_l (z_heap s)) (z_head s) (z_pred t)" using z_sharedD(3) [OF sh n] um n by (simp add: marked_l_def)
        then have "M k = None"
          by (rule map_ok_gap [OF z_sharedD(1,2) [OF sh] _ n]) (use m True keys that Set_Remove in auto)
        then show ?thesis using Set_Remove by (intro saw_answered [OF w saw_now [OF w, of "\<lambda>N. N = M"]]) (auto simp: answer_def)
      qed
      then show ?thesis
        by (intro z_good_local [OF e' sh own]) (use o pc' w n m d um nx km keys c Set_Remove True in \<open>auto simp: facts\<close>)
    qed
  qed
qed


lemma z_get_step:
  assumes sh: "z_shared s M" and own: "z_own i s M st" and pc: "z_pc (z_threads s i) = Z_get" and st: "z_step ro i p s = Some s'"
  shows "z_good i s M st s'"
proof -
  define t where "t = z_threads s i"
  note o = z_ownD(1,2) [OF own, folded t_def]
  have pc': "z_pc t = Z_get" using pc by (simp add: t_def)
  obtain n where n: "z_heap s (z_curr t) = Some n"
    and e: "s' = upd_z i (\<lambda>t. t\<lparr>z_res := nl_val n, z_nxt := nl_next n, z_pc := Z_mark\<rparr>) s"
    using st pc' by (auto simp: z_step_def Let_def t_def [symmetric] bind_eq_Some_conv)
  show ?thesis
    by (rule z_good_local [OF e sh own])
      (use o pc' n next_l_Some [of "z_heap s", OF n] in \<open>simp_all add: t_def [symmetric] z_holds_def z_refs_def z_knows_def Let_def\<close>)
qed

lemma z_unlock_curr_step:
  assumes sh: "z_shared s M" and own: "z_own i s M st" and pc: "z_pc (z_threads s i) = Z_unlock_curr" and st: "z_step ro i p s = Some s'"
  shows "z_good i s M st s'"
proof -
  define t where "t = z_threads s i"
  note o = z_ownD(1,2) [OF own, folded t_def] and l = z_ownD(3) [OF own, folded t_def]
  have pc': "z_pc t = Z_unlock_curr" using pc by (simp add: t_def)
  note d = z_refsD [OF o(1), unfolded pc', simplified]
  let ?f = "z_goto Z_unlock_pred" and ?l = "(z_locks s)(z_curr t := None)"
  have e: "s' = upd_z i ?f (s\<lparr>z_locks := ?l\<rparr>)"
    using st pc' by (auto simp: z_step_def Let_def t_def [symmetric] bind_eq_Some_conv unlock_n_def)
  have ne: "z_pred t \<noteq> z_curr t" using d(4,6) by auto
  show ?thesis
  proof (rule z_good_locks [OF e sh])
    show "locks_by i (z_locks s) ?l" using l [of "z_curr t"] pc' by (simp add: locks_by_def z_holds_def)
    show "\<forall>p. ?l p = Some i \<longleftrightarrow> p \<in> z_holds (?f (z_threads s i))"
      using l pc' ne by (auto simp: t_def [symmetric] z_holds_def)
    show "\<forall>p. z_heap s p = None \<longrightarrow> ?l p = None" using z_sharedD(4) [OF sh] by simp
  qed (use o pc' d in \<open>auto simp: t_def [symmetric] z_refs_def z_knows_def Let_def\<close>)
qed

lemma z_unlock_pred_step:
  assumes sh: "z_shared s M" and own: "z_own i s M st" and pc: "z_pc (z_threads s i) = Z_unlock_pred" and st: "z_step ro i p s = Some s'"
  shows "z_good i s M st s'"
proof -
  define t where "t = z_threads s i"
  note o = z_ownD(1,2) [OF own, folded t_def] and l = z_ownD(3) [OF own, folded t_def]
  have pc': "z_pc t = Z_unlock_pred" using pc by (simp add: t_def)
  note d = z_refsD [OF o(1), unfolded pc', simplified]
  let ?f = "z_goto (if z_end t then Z_done else Z_start)" and ?l = "(z_locks s)(z_pred t := None)"
  have e: "s' = upd_z i ?f (s\<lparr>z_locks := ?l\<rparr>)"
    using st pc' by (auto simp: z_step_def Let_def t_def [symmetric] bind_eq_Some_conv unlock_n_def)
  show ?thesis
  proof (rule z_good_locks [OF e sh])
    show "locks_by i (z_locks s) ?l" using l [of "z_pred t"] pc' by (simp add: locks_by_def z_holds_def)
    show "\<forall>p. ?l p = Some i \<longleftrightarrow> p \<in> z_holds (?f (z_threads s i))"
      using l pc' by (auto simp: t_def [symmetric] z_holds_def)
    show "\<forall>p. z_heap s p = None \<longrightarrow> ?l p = None" using z_sharedD(4) [OF sh] by simp
  qed (use o pc' d in \<open>auto simp: t_def [symmetric] z_refs_def z_knows_def Let_def\<close>)
qed

section \<open>Steps that change the list\<close>

text \<open>\<open>pred->next = newnode\<close>.\<close>

lemma z_insert_step:
  assumes sh: "z_shared s M" and own: "z_own i s M st" and pc: "z_pc (z_threads s i) = Z_insert" and st: "z_step ro i p s = Some s'"
  shows "z_good i s M st s'"
proof -
  define t where "t = z_threads s i"
  let ?h = "z_heap s"
  note o = z_ownD(1,2) [OF own, folded t_def] and l = z_ownD(3) [OF own, folded t_def]
  note c = z_sharedD(1) [OF sh] and M = z_sharedD(2) [OF sh]
  have pc': "z_pc t = Z_insert" using pc by (simp add: t_def)
  note d = z_refsD [OF o(1), unfolded pc', simplified]
  obtain k v where op: "z_op t = Set_Add k v" using d(5,7) by (cases "z_op t") auto
  have w: "under_way (z_op t) M st" and um: "\<not> marked_l ?h (z_pred t)" and nx: "next_l ?h (z_pred t) = Some (z_curr t)"
    and kc: "key_l ?h (z_curr t) \<noteq> Some k"
    using o(2) pc' op by (simp_all add: z_knows_def Let_def)
  define f :: "z_thread \<Rightarrow> z_thread" where "f = (\<lambda>t. t\<lparr>z_res := 1, z_end := True, z_pc := Z_unlock_pred\<rparr>)"
  obtain n where n: "?h (z_pred t) = Some n" and q: "?h p = None" "p \<noteq> NULL"
    and e: "s' = upd_z i f (s\<lparr>z_heap := ?h(p \<mapsto> new_node_l k v (z_curr t), z_pred t \<mapsto> n\<lparr>nl_next := p\<rparr>), z_locks := (z_locks s)(p := None)\<rparr>)"
    using st pc' op by (auto simp: z_step_def Let_def t_def [symmetric] f_def [symmetric] bind_eq_Some_conv split: if_splits)
  obtain m where m: "?h (z_curr t) = Some m" "k \<le> nl_key m" using d(6) op by auto
  have nn: "nl_next n = z_curr t" using nx n by (simp add: next_l_def)
  have keys: "nl_key n < k" "k < nl_key m" using d(4) n m kc op by (auto simp: key_l_def)
  have pq: "z_pred t \<noteq> p" using n q by auto
  have lock: "z_locks s (z_pred t) = Some i" using l [of "z_pred t"] pc' by (simp add: z_holds_def)
  have reach: "reach (next_l ?h) (z_head s) (z_pred t)" using z_sharedD(3) [OF sh n] um n by (simp add: marked_l_def)
  let ?h' = "?h(p \<mapsto> new_node_l k v (z_curr t), z_pred t \<mapsto> n\<lparr>nl_next := p\<rparr>)"
  have c': "chain_ok ?h' (z_head s)" and M': "map_ok ?h' (z_head s) (M(k \<mapsto> v))"
    using insert_chain [OF c n _ q keys, of v] insert_map [OF c M n reach _ q keys, of v] m by (simp_all add: nn)
  have path: "reach (next_l ?h) a z \<Longrightarrow> reach (next_l ?h') a z" for a z
    using insert_reach [OF n q(1) pq, of a z k v] by (simp add: nn)
  have "reach (next_l ?h') (z_head s) p"
    by (rule reach_end [OF path [OF reach]]) (simp add: next_l_def)
  then have "z_shared s' (M(k \<mapsto> v))"
    unfolding e using c' M' path z_sharedD(3,4) [OF sh] n um by (auto simp: z_shared_def marked_l_def)
  moreover have "map_step (z_op t) M = (1, M(k \<mapsto> v))"
    using map_ok_gap [OF c M reach n _ keys(1), of m] m keys op by (simp add: nn)
  moreover have "z_own i s' (M(k \<mapsto> v)) (Effected (z_op t) 1)"
    unfolding z_own_def
  proof (intro conjI allI)
    have "p \<notin> z_holds t" using l [of p] z_sharedD(4) [OF sh q(1)] by simp
    then show "z_locks s' a = Some i \<longleftrightarrow> a \<in> z_holds (z_threads s' i)" for a
      using l [of a] pc' by (simp add: e t_def [symmetric] f_def z_holds_def)
    show "z_refs (z_heap s') (z_threads s' i)"
      using d op keys m q by (auto simp: e t_def [symmetric] f_def z_refs_def)
  qed (simp add: e t_def [symmetric] f_def z_knows_def answered_def)
  moreover have "z_rely j s s' (M(k \<mapsto> v))" if "j \<noteq> i" for j
    using that q n um lock path z_sharedD(4) [OF sh q(1)] by (auto simp: e z_rely_def marked_l_def)
  ultimately show ?thesis using under_way_Pending [OF w] unfolding z_good_def by blast
qed


text \<open>\<open>curr->marked = 1\<close>, where the removal takes place.\<close>

lemma z_mark_step:
  assumes sh: "z_shared s M" and own: "z_own i s M st" and pc: "z_pc (z_threads s i) = Z_mark" and st: "z_step ro i p s = Some s'"
  shows "z_good i s M st s'"
proof -
  define t where "t = z_threads s i"
  let ?h = "z_heap s" and ?k = "op_key (z_op t)" and ?r = "z_res t"
  note o = z_ownD(1,2) [OF own, folded t_def] and l = z_ownD(3) [OF own, folded t_def]
  note c = z_sharedD(1) [OF sh] and M = z_sharedD(2) [OF sh]
  have pc': "z_pc t = Z_mark" using pc by (simp add: t_def)
  note d = z_refsD [OF o(1), unfolded pc', simplified]
  obtain k where op: "z_op t = Set_Remove k" using d(8) by (cases "z_op t") auto
  have w: "under_way (z_op t) M st" and um: "\<not> marked_l ?h (z_pred t)" "\<not> marked_l ?h (z_curr t)"
    and nx: "next_l ?h (z_pred t) = Some (z_curr t)" "next_l ?h (z_curr t) = Some (z_nxt t)"
    and kc: "key_l ?h (z_curr t) = Some k" and val: "map_option nl_val (?h (z_curr t)) = Some ?r"
    using o(2) pc' op by (simp_all add: z_knows_def Let_def)
  obtain n where n: "?h (z_curr t) = Some n"
    and e: "s' = upd_z i (z_goto Z_unlink) (s\<lparr>z_heap := ?h(z_curr t \<mapsto> n\<lparr>nl_marked := True\<rparr>)\<rparr>)"
    using st pc' by (auto simp: z_step_def Let_def t_def [symmetric] bind_eq_Some_conv)
  have n': "nl_key n = k" "\<not> nl_marked n" "nl_val n = ?r" using n kc um val by (simp_all add: key_l_def marked_l_def)
  have range: "KEY_MIN < k" "k < KEY_MAX" using d(1,2) op by simp_all
  note live = unmarked_live [OF sh n n'(2)]
  have Mk: "M k = Some ?r" using map_ok_live [OF M live n n'(1) range] n' by simp
  let ?h' = "?h(z_curr t \<mapsto> n\<lparr>nl_marked := True\<rparr>)"
  have c': "chain_ok ?h' (z_head s)" and M': "map_ok ?h' (z_head s) (M(k := None))" by (rule mark_list [OF c M live n n'(1)])+
  have nl: "next_l ?h' = next_l ?h" using n by (auto simp: next_l_def fun_eq_iff)
  have lock: "z_locks s (z_curr t) = Some i" using l [of "z_curr t"] pc' by (simp add: z_holds_def)
  have "z_shared s' (M(k := None))"
    unfolding e using c' M' z_sharedD(3,4) [OF sh] n n' by (auto simp: z_shared_def nl simp del: next_l_simps)
  moreover have "map_step (z_op t) M = (?r, M(k := None))" using Mk op by (simp add: answer_def)
  moreover have "z_own i s' (M(k := None)) (Effected (z_op t) ?r)"
    unfolding z_own_def
  proof (intro conjI allI)
    show "z_locks s' a = Some i \<longleftrightarrow> a \<in> z_holds (z_threads s' i)" for a
      using l [of a] pc' by (simp add: e t_def [symmetric] z_holds_def)
    show "z_refs (z_heap s') (z_threads s' i)"
      using d op n n' by (auto simp: e t_def [symmetric] z_refs_def)
    show "z_knows (z_heap s') (M(k := None)) (z_threads s' i) (Effected (z_op t) ?r)"
      using um nx n n' d(4) op by (auto simp: e t_def [symmetric] z_knows_def answered_def nl marked_l_def key_l_def simp del: next_l_simps)
  qed
  moreover have "z_rely j s s' (M(k := None))" if "j \<noteq> i" for j
    using that n n' lock by (auto simp: e z_rely_def nl simp del: next_l_simps)
  ultimately show ?thesis using under_way_Pending [OF w] unfolding z_good_def by blast
qed

text \<open>\<open>pred->next = c_nxt\<close>.\<close>

lemma z_unlink_step:
  assumes sh: "z_shared s M" and own: "z_own i s M st" and pc: "z_pc (z_threads s i) = Z_unlink" and st: "z_step ro i p s = Some s'"
  shows "z_good i s M st s'"
proof -
  define t where "t = z_threads s i"
  let ?h = "z_heap s"
  note o = z_ownD(1,2) [OF own, folded t_def] and l = z_ownD(3) [OF own, folded t_def]
  note c = z_sharedD(1) [OF sh] and M = z_sharedD(2) [OF sh]
  have pc': "z_pc t = Z_unlink" using pc by (simp add: t_def)
  note d = z_refsD [OF o(1), unfolded pc', simplified]
  have w: "answered (z_op t) (z_res t) M st" and um: "\<not> marked_l ?h (z_pred t)" "marked_l ?h (z_curr t)"
    and nx: "next_l ?h (z_pred t) = Some (z_curr t)" "next_l ?h (z_curr t) = Some (z_nxt t)"
    and kc: "key_l ?h (z_curr t) = Some (op_key (z_op t))"
    using o(2) pc' by (simp_all add: z_knows_def Let_def)
  define f :: "z_thread \<Rightarrow> z_thread" where "f = (\<lambda>t. t\<lparr>z_end := True, z_pc := Z_unlock_curr\<rparr>)"
  obtain n where n: "?h (z_pred t) = Some n"
    and e: "s' = upd_z i f (s\<lparr>z_heap := ?h(z_pred t \<mapsto> n\<lparr>nl_next := z_nxt t\<rparr>)\<rparr>)"
    using st pc' by (auto simp: z_step_def Let_def t_def [symmetric] f_def [symmetric] bind_eq_Some_conv)
  obtain m where m: "?h (z_curr t) = Some m" "nl_marked m" "nl_next m = z_nxt t" "nl_key m = op_key (z_op t)"
    using um nx kc by (auto simp: marked_l_def next_l_def key_l_def)
  have nn: "nl_next n = z_curr t" "\<not> nl_marked n" using nx um n by (simp_all add: next_l_def marked_l_def)
  let ?h' = "?h(z_pred t \<mapsto> n\<lparr>nl_next := z_nxt t\<rparr>)"
  have c': "chain_ok ?h' (z_head s)" and M': "map_ok ?h' (z_head s) M"
    using skip_chain [OF c n, of m] skip_map [OF c M n, of m] m d(2) nn by simp_all
  have path: "reach (next_l ?h) a z \<Longrightarrow> z \<noteq> z_curr t \<Longrightarrow> reach (next_l ?h') a z" for a z
    using skip_reach(1) [of ?h "z_pred t" n m a z] n m nn by simp
  have live: "\<not> nl_marked x \<Longrightarrow> ?h' z = Some x \<Longrightarrow> z \<noteq> z_curr t" for z x using m nn n by (auto split: if_splits)
  have lock: "z_locks s (z_pred t) = Some i" using l [of "z_pred t"] pc' by (simp add: z_holds_def)
  have "reach (next_l ?h') (z_head s) z" if z: "?h' z = Some x" "\<not> nl_marked x" for z x
  proof -
    have "\<exists>y. ?h z = Some y \<and> \<not> nl_marked y" using z n nn by (auto split: if_splits)
    then show ?thesis using path z_sharedD(3) [OF sh] live [OF z(2,1)] by blast
  qed
  then have "z_shared s' M" unfolding e using c' M' z_sharedD(4) [OF sh] by (simp add: z_shared_def)
  moreover have "z_own i s' M st"
    unfolding z_own_def
  proof (intro conjI allI)
    show "z_locks s' a = Some i \<longleftrightarrow> a \<in> z_holds (z_threads s' i)" for a
      using l [of a] pc' by (simp add: e t_def [symmetric] f_def z_holds_def)
    show "z_refs (z_heap s') (z_threads s' i)"
      using d n m by (auto simp: e t_def [symmetric] f_def z_refs_def)
    show "z_knows (z_heap s') M (z_threads s' i) st"
      using w by (simp add: e t_def [symmetric] f_def z_knows_def)
  qed
  moreover have "z_rely j s s' M" if "j \<noteq> i" for j
    using that n nn lock path live by (auto simp: e z_rely_def)
  ultimately show ?thesis unfolding z_good_def by blast
qed

lemma z_step_good:
  assumes sh: "z_shared s M" and own: "z_own i s M st" and st: "z_step ro i p s = Some s'"
  shows "z_good i s M st s'"
proof (cases "z_pc (z_threads s i)")
  case Z_idle then show ?thesis using st by (simp add: z_step_def)
next
  case Z_done then show ?thesis using st by (simp add: z_step_def)
next
  case Z_val_pred then show ?thesis by (intro z_val_step [OF sh own _ st]) simp
next
  case Z_val_curr then show ?thesis by (intro z_val_step [OF sh own _ st]) simp
next
  case Z_find then show ?thesis by (rule z_find_step [OF sh own _ st])
next
  case Z_start then show ?thesis by (rule z_start_step [OF sh own _ st])
next
  case Z_parse then show ?thesis by (rule z_parse_step [OF sh own _ st])
next
  case Z_ro then show ?thesis by (rule z_ro_step [OF sh own _ st])
next
  case Z_lock_pred then show ?thesis by (rule z_lock_pred_step [OF sh own _ st])
next
  case Z_lock_curr then show ?thesis by (rule z_lock_curr_step [OF sh own _ st])
next
  case Z_val_next then show ?thesis by (rule z_val_next_step [OF sh own _ st])
next
  case Z_insert then show ?thesis by (rule z_insert_step [OF sh own _ st])
next
  case Z_get then show ?thesis by (rule z_get_step [OF sh own _ st])
next
  case Z_mark then show ?thesis by (rule z_mark_step [OF sh own _ st])
next
  case Z_unlink then show ?thesis by (rule z_unlink_step [OF sh own _ st])
next
  case Z_unlock_curr then show ?thesis by (rule z_unlock_curr_step [OF sh own _ st])
next
  case Z_unlock_pred then show ?thesis by (rule z_unlock_pred_step [OF sh own _ st])
qed


section \<open>Calls and returns\<close>

lemma z_own_quiet:
  assumes own: "z_own i s M st" and pc: "z_pc (z_threads s i) \<in> {Z_idle, Z_done}" and sh: "z_shared s M"
    and f: "z_holds (f (z_threads s i)) = {}" "z_refs (z_heap s) (f (z_threads s i))" "z_knows (z_heap s) M (f (z_threads s i)) st'"
  shows "z_shared (upd_z i f s) M" "z_own i (upd_z i f s) M st'" "j \<noteq> i \<Longrightarrow> z_rely j s (upd_z i f s) M"
proof -
  have "z_holds (z_threads s i) = {}" using pc by (auto simp: z_holds_def)
  then have "z_locks s p \<noteq> Some i" for p using z_ownD(3) [OF own] by simp
  then show "z_own i (upd_z i f s) M st'" using f by (simp add: z_own_def)
  show "z_shared (upd_z i f s) M" using sh by (simp add: z_shared_def)
  show "j \<noteq> i \<Longrightarrow> z_rely j s (upd_z i f s) M" by (auto simp: z_rely_def)
qed

lemma z_call_good:
  assumes sh: "z_shared s M" and own: "z_own i s M st" and c: "z_call i x s = Some s'"
  shows "st = A_idle \<and> z_shared s' M \<and> z_own i s' M (Pending x {M}) \<and> (\<forall>j. j \<noteq> i \<longrightarrow> z_rely j s s' M)"
proof -
  define f where "f = (\<lambda>t :: z_thread. t\<lparr>z_op := x, z_curr := z_head s, z_pred := z_head s, z_res := 0, z_end := False,
    z_pc := (case x of Set_Contains _ \<Rightarrow> Z_find | _ \<Rightarrow> Z_start)\<rparr>)"
  have pc: "z_pc (z_threads s i) = Z_idle" and range: "KEY_MIN < op_key x" "op_key x < KEY_MAX" and s': "s' = upd_z i f s"
    using c by (auto simp: z_call_def f_def split: if_splits)
  have "st = A_idle" using z_ownD(2) [OF own] pc by (simp add: z_knows_def Let_def)
  moreover obtain n where n: "z_heap s (z_head s) = Some n" using chain_okD(1) [OF z_sharedD(1) [OF sh]] by blast
  have w: "under_way x M (Pending x {M})" by (simp add: under_way_def)
  have "z_holds (f (z_threads s i)) = {}" by (cases x) (simp_all add: f_def z_holds_def)
  moreover have "z_refs (z_heap s) (f (z_threads s i))"
    using range n by (cases x) (simp_all add: f_def z_refs_def)
  moreover have "z_knows (z_heap s) M (f (z_threads s i)) (Pending x {M})"
    using w ahead_start(2) [OF sh w range n] by (cases x) (simp_all add: f_def z_knows_def)
  ultimately show ?thesis using z_own_quiet [OF own _ sh] pc unfolding s' by blast
qed

lemma z_ret_good:
  assumes sh: "z_shared s M" and own: "z_own i s M st" and c: "z_ret i s = Some (r, s')"
  shows "(\<exists>x. answered x r M st) \<and> z_shared s' M \<and> z_own i s' M A_idle \<and> (\<forall>j. j \<noteq> i \<longrightarrow> z_rely j s s' M)"
proof -
  have pc: "z_pc (z_threads s i) = Z_done" and r: "r = z_res (z_threads s i)" and s': "s' = upd_z i (z_goto Z_idle) s"
    using c by (auto simp: z_ret_def split: if_splits)
  have "answered (z_op (z_threads s i)) r M st" using z_ownD(2) [OF own] pc r by (simp add: z_knows_def Let_def)
  moreover have "z_refs (z_heap s) (z_goto Z_idle (z_threads s i))" by (simp add: z_refs_def)
  moreover have "z_holds (z_goto Z_idle (z_threads s i)) = {}" by (simp add: z_holds_def)
  moreover have "z_knows (z_heap s) M (z_goto Z_idle (z_threads s i)) A_idle" by (simp add: z_knows_def)
  ultimately show ?thesis using z_own_quiet [OF own _ sh] pc unfolding s' by blast
qed

interpretation lazy: thread_object z_call "z_step ro" z_ret z_shared z_own z_rely for ro
proof unfold_locales
  show "z_own j s' M' (see M' st)" if "z_own j s M st" "z_rely j s s' M'" for s M s' M' j st by (rule z_own_rely [OF that])
  show "see M st = st" if "z_own j s M st" for j s M st by (rule z_own_see [OF that])
  show "st = A_idle \<and> z_shared s' M \<and> z_own i s' M (Pending x {M}) \<and> (\<forall>j. j \<noteq> i \<longrightarrow> z_rely j s s' M)"
    if "z_shared s M" "z_own i s M st" "z_call i x s = Some s'" for s M i st x s' by (rule z_call_good [OF that])
  show "(\<exists>x. answered x r M st) \<and> z_shared s' M \<and> z_own i s' M A_idle \<and> (\<forall>j. j \<noteq> i \<longrightarrow> z_rely j s s' M)"
    if "z_shared s M" "z_own i s M st" "z_ret i s = Some (r, s')" for s M i st r s' by (rule z_ret_good [OF that])
  show "\<exists>M' st'. z_shared s' M' \<and> z_own i s' M' st' \<and> (\<forall>j. j \<noteq> i \<longrightarrow> z_rely j s s' M') \<and>
      (M' = M \<and> st' = st \<or> (\<exists>x S r. st = Pending x S \<and> map_step x M = (r, M') \<and> st' = Effected x r))"
    if "z_shared s M" "z_own i s M st" "z_step ro i p s = Some s'" for s M i st p s'
    using z_step_good [OF that] unfolding z_good_def .
qed

lemma z_init_inv:
  assumes "mn \<noteq> mx" "mn \<noteq> NULL" "mx \<noteq> NULL"
  shows "lazy.all_inv (z_init mn mx) Map.empty (\<lambda>_. A_idle)"
proof -
  have "z_shared (z_init mn mx) Map.empty" using set_new_chain [OF assms] by (simp add: z_shared_def z_init_def)
  moreover have "z_own i (z_init mn mx) Map.empty A_idle" for i
    by (simp add: z_own_def z_init_def z_idle_def z_refs_def z_knows_def z_holds_def)
  ultimately show ?thesis by (simp add: lazy.all_inv_def)
qed

section \<open>Progress\<close>

text \<open>A thread waits for a lock that another one has.\<close>

definition z_waits :: "z_sys \<Rightarrow> nat \<Rightarrow> ptr \<Rightarrow> bool" where
  "z_waits s i p \<longleftrightarrow> z_locks s p \<noteq> None \<and>
     (z_pc (z_threads s i) = Z_lock_pred \<and> p = z_pred (z_threads s i) \<or>
      z_pc (z_threads s i) = Z_lock_curr \<and> p = z_curr (z_threads s i))"

lemma z_step_total:
  assumes own: "z_own i s M st" and sh: "z_shared s M" and pc: "z_pc (z_threads s i) \<notin> {Z_idle, Z_done}"
    and q: "z_heap s p = None" "p \<noteq> NULL"
  shows "z_step ro i p s \<noteq> None"
proof -
  define t where "t = z_threads s i"
  note d = z_refsD [OF z_ownD(1) [OF own, folded t_def]]
  have pc': "z_pc t \<notin> {Z_idle, Z_done}" using pc by (simp add: t_def)
  obtain n where h: "z_heap s (z_head s) = Some n" using chain_okD(1) [OF z_sharedD(1) [OF sh]] by blast
  show ?thesis
  proof (cases "z_pc t = Z_insert")
    case True
    obtain k v where "z_op t = Set_Add k v" using d(5,7) True by (cases "z_op t") auto
    then show ?thesis using True d(4) q by (auto simp: z_step_def Let_def t_def [symmetric])
  next
    case False
    then show ?thesis
      using pc' h d(3,4) by (cases "z_pc t") (auto simp: z_step_def Let_def t_def [symmetric] split: prod.splits)
  qed
qed


lemma z_next_other:
  assumes "z_shared s M" "z_heap s p = Some n" "nl_key n < k" "k < KEY_MAX"
  shows "nl_next n \<noteq> p"
proof
  assume "nl_next n = p"
  moreover have "nl_key n < KEY_MAX" using assms(3,4) by simp
  ultimately show False using chain_okD(5) [OF z_sharedD(1) [OF assms(1)] assms(2)] assms(2) by auto
qed

lemma z_step_moves:
  assumes own: "z_own i s M st" and sh: "z_shared s M" and pc: "z_pc (z_threads s i) \<noteq> Z_idle" and w: "\<nexists>p. z_waits s i p"
    and st: "z_step ro i p s = Some s'"
  shows "z_threads s' i \<noteq> z_threads s i"
proof -
  define t where "t = z_threads s i"
  note d = z_refsD [OF z_ownD(1) [OF own, folded t_def]]
  have pc': "z_pc t \<noteq> Z_idle" using pc by (simp add: t_def)
  have other: "nl_next n \<noteq> q" if "z_heap s q = Some n" "nl_key n < op_key (z_op t)" for q n
    by (rule z_next_other [OF sh that d(2) [OF pc']])
  note facts = z_step_def Let_def t_def [symmetric] bind_eq_Some_conv z_unlock_def z_waits_def lock_n_def
  have "z_pc (z_threads s' i) \<noteq> z_pc t \<or> z_curr (z_threads s' i) \<noteq> z_curr t"
  proof (cases "z_pc t")
    case Z_find then show ?thesis using st other [of "z_curr t"] by (auto simp: facts split: if_splits)
  next
    case Z_parse then show ?thesis using st other [of "z_curr t"] by (auto simp: facts split: if_splits)
  next
    case Z_ro then show ?thesis using st d(5) by (cases "z_op t") (auto simp: facts split: if_splits)
  next
    case Z_insert then show ?thesis using st by (cases "z_op t") (auto simp: facts split: if_splits)
  next
    case Z_val_next then show ?thesis using st d(5) by (cases "z_op t") (auto simp: facts split: if_splits)
  qed (use pc' st w in \<open>auto simp: facts split: if_splits\<close>)
  then show ?thesis by (auto simp: t_def)
qed

text \<open>Locks are taken in the order of the keys.\<close>

lemma z_waits_runs:
  assumes inv: "lazy.all_inv s M st" and w: "z_waits s i p"
  shows "\<exists>j. z_pc (z_threads s j) \<notin> {Z_idle, Z_done} \<and> (\<nexists>q. z_waits s j q)"
proof -
  have own: "z_own j s M (st j)" for j using inv by (simp add: lazy.all_inv_def)
  have c: "chain_ok (z_heap s) (z_head s)" using inv z_sharedD(1) by (auto simp: lazy.all_inv_def)
  define rank where "rank p = nat (KEY_MAX - the (key_l (z_heap s) p))" for p
  have "\<exists>j. p \<in> z_holds (z_threads s j)" if "z_waits s i p" for i p
    using that z_ownD(3) [OF own] by (auto simp: z_waits_def)
  moreover have "rank q < rank p" if p: "p \<in> z_holds (z_threads s j)" and q: "z_waits s j q" for j p q
  proof -
    have pc: "z_pc (z_threads s j) = Z_lock_curr" "q = z_curr (z_threads s j)"
      using p q by (auto simp: z_waits_def z_holds_def split: z_pc.splits)
    then have "p = z_pred (z_threads s j)" using p by (simp add: z_holds_def)
    then obtain n m where m: "z_heap s p = Some n" "z_heap s q = Some m" "nl_key n < nl_key m"
      using z_refsD(4,6) [OF z_ownD(1) [OF own, of j]] pc by fastforce
    have "nl_key m \<le> KEY_MAX" using chain_okD(3) [OF c m(2)] by blast
    then show ?thesis using m by (simp add: rank_def key_l_def)
  qed
  ultimately obtain j q where j: "q \<in> z_holds (z_threads s j)" "\<nexists>q'. z_waits s j q'"
    using ordered_waits [of "z_waits s" "\<lambda>j p. p \<in> z_holds (z_threads s j)" rank i p] w by blast
  have "z_pc (z_threads s j) \<notin> {Z_idle, Z_done}" using j(1) by (auto simp: z_holds_def)
  then show ?thesis using j(2) by blast
qed

section \<open>Properties\<close>

text \<open>C9: The lazy list is linearizable. Any number of threads call \<open>parse_find\<close>, \<open>parse_insert\<close> and
  \<open>parse_delete\<close>, interleaved one shared access at a time, with and without the read-only failure path:
  what they are told is what threads on an atomic map are told, each operation taking place in one
  moment between its call and its return, also for \<open>parse_find\<close>, which takes no lock and may walk
  through nodes that have been unlinked. The map is that of the reachable unmarked nodes.\<close>

theorem lazy_linearizable:
  assumes "mn \<noteq> mx" "mn \<noteq> NULL" "mx \<noteq> NULL" "object_exec z_call (z_step ro) z_ret (z_init mn mx) tr s"
  shows "\<exists>M st. chain_ok (z_heap s) (z_head s) \<and> map_ok (z_heap s) (z_head s) M \<and> atomic_exec tr M st"
  using lazy.linearizable [OF assms(4) z_init_inv [OF assms(1-3)]] z_sharedD(1,2) unfolding lazy.all_inv_def by blast

text \<open>C27: The lazy list does not deadlock and does not fault. Whenever a thread is inside an operation,
  some thread inside an operation makes progress: it does not wait for a lock, its next access is to
  mapped memory, and the access takes it on to another point. (A waiting thread waits for a node with a
  greater key than that of any lock it holds.)\<close>

theorem lazy_deadlock_free:
  assumes "mn \<noteq> mx" "mn \<noteq> NULL" "mx \<noteq> NULL" "object_exec z_call (z_step ro) z_ret (z_init mn mx) tr s"
    "z_pc (z_threads s i) \<notin> {Z_idle, Z_done}" "z_heap s p = None" "p \<noteq> NULL"
  shows "\<exists>j s'. z_pc (z_threads s j) \<notin> {Z_idle, Z_done} \<and> z_step ro j p s = Some s' \<and> z_threads s' j \<noteq> z_threads s j"
proof -
  obtain M st where inv: "lazy.all_inv s M st"
    using lazy.reachable_inv [OF assms(4) z_init_inv [OF assms(1-3)]] by blast
  then have sh: "z_shared s M" and own: "\<And>j. z_own j s M (st j)" by (simp_all add: lazy.all_inv_def)
  have "\<exists>j. z_pc (z_threads s j) \<notin> {Z_idle, Z_done} \<and> (\<nexists>q. z_waits s j q)"
  proof (cases "\<exists>q. z_waits s i q")
    case True
    then obtain q where q: "z_waits s i q" by blast
    then show ?thesis using z_waits_runs [OF inv q] by blast
  qed (use assms(5) in blast)
  then obtain j where j: "z_pc (z_threads s j) \<notin> {Z_idle, Z_done}" "\<nexists>q. z_waits s j q" by blast
  obtain s' where s': "z_step ro j p s = Some s'" using z_step_total [OF own sh j(1) assms(6,7)] by blast
  have "z_threads s' j \<noteq> z_threads s j" by (rule z_step_moves [OF own sh _ j(2) s']) (use j(1) in simp)
  then show ?thesis using j(1) s' by blast
qed


section \<open>Witnesses\<close>

text \<open>Thread 1 has walked to the node of key 5 when thread 2 marks it; it answers 0. Its call began when the
  key was there.\<close>

definition lazy_race :: "(nat \<times> o_action) list" where
  "lazy_race =
     (0, O_call (Set_Add 5 50)) # replicate 8 (0, O_step 192) @ [(0, O_return), (1, O_call (Set_Contains 5)), (1, O_step 0)] @
     (2, O_call (Set_Remove 5)) # replicate 9 (2, O_step 0) @ [(1, O_step 0), (1, O_return)] @
     replicate 3 (2, O_step 0) @ [(2, O_return)]"

lemma lazy_linearizable_witness:
  "\<exists>(s :: z_sys) M st. map_ok (z_heap s) (z_head s) M \<and> marked_l (z_heap s) 192 \<and>
     atomic_exec [(0, Called (Set_Add 5 50)), (0, Returned 1), (1, Called (Set_Contains 5)), (2, Called (Set_Remove 5)),
       (1, Returned 0), (2, Returned 50)] M st"
proof -
  have "case object_run z_call (z_step False) z_ret lazy_race (z_init 64 128) of None \<Rightarrow> False
    | Some (tr, s) \<Rightarrow> tr = [(0, Called (Set_Add 5 50)), (0, Returned 1), (1, Called (Set_Contains 5)),
        (2, Called (Set_Remove 5)), (1, Returned 0), (2, Returned 50)] \<and>
        (case z_heap s 192 of None \<Rightarrow> False | Some n \<Rightarrow> nl_marked n)"
    by code_simp
  then obtain s where s: "object_run z_call (z_step False) z_ret lazy_race (z_init 64 128) =
      Some ([(0, Called (Set_Add 5 50)), (0, Returned 1), (1, Called (Set_Contains 5)),
        (2, Called (Set_Remove 5)), (1, Returned 0), (2, Returned 50)], s)" "marked_l (z_heap s) 192"
    by (auto simp: marked_l_def split: option.splits)
  have p: "(64 :: ptr) \<noteq> 128" "(64 :: ptr) \<noteq> NULL" "(128 :: ptr) \<noteq> NULL" by simp_all
  from lazy_linearizable [OF p object_run_exec [OF s(1) object_start, unfolded append_Nil]] s(2) show ?thesis by blast
qed

text \<open>Thread 1 waits for the lock of the head, which thread 0 has.\<close>

lemma lazy_deadlock_free_witness:
  "\<exists>s :: z_sys. z_waits s 1 64 \<and>
     (\<exists>j s'. z_pc (z_threads s j) \<notin> {Z_idle, Z_done} \<and> z_step False j 192 s = Some s' \<and> z_threads s' j \<noteq> z_threads s j)"
proof -
  define as where "as = (0, O_call (Set_Add 5 50)) # replicate 3 (0 :: nat, O_step 0) @ (1, O_call (Set_Add 6 60)) # replicate 2 (1, O_step 0)"
  have "case object_run z_call (z_step False) z_ret as (z_init 64 128) of None \<Rightarrow> False
    | Some (tr, s) \<Rightarrow> z_pc (z_threads s 1) = Z_lock_pred \<and> z_pred (z_threads s 1) = 64 \<and> z_locks s 64 = Some 0 \<and> z_heap s 192 = None"
    unfolding as_def by code_simp
  then obtain tr s where s: "object_run z_call (z_step False) z_ret as (z_init 64 128) = Some (tr, s)"
    "z_pc (z_threads s 1) = Z_lock_pred" "z_pred (z_threads s 1) = 64" "z_locks s 64 = Some 0" "z_heap s 192 = None"
    by (auto split: option.splits)
  have p: "(64 :: ptr) \<noteq> 128" "(64 :: ptr) \<noteq> NULL" "(128 :: ptr) \<noteq> NULL" "(192 :: ptr) \<noteq> NULL" by simp_all
  have a: "z_pc (z_threads s 1) \<notin> {Z_idle, Z_done}" using s(2) by simp
  note lazy_deadlock_free [OF p(1-3) object_run_exec [OF s(1) object_start, unfolded append_Nil] a s(5) p(4)]
  moreover have "z_waits s 1 64" using s by (simp add: z_waits_def)
  ultimately show ?thesis by blast
qed

end
