(* ===== verification/Coupling_List.thy ===== *)
theory Coupling_List
  imports Lock_Nodes
begin

text \<open>
  Hand-over-hand locking, src/linkedlist-coupling/coupling.c: \<open>lockc_find\<close>, \<open>lockc_insert\<close>,
  \<open>lockc_delete\<close>, any number of threads, one access at a time (\<open>LL_GLOBAL_LOCK\<close> not defined). With GC
  the deleted node is freed at once and may be reused; the list is linearizable, has no faults (so no
  thread has a reference to a freed node), and no deadlock.
\<close>

section \<open>Threads\<close>

text \<open>\<open>C_lock_head\<close> to \<open>C_unlock_curr\<close> are the search: \<open>C_read\<close> reads \<open>curr->next\<close> for \<open>LOCK\<close>, \<open>C_next\<close>
  reads it again for \<open>next\<close>; \<open>C_finish\<close> looks at \<open>next\<close>; \<open>C_victim\<close>, \<open>C_free\<close>, \<open>C_last\<close> end a removal,
  \<open>C_end_curr\<close>, \<open>C_end_next\<close> the other operations.\<close>

datatype c_pc =
    C_idle | C_lock_head | C_read | C_lock_next | C_next | C_test | C_unlock_curr | C_finish
  | C_insert | C_unlink | C_victim | C_free | C_last | C_end_curr | C_end_next | C_done

record c_thread =
  c_op :: set_op
  c_pc :: c_pc
  c_curr :: ptr
  c_next :: ptr
  c_res :: int

record c_sys =
  c_heap :: heap_l
  c_locks :: locks_l
  c_head :: ptr
  c_threads :: "nat \<Rightarrow> c_thread"

definition upd_c :: "nat \<Rightarrow> (c_thread \<Rightarrow> c_thread) \<Rightarrow> c_sys \<Rightarrow> c_sys" where
  "upd_c i f s = s\<lparr>c_threads := (c_threads s)(i := f (c_threads s i))\<rparr>"

abbreviation c_goto :: "c_pc \<Rightarrow> c_thread \<Rightarrow> c_thread" where
  "c_goto p t \<equiv> t\<lparr>c_pc := p\<rparr>"

section \<open>Steps\<close>

text \<open>The search has stopped at \<open>next\<close>, which is n.\<close>

fun c_finish :: "node_l \<Rightarrow> c_thread \<Rightarrow> set_op \<Rightarrow> c_thread" where
  "c_finish n t (Set_Contains key) = t\<lparr>c_res := (if key = nl_key n then nl_val n else 0), c_pc := C_end_curr\<rparr>"
| "c_finish n t (Set_Add key val) = (if key = nl_key n then t\<lparr>c_res := 0, c_pc := C_end_curr\<rparr> else c_goto C_insert t)"
| "c_finish n t (Set_Remove key) =
     (if key = nl_key n then t\<lparr>c_res := nl_val n, c_pc := C_unlink\<rparr> else t\<lparr>c_res := 0, c_pc := C_end_curr\<rparr>)"

text \<open>One access of thread i; \<open>gc\<close> is \<open>GC == 1\<close>, \<open>p\<close> what the allocator gives if asked.\<close>

definition c_step :: "bool \<Rightarrow> nat \<Rightarrow> ptr \<Rightarrow> c_sys \<Rightarrow> c_sys option" where
  "c_step gc i p s =
     (let t = c_threads s i; h = c_heap s; key = op_key (c_op t) in
      case c_pc t of
        C_idle \<Rightarrow> None
      | C_lock_head \<Rightarrow> do {
          _ \<leftarrow> h (c_head s);
          let (ok, l) = lock_n i (c_head s) (c_locks s);
          Some (if ok then upd_c i (\<lambda>t. t\<lparr>c_curr := c_head s, c_pc := C_read\<rparr>) (s\<lparr>c_locks := l\<rparr>) else s) }
      | C_read \<Rightarrow> do {
          n \<leftarrow> h (c_curr t);
          Some (upd_c i (\<lambda>t. t\<lparr>c_next := nl_next n, c_pc := C_lock_next\<rparr>) s) }
      | C_lock_next \<Rightarrow> do {
          _ \<leftarrow> h (c_next t);
          let (ok, l) = lock_n i (c_next t) (c_locks s);
          Some (if ok then upd_c i (c_goto C_next) (s\<lparr>c_locks := l\<rparr>) else s) }
      | C_next \<Rightarrow> do {
          n \<leftarrow> h (c_curr t);
          Some (upd_c i (\<lambda>t. t\<lparr>c_next := nl_next n, c_pc := C_test\<rparr>) s) }
      | C_test \<Rightarrow> do {
          n \<leftarrow> h (c_next t);
          Some (upd_c i (c_goto (if nl_key n < key then C_unlock_curr else C_finish)) s) }
      | C_unlock_curr \<Rightarrow> do {
          _ \<leftarrow> h (c_curr t);
          Some (upd_c i (\<lambda>t. t\<lparr>c_curr := c_next t, c_pc := C_read\<rparr>) (s\<lparr>c_locks := unlock_n (c_curr t) (c_locks s)\<rparr>)) }
      | C_finish \<Rightarrow> do {
          n \<leftarrow> h (c_next t);
          Some (upd_c i (\<lambda>t. c_finish n t (c_op t)) s) }
      | C_insert \<Rightarrow>
          (case c_op t of
             Set_Add k val \<Rightarrow>
               if p = NULL \<or> h p \<noteq> None then None
               else do {
                 n \<leftarrow> h (c_curr t);
                 Some (upd_c i (\<lambda>t. t\<lparr>c_res := 1, c_pc := C_end_curr\<rparr>)
                   (s\<lparr>c_heap := h(p \<mapsto> new_node_l k val (c_next t), c_curr t \<mapsto> n\<lparr>nl_next := p\<rparr>),
                      c_locks := (c_locks s)(p := None)\<rparr>)) }
           | _ \<Rightarrow> None)
      | C_unlink \<Rightarrow> do {
          m \<leftarrow> h (c_next t);
          n \<leftarrow> h (c_curr t);
          Some (upd_c i (c_goto C_victim) (s\<lparr>c_heap := h(c_curr t \<mapsto> n\<lparr>nl_next := nl_next m\<rparr>)\<rparr>)) }
      | C_victim \<Rightarrow> do {
          _ \<leftarrow> h (c_next t);
          Some (upd_c i (c_goto C_free) (s\<lparr>c_locks := unlock_n (c_next t) (c_locks s)\<rparr>)) }
      | C_free \<Rightarrow> do {
          _ \<leftarrow> h (c_next t);
          Some (upd_c i (c_goto C_last) (if gc then s\<lparr>c_heap := h(c_next t := None)\<rparr> else s)) }
      | C_last \<Rightarrow> do {
          _ \<leftarrow> h (c_curr t);
          Some (upd_c i (c_goto C_done) (s\<lparr>c_locks := unlock_n (c_curr t) (c_locks s)\<rparr>)) }
      | C_end_curr \<Rightarrow> do {
          _ \<leftarrow> h (c_curr t);
          Some (upd_c i (c_goto C_end_next) (s\<lparr>c_locks := unlock_n (c_curr t) (c_locks s)\<rparr>)) }
      | C_end_next \<Rightarrow> do {
          _ \<leftarrow> h (c_next t);
          Some (upd_c i (c_goto C_done) (s\<lparr>c_locks := unlock_n (c_next t) (c_locks s)\<rparr>)) }
      | C_done \<Rightarrow> None)"

definition c_call :: "nat \<Rightarrow> set_op \<Rightarrow> c_sys \<Rightarrow> c_sys option" where
  "c_call i x s =
     (if c_pc (c_threads s i) = C_idle \<and> KEY_MIN < op_key x \<and> op_key x < KEY_MAX
      then Some (upd_c i (\<lambda>t. t\<lparr>c_op := x, c_pc := C_lock_head\<rparr>) s) else None)"

definition c_ret :: "nat \<Rightarrow> c_sys \<Rightarrow> (int \<times> c_sys) option" where
  "c_ret i s =
     (if c_pc (c_threads s i) = C_done then Some (c_res (c_threads s i), upd_c i (c_goto C_idle) s) else None)"

definition c_idle :: c_thread where
  "c_idle = \<lparr>c_op = Set_Contains 0, c_pc = C_idle, c_curr = NULL, c_next = NULL, c_res = 0\<rparr>"

definition c_init :: "ptr \<Rightarrow> ptr \<Rightarrow> c_sys" where
  "c_init mn mx = \<lparr>c_heap = set_new_l mn mx, c_locks = (\<lambda>_. None), c_head = mn, c_threads = (\<lambda>_. c_idle)\<rparr>"

section \<open>Invariant\<close>

definition c_holds :: "c_thread \<Rightarrow> ptr set" where
  "c_holds t =
     (if c_pc t \<in> {C_read, C_lock_next, C_free, C_last} then {c_curr t}
      else if c_pc t \<in> {C_next, C_test, C_unlock_curr, C_finish, C_insert, C_unlink, C_victim, C_end_curr} then {c_curr t, c_next t}
      else if c_pc t = C_end_next then {c_next t} else {})"

text \<open>The node a thread has unlinked and not yet freed.\<close>

definition c_victim :: "c_thread \<Rightarrow> ptr option" where
  "c_victim t = (if c_pc t \<in> {C_victim, C_free} then Some (c_next t) else None)"

definition victims_ok :: "heap_l \<Rightarrow> ptr \<Rightarrow> (nat \<Rightarrow> c_thread) \<Rightarrow> bool" where
  "victims_ok h head ts \<longleftrightarrow>
     (\<forall>j p. c_victim (ts j) = Some p \<longrightarrow> h p \<noteq> None \<and> \<not> reach (next_l h) head p \<and> next_l h p = next_l h (c_curr (ts j)) \<and> c_curr (ts j) \<noteq> p) \<and>
     (\<forall>j k p. c_victim (ts j) = Some p \<longrightarrow> c_victim (ts k) = Some p \<longrightarrow> j = k)"

definition c_shared :: "bool \<Rightarrow> c_sys \<Rightarrow> (skey_t \<rightharpoonup> sval_t) \<Rightarrow> bool" where
  "c_shared gc s M \<longleftrightarrow>
     chain_ok (c_heap s) (c_head s) \<and> map_ok (c_heap s) (c_head s) M \<and>
     (\<forall>p n. c_heap s p = Some n \<longrightarrow> \<not> nl_marked n) \<and>
     (\<forall>i p. c_locks s p = Some i \<longleftrightarrow> p \<in> c_holds (c_threads s i)) \<and>
     (\<forall>i. \<forall>p \<in> c_holds (c_threads s i). c_heap s p \<noteq> None \<and> (c_victim (c_threads s i) \<noteq> Some p \<longrightarrow> reach (next_l (c_heap s)) (c_head s) p)) \<and>
     victims_ok (c_heap s) (c_head s) (c_threads s) \<and>
     (gc \<longrightarrow> (\<forall>p. c_heap s p \<noteq> None \<longrightarrow> reach (next_l (c_heap s)) (c_head s) p \<or> (\<exists>j. c_victim (c_threads s j) = Some p)))"

text \<open>Where a thread is in the list.\<close>

definition c_refs :: "heap_l \<Rightarrow> c_thread \<Rightarrow> bool" where
  "c_refs h t \<longleftrightarrow>
     (let k = op_key (c_op t) in
      (c_pc t \<noteq> C_idle \<longrightarrow> KEY_MIN < k \<and> k < KEY_MAX) \<and>
      (c_pc t \<notin> {C_idle, C_lock_head, C_end_next, C_done} \<longrightarrow> (\<exists>n. h (c_curr t) = Some n \<and> nl_key n < k)) \<and>
      (c_pc t \<in> {C_lock_next, C_next, C_test, C_unlock_curr, C_finish, C_insert, C_unlink} \<longrightarrow> next_l h (c_curr t) = Some (c_next t)) \<and>
      (c_pc t = C_unlock_curr \<longrightarrow> (\<exists>n. h (c_next t) = Some n \<and> nl_key n < k)) \<and>
      (c_pc t \<in> {C_finish, C_insert, C_unlink} \<longrightarrow> (\<exists>n. h (c_next t) = Some n \<and> k \<le> nl_key n)) \<and>
      (c_pc t \<in> {C_unlink, C_victim, C_free} \<longrightarrow> (\<exists>n. h (c_next t) = Some n \<and> k = nl_key n \<and> nl_val n = c_res t) \<and> (\<exists>k. c_op t = Set_Remove k)) \<and>
      (c_pc t = C_end_curr \<longrightarrow> c_next t \<noteq> c_curr t) \<and>
      (c_pc t = C_insert \<longrightarrow> key_l h (c_next t) \<noteq> Some k \<and> (\<exists>k v. c_op t = Set_Add k v)))"

definition c_status :: "(skey_t \<rightharpoonup> sval_t) \<Rightarrow> c_thread \<Rightarrow> a_status \<Rightarrow> bool" where
  "c_status M t st \<longleftrightarrow>
     (if c_pc t = C_idle then st = A_idle
      else if c_pc t \<in> {C_victim, C_free, C_last, C_end_curr, C_end_next, C_done} then answered (c_op t) (c_res t) M st
      else under_way (c_op t) M st)"

definition c_own :: "nat \<Rightarrow> c_sys \<Rightarrow> (skey_t \<rightharpoonup> sval_t) \<Rightarrow> a_status \<Rightarrow> bool" where
  "c_own i s M st \<longleftrightarrow> c_refs (c_heap s) (c_threads s i) \<and> c_status M (c_threads s i) st"

definition c_rely :: "nat \<Rightarrow> c_sys \<Rightarrow> c_sys \<Rightarrow> (skey_t \<rightharpoonup> sval_t) \<Rightarrow> bool" where
  "c_rely j s s' M' \<longleftrightarrow>
     c_threads s' j = c_threads s j \<and>
     (\<forall>p. p \<in> c_holds (c_threads s j) \<or> c_victim (c_threads s j) = Some p \<longrightarrow> c_heap s' p = c_heap s p)"

lemma c_own_rely:
  assumes own: "c_own j s M st" and r: "c_rely j s s' M'"
  shows "c_own j s' M' (see M' st)"
proof -
  define t where "t = c_threads s j"
  have h: "c_heap s' p = c_heap s p" if "p \<in> c_holds t \<or> c_victim t = Some p" for p
    using r that unfolding c_rely_def t_def by blast
  have "c_refs (c_heap s) t" "c_status M t st" using own by (simp_all add: c_own_def t_def)
  then have "c_refs (c_heap s') t"
    using h by (cases "c_pc t") (simp_all add: c_refs_def Let_def c_holds_def c_victim_def next_l_def key_l_def)
  moreover have "c_status M' t (see M' st)"
    using \<open>c_status M t st\<close> under_way_Pending answered_see by (auto simp: c_status_def split: if_splits)
  ultimately show ?thesis using r by (simp add: c_own_def c_rely_def t_def)
qed

lemma c_own_see: "c_own j s M st \<Longrightarrow> see M st = st"
  using see_under_way see_answered by (auto simp: c_own_def c_status_def split: if_splits)


lemma c_refsD:
  assumes "c_refs h t"
  shows "c_pc t \<noteq> C_idle \<Longrightarrow> KEY_MIN < op_key (c_op t) \<and> op_key (c_op t) < KEY_MAX"
    "c_pc t \<notin> {C_idle, C_lock_head, C_end_next, C_done} \<Longrightarrow> \<exists>n. h (c_curr t) = Some n \<and> nl_key n < op_key (c_op t)"
    "c_pc t \<in> {C_lock_next, C_next, C_test, C_unlock_curr, C_finish, C_insert, C_unlink} \<Longrightarrow> next_l h (c_curr t) = Some (c_next t)"
    "c_pc t = C_unlock_curr \<Longrightarrow> \<exists>n. h (c_next t) = Some n \<and> nl_key n < op_key (c_op t)"
    "c_pc t \<in> {C_finish, C_insert, C_unlink} \<Longrightarrow> \<exists>n. h (c_next t) = Some n \<and> op_key (c_op t) \<le> nl_key n"
    "c_pc t \<in> {C_unlink, C_victim, C_free} \<Longrightarrow> \<exists>n. h (c_next t) = Some n \<and> op_key (c_op t) = nl_key n \<and> nl_val n = c_res t"
    "c_pc t \<in> {C_unlink, C_victim, C_free} \<Longrightarrow> \<exists>k. c_op t = Set_Remove k" "c_pc t = C_end_curr \<Longrightarrow> c_next t \<noteq> c_curr t"
    "c_pc t = C_insert \<Longrightarrow> key_l h (c_next t) \<noteq> Some (op_key (c_op t)) \<and> (\<exists>k v. c_op t = Set_Add k v)"
  using assms by (simp_all add: c_refs_def Let_def)

section \<open>Steps that leave the nodes alone\<close>

definition c_good :: "bool \<Rightarrow> nat \<Rightarrow> c_sys \<Rightarrow> (skey_t \<rightharpoonup> sval_t) \<Rightarrow> a_status \<Rightarrow> c_sys \<Rightarrow> bool" where
  "c_good gc i s M st s' \<longleftrightarrow>
     (\<exists>M' st'. c_shared gc s' M' \<and> c_own i s' M' st' \<and> (\<forall>j. j \<noteq> i \<longrightarrow> c_rely j s s' M') \<and>
        (M' = M \<and> st' = st \<or> (\<exists>x S r. st = Pending x S \<and> map_step x M = (r, M') \<and> st' = Effected x r)))"

lemma upd_c_sel [simp]:
  "c_heap (upd_c i f s) = c_heap s" "c_locks (upd_c i f s) = c_locks s" "c_head (upd_c i f s) = c_head s"
  "c_threads (upd_c i f s) j = (if j = i then f (c_threads s i) else c_threads s j)"
  by (simp_all add: upd_c_def)

lemma c_sharedD:
  assumes "c_shared gc s M"
  shows "chain_ok (c_heap s) (c_head s)" "map_ok (c_heap s) (c_head s) M" "c_heap s p = Some n \<Longrightarrow> \<not> nl_marked n"
    "c_locks s p = Some i \<longleftrightarrow> p \<in> c_holds (c_threads s i)" "p \<in> c_holds (c_threads s i) \<Longrightarrow> c_heap s p \<noteq> None"
    "p \<in> c_holds (c_threads s i) \<Longrightarrow> c_victim (c_threads s i) \<noteq> Some p \<Longrightarrow> reach (next_l (c_heap s)) (c_head s) p"
    "victims_ok (c_heap s) (c_head s) (c_threads s)"
    "gc \<Longrightarrow> c_heap s p \<noteq> None \<Longrightarrow> reach (next_l (c_heap s)) (c_head s) p \<or> (\<exists>j. c_victim (c_threads s j) = Some p)"
  using assms unfolding c_shared_def by blast+

lemma victims_okD:
  assumes "victims_ok h head ts" "c_victim (ts j) = Some p"
  shows "h p \<noteq> None" "\<not> reach (next_l h) head p" "next_l h p = next_l h (c_curr (ts j))" "c_victim (ts k) = Some p \<Longrightarrow> j = k" "c_curr (ts j) \<noteq> p"
  using assms unfolding victims_ok_def by blast+

lemma c_good_locks:
  assumes e: "s' = upd_c i f (s\<lparr>c_locks := l\<rparr>)" and sh: "c_shared gc s M"
    and l: "locks_by i (c_locks s) l" "\<And>p. l p = Some i \<longleftrightarrow> p \<in> c_holds (f (c_threads s i))"
    and h: "\<And>p. p \<in> c_holds (f (c_threads s i)) \<Longrightarrow> c_heap s p \<noteq> None \<and>
      (c_victim (f (c_threads s i)) \<noteq> Some p \<longrightarrow> reach (next_l (c_heap s)) (c_head s) p)"
    and v: "c_victim (f (c_threads s i)) = c_victim (c_threads s i) \<and>
        (c_victim (c_threads s i) \<noteq> None \<longrightarrow> c_curr (f (c_threads s i)) = c_curr (c_threads s i)) \<or>
      c_victim (f (c_threads s i)) = None \<and> \<not> gc"
    and t: "c_refs (c_heap s) (f (c_threads s i))" "c_status M (f (c_threads s i)) st"
  shows "c_good gc i s M st s'"
proof -
  have lj: "l p = Some j \<longleftrightarrow> c_locks s p = Some j" if "j \<noteq> i" for p j
    by (rule locks_by_other [OF l(1) that])
  have ts: "c_threads s' j = (if j = i then f (c_threads s i) else c_threads s j)" for j by (simp add: e)
  have vic: "victims_ok (c_heap s) (c_head s) (c_threads s')"
  proof -
    have old: "c_victim (c_threads s j) = Some p \<and> c_curr (c_threads s' j) = c_curr (c_threads s j)"
      if "c_victim (c_threads s' j) = Some p" for j p
      using that v ts by (cases "j = i") auto
    show ?thesis
      unfolding victims_ok_def
    proof (intro conjI allI impI)
      fix j p assume "c_victim (c_threads s' j) = Some p"
      note old [OF this]
      then show "c_heap s p \<noteq> None" "\<not> reach (next_l (c_heap s)) (c_head s) p"
        "next_l (c_heap s) p = next_l (c_heap s) (c_curr (c_threads s' j))" "c_curr (c_threads s' j) \<noteq> p"
        using victims_okD [OF c_sharedD(7) [OF sh]] by (blast, blast, metis, metis)
    next
      fix j k p assume "c_victim (c_threads s' j) = Some p" "c_victim (c_threads s' k) = Some p"
      then show "j = k" using old victims_okD(4) [OF c_sharedD(7) [OF sh]] by blast
    qed
  qed
  have "c_shared gc s' M"
    unfolding c_shared_def
  proof (intro conjI allI impI ballI)
    show "c_locks s' p = Some j \<longleftrightarrow> p \<in> c_holds (c_threads s' j)" for j p
      using l(2) lj c_sharedD(4) [OF sh] by (simp add: e)
    show "c_heap s' p \<noteq> None" "c_victim (c_threads s' j) \<noteq> Some p \<Longrightarrow> reach (next_l (c_heap s')) (c_head s') p"
      if "p \<in> c_holds (c_threads s' j)" for j p
      using that h c_sharedD(5,6) [OF sh] by (cases "j = i"; simp add: e)+
    show "reach (next_l (c_heap s')) (c_head s') p \<or> (\<exists>j. c_victim (c_threads s' j) = Some p)"
      if "gc" "c_heap s' p \<noteq> None" for p
    proof -
      have "c_victim (c_threads s' j) = c_victim (c_threads s j)" for j using v that(1) ts by auto
      then show ?thesis using c_sharedD(8) [OF sh that(1)] that(2) by (simp add: e)
    qed
  qed (use c_sharedD(1-3) [OF sh] vic in \<open>simp_all add: e\<close>)
  moreover have "c_own i s' M st" using t by (simp add: e c_own_def)
  moreover have "c_rely j s s' M" if "j \<noteq> i" for j using that by (simp add: e c_rely_def)
  ultimately show ?thesis unfolding c_good_def by blast
qed

lemma c_good_local:
  assumes e: "s' = upd_c i f s" and sh: "c_shared gc s M" and h: "c_holds (f (c_threads s i)) = c_holds (c_threads s i)"
    and v: "c_victim (f (c_threads s i)) = c_victim (c_threads s i)" "c_victim (c_threads s i) \<noteq> None \<Longrightarrow> c_curr (f (c_threads s i)) = c_curr (c_threads s i)"
    and t: "c_refs (c_heap s) (f (c_threads s i))" "c_status M (f (c_threads s i)) st"
  shows "c_good gc i s M st s'"
proof (rule c_good_locks [OF _ sh, of s' i f "c_locks s"])
  show "locks_by i (c_locks s) (c_locks s)" by (simp add: locks_by_def)
  show "c_heap s p \<noteq> None \<and> (c_victim (f (c_threads s i)) \<noteq> Some p \<longrightarrow> reach (next_l (c_heap s)) (c_head s) p)"
    if "p \<in> c_holds (f (c_threads s i))" for p
    using c_sharedD(5,6) [OF sh] that h v(1) by simp
qed (use e c_sharedD(4) [OF sh] h v t in simp_all)


lemma c_ownD:
  assumes "c_own i s M st"
  shows "c_refs (c_heap s) (c_threads s i)" "c_status M (c_threads s i) st"
  using assms by (simp_all add: c_own_def)

text \<open>\<open>LOCK\<close> on a node p of the list, and \<open>UNLOCK\<close>.\<close>

lemma c_good_lock:
  assumes st: "s' = (let (ok, l) = lock_n i p (c_locks s) in if ok then upd_c i f (s\<lparr>c_locks := l\<rparr>) else s)"
    and sh: "c_shared gc s M" and own: "c_own i s M st"
    and p: "c_heap s p \<noteq> None" "reach (next_l (c_heap s)) (c_head s) p"
    and v: "c_victim (c_threads s i) = None" "c_victim (f (c_threads s i)) = None"
    and h: "c_holds (f (c_threads s i)) = insert p (c_holds (c_threads s i))"
    and t: "c_refs (c_heap s) (f (c_threads s i))" "c_status M (f (c_threads s i)) st"
  shows "c_good gc i s M st s'"
proof (cases "c_locks s p")
  case (Some j)
  then have "s' = upd_c i (\<lambda>t. t) s" using st by (simp add: lock_n_def upd_c_def)
  then show ?thesis by (rule c_good_local [OF _ sh]) (use c_ownD [OF own] v in simp_all)
next
  case None
  let ?l = "(c_locks s)(p := Some i)"
  have e: "s' = upd_c i f (s\<lparr>c_locks := ?l\<rparr>)" using st None by (simp add: lock_n_def)
  show ?thesis
  proof (rule c_good_locks [OF e sh])
    show "locks_by i (c_locks s) ?l" using None by (simp add: locks_by_def)
    show "?l q = Some i \<longleftrightarrow> q \<in> c_holds (f (c_threads s i))" for q using h c_sharedD(4) [OF sh] by auto
    show "c_heap s q \<noteq> None \<and> (c_victim (f (c_threads s i)) \<noteq> Some q \<longrightarrow> reach (next_l (c_heap s)) (c_head s) q)"
      if "q \<in> c_holds (f (c_threads s i))" for q
      using c_sharedD(5,6) [OF sh, of q i] p v that h by (cases "q = p") simp_all
  qed (use v t in simp_all)
qed

lemma c_good_unlock:
  assumes st: "s' = upd_c i f (s\<lparr>c_locks := unlock_n p (c_locks s)\<rparr>)" and sh: "c_shared gc s M"
    and p: "p \<in> c_holds (c_threads s i)" and h: "c_holds (f (c_threads s i)) = c_holds (c_threads s i) - {p}"
    and v: "c_victim (f (c_threads s i)) = c_victim (c_threads s i)" "c_victim (c_threads s i) \<noteq> None \<Longrightarrow> c_curr (f (c_threads s i)) = c_curr (c_threads s i)"
    and t: "c_refs (c_heap s) (f (c_threads s i))" "c_status M (f (c_threads s i)) st"
  shows "c_good gc i s M st s'"
proof (rule c_good_locks [OF st sh])
  show "locks_by i (c_locks s) (unlock_n p (c_locks s))"
    using p c_sharedD(4) [OF sh, of p i] by (simp add: locks_by_def unlock_n_def)
  show "unlock_n p (c_locks s) q = Some i \<longleftrightarrow> q \<in> c_holds (f (c_threads s i))" for q
    using h c_sharedD(4) [OF sh] by (auto simp: unlock_n_def)
  show "c_heap s q \<noteq> None \<and> (c_victim (f (c_threads s i)) \<noteq> Some q \<longrightarrow> reach (next_l (c_heap s)) (c_head s) q)"
    if "q \<in> c_holds (f (c_threads s i))" for q
    using c_sharedD(5,6) [OF sh, of q i] that h v(1) by simp
qed (use v t in simp_all)

section \<open>The search\<close>

lemma c_search_step:
  assumes sh: "c_shared gc s M" and own: "c_own i s M st" and st: "c_step gc i p s = Some s'"
    and pc: "c_pc (c_threads s i) \<in> {C_lock_head, C_read, C_lock_next, C_next, C_test, C_unlock_curr}"
  shows "c_good gc i s M st s'"
proof -
  define t where "t = c_threads s i"
  let ?h = "c_heap s" and ?k = "op_key (c_op t)"
  note o = c_ownD [OF own, folded t_def] and c = c_sharedD(1) [OF sh]
  note facts = c_step_def Let_def t_def [symmetric] bind_eq_Some_conv
  note goal = t_def [symmetric] c_holds_def c_victim_def c_status_def c_refs_def Let_def
  have pc': "c_pc t \<noteq> C_idle" using pc by (auto simp: t_def)
  have range: "KEY_MIN < ?k" "?k < KEY_MAX" using o(1) pc' by (simp_all add: c_refs_def Let_def)
  have mapped: "\<exists>m. ?h (nl_next n) = Some m" if "?h q = Some n" "nl_key n < ?k" for q n
    using chain_okD(5) [OF c that(1)] that(2) range(2) by fastforce
  have curr: "\<exists>n. ?h (c_curr t) = Some n \<and> nl_key n < ?k \<and> reach (next_l ?h) (c_head s) (c_curr t)" if "c_pc t \<noteq> C_lock_head"
  proof -
    have "c_pc t \<in> {C_read, C_lock_next, C_next, C_test, C_unlock_curr}" using pc that by (simp add: t_def)
    then have pcs: "c_pc t \<notin> {C_idle, C_lock_head, C_end_next, C_done}" and "c_curr t \<in> c_holds t" "c_victim t \<noteq> Some (c_curr t)"
      by (auto simp: c_holds_def c_victim_def)
    then have "reach (next_l ?h) (c_head s) (c_curr t)" using c_sharedD(6) [OF sh, of "c_curr t" i] by (simp add: t_def)
    then show ?thesis using c_refsD(2) [OF o(1) pcs] by blast
  qed
  show ?thesis
  proof (cases "c_pc t")
    case C_lock_head
    obtain n where n: "?h (c_head s) = Some n" "nl_key n = KEY_MIN" using chain_okD(1) [OF c] by blast
    have e: "s' = (let (ok, l) = lock_n i (c_head s) (c_locks s) in
        if ok then upd_c i (\<lambda>t. t\<lparr>c_curr := c_head s, c_pc := C_read\<rparr>) (s\<lparr>c_locks := l\<rparr>) else s)"
      using st C_lock_head by (auto simp: facts split: prod.splits)
    show ?thesis
      by (rule c_good_lock [OF e sh own]) (use o n range C_lock_head in \<open>simp_all add: goal\<close>)
  next
    case C_read
    obtain n where n: "?h (c_curr t) = Some n" and e: "s' = upd_c i (\<lambda>t. t\<lparr>c_next := nl_next n, c_pc := C_lock_next\<rparr>) s"
      using st C_read by (auto simp: facts)
    show ?thesis
      by (rule c_good_local [OF e sh]) (use o n C_read next_l_Some [of ?h, OF n] in \<open>simp_all add: goal\<close>)
  next
    case C_lock_next
    have e: "s' = (let (ok, l) = lock_n i (c_next t) (c_locks s) in if ok then upd_c i (c_goto C_next) (s\<lparr>c_locks := l\<rparr>) else s)"
      using st C_lock_next by (auto simp: facts split: prod.splits)
    have nx: "next_l ?h (c_curr t) = Some (c_next t)" using o(1) C_lock_next by (simp add: c_refs_def Let_def)
    obtain n where n: "?h (c_curr t) = Some n" "nl_key n < ?k" "reach (next_l ?h) (c_head s) (c_curr t)" using curr C_lock_next by auto
    have "?h (c_next t) \<noteq> None" using mapped [OF n(1,2)] nx n(1) by (auto simp: next_l_def)
    then show ?thesis
      by (intro c_good_lock [OF e sh own]) (use o C_lock_next reach_end [OF n(3) nx] in \<open>auto simp: goal\<close>)
  next
    case C_next
    obtain n where n: "?h (c_curr t) = Some n" and e: "s' = upd_c i (\<lambda>t. t\<lparr>c_next := nl_next n, c_pc := C_test\<rparr>) s"
      using st C_next by (auto simp: facts)
    have "nl_next n = c_next t" using o(1) C_next n by (simp add: c_refs_def Let_def next_l_def)
    then show ?thesis by (intro c_good_local [OF e sh]) (use o C_next in \<open>simp_all add: goal\<close>)
  next
    case C_test
    obtain n where n: "?h (c_next t) = Some n" and e: "s' = upd_c i (c_goto (if nl_key n < ?k then C_unlock_curr else C_finish)) s"
      using st C_test by (auto simp: facts)
    show ?thesis by (rule c_good_local [OF e sh]) (use o n C_test in \<open>simp_all add: goal\<close>)
  next
    case C_unlock_curr
    obtain n m where n: "?h (c_curr t) = Some n" and m: "?h (c_next t) = Some m" "nl_key m < ?k"
      and e: "s' = upd_c i (\<lambda>t. t\<lparr>c_curr := c_next t, c_pc := C_read\<rparr>) (s\<lparr>c_locks := unlock_n (c_curr t) (c_locks s)\<rparr>)"
      using st C_unlock_curr o(1) by (auto simp: facts c_refs_def)
    have "c_next t \<noteq> c_curr t" using chain_okD(5) [OF c n] o(1) C_unlock_curr n range by (force simp: c_refs_def Let_def next_l_def)
    then show ?thesis
      by (intro c_good_unlock [OF e sh]) (use o m C_unlock_curr in \<open>auto simp: goal\<close>)
  qed (use pc in \<open>simp_all add: t_def\<close>)
qed

section \<open>Steps that change the nodes\<close>

text \<open>A thread writes to a node whose lock it holds, adds one, or frees its victim; the others do not notice.\<close>

lemma c_others_apart:
  assumes sh: "c_shared gc s M" and j: "j \<noteq> i" "a \<in> c_holds (c_threads s j) \<or> c_victim (c_threads s j) = Some a"
  shows "c_heap s a \<noteq> None" "c_victim (c_threads s i) \<noteq> Some a" "a \<in> c_holds (c_threads s i) \<Longrightarrow> c_victim (c_threads s i) = Some a"
proof -
  note v = victims_okD [OF c_sharedD(7) [OF sh]]
  have locks: "c_locks s a = Some j \<longleftrightarrow> a \<in> c_holds (c_threads s j)" for j by (rule c_sharedD(4) [OF sh])
  show "c_heap s a \<noteq> None" using j(2) c_sharedD(5) [OF sh, of a j] v(1) [of j a] by blast
  show n: "c_victim (c_threads s i) \<noteq> Some a"
  proof
    assume i: "c_victim (c_threads s i) = Some a"
    have "c_victim (c_threads s j) \<noteq> Some a" using v(4) [OF i, of j] j(1) by blast
    then show False using j(2) c_sharedD(6) [OF sh, of a j] v(2) [OF i] by blast
  qed
  assume a: "a \<in> c_holds (c_threads s i)"
  show "c_victim (c_threads s i) = Some a"
  proof (rule ccontr)
    assume "c_victim (c_threads s i) \<noteq> Some a"
    then have "reach (next_l (c_heap s)) (c_head s) a" by (rule c_sharedD(6) [OF sh a])
    then have "c_victim (c_threads s j) \<noteq> Some a" using v(2) [of j a] by blast
    then show False using j locks [of i] locks [of j] a by simp
  qed
qed

lemma c_good_heap:
  assumes e: "s' = upd_c i f (s\<lparr>c_heap := h'\<rparr>)" and sh: "c_shared gc s M"
    and c: "chain_ok h' (c_head s)" "map_ok h' (c_head s) M'" "\<And>p n. h' p = Some n \<Longrightarrow> \<not> nl_marked n"
    and same: "\<And>a. h' a \<noteq> c_heap s a \<Longrightarrow> a \<in> c_holds (c_threads s i) \<or> c_heap s a = None \<or> c_victim (c_threads s i) = Some a"
    and old: "\<And>z. reach (next_l h') (c_head s) z \<Longrightarrow> c_heap s z \<noteq> None \<Longrightarrow> reach (next_l (c_heap s)) (c_head s) z"
    and new: "\<And>z. reach (next_l (c_heap s)) (c_head s) z \<Longrightarrow> c_victim (f (c_threads s i)) \<noteq> Some z \<Longrightarrow> reach (next_l h') (c_head s) z"
    and holds: "c_holds (f (c_threads s i)) = c_holds (c_threads s i)"
      "\<And>a. a \<in> c_holds (c_threads s i) \<Longrightarrow> h' a \<noteq> None" "\<And>a. a \<in> c_holds (c_threads s i) \<Longrightarrow> c_victim (c_threads s i) \<noteq> Some a"
    and vic: "\<And>z. c_victim (f (c_threads s i)) = Some z \<Longrightarrow> z \<in> c_holds (c_threads s i) \<and> reach (next_l (c_heap s)) (c_head s) z \<and>
      \<not> reach (next_l h') (c_head s) z \<and> next_l h' z = next_l h' (c_curr (f (c_threads s i))) \<and>
      c_curr (f (c_threads s i)) \<noteq> z"
    and all: "\<And>a. gc \<Longrightarrow> h' a \<noteq> None \<Longrightarrow>
      c_heap s a = None \<and> reach (next_l h') (c_head s) a \<or> c_heap s a \<noteq> None \<and> c_victim (c_threads s i) \<noteq> Some a"
    and t: "c_refs h' (f (c_threads s i))" "c_status M' (f (c_threads s i)) st'"
    and m: "M' = M \<and> st' = st \<or> (\<exists>x S r. st = Pending x S \<and> map_step x M = (r, M') \<and> st' = Effected x r)"
  shows "c_good gc i s M st s'"
proof -
  have ts: "c_threads s' j = (if j = i then f (c_threads s i) else c_threads s j)" for j by (simp add: e)
  note v = victims_okD [OF c_sharedD(7) [OF sh]]
  have apart: "h' a = c_heap s a" if "j \<noteq> i" "a \<in> c_holds (c_threads s j) \<or> c_victim (c_threads s j) = Some a" for j a
  proof (rule ccontr)
    assume "h' a \<noteq> c_heap s a"
    from same [OF this] c_others_apart [OF sh that] show False by blast
  qed
  have curr: "c_curr (c_threads s j) \<in> c_holds (c_threads s j)" if "c_victim (c_threads s j) = Some a" for j a
    using that by (auto simp: c_victim_def c_holds_def split: if_splits)
  have gone: "\<not> reach (next_l h') (c_head s) a \<and> next_l h' a = next_l h' (c_curr (c_threads s j)) \<and> h' a \<noteq> None"
    if j: "j \<noteq> i" and a: "c_victim (c_threads s j) = Some a" for j a
  proof -
    have "h' a = c_heap s a" "h' (c_curr (c_threads s j)) = c_heap s (c_curr (c_threads s j))"
      using apart [OF j] a curr [OF a] by blast+
    then show ?thesis using v(1-3) [OF a] old [of a] by (auto simp: next_l_def)
  qed
  have vic': "victims_ok h' (c_head s) (c_threads s')"
    unfolding victims_ok_def
  proof (intro conjI allI impI)
    fix j a assume a: "c_victim (c_threads s' j) = Some a"
    show "h' a \<noteq> None" "\<not> reach (next_l h') (c_head s) a" "next_l h' a = next_l h' (c_curr (c_threads s' j))" "c_curr (c_threads s' j) \<noteq> a"
      using vic [of a] holds(2) [of a] gone [of j a] v(5) [of j a] a ts [of j] by (cases "j = i"; simp)+
  next
    fix j k a assume a: "c_victim (c_threads s' j) = Some a" "c_victim (c_threads s' k) = Some a"
    have no: False if "c_victim (f (c_threads s i)) = Some a" "c_victim (c_threads s l) = Some a" for l
      using vic [OF that(1)] v(2) [OF that(2)] by blast
    show "j = k" using a ts [of j] ts [of k] no [of j] no [of k] v(4) [of j a k] by (cases "j = i"; cases "k = i") simp_all
  qed
  have "c_shared gc s' M'"
    unfolding c_shared_def
  proof (intro conjI allI impI ballI)
    show "c_locks s' p = Some j \<longleftrightarrow> p \<in> c_holds (c_threads s' j)" for j p
      using c_sharedD(4) [OF sh, of p j] holds(1) by (cases "j = i") (simp_all add: e)
    show "c_heap s' p \<noteq> None" if "p \<in> c_holds (c_threads s' j)" for j p
      using that holds(1,2) apart [of j p] c_sharedD(5) [OF sh, of p j] by (cases "j = i") (simp_all add: e)
    show "reach (next_l (c_heap s')) (c_head s') p" if p: "p \<in> c_holds (c_threads s' j)" "c_victim (c_threads s' j) \<noteq> Some p" for j p
    proof (cases "j = i")
      case True
      then have "p \<in> c_holds (c_threads s i)" "c_victim (f (c_threads s i)) \<noteq> Some p" using p holds(1) ts by simp_all
      then show ?thesis using new [of p] c_sharedD(6) [OF sh, of p i] holds(3) by (simp add: e)
    next
      case False
      then have h: "p \<in> c_holds (c_threads s j)" "c_victim (c_threads s j) \<noteq> Some p" using p ts by simp_all
      have "c_victim (f (c_threads s i)) \<noteq> Some p"
      proof
        assume z: "c_victim (f (c_threads s i)) = Some p"
        then have "p \<in> c_holds (c_threads s i)" using vic by blast
        then show False using h(1) c_sharedD(4) [OF sh, of p i] c_sharedD(4) [OF sh, of p j] False by simp
      qed
      then show ?thesis using new [of p] c_sharedD(6) [OF sh h] by (simp add: e)
    qed
    show "reach (next_l (c_heap s')) (c_head s') p \<or> (\<exists>j. c_victim (c_threads s' j) = Some p)"
      if g: "gc" and p: "c_heap s' p \<noteq> None" for p
    proof -
      have "h' p \<noteq> None" using p by (simp add: e)
      from all [OF g this] show ?thesis
      proof
        assume a: "c_heap s p \<noteq> None \<and> c_victim (c_threads s i) \<noteq> Some p"
        then have "reach (next_l (c_heap s)) (c_head s) p \<or> (\<exists>j. j \<noteq> i \<and> c_victim (c_threads s j) = Some p)"
          using c_sharedD(8) [OF sh g, of p] by metis
        then show ?thesis
        proof
          assume "reach (next_l (c_heap s)) (c_head s) p"
          then show ?thesis using new [of p] ts [of i] by (auto simp: e)
        next
          assume "\<exists>j. j \<noteq> i \<and> c_victim (c_threads s j) = Some p"
          then show ?thesis using ts by metis
        qed
      qed (simp add: e)
    qed
  qed (use c vic' in \<open>simp_all add: e\<close>)
  moreover have "c_own i s' M' st'" using t by (simp add: e c_own_def)
  moreover have "c_rely j s s' M'" if "j \<noteq> i" for j using that apart [OF that] by (simp add: e c_rely_def)
  ultimately show ?thesis using m unfolding c_good_def by blast
qed


lemma c_curr_facts:
  assumes sh: "c_shared gc s M" and own: "c_own i s M st" and pc: "c_pc (c_threads s i) \<in> {C_finish, C_insert, C_unlink}"
  obtains n m where "c_heap s (c_curr (c_threads s i)) = Some n" "c_heap s (c_next (c_threads s i)) = Some m"
    "nl_next n = c_next (c_threads s i)" "nl_key n < op_key (c_op (c_threads s i))" "op_key (c_op (c_threads s i)) \<le> nl_key m"
    "reach (next_l (c_heap s)) (c_head s) (c_curr (c_threads s i))" "reach (next_l (c_heap s)) (c_head s) (c_next (c_threads s i))"
    "c_curr (c_threads s i) \<noteq> c_next (c_threads s i)" "c_holds (c_threads s i) = {c_curr (c_threads s i), c_next (c_threads s i)}"
    "c_victim (c_threads s i) = None" "KEY_MIN < op_key (c_op (c_threads s i))" "op_key (c_op (c_threads s i)) < KEY_MAX"
    "under_way (c_op (c_threads s i)) M st"
proof -
  define t where "t = c_threads s i"
  note own' = c_ownD [OF own, folded t_def]
  note r = c_refsD [OF own'(1)]
  have pc': "c_pc t \<in> {C_finish, C_insert, C_unlink}" using pc by (simp add: t_def)
  then have pcs: "c_pc t \<noteq> C_idle" "c_pc t \<notin> {C_idle, C_lock_head, C_end_next, C_done}"
    "c_pc t \<in> {C_lock_next, C_next, C_test, C_unlock_curr, C_finish, C_insert, C_unlink}" by auto
  have hold: "c_holds t = {c_curr t, c_next t}" "c_victim t = None" using pc' by (auto simp: c_holds_def c_victim_def)
  have w: "under_way (c_op t) M st" using own'(2) pc' by (auto simp: c_status_def)
  obtain n where n: "c_heap s (c_curr t) = Some n" "nl_key n < op_key (c_op t)" using r(2) [OF pcs(2)] by blast
  obtain m where m: "c_heap s (c_next t) = Some m" "op_key (c_op t) \<le> nl_key m" using r(5) [OF pc'] by blast
  have nx: "nl_next n = c_next t" using r(3) [OF pcs(3)] n(1) by (simp add: next_l_def)
  have "reach (next_l (c_heap s)) (c_head s) p" if "p \<in> c_holds t" for p
    using c_sharedD(6) [OF sh, of p i] that hold(2) by (simp add: t_def)
  then show ?thesis
    using that [folded t_def, of n m] n m nx hold w r(1) [OF pcs(1)] by fastforce
qed

text \<open>\<open>key == next->key\<close>.\<close>

lemma c_finish_step:
  assumes sh: "c_shared gc s M" and own: "c_own i s M st" and st: "c_step gc i p s = Some s'"
    and pc: "c_pc (c_threads s i) = C_finish"
  shows "c_good gc i s M st s'"
proof -
  define t where "t = c_threads s i"
  have pc': "c_pc t = C_finish" using pc by (simp add: t_def)
  have "c_pc (c_threads s i) \<in> {C_finish, C_insert, C_unlink}" using pc by simp
  from c_curr_facts [OF sh own this, folded t_def] obtain n m where
    n: "c_heap s (c_curr t) = Some n" and m: "c_heap s (c_next t) = Some m" and nn: "nl_next n = c_next t" and
    k: "nl_key n < op_key (c_op t)" "op_key (c_op t) \<le> nl_key m" and rch: "reach (next_l (c_heap s)) (c_head s) (c_curr t)"
    "reach (next_l (c_heap s)) (c_head s) (c_next t)" and other: "c_curr t \<noteq> c_next t" and hold: "c_holds t = {c_curr t, c_next t}"
    "c_victim t = None" and range: "KEY_MIN < op_key (c_op t)" "op_key (c_op t) < KEY_MAX" and w: "under_way (c_op t) M st" by blast
  have e: "s' = upd_c i (\<lambda>u. c_finish m u (c_op t)) s"
    using st pc' m by (simp add: c_step_def Let_def t_def [symmetric] upd_c_def)
  note c = c_sharedD(1) [OF sh] and M = c_sharedD(2) [OF sh]
  have here: "M (op_key (c_op t)) = Some (nl_val m)" if "op_key (c_op t) = nl_key m"
  proof -
    have "live (c_heap s) (c_head s) (c_next t)" using rch(2) m c_sharedD(3) [OF sh m] by (simp add: live_def)
    from map_ok_live [OF M this m that [symmetric] range] show ?thesis .
  qed
  have gap: "M (op_key (c_op t)) = None" if "op_key (c_op t) \<noteq> nl_key m"
    using map_ok_gap [OF c M rch(1) n _ k(1), of m] m nn k(2) that by simp
  obtain S where S: "st = Pending (c_op t) S" "M \<in> S" using w by (auto simp: under_way_def)
  have ans: "answered (c_op t) r M st" if "map_step (c_op t) M = (r, M)" for r using S that by (auto simp: answered_def)
  have upd: "M(op_key (c_op t) := None) = M" if "op_key (c_op t) \<noteq> nl_key m" using gap [OF that] by (simp add: fun_upd_idem)
  show ?thesis
  proof (rule c_good_local [OF e sh]; (unfold t_def [symmetric])?)
    show "c_holds (c_finish m t (c_op t)) = c_holds t" "c_victim (c_finish m t (c_op t)) = c_victim t"
      using hold pc' by (cases "c_op t"; simp add: c_holds_def c_victim_def)+
    show "c_victim t \<noteq> None \<Longrightarrow> c_curr (c_finish m t (c_op t)) = c_curr t" using hold(2) by simp
    show "c_refs (c_heap s) (c_finish m t (c_op t))"
    proof (cases "c_op t")
      case (Set_Contains key) then show ?thesis using n m nn k range other by (simp add: c_refs_def)
    next
      case (Set_Add key val) then show ?thesis using n m nn k range other by (auto simp: c_refs_def key_l_def next_l_def)
    next
      case (Set_Remove key) then show ?thesis using n m nn k range other by (simp add: c_refs_def next_l_def)
    qed
    show "c_status M (c_finish m t (c_op t)) st"
    proof (cases "c_op t")
      case (Set_Contains key)
      then show ?thesis using ans here gap by (cases "key = nl_key m") (simp_all add: c_status_def answer_def)
    next
      case (Set_Add key val)
      then show ?thesis using ans here gap w by (cases "key = nl_key m") (simp_all add: c_status_def)
    next
      case (Set_Remove key)
      then show ?thesis using ans gap upd w by (cases "key = nl_key m") (simp_all add: c_status_def answer_def)
    qed
  qed
qed


lemma c_insert_step:
  assumes sh: "c_shared gc s M" and own: "c_own i s M st" and st: "c_step gc i p s = Some s'"
    and pc: "c_pc (c_threads s i) = C_insert"
  shows "c_good gc i s M st s'"
proof -
  define t where "t = c_threads s i"
  let ?h = "c_heap s"
  have pc': "c_pc t = C_insert" using pc by (simp add: t_def)
  have "c_pc (c_threads s i) \<in> {C_finish, C_insert, C_unlink}" using pc by simp
  from c_curr_facts [OF sh own this, folded t_def] obtain n m where
    n: "?h (c_curr t) = Some n" and m: "?h (c_next t) = Some m" and nn: "nl_next n = c_next t" and
    k: "nl_key n < op_key (c_op t)" "op_key (c_op t) \<le> nl_key m" and rch: "reach (next_l ?h) (c_head s) (c_curr t)" and
    other: "c_curr t \<noteq> c_next t" and hold: "c_holds t = {c_curr t, c_next t}" "c_victim t = None" and
    range: "KEY_MIN < op_key (c_op t)" "op_key (c_op t) < KEY_MAX" and w: "under_way (c_op t) M st" by blast
  note c = c_sharedD(1) [OF sh] and M = c_sharedD(2) [OF sh]
  obtain k v where op: "c_op t = Set_Add k v" and "key_l ?h (c_next t) \<noteq> Some k"
    using c_refsD(9) [OF c_ownD(1) [OF own, folded t_def] pc'] by auto
  then have keys: "nl_key n < k" "k < nl_key m" using k m by (auto simp: key_l_def)
  let ?h' = "?h(p \<mapsto> new_node_l k v (c_next t), c_curr t \<mapsto> n\<lparr>nl_next := p\<rparr>)"
  define f :: "c_thread \<Rightarrow> c_thread" where "f = (\<lambda>t. t\<lparr>c_res := 1, c_pc := C_end_curr\<rparr>)"
  have q: "?h p = None" "p \<noteq> NULL" and e0: "s' = upd_c i f (s\<lparr>c_heap := ?h', c_locks := (c_locks s)(p := None)\<rparr>)"
    using st pc' op n by (auto simp: c_step_def Let_def t_def [symmetric] f_def split: if_splits)
  have "c_locks s p = None"
  proof (rule ccontr)
    assume "c_locks s p \<noteq> None"
    then obtain j where "c_locks s p = Some j" by blast
    then have "p \<in> c_holds (c_threads s j)" using c_sharedD(4) [OF sh, of p j] by simp
    then show False using c_sharedD(5) [OF sh] q(1) by blast
  qed
  then have "(c_locks s)(p := None) = c_locks s" by (simp add: fun_upd_idem)
  then have e: "s' = upd_c i f (s\<lparr>c_heap := ?h'\<rparr>)" using e0 by simp
  have cp: "c_curr t \<noteq> p" using n q by auto
  have nl: "next_l ?h' = (next_l ?h)(p := Some (nl_next n), c_curr t := Some p)" by (simp add: new_node_l_def nn)
  note ins = insert_chain [OF c n _ q keys, of v] insert_map [OF c M n rch _ q keys, of v]
  have live: "live ?h' (c_head s) z \<longleftrightarrow> z = p \<or> live ?h (c_head s) z" for z
    using insert_live [OF c n rch q, of k v z] by (simp add: nn)
  have um: "\<not> nl_marked x" if "?h' z = Some x" for z x
    using that c_sharedD(3) [OF sh] n by (auto simp: new_node_l_def split: if_splits)
  have to: "reach (next_l ?h') (c_head s) z" if "reach (next_l ?h) (c_head s) z" for z
    using insert_reach [OF n q(1) cp that, of k v] by (simp add: nn)
  have "reach (next_l ?h') (c_head s) p" by (rule reach_end [OF to [OF rch]]) (simp add: next_l_def)
  note at = this
  show ?thesis
  proof (rule c_good_heap [OF e sh]; (unfold t_def [symmetric])?)
    show "chain_ok ?h' (c_head s)" "map_ok ?h' (c_head s) (M(k \<mapsto> v))" using ins m by (simp_all add: nn)
    show "\<And>z x. ?h' z = Some x \<Longrightarrow> \<not> nl_marked x" by (rule um)
    show "a \<in> c_holds t \<or> ?h a = None \<or> c_victim t = Some a" if "?h' a \<noteq> ?h a" for a
      using that q hold by (auto split: if_splits)
    show "reach (next_l ?h) (c_head s) z" if z: "reach (next_l ?h') (c_head s) z" "?h z \<noteq> None" for z
    proof -
      obtain y where y: "?h z = Some y" using z(2) by blast
      obtain x where "?h' z = Some x" using y by (cases "z = p"; cases "z = c_curr t") auto
      then have "live ?h' (c_head s) z" using z(1) um by (auto simp: live_def)
      then show ?thesis using live [of z] y q by (auto simp: live_def)
    qed
    show "reach (next_l ?h') (c_head s) z" if "reach (next_l ?h) (c_head s) z" for z by (rule to [OF that])
    show "c_holds (f t) = c_holds t" using hold by (simp add: f_def c_holds_def)
    show "?h' a \<noteq> None" if "a \<in> c_holds t" for a using that hold m by auto
    show "c_victim t \<noteq> Some a" for a using hold by simp
    show "a \<in> c_holds t \<and> reach (next_l ?h) (c_head s) a \<and> \<not> reach (next_l ?h') (c_head s) a \<and> next_l ?h' a = next_l ?h' (c_curr (f t)) \<and>
      c_curr (f t) \<noteq> a"
      if "c_victim (f t) = Some a" for a
      using that by (simp add: f_def c_victim_def)
    show "?h a = None \<and> reach (next_l ?h') (c_head s) a \<or> ?h a \<noteq> None \<and> c_victim t \<noteq> Some a" if "?h' a \<noteq> None" for a
      using that hold at n by (cases "a = p"; cases "a = c_curr t") auto
    show "c_refs ?h' (f t)" using n k op range other by (simp add: f_def c_refs_def)
    show "c_status (M(k \<mapsto> v)) (f t) (Effected (Set_Add k v) 1)" by (simp add: f_def c_status_def answered_def op)
    have "M k = None" using map_ok_gap [OF c M rch n _ keys(1), of m] m nn keys by simp
    then have "map_step (Set_Add k v) M = (1, M(k \<mapsto> v))" by simp
    then show "M(k \<mapsto> v) = M \<and> Effected (Set_Add k v) 1 = st \<or>
        (\<exists>x S r. st = Pending x S \<and> map_step x M = (r, M(k \<mapsto> v)) \<and> Effected (Set_Add k v) 1 = Effected x r)"
      using under_way_Pending [OF w] op by auto
  qed
qed

lemma c_unlink_step:
  assumes sh: "c_shared gc s M" and own: "c_own i s M st" and st: "c_step gc i p s = Some s'"
    and pc: "c_pc (c_threads s i) = C_unlink"
  shows "c_good gc i s M st s'"
proof -
  define t where "t = c_threads s i"
  let ?h = "c_heap s" and ?r = "c_res (c_threads s i)"
  have pc': "c_pc t = C_unlink" using pc by (simp add: t_def)
  have "c_pc (c_threads s i) \<in> {C_finish, C_insert, C_unlink}" using pc by simp
  from c_curr_facts [OF sh own this, folded t_def] obtain n m where
    n: "?h (c_curr t) = Some n" and m: "?h (c_next t) = Some m" and nn: "nl_next n = c_next t" and
    k: "nl_key n < op_key (c_op t)" "op_key (c_op t) \<le> nl_key m" and rch: "reach (next_l ?h) (c_head s) (c_curr t)"
    "reach (next_l ?h) (c_head s) (c_next t)" and
    other: "c_curr t \<noteq> c_next t" and hold: "c_holds t = {c_curr t, c_next t}" "c_victim t = None" and
    range: "KEY_MIN < op_key (c_op t)" "op_key (c_op t) < KEY_MAX" and w: "under_way (c_op t) M st" by blast
  note c = c_sharedD(1) [OF sh] and M = c_sharedD(2) [OF sh]
  have pcs: "c_pc t \<in> {C_unlink, C_victim, C_free}" using pc' by simp
  note cr = c_refsD(6,7) [OF c_ownD(1) [OF own, folded t_def] pcs]
  obtain k where op: "c_op t = Set_Remove k" using cr(2) by blast
  then have km: "nl_key m = k" "nl_val m = c_res t" using cr(1) m by auto
  let ?h' = "?h(c_curr t \<mapsto> n\<lparr>nl_next := nl_next m\<rparr>)"
  have e: "s' = upd_c i (c_goto C_victim) (s\<lparr>c_heap := ?h'\<rparr>)"
    using st pc' n m by (simp add: c_step_def Let_def t_def [symmetric])
  have d: "?h (nl_next n) = Some m" "nl_key m < KEY_MAX" using m nn km range op by simp_all
  have um: "\<not> nl_marked x" if "?h' z = Some x" for z x
    using that c_sharedD(3) [OF sh] n by (auto split: if_splits)
  note gone = remove_unreachable [OF c n rch(1) d, unfolded nn]
  show ?thesis
  proof (rule c_good_heap [OF e sh]; (unfold t_def [symmetric])?)
    show "chain_ok ?h' (c_head s)" by (rule skip_chain [OF c n d])
    show "map_ok ?h' (c_head s) (M(k := None))" by (rule remove_map [OF c M n rch(1) d c_sharedD(3) [OF sh m] km(1)])
    show "\<And>z x. ?h' z = Some x \<Longrightarrow> \<not> nl_marked x" by (rule um)
    show "a \<in> c_holds t \<or> ?h a = None \<or> c_victim t = Some a" if "?h' a \<noteq> ?h a" for a
      using that hold by (auto split: if_splits)
    show "reach (next_l ?h) (c_head s) z" if "reach (next_l ?h') (c_head s) z" for z
      by (rule skip_reach(2) [of ?h "c_curr t" n m, OF n d(1) that])
    show "reach (next_l ?h') (c_head s) z" if "reach (next_l ?h) (c_head s) z" "c_victim (c_goto C_victim t) \<noteq> Some z" for z
      by (rule skip_reach(1) [of ?h "c_curr t" n m, OF n d(1) that(1)]) (use that(2) nn in \<open>simp add: c_victim_def\<close>)
    show "c_holds (c_goto C_victim t) = c_holds t" using hold by (simp add: c_holds_def)
    show "?h' a \<noteq> None" if "a \<in> c_holds t" for a using that hold m by auto
    show "c_victim t \<noteq> Some a" for a using hold by simp
    show "a \<in> c_holds t \<and> reach (next_l ?h) (c_head s) a \<and> \<not> reach (next_l ?h') (c_head s) a \<and> next_l ?h' a = next_l ?h' (c_curr (c_goto C_victim t)) \<and>
      c_curr (c_goto C_victim t) \<noteq> a"
      if "c_victim (c_goto C_victim t) = Some a" for a
    proof -
      have "a = c_next t" using that by (simp add: c_victim_def)
      then show ?thesis using hold rch(2) gone m other by (simp add: next_l_Some [of ?h, OF m])
    qed
    show "?h a = None \<and> reach (next_l ?h') (c_head s) a \<or> ?h a \<noteq> None \<and> c_victim t \<noteq> Some a" if "?h' a \<noteq> None" for a
      using that hold n by (cases "a = c_curr t") auto
    show "c_refs ?h' (c_goto C_victim t)" using n k op range other m km by (simp add: c_refs_def)
    show "c_status (M(k := None)) (c_goto C_victim t) (Effected (Set_Remove k) (c_res t))" by (simp add: c_status_def answered_def op)
    have "live ?h (c_head s) (c_next t)" using rch(2) m c_sharedD(3) [OF sh m] by (simp add: live_def)
    then have "M k = Some (c_res t)" using map_ok_live [OF M _ m km(1)] range op km(2) by simp
    then have "map_step (Set_Remove k) M = (c_res t, M(k := None))" by (simp add: answer_def)
    then show "M(k := None) = M \<and> Effected (Set_Remove k) (c_res t) = st \<or>
        (\<exists>x S r. st = Pending x S \<and> map_step x M = (r, M(k := None)) \<and> Effected (Set_Remove k) (c_res t) = Effected x r)"
      using under_way_Pending [OF w] op by auto
  qed
qed


section \<open>The ends of the operations\<close>

lemma c_unlock_step:
  assumes sh: "c_shared gc s M" and own: "c_own i s M st" and st: "c_step gc i p s = Some s'"
    and pc: "c_pc (c_threads s i) \<in> {C_victim, C_last, C_end_curr, C_end_next}"
  shows "c_good gc i s M st s'"
proof -
  define t where "t = c_threads s i"
  note o = c_ownD [OF own, folded t_def]
  note facts = c_step_def Let_def t_def [symmetric] bind_eq_Some_conv
  note goal = t_def [symmetric] c_holds_def c_victim_def c_status_def c_refs_def Let_def
  show ?thesis
  proof (cases "c_pc t")
    case C_victim
    have e: "s' = upd_c i (c_goto C_free) (s\<lparr>c_locks := unlock_n (c_next t) (c_locks s)\<rparr>)" using st C_victim by (auto simp: facts)
    have "c_victim (c_threads s i) = Some (c_next t)" using C_victim by (simp add: c_victim_def t_def)
    then have "c_curr t \<noteq> c_next t" unfolding t_def by (rule victims_okD(5) [OF c_sharedD(7) [OF sh]])
    then show ?thesis by (intro c_good_unlock [OF e sh]) (use o C_victim in \<open>auto simp: goal\<close>)
  next
    case C_last
    have e: "s' = upd_c i (c_goto C_done) (s\<lparr>c_locks := unlock_n (c_curr t) (c_locks s)\<rparr>)" using st C_last by (auto simp: facts)
    show ?thesis by (rule c_good_unlock [OF e sh]) (use o C_last in \<open>simp_all add: goal\<close>)
  next
    case C_end_curr
    have e: "s' = upd_c i (c_goto C_end_next) (s\<lparr>c_locks := unlock_n (c_curr t) (c_locks s)\<rparr>)" using st C_end_curr by (auto simp: facts)
    have "c_next t \<noteq> c_curr t" by (rule c_refsD(8) [OF o(1) C_end_curr])
    then show ?thesis by (intro c_good_unlock [OF e sh]) (use o C_end_curr in \<open>auto simp: goal\<close>)
  next
    case C_end_next
    have e: "s' = upd_c i (c_goto C_done) (s\<lparr>c_locks := unlock_n (c_next t) (c_locks s)\<rparr>)" using st C_end_next by (auto simp: facts)
    show ?thesis by (rule c_good_unlock [OF e sh]) (use o C_end_next in \<open>simp_all add: goal\<close>)
  qed (use pc in \<open>simp_all add: t_def\<close>)
qed

text \<open>\<open>node_delete_l(next)\<close>: with GC no node points to it.\<close>

lemma c_victim_apart:
  assumes sh: "c_shared True s M" and v: "c_victim (c_threads s i) = Some z" and a: "a \<noteq> z"
  shows "next_l (c_heap s) a \<noteq> Some z"
proof
  assume nx: "next_l (c_heap s) a = Some z"
  note vo = victims_okD [OF c_sharedD(7) [OF sh]]
  have no: "next_l (c_heap s) b \<noteq> Some z" if "reach (next_l (c_heap s)) (c_head s) b" for b
    using reach_end [OF that, of z] vo(2) [OF v] by blast
  have "c_heap s a \<noteq> None" using nx by (auto simp: next_l_def)
  then have "\<exists>j. c_victim (c_threads s j) = Some a" using c_sharedD(8) [OF sh TrueI, of a] no [of a] nx by blast
  then obtain j where j: "c_victim (c_threads s j) = Some a" by blast
  have h: "c_curr (c_threads s j) \<in> c_holds (c_threads s j)" using j by (auto simp: c_victim_def c_holds_def split: if_splits)
  have "c_victim (c_threads s j) \<noteq> Some (c_curr (c_threads s j))" using vo(5) [OF j] j by simp
  from no [OF c_sharedD(6) [OF sh h this]] show False using vo(3) [OF j] nx by simp
qed

lemma c_free_step:
  assumes sh: "c_shared gc s M" and own: "c_own i s M st" and st: "c_step gc i p s = Some s'"
    and pc: "c_pc (c_threads s i) = C_free"
  shows "c_good gc i s M st s'"
proof -
  define t where "t = c_threads s i"
  let ?h = "c_heap s"
  have pc': "c_pc t = C_free" using pc by (simp add: t_def)
  note o = c_ownD [OF own, folded t_def]
  have vic: "c_victim (c_threads s i) = Some (c_next t)" using pc' by (simp add: c_victim_def t_def)
  note vo = victims_okD [OF c_sharedD(7) [OF sh] vic]
  have hold: "c_holds t = {c_curr t}" using pc' by (simp add: c_holds_def)
  have ne: "c_curr t \<noteq> c_next t" using vo(5) by (simp add: t_def)
  have ans: "answered (c_op t) (c_res t) M st" using o(2) pc' by (simp add: c_status_def)
  have refs: "c_refs h (c_goto C_last t)" if "\<exists>n. h (c_curr t) = Some n \<and> nl_key n < op_key (c_op t)" for h
    using that c_refsD(1) [OF o(1)] pc' by (simp add: c_refs_def)
  have curr: "\<exists>n. ?h (c_curr t) = Some n \<and> nl_key n < op_key (c_op t)" using c_refsD(2) [OF o(1)] pc' by simp
  show ?thesis
  proof (cases gc)
    case False
    have e: "s' = upd_c i (c_goto C_last) (s\<lparr>c_locks := c_locks s\<rparr>)"
      using st pc' False by (auto simp: c_step_def Let_def t_def [symmetric] bind_eq_Some_conv)
    show ?thesis
    proof (rule c_good_locks [OF e sh]; (unfold t_def [symmetric])?)
      show "locks_by i (c_locks s) (c_locks s)" by (simp add: locks_by_def)
      show "c_locks s a = Some i \<longleftrightarrow> a \<in> c_holds (c_goto C_last t)" for a
        using c_sharedD(4) [OF sh, of a i] hold by (simp add: t_def [symmetric]) (simp add: c_holds_def)
      show "?h a \<noteq> None \<and> (c_victim (c_goto C_last t) \<noteq> Some a \<longrightarrow> reach (next_l ?h) (c_head s) a)" if "a \<in> c_holds (c_goto C_last t)" for a
        using that c_sharedD(5,6) [OF sh, of a i] hold ne vic by (simp add: t_def [symmetric]) (simp add: c_holds_def)
      show "c_refs ?h (c_goto C_last t)" using refs curr by blast
      show "c_victim (c_goto C_last t) = c_victim t \<and> (c_victim t \<noteq> None \<longrightarrow> c_curr (c_goto C_last t) = c_curr t) \<or>
          c_victim (c_goto C_last t) = None \<and> \<not> gc"
        using False by (simp add: c_victim_def)
      show "c_status M (c_goto C_last t) st" using ans by (simp add: c_status_def)
    qed
  next
    case True
    let ?h' = "?h(c_next t := None)"
    have e: "s' = upd_c i (c_goto C_last) (s\<lparr>c_heap := ?h'\<rparr>)"
      using st pc' True by (auto simp: c_step_def Let_def t_def [symmetric] bind_eq_Some_conv)
    have sh': "c_shared True s M" using sh True by simp
    have same: "reach (next_l ?h') (c_head s) z \<longleftrightarrow> reach (next_l ?h) (c_head s) z" for z
      using reach_without [OF vo(2), of z] by simp
    show ?thesis
    proof (rule c_good_heap [OF e sh]; (unfold t_def [symmetric])?)
      show "chain_ok ?h' (c_head s)" by (rule free_chain [OF c_sharedD(1) [OF sh] vo(2) c_victim_apart [OF sh' vic]])
      show "map_ok ?h' (c_head s) M" by (rule free_map [OF c_sharedD(2) [OF sh] vo(2)])
      show "\<not> nl_marked x" if "?h' z = Some x" for z x using that c_sharedD(3) [OF sh] by (auto split: if_splits)
      show "a \<in> c_holds t \<or> ?h a = None \<or> c_victim t = Some a" if "?h' a \<noteq> ?h a" for a
        using that vic by (auto simp: t_def split: if_splits)
      show "reach (next_l ?h) (c_head s) z" if "reach (next_l ?h') (c_head s) z" for z using that same by simp
      show "reach (next_l ?h') (c_head s) z" if "reach (next_l ?h) (c_head s) z" for z using that same by simp
      show "c_holds (c_goto C_last t) = c_holds t" using hold by (simp add: c_holds_def)
      show "?h' a \<noteq> None" if "a \<in> c_holds t" for a using that hold curr ne by auto
      show "c_victim t \<noteq> Some a" if "a \<in> c_holds t" for a using that hold vic ne by (simp add: t_def)
      show "a \<in> c_holds t \<and> reach (next_l ?h) (c_head s) a \<and> \<not> reach (next_l ?h') (c_head s) a \<and>
          next_l ?h' a = next_l ?h' (c_curr (c_goto C_last t)) \<and> c_curr (c_goto C_last t) \<noteq> a"
        if "c_victim (c_goto C_last t) = Some a" for a
        using that by (simp add: c_victim_def)
      show "?h a = None \<and> reach (next_l ?h') (c_head s) a \<or> ?h a \<noteq> None \<and> c_victim t \<noteq> Some a" if "?h' a \<noteq> None" for a
        using that vic by (auto simp: t_def split: if_splits)
      show "c_refs ?h' (c_goto C_last t)" by (rule refs) (use curr ne in simp)
      show "c_status M (c_goto C_last t) st" using ans by (simp add: c_status_def)
    qed simp
  qed
qed

lemma c_step_good:
  assumes sh: "c_shared gc s M" and own: "c_own i s M st" and st: "c_step gc i p s = Some s'"
  shows "c_good gc i s M st s'"
proof (cases "c_pc (c_threads s i)")
  case C_idle then show ?thesis using st by (simp add: c_step_def)
next
  case C_done then show ?thesis using st by (simp add: c_step_def)
next
  case C_finish then show ?thesis by (rule c_finish_step [OF sh own st])
next
  case C_insert then show ?thesis by (rule c_insert_step [OF sh own st])
next
  case C_unlink then show ?thesis by (rule c_unlink_step [OF sh own st])
next
  case C_free then show ?thesis by (rule c_free_step [OF sh own st])
qed (use c_search_step [OF sh own st] c_unlock_step [OF sh own st] in simp_all)


section \<open>Calls and returns\<close>

lemma c_quiet: "c_pc t = C_idle \<or> c_pc t = C_lock_head \<or> c_pc t = C_done \<Longrightarrow> c_holds t = {} \<and> c_victim t = None"
  by (elim disjE) (simp_all add: c_holds_def c_victim_def)

lemma c_own_quiet:
  assumes own: "c_own i s M st" and pc: "c_pc (c_threads s i) \<in> {C_idle, C_done}" and sh: "c_shared gc s M"
    and f: "c_pc (f (c_threads s i)) \<in> {C_idle, C_lock_head}" "c_refs (c_heap s) (f (c_threads s i))" "c_status M (f (c_threads s i)) st'"
  shows "c_shared gc (upd_c i f s) M" "c_own i (upd_c i f s) M st'" "j \<noteq> i \<Longrightarrow> c_rely j s (upd_c i f s) M"
proof -
  have a: "c_holds (c_threads s i) = {} \<and> c_victim (c_threads s i) = None" by (rule c_quiet) (use pc in blast)
  have b: "c_holds (f (c_threads s i)) = {} \<and> c_victim (f (c_threads s i)) = None" by (rule c_quiet) (use f(1) in blast)
  have eq: "c_holds (f (c_threads s i)) = c_holds (c_threads s i)" "c_victim (f (c_threads s i)) = c_victim (c_threads s i)"
    "c_victim (c_threads s i) = None"
    using a b by simp_all
  have ts: "c_holds (c_threads (upd_c i f s) k) = c_holds (c_threads s k)" "c_victim (c_threads (upd_c i f s) k) = c_victim (c_threads s k)"
    "c_victim (c_threads s k) = Some a \<Longrightarrow> c_curr (c_threads (upd_c i f s) k) = c_curr (c_threads s k)" for k a
    using eq by auto
  have "victims_ok (c_heap s) (c_head s) (c_threads (upd_c i f s))"
    using c_sharedD(7) [OF sh] ts unfolding victims_ok_def by (metis (no_types, lifting))
  then show "c_shared gc (upd_c i f s) M" using sh ts(1,2) unfolding c_shared_def by simp
  show "c_own i (upd_c i f s) M st'" using f by (simp add: c_own_def)
  show "j \<noteq> i \<Longrightarrow> c_rely j s (upd_c i f s) M" by (simp add: c_rely_def)
qed

lemma c_call_good:
  assumes sh: "c_shared gc s M" and own: "c_own i s M st" and c: "c_call i x s = Some s'"
  shows "st = A_idle \<and> c_shared gc s' M \<and> c_own i s' M (Pending x {M}) \<and> (\<forall>j. j \<noteq> i \<longrightarrow> c_rely j s s' M)"
proof -
  define f where "f = (\<lambda>t :: c_thread. t\<lparr>c_op := x, c_pc := C_lock_head\<rparr>)"
  have pc: "c_pc (c_threads s i) = C_idle" and range: "KEY_MIN < op_key x" "op_key x < KEY_MAX" and s': "s' = upd_c i f s"
    using c by (auto simp: c_call_def f_def split: if_splits)
  have "st = A_idle" using c_ownD(2) [OF own] pc by (simp add: c_status_def)
  moreover have "c_pc (f (c_threads s i)) \<in> {C_idle, C_lock_head}" "c_refs (c_heap s) (f (c_threads s i))"
    "c_status M (f (c_threads s i)) (Pending x {M})"
    using range by (simp_all add: f_def c_refs_def c_status_def under_way_def)
  ultimately show ?thesis using c_own_quiet [OF own _ sh] pc unfolding s' by blast
qed

lemma c_ret_good:
  assumes sh: "c_shared gc s M" and own: "c_own i s M st" and c: "c_ret i s = Some (r, s')"
  shows "(\<exists>x. answered x r M st) \<and> c_shared gc s' M \<and> c_own i s' M A_idle \<and> (\<forall>j. j \<noteq> i \<longrightarrow> c_rely j s s' M)"
proof -
  have pc: "c_pc (c_threads s i) = C_done" and r: "r = c_res (c_threads s i)" and s': "s' = upd_c i (c_goto C_idle) s"
    using c by (auto simp: c_ret_def split: if_splits)
  have "answered (c_op (c_threads s i)) r M st" using c_ownD(2) [OF own] pc r by (simp add: c_status_def)
  moreover have "c_pc (c_goto C_idle (c_threads s i)) \<in> {C_idle, C_lock_head}" "c_refs (c_heap s) (c_goto C_idle (c_threads s i))"
    "c_status M (c_goto C_idle (c_threads s i)) A_idle"
    by (simp_all add: c_refs_def c_status_def)
  ultimately show ?thesis using c_own_quiet [OF own _ sh] pc unfolding s' by blast
qed

interpretation coupling: thread_object c_call "c_step gc" c_ret "c_shared gc" c_own c_rely for gc
proof unfold_locales
  show "c_own j s' M' (see M' st)" if "c_own j s M st" "c_rely j s s' M'" for s M s' M' j st by (rule c_own_rely [OF that])
  show "see M st = st" if "c_own j s M st" for j s M st by (rule c_own_see [OF that])
  show "st = A_idle \<and> c_shared gc s' M \<and> c_own i s' M (Pending x {M}) \<and> (\<forall>j. j \<noteq> i \<longrightarrow> c_rely j s s' M)"
    if "c_shared gc s M" "c_own i s M st" "c_call i x s = Some s'" for s M i st x s' by (rule c_call_good [OF that])
  show "(\<exists>x. answered x r M st) \<and> c_shared gc s' M \<and> c_own i s' M A_idle \<and> (\<forall>j. j \<noteq> i \<longrightarrow> c_rely j s s' M)"
    if "c_shared gc s M" "c_own i s M st" "c_ret i s = Some (r, s')" for s M i st r s' by (rule c_ret_good [OF that])
  show "\<exists>M' st'. c_shared gc s' M' \<and> c_own i s' M' st' \<and> (\<forall>j. j \<noteq> i \<longrightarrow> c_rely j s s' M') \<and>
      (M' = M \<and> st' = st \<or> (\<exists>x S r. st = Pending x S \<and> map_step x M = (r, M') \<and> st' = Effected x r))"
    if "c_shared gc s M" "c_own i s M st" "c_step gc i p s = Some s'" for s M i st p s'
    using c_step_good [OF that] unfolding c_good_def .
qed

lemma c_init_inv:
  assumes "mn \<noteq> mx" "mn \<noteq> NULL" "mx \<noteq> NULL"
  shows "coupling.all_inv gc (c_init mn mx) Map.empty (\<lambda>_. A_idle)"
proof -
  have um: "set_new_l mn mx p = Some n \<Longrightarrow> \<not> nl_marked n" for p n
    by (auto simp: set_new_l_def new_node_l_def split: if_splits)
  have "c_shared gc (c_init mn mx) Map.empty"
    using set_new_chain [OF assms] um
    by (auto simp: c_shared_def c_init_def c_idle_def c_holds_def c_victim_def victims_ok_def)
  moreover have "c_own i (c_init mn mx) Map.empty A_idle" for i
    by (simp add: c_own_def c_init_def c_idle_def c_refs_def c_status_def)
  ultimately show ?thesis by (simp add: coupling.all_inv_def)
qed

section \<open>Progress\<close>

definition c_waits :: "c_sys \<Rightarrow> nat \<Rightarrow> ptr \<Rightarrow> bool" where
  "c_waits s i p \<longleftrightarrow> c_locks s p \<noteq> None \<and>
     (c_pc (c_threads s i) = C_lock_head \<and> p = c_head s \<or> c_pc (c_threads s i) = C_lock_next \<and> p = c_next (c_threads s i))"

text \<open>The nodes a thread touches are mapped.\<close>

lemma c_mapped:
  assumes own: "c_own i s M st" and sh: "c_shared gc s M"
  shows "\<exists>n. c_heap s (c_head s) = Some n"
    "c_pc (c_threads s i) \<notin> {C_idle, C_lock_head, C_end_next, C_done} \<Longrightarrow> \<exists>n. c_heap s (c_curr (c_threads s i)) = Some n"
    "c_pc (c_threads s i) \<in> {C_lock_next, C_next, C_test, C_unlock_curr, C_finish, C_insert, C_unlink, C_victim, C_free, C_end_next} \<Longrightarrow>
      \<exists>n. c_heap s (c_next (c_threads s i)) = Some n"
proof -
  define t where "t = c_threads s i"
  note r = c_refsD [OF c_ownD(1) [OF own, folded t_def]] and c = c_sharedD(1) [OF sh]
  show "\<exists>n. c_heap s (c_head s) = Some n" using chain_okD(1) [OF c] by blast
  show "\<exists>n. c_heap s (c_curr (c_threads s i)) = Some n" if "c_pc (c_threads s i) \<notin> {C_idle, C_lock_head, C_end_next, C_done}"
    using r(2) that by (auto simp: t_def)
  assume pc: "c_pc (c_threads s i) \<in> {C_lock_next, C_next, C_test, C_unlock_curr, C_finish, C_insert, C_unlink, C_victim, C_free, C_end_next}"
  show "\<exists>n. c_heap s (c_next (c_threads s i)) = Some n"
  proof (cases "c_pc t \<in> {C_victim, C_free, C_end_next}")
    case True
    then have "c_next t \<in> c_holds t \<or> c_victim t = Some (c_next t)" by (auto simp: c_holds_def c_victim_def)
    then show ?thesis
      using c_sharedD(5) [OF sh, of "c_next t" i] victims_okD(1) [OF c_sharedD(7) [OF sh], of i "c_next t"] by (auto simp: t_def)
  next
    case False
    then have pcs: "c_pc t \<notin> {C_idle, C_lock_head, C_end_next, C_done}" "c_pc t \<noteq> C_idle"
      "c_pc t \<in> {C_lock_next, C_next, C_test, C_unlock_curr, C_finish, C_insert, C_unlink}"
      using pc by (auto simp: t_def)
    obtain n where n: "c_heap s (c_curr t) = Some n" "nl_key n < op_key (c_op t)" using r(2) [OF pcs(1)] by blast
    have "nl_next n = c_next t" using r(3) [OF pcs(3)] n(1) by (simp add: next_l_def)
    then show ?thesis using chain_okD(5) [OF c n(1)] n(2) r(1) [OF pcs(2)] by (auto simp: t_def)
  qed
qed

lemma c_step_total:
  assumes own: "c_own i s M st" and sh: "c_shared gc s M" and pc: "c_pc (c_threads s i) \<notin> {C_idle, C_done}"
    and q: "c_heap s p = None" "p \<noteq> NULL"
  shows "c_step gc i p s \<noteq> None"
proof (cases "c_pc (c_threads s i) = C_insert")
  case True
  obtain k v where "c_op (c_threads s i) = Set_Add k v" using c_refsD(9) [OF c_ownD(1) [OF own] True] by blast
  then show ?thesis using True c_mapped(2) [OF own sh] q by (auto simp: c_step_def Let_def)
next
  case False
  then show ?thesis
    using pc c_mapped [OF own sh] by (cases "c_pc (c_threads s i)") (auto simp: c_step_def Let_def split: prod.splits)
qed

lemma c_step_moves:
  assumes pc: "c_pc (c_threads s i) \<noteq> C_idle" and w: "\<nexists>p. c_waits s i p" and st: "c_step gc i p s = Some s'"
  shows "c_pc (c_threads s' i) \<noteq> c_pc (c_threads s i)"
proof -
  define t where "t = c_threads s i"
  note facts = c_step_def Let_def t_def [symmetric] bind_eq_Some_conv c_waits_def lock_n_def
  have "c_pc (c_threads s' i) \<noteq> c_pc t"
  proof (cases "c_pc t")
    case C_finish
    then obtain n where "s' = upd_c i (\<lambda>t. c_finish n t (c_op t)) s" using st by (auto simp: facts)
    then show ?thesis using C_finish by (cases "c_op t") (simp_all add: t_def [symmetric])
  next
    case C_insert then show ?thesis using st by (cases "c_op t") (auto simp: facts split: if_splits)
  qed (use pc st w in \<open>auto simp: facts split: if_splits\<close>)
  then show ?thesis by (simp add: t_def)
qed

lemma c_waits_runs:
  assumes inv: "coupling.all_inv gc s M st" and w: "c_waits s i p"
  shows "\<exists>j. c_pc (c_threads s j) \<notin> {C_idle, C_done} \<and> (\<nexists>q. c_waits s j q)"
proof -
  have own: "c_own j s M (st j)" for j using inv by (simp add: coupling.all_inv_def)
  have sh: "c_shared gc s M" using inv by (simp add: coupling.all_inv_def)
  have c: "chain_ok (c_heap s) (c_head s)" by (rule c_sharedD(1) [OF sh])
  define rank where "rank p = nat (KEY_MAX - the (key_l (c_heap s) p))" for p
  have "\<exists>j. p \<in> c_holds (c_threads s j)" if "c_waits s i p" for i p
    using that c_sharedD(4) [OF sh] by (auto simp: c_waits_def)
  moreover have "rank q < rank p" if p: "p \<in> c_holds (c_threads s j)" and q: "c_waits s j q" for j p q
  proof -
    have pc: "c_pc (c_threads s j) = C_lock_next" "q = c_next (c_threads s j)" "p = c_curr (c_threads s j)"
      using p q by (auto simp: c_waits_def c_holds_def split: if_splits)
    note r = c_refsD [OF c_ownD(1) [OF own, of j]]
    obtain n where n: "c_heap s p = Some n" "nl_key n < op_key (c_op (c_threads s j))" using r(2) pc by auto
    have "nl_next n = q" using r(3) pc n(1) by (simp add: next_l_def)
    then obtain m where m: "c_heap s q = Some m" "nl_key n < nl_key m"
      using chain_okD(5) [OF c n(1)] n(2) r(1) pc(1) by fastforce
    have "nl_key m \<le> KEY_MAX" using chain_okD(3) [OF c m(1)] by blast
    then show ?thesis using n(1) m by (simp add: rank_def key_l_def)
  qed
  ultimately obtain j q where j: "q \<in> c_holds (c_threads s j)" "\<nexists>q'. c_waits s j q'"
    using ordered_waits [of "c_waits s" "\<lambda>j p. p \<in> c_holds (c_threads s j)" rank i p] w by blast
  have "c_pc (c_threads s j) \<notin> {C_idle, C_done}" using j(1) by (auto simp: c_holds_def)
  then show ?thesis using j(2) by blast
qed


section \<open>Properties\<close>

text \<open>C10: The hand-over-hand list is linearizable. Any number of threads call \<open>lockc_find\<close>, \<open>lockc_insert\<close>
  and \<open>lockc_delete\<close>, interleaved one shared access at a time, with and without GC: what they are told is
  what threads on an atomic map are told, each operation taking place in one moment between its call and
  its return, and the map is that of the list.\<close>

theorem coupling_linearizable:
  assumes "mn \<noteq> mx" "mn \<noteq> NULL" "mx \<noteq> NULL" "object_exec c_call (c_step gc) c_ret (c_init mn mx) tr s"
  shows "\<exists>M st. chain_ok (c_heap s) (c_head s) \<and> map_ok (c_heap s) (c_head s) M \<and> atomic_exec tr M st"
  using coupling.linearizable [OF assms(4) c_init_inv [OF assms(1-3)]] c_sharedD(1,2) unfolding coupling.all_inv_def by blast

text \<open>C11: With GC nothing is used after it is freed and nothing leaks, though \<open>node_delete_l\<close> frees at once:
  the next access of any thread inside an operation is to mapped memory, and every mapped node is in the
  list or is about to be freed by the one thread that has unlinked it.\<close>

theorem coupling_frees_safely:
  assumes "mn \<noteq> mx" "mn \<noteq> NULL" "mx \<noteq> NULL" "object_exec c_call (c_step True) c_ret (c_init mn mx) tr s"
    "c_heap s p = None" "p \<noteq> NULL"
  shows "(\<forall>i. c_step True i p s = None \<longleftrightarrow> c_pc (c_threads s i) \<in> {C_idle, C_done}) \<and>
    {a. c_heap s a \<noteq> None} = {a. reach (next_l (c_heap s)) (c_head s) a \<and> a \<noteq> NULL} \<union> {a. \<exists>!j. c_victim (c_threads s j) = Some a}"
proof -
  obtain M st where inv: "coupling.all_inv True s M st"
    using coupling.reachable_inv [OF assms(4) c_init_inv [OF assms(1-3)]] by blast
  then have sh: "c_shared True s M" and own: "\<And>j. c_own j s M (st j)" by (simp_all add: coupling.all_inv_def)
  note v = victims_okD [OF c_sharedD(7) [OF sh]]
  have one: "(\<exists>j. c_victim (c_threads s j) = Some a) \<longleftrightarrow> (\<exists>!j. c_victim (c_threads s j) = Some a)" for a
    using v(4) by blast
  have "c_heap s a \<noteq> None \<longleftrightarrow> reach (next_l (c_heap s)) (c_head s) a \<and> a \<noteq> NULL \<or> (\<exists>j. c_victim (c_threads s j) = Some a)" for a
    using c_sharedD(8) [OF sh TrueI, of a] v(1) [of _ a] chain_okD(7) [OF c_sharedD(1) [OF sh]]
      reach_mapped [OF c_sharedD(1) [OF sh], of a] by metis
  moreover have "c_step True i p s = None \<longleftrightarrow> c_pc (c_threads s i) \<in> {C_idle, C_done}" for i
  proof
    show "c_pc (c_threads s i) \<in> {C_idle, C_done}" if "c_step True i p s = None"
      using c_step_total [OF own sh _ assms(5,6), of i] that by blast
    show "c_step True i p s = None" if "c_pc (c_threads s i) \<in> {C_idle, C_done}"
      using that by (auto simp: c_step_def)
  qed
  ultimately show ?thesis unfolding one by blast
qed

text \<open>C28: The hand-over-hand list does not deadlock. Whenever a thread is inside an operation, some thread
  inside an operation does not wait for a lock and its next access takes it on to another point. (A
  waiting thread waits for a node with a greater key than that of the node whose lock it has.)\<close>

theorem coupling_deadlock_free:
  assumes "mn \<noteq> mx" "mn \<noteq> NULL" "mx \<noteq> NULL" "object_exec c_call (c_step gc) c_ret (c_init mn mx) tr s"
    "c_pc (c_threads s i) \<notin> {C_idle, C_done}" "c_heap s p = None" "p \<noteq> NULL"
  shows "\<exists>j s'. c_pc (c_threads s j) \<notin> {C_idle, C_done} \<and> c_step gc j p s = Some s' \<and> c_pc (c_threads s' j) \<noteq> c_pc (c_threads s j)"
proof -
  obtain M st where inv: "coupling.all_inv gc s M st"
    using coupling.reachable_inv [OF assms(4) c_init_inv [OF assms(1-3)]] by blast
  then have sh: "c_shared gc s M" and own: "\<And>j. c_own j s M (st j)" by (simp_all add: coupling.all_inv_def)
  have "\<exists>j. c_pc (c_threads s j) \<notin> {C_idle, C_done} \<and> (\<nexists>q. c_waits s j q)"
  proof (cases "\<exists>q. c_waits s i q")
    case True
    then obtain q where q: "c_waits s i q" by blast
    then show ?thesis using c_waits_runs [OF inv q] by blast
  qed (use assms(5) in blast)
  then obtain j where j: "c_pc (c_threads s j) \<notin> {C_idle, C_done}" "\<nexists>q. c_waits s j q" by blast
  obtain s' where s': "c_step gc j p s = Some s'" using c_step_total [OF own sh j(1) assms(6,7)] by blast
  have "c_pc (c_threads s' j) \<noteq> c_pc (c_threads s j)" by (rule c_step_moves [OF _ j(2) s']) (use j(1) in simp)
  then show ?thesis using j(1) s' by blast
qed

text \<open>C29: When no thread is inside an operation, \<open>set_size_l\<close> gives the number of keys of the map (as an
  \<open>int\<close>, so up to 2^31 - 1 exactly), and with GC \<open>set_delete_l\<close> frees every node there is: nothing has
  leaked, whatever the threads have done before.\<close>

theorem coupling_teardown:
  assumes "mn \<noteq> mx" "mn \<noteq> NULL" "mx \<noteq> NULL" "object_exec c_call (c_step True) c_ret (c_init mn mx) tr s"
    "\<And>i. c_pc (c_threads s i) = C_idle"
  shows "\<exists>M st. atomic_exec tr M st \<and> set_size_l (c_heap s) (c_head s) = Some (sint (of_nat (card (dom M)) :: 32 word)) \<and>
    set_delete_l (c_heap s) (c_head s) = Some Map.empty"
proof -
  obtain M st where inv: "coupling.all_inv True s M st" and ex: "atomic_exec tr M st"
    using coupling.linearizable [OF assms(4) c_init_inv [OF assms(1-3)]] by blast
  then have sh: "c_shared True s M" by (simp add: coupling.all_inv_def)
  note c = c_sharedD(1) [OF sh]
  have v: "c_victim (c_threads s j) = None" for j using assms(5) [of j] by (simp add: c_victim_def)
  have "(\<lambda>q. if reach (next_l (c_heap s)) (c_head s) q then None else c_heap s q) = Map.empty"
  proof
    show "(if reach (next_l (c_heap s)) (c_head s) q then None else c_heap s q) = None" for q
      using c_sharedD(8) [OF sh TrueI, of q] v by (cases "c_heap s q") simp_all
  qed
  then have "set_delete_l (c_heap s) (c_head s) = Some Map.empty" using set_delete_frees [OF c] by simp
  moreover have "set_size_l (c_heap s) (c_head s) = Some (sint (of_nat (card (dom M)) :: 32 word))"
    by (rule set_size_counts [OF c c_sharedD(2) [OF sh]]) (rule c_sharedD(3) [OF sh])
  ultimately show ?thesis using ex by blast
qed

section \<open>Witnesses\<close>

text \<open>Thread 1 waits for the node that thread 0 is about to remove; thread 0 frees it and ends.\<close>

definition coupling_race :: "nat \<Rightarrow> (nat \<times> o_action) list" where
  "coupling_race k =
     (0, O_call (Set_Add 5 50)) # replicate 9 (0, O_step 192) @ [(0, O_return), (0, O_call (Set_Remove 5))] @
     replicate 6 (0, O_step 0) @ (1, O_call (Set_Contains 5)) # replicate 2 (1, O_step 0) @ replicate k (0, O_step 0)"

lemma coupling_linearizable_witness:
  "\<exists>(s :: c_sys) M st. map_ok (c_heap s) (c_head s) M \<and>
     atomic_exec [(0, Called (Set_Add 5 50)), (0, Returned 1), (0, Called (Set_Remove 5)), (1, Called (Set_Contains 5)),
       (0, Returned 50), (1, Returned 0)] M st"
proof -
  have "case object_run c_call (c_step True) c_ret
      (coupling_race 4 @ (0, O_return) # replicate 8 (1, O_step 0) @ [(1, O_return)]) (c_init 64 128) of None \<Rightarrow> False
    | Some (tr, s) \<Rightarrow> tr = [(0, Called (Set_Add 5 50)), (0, Returned 1), (0, Called (Set_Remove 5)),
        (1, Called (Set_Contains 5)), (0, Returned 50), (1, Returned 0)]"
    by code_simp
  then obtain s where s: "object_run c_call (c_step True) c_ret
      (coupling_race 4 @ (0, O_return) # replicate 8 (1, O_step 0) @ [(1, O_return)]) (c_init 64 128) =
      Some ([(0, Called (Set_Add 5 50)), (0, Returned 1), (0, Called (Set_Remove 5)),
        (1, Called (Set_Contains 5)), (0, Returned 50), (1, Returned 0)], s)"
    by (auto split: option.splits)
  have p: "(64 :: ptr) \<noteq> 128" "(64 :: ptr) \<noteq> NULL" "(128 :: ptr) \<noteq> NULL" by simp_all
  from coupling_linearizable [OF p object_run_exec [OF s object_start, unfolded append_Nil]] show ?thesis by blast
qed

lemma coupling_frees_safely_witness:
  "\<exists>s :: c_sys. c_victim (c_threads s 0) = Some 192 \<and>
    {i. c_step True i 256 s = None} = {i. c_pc (c_threads s i) \<in> {C_idle, C_done}}"
proof -
  have "case object_run c_call (c_step True) c_ret (coupling_race 2) (c_init 64 128) of None \<Rightarrow> False
    | Some (tr, s) \<Rightarrow> c_victim (c_threads s 0) = Some 192 \<and> c_heap s 256 = None"
    by code_simp
  then obtain tr s where s: "object_run c_call (c_step True) c_ret (coupling_race 2) (c_init 64 128) = Some (tr, s)"
    "c_victim (c_threads s 0) = Some 192" "c_heap s 256 = None"
    by (auto split: option.splits)
  have p: "(64 :: ptr) \<noteq> 128" "(64 :: ptr) \<noteq> NULL" "(128 :: ptr) \<noteq> NULL" "(256 :: ptr) \<noteq> NULL" by simp_all
  from coupling_frees_safely [OF p(1-3) object_run_exec [OF s(1) object_start, unfolded append_Nil] s(3) p(4)] s(2)
  show ?thesis by auto
qed

lemma coupling_deadlock_free_witness:
  "\<exists>s :: c_sys. c_waits s 1 64 \<and>
    (\<exists>j s'. c_pc (c_threads s j) \<notin> {C_idle, C_done} \<and> c_step True j 256 s = Some s' \<and> c_pc (c_threads s' j) \<noteq> c_pc (c_threads s j))"
proof -
  have "case object_run c_call (c_step True) c_ret (coupling_race 2) (c_init 64 128) of None \<Rightarrow> False
    | Some (tr, s) \<Rightarrow> c_pc (c_threads s 1) = C_lock_head \<and> c_head s = 64 \<and> c_locks s 64 = Some 0 \<and> c_heap s 256 = None"
    by code_simp
  then obtain tr s where s: "object_run c_call (c_step True) c_ret (coupling_race 2) (c_init 64 128) = Some (tr, s)"
    "c_pc (c_threads s 1) = C_lock_head" "c_head s = 64" "c_locks s 64 = Some 0" "c_heap s 256 = None"
    by (auto split: option.splits)
  have p: "(64 :: ptr) \<noteq> 128" "(64 :: ptr) \<noteq> NULL" "(128 :: ptr) \<noteq> NULL" "(256 :: ptr) \<noteq> NULL" by simp_all
  have a: "c_pc (c_threads s 1) \<notin> {C_idle, C_done}" using s(2) by simp
  note coupling_deadlock_free [OF p(1-3) object_run_exec [OF s(1) object_start, unfolded append_Nil] a s(5) p(4)]
  moreover have "c_waits s 1 64" using s by (simp add: c_waits_def)
  ultimately show ?thesis by blast
qed


lemma c_others:
  "c_step gc i p s = Some s' \<Longrightarrow> j \<noteq> i \<Longrightarrow> c_threads s' j = c_threads s j"
  "c_call i x s = Some s' \<Longrightarrow> j \<noteq> i \<Longrightarrow> c_threads s' j = c_threads s j"
  "c_ret i s = Some (r, s') \<Longrightarrow> j \<noteq> i \<Longrightarrow> c_threads s' j = c_threads s j"
proof -
  assume st: "c_step gc i p s = Some s'" and j: "j \<noteq> i"
  show "c_threads s' j = c_threads s j"
  proof (cases "c_pc (c_threads s i)")
    case C_insert
    then show ?thesis using st j by (cases "c_op (c_threads s i)") (auto simp: c_step_def Let_def bind_eq_Some_conv split: if_splits)
  qed (use st j in \<open>auto simp: c_step_def Let_def bind_eq_Some_conv split: if_splits prod.splits\<close>)
qed (auto simp: c_call_def c_ret_def split: if_splits)

lemma c_run_others:
  "object_run c_call (c_step gc) c_ret as s = Some (tr, s') \<Longrightarrow> j \<notin> fst ` set as \<Longrightarrow> c_threads s' j = c_threads s j"
  by (rule object_run_others [of j c_call "\<lambda>s. c_threads s j" "c_step gc" c_ret])
    (erule c_others(2), simp, erule c_others(1), simp, erule c_others(3), simp, assumption+)

lemma coupling_teardown_witness:
  "\<exists>s :: c_sys. set_size_l (c_heap s) (c_head s) = Some 1 \<and> set_delete_l (c_heap s) (c_head s) = Some Map.empty \<and>
    (\<exists>M st. atomic_exec [(0, Called (Set_Add 5 50)), (0, Returned 1)] M st \<and> sint (of_nat (card (dom M)) :: 32 word) = 1)"
proof -
  define as where "as = (0 :: nat, O_call (Set_Add 5 50)) # replicate 9 (0, O_step 192) @ [(0, O_return)]"
  have "case object_run c_call (c_step True) c_ret as (c_init 64 128) of None \<Rightarrow> False
    | Some (tr, s) \<Rightarrow> tr = [(0, Called (Set_Add 5 50)), (0, Returned 1)] \<and> c_pc (c_threads s 0) = C_idle \<and>
        set_size_l (c_heap s) (c_head s) = Some 1"
    unfolding as_def by code_simp
  then obtain s where s: "object_run c_call (c_step True) c_ret as (c_init 64 128) = Some ([(0, Called (Set_Add 5 50)), (0, Returned 1)], s)"
    "c_pc (c_threads s 0) = C_idle" "set_size_l (c_heap s) (c_head s) = Some 1"
    by (auto split: option.splits)
  have idle: "c_pc (c_threads s i) = C_idle" for i
  proof (cases "i = 0")
    case False
    have "c_threads s i = c_threads (c_init 64 128) i"
      by (rule c_run_others [OF s(1)]) (use False in \<open>simp add: as_def\<close>)
    then show ?thesis by (simp add: c_init_def c_idle_def)
  qed (use s(2) in simp)
  have p: "(64 :: ptr) \<noteq> 128" "(64 :: ptr) \<noteq> NULL" "(128 :: ptr) \<noteq> NULL" by simp_all
  from coupling_teardown [OF p object_run_exec [OF s(1) object_start, unfolded append_Nil] idle] s(3) show ?thesis by auto
qed

end
