(* ===== verification/Copy_On_Write.thy ===== *)
theory Copy_On_Write
  imports Lock_Nodes
begin

text \<open>
  Copy on write, src/hashtable-copy/copy_on_write.c, and src/linkedlist-copy/copy_on_write.c, which is the
  same with one bucket: \<open>cpy_search\<close>, \<open>cpy_delete\<close>, \<open>cpy_insert\<close>, any number of threads, one access at a
  time (\<open>LL_GLOBAL_LOCK\<close> not defined). A bucket is an array that is never written to once it is in the
  table; an update copies it under the lock of the bucket. The table is linearizable, and the only access
  out of bounds is that of an insertion into a full array.
\<close>

section \<open>Threads\<close>

text \<open>The entries of an array that have been written are its first ones. \<open>al_size\<close> is set before they are.\<close>

record array_ll =
  al_size :: u64
  al_kvs :: "(skey_t \<times> sval_t) list"

text \<open>\<open>W_load\<close>, \<open>W_scan\<close>: \<open>cpy_search\<close> and the read-only test; \<open>W_old\<close> to \<open>W_publish\<close>: with the lock.\<close>

datatype w_pc = W_idle | W_load | W_scan | W_lock | W_old | W_alloc | W_copy | W_put | W_publish | W_unlock | W_done

text \<open>\<open>w_arr\<close> is \<open>all_cur\<close> or \<open>all_old\<close>, \<open>w_new\<close> is \<open>all_new\<close>; the position \<open>n\<close> in \<open>all_new\<close> is the number of
  its entries that have been written.\<close>

record w_thread =
  w_op :: set_op
  w_pc :: w_pc
  w_arr :: ptr
  w_new :: ptr
  w_i :: nat
  w_removed :: sval_t
  w_res :: int

record w_sys =
  w_heap :: "ptr \<rightharpoonup> array_ll"
  w_locks :: "nat \<Rightarrow> nat option"
  w_array :: "nat \<Rightarrow> ptr"
  w_hash :: u64
  w_threads :: "nat \<Rightarrow> w_thread"

definition upd_w :: "nat \<Rightarrow> (w_thread \<Rightarrow> w_thread) \<Rightarrow> w_sys \<Rightarrow> w_sys" where
  "upd_w i f s = s\<lparr>w_threads := (w_threads s)(i := f (w_threads s i))\<rparr>"

abbreviation w_goto :: "w_pc \<Rightarrow> w_thread \<Rightarrow> w_thread" where
  "w_goto p t \<equiv> t\<lparr>w_pc := p\<rparr>"

abbreviation w_return :: "int \<Rightarrow> w_thread \<Rightarrow> w_thread" where
  "w_return r t \<equiv> t\<lparr>w_res := r, w_pc := W_done\<rparr>"

section \<open>Steps\<close>

definition bucket_of :: "u64 \<Rightarrow> skey_t \<Rightarrow> nat" where
  "bucket_of hash key = unat (of_int key AND hash)"

text \<open>\<open>cpy_search\<close>, or the search of the read-only test, has ended with r.\<close>

fun w_searched :: "int \<Rightarrow> w_thread \<Rightarrow> set_op \<Rightarrow> w_thread" where
  "w_searched r t (Set_Contains key) = w_return r t"
| "w_searched r t (Set_Add key val) = (if r \<noteq> 0 then w_return 0 t else w_goto W_lock t)"
| "w_searched r t (Set_Remove key) = (if r = 0 then w_return 0 t else w_goto W_lock t)"

text \<open>What the search returns when it has found a value: \<open>cpy_search\<close> the value, \<open>cpy_array_search\<close>, which
  the hash table uses for the read-only test, 1.\<close>

fun w_hit :: "bool \<Rightarrow> sval_t \<Rightarrow> set_op \<Rightarrow> int" where
  "w_hit table v (Set_Contains key) = v"
| "w_hit table v x = (if table then 1 else v)"

text \<open>The copying loop of an update has come upon the key, with the value v; has come to the end.\<close>

fun w_met :: "sval_t \<Rightarrow> w_thread \<Rightarrow> set_op \<Rightarrow> w_thread" where
  "w_met v t (Set_Add key val) = t\<lparr>w_res := 0, w_pc := W_unlock\<rparr>"
| "w_met v t x = t\<lparr>w_removed := v, w_i := w_i t + 1\<rparr>"

fun w_copied :: "w_thread \<Rightarrow> set_op \<Rightarrow> w_thread" where
  "w_copied t (Set_Add key val) = w_goto W_put t"
| "w_copied t x = w_goto W_publish t"

text \<open>A write to the next entry of an array that has room for \<open>fixed\<close> entries (\<open>array_ll_fixed_size\<close>).\<close>

definition write_kv :: "nat \<Rightarrow> ptr \<Rightarrow> skey_t \<times> sval_t \<Rightarrow> (ptr \<rightharpoonup> array_ll) \<Rightarrow> (ptr \<rightharpoonup> array_ll) option" where
  "write_kv fixed p kv h = do {
     a \<leftarrow> h p;
     if length (al_kvs a) < fixed then Some (h(p \<mapsto> a\<lparr>al_kvs := al_kvs a @ [kv]\<rparr>)) else None }"

definition read_kv :: "ptr \<Rightarrow> nat \<Rightarrow> (ptr \<rightharpoonup> array_ll) \<Rightarrow> (skey_t \<times> sval_t) option" where
  "read_kv p i h = do {
     a \<leftarrow> h p;
     if i < length (al_kvs a) then Some (al_kvs a ! i) else None }"

text \<open>One access of thread i; \<open>table\<close> for hashtable-copy, \<open>p\<close> is what the allocator gives if asked. Arrays
  that have been given back are not used again (the promise of ssmem for those that a thread may read).\<close>

definition w_step :: "bool \<Rightarrow> nat \<Rightarrow> nat \<Rightarrow> ptr \<Rightarrow> w_sys \<Rightarrow> w_sys option" where
  "w_step table fixed i p s =
     (let t = w_threads s i; h = w_heap s; key = op_key (w_op t); bucket = bucket_of (w_hash s) key in
      case w_pc t of
        W_idle \<Rightarrow> None
      | W_load \<Rightarrow> Some (upd_w i (\<lambda>t. t\<lparr>w_arr := w_array s bucket, w_i := 0, w_pc := W_scan\<rparr>) s)
      | W_scan \<Rightarrow> do {
          a \<leftarrow> h (w_arr t);
          if w_i t < unat (al_size a) then do {
            (k, v) \<leftarrow> read_kv (w_arr t) (w_i t) h;
            Some (upd_w i (\<lambda>t. if k = key then w_searched (w_hit table v (w_op t)) t (w_op t) else t\<lparr>w_i := w_i t + 1\<rparr>) s) }
          else Some (upd_w i (\<lambda>t. w_searched 0 t (w_op t)) s) }
      | W_lock \<Rightarrow>
          let (ok, l) = lock_n i bucket (w_locks s)
          in Some (if ok then upd_w i (w_goto W_old) (s\<lparr>w_locks := l\<rparr>) else s)
      | W_old \<Rightarrow> Some (upd_w i (\<lambda>t. t\<lparr>w_arr := w_array s bucket, w_pc := W_alloc\<rparr>) s)
      | W_alloc \<Rightarrow>
          if p = NULL \<or> h p \<noteq> None then None
          else do {
            a \<leftarrow> h (w_arr t);
            Some (upd_w i (\<lambda>t. t\<lparr>w_new := p, w_i := 0, w_pc := W_copy\<rparr>)
              (s\<lparr>w_heap := h(p \<mapsto> \<lparr>al_size = (if is_remove (w_op t) then al_size a - 1 else al_size a + 1), al_kvs = []\<rparr>)\<rparr>)) }
      | W_copy \<Rightarrow> do {
          a \<leftarrow> h (w_arr t);
          if w_i t < unat (al_size a) then do {
            (k, v) \<leftarrow> read_kv (w_arr t) (w_i t) h;
            if k = key then Some (upd_w i (\<lambda>t. w_met v t (w_op t)) s)
            else do {
              h' \<leftarrow> write_kv fixed (w_new t) (k, v) h;
              Some (upd_w i (\<lambda>t. t\<lparr>w_i := w_i t + 1\<rparr>) (s\<lparr>w_heap := h'\<rparr>)) } }
          else Some (upd_w i (\<lambda>t. w_copied t (w_op t)) s) }
      | W_put \<Rightarrow>
          (case w_op t of
             Set_Add k v \<Rightarrow> do {
               h' \<leftarrow> write_kv fixed (w_new t) (k, v) h;
               Some (upd_w i (\<lambda>t. t\<lparr>w_res := 1, w_pc := W_publish\<rparr>) (s\<lparr>w_heap := h'\<rparr>)) }
           | _ \<Rightarrow> None)
      | W_publish \<Rightarrow>
          if is_remove (w_op t) \<and> w_removed t = 0 then Some (upd_w i (\<lambda>t. t\<lparr>w_res := 0, w_pc := W_unlock\<rparr>) s)
          else Some (upd_w i (\<lambda>t. t\<lparr>w_res := (if is_remove (w_op t) then w_removed t else 1), w_pc := W_unlock\<rparr>)
                      (s\<lparr>w_array := (w_array s)(bucket := w_new t)\<rparr>))
      | W_unlock \<Rightarrow> Some (upd_w i (w_goto W_done) (s\<lparr>w_locks := unlock_n bucket (w_locks s)\<rparr>))
      | W_done \<Rightarrow> None)"

text \<open>A call; \<open>ro\<close> is \<open>CPY_ON_WRITE_READ_ONLY_FAIL\<close>. Values are not 0, which stands for no value.\<close>

fun val_ok :: "set_op \<Rightarrow> bool" where
  "val_ok (Set_Add key val) = (val \<noteq> 0)"
| "val_ok x = True"

fun w_entry :: "bool \<Rightarrow> set_op \<Rightarrow> w_pc" where
  "w_entry ro (Set_Contains key) = W_load"
| "w_entry ro x = (if ro then W_load else W_lock)"

definition w_call :: "bool \<Rightarrow> nat \<Rightarrow> set_op \<Rightarrow> w_sys \<Rightarrow> w_sys option" where
  "w_call ro i x s =
     (if w_pc (w_threads s i) = W_idle \<and> val_ok x
      then Some (upd_w i (\<lambda>t. t\<lparr>w_op := x, w_removed := 0, w_pc := w_entry ro x\<rparr>) s) else None)"

definition w_ret :: "nat \<Rightarrow> w_sys \<Rightarrow> (int \<times> w_sys) option" where
  "w_ret i s =
     (if w_pc (w_threads s i) = W_done then Some (w_res (w_threads s i), upd_w i (w_goto W_idle) s) else None)"

definition w_idle :: w_thread where
  "w_idle = \<lparr>w_op = Set_Contains 0, w_pc = W_idle, w_arr = NULL, w_new = NULL, w_i = 0, w_removed = 0, w_res = 0\<rparr>"

text \<open>\<open>copy_on_write_new\<close>, the arrays having the addresses \<open>arr\<close>.\<close>

definition w_init :: "u64 \<Rightarrow> (nat \<Rightarrow> ptr) \<Rightarrow> w_sys" where
  "w_init num_buckets arr =
     \<lparr>w_heap = (\<lambda>p. if p \<in> arr ` {..<unat num_buckets} then Some \<lparr>al_size = 0, al_kvs = []\<rparr> else None),
      w_locks = (\<lambda>_. None), w_array = arr, w_hash = num_buckets - 1, w_threads = (\<lambda>_. w_idle)\<rparr>"

text \<open>linkedlist-copy: one bucket, and \<open>cpy_search\<close> itself as the read-only test.\<close>

definition cow_list_new :: "ptr \<Rightarrow> w_sys" where
  "cow_list_new a = w_init 1 (\<lambda>_. a)"

definition cow_list_step :: "nat \<Rightarrow> nat \<Rightarrow> ptr \<Rightarrow> w_sys \<Rightarrow> w_sys option" where
  "cow_list_step fixed = w_step False fixed"

section \<open>Invariant\<close>

definition w_bucket :: "w_sys \<Rightarrow> w_thread \<Rightarrow> nat" where
  "w_bucket s t = bucket_of (w_hash s) (op_key (w_op t))"

definition w_locked :: "w_thread \<Rightarrow> bool" where
  "w_locked t \<longleftrightarrow> w_pc t \<in> {W_old, W_alloc, W_copy, W_put, W_publish, W_unlock}"

text \<open>The array a thread is writing to.\<close>

definition w_private :: "w_thread \<Rightarrow> ptr option" where
  "w_private t = (if w_pc t \<in> {W_copy, W_put, W_publish} then Some (w_new t) else None)"

text \<open>An array of the table: the keys are different, the values are not 0.\<close>

definition array_ok :: "nat \<Rightarrow> array_ll \<Rightarrow> bool" where
  "array_ok fixed a \<longleftrightarrow>
     unat (al_size a) = length (al_kvs a) \<and> length (al_kvs a) \<le> fixed \<and> distinct (map fst (al_kvs a)) \<and> 0 \<notin> snd ` set (al_kvs a)"

definition table_ok :: "nat \<Rightarrow> w_sys \<Rightarrow> (skey_t \<rightharpoonup> sval_t) \<Rightarrow> bool" where
  "table_ok fixed s M \<longleftrightarrow>
     (\<forall>k. \<exists>a. w_heap s (w_array s (bucket_of (w_hash s) k)) = Some a \<and> array_ok fixed a \<and> M k = map_of (al_kvs a) k)"

definition w_shared :: "nat \<Rightarrow> w_sys \<Rightarrow> (skey_t \<rightharpoonup> sval_t) \<Rightarrow> bool" where
  "w_shared fixed s M \<longleftrightarrow>
     table_ok fixed s M \<and>
     (\<forall>i b. w_locks s b = Some i \<longleftrightarrow> w_locked (w_threads s i) \<and> b = w_bucket s (w_threads s i)) \<and>
     (\<forall>i. w_arr (w_threads s i) = NULL \<or> w_heap s (w_arr (w_threads s i)) \<noteq> None) \<and>
     (\<forall>i p. w_private (w_threads s i) = Some p \<longrightarrow> p \<noteq> NULL \<and> w_heap s p \<noteq> None \<and>
        (\<forall>k. w_array s (bucket_of (w_hash s) k) \<noteq> p) \<and> (\<forall>j. w_arr (w_threads s j) \<noteq> p) \<and>
        (\<forall>j. w_private (w_threads s j) = Some p \<longrightarrow> j = i))"

text \<open>What a thread knows of the array it reads, and of the one it writes.\<close>

fun new_kv :: "set_op \<Rightarrow> (skey_t \<times> sval_t) list" where
  "new_kv (Set_Add k v) = [(k, v)]"
| "new_kv x = []"

definition copied :: "skey_t \<Rightarrow> nat \<Rightarrow> (skey_t \<times> sval_t) list \<Rightarrow> (skey_t \<times> sval_t) list" where
  "copied key n kvs = filter (\<lambda>kv. fst kv \<noteq> key) (take n kvs)"

definition scan_ok :: "nat \<Rightarrow> array_ll \<Rightarrow> w_thread \<Rightarrow> a_status \<Rightarrow> bool" where
  "scan_ok fixed a t st \<longleftrightarrow>
     (let k = op_key (w_op t) in
      array_ok fixed a \<and> saw (\<lambda>N. N k = map_of (al_kvs a) k) st \<and>
      w_i t \<le> length (al_kvs a) \<and> k \<notin> fst ` set (take (w_i t) (al_kvs a)))"

definition copy_ok :: "nat \<Rightarrow> array_ll \<Rightarrow> array_ll \<Rightarrow> w_thread \<Rightarrow> bool" where
  "copy_ok fixed a b t \<longleftrightarrow>
     (let k = op_key (w_op t); rm = is_remove (w_op t) in
      al_size b = (if rm then al_size a - 1 else al_size a + 1) \<and>
      w_i t \<le> length (al_kvs a) \<and> (w_pc t \<noteq> W_copy \<longrightarrow> w_i t = length (al_kvs a)) \<and>
      (if rm then w_removed t = answer (map_of (take (w_i t) (al_kvs a)) k) else k \<notin> fst ` set (take (w_i t) (al_kvs a))) \<and>
      al_kvs b = copied k (w_i t) (al_kvs a) @ (if w_pc t = W_publish then new_kv (w_op t) else []) \<and>
      length (al_kvs b) \<le> fixed)"

definition w_knows :: "nat \<Rightarrow> w_sys \<Rightarrow> (skey_t \<rightharpoonup> sval_t) \<Rightarrow> w_thread \<Rightarrow> a_status \<Rightarrow> bool" where
  "w_knows fixed s M t st \<longleftrightarrow>
     (w_pc t \<noteq> W_idle \<longrightarrow> val_ok (w_op t)) \<and>
     (if w_pc t = W_idle then st = A_idle
      else if w_pc t \<in> {W_unlock, W_done} then answered (w_op t) (w_res t) M st
      else under_way (w_op t) M st) \<and>
     (w_pc t = W_scan \<longrightarrow> (\<exists>a. w_heap s (w_arr t) = Some a \<and> scan_ok fixed a t st)) \<and>
     (w_pc t \<in> {W_alloc, W_copy, W_put, W_publish} \<longrightarrow> w_arr t = w_array s (w_bucket s t)) \<and>
     (w_pc t \<in> {W_load, W_scan, W_lock, W_old, W_alloc} \<longrightarrow> w_removed t = 0) \<and>
     (w_pc t \<in> {W_copy, W_put, W_publish} \<longrightarrow>
        (\<exists>a b. w_heap s (w_arr t) = Some a \<and> w_heap s (w_new t) = Some b \<and> copy_ok fixed a b t)) \<and>
     (w_pc t \<notin> {W_idle, W_load, W_scan, W_done} \<longrightarrow> (\<forall>k. w_op t \<noteq> Set_Contains k)) \<and>
     (w_pc t = W_put \<longrightarrow> \<not> is_remove (w_op t))"

lemma w_knowsD:
  assumes "w_knows fixed s M t st"
  shows "w_pc t \<noteq> W_idle \<Longrightarrow> val_ok (w_op t)" "w_pc t = W_idle \<Longrightarrow> st = A_idle"
    "w_pc t \<in> {W_unlock, W_done} \<Longrightarrow> answered (w_op t) (w_res t) M st"
    "w_pc t \<notin> {W_idle, W_unlock, W_done} \<Longrightarrow> under_way (w_op t) M st"
    "w_pc t = W_scan \<Longrightarrow> \<exists>a. w_heap s (w_arr t) = Some a \<and> scan_ok fixed a t st"
    "w_pc t \<in> {W_alloc, W_copy, W_put, W_publish} \<Longrightarrow> w_arr t = w_array s (w_bucket s t)"
    "w_pc t \<in> {W_load, W_scan, W_lock, W_old, W_alloc} \<Longrightarrow> w_removed t = 0"
    "w_pc t \<in> {W_copy, W_put, W_publish} \<Longrightarrow> \<exists>a b. w_heap s (w_arr t) = Some a \<and> w_heap s (w_new t) = Some b \<and> copy_ok fixed a b t"
    "w_pc t \<notin> {W_idle, W_load, W_scan, W_done} \<Longrightarrow> w_op t \<noteq> Set_Contains k" "w_pc t = W_put \<Longrightarrow> \<not> is_remove (w_op t)"
proof -
  have st: "if w_pc t = W_idle then st = A_idle
      else if w_pc t \<in> {W_unlock, W_done} then answered (w_op t) (w_res t) M st else under_way (w_op t) M st"
    using assms unfolding w_knows_def by blast
  then show "w_pc t = W_idle \<Longrightarrow> st = A_idle" by simp
  show "w_pc t \<in> {W_unlock, W_done} \<Longrightarrow> answered (w_op t) (w_res t) M st" using st by (cases "w_pc t") simp_all
  show "w_pc t \<notin> {W_idle, W_unlock, W_done} \<Longrightarrow> under_way (w_op t) M st" using st by simp
qed (use assms in \<open>unfold w_knows_def, blast+\<close>)

definition w_own :: "nat \<Rightarrow> nat \<Rightarrow> w_sys \<Rightarrow> (skey_t \<rightharpoonup> sval_t) \<Rightarrow> a_status \<Rightarrow> bool" where
  "w_own fixed i s M st \<longleftrightarrow> w_knows fixed s M (w_threads s i) st"

definition w_rely :: "nat \<Rightarrow> w_sys \<Rightarrow> w_sys \<Rightarrow> (skey_t \<rightharpoonup> sval_t) \<Rightarrow> bool" where
  "w_rely j s s' M' \<longleftrightarrow>
     w_threads s' j = w_threads s j \<and> w_hash s' = w_hash s \<and>
     (\<forall>p. w_heap s p \<noteq> None \<longrightarrow> p = w_arr (w_threads s j) \<or> w_private (w_threads s j) = Some p \<longrightarrow> w_heap s' p = w_heap s p) \<and>
     (w_locked (w_threads s j) \<longrightarrow> w_array s' (w_bucket s (w_threads s j)) = w_array s (w_bucket s (w_threads s j)))"

lemma w_own_rely:
  assumes own: "w_own fixed j s M st" and r: "w_rely j s s' M'"
  shows "w_own fixed j s' M' (see M' st)"
proof -
  define t where "t = w_threads s j"
  have t': "w_threads s' j = t" "w_hash s' = w_hash s" using r by (simp_all add: w_rely_def t_def)
  have k: "w_knows fixed s M t st" using own by (simp add: w_own_def t_def)
  note d = w_knowsD [OF k]
  have heap: "w_heap s' p = Some a" if "w_heap s p = Some a" "p = w_arr t \<or> w_private t = Some p" for p a
  proof -
    have "w_heap s p \<noteq> None" using that(1) by simp
    then have "w_heap s' p = w_heap s p" using r that(2) unfolding w_rely_def t_def by blast
    then show ?thesis using that(1) by simp
  qed
  have arr: "w_array s' (w_bucket s t) = w_array s (w_bucket s t)" if "w_locked t" using r that by (simp add: w_rely_def t_def)
  have b: "w_bucket s' t = w_bucket s t" by (simp add: w_bucket_def t'(2))
  have "w_knows fixed s' M' t (see M' st)"
    unfolding w_knows_def
  proof (intro conjI impI)
    show "if w_pc t = W_idle then see M' st = A_idle
       else if w_pc t \<in> {W_unlock, W_done} then answered (w_op t) (w_res t) M' (see M' st)
       else under_way (w_op t) M' (see M' st)"
      using d(2-4) under_way_Pending [of "w_op t" M st] answered_see [of "w_op t" "w_res t" M st M'] by simp
    show "\<exists>a. w_heap s' (w_arr t) = Some a \<and> scan_ok fixed a t (see M' st)" if "w_pc t = W_scan"
      using d(5) [OF that] heap saw_see unfolding scan_ok_def by (metis (no_types))
    show "w_arr t = w_array s' (w_bucket s' t)" if "w_pc t \<in> {W_alloc, W_copy, W_put, W_publish}"
      using d(6) [OF that] arr b that by (auto simp: w_locked_def)
    show "\<exists>a b. w_heap s' (w_arr t) = Some a \<and> w_heap s' (w_new t) = Some b \<and> copy_ok fixed a b t"
      if pc: "w_pc t \<in> {W_copy, W_put, W_publish}"
    proof -
      have "w_private t = Some (w_new t)" using pc by (simp add: w_private_def)
      then show ?thesis using d(8) [OF pc] heap by blast
    qed
  qed (use d in simp_all)
  then show ?thesis by (simp add: w_own_def t')
qed

lemma w_own_see: "w_own fixed j s M st \<Longrightarrow> see M st = st"
proof -
  assume "w_own fixed j s M st"
  then have d: "w_knows fixed s M (w_threads s j) st" by (simp add: w_own_def)
  show "see M st = st"
    using w_knowsD(2-4) [OF d] see_under_way [of _ M st] see_answered [of _ _ M st]
    by (cases "w_pc (w_threads s j)") auto
qed


section \<open>What a step leaves alone\<close>

definition w_good :: "nat \<Rightarrow> nat \<Rightarrow> w_sys \<Rightarrow> (skey_t \<rightharpoonup> sval_t) \<Rightarrow> a_status \<Rightarrow> w_sys \<Rightarrow> bool" where
  "w_good fixed i s M st s' \<longleftrightarrow>
     (\<exists>M' st'. w_shared fixed s' M' \<and> w_own fixed i s' M' st' \<and> (\<forall>j. j \<noteq> i \<longrightarrow> w_rely j s s' M') \<and>
        (M' = M \<and> st' = st \<or> (\<exists>x S r. st = Pending x S \<and> map_step x M = (r, M') \<and> st' = Effected x r)))"

lemma upd_w_sel [simp]:
  "w_heap (upd_w i f s) = w_heap s" "w_locks (upd_w i f s) = w_locks s" "w_array (upd_w i f s) = w_array s"
  "w_hash (upd_w i f s) = w_hash s" "w_threads (upd_w i f s) j = (if j = i then f (w_threads s i) else w_threads s j)"
  by (simp_all add: upd_w_def)

lemma w_bucket_upd [simp]: "w_bucket (upd_w i f s) = w_bucket s"
  by (simp add: w_bucket_def fun_eq_iff)

lemma w_bucket_same [simp]:
  "w_bucket (s\<lparr>w_heap := h\<rparr>) = w_bucket s" "w_bucket (s\<lparr>w_locks := l\<rparr>) = w_bucket s" "w_bucket (s\<lparr>w_array := a\<rparr>) = w_bucket s"
  by (simp_all add: w_bucket_def fun_eq_iff)

lemma w_sharedD:
  assumes "w_shared fixed s M"
  shows "table_ok fixed s M" "w_locks s b = Some i \<longleftrightarrow> w_locked (w_threads s i) \<and> b = w_bucket s (w_threads s i)"
    "w_arr (w_threads s i) = NULL \<or> w_heap s (w_arr (w_threads s i)) \<noteq> None"
    "w_private (w_threads s i) = Some p \<Longrightarrow> p \<noteq> NULL \<and> w_heap s p \<noteq> None"
    "w_private (w_threads s i) = Some p \<Longrightarrow> w_array s (bucket_of (w_hash s) k) \<noteq> p"
    "w_private (w_threads s i) = Some p \<Longrightarrow> w_arr (w_threads s j) \<noteq> p"
    "w_private (w_threads s i) = Some p \<Longrightarrow> w_private (w_threads s j) = Some p \<Longrightarrow> j = i"
  using assms unfolding w_shared_def by blast+

lemma table_okD:
  assumes "table_ok fixed s M"
  shows "\<exists>a. w_heap s (w_array s (bucket_of (w_hash s) k)) = Some a \<and> array_ok fixed a \<and> M k = map_of (al_kvs a) k"
  using assms unfolding table_ok_def by blast

lemma table_keep:
  assumes sh: "w_shared fixed s M" and h: "\<And>p. w_heap s p \<noteq> None \<Longrightarrow> w_private (w_threads s i) \<noteq> Some p \<Longrightarrow> h' p = w_heap s p"
  shows "table_ok fixed (s\<lparr>w_heap := h'\<rparr>) M"
  unfolding table_ok_def
proof
  fix k
  obtain a where a: "w_heap s (w_array s (bucket_of (w_hash s) k)) = Some a" "array_ok fixed a" "M k = map_of (al_kvs a) k"
    using table_okD [OF w_sharedD(1) [OF sh]] by blast
  have "w_private (w_threads s i) \<noteq> Some (w_array s (bucket_of (w_hash s) k))" using w_sharedD(5) [OF sh] by blast
  then have "h' (w_array s (bucket_of (w_hash s) k)) = Some a" using h a(1) by simp
  then show "\<exists>a. w_heap (s\<lparr>w_heap := h'\<rparr>) (w_array (s\<lparr>w_heap := h'\<rparr>) (bucket_of (w_hash (s\<lparr>w_heap := h'\<rparr>)) k)) = Some a \<and>
      array_ok fixed a \<and> M k = map_of (al_kvs a) k"
    using a by simp
qed

lemma w_good_frame:
  assumes e: "s' = upd_w i f (s\<lparr>w_heap := h', w_locks := l, w_array := arr'\<rparr>)" and sh: "w_shared fixed s M"
    and op: "w_op (f (w_threads s i)) = w_op (w_threads s i)"
    and heap: "\<And>p. w_heap s p \<noteq> None \<Longrightarrow> w_private (w_threads s i) \<noteq> Some p \<Longrightarrow> h' p = w_heap s p"
      "\<And>p. w_heap s p \<noteq> None \<Longrightarrow> h' p \<noteq> None"
    and arr: "\<And>b. arr' b \<noteq> w_array s b \<Longrightarrow> w_locked (w_threads s i) \<and> b = w_bucket s (w_threads s i) \<and>
      w_private (w_threads s i) = Some (arr' b) \<and> w_private (f (w_threads s i)) = None"
    and locks: "\<And>j b. j \<noteq> i \<Longrightarrow> l b = Some j \<longleftrightarrow> w_locks s b = Some j"
      "\<And>b. l b = Some i \<longleftrightarrow> w_locked (f (w_threads s i)) \<and> b = w_bucket s (w_threads s i)"
    and ref: "w_arr (f (w_threads s i)) = w_arr (w_threads s i) \<or>
      w_private (f (w_threads s i)) = None \<and> (\<exists>k. w_arr (f (w_threads s i)) = w_array s (bucket_of (w_hash s) k))"
    and new: "\<And>q. w_private (f (w_threads s i)) = Some q \<Longrightarrow> w_private (w_threads s i) = Some q \<or>
      w_heap s q = None \<and> q \<noteq> NULL \<and> h' q \<noteq> None"
    and table: "table_ok fixed (s\<lparr>w_heap := h', w_array := arr'\<rparr>) M'"
    and knows: "w_knows fixed s' M' (f (w_threads s i)) st'"
    and m: "M' = M \<and> st' = st \<or> (\<exists>x S r. st = Pending x S \<and> map_step x M = (r, M') \<and> st' = Effected x r)"
  shows "w_good fixed i s M st s'"
proof -
  let ?t = "w_threads s i"
  have ts: "w_threads s' j = (if j = i then f ?t else w_threads s j)" for j by (simp add: e)
  have same: "w_heap s' = h'" "w_array s' = arr'" "w_hash s' = w_hash s" "w_locks s' = l" by (simp_all add: e)
  have bucket: "w_bucket s' = w_bucket s" by (simp add: w_bucket_def fun_eq_iff same)
  have bi: "w_bucket s (f ?t) = w_bucket s ?t" by (simp add: w_bucket_def op)
  note sD = w_sharedD [OF sh]
  have loaded: "w_heap s (w_array s (bucket_of (w_hash s) k)) \<noteq> None" for k using table_okD [OF sD(1), of k] by auto
  have refs: "w_arr (w_threads s' j) = NULL \<or> w_heap s (w_arr (w_threads s' j)) \<noteq> None" for j
    using sD(3) [of j] ref loaded ts [of j] by (cases "j = i") auto
  have apart: "w_arr (w_threads s' k) \<noteq> p \<and> (\<forall>k. w_array s (bucket_of (w_hash s) k) \<noteq> p) \<and> p \<noteq> NULL \<and> h' p \<noteq> None"
    if j: "w_private (w_threads s' j) = Some p" for j k p
  proof (cases "w_private (w_threads s j) = Some p")
    case True
    have "w_arr (w_threads s' k) \<noteq> p" using sD(5,6) [OF True] ref ts [of k] by (cases "k = i") (simp, metis, simp)
    then show ?thesis using sD(4,5) [OF True] heap(2) by blast
  next
    case False
    then have "j = i" using j ts [of j] by (auto split: if_splits)
    then have p: "w_heap s p = None" "p \<noteq> NULL" "h' p \<noteq> None" using new [of p] j ts [of i] False by auto
    have "w_arr (w_threads s' k) \<noteq> p" using refs [of k] p by auto
    then show ?thesis using p loaded by metis
  qed
  have only: "k = j" if both: "w_private (w_threads s' j) = Some p" "w_private (w_threads s' k) = Some p" for j k p
  proof -
    have fresh: "w_private (w_threads s a) \<noteq> Some p" if "w_heap s p = None" for a using sD(4) [of a p] that by blast
    consider "w_private (w_threads s j) = Some p" "w_private (w_threads s k) = Some p" | "w_heap s p = None"
      using both new [of p] ts [of j] ts [of k] by (cases "j = i"; cases "k = i") auto
    then show ?thesis
    proof cases
      case 1 then show ?thesis by (rule sD(7))
    next
      case 2
      then have "j = i" "k = i" using both fresh ts by (metis)+
      then show ?thesis by simp
    qed
  qed
  have "w_shared fixed s' M'"
    unfolding w_shared_def
  proof (intro conjI allI impI)
    show "table_ok fixed s' M'" using table by (simp add: table_ok_def same)
    show "w_locks s' b = Some j \<longleftrightarrow> w_locked (w_threads s' j) \<and> b = w_bucket s' (w_threads s' j)" for j b
      using sD(2) [of b j] locks ts [of j] bucket bi same by (cases "j = i") simp_all
    show "w_arr (w_threads s' j) = NULL \<or> w_heap s' (w_arr (w_threads s' j)) \<noteq> None" for j
      using refs [of j] heap(2) same by auto
    fix j p assume p: "w_private (w_threads s' j) = Some p"
    show "p \<noteq> NULL" "w_heap s' p \<noteq> None" using apart [OF p] same by auto
    show "w_arr (w_threads s' k) \<noteq> p" for k using apart [OF p] by blast
    show "k = j" if "w_private (w_threads s' k) = Some p" for k by (rule only [OF p that])
    show "w_array s' (bucket_of (w_hash s') k) \<noteq> p" for k
    proof
      assume eq: "w_array s' (bucket_of (w_hash s') k) = p"
      have "w_array s (bucket_of (w_hash s) k) \<noteq> p" using apart [OF p] by blast
      then have "arr' (bucket_of (w_hash s) k) \<noteq> w_array s (bucket_of (w_hash s) k)" using eq same by simp
      from arr [OF this] have q: "w_private ?t = Some p" "w_private (f ?t) = None" using eq same by auto
      then have "j \<noteq> i" using p ts by auto
      then have "w_private (w_threads s j) = Some p" using p ts by simp
      then show False using sD(7) [OF q(1)] \<open>j \<noteq> i\<close> by blast
    qed
  qed
  moreover have "w_own fixed i s' M' st'" using knows ts by (simp add: w_own_def)
  moreover have "w_rely j s s' M'" if j: "j \<noteq> i" for j
    unfolding w_rely_def
  proof (intro conjI allI impI)
    show "w_threads s' j = w_threads s j" "w_hash s' = w_hash s" using j ts same by simp_all
    fix p assume p: "w_heap s p \<noteq> None" "p = w_arr (w_threads s j) \<or> w_private (w_threads s j) = Some p"
    have "w_private ?t \<noteq> Some p" using p(2) sD(6,7) [of i p j] j by blast
    then show "w_heap s' p = w_heap s p" using heap(1) [OF p(1)] same by simp
  next
    assume lj: "w_locked (w_threads s j)"
    show "w_array s' (w_bucket s (w_threads s j)) = w_array s (w_bucket s (w_threads s j))"
    proof (rule ccontr)
      assume "w_array s' (w_bucket s (w_threads s j)) \<noteq> w_array s (w_bucket s (w_threads s j))"
      then have "w_locked ?t" "w_bucket s (w_threads s j) = w_bucket s ?t" using arr same by auto
      then have "w_locks s (w_bucket s ?t) = Some i" "w_locks s (w_bucket s ?t) = Some j" using sD(2) lj by auto
      then show False using j by simp
    qed
  qed
  ultimately show ?thesis using m unfolding w_good_def by blast
qed


lemma w_knows_same:
  "w_heap s' = w_heap s \<Longrightarrow> w_array s' = w_array s \<Longrightarrow> w_hash s' = w_hash s \<Longrightarrow> w_knows fixed s' M t st = w_knows fixed s M t st"
  by (simp add: w_knows_def w_bucket_def)

lemma w_good_local:
  assumes e: "s' = upd_w i f s" and sh: "w_shared fixed s M"
    and op: "w_op (f (w_threads s i)) = w_op (w_threads s i)"
    and locked: "w_locked (f (w_threads s i)) = w_locked (w_threads s i)"
    and ref: "w_arr (f (w_threads s i)) = w_arr (w_threads s i) \<or>
      w_private (f (w_threads s i)) = None \<and> (\<exists>k. w_arr (f (w_threads s i)) = w_array s (bucket_of (w_hash s) k))"
    and new: "w_private (f (w_threads s i)) = None \<or> w_private (f (w_threads s i)) = w_private (w_threads s i)"
    and knows: "w_knows fixed s M (f (w_threads s i)) st"
  shows "w_good fixed i s M st s'"
proof -
  have e': "s' = upd_w i f (s\<lparr>w_heap := w_heap s, w_locks := w_locks s, w_array := w_array s\<rparr>)" by (simp add: e)
  show ?thesis
  proof (rule w_good_frame [OF e' sh op, of M st])
  show "w_locks s b = Some i \<longleftrightarrow> w_locked (f (w_threads s i)) \<and> b = w_bucket s (w_threads s i)" for b
    using w_sharedD(2) [OF sh] locked by simp
  show "w_knows fixed s' M (f (w_threads s i)) st"
    using knows w_knows_same [of s' s] by (simp add: e)
  show "w_private (w_threads s i) = Some q \<or> w_heap s q = None \<and> q \<noteq> NULL \<and> w_heap s q \<noteq> None"
    if "w_private (f (w_threads s i)) = Some q" for q
    using that new by auto
  show "table_ok fixed (s\<lparr>w_heap := w_heap s, w_array := w_array s\<rparr>) M" using w_sharedD(1) [OF sh] by simp
  qed (use ref in simp_all)
qed

section \<open>Arrays\<close>

lemma array_found: "array_ok fixed a \<Longrightarrow> j < length (al_kvs a) \<Longrightarrow> al_kvs a ! j = (k, v) \<Longrightarrow> map_of (al_kvs a) k = Some v \<and> v \<noteq> 0"
  unfolding array_ok_def by (metis imageI map_of_is_SomeI nth_mem snd_conv)

lemma fst_take_Suc: "j < length kvs \<Longrightarrow> fst ` set (take (Suc j) kvs) = insert (fst (kvs ! j)) (fst ` set (take j kvs))"
  by (simp add: take_Suc_conv_app_nth)

lemma array_absent: "k \<notin> fst ` set kvs \<Longrightarrow> map_of kvs k = None"
  by (simp add: map_of_eq_None_iff)

lemma copied_0 [simp]: "copied k 0 kvs = []"
  by (simp add: copied_def)

lemma copied_Suc: "j < length kvs \<Longrightarrow> copied k (Suc j) kvs = (if fst (kvs ! j) = k then copied k j kvs else copied k j kvs @ [kvs ! j])"
  by (simp add: copied_def take_Suc_conv_app_nth)

lemma copied_absent: "k \<notin> fst ` set (take n kvs) \<Longrightarrow> copied k n kvs = take n kvs"
  unfolding copied_def by (rule filter_True) force

lemma copied_length: "length (copied k n kvs) \<le> n"
  unfolding copied_def by (metis length_filter_le length_take min.bounded_iff order_refl order_trans)

lemma map_of_take_Suc:
  assumes "distinct (map fst kvs)" "j < length kvs"
  shows "map_of (take (Suc j) kvs) k = (if fst (kvs ! j) = k then Some (snd (kvs ! j)) else map_of (take j kvs) k)"
proof (cases "fst (kvs ! j) = k")
  case True
  have "distinct (map fst (take (Suc j) kvs))" using assms(1) by (metis distinct_take take_map)
  moreover have "(k, snd (kvs ! j)) \<in> set (take (Suc j) kvs)" using True assms(2) by (auto simp: take_Suc_conv_app_nth)
  ultimately show ?thesis using True by (simp add: map_of_is_SomeI)
next
  case False
  then show ?thesis using assms(2) by (cases "kvs ! j") (simp add: take_Suc_conv_app_nth map_add_def split: option.splits)
qed

lemma copied_map: "map_of (copied k (length kvs) kvs) = (map_of kvs)(k := None)"
  unfolding copied_def take_all [OF order_refl]
  by (induction kvs) (auto simp: fun_eq_iff)

lemma copied_shorter:
  assumes "distinct (map fst kvs)" "k \<in> fst ` set kvs"
  shows "length (copied k (length kvs) kvs) = length kvs - 1"
  using assms
proof (induction kvs)
  case (Cons x kvs)
  show ?case
  proof (cases "fst x = k")
    case True
    then have "k \<notin> fst ` set kvs" using Cons.prems(1) by auto
    then have "filter (\<lambda>kv. fst kv \<noteq> k) kvs = kvs" by (intro filter_True) force
    then show ?thesis using True by (simp add: copied_def)
  next
    case False
    then have m: "k \<in> fst ` set kvs" using Cons.prems(2) by auto
    then have "length kvs \<noteq> 0" by auto
    then show ?thesis using Cons False m by (simp add: copied_def)
  qed
qed simp

lemma copied_ok:
  assumes a: "array_ok fixed a" and k: "k \<in> fst ` set (al_kvs a)" and b: "al_size b = al_size a - 1" "al_kvs b = copied k (length (al_kvs a)) (al_kvs a)"
  shows "array_ok fixed b"
proof -
  have d: "distinct (map fst (al_kvs a))" "length (al_kvs a) \<le> fixed" "0 \<notin> snd ` set (al_kvs a)"
    "unat (al_size a) = length (al_kvs a)" using a by (simp_all add: array_ok_def)
  have len: "length (al_kvs b) = length (al_kvs a) - 1" unfolding b(2) by (rule copied_shorter [OF d(1) k])
  have "length (al_kvs a) \<noteq> 0" using k by auto
  then have "al_size a \<noteq> 0" using d(4) by auto
  then have "unat (al_size b) = length (al_kvs b)" unfolding b(1) len d(4) [symmetric] by (simp add: unat_minus_one)
  moreover have "set (al_kvs b) \<subseteq> set (al_kvs a)" "distinct (map fst (al_kvs b))"
    using d(1) unfolding b(2) copied_def by (auto simp: distinct_map_filter)
  ultimately show ?thesis using d(2,3) len by (auto simp: array_ok_def)
qed

lemma added_ok:
  assumes a: "array_ok fixed a" and k: "k \<notin> fst ` set (al_kvs a)" "v \<noteq> 0"
    and b: "al_size b = al_size a + 1" "al_kvs b = al_kvs a @ [(k, v)]" "length (al_kvs b) \<le> fixed" and f: "fixed < 2 ^ 64"
  shows "array_ok fixed b"
proof -
  have d: "distinct (map fst (al_kvs a))" "0 \<notin> snd ` set (al_kvs a)" "unat (al_size a) = length (al_kvs a)"
    using a by (simp_all add: array_ok_def)
  have "Suc (unat (al_size a)) < 2 ^ 64" using b(2,3) d(3) f by simp
  then have "unat (al_size a + 1) = Suc (unat (al_size a))" by (simp add: unat_word_ariths)
  then show ?thesis using d k b by (auto simp: array_ok_def)
qed


section \<open>The search\<close>

lemma searched_knows:
  assumes w: "under_way (w_op t) M st" "val_ok (w_op t)" "w_removed t = 0"
    and saw: "saw (\<lambda>N. N (op_key (w_op t)) = v) st" and r: "r = 0 \<longleftrightarrow> v = None" "\<And>k. w_op t = Set_Contains k \<Longrightarrow> r = answer v"
  shows "w_knows fixed s M (w_searched r t (w_op t)) st" "w_op (w_searched r t (w_op t)) = w_op t"
    "w_arr (w_searched r t (w_op t)) = w_arr t" "\<not> w_locked (w_searched r t (w_op t))" "w_private (w_searched r t (w_op t)) = None"
proof -
  have ans: "answered (w_op t) q M st" if q: "\<And>N. N (op_key (w_op t)) = v \<Longrightarrow> map_step (w_op t) N = (q, N)" for q
    by (rule saw_answered [OF w(1) saw]) (rule q)
  show "w_knows fixed s M (w_searched r t (w_op t)) st"
  proof (cases "w_op t")
    case (Set_Contains k)
    have "answered (w_op t) r M st" by (rule ans) (use r(2) Set_Contains in simp)
    then show ?thesis using w Set_Contains by (simp add: w_knows_def)
  next
    case (Set_Add k x)
    have "answered (w_op t) 0 M st" if "r \<noteq> 0" by (rule ans) (use r(1) that Set_Add in auto)
    then show ?thesis using w Set_Add by (simp add: w_knows_def)
  next
    case (Set_Remove k)
    have "answered (w_op t) 0 M st" if "r = 0"
      by (rule ans) (use r(1) that Set_Remove in \<open>auto simp: answer_def fun_upd_idem\<close>)
    then show ?thesis using w Set_Remove by (simp add: w_knows_def)
  qed
qed (cases "w_op t"; simp add: w_locked_def w_private_def)+

lemma w_search_step:
  assumes sh: "w_shared fixed s M" and own: "w_own fixed i s M st" and st: "w_step table fixed i p s = Some s'"
    and pc: "w_pc (w_threads s i) \<in> {W_load, W_scan}"
  shows "w_good fixed i s M st s'"
proof -
  define t where "t = w_threads s i"
  let ?k = "op_key (w_op t)"
  have k: "w_knows fixed s M t st" using own by (simp add: w_own_def t_def)
  note d = w_knowsD [OF k]
  have pc': "w_pc t \<in> {W_load, W_scan}" using pc by (simp add: t_def)
  then have w: "under_way (w_op t) M st" "val_ok (w_op t)" "w_removed t = 0" using d(1,4,7) by auto
  have nl: "\<not> w_locked t" "w_private t = None" using pc' by (auto simp: w_locked_def w_private_def)
  show ?thesis
  proof (cases "w_pc t = W_load")
    case True
    have e: "s' = upd_w i (\<lambda>t. t\<lparr>w_arr := w_array s (bucket_of (w_hash s) ?k), w_i := 0, w_pc := W_scan\<rparr>) s"
      using st True by (simp add: w_step_def Let_def t_def)
    obtain a where a: "w_heap s (w_array s (bucket_of (w_hash s) ?k)) = Some a" "array_ok fixed a" "M ?k = map_of (al_kvs a) ?k"
      using table_okD [OF w_sharedD(1) [OF sh]] by blast
    have "saw (\<lambda>N. N ?k = map_of (al_kvs a) ?k) st" using saw_now [OF w(1), of "\<lambda>N. N ?k = map_of (al_kvs a) ?k"] a(3) by simp
    then show ?thesis
      by (intro w_good_local [OF e sh]; (unfold t_def [symmetric])?)
        (use w a nl in \<open>auto simp: w_knows_def scan_ok_def w_locked_def w_private_def\<close>)
  next
    case False
    then have scan: "w_pc t = W_scan" using pc' by simp
    obtain a where a: "w_heap s (w_arr t) = Some a" "array_ok fixed a" "saw (\<lambda>N. N ?k = map_of (al_kvs a) ?k) st"
      "w_i t \<le> length (al_kvs a)" "?k \<notin> fst ` set (take (w_i t) (al_kvs a))"
      using d(5) [OF scan] by (auto simp: scan_ok_def Let_def)
    have len: "unat (al_size a) = length (al_kvs a)" using a(2) by (simp add: array_ok_def)
    show ?thesis
    proof (cases "w_i t < length (al_kvs a)")
      case i: True
      obtain q v where kv: "al_kvs a ! w_i t = (q, v)" by (cases "al_kvs a ! w_i t")
      have e: "s' = upd_w i (\<lambda>t. if q = ?k then w_searched (w_hit table v (w_op t)) t (w_op t) else t\<lparr>w_i := w_i t + 1\<rparr>) s"
        using st scan i len a(1) kv by (simp add: w_step_def Let_def t_def [symmetric] read_kv_def)
      show ?thesis
      proof (cases "q = ?k")
        case True
        have v: "map_of (al_kvs a) ?k = Some v" "v \<noteq> 0" using array_found [OF a(2) i] kv True by blast+
        have e': "s' = upd_w i (\<lambda>t. w_searched (w_hit table v (w_op t)) t (w_op t)) s" using e True by (simp add: upd_w_def t_def)
        have h: "w_hit table v (w_op t) = 0 \<longleftrightarrow> Some v = None" "\<And>k. w_op t = Set_Contains k \<Longrightarrow> w_hit table v (w_op t) = answer (Some v)"
          using v(2) by (cases "w_op t"; simp add: answer_def)+
        note sk = searched_knows [OF w a(3) [unfolded v(1)] h]
        show ?thesis by (rule w_good_local [OF e' sh]; (unfold t_def [symmetric])?) (use sk nl in simp_all)
      next
        case False
        have e': "s' = upd_w i (\<lambda>t. t\<lparr>w_i := w_i t + 1\<rparr>) s" using e False by (simp add: upd_w_def t_def)
        have "?k \<notin> fst ` set (take (Suc (w_i t)) (al_kvs a))" using a(5) False kv fst_take_Suc [OF i] by simp
        then show ?thesis
          by (intro w_good_local [OF e' sh]; (unfold t_def [symmetric])?)
            (use w a nl scan i in \<open>auto simp: w_knows_def scan_ok_def w_locked_def w_private_def\<close>)
      qed
    next
      case False
      then have "w_i t = length (al_kvs a)" using a(4) by simp
      then have none: "map_of (al_kvs a) ?k = None" using a(5) by (intro array_absent) simp
      have e: "s' = upd_w i (\<lambda>t. w_searched 0 t (w_op t)) s"
        using st scan False len a(1) by (simp add: w_step_def Let_def t_def [symmetric])
      note sk = searched_knows [OF w a(3) [unfolded none], of 0]
      show ?thesis by (rule w_good_local [OF e sh]; (unfold t_def [symmetric])?) (use sk nl in \<open>simp_all add: answer_def\<close>)
    qed
  qed
qed


section \<open>The update\<close>

lemma w_lock_step:
  assumes sh: "w_shared fixed s M" and own: "w_own fixed i s M st" and st: "w_step table fixed i p s = Some s'"
    and pc: "w_pc (w_threads s i) \<in> {W_lock, W_old, W_unlock}"
  shows "w_good fixed i s M st s'"
proof -
  define t where "t = w_threads s i"
  let ?b = "w_bucket s t"
  have k: "w_knows fixed s M t st" using own by (simp add: w_own_def t_def)
  note d = w_knowsD [OF k]
  have b: "bucket_of (w_hash s) (op_key (w_op t)) = ?b" by (simp add: w_bucket_def)
  note facts = w_step_def Let_def t_def [symmetric] b lock_n_def unlock_n_def
  note sD = w_sharedD [OF sh]
  have same: "table_ok fixed (s\<lparr>w_heap := w_heap s, w_array := w_array s\<rparr>) M" using sD(1) by simp
  have pc': "w_pc t \<in> {W_lock, W_old, W_unlock}" using pc by (simp add: t_def)
  have priv: "w_private (w_threads s i) = None" using pc by (auto simp: w_private_def)
  show ?thesis
  proof (cases "w_pc t = W_old")
    case True
    have e: "s' = upd_w i (\<lambda>t. t\<lparr>w_arr := w_array s ?b, w_pc := W_alloc\<rparr>) s" using st True by (simp add: facts)
    show ?thesis
      by (rule w_good_local [OF e sh]; (unfold t_def [symmetric])?)
        (use d True in \<open>auto simp: w_knows_def w_locked_def w_private_def w_bucket_def\<close>)
  next
    case old: False
    show ?thesis
    proof (cases "w_pc t = W_lock \<and> w_locks s ?b \<noteq> None")
      case True
      have "upd_w i (\<lambda>t. t) s = s" by (simp add: upd_w_def)
      then have e: "s' = upd_w i (\<lambda>t. t) s" using st True by (auto simp: facts)
      show ?thesis by (rule w_good_local [OF e sh]; (unfold t_def [symmetric])?) (use k in simp_all)
    next
      case False
      define l where "l = (if w_pc t = W_lock then (w_locks s)(?b := Some i) else (w_locks s)(?b := None))"
      define pc2 where "pc2 = (if w_pc t = W_lock then W_old else W_done)"
      have e: "s' = upd_w i (w_goto pc2) (s\<lparr>w_heap := w_heap s, w_locks := l, w_array := w_array s\<rparr>)"
        using st pc' False old by (auto simp: facts l_def pc2_def)
      have mine: "w_locks s c = Some i \<longleftrightarrow> w_pc t \<noteq> W_lock \<and> c = ?b" for c
        using sD(2) [of c i] pc' old by (auto simp: t_def [symmetric] w_locked_def)
      show ?thesis
      proof (rule w_good_frame [OF e sh, of M st]; (unfold t_def [symmetric])?)
        show "l c = Some j \<longleftrightarrow> w_locks s c = Some j" if "j \<noteq> i" for j c
          using that False mine [of ?b] pc' old by (auto simp: l_def)
        show "l c = Some i \<longleftrightarrow> w_locked (w_goto pc2 t) \<and> c = ?b" for c
          using mine [of c] pc' old by (auto simp: l_def pc2_def w_locked_def)
        show "w_private t = Some q \<or> w_heap s q = None \<and> q \<noteq> NULL \<and> w_heap s q \<noteq> None" if "w_private (w_goto pc2 t) = Some q" for q
          using that by (simp add: pc2_def w_private_def split: if_splits)
        have "w_knows fixed s M (w_goto pc2 t) st"
          using d pc' old by (auto simp: pc2_def w_knows_def)
        then show "w_knows fixed s' M (w_goto pc2 t) st" using w_knows_same [of s' s] by (simp add: e)
      qed (use same in simp_all)
    qed
  qed
qed

text \<open>\<open>array_ll_new\<close>.\<close>

lemma w_alloc_step:
  assumes sh: "w_shared fixed s M" and own: "w_own fixed i s M st" and st: "w_step table fixed i p s = Some s'"
    and pc: "w_pc (w_threads s i) = W_alloc"
  shows "w_good fixed i s M st s'"
proof -
  define t where "t = w_threads s i"
  have pc': "w_pc t = W_alloc" using pc by (simp add: t_def)
  have k: "w_knows fixed s M t st" using own by (simp add: w_own_def t_def)
  note d = w_knowsD [OF k]
  obtain a where a: "w_heap s (w_arr t) = Some a" and p: "p \<noteq> NULL" "w_heap s p = None"
    using st pc' by (auto simp: w_step_def Let_def t_def [symmetric] bind_eq_Some_conv split: if_splits)
  define b where "b = \<lparr>al_size = (if is_remove (w_op t) then al_size a - 1 else al_size a + 1), al_kvs = []\<rparr>"
  define f :: "w_thread \<Rightarrow> w_thread" where "f = (\<lambda>t. t\<lparr>w_new := p, w_i := 0, w_pc := W_copy\<rparr>)"
  have e: "s' = upd_w i f (s\<lparr>w_heap := (w_heap s)(p \<mapsto> b), w_locks := w_locks s, w_array := w_array s\<rparr>)"
    using st pc' a p by (simp add: w_step_def Let_def t_def [symmetric] b_def f_def)
  have ap: "w_arr t \<noteq> p" using a p by auto
  show ?thesis
  proof (rule w_good_frame [OF e sh, of M st]; (unfold t_def [symmetric])?)
    show "w_locks s c = Some i \<longleftrightarrow> w_locked (f t) \<and> c = w_bucket s t" for c
      using w_sharedD(2) [OF sh, of c i] pc' by (simp add: t_def [symmetric] w_locked_def f_def)
    show "((w_heap s)(p \<mapsto> b)) q = w_heap s q" if "w_heap s q \<noteq> None" for q using that p by auto
    show "w_private t = Some q \<or> w_heap s q = None \<and> q \<noteq> NULL \<and> ((w_heap s)(p \<mapsto> b)) q \<noteq> None" if "w_private (f t) = Some q" for q
      using that p by (simp add: f_def w_private_def)
    have "table_ok fixed (s\<lparr>w_heap := (w_heap s)(p \<mapsto> b)\<rparr>) M" by (rule table_keep [OF sh, of i]) (use p in auto)
    then show "table_ok fixed (s\<lparr>w_heap := (w_heap s)(p \<mapsto> b), w_array := w_array s\<rparr>) M" by simp
    show "w_knows fixed s' M (f t) st"
      using d pc' a ap unfolding w_knows_def
      by (auto simp: e f_def copy_ok_def b_def answer_def w_bucket_def)
  qed (use f_def in simp_all)
qed

lemma w_copyD:
  assumes sh: "w_shared fixed s M" and k: "w_knows fixed s M (w_threads s i) st" and pc: "w_pc (w_threads s i) \<in> {W_copy, W_put, W_publish}"
  obtains a b where "w_heap s (w_arr (w_threads s i)) = Some a" "w_heap s (w_new (w_threads s i)) = Some b"
    "copy_ok fixed a b (w_threads s i)" "array_ok fixed a" "w_arr (w_threads s i) \<noteq> w_new (w_threads s i)"
    "w_private (w_threads s i) = Some (w_new (w_threads s i))" "w_arr (w_threads s i) = w_array s (w_bucket s (w_threads s i))"
    "\<And>q. bucket_of (w_hash s) q = w_bucket s (w_threads s i) \<Longrightarrow> M q = map_of (al_kvs a) q"
proof -
  let ?t = "w_threads s i"
  obtain a b where ab: "w_heap s (w_arr ?t) = Some a" "w_heap s (w_new ?t) = Some b" "copy_ok fixed a b ?t"
    using w_knowsD(8) [OF k pc] by blast
  have arr: "w_arr ?t = w_array s (w_bucket s ?t)" using w_knowsD(6) [OF k] pc by blast
  have p: "w_private ?t = Some (w_new ?t)" using pc by (simp add: w_private_def)
  have tab: "array_ok fixed a \<and> M q = map_of (al_kvs a) q" if "bucket_of (w_hash s) q = w_bucket s ?t" for q
    using table_okD [OF w_sharedD(1) [OF sh], of q] that arr ab(1) by simp
  then have "array_ok fixed a" using tab [of "op_key (w_op ?t)"] by (simp add: w_bucket_def)
  then show ?thesis using that ab arr p tab w_sharedD(6) [OF sh p] by blast
qed


text \<open>A thread writes to its own array.\<close>

lemma w_good_write:
  assumes e: "s' = upd_w i f (s\<lparr>w_heap := (w_heap s)(w_new (w_threads s i) \<mapsto> b')\<rparr>)" and sh: "w_shared fixed s M"
    and pc: "w_private (w_threads s i) = Some (w_new (w_threads s i))" "w_locked (w_threads s i)"
    and f: "w_op (f (w_threads s i)) = w_op (w_threads s i)" "w_arr (f (w_threads s i)) = w_arr (w_threads s i)"
      "w_locked (f (w_threads s i))" "w_private (f (w_threads s i)) = w_private (w_threads s i)"
    and knows: "w_knows fixed (s\<lparr>w_heap := (w_heap s)(w_new (w_threads s i) \<mapsto> b')\<rparr>) M (f (w_threads s i)) st"
  shows "w_good fixed i s M st s'"
proof -
  let ?h = "(w_heap s)(w_new (w_threads s i) \<mapsto> b')"
  have e': "s' = upd_w i f (s\<lparr>w_heap := ?h, w_locks := w_locks s, w_array := w_array s\<rparr>)" by (simp add: e)
  have "table_ok fixed (s\<lparr>w_heap := ?h\<rparr>) M" by (rule table_keep [OF sh, of i]) (use pc in auto)
  moreover have "w_knows fixed s' M (f (w_threads s i)) st"
    using knows w_knows_same [of s' "s\<lparr>w_heap := ?h\<rparr>"] by (simp add: e)
  moreover have "w_locks s c = Some i \<longleftrightarrow> w_locked (f (w_threads s i)) \<and> c = w_bucket s (w_threads s i)" for c
    using w_sharedD(2) [OF sh, of c i] pc(2) f(3) by simp
  ultimately show ?thesis
    by (intro w_good_frame [OF e' sh f(1), of M st]) (use pc f w_sharedD(4) [OF sh] in auto)
qed

lemma w_copy_step:
  assumes sh: "w_shared fixed s M" and own: "w_own fixed i s M st" and st: "w_step table fixed i p s = Some s'"
    and pc: "w_pc (w_threads s i) = W_copy"
  shows "w_good fixed i s M st s'"
proof -
  define t where "t = w_threads s i"
  let ?k = "op_key (w_op t)"
  have pc': "w_pc t = W_copy" using pc by (simp add: t_def)
  have k: "w_knows fixed s M t st" using own by (simp add: w_own_def t_def)
  note d = w_knowsD [OF k]
  have pcs: "w_pc (w_threads s i) \<in> {W_copy, W_put, W_publish}" using pc by simp
  from w_copyD [OF sh k [unfolded t_def] pcs, folded t_def] obtain a b where
    a: "w_heap s (w_arr t) = Some a" and b: "w_heap s (w_new t) = Some b" and co: "copy_ok fixed a b t" and ok: "array_ok fixed a" and
    ne: "w_arr t \<noteq> w_new t" and priv: "w_private t = Some (w_new t)" and arr: "w_arr t = w_array s (w_bucket s t)" and
    M: "M ?k = map_of (al_kvs a) ?k"
    by (metis w_bucket_def)
  have lk: "w_locked t" using pc' by (simp add: w_locked_def)
  have len: "unat (al_size a) = length (al_kvs a)" "distinct (map fst (al_kvs a))" using ok by (simp_all add: array_ok_def)
  have w: "under_way (w_op t) M st" "val_ok (w_op t)" "\<And>q. w_op t \<noteq> Set_Contains q" using d(1,4,9) pc' by auto
  note wk = w(3) [of ?k]
  note c = co [unfolded copy_ok_def Let_def]
  show ?thesis
  proof (cases "w_i t < length (al_kvs a)")
    case i: True
    obtain q v where kv: "al_kvs a ! w_i t = (q, v)" by (cases "al_kvs a ! w_i t")
    show ?thesis
    proof (cases "q = ?k")
      case True
      have e: "s' = upd_w i (\<lambda>t. w_met v t (w_op t)) s"
        using st pc' i len a kv True by (simp add: w_step_def Let_def t_def [symmetric] read_kv_def upd_w_def)
      show ?thesis
      proof (cases "is_remove (w_op t)")
        case rm: True
        then have m: "w_met v t (w_op t) = t\<lparr>w_removed := v, w_i := w_i t + 1\<rparr>" by (cases "w_op t") simp_all
        have "copy_ok fixed a b (t\<lparr>w_removed := v, w_i := w_i t + 1\<rparr>)"
          using c rm pc' i kv True copied_Suc [OF i, of ?k] map_of_take_Suc [OF len(2) i, of ?k]
          by (auto simp: copy_ok_def Let_def answer_def)
        then have "w_knows fixed s M (w_met v t (w_op t)) st" unfolding m
          using w pc' a b arr by (simp add: w_knows_def w_bucket_def)
        then show ?thesis
          by (intro w_good_local [OF e sh]; (unfold t_def [symmetric])?) (use m lk priv in \<open>auto simp: w_locked_def w_private_def\<close>)
      next
        case add: False
        then have m: "w_met v t (w_op t) = t\<lparr>w_res := 0, w_pc := W_unlock\<rparr>" using wk by (cases "w_op t") simp_all
        have "M ?k = Some v" using M array_found [OF ok i] kv True by simp
        then have "map_step (w_op t) M = (0, M)" using add wk by (cases "w_op t") simp_all
        then have "answered (w_op t) 0 M st" using w(1) by (auto simp: answered_def under_way_def)
        then have "w_knows fixed s M (w_met v t (w_op t)) st" unfolding m using w by (simp add: w_knows_def)
        then show ?thesis
          by (intro w_good_local [OF e sh]; (unfold t_def [symmetric])?) (use m lk priv in \<open>auto simp: w_locked_def w_private_def\<close>)
      qed
    next
      case False
      define b' where "b' = b\<lparr>al_kvs := al_kvs b @ [(q, v)]\<rparr>"
      have e: "s' = upd_w i (\<lambda>t. t\<lparr>w_i := w_i t + 1\<rparr>) (s\<lparr>w_heap := (w_heap s)(w_new (w_threads s i) \<mapsto> b')\<rparr>)"
        using st pc' i len a b kv False
        by (auto simp: w_step_def Let_def t_def [symmetric] read_kv_def write_kv_def b'_def split: if_splits)
      have room: "length (al_kvs b) < fixed"
        using st pc' i len a b kv False
        by (auto simp: w_step_def Let_def t_def [symmetric] read_kv_def write_kv_def split: if_splits)
      have "copy_ok fixed a b' (t\<lparr>w_i := w_i t + 1\<rparr>)"
        using c pc' i kv False room copied_Suc [OF i, of ?k] map_of_take_Suc [OF len(2) i, of ?k] fst_take_Suc [OF i]
        by (auto simp: copy_ok_def Let_def b'_def)
      then have "w_knows fixed (s\<lparr>w_heap := (w_heap s)(w_new t \<mapsto> b')\<rparr>) M (t\<lparr>w_i := w_i t + 1\<rparr>) st"
        using w pc' a ne arr by (simp add: w_knows_def w_bucket_def)
      then show ?thesis
        by (intro w_good_write [OF e sh]; (unfold t_def [symmetric])?) (use pc' in \<open>simp_all add: w_locked_def w_private_def\<close>)
    qed
  next
    case False
    then have i: "w_i t = length (al_kvs a)" using c by simp
    have e: "s' = upd_w i (\<lambda>t. w_copied t (w_op t)) s"
      using st pc' i len a by (simp add: w_step_def Let_def t_def [symmetric] upd_w_def)
    define pc2 where "pc2 = (if is_remove (w_op t) then W_publish else W_put)"
    have m: "w_copied t (w_op t) = w_goto pc2 t" using wk by (cases "w_op t") (simp_all add: pc2_def)
    have "is_remove (w_op t) \<Longrightarrow> new_kv (w_op t) = []" by (cases "w_op t") simp_all
    moreover have "length (al_kvs b) \<le> fixed" using c by blast
    ultimately have "copy_ok fixed a b (w_goto pc2 t)"
      using c i pc' by (cases "is_remove (w_op t)") (simp_all add: copy_ok_def Let_def pc2_def)
    then have "w_knows fixed s M (w_copied t (w_op t)) st" unfolding m
      using w a b arr by (auto simp: w_knows_def w_bucket_def pc2_def)
    then show ?thesis
      by (intro w_good_local [OF e sh]; (unfold t_def [symmetric])?) (use m lk priv in \<open>auto simp: w_locked_def w_private_def pc2_def\<close>)
  qed
qed


lemma w_put_step:
  assumes sh: "w_shared fixed s M" and own: "w_own fixed i s M st" and st: "w_step table fixed i p s = Some s'"
    and pc: "w_pc (w_threads s i) = W_put"
  shows "w_good fixed i s M st s'"
proof -
  define t where "t = w_threads s i"
  have pc': "w_pc t = W_put" using pc by (simp add: t_def)
  have k: "w_knows fixed s M t st" using own by (simp add: w_own_def t_def)
  note d = w_knowsD [OF k]
  have pcs: "w_pc (w_threads s i) \<in> {W_copy, W_put, W_publish}" using pc by simp
  from w_copyD [OF sh k [unfolded t_def] pcs, folded t_def] obtain a b where
    a: "w_heap s (w_arr t) = Some a" and b: "w_heap s (w_new t) = Some b" and co: "copy_ok fixed a b t" and
    ne: "w_arr t \<noteq> w_new t" and arr: "w_arr t = w_array s (w_bucket s t)" by metis
  have w: "under_way (w_op t) M st" "val_ok (w_op t)" "\<And>q. w_op t \<noteq> Set_Contains q" using d(1,4,9) pc' by auto
  obtain kk v where op: "w_op t = Set_Add kk v"
    using d(10) [OF pc'] w(3) [of "op_key (w_op t)"] by (cases "w_op t") auto
  define b' where "b' = b\<lparr>al_kvs := al_kvs b @ [(kk, v)]\<rparr>"
  have room: "length (al_kvs b) < fixed"
    and e: "s' = upd_w i (\<lambda>t. t\<lparr>w_res := 1, w_pc := W_publish\<rparr>) (s\<lparr>w_heap := (w_heap s)(w_new (w_threads s i) \<mapsto> b')\<rparr>)"
    using st pc' op b by (auto simp: w_step_def Let_def t_def [symmetric] write_kv_def b'_def split: if_splits)
  have "copy_ok fixed a b' (t\<lparr>w_res := 1, w_pc := W_publish\<rparr>)"
    using co pc' op room by (auto simp: copy_ok_def Let_def b'_def)
  then have "w_knows fixed (s\<lparr>w_heap := (w_heap s)(w_new t \<mapsto> b')\<rparr>) M (t\<lparr>w_res := 1, w_pc := W_publish\<rparr>) st"
    using w op a ne arr by (simp add: w_knows_def w_bucket_def)
  then show ?thesis
    by (intro w_good_write [OF e sh]; (unfold t_def [symmetric])?) (use pc' in \<open>simp_all add: w_locked_def w_private_def\<close>)
qed

text \<open>\<open>set->array[bucket] = all_new\<close>, where an update takes place.\<close>

lemma table_replaced:
  assumes sh: "w_shared fixed s M" and b: "w_heap s q = Some b" "array_ok fixed b"
    and in_bucket: "\<And>k. bucket_of (w_hash s) k = c \<Longrightarrow> M' k = map_of (al_kvs b) k"
    and out: "\<And>k. bucket_of (w_hash s) k \<noteq> c \<Longrightarrow> M' k = M k"
  shows "table_ok fixed (s\<lparr>w_heap := w_heap s, w_array := (w_array s)(c := q)\<rparr>) M'"
  unfolding table_ok_def
proof
  fix k
  show "\<exists>a. w_heap (s\<lparr>w_heap := w_heap s, w_array := (w_array s)(c := q)\<rparr>)
        (w_array (s\<lparr>w_heap := w_heap s, w_array := (w_array s)(c := q)\<rparr>)
          (bucket_of (w_hash (s\<lparr>w_heap := w_heap s, w_array := (w_array s)(c := q)\<rparr>)) k)) = Some a \<and>
      array_ok fixed a \<and> M' k = map_of (al_kvs a) k"
    using b in_bucket [of k] out [of k] table_okD [OF w_sharedD(1) [OF sh], of k] by (cases "bucket_of (w_hash s) k = c") simp_all
qed

lemma w_publish_step:
  assumes sh: "w_shared fixed s M" and own: "w_own fixed i s M st" and st: "w_step table fixed i p s = Some s'"
    and pc: "w_pc (w_threads s i) = W_publish" and fixed: "fixed < 2 ^ 64"
  shows "w_good fixed i s M st s'"
proof -
  define t where "t = w_threads s i"
  let ?k = "op_key (w_op t)" and ?b = "w_bucket s t"
  have pc': "w_pc t = W_publish" using pc by (simp add: t_def)
  have k: "w_knows fixed s M t st" using own by (simp add: w_own_def t_def)
  note d = w_knowsD [OF k]
  have pcs: "w_pc (w_threads s i) \<in> {W_copy, W_put, W_publish}" using pc by simp
  from w_copyD [OF sh k [unfolded t_def] pcs, folded t_def] obtain a b where
    a: "w_heap s (w_arr t) = Some a" and b: "w_heap s (w_new t) = Some b" and co: "copy_ok fixed a b t" and ok: "array_ok fixed a" and
    priv: "w_private t = Some (w_new t)" and M: "\<And>q. bucket_of (w_hash s) q = ?b \<Longrightarrow> M q = map_of (al_kvs a) q"
    by metis
  have kb: "bucket_of (w_hash s) ?k = ?b" by (simp add: w_bucket_def)
  have lk: "w_locked t" using pc' by (simp add: w_locked_def)
  have w: "under_way (w_op t) M st" "val_ok (w_op t)" "\<And>q. w_op t \<noteq> Set_Contains q" using d(1,4,9) pc' by auto
  note c = co [unfolded copy_ok_def Let_def pc', simplified]
  have ia: "w_i t = length (al_kvs a)" using c by simp
  then have ta: "take (w_i t) (al_kvs a) = al_kvs a" by simp
  have published: "w_good fixed i s M st s'"
    if e: "s' = upd_w i (\<lambda>t. t\<lparr>w_res := r, w_pc := W_unlock\<rparr>) (s\<lparr>w_array := (w_array s)(?b := w_new t)\<rparr>)"
      and okb: "array_ok fixed b" and step: "map_step (w_op t) M = (r, M')"
      and eq: "\<And>q. bucket_of (w_hash s) q = ?b \<Longrightarrow> M' q = map_of (al_kvs b) q" "\<And>q. bucket_of (w_hash s) q \<noteq> ?b \<Longrightarrow> M' q = M q"
    for r M'
  proof -
    have e': "s' = upd_w i (\<lambda>t. t\<lparr>w_res := r, w_pc := W_unlock\<rparr>)
        (s\<lparr>w_heap := w_heap s, w_locks := w_locks s, w_array := (w_array s)(?b := w_new t)\<rparr>)" by (simp add: e)
    show ?thesis
    proof (rule w_good_frame [OF e' sh, of M' "Effected (w_op t) r"]; (unfold t_def [symmetric])?)
      show "w_locked t \<and> q = ?b \<and> w_private t = Some (((w_array s)(?b := w_new t)) q) \<and> w_private (t\<lparr>w_res := r, w_pc := W_unlock\<rparr>) = None"
        if "((w_array s)(?b := w_new t)) q \<noteq> w_array s q" for q
        using that priv lk by (auto simp: w_private_def split: if_splits)
      show "w_locks s q = Some i \<longleftrightarrow> w_locked (t\<lparr>w_res := r, w_pc := W_unlock\<rparr>) \<and> q = ?b" for q
        using w_sharedD(2) [OF sh, of q i] lk by (simp add: t_def [symmetric]) (simp add: w_locked_def)
      show "table_ok fixed (s\<lparr>w_heap := w_heap s, w_array := (w_array s)(?b := w_new t)\<rparr>) M'"
        by (rule table_replaced [OF sh b okb]) (use eq in simp_all)
      show "w_knows fixed s' M' (t\<lparr>w_res := r, w_pc := W_unlock\<rparr>) (Effected (w_op t) r)"
        using w by (simp add: w_knows_def answered_def)
      show "M' = M \<and> Effected (w_op t) r = st \<or>
          (\<exists>x S q. st = Pending x S \<and> map_step x M = (q, M') \<and> Effected (w_op t) r = Effected x q)"
        using under_way_Pending [OF w(1)] step by blast
      show "w_private t = Some q \<or> w_heap s q = None \<and> q \<noteq> NULL \<and> w_heap s q \<noteq> None"
        if "w_private (t\<lparr>w_res := r, w_pc := W_unlock\<rparr>) = Some q" for q
        using that by (simp add: w_private_def)
    qed simp_all
  qed
  show ?thesis
  proof (cases "is_remove (w_op t)")
    case True
    obtain kk where op: "w_op t = Set_Remove kk" using True by (cases "w_op t") simp_all
    have rem: "w_removed t = answer (M ?k)" using c True ta M [OF kb] by simp
    have kvs: "al_kvs b = copied ?k (length (al_kvs a)) (al_kvs a)" using c ia op by simp
    have step: "map_step (w_op t) M = (w_removed t, M(?k := None))" using rem op by simp
    show ?thesis
    proof (cases "w_removed t = 0")
      case z: True
      have e: "s' = upd_w i (\<lambda>t. t\<lparr>w_res := 0, w_pc := W_unlock\<rparr>) s"
        using st pc' True z by (simp add: w_step_def Let_def t_def [symmetric])
      have none: "M ?k = None"
      proof (rule ccontr)
        assume "M ?k \<noteq> None"
        then obtain v where v: "M ?k = Some v" by blast
        then have "(?k, v) \<in> set (al_kvs a)" using M [OF kb] by (simp add: map_of_SomeD)
        then have "v \<noteq> 0" using ok by (force simp: array_ok_def)
        then show False using rem v z by (simp add: answer_def)
      qed
      then have "map_step (w_op t) M = (0, M)" using step z by (simp add: fun_upd_idem)
      then have "answered (w_op t) 0 M st" using w(1) by (auto simp: answered_def under_way_def)
      then have "w_knows fixed s M (t\<lparr>w_res := 0, w_pc := W_unlock\<rparr>) st" using w by (simp add: w_knows_def)
      then show ?thesis
        by (intro w_good_local [OF e sh]; (unfold t_def [symmetric])?) (use lk in \<open>simp_all add: w_locked_def w_private_def\<close>)
    next
      case nz: False
      have e: "s' = upd_w i (\<lambda>t. t\<lparr>w_res := w_removed (w_threads s i), w_pc := W_unlock\<rparr>) (s\<lparr>w_array := (w_array s)(?b := w_new t)\<rparr>)"
        using st pc' True nz kb by (simp add: w_step_def Let_def t_def [symmetric] upd_w_def)
      have "M ?k \<noteq> None" using rem nz by (cases "M ?k") (simp_all add: answer_def)
      then have "?k \<in> fst ` set (al_kvs a)" using M [OF kb] by (simp add: map_of_eq_None_iff)
      then have okb: "array_ok fixed b" using copied_ok [OF ok _ _ kvs] c True by simp
      show ?thesis
      proof (rule published [OF e okb])
        show "map_step (w_op t) M = (w_removed (w_threads s i), M(?k := None))" using step by (simp add: t_def)
        show "(M(?k := None)) q = map_of (al_kvs b) q" if "bucket_of (w_hash s) q = ?b" for q
          unfolding kvs copied_map using M [OF that] by simp
        show "(M(?k := None)) q = M q" if "bucket_of (w_hash s) q \<noteq> ?b" for q using that kb by auto
      qed
    qed
  next
    case False
    obtain kk v where op: "w_op t = Set_Add kk v" using False w(3) [of ?k] by (cases "w_op t") simp_all
    have absent: "kk \<notin> fst ` set (al_kvs a)" using c False ta op by simp
    have kvs: "al_kvs b = al_kvs a @ [(kk, v)]" using c ia op copied_absent [of kk "length (al_kvs a)" "al_kvs a"] absent by simp
    have e: "s' = upd_w i (\<lambda>t. t\<lparr>w_res := 1, w_pc := W_unlock\<rparr>) (s\<lparr>w_array := (w_array s)(?b := w_new t)\<rparr>)"
      using st pc' False kb op by (simp add: w_step_def Let_def t_def [symmetric] upd_w_def)
    have l: "length (al_kvs b) \<le> fixed" using c by blast
    have sz: "al_size b = al_size a + 1" using c False by simp
    have okb: "array_ok fixed b" by (rule added_ok [OF ok absent _ sz kvs l fixed]) (use w(2) op in simp)
    have none: "map_of (al_kvs a) kk = None" by (rule array_absent [OF absent])
    have Mk: "M kk = None" using M [of kk] kb op none by simp
    show ?thesis
    proof (rule published [OF e okb])
      show "map_step (w_op t) M = (1, M(kk \<mapsto> v))" using Mk op by simp
      show "(M(kk \<mapsto> v)) q = map_of (al_kvs b) q" if "bucket_of (w_hash s) q = ?b" for q
        unfolding kvs using M [OF that] none by (auto simp: map_add_def split: option.splits)
      show "(M(kk \<mapsto> v)) q = M q" if "bucket_of (w_hash s) q \<noteq> ?b" for q using that kb op by auto
    qed
  qed
qed


lemma w_step_good:
  assumes "w_shared fixed s M" "w_own fixed i s M st" "w_step table fixed i p s = Some s'" "fixed < 2 ^ 64"
  shows "w_good fixed i s M st s'"
proof (cases "w_pc (w_threads s i)")
  case W_idle then show ?thesis using assms(3) by (simp add: w_step_def)
next
  case W_done then show ?thesis using assms(3) by (simp add: w_step_def)
next
  case W_alloc then show ?thesis by (rule w_alloc_step [OF assms(1-3)])
next
  case W_copy then show ?thesis by (rule w_copy_step [OF assms(1-3)])
next
  case W_put then show ?thesis by (rule w_put_step [OF assms(1-3)])
next
  case W_publish then show ?thesis by (rule w_publish_step [OF assms(1-3) _ assms(4)])
qed (use w_search_step [OF assms(1-3)] w_lock_step [OF assms(1-3)] in simp_all)

section \<open>Calls and returns\<close>

lemma w_quiet_good:
  assumes sh: "w_shared fixed s M" and pc: "\<not> w_locked (w_threads s i)"
    and f: "\<not> w_locked (f (w_threads s i))" "w_private (f (w_threads s i)) = None" "w_arr (f (w_threads s i)) = w_arr (w_threads s i)"
  shows "w_shared fixed (upd_w i f s) M" "j \<noteq> i \<Longrightarrow> w_rely j s (upd_w i f s) M"
proof -
  have priv: "w_private (w_threads s i) = None" using pc by (auto simp: w_private_def w_locked_def)
  have ts: "w_private (w_threads (upd_w i f s) j) = w_private (w_threads s j)" "w_arr (w_threads (upd_w i f s) j) = w_arr (w_threads s j)"
    "w_locked (w_threads (upd_w i f s) j) \<and> b = w_bucket s (w_threads (upd_w i f s) j) \<longleftrightarrow> w_locked (w_threads s j) \<and> b = w_bucket s (w_threads s j)"
    for j b
    using f pc priv by auto
  show "w_shared fixed (upd_w i f s) M"
    using sh unfolding w_shared_def ts w_bucket_upd upd_w_sel(1-4) table_ok_def by simp
  show "j \<noteq> i \<Longrightarrow> w_rely j s (upd_w i f s) M" by (simp add: w_rely_def)
qed

lemma w_call_good:
  assumes sh: "w_shared fixed s M" and own: "w_own fixed i s M st" and c: "w_call ro i x s = Some s'"
  shows "st = A_idle \<and> w_shared fixed s' M \<and> w_own fixed i s' M (Pending x {M}) \<and> (\<forall>j. j \<noteq> i \<longrightarrow> w_rely j s s' M)"
proof -
  define f :: "w_thread \<Rightarrow> w_thread" where "f = (\<lambda>t. t\<lparr>w_op := x, w_removed := 0, w_pc := w_entry ro x\<rparr>)"
  have pc: "w_pc (w_threads s i) = W_idle" and v: "val_ok x" and s': "s' = upd_w i f s"
    using c by (auto simp: w_call_def f_def split: if_splits)
  have "st = A_idle" using w_knowsD(2) own pc unfolding w_own_def by blast
  moreover have e: "w_entry ro x = W_load \<or> w_entry ro x = W_lock \<and> (\<forall>k. x \<noteq> Set_Contains k)" by (cases x) simp_all
  moreover have "w_own fixed i s' M (Pending x {M})"
    using v e by (auto simp: w_own_def s' f_def w_knows_def under_way_def)
  moreover have "\<not> w_locked (w_threads s i)" using pc by (simp add: w_locked_def)
  moreover have "\<not> w_locked (f (w_threads s i))" "w_private (f (w_threads s i)) = None" "w_arr (f (w_threads s i)) = w_arr (w_threads s i)"
    using e by (auto simp: f_def w_locked_def w_private_def)
  ultimately show ?thesis using w_quiet_good [OF sh] s' by blast
qed

lemma w_ret_good:
  assumes sh: "w_shared fixed s M" and own: "w_own fixed i s M st" and c: "w_ret i s = Some (r, s')"
  shows "(\<exists>x. answered x r M st) \<and> w_shared fixed s' M \<and> w_own fixed i s' M A_idle \<and> (\<forall>j. j \<noteq> i \<longrightarrow> w_rely j s s' M)"
proof -
  have pc: "w_pc (w_threads s i) = W_done" and r: "r = w_res (w_threads s i)" and s': "s' = upd_w i (w_goto W_idle) s"
    using c by (auto simp: w_ret_def split: if_splits)
  have "w_knows fixed s M (w_threads s i) st" using own by (simp add: w_own_def)
  from w_knowsD(3) [OF this] have "answered (w_op (w_threads s i)) r M st" using pc r by simp
  moreover have "w_own fixed i s' M A_idle" by (simp add: w_own_def s' w_knows_def)
  moreover have "\<not> w_locked (w_threads s i)" using pc by (simp add: w_locked_def)
  moreover have "\<not> w_locked (w_goto W_idle (w_threads s i))" "w_private (w_goto W_idle (w_threads s i)) = None"
    by (simp_all add: w_locked_def w_private_def)
  ultimately show ?thesis using w_quiet_good [OF sh, of i "w_goto W_idle"] s' by auto
qed

interpretation cow: thread_object "w_call ro" "w_step table (unat (fixed :: u64))" w_ret "w_shared (unat fixed)" "w_own (unat fixed)" w_rely
  for ro table fixed
proof unfold_locales
  let ?n = "unat fixed"
  show "w_own ?n j s' M' (see M' st)" if "w_own ?n j s M st" "w_rely j s s' M'" for s M s' M' j st by (rule w_own_rely [OF that])
  show "see M st = st" if "w_own ?n j s M st" for j s M st by (rule w_own_see [OF that])
  show "st = A_idle \<and> w_shared ?n s' M \<and> w_own ?n i s' M (Pending x {M}) \<and> (\<forall>j. j \<noteq> i \<longrightarrow> w_rely j s s' M)"
    if "w_shared ?n s M" "w_own ?n i s M st" "w_call ro i x s = Some s'" for s M i st x s' by (rule w_call_good [OF that])
  show "(\<exists>x. answered x r M st) \<and> w_shared ?n s' M \<and> w_own ?n i s' M A_idle \<and> (\<forall>j. j \<noteq> i \<longrightarrow> w_rely j s s' M)"
    if "w_shared ?n s M" "w_own ?n i s M st" "w_ret i s = Some (r, s')" for s M i st r s' by (rule w_ret_good [OF that])
  show "\<exists>M' st'. w_shared ?n s' M' \<and> w_own ?n i s' M' st' \<and> (\<forall>j. j \<noteq> i \<longrightarrow> w_rely j s s' M') \<and>
      (M' = M \<and> st' = st \<or> (\<exists>x S r. st = Pending x S \<and> map_step x M = (r, M') \<and> st' = Effected x r))"
    if "w_shared ?n s M" "w_own ?n i s M st" "w_step table ?n i p s = Some s'" for s M i st p s'
    using w_step_good [OF that] unsigned_less [of fixed] unfolding w_good_def by simp
qed

lemma bucket_bound: "n \<noteq> 0 \<Longrightarrow> bucket_of (n - 1) k < unat n"
proof -
  assume n: "n \<noteq> 0"
  have "of_int k AND (n - 1) \<le> n - 1" by (rule word_and_le1)
  then have "bucket_of (n - 1) k \<le> unat (n - 1)" unfolding bucket_of_def by (simp add: word_le_nat_alt)
  moreover have "unat (n - 1) = unat n - 1" using n by (rule unat_minus_one)
  moreover have "unat n \<noteq> 0" using n by (simp add: unat_eq_0)
  ultimately show ?thesis by simp
qed

lemma w_init_inv:
  assumes "n \<noteq> 0"
  shows "cow.all_inv fixed (w_init n arr) Map.empty (\<lambda>_. A_idle)"
proof -
  have "table_ok (unat fixed) (w_init n arr) Map.empty"
    unfolding table_ok_def
  proof
    fix k
    have "arr (bucket_of (n - 1) k) \<in> arr ` {..<unat n}" using bucket_bound [OF assms] by blast
    then show "\<exists>a. w_heap (w_init n arr) (w_array (w_init n arr) (bucket_of (w_hash (w_init n arr)) k)) = Some a \<and>
        array_ok (unat fixed) a \<and> Map.empty k = map_of (al_kvs a) k"
      by (simp add: w_init_def array_ok_def)
  qed
  then have "w_shared (unat fixed) (w_init n arr) Map.empty"
    by (simp add: w_shared_def) (simp add: w_init_def w_idle_def w_locked_def w_private_def)
  moreover have "w_own (unat fixed) i (w_init n arr) Map.empty A_idle" for i
    by (simp add: w_own_def w_init_def w_idle_def w_knows_def)
  ultimately show ?thesis by (simp add: cow.all_inv_def)
qed

text \<open>Where a step has no result.\<close>

lemma w_step_None:
  assumes sh: "w_shared fixed s M" and own: "w_own fixed i s M st" and p: "w_heap s p = None" "p \<noteq> NULL"
  shows "w_step table fixed i p s = None \<longleftrightarrow> w_pc (w_threads s i) \<in> {W_idle, W_done} \<or>
      w_pc (w_threads s i) = W_put \<and> (\<exists>a. w_heap s (w_arr (w_threads s i)) = Some a \<and> length (al_kvs a) = fixed)"
proof -
  define t where "t = w_threads s i"
  have k: "w_knows fixed s M t st" using own by (simp add: w_own_def t_def)
  note d = w_knowsD [OF k] and facts = w_step_def Let_def t_def [symmetric] read_kv_def
  have "w_step table fixed i p s = None \<longleftrightarrow> w_pc t \<in> {W_idle, W_done} \<or>
      w_pc t = W_put \<and> (\<exists>a. w_heap s (w_arr t) = Some a \<and> length (al_kvs a) = fixed)"
  proof (cases "w_pc t")
    case W_scan
    then obtain a where a: "w_heap s (w_arr t) = Some a" "array_ok fixed a" using d(5) by (auto simp: scan_ok_def Let_def)
    then have "unat (al_size a) = length (al_kvs a)" by (simp add: array_ok_def)
    then show ?thesis using W_scan a(1) by (auto simp: facts split: prod.splits)
  next
    case W_alloc
    have "w_arr t = w_array s (w_bucket s t)" using d(6) W_alloc by simp
    then obtain a where "w_heap s (w_arr t) = Some a"
      using table_okD [OF w_sharedD(1) [OF sh], of "op_key (w_op t)"] by (auto simp: w_bucket_def)
    then show ?thesis using W_alloc p by (auto simp: facts)
  next
    case W_copy
    then have pcs: "w_pc (w_threads s i) \<in> {W_copy, W_put, W_publish}" by (simp add: t_def)
    from w_copyD [OF sh k [unfolded t_def] pcs, folded t_def] obtain a b where
      a: "w_heap s (w_arr t) = Some a" and b: "w_heap s (w_new t) = Some b" and co: "copy_ok fixed a b t" and ok: "array_ok fixed a"
      by metis
    have len: "unat (al_size a) = length (al_kvs a)" "length (al_kvs a) \<le> fixed" using ok by (simp_all add: array_ok_def)
    have "length (al_kvs b) \<le> w_i t"
      using co W_copy copied_length [of "op_key (w_op t)" "w_i t" "al_kvs a"] by (auto simp: copy_ok_def Let_def)
    then show ?thesis using W_copy a b len by (auto simp: facts write_kv_def split: prod.splits if_splits)
  next
    case W_put
    then have pcs: "w_pc (w_threads s i) \<in> {W_copy, W_put, W_publish}" by (simp add: t_def)
    from w_copyD [OF sh k [unfolded t_def] pcs, folded t_def] obtain a b where
      a: "w_heap s (w_arr t) = Some a" and b: "w_heap s (w_new t) = Some b" and co: "copy_ok fixed a b t"
      by metis
    have rm: "\<not> is_remove (w_op t)" by (rule d(10) [OF W_put])
    obtain kk v where op: "w_op t = Set_Add kk v" using rm d(9) [of "op_key (w_op t)"] W_put by (cases "w_op t") auto
    note c = co [unfolded copy_ok_def Let_def W_put, simplified]
    have wi: "w_i t = length (al_kvs a)" using c by blast
    have "kk \<notin> fst ` set (take (w_i t) (al_kvs a))" "al_kvs b = copied kk (w_i t) (al_kvs a)"
      using c rm by (auto simp: op)
    then have "al_kvs b = al_kvs a" using wi copied_absent [of kk "length (al_kvs a)" "al_kvs a"] by simp
    moreover have "length (al_kvs b) \<le> fixed" using c by blast
    ultimately show ?thesis using W_put op a b by (auto simp: facts write_kv_def)
  qed (auto simp: facts lock_n_def)
  then show ?thesis by (simp add: t_def)
qed

lemma cow_list_linearizable:
  assumes "object_exec (w_call ro) (cow_list_step (unat (fixed :: u64))) w_ret (cow_list_new a) tr s"
  shows "\<exists>M st. table_ok (unat fixed) s M \<and> atomic_exec tr M st"
proof -
  have "cow.all_inv fixed (cow_list_new a) Map.empty (\<lambda>_. A_idle)" unfolding cow_list_new_def by (rule w_init_inv) simp
  from cow.linearizable [OF assms [unfolded cow_list_step_def] this] show ?thesis
    using w_sharedD(1) unfolding cow.all_inv_def by blast
qed

section \<open>Properties\<close>

text \<open>C12: The copy-on-write hash table, and so the copy-on-write list, is linearizable. Any number of threads
  call \<open>cpy_search\<close>, \<open>cpy_insert\<close> and \<open>cpy_delete\<close>, interleaved one access at a time, with and without the
  read-only failure path: what they are told is what threads on an atomic map are told, also for
  \<open>cpy_search\<close>, which takes no lock and may read an array that has been replaced. At every moment the
  arrays of the buckets hold the map: different keys, values other than 0, as many entries as \<open>size\<close> says.\<close>

theorem copy_linearizable:
  assumes "num_buckets \<noteq> 0" "object_exec (w_call ro) (w_step table (unat (fixed :: u64))) w_ret (w_init num_buckets arr) tr s"
  shows "\<exists>M st. table_ok (unat fixed) s M \<and> atomic_exec tr M st"
  using cow.linearizable [OF assms(2) w_init_inv [OF assms(1)]] w_sharedD(1) unfolding cow.all_inv_def by blast

text \<open>C30: The only access out of bounds is that of an insertion into a full array. At every point of an
  execution the next access of a thread inside an operation is to mapped memory and to an entry that has
  been written, except that \<open>cpy_insert\<close>, which does not compare with \<open>array_ll_fixed_size\<close>, writes
  behind the end of the new array when the old one has that many entries.\<close>

theorem copy_faults_only_full:
  assumes "num_buckets \<noteq> 0" "object_exec (w_call ro) (w_step table (unat (fixed :: u64))) w_ret (w_init num_buckets arr) tr s"
    "w_heap s p = None" "p \<noteq> NULL"
  shows "{i. w_step table (unat fixed) i p s = None} =
    {i. w_pc (w_threads s i) \<in> {W_idle, W_done}} \<union>
    {i. w_pc (w_threads s i) = W_put \<and> (\<exists>a. w_heap s (w_arr (w_threads s i)) = Some a \<and> length (al_kvs a) = unat fixed)}"
proof -
  obtain M st where inv: "cow.all_inv fixed s M st"
    using cow.reachable_inv [OF assms(2) w_init_inv [OF assms(1)]] by blast
  then have sh: "w_shared (unat fixed) s M" and own: "\<And>j. w_own (unat fixed) j s M (st j)" by (simp_all add: cow.all_inv_def)
  have "w_step table (unat fixed) i p s = None \<longleftrightarrow> w_pc (w_threads s i) \<in> {W_idle, W_done} \<or>
      w_pc (w_threads s i) = W_put \<and> (\<exists>a. w_heap s (w_arr (w_threads s i)) = Some a \<and> length (al_kvs a) = unat fixed)" for i
    by (rule w_step_None [OF sh own assms(3,4)])
  then show ?thesis by blast
qed


section \<open>Witnesses\<close>

text \<open>Two buckets. Thread 1 is reading the array of the first when thread 0 replaces it.\<close>

definition copy_race :: "(nat \<times> o_action) list" where
  "copy_race =
     (0, O_call (Set_Add 4 40)) # replicate 7 (0, O_step 192) @ [(0, O_return), (1, O_call (Set_Contains 4)), (1, O_step 0)] @
     (0, O_call (Set_Remove 4)) # replicate 7 (0, O_step 256) @ [(0, O_return)] @ replicate 1 (1, O_step 0) @ [(1, O_return)]"

lemma copy_linearizable_witness:
  "\<exists>(s :: w_sys) M st. table_ok 8 s M \<and> w_array s 0 = 256 \<and>
     atomic_exec [(0, Called (Set_Add 4 40)), (0, Returned 1), (1, Called (Set_Contains 4)), (0, Called (Set_Remove 4)),
       (0, Returned 40), (1, Returned 40)] M st"
proof -
  define arr :: "nat \<Rightarrow> ptr" where "arr = (\<lambda>b. if b = 0 then 64 else 128)"
  have "case object_run (w_call False) (w_step True (unat (8 :: u64))) w_ret copy_race (w_init 2 arr) of None \<Rightarrow> False
    | Some (tr, s) \<Rightarrow> tr = [(0, Called (Set_Add 4 40)), (0, Returned 1), (1, Called (Set_Contains 4)), (0, Called (Set_Remove 4)),
       (0, Returned 40), (1, Returned 40)] \<and> w_array s 0 = 256"
    unfolding arr_def by code_simp
  then obtain s where s: "object_run (w_call False) (w_step True (unat (8 :: u64))) w_ret copy_race (w_init 2 arr) =
      Some ([(0, Called (Set_Add 4 40)), (0, Returned 1), (1, Called (Set_Contains 4)), (0, Called (Set_Remove 4)),
       (0, Returned 40), (1, Returned 40)], s)" "w_array s 0 = 256"
    by (auto split: option.splits)
  have two: "(2 :: u64) \<noteq> 0" by simp
  from copy_linearizable [OF two object_run_exec [OF s(1) object_start, unfolded append_Nil]] s(2) show ?thesis by auto
qed

lemma w_others:
  "w_step table fixed i p s = Some s' \<Longrightarrow> j \<noteq> i \<Longrightarrow> w_threads s' j = w_threads s j"
  "w_call ro i x s = Some s' \<Longrightarrow> j \<noteq> i \<Longrightarrow> w_threads s' j = w_threads s j"
  "w_ret i s = Some (r, s') \<Longrightarrow> j \<noteq> i \<Longrightarrow> w_threads s' j = w_threads s j"
proof -
  assume st: "w_step table fixed i p s = Some s'" and j: "j \<noteq> i"
  show "w_threads s' j = w_threads s j"
  proof (cases "w_pc (w_threads s i)")
    case W_put
    then show ?thesis using st j by (cases "w_op (w_threads s i)") (auto simp: w_step_def Let_def bind_eq_Some_conv)
  qed (use st j in \<open>auto simp: w_step_def Let_def bind_eq_Some_conv split: if_splits prod.splits\<close>)
qed (auto simp: w_call_def w_ret_def split: if_splits)

lemma w_run_others:
  "object_run (w_call ro) (w_step table fixed) w_ret as s = Some (tr, s') \<Longrightarrow> j \<notin> fst ` set as \<Longrightarrow> w_threads s' j = w_threads s j"
  by (rule object_run_others [of j "w_call ro" "\<lambda>s. w_threads s j" "w_step table fixed" w_ret])
    (erule w_others(2), simp, erule w_others(1), simp, erule w_others(3), simp, assumption+)

text \<open>Room for one entry in a bucket: a second key with the same hash is written behind the end.\<close>

lemma copy_faults_only_full_witness:
  "\<exists>s :: w_sys. {i. w_step True 1 i 320 s = None} = - {0} \<union> {0} \<and> w_pc (w_threads s 0) = W_put"
proof -
  define arr :: "nat \<Rightarrow> ptr" where "arr = (\<lambda>b. if b = 0 then 64 else 128)"
  define as where "as = (0 :: nat, O_call (Set_Add 4 40)) # replicate 7 (0, O_step 192) @ [(0, O_return), (0, O_call (Set_Add 6 60))] @
    replicate 5 (0, O_step 256)"
  have "case object_run (w_call False) (w_step True (unat (1 :: u64))) w_ret as (w_init 2 arr) of None \<Rightarrow> False
    | Some (tr, s) \<Rightarrow> w_pc (w_threads s 0) = W_put \<and> w_heap s (w_arr (w_threads s 0)) = Some \<lparr>al_size = 1, al_kvs = [(4, 40)]\<rparr> \<and>
        w_heap s 320 = None"
    unfolding arr_def as_def by code_simp
  then obtain tr s where s: "object_run (w_call False) (w_step True (unat (1 :: u64))) w_ret as (w_init 2 arr) = Some (tr, s)"
    "w_pc (w_threads s 0) = W_put" "w_heap s (w_arr (w_threads s 0)) = Some \<lparr>al_size = 1, al_kvs = [(4, 40)]\<rparr>" "w_heap s 320 = None"
    by (auto split: option.splits)
  have idle: "w_pc (w_threads s i) = W_idle" if "i \<noteq> 0" for i
  proof -
    have "w_threads s i = w_threads (w_init 2 arr) i" by (rule w_run_others [OF s(1)]) (use that in \<open>simp add: as_def\<close>)
    then show ?thesis by (simp add: w_init_def w_idle_def)
  qed
  have p: "(2 :: u64) \<noteq> 0" "(320 :: ptr) \<noteq> NULL" by simp_all
  note copy_faults_only_full [OF p(1) object_run_exec [OF s(1) object_start, unfolded append_Nil] s(4) p(2)]
  moreover have "{i. w_pc (w_threads s i) \<in> {W_idle, W_done}} = - {0}" using idle s(2) by auto
  moreover have "{i. w_pc (w_threads s i) = W_put \<and> (\<exists>a. w_heap s (w_arr (w_threads s i)) = Some a \<and> length (al_kvs a) = 1)} = {0}"
    using idle s(2,3) by (auto, metis w_pc.distinct(1) w_pc.simps)
  ultimately show ?thesis using s(2) by auto
qed

end
