(* ===== verification/Spec2Isabelle.thy ===== *)
theory Spec2Isabelle
  imports Smr Smr_No_Membar Smr_No_Membar_Opt Smr_Lazy Smr_Membar_Lazy Epoch_Protocol Epoch_Solo Hazard_Protocol Hybrid_Lazy Sleepers Harris_Schemes Harris_Linear Htlock Lazy_List Coupling_List Copy_On_Write
begin

text \<open>
  Verification library of qsense-smr-nomembar: memory reclamation schemes for lock-free data
  structures (hazard pointers, Cadence, quiescent states, the QSense hybrid), the allocator and the
  small structures they use, the Harris linked list that is built on each of them, and the lists that
  lock their nodes.

  \<^bold>\<open>How the program's parts interact.\<close> A data structure operation (src/linkedlist-*/harris_opt.c)
  stores the nodes it uses in its hazard pointers, unlinks nodes and passes them to
  \<open>free_node_later\<close> of the scheme that is linked in. The scheme wraps a node in an \<open>mr_node\<close> that it
  gets from the arena allocator (src/ssalloc.c), puts the wrapper on a per-thread list, and from time
  to time scans: the wrappers whose node no hazard pointer protects (and, in Cadence, that are old
  enough; with quiescent states, that every thread has passed a quiescent state since) are freed, the
  node and the wrapper. Nodes and wrappers are read in the arena by address: a C pointer is \<open>ptr\<close>, a
  64-bit word; the heap is a partial map from addresses, and a dereference outside it is the fault
  \<open>None\<close>. Machine integers have the width of the source.

  \<^bold>\<open>Theories and sources.\<close>
  \<^item> \<open>Qs_Prelude\<close>: types, the option monad, lemmas on lists, maps and words.
  \<^item> \<open>Ssalloc\<close>: src/ssalloc.c. \<open>Memory\<close>: nodes and wrappers of include/mr.h, ages
    (\<open>is_old_enough\<close>). \<open>Dll\<close>: src/double_llist.c. \<open>Bloom\<close>: src/bloom.c, src/MurmurHash2.c.
  \<^item> \<open>Hazard\<close>, \<open>Retire\<close>: the parts of \<open>scan\<close> and \<open>free_node_later\<close> that the scheme files repeat.
  \<^item> \<open>Smr\<close>: src/smr.c. \<open>Smr_No_Membar\<close>: src/smr_no_membar.c. \<open>Smr_No_Membar_Opt\<close>:
    src/smr_no_membar_opt.c. \<open>Rotation\<close>, \<open>Smr_Lazy\<close>: src/smr_lazy.c. \<open>Smr_Membar_Lazy\<close>:
    src/smr_membar_lazy.c. \<open>Qsbr\<close>: src/qsbr.c. \<open>Limbo\<close>, \<open>Hybrid\<close>: src/qsbr_smr_hybrid.c.
    \<open>Hybrid_Lazy\<close>: src/hybrid_lazy.c. \<open>Sleepers\<close>: src/sleeper_threads.c. These run one thread; what the
    other threads do shows in the hazard pointers and epochs it reads, which are arbitrary, and in the
    argument \<open>env\<close> of the loops that wait.
  \<^item> \<open>Locks\<close>: the test-and-set, ticket and CLH locks of include/lock_if.h, include/clh.h, src/clh.c,
    as step relations of any number of threads.
  \<^item> \<open>Epoch_Protocol\<close>: \<open>quiescent_state\<close> and \<open>update_epoch\<close> of src/qsbr.c, all threads interleaved one
    shared access at a time; \<open>Epoch_Solo\<close>: when one thread runs, this is the function of \<open>Qsbr\<close>.
  \<^item> \<open>Hazard_Protocol\<close>: publication, validation, retirement and scan interleaved over store buffers.
  \<^item> \<open>Harris\<close>, \<open>Harris_Variants\<close>: src/linkedlist-*/harris_opt.c, linkedlist.c, intset.c, for the thread
    that runs alone. \<open>Harris_List\<close>, \<open>Harris_Set\<close>, \<open>Harris_Map\<close>, \<open>Harris_Stuck\<close>: its lemmas;
    \<open>Harris_Schemes\<close>: the list with each scheme.
  \<^item> \<open>Harris_Concurrent\<close>, \<open>Harris_Linear\<close>: the same list between threads: find, insert and delete
    interleaved one shared access at a time, with recycling of nodes; the atomic map it is compared with.
  \<^item> \<open>Htlock\<close>: the hierarchical ticket lock of src/htlock.c, per socket and global counters.
  \<^item> \<open>Map_Object\<close>: concurrent objects that threads use as a map, their executions and the contract of a
    linearizability proof. \<open>Lock_Nodes\<close>: linkedlist-lock.c, nodes with locks, paths of next pointers.
    \<open>Lazy_List\<close>: src/linkedlist-lazy/lazy.c. \<open>Coupling_List\<close>: src/linkedlist-coupling/coupling.c.
    \<open>Copy_On_Write\<close>: src/hashtable-copy/copy_on_write.c, src/linkedlist-copy/copy_on_write.c.

  \<^bold>\<open>What the lemmas show.\<close>
  \<^item> Each scan releases exactly the nodes it may release, in order, and keeps the invariant of its
    lists (\<open>smr_inv\<close>, \<open>lz_inv\<close>, \<open>ml_inv\<close>, \<open>q_inv\<close>, \<open>h_inv\<close>, \<open>hl_inv\<close>); \<open>free_node_later\<close> never frees a
    protected node and bounds the list; the exit functions return, or do not, as stated.
  \<^item> The lazy schemes keep a protected node by marking it in a rotation over the hazard pointers
    (\<open>Rotation\<close>); the marks are lost when a failed allocation makes the client scan.
  \<^item> Between threads: with calm executions the epochs protect every held node, and without they do not;
    hazard pointers with barriers protect, Cadence does as long as a scan is fast, and a slow scan breaks
    it. Each kind of lock excludes; ticket and CLH locks serve in the order of arrival.
  \<^item> The Harris list refines a map when one thread runs, on top of each scheme, and with dead nodes.
    Between threads every execution is one of an atomic map (linearizability, by a simulation whose
    invariant describes which retired nodes a thread may still hold); no access faults, and a node is
    handed to \<open>free_node_later\<close> once, unlinked.
  \<^item> The lazy list, whose lookups take no lock, and the hand-over-hand list are linearizable, do not
    fault and do not deadlock; the hand-over-hand list frees nodes at once, safely and without leaks.
    The copy-on-write table is linearizable and faults only where it writes behind a full array; its
    keys must not be given the value 0, which its functions use for absent.

  \<^bold>\<open>Interfaces.\<close> Locales: \<open>mutex_lock\<close> and \<open>fifo_lock\<close> (\<open>Locks\<close>, interpreted on the four locks),
  \<open>map_object\<close> and \<open>thread_object\<close> (\<open>Map_Object\<close>, interpreted on the lists that lock nodes),
  the rotation and switching contracts of the lazy and hybrid schemes, and the reclamation contract that
  the list needs of a scheme (\<open>Harris_Set\<close>, \<open>Harris_Map\<close>), interpreted on the schemes.

  \<^bold>\<open>Loops and fuel.\<close> A loop that may not end is \<open>partial_function (option)\<close>; the theorems that it returns
  prove a result for it. Loops over lists and arrays are structural.

  \<^bold>\<open>Not modelled.\<close> The malloc variant of the allocator (it forwards to the C library) and the GC = 0
  variants without reclamation; printing and statistics; thread creation, pinning and the measurement
  programs (test*.c, src/measurements.c); \<open>set_delete\<close>, which frees arena blocks with the C library's
  free; MUTEX and SPIN locks, which only call pthread; memory ordering
  beyond the store buffers of \<open>Hazard_Protocol\<close>: the other theories are sequentially consistent;
  the other data structures of the benchmark (trees, skip lists, queues, the other lists and hash
  tables).
\<close>

end
